(* ===== verification/Prelude.thy ===== *)
theory Prelude
  imports Main "HOL-Library.Multiset"
begin

text \<open>
  Shared material of the development: the 64-bit unsigned arithmetic of the
  sources (\<open>UInt64\<close>, \<open>IntPtr\<close>) as natural numbers with the wrap-around written
  out, the outcome type of operations that can run into undefined behaviour or
  a failed assertion, integer logarithms, and generic lemmas on lists of lists
  (the shape of the free lists) and on multisets of pages.
\<close>

section \<open>Collections\<close>

named_theorems u64_exact \<open>the wrapping operations are exact under a bound\<close>

section \<open>64-bit unsigned arithmetic\<close>

text \<open>
  A value of type \<open>u64\<close> is a natural number below \<open>2 ^ 64\<close>; every operation
  below reduces its result modulo \<open>2 ^ 64\<close> as the C++ operators do.
\<close>

type_synonym u64 = nat

definition add64 :: "u64 \<Rightarrow> u64 \<Rightarrow> u64" where
  "add64 a b = (a + b) mod 2 ^ 64"

definition sub64 :: "u64 \<Rightarrow> u64 \<Rightarrow> u64" where
  "sub64 a b = (a + 2 ^ 64 - b) mod 2 ^ 64"

definition mul64 :: "u64 \<Rightarrow> u64 \<Rightarrow> u64" where
  "mul64 a b = (a * b) mod 2 ^ 64"

text \<open>\<open>static_cast<UInt64>(-1)\<close>, the failure value of the allocators.\<close>

definition minus1_64 :: u64 where
  "minus1_64 = 2 ^ 64 - 1"

lemma add64_exact [u64_exact]: "a + b < 2 ^ 64 \<Longrightarrow> add64 a b = a + b"
  by (simp add: add64_def)

lemma sub64_exact [u64_exact]: "b \<le> a \<Longrightarrow> a < 2 ^ 64 \<Longrightarrow> sub64 a b = a - b"
proof -
  assume "b \<le> a" "a < 2 ^ 64"
  then have "a + 2 ^ 64 - b = (a - b) + 2 ^ 64"
    by (simp only: diff_add_assoc2)
  moreover from \<open>a < 2 ^ 64\<close> have "a - b < 2 ^ 64"
    by (rule le_less_trans [OF diff_le_self])
  ultimately show ?thesis by (simp only: sub64_def mod_add_self2 mod_less)
qed

lemma mul64_exact [u64_exact]: "a * b < 2 ^ 64 \<Longrightarrow> mul64 a b = a * b"
  by (simp add: mul64_def)

lemma add64_bound [simp]: "add64 a b < 2 ^ 64"
  by (simp add: add64_def)

lemma sub64_bound [simp]: "sub64 a b < 2 ^ 64"
  by (simp add: sub64_def)

lemma mul64_bound [simp]: "mul64 a b < 2 ^ 64"
  by (simp add: mul64_def)

text \<open>\<open>static_cast<int>\<close> of an unsigned value: the two's complement reading of the low 32 bits.\<close>

definition to_int32 :: "u64 \<Rightarrow> int" where
  "to_int32 n = (if n mod 2 ^ 32 < 2 ^ 31 then int (n mod 2 ^ 32) else int (n mod 2 ^ 32) - 2 ^ 32)"

lemma to_int32_exact [u64_exact]: "n < 2 ^ 31 \<Longrightarrow> to_int32 n = int n"
  by (simp add: to_int32_def)

lemma pow2_le_pos: "2 ^ k \<le> n \<Longrightarrow> 0 < (n :: nat)"
  by (rule less_le_trans [OF zero_less_power]) simp_all

section \<open>Outcomes\<close>

text \<open>
  The C++ code signals nothing on an out-of-range vector access, on \<open>back()\<close> of
  an empty vector or on an out-of-range conversion: the behaviour is undefined.
  A failed \<open>assert\<close> or \<open>LOG_ASSERT_ERROR\<close> stops the simulation. Both are values
  of the model.
\<close>

datatype cpp_error = Undefined_Behaviour | Assertion_Failed

type_synonym 'a outcome = "cpp_error + 'a"

lemma map_sum_InrE: "map_sum id f r = Inr y \<Longrightarrow> (\<And>x. r = Inr x \<Longrightarrow> y = f x \<Longrightarrow> P) \<Longrightarrow> P"
  by (cases r) auto

section \<open>Integer logarithms\<close>

text \<open>
  \<open>ceil(log2(n))\<close> and the truncation of \<open>log2(n)\<close> to \<open>int\<close>, for \<open>n \<ge> 1\<close>. The
  doubles of the code agree with these integers for every \<open>n \<le> 2 ^ 48\<close>: there
  \<open>log2(2 ^ k + 1) - k\<close> is more than half a unit in the last place.
\<close>

fun ceil_log2 :: "nat \<Rightarrow> nat" where
  "ceil_log2 n = (if n \<le> 1 then 0 else Suc (ceil_log2 ((n + 1) div 2)))"

fun floor_log2 :: "nat \<Rightarrow> nat" where
  "floor_log2 n = (if n \<le> 1 then 0 else Suc (floor_log2 (n div 2)))"

declare ceil_log2.simps [simp del] floor_log2.simps [simp del]

lemma ceil_log2_le1 [simp]: "n \<le> 1 \<Longrightarrow> ceil_log2 n = 0"
  by (simp add: ceil_log2.simps)

lemma floor_log2_le1 [simp]: "n \<le> 1 \<Longrightarrow> floor_log2 n = 0"
  by (simp add: floor_log2.simps)

lemma ceil_log2_ge: "n \<le> 2 ^ ceil_log2 n"
proof (induction n rule: ceil_log2.induct)
  case (1 n)
  show ?case
  proof (cases "n \<le> 1")
    case False
    with "1.IH" have "(n + 1) div 2 \<le> 2 ^ ceil_log2 ((n + 1) div 2)" by simp
    then have "n \<le> 2 * 2 ^ ceil_log2 ((n + 1) div 2)" by linarith
    with False show ?thesis by (simp add: ceil_log2.simps [of n])
  qed (use le_trans in fastforce)
qed

lemma ceil_log2_least: "n \<le> 2 ^ k \<Longrightarrow> ceil_log2 n \<le> k"
proof (induction n arbitrary: k rule: ceil_log2.induct)
  case (1 n)
  show ?case
  proof (cases "n \<le> 1")
    case False
    with "1.prems" obtain k' where k: "k = Suc k'" by (cases k) auto
    with "1.prems" have "(n + 1) div 2 \<le> 2 ^ k'" by simp
    with "1.IH" False have "ceil_log2 ((n + 1) div 2) \<le> k'" by simp
    with False k show ?thesis by (simp add: ceil_log2.simps [of n])
  qed simp
qed

lemma ceil_log2_power [simp]: "ceil_log2 (2 ^ k) = k"
proof (rule antisym)
  show "ceil_log2 (2 ^ k) \<le> k" by (rule ceil_log2_least) simp
  have "(2::nat) ^ k \<le> 2 ^ ceil_log2 (2 ^ k)" by (rule ceil_log2_ge)
  then show "k \<le> ceil_log2 (2 ^ k)" by simp
qed

lemma floor_log2_le: "0 < n \<Longrightarrow> 2 ^ floor_log2 n \<le> n"
proof (induction n rule: floor_log2.induct)
  case (1 n)
  show ?case
  proof (cases "n \<le> 1")
    case False
    with "1.IH" have "2 ^ floor_log2 (n div 2) \<le> n div 2" by simp
    with False show ?thesis by (simp add: floor_log2.simps [of n])
  qed (use "1.prems" in simp)
qed

section \<open>Lists\<close>

text \<open>The index of the first element with a property (a \<open>for\<close> loop with a \<open>break\<close>).\<close>

fun find_index :: "('a \<Rightarrow> bool) \<Rightarrow> 'a list \<Rightarrow> nat option" where
  "find_index P [] = None"
| "find_index P (x # xs) = (if P x then Some 0 else map_option Suc (find_index P xs))"

lemma find_index_None_iff: "find_index P xs = None \<longleftrightarrow> (\<forall>x \<in> set xs. \<not> P x)"
  by (induction xs) auto

lemma find_index_SomeD:
  "find_index P xs = Some i \<Longrightarrow> i < length xs \<and> P (xs ! i) \<and> (\<forall>j < i. \<not> P (xs ! j))"
proof (induction xs arbitrary: i)
  case (Cons x xs)
  then show ?case
    by (cases i) (auto split: if_splits simp: nth_Cons split: nat.splits)
qed simp

text \<open>Removing the element at an index (\<open>v.erase(v.begin() + i)\<close>).\<close>

definition remove_nth :: "nat \<Rightarrow> 'a list \<Rightarrow> 'a list" where
  "remove_nth i xs = take i xs @ drop (Suc i) xs"

lemma mset_remove_nth: "i < length xs \<Longrightarrow> add_mset (xs ! i) (mset (remove_nth i xs)) = mset xs"
  by (metis remove_nth_def id_take_nth_drop mset.simps(2) mset_append union_mset_add_mset_right)

lemma set_remove_nth_subset: "set (remove_nth i xs) \<subseteq> set xs"
  by (auto simp: remove_nth_def dest: in_set_takeD in_set_dropD)

lemma mset_concat_update:
  "i < length fl \<Longrightarrow> mset (concat (fl[i := xs])) + mset (fl ! i) = mset (concat fl) + mset xs"
proof (induction fl arbitrary: i)
  case (Cons l fl)
  then show ?case by (cases i) (auto simp: ac_simps)
qed simp

lemma mset_butlast_last: "xs \<noteq> [] \<Longrightarrow> add_mset (last xs) (mset (butlast xs)) = mset xs"
  by (metis append_butlast_last_id mset.simps(2) mset_append union_mset_add_mset_right mset.simps(1) add.right_neutral)

lemma mset_hd_tl: "xs \<noteq> [] \<Longrightarrow> add_mset (hd xs) (mset (tl xs)) = mset xs"
  by (cases xs) auto

lemma distinct_if_count_le1:
  assumes "\<And>x. count (mset xs) x \<le> 1"
  shows "distinct xs"
proof -
  have "count (mset xs) x = (if x \<in> set xs then 1 else 0)" for x
    using assms [of x] by (cases "x \<in> set xs") (auto simp: le_Suc_eq)
  then show ?thesis by (simp add: distinct_count_atmost_1)
qed

text \<open>A filtered sum after one element of the list is replaced.\<close>

lemma sum_map_update:
  fixes f :: "'a \<Rightarrow> 'b::comm_monoid_add"
  shows "i < length xs \<Longrightarrow>
    (\<Sum>x\<leftarrow>xs[i := y]. f x) + f (xs ! i) = (\<Sum>x\<leftarrow>xs. f x) + f y"
proof (induction xs arbitrary: i)
  case (Cons x xs)
  then show ?case by (cases i) (simp_all add: ac_simps)
qed simp

lemma sum_filter_update:
  fixes f :: "'a \<Rightarrow> 'b::comm_monoid_add"
  assumes "i < length xs"
  shows "(\<Sum>x\<leftarrow>filter P (xs[i := y]). f x) + (if P (xs ! i) then f (xs ! i) else 0) =
    (\<Sum>x\<leftarrow>filter P xs. f x) + (if P y then f y else 0)"
  using sum_map_update [OF assms, of "\<lambda>x. if P x then f x else 0" y]
  by (simp only: sum_list_map_filter')

lemma length_filter_update:
  "i < length xs \<Longrightarrow>
    length (filter P (xs[i := y])) + (if P (xs ! i) then 1 else 0) =
    length (filter P xs) + (if P y then 1 else 0)"
  using sum_filter_update [of i xs "\<lambda>_. 1 :: nat" P y] by (simp add: sum_list_triv)

lemma in_set_updateD: "y \<in> set (xs[i := x]) \<Longrightarrow> y = x \<or> y \<in> set xs"
  using set_update_subset_insert [of xs i x] by blast

section \<open>Ordered maps\<close>

text \<open>\<open>std::map\<close> as the list of its entries in key order.\<close>

fun map_put :: "'k::linorder \<Rightarrow> 'v \<Rightarrow> ('k \<times> 'v) list \<Rightarrow> ('k \<times> 'v) list" where
  "map_put k v [] = [(k, v)]"
| "map_put k v ((k', v') # m) =
     (if k < k' then (k, v) # (k', v') # m
      else if k = k' then (k, v) # m
      else (k', v') # map_put k v m)"

definition map_erase :: "'k \<Rightarrow> ('k \<times> 'v) list \<Rightarrow> ('k \<times> 'v) list" where
  "map_erase k m = filter (\<lambda>e. fst e \<noteq> k) m"

definition map_wf :: "('k::linorder \<times> 'v) list \<Rightarrow> bool" where
  "map_wf m \<longleftrightarrow> sorted_wrt (<) (map fst m)"

lemma map_of_put [simp]: "map_of (map_put k v m) = (map_of m)(k \<mapsto> v)"
  by (induction k v m rule: map_put.induct) (auto simp: fun_eq_iff)

lemma map_of_erase [simp]: "map_of (map_erase k m) = (map_of m)(k := None)"
  by (induction m) (auto simp: map_erase_def fun_eq_iff)

lemma set_map_put: "map_wf m \<Longrightarrow> set (map_put k v m) = insert (k, v) {e \<in> set m. fst e \<noteq> k}"
  by (induction k v m rule: map_put.induct) (auto simp: map_wf_def)

lemma map_wf_put [simp]: "map_wf m \<Longrightarrow> map_wf (map_put k v m)"
proof (induction k v m rule: map_put.induct)
  case (2 k v k' v' m)
  then have "map_wf m" by (simp add: map_wf_def)
  with 2 show ?case by (auto simp: map_wf_def set_map_put [unfolded map_wf_def])
qed (simp add: map_wf_def)

lemma map_wf_erase [simp]: "map_wf m \<Longrightarrow> map_wf (map_erase k m)"
  by (simp add: map_wf_def map_erase_def sorted_wrt_map sorted_wrt_filter)

lemma map_wf_Nil [simp]: "map_wf []"
  by (simp add: map_wf_def)

lemma map_wf_distinct: "map_wf m \<Longrightarrow> distinct (map fst m)"
  by (simp add: map_wf_def strict_sorted_iff)

text \<open>The entries of a well-formed map, as a multiset, after an insertion.\<close>

lemma mset_map_put_new: "k \<notin> fst ` set m \<Longrightarrow> mset (map_put k v m) = add_mset (k, v) (mset m)"
  by (induction k v m rule: map_put.induct) auto

lemma mset_map_put_old:
  "map_wf m \<Longrightarrow> map_of m k = Some w \<Longrightarrow>
   add_mset (k, w) (mset (map_put k v m)) = add_mset (k, v) (mset m)"
  by (induction k v m rule: map_put.induct)
     (auto simp: map_wf_def dest!: map_of_SomeD, force)

lemma mset_map_erase:
  "map_wf m \<Longrightarrow> map_of m k = Some w \<Longrightarrow> add_mset (k, w) (mset (map_erase k m)) = mset m"
proof (induction m)
  case (Cons e m)
  show ?case
  proof (cases "fst e = k")
    case True
    with Cons.prems have "map_erase k m = m"
      by (auto simp: map_erase_def map_wf_def filter_id_conv)
    with True Cons.prems show ?thesis by (cases e) (simp add: map_erase_def)
  next
    case False
    with Cons show ?thesis by (cases e) (simp add: map_erase_def map_wf_def)
  qed
qed simp

end
