(* ===== verification/Buddy.thy ===== *)
theory Buddy
  imports Prelude
begin

text \<open>
  The buddy allocator of \<open>include/memory_management/physical_memory_allocators/buddy.h\<close>.
  Its state is a vector of free lists indexed by order; a block is the source's
  4-tuple (first page, last page, flag, core). The theory translates the
  constructor, \<open>checkIfFree\<close>, \<open>allocate\<close>, \<open>reserve_2mb_page\<close>, \<open>free\<close>,
  \<open>getFreeLargePageCount\<close> and \<open>fragmentMemoryToTargetCount\<close>, gives the
  representation invariant and proves that every operation moves pages between
  the free lists and its caller without losing, inventing or duplicating one.
  Logging and the (disabled) duplicate-detection code are left out, and so are
  the arguments that are only logged (\<open>address\<close>, \<open>core_id\<close>).
\<close>

section \<open>State\<close>

type_synonym block = "u64 \<times> u64 \<times> bool \<times> u64"

definition mk_block :: "u64 \<Rightarrow> u64 \<Rightarrow> block" where
  "mk_block s e = (s, e, False, minus1_64)"

fun blk_start :: "block \<Rightarrow> u64" where
  "blk_start (s, e, used, core) = s"

fun blk_end :: "block \<Rightarrow> u64" where
  "blk_end (s, e, used, core) = e"

definition block_size :: "block \<Rightarrow> u64" where
  "block_size b = add64 (sub64 (blk_end b) (blk_start b)) 1"

record buddy =
  m_memory_size :: nat
  m_max_order :: nat
  m_kernel_size :: nat
  m_total_pages :: u64
  m_free_pages :: u64
  free_list :: "block list list"

text \<open>\<open>free_list[i].push_back(b)\<close> and \<open>free_list[i].pop_back()\<close>.\<close>

definition push_back :: "nat \<Rightarrow> block \<Rightarrow> block list list \<Rightarrow> block list list" where
  "push_back i b fl = fl[i := fl ! i @ [b]]"

definition pop_back :: "nat \<Rightarrow> block list list \<Rightarrow> block list list" where
  "pop_back i fl = fl[i := butlast (fl ! i)]"

section \<open>Constructor\<close>

text \<open>
  The inner loop cuts blocks of one order off the available memory, the outer
  loop goes down the orders. The subtraction from \<open>available_mem_in_pages\<close> is
  guarded by the loop condition, so it does not wrap.
\<close>

function fill_order :: "nat \<Rightarrow> u64 \<Rightarrow> u64 \<Rightarrow> block list list \<Rightarrow> u64 \<times> u64 \<times> block list list" where
  "fill_order k cur avail fl =
     (if 2 ^ k \<le> avail
      then fill_order k (add64 cur (2 ^ k)) (avail - 2 ^ k)
             (push_back k (mk_block cur (sub64 (add64 cur (2 ^ k)) 1)) fl)
      else (cur, avail, fl))"
  by pat_completeness auto
termination
  by (relation "measure (\<lambda>(k, cur, avail, fl). avail)")
     (auto intro!: diff_less intro: pow2_le_pos)

declare fill_order.simps [simp del]

fun fill_orders :: "nat \<Rightarrow> u64 \<Rightarrow> u64 \<Rightarrow> u64 \<Rightarrow> block list list \<Rightarrow> block list list" where
  "fill_orders k limit cur avail fl =
     (if cur < limit
      then (case fill_order k cur avail fl of (cur', avail', fl') \<Rightarrow>
             (case k of 0 \<Rightarrow> fl' | Suc k' \<Rightarrow> fill_orders k' limit cur' avail' fl'))
      else fl)"

declare fill_orders.simps [simp del]

text \<open>
  The vector is resized to \<open>max_order + 1\<close> lists and then \<open>max_order + 1\<close> further
  empty lists are appended, so it ends up twice as long as needed.
\<close>

definition buddy_new :: "nat \<Rightarrow> nat \<Rightarrow> nat \<Rightarrow> buddy" where
  "buddy_new memory_size max_order kernel_size =
     (let limit = mul64 memory_size 1024 div 4;
          base = mul64 kernel_size 1024 div 4;
          total = sub64 limit base
      in \<lparr> m_memory_size = memory_size, m_max_order = max_order, m_kernel_size = kernel_size,
           m_total_pages = total, m_free_pages = total,
           free_list = fill_orders max_order limit base total
             (replicate (max_order + 1) [] @ replicate (max_order + 1) []) \<rparr>)"

section \<open>Allocation\<close>

text \<open>The first order from \<open>i\<close> upwards with a free block, or \<open>max_order + 1\<close>.\<close>

function first_nonempty :: "block list list \<Rightarrow> nat \<Rightarrow> nat \<Rightarrow> nat" where
  "first_nonempty fl i mo = (if i \<le> mo \<and> fl ! i = [] then first_nonempty fl (Suc i) mo else i)"
  by pat_completeness auto
termination
  by (relation "measure (\<lambda>(fl, i, mo). Suc mo - i)") auto

declare first_nonempty.simps [simp del]

text \<open>
  The splitting loop of \<open>allocate\<close>; the first argument is \<open>i + 1\<close> for the code's
  loop variable \<open>i\<close>, which counts down to \<open>ind - 1\<close> (possibly \<open>-1\<close>).
\<close>

fun split_block :: "nat \<Rightarrow> nat \<Rightarrow> block \<Rightarrow> block list list \<Rightarrow> (block \<times> block list list) outcome" where
  "split_block 0 ind b fl = Inr (b, fl)"
| "split_block (Suc i) ind b fl =
     (if ind \<le> i
      then (let half = sub64 (blk_end b) (blk_start b) div 2;
                pair1 = mk_block (blk_start b) (add64 (blk_start b) half);
                pair2 = mk_block (add64 (add64 (blk_start b) half) 1) (blk_end b)
            in if block_size pair2 = 2 ^ i
               then let fl' = push_back i pair2 (push_back i pair1 fl)
                    in split_block i ind (last (fl' ! i)) (pop_back i fl')
               else Inl Assertion_Failed)
      else Inr (b, fl))"

text \<open>
  \<open>ceil(log2(bytes / 4096))\<close> is minus infinity for less than a page and its
  conversion to \<open>int\<close> is undefined. An order above \<open>max_order + 1\<close> passes the
  out-of-memory test and reads \<open>back()\<close> of an empty or missing list.
\<close>

definition allocate :: "buddy \<Rightarrow> u64 \<Rightarrow> (u64 \<times> buddy) outcome" where
  "allocate bd bytes =
     (if bytes div 4096 = 0 then Inl Undefined_Behaviour
      else let ind = ceil_log2 (bytes div 4096);
               fl = free_list bd;
               i = first_nonempty fl ind (m_max_order bd)
           in if i = m_max_order bd + 1 then Inr (minus1_64, bd)
              else if length fl \<le> i \<or> fl ! i = [] then Inl Undefined_Behaviour
              else (case split_block i ind (last (fl ! i)) (pop_back i fl) of
                      Inl e \<Rightarrow> Inl e
                    | Inr (b, fl') \<Rightarrow>
                        Inr (blk_start b,
                             bd\<lparr>free_list := fl', m_free_pages := sub64 (m_free_pages bd) (2 ^ ind)\<rparr>)))"

section \<open>Reserving a 2MB region\<close>

text \<open>The blocks of order \<open>k\<close> that a loop of \<open>n\<close> iterations cuts from \<open>start\<close>.\<close>

definition chunk_blocks :: "u64 \<Rightarrow> nat \<Rightarrow> nat \<Rightarrow> block list" where
  "chunk_blocks start k n =
     map (\<lambda>j. mk_block (add64 start (mul64 j (2 ^ k)))
                       (sub64 (add64 start (mul64 (j + 1) (2 ^ k))) 1)) [0..<n]"

definition reserve_2mb_page :: "buddy \<Rightarrow> (block \<times> buddy) outcome" where
  "reserve_2mb_page bd =
     (let fl = free_list bd in
      if length fl \<le> 9 then Inl Undefined_Behaviour
      else if fl ! 9 \<noteq> [] then Inr (last (fl ! 9), bd\<lparr>free_list := pop_back 9 fl\<rparr>)
      else let i = first_nonempty fl 10 (m_max_order bd) in
           if i \<le> m_max_order bd
           then if length fl \<le> i then Inl Undefined_Behaviour
                else let temp = hd (fl ! i);
                         fl1 = fl[i := tl (fl ! i)];
                         chunk = block_size temp div 512;
                         fl2 = fl1[9 := fl1 ! 9 @ chunk_blocks (blk_start temp) 9 chunk]
                     in if fl2 ! 9 = [] then Inl Undefined_Behaviour
                        else Inr (last (fl2 ! 9), bd\<lparr>free_list := pop_back 9 fl2\<rparr>)
           else Inr ((minus1_64, 0, False, 0), bd))"

section \<open>Freeing\<close>

definition free :: "buddy \<Rightarrow> u64 \<Rightarrow> u64 \<Rightarrow> buddy outcome" where
  "free bd s e =
     (let n = add64 (sub64 e s) 1; order = ceil_log2 n in
      if n = 0 \<or> length (free_list bd) \<le> order then Inl Undefined_Behaviour
      else Inr (bd\<lparr>free_list := push_back order (mk_block s e) (free_list bd),
                   m_free_pages := add64 (m_free_pages bd) (2 ^ order)\<rparr>))"

section \<open>Looking for a given page\<close>

definition block_contains :: "u64 \<Rightarrow> block \<Rightarrow> bool" where
  "block_contains p b \<longleftrightarrow> blk_start b \<le> p \<and> p \<le> blk_end b"

fun search_orders :: "u64 \<Rightarrow> block list list \<Rightarrow> nat \<Rightarrow> (nat \<times> nat) option" where
  "search_orders p [] i = None"
| "search_orders p (l # ls) i =
     (case find_index (block_contains p) l of
        Some j \<Rightarrow> Some (i, j)
      | None \<Rightarrow> search_orders p ls (Suc i))"

text \<open>Splitting down to the single page; the argument is \<open>current_order\<close>.\<close>

fun split_to_page :: "nat \<Rightarrow> u64 \<Rightarrow> block \<Rightarrow> block list list \<Rightarrow> block \<times> block list list" where
  "split_to_page 0 p b fl = (b, fl)"
| "split_to_page (Suc k) p b fl =
     (let mid = add64 (blk_start b) (sub64 (blk_end b) (blk_start b) div 2);
          buddy1 = mk_block (blk_start b) mid;
          buddy2 = mk_block (add64 mid 1) (blk_end b)
      in if p \<le> mid then split_to_page k p buddy1 (push_back k buddy2 fl)
         else split_to_page k p buddy2 (push_back k buddy1 fl))"

definition checkIfFree :: "buddy \<Rightarrow> u64 \<Rightarrow> bool \<Rightarrow> (bool \<times> buddy) outcome" where
  "checkIfFree bd p alloc =
     (let fl = free_list bd in
      if length fl \<le> m_max_order bd then Inl Undefined_Behaviour
      else (case search_orders p (take (m_max_order bd + 1) fl) 0 of
              None \<Rightarrow> Inr (False, bd)
            | Some (i, j) \<Rightarrow>
                if alloc
                then let b = fl ! i ! j;
                         fl' = snd (split_to_page i p b (fl[i := remove_nth j (fl ! i)]))
                     in Inr (True, bd\<lparr>free_list := fl', m_free_pages := sub64 (m_free_pages bd) 1\<rparr>)
                else Inr (True, bd)))"

section \<open>Fragmentation to a page count\<close>

definition getFreeLargePageCount :: "buddy \<Rightarrow> u64" where
  "getFreeLargePageCount bd =
     fold (\<lambda>b count. if 512 \<le> block_size b then add64 count (block_size b div 512) else count)
       (concat (free_list bd)) 0"

fun highest_big :: "block list list \<Rightarrow> nat \<Rightarrow> nat option" where
  "highest_big fl i =
     (if i < 9 then None else if fl ! i \<noteq> [] then Some i else highest_big fl (i - 1))"

declare highest_big.simps [simp del]

text \<open>
  One pass of the \<open>for\<close> loop: the first block of the highest non-empty order
  becomes blocks of order 8. The random order is drawn from \<open>8 .. min(i - 1, 8)\<close>,
  so it is 8.
\<close>

definition split_largest :: "nat \<Rightarrow> block list list \<Rightarrow> block list list" where
  "split_largest i fl =
     (let temp = hd (fl ! i);
          fl1 = fl[i := tl (fl ! i)];
          chunk = block_size temp div 2 ^ 8
      in fl1[8 := fl1 ! 8 @ chunk_blocks (blk_start temp) 8 chunk])"

definition big_blocks :: "nat \<Rightarrow> block list list \<Rightarrow> nat" where
  "big_blocks mo fl = (\<Sum>i = 9..mo. length (fl ! i))"

lemma highest_big_SomeD:
  "highest_big fl mo = Some i \<Longrightarrow> 9 \<le> i \<and> i \<le> mo \<and> fl ! i \<noteq> []"
proof (induction fl mo rule: highest_big.induct)
  case (1 fl mo)
  then show ?case
    by (auto simp: highest_big.simps [of fl mo] split: if_splits)
qed

lemma highest_big_NoneD:
  "highest_big fl mo = None \<Longrightarrow> 9 \<le> i \<Longrightarrow> i \<le> mo \<Longrightarrow> fl ! i = []"
proof (induction fl mo rule: highest_big.induct)
  case (1 fl mo)
  then show ?case
    by (cases "i = mo") (auto simp: highest_big.simps [of fl mo] split: if_splits)
qed

lemma big_blocks_split_largest:
  assumes "9 \<le> i" "i \<le> mo" "mo < length fl" "fl ! i \<noteq> []"
  shows "big_blocks mo (split_largest i fl) < big_blocks mo fl"
proof -
  have "split_largest i fl ! j = (if j = i then tl (fl ! i) else fl ! j)" if "j \<in> {9..mo}" for j
    using that assms by (auto simp: split_largest_def Let_def nth_list_update)
  then have "big_blocks mo (split_largest i fl) =
      (\<Sum>j = 9..mo. length (if j = i then tl (fl ! i) else fl ! j))"
    by (simp add: big_blocks_def)
  also have "\<dots> < (\<Sum>j = 9..mo. length (fl ! j))"
    by (rule sum_strict_mono_ex1) (use assms in auto)
  finally show ?thesis by (simp add: big_blocks_def)
qed

function fragmentMemoryToTargetCount :: "u64 \<Rightarrow> buddy \<Rightarrow> buddy outcome" where
  "fragmentMemoryToTargetCount target bd =
     (if length (free_list bd) \<le> m_max_order bd then Inl Undefined_Behaviour
      else if target < getFreeLargePageCount bd
      then (case highest_big (free_list bd) (m_max_order bd) of
              None \<Rightarrow> Inr bd
            | Some i \<Rightarrow>
                fragmentMemoryToTargetCount target (bd\<lparr>free_list := split_largest i (free_list bd)\<rparr>))
      else Inr bd)"
  by pat_completeness auto
termination
  by (relation "measure (\<lambda>(target, bd). big_blocks (m_max_order bd) (free_list bd))")
     (auto intro!: big_blocks_split_largest dest: highest_big_SomeD)

declare fragmentMemoryToTargetCount.simps [simp del]

section \<open>Free pages and the representation invariant\<close>

definition block_pages :: "block \<Rightarrow> nat list" where
  "block_pages b = [blk_start b..<Suc (blk_end b)]"

definition pages_of :: "block list \<Rightarrow> nat multiset" where
  "pages_of bs = (\<Sum>b \<in># mset bs. mset (block_pages b))"

definition free_pages :: "block list list \<Rightarrow> nat multiset" where
  "free_pages fl = pages_of (concat fl)"

text \<open>A block of order \<open>k\<close> holds \<open>2 ^ k\<close> pages and ends below the failure value.\<close>

definition blk_ok :: "nat \<Rightarrow> block \<Rightarrow> bool" where
  "blk_ok k b \<longleftrightarrow> blk_end b + 1 = blk_start b + 2 ^ k \<and> blk_end b + 1 < 2 ^ 64"

definition blocks_ok :: "block list list \<Rightarrow> bool" where
  "blocks_ok fl \<longleftrightarrow> (\<forall>i < length fl. \<forall>b \<in> set (fl ! i). blk_ok i b)"

definition buddy_inv :: "buddy \<Rightarrow> bool" where
  "buddy_inv bd \<longleftrightarrow>
     length (free_list bd) = 2 * (m_max_order bd + 1) \<and>
     blocks_ok (free_list bd) \<and>
     (\<forall>i. m_max_order bd < i \<and> i < length (free_list bd) \<longrightarrow> free_list bd ! i = []) \<and>
     (\<forall>p. count (free_pages (free_list bd)) p \<le> 1) \<and>
     size (free_pages (free_list bd)) \<le> m_free_pages bd \<and> m_free_pages bd < 2 ^ 64"

lemma pages_of_simps [simp]:
  "pages_of [] = {#}"
  "pages_of (b # bs) = mset (block_pages b) + pages_of bs"
  "pages_of (xs @ ys) = pages_of xs + pages_of ys"
  by (simp_all add: pages_of_def)

lemma pages_of_mset_cong: "mset xs = mset ys \<Longrightarrow> pages_of xs = pages_of ys"
  by (simp add: pages_of_def)

lemma mk_block_sel [simp]: "blk_start (mk_block s e) = s" "blk_end (mk_block s e) = e"
  by (simp_all add: mk_block_def)

lemma length_push_back [simp]: "length (push_back i b fl) = length fl"
  by (simp add: push_back_def)

lemma length_pop_back [simp]: "length (pop_back i fl) = length fl"
  by (simp add: pop_back_def)

lemma nth_push_back:
  "i < length fl \<Longrightarrow> push_back i b fl ! j = (if j = i then fl ! i @ [b] else fl ! j)"
  by (simp add: push_back_def nth_list_update)

lemma nth_pop_back:
  "i < length fl \<Longrightarrow> pop_back i fl ! j = (if j = i then butlast (fl ! i) else fl ! j)"
  by (simp add: pop_back_def nth_list_update)

lemma pop_push_back [simp]: "i < length fl \<Longrightarrow> pop_back i (push_back i b fl) = fl"
  by (simp add: pop_back_def push_back_def)

lemma free_pages_update:
  assumes "i < length fl"
  shows "free_pages (fl[i := xs]) + pages_of (fl ! i) = free_pages fl + pages_of xs"
  using pages_of_mset_cong [of "concat (fl[i := xs]) @ fl ! i" "concat fl @ xs"]
    mset_concat_update [OF assms, of xs]
  by (simp add: free_pages_def)

lemma free_pages_push:
  "i < length fl \<Longrightarrow> free_pages (push_back i b fl) = free_pages fl + mset (block_pages b)"
  using free_pages_update [of i fl "fl ! i @ [b]"] by (simp add: push_back_def ac_simps)

lemma pages_of_butlast:
  "xs \<noteq> [] \<Longrightarrow> pages_of (butlast xs) + mset (block_pages (last xs)) = pages_of xs"
  using pages_of_simps(3) [of "butlast xs" "[last xs]"] by simp

lemma free_pages_pop:
  assumes "i < length fl" "fl ! i \<noteq> []"
  shows "free_pages (pop_back i fl) + mset (block_pages (last (fl ! i))) = free_pages fl"
proof -
  let ?l = "mset (block_pages (last (fl ! i)))" and ?r = "pages_of (butlast (fl ! i))"
  have "free_pages (pop_back i fl) + (?r + ?l) = free_pages fl + ?r"
    using free_pages_update [OF assms(1), of "butlast (fl ! i)"]
    by (simp only: pages_of_butlast [OF assms(2)] pop_back_def)
  then have "(free_pages (pop_back i fl) + ?l) + ?r = free_pages fl + ?r"
    by (simp only: ac_simps)
  then show ?thesis by (simp only: add_right_cancel)
qed

lemma blocks_okD: "blocks_ok fl \<Longrightarrow> i < length fl \<Longrightarrow> b \<in> set (fl ! i) \<Longrightarrow> blk_ok i b"
  by (simp add: blocks_ok_def)

lemma blocks_ok_update:
  "blocks_ok fl \<Longrightarrow> (\<And>b. b \<in> set xs \<Longrightarrow> blk_ok i b) \<Longrightarrow> blocks_ok (fl[i := xs])"
  unfolding blocks_ok_def by (metis length_list_update nth_list_update_eq nth_list_update_neq)

lemma blocks_ok_push:
  "blocks_ok fl \<Longrightarrow> i < length fl \<Longrightarrow> blk_ok i b \<Longrightarrow> blocks_ok (push_back i b fl)"
  unfolding push_back_def by (rule blocks_ok_update) (auto dest: blocks_okD)

lemma blocks_ok_pop: "blocks_ok fl \<Longrightarrow> i < length fl \<Longrightarrow> blocks_ok (pop_back i fl)"
  unfolding pop_back_def by (rule blocks_ok_update) (auto dest: blocks_okD in_set_butlastD)

lemma blk_okD:
  assumes "blk_ok k b"
  shows "blk_start b \<le> blk_end b" "blk_end b < 2 ^ 64" "blk_end b - blk_start b = 2 ^ k - 1"
    "blk_start b < minus1_64" "blk_start b + 2 ^ k < 2 ^ 64"
proof -
  from assms have e: "blk_end b + 1 = blk_start b + 2 ^ k" and l: "blk_end b + 1 < 2 ^ 64"
    by (simp_all add: blk_ok_def)
  have p: "0 < (2::nat) ^ k" by simp
  show "blk_start b \<le> blk_end b" "blk_end b < 2 ^ 64" "blk_end b - blk_start b = 2 ^ k - 1"
    "blk_start b + 2 ^ k < 2 ^ 64"
    using e l p by linarith+
  then show "blk_start b < minus1_64"
    unfolding minus1_64_def using l by linarith
qed

lemma block_pages_ok: "blk_ok k b \<Longrightarrow> block_pages b = [blk_start b..<blk_start b + 2 ^ k]"
  by (simp add: blk_ok_def block_pages_def)

lemma block_size_ok: "blk_ok k b \<Longrightarrow> block_size b = 2 ^ k"
proof -
  assume ok: "blk_ok k b"
  then have "sub64 (blk_end b) (blk_start b) = 2 ^ k - 1"
    using blk_okD [OF ok] by (simp add: sub64_exact)
  moreover have "(2::nat) ^ k < 2 ^ 64"
    using blk_okD [OF ok] by simp
  ultimately show ?thesis
    using pow2_le_pos [of k "2 ^ k"] by (simp add: block_size_def add64_exact)
qed

subsection \<open>Halving a block\<close>

definition blk_mid :: "block \<Rightarrow> u64" where
  "blk_mid b = add64 (blk_start b) (sub64 (blk_end b) (blk_start b) div 2)"

lemma halves_ok:
  assumes ok: "blk_ok (Suc k) b"
  defines "m \<equiv> blk_mid b"
  shows "m = blk_start b + 2 ^ k - 1"
    and "blk_ok k (mk_block (blk_start b) m)"
    and "blk_ok k (mk_block (add64 m 1) (blk_end b))"
    and "mset (block_pages (mk_block (blk_start b) m)) +
         mset (block_pages (mk_block (add64 m 1) (blk_end b))) = mset (block_pages b)"
    and "block_size (mk_block (add64 m 1) (blk_end b)) = 2 ^ k"
    and "add64 m 1 = blk_start b + 2 ^ k"
proof -
  note d = blk_okD [OF ok]
  have "(2 ^ Suc k - 1) div 2 = (2 ^ k - 1 :: nat)" by simp
  then have h: "sub64 (blk_end b) (blk_start b) div 2 = 2 ^ k - 1"
    using d by (simp add: sub64_exact)
  have lt: "blk_start b + 2 ^ Suc k < 2 ^ 64" by (rule d(5))
  have pos: "0 < (2::nat) ^ k" by simp
  show m: "m = blk_start b + 2 ^ k - 1"
    unfolding m_def blk_mid_def h using lt pos by (simp add: add64_exact)
  then show m1: "add64 m 1 = blk_start b + 2 ^ k"
    using lt pos by (simp add: add64_exact)
  show ok1: "blk_ok k (mk_block (blk_start b) m)"
    using m lt pos by (simp add: blk_ok_def)
  show ok2: "blk_ok k (mk_block (add64 m 1) (blk_end b))"
    using ok m1 by (simp add: blk_ok_def)
  show "block_size (mk_block (add64 m 1) (blk_end b)) = 2 ^ k"
    by (rule block_size_ok [OF ok2])
  have "[blk_start b..<blk_start b + 2 ^ Suc k] =
      [blk_start b..<blk_start b + 2 ^ k] @ [blk_start b + 2 ^ k..<blk_start b + 2 ^ k + 2 ^ k]"
    using upt_add_eq_append [of "blk_start b" "blk_start b + 2 ^ k" "2 ^ k"]
    by (simp add: mult_2 add.assoc)
  then show "mset (block_pages (mk_block (blk_start b) m)) +
       mset (block_pages (mk_block (add64 m 1) (blk_end b))) = mset (block_pages b)"
    using block_pages_ok [OF ok1] block_pages_ok [OF ok2] block_pages_ok [OF ok] m1
    by (metis mk_block_sel(1) mset_append)
qed

section \<open>Allocation conserves pages\<close>

lemma split_block_step:
  assumes "blk_ok (Suc i) b" "i < length fl" "ind \<le> i"
  shows "split_block (Suc i) ind b fl =
    split_block i ind (mk_block (add64 (blk_mid b) 1) (blk_end b))
      (push_back i (mk_block (blk_start b) (blk_mid b)) fl)"
  using assms halves_ok(5) [OF assms(1)]
  by (simp add: Let_def blk_mid_def nth_push_back del: power_Suc)

lemma split_block_ok:
  assumes "blocks_ok fl" "blk_ok i b" "ind \<le> i" "i \<le> length fl"
  shows "\<exists>b' fl'. split_block i ind b fl = Inr (b', fl') \<and> blk_ok ind b' \<and> blocks_ok fl' \<and>
    length fl' = length fl \<and>
    free_pages fl' + mset (block_pages b') = free_pages fl + mset (block_pages b) \<and>
    (\<forall>j \<ge> i. fl' ! j = fl ! j)"
  using assms
proof (induction i arbitrary: b fl)
  case 0
  then show ?case by simp
next
  case (Suc i)
  show ?case
  proof (cases "ind \<le> i")
    case True
    let ?p1 = "mk_block (blk_start b) (blk_mid b)"
      and ?p2 = "mk_block (add64 (blk_mid b) 1) (blk_end b)"
    note h = halves_ok [OF Suc.prems(2)]
    have i: "i < length fl" using Suc.prems by simp
    have "blocks_ok (push_back i ?p1 fl)"
      using Suc.prems(1) i h(2) by (rule blocks_ok_push)
    from Suc.IH [OF this h(3) True] i obtain b' fl' where
      *: "split_block i ind ?p2 (push_back i ?p1 fl) = Inr (b', fl')" "blk_ok ind b'" "blocks_ok fl'"
        "length fl' = length fl"
        "free_pages fl' + mset (block_pages b') =
          free_pages (push_back i ?p1 fl) + mset (block_pages ?p2)"
        "\<forall>j \<ge> i. fl' ! j = push_back i ?p1 fl ! j"
      by auto
    have "free_pages fl' + mset (block_pages b') = free_pages fl + mset (block_pages b)"
      using *(5) h(4) i by (simp add: free_pages_push add.assoc)
    with * i show ?thesis
      by (simp add: split_block_step [OF Suc.prems(2) i True] nth_push_back del: split_block.simps)
  next
    case False
    with Suc.prems(3) have "ind = Suc i" by simp
    with Suc.prems show ?thesis by simp
  qed
qed

lemma first_nonempty_spec:
  "i \<le> first_nonempty fl i mo \<and> first_nonempty fl i mo \<le> max i (Suc mo) \<and>
   (\<forall>j. i \<le> j \<and> j < first_nonempty fl i mo \<longrightarrow> fl ! j = []) \<and>
   (first_nonempty fl i mo \<le> mo \<longrightarrow> fl ! first_nonempty fl i mo \<noteq> [])"
proof (induction fl i mo rule: first_nonempty.induct)
  case (1 fl i mo)
  show ?case
  proof (cases "i \<le> mo \<and> fl ! i = []")
    case True
    note IH = "1.IH" [OF True]
    have eq: "first_nonempty fl i mo = first_nonempty fl (Suc i) mo"
      using True by (simp add: first_nonempty.simps [of fl i])
    have "fl ! j = []" if "i \<le> j" "j < first_nonempty fl (Suc i) mo" for j
      using that IH True by (cases "j = i") auto
    with IH True show ?thesis unfolding eq by auto
  next
    case False
    then show ?thesis by (auto simp: first_nonempty.simps [of fl i])
  qed
qed

lemma first_nonempty_le:
  "i \<le> j \<Longrightarrow> j \<le> mo \<Longrightarrow> fl ! j \<noteq> [] \<Longrightarrow> first_nonempty fl i mo \<le> j"
  using first_nonempty_spec [of i fl mo] by (meson leI)

lemma first_nonempty_none:
  "i \<le> Suc mo \<Longrightarrow> (\<And>j. i \<le> j \<Longrightarrow> j \<le> mo \<Longrightarrow> fl ! j = []) \<Longrightarrow> first_nonempty fl i mo = Suc mo"
  using first_nonempty_spec [of i fl mo] by (metis le_antisym max.absorb2 not_less_eq_eq)

lemma buddy_invD:
  assumes "buddy_inv bd"
  shows "length (free_list bd) = 2 * (m_max_order bd + 1)" "blocks_ok (free_list bd)"
    "\<And>i. m_max_order bd < i \<Longrightarrow> i < length (free_list bd) \<Longrightarrow> free_list bd ! i = []"
    "\<And>p. count (free_pages (free_list bd)) p \<le> 1"
    "size (free_pages (free_list bd)) \<le> m_free_pages bd" "m_free_pages bd < 2 ^ 64"
  using assms by (auto simp: buddy_inv_def)

text \<open>
  Taking pages out of the free lists keeps the invariant: what is left is a
  sub-multiset of what was there.
\<close>

lemma buddy_inv_take:
  assumes inv: "buddy_inv bd" and len: "length fl' = length (free_list bd)" and ok: "blocks_ok fl'"
    and empty: "\<And>j. m_max_order bd < j \<Longrightarrow> j < length fl' \<Longrightarrow> fl' ! j = []"
    and pages: "free_pages fl' + P = free_pages (free_list bd)"
    and n: "n \<le> m_free_pages bd" and sz: "size (free_pages fl') \<le> n"
  shows "buddy_inv (bd\<lparr>free_list := fl', m_free_pages := n\<rparr>)"
proof -
  note d = buddy_invD [OF inv]
  have "count (free_pages fl') p \<le> 1" for p
    using d(4) [of p] unfolding pages [symmetric] by simp
  then show ?thesis
    using d len ok empty n sz by (auto simp: buddy_inv_def)
qed

lemma allocate_found:
  assumes inv: "buddy_inv bd" and bytes: "4096 \<le> bytes"
    and j: "ceil_log2 (bytes div 4096) \<le> j" "j \<le> m_max_order bd" "free_list bd ! j \<noteq> []"
  defines "ind \<equiv> ceil_log2 (bytes div 4096)"
  shows "\<exists>p bd'. allocate bd bytes = Inr (p, bd') \<and> p + 2 ^ ind < 2 ^ 64 \<and> buddy_inv bd' \<and>
    free_pages (free_list bd') + mset [p..<p + 2 ^ ind] = free_pages (free_list bd) \<and>
    m_free_pages bd' + 2 ^ ind = m_free_pages bd \<and> m_max_order bd' = m_max_order bd"
proof -
  note d = buddy_invD [OF inv]
  let ?fl = "free_list bd" and ?mo = "m_max_order bd"
  define i where "i = first_nonempty ?fl ind ?mo"
  have i: "ind \<le> i" "i \<le> ?mo" "?fl ! i \<noteq> []"
    using first_nonempty_spec [of ind ?fl ?mo] first_nonempty_le [OF j] j
    unfolding i_def ind_def by (auto intro: le_trans)
  have il: "i < length ?fl" using i(2) d(1) by simp
  have okb: "blk_ok i (last (?fl ! i))"
    using d(2) il i(3) by (simp add: blocks_okD)
  obtain b fl' where sp: "split_block i ind (last (?fl ! i)) (pop_back i ?fl) = Inr (b, fl')"
    and b: "blk_ok ind b" and fl': "blocks_ok fl'" "length fl' = length ?fl"
      "free_pages fl' + mset (block_pages b) =
         free_pages (pop_back i ?fl) + mset (block_pages (last (?fl ! i)))"
      "\<forall>j \<ge> i. fl' ! j = pop_back i ?fl ! j"
    using split_block_ok [OF blocks_ok_pop [OF d(2) il] okb i(1)] il by auto
  let ?p = "blk_start b" and ?n = "m_free_pages bd - 2 ^ ind"
  let ?bd = "bd\<lparr>free_list := fl', m_free_pages := ?n\<rparr>"
  have pages: "free_pages fl' + mset [?p..<?p + 2 ^ ind] = free_pages ?fl"
    using fl'(3) free_pages_pop [OF il i(3)] block_pages_ok [OF b] by simp
  then have "size (free_pages ?fl) = size (free_pages fl') + 2 ^ ind"
    by (metis size_union size_mset length_upt add_diff_cancel_left')
  with d(5) have le: "2 ^ ind \<le> m_free_pages bd" "size (free_pages fl') \<le> ?n" by simp_all
  have "fl' ! j = []" if "?mo < j" "j < length fl'" for j
    using that fl'(2,4) i(2) d(3) [of j] il by (simp add: nth_pop_back)
  then have inv': "buddy_inv ?bd"
    using le pages by (intro buddy_inv_take [OF inv fl'(2,1) _ pages]) auto
  have "allocate bd bytes = Inr (?p, ?bd)"
    using bytes i il sp le d(6) unfolding allocate_def
    by (simp add: Let_def ind_def [symmetric] i_def [symmetric] sub64_exact)
  with inv' pages le blk_okD(5) [OF b] show ?thesis by simp
qed

lemma allocate_out_of_memory:
  assumes "4096 \<le> bytes" "ceil_log2 (bytes div 4096) \<le> m_max_order bd + 1"
    and "\<And>j. ceil_log2 (bytes div 4096) \<le> j \<Longrightarrow> j \<le> m_max_order bd \<Longrightarrow> free_list bd ! j = []"
  shows "allocate bd bytes = Inr (minus1_64, bd)"
proof -
  have "first_nonempty (free_list bd) (ceil_log2 (bytes div 4096)) (m_max_order bd) =
      Suc (m_max_order bd)"
    by (rule first_nonempty_none) (use assms in auto)
  with assms(1) show ?thesis by (simp add: allocate_def Let_def)
qed

lemma allocate_too_large:
  assumes inv: "buddy_inv bd" and "4096 \<le> bytes" "m_max_order bd + 1 < ceil_log2 (bytes div 4096)"
  shows "allocate bd bytes = Inl Undefined_Behaviour"
proof -
  let ?i = "ceil_log2 (bytes div 4096)"
  have "first_nonempty (free_list bd) ?i (m_max_order bd) = ?i"
    using assms(3) by (simp add: first_nonempty.simps [of _ ?i])
  moreover have "length (free_list bd) \<le> ?i \<or> free_list bd ! ?i = []"
    using buddy_invD(3) [OF inv, of ?i] assms(3) by linarith
  ultimately show ?thesis using assms(2,3) by (auto simp: allocate_def Let_def)
qed

section \<open>Cutting a block into equal chunks\<close>

lemma chunk_blocks_ok:
  assumes "s + n * 2 ^ k < 2 ^ 64"
  shows "\<And>b. b \<in> set (chunk_blocks s k n) \<Longrightarrow> blk_ok k b"
    and "pages_of (chunk_blocks s k n) = mset [s..<s + n * 2 ^ k]"
    and "length (chunk_blocks s k n) = n"
proof -
  have exact: "mk_block (add64 s (mul64 j (2 ^ k))) (sub64 (add64 s (mul64 (j + 1) (2 ^ k))) 1) =
      mk_block (s + j * 2 ^ k) (s + (j + 1) * 2 ^ k - 1)" if "j < n" for j
  proof -
    have "(j + 1) * 2 ^ k \<le> n * 2 ^ k" using that by (simp only: mult_le_mono1 Suc_eq_plus1 [symmetric] Suc_leI)
    with assms have lt: "s + (j + 1) * 2 ^ k < 2 ^ 64" by linarith
    moreover have "j * 2 ^ k \<le> (j + 1) * 2 ^ k" by (simp only: mult_le_mono1 le_add1)
    moreover have "1 \<le> s + (j + 1) * 2 ^ k"
      using pow2_le_pos [of k "2 ^ k"] by (simp add: Suc_le_eq)
    ultimately show ?thesis by (simp only: add64_exact mul64_exact sub64_exact trans_less_add2 add_leD2)
  qed
  then have eq: "chunk_blocks s k n = map (\<lambda>j. mk_block (s + j * 2 ^ k) (s + (j + 1) * 2 ^ k - 1)) [0..<n]"
    by (simp add: chunk_blocks_def)
  show "blk_ok k b" if "b \<in> set (chunk_blocks s k n)" for b
  proof -
    from that eq obtain j where j: "j < n" "b = mk_block (s + j * 2 ^ k) (s + (j + 1) * 2 ^ k - 1)" by auto
    have "(j + 1) * 2 ^ k \<le> n * 2 ^ k" using j by (simp only: mult_le_mono1 Suc_eq_plus1 [symmetric] Suc_leI)
    with assms have "s + (j + 1) * 2 ^ k < 2 ^ 64" by linarith
    then show ?thesis using j(2) pow2_le_pos [of k "2 ^ k"] by (simp add: blk_ok_def)
  qed
  show "length (chunk_blocks s k n) = n" by (simp add: chunk_blocks_def)
  have "pages_of (map (\<lambda>j. mk_block (s + j * 2 ^ k) (s + (j + 1) * 2 ^ k - 1)) [0..<m]) =
      mset [s..<s + m * 2 ^ k]" for m
  proof (induction m)
    case (Suc m)
    have "Suc (s + (m + 1) * 2 ^ k - 1) = s + m * 2 ^ k + 2 ^ k"
      using pow2_le_pos [of k "2 ^ k"] by simp
    then have bp: "block_pages (mk_block (s + m * 2 ^ k) (s + (m + 1) * 2 ^ k - 1)) =
        [s + m * 2 ^ k..<s + m * 2 ^ k + 2 ^ k]"
      by (simp only: block_pages_def mk_block_sel)
    have "[s..<s + Suc m * 2 ^ k] = [s..<s + m * 2 ^ k] @ [s + m * 2 ^ k..<s + m * 2 ^ k + 2 ^ k]"
      using upt_add_eq_append [of s "s + m * 2 ^ k" "2 ^ k"] by (simp add: ac_simps)
    with Suc bp show ?case
      by (simp only: upt_Suc_append le0 map_append list.map pages_of_simps mset_append add_0_right)
  qed simp
  then show "pages_of (chunk_blocks s k n) = mset [s..<s + n * 2 ^ k]"
    using eq by simp
qed

lemma chunk_whole_block:
  assumes "blk_ok i b" "k \<le> i"
  shows "blk_start b + (block_size b div 2 ^ k) * 2 ^ k < 2 ^ 64"
    and "block_size b div 2 ^ k = 2 ^ (i - k)"
    and "pages_of (chunk_blocks (blk_start b) k (block_size b div 2 ^ k)) = mset (block_pages b)"
proof -
  show n: "block_size b div 2 ^ k = 2 ^ (i - k)"
    using assms by (simp add: block_size_ok power_diff)
  have m: "(2::nat) ^ (i - k) * 2 ^ k = 2 ^ i"
    using assms(2) by (simp add: power_add [symmetric])
  show lt: "blk_start b + (block_size b div 2 ^ k) * 2 ^ k < 2 ^ 64"
    unfolding n m by (rule blk_okD(5) [OF assms(1)])
  show "pages_of (chunk_blocks (blk_start b) k (block_size b div 2 ^ k)) = mset (block_pages b)"
    using chunk_blocks_ok(2) [OF lt] unfolding n m block_pages_ok [OF assms(1)] .
qed

text \<open>
  Moving the first block of list \<open>i\<close>, cut into chunks, to list \<open>k\<close>: the common
  core of \<open>reserve_2mb_page\<close> and of the fragmentation loop.
\<close>

definition recut :: "nat \<Rightarrow> nat \<Rightarrow> block list list \<Rightarrow> block list list" where
  "recut i k fl = (let fl1 = fl[i := tl (fl ! i)]
     in fl1[k := fl1 ! k @ chunk_blocks (blk_start (hd (fl ! i))) k (block_size (hd (fl ! i)) div 2 ^ k)])"

lemma recut_ok:
  assumes ok: "blocks_ok fl" and i: "i < length fl" "fl ! i \<noteq> []" and k: "k < i"
  shows "blocks_ok (recut i k fl)" "free_pages (recut i k fl) = free_pages fl"
    "length (recut i k fl) = length fl" "recut i k fl ! k \<noteq> []"
    "\<And>j. j \<noteq> i \<Longrightarrow> j \<noteq> k \<Longrightarrow> recut i k fl ! j = fl ! j" "recut i k fl ! i = tl (fl ! i)"
proof -
  let ?h = "hd (fl ! i)" and ?fl1 = "fl[i := tl (fl ! i)]"
  let ?c = "chunk_blocks (blk_start ?h) k (block_size ?h div 2 ^ k)"
  have h: "blk_ok i ?h" using ok i by (simp add: blocks_okD)
  note c = chunk_whole_block [OF h less_imp_le [OF k]]
  have kl: "k < length ?fl1" using i k by simp
  have ok1: "blocks_ok ?fl1"
    using ok i by (intro blocks_ok_update) (auto dest: blocks_okD list.set_sel(2))
  then show "blocks_ok (recut i k fl)"
    unfolding recut_def Let_def using chunk_blocks_ok(1) [OF c(1)] blocks_okD [OF ok1 kl]
    by (intro blocks_ok_update [OF ok1]) auto
  have "free_pages (recut i k fl) + pages_of (?fl1 ! k) = free_pages ?fl1 + pages_of (?fl1 ! k @ ?c)"
    unfolding recut_def Let_def by (rule free_pages_update [OF kl])
  then have "free_pages (recut i k fl) = free_pages ?fl1 + mset (block_pages ?h)"
    using c(3) by simp
  moreover have "free_pages ?fl1 + pages_of (?h # tl (fl ! i)) = free_pages fl + pages_of (tl (fl ! i))"
    using free_pages_update [OF i(1), of "tl (fl ! i)"] i(2) by simp
  ultimately show "free_pages (recut i k fl) = free_pages fl" by simp
  have "?c \<noteq> []" using chunk_blocks_ok(3) [OF c(1)] unfolding c(2) by auto
  then show "recut i k fl ! k \<noteq> []" using kl by (simp add: recut_def Let_def)
qed (use i k in \<open>simp_all add: recut_def Let_def nth_list_update\<close>)

section \<open>Reservation, freeing and page lookup\<close>

lemma reserve_found:
  assumes inv: "buddy_inv bd" and j: "9 \<le> j" "j \<le> m_max_order bd" "free_list bd ! j \<noteq> []"
  shows "\<exists>b bd'. reserve_2mb_page bd = Inr (b, bd') \<and> blk_ok 9 b \<and> buddy_inv bd' \<and>
    free_pages (free_list bd') + mset (block_pages b) = free_pages (free_list bd) \<and>
    m_free_pages bd' = m_free_pages bd \<and> m_max_order bd' = m_max_order bd"
proof -
  note d = buddy_invD [OF inv]
  let ?fl = "free_list bd"
  have take: "\<exists>bd'. Inr (last (fl ! 9), bd\<lparr>free_list := pop_back 9 fl\<rparr>) = (Inr (b, bd') :: (block \<times> buddy) outcome)
      \<and> buddy_inv bd' \<and> blk_ok 9 b \<and> free_pages (free_list bd') + mset (block_pages b) = free_pages ?fl \<and>
      m_free_pages bd' = m_free_pages bd \<and> m_max_order bd' = m_max_order bd"
    if fl: "blocks_ok fl" "length fl = length ?fl" "free_pages fl = free_pages ?fl" "fl ! 9 \<noteq> []"
      "\<And>i. m_max_order bd < i \<Longrightarrow> i < length fl \<Longrightarrow> fl ! i = []" "b = last (fl ! 9)" for fl b
  proof -
    have l: "9 < length fl" using fl(2) d(1) j by simp
    note pages = free_pages_pop [OF l fl(4), unfolded fl(3)]
    have "size (free_pages (pop_back 9 fl)) \<le> size (free_pages ?fl)"
      unfolding pages [symmetric] by simp
    then have "buddy_inv (bd\<lparr>free_list := pop_back 9 fl, m_free_pages := m_free_pages bd\<rparr>)"
      using fl l d(5) by (intro buddy_inv_take [OF inv _ blocks_ok_pop [OF fl(1) l] _ pages])
        (auto simp: nth_pop_back)
    moreover have "blk_ok 9 (last (fl ! 9))" using fl(1,4) l by (simp add: blocks_okD)
    ultimately show ?thesis using pages fl(6) by simp
  qed
  show ?thesis
  proof (cases "?fl ! 9 = []")
    case False
    then show ?thesis
      using take [OF d(2) refl refl False d(3)] d(1) j by (simp add: reserve_2mb_page_def Let_def)
  next
    case True
    define i where "i = first_nonempty ?fl 10 (m_max_order bd)"
    have j10: "10 \<le> j" using j True by (cases "j = 9") auto
    have i: "10 \<le> i" "i \<le> m_max_order bd" "?fl ! i \<noteq> []"
      using first_nonempty_spec [of 10 ?fl "m_max_order bd"] first_nonempty_le [OF j10 j(2,3)] j(2)
      unfolding i_def by (auto intro: le_trans)
    then have il: "i < length ?fl" "9 < i" using d(1) by simp_all
    note r = recut_ok [OF d(2) il(1) i(3) il(2)]
    have "recut i 9 ?fl ! i' = []" if "m_max_order bd < i'" "i' < length (recut i 9 ?fl)" for i'
      using that i r(3,5) d(3) [of i'] il by auto
    from take [OF r(1,3,2,4) this refl]
    show ?thesis
      using True il i d(1) r(4) unfolding reserve_2mb_page_def recut_def
      by (simp add: Let_def i_def [symmetric])
  qed
qed

lemma reserve_none:
  assumes "9 < length (free_list bd)" "\<And>j. 9 \<le> j \<Longrightarrow> j \<le> m_max_order bd \<Longrightarrow> free_list bd ! j = []"
    "free_list bd ! 9 = []"
  shows "reserve_2mb_page bd = Inr ((minus1_64, 0, False, 0), bd)"
proof -
  let ?i = "first_nonempty (free_list bd) 10 (m_max_order bd)"
  have "\<not> ?i \<le> m_max_order bd"
    using first_nonempty_spec [of 10 "free_list bd" "m_max_order bd"] assms(2) [of ?i] by auto
  with assms(1,3) show ?thesis by (simp add: reserve_2mb_page_def Let_def)
qed

text \<open>Freeing a run of \<open>2 ^ k\<close> pages that are not free yet.\<close>

lemma free_ok:
  assumes inv: "buddy_inv bd" and run: "e + 1 = s + 2 ^ k" "e + 1 < 2 ^ 64" and k: "k \<le> m_max_order bd"
    and disj: "\<And>p. s \<le> p \<Longrightarrow> p \<le> e \<Longrightarrow> p \<notin># free_pages (free_list bd)"
    and room: "m_free_pages bd + 2 ^ k < 2 ^ 64"
  shows "\<exists>bd'. free bd s e = Inr bd' \<and> buddy_inv bd' \<and>
    free_pages (free_list bd') = free_pages (free_list bd) + mset [s..<s + 2 ^ k] \<and>
    m_free_pages bd' = m_free_pages bd + 2 ^ k \<and> m_max_order bd' = m_max_order bd"
proof -
  note d = buddy_invD [OF inv]
  let ?b = "mk_block s e"
  have ok: "blk_ok k ?b" using run by (simp add: blk_ok_def)
  have n: "add64 (sub64 e s) 1 = 2 ^ k"
    using block_size_ok [OF ok] by (simp add: block_size_def)
  have kl: "k < length (free_list bd)" using k d(1) by simp
  let ?fl = "push_back k ?b (free_list bd)"
  let ?bd = "bd\<lparr>free_list := ?fl, m_free_pages := m_free_pages bd + 2 ^ k\<rparr>"
  have pages: "free_pages ?fl = free_pages (free_list bd) + mset [s..<s + 2 ^ k]"
    using free_pages_push [OF kl, of ?b] block_pages_ok [OF ok] by simp
  have "count (free_pages ?fl) p \<le> 1" for p
  proof (cases "p \<in> {s..<s + 2 ^ k}")
    case True
    then have "count (free_pages (free_list bd)) p = 0"
      using disj [of p] run(1) by (simp add: not_in_iff)
    then show ?thesis unfolding pages by (simp add: count_mset_set')
  next
    case False
    then show ?thesis unfolding pages using d(4) [of p] by (auto simp: count_mset_set')
  qed
  moreover have "size (free_pages ?fl) \<le> m_free_pages bd + 2 ^ k"
    unfolding pages using d(5) by simp
  ultimately have "buddy_inv ?bd"
    using d room k kl blocks_ok_push [OF d(2) kl ok] by (auto simp: buddy_inv_def nth_push_back)
  moreover have "free bd s e = Inr ?bd"
    using n kl room by (simp add: free_def Let_def add64_exact)
  ultimately show ?thesis using pages by simp
qed

lemma in_pages_of: "p \<in># pages_of bs \<longleftrightarrow> (\<exists>b \<in> set bs. block_contains p b)"
  by (induction bs) (auto simp: block_pages_def block_contains_def less_Suc_eq_le)

lemma search_orders_None_iff:
  "search_orders p ls i = None \<longleftrightarrow> (\<forall>l \<in> set ls. \<forall>b \<in> set l. \<not> block_contains p b)"
proof (induction ls arbitrary: i)
  case (Cons l ls)
  show ?case
  proof (cases "find_index (block_contains p) l")
    case None
    then show ?thesis
      using Cons.IH find_index_None_iff [THEN iffD1, OF None] by simp
  next
    case (Some j)
    then have "\<exists>b \<in> set l. block_contains p b" by (meson find_index_SomeD nth_mem)
    with Some show ?thesis by auto
  qed
qed simp

lemma search_orders_SomeD:
  "search_orders p ls i = Some (k, j) \<Longrightarrow>
   i \<le> k \<and> k - i < length ls \<and> j < length (ls ! (k - i)) \<and> block_contains p (ls ! (k - i) ! j)"
proof (induction ls arbitrary: i)
  case (Cons l ls)
  show ?case
  proof (cases "find_index (block_contains p) l")
    case None
    with Cons.prems have "search_orders p ls (Suc i) = Some (k, j)" by simp
    note IH = Cons.IH [OF this]
    then have "k - i = Suc (k - Suc i)" by linarith
    with IH show ?thesis by simp
  next
    case (Some j')
    with Cons.prems show ?thesis by (auto dest: find_index_SomeD)
  qed
qed simp

lemma split_to_page_ok:
  assumes "blk_ok k b" "block_contains p b" "blocks_ok fl" "k \<le> length fl"
    and "split_to_page k p b fl = (b', fl')"
  shows "blk_ok 0 b' \<and> blk_start b' = p \<and> blocks_ok fl' \<and> length fl' = length fl \<and>
    free_pages fl' + {#p#} = free_pages fl + mset (block_pages b) \<and> (\<forall>j \<ge> k. fl' ! j = fl ! j)"
  using assms
proof (induction k arbitrary: b fl)
  case 0
  then have "b' = b" "fl' = fl" "blk_start b = p" "blk_end b = p"
    by (auto simp: blk_ok_def block_contains_def)
  with 0 show ?case by (simp add: block_pages_def)
next
  case (Suc k)
  note h = halves_ok [OF Suc.prems(1)]
  let ?b1 = "mk_block (blk_start b) (blk_mid b)" and ?b2 = "mk_block (add64 (blk_mid b) 1) (blk_end b)"
  have k: "k < length fl" using Suc.prems(4) by simp
  have step: "split_to_page (Suc k) p b fl =
      (if p \<le> blk_mid b then split_to_page k p ?b1 (push_back k ?b2 fl)
       else split_to_page k p ?b2 (push_back k ?b1 fl))"
    by (simp add: Let_def blk_mid_def)
  obtain b1 b2 where bb: "{b1, b2} = {?b1, ?b2}" "block_contains p b1" "blk_ok k b1" "blk_ok k b2"
      "mset (block_pages b1) + mset (block_pages b2) = mset (block_pages b)"
      "split_to_page k p b1 (push_back k b2 fl) = (b', fl')"
  proof (cases "p \<le> blk_mid b")
    case True
    then show ?thesis
      using that [of ?b1 ?b2] h Suc.prems step by (simp add: block_contains_def)
  next
    case False
    then have "block_contains p ?b2"
      using h(1,6) Suc.prems(2) by (simp add: block_contains_def)
    then show ?thesis
      using that [of ?b2 ?b1] h False Suc.prems(5) step by (simp add: insert_commute add.commute)
  qed
  have "blocks_ok (push_back k b2 fl)" using Suc.prems(3) k bb(4) by (rule blocks_ok_push)
  from Suc.IH [OF bb(3,2) this _ bb(6)] k
  have "blk_ok 0 b' \<and> blk_start b' = p \<and> blocks_ok fl' \<and> length fl' = length fl"
    and pg: "free_pages fl' + {#p#} = free_pages (push_back k b2 fl) + mset (block_pages b1)"
    and nth: "\<forall>j \<ge> k. fl' ! j = push_back k b2 fl ! j"
    by simp_all
  moreover have "free_pages fl' + {#p#} = free_pages fl + mset (block_pages b)"
    unfolding pg free_pages_push [OF k] bb(5) [symmetric] by (simp only: ac_simps)
  moreover have "\<forall>j \<ge> Suc k. fl' ! j = fl ! j" using nth k by (simp add: nth_push_back)
  ultimately show ?case by blast
qed

lemma search_orders_free:
  assumes inv: "buddy_inv bd"
  shows "search_orders p (take (m_max_order bd + 1) (free_list bd)) 0 = None \<longleftrightarrow>
    p \<notin># free_pages (free_list bd)"
proof -
  note d = buddy_invD [OF inv]
  have "set (concat (take (m_max_order bd + 1) (free_list bd))) = set (concat (free_list bd))"
  proof -
    have "l = []" if "l \<in> set (drop (m_max_order bd + 1) (free_list bd))" for l
      using that d(3) by (auto simp: in_set_conv_nth)
    then have "set (concat (drop (m_max_order bd + 1) (free_list bd))) = {}" by auto
    then show ?thesis
      by (metis append_take_drop_id concat_append set_append sup_bot_right)
  qed
  then show ?thesis
    by (auto simp: search_orders_None_iff free_pages_def in_pages_of)
qed

lemma checkIfFree_absent:
  "buddy_inv bd \<Longrightarrow> p \<notin># free_pages (free_list bd) \<Longrightarrow> checkIfFree bd p alloc = Inr (False, bd)"
  using search_orders_free [of bd p] buddy_invD(1) [of bd] by (simp add: checkIfFree_def Let_def)

lemma checkIfFree_query:
  assumes "buddy_inv bd"
  shows "checkIfFree bd p False = Inr (p \<in># free_pages (free_list bd), bd)"
  using search_orders_free [OF assms, of p] buddy_invD(1) [OF assms]
  by (auto simp: checkIfFree_def Let_def split: option.splits)

lemma checkIfFree_take:
  assumes inv: "buddy_inv bd" and p: "p \<in># free_pages (free_list bd)"
  shows "\<exists>bd'. checkIfFree bd p True = Inr (True, bd') \<and> buddy_inv bd' \<and>
    free_pages (free_list bd') + {#p#} = free_pages (free_list bd) \<and>
    m_free_pages bd' + 1 = m_free_pages bd \<and> m_max_order bd' = m_max_order bd \<and> p + 1 < 2 ^ 64"
proof -
  note d = buddy_invD [OF inv]
  let ?fl = "free_list bd"
  from p search_orders_free [OF inv, of p] obtain i j where
    s: "search_orders p (take (m_max_order bd + 1) ?fl) 0 = Some (i, j)" by auto
  from search_orders_SomeD [OF s] d(1) have i: "i \<le> m_max_order bd" "j < length (?fl ! i)"
    and c: "block_contains p (?fl ! i ! j)" by auto
  have il: "i < length ?fl" using i(1) d(1) by simp
  let ?b = "?fl ! i ! j" and ?fl1 = "?fl[i := remove_nth j (?fl ! i)]"
  have ok: "blk_ok i ?b" using d(2) il i(2) by (simp add: blocks_okD)
  have ok1: "blocks_ok ?fl1"
    using set_remove_nth_subset [of j "?fl ! i"] blocks_okD [OF d(2) il]
    by (intro blocks_ok_update [OF d(2)]) auto
  obtain b' fl' where sp: "split_to_page i p ?b ?fl1 = (b', fl')" by fastforce
  from split_to_page_ok [OF ok c ok1 _ sp] il
  have r: "blocks_ok fl'" "length fl' = length ?fl"
    "free_pages fl' + {#p#} = free_pages ?fl1 + mset (block_pages ?b)" "\<forall>k \<ge> i. fl' ! k = ?fl1 ! k"
    and p64: "blk_ok 0 b'" "blk_start b' = p"
    by simp_all
  let ?r = "pages_of (remove_nth j (?fl ! i))"
  have "mset (block_pages ?b) + ?r = pages_of (?fl ! i)"
    using mset_remove_nth [OF i(2)] pages_of_mset_cong [of "?b # remove_nth j (?fl ! i)" "?fl ! i"]
    by simp
  then have "free_pages ?fl1 + (mset (block_pages ?b) + ?r) = free_pages ?fl + ?r"
    using free_pages_update [OF il, of "remove_nth j (?fl ! i)"] by simp
  then have "(free_pages ?fl1 + mset (block_pages ?b)) + ?r = free_pages ?fl + ?r"
    by (simp only: ac_simps)
  then have pages: "free_pages fl' + {#p#} = free_pages ?fl"
    by (simp only: add_right_cancel r(3))
  have sz: "size (free_pages fl') + 1 = size (free_pages ?fl)"
    unfolding pages [symmetric] by simp
  let ?bd = "bd\<lparr>free_list := fl', m_free_pages := m_free_pages bd - 1\<rparr>"
  have "fl' ! k = []" if "m_max_order bd < k" "k < length fl'" for k
    using that r(2,4) i(1) d(3) [of k] by simp
  then have "buddy_inv ?bd"
    using sz d(5) by (intro buddy_inv_take [OF inv r(2,1) _ pages]) auto
  moreover have "checkIfFree bd p True = Inr (True, ?bd)"
    using s sp sz d(1,5,6) by (simp add: checkIfFree_def Let_def sub64_exact)
  ultimately show ?thesis using pages sz d(5) blk_okD(5) [OF p64(1)] p64(2) by simp
qed

section \<open>The constructor partitions the memory\<close>

lemma fill_order_ok:
  assumes "cur + avail < 2 ^ 64 - 1" "k < length fl" "blocks_ok fl"
    and "fill_order k cur avail fl = (cur', avail', fl')"
  shows "cur' + avail' = cur + avail \<and> cur \<le> cur' \<and> avail' < 2 ^ k \<and> blocks_ok fl' \<and>
    length fl' = length fl \<and> free_pages fl' = free_pages fl + mset [cur..<cur'] \<and>
    (\<forall>j. j \<noteq> k \<longrightarrow> fl' ! j = fl ! j)"
  using assms
proof (induction k cur avail fl rule: fill_order.induct)
  case (1 k cur avail fl)
  show ?case
  proof (cases "2 ^ k \<le> avail")
    case True
    let ?b = "mk_block cur (cur + 2 ^ k - 1)" and ?fl = "push_back k (mk_block cur (cur + 2 ^ k - 1)) fl"
    have pos: "0 < (2::nat) ^ k" by simp
    have lt: "cur + 2 ^ k < 2 ^ 64" using True "1.prems"(1) by linarith
    have a: "add64 cur (2 ^ k) = cur + 2 ^ k" using lt by (rule add64_exact)
    have e: "sub64 (cur + 2 ^ k) 1 = cur + 2 ^ k - 1" using lt pos by (intro sub64_exact) linarith+
    have ok: "blk_ok k ?b" using lt pos by (simp add: blk_ok_def)
    have step: "fill_order k (cur + 2 ^ k) (avail - 2 ^ k) ?fl = (cur', avail', fl')"
      using "1.prems"(4) True by (simp add: fill_order.simps [of k cur] a e [unfolded One_nat_def])
    have sum: "cur + 2 ^ k + (avail - 2 ^ k) = cur + avail" using True by simp
    have IH: "cur' + avail' = cur + avail \<and> cur + 2 ^ k \<le> cur' \<and> avail' < 2 ^ k \<and> blocks_ok fl' \<and>
      length fl' = length ?fl \<and> free_pages fl' = free_pages ?fl + mset [cur + 2 ^ k..<cur'] \<and>
      (\<forall>j. j \<noteq> k \<longrightarrow> fl' ! j = ?fl ! j)"
      using "1.IH" [OF True, unfolded a e sum, OF "1.prems"(1) _ _ step]
        "1.prems"(2) blocks_ok_push [OF "1.prems"(3,2) ok] by simp
    have "[cur..<cur'] = [cur..<cur + 2 ^ k] @ [cur + 2 ^ k..<cur']"
      using IH upt_add_eq_append [of cur "cur + 2 ^ k" "cur' - (cur + 2 ^ k)"] by simp
    then have "free_pages fl' = free_pages fl + mset [cur..<cur']"
      using IH free_pages_push [OF "1.prems"(2), of ?b] block_pages_ok [OF ok]
      by (simp only: mk_block_sel mset_append add.assoc)
    with IH "1.prems"(2) show ?thesis by (simp add: nth_push_back)
  next
    case False
    with "1.prems"(3,4) show ?thesis by (simp add: fill_order.simps [of k cur])
  qed
qed

lemma fill_orders_ok:
  assumes "cur + avail = limit" "limit < 2 ^ 64 - 1" "k < length fl" "blocks_ok fl"
  shows "blocks_ok (fill_orders k limit cur avail fl) \<and>
    length (fill_orders k limit cur avail fl) = length fl \<and>
    free_pages (fill_orders k limit cur avail fl) = free_pages fl + mset [cur..<limit] \<and>
    (\<forall>j > k. fill_orders k limit cur avail fl ! j = fl ! j)"
  using assms
proof (induction k limit cur avail fl rule: fill_orders.induct)
  case (1 k limit cur avail fl)
  show ?case
  proof (cases "cur < limit")
    case True
    obtain cur' avail' fl' where f: "fill_order k cur avail fl = (cur', avail', fl')"
      by (metis prod_cases3)
    have lt: "cur + avail < 2 ^ 64 - 1" using "1.prems" by simp
    note F = fill_order_ok [OF lt "1.prems"(3,4) f]
    show ?thesis
    proof (cases k)
      case 0
      with F "1.prems"(1) have "cur' = limit" by simp
      with F 0 True f show ?thesis by (simp add: fill_orders.simps [of 0])
    next
      case (Suc k')
      have IH: "blocks_ok (fill_orders k' limit cur' avail' fl') \<and>
        length (fill_orders k' limit cur' avail' fl') = length fl' \<and>
        free_pages (fill_orders k' limit cur' avail' fl') = free_pages fl' + mset [cur'..<limit] \<and>
        (\<forall>j > k'. fill_orders k' limit cur' avail' fl' ! j = fl' ! j)"
        using F Suc "1.prems"(1,2,3) by (intro "1.IH" [OF True f [symmetric] refl Suc]) auto
      have "[cur..<limit] = [cur..<cur'] @ [cur'..<limit]"
        using F "1.prems"(1) upt_add_eq_append [of cur cur' "limit - cur'"] by simp
      then have "mset [cur..<limit] = mset [cur..<cur'] + mset [cur'..<limit]"
        by (simp only: mset_append)
      with IH F Suc True f show ?thesis
        by (simp add: fill_orders.simps [of "Suc k'"] add.assoc del: mset_upt)
    qed
  next
    case False
    with "1.prems" show ?thesis by (simp add: fill_orders.simps [of k])
  qed
qed

lemma buddy_new_ok:
  fixes memory_size max_order kernel_size :: nat
  assumes "kernel_size \<le> memory_size" "memory_size < 2 ^ 31"
  defines "bd \<equiv> buddy_new memory_size max_order kernel_size"
  shows "buddy_inv bd" "free_pages (free_list bd) = mset [kernel_size * 256..<memory_size * 256]"
    "m_free_pages bd = (memory_size - kernel_size) * 256" "m_total_pages bd = m_free_pages bd"
    "m_max_order bd = max_order"
proof -
  let ?fl = "replicate (max_order + 1) [] @ replicate (max_order + 1) [] :: block list list"
  have m: "mul64 memory_size 1024 div 4 = memory_size * 256" "mul64 kernel_size 1024 div 4 = kernel_size * 256"
    using assms(1,2) by (simp_all add: mul64_exact)
  have t: "sub64 (memory_size * 256) (kernel_size * 256) = (memory_size - kernel_size) * 256"
    using assms(1,2) by (simp add: sub64_exact diff_mult_distrib)
  have nil: "?fl ! i = []" if "i < length ?fl" for i
    using nth_mem [OF that] by (simp only: set_append set_replicate_conv_if) auto
  then have ok: "blocks_ok ?fl" by (simp add: blocks_ok_def)
  have "set (concat ?fl) = {}" by auto
  then have "concat ?fl = []" by (simp only: set_empty)
  then have empty: "free_pages ?fl = {#}" by (simp only: free_pages_def pages_of_simps)
  have sum: "kernel_size * 256 + (memory_size - kernel_size) * 256 = memory_size * 256"
    using assms(1) by (simp add: add_mult_distrib [symmetric])
  have bd: "free_list bd = fill_orders max_order (memory_size * 256) (kernel_size * 256)
      ((memory_size - kernel_size) * 256) ?fl"
    unfolding bd_def buddy_new_def by (simp add: Let_def m t)
  show f: "m_free_pages bd = (memory_size - kernel_size) * 256" "m_total_pages bd = m_free_pages bd"
    "m_max_order bd = max_order"
    unfolding bd_def buddy_new_def by (simp_all add: Let_def m t)
  have r: "blocks_ok (free_list bd) \<and> length (free_list bd) = length ?fl \<and>
      free_pages (free_list bd) = free_pages ?fl + mset [kernel_size * 256..<memory_size * 256] \<and>
      (\<forall>j > max_order. free_list bd ! j = ?fl ! j)"
    unfolding bd by (rule fill_orders_ok) (use assms(2) sum ok in auto)
  then show p: "free_pages (free_list bd) = mset [kernel_size * 256..<memory_size * 256]"
    using empty by simp
  have "free_list bd ! i = []" if "max_order < i" "i < length (free_list bd)" for i
    using that r nil [of i] by metis
  moreover have "length (free_list bd) = 2 * (max_order + 1)" using r by simp
  ultimately show "buddy_inv bd"
    unfolding buddy_inv_def f p using conjunct1 [OF r] assms(2)
    by (simp add: count_mset_set' diff_mult_distrib)
qed

section \<open>Fragmentation keeps the pages and reaches its target\<close>

lemma split_largest_recut: "split_largest i fl = recut i 8 fl"
  by (simp add: split_largest_def recut_def Let_def)

lemma count_no_large:
  "(\<And>b. b \<in> set bs \<Longrightarrow> block_size b < 512) \<Longrightarrow>
   fold (\<lambda>b count. if 512 \<le> block_size b then add64 count (block_size b div 512) else count) bs n = n"
proof (induction bs arbitrary: n)
  case (Cons b bs)
  have "\<not> 512 \<le> block_size b" using Cons.prems [of b] by simp
  with Cons.IH Cons.prems show ?case by simp
qed simp

lemma no_big_blocks_count:
  assumes inv: "buddy_inv bd" and none: "highest_big (free_list bd) (m_max_order bd) = None"
  shows "getFreeLargePageCount bd = 0"
proof -
  note d = buddy_invD [OF inv]
  have "block_size b < 512" if "b \<in> set (concat (free_list bd))" for b
  proof -
    from that obtain l where "l \<in> set (free_list bd)" "b \<in> set l" by auto
    then obtain i where i: "i < length (free_list bd)" "b \<in> set (free_list bd ! i)"
      by (metis in_set_conv_nth)
    then have "i \<le> m_max_order bd" using d(3) [of i] by (cases "i \<le> m_max_order bd") auto
    with i highest_big_NoneD [OF none, of i] have "i \<le> 8" by (cases "9 \<le> i") auto
    then have "(2::nat) ^ i \<le> 2 ^ 8" by (rule power_increasing) simp
    then show ?thesis using block_size_ok [OF blocks_okD [OF d(2) i]] by simp
  qed
  then show ?thesis unfolding getFreeLargePageCount_def by (rule count_no_large)
qed

lemma split_largest_inv:
  assumes inv: "buddy_inv bd" and h: "highest_big (free_list bd) (m_max_order bd) = Some i"
  defines "bd' \<equiv> bd\<lparr>free_list := split_largest i (free_list bd)\<rparr>"
  shows "buddy_inv bd'" "free_pages (free_list bd') = free_pages (free_list bd)"
proof -
  note d = buddy_invD [OF inv] and i = highest_big_SomeD [OF h]
  have il: "i < length (free_list bd)" "8 < i" using i d(1) by simp_all
  note r = recut_ok [OF d(2) il(1) _ il(2)]
  show p: "free_pages (free_list bd') = free_pages (free_list bd)"
    using r(2) i unfolding bd'_def split_largest_recut by simp
  show "buddy_inv bd'"
    using r(1,3,5) p d i unfolding bd'_def split_largest_recut buddy_inv_def by auto
qed

lemma fragmentMemoryToTargetCount_ok:
  "buddy_inv bd \<Longrightarrow>
   \<exists>bd'. fragmentMemoryToTargetCount target bd = Inr bd' \<and> buddy_inv bd' \<and>
     free_pages (free_list bd') = free_pages (free_list bd) \<and>
     m_free_pages bd' = m_free_pages bd \<and> m_max_order bd' = m_max_order bd \<and>
     getFreeLargePageCount bd' \<le> target"
proof (induction target bd rule: fragmentMemoryToTargetCount.induct)
  case (1 target bd)
  note len = buddy_invD(1) [OF "1.prems"]
  show ?case
  proof (cases "target < getFreeLargePageCount bd")
    case True
    show ?thesis
    proof (cases "highest_big (free_list bd) (m_max_order bd)")
      case None
      with no_big_blocks_count [OF "1.prems" None] True show ?thesis by simp
    next
      case (Some i)
      from "1.IH" [OF _ True Some] split_largest_inv [OF "1.prems" Some] len True Some
      show ?thesis by (simp add: fragmentMemoryToTargetCount.simps [of target bd])
    qed
  next
    case False
    with "1.prems" len show ?thesis by (simp add: fragmentMemoryToTargetCount.simps [of target bd])
  qed
qed

end
