(* ===== verification/Buddy_Machine.thy ===== *)
theory Buddy_Machine
  imports Buddy
begin

text \<open>
  What the clients of the buddy allocator rely on. The locale \<open>page_source\<close> is
  the contract of a component that hands out pages: every grant moves pages from
  the available multiset to the caller. It is interpreted on the allocator for
  its three kinds of grant. The ownership machine interleaves grants, frees and
  fragmentation in any order; its invariant gives freedom from double
  allocation. The properties of the allocator close the theory.
\<close>

section \<open>The contract of a page source\<close>

text \<open>Serving a list of requests, stopping at the first failure.\<close>

fun serve :: "('s \<Rightarrow> 'r \<Rightarrow> (nat list \<times> 's) option) \<Rightarrow> 's \<Rightarrow> 'r list \<Rightarrow> nat list \<times> 's" where
  "serve grant s [] = ([], s)"
| "serve grant s (r # rs) =
     (case grant s r of
        None \<Rightarrow> ([], s)
      | Some (ps, s') \<Rightarrow> (case serve grant s' rs of (qs, s'') \<Rightarrow> (ps @ qs, s'')))"

locale page_source =
  fixes inv :: "'s \<Rightarrow> bool" and avail :: "'s \<Rightarrow> nat multiset"
    and grant :: "'s \<Rightarrow> 'r \<Rightarrow> (nat list \<times> 's) option"
  assumes grant_inv: "inv s \<Longrightarrow> grant s r = Some (ps, s') \<Longrightarrow> inv s'"
    and grant_pages: "inv s \<Longrightarrow> grant s r = Some (ps, s') \<Longrightarrow> avail s' + mset ps = avail s"
    and avail_once: "inv s \<Longrightarrow> count (avail s) p \<le> 1"
begin

lemma serve_inv: "inv s \<Longrightarrow> serve grant s rs = (ps, s') \<Longrightarrow> inv s'"
  by (induction rs arbitrary: s ps) (auto split: option.splits prod.splits dest: grant_inv)

lemma serve_pages: "inv s \<Longrightarrow> serve grant s rs = (ps, s') \<Longrightarrow> avail s' + mset ps = avail s"
proof (induction rs arbitrary: s ps s')
  case (Cons r rs)
  show ?case
  proof (cases "grant s r")
    case None
    with Cons.prems show ?thesis by simp
  next
    case (Some a)
    obtain qs t where a: "a = (qs, t)" by fastforce
    obtain us v where v: "serve grant t rs = (us, v)" by fastforce
    have "inv t" using grant_inv Cons.prems(1) Some a by blast
    from Cons.IH [OF this v] Cons.prems Some a v grant_pages [OF Cons.prems(1), of r qs t]
    show ?thesis by (auto simp: ac_simps)
  qed
qed simp

text \<open>No page is granted twice, and a granted page is no longer available.\<close>

lemma serve_distinct: "inv s \<Longrightarrow> serve grant s rs = (ps, s') \<Longrightarrow> distinct ps"
proof -
  assume "inv s" "serve grant s rs = (ps, s')"
  then have "count (mset ps) p \<le> 1" for p
    using avail_once [of s p] serve_pages [of s rs ps s'] by (metis add_leD2 count_union)
  then show "distinct ps" by (rule distinct_if_count_le1)
qed

lemma serve_fresh:
  assumes "inv s" "serve grant s rs = (ps, s')" "p \<in> set ps"
  shows "p \<in># avail s \<and> p \<notin># avail s'"
proof -
  from assms serve_pages have eq: "avail s' + mset ps = avail s" by blast
  have "count (mset ps) p \<ge> 1" using assms(3) by simp
  moreover have "count (avail s') p + count (mset ps) p \<le> 1"
    using avail_once [OF assms(1), of p] unfolding eq [symmetric] by simp
  ultimately have "count (avail s') p = 0" by linarith
  moreover have "p \<in># avail s" using assms(3) unfolding eq [symmetric] by simp
  ultimately show ?thesis by (simp add: not_in_iff)
qed

end

section \<open>The allocator as a page source\<close>

datatype buddy_request = Bytes u64 | Region_2MB | Page u64

definition buddy_grant :: "buddy \<Rightarrow> buddy_request \<Rightarrow> (nat list \<times> buddy) option" where
  "buddy_grant bd r =
     (case r of
        Bytes n \<Rightarrow> (case allocate bd n of
            Inr (p, bd') \<Rightarrow> if p = minus1_64 then None
                           else Some ([p..<p + 2 ^ ceil_log2 (n div 4096)], bd')
          | Inl e \<Rightarrow> None)
      | Region_2MB \<Rightarrow> (case reserve_2mb_page bd of
            Inr (b, bd') \<Rightarrow> if blk_start b = minus1_64 then None else Some (block_pages b, bd')
          | Inl e \<Rightarrow> None)
      | Page p \<Rightarrow> (case checkIfFree bd p True of
            Inr (True, bd') \<Rightarrow> Some ([p], bd')
          | _ \<Rightarrow> None))"

lemma allocate_outcomes:
  assumes inv: "buddy_inv bd" and a: "allocate bd n = Inr (p, bd')" "p \<noteq> minus1_64"
  shows "buddy_inv bd' \<and> m_max_order bd' = m_max_order bd \<and>
    m_free_pages bd' + 2 ^ ceil_log2 (n div 4096) = m_free_pages bd \<and>
    ceil_log2 (n div 4096) \<le> m_max_order bd \<and> p + 2 ^ ceil_log2 (n div 4096) < 2 ^ 64 \<and>
    free_pages (free_list bd') + mset [p..<p + 2 ^ ceil_log2 (n div 4096)] = free_pages (free_list bd)"
proof -
  let ?ind = "ceil_log2 (n div 4096)"
  from a have n: "4096 \<le> n" by (cases "n div 4096 = 0") (auto simp: allocate_def div_eq_0_iff)
  have le: "?ind \<le> m_max_order bd + 1"
    using allocate_too_large [OF inv n] a(1) by (cases "?ind \<le> m_max_order bd + 1") auto
  have "\<exists>j \<ge> ?ind. j \<le> m_max_order bd \<and> free_list bd ! j \<noteq> []"
    using allocate_out_of_memory [OF n le] a by (metis Inr_inject fst_conv)
  then obtain j where j: "?ind \<le> j" "j \<le> m_max_order bd" "free_list bd ! j \<noteq> []" by blast
  from allocate_found [OF inv n j] a j show ?thesis by auto
qed

lemma reserve_outcomes:
  assumes inv: "buddy_inv bd" and a: "reserve_2mb_page bd = Inr (b, bd')" "blk_start b \<noteq> minus1_64"
  shows "buddy_inv bd' \<and> m_max_order bd' = m_max_order bd \<and> m_free_pages bd' = m_free_pages bd \<and>
    9 \<le> m_max_order bd \<and> blk_ok 9 b \<and> free_pages (free_list bd') + mset (block_pages b) = free_pages (free_list bd)"
proof -
  from a(1) have l: "9 < length (free_list bd)"
    by (auto simp: reserve_2mb_page_def Let_def split: if_splits)
  have "\<exists>j \<ge> 9. j \<le> m_max_order bd \<and> free_list bd ! j \<noteq> []"
  proof (rule ccontr)
    assume none: "\<not> ?thesis"
    moreover have "free_list bd ! 9 = []"
      using none buddy_invD(3) [OF inv _ l] by (cases "9 \<le> m_max_order bd") auto
    ultimately show False using reserve_none [OF l] a by auto
  qed
  then obtain j where j: "9 \<le> j" "j \<le> m_max_order bd" "free_list bd ! j \<noteq> []" by blast
  from reserve_found [OF inv j] a j show ?thesis by auto
qed

lemma reserve_fail_same:
  assumes inv: "buddy_inv bd" and a: "reserve_2mb_page bd = Inr (b, bd')" "blk_start b = minus1_64"
  shows "bd' = bd"
proof -
  from a(1) have l: "9 < length (free_list bd)"
    by (auto simp: reserve_2mb_page_def Let_def split: if_splits)
  have none: "\<not> (9 \<le> j \<and> j \<le> m_max_order bd \<and> free_list bd ! j \<noteq> [])" for j
    using reserve_found [OF inv, of j] a blk_okD(4) [of 9 b] by auto
  then have "free_list bd ! 9 = []"
    using buddy_invD(3) [OF inv _ l] by (cases "9 \<le> m_max_order bd") auto
  with reserve_none [OF l] none a(1) show ?thesis by auto
qed

interpretation bs: page_source buddy_inv "\<lambda>bd. free_pages (free_list bd)" buddy_grant
proof
  fix bd r ps bd'
  assume inv: "buddy_inv bd" and g: "buddy_grant bd r = Some (ps, bd')"
  have "buddy_inv bd' \<and> free_pages (free_list bd') + mset ps = free_pages (free_list bd)"
  proof (cases r)
    case (Bytes n)
    with g show ?thesis
      by (auto simp: buddy_grant_def split: sum.splits if_splits dest!: allocate_outcomes [OF inv])
  next
    case Region_2MB
    with g show ?thesis
      by (auto simp: buddy_grant_def split: sum.splits if_splits dest!: reserve_outcomes [OF inv])
  next
    case (Page p)
    with g checkIfFree_take [OF inv, of p] checkIfFree_absent [OF inv, of p True]
    show ?thesis
      by (cases "p \<in># free_pages (free_list bd)") (auto simp: buddy_grant_def)
  qed
  then show "buddy_inv bd'" "free_pages (free_list bd') + mset ps = free_pages (free_list bd)"
    by simp_all
qed (rule buddy_invD(4))

text \<open>On a state with the invariant both operations return.\<close>

lemma reserve_total:
  assumes inv: "buddy_inv bd" and m: "4 \<le> m_max_order bd"
  shows "\<exists>b bd'. reserve_2mb_page bd = Inr (b, bd') \<and> m_max_order bd' = m_max_order bd \<and> m_free_pages bd' = m_free_pages bd"
proof (cases "\<exists>j. 9 \<le> j \<and> j \<le> m_max_order bd \<and> free_list bd ! j \<noteq> []")
  case True
  then show ?thesis using reserve_found [OF inv] by blast
next
  case False
  have l: "9 < length (free_list bd)" using buddy_invD(1) [OF inv] m by simp
  have "free_list bd ! 9 = []" using False buddy_invD(3) [OF inv _ l] by (cases "9 \<le> m_max_order bd") auto
  then show ?thesis using reserve_none [OF l] False by blast
qed

lemma allocate_total:
  assumes inv: "buddy_inv bd" and n: "4096 \<le> n" "ceil_log2 (n div 4096) \<le> m_max_order bd + 1"
  shows "\<exists>p bd'. allocate bd n = Inr (p, bd') \<and> m_max_order bd' = m_max_order bd"
proof (cases "\<exists>j. ceil_log2 (n div 4096) \<le> j \<and> j \<le> m_max_order bd \<and> free_list bd ! j \<noteq> []")
  case True
  then show ?thesis using allocate_found [OF inv n(1)] by blast
next
  case False
  then show ?thesis using allocate_out_of_memory [OF n] by blast
qed

section \<open>The ownership machine\<close>

text \<open>
  A state pairs the allocator with the regions its clients hold, each as its
  first page and its order. The steps are the allocator's public operations in
  any order; a client frees only a region it holds, as a whole. The counter
  guard on \<open>release\<close> keeps \<open>m_free_pages\<close> from wrapping.
\<close>

type_synonym owner_state = "buddy \<times> (u64 \<times> nat) list"

inductive buddy_step :: "owner_state \<Rightarrow> owner_state \<Rightarrow> bool" where
  alloc: "allocate bd n = Inr (p, bd') \<Longrightarrow> p \<noteq> minus1_64 \<Longrightarrow>
    buddy_step (bd, own) (bd', (p, ceil_log2 (n div 4096)) # own)"
| alloc_fail: "allocate bd n = Inr (minus1_64, bd') \<Longrightarrow> buddy_step (bd, own) (bd', own)"
| reserve: "reserve_2mb_page bd = Inr (b, bd') \<Longrightarrow> blk_start b \<noteq> minus1_64 \<Longrightarrow>
    buddy_step (bd, own) (bd', (blk_start b, 9) # own)"
| take_page: "checkIfFree bd p True = Inr (True, bd') \<Longrightarrow> buddy_step (bd, own) (bd', (p, 0) # own)"
| release: "(p, k) \<in> set own \<Longrightarrow> m_free_pages bd + 2 ^ k < 2 ^ 64 \<Longrightarrow>
    free bd p (p + 2 ^ k - 1) = Inr bd' \<Longrightarrow> buddy_step (bd, own) (bd', remove1 (p, k) own)"
| fragment: "fragmentMemoryToTargetCount t bd = Inr bd' \<Longrightarrow> buddy_step (bd, own) (bd', own)"

definition region :: "u64 \<times> nat \<Rightarrow> nat list" where
  "region r = [fst r..<fst r + 2 ^ snd r]"

definition owned_pages :: "(u64 \<times> nat) list \<Rightarrow> nat multiset" where
  "owned_pages own = mset (concat (map region own))"

definition machine_inv :: "nat multiset \<Rightarrow> owner_state \<Rightarrow> bool" where
  "machine_inv whole st \<longleftrightarrow> buddy_inv (fst st) \<and>
     free_pages (free_list (fst st)) + owned_pages (snd st) = whole \<and>
     (\<forall>(p, k) \<in> set (snd st). k \<le> m_max_order (fst st) \<and> p + 2 ^ k < 2 ^ 64)"

lemma owned_pages_simps [simp]:
  "owned_pages [] = {#}"
  "owned_pages ((p, k) # own) = mset [p..<p + 2 ^ k] + owned_pages own"
  by (simp_all add: owned_pages_def region_def)

lemma owned_pages_remove1:
  "(p, k) \<in> set own \<Longrightarrow> owned_pages (remove1 (p, k) own) + mset [p..<p + 2 ^ k] = owned_pages own"
  by (induction own) (auto simp: owned_pages_def region_def ac_simps)

lemma allocate_fail_same:
  assumes "buddy_inv bd" "allocate bd n = Inr (minus1_64, bd')"
  shows "bd' = bd"
proof -
  from assms(2) have n: "4096 \<le> n"
    by (cases "n div 4096 = 0") (auto simp: allocate_def div_eq_0_iff)
  have le: "ceil_log2 (n div 4096) \<le> m_max_order bd + 1"
    using allocate_too_large [OF assms(1) n] assms(2)
    by (cases "ceil_log2 (n div 4096) \<le> m_max_order bd + 1") auto
  show ?thesis
  proof (cases "\<exists>j \<ge> ceil_log2 (n div 4096). j \<le> m_max_order bd \<and> free_list bd ! j \<noteq> []")
    case True
    then obtain j where "ceil_log2 (n div 4096) \<le> j" "j \<le> m_max_order bd" "free_list bd ! j \<noteq> []"
      by blast
    from allocate_found [OF assms(1) n this] assms(2) have "minus1_64 + 2 ^ ceil_log2 (n div 4096) < 2 ^ 64"
      by auto
    then show ?thesis using pow2_le_pos [of "ceil_log2 (n div 4096)", OF order_refl]
      unfolding minus1_64_def by linarith
  next
    case False
    then show ?thesis using allocate_out_of_memory [OF n le] assms(2) by auto
  qed
qed

lemma release_inv:
  assumes inv: "machine_inv whole (bd, own)" and once: "\<And>q. count whole q \<le> 1"
    and own: "(p, k) \<in> set own" and room: "m_free_pages bd + 2 ^ k < 2 ^ 64"
    and f: "free bd p (p + 2 ^ k - 1) = Inr bd'"
  shows "machine_inv whole (bd', remove1 (p, k) own)"
proof -
  from inv own have b: "buddy_inv bd" and k: "k \<le> m_max_order bd" "p + 2 ^ k < 2 ^ 64"
    and tot: "free_pages (free_list bd) + owned_pages own = whole"
    by (auto simp: machine_inv_def)
  note rem = owned_pages_remove1 [OF own]
  have e: "p + 2 ^ k - 1 + 1 = p + 2 ^ k" using pow2_le_pos [of k, OF order_refl] by simp
  have "q \<notin># free_pages (free_list bd)" if "p \<le> q" "q \<le> p + 2 ^ k - 1" for q
  proof -
    have "q < p + 2 ^ k" using that e by linarith
    then have "q \<in># mset [p..<p + 2 ^ k]" using that by simp
    then have "1 \<le> count (mset [p..<p + 2 ^ k]) q"
      by (simp only: One_nat_def Suc_leI count_greater_zero_iff)
    then have "1 \<le> count (owned_pages own) q"
      unfolding rem [symmetric] by (simp only: count_union trans_le_add2)
    moreover have "count (free_pages (free_list bd)) q + count (owned_pages own) q \<le> 1"
      using once [of q] unfolding tot [symmetric] by simp
    ultimately show ?thesis unfolding not_in_iff by linarith
  qed
  from free_ok [OF b e _ k(1) this room] f k e obtain "buddy_inv bd'"
    "free_pages (free_list bd') = free_pages (free_list bd) + mset [p..<p + 2 ^ k]"
    "m_max_order bd' = m_max_order bd"
    by auto
  moreover from this have "free_pages (free_list bd') + owned_pages (remove1 (p, k) own) = whole"
    unfolding tot [symmetric] rem [symmetric] by (simp only: ac_simps)
  ultimately show ?thesis
    using inv by (auto simp: machine_inv_def dest: notin_set_remove1)
qed

lemma buddy_step_inv:
  assumes "buddy_step st st'" "machine_inv whole st" "\<And>q. count whole q \<le> 1"
  shows "machine_inv whole st'"
  using assms
proof (induction rule: buddy_step.induct)
  case (alloc bd n p bd' own)
  then have "buddy_inv bd" by (simp add: machine_inv_def)
  from allocate_outcomes [OF this alloc(1,2)] alloc(3) show ?case
    by (auto simp: machine_inv_def ac_simps simp del: mset_upt)
next
  case (alloc_fail bd n bd' own)
  then show ?case using allocate_fail_same [of bd n bd'] by (simp add: machine_inv_def)
next
  case (reserve bd b bd' own)
  then have "buddy_inv bd" by (simp add: machine_inv_def)
  note r = reserve_outcomes [OF this reserve(1,2)]
  from r block_pages_ok [of 9 b] blk_okD(5) [of 9 b] reserve(3) show ?case
    by (auto simp: machine_inv_def ac_simps simp del: mset_upt)
next
  case (take_page bd p bd' own)
  then have inv: "buddy_inv bd" by (simp add: machine_inv_def)
  have "p \<in># free_pages (free_list bd)"
    using checkIfFree_absent [OF inv, of p True] take_page(1) by auto
  from checkIfFree_take [OF inv this] take_page(1,2) show ?case
    by (auto simp: machine_inv_def)
next
  case (release p k own bd bd')
  then show ?case by (intro release_inv)
next
  case (fragment t bd bd' own)
  then have "buddy_inv bd" by (simp add: machine_inv_def)
  from fragmentMemoryToTargetCount_ok [OF this, of t] fragment show ?case
    by (auto simp: machine_inv_def)
qed

lemma buddy_steps_inv:
  assumes "buddy_step\<^sup>*\<^sup>* st st'" "machine_inv whole st" "\<And>q. count whole q \<le> 1"
  shows "machine_inv whole st'"
  using assms by (induction rule: rtranclp_induct) (auto intro: buddy_step_inv)

lemma machine_inv_disjoint:
  assumes "machine_inv whole (bd, own)" "\<And>q. count whole q \<le> 1"
  shows "distinct (concat (map region own))"
    and "set (concat (map region own)) \<inter> set_mset (free_pages (free_list bd)) = {}"
    and "set (concat (map region own)) \<union> set_mset (free_pages (free_list bd)) = set_mset whole"
proof -
  from assms(1) have eq: "free_pages (free_list bd) + mset (concat (map region own)) = whole"
    by (simp add: machine_inv_def owned_pages_def)
  have le: "count (free_pages (free_list bd)) q + count (mset (concat (map region own))) q \<le> 1" for q
    using assms(2) [of q] unfolding eq [symmetric] by simp
  then have "count (mset (concat (map region own))) q \<le> 1" for q by (meson add_leD2)
  then show "distinct (concat (map region own))" by (rule distinct_if_count_le1)
  show "set (concat (map region own)) \<union> set_mset (free_pages (free_list bd)) = set_mset whole"
    unfolding eq [symmetric] by auto
  show "set (concat (map region own)) \<inter> set_mset (free_pages (free_list bd)) = {}"
  proof (rule ccontr)
    assume "\<not> ?thesis"
    then obtain q where "q \<in># mset (concat (map region own))" "q \<in># free_pages (free_list bd)"
      by auto
    then have "1 \<le> count (mset (concat (map region own))) q" "1 \<le> count (free_pages (free_list bd)) q"
      by (simp_all only: One_nat_def Suc_leI count_greater_zero_iff)
    with le [of q] show False by linarith
  qed
qed

text \<open>An allocator with a free page can serve a request of one page.\<close>

lemma some_free_block:
  assumes inv: "buddy_inv bd" and p: "p \<in># free_pages (free_list bd)"
  shows "\<exists>j \<le> m_max_order bd. free_list bd ! j \<noteq> []"
proof -
  from p obtain b where "b \<in> set (concat (free_list bd))"
    unfolding free_pages_def in_pages_of by blast
  then obtain l where "l \<in> set (free_list bd)" "l \<noteq> []" by force
  then obtain j where "j < length (free_list bd)" "free_list bd ! j \<noteq> []"
    by (metis in_set_conv_nth)
  moreover from this have "j \<le> m_max_order bd"
    using buddy_invD(3) [OF inv, of j] by (cases "j \<le> m_max_order bd") auto
  ultimately show ?thesis by blast
qed

lemma fresh_buddy_allocates:
  "\<exists>p bd. allocate (buddy_new 2 10 1) 4096 = Inr (p, bd) \<and> p \<noteq> minus1_64"
proof -
  let ?bd = "buddy_new 2 10 1"
  have inv: "buddy_inv ?bd" by (rule buddy_new_ok) simp_all
  have pages: "free_pages (free_list ?bd) = mset [1 * 256..<2 * 256]"
    by (rule buddy_new_ok) simp_all
  have "256 \<in># free_pages (free_list ?bd)" unfolding pages by (simp only: set_mset_mset set_upt) simp
  from some_free_block [OF inv this] obtain j where "j \<le> m_max_order ?bd" "free_list ?bd ! j \<noteq> []"
    by blast
  from allocate_found [OF inv, of 4096 j] this obtain p bd where
    r: "allocate ?bd 4096 = Inr (p, bd)" "p + 2 ^ 0 < 2 ^ 64" by auto
  then show ?thesis by (auto simp: minus1_64_def)
qed

section \<open>Properties\<close>

text \<open>
  C20: in every state reachable from a freshly constructed allocator, by any
  interleaving of allocations, 2MB reservations, single-page allocations, frees
  of held regions and fragmentation, the regions held by clients are pairwise
  disjoint, disjoint from the free lists, and together with the free lists cover
  exactly the memory above the kernel. No page is allocated twice, none is lost.
\<close>

theorem buddy_no_double_allocation:
  assumes "kernel_size \<le> memory_size" "memory_size < 2 ^ 31"
    and "buddy_step\<^sup>*\<^sup>* (buddy_new memory_size max_order kernel_size, []) (bd, own)"
  shows "distinct (concat (map region own)) \<and>
    set (concat (map region own)) \<inter> set_mset (free_pages (free_list bd)) = {} \<and>
    set (concat (map region own)) \<union> set_mset (free_pages (free_list bd)) =
      {kernel_size * 256..<memory_size * 256}"
proof -
  let ?whole = "mset [kernel_size * 256..<memory_size * 256]"
  have once: "count ?whole q \<le> 1" for q by (simp add: count_mset_set')
  have "machine_inv ?whole (buddy_new memory_size max_order kernel_size, [])"
    using buddy_new_ok [OF assms(1,2)] by (simp add: machine_inv_def)
  from buddy_steps_inv [OF assms(3) this once] have inv: "machine_inv ?whole (bd, own)" .
  show ?thesis
    using machine_inv_disjoint [OF inv once] by simp
qed

theorem buddy_no_double_allocation_witness:
  "\<exists>bd own. own \<noteq> [] \<and> buddy_step\<^sup>*\<^sup>* (buddy_new 2 10 1, []) (bd, own) \<and>
     distinct (concat (map region own)) \<and>
     set (concat (map region own)) \<inter> set_mset (free_pages (free_list bd)) = {} \<and>
     set (concat (map region own)) \<union> set_mset (free_pages (free_list bd)) = {1 * 256..<2 * 256}"
proof -
  from fresh_buddy_allocates obtain p bd where
    a: "allocate (buddy_new 2 10 1) 4096 = Inr (p, bd)" "p \<noteq> minus1_64" by blast
  have "buddy_step\<^sup>*\<^sup>* (buddy_new 2 10 1, []) (bd, [(p, ceil_log2 (4096 div 4096))])"
    using buddy_step.alloc [OF a, of "[]"] by (rule r_into_rtranclp)
  from this buddy_no_double_allocation [OF _ _ this] show ?thesis by fastforce
qed

text \<open>
  the constructor establishes the invariant and puts every page above the
  kernel on a free list exactly once; the counters equal the number of pages.
\<close>

lemma buddy_new_partitions_memory:
  assumes "kernel_size \<le> memory_size" "memory_size < 2 ^ 31"
  shows "buddy_inv (buddy_new memory_size max_order kernel_size) \<and>
    free_pages (free_list (buddy_new memory_size max_order kernel_size)) =
      mset [kernel_size * 256..<memory_size * 256] \<and>
    m_free_pages (buddy_new memory_size max_order kernel_size) = (memory_size - kernel_size) * 256"
  using buddy_new_ok [OF assms] by blast

text \<open>
  C21: a request of at least one page and at most twice the largest block either
  finds no block of a sufficient order, returns the failure value and changes
  nothing, or returns a run of \<open>2 ^ ind\<close> pages that were free: they leave the
  free lists, everything else stays, the counter drops by exactly that much and
  the invariant is kept. The splitting assertion never fails.
\<close>

theorem allocate_correct:
  assumes "buddy_inv bd" "4096 \<le> bytes" "ceil_log2 (bytes div 4096) \<le> m_max_order bd + 1"
  shows "if \<exists>j \<ge> ceil_log2 (bytes div 4096). j \<le> m_max_order bd \<and> free_list bd ! j \<noteq> []
    then \<exists>p bd'. allocate bd bytes = Inr (p, bd') \<and> p \<noteq> minus1_64 \<and> buddy_inv bd' \<and>
      free_pages (free_list bd') + mset [p..<p + 2 ^ ceil_log2 (bytes div 4096)] = free_pages (free_list bd) \<and>
      m_free_pages bd' + 2 ^ ceil_log2 (bytes div 4096) = m_free_pages bd
    else allocate bd bytes = Inr (minus1_64, bd)"
proof (cases "\<exists>j \<ge> ceil_log2 (bytes div 4096). j \<le> m_max_order bd \<and> free_list bd ! j \<noteq> []")
  case True
  then obtain j where j: "ceil_log2 (bytes div 4096) \<le> j" "j \<le> m_max_order bd" "free_list bd ! j \<noteq> []"
    by blast
  from allocate_found [OF assms(1,2) j] obtain p bd' where
    r: "allocate bd bytes = Inr (p, bd')" "p + 2 ^ ceil_log2 (bytes div 4096) < 2 ^ 64" "buddy_inv bd'"
      "free_pages (free_list bd') + mset [p..<p + 2 ^ ceil_log2 (bytes div 4096)] = free_pages (free_list bd)"
      "m_free_pages bd' + 2 ^ ceil_log2 (bytes div 4096) = m_free_pages bd"
    by blast
  have "p \<noteq> minus1_64"
    using r(2) pow2_le_pos [of "ceil_log2 (bytes div 4096)", OF order_refl]
    unfolding minus1_64_def by linarith
  with r True show ?thesis by auto
next
  case False
  with allocate_out_of_memory [OF assms(2,3)] show ?thesis by auto
qed

theorem allocate_correct_witness:
  "if \<exists>j \<ge> ceil_log2 (8192 div 4096). j \<le> m_max_order (buddy_new 2 10 1) \<and>
        free_list (buddy_new 2 10 1) ! j \<noteq> []
   then \<exists>p bd'. allocate (buddy_new 2 10 1) 8192 = Inr (p, bd') \<and> p \<noteq> minus1_64 \<and> buddy_inv bd' \<and>
     free_pages (free_list bd') + mset [p..<p + 2 ^ ceil_log2 (8192 div 4096)] =
       free_pages (free_list (buddy_new 2 10 1)) \<and>
     m_free_pages bd' + 2 ^ ceil_log2 (8192 div 4096) = m_free_pages (buddy_new 2 10 1)
   else allocate (buddy_new 2 10 1) 8192 = Inr (minus1_64, buddy_new 2 10 1)"
proof (rule allocate_correct)
  show "buddy_inv (buddy_new 2 10 1)" by (rule buddy_new_ok) simp_all
  show "ceil_log2 (8192 div 4096) \<le> m_max_order (buddy_new 2 10 1) + 1"
    by (simp add: ceil_log2.simps buddy_new_def Let_def)
qed simp

text \<open>
  a request of more than twice the largest block is not reported as out of
  memory: the search starts beyond \<open>max_order + 1\<close>, the test for that value fails
  and \<open>back()\<close> is taken of a list that is empty or does not exist.
\<close>

lemma allocate_oversized_undefined:
  assumes "buddy_inv bd" "4096 \<le> bytes" "m_max_order bd + 1 < ceil_log2 (bytes div 4096)"
  shows "allocate bd bytes = Inl Undefined_Behaviour"
  by (rule allocate_too_large [OF assms])

text \<open>
  C22: \<open>reserve_2mb_page\<close> returns a block of 512 contiguous pages that leave the
  free lists whenever some block of order 9 or more is free, and the failure
  tuple, with no change, otherwise. It never updates \<open>m_free_pages\<close>, so after a
  successful reservation the counter is 512 above the number of free pages that
  are really left, if it was exact before.
\<close>

theorem reserve_2mb_page_correct:
  assumes "buddy_inv bd" "9 < length (free_list bd)"
  shows "if \<exists>j \<ge> 9. j \<le> m_max_order bd \<and> free_list bd ! j \<noteq> []
    then \<exists>b bd'. reserve_2mb_page bd = Inr (b, bd') \<and> blk_ok 9 b \<and> buddy_inv bd' \<and>
      free_pages (free_list bd') + mset [blk_start b..<blk_start b + 512] = free_pages (free_list bd) \<and>
      size (free_pages (free_list bd')) + 512 = size (free_pages (free_list bd)) \<and>
      m_free_pages bd' = m_free_pages bd
    else reserve_2mb_page bd = Inr ((minus1_64, 0, False, 0), bd)"
proof (cases "\<exists>j \<ge> 9. j \<le> m_max_order bd \<and> free_list bd ! j \<noteq> []")
  case True
  then obtain j where j: "9 \<le> j" "j \<le> m_max_order bd" "free_list bd ! j \<noteq> []" by blast
  from reserve_found [OF assms(1) j] obtain b bd' where
    r: "reserve_2mb_page bd = Inr (b, bd')" "blk_ok 9 b" "buddy_inv bd'" "m_free_pages bd' = m_free_pages bd"
      "free_pages (free_list bd') + mset (block_pages b) = free_pages (free_list bd)" by blast
  then have p: "free_pages (free_list bd') + mset [blk_start b..<blk_start b + 512] =
      free_pages (free_list bd)"
    using block_pages_ok [OF r(2)] by simp
  then have "size (free_pages (free_list bd')) + 512 = size (free_pages (free_list bd))"
    by (metis size_union size_mset length_upt add_diff_cancel_left')
  with r p True show ?thesis by auto
next
  case False
  moreover have "free_list bd ! 9 = []"
    using False buddy_invD(3) [OF assms(1) _ assms(2)] by (cases "9 \<le> m_max_order bd") auto
  ultimately show ?thesis using reserve_none [OF assms(2)] by auto
qed

theorem reserve_2mb_page_correct_witness:
  "if \<exists>j \<ge> 9. j \<le> m_max_order (buddy_new 4 10 1) \<and> free_list (buddy_new 4 10 1) ! j \<noteq> []
   then \<exists>b bd'. reserve_2mb_page (buddy_new 4 10 1) = Inr (b, bd') \<and> blk_ok 9 b \<and> buddy_inv bd' \<and>
     free_pages (free_list bd') + mset [blk_start b..<blk_start b + 512] =
       free_pages (free_list (buddy_new 4 10 1)) \<and>
     size (free_pages (free_list bd')) + 512 = size (free_pages (free_list (buddy_new 4 10 1))) \<and>
     m_free_pages bd' = m_free_pages (buddy_new 4 10 1)
   else reserve_2mb_page (buddy_new 4 10 1) = Inr ((minus1_64, 0, False, 0), buddy_new 4 10 1)"
proof (rule reserve_2mb_page_correct)
  show inv: "buddy_inv (buddy_new 4 10 1)" by (rule buddy_new_ok) simp_all
  show "9 < length (free_list (buddy_new 4 10 1))"
    unfolding buddy_invD(1) [OF inv] by (simp add: buddy_new_def Let_def)
qed

text \<open>
  \<open>checkIfFree\<close> answers whether the page is on a free list; asked to allocate
  a free page it removes exactly that page, keeps every other page free (the
  siblings go back to the lists of their orders), decrements the counter and
  keeps the invariant.
\<close>

lemma checkIfFree_correct:
  assumes "buddy_inv bd"
  shows "checkIfFree bd p False = Inr (p \<in># free_pages (free_list bd), bd) \<and>
    (if p \<in># free_pages (free_list bd)
     then \<exists>bd'. checkIfFree bd p True = Inr (True, bd') \<and> buddy_inv bd' \<and>
       free_pages (free_list bd') + {#p#} = free_pages (free_list bd) \<and>
       m_free_pages bd' + 1 = m_free_pages bd
     else checkIfFree bd p True = Inr (False, bd))"
  using checkIfFree_query [OF assms, of p] checkIfFree_take [OF assms, of p]
    checkIfFree_absent [OF assms, of p True] by auto

text \<open>
  C23: allocating a block and freeing it again restores the multiset of free
  pages and the counter.
\<close>

theorem allocate_free_roundtrip:
  assumes "buddy_inv bd" "allocate bd bytes = Inr (p, bd')" "p \<noteq> minus1_64"
  shows "\<exists>bd''. free bd' p (p + 2 ^ ceil_log2 (bytes div 4096) - 1) = Inr bd'' \<and> buddy_inv bd'' \<and>
    free_pages (free_list bd'') = free_pages (free_list bd) \<and> m_free_pages bd'' = m_free_pages bd"
proof -
  let ?k = "ceil_log2 (bytes div 4096)"
  note a = allocate_outcomes [OF assms]
  have e: "p + 2 ^ ?k - 1 + 1 = p + 2 ^ ?k" using pow2_le_pos [of ?k, OF order_refl] by simp
  have "q \<notin># free_pages (free_list bd')" if "p \<le> q" "q \<le> p + 2 ^ ?k - 1" for q
  proof -
    have "q < p + 2 ^ ?k" using that(2) e by linarith
    with that(1) have "q \<in> set [p..<p + 2 ^ ?k]" by simp
    moreover have "serve buddy_grant bd [Bytes bytes] = ([p..<p + 2 ^ ?k], bd')"
      using assms(2,3) by (simp add: buddy_grant_def)
    ultimately show ?thesis using bs.serve_fresh [OF assms(1)] by blast
  qed
  from free_ok [OF _ e _ _ this] a buddy_invD(6) [OF assms(1)] e obtain bd'' where
    f: "free bd' p (p + 2 ^ ?k - 1) = Inr bd''" "buddy_inv bd''"
      "free_pages (free_list bd'') = free_pages (free_list bd') + mset [p..<p + 2 ^ ?k]"
      "m_free_pages bd'' = m_free_pages bd' + 2 ^ ?k"
    by auto
  with a show ?thesis by metis
qed

theorem allocate_free_roundtrip_witness:
  "\<exists>p bd' bd''. allocate (buddy_new 2 10 1) 4096 = Inr (p, bd') \<and>
     free bd' p (p + 2 ^ ceil_log2 (4096 div 4096) - 1) = Inr bd'' \<and> buddy_inv bd'' \<and>
     free_pages (free_list bd'') = free_pages (free_list (buddy_new 2 10 1)) \<and>
     m_free_pages bd'' = m_free_pages (buddy_new 2 10 1)"
proof -
  have inv: "buddy_inv (buddy_new 2 10 1)" by (rule buddy_new_ok) simp_all
  from fresh_buddy_allocates obtain p bd' where
    a: "allocate (buddy_new 2 10 1) 4096 = Inr (p, bd')" "p \<noteq> minus1_64" by blast
  from allocate_free_roundtrip [OF inv a] a(1) show ?thesis by blast
qed

text \<open>
  C24: the fragmentation loop ends, loses no page, leaves the counter alone and
  ends with at most the requested number of free 2MB pages.
\<close>

theorem fragment_to_count_correct:
  assumes "buddy_inv bd"
  shows "\<exists>bd'. fragmentMemoryToTargetCount target bd = Inr bd' \<and> buddy_inv bd' \<and>
    free_pages (free_list bd') = free_pages (free_list bd) \<and> m_free_pages bd' = m_free_pages bd \<and>
    getFreeLargePageCount bd' \<le> target"
  using fragmentMemoryToTargetCount_ok [OF assms, of target] by blast

theorem fragment_to_count_correct_witness:
  "\<exists>bd'. fragmentMemoryToTargetCount 1 (buddy_new 9 11 1) = Inr bd' \<and> buddy_inv bd' \<and>
    free_pages (free_list bd') = free_pages (free_list (buddy_new 9 11 1)) \<and>
    m_free_pages bd' = m_free_pages (buddy_new 9 11 1) \<and> getFreeLargePageCount bd' \<le> 1"
  by (rule fragment_to_count_correct) (rule buddy_new_ok, simp_all)

definition one_4mb_block :: buddy where
  "one_4mb_block = \<lparr>m_memory_size = 8, m_max_order = 10, m_kernel_size = 4, m_total_pages = 1024,
     m_free_pages = 1024,
     free_list = [[], [], [], [], [], [], [], [], [], [], [mk_block 1024 2047],
                  [], [], [], [], [], [], [], [], [], [], []]\<rparr>"

text \<open>
  the target is not met exactly: whole blocks are broken up, so with a single
  free block of order 10 (two 2MB pages) and target 1 no 2MB page is left.
\<close>

lemma fragment_to_count_overshoots:
  "getFreeLargePageCount one_4mb_block = 2 \<and>
   (\<exists>bd'. fragmentMemoryToTargetCount 1 one_4mb_block = Inr bd' \<and> getFreeLargePageCount bd' = 0)"
proof -
  have c: "getFreeLargePageCount one_4mb_block = 2"
    by (simp add: one_4mb_block_def getFreeLargePageCount_def block_size_def add64_def sub64_def)
  have h: "highest_big (free_list one_4mb_block) (m_max_order one_4mb_block) = Some 10"
    by (simp add: one_4mb_block_def highest_big.simps)
  let ?bd = "one_4mb_block\<lparr>free_list := split_largest 10 (free_list one_4mb_block)\<rparr>"
  have c': "getFreeLargePageCount ?bd = 0"
    by (simp add: one_4mb_block_def getFreeLargePageCount_def split_largest_def chunk_blocks_def
        block_size_def add64_def sub64_def mul64_def Let_def upt_rec)
  have "fragmentMemoryToTargetCount 1 one_4mb_block = fragmentMemoryToTargetCount 1 ?bd"
    by (subst fragmentMemoryToTargetCount.simps) (simp add: c h, simp add: one_4mb_block_def)
  also have "\<dots> = Inr ?bd"
    by (subst fragmentMemoryToTargetCount.simps) (simp add: c', simp add: one_4mb_block_def split_largest_def Let_def)
  finally show ?thesis using c c' by blast
qed

end
