(* ===== verification/Phys_Alloc.thy ===== *)
theory Phys_Alloc
  imports Buddy_Machine
begin

text \<open>
  The base class \<open>PhysicalMemoryAllocator\<close> (\<open>physical_memory_allocator.h\<close>), a pair
  of bump allocators for page-table pages and for instruction pages, and the
  \<open>BaselineAllocator\<close> (\<open>baseline.h\<close>), which serves everything else from a buddy
  allocator. The theory shows what the bump allocators guarantee and where the
  instruction area lies.
\<close>

section \<open>PhysicalMemoryAllocator\<close>

record phys_alloc =
  pa_memory_size :: u64
  pa_kernel_size :: u64
  kernel_start_address :: u64
  kernel_end_address :: u64
  instruction_reserved_size :: u64
  instruction_start_address :: u64
  instruction_current_address :: u64
  instruction_end_address :: u64

definition phys_alloc_new :: "u64 \<Rightarrow> u64 \<Rightarrow> phys_alloc" where
  "phys_alloc_new memory_size kernel_size =
     (let kend = mul64 (mul64 kernel_size 1024) 1024;
          reserved = 100 * 1024 * 1024
      in \<lparr> pa_memory_size = memory_size, pa_kernel_size = kernel_size,
           kernel_start_address = 4096, kernel_end_address = kend,
           instruction_reserved_size = reserved,
           instruction_start_address = kend, instruction_current_address = kend,
           instruction_end_address = add64 kend reserved \<rparr>)"

definition handle_page_table_allocations :: "phys_alloc \<Rightarrow> u64 \<Rightarrow> u64 \<times> phys_alloc" where
  "handle_page_table_allocations pa bytes =
     (kernel_start_address pa div 4096,
      pa\<lparr>kernel_start_address := add64 (kernel_start_address pa) bytes\<rparr>)"

definition handle_page_table_deallocations :: "phys_alloc \<Rightarrow> u64 \<Rightarrow> phys_alloc" where
  "handle_page_table_deallocations pa bytes =
     pa\<lparr>kernel_start_address := sub64 (kernel_start_address pa) bytes\<rparr>"

definition handle_fine_grained_page_table_allocations :: "phys_alloc \<Rightarrow> u64 \<Rightarrow> u64 \<times> phys_alloc" where
  "handle_fine_grained_page_table_allocations pa bytes =
     (kernel_start_address pa,
      pa\<lparr>kernel_start_address := add64 (kernel_start_address pa) bytes\<rparr>)"

text \<open>The result pairs a page number with the page size in bits.\<close>

definition allocateInstruction :: "phys_alloc \<Rightarrow> u64 \<Rightarrow> (u64 \<times> u64) \<times> phys_alloc" where
  "allocateInstruction pa sz =
     (if instruction_end_address pa < add64 (instruction_current_address pa) sz
      then ((minus1_64, 12), pa)
      else ((instruction_current_address pa div 4096, 12),
            pa\<lparr>instruction_current_address := add64 (instruction_current_address pa) sz\<rparr>))"

definition getNumaNodeForPPN :: "phys_alloc \<Rightarrow> u64 \<Rightarrow> nat" where
  "getNumaNodeForPPN pa ppn = 0"

section \<open>BaselineAllocator\<close>

record baseline =
  bl_phys :: phys_alloc
  bl_buddy :: buddy
  bl_total_allocations :: u64

definition baseline_new :: "nat \<Rightarrow> nat \<Rightarrow> nat \<Rightarrow> baseline" where
  "baseline_new memory_size max_order kernel_size =
     \<lparr> bl_phys = phys_alloc_new memory_size kernel_size,
       bl_buddy = buddy_new memory_size max_order kernel_size, bl_total_allocations = 0 \<rparr>"

text \<open>
  \<open>allocate\<close>: page tables and data come from the buddy allocator (the class
  hides the base-class \<open>handle_page_table_allocations\<close>), instructions from the
  reserved area of the base class.
\<close>

definition baseline_allocate :: "baseline \<Rightarrow> u64 \<Rightarrow> bool \<Rightarrow> bool \<Rightarrow> ((u64 \<times> u64) \<times> baseline) outcome" where
  "baseline_allocate bl bytes is_pagetable is_instruction =
     (let bl1 = bl\<lparr>bl_total_allocations := add64 (bl_total_allocations bl) 1\<rparr> in
      if is_pagetable then
        (case allocate (bl_buddy bl1) bytes of
           Inl e \<Rightarrow> Inl e
         | Inr (phys, bd) \<Rightarrow> Inr ((phys, 12), bl1\<lparr>bl_buddy := bd\<rparr>))
      else if is_instruction then
        (case allocateInstruction (bl_phys bl1) bytes of
           (r, pa) \<Rightarrow> Inr (r, bl1\<lparr>bl_phys := pa\<rparr>))
      else
        (case allocate (bl_buddy bl1) bytes of
           Inl e \<Rightarrow> Inl e
         | Inr (phys, bd) \<Rightarrow> Inr ((phys, 12), bl1\<lparr>bl_buddy := bd\<rparr>)))"

definition baseline_givePageFast :: "baseline \<Rightarrow> u64 \<Rightarrow> (u64 \<times> baseline) outcome" where
  "baseline_givePageFast bl bytes =
     (case allocate (bl_buddy bl) bytes of
        Inl e \<Rightarrow> Inl e
      | Inr (phys, bd) \<Rightarrow> Inr (phys, bl\<lparr>bl_buddy := bd\<rparr>))"

definition baseline_deallocate :: "baseline \<Rightarrow> u64 \<Rightarrow> baseline" where
  "baseline_deallocate bl region_begin = bl"

section \<open>The bump allocators\<close>

text \<open>A run of page-table allocations of the given sizes.\<close>

fun pt_allocs :: "phys_alloc \<Rightarrow> u64 list \<Rightarrow> (u64 \<times> u64) list \<times> phys_alloc" where
  "pt_allocs pa [] = ([], pa)"
| "pt_allocs pa (n # ns) =
     (case handle_fine_grained_page_table_allocations pa n of (a, pa') \<Rightarrow>
       (case pt_allocs pa' ns of (as, pa'') \<Rightarrow> ((a, n) # as, pa'')))"

lemma pt_allocs_spec:
  "kernel_start_address pa + sum_list ns < 2 ^ 64 \<Longrightarrow> pt_allocs pa ns = (as, pa') \<Longrightarrow>
   kernel_start_address pa' = kernel_start_address pa + sum_list ns \<and>
   concat (map (\<lambda>(a, n). [a..<a + n]) as) =
     [kernel_start_address pa..<kernel_start_address pa + sum_list ns]"
proof (induction ns arbitrary: pa as pa')
  case Nil
  then show ?case by auto
next
  case (Cons n ns)
  let ?k = "kernel_start_address pa"
  let ?pa = "pa\<lparr>kernel_start_address := add64 ?k n\<rparr>"
  obtain bs pa'' where bs: "pt_allocs ?pa ns = (bs, pa'')" by fastforce
  have k: "add64 ?k n = ?k + n" using Cons.prems(1) by (intro add64_exact) simp
  have as: "as = (?k, n) # bs" "pa' = pa''"
    using Cons.prems(2) bs by (auto simp: handle_fine_grained_page_table_allocations_def)
  from Cons.IH [OF _ bs] Cons.prems(1) k as(2)
  have IH: "kernel_start_address pa' = ?k + n + sum_list ns"
    "concat (map (\<lambda>(a, n). [a..<a + n]) bs) = [?k + n..<?k + n + sum_list ns]"
    by (simp_all add: add.assoc)
  then show ?case
    using as(1) upt_add_eq_append [of ?k "?k + n" "sum_list ns"] by (simp add: add.assoc)
qed

fun instr_allocs :: "phys_alloc \<Rightarrow> u64 list \<Rightarrow> (u64 \<times> u64) list \<times> phys_alloc" where
  "instr_allocs pa [] = ([], pa)"
| "instr_allocs pa (n # ns) =
     (case allocateInstruction pa n of ((p, bits), pa') \<Rightarrow>
       (case instr_allocs pa' ns of (ps, pa'') \<Rightarrow>
         (if p = minus1_64 then ps else (p, n div 4096) # ps, pa'')))"

text \<open>The instruction area stays between its bounds.\<close>

definition instr_inv :: "phys_alloc \<Rightarrow> bool" where
  "instr_inv pa \<longleftrightarrow>
     instruction_start_address pa \<le> instruction_current_address pa \<and>
     instruction_current_address pa \<le> instruction_end_address pa \<and>
     instruction_end_address pa < 2 ^ 63 \<and> 4096 dvd instruction_current_address pa"

lemma allocateInstruction_ok:
  assumes "instr_inv pa" "sz < 2 ^ 63" "4096 dvd sz"
    and "allocateInstruction pa sz = ((p, bits), pa')"
  shows "instr_inv pa'" "instruction_start_address pa' = instruction_start_address pa"
    "instruction_end_address pa' = instruction_end_address pa"
    "p \<noteq> minus1_64 \<Longrightarrow> p * 4096 = instruction_current_address pa \<and>
       instruction_current_address pa' = p * 4096 + sz"
    "p = minus1_64 \<Longrightarrow> pa' = pa \<and> instruction_end_address pa < instruction_current_address pa + sz"
proof -
  let ?c = "instruction_current_address pa" and ?e = "instruction_end_address pa"
  have c: "?c \<le> ?e" "?e < 2 ^ 63" "4096 dvd ?c" using assms(1) by (simp_all add: instr_inv_def)
  have "?c + sz < 2 ^ 63 + 2 ^ 63" using c assms(2) by linarith
  then have add: "add64 ?c sz = ?c + sz" by (intro add64_exact) simp
  have "?c div 4096 < 2 ^ 63" using c(1,2) div_le_dividend [of ?c 4096] by linarith
  then have p: "?c div 4096 \<noteq> minus1_64" by (auto simp: minus1_64_def)
  have cases: "(p = minus1_64 \<and> pa' = pa \<and> ?e < ?c + sz) \<or>
      (p = ?c div 4096 \<and> pa' = pa\<lparr>instruction_current_address := ?c + sz\<rparr> \<and> ?c + sz \<le> ?e)"
    using assms(4) unfolding allocateInstruction_def add by (auto split: if_splits)
  then show "instr_inv pa'" "instruction_start_address pa' = instruction_start_address pa"
    "instruction_end_address pa' = instruction_end_address pa"
    using assms(1,3) by (auto simp: instr_inv_def)
  show "p \<noteq> minus1_64 \<Longrightarrow> p * 4096 = ?c \<and> instruction_current_address pa' = p * 4096 + sz"
    using cases c(3) by auto
  show "p = minus1_64 \<Longrightarrow> pa' = pa \<and> ?e < ?c + sz"
    using cases p by auto
qed

lemma instr_allocs_spec:
  "instr_inv pa \<Longrightarrow> (\<And>n. n \<in> set ns \<Longrightarrow> 4096 dvd n \<and> n < 2 ^ 63) \<Longrightarrow>
   instr_allocs pa ns = (ps, pa') \<Longrightarrow>
   instr_inv pa' \<and> instruction_end_address pa' = instruction_end_address pa \<and>
   instruction_current_address pa \<le> instruction_current_address pa' \<and>
   concat (map (\<lambda>(p, n). [p..<p + n]) ps) =
     [instruction_current_address pa div 4096..<instruction_current_address pa' div 4096]"
proof (induction ns arbitrary: pa ps pa')
  case Nil
  then show ?case by auto
next
  case (Cons n ns)
  obtain p bits pb where a: "allocateInstruction pa n = ((p, bits), pb)" by (metis prod_cases3 surj_pair)
  obtain qs pc where q: "instr_allocs pb ns = (qs, pc)" by fastforce
  have n: "4096 dvd n" "n < 2 ^ 63" using Cons.prems(2) [of n] by simp_all
  note A = allocateInstruction_ok [OF Cons.prems(1) n(2,1) a]
  have IH: "instr_inv pc \<and> instruction_end_address pc = instruction_end_address pb \<and>
     instruction_current_address pb \<le> instruction_current_address pc \<and>
     concat (map (\<lambda>(p, n). [p..<p + n]) qs) =
       [instruction_current_address pb div 4096..<instruction_current_address pc div 4096]"
    using Cons.prems(2) by (intro Cons.IH [OF A(1) _ q]) simp
  have r: "pa' = pc" "ps = (if p = minus1_64 then qs else (p, n div 4096) # qs)"
    using Cons.prems(3) a q by auto
  show ?case
  proof (cases "p = minus1_64")
    case True
    with A(5) IH r show ?thesis by simp
  next
    case False
    from A(4) [OF False] have c: "instruction_current_address pa div 4096 = p"
      "instruction_current_address pb div 4096 = p + n div 4096"
      "instruction_current_address pa \<le> instruction_current_address pb"
      using n(1) by auto
    have "instruction_current_address pb div 4096 \<le> instruction_current_address pc div 4096"
      using IH by (intro div_le_mono) simp
    then have "[p..<instruction_current_address pc div 4096] =
        [p..<p + n div 4096] @ [p + n div 4096..<instruction_current_address pc div 4096]"
      using c(2) upt_add_eq_append [of p "p + n div 4096"
        "instruction_current_address pc div 4096 - (p + n div 4096)"] by simp
    with IH r False A(3) c show ?thesis by simp
  qed
qed

lemma phys_alloc_new_instr:
  assumes "kernel_size < 2 ^ 32"
  shows "instr_inv (phys_alloc_new memory_size kernel_size)"
    "instruction_current_address (phys_alloc_new memory_size kernel_size) = kernel_size * 2 ^ 20"
    "instruction_end_address (phys_alloc_new memory_size kernel_size) = kernel_size * 2 ^ 20 + 100 * 2 ^ 20"
  using assms
  by (simp_all add: phys_alloc_new_def Let_def mul64_exact add64_exact instr_inv_def)

section \<open>Properties\<close>

text \<open>
  the page-table bump allocator hands out consecutive, non-overlapping byte
  ranges: a run of requests covers exactly the interval from the old to the new
  \<open>kernel_start_address\<close>, as long as the sum does not wrap.
\<close>

lemma page_table_bump_contiguous:
  assumes "kernel_start_address pa + sum_list ns < 2 ^ 64" "pt_allocs pa ns = (as, pa')"
  shows "concat (map (\<lambda>(a, n). [a..<a + n]) as) =
    [kernel_start_address pa..<kernel_start_address pa']"
  using pt_allocs_spec [OF assms] by simp

text \<open>
  page-aligned instruction allocations return consecutive, distinct pages
  starting at the kernel end; a request that does not fit in the 100MB area is
  refused and the area is never left.
\<close>

lemma instruction_area_respected:
  assumes "kernel_size < 2 ^ 32" "\<And>n. n \<in> set ns \<Longrightarrow> 4096 dvd n \<and> n < 2 ^ 63"
    and "instr_allocs (phys_alloc_new memory_size kernel_size) ns = (ps, pa')"
  shows "distinct (concat (map (\<lambda>(p, n). [p..<p + n]) ps)) \<and>
    set (concat (map (\<lambda>(p, n). [p..<p + n]) ps)) \<subseteq> {kernel_size * 256..<kernel_size * 256 + 25600}"
proof -
  let ?pa = "phys_alloc_new memory_size kernel_size"
  note new = phys_alloc_new_instr [OF assms(1), of memory_size]
  note r = instr_allocs_spec [OF new(1) assms(2,3)]
  have "instruction_current_address pa' \<le> kernel_size * 2 ^ 20 + 100 * 2 ^ 20"
    using r new(3) by (simp add: instr_inv_def)
  then have "instruction_current_address pa' div 4096 \<le> kernel_size * 256 + 25600"
    by (simp add: div_le_mono [of _ _ 4096, THEN le_trans])
  with r new(2) show ?thesis by auto
qed

text \<open>
  the instruction area begins at the kernel end, which is also where the
  memory of the buddy allocator begins: in the baseline allocator the first
  instruction page is at the same time a free page of the buddy allocator, from
  which data and page-table pages are served.
\<close>

lemma baseline_instruction_page_still_free:
  assumes "0 < kernel_size" "kernel_size < memory_size" "memory_size < 2 ^ 31"
  shows "\<exists>p bl. baseline_allocate (baseline_new memory_size max_order kernel_size) 4096 False True =
      Inr ((p, 12), bl) \<and> p \<in># free_pages (free_list (bl_buddy bl))"
proof -
  let ?bl = "baseline_new memory_size max_order kernel_size"
  have k: "kernel_size < 2 ^ 32" "kernel_size \<le> memory_size" using assms by simp_all
  note new = phys_alloc_new_instr [OF k(1), of memory_size]
  obtain p bits pa where a: "allocateInstruction (bl_phys ?bl) 4096 = ((p, bits), pa)"
    by (metis prod_cases3 surj_pair)
  have r: "p = kernel_size * 256" "bits = 12"
    using a assms new
    by (auto simp: allocateInstruction_def baseline_new_def add64_exact split: if_splits)
  have "p \<in># free_pages (free_list (bl_buddy ?bl))"
    unfolding baseline_new_def using r assms buddy_new_ok(2) [OF k(2) assms(3), of max_order] by simp
  with a r show ?thesis by (simp add: baseline_allocate_def Let_def baseline_new_def)
qed

end
