(* ===== verification/Reserve_THP.thy ===== *)
theory Reserve_THP
  imports Phys_Alloc Complex_Main
begin

text \<open>
  The reservation-based transparent-huge-page allocator (\<open>reserve_thp.h\<close>): a map
  from 2MB regions of virtual memory to reserved 2MB regions of physical memory,
  with one bit per 4KB page in use and a promotion flag, on top of the buddy
  allocator. The bit set is the set of its set positions; doubles are rationals
  (the utilisation, a count divided by 512, and its comparison with the
  threshold are exact in binary floating point).
\<close>

section \<open>State\<close>

record thp_region =
  region_begin :: u64
  region_bits :: "nat set"
  region_promoted :: bool

datatype frag_mode = RATIO_BASED | COUNT_BASED

record reserve_thp =
  rt_buddy :: buddy
  two_mb_map :: "(u64 \<times> thp_region) list"
  threshold_for_promotion :: rat
  rt_frag_mode :: frag_mode
  rt_target_free_2mb_count :: u64
  four_kb_allocated :: u64
  two_mb_reserved :: u64
  two_mb_promoted :: u64
  two_mb_demoted :: u64
  total_allocations :: u64

definition reserve_thp_new :: "nat \<Rightarrow> nat \<Rightarrow> nat \<Rightarrow> rat \<Rightarrow> reserve_thp" where
  "reserve_thp_new memory_size max_order kernel_size threshold =
     \<lparr> rt_buddy = buddy_new memory_size max_order kernel_size, two_mb_map = [],
       threshold_for_promotion = threshold, rt_frag_mode = RATIO_BASED, rt_target_free_2mb_count = 0,
       four_kb_allocated = 0, two_mb_reserved = 0, two_mb_promoted = 0, two_mb_demoted = 0,
       total_allocations = 0 \<rparr>"

section \<open>Operations\<close>

definition utilization :: "thp_region \<Rightarrow> rat" where
  "utilization r = of_nat (card (region_bits r)) / 512"

text \<open>Reserving a region for an address range that has none yet.\<close>

definition reserve_region :: "reserve_thp \<Rightarrow> u64 \<Rightarrow> (bool \<times> reserve_thp) outcome" where
  "reserve_region rt region_2MB =
     (case reserve_2mb_page (rt_buddy rt) of
        Inl e \<Rightarrow> Inl e
      | Inr (b, bd) \<Rightarrow>
          if blk_start b = minus1_64 then Inr (False, rt\<lparr>rt_buddy := bd\<rparr>)
          else Inr (True, rt\<lparr>rt_buddy := bd,
                 two_mb_map := map_put region_2MB
                   \<lparr>region_begin = blk_start b, region_bits = {}, region_promoted = False\<rparr> (two_mb_map rt),
                 two_mb_reserved := add64 (two_mb_reserved rt) 1\<rparr>))"

text \<open>Marking a page of an existing region as used, with promotion.\<close>

definition use_region :: "reserve_thp \<Rightarrow> u64 \<Rightarrow> thp_region \<Rightarrow> nat \<Rightarrow> ((u64 \<times> bool) \<times> reserve_thp) outcome" where
  "use_region rt region_2MB r offset_in_2MB =
     (if region_promoted r then Inl Assertion_Failed
      else let r1 = r\<lparr>region_bits := insert offset_in_2MB (region_bits r)\<rparr> in
           if threshold_for_promotion rt < utilization r1
           then Inr ((region_begin r1, True),
                  rt\<lparr>two_mb_map := map_put region_2MB (r1\<lparr>region_promoted := True\<rparr>) (two_mb_map rt),
                     two_mb_promoted := add64 (two_mb_promoted rt) 1\<rparr>)
           else Inr ((add64 (region_begin r1) offset_in_2MB, False),
                  rt\<lparr>two_mb_map := map_put region_2MB r1 (two_mb_map rt)\<rparr>))"

definition checkFor2MBAllocation :: "reserve_thp \<Rightarrow> u64 \<Rightarrow> ((u64 \<times> bool) \<times> reserve_thp) outcome" where
  "checkFor2MBAllocation rt address =
     (let region_2MB = address div 2 ^ 21;
          offset_in_2MB = (address div 2 ^ 12) mod 512 in
      case map_of (two_mb_map rt) region_2MB of
        Some r \<Rightarrow> use_region rt region_2MB r offset_in_2MB
      | None \<Rightarrow>
          (case reserve_region rt region_2MB of
             Inl e \<Rightarrow> Inl e
           | Inr (False, rt1) \<Rightarrow> Inr ((minus1_64, False), rt1)
           | Inr (True, rt1) \<Rightarrow>
               (case map_of (two_mb_map rt1) region_2MB of
                  Some r \<Rightarrow> use_region rt1 region_2MB r offset_in_2MB
                | None \<Rightarrow> Inl Undefined_Behaviour)))"

text \<open>
  \<open>demote_page\<close> sorts the regions that are not promoted by utilisation and takes
  the first. \<open>std::sort\<close> leaves the order of equal keys open, so the choice of
  the front element is the parameter \<open>pick\<close>; the keys are compared by their
  numerators. The loop frees the pages whose bit is clear.
\<close>

definition demotable :: "reserve_thp \<Rightarrow> (u64 \<times> nat) list" where
  "demotable rt = map (\<lambda>(k, r). (k, card (region_bits r)))
     (filter (\<lambda>(k, r). \<not> region_promoted r) (two_mb_map rt))"

fun free_unused :: "u64 \<Rightarrow> nat set \<Rightarrow> nat list \<Rightarrow> buddy \<Rightarrow> buddy outcome" where
  "free_unused begin bits [] bd = Inr bd"
| "free_unused begin bits (j # js) bd =
     (if j \<in> bits then free_unused begin bits js bd
      else (case free bd (add64 begin j) (add64 begin (j + 1)) of
              Inl e \<Rightarrow> Inl e
            | Inr bd' \<Rightarrow> free_unused begin bits js bd'))"

definition demote_page :: "((u64 \<times> nat) list \<Rightarrow> u64 \<times> nat) \<Rightarrow> reserve_thp \<Rightarrow> (bool \<times> reserve_thp) outcome" where
  "demote_page pick rt =
     (if demotable rt = [] then Inr (False, rt)
      else let region_2MB = fst (pick (demotable rt)) in
           case map_of (two_mb_map rt) region_2MB of
             None \<Rightarrow> Inl Undefined_Behaviour
           | Some r \<Rightarrow>
               (case free_unused (region_begin r) (region_bits r) [0..<512] (rt_buddy rt) of
                  Inl e \<Rightarrow> Inl e
                | Inr bd \<Rightarrow>
                    Inr (True, rt\<lparr>rt_buddy := bd, two_mb_demoted := add64 (two_mb_demoted rt) 1,
                                  two_mb_map := map_erase region_2MB (two_mb_map rt)\<rparr>)))"

definition thp_buddy_allocate :: "reserve_thp \<Rightarrow> u64 \<Rightarrow> (u64 \<times> reserve_thp) outcome" where
  "thp_buddy_allocate rt sz =
     (case allocate (rt_buddy rt) sz of
        Inl e \<Rightarrow> Inl e
      | Inr (p, bd) \<Rightarrow> Inr (p, rt\<lparr>rt_buddy := bd\<rparr>))"

definition thp_allocate ::
  "((u64 \<times> nat) list \<Rightarrow> u64 \<times> nat) \<Rightarrow> reserve_thp \<Rightarrow> u64 \<Rightarrow> u64 \<Rightarrow> bool \<Rightarrow> ((u64 \<times> u64) \<times> reserve_thp) outcome" where
  "thp_allocate pick rt0 sz address is_pagetable =
     (let rt = rt0\<lparr>total_allocations := add64 (total_allocations rt0) 1\<rparr>;
          four_kb = (\<lambda>(p, s). ((p, 12), s\<lparr>four_kb_allocated := add64 (four_kb_allocated s) 1\<rparr>)) in
      if is_pagetable then map_sum id four_kb (thp_buddy_allocate rt sz)
      else (case checkFor2MBAllocation rt address of
        Inl e \<Rightarrow> Inl e
      | Inr ((page, promoted), rt1) \<Rightarrow>
          if page \<noteq> minus1_64 then Inr ((page, if promoted then 21 else 12), rt1)
          else (case thp_buddy_allocate rt1 sz of
            Inl e \<Rightarrow> Inl e
          | Inr (fallback, rt2) \<Rightarrow>
              if fallback \<noteq> minus1_64 then Inr (four_kb (fallback, rt2))
              else (case demote_page pick rt2 of
                Inl e \<Rightarrow> Inl e
              | Inr (False, rt3) \<Rightarrow> Inl Assertion_Failed
              | Inr (True, rt3) \<Rightarrow> map_sum id four_kb (thp_buddy_allocate rt3 sz)))))"

text \<open>The SpecTLB query and the configuration methods.\<close>

definition isLargePageReserved :: "reserve_thp \<Rightarrow> u64 \<Rightarrow> u64" where
  "isLargePageReserved rt address =
     (case map_of (two_mb_map rt) (address div 2 ^ 21) of Some r \<Rightarrow> region_begin r | None \<Rightarrow> minus1_64)"

definition thp_fragment_memory_to_count :: "reserve_thp \<Rightarrow> u64 \<Rightarrow> reserve_thp outcome" where
  "thp_fragment_memory_to_count rt target =
     map_sum id (\<lambda>bd. rt\<lparr>rt_buddy := bd\<rparr>) (fragmentMemoryToTargetCount target (rt_buddy rt))"

definition configureCountBasedFragmentation :: "reserve_thp \<Rightarrow> u64 \<Rightarrow> reserve_thp" where
  "configureCountBasedFragmentation rt target =
     rt\<lparr>rt_frag_mode := COUNT_BASED, rt_target_free_2mb_count := target\<rparr>"

definition thp_givePageFast :: "reserve_thp \<Rightarrow> u64 \<Rightarrow> (u64 \<times> reserve_thp) outcome" where
  "thp_givePageFast rt bytes = thp_buddy_allocate rt bytes"

section \<open>Invariant\<close>

text \<open>All pages under the allocator's control: free ones and those of reserved regions.\<close>

definition region_pages :: "thp_region \<Rightarrow> nat multiset" where
  "region_pages r = mset [region_begin r..<region_begin r + 512]"

definition thp_pages :: "reserve_thp \<Rightarrow> nat multiset" where
  "thp_pages rt = free_pages (free_list (rt_buddy rt)) +
     (\<Sum>e \<in># mset (two_mb_map rt). region_pages (snd e))"

definition region_ok :: "thp_region \<Rightarrow> bool" where
  "region_ok r \<longleftrightarrow> region_begin r + 512 < 2 ^ 64 \<and> region_bits r \<subseteq> {..<512}"

definition thp_base :: "reserve_thp \<Rightarrow> bool" where
  "thp_base rt \<longleftrightarrow> buddy_inv (rt_buddy rt) \<and> map_wf (two_mb_map rt) \<and>
     (\<forall>p. count (thp_pages rt) p \<le> 1) \<and> (\<forall>e \<in> set (two_mb_map rt). region_ok (snd e))"

definition promo_ok :: "rat \<Rightarrow> thp_region \<Rightarrow> bool" where
  "promo_ok t r \<longleftrightarrow> (region_promoted r \<longleftrightarrow> t < utilization r)"

definition thp_inv :: "reserve_thp \<Rightarrow> bool" where
  "thp_inv rt \<longleftrightarrow> thp_base rt \<and>
     (\<forall>e \<in> set (two_mb_map rt). promo_ok (threshold_for_promotion rt) (snd e))"

lemma thp_baseD:
  assumes "thp_base rt"
  shows "buddy_inv (rt_buddy rt)" "map_wf (two_mb_map rt)" "\<And>p. count (thp_pages rt) p \<le> 1"
    "\<And>k r. map_of (two_mb_map rt) k = Some r \<Longrightarrow> region_ok r"
  using assms by (fastforce simp: thp_base_def dest: map_of_SomeD)+

text \<open>Replacing a region by one with the same frames keeps the pages.\<close>

lemma thp_pages_put_old:
  assumes "map_wf m" "map_of m k = Some r" "region_begin r' = region_begin r"
  shows "(\<Sum>e \<in># mset (map_put k r' m). region_pages (snd e)) = (\<Sum>e \<in># mset m. region_pages (snd e))"
proof -
  let ?f = "\<lambda>M. \<Sum>e \<in># M. region_pages (snd e :: thp_region)"
  have "?f (add_mset (k, r) (mset (map_put k r' m))) = ?f (add_mset (k, r') (mset m))"
    by (simp only: mset_map_put_old [OF assms(1,2)])
  then show ?thesis using assms(3) by (simp add: region_pages_def)
qed

lemma thp_base_put:
  assumes b: "thp_base rt" and r: "map_of (two_mb_map rt) k = Some r"
    and r': "region_begin r' = region_begin r" "region_ok r'"
  shows "thp_base (rt\<lparr>two_mb_map := map_put k r' (two_mb_map rt)\<rparr>)"
    "thp_pages (rt\<lparr>two_mb_map := map_put k r' (two_mb_map rt)\<rparr>) = thp_pages rt"
proof -
  note d = thp_baseD [OF b]
  show p: "thp_pages (rt\<lparr>two_mb_map := map_put k r' (two_mb_map rt)\<rparr>) = thp_pages rt"
    by (simp add: thp_pages_def thp_pages_put_old [OF d(2) r r'(1)])
  show "thp_base (rt\<lparr>two_mb_map := map_put k r' (two_mb_map rt)\<rparr>)"
    using b r'(2) unfolding thp_base_def p by (auto simp: set_map_put)
qed

lemma thp_stats_irrelevant [simp]:
  "thp_pages (rt\<lparr>two_mb_promoted := n\<rparr>) = thp_pages rt" "thp_base (rt\<lparr>two_mb_promoted := n\<rparr>) = thp_base rt"
  "thp_inv (rt\<lparr>two_mb_promoted := n\<rparr>) = thp_inv rt"
  "thp_pages (rt\<lparr>two_mb_reserved := n\<rparr>) = thp_pages rt" "thp_base (rt\<lparr>two_mb_reserved := n\<rparr>) = thp_base rt"
  "thp_pages (rt\<lparr>total_allocations := n\<rparr>) = thp_pages rt" "thp_inv (rt\<lparr>total_allocations := n\<rparr>) = thp_inv rt"
  "thp_pages (rt\<lparr>four_kb_allocated := n\<rparr>) = thp_pages rt" "thp_inv (rt\<lparr>four_kb_allocated := n\<rparr>) = thp_inv rt"
  by (simp_all add: thp_pages_def thp_base_def thp_inv_def)

lemma reserve_region_ok:
  assumes b: "thp_base rt" and new: "map_of (two_mb_map rt) k = None"
    and res: "reserve_region rt k = Inr (ok, rt')"
  shows "thp_base rt' \<and> thp_pages rt' = thp_pages rt \<and>
    threshold_for_promotion rt' = threshold_for_promotion rt \<and>
    (if ok then \<exists>p. two_mb_map rt' =
        map_put k \<lparr>region_begin = p, region_bits = {}, region_promoted = False\<rparr> (two_mb_map rt)
     else rt' = rt)"
proof -
  note d = thp_baseD [OF b]
  obtain bl bd where r: "reserve_2mb_page (rt_buddy rt) = Inr (bl, bd)"
    using res by (auto simp: reserve_region_def split: sum.splits)
  show ?thesis
  proof (cases "blk_start bl = minus1_64")
    case True
    have "bd = rt_buddy rt" by (rule reserve_fail_same [OF d(1) r True])
    with True res r b show ?thesis by (auto simp: reserve_region_def)
  next
    case False
    let ?r = "\<lparr>region_begin = blk_start bl, region_bits = {}, region_promoted = False\<rparr>"
    note o = reserve_outcomes [OF d(1) r False]
    have kn: "k \<notin> fst ` set (two_mb_map rt)" using new by (simp add: map_of_eq_None_iff)
    have rt': "rt' = rt\<lparr>rt_buddy := bd, two_mb_map := map_put k ?r (two_mb_map rt),
        two_mb_reserved := add64 (two_mb_reserved rt) 1\<rparr>" "ok"
      using res r False by (auto simp: reserve_region_def)
    have rp: "region_pages ?r = mset (block_pages bl)"
      using block_pages_ok [of 9 bl] o by (simp add: region_pages_def)
    have p: "thp_pages rt' = thp_pages rt"
      unfolding rt' thp_pages_def using o rp mset_map_put_new [OF kn, of ?r]
      by (simp add: ac_simps)
    have "region_ok ?r" using o blk_okD(5) [of 9 bl] by (simp add: region_ok_def)
    then have "thp_base rt'"
      unfolding thp_base_def p using o d b unfolding rt' thp_base_def by (auto simp: set_map_put)
    with p rt' show ?thesis by auto
  qed
qed

section \<open>The frames of virtual pages\<close>

text \<open>
  The frame the allocator has assigned to the page of an address: the base of
  its region plus the page's offset, once the page's bit is set. A promoted
  region is mapped by its base with the offset taken from the address, so the
  frame is the same.
\<close>

definition va_region :: "u64 \<Rightarrow> nat" where
  "va_region address = address div 2 ^ 21"

definition va_offset :: "u64 \<Rightarrow> nat" where
  "va_offset address = (address div 2 ^ 12) mod 512"

definition thp_frame :: "reserve_thp \<Rightarrow> u64 \<Rightarrow> u64 option" where
  "thp_frame rt address =
     (case map_of (two_mb_map rt) (va_region address) of
        None \<Rightarrow> None
      | Some r \<Rightarrow> if va_offset address \<in> region_bits r then Some (region_begin r + va_offset address) else None)"

lemma va_offset_less [simp]: "va_offset a < 512"
  by (simp add: va_offset_def)

lemma va_page_eq_iff: "a div 4096 = b div 4096 \<longleftrightarrow> va_region a = va_region b \<and> va_offset a = va_offset b"
proof -
  have "x div 4096 = 512 * va_region x + va_offset x" for x
  proof -
    have "va_region x = x div 4096 div 512" by (simp add: va_region_def div_mult2_eq [symmetric])
    then show ?thesis by (simp add: va_offset_def)
  qed
  moreover have "va_region a = a div 4096 div 512" "va_region b = b div 4096 div 512"
    by (simp_all add: va_region_def div_mult2_eq [symmetric])
  ultimately show ?thesis by (metis va_offset_less add_left_cancel)
qed

lemma sum_mset_sub: "x \<in># M \<Longrightarrow> y \<in># M - {#x#} \<Longrightarrow> count (f x) p + count (f y) p \<le> count (\<Sum>z \<in># M. f z) p"
proof -
  assume "x \<in># M" "y \<in># M - {#x#}"
  then obtain N where "M = add_mset x (add_mset y N)" by (metis insert_DiffM)
  then show ?thesis by simp
qed

text \<open>Two regions of the map share no frame.\<close>

lemma regions_disjoint:
  assumes b: "thp_base rt" and r: "map_of (two_mb_map rt) k = Some r" "map_of (two_mb_map rt) k' = Some r'"
    and f: "f \<in># region_pages r" "f \<in># region_pages r'"
  shows "k = k'"
proof (rule ccontr)
  assume ne: "k \<noteq> k'"
  let ?M = "mset (two_mb_map rt)" and ?g = "\<lambda>e. region_pages (snd e)"
  have "(k, r) \<in># ?M" "(k', r') \<in># ?M" using r by (auto dest: map_of_SomeD)
  moreover from this ne have "(k', r') \<in># ?M - {#(k, r)#}" by (simp add: in_diff_count)
  ultimately have "count (?g (k, r)) f + count (?g (k', r')) f \<le> count (\<Sum>z \<in># ?M. ?g z) f"
    by (intro sum_mset_sub)
  also have "\<dots> \<le> 1" using thp_baseD(3) [OF b, of f] unfolding thp_pages_def by simp
  finally have "count (region_pages r) f + count (region_pages r') f \<le> 1" by simp
  moreover have "1 \<le> count (region_pages r) f" "1 \<le> count (region_pages r') f"
    using f by (simp_all only: One_nat_def Suc_leI count_greater_zero_iff)
  ultimately show False by linarith
qed

lemma thp_frame_inj:
  assumes b: "thp_base rt" and f: "thp_frame rt a = Some f" "thp_frame rt a' = Some f"
  shows "a div 4096 = a' div 4096"
proof -
  from f obtain r r' where
    r: "map_of (two_mb_map rt) (va_region a) = Some r" "f = region_begin r + va_offset a"
    and r': "map_of (two_mb_map rt) (va_region a') = Some r'" "f = region_begin r' + va_offset a'"
    by (auto simp: thp_frame_def split: option.splits if_splits)
  have "f \<in># region_pages r" unfolding r(2) by (simp add: region_pages_def)
  moreover have "f \<in># region_pages r'" unfolding r'(2) by (simp add: region_pages_def)
  ultimately have "va_region a = va_region a'" by (rule regions_disjoint [OF b r(1) r'(1)])
  with r r' show ?thesis by (simp add: va_page_eq_iff)
qed

lemma thp_frame_not_free:
  assumes b: "thp_base rt" and f: "thp_frame rt a = Some f"
  shows "f \<notin># free_pages (free_list (rt_buddy rt))"
proof
  assume fr: "f \<in># free_pages (free_list (rt_buddy rt))"
  from f obtain r where r: "map_of (two_mb_map rt) (va_region a) = Some r" "f = region_begin r + va_offset a"
    by (auto simp: thp_frame_def split: option.splits if_splits)
  let ?M = "mset (two_mb_map rt)" and ?g = "\<lambda>e. region_pages (snd e)"
  have "f \<in># region_pages r" using r(2) by (auto simp: region_pages_def)
  moreover have "(va_region a, r) \<in># ?M" using r(1) by (auto dest: map_of_SomeD)
  ultimately have "f \<in># (\<Sum>z \<in># ?M. ?g z)" by (metis in_Union_mset_iff image_eqI set_image_mset snd_conv)
  then have "1 \<le> count (\<Sum>z \<in># ?M. ?g z) f" "1 \<le> count (free_pages (free_list (rt_buddy rt))) f"
    using fr by (simp_all only: One_nat_def Suc_leI count_greater_zero_iff)
  moreover have "count (free_pages (free_list (rt_buddy rt))) f + count (\<Sum>z \<in># ?M. ?g z) f \<le> 1"
    using thp_baseD(3) [OF b, of f] unfolding thp_pages_def by simp
  ultimately show False by linarith
qed

lemma use_region_ok:
  assumes b: "thp_base rt" and r: "map_of (two_mb_map rt) k = Some r" and off: "off < 512"
    and others: "\<And>e. e \<in> set (two_mb_map rt) \<Longrightarrow> fst e \<noteq> k \<Longrightarrow> promo_ok (threshold_for_promotion rt) (snd e)"
    and u: "use_region rt k r off = Inr ((page, pr), rt')"
  defines "r' \<equiv> r\<lparr>region_bits := insert off (region_bits r), region_promoted := pr\<rparr>"
  shows "thp_inv rt'" "thp_pages rt' = thp_pages rt" "two_mb_map rt' = map_put k r' (two_mb_map rt)"
    "page = (if pr then region_begin r else region_begin r + off)" "rt_buddy rt' = rt_buddy rt"
    "page \<noteq> minus1_64" "two_mb_demoted rt' = two_mb_demoted rt"
proof -
  let ?r1 = "r\<lparr>region_bits := insert off (region_bits r)\<rparr>"
  have ok: "region_ok r" by (rule thp_baseD(4) [OF b r])
  then have lt: "region_begin r + off < 2 ^ 64 - 1" "region_begin r + off < 2 ^ 64"
    using off by (auto simp: region_ok_def)
  have ok': "region_ok r'" using ok off by (simp add: region_ok_def r'_def)
  from u have np: "\<not> region_promoted r" by (auto simp: use_region_def)
  have e: "r\<lparr>region_bits := insert off (region_bits r), region_promoted := False\<rparr> = ?r1"
    using np by (intro thp_region.equality) simp_all
  have pr: "pr = (threshold_for_promotion rt < utilization ?r1)"
    and page: "page = (if pr then region_begin r else region_begin r + off)"
    and map': "two_mb_map rt' = map_put k r' (two_mb_map rt)"
    and rest: "rt_buddy rt' = rt_buddy rt" "threshold_for_promotion rt' = threshold_for_promotion rt"
      "two_mb_demoted rt' = two_mb_demoted rt"
    and rt': "\<exists>n. rt' = rt\<lparr>two_mb_map := map_put k r' (two_mb_map rt), two_mb_promoted := n\<rparr>"
    using u np lt(2)
    by (auto simp: use_region_def Let_def r'_def add64_exact e split: if_splits
        intro: exI [of _ "two_mb_promoted rt"])
  show "two_mb_map rt' = map_put k r' (two_mb_map rt)" "rt_buddy rt' = rt_buddy rt"
    "page = (if pr then region_begin r else region_begin r + off)" "two_mb_demoted rt' = two_mb_demoted rt"
    by (fact map' rest(1) page rest(3))+
  show "page \<noteq> minus1_64" unfolding page minus1_64_def using lt by auto
  have rb: "region_begin r' = region_begin r" by (simp add: r'_def)
  from rt' thp_base_put [OF b r rb ok'] have base: "thp_base rt'" and
    pages: "thp_pages rt' = thp_pages rt" by auto
  show "thp_pages rt' = thp_pages rt" by (fact pages)
  have "promo_ok (threshold_for_promotion rt) r'"
    using pr by (simp add: promo_ok_def r'_def utilization_def)
  then show "thp_inv rt'"
    using base others unfolding thp_inv_def map' rest
    by (auto simp: set_map_put [OF thp_baseD(2) [OF b]])
qed

lemma reserve_region_new:
  assumes b: "thp_base rt" and new: "map_of (two_mb_map rt) k = None"
    and res: "reserve_region rt k = Inr (ok, rt')"
  shows "two_mb_demoted rt' = two_mb_demoted rt"
    "\<And>e. e \<in> set (two_mb_map rt') \<Longrightarrow> fst e \<noteq> k \<Longrightarrow> e \<in> set (two_mb_map rt)"
proof -
  show "two_mb_demoted rt' = two_mb_demoted rt"
    using res by (auto simp: reserve_region_def split: sum.splits if_splits)
  show "e \<in> set (two_mb_map rt)" if "e \<in> set (two_mb_map rt')" "fst e \<noteq> k" for e
    using that reserve_region_ok [OF b new res] thp_baseD(2) [OF b]
    by (auto simp: set_map_put split: if_splits)
qed

text \<open>
  The whole of \<open>checkFor2MBAllocation\<close>. A successful call changes one region
  \<open>r\<close> (possibly a new, empty one) to \<open>r'\<close>.
\<close>

definition region_grant ::
  "reserve_thp \<Rightarrow> reserve_thp \<Rightarrow> u64 \<Rightarrow> u64 \<Rightarrow> bool \<Rightarrow> thp_region \<Rightarrow> thp_region \<Rightarrow> bool" where
  "region_grant rt rt' a page pr r r' \<longleftrightarrow>
     map_of (two_mb_map rt') = (map_of (two_mb_map rt))(va_region a \<mapsto> r') \<and>
     region_bits r' = insert (va_offset a) (region_bits r) \<and> region_begin r' = region_begin r \<and>
     region_promoted r' = pr \<and>
     (map_of (two_mb_map rt) (va_region a) = Some r \<or>
      map_of (two_mb_map rt) (va_region a) = None \<and> region_bits r = {}) \<and>
     page = (if pr then region_begin r else region_begin r + va_offset a)"

lemma checkFor2MB_ok:
  assumes inv: "thp_inv rt" and c: "checkFor2MBAllocation rt a = Inr ((page, pr), rt')"
  shows "thp_inv rt' \<and> thp_pages rt' = thp_pages rt \<and> two_mb_demoted rt' = two_mb_demoted rt \<and>
    (if page = minus1_64 then rt' = rt \<and> map_of (two_mb_map rt) (va_region a) = None
     else \<exists>r r'. region_grant rt rt' a page pr r r')"
proof -
  have b: "thp_base rt" and promo: "\<And>e. e \<in> set (two_mb_map rt) \<Longrightarrow> promo_ok (threshold_for_promotion rt) (snd e)"
    using inv by (simp_all add: thp_inv_def)
  show ?thesis
  proof (cases "map_of (two_mb_map rt) (va_region a)")
    case (Some r)
    with c have "use_region rt (va_region a) r (va_offset a) = Inr ((page, pr), rt')"
      by (simp add: checkFor2MBAllocation_def Let_def va_region_def va_offset_def)
    then have u: "thp_inv rt'" "thp_pages rt' = thp_pages rt" "page \<noteq> minus1_64" "two_mb_demoted rt' = two_mb_demoted rt"
      "two_mb_map rt' = map_put (va_region a)
         (r\<lparr>region_bits := insert (va_offset a) (region_bits r), region_promoted := pr\<rparr>) (two_mb_map rt)"
      "page = (if pr then region_begin r else region_begin r + va_offset a)"
      using use_region_ok [OF b Some va_offset_less, where page = page and pr = pr and rt' = rt'] promo by auto
    let ?r' = "r\<lparr>region_bits := insert (va_offset a) (region_bits r), region_promoted := pr\<rparr>"
    have "region_grant rt rt' a page pr r ?r'"
      unfolding region_grant_def using u(5,6) Some by auto
    with u(1-4) show ?thesis by auto
  next
    case None
    obtain ok rt1 where r1: "reserve_region rt (va_region a) = Inr (ok, rt1)"
      using c None by (auto simp: checkFor2MBAllocation_def Let_def va_region_def split: sum.splits)
    note R = reserve_region_ok [OF b None r1] and N = reserve_region_new [OF b None r1]
    show ?thesis
    proof (cases ok)
      case False
      with c None r1 R inv show ?thesis
        by (auto simp: checkFor2MBAllocation_def Let_def va_region_def)
    next
      case True
      with R obtain p where m1: "two_mb_map rt1 = map_put (va_region a)
          \<lparr>region_begin = p, region_bits = {}, region_promoted = False\<rparr> (two_mb_map rt)" by auto
      let ?r = "\<lparr>region_begin = p, region_bits = {}, region_promoted = False\<rparr>"
      have s1: "map_of (two_mb_map rt1) (va_region a) = Some ?r" by (simp add: m1)
      have "use_region rt1 (va_region a) ?r (va_offset a) = Inr ((page, pr), rt')"
        using c None r1 True s1 by (simp add: checkFor2MBAllocation_def Let_def va_region_def va_offset_def)
      moreover have "promo_ok (threshold_for_promotion rt1) (snd e)"
        if "e \<in> set (two_mb_map rt1)" "fst e \<noteq> va_region a" for e
        using N(2) [OF that] promo R by simp
      ultimately have u: "thp_inv rt'" "thp_pages rt' = thp_pages rt1" "page \<noteq> minus1_64"
        "two_mb_map rt' = map_put (va_region a) (?r\<lparr>region_bits := insert (va_offset a) {}, region_promoted := pr\<rparr>) (two_mb_map rt1)"
        "page = (if pr then p else p + va_offset a)" "two_mb_demoted rt' = two_mb_demoted rt1"
        using use_region_ok [OF _ s1 va_offset_less, where page = page and pr = pr and rt' = rt'] R by auto
      let ?r' = "?r\<lparr>region_bits := {va_offset a}, region_promoted := pr\<rparr>"
      have "thp_pages rt' = thp_pages rt" "two_mb_demoted rt' = two_mb_demoted rt"
        using u(2,6) R N(1) by simp_all
      moreover have "region_grant rt rt' a page pr ?r ?r'"
        unfolding region_grant_def using u(4,5) m1 None by auto
      ultimately show ?thesis using u(1,3) by auto
    qed
  qed
qed

section \<open>The allocator's entry point\<close>

lemma thp_inv_buddy:
  assumes inv: "thp_inv rt" and bd: "buddy_inv bd"
    and p: "free_pages (free_list bd) + G = free_pages (free_list (rt_buddy rt))"
  shows "thp_inv (rt\<lparr>rt_buddy := bd\<rparr>)" "thp_pages (rt\<lparr>rt_buddy := bd\<rparr>) + G = thp_pages rt"
proof -
  show q: "thp_pages (rt\<lparr>rt_buddy := bd\<rparr>) + G = thp_pages rt"
    unfolding thp_pages_def p [symmetric] by (simp add: ac_simps)
  have "count (thp_pages (rt\<lparr>rt_buddy := bd\<rparr>)) x \<le> 1" for x
    using inv unfolding thp_inv_def thp_base_def q [symmetric]
    by (metis add_leD1 count_union)
  then show "thp_inv (rt\<lparr>rt_buddy := bd\<rparr>)"
    using inv bd by (simp add: thp_inv_def thp_base_def)
qed

lemma thp_buddy_allocate_ok:
  assumes inv: "thp_inv rt" and a: "thp_buddy_allocate rt sz = Inr (p, rt')"
  shows "thp_inv rt' \<and> two_mb_map rt' = two_mb_map rt \<and> two_mb_demoted rt' = two_mb_demoted rt \<and>
    (if p = minus1_64 then rt' = rt
     else thp_pages rt' + mset [p..<p + 2 ^ ceil_log2 (sz div 4096)] = thp_pages rt)"
proof -
  have b: "buddy_inv (rt_buddy rt)" using inv by (simp add: thp_inv_def thp_base_def)
  from a obtain bd where bd: "allocate (rt_buddy rt) sz = Inr (p, bd)" "rt' = rt\<lparr>rt_buddy := bd\<rparr>"
    by (auto simp: thp_buddy_allocate_def split: sum.splits)
  show ?thesis
  proof (cases "p = minus1_64")
    case True
    with allocate_fail_same [OF b] bd have "rt' = rt" by auto
    with True inv show ?thesis by simp
  next
    case False
    note A = allocate_outcomes [OF b bd(1) False]
    then have pg: "free_pages (free_list bd) + mset [p..<p + 2 ^ ceil_log2 (sz div 4096)] =
        free_pages (free_list (rt_buddy rt))" by blast
    from A thp_inv_buddy [OF inv _ pg] bd(2) False show ?thesis by simp
  qed
qed

lemma add64_1_neq: "add64 n 1 \<noteq> n"
proof (cases "n + 1 < 2 ^ 64")
  case True
  then show ?thesis by (simp add: add64_exact)
next
  case False
  show ?thesis
  proof (cases "n = 2 ^ 64 - 1")
    case False': False
    with False have "2 ^ 64 \<le> n" by linarith
    then show ?thesis using add64_bound [of n 1] by linarith
  qed (simp add: add64_def)
qed

text \<open>Regions in use keep their frames when one region changes.\<close>

lemma region_grant_frames:
  assumes "region_grant rt rt' a page pr r r'"
  shows "thp_frame rt' a = Some (region_begin r + va_offset a)"
    "\<And>b f. thp_frame rt b = Some f \<Longrightarrow> thp_frame rt' b = Some f"
proof -
  from assms have m: "map_of (two_mb_map rt') = (map_of (two_mb_map rt))(va_region a \<mapsto> r')"
    and r': "region_bits r' = insert (va_offset a) (region_bits r)" "region_begin r' = region_begin r"
    and old: "map_of (two_mb_map rt) (va_region a) = Some r \<or> map_of (two_mb_map rt) (va_region a) = None"
    by (auto simp: region_grant_def)
  show "thp_frame rt' a = Some (region_begin r + va_offset a)"
    by (simp add: thp_frame_def m r')
  show "thp_frame rt' b = Some f" if f: "thp_frame rt b = Some f" for b f
  proof (cases "va_region b = va_region a")
    case True
    with f old have "map_of (two_mb_map rt) (va_region b) = Some r"
      by (auto simp: thp_frame_def)
    with f True show ?thesis by (simp add: thp_frame_def m r' split: if_splits)
  next
    case False
    with f show ?thesis by (simp add: thp_frame_def m)
  qed
qed

definition thp_result_ok :: "reserve_thp \<Rightarrow> reserve_thp \<Rightarrow> u64 \<Rightarrow> u64 \<Rightarrow> u64 \<Rightarrow> u64 \<Rightarrow> bool" where
  "thp_result_ok rt rt' sz a page bits \<longleftrightarrow>
     (thp_frame rt' a = Some (if bits = 21 then page + va_offset a else page) \<and> thp_pages rt' = thp_pages rt) \<or>
     (bits = 12 \<and> page \<noteq> minus1_64 \<and> two_mb_map rt' = two_mb_map rt \<and>
      thp_pages rt' + mset [page..<page + 2 ^ ceil_log2 (sz div 4096)] = thp_pages rt)"

lemma thp_frame_cong: "two_mb_map rt = two_mb_map rt' \<Longrightarrow> thp_frame rt = thp_frame rt'"
  by (rule ext) (simp add: thp_frame_def)

lemma demote_page_counts:
  "demote_page pick rt = Inr (True, rt') \<Longrightarrow> two_mb_demoted rt' = add64 (two_mb_demoted rt) 1"
  by (auto simp: demote_page_def Let_def split: if_splits option.splits sum.splits)

lemma thp_allocate_data_ok:
  assumes inv: "thp_inv rt" and a: "thp_allocate pick rt sz a False = Inr ((page, bits), rt')"
    and nd: "two_mb_demoted rt' = two_mb_demoted rt"
  shows "thp_inv rt' \<and> thp_result_ok rt rt' sz a page bits \<and>
    (\<forall>b f. thp_frame rt b = Some f \<longrightarrow> thp_frame rt' b = Some f)"
proof -
  let ?rt = "rt\<lparr>total_allocations := add64 (total_allocations rt) 1\<rparr>"
  have same: "thp_frame ?rt = thp_frame rt" by (rule thp_frame_cong) simp
  from a obtain p pr rt1 where c: "checkFor2MBAllocation ?rt a = Inr ((p, pr), rt1)"
    by (auto simp: thp_allocate_def Let_def split: sum.splits)
  have inv0: "thp_inv ?rt" using inv by simp
  note C = checkFor2MB_ok [OF inv0 c]
  show ?thesis
  proof (cases "p = minus1_64")
    case False
    then have r: "page = p" "bits = (if pr then 21 else 12)" "rt' = rt1"
      using a c by (auto simp: thp_allocate_def Let_def)
    from C False obtain r r' where g: "region_grant ?rt rt1 a p pr r r'" by auto
    then have "p = (if pr then region_begin r else region_begin r + va_offset a)"
      by (simp add: region_grant_def)
    with region_grant_frames [OF g, unfolded same] C r False show ?thesis
      by (simp add: thp_result_ok_def)
  next
    case True
    then have rt1: "rt1 = ?rt" using C by simp
    from a c True obtain q rt2 where f: "thp_buddy_allocate ?rt sz = Inr (q, rt2)"
      by (auto simp: thp_allocate_def Let_def rt1 split: sum.splits)
    note F = thp_buddy_allocate_ok [OF inv0 f]
    have q: "q \<noteq> minus1_64"
    proof
      assume q: "q = minus1_64"
      then have "rt2 = ?rt" using F by simp
      with a c True f q obtain rt3 where d: "demote_page pick ?rt = Inr (True, rt3)"
        and "two_mb_demoted rt' = two_mb_demoted rt3"
        by (auto simp: thp_allocate_def Let_def rt1 thp_buddy_allocate_def split: sum.splits bool.splits)
      with nd demote_page_counts [OF d] add64_1_neq [of "two_mb_demoted rt"] show False by simp
    qed
    then have r: "page = q" "bits = 12" "rt' = rt2\<lparr>four_kb_allocated := add64 (four_kb_allocated rt2) 1\<rparr>"
      using a c True f by (auto simp: thp_allocate_def Let_def rt1)
    have "thp_frame rt' = thp_frame rt"
      using F r by (intro thp_frame_cong) simp
    with F q r show ?thesis by (simp add: thp_result_ok_def)
  qed
qed


section \<open>Reachable states\<close>

text \<open>
  The states reached from a fresh allocator by data, page-table and direct
  requests and by count-based fragmentation, as long as no region was demoted.
\<close>

inductive thp_reach :: "((u64 \<times> nat) list \<Rightarrow> u64 \<times> nat) \<Rightarrow> nat \<Rightarrow> nat \<Rightarrow> nat \<Rightarrow> rat \<Rightarrow> reserve_thp \<Rightarrow> bool"
  for pick memory_size max_order kernel_size threshold where
  init: "thp_reach pick memory_size max_order kernel_size threshold
           (reserve_thp_new memory_size max_order kernel_size threshold)"
| data: "thp_reach pick memory_size max_order kernel_size threshold rt \<Longrightarrow>
     thp_allocate pick rt sz a False = Inr (res, rt') \<Longrightarrow> two_mb_demoted rt' = two_mb_demoted rt \<Longrightarrow>
     thp_reach pick memory_size max_order kernel_size threshold rt'"
| pagetable: "thp_reach pick memory_size max_order kernel_size threshold rt \<Longrightarrow>
     thp_allocate pick rt sz a True = Inr (res, rt') \<Longrightarrow>
     thp_reach pick memory_size max_order kernel_size threshold rt'"
| fast: "thp_reach pick memory_size max_order kernel_size threshold rt \<Longrightarrow>
     thp_givePageFast rt sz = Inr (p, rt') \<Longrightarrow>
     thp_reach pick memory_size max_order kernel_size threshold rt'"
| fragment: "thp_reach pick memory_size max_order kernel_size threshold rt \<Longrightarrow>
     thp_fragment_memory_to_count rt n = Inr rt' \<Longrightarrow>
     thp_reach pick memory_size max_order kernel_size threshold rt'"

lemma reserve_thp_new_inv:
  assumes "kernel_size \<le> memory_size" "memory_size < 2 ^ 31"
  shows "thp_inv (reserve_thp_new memory_size max_order kernel_size threshold)"
  using buddy_new_ok(1) [OF assms, of max_order] buddy_invD(4)
  by (auto simp: thp_inv_def thp_base_def reserve_thp_new_def thp_pages_def buddy_inv_def)

lemma thp_fragment_inv:
  assumes "thp_inv rt" "thp_fragment_memory_to_count rt n = Inr rt'"
  shows "thp_inv rt'" "two_mb_map rt' = two_mb_map rt"
proof -
  have b: "buddy_inv (rt_buddy rt)" using assms(1) by (simp add: thp_inv_def thp_base_def)
  from fragmentMemoryToTargetCount_ok [OF b, of n] assms(2) obtain bd where
    bd: "buddy_inv bd" "free_pages (free_list bd) + {#} = free_pages (free_list (rt_buddy rt))"
    "rt' = rt\<lparr>rt_buddy := bd\<rparr>"
    by (auto simp: thp_fragment_memory_to_count_def)
  from thp_inv_buddy(1) [OF assms(1) bd(1,2)] bd(3) show "thp_inv rt'" "two_mb_map rt' = two_mb_map rt"
    by simp_all
qed

lemma thp_reach_inv:
  assumes "thp_reach pick memory_size max_order kernel_size threshold rt"
    and "kernel_size \<le> memory_size" "memory_size < 2 ^ 31"
  shows "thp_inv rt"
  using assms(1)
proof induction
  case (data rt sz a res rt')
  then show ?case by (cases res) (auto dest: thp_allocate_data_ok)
next
  case (pagetable rt sz a res rt')
  let ?rt = "rt\<lparr>total_allocations := add64 (total_allocations rt) 1\<rparr>"
  from pagetable obtain p rt1 where "thp_buddy_allocate ?rt sz = Inr (p, rt1)"
    "rt' = rt1\<lparr>four_kb_allocated := add64 (four_kb_allocated rt1) 1\<rparr>"
    by (auto simp: thp_allocate_def Let_def map_sum_def split: sum.splits)
  with pagetable thp_buddy_allocate_ok [of ?rt] show ?case by auto
next
  case (fast rt sz p rt')
  then show ?case by (auto simp: thp_givePageFast_def dest: thp_buddy_allocate_ok)
qed (use reserve_thp_new_inv [OF assms(2,3)] thp_fragment_inv in auto)

section \<open>Demotion\<close>

lemma free_pair_pages:
  assumes "free bd s (s + 1) = Inr bd'" "s + 1 < 2 ^ 64"
  shows "free_pages (free_list bd') = free_pages (free_list bd) + {#s, s + 1#}"
proof -
  have n: "add64 (sub64 (s + 1) s) 1 = 2"
    using assms(2) by (simp add: sub64_exact add64_def)
  have o: "ceil_log2 2 = 1" using ceil_log2_power [of 1] by simp
  have "block_pages (mk_block s (s + 1)) = [s, s + 1]"
    by (simp add: block_pages_def upt_rec)
  with assms(1) show ?thesis unfolding free_def n o Let_def
    by (auto simp: free_pages_push split: if_splits)
qed

lemma free_unused_pages:
  assumes "free_unused p bits js bd = Inr bd'" "\<And>j. j \<in> set js \<Longrightarrow> p + j + 1 < 2 ^ 64"
  shows "free_pages (free_list bd') =
    free_pages (free_list bd) + (\<Sum>j \<in># mset (filter (\<lambda>j. j \<notin> bits) js). {#p + j, p + j + 1#})"
  using assms
proof (induction js arbitrary: bd)
  case (Cons j js)
  show ?case
  proof (cases "j \<in> bits")
    case True
    with Cons show ?thesis by simp
  next
    case False
    have lt: "p + j + 1 < 2 ^ 64" using Cons.prems(2) [of j] by simp
    then have e: "add64 p j = p + j" "add64 p (j + 1) = p + j + 1" by (simp_all add: add64_exact)
    from False Cons.prems(1) e obtain bd1 where f: "free bd (p + j) (p + j + 1) = Inr bd1"
      and r: "free_unused p bits js bd1 = Inr bd'"
      by (auto split: sum.splits)
    from Cons.IH [OF r] Cons.prems(2) free_pair_pages [OF f] lt False show ?thesis by simp
  qed
qed simp

lemma demote_page_pages:
  assumes b: "thp_base rt" and d: "demote_page pick rt = Inr (True, rt')"
    and r: "map_of (two_mb_map rt) (fst (pick (demotable rt))) = Some r"
  shows "free_pages (free_list (rt_buddy rt')) = free_pages (free_list (rt_buddy rt)) +
    (\<Sum>j \<in># mset (filter (\<lambda>j. j \<notin> region_bits r) [0..<512]). {#region_begin r + j, region_begin r + j + 1#})"
proof -
  have "region_begin r + 512 < 2 ^ 64" using thp_baseD(4) [OF b r] by (simp add: region_ok_def)
  then have "region_begin r + j + 1 < 2 ^ 64" if "j \<in> set [0..<512]" for j
    using that by (simp only: atLeast_upt lessThan_iff set_upt atLeastLessThan_iff) linarith
  moreover obtain bd where "free_unused (region_begin r) (region_bits r) [0..<512] (rt_buddy rt) = Inr bd"
    "rt_buddy rt' = bd"
    using d r by (auto simp: demote_page_def Let_def split: if_splits sum.splits)
  ultimately show ?thesis using free_unused_pages [of "region_begin r" "region_bits r" "[0..<512]"] by blast
qed

lemma free_unused_total:
  assumes "1 < length (free_list bd)" "\<And>j. j \<in> set js \<Longrightarrow> p + j + 1 < 2 ^ 64"
  shows "\<exists>bd'. free_unused p bits js bd = Inr bd'"
  using assms
proof (induction js arbitrary: bd)
  case (Cons j js)
  have lt: "p + j + 1 < 2 ^ 64" using Cons.prems(2) [of j] by simp
  then have e: "add64 p j = p + j" "add64 p (j + 1) = p + j + 1" "sub64 (p + j + 1) (p + j) = 1"
    by (simp_all add: add64_exact sub64_exact)
  have o: "ceil_log2 2 = 1" "add64 1 1 = 2" using ceil_log2_power [of 1] by (simp_all add: add64_def)
  obtain bd1 where "free bd (p + j) (p + j + 1) = Inr bd1" "length (free_list bd1) = length (free_list bd)"
    using Cons.prems(1) by (simp only: free_def e o Let_def) (simp add: push_back_def)
  with Cons e show ?case by (cases "j \<in> bits") simp_all
qed simp

section \<open>A small instance\<close>

text \<open>
  Four megabytes with a two-megabyte kernel: one free block of order 9. The first
  access to the second page of the address space reserves it.
\<close>

definition thp_fresh :: reserve_thp where
  "thp_fresh = reserve_thp_new 4 9 2 (1 / 2)"

definition thp_one_page :: reserve_thp where
  "thp_one_page = thp_fresh\<lparr>rt_buddy := (rt_buddy thp_fresh)\<lparr>free_list := replicate 20 []\<rparr>,
     two_mb_map := [(0, \<lparr>region_begin = 512, region_bits = {1}, region_promoted = False\<rparr>)],
     two_mb_reserved := 1, total_allocations := 1\<rparr>"

lemma thp_fresh_free_list:
  "free_list (rt_buddy thp_fresh) = (replicate 20 [])[9 := [mk_block 512 1023]]"
  "m_max_order (rt_buddy thp_fresh) = 9"
proof -
  have "fill_order 9 512 512 (replicate 20 []) = (1024, 0, (replicate 20 [])[9 := [mk_block 512 1023]])"
    by (simp add: fill_order.simps push_back_def add64_def sub64_def)
  then have "fill_orders 9 1024 512 512 (replicate 20 []) = (replicate 20 [])[9 := [mk_block 512 1023]]"
    by (simp add: fill_orders.simps)
  then show "free_list (rt_buddy thp_fresh) = (replicate 20 [])[9 := [mk_block 512 1023]]"
    "m_max_order (rt_buddy thp_fresh) = 9"
    by (simp_all add: thp_fresh_def reserve_thp_new_def buddy_new_def Let_def mul64_def sub64_def
        replicate_add [symmetric])
qed

lemma thp_fresh_reserve:
  "reserve_2mb_page (rt_buddy thp_fresh) =
     Inr (mk_block 512 1023, (rt_buddy thp_fresh)\<lparr>free_list := replicate 20 []\<rparr>)"
proof -
  have "replicate 20 [] = (replicate 20 [] :: block list list)[9 := []]"
    using list_update_id [of "replicate 20 [] :: block list list" 9] nth_replicate [of 9 20 "[]"] by simp
  then show ?thesis
    unfolding reserve_2mb_page_def thp_fresh_free_list by (simp add: Let_def pop_back_def)
qed

lemma thp_fresh_step: "thp_allocate pick thp_fresh 4096 4096 False = Inr ((513, 12), thp_one_page)"
proof -
  have s: "512 \<noteq> minus1_64" "513 \<noteq> minus1_64" "add64 512 1 = 513"
    by (simp_all add: minus1_64_def add64_def)
  have f: "two_mb_map thp_fresh = []" "threshold_for_promotion thp_fresh = 1 / 2"
    "two_mb_reserved thp_fresh = 0" "total_allocations thp_fresh = 0"
    by (simp_all add: thp_fresh_def reserve_thp_new_def)
  let ?rt = "thp_fresh\<lparr>total_allocations := 1\<rparr>"
  have "reserve_region ?rt 0 = Inr (True, ?rt\<lparr>rt_buddy := (rt_buddy thp_fresh)\<lparr>free_list := replicate 20 []\<rparr>,
      two_mb_map := [(0, \<lparr>region_begin = 512, region_bits = {}, region_promoted = False\<rparr>)], two_mb_reserved := 1\<rparr>)"
    using s f by (simp add: reserve_region_def thp_fresh_reserve add64_def)
  then have "checkFor2MBAllocation ?rt 4096 = Inr ((513, False), thp_one_page)"
    using s f
    by (simp add: checkFor2MBAllocation_def Let_def use_region_def utilization_def thp_one_page_def)
  then show ?thesis using s f by (simp add: thp_allocate_def Let_def add64_def)
qed

lemma thp_one_page_inv: "thp_inv thp_one_page"
proof -
  have "thp_inv thp_fresh" unfolding thp_fresh_def by (rule reserve_thp_new_inv) simp_all
  from thp_allocate_data_ok [OF this thp_fresh_step [of hd]] show ?thesis
    by (simp add: thp_one_page_def)
qed

lemma thp_one_page_demote: "\<exists>rt'. demote_page hd thp_one_page = Inr (True, rt')"
proof -
  have d: "demotable thp_one_page = [(0, 1)]" by (simp add: demotable_def thp_one_page_def)
  have "\<exists>bd'. free_unused 512 {1} [0..<512] (rt_buddy thp_one_page) = Inr bd'"
    by (rule free_unused_total) (simp_all add: thp_one_page_def del: upt_rec_numeral)
  moreover have "map_of (two_mb_map thp_one_page) 0 =
      Some \<lparr>region_begin = 512, region_bits = {1}, region_promoted = False\<rparr>"
    by (simp add: thp_one_page_def)
  ultimately show ?thesis
    by (auto simp: demote_page_def d Let_def simp del: upt_rec_numeral)
qed

section \<open>Properties\<close>



text \<open>
  C26: a data allocation that returns without demoting keeps the invariant; its
  result describes the frame now assigned to the address (the base of the region
  when it was promoted to 2MB, the frame itself otherwise) or a run of pages taken
  from the buddy allocator; and no page that had a frame loses or changes it, even
  when its region is promoted.
\<close>

theorem thp_allocate_stable:
  assumes "thp_inv rt" "thp_allocate pick rt sz a False = Inr ((page, bits), rt')"
    and "two_mb_demoted rt' = two_mb_demoted rt"
  shows "thp_inv rt' \<and> thp_result_ok rt rt' sz a page bits \<and>
    (\<forall>b f. thp_frame rt b = Some f \<longrightarrow> thp_frame rt' b = Some f)"
  by (rule thp_allocate_data_ok [OF assms])

theorem thp_allocate_stable_witness:
  "thp_inv thp_one_page \<and> thp_result_ok thp_fresh thp_one_page 4096 4096 513 12"
proof -
  have "thp_inv thp_fresh" unfolding thp_fresh_def by (rule reserve_thp_new_inv) simp_all
  moreover have "two_mb_demoted thp_one_page = two_mb_demoted thp_fresh" by (simp add: thp_one_page_def)
  ultimately show ?thesis using thp_allocate_stable [OF _ thp_fresh_step] by blast
qed

text \<open>
  a request for an address whose region is already promoted runs into the
  assertion of \<open>checkFor2MBAllocation\<close>, whatever the page.
\<close>

lemma thp_promoted_region_asserts:
  assumes "map_of (two_mb_map rt) (a div 2 ^ 21) = Some r" "region_promoted r"
  shows "thp_allocate pick rt sz a False = Inl Assertion_Failed"
  using assms by (simp add: thp_allocate_def Let_def checkFor2MBAllocation_def use_region_def)

text \<open>
  \<open>demote_page\<close> passes the exclusive end of each unused page where \<open>free\<close>
  expects an inclusive one, so every unused page is returned together with its
  successor. A page in use that follows an unused one is therefore on the free
  lists after the demotion, although it is still mapped.
\<close>

lemma demote_page_frees_page_in_use:
  assumes "thp_base rt" "demote_page pick rt = Inr (True, rt')"
    and "map_of (two_mb_map rt) (fst (pick (demotable rt))) = Some r"
    and "j + 1 < 512" "j \<notin> region_bits r" "j + 1 \<in> region_bits r"
  shows "region_begin r + (j + 1) \<in># free_pages (free_list (rt_buddy rt'))"
proof -
  have "j \<in># mset (filter (\<lambda>j. j \<notin> region_bits r) [0..<512])"
    using assms(4,5) by (simp add: set_mset_mset [symmetric] del: set_mset_mset upt_rec_numeral)
  then show ?thesis
    unfolding demote_page_pages [OF assms(1-3)]
    by (auto simp del: upt_rec_numeral mset_filter simp: in_Union_mset_iff intro!: bexI [of _ j])
qed

end
