(* ===== verification/Translation.thy ===== *)
theory Translation
  imports Prelude
begin

text \<open>
  The contract between a page table and those who fill and read it. A page table
  maps virtual addresses below \<open>2 ^ 48\<close> to a page size in bits and a page number;
  installing a page of \<open>2 ^ bits\<close> bytes changes the translation of exactly its
  addresses, removing a page unmaps exactly its addresses. From the contract
  follows what installing a list of pages, as the fault handlers do, achieves.
\<close>

section \<open>Installing pages\<close>

text \<open>An entry to install: address, page number, size in bits and the frames for new page-table nodes.\<close>

type_synonym mapping = "u64 \<times> u64 \<times> nat \<times> u64 list"

fun install_all :: "('s \<Rightarrow> mapping \<Rightarrow> 's option) \<Rightarrow> 's \<Rightarrow> mapping list \<Rightarrow> 's option" where
  "install_all install s [] = Some s"
| "install_all install s (m # ms) =
     (case install s m of None \<Rightarrow> None | Some s' \<Rightarrow> install_all install s' ms)"

text \<open>An address lies in the page a mapping describes.\<close>

definition covers :: "mapping \<Rightarrow> u64 \<Rightarrow> bool" where
  "covers m b \<longleftrightarrow> (case m of (a, ppn, bits, frames) \<Rightarrow> b div 2 ^ bits = a div 2 ^ bits)"

definition mapping_target :: "mapping \<Rightarrow> nat \<times> u64" where
  "mapping_target m = (case m of (a, ppn, bits, frames) \<Rightarrow> (bits, ppn))"

locale page_table =
  fixes inv :: "'s \<Rightarrow> bool" and translate :: "'s \<Rightarrow> u64 \<Rightarrow> (nat \<times> u64) option"
    and install :: "'s \<Rightarrow> mapping \<Rightarrow> 's option" and remove :: "'s \<Rightarrow> u64 \<Rightarrow> 's option"
  assumes install_inv: "inv s \<Longrightarrow> install s m = Some s' \<Longrightarrow> inv s'"
    and install_translate: "inv s \<Longrightarrow> install s m = Some s' \<Longrightarrow> b < 2 ^ 48 \<Longrightarrow>
      translate s' b = (if covers m b then Some (mapping_target m) else translate s b)"
    and remove_inv: "inv s \<Longrightarrow> remove s a = Some s' \<Longrightarrow> inv s'"
    and remove_translate: "inv s \<Longrightarrow> a < 2 ^ 48 \<Longrightarrow> translate s a = Some (bits, p) \<Longrightarrow>
      remove s a = Some s' \<Longrightarrow> b < 2 ^ 48 \<Longrightarrow>
      translate s' b = (if b div 2 ^ bits = a div 2 ^ bits then None else translate s b)"
begin

lemma install_all_inv: "inv s \<Longrightarrow> install_all install s ms = Some s' \<Longrightarrow> inv s'"
  by (induction ms arbitrary: s) (auto split: option.splits dest: install_inv)

text \<open>After a list of installations an address is translated by the last mapping that covers it.\<close>

lemma install_all_translate:
  "inv s \<Longrightarrow> install_all install s ms = Some s' \<Longrightarrow> b < 2 ^ 48 \<Longrightarrow>
   translate s' b = (case find (\<lambda>m. covers m b) (rev ms) of
     Some m \<Rightarrow> Some (mapping_target m) | None \<Rightarrow> translate s b)"
proof (induction ms arbitrary: s)
  case (Cons m ms)
  obtain t where t: "install s m = Some t" "install_all install t ms = Some s'"
    using Cons.prems(2) by (auto split: option.splits)
  have f: "find P (xs @ [x]) = (case find P xs of Some y \<Rightarrow> Some y | None \<Rightarrow> if P x then Some x else None)"
    for P :: "mapping \<Rightarrow> bool" and xs x
    by (induction xs) auto
  show ?case
    using Cons.IH [OF install_inv [OF Cons.prems(1) t(1)] t(2) Cons.prems(3)]
      install_translate [OF Cons.prems(1) t(1) Cons.prems(3)]
    by (auto simp: f split: option.splits)
qed simp

text \<open>A page installed and not covered by a later mapping is translated as installed.\<close>

lemma install_all_last:
  assumes "inv s" "install_all install s (ms @ m # ms') = Some s'" "b < 2 ^ 48" "covers m b"
    and "\<forall>m' \<in> set ms'. \<not> covers m' b"
  shows "translate s' b = Some (mapping_target m)"
proof -
  have none: "find (\<lambda>m. covers m b) (rev ms') = None" using assms(5) by (simp add: find_None_iff)
  have "find P (xs @ ys) = (case find P xs of Some y \<Rightarrow> Some y | None \<Rightarrow> find P ys)"
    for P :: "mapping \<Rightarrow> bool" and xs ys
    by (induction xs) auto
  with none assms(4) have "find (\<lambda>m. covers m b) (rev (ms @ m # ms')) = Some m" by simp
  with install_all_translate [OF assms(1-3)] show ?thesis by simp
qed

end

end
