(* ===== verification/Radix.thy ===== *)
theory Radix
  imports Translation
begin

text \<open>
  The radix page table (\<open>pagetable_radix.cc\<close>): a tree of 512-entry frames, walked
  from the root by nine bits of the address per level. The union of an entry is a
  datatype; reading the member that was not written last is undefined behaviour,
  except that a null pointer reads as an invalid translation (fresh leaf frames).
  Each frame has one parent, so the tree is a value and updates rebuild the path.
  The theory shows that updates and deletions refine a map from pages to frames,
  and that the number of frames a faulting walk requests is what the update needs.
\<close>

section \<open>Data\<close>

datatype pt_frame = PTFrame (emulated_ppn: u64) (pt_entries: "pt_entry list")
  and pt_entry = Pointer "pt_frame option" | Translation bool u64

record PTWAccess =
  table_level :: nat
  depth :: nat
  physical_addr :: u64
  acc_is_pte :: bool

text \<open>
  A walk that finds a translation returns the page size, the page number and the
  accesses; one that faults returns the accesses and the number of page-table
  frames it asks for (its page size and page number are uninitialised).
\<close>

datatype PTWResult =
  Walk_Hit nat u64 "PTWAccess list"
| Walk_Fault nat "PTWAccess list"

record radix =
  rx_root :: pt_frame
  rx_frame_size :: nat
  rx_levels :: nat
  rx_page_size_list :: "nat list"
  accesses_per_vpn :: "u64 \<rightharpoonup> u64"
  page_table_walks :: u64
  page_faults :: u64
  page_size_discovery :: "u64 list"
  allocated_frames :: u64

definition radix_new :: "nat list \<Rightarrow> nat \<Rightarrow> nat \<Rightarrow> radix" where
  "radix_new page_size_list levels frame_size =
     \<lparr> rx_root = PTFrame 0 (replicate frame_size (Pointer None)),
       rx_frame_size = frame_size, rx_levels = levels, rx_page_size_list = page_size_list,
       accesses_per_vpn = Map.empty, page_table_walks = 0, page_faults = 0,
       page_size_discovery = replicate (length page_size_list) 0, allocated_frames = 0 \<rparr>"

section \<open>Operations\<close>

text \<open>The index into a frame of the given level, and whether the access is defined.\<close>

definition pt_shift :: "nat \<Rightarrow> nat \<Rightarrow> nat" where
  "pt_shift levels level = 48 - 9 * (levels - level + 1)"

definition pt_index :: "nat \<Rightarrow> nat \<Rightarrow> u64 \<Rightarrow> nat" where
  "pt_index levels level address = (address div 2 ^ pt_shift levels level) mod 512"

definition access_ok :: "nat \<Rightarrow> nat \<Rightarrow> u64 \<Rightarrow> pt_frame \<Rightarrow> bool" where
  "access_ok levels level address f \<longleftrightarrow>
     9 * (levels - level + 1) \<le> 48 \<and> pt_index levels level address < length (pt_entries f)"

definition set_entry :: "nat \<Rightarrow> pt_entry \<Rightarrow> pt_frame \<Rightarrow> pt_frame" where
  "set_entry i e f = PTFrame (emulated_ppn f) ((pt_entries f)[i := e])"

definition pt_access :: "nat \<Rightarrow> nat \<Rightarrow> u64 \<Rightarrow> pt_frame \<Rightarrow> PTWAccess" where
  "pt_access levels level address f =
     \<lparr> table_level = 0, depth = levels - level,
       physical_addr = add64 (mul64 (emulated_ppn f) 4096) (pt_index levels level address * 8),
       acc_is_pte = (case pt_entries f ! pt_index levels level address of
                       Translation valid ppn \<Rightarrow> valid | Pointer p \<Rightarrow> False) \<rparr>"

text \<open>The loop of \<open>initializeWalk\<close> from a frame of the given level on.\<close>

fun walk_from :: "nat \<Rightarrow> nat list \<Rightarrow> u64 \<Rightarrow> nat \<Rightarrow> pt_frame \<Rightarrow> PTWAccess list \<Rightarrow> PTWResult outcome" where
  "walk_from levels sizes address 0 f visited = Inl Undefined_Behaviour"
| "walk_from levels sizes address (Suc l) f visited =
     (if \<not> access_ok levels (Suc l) address f then Inl Undefined_Behaviour
      else let visited' = visited @ [pt_access levels (Suc l) address f] in
        (case pt_entries f ! pt_index levels (Suc l) address of
           Translation valid ppn \<Rightarrow>
             if \<not> valid then Inr (Walk_Fault l visited')
             else if length sizes \<le> l then Inl Undefined_Behaviour
             else if ppn = minus1_64 then Inl Assertion_Failed
             else Inr (Walk_Hit (sizes ! l) ppn visited')
         | Pointer None \<Rightarrow> Inr (Walk_Fault l visited')
         | Pointer (Some f') \<Rightarrow> walk_from levels sizes address l f' visited'))"

text \<open>
  \<open>initializeWalk\<close> without a restart after a fault. The statistic of the level
  found is indexed by its depth.
\<close>

definition initializeWalk :: "radix \<Rightarrow> u64 \<Rightarrow> bool \<Rightarrow> (PTWResult \<times> radix) outcome" where
  "initializeWalk rx address count_walk =
     (let rx1 = (if count_walk then rx\<lparr>page_table_walks := add64 (page_table_walks rx) 1\<rparr> else rx) in
      case walk_from (rx_levels rx) (rx_page_size_list rx) address (rx_levels rx) (rx_root rx) [] of
        Inl e \<Rightarrow> Inl e
      | Inr (Walk_Fault n v) \<Rightarrow> Inr (Walk_Fault n v, rx1\<lparr>page_faults := add64 (page_faults rx) 1\<rparr>)
      | Inr (Walk_Hit s p v) \<Rightarrow>
          (let l = rx_levels rx - length v;
               rx2 = (if count_walk
                      then rx1\<lparr>page_size_discovery := (page_size_discovery rx)[l := add64 (page_size_discovery rx ! l) 1]\<rparr>
                      else rx1);
               vpn = address div 2 ^ 12;
               n = (case accesses_per_vpn rx vpn of Some n \<Rightarrow> n | None \<Rightarrow> 0)
           in Inr (Walk_Hit s p v, rx2\<lparr>accesses_per_vpn := (accesses_per_vpn rx)(vpn \<mapsto> add64 n 1)\<rparr>)))"

definition new_pt_frame :: "nat \<Rightarrow> nat \<Rightarrow> u64 \<Rightarrow> pt_frame" where
  "new_pt_frame frame_size level ppn =
     PTFrame ppn (replicate frame_size (if level = 1 then Translation False 0 else Pointer None))"

text \<open>
  The loop of \<open>updatePageTableFrames\<close> from a frame (or null pointer) of the given
  level on: the frame afterwards and the number of frames taken from \<open>frames\<close>.
\<close>

definition current_or_new :: "nat \<Rightarrow> nat \<Rightarrow> pt_frame option \<Rightarrow> u64 list \<Rightarrow> (pt_frame \<times> u64 list \<times> nat) outcome" where
  "current_or_new frame_size level cur frames =
     (case cur of
        Some f \<Rightarrow> Inr (f, frames, 0)
      | None \<Rightarrow> (case frames of
                  [] \<Rightarrow> Inl Assertion_Failed
                | p # ps \<Rightarrow> Inr (new_pt_frame frame_size level p, ps, 1)))"

fun update_from ::
  "nat \<Rightarrow> nat \<Rightarrow> u64 \<Rightarrow> u64 \<Rightarrow> nat \<Rightarrow> nat \<Rightarrow> pt_frame option \<Rightarrow> u64 list \<Rightarrow> (pt_frame option \<times> nat) outcome" where
  "update_from levels fs address ppn page_size 0 cur frames = Inr (cur, 0)"
| "update_from levels fs address ppn page_size (Suc l) cur frames =
     (case current_or_new fs (Suc l) cur frames of
        Inl e \<Rightarrow> Inl e
      | Inr (f, frames', n) \<Rightarrow>
          if \<not> access_ok levels (Suc l) address f then Inl Undefined_Behaviour
          else let i = pt_index levels (Suc l) address in
            if (page_size = 21 \<and> l = 1) \<or> (page_size = 12 \<and> l = 0)
            then Inr (Some (set_entry i (Translation True ppn) f), n)
            else (case pt_entries f ! i of
                    Translation valid p \<Rightarrow> if l = 0 then Inr (Some f, n) else Inl Undefined_Behaviour
                  | Pointer next \<Rightarrow>
                      (case update_from levels fs address ppn page_size l next frames' of
                         Inl e \<Rightarrow> Inl e
                       | Inr (next', m) \<Rightarrow> Inr (Some (set_entry i (Pointer next') f), n + m))))"

definition updatePageTableFrames :: "radix \<Rightarrow> u64 \<Rightarrow> u64 \<Rightarrow> nat \<Rightarrow> u64 list \<Rightarrow> (nat \<times> radix) outcome" where
  "updatePageTableFrames rx address ppn page_size frames =
     (case update_from (rx_levels rx) (rx_frame_size rx) address ppn page_size (rx_levels rx)
             (Some (rx_root rx)) frames of
        Inr (Some root', n) \<Rightarrow>
          Inr (n, rx\<lparr>rx_root := root', allocated_frames := add64 (allocated_frames rx) n,
                     accesses_per_vpn :=
                       (if (page_size = 21 \<and> 2 \<le> rx_levels rx) \<or> (page_size = 12 \<and> 1 \<le> rx_levels rx)
                        then (accesses_per_vpn rx)(address div 2 ^ 12 \<mapsto> 1) else accesses_per_vpn rx)\<rparr>)
      | Inr (None, n) \<Rightarrow> Inl Undefined_Behaviour
      | Inl e \<Rightarrow> Inl e)"

fun delete_from :: "nat \<Rightarrow> u64 \<Rightarrow> nat \<Rightarrow> pt_frame \<Rightarrow> pt_frame outcome" where
  "delete_from levels address 0 f = Inr f"
| "delete_from levels address (Suc l) f =
     (if \<not> access_ok levels (Suc l) address f then Inl Undefined_Behaviour
      else let i = pt_index levels (Suc l) address in
        (case pt_entries f ! i of
           Translation valid ppn \<Rightarrow> Inr (set_entry i (Translation False minus1_64) f)
         | Pointer None \<Rightarrow> if l = 0 then Inr f else Inl Undefined_Behaviour
         | Pointer (Some f') \<Rightarrow>
             (case delete_from levels address l f' of
                Inl e \<Rightarrow> Inl e
              | Inr f'' \<Rightarrow> Inr (set_entry i (Pointer (Some f'')) f))))"

definition deletePage :: "radix \<Rightarrow> u64 \<Rightarrow> radix outcome" where
  "deletePage rx address =
     map_sum id (\<lambda>f. rx\<lparr>rx_root := f\<rparr>) (delete_from (rx_levels rx) address (rx_levels rx) (rx_root rx))"

section \<open>Well-formed tables and the map they represent\<close>

text \<open>Leaves (level 1) hold translations only, levels above 2 pointers only, level 2 may hold both.\<close>

fun frame_wf :: "nat \<Rightarrow> pt_frame \<Rightarrow> bool" where
  "frame_wf 0 f = False"
| "frame_wf (Suc l) f \<longleftrightarrow> length (pt_entries f) = 512 \<and>
     (\<forall>e \<in> set (pt_entries f). case e of
        Translation valid ppn \<Rightarrow> l \<le> 1 \<and> (valid \<longrightarrow> ppn \<noteq> minus1_64)
      | Pointer None \<Rightarrow> 1 \<le> l
      | Pointer (Some f') \<Rightarrow> 1 \<le> l \<and> frame_wf l f')"

definition cur_wf :: "nat \<Rightarrow> pt_frame option \<Rightarrow> bool" where
  "cur_wf l cur \<longleftrightarrow> (case cur of None \<Rightarrow> 1 \<le> l | Some f \<Rightarrow> frame_wf l f)"

text \<open>The translation of an address below a frame: the level (minus one) that holds it and the page number.\<close>

fun pt_lookup :: "nat \<Rightarrow> u64 \<Rightarrow> nat \<Rightarrow> pt_frame \<Rightarrow> (nat \<times> u64) option" where
  "pt_lookup levels address 0 f = None"
| "pt_lookup levels address (Suc l) f =
     (case pt_entries f ! pt_index levels (Suc l) address of
        Translation valid ppn \<Rightarrow> if valid then Some (l, ppn) else None
      | Pointer None \<Rightarrow> None
      | Pointer (Some f') \<Rightarrow> pt_lookup levels address l f')"

definition cur_lookup :: "nat \<Rightarrow> u64 \<Rightarrow> nat \<Rightarrow> pt_frame option \<Rightarrow> (nat \<times> u64) option" where
  "cur_lookup levels address l cur = (case cur of None \<Rightarrow> None | Some f \<Rightarrow> pt_lookup levels address l f)"

text \<open>No large translation above level \<open>t\<close> covers the address.\<close>

fun clear_path :: "nat \<Rightarrow> u64 \<Rightarrow> nat \<Rightarrow> nat \<Rightarrow> pt_frame \<Rightarrow> bool" where
  "clear_path levels address t 0 f = True"
| "clear_path levels address t (Suc l) f \<longleftrightarrow> Suc l = t \<or>
     (case pt_entries f ! pt_index levels (Suc l) address of
        Translation valid ppn \<Rightarrow> False
      | Pointer None \<Rightarrow> True
      | Pointer (Some f') \<Rightarrow> clear_path levels address t l f')"

text \<open>The number of frames missing on the path down to level \<open>t\<close>.\<close>

fun missing :: "nat \<Rightarrow> u64 \<Rightarrow> nat \<Rightarrow> nat \<Rightarrow> pt_frame \<Rightarrow> nat" where
  "missing levels address t 0 f = 0"
| "missing levels address t (Suc l) f =
     (if Suc l = t then 0
      else case pt_entries f ! pt_index levels (Suc l) address of
        Translation valid ppn \<Rightarrow> 0
      | Pointer None \<Rightarrow> l + 1 - t
      | Pointer (Some f') \<Rightarrow> missing levels address t l f')"

definition cur_missing :: "nat \<Rightarrow> u64 \<Rightarrow> nat \<Rightarrow> nat \<Rightarrow> pt_frame option \<Rightarrow> nat" where
  "cur_missing levels address t l cur =
     (case cur of None \<Rightarrow> l + 1 - t | Some f \<Rightarrow> missing levels address t l f)"

definition cur_clear :: "nat \<Rightarrow> u64 \<Rightarrow> nat \<Rightarrow> nat \<Rightarrow> pt_frame option \<Rightarrow> bool" where
  "cur_clear levels address t l cur \<longleftrightarrow>
     (case cur of None \<Rightarrow> True | Some f \<Rightarrow> clear_path levels address t l f)"

text \<open>Two addresses take the same path from level \<open>l\<close> down to level \<open>t\<close>.\<close>

definition same_path :: "nat \<Rightarrow> nat \<Rightarrow> nat \<Rightarrow> u64 \<Rightarrow> u64 \<Rightarrow> bool" where
  "same_path levels t l a b \<longleftrightarrow> (\<forall>k. t \<le> k \<and> k \<le> l \<longrightarrow> pt_index levels k a = pt_index levels k b)"

lemma pt_index_less [simp]: "pt_index levels l a < 512"
  by (simp add: pt_index_def)

lemma frame_wf_access:
  assumes "frame_wf (Suc l) f" "levels \<le> 5"
  shows "access_ok levels (Suc l) a f" "length (pt_entries f) = 512"
  using assms by (simp_all add: access_ok_def)

lemma same_path_Suc:
  "t \<le> Suc l \<Longrightarrow> same_path levels t (Suc l) a b \<longleftrightarrow>
     pt_index levels (Suc l) a = pt_index levels (Suc l) b \<and> same_path levels t l a b"
  by (auto simp: same_path_def le_Suc_eq)

lemma frame_wf_entry:
  assumes "frame_wf (Suc l) f" "pt_entries f ! pt_index levels k a = e"
  shows "case e of Translation valid ppn \<Rightarrow> l \<le> 1 \<and> (valid \<longrightarrow> ppn \<noteq> minus1_64)
      | Pointer cur \<Rightarrow> cur_wf l cur"
proof -
  have "e \<in> set (pt_entries f)" using assms by (auto intro!: nth_mem)
  with assms(1) show ?thesis
    by (cases e) (auto simp: cur_wf_def split: option.splits pt_entry.splits)
qed

lemma frame_wf_set_entry:
  assumes "frame_wf (Suc l) f"
    and "case e of Translation valid ppn \<Rightarrow> l \<le> 1 \<and> (valid \<longrightarrow> ppn \<noteq> minus1_64) | Pointer cur \<Rightarrow> cur_wf l cur"
  shows "frame_wf (Suc l) (set_entry i e f)"
proof -
  have "case x of Translation valid ppn \<Rightarrow> l \<le> 1 \<and> (valid \<longrightarrow> ppn \<noteq> minus1_64)
      | Pointer None \<Rightarrow> 1 \<le> l | Pointer (Some f') \<Rightarrow> 1 \<le> l \<and> frame_wf l f'"
    if x: "x \<in> set ((pt_entries f)[i := e])" for x
  proof -
    consider "x = e" | "x \<in> set (pt_entries f)" using in_set_updateD [OF x] by blast
    then show ?thesis
    proof cases
      case 1
      have "1 \<le> l" if "frame_wf l g" for g using that by (cases l) simp_all
      with 1 assms(2) show ?thesis
        by (auto simp: cur_wf_def split: option.splits pt_entry.splits)
    next
      case 2
      then show ?thesis using assms(1) by auto
    qed
  qed
  then show ?thesis using assms(1) by (simp add: set_entry_def)
qed

lemma new_pt_frame_wf: "1 \<le> l \<Longrightarrow> frame_wf l (new_pt_frame 512 l p)"
  by (cases l) (simp_all add: new_pt_frame_def)

lemma new_pt_frame_lookup: "1 \<le> l \<Longrightarrow> pt_lookup levels a l (new_pt_frame 512 l p) = None"
  by (cases l) (simp_all add: new_pt_frame_def)

section \<open>Walks\<close>

lemma walk_from_lookup:
  assumes "frame_wf l f" "levels \<le> 5" "2 \<le> length sizes"
  shows "case pt_lookup levels a l f of
      Some (k, p) \<Rightarrow> \<exists>v. walk_from levels sizes a l f visited = Inr (Walk_Hit (sizes ! k) p v)
    | None \<Rightarrow> \<exists>n v. walk_from levels sizes a l f visited = Inr (Walk_Fault n v) \<and>
        (clear_path levels a 1 l f \<longrightarrow> n = missing levels a 1 l f)"
  using assms(1)
proof (induction l arbitrary: f visited)
  case (Suc l)
  note acc = frame_wf_access(1) [OF Suc.prems assms(2), of a]
  note ent = frame_wf_entry [OF Suc.prems refl, of levels "Suc l" a]
  show ?case
  proof (cases "pt_entries f ! pt_index levels (Suc l) a")
    case (Translation valid ppn)
    with ent assms(3) acc show ?thesis by (auto simp: Let_def)
  next
    case (Pointer cur)
    show ?thesis
    proof (cases cur)
      case None
      with Pointer acc ent show ?thesis by (simp add: Let_def cur_wf_def)
    next
      case (Some f')
      with Pointer ent have wf: "frame_wf l f'" by (simp add: cur_wf_def)
      then have "l \<noteq> 0" by (cases l) simp_all
      from Suc.IH [OF wf, of "visited @ [pt_access levels (Suc l) a f]"] this show ?thesis
        using Pointer Some acc by (simp add: Let_def split: option.splits prod.splits)
    qed
  qed
qed simp

section \<open>Updates\<close>

lemma current_or_new_ok:
  assumes "cur_wf (Suc l) cur" "1 \<le> t" "t \<le> Suc l" "cur_clear levels a t (Suc l) cur"
    and "cur_missing levels a t (Suc l) cur \<le> length frames"
  obtains f frames' n where "current_or_new 512 (Suc l) cur frames = Inr (f, frames', n)"
    "frame_wf (Suc l) f" "\<And>b. pt_lookup levels b (Suc l) f = cur_lookup levels b (Suc l) cur"
    "clear_path levels a t (Suc l) f" "n + missing levels a t (Suc l) f = cur_missing levels a t (Suc l) cur"
    "missing levels a t (Suc l) f \<le> length frames'"
proof (cases cur)
  case (Some f)
  with assms that [of f frames 0] show ?thesis
    by (simp add: current_or_new_def cur_wf_def cur_lookup_def cur_clear_def cur_missing_def del: frame_wf.simps)
next
  case None
  then have m: "cur_missing levels a t (Suc l) cur = Suc l + 1 - t" by (simp add: cur_missing_def)
  with assms(3,5) obtain p ps where fr: "frames = p # ps" by (cases frames) auto
  let ?f = "new_pt_frame 512 (Suc l) p"
  have "clear_path levels a t (Suc l) ?f" "1 + missing levels a t (Suc l) ?f = Suc l + 1 - t"
    using assms(2,3) by (auto simp: new_pt_frame_def)
  moreover have "pt_lookup levels b (Suc l) ?f = cur_lookup levels b (Suc l) cur" for b
    using None new_pt_frame_lookup [of "Suc l" levels b p] by (simp add: cur_lookup_def)
  ultimately show ?thesis
    using that [of ?f ps 1] new_pt_frame_wf [of "Suc l" p] None fr m assms(5)
    by (simp add: current_or_new_def del: frame_wf.simps missing.simps clear_path.simps)
qed

lemma pt_lookup_set_entry:
  assumes "length (pt_entries f) = 512"
  shows "pt_lookup levels b (Suc l) (set_entry (pt_index levels (Suc l) a) e f) =
    (if pt_index levels (Suc l) a = pt_index levels (Suc l) b
     then (case e of Translation valid ppn \<Rightarrow> if valid then Some (l, ppn) else None
                   | Pointer cur \<Rightarrow> cur_lookup levels b l cur)
     else pt_lookup levels b (Suc l) f)"
  using assms
  by (cases e) (auto simp: set_entry_def nth_list_update cur_lookup_def split: option.splits pt_entry.splits)

lemma update_from_ok:
  assumes "cur_wf l cur" "t \<le> l" and t: "t = 1 \<or> t = 2" "page_size = (if t = 2 then 21 else 12)"
    and lv: "levels \<le> 5" and "cur_clear levels a t l cur"
    and "cur_missing levels a t l cur \<le> length frames" and ppn: "ppn \<noteq> minus1_64"
  shows "\<exists>f'. update_from levels 512 a ppn page_size l cur frames =
      Inr (Some f', cur_missing levels a t l cur) \<and> frame_wf l f' \<and>
    (\<forall>b. pt_lookup levels b l f' =
       (if same_path levels t l a b then Some (t - 1, ppn) else cur_lookup levels b l cur))"
  using assms(1,2,6,7)
proof (induction l arbitrary: cur frames)
  case 0
  then show ?case using t(1) by auto
next
  case (Suc l)
  have t1: "1 \<le> t" using t(1) by auto
  obtain f frames' n where c: "current_or_new 512 (Suc l) cur frames = Inr (f, frames', n)"
    "frame_wf (Suc l) f" "\<And>b. pt_lookup levels b (Suc l) f = cur_lookup levels b (Suc l) cur"
    "clear_path levels a t (Suc l) f" "n + missing levels a t (Suc l) f = cur_missing levels a t (Suc l) cur"
    "missing levels a t (Suc l) f \<le> length frames'"
    by (rule current_or_new_ok [OF Suc.prems(1) t1 Suc.prems(2-4)]) blast
  note acc = frame_wf_access(1) [OF c(2) lv, of a] frame_wf_access(2) [OF c(2) lv]
  let ?i = "pt_index levels (Suc l) a"
  show ?case
  proof (cases "Suc l = t")
    case True
    let ?f = "set_entry ?i (Translation True ppn) f"
    have "update_from levels 512 a ppn page_size (Suc l) cur frames = Inr (Some ?f, n)"
    proof -
      have "(page_size = 21 \<and> l = 1) \<or> (page_size = 12 \<and> l = 0)" using t True by auto
      with c(1) acc(1) show ?thesis by (simp only: update_from.simps(2) sum.case prod.case Let_def if_True if_False simp_thms)
    qed
    moreover have "frame_wf (Suc l) ?f"
      using t True ppn by (intro frame_wf_set_entry [OF c(2)]) auto
    moreover have "missing levels a t (Suc l) f = 0" by (simp add: True [symmetric])
    moreover have "pt_lookup levels b (Suc l) ?f =
        (if same_path levels t (Suc l) a b then Some (t - 1, ppn) else cur_lookup levels b (Suc l) cur)" for b
    proof -
      have "same_path levels t (Suc l) a b \<longleftrightarrow> ?i = pt_index levels (Suc l) b" "t - 1 = l"
        using True by (auto simp: same_path_def)
      then show ?thesis unfolding pt_lookup_set_entry [OF acc(2)] by (simp add: c(3) del: pt_lookup.simps)
    qed
    moreover have "n = cur_missing levels a t (Suc l) cur" using c(5) calculation(3) by simp
    ultimately show ?thesis by blast
  next
    case False
    with Suc.prems(2) have tl: "t \<le> l" by simp
    have nm: "\<not> ((page_size = 21 \<and> l = 1) \<or> (page_size = 12 \<and> l = 0))" using t tl by auto
    from c(4) False obtain nxt where e: "pt_entries f ! ?i = Pointer nxt"
      by (cases "pt_entries f ! ?i") auto
    have wf: "cur_wf l nxt" using frame_wf_entry [OF c(2) e] by simp
    have cl: "cur_clear levels a t l nxt" and ms: "missing levels a t (Suc l) f = cur_missing levels a t l nxt"
      using c(4) False e by (auto simp: cur_clear_def cur_missing_def split: option.splits)
    from Suc.IH [OF wf tl cl] c(6) ms obtain g where
      g: "update_from levels 512 a ppn page_size l nxt frames' = Inr (Some g, cur_missing levels a t l nxt)"
      "frame_wf l g" "\<And>b. pt_lookup levels b l g =
       (if same_path levels t l a b then Some (t - 1, ppn) else cur_lookup levels b l nxt)"
      by auto
    let ?f = "set_entry ?i (Pointer (Some g)) f"
    have "update_from levels 512 a ppn page_size (Suc l) cur frames =
        Inr (Some ?f, cur_missing levels a t (Suc l) cur)"
      using c(1,5) acc(1) nm e g(1) ms by (auto simp: Let_def)
    moreover have "frame_wf (Suc l) ?f"
      using g(2) by (intro frame_wf_set_entry [OF c(2)]) (simp add: cur_wf_def)
    moreover have "pt_lookup levels b (Suc l) ?f =
        (if same_path levels t (Suc l) a b then Some (t - 1, ppn) else cur_lookup levels b (Suc l) cur)" for b
    proof (cases "?i = pt_index levels (Suc l) b")
      case True
      have "cur_lookup levels b (Suc l) cur = cur_lookup levels b l nxt"
        using e True unfolding c(3) [symmetric] by (simp add: cur_lookup_def split: option.splits)
      with True show ?thesis
        unfolding pt_lookup_set_entry [OF acc(2)] same_path_Suc [OF Suc.prems(2)]
        by (simp add: cur_lookup_def g(3))
    next
      case ne: False
      then show ?thesis
        unfolding pt_lookup_set_entry [OF acc(2)] same_path_Suc [OF Suc.prems(2)] by (simp add: c(3) del: pt_lookup.simps)
    qed
    ultimately show ?thesis by blast
  qed
qed

section \<open>Deletion\<close>

lemma pt_lookup_level: "pt_lookup levels a l f = Some (k, p) \<Longrightarrow> k < l"
  by (induction l arbitrary: f) (auto split: pt_entry.splits option.splits if_splits simp: less_SucI)

lemma delete_from_ok:
  assumes "frame_wf l f" "levels \<le> 5" "pt_lookup levels a l f = Some (k, p)"
  shows "\<exists>f'. delete_from levels a l f = Inr f' \<and> frame_wf l f' \<and>
    (\<forall>b. pt_lookup levels b l f' = (if same_path levels (Suc k) l a b then None else pt_lookup levels b l f))"
  using assms(1,3)
proof (induction l arbitrary: f)
  case (Suc l)
  note acc = frame_wf_access(1) [OF Suc.prems(1) assms(2), of a] frame_wf_access(2) [OF Suc.prems(1) assms(2)]
  let ?i = "pt_index levels (Suc l) a"
  show ?case
  proof (cases "pt_entries f ! ?i")
    case (Translation valid ppn)
    with Suc.prems(2) have k: "k = l" by (simp split: if_splits)
    let ?f = "set_entry ?i (Translation False minus1_64) f"
    have "delete_from levels a (Suc l) f = Inr ?f" using acc(1) Translation by (simp add: Let_def)
    moreover have "frame_wf (Suc l) ?f"
      using frame_wf_entry [OF Suc.prems(1) Translation] by (intro frame_wf_set_entry [OF Suc.prems(1)]) simp
    moreover have "same_path levels (Suc k) (Suc l) a b \<longleftrightarrow> ?i = pt_index levels (Suc l) b" for b
      using k by (auto simp: same_path_def)
    ultimately show ?thesis
      using pt_lookup_set_entry [OF acc(2), where e = "Translation False minus1_64"]
      by (simp del: pt_lookup.simps delete_from.simps)
  next
    case (Pointer nxt)
    with Suc.prems(2) obtain g where n: "nxt = Some g" "pt_lookup levels a l g = Some (k, p)"
      by (cases nxt) auto
    have wf: "frame_wf l g" using frame_wf_entry [OF Suc.prems(1) Pointer] n(1) by (simp add: cur_wf_def)
    from Suc.IH [OF wf n(2)] obtain g' where g': "delete_from levels a l g = Inr g'" "frame_wf l g'"
      "\<And>b. pt_lookup levels b l g' = (if same_path levels (Suc k) l a b then None else pt_lookup levels b l g)"
      by blast
    have kl: "Suc k \<le> Suc l" using pt_lookup_level [OF n(2)] by simp
    let ?f = "set_entry ?i (Pointer (Some g')) f"
    have "delete_from levels a (Suc l) f = Inr ?f" using acc(1) Pointer n(1) g'(1) by (simp add: Let_def)
    moreover have "frame_wf (Suc l) ?f"
      using g'(2) by (intro frame_wf_set_entry [OF Suc.prems(1)]) (simp add: cur_wf_def)
    moreover have "pt_lookup levels b (Suc l) ?f =
        (if same_path levels (Suc k) (Suc l) a b then None else pt_lookup levels b (Suc l) f)" for b
    proof (cases "?i = pt_index levels (Suc l) b")
      case True
      have "pt_lookup levels b (Suc l) f = pt_lookup levels b l g" using Pointer n(1) True by simp
      with True show ?thesis
        unfolding pt_lookup_set_entry [OF acc(2)] same_path_Suc [OF kl]
        by (simp add: cur_lookup_def g'(3))
    next
      case False
      then show ?thesis
        unfolding pt_lookup_set_entry [OF acc(2)] same_path_Suc [OF kl] by (simp del: pt_lookup.simps)
    qed
    ultimately show ?thesis by blast
  qed
qed simp

section \<open>Updates that cannot be carried out\<close>

lemma update_from_blocked:
  assumes "frame_wf l f" "levels \<le> 5" "t = 1 \<or> t = 2" "page_size = (if t = 2 then 21 else 12)" "t \<le> l"
    and "\<not> clear_path levels a t l f"
  shows "update_from levels 512 a ppn page_size l (Some f) frames = Inl Undefined_Behaviour"
  using assms(1,5,6)
proof (induction l arbitrary: f)
  case (Suc l)
  note acc = frame_wf_access(1) [OF Suc.prems(1) assms(2), of a]
  have tl: "t \<le> l" using Suc.prems(2,3) by auto
  then have nm: "\<not> ((page_size = 21 \<and> l = 1) \<or> (page_size = 12 \<and> l = 0))" "l \<noteq> 0" using assms(3,4) by auto
  show ?case
  proof (cases "pt_entries f ! pt_index levels (Suc l) a")
    case (Translation valid p)
    with acc nm show ?thesis by (simp add: current_or_new_def Let_def)
  next
    case (Pointer nxt)
    with Suc.prems(3) obtain g where g: "nxt = Some g" "\<not> clear_path levels a t l g"
      by (auto split: option.splits)
    have "frame_wf l g" using frame_wf_entry [OF Suc.prems(1) Pointer] g(1) by (simp add: cur_wf_def)
    from Suc.IH [OF this tl g(2)] acc nm Pointer g(1) show ?thesis
      by (simp add: current_or_new_def Let_def)
  qed
qed (use assms(3) in auto)

lemma update_from_short:
  assumes "cur_wf l cur" "levels \<le> 5" and t: "t = 1 \<or> t = 2" "page_size = (if t = 2 then 21 else 12)" "t \<le> l"
    and "cur_clear levels a t l cur" "length frames < cur_missing levels a t l cur"
  shows "update_from levels 512 a ppn page_size l cur frames = Inl Assertion_Failed"
  using assms(1,5,6,7)
proof (induction l arbitrary: cur frames)
  case (Suc l)
  show ?case
  proof (cases "cur = None \<and> frames = []")
    case True
    then show ?thesis by (simp add: current_or_new_def)
  next
    case False
    obtain f frames' n where c: "current_or_new 512 (Suc l) cur frames = Inr (f, frames', n)"
      "frame_wf (Suc l) f" "clear_path levels a t (Suc l) f" "length frames' < missing levels a t (Suc l) f"
    proof (cases cur)
      case (Some f)
      with Suc.prems that [of f frames 0] show ?thesis
        by (simp add: current_or_new_def cur_wf_def cur_clear_def cur_missing_def del: frame_wf.simps missing.simps)
    next
      case None
      with False obtain p ps where fr: "frames = p # ps" by (cases frames) auto
      let ?f = "new_pt_frame 512 (Suc l) p"
      have "clear_path levels a t (Suc l) ?f" "1 + missing levels a t (Suc l) ?f = Suc l + 1 - t"
        using t Suc.prems(2) by (auto simp: new_pt_frame_def)
      moreover have "length frames < Suc l + 1 - t" using Suc.prems(4) None by (simp add: cur_missing_def)
      ultimately show ?thesis
        using that [of ?f ps 1] new_pt_frame_wf [of "Suc l" p] None fr
        by (simp add: current_or_new_def del: frame_wf.simps missing.simps clear_path.simps)
    qed
    have ne: "Suc l \<noteq> t" using c(4) by auto
    then have tl: "t \<le> l" using Suc.prems(2) by simp
    have nm: "\<not> ((page_size = 21 \<and> l = 1) \<or> (page_size = 12 \<and> l = 0))" using t tl by auto
    note acc = frame_wf_access(1) [OF c(2) assms(2), of a]
    from c(3) ne obtain nxt where e: "pt_entries f ! pt_index levels (Suc l) a = Pointer nxt"
      by (cases "pt_entries f ! pt_index levels (Suc l) a") auto
    have wf: "cur_wf l nxt" using frame_wf_entry [OF c(2) e] by simp
    have "cur_clear levels a t l nxt" "missing levels a t (Suc l) f = cur_missing levels a t l nxt"
      using c(3) ne e by (auto simp: cur_clear_def cur_missing_def split: option.splits)
    with Suc.IH [OF wf tl, of frames'] c(4)
    have "update_from levels 512 a ppn page_size l nxt frames' = Inl Assertion_Failed" by simp
    with c(1) acc nm e show ?thesis by (auto simp: Let_def)
  qed
qed (use t in auto)

section \<open>Paths and pages\<close>

lemma div_step:
  fixes a b m :: nat
  assumes "a div (m * 512) = b div (m * 512)" "(a div m) mod 512 = (b div m) mod 512"
  shows "a div m = b div m"
  using assms by (simp add: div_mult2_eq) (metis div_mult_mod_eq)

lemma pt_index4:
  "pt_index 4 (Suc 0) a = (a div 2 ^ 12) mod 512" "pt_index 4 2 a = (a div 2 ^ 21) mod 512"
  "pt_index 4 3 a = (a div 2 ^ 30) mod 512" "pt_index 4 4 a = (a div 2 ^ 39) mod 512"
  by (simp_all add: pt_index_def pt_shift_def)

lemma same_path_iff:
  assumes "a < 2 ^ 48" "b < 2 ^ 48" "t = 1 \<or> t = 2"
  shows "same_path 4 t 4 a b \<longleftrightarrow> a div 2 ^ (if t = 2 then 21 else 12) = b div 2 ^ (if t = 2 then 21 else 12)"
proof
  assume p: "same_path 4 t 4 a b"
  have top: "a div 2 ^ 39 < 512" "b div 2 ^ 39 < 512" using assms by (simp_all add: less_mult_imp_div_less)
  have i: "pt_index 4 4 a = pt_index 4 4 b" "pt_index 4 3 a = pt_index 4 3 b" "pt_index 4 2 a = pt_index 4 2 b"
    using p assms(3) by (auto simp: same_path_def)
  have "a div 2 ^ 39 = b div 2 ^ 39" using i(1) top by (simp add: pt_index4)
  then have "a div 2 ^ 30 = b div 2 ^ 30" using i(2) div_step [of a "2 ^ 30" b] by (simp add: pt_index4)
  then have l2: "a div 2 ^ 21 = b div 2 ^ 21" using i(3) div_step [of a "2 ^ 21" b] by (simp add: pt_index4)
  show "a div 2 ^ (if t = 2 then 21 else 12) = b div 2 ^ (if t = 2 then 21 else 12)"
  proof (cases "t = 2")
    case False
    then have "pt_index 4 1 a = pt_index 4 1 b" using p assms(3) by (auto simp: same_path_def)
    with l2 False show ?thesis using div_step [of a "2 ^ 12" b] by (simp add: pt_index4)
  qed (use l2 in simp)
next
  assume eq: "a div 2 ^ (if t = 2 then 21 else 12) = b div 2 ^ (if t = 2 then 21 else 12)"
  have up: "a div (2 ^ x * 2 ^ y) = b div (2 ^ x * 2 ^ y)" if "a div 2 ^ x = b div (2::nat) ^ x" for x y
    using that by (simp add: div_mult2_eq)
  have k: "pt_index 4 k a = pt_index 4 k b" if "t \<le> k" "k \<le> 4" for k
  proof -
    have "k = 1 \<or> k = 2 \<or> k = 3 \<or> k = 4" using that assms(3) by auto
    moreover have "a div 2 ^ 21 = b div 2 ^ 21" using eq up [of 12 9] by (cases "t = 2") simp_all
    moreover from this have "a div 2 ^ 30 = b div 2 ^ 30" "a div 2 ^ 39 = b div 2 ^ 39"
      using up [of 21 9] up [of 21 18] by simp_all
    moreover have "a div 2 ^ 12 = b div 2 ^ 12" if "k = 1" using eq that \<open>t \<le> k\<close> assms(3) by auto
    ultimately show ?thesis by (auto simp: pt_index4)
  qed
  then show "same_path 4 t 4 a b" by (simp add: same_path_def)
qed

section \<open>The table as a page table\<close>

definition radix_wf :: "radix \<Rightarrow> bool" where
  "radix_wf rx \<longleftrightarrow> rx_levels rx = 4 \<and> rx_frame_size rx = 512 \<and> rx_page_size_list rx = [12, 21] \<and>
     frame_wf 4 (rx_root rx)"

definition rx_translate :: "radix \<Rightarrow> u64 \<Rightarrow> (nat \<times> u64) option" where
  "rx_translate rx a = map_option (\<lambda>(k, p). ([12, 21] ! k, p)) (pt_lookup 4 a 4 (rx_root rx))"

text \<open>The level at which a page of the given size is entered.\<close>

definition leaf_level :: "nat \<Rightarrow> nat" where
  "leaf_level page_size = (if page_size = 21 then 2 else 1)"

definition rx_clear :: "radix \<Rightarrow> u64 \<Rightarrow> nat \<Rightarrow> bool" where
  "rx_clear rx a page_size \<longleftrightarrow> clear_path 4 a (leaf_level page_size) 4 (rx_root rx)"

definition rx_missing :: "radix \<Rightarrow> u64 \<Rightarrow> nat \<Rightarrow> nat" where
  "rx_missing rx a page_size = missing 4 a (leaf_level page_size) 4 (rx_root rx)"

definition radix_install :: "radix \<Rightarrow> mapping \<Rightarrow> radix option" where
  "radix_install rx m = (case m of (a, ppn, bits, frames) \<Rightarrow>
     if a < 2 ^ 48 \<and> (bits = 12 \<or> bits = 21) \<and> ppn \<noteq> minus1_64
     then (case updatePageTableFrames rx a ppn bits frames of Inr (n, rx') \<Rightarrow> Some rx' | Inl e \<Rightarrow> None)
     else None)"

definition radix_remove :: "radix \<Rightarrow> u64 \<Rightarrow> radix option" where
  "radix_remove rx a = (if rx_translate rx a = None then None
     else case deletePage rx a of Inr rx' \<Rightarrow> Some rx' | Inl e \<Rightarrow> None)"

lemma radix_new_wf: "radix_wf (radix_new [12, 21] 4 512)"
  "rx_translate (radix_new [12, 21] 4 512) a = None"
proof -
  have "frame_wf (Suc 3) (PTFrame 0 (replicate 512 (Pointer None)))"
    by (simp only: frame_wf.simps) simp
  then have "frame_wf 4 (PTFrame 0 (replicate 512 (Pointer None)))" by (simp del: frame_wf.simps)
  then show "radix_wf (radix_new [12, 21] 4 512)" by (simp add: radix_wf_def radix_new_def)
  have "pt_lookup 4 a (Suc 3) (PTFrame 0 (replicate 512 (Pointer None))) = None"
    by (simp only: pt_lookup.simps) simp
  then have "pt_lookup 4 a 4 (PTFrame 0 (replicate 512 (Pointer None))) = None" by (simp del: pt_lookup.simps)
  then show "rx_translate (radix_new [12, 21] 4 512) a = None" by (simp add: rx_translate_def radix_new_def)
qed

lemma leaf_level_cases:
  assumes "bits = 12 \<or> bits = 21"
  shows "leaf_level bits = 1 \<or> leaf_level bits = 2" "bits = (if leaf_level bits = 2 then 21 else 12)"
    "leaf_level bits \<le> 4" "[12, 21] ! (leaf_level bits - 1) = bits"
  using assms by (auto simp: leaf_level_def)

lemma update_ok:
  assumes wf: "radix_wf rx" and a: "a < 2 ^ 48" and bits: "bits = 12 \<or> bits = 21" and ppn: "ppn \<noteq> minus1_64"
    and cl: "rx_clear rx a bits" and fr: "rx_missing rx a bits \<le> length frames"
  shows "\<exists>rx'. updatePageTableFrames rx a ppn bits frames = Inr (rx_missing rx a bits, rx') \<and> radix_wf rx' \<and>
    (\<forall>b < 2 ^ 48. rx_translate rx' b =
       (if b div 2 ^ bits = a div 2 ^ bits then Some (bits, ppn) else rx_translate rx b))"
proof -
  let ?t = "leaf_level bits" and ?f = "rx_root rx"
  note t = leaf_level_cases [OF bits]
  have lv: "rx_levels rx = 4" "rx_frame_size rx = 512" "rx_page_size_list rx = [12, 21]" "cur_wf 4 (Some ?f)"
    using wf by (simp_all add: radix_wf_def cur_wf_def)
  have c: "cur_clear 4 a ?t 4 (Some ?f)" "cur_missing 4 a ?t 4 (Some ?f) \<le> length frames"
    using cl fr by (simp_all add: rx_clear_def rx_missing_def cur_clear_def cur_missing_def)
  from update_from_ok [OF lv(4) t(3) t(1) t(2) _ c ppn] obtain f' where
    u: "update_from 4 512 a ppn bits 4 (Some ?f) frames = Inr (Some f', rx_missing rx a bits)" "frame_wf 4 f'"
    "\<And>b. pt_lookup 4 b 4 f' = (if same_path 4 ?t 4 a b then Some (?t - 1, ppn) else pt_lookup 4 b 4 ?f)"
    by (auto simp: cur_missing_def cur_lookup_def rx_missing_def)
  obtain rx' where rx': "updatePageTableFrames rx a ppn bits frames = Inr (rx_missing rx a bits, rx')"
    "rx_root rx' = f'" "rx_levels rx' = 4" "rx_frame_size rx' = 512" "rx_page_size_list rx' = [12, 21]"
    using u(1) lv by (simp add: updatePageTableFrames_def)
  have "rx_translate rx' b = (if b div 2 ^ bits = a div 2 ^ bits then Some (bits, ppn) else rx_translate rx b)"
    if "b < 2 ^ 48" for b
    using u(3) [of b] same_path_iff [OF a that t(1)] t(4)
    unfolding t(2) [symmetric] by (auto simp: rx_translate_def rx'(2))
  with rx' u(2) show ?thesis by (auto simp: radix_wf_def)
qed

lemma update_blocked:
  assumes "radix_wf rx" "bits = 12 \<or> bits = 21" "\<not> rx_clear rx a bits"
  shows "updatePageTableFrames rx a ppn bits frames = Inl Undefined_Behaviour"
  using assms update_from_blocked [of 4 "rx_root rx" 4 "leaf_level bits" bits a ppn frames] leaf_level_cases [OF assms(2)]
  by (simp add: updatePageTableFrames_def radix_wf_def rx_clear_def)

lemma update_short:
  assumes "radix_wf rx" "bits = 12 \<or> bits = 21" "rx_clear rx a bits" "length frames < rx_missing rx a bits"
  shows "updatePageTableFrames rx a ppn bits frames = Inl Assertion_Failed"
  using assms update_from_short [of 4 "Some (rx_root rx)" 4 "leaf_level bits" bits a frames ppn]
    leaf_level_cases [OF assms(2)]
  by (simp add: updatePageTableFrames_def radix_wf_def rx_clear_def rx_missing_def cur_wf_def cur_clear_def cur_missing_def)

lemma pt_lookup_leaf: "frame_wf l f \<Longrightarrow> pt_lookup levels a l f = Some (k, p) \<Longrightarrow> k \<le> 1"
proof (induction l arbitrary: f)
  case (Suc l)
  note e = frame_wf_entry [OF Suc.prems(1) refl, of levels "Suc l" a]
  show ?case
    using Suc.prems(2) Suc.IH e
    by (cases "pt_entries f ! pt_index levels (Suc l) a") (auto simp: cur_wf_def split: if_splits option.splits)
qed simp

lemma delete_wf:
  assumes "radix_wf rx" "rx_translate rx a = Some (bits, p)" "deletePage rx a = Inr rx'"
  shows "radix_wf rx'"
proof -
  from assms(2) obtain k where k: "pt_lookup 4 a 4 (rx_root rx) = Some (k, p)" by (auto simp: rx_translate_def)
  have wf: "frame_wf 4 (rx_root rx)" "rx_levels rx = 4" using assms(1) by (simp_all add: radix_wf_def)
  from delete_from_ok [OF wf(1) _ k] assms(1,3) show ?thesis
    by (auto simp: deletePage_def radix_wf_def)
qed

lemma delete_ok:
  assumes wf: "radix_wf rx" and a: "a < 2 ^ 48" and tr: "rx_translate rx a = Some (bits, p)"
  shows "\<exists>rx'. deletePage rx a = Inr rx' \<and> radix_wf rx' \<and>
    (\<forall>b < 2 ^ 48. rx_translate rx' b = (if b div 2 ^ bits = a div 2 ^ bits then None else rx_translate rx b))"
proof -
  let ?f = "rx_root rx"
  have lv: "rx_levels rx = 4" "rx_frame_size rx = 512" "rx_page_size_list rx = [12, 21]" "frame_wf 4 ?f"
    using wf by (simp_all add: radix_wf_def)
  from tr obtain k where k: "pt_lookup 4 a 4 ?f = Some (k, p)" "bits = [12, 21] ! k"
    by (auto simp: rx_translate_def)
  have "k \<le> 1" using pt_lookup_leaf [OF lv(4) k(1)] by simp
  then have t: "Suc k = 1 \<or> Suc k = 2" "bits = (if Suc k = 2 then 21 else 12)" using k(2) by (auto simp: le_Suc_eq)
  from delete_from_ok [OF lv(4) _ k(1)] obtain f' where
    d: "delete_from 4 a 4 ?f = Inr f'" "frame_wf 4 f'"
    "\<And>b. pt_lookup 4 b 4 f' = (if same_path 4 (Suc k) 4 a b then None else pt_lookup 4 b 4 ?f)" by auto
  have "deletePage rx a = Inr (rx\<lparr>rx_root := f'\<rparr>)" using d(1) lv by (simp add: deletePage_def)
  moreover have "rx_translate (rx\<lparr>rx_root := f'\<rparr>) b =
      (if b div 2 ^ bits = a div 2 ^ bits then None else rx_translate rx b)" if "b < 2 ^ 48" for b
    using d(3) [of b] same_path_iff [OF a that t(1)] unfolding t(2) [symmetric] by (auto simp: rx_translate_def)
  ultimately show ?thesis using lv d(2) by (auto simp: radix_wf_def)
qed

interpretation radix: page_table radix_wf rx_translate radix_install radix_remove
proof unfold_locales
  fix s s' :: radix and m :: mapping and b :: u64
  obtain x ppn sz frames where m: "m = (x, ppn, sz, frames)" by (cases m)
  have inst: "radix_wf s' \<and> (\<forall>b < 2 ^ 48. rx_translate s' b =
      (if covers m b then Some (mapping_target m) else rx_translate s b))"
    if wf: "radix_wf s" and i: "radix_install s m = Some s'"
  proof -
    from i have pre: "x < 2 ^ 48" "sz = 12 \<or> sz = 21" "ppn \<noteq> minus1_64"
      and u: "\<exists>n. updatePageTableFrames s x ppn sz frames = Inr (n, s')"
      by (auto simp: radix_install_def m split: if_splits sum.splits)
    have "rx_clear s x sz" using u update_blocked [OF wf pre(2)] by fastforce
    moreover have "rx_missing s x sz \<le> length frames"
      using u update_short [OF wf pre(2) calculation] by (metis Inl_Inr_False not_le)
    ultimately obtain rx' where "updatePageTableFrames s x ppn sz frames = Inr (rx_missing s x sz, rx')"
      "radix_wf rx'" "\<forall>b < 2 ^ 48. rx_translate rx' b =
         (if b div 2 ^ sz = x div 2 ^ sz then Some (sz, ppn) else rx_translate s b)"
      using update_ok [OF wf pre] by blast
    moreover from this(1) u have "rx' = s'" by auto
    ultimately show ?thesis by (simp add: m covers_def mapping_target_def)
  qed
  show "radix_wf s'" if "radix_wf s" "radix_install s m = Some s'" using inst that by blast
  show "rx_translate s' b = (if covers m b then Some (mapping_target m) else rx_translate s b)"
    if "radix_wf s" "radix_install s m = Some s'" "b < 2 ^ 48" using inst that by blast
next
  fix s s' :: radix and a :: nat
  assume s: "radix_wf s" "radix_remove s a = Some s'"
  then obtain bits p where tr: "rx_translate s a = Some (bits, p)" by (auto simp: radix_remove_def split: if_splits)
  show "radix_wf s'" using s tr delete_wf by (auto simp: radix_remove_def split: sum.splits)
next
  fix s s' :: radix and a b bits p :: nat
  assume "radix_wf s" "a < 2 ^ 48" "rx_translate s a = Some (bits, p)" "radix_remove s a = Some s'" "b < 2 ^ 48"
  with delete_ok [of s a bits p] show
    "rx_translate s' b = (if b div 2 ^ bits = a div 2 ^ bits then None else rx_translate s b)"
    by (auto simp: radix_remove_def)
qed

section \<open>Properties\<close>

lemma walk_translate:
  assumes "radix_wf rx"
  shows "case rx_translate rx a of
      Some (bits, p) \<Rightarrow> \<exists>v rx'. initializeWalk rx a c = Inr (Walk_Hit bits p v, rx') \<and> rx_root rx' = rx_root rx
    | None \<Rightarrow> \<exists>n v rx'. initializeWalk rx a c = Inr (Walk_Fault n v, rx') \<and> rx_root rx' = rx_root rx \<and>
        (rx_clear rx a 12 \<longrightarrow> n = rx_missing rx a 12)"
proof -
  have wf: "frame_wf 4 (rx_root rx)" "rx_levels rx = 4" "rx_page_size_list rx = [12, 21]"
    using assms by (simp_all add: radix_wf_def)
  note w = walk_from_lookup [OF wf(1), of 4 "[12, 21]" a "[]", simplified]
  show ?thesis
  proof (cases "pt_lookup 4 a 4 (rx_root rx)")
    case None
    with w obtain n v where "walk_from 4 [12, 21] a 4 (rx_root rx) [] = Inr (Walk_Fault n v)"
      "clear_path 4 a (Suc 0) 4 (rx_root rx) \<longrightarrow> n = missing 4 a (Suc 0) 4 (rx_root rx)" by auto
    with None wf show ?thesis
      by (simp add: rx_translate_def initializeWalk_def Let_def rx_clear_def rx_missing_def leaf_level_def)
  next
    case (Some e)
    obtain k p where e: "e = (k, p)" by fastforce
    with Some w obtain v where "walk_from 4 [12, 21] a 4 (rx_root rx) [] = Inr (Walk_Hit ([12, 21] ! k) p v)" by auto
    with Some e wf show ?thesis by (simp add: rx_translate_def initializeWalk_def Let_def)
  qed
qed

lemma large_not_clear: "pt_lookup levels a l f = Some (1, p) \<Longrightarrow> \<not> clear_path levels a 1 l f"
proof (induction l arbitrary: f)
  case (Suc l)
  show ?case
  proof (cases "pt_entries f ! pt_index levels (Suc l) a")
    case (Translation valid q)
    with Suc.prems show ?thesis by (simp split: if_splits)
  next
    case (Pointer nxt)
    with Suc.prems obtain g where g: "nxt = Some g" "pt_lookup levels a l g = Some (1, p)" by (cases nxt) auto
    then have "l \<noteq> 0" by (cases l) simp_all
    with Suc.IH [OF g(2)] Pointer g(1) show ?thesis by simp
  qed
qed simp

lemma delete_from_clear:
  "frame_wf l f \<Longrightarrow> delete_from levels a l f = Inr f' \<Longrightarrow> clear_path levels a t l f' = clear_path levels a t l f"
proof (induction l arbitrary: f f')
  case (Suc l)
  have len: "pt_index levels (Suc l) a < length (pt_entries f)" using Suc.prems(1) by simp
  show ?case
  proof (cases "pt_entries f ! pt_index levels (Suc l) a")
    case (Translation valid q)
    with Suc.prems(2) len show ?thesis by (auto simp: Let_def set_entry_def split: if_splits)
  next
    case (Pointer nxt)
    show ?thesis
    proof (cases nxt)
      case None
      with Suc.prems(2) Pointer show ?thesis by (auto simp: Let_def split: if_splits)
    next
      case (Some g)
      have "frame_wf l g" using frame_wf_entry [OF Suc.prems(1) Pointer] Some by (simp add: cur_wf_def)
      with Suc.IH [of g] Suc.prems(2) Pointer Some len show ?thesis
        by (auto simp: Let_def set_entry_def split: if_splits sum.splits)
    qed
  qed
qed simp

text \<open>
  C30: \<open>updatePageTableFrames\<close> refines a map from pages to frames. For a 4KB page
  that no 2MB entry covers, or for a 2MB page, and with enough frames for the
  missing nodes, it uses exactly as many frames as nodes are missing, every address
  of the page is then translated to the new page number and size, and every other
  address as before.
\<close>

theorem radix_update_refines:
  assumes "radix_wf rx" "a < 2 ^ 48" "bits = 12 \<or> bits = 21" "ppn \<noteq> minus1_64"
    and "rx_clear rx a bits" "rx_missing rx a bits \<le> length frames"
  shows "\<exists>rx'. updatePageTableFrames rx a ppn bits frames = Inr (rx_missing rx a bits, rx') \<and> radix_wf rx' \<and>
    (\<forall>b < 2 ^ 48. rx_translate rx' b =
       (if b div 2 ^ bits = a div 2 ^ bits then Some (bits, ppn) else rx_translate rx b))"
  by (rule update_ok [OF assms])

lemma radix_new_clear:
  "rx_clear (radix_new [12, 21] 4 512) a bits" "rx_missing (radix_new [12, 21] 4 512) a bits \<le> length [1::nat, 2, 3]"
proof -
  let ?f = "PTFrame 0 (replicate 512 (Pointer None))"
  have "clear_path 4 a t (Suc 3) ?f" "missing 4 a t (Suc 3) ?f \<le> 3 + 1 - t" for t
    by (simp_all only: clear_path.simps missing.simps) simp_all
  from this [of "leaf_level bits"] show "rx_clear (radix_new [12, 21] 4 512) a bits"
    "rx_missing (radix_new [12, 21] 4 512) a bits \<le> length [1::nat, 2, 3]"
    by (auto simp: rx_clear_def rx_missing_def radix_new_def leaf_level_def simp del: clear_path.simps missing.simps)
qed

theorem radix_update_refines_witness:
  "\<exists>rx'. updatePageTableFrames (radix_new [12, 21] 4 512) 4096 7 12 [1, 2, 3] =
      Inr (rx_missing (radix_new [12, 21] 4 512) 4096 12, rx') \<and> radix_wf rx' \<and>
    (\<forall>b < 2 ^ 48. rx_translate rx' b =
       (if b div 2 ^ 12 = 4096 div 2 ^ 12 then Some (12, 7) else rx_translate (radix_new [12, 21] 4 512) b))"
  by (rule radix_update_refines [OF radix_new_wf(1) _ _ _ radix_new_clear]) (simp_all add: minus1_64_def)

text \<open>
  C31: a walk returns exactly what the table maps: a hit with the page size and
  number, or a fault. A walk never changes the table.
\<close>

theorem radix_walk_translates:
  assumes "radix_wf rx"
  shows "case rx_translate rx a of
      Some (bits, p) \<Rightarrow> \<exists>v rx'. initializeWalk rx a c = Inr (Walk_Hit bits p v, rx') \<and> rx_root rx' = rx_root rx
    | None \<Rightarrow> \<exists>n v rx'. initializeWalk rx a c = Inr (Walk_Fault n v, rx') \<and> rx_root rx' = rx_root rx"
  using walk_translate [OF assms, of a c] by (auto split: option.splits)

theorem radix_walk_translates_witness:
  "case rx_translate (radix_new [12, 21] 4 512) 4096 of
      Some (bits, p) \<Rightarrow> \<exists>v rx'. initializeWalk (radix_new [12, 21] 4 512) 4096 True = Inr (Walk_Hit bits p v, rx') \<and>
        rx_root rx' = rx_root (radix_new [12, 21] 4 512)
    | None \<Rightarrow> \<exists>n v rx'. initializeWalk (radix_new [12, 21] 4 512) 4096 True = Inr (Walk_Fault n v, rx') \<and>
        rx_root rx' = rx_root (radix_new [12, 21] 4 512)"
  by (rule radix_walk_translates [OF radix_new_wf(1)])



text \<open>
  deleting a mapped page unmaps exactly the addresses of that page.
\<close>

lemma radix_delete_exact:
  assumes "radix_wf rx" "a < 2 ^ 48" "rx_translate rx a = Some (bits, p)"
  shows "\<exists>rx'. deletePage rx a = Inr rx' \<and> radix_wf rx' \<and>
    (\<forall>b < 2 ^ 48. rx_translate rx' b = (if b div 2 ^ bits = a div 2 ^ bits then None else rx_translate rx b))"
  by (rule delete_ok [OF assms])

text \<open>
  entering a 4KB page below a 2MB entry reads the entry's translation as a
  pointer to the next level, and so it does after the 2MB page was deleted, because
  deletion keeps the entry marked as a translation.
\<close>

lemma radix_small_under_large_undefined:
  assumes "radix_wf rx" "rx_translate rx a = Some (21, p)"
  shows "updatePageTableFrames rx a ppn 12 frames = Inl Undefined_Behaviour \<and>
    (\<forall>rx'. deletePage rx a = Inr rx' \<longrightarrow> updatePageTableFrames rx' a ppn 12 frames = Inl Undefined_Behaviour)"
proof -
  have wf: "frame_wf 4 (rx_root rx)" "rx_levels rx = 4" using assms(1) by (simp_all add: radix_wf_def)
  from assms(2) obtain k where k: "pt_lookup 4 a 4 (rx_root rx) = Some (k, p)" "[12, 21] ! k = (21::nat)"
    by (auto simp: rx_translate_def)
  have "k = 1" using pt_lookup_leaf [OF wf(1) k(1)] k(2) by (auto simp: le_Suc_eq)
  then have "\<not> clear_path 4 a 1 4 (rx_root rx)" using large_not_clear [of 4 a 4 "rx_root rx" p] k(1) by simp
  then have nc: "\<not> rx_clear rx a 12" by (simp add: rx_clear_def leaf_level_def)
  moreover have "\<not> rx_clear rx' a 12" if "deletePage rx a = Inr rx'" for rx'
    using that nc delete_from_clear [OF wf(1), of 4 a _ 1] wf(2)
    by (auto simp: rx_clear_def leaf_level_def deletePage_def map_sum_def split: sum.splits)
  ultimately show ?thesis
    using update_blocked [OF assms(1), of 12 a ppn frames] delete_wf [OF assms] update_blocked by blast
qed

end
