(* ===== verification/Fault_Handler.thy ===== *)
theory Fault_Handler
  imports Reserve_THP Radix
begin

text \<open>
  The page-fault path of the simulated operating system
  (\<open>sniper_space_exception_handler.cc\<close>): the physical allocator is asked for a
  page, page-table frames are taken from the bump allocator of the base class, the
  radix table is updated and the frames that were not needed are given back. The
  allocator is called through the interface of \<open>PhysicalMemoryAllocator\<close>, so the
  handler takes it as an argument; the locale \<open>fault_allocator\<close> states what the
  handler relies on. The theory shows that a fault leaves the page mapped to the
  frame the allocator assigned, and that no page that was mapped changes its
  frame, not even when a region is promoted to a large page.
\<close>

section \<open>The handler\<close>

record 'a mimic_os =
  os_allocator :: 'a
  os_phys :: phys_alloc
  os_page_table :: radix

text \<open>Taking \<open>n\<close> page-table frames, with the out-of-memory assertion.\<close>

fun give_frames :: "nat \<Rightarrow> phys_alloc \<Rightarrow> (u64 list \<times> phys_alloc) outcome" where
  "give_frames 0 pa = Inr ([], pa)"
| "give_frames (Suc n) pa =
     (case handle_page_table_allocations pa 4096 of (frame, pa1) \<Rightarrow>
        if frame = minus1_64 then Inl Assertion_Failed
        else (case give_frames n pa1 of
                Inl e \<Rightarrow> Inl e
              | Inr (frames, pa2) \<Rightarrow> Inr (frame # frames, pa2)))"

fun return_frames :: "nat \<Rightarrow> phys_alloc \<Rightarrow> phys_alloc" where
  "return_frames 0 pa = pa"
| "return_frames (Suc n) pa = return_frames n (handle_page_table_deallocations pa 4096)"

definition allocate_page_table_frames ::
  "phys_alloc \<Rightarrow> radix \<Rightarrow> u64 \<Rightarrow> u64 \<Rightarrow> nat \<Rightarrow> nat \<Rightarrow> (u64 list \<times> phys_alloc \<times> radix) outcome" where
  "allocate_page_table_frames pa rx address ppn page_size num_requested_frames =
     (case give_frames num_requested_frames pa of
        Inl e \<Rightarrow> Inl e
      | Inr (frames, pa1) \<Rightarrow>
          (case updatePageTableFrames rx address ppn page_size frames of
             Inl e \<Rightarrow> Inl e
           | Inr (frames_used, rx1) \<Rightarrow>
               Inr (frames, return_frames (num_requested_frames - frames_used) pa1, rx1)))"

definition handle_page_fault ::
  "('a \<Rightarrow> u64 \<Rightarrow> u64 \<Rightarrow> ((u64 \<times> u64) \<times> 'a) outcome) \<Rightarrow> 'a mimic_os \<Rightarrow> u64 \<Rightarrow> nat \<Rightarrow> ((u64 \<times> u64) \<times> 'a mimic_os) outcome" where
  "handle_page_fault alloc os vpn metadata_frames =
     (case alloc (os_allocator os) 4096 (mul64 vpn 4096) of
        Inl e \<Rightarrow> Inl e
      | Inr ((ppn, page_size), al) \<Rightarrow>
          (case allocate_page_table_frames (os_phys os) (os_page_table os) (mul64 vpn 4096) ppn page_size metadata_frames of
             Inl e \<Rightarrow> Inl e
           | Inr (frames, pa, rx) \<Rightarrow>
               Inr ((ppn, page_size), \<lparr>os_allocator = al, os_phys = pa, os_page_table = rx\<rparr>)))"

section \<open>Page-table frames\<close>

lemma give_frames_ok:
  assumes "kernel_start_address pa + n * 4096 < 2 ^ 64"
  shows "\<exists>frames. give_frames n pa = Inr (frames, pa\<lparr>kernel_start_address := kernel_start_address pa + n * 4096\<rparr>) \<and>
    length frames = n \<and> frames = map (\<lambda>i. kernel_start_address pa div 4096 + i) [0..<n]"
  using assms
proof (induction n arbitrary: pa)
  case (Suc n)
  let ?k = "kernel_start_address pa"
  let ?pa = "pa\<lparr>kernel_start_address := ?k + 4096\<rparr>"
  have lt: "?k + 4096 + n * 4096 < 2 ^ 64" using Suc.prems by simp
  then have h: "handle_page_table_allocations pa 4096 = (?k div 4096, ?pa)"
    by (simp add: handle_page_table_allocations_def add64_exact)
  have ne: "?k div 4096 \<noteq> minus1_64" unfolding minus1_64_def using lt by linarith
  from Suc.IH [of ?pa] lt obtain frames where
    IH: "give_frames n ?pa = Inr (frames, pa\<lparr>kernel_start_address := ?k + 4096 + n * 4096\<rparr>)"
    "frames = map (\<lambda>i. (?k + 4096) div 4096 + i) [0..<n]" by auto
  have "map (\<lambda>i. ?k div 4096 + i) [0..<Suc n] = ?k div 4096 # frames"
    by (simp add: IH(2) upt_conv_Cons map_Suc_upt [symmetric] del: upt_Suc)
  with h ne IH show ?case by (simp add: add.assoc)
qed simp

lemma return_frames_ok:
  assumes "n * 4096 \<le> kernel_start_address pa" "kernel_start_address pa < 2 ^ 64"
  shows "return_frames n pa = pa\<lparr>kernel_start_address := kernel_start_address pa - n * 4096\<rparr>"
  using assms
proof (induction n arbitrary: pa)
  case (Suc n)
  let ?k = "kernel_start_address pa"
  have "handle_page_table_deallocations pa 4096 = pa\<lparr>kernel_start_address := ?k - 4096\<rparr>"
    using Suc.prems by (simp add: handle_page_table_deallocations_def sub64_exact)
  with Suc.IH [of "pa\<lparr>kernel_start_address := ?k - 4096\<rparr>"] Suc.prems show ?case by simp
qed simp

section \<open>Large pages in the radix table\<close>

lemma frame_wf_clear2: "frame_wf l f \<Longrightarrow> 2 \<le> l \<Longrightarrow> clear_path levels a 2 l f"
proof (induction l arbitrary: f)
  case (Suc l)
  note e = frame_wf_entry [OF Suc.prems(1) refl, of levels "Suc l" a]
  show ?case
  proof (cases "Suc l = 2")
    case False
    then have "2 \<le> l" using Suc.prems(2) by simp
    with e Suc.IH show ?thesis
      by (cases "pt_entries f ! pt_index levels (Suc l) a") (auto simp: cur_wf_def split: option.splits)
  qed simp
qed simp

lemma missing_mono: "missing levels a 2 l f \<le> missing levels a 1 l f"
  by (induction l arbitrary: f) (auto split: pt_entry.splits option.splits)

lemma rx_clear_large: "radix_wf rx \<Longrightarrow> rx_clear rx a 21"
  using frame_wf_clear2 [of 4 "rx_root rx" 4 a] by (simp add: rx_clear_def radix_wf_def leaf_level_def)

lemma rx_missing_large: "rx_missing rx a 21 \<le> rx_missing rx a 12"
  using missing_mono [of 4 a 4 "rx_root rx"] by (simp add: rx_missing_def leaf_level_def)

lemma allocate_page_table_frames_ok:
  assumes wf: "radix_wf rx" and a: "a < 2 ^ 48" and bits: "bits = 12 \<or> bits = 21" and ppn: "ppn \<noteq> minus1_64"
    and cl: "rx_clear rx a 12" and n: "rx_missing rx a 12 \<le> n" and k: "kernel_start_address pa + n * 4096 < 2 ^ 64"
  obtains frames rx' where "allocate_page_table_frames pa rx a ppn bits n =
      Inr (frames, pa\<lparr>kernel_start_address := kernel_start_address pa + rx_missing rx a bits * 4096\<rparr>, rx')"
    "radix_wf rx'" "\<forall>b < 2 ^ 48. rx_translate rx' b =
       (if b div 2 ^ bits = a div 2 ^ bits then Some (bits, ppn) else rx_translate rx b)"
proof -
  have cl': "rx_clear rx a bits" and n': "rx_missing rx a bits \<le> n"
    using bits cl n rx_clear_large [OF wf] rx_missing_large [of rx a] by auto
  from give_frames_ok [OF k] obtain frames where
    g: "give_frames n pa = Inr (frames, pa\<lparr>kernel_start_address := kernel_start_address pa + n * 4096\<rparr>)"
    "length frames = n" by blast
  from update_ok [OF wf a bits ppn cl', of frames] n' g(2) obtain rx' where
    u: "updatePageTableFrames rx a ppn bits frames = Inr (rx_missing rx a bits, rx')" "radix_wf rx'"
    "\<forall>b < 2 ^ 48. rx_translate rx' b =
       (if b div 2 ^ bits = a div 2 ^ bits then Some (bits, ppn) else rx_translate rx b)" by auto
  let ?m = "rx_missing rx a bits"
  have "kernel_start_address pa + n * 4096 - (n - ?m) * 4096 = kernel_start_address pa + ?m * 4096"
    using n' by (simp add: diff_mult_distrib)
  then have "return_frames (n - ?m) (pa\<lparr>kernel_start_address := kernel_start_address pa + n * 4096\<rparr>) =
      pa\<lparr>kernel_start_address := kernel_start_address pa + ?m * 4096\<rparr>"
    using return_frames_ok [of "n - ?m" "pa\<lparr>kernel_start_address := kernel_start_address pa + n * 4096\<rparr>"] k
    by (simp add: trans_le_add2)
  with g(1) u that show ?thesis by (simp add: allocate_page_table_frames_def)
qed

section \<open>What the handler relies on\<close>

text \<open>The 4KB frame behind an address: large pages are indexed by the offset in the region.\<close>

definition page_frame :: "u64 \<Rightarrow> nat \<times> u64 \<Rightarrow> u64" where
  "page_frame b t = (case t of (bits, p) \<Rightarrow> if bits = 21 then p + va_offset b else p)"

definition rx_phys :: "radix \<Rightarrow> u64 \<Rightarrow> u64 option" where
  "rx_phys rx b = map_option (page_frame b) (rx_translate rx b)"

text \<open>Every page with an assigned frame is mapped to it.\<close>

definition os_consistent :: "('a \<Rightarrow> u64 \<Rightarrow> u64 option) \<Rightarrow> 'a mimic_os \<Rightarrow> bool" where
  "os_consistent frame os \<longleftrightarrow>
     (\<forall>b f. b < 2 ^ 48 \<longrightarrow> frame (os_allocator os) b = Some f \<longrightarrow> rx_phys (os_page_table os) b = Some f)"

text \<open>
  \<open>frame\<close> is the assignment of frames to pages the allocator remembers; \<open>regular\<close>
  singles out the steps for which it gives its guarantees.
\<close>

locale fault_allocator =
  fixes inv :: "'a \<Rightarrow> bool" and frame :: "'a \<Rightarrow> u64 \<Rightarrow> u64 option"
    and alloc :: "'a \<Rightarrow> u64 \<Rightarrow> u64 \<Rightarrow> ((u64 \<times> u64) \<times> 'a) outcome" and regular :: "'a \<Rightarrow> 'a \<Rightarrow> bool"
  assumes alloc_inv: "inv s \<Longrightarrow> alloc s 4096 a = Inr ((p, bits), s') \<Longrightarrow> regular s s' \<Longrightarrow> inv s'"
    and alloc_result: "inv s \<Longrightarrow> alloc s 4096 a = Inr ((p, bits), s') \<Longrightarrow> regular s s' \<Longrightarrow>
      (bits = 12 \<or> bits = 21) \<and> p \<noteq> minus1_64"
    and alloc_stable: "inv s \<Longrightarrow> alloc s 4096 a = Inr ((p, bits), s') \<Longrightarrow> regular s s' \<Longrightarrow>
      frame s b = Some f \<Longrightarrow> frame s' b = Some f"
    and alloc_frame: "inv s \<Longrightarrow> alloc s 4096 a = Inr ((p, bits), s') \<Longrightarrow> regular s s' \<Longrightarrow>
      frame s' b = Some f \<Longrightarrow>
      (if b div 2 ^ bits = a div 2 ^ bits then f = page_frame b (bits, p) else frame s b = Some f)"
begin

lemma fault_ok:
  assumes inv: "inv (os_allocator os)" and wf: "radix_wf (os_page_table os)" and con: "os_consistent frame os"
    and a: "vpn * 4096 < 2 ^ 48" and cl: "rx_clear (os_page_table os) (vpn * 4096) 12"
    and n: "rx_missing (os_page_table os) (vpn * 4096) 12 \<le> n"
    and k: "kernel_start_address (os_phys os) + n * 4096 < 2 ^ 64"
    and al: "alloc (os_allocator os) 4096 (vpn * 4096) = Inr ((p, bits), al)" "regular (os_allocator os) al"
  shows "\<exists>os'. handle_page_fault alloc os vpn n = Inr ((p, bits), os') \<and> os_allocator os' = al \<and> inv al \<and>
    radix_wf (os_page_table os') \<and> os_consistent frame os' \<and>
    rx_translate (os_page_table os') (vpn * 4096) = Some (bits, p) \<and>
    kernel_start_address (os_phys os') =
      kernel_start_address (os_phys os) + rx_missing (os_page_table os) (vpn * 4096) bits * 4096"
proof -
  let ?a = "vpn * 4096" and ?rx = "os_page_table os"
  have va: "mul64 vpn 4096 = ?a" by (rule mul64_exact, rule less_trans [OF a]) simp
  note res = alloc_result [OF inv al]
  obtain frames rx' where u: "allocate_page_table_frames (os_phys os) ?rx ?a p bits n =
      Inr (frames, (os_phys os)\<lparr>kernel_start_address := kernel_start_address (os_phys os) + rx_missing ?rx ?a bits * 4096\<rparr>, rx')"
    "radix_wf rx'" "\<forall>b < 2 ^ 48. rx_translate rx' b =
       (if b div 2 ^ bits = ?a div 2 ^ bits then Some (bits, p) else rx_translate ?rx b)"
    using allocate_page_table_frames_ok [OF wf a _ _ cl n k, of bits p] res by blast
  let ?pa = "(os_phys os)\<lparr>kernel_start_address := kernel_start_address (os_phys os) + rx_missing ?rx ?a bits * 4096\<rparr>"
  let ?os = "\<lparr>os_allocator = al, os_phys = ?pa, os_page_table = rx'\<rparr>"
  have "handle_page_fault alloc os vpn n = Inr ((p, bits), ?os)"
    using al(1) u(1) by (simp add: handle_page_fault_def va)
  moreover have "os_consistent frame ?os"
    unfolding os_consistent_def
  proof (intro allI impI)
    fix b f assume b: "b < 2 ^ 48" and f: "frame (os_allocator ?os) b = Some f"
    have fr: "if b div 2 ^ bits = ?a div 2 ^ bits then f = page_frame b (bits, p) else frame (os_allocator os) b = Some f"
      using alloc_frame [OF inv al, of b f] f by simp
    show "rx_phys (os_page_table ?os) b = Some f"
    proof (cases "b div 2 ^ bits = ?a div 2 ^ bits")
      case True
      with fr u(3) b show ?thesis by (simp add: rx_phys_def)
    next
      case False
      with fr have "rx_phys ?rx b = Some f" using con b unfolding os_consistent_def by auto
      with False u(3) b show ?thesis by (simp add: rx_phys_def)
    qed
  qed
  ultimately show ?thesis using u a alloc_inv [OF inv al] by auto
qed

lemma fault_keeps_frames:
  assumes "inv (os_allocator os)" "os_consistent frame os" "os_consistent frame os'" "os_allocator os' = al"
    and "alloc (os_allocator os) 4096 a = Inr ((p, bits), al)" "regular (os_allocator os) al"
    and "b < 2 ^ 48" "frame (os_allocator os) b = Some f"
  shows "rx_phys (os_page_table os) b = Some f \<and> rx_phys (os_page_table os') b = Some f"
  using assms alloc_stable [OF assms(1,5,6,8)] unfolding os_consistent_def by blast

end

section \<open>The reservation allocator behind the handler\<close>

definition no_demotion :: "reserve_thp \<Rightarrow> reserve_thp \<Rightarrow> bool" where
  "no_demotion rt rt' \<longleftrightarrow> two_mb_demoted rt' = two_mb_demoted rt"

definition thp_data_alloc ::
  "((u64 \<times> nat) list \<Rightarrow> u64 \<times> nat) \<Rightarrow> reserve_thp \<Rightarrow> u64 \<Rightarrow> u64 \<Rightarrow> ((u64 \<times> u64) \<times> reserve_thp) outcome" where
  "thp_data_alloc pick rt sz a = thp_allocate pick rt sz a False"

lemma va_div: "a div 2 ^ 21 = va_region a" "(a div 4096 = b div 4096) = (va_region a = va_region b \<and> va_offset a = va_offset b)"
  by (simp add: va_region_def) (rule va_page_eq_iff)

text \<open>The frames after a grant: those of before and the page itself, all at the base of the region.\<close>

lemma region_grant_new_frames:
  assumes g: "region_grant rt rt' a page pr r r'" and f: "thp_frame rt' b = Some f"
  shows "va_region b = va_region a \<Longrightarrow> f = region_begin r + va_offset b"
    "\<not> (va_region b = va_region a \<and> va_offset b = va_offset a) \<Longrightarrow> thp_frame rt b = Some f"
proof -
  from g have m: "map_of (two_mb_map rt') = (map_of (two_mb_map rt))(va_region a \<mapsto> r')"
    and r': "region_bits r' = insert (va_offset a) (region_bits r)" "region_begin r' = region_begin r"
    and old: "map_of (two_mb_map rt) (va_region a) = Some r \<or>
      map_of (two_mb_map rt) (va_region a) = None \<and> region_bits r = {}"
    by (auto simp: region_grant_def)
  show "va_region b = va_region a \<Longrightarrow> f = region_begin r + va_offset b"
    using f by (auto simp: thp_frame_def m r' split: if_splits)
  show "\<not> (va_region b = va_region a \<and> va_offset b = va_offset a) \<Longrightarrow> thp_frame rt b = Some f"
    using f old by (auto simp: thp_frame_def m r' split: if_splits option.splits)
qed

lemma thp_data_alloc_frames:
  assumes inv: "thp_inv rt" and a: "thp_data_alloc pick rt 4096 a = Inr ((p, bits), rt')" and nd: "no_demotion rt rt'"
  shows "(bits = 12 \<or> bits = 21) \<and> p \<noteq> minus1_64 \<and>
    (\<forall>b f. thp_frame rt' b = Some f \<longrightarrow>
       (if b div 2 ^ bits = a div 2 ^ bits then f = page_frame b (bits, p) else thp_frame rt b = Some f))"
proof -
  let ?rt = "rt\<lparr>total_allocations := add64 (total_allocations rt) 1\<rparr>"
  have same: "thp_frame ?rt = thp_frame rt" by (rule thp_frame_cong) simp
  note A = a [unfolded thp_data_alloc_def]
  from A obtain q pr rt1 where c: "checkFor2MBAllocation ?rt a = Inr ((q, pr), rt1)"
    by (auto simp: thp_allocate_def Let_def split: sum.splits)
  have inv0: "thp_inv ?rt" using inv by simp
  note C = checkFor2MB_ok [OF inv0 c]
  show ?thesis
  proof (cases "q = minus1_64")
    case False
    then have r: "p = q" "bits = (if pr then 21 else 12)" "rt' = rt1"
      using A c by (auto simp: thp_allocate_def Let_def)
    from C False obtain r r' where g: "region_grant ?rt rt1 a q pr r r'" by auto
    then have q: "q = (if pr then region_begin r else region_begin r + va_offset a)"
      by (simp add: region_grant_def)
    have "if b div 2 ^ bits = a div 2 ^ bits then f = page_frame b (bits, p) else thp_frame rt b = Some f"
      if "thp_frame rt' b = Some f" for b f
      using region_grant_new_frames [OF g, of b f, unfolded same] that r q va_div
      by (cases pr) (auto simp: page_frame_def)
    moreover have "(bits = 12 \<or> bits = 21) \<and> p \<noteq> minus1_64" using r False by simp
    ultimately show ?thesis by blast
  next
    case True
    from C True have rt1: "rt1 = ?rt" and nomap: "map_of (two_mb_map rt) (va_region a) = None" by simp_all
    note R = thp_allocate_data_ok [OF inv A nd [unfolded no_demotion_def]]
    have none: "thp_frame rt b = None" if "va_region b = va_region a" for b
      using nomap that by (simp add: thp_frame_def)
    have "\<exists>q2 rt2. thp_buddy_allocate ?rt 4096 = Inr (q2, rt2)"
      using A c True rt1 by (auto simp: thp_allocate_def Let_def split: sum.splits)
    then obtain q2 rt2 where b2: "thp_buddy_allocate ?rt 4096 = Inr (q2, rt2)" by blast
    note B = thp_buddy_allocate_ok [OF inv0 b2]
    have q2: "q2 \<noteq> minus1_64"
    proof
      assume q2: "q2 = minus1_64"
      then have "rt2 = ?rt" using B by simp
      with A c True b2 q2 obtain rt3 where d: "demote_page pick ?rt = Inr (True, rt3)"
        and "two_mb_demoted rt' = two_mb_demoted rt3"
        by (auto simp: thp_allocate_def Let_def rt1 thp_buddy_allocate_def split: sum.splits bool.splits)
      with nd demote_page_counts [OF d] add64_1_neq [of "two_mb_demoted rt"] show False
        by (simp add: no_demotion_def)
    qed
    then have r: "p = q2" "bits = 12" "rt' = rt2\<lparr>four_kb_allocated := add64 (four_kb_allocated rt2) 1\<rparr>"
      using A c True b2 by (auto simp: thp_allocate_def Let_def rt1)
    have "thp_frame rt' = thp_frame rt" using B r by (intro thp_frame_cong) simp
    with r q2 none va_div(2) [of _ a] show ?thesis by auto
  qed
qed

interpretation thp: fault_allocator thp_inv thp_frame "thp_data_alloc pick" no_demotion for pick
proof unfold_locales
  fix s a p bits s' b f
  assume h: "thp_inv s" "thp_data_alloc pick s 4096 a = Inr ((p, bits), s')" "no_demotion s s'"
  note R = thp_allocate_data_ok [OF h(1) h(2) [unfolded thp_data_alloc_def] h(3) [unfolded no_demotion_def]]
  note F = thp_data_alloc_frames [OF h]
  show "thp_inv s'" using R by blast
  show "(bits = 12 \<or> bits = 21) \<and> p \<noteq> minus1_64" using F by blast
  show "thp_frame s' b = Some f" if "thp_frame s b = Some f" using R that by blast
  show "if b div 2 ^ bits = a div 2 ^ bits then f = page_frame b (bits, p) else thp_frame s b = Some f"
    if "thp_frame s' b = Some f" using F that by blast
qed

section \<open>The baseline allocator behind the handler\<close>

text \<open>
  The baseline allocator remembers no assignment, and reports exhaustion as the
  page number \<open>-1\<close>; a step that takes pages is regular.
\<close>

definition baseline_data_alloc :: "baseline \<Rightarrow> u64 \<Rightarrow> u64 \<Rightarrow> ((u64 \<times> u64) \<times> baseline) outcome" where
  "baseline_data_alloc bl sz a = baseline_allocate bl sz False False"

definition took_pages :: "baseline \<Rightarrow> baseline \<Rightarrow> bool" where
  "took_pages bl bl' \<longleftrightarrow> bl_buddy bl' \<noteq> bl_buddy bl"

interpretation bl: fault_allocator "\<lambda>bl. buddy_inv (bl_buddy bl)" "\<lambda>bl b. None" baseline_data_alloc took_pages
proof unfold_locales
  fix s a p bits s'
  assume inv: "buddy_inv (bl_buddy s)" and al: "baseline_data_alloc s 4096 a = Inr ((p, bits), s')"
    and t: "took_pages s s'"
  from al obtain bd where bd: "allocate (bl_buddy s) 4096 = Inr (p, bd)" "bl_buddy s' = bd" "bits = 12"
    by (auto simp: baseline_data_alloc_def baseline_allocate_def Let_def split: sum.splits)
  have p: "p \<noteq> minus1_64"
    using allocate_fail_same [OF inv] bd t by (auto simp: took_pages_def)
  from allocate_outcomes [OF inv bd(1) p] bd show "buddy_inv (bl_buddy s')" by simp
  show "(bits = 12 \<or> bits = 21) \<and> p \<noteq> minus1_64" using p bd by simp
qed simp_all

section \<open>Properties\<close>

text \<open>
  C33: a page fault under the reservation allocator that demotes nothing completes
  whenever the allocator serves the request and the walk's frame count is passed
  on: the page is mapped with the size and page number the allocator chose, exactly
  the missing page-table frames are kept from the bump allocator, and every page
  with an assigned frame is mapped to that frame, also after a promotion.
\<close>

theorem thp_page_fault_correct:
  assumes "thp_inv (os_allocator os)" "radix_wf (os_page_table os)" "os_consistent thp_frame os"
    and "vpn * 4096 < 2 ^ 48" "rx_clear (os_page_table os) (vpn * 4096) 12"
    and "rx_missing (os_page_table os) (vpn * 4096) 12 \<le> n"
    and "kernel_start_address (os_phys os) + n * 4096 < 2 ^ 64"
    and "thp_data_alloc pick (os_allocator os) 4096 (vpn * 4096) = Inr ((p, bits), al)"
    and "no_demotion (os_allocator os) al"
  shows "\<exists>os'. handle_page_fault (thp_data_alloc pick) os vpn n = Inr ((p, bits), os') \<and>
    os_allocator os' = al \<and> thp_inv al \<and> radix_wf (os_page_table os') \<and> os_consistent thp_frame os' \<and>
    rx_translate (os_page_table os') (vpn * 4096) = Some (bits, p) \<and>
    kernel_start_address (os_phys os') =
      kernel_start_address (os_phys os) + rx_missing (os_page_table os) (vpn * 4096) bits * 4096"
  by (rule thp.fault_ok [OF assms])

definition small_os :: "reserve_thp mimic_os" where
  "small_os = \<lparr>os_allocator = thp_fresh, os_phys = phys_alloc_new 4 2, os_page_table = radix_new [12, 21] 4 512\<rparr>"

lemma thp_fresh_frame: "thp_frame thp_fresh b = None"
  by (simp add: thp_frame_def thp_fresh_def reserve_thp_new_def)

theorem thp_page_fault_correct_witness:
  "\<exists>os'. handle_page_fault (thp_data_alloc hd) small_os 1 3 = Inr ((513, 12), os') \<and>
    os_allocator os' = thp_one_page \<and> thp_inv thp_one_page \<and> radix_wf (os_page_table os') \<and>
    os_consistent thp_frame os' \<and> rx_translate (os_page_table os') (1 * 4096) = Some (12, 513) \<and>
    kernel_start_address (os_phys os') =
      kernel_start_address (os_phys small_os) + rx_missing (os_page_table small_os) (1 * 4096) 12 * 4096"
proof (rule thp_page_fault_correct)
  show "thp_inv (os_allocator small_os)"
    unfolding small_os_def thp_fresh_def by (simp add: reserve_thp_new_inv)
  show "radix_wf (os_page_table small_os)" by (simp add: small_os_def radix_new_wf)
  show "os_consistent thp_frame small_os" by (simp add: os_consistent_def small_os_def thp_fresh_frame)
  show "rx_clear (os_page_table small_os) (1 * 4096) 12" by (simp add: small_os_def radix_new_clear)
  show "rx_missing (os_page_table small_os) (1 * 4096) 12 \<le> 3"
    using radix_new_clear(2) [of "1 * 4096" 12] by (simp add: small_os_def)
  show "kernel_start_address (os_phys small_os) + 3 * 4096 < 2 ^ 64"
    by (simp add: small_os_def phys_alloc_new_def Let_def)
  show "thp_data_alloc hd (os_allocator small_os) 4096 (1 * 4096) = Inr ((513, 12), thp_one_page)"
    using thp_fresh_step [of hd] by (simp add: thp_data_alloc_def small_os_def)
  show "no_demotion (os_allocator small_os) thp_one_page"
    by (simp add: no_demotion_def small_os_def thp_one_page_def)
qed simp

text \<open>
  the physical address behind a mapped page never changes through such a
  fault: a page with an assigned frame is mapped to the same frame before and after,
  whether the fault maps a single page or promotes the whole region.
\<close>

lemma thp_fault_keeps_frames:
  assumes "thp_inv (os_allocator os)" "radix_wf (os_page_table os)" "os_consistent thp_frame os"
    and "vpn * 4096 < 2 ^ 48" "rx_clear (os_page_table os) (vpn * 4096) 12"
    and "rx_missing (os_page_table os) (vpn * 4096) 12 \<le> n"
    and "kernel_start_address (os_phys os) + n * 4096 < 2 ^ 64"
    and "handle_page_fault (thp_data_alloc pick) os vpn n = Inr (res, os')"
    and "no_demotion (os_allocator os) (os_allocator os')"
    and "b < 2 ^ 48" "thp_frame (os_allocator os) b = Some f"
  shows "rx_phys (os_page_table os) b = Some f \<and> rx_phys (os_page_table os') b = Some f"
proof -
  have va: "mul64 vpn 4096 = vpn * 4096" by (rule mul64_exact, rule less_trans [OF assms(4)]) simp
  from assms(8) obtain p bits al where al: "thp_data_alloc pick (os_allocator os) 4096 (vpn * 4096) = Inr ((p, bits), al)"
    "os_allocator os' = al"
    by (auto simp: handle_page_fault_def va split: sum.splits)
  from thp.fault_ok [OF assms(1-7) al(1)] assms(8,9) al(2)
  have "os_consistent thp_frame os'" by auto
  from thp.fault_keeps_frames [OF assms(1,3) this al(2,1) _ assms(10,11)] assms(9) al(2) show ?thesis by simp
qed

lemma lookup_small_clear:
  "pt_lookup levels a l f = Some (0, p) \<Longrightarrow> clear_path levels a 1 l f \<and> missing levels a 1 l f = 0"
proof (induction l arbitrary: f)
  case (Suc l)
  show ?case
  proof (cases "pt_entries f ! pt_index levels (Suc l) a")
    case (Translation valid q)
    with Suc.prems show ?thesis by (simp split: if_splits)
  next
    case (Pointer nxt)
    with Suc.prems Suc.IH show ?thesis by (cases nxt) auto
  qed
qed simp

lemma thp_one_page_again:
  "thp_data_alloc hd thp_one_page 4096 4096 = Inr ((513, 12), thp_one_page\<lparr>total_allocations := 2\<rparr>)"
proof -
  have "513 \<noteq> minus1_64" by (simp add: minus1_64_def)
  moreover have "thp_one_page\<lparr>total_allocations := 2, two_mb_map := [(0, \<lparr>region_begin = 512, region_bits = {1}, region_promoted = False\<rparr>)]\<rparr> =
      thp_one_page\<lparr>total_allocations := 2\<rparr>" by (simp add: thp_one_page_def)
  ultimately show ?thesis
    by (simp add: thp_data_alloc_def thp_allocate_def checkFor2MBAllocation_def use_region_def utilization_def
        Let_def add64_def thp_one_page_def thp_fresh_def reserve_thp_new_def)
qed

lemma one_page_radix:
  obtains rx where "radix_wf rx" "rx_clear rx (1 * 4096) 12" "rx_missing rx (1 * 4096) 12 \<le> 0"
    "\<forall>b < 2 ^ 48. rx_translate rx b = (if b div 2 ^ 12 = 4096 div 2 ^ 12 then Some (12, 513) else None)"
proof -
  let ?rx = "radix_new [12, 21] 4 512"
  have "\<exists>rx. radix_wf rx \<and> (\<forall>b < 2 ^ 48. rx_translate rx b =
      (if b div 2 ^ 12 = 4096 div 2 ^ 12 then Some (12, 513) else rx_translate ?rx b))"
    using update_ok [OF radix_new_wf(1) _ _ _ radix_new_clear, of 4096 12 513] by (auto simp: minus1_64_def)
  then obtain rx where rx: "radix_wf rx" "\<forall>b < 2 ^ 48. rx_translate rx b =
      (if b div 2 ^ 12 = 4096 div 2 ^ 12 then Some (12, 513) else None)"
    by (auto simp: radix_new_wf(2))
  then have "rx_translate rx 4096 = Some (12, 513)" by simp
  then obtain k where k: "pt_lookup 4 4096 4 (rx_root rx) = Some (k, 513)" "[12, 21] ! k = (12::nat)"
    by (auto simp: rx_translate_def)
  have "k = 0" using k(2) pt_lookup_leaf [OF _ k(1)] rx(1) by (auto simp: radix_wf_def le_Suc_eq)
  then have "rx_clear rx (1 * 4096) 12" "rx_missing rx (1 * 4096) 12 \<le> 0"
    using lookup_small_clear [of 4 4096 4 "rx_root rx" 513] k(1)
    by (simp_all add: rx_clear_def rx_missing_def leaf_level_def)
  then show ?thesis using that rx by blast
qed

end
