(* ===== verification/HugeTLBfs.thy ===== *)
theory HugeTLBfs
  imports Buddy_Machine
begin

text \<open>
  The pool of pre-allocated huge pages (\<open>hugetlbfs.h\<close>): two vectors of page
  descriptors, counters of free pages, per-application usage maps and statistics.
  The theory shows that the counters are exact in every reachable state, that
  huge pages in use never overlap, and that the service is a page source in the
  sense of the locale \<open>page_source\<close>. The usage maps are functions, since nothing
  depends on the order of an \<open>unordered_map\<close> here.
\<close>

section \<open>State\<close>

datatype HugePageSize = SIZE_2MB | SIZE_1GB

record HugePageInfo =
  base_ppn :: u64
  app_id :: int
  hp_vaddr :: u64
  hp_size :: HugePageSize
  in_use :: bool

record HugeTLBfsConfig =
  cfg_enabled :: bool
  cfg_nr_hugepages_2mb :: u64
  cfg_nr_hugepages_1gb :: u64
  cfg_overcommit :: bool
  cfg_pool_base_ppn :: u64

record hugetlbfs =
  ht_enabled :: bool
  pool_2mb :: "HugePageInfo list"
  nr_hugepages_2mb :: u64
  free_hugepages_2mb :: u64
  pool_1gb :: "HugePageInfo list"
  nr_hugepages_1gb :: u64
  free_hugepages_1gb :: u64
  overcommit :: bool
  app_usage_2mb :: "int \<rightharpoonup> u64"
  app_usage_1gb :: "int \<rightharpoonup> u64"
  pool_base_ppn :: u64
  allocations_2mb :: u64
  allocations_1gb :: u64
  deallocations_2mb :: u64
  deallocations_1gb :: u64
  allocation_failures :: u64
  pool_exhausted_events :: u64

text \<open>\<open>HUGEPAGE_2MB_PAGES\<close> and \<open>HUGEPAGE_1GB_PAGES\<close>.\<close>

definition hugepage_pages :: "HugePageSize \<Rightarrow> nat" where
  "hugepage_pages sz = (case sz of SIZE_2MB \<Rightarrow> 512 | SIZE_1GB \<Rightarrow> 262144)"

section \<open>Construction\<close>

text \<open>One of the two loops of \<open>initializePool\<close>: \<open>n\<close> descriptors from \<open>current_ppn\<close> on.\<close>

fun init_loop :: "HugePageSize \<Rightarrow> nat \<Rightarrow> u64 \<Rightarrow> HugePageInfo list \<times> u64" where
  "init_loop sz 0 current_ppn = ([], current_ppn)"
| "init_loop sz (Suc n) current_ppn =
     (case init_loop sz n (add64 current_ppn (hugepage_pages sz)) of (ps, ppn') \<Rightarrow>
        (\<lparr>base_ppn = current_ppn, app_id = -1, hp_vaddr = 0, hp_size = sz, in_use = False\<rparr> # ps, ppn'))"

definition initializePool :: "hugetlbfs \<Rightarrow> hugetlbfs" where
  "initializePool ht =
     (case init_loop SIZE_2MB (nr_hugepages_2mb ht) (pool_base_ppn ht) of (ps, ppn) \<Rightarrow>
      case init_loop SIZE_1GB (nr_hugepages_1gb ht) ppn of (qs, ppn') \<Rightarrow>
        ht\<lparr>pool_2mb := ps, free_hugepages_2mb := nr_hugepages_2mb ht,
           pool_1gb := qs, free_hugepages_1gb := nr_hugepages_1gb ht\<rparr>)"

definition hugetlbfs_new :: "HugeTLBfsConfig \<Rightarrow> hugetlbfs" where
  "hugetlbfs_new cfg =
     (let ht = \<lparr> ht_enabled = cfg_enabled cfg,
         pool_2mb = [], nr_hugepages_2mb = cfg_nr_hugepages_2mb cfg, free_hugepages_2mb = 0,
         pool_1gb = [], nr_hugepages_1gb = cfg_nr_hugepages_1gb cfg, free_hugepages_1gb = 0,
         overcommit = cfg_overcommit cfg, app_usage_2mb = Map.empty, app_usage_1gb = Map.empty,
         pool_base_ppn = cfg_pool_base_ppn cfg,
         allocations_2mb = 0, allocations_1gb = 0, deallocations_2mb = 0, deallocations_1gb = 0,
         allocation_failures = 0, pool_exhausted_events = 0 \<rparr>
      in if \<not> cfg_enabled cfg then ht else initializePool ht)"

section \<open>Operations\<close>

definition pool :: "HugePageSize \<Rightarrow> hugetlbfs \<Rightarrow> HugePageInfo list" where
  "pool sz ht = (case sz of SIZE_2MB \<Rightarrow> pool_2mb ht | SIZE_1GB \<Rightarrow> pool_1gb ht)"

definition set_pool :: "HugePageSize \<Rightarrow> HugePageInfo list \<Rightarrow> hugetlbfs \<Rightarrow> hugetlbfs" where
  "set_pool sz ps ht = (case sz of SIZE_2MB \<Rightarrow> ht\<lparr>pool_2mb := ps\<rparr> | SIZE_1GB \<Rightarrow> ht\<lparr>pool_1gb := ps\<rparr>)"

text \<open>The index is converted to \<open>int\<close>; \<open>-1\<close> stands for no free page.\<close>

definition findFreeHugePage :: "hugetlbfs \<Rightarrow> HugePageSize \<Rightarrow> int" where
  "findFreeHugePage ht sz =
     (case find_index (\<lambda>p. \<not> in_use p) (pool sz ht) of Some i \<Rightarrow> to_int32 i | None \<Rightarrow> -1)"

text \<open>\<open>m[app_id]++\<close> on an \<open>unordered_map\<close>: a missing entry counts as zero.\<close>

definition usage_inc :: "int \<Rightarrow> (int \<rightharpoonup> u64) \<Rightarrow> int \<rightharpoonup> u64" where
  "usage_inc a m = m(a \<mapsto> add64 (case m a of Some n \<Rightarrow> n | None \<Rightarrow> 0) 1)"

definition usage_dec :: "int \<Rightarrow> (int \<rightharpoonup> u64) \<Rightarrow> int \<rightharpoonup> u64" where
  "usage_dec a m = (case m a of Some n \<Rightarrow> if 0 < n then m(a \<mapsto> n - 1) else m | None \<Rightarrow> m)"

definition allocateHugePage :: "hugetlbfs \<Rightarrow> int \<Rightarrow> u64 \<Rightarrow> HugePageSize \<Rightarrow> u64 \<times> hugetlbfs" where
  "allocateHugePage ht app va sz =
     (if \<not> ht_enabled ht then (minus1_64, ht)
      else let idx = findFreeHugePage ht sz in
        if idx < 0 then
          (let ht1 = ht\<lparr>allocation_failures := add64 (allocation_failures ht) 1\<rparr> in
           (minus1_64,
            if sz = SIZE_2MB \<and> free_hugepages_2mb ht = 0
            then ht1\<lparr>pool_exhausted_events := add64 (pool_exhausted_events ht) 1\<rparr>
            else if sz = SIZE_1GB \<and> free_hugepages_1gb ht = 0
            then ht1\<lparr>pool_exhausted_events := add64 (pool_exhausted_events ht) 1\<rparr>
            else ht1))
        else
          (let i = nat idx;
               page = (pool sz ht ! i)\<lparr>in_use := True, app_id := app, hp_vaddr := va\<rparr>;
               ht1 = set_pool sz ((pool sz ht)[i := page]) ht
           in (base_ppn page,
               case sz of
                 SIZE_2MB \<Rightarrow> ht1\<lparr>free_hugepages_2mb := sub64 (free_hugepages_2mb ht) 1,
                    app_usage_2mb := usage_inc app (app_usage_2mb ht),
                    allocations_2mb := add64 (allocations_2mb ht) 1\<rparr>
               | SIZE_1GB \<Rightarrow> ht1\<lparr>free_hugepages_1gb := sub64 (free_hugepages_1gb ht) 1,
                    app_usage_1gb := usage_inc app (app_usage_1gb ht),
                    allocations_1gb := add64 (allocations_1gb ht) 1\<rparr>)))"

definition released :: "HugePageInfo \<Rightarrow> HugePageInfo" where
  "released p = p\<lparr>in_use := False, app_id := -1, hp_vaddr := 0\<rparr>"

definition deallocateHugePage :: "hugetlbfs \<Rightarrow> u64 \<Rightarrow> HugePageSize \<Rightarrow> bool \<times> hugetlbfs" where
  "deallocateHugePage ht base sz =
     (if \<not> ht_enabled ht then (False, ht)
      else case find_index (\<lambda>p. base_ppn p = base \<and> in_use p) (pool sz ht) of
             None \<Rightarrow> (False, ht)
           | Some i \<Rightarrow>
               (let app = app_id (pool sz ht ! i);
                    ht1 = set_pool sz ((pool sz ht)[i := released (pool sz ht ! i)]) ht
                in (True,
                    case sz of
                      SIZE_2MB \<Rightarrow> ht1\<lparr>free_hugepages_2mb := add64 (free_hugepages_2mb ht) 1,
                         app_usage_2mb := usage_dec app (app_usage_2mb ht),
                         deallocations_2mb := add64 (deallocations_2mb ht) 1\<rparr>
                    | SIZE_1GB \<Rightarrow> ht1\<lparr>free_hugepages_1gb := add64 (free_hugepages_1gb ht) 1,
                         app_usage_1gb := usage_dec app (app_usage_1gb ht),
                         deallocations_1gb := add64 (deallocations_1gb ht) 1\<rparr>)))"

text \<open>One of the two loops of \<open>deallocateAllForApp\<close>: the pool after it and the number of pages released.\<close>

fun release_loop :: "int \<Rightarrow> HugePageInfo list \<Rightarrow> HugePageInfo list \<times> nat" where
  "release_loop app [] = ([], 0)"
| "release_loop app (p # ps) =
     (case release_loop app ps of (qs, n) \<Rightarrow>
        if in_use p \<and> app_id p = app then (released p # qs, Suc n) else (p # qs, n))"

definition deallocateAllForApp :: "hugetlbfs \<Rightarrow> int \<Rightarrow> int \<times> hugetlbfs" where
  "deallocateAllForApp ht app =
     (if \<not> ht_enabled ht then (0, ht)
      else case release_loop app (pool_2mb ht) of (ps, m) \<Rightarrow>
           case release_loop app (pool_1gb ht) of (qs, n) \<Rightarrow>
             (int (m + n),
              ht\<lparr>pool_2mb := ps, pool_1gb := qs,
                 free_hugepages_2mb := add64 (free_hugepages_2mb ht) m,
                 deallocations_2mb := add64 (deallocations_2mb ht) m,
                 free_hugepages_1gb := add64 (free_hugepages_1gb ht) n,
                 deallocations_1gb := add64 (deallocations_1gb ht) n,
                 app_usage_2mb := (app_usage_2mb ht)(app := None),
                 app_usage_1gb := (app_usage_1gb ht)(app := None)\<rparr>))"

definition getFreeHugePages :: "hugetlbfs \<Rightarrow> HugePageSize \<Rightarrow> u64" where
  "getFreeHugePages ht sz = (case sz of SIZE_2MB \<Rightarrow> free_hugepages_2mb ht | SIZE_1GB \<Rightarrow> free_hugepages_1gb ht)"

definition getTotalHugePages :: "hugetlbfs \<Rightarrow> HugePageSize \<Rightarrow> u64" where
  "getTotalHugePages ht sz = (case sz of SIZE_2MB \<Rightarrow> nr_hugepages_2mb ht | SIZE_1GB \<Rightarrow> nr_hugepages_1gb ht)"

definition getAppHugePages :: "hugetlbfs \<Rightarrow> int \<Rightarrow> HugePageSize \<Rightarrow> u64" where
  "getAppHugePages ht app sz =
     (case sz of
        SIZE_2MB \<Rightarrow> (case app_usage_2mb ht app of Some n \<Rightarrow> n | None \<Rightarrow> 0)
      | SIZE_1GB \<Rightarrow> (case app_usage_1gb ht app of Some n \<Rightarrow> n | None \<Rightarrow> 0))"

section \<open>Invariant\<close>

text \<open>The frames of a huge page, and of the pages of a pool that satisfy a predicate.\<close>

definition hp_frames :: "HugePageInfo \<Rightarrow> nat multiset" where
  "hp_frames p = mset [base_ppn p..<base_ppn p + hugepage_pages (hp_size p)]"

definition frames_where :: "(HugePageInfo \<Rightarrow> bool) \<Rightarrow> HugePageInfo list \<Rightarrow> nat multiset" where
  "frames_where P ps = (\<Sum>p\<leftarrow>filter P ps. hp_frames p)"

definition page_ok :: "HugePageSize \<Rightarrow> HugePageInfo \<Rightarrow> bool" where
  "page_ok sz p \<longleftrightarrow> hp_size p = sz \<and> base_ppn p < minus1_64 \<and>
     (\<not> in_use p \<longrightarrow> app_id p = -1 \<and> hp_vaddr p = 0)"

text \<open>The representation invariant of one pool: its counters are exact.\<close>

definition pool_inv :: "HugePageSize \<Rightarrow> hugetlbfs \<Rightarrow> bool" where
  "pool_inv sz ht \<longleftrightarrow>
     length (pool sz ht) < 2 ^ 31 \<and>
     (\<forall>p \<in> set (pool sz ht). page_ok sz p) \<and>
     getFreeHugePages ht sz = length (filter (\<lambda>p. \<not> in_use p) (pool sz ht)) \<and>
     (\<forall>a. getAppHugePages ht a sz = length (filter (\<lambda>p. in_use p \<and> app_id p = a) (pool sz ht)))"

definition all_frames :: "hugetlbfs \<Rightarrow> nat multiset" where
  "all_frames ht = frames_where (\<lambda>_. True) (pool_2mb ht) + frames_where (\<lambda>_. True) (pool_1gb ht)"

definition free_frames :: "hugetlbfs \<Rightarrow> nat multiset" where
  "free_frames ht = frames_where (\<lambda>p. \<not> in_use p) (pool_2mb ht) + frames_where (\<lambda>p. \<not> in_use p) (pool_1gb ht)"

definition ht_inv :: "hugetlbfs \<Rightarrow> bool" where
  "ht_inv ht \<longleftrightarrow> pool_inv SIZE_2MB ht \<and> pool_inv SIZE_1GB ht \<and> (\<forall>f. count (all_frames ht) f \<le> 1)"

lemmas pool_access = pool_def set_pool_def getFreeHugePages_def getAppHugePages_def

lemma ht_invD: "ht_inv ht \<Longrightarrow> pool_inv sz ht"
  by (cases sz) (simp_all add: ht_inv_def)

lemma ht_invI: "(\<And>sz. pool_inv sz ht) \<Longrightarrow> (\<And>f. count (all_frames ht) f \<le> 1) \<Longrightarrow> ht_inv ht"
  by (simp add: ht_inv_def)

lemma free_frames_le: "free_frames ht \<subseteq># all_frames ht"
proof -
  have "frames_where P ps \<subseteq># frames_where (\<lambda>_. True) ps" for P ps
    by (induction ps) (auto simp: frames_where_def subset_mset.add_mono subset_mset.add_increasing)
  then show ?thesis by (simp add: free_frames_def all_frames_def subset_mset.add_mono)
qed

lemma free_frames_once: "ht_inv ht \<Longrightarrow> count (free_frames ht) f \<le> 1"
  using mset_subset_eq_count [OF free_frames_le, of ht f] by (simp add: ht_inv_def) (meson le_trans)

lemma frames_update:
  "i < length ps \<Longrightarrow>
   frames_where P (ps[i := p]) + (if P (ps ! i) then hp_frames (ps ! i) else {#}) =
   frames_where P ps + (if P p then hp_frames p else {#})"
  unfolding frames_where_def using sum_filter_update [of i ps hp_frames P p] by simp

text \<open>Replacing a descriptor of a pool by one with the same frames.\<close>

lemma all_frames_set_pool:
  assumes "i < length (pool sz ht)" "hp_frames p = hp_frames (pool sz ht ! i)"
  shows "all_frames (set_pool sz ((pool sz ht)[i := p]) ht) = all_frames ht"
  using assms frames_update [of i "pool sz ht" "\<lambda>_. True" p]
  by (cases sz) (simp_all add: pool_access all_frames_def)

lemma free_frames_set_pool:
  assumes "i < length (pool sz ht)"
  shows "free_frames (set_pool sz ((pool sz ht)[i := p]) ht) +
      (if in_use (pool sz ht ! i) then {#} else hp_frames (pool sz ht ! i)) =
    free_frames ht + (if in_use p then {#} else hp_frames p)"
  using assms frames_update [of i "pool sz ht" "\<lambda>p. \<not> in_use p" p]
  by (cases sz; cases "in_use p"; cases "in_use (pool sz ht ! i)")
     (simp_all add: pool_access free_frames_def ac_simps)

section \<open>Construction establishes the invariant\<close>

lemma init_loop_ok:
  assumes "init_loop sz n ppn = (ps, ppn')" "ppn + n * hugepage_pages sz < 2 ^ 64"
  shows "length ps = n \<and> ppn' = ppn + n * hugepage_pages sz \<and>
    (\<forall>p \<in> set ps. \<not> in_use p \<and> page_ok sz p) \<and> frames_where (\<lambda>_. True) ps = mset [ppn..<ppn']"
  using assms
proof (induction n arbitrary: ppn ps)
  case (Suc n)
  let ?s = "hugepage_pages sz"
  have pos: "0 < ?s" by (simp add: hugepage_pages_def split: HugePageSize.splits)
  have lt: "ppn + ?s + n * ?s < 2 ^ 64" using Suc.prems(2) by (simp only: mult_Suc add.assoc)
  then have a: "add64 ppn ?s = ppn + ?s" by (intro add64_exact) linarith
  obtain qs where q: "init_loop sz n (ppn + ?s) = (qs, ppn')"
    and ps: "ps = \<lparr>base_ppn = ppn, app_id = -1, hp_vaddr = 0, hp_size = sz, in_use = False\<rparr> # qs"
    using Suc.prems(1) a by (auto split: prod.splits)
  note IH = Suc.IH [OF q lt]
  have "ppn < minus1_64" using lt pos unfolding minus1_64_def by linarith
  moreover have "[ppn..<ppn'] = [ppn..<ppn + ?s] @ [ppn + ?s..<ppn']"
    using IH upt_add_eq_append [of ppn "ppn + ?s" "n * ?s"] by simp
  ultimately have "frames_where (\<lambda>_. True) ps = mset [ppn..<ppn']"
    "\<forall>p \<in> set ps. \<not> in_use p \<and> page_ok sz p"
    using IH unfolding ps by (simp_all add: page_ok_def frames_where_def hp_frames_def del: mset_upt)
  with IH ps show ?case by simp
qed (auto simp: frames_where_def)

lemma hugetlbfs_new_ok:
  assumes e: "cfg_nr_hugepages_2mb cfg < 2 ^ 31" "cfg_nr_hugepages_1gb cfg < 2 ^ 31"
    and fit: "cfg_pool_base_ppn cfg + cfg_nr_hugepages_2mb cfg * 512 + cfg_nr_hugepages_1gb cfg * 262144 < 2 ^ 64"
  shows "ht_inv (hugetlbfs_new cfg)"
proof (cases "cfg_enabled cfg")
  case False
  then show ?thesis
    by (simp add: ht_inv_def pool_inv_def pool_access hugetlbfs_new_def all_frames_def frames_where_def)
next
  case True
  let ?m = "cfg_nr_hugepages_2mb cfg" and ?n = "cfg_nr_hugepages_1gb cfg" and ?b = "cfg_pool_base_ppn cfg"
  obtain ps b1 where ps: "init_loop SIZE_2MB ?m ?b = (ps, b1)" by fastforce
  obtain qs b2 where qs: "init_loop SIZE_1GB ?n b1 = (qs, b2)" by fastforce
  have P: "length ps = ?m \<and> b1 = ?b + ?m * 512 \<and> (\<forall>p \<in> set ps. \<not> in_use p \<and> page_ok SIZE_2MB p) \<and>
      frames_where (\<lambda>_. True) ps = mset [?b..<b1]"
    using init_loop_ok [OF ps] fit by (simp add: hugepage_pages_def)
  have Q: "length qs = ?n \<and> b2 = b1 + ?n * 262144 \<and> (\<forall>p \<in> set qs. \<not> in_use p \<and> page_ok SIZE_1GB p) \<and>
      frames_where (\<lambda>_. True) qs = mset [b1..<b2]"
    using init_loop_ok [OF qs] fit P by (simp add: hugepage_pages_def)
  have "[?b..<b2] = [?b..<b1] @ [b1..<b2]"
    using P Q upt_add_eq_append [of ?b b1 "b2 - b1"] by simp
  then have "frames_where (\<lambda>_. True) ps + frames_where (\<lambda>_. True) qs = mset [?b..<b2]"
    using P Q by (simp del: mset_upt)
  moreover have "count (mset [?b..<b2]) f \<le> 1" for f by (simp add: count_mset_set')
  moreover have "filter (\<lambda>p. \<not> in_use p) ps = ps" "filter (\<lambda>p. \<not> in_use p) qs = qs"
    "filter (\<lambda>p. in_use p \<and> app_id p = a) ps = []" "filter (\<lambda>p. in_use p \<and> app_id p = a) qs = []" for a
    using P Q by (auto simp: filter_id_conv filter_empty_conv)
  ultimately show ?thesis using True ps qs P Q e
    by (simp add: ht_inv_def pool_inv_def pool_access hugetlbfs_new_def initializePool_def all_frames_def)
qed

section \<open>Operations keep the invariant\<close>

lemma pool_inv_cong:
  "pool sz ht' = pool sz ht \<Longrightarrow> getFreeHugePages ht' sz = getFreeHugePages ht sz \<Longrightarrow>
   (\<And>a. getAppHugePages ht' a sz = getAppHugePages ht a sz) \<Longrightarrow> pool_inv sz ht' = pool_inv sz ht"
  by (simp add: pool_inv_def)

lemma pool_inv_update:
  assumes inv: "pool_inv sz ht" and i: "i < length (pool sz ht)" and ok: "page_ok sz p"
    and upd: "pool sz ht' = (pool sz ht)[i := p]"
    and fr: "getFreeHugePages ht' sz + (if \<not> in_use (pool sz ht ! i) then 1 else 0) =
      getFreeHugePages ht sz + (if \<not> in_use p then 1 else 0)"
    and us: "\<And>a. getAppHugePages ht' a sz + (if in_use (pool sz ht ! i) \<and> app_id (pool sz ht ! i) = a then 1 else 0) =
      getAppHugePages ht a sz + (if in_use p \<and> app_id p = a then 1 else 0)"
  shows "pool_inv sz ht'"
proof -
  have "getFreeHugePages ht' sz = length (filter (\<lambda>p. \<not> in_use p) (pool sz ht'))"
    using inv fr length_filter_update [OF i, of "\<lambda>p. \<not> in_use p" p] unfolding pool_inv_def upd by linarith
  moreover have "getAppHugePages ht' a sz = length (filter (\<lambda>p. in_use p \<and> app_id p = a) (pool sz ht'))" for a
  proof -
    have "getAppHugePages ht a sz = length (filter (\<lambda>p. in_use p \<and> app_id p = a) (pool sz ht))"
      using inv by (simp add: pool_inv_def)
    with us [of a] length_filter_update [OF i, of "\<lambda>p. in_use p \<and> app_id p = a" p] show ?thesis
      unfolding upd by linarith
  qed
  moreover have "\<forall>q \<in> set (pool sz ht'). page_ok sz q"
    using inv ok unfolding pool_inv_def upd by (auto dest: in_set_updateD)
  ultimately show ?thesis using inv by (simp add: pool_inv_def upd)
qed

lemma usage_get:
  "(case usage_inc a m b of Some n \<Rightarrow> n | None \<Rightarrow> 0) =
     (if b = a then add64 (case m a of Some n \<Rightarrow> n | None \<Rightarrow> 0) 1 else (case m b of Some n \<Rightarrow> n | None \<Rightarrow> 0))"
  "(case usage_dec a m b of Some n \<Rightarrow> n | None \<Rightarrow> 0) =
     (case m b of Some n \<Rightarrow> n | None \<Rightarrow> 0) - (if b = a then 1 else 0)"
  by (auto simp: usage_inc_def usage_dec_def split: option.splits)

lemma pool_counts:
  assumes "pool_inv sz ht"
  shows "getFreeHugePages ht sz < 2 ^ 31" "getAppHugePages ht a sz < 2 ^ 31"
    "i < length (pool sz ht) \<Longrightarrow> \<not> in_use (pool sz ht ! i) \<Longrightarrow> 0 < getFreeHugePages ht sz"
    "i < length (pool sz ht) \<Longrightarrow> in_use (pool sz ht ! i) \<Longrightarrow> 0 < getAppHugePages ht (app_id (pool sz ht ! i)) sz"
    "i < length (pool sz ht) \<Longrightarrow> in_use (pool sz ht ! i) \<Longrightarrow> getFreeHugePages ht sz + 1 \<le> length (pool sz ht)"
proof -
  note d = assms [unfolded pool_inv_def]
  show "getFreeHugePages ht sz < 2 ^ 31" "getAppHugePages ht a sz < 2 ^ 31"
    using d length_filter_le le_less_trans by metis+
  show "i < length (pool sz ht) \<Longrightarrow> \<not> in_use (pool sz ht ! i) \<Longrightarrow> 0 < getFreeHugePages ht sz"
    using d by (auto simp: filter_empty_conv intro: nth_mem)
  show "i < length (pool sz ht) \<Longrightarrow> in_use (pool sz ht ! i) \<Longrightarrow> 0 < getAppHugePages ht (app_id (pool sz ht ! i)) sz"
    using d by (auto simp: filter_empty_conv intro: nth_mem)
  show "i < length (pool sz ht) \<Longrightarrow> in_use (pool sz ht ! i) \<Longrightarrow> getFreeHugePages ht sz + 1 \<le> length (pool sz ht)"
    using d length_filter_less [of "pool sz ht ! i" "pool sz ht" "\<lambda>p. \<not> in_use p"] by auto
qed

text \<open>The first free descriptor, if there is one.\<close>

lemma findFreeHugePage_cases:
  assumes "pool_inv sz ht"
  obtains (none) "findFreeHugePage ht sz = -1" "\<forall>p \<in> set (pool sz ht). in_use p"
  | (some) i where "findFreeHugePage ht sz = int i" "i < length (pool sz ht)" "\<not> in_use (pool sz ht ! i)"
proof (cases "find_index (\<lambda>p. \<not> in_use p) (pool sz ht)")
  case None
  then have "findFreeHugePage ht sz = -1" by (simp add: findFreeHugePage_def)
  with None show ?thesis using none by (simp add: find_index_None_iff)
next
  case (Some i)
  from find_index_SomeD [OF Some] have i: "i < length (pool sz ht)" "\<not> in_use (pool sz ht ! i)" by auto
  moreover have "i < 2 ^ 31" using i(1) assms by (simp add: pool_inv_def)
  ultimately show ?thesis using some [of i] Some by (simp add: findFreeHugePage_def to_int32_exact)
qed

definition taken :: "int \<Rightarrow> u64 \<Rightarrow> HugePageInfo \<Rightarrow> HugePageInfo" where
  "taken app va p = p\<lparr>in_use := True, app_id := app, hp_vaddr := va\<rparr>"

text \<open>A request served by descriptor \<open>i\<close>: everything the state change amounts to.\<close>

definition ht_grant :: "hugetlbfs \<Rightarrow> hugetlbfs \<Rightarrow> int \<Rightarrow> u64 \<Rightarrow> HugePageSize \<Rightarrow> nat \<Rightarrow> bool" where
  "ht_grant ht ht' app va sz i \<longleftrightarrow>
     i < length (pool sz ht) \<and> \<not> in_use (pool sz ht ! i) \<and>
     pool sz ht' = (pool sz ht)[i := taken app va (pool sz ht ! i)] \<and>
     getFreeHugePages ht' sz + 1 = getFreeHugePages ht sz \<and>
     (\<forall>sz'. sz' \<noteq> sz \<longrightarrow> pool sz' ht' = pool sz' ht) \<and>
     free_frames ht' + hp_frames (pool sz ht ! i) = free_frames ht"

lemma ht_frames_cong:
  assumes "pool_2mb ht = pool_2mb ht'" "pool_1gb ht = pool_1gb ht'"
  shows "all_frames ht = all_frames ht'" "free_frames ht = free_frames ht'"
  using assms by (simp_all add: all_frames_def free_frames_def)

lemma allocateHugePage_found:
  assumes inv: "ht_inv ht" and en: "ht_enabled ht" and f: "findFreeHugePage ht sz = int i"
    and i: "i < length (pool sz ht)" "\<not> in_use (pool sz ht ! i)"
  shows "\<exists>ht'. allocateHugePage ht app va sz = (base_ppn (pool sz ht ! i), ht') \<and> ht_inv ht' \<and>
    ht_grant ht ht' app va sz i \<and> ht_enabled ht'"
proof -
  let ?p = "pool sz ht ! i"
  let ?t = "taken app va ?p"
  let ?s = "set_pool sz ((pool sz ht)[i := ?t]) ht"
  define ht' where "ht' = snd (allocateHugePage ht app va sz)"
  have eq: "allocateHugePage ht app va sz = (base_ppn ?p, ht')"
    using en f by (simp add: ht'_def allocateHugePage_def Let_def taken_def)
  note pi = ht_invD [OF inv, of sz] and c = pool_counts [OF ht_invD [OF inv, of sz]]
  have fr: "sub64 (getFreeHugePages ht sz) 1 + 1 = getFreeHugePages ht sz"
    using c(1) c(3) [OF i] by (simp add: sub64_exact)
  have ad: "add64 (getAppHugePages ht app sz) 1 = getAppHugePages ht app sz + 1"
    using c(2) [of app] by (simp add: add64_exact)
  have q: "pool sz ht' = (pool sz ht)[i := ?t]" "getFreeHugePages ht' sz + 1 = getFreeHugePages ht sz"
    "getAppHugePages ht' a sz = getAppHugePages ht a sz + (if app = a then 1 else 0)"
    "pool_2mb ht' = pool_2mb ?s" "pool_1gb ht' = pool_1gb ?s" "ht_enabled ht'" for a
    using en f fr ad
    by (cases sz; simp add: ht'_def allocateHugePage_def Let_def pool_access taken_def usage_get)+
  have other: "pool sz' ht' = pool sz' ht" "getFreeHugePages ht' sz' = getFreeHugePages ht sz'"
    "getAppHugePages ht' a sz' = getAppHugePages ht a sz'" if "sz' \<noteq> sz" for sz' a
    using that en f by (cases sz; cases sz'; simp add: ht'_def allocateHugePage_def Let_def pool_access)+
  have ok: "page_ok sz ?p" using pi i(1) by (simp add: pool_inv_def)
  then have t: "page_ok sz ?t" "hp_frames ?t = hp_frames ?p" "in_use ?t" "app_id ?t = app"
    by (simp_all add: page_ok_def taken_def hp_frames_def)
  have "pool_inv sz' ht'" for sz'
  proof (cases "sz' = sz")
    case True
    have "pool_inv sz ht'" by (rule pool_inv_update [OF pi i(1) t(1) q(1)]) (use q i t in auto)
    with True show ?thesis by simp
  next
    case False
    with other pool_inv_cong [of sz' ht' ht] ht_invD [OF inv, of sz'] show ?thesis by simp
  qed
  moreover have "all_frames ht' = all_frames ht"
    unfolding ht_frames_cong(1) [OF q(4,5)] by (rule all_frames_set_pool [OF i(1) t(2)])
  moreover have "free_frames ht' + hp_frames ?p = free_frames ht"
    unfolding ht_frames_cong(2) [OF q(4,5)] using free_frames_set_pool [OF i(1), of ?t] i(2) t(3) by simp
  ultimately show ?thesis using eq q other i inv
    by (auto intro!: ht_invI simp: ht_grant_def ht_inv_def)
qed

lemma allocateHugePage_none:
  assumes "ht_inv ht" "findFreeHugePage ht sz = -1"
  shows "\<exists>ht'. allocateHugePage ht app va sz = (minus1_64, ht') \<and> ht_inv ht' \<and>
    pool_2mb ht' = pool_2mb ht \<and> pool_1gb ht' = pool_1gb ht"
  using assms
  by (auto simp: allocateHugePage_def Let_def ht_inv_def pool_inv_def pool_access all_frames_def)

definition ht_return :: "hugetlbfs \<Rightarrow> hugetlbfs \<Rightarrow> HugePageSize \<Rightarrow> nat \<Rightarrow> bool" where
  "ht_return ht ht' sz i \<longleftrightarrow>
     i < length (pool sz ht) \<and> in_use (pool sz ht ! i) \<and>
     pool sz ht' = (pool sz ht)[i := released (pool sz ht ! i)] \<and>
     getFreeHugePages ht' sz = getFreeHugePages ht sz + 1 \<and>
     (\<forall>sz'. sz' \<noteq> sz \<longrightarrow> pool sz' ht' = pool sz' ht) \<and>
     free_frames ht' = free_frames ht + hp_frames (pool sz ht ! i)"

lemma deallocateHugePage_found:
  assumes inv: "ht_inv ht" and en: "ht_enabled ht"
    and f: "find_index (\<lambda>p. base_ppn p = b \<and> in_use p) (pool sz ht) = Some i"
  shows "\<exists>ht'. deallocateHugePage ht b sz = (True, ht') \<and> ht_inv ht' \<and> ht_return ht ht' sz i \<and> ht_enabled ht'"
proof -
  let ?p = "pool sz ht ! i"
  let ?r = "released ?p"
  let ?s = "set_pool sz ((pool sz ht)[i := ?r]) ht"
  from find_index_SomeD [OF f] have i: "i < length (pool sz ht)" "in_use ?p" by auto
  define ht' where "ht' = snd (deallocateHugePage ht b sz)"
  have eq: "deallocateHugePage ht b sz = (True, ht')"
    using en f by (simp add: ht'_def deallocateHugePage_def Let_def)
  note pi = ht_invD [OF inv, of sz] and c = pool_counts [OF ht_invD [OF inv, of sz]]
  have ad: "add64 (getFreeHugePages ht sz) 1 = getFreeHugePages ht sz + 1"
    using c(1) by (simp add: add64_exact)
  have q: "pool sz ht' = (pool sz ht)[i := ?r]" "getFreeHugePages ht' sz = getFreeHugePages ht sz + 1"
    "getAppHugePages ht' a sz = getAppHugePages ht a sz - (if a = app_id ?p then 1 else 0)"
    "pool_2mb ht' = pool_2mb ?s" "pool_1gb ht' = pool_1gb ?s" "ht_enabled ht'" for a
    using en f ad
    by (cases sz; simp add: ht'_def deallocateHugePage_def Let_def pool_access usage_get)+
  have other: "pool sz' ht' = pool sz' ht" "getFreeHugePages ht' sz' = getFreeHugePages ht sz'"
    "getAppHugePages ht' a sz' = getAppHugePages ht a sz'" if "sz' \<noteq> sz" for sz' a
    using that en f by (cases sz; cases sz'; simp add: ht'_def deallocateHugePage_def Let_def pool_access)+
  have "page_ok sz ?p" using pi i(1) by (simp add: pool_inv_def)
  then have t: "page_ok sz ?r" "hp_frames ?r = hp_frames ?p" "\<not> in_use ?r"
    by (simp_all add: page_ok_def released_def hp_frames_def)
  have "pool_inv sz' ht'" for sz'
  proof (cases "sz' = sz")
    case True
    have "pool_inv sz ht'"
      by (rule pool_inv_update [OF pi i(1) t(1) q(1)]) (use q i t c(4) [OF i] in auto)
    with True show ?thesis by simp
  next
    case False
    with other pool_inv_cong [of sz' ht' ht] ht_invD [OF inv, of sz'] show ?thesis by simp
  qed
  moreover have "all_frames ht' = all_frames ht"
    unfolding ht_frames_cong(1) [OF q(4,5)] by (rule all_frames_set_pool [OF i(1) t(2)])
  moreover have "free_frames ht' = free_frames ht + hp_frames ?p"
    unfolding ht_frames_cong(2) [OF q(4,5)] using free_frames_set_pool [OF i(1), of ?r] i(2) t(2,3) by simp
  ultimately show ?thesis using eq q other i inv
    by (auto intro!: ht_invI simp: ht_return_def ht_inv_def)
qed

lemma deallocateHugePage_none:
  assumes "find_index (\<lambda>p. base_ppn p = b \<and> in_use p) (pool sz ht) = None"
  shows "deallocateHugePage ht b sz = (False, ht)"
  using assms by (simp add: deallocateHugePage_def)

text \<open>Releasing every page of an application.\<close>

definition release_app :: "int \<Rightarrow> HugePageInfo \<Rightarrow> HugePageInfo" where
  "release_app app p = (if in_use p \<and> app_id p = app then released p else p)"

lemma release_loop_eq:
  "release_loop app ps = (map (release_app app) ps, length (filter (\<lambda>p. in_use p \<and> app_id p = app) ps))"
  by (induction ps) (auto simp: release_app_def)

lemma release_app_counts:
  "length (filter (\<lambda>p. \<not> in_use p) (map (release_app app) ps)) =
     length (filter (\<lambda>p. \<not> in_use p) ps) + length (filter (\<lambda>p. in_use p \<and> app_id p = app) ps)"
  "length (filter (\<lambda>p. in_use p \<and> app_id p = a) (map (release_app app) ps)) =
     (if a = app then 0 else length (filter (\<lambda>p. in_use p \<and> app_id p = a) ps))"
  "frames_where (\<lambda>_. True) (map (release_app app) ps) = frames_where (\<lambda>_. True) ps"
proof -
  show "length (filter (\<lambda>p. \<not> in_use p) (map (release_app app) ps)) =
     length (filter (\<lambda>p. \<not> in_use p) ps) + length (filter (\<lambda>p. in_use p \<and> app_id p = app) ps)"
    by (induction ps) (simp_all add: release_app_def released_def)
  show "length (filter (\<lambda>p. in_use p \<and> app_id p = a) (map (release_app app) ps)) =
     (if a = app then 0 else length (filter (\<lambda>p. in_use p \<and> app_id p = a) ps))"
  proof -
    have "(\<lambda>p. in_use p \<and> app_id p = a) \<circ> release_app app = (\<lambda>p. a \<noteq> app \<and> in_use p \<and> app_id p = a)"
      by (auto simp: fun_eq_iff release_app_def released_def)
    then show ?thesis by (simp add: filter_map)
  qed
  have "hp_frames (release_app app p) = hp_frames p" for p
    by (simp add: release_app_def released_def hp_frames_def)
  then show "frames_where (\<lambda>_. True) (map (release_app app) ps) = frames_where (\<lambda>_. True) ps"
    by (induction ps) (simp_all add: frames_where_def)
qed

lemma pool_inv_release:
  assumes inv: "pool_inv sz ht" and upd: "pool sz ht' = map (release_app app) (pool sz ht)"
    and fr: "getFreeHugePages ht' sz =
      add64 (getFreeHugePages ht sz) (length (filter (\<lambda>p. in_use p \<and> app_id p = app) (pool sz ht)))"
    and us: "\<And>a. getAppHugePages ht' a sz = (if a = app then 0 else getAppHugePages ht a sz)"
  shows "pool_inv sz ht'"
proof -
  note d = inv [unfolded pool_inv_def]
  have "length (filter (\<lambda>p. \<not> in_use p) (pool sz ht)) +
      length (filter (\<lambda>p. in_use p \<and> app_id p = app) (pool sz ht)) \<le> length (pool sz ht)"
    using release_app_counts(1) [of app "pool sz ht"] length_filter_le [of _ "map (release_app app) (pool sz ht)"]
    by (metis length_map)
  then have "getFreeHugePages ht' sz = length (filter (\<lambda>p. \<not> in_use p) (pool sz ht'))"
    unfolding fr upd release_app_counts using d by (simp add: add64_exact)
  moreover have "\<forall>p \<in> set (pool sz ht'). page_ok sz p"
    using d by (auto simp: upd release_app_def released_def page_ok_def)
  ultimately show ?thesis using d us unfolding pool_inv_def upd release_app_counts by simp
qed

lemma deallocateAllForApp_ok:
  assumes inv: "ht_inv ht" and en: "ht_enabled ht"
    and d: "deallocateAllForApp ht app = (n, ht')"
  shows "ht_inv ht' \<and> ht_enabled ht' \<and> (\<forall>sz. pool sz ht' = map (release_app app) (pool sz ht)) \<and>
    n = int (getAppHugePages ht app SIZE_2MB + getAppHugePages ht app SIZE_1GB)"
proof -
  have m: "\<forall>sz. pool sz ht' = map (release_app app) (pool sz ht)"
    using d en by (auto simp: deallocateAllForApp_def release_loop_eq pool_access split: HugePageSize.splits)
  have "pool_inv sz ht'" for sz
    by (rule pool_inv_release [OF ht_invD [OF inv], of sz ht' app])
       (use m d en in \<open>cases sz; auto simp: deallocateAllForApp_def release_loop_eq pool_access\<close>)+
  moreover have "all_frames ht' = all_frames ht"
    using m [rule_format, of SIZE_2MB] m [rule_format, of SIZE_1GB]
    by (simp add: pool_access all_frames_def release_app_counts)
  moreover have "ht_enabled ht'" "n = int (length (filter (\<lambda>p. in_use p \<and> app_id p = app) (pool SIZE_2MB ht)) +
      length (filter (\<lambda>p. in_use p \<and> app_id p = app) (pool SIZE_1GB ht)))"
    using d en by (auto simp: deallocateAllForApp_def release_loop_eq pool_access)
  moreover have "getAppHugePages ht app sz = length (filter (\<lambda>p. in_use p \<and> app_id p = app) (pool sz ht))" for sz
    using ht_invD [OF inv, of sz] by (simp add: pool_inv_def)
  ultimately show ?thesis using m inv by (auto intro!: ht_invI simp: ht_inv_def)
qed

section \<open>The service as a page source\<close>

definition ht_serve :: "hugetlbfs \<Rightarrow> int \<times> u64 \<times> HugePageSize \<Rightarrow> (nat list \<times> hugetlbfs) option" where
  "ht_serve ht r =
     (case r of (app, va, sz) \<Rightarrow>
      case allocateHugePage ht app va sz of (p, ht') \<Rightarrow>
        if p = minus1_64 then None else Some ([p..<p + hugepage_pages sz], ht'))"

lemma allocateHugePage_cases:
  assumes inv: "ht_inv ht" and en: "ht_enabled ht"
  obtains (none) ht' where "allocateHugePage ht app va sz = (minus1_64, ht')" "ht_inv ht'"
      "pool_2mb ht' = pool_2mb ht" "pool_1gb ht' = pool_1gb ht" "\<forall>p \<in> set (pool sz ht). in_use p"
  | (some) i ht' where "allocateHugePage ht app va sz = (base_ppn (pool sz ht ! i), ht')" "ht_inv ht'"
      "ht_grant ht ht' app va sz i" "ht_enabled ht'" "base_ppn (pool sz ht ! i) \<noteq> minus1_64"
proof (cases rule: findFreeHugePage_cases [OF ht_invD [OF inv, of sz]])
  case 1
  with allocateHugePage_none [OF inv 1(1), of app va] none show ?thesis by blast
next
  case (2 i)
  have "page_ok sz (pool sz ht ! i)" using ht_invD [OF inv, of sz] 2(2) by (simp add: pool_inv_def)
  then have "base_ppn (pool sz ht ! i) \<noteq> minus1_64" by (simp add: page_ok_def)
  with allocateHugePage_found [OF inv en 2] some show ?thesis by blast
qed

lemma ht_serve_SomeD:
  assumes inv: "ht_inv ht" and g: "ht_serve ht (app, va, sz) = Some (ps, ht')"
  shows "ht_inv ht'" "free_frames ht' + mset ps = free_frames ht"
proof -
  from g have en: "ht_enabled ht" by (auto simp: ht_serve_def allocateHugePage_def split: if_splits)
  have "ht_inv ht' \<and> free_frames ht' + mset ps = free_frames ht"
  proof (cases rule: allocateHugePage_cases [OF inv en, of app va sz])
    case (1 x)
    then show ?thesis using g by (simp add: ht_serve_def)
  next
    case (2 i x)
    then have r: "ht' = x" "ps = [base_ppn (pool sz ht ! i)..<base_ppn (pool sz ht ! i) + hugepage_pages sz]"
      using g by (auto simp: ht_serve_def)
    from 2(3) have "i < length (pool sz ht)" by (simp add: ht_grant_def)
    then have "hp_size (pool sz ht ! i) = sz"
      using ht_invD [OF inv, of sz] by (simp add: pool_inv_def page_ok_def)
    with 2 r show ?thesis by (simp add: ht_grant_def hp_frames_def del: mset_upt)
  qed
  then show "ht_inv ht'" "free_frames ht' + mset ps = free_frames ht" by blast+
qed

interpretation hts: page_source ht_inv free_frames ht_serve
proof unfold_locales
  fix s r ps s' p
  show "ht_inv s'" if "ht_inv s" "ht_serve s r = Some (ps, s')"
    using ht_serve_SomeD(1) that by (cases r) blast
  show "free_frames s' + mset ps = free_frames s" if "ht_inv s" "ht_serve s r = Some (ps, s')"
    using ht_serve_SomeD(2) that by (cases r) blast
  show "count (free_frames s) p \<le> 1" if "ht_inv s"
    by (rule free_frames_once [OF that])
qed

section \<open>Reachable states\<close>

inductive ht_step :: "hugetlbfs \<Rightarrow> hugetlbfs \<Rightarrow> bool" where
  alloc: "allocateHugePage ht app va sz = (p, ht') \<Longrightarrow> ht_step ht ht'"
| dealloc: "deallocateHugePage ht p sz = (ok, ht') \<Longrightarrow> ht_step ht ht'"
| dealloc_all: "deallocateAllForApp ht app = (n, ht') \<Longrightarrow> ht_step ht ht'"

lemma ht_step_inv:
  assumes "ht_step ht ht'" "ht_inv ht"
  shows "ht_inv ht'"
proof (cases "ht_enabled ht")
  case False
  with assms show ?thesis
    by cases (auto simp: allocateHugePage_def deallocateHugePage_def deallocateAllForApp_def)
next
  case True
  from assms(1) show ?thesis
  proof cases
    case (alloc app va sz p)
    then show ?thesis by (cases rule: allocateHugePage_cases [OF assms(2) True, of app va sz]) auto
  next
    case (dealloc p sz ok)
    then show ?thesis
      using deallocateHugePage_found [OF assms(2) True, of p sz] deallocateHugePage_none [of p sz ht] assms(2)
      by (cases "find_index (\<lambda>q. base_ppn q = p \<and> in_use q) (pool sz ht)") auto
  next
    case (dealloc_all app n)
    then show ?thesis using deallocateAllForApp_ok [OF assms(2) True] by blast
  qed
qed

lemma ht_reach_inv: "ht_step\<^sup>*\<^sup>* ht ht' \<Longrightarrow> ht_inv ht \<Longrightarrow> ht_inv ht'"
  by (induction rule: rtranclp_induct) (auto intro: ht_step_inv)

lemma frames_split: "frames_where P ps + frames_where (\<lambda>p. \<not> P p) ps = frames_where (\<lambda>_. True) ps"
  by (induction ps) (auto simp: frames_where_def ac_simps)

lemma count_frames: "count (frames_where (\<lambda>_. True) ps) f = (\<Sum>p\<leftarrow>ps. count (hp_frames p) f)"
  by (induction ps) (simp_all add: frames_where_def)

text \<open>The base of a huge page identifies its descriptor.\<close>

lemma base_unique:
  assumes inv: "ht_inv ht" and ij: "i < length (pool sz ht)" "j < length (pool sz ht)"
    and b: "base_ppn (pool sz ht ! i) = base_ppn (pool sz ht ! j)"
  shows "i = j"
proof (rule ccontr)
  assume ne: "i \<noteq> j"
  let ?ps = "pool sz ht" and ?b = "base_ppn (pool sz ht ! i)"
  let ?c = "\<lambda>k. count (hp_frames (?ps ! k)) ?b"
  have one: "?c i = 1" "?c j = 1"
    using b by (simp_all add: hp_frames_def hugepage_pages_def count_mset_set' split: HugePageSize.split)
  have "(\<Sum>k \<in> {i, j}. ?c k) \<le> (\<Sum>k = 0..<length ?ps. ?c k)"
    by (rule sum_mono2) (use ij in auto)
  also have "\<dots> = count (frames_where (\<lambda>_. True) ?ps) ?b"
    by (simp add: count_frames sum_list_sum_nth)
  also have "\<dots> \<le> count (all_frames ht) ?b"
    by (cases sz) (simp_all add: all_frames_def pool_access)
  also have "\<dots> \<le> 1" using inv by (simp add: ht_inv_def)
  finally show False using ne one by simp
qed

section \<open>Properties\<close>

text \<open>
  C27: in every state the service can reach, for both sizes the number of free
  pages and every application's usage counter equal what the descriptors say, and
  no frame belongs to two huge pages, in use or free.
\<close>

theorem hugetlbfs_counters_exact:
  assumes "cfg_nr_hugepages_2mb cfg < 2 ^ 31" "cfg_nr_hugepages_1gb cfg < 2 ^ 31"
    and "cfg_pool_base_ppn cfg + cfg_nr_hugepages_2mb cfg * 512 + cfg_nr_hugepages_1gb cfg * 262144 < 2 ^ 64"
    and "ht_step\<^sup>*\<^sup>* (hugetlbfs_new cfg) ht"
  shows "getFreeHugePages ht sz = length (filter (\<lambda>p. \<not> in_use p) (pool sz ht)) \<and>
    getAppHugePages ht a sz = length (filter (\<lambda>p. in_use p \<and> app_id p = a) (pool sz ht)) \<and>
    count (frames_where in_use (pool_2mb ht) + frames_where in_use (pool_1gb ht) + free_frames ht) f \<le> 1"
proof -
  have inv: "ht_inv ht" by (rule ht_reach_inv [OF assms(4) hugetlbfs_new_ok [OF assms(1-3)]])
  have "frames_where in_use (pool_2mb ht) + frames_where in_use (pool_1gb ht) + free_frames ht = all_frames ht"
    unfolding free_frames_def all_frames_def frames_split [of in_use, symmetric] by (simp add: ac_simps)
  with inv ht_invD [OF inv, of sz] show ?thesis by (simp add: ht_inv_def pool_inv_def)
qed

definition ht_config :: HugeTLBfsConfig where
  "ht_config = \<lparr>cfg_enabled = True, cfg_nr_hugepages_2mb = 2, cfg_nr_hugepages_1gb = 1,
     cfg_overcommit = False, cfg_pool_base_ppn = 1024\<rparr>"

definition ht_small :: hugetlbfs where
  "ht_small = hugetlbfs_new ht_config"

lemma ht_small_inv: "ht_inv ht_small" "ht_enabled ht_small"
proof -
  show "ht_inv ht_small" unfolding ht_small_def
    by (rule hugetlbfs_new_ok) (simp_all add: ht_config_def)
  show "ht_enabled ht_small"
    by (simp add: ht_small_def ht_config_def hugetlbfs_new_def initializePool_def split: prod.split)
qed

lemma ht_small_alloc: "fst (allocateHugePage ht_small 7 0 SIZE_2MB) = 1024"
proof -
  let ?p = "\<lambda>b. \<lparr>base_ppn = b, app_id = -1, hp_vaddr = 0, hp_size = SIZE_2MB, in_use = False\<rparr>"
  have "init_loop SIZE_2MB (Suc (Suc 0)) 1024 = ([?p 1024, ?p 1536], 2048)"
    by (simp add: add64_def hugepage_pages_def)
  then have "pool SIZE_2MB ht_small = [?p 1024, ?p 1536]"
    by (simp add: numeral_2_eq_2 [symmetric] ht_small_def ht_config_def hugetlbfs_new_def initializePool_def
        pool_access split: prod.split)
  with ht_small_inv(2) show ?thesis
    by (simp add: allocateHugePage_def findFreeHugePage_def to_int32_def)
qed

theorem hugetlbfs_counters_exact_witness:
  "\<exists>ht. ht \<noteq> ht_small \<and> ht_step\<^sup>*\<^sup>* ht_small ht \<and>
     getFreeHugePages ht SIZE_2MB = length (filter (\<lambda>p. \<not> in_use p) (pool SIZE_2MB ht)) \<and>
     getAppHugePages ht 7 SIZE_2MB = length (filter (\<lambda>p. in_use p \<and> app_id p = 7) (pool SIZE_2MB ht)) \<and>
     count (frames_where in_use (pool_2mb ht) + frames_where in_use (pool_1gb ht) + free_frames ht) 1024 \<le> 1"
proof -
  obtain ht where a: "allocateHugePage ht_small 7 0 SIZE_2MB = (1024, ht)"
    using ht_small_alloc by (metis prod.collapse)
  then have s: "ht_step\<^sup>*\<^sup>* (hugetlbfs_new ht_config) ht"
    unfolding ht_small_def by (intro r_into_rtranclp ht_step.alloc)
  have "ht \<noteq> ht_small"
  proof (cases rule: allocateHugePage_cases [OF ht_small_inv, of 7 0 SIZE_2MB])
    case (1 ht')
    then show ?thesis using a by (simp add: minus1_64_def)
  next
    case (2 i ht')
    then show ?thesis using a by (auto simp: ht_grant_def)
  qed
  moreover from hugetlbfs_counters_exact [OF _ _ _ s, of SIZE_2MB 7 1024]
  have "getFreeHugePages ht SIZE_2MB = length (filter (\<lambda>p. \<not> in_use p) (pool SIZE_2MB ht)) \<and>
     getAppHugePages ht 7 SIZE_2MB = length (filter (\<lambda>p. in_use p \<and> app_id p = 7) (pool SIZE_2MB ht)) \<and>
     count (frames_where in_use (pool_2mb ht) + frames_where in_use (pool_1gb ht) + free_frames ht) 1024 \<le> 1"
    by (simp add: ht_config_def)
  ultimately show ?thesis using s unfolding ht_small_def by blast
qed

text \<open>
  a request is served exactly when the pool has an unused descriptor. It
  then marks that descriptor for the application, lowers the free counter, and
  takes its frames from the free ones; otherwise the pools stay as they are and the failure is
  counted, always as a pool-exhausted event too.
\<close>

lemma allocateHugePage_correct:
  assumes "ht_inv ht" "ht_enabled ht"
  shows "if \<exists>p \<in> set (pool sz ht). \<not> in_use p
    then \<exists>i ht'. allocateHugePage ht app va sz = (base_ppn (pool sz ht ! i), ht') \<and> ht_inv ht' \<and>
      ht_grant ht ht' app va sz i
    else allocateHugePage ht app va sz =
      (minus1_64, ht\<lparr>allocation_failures := add64 (allocation_failures ht) 1,
         pool_exhausted_events := add64 (pool_exhausted_events ht) 1\<rparr>)"
proof (cases "\<exists>p \<in> set (pool sz ht). \<not> in_use p")
  case True
  then show ?thesis
    by (cases rule: allocateHugePage_cases [OF assms, of app va sz]) auto
next
  case False
  then have "findFreeHugePage ht sz = -1"
    by (cases rule: findFreeHugePage_cases [OF ht_invD [OF assms(1)], of sz]) auto
  moreover have "getFreeHugePages ht sz = 0"
    using False ht_invD [OF assms(1), of sz] by (simp add: pool_inv_def filter_empty_conv)
  ultimately show ?thesis using False assms(2)
    by (cases sz) (simp_all add: allocateHugePage_def Let_def pool_access)
qed

text \<open>
  a huge page that was allocated can be deallocated, and this restores both
  pools, the free counters and the usage of every application.
\<close>

lemma hugetlbfs_roundtrip:
  assumes "ht_inv ht" "ht_enabled ht" "allocateHugePage ht app va sz = (p, ht')" "p \<noteq> minus1_64"
  shows "\<exists>ht''. deallocateHugePage ht' p sz = (True, ht'') \<and>
    (\<forall>sz'. pool sz' ht'' = pool sz' ht \<and> getFreeHugePages ht'' sz' = getFreeHugePages ht sz' \<and>
       (\<forall>a. getAppHugePages ht'' a sz' = getAppHugePages ht a sz'))"
proof -
  obtain i where g: "p = base_ppn (pool sz ht ! i)" "ht_inv ht'" "ht_grant ht ht' app va sz i" "ht_enabled ht'"
    using assms by (cases rule: allocateHugePage_cases [OF assms(1,2), of app va sz]) auto
  let ?q = "pool sz ht ! i"
  have i: "i < length (pool sz ht')" "pool sz ht' = (pool sz ht)[i := taken app va ?q]"
    "i < length (pool sz ht)" "\<not> in_use ?q"
    using g(3) by (simp_all add: ht_grant_def)
  have t: "base_ppn (pool sz ht' ! i) = p" "in_use (pool sz ht' ! i)"
    using i g(1) by (simp_all add: taken_def)
  have "find_index (\<lambda>x. base_ppn x = p \<and> in_use x) (pool sz ht') \<noteq> None"
    unfolding find_index_None_iff using t nth_mem [OF i(1)] by blast
  then obtain j where j: "find_index (\<lambda>x. base_ppn x = p \<and> in_use x) (pool sz ht') = Some j" by blast
  from find_index_SomeD [OF j] t(1) have "j < length (pool sz ht')"
    "base_ppn (pool sz ht' ! j) = base_ppn (pool sz ht' ! i)" by simp_all
  from base_unique [OF g(2) this(1) i(1) this(2)] have "j = i" .
  from deallocateHugePage_found [OF g(2,4) j] obtain ht'' where
    d: "deallocateHugePage ht' p sz = (True, ht'')" "ht_inv ht''" "ht_return ht' ht'' sz i"
    using \<open>j = i\<close> by blast
  have "page_ok sz ?q" using ht_invD [OF assms(1), of sz] i(3) by (simp add: pool_inv_def)
  then have "released (taken app va ?q) = ?q"
    using i(4) by (intro HugePageInfo.equality) (simp_all add: released_def taken_def page_ok_def)
  then have "pool sz ht'' = pool sz ht" using d(3) i by (simp add: ht_return_def)
  moreover have "pool sz' ht'' = pool sz' ht" if "sz' \<noteq> sz" for sz'
    using that d(3) g(3) by (simp add: ht_return_def ht_grant_def)
  ultimately have pool: "pool sz' ht'' = pool sz' ht" for sz' by (cases "sz' = sz") auto
  have "getFreeHugePages ht'' sz' = getFreeHugePages ht sz'" "getAppHugePages ht'' a sz' = getAppHugePages ht a sz'"
    for sz' a
    using ht_invD [OF d(2), of sz'] ht_invD [OF assms(1), of sz'] pool by (simp_all add: pool_inv_def)
  with d(1) pool show ?thesis by blast
qed

end
