(* ===== verification/Store.thy ===== *)
theory Store
  imports Prelude
begin

text \<open>
  The contract of a component that remembers a set of keys: an insertion that
  reports success adds its key, one that reports failure changes no membership,
  an erasure removes its key. Clients may then reason about a whole run of
  operations through the set it builds (\<open>run_ops_refines\<close>).
\<close>

section \<open>Operations on a set of keys\<close>

datatype 'k store_op = Insert 'k | Erase 'k

text \<open>A run of operations with the reports of its insertions.\<close>

fun run_ops :: "('s \<Rightarrow> 'k \<Rightarrow> bool \<times> 's) \<Rightarrow> ('s \<Rightarrow> 'k \<Rightarrow> 's) \<Rightarrow> 's \<Rightarrow> 'k store_op list \<Rightarrow> bool list \<times> 's" where
  "run_ops ins del s [] = ([], s)"
| "run_ops ins del s (Insert k # ops) =
     (case ins s k of (ok, s') \<Rightarrow> case run_ops ins del s' ops of (oks, s'') \<Rightarrow> (ok # oks, s''))"
| "run_ops ins del s (Erase k # ops) =
     (case run_ops ins del (del s k) ops of (oks, s'') \<Rightarrow> (True # oks, s''))"

text \<open>The set the reports describe.\<close>

fun abstract_ops :: "'k set \<Rightarrow> 'k store_op list \<Rightarrow> bool list \<Rightarrow> 'k set" where
  "abstract_ops S (Insert k # ops) (ok # oks) = abstract_ops (if ok then insert k S else S) ops oks"
| "abstract_ops S (Erase k # ops) (ok # oks) = abstract_ops (S - {k}) ops oks"
| "abstract_ops S ops oks = S"

locale key_store =
  fixes inv :: "'s \<Rightarrow> bool" and has :: "'s \<Rightarrow> 'k \<Rightarrow> bool"
    and ins :: "'s \<Rightarrow> 'k \<Rightarrow> bool \<times> 's" and del :: "'s \<Rightarrow> 'k \<Rightarrow> 's"
  assumes ins_inv: "inv s \<Longrightarrow> ins s k = (ok, s') \<Longrightarrow> inv s'"
    and del_inv: "inv s \<Longrightarrow> inv (del s k)"
    and has_ins: "inv s \<Longrightarrow> ins s k = (ok, s') \<Longrightarrow> has s' x \<longleftrightarrow> (ok \<and> x = k) \<or> has s x"
    and has_del: "inv s \<Longrightarrow> has (del s k) x \<longleftrightarrow> x \<noteq> k \<and> has s x"
begin

lemma run_ops_inv: "inv s \<Longrightarrow> run_ops ins del s ops = (oks, s') \<Longrightarrow> inv s'"
proof (induction ops arbitrary: s oks)
  case (Cons op ops)
  then show ?case by (cases op) (auto split: prod.splits dest: ins_inv del_inv)
qed simp

lemma run_ops_refines:
  "inv s \<Longrightarrow> run_ops ins del s ops = (oks, s') \<Longrightarrow>
   Collect (has s') = abstract_ops (Collect (has s)) ops oks"
proof (induction ops arbitrary: s oks)
  case (Cons op ops)
  show ?case
  proof (cases op)
    case (Insert k)
    obtain ok t oks' where t: "ins s k = (ok, t)" "run_ops ins del t ops = (oks', s')" "oks = ok # oks'"
      using Cons.prems(2) Insert by (auto split: prod.splits)
    have "Collect (has t) = (if ok then insert k (Collect (has s)) else Collect (has s))"
      using has_ins [OF Cons.prems(1) t(1)] by auto
    with Cons.IH [OF ins_inv [OF Cons.prems(1) t(1)] t(2)] Insert t(3) show ?thesis by simp
  next
    case (Erase k)
    obtain oks' where t: "run_ops ins del (del s k) ops = (oks', s')" "oks = True # oks'"
      using Cons.prems(2) Erase by (auto split: prod.splits)
    have "Collect (has (del s k)) = Collect (has s) - {k}"
      using has_del [OF Cons.prems(1)] by auto
    with Cons.IH [OF del_inv [OF Cons.prems(1)] t(1)] Erase t(2) show ?thesis by simp
  qed
qed simp

end

end
