(* ===== verification/Swap_Cache.thy ===== *)
theory Swap_Cache
  imports Store "HOL-Library.AList"
begin

text \<open>
  The swap cache (\<open>swap_cache.h\<close>): a map from (virtual page, application) to a
  slot of the backing store and a bitmap of used slots. The hash map is an
  association list with distinct keys, so that its size is its length. The theory
  shows that it refines a set of pages (through \<open>key_store\<close>), that slots are never
  shared, and that slots are never returned.
\<close>

section \<open>State and operations\<close>

type_synonym swap_key = "u64 \<times> int"

record swap_cache =
  m_swap_size :: nat
  swap_cache_map :: "(swap_key \<times> u64) list"
  swap_slots :: "bool list"
  swap_ins :: u64
  swap_outs :: u64
  failed_swap_outs_space :: u64

definition swap_cache_new :: "nat \<Rightarrow> swap_cache" where
  "swap_cache_new swap_size_mb =
     (let n = swap_size_mb * 1024 div 4 in
      \<lparr> m_swap_size = n, swap_cache_map = [], swap_slots = replicate n False,
        swap_ins = 0, swap_outs = 0, failed_swap_outs_space = 0 \<rparr>)"

definition swap_lookup :: "swap_cache \<Rightarrow> swap_key \<Rightarrow> bool" where
  "swap_lookup sc k \<longleftrightarrow> map_of (swap_cache_map sc) k \<noteq> None"

definition findFreePage :: "swap_cache \<Rightarrow> u64 \<times> swap_cache" where
  "findFreePage sc =
     (case find_index Not (swap_slots sc) of
        Some i \<Rightarrow> (i, sc\<lparr>swap_slots := (swap_slots sc)[i := True]\<rparr>)
      | None \<Rightarrow> (minus1_64, sc))"

definition swapOut :: "swap_cache \<Rightarrow> swap_key \<Rightarrow> bool \<times> swap_cache" where
  "swapOut sc k =
     (case findFreePage sc of (swap_location, sc1) \<Rightarrow>
        if swap_location = minus1_64 then (False, sc1)
        else let sc2 = sc1\<lparr>swap_cache_map := AList.update k swap_location (swap_cache_map sc1)\<rparr> in
             if m_swap_size sc2 < length (swap_cache_map sc2)
             then (False, sc2\<lparr>failed_swap_outs_space := add64 (failed_swap_outs_space sc2) 1\<rparr>)
             else (True, sc2\<lparr>swap_outs := add64 (swap_outs sc2) 1\<rparr>))"

definition swapIn :: "swap_cache \<Rightarrow> swap_key \<Rightarrow> swap_cache" where
  "swapIn sc k = sc\<lparr>swap_cache_map := AList.delete k (swap_cache_map sc), swap_ins := add64 (swap_ins sc) 1\<rparr>"

section \<open>Invariant\<close>

definition used_slots :: "swap_cache \<Rightarrow> nat" where
  "used_slots sc = length (filter id (swap_slots sc))"

definition swap_inv :: "swap_cache \<Rightarrow> bool" where
  "swap_inv sc \<longleftrightarrow>
     length (swap_slots sc) = m_swap_size sc \<and> m_swap_size sc < 2 ^ 31 \<and>
     distinct (map fst (swap_cache_map sc)) \<and> distinct (map snd (swap_cache_map sc)) \<and>
     (\<forall>e \<in> set (swap_cache_map sc). snd e < length (swap_slots sc) \<and> swap_slots sc ! snd e) \<and>
     swap_outs sc = used_slots sc \<and> failed_swap_outs_space sc = 0"

lemma swap_invD:
  assumes "swap_inv sc"
  shows "length (swap_slots sc) = m_swap_size sc" "m_swap_size sc < 2 ^ 31"
    "distinct (map fst (swap_cache_map sc))" "distinct (map snd (swap_cache_map sc))"
    "\<And>k l. (k, l) \<in> set (swap_cache_map sc) \<Longrightarrow> l < length (swap_slots sc) \<and> swap_slots sc ! l"
    "swap_outs sc = used_slots sc" "failed_swap_outs_space sc = 0"
  using assms by (auto simp: swap_inv_def)

lemma swap_cache_new_inv: "swap_size_mb < 2 ^ 21 \<Longrightarrow> swap_inv (swap_cache_new swap_size_mb)"
  by (simp add: swap_inv_def swap_cache_new_def Let_def used_slots_def filter_replicate)

text \<open>Locations of a well-formed map lie in distinct used slots, so the map never outgrows the store.\<close>

lemma map_size_le:
  assumes "distinct (map snd m)" "\<forall>e \<in> set m. snd e < (n :: nat)"
  shows "length m \<le> n"
proof -
  have "length m = card (set (map snd m))" using distinct_card [OF assms(1)] by simp
  also have "\<dots> \<le> card {..<n}" by (rule card_mono) (use assms(2) in auto)
  finally show ?thesis by simp
qed

lemma set_AList_update_subset: "set (AList.update k v m) \<subseteq> insert (k, v) (set m)"
  by (induction m) auto

lemma AList_update_locations:
  "distinct (map snd m) \<Longrightarrow> v \<notin> snd ` set m \<Longrightarrow> distinct (map snd (AList.update k v m))"
proof (induction m)
  case (Cons p ps)
  then show ?case using set_AList_update_subset [of k v ps] by (cases p) force
qed simp

lemma swapOut_full:
  assumes "swap_inv sc" "used_slots sc = m_swap_size sc"
  shows "swapOut sc k = (False, sc)"
proof -
  have "length (filter id (swap_slots sc)) = length (swap_slots sc)"
    using assms(2) swap_invD(1) [OF assms(1)] by (simp add: used_slots_def)
  then have "b" if "b \<in> set (swap_slots sc)" for b
    using length_filter_less [of b "swap_slots sc" id] that by (metis id_apply less_irrefl)
  then have "find_index Not (swap_slots sc) = None" unfolding find_index_None_iff by blast
  then show ?thesis by (simp add: swapOut_def findFreePage_def minus1_64_def)
qed

lemma swapOut_room:
  assumes inv: "swap_inv sc" and room: "used_slots sc < m_swap_size sc"
  shows "\<exists>i sc'. swapOut sc k = (True, sc') \<and> swap_inv sc' \<and> i < m_swap_size sc \<and> \<not> swap_slots sc ! i \<and>
    swap_cache_map sc' = AList.update k i (swap_cache_map sc) \<and>
    swap_slots sc' = (swap_slots sc)[i := True] \<and> m_swap_size sc' = m_swap_size sc \<and>
    swap_outs sc' = swap_outs sc + 1"
proof -
  note d = swap_invD [OF inv]
  have "find_index Not (swap_slots sc) \<noteq> None"
  proof
    assume "find_index Not (swap_slots sc) = None"
    then have "filter id (swap_slots sc) = swap_slots sc" by (simp add: find_index_None_iff filter_id_conv)
    with room d(1) show False by (simp add: used_slots_def)
  qed
  then obtain i where f: "find_index Not (swap_slots sc) = Some i" by blast
  from find_index_SomeD [OF f] have i: "i < length (swap_slots sc)" "\<not> swap_slots sc ! i" by simp_all
  let ?m = "AList.update k i (swap_cache_map sc)"
  have fresh: "i \<notin> snd ` set (swap_cache_map sc)" using d(5) i(2) by auto
  have dist: "distinct (map fst ?m)" "distinct (map snd ?m)"
    using d(3,4) AList_update_locations [OF d(4) fresh] by (simp_all add: distinct_update)
  have locs: "\<forall>e \<in> set ?m. snd e < length (swap_slots sc) \<and> (swap_slots sc)[i := True] ! snd e"
  proof
    fix e assume "e \<in> set ?m"
    then consider "e = (k, i)" | "e \<in> set (swap_cache_map sc)"
      using set_AList_update_subset [of k i "swap_cache_map sc"] by blast
    then show "snd e < length (swap_slots sc) \<and> (swap_slots sc)[i := True] ! snd e"
      using i(1) d(5) [of "fst e" "snd e"] by cases (auto simp: nth_list_update)
  qed
  have le: "length ?m \<le> m_swap_size sc"
    using map_size_le [OF dist(2), of "length (swap_slots sc)"] locs d(1) by simp
  have ne: "i \<noteq> minus1_64" using i(1) d(1,2) by (simp add: minus1_64_def)
  have used: "length (filter id ((swap_slots sc)[i := True])) = used_slots sc + 1"
    using length_filter_update [OF i(1), of id True] i(2) by (simp add: used_slots_def)
  have out: "add64 (swap_outs sc) 1 = swap_outs sc + 1"
    using d(2,6) room by (intro add64_exact) simp
  let ?sc = "sc\<lparr>swap_slots := (swap_slots sc)[i := True], swap_cache_map := ?m,
      swap_outs := add64 (swap_outs sc) 1\<rparr>"
  have "swapOut sc k = (True, ?sc)"
    using f ne le by (simp add: swapOut_def findFreePage_def Let_def)
  moreover have "swap_inv ?sc"
    using d dist locs used out by (simp add: swap_inv_def used_slots_def)
  ultimately show ?thesis using i d(1) out by (intro exI [of _ i] exI [of _ ?sc]) simp
qed

lemma swapIn_inv: "swap_inv sc \<Longrightarrow> swap_inv (swapIn sc k)"
  unfolding swap_inv_def swapIn_def used_slots_def
  by (auto simp: distinct_delete AList.delete_eq distinct_map inj_on_def)

lemma swap_lookup_In: "swap_lookup (swapIn sc k) x \<longleftrightarrow> x \<noteq> k \<and> swap_lookup sc x"
  by (simp add: swap_lookup_def swapIn_def delete_conv')

lemma swapOut_cases:
  assumes "swap_inv sc"
  obtains (full) "used_slots sc = m_swap_size sc" "swapOut sc k = (False, sc)"
  | (room) i sc' where "used_slots sc < m_swap_size sc" "swapOut sc k = (True, sc')" "swap_inv sc'"
      "swap_cache_map sc' = AList.update k i (swap_cache_map sc)"
proof -
  have "used_slots sc \<le> m_swap_size sc"
    using swap_invD(1) [OF assms] length_filter_le [of id "swap_slots sc"] by (simp add: used_slots_def)
  then consider "used_slots sc = m_swap_size sc" | "used_slots sc < m_swap_size sc" by linarith
  then show ?thesis
    using swapOut_full [OF assms, of k] swapOut_room [OF assms, of k] full room by metis
qed

interpretation swap: key_store swap_inv swap_lookup swapOut swapIn
proof unfold_locales
  fix s k ok s' x
  show "swap_inv s'" if "swap_inv s" "swapOut s k = (ok, s')"
    by (cases rule: swapOut_cases [OF that(1), of k]) (use that in auto)
  show "swap_inv (swapIn s k)" if "swap_inv s" by (rule swapIn_inv [OF that])
  show "swap_lookup s' x \<longleftrightarrow> (ok \<and> x = k) \<or> swap_lookup s x" if "swap_inv s" "swapOut s k = (ok, s')"
    by (cases rule: swapOut_cases [OF that(1), of k]) (use that in \<open>auto simp: swap_lookup_def update_conv'\<close>)
  show "swap_lookup (swapIn s k) x \<longleftrightarrow> x \<noteq> k \<and> swap_lookup s x" by (rule swap_lookup_In)
qed

section \<open>Reachable states\<close>

inductive swap_step :: "swap_cache \<Rightarrow> swap_cache \<Rightarrow> bool" where
  swap_out: "swapOut sc k = (ok, sc') \<Longrightarrow> swap_step sc sc'"
| swap_in: "swap_step sc (swapIn sc k)"

lemma swap_reach_inv:
  assumes "swap_step\<^sup>*\<^sup>* sc sc'" "swap_inv sc"
  shows "swap_inv sc' \<and> m_swap_size sc' = m_swap_size sc"
  using assms
proof (induction rule: rtranclp_induct)
  case (step s t)
  then have s: "swap_inv s" by simp
  have "m_swap_size t = m_swap_size s" using step(2)
    by cases (auto simp: swapOut_def findFreePage_def swapIn_def Let_def split: option.splits if_splits)
  moreover have "swap_inv t" using step(2) s
    by cases (auto intro: swap.ins_inv swapIn_inv)
  ultimately show ?case using step by simp
qed simp

section \<open>Properties\<close>

text \<open>
  C28: over any run of swap-outs and swap-ins the pages found by \<open>lookup\<close> are
  exactly those the reports of the run describe: successfully swapped out and not
  swapped in since.
\<close>

theorem swap_cache_refines_set:
  assumes "swap_size_mb < 2 ^ 21"
    and "run_ops swapOut swapIn (swap_cache_new swap_size_mb) ops = (oks, sc)"
  shows "{k. swap_lookup sc k} = abstract_ops {} ops oks"
proof -
  have "{k. swap_lookup (swap_cache_new swap_size_mb) k} = {}"
    by (simp add: swap_lookup_def swap_cache_new_def Let_def)
  with swap.run_ops_refines [OF swap_cache_new_inv [OF assms(1)] assms(2)] show ?thesis by simp
qed

text \<open>
  \<open>swapIn\<close> never marks a slot free again, so a swap-out succeeds exactly as
  long as fewer swap-outs than slots have ever succeeded, however many pages have
  been swapped in meanwhile; the counter of failures for lack of space is never
  incremented.
\<close>

lemma swap_slots_never_reused:
  assumes "swap_size_mb < 2 ^ 21" "swap_step\<^sup>*\<^sup>* (swap_cache_new swap_size_mb) sc"
  shows "(fst (swapOut sc k) \<longleftrightarrow> swap_outs sc < swap_size_mb * 256) \<and>
    swap_outs sc \<le> swap_size_mb * 256 \<and> failed_swap_outs_space sc = 0"
proof -
  from swap_reach_inv [OF assms(2) swap_cache_new_inv [OF assms(1)]]
  have inv: "swap_inv sc" and n: "m_swap_size sc = swap_size_mb * 256"
    by (simp_all add: swap_cache_new_def Let_def)
  note d = swap_invD [OF inv]
  show ?thesis using n d(6,7)
    by (cases rule: swapOut_cases [OF inv, of k]) auto
qed

definition one_swapped :: swap_cache where
  "one_swapped = snd (swapOut (swap_cache_new 1) (5, 0))"

lemma one_swapped_out: "swapOut (swap_cache_new 1) (5, 0) = (True, one_swapped)"
proof -
  have "used_slots (swap_cache_new 1) < m_swap_size (swap_cache_new 1)"
    by (simp add: used_slots_def swap_cache_new_def Let_def filter_replicate)
  from swapOut_room [OF swap_cache_new_inv this, of "(5, 0)"] show ?thesis
    by (auto simp: one_swapped_def)
qed

theorem swap_cache_refines_set_witness:
  "{k. swap_lookup (swapIn one_swapped (5, 0)) k} = {}"
  using swap_cache_refines_set [of 1 "[Insert (5, 0), Erase (5, 0)]" "[True, True]" "swapIn one_swapped (5, 0)"]
  by (simp add: one_swapped_out [unfolded One_nat_def])

end
