(* ===== verification/Eager_Paging.thy ===== *)
theory Eager_Paging
  imports Phys_Alloc
begin

text \<open>
  Virtual memory areas (\<open>vma.h\<close>) and the eager-paging allocator
  (\<open>eager_paging.h\<close>), which backs a whole area by ranges of contiguous physical
  pages, the largest block that fits first. The theory shows that the greedy loop
  covers the area by consecutive ranges over fresh, pairwise disjoint frames, and
  that it stops short only when the buddy allocator has no free page left.
\<close>

section \<open>Virtual memory areas\<close>

record Range =
  rng_vpn :: u64
  rng_bounds :: u64
  rng_offset :: u64

record VMA =
  vbase :: u64
  vend :: u64
  physical_ranges :: "Range list"
  vma_allocated :: bool
  successful_offsetbased_allocations :: int
  physical_offset :: u64

definition VMA_new :: "u64 \<Rightarrow> u64 \<Rightarrow> VMA" where
  "VMA_new base end = \<lparr> vbase = base, vend = end, physical_ranges = [], vma_allocated = False,
     successful_offsetbased_allocations = 0, physical_offset = minus1_64 \<rparr>"

definition vma_contains :: "VMA \<Rightarrow> u64 \<Rightarrow> bool" where
  "vma_contains v address \<longleftrightarrow> vbase v \<le> address \<and> address < vend v"

definition addPhysicalRange :: "VMA \<Rightarrow> Range \<Rightarrow> VMA" where
  "addPhysicalRange v r = v\<lparr>physical_ranges := physical_ranges v @ [r]\<rparr>"

section \<open>The allocator\<close>

record eager_paging =
  ep_buddy :: buddy
  total_allocated_vmas :: u64
  total_allocated_physical_ranges :: u64

definition eager_paging_new :: "nat \<Rightarrow> nat \<Rightarrow> nat \<Rightarrow> eager_paging" where
  "eager_paging_new memory_size max_order kernel_size =
     \<lparr> ep_buddy = buddy_new memory_size max_order kernel_size,
       total_allocated_vmas = 0, total_allocated_physical_ranges = 0 \<rparr>"

definition eager_allocate :: "eager_paging \<Rightarrow> u64 \<Rightarrow> ((u64 \<times> u64) \<times> eager_paging) outcome" where
  "eager_allocate ep sz =
     (case allocate (ep_buddy ep) sz of
        Inl e \<Rightarrow> Inl e
      | Inr (ppn, bd) \<Rightarrow> Inr ((ppn, if 2 ^ 21 \<le> sz then 21 else 12), ep\<lparr>ep_buddy := bd\<rparr>))"

definition eager_givePageFast :: "eager_paging \<Rightarrow> u64 \<Rightarrow> (u64 \<times> eager_paging) outcome" where
  "eager_givePageFast ep bytes =
     (case allocate (ep_buddy ep) bytes of
        Inl e \<Rightarrow> Inl e
      | Inr (ppn, bd) \<Rightarrow> Inr (ppn, ep\<lparr>ep_buddy := bd\<rparr>))"

text \<open>
  The inner loop of \<open>allocate_ranges\<close>; the first argument is \<open>order + 1\<close>. The
  result is the size of the block found, its first page and the allocator.
\<close>

fun try_orders :: "nat \<Rightarrow> buddy \<Rightarrow> (nat \<times> u64 \<times> buddy) outcome" where
  "try_orders 0 bd = Inr (1, minus1_64, bd)"
| "try_orders (Suc order) bd =
     (case allocate bd (2 ^ order * 4096) of
        Inl e \<Rightarrow> Inl e
      | Inr (ppn, bd') \<Rightarrow> if ppn = minus1_64 then try_orders order bd' else Inr (2 ^ order, ppn, bd'))"

lemma try_orders_pos: "try_orders n bd = Inr (k, ppn, bd') \<Longrightarrow> 0 < k"
  by (induction n bd rule: try_orders.induct) (auto split: sum.splits if_splits prod.splits)

text \<open>The outer loop; \<open>remaining_pages\<close> is positive whenever its body runs, so it is a natural number.\<close>

function range_loop :: "nat \<Rightarrow> u64 \<Rightarrow> buddy \<Rightarrow> (Range list \<times> buddy) outcome" where
  "range_loop remaining current_vpn bd =
     (if remaining = 0 then Inr ([], bd)
      else case try_orders (Suc (min (floor_log2 remaining) (m_max_order bd))) bd of
             Inl e \<Rightarrow> Inl e
           | Inr (found_pages, ppn, bd') \<Rightarrow>
               if ppn = minus1_64 then Inr ([], bd')
               else (case range_loop (remaining - found_pages) (add64 current_vpn found_pages) bd' of
                       Inl e \<Rightarrow> Inl e
                     | Inr (rs, bd'') \<Rightarrow>
                         Inr (\<lparr>rng_vpn = current_vpn, rng_bounds = found_pages, rng_offset = ppn\<rparr> # rs, bd'')))"
  by pat_completeness auto
termination
  by (relation "measure (\<lambda>(n, v, bd). n)") (auto simp del: try_orders.simps dest: try_orders_pos)

declare range_loop.simps [simp del]

definition allocate_ranges :: "eager_paging \<Rightarrow> u64 \<Rightarrow> u64 \<Rightarrow> (Range list \<times> eager_paging) outcome" where
  "allocate_ranges ep start_va end_va =
     (let remaining_pages = to_int32 (sub64 end_va start_va div 4096) in
      case range_loop (nat remaining_pages) (start_va div 4096) (ep_buddy ep) of
        Inl e \<Rightarrow> Inl e
      | Inr (rs, bd) \<Rightarrow>
          Inr (rs, ep\<lparr>ep_buddy := bd,
             total_allocated_physical_ranges := add64 (total_allocated_physical_ranges ep) (length rs),
             total_allocated_vmas := add64 (total_allocated_vmas ep) 1\<rparr>))"

section \<open>The greedy loop\<close>

definition range_vpns :: "Range \<Rightarrow> nat list" where
  "range_vpns r = [rng_vpn r..<rng_vpn r + rng_bounds r]"

definition range_frames :: "Range \<Rightarrow> nat list" where
  "range_frames r = [rng_offset r..<rng_offset r + rng_bounds r]"

lemma floor_log2_mono_bound: "0 < n \<Longrightarrow> k \<le> floor_log2 n \<Longrightarrow> 2 ^ k \<le> n"
  using floor_log2_le [of n] power_increasing [of k "floor_log2 n" "2::nat"] by linarith

lemma allocate_block:
  assumes inv: "buddy_inv bd" and o: "order \<le> m_max_order bd"
  obtains (fail) "allocate bd (2 ^ order * 4096) = Inr (minus1_64, bd)"
      "\<forall>j \<ge> order. j \<le> m_max_order bd \<longrightarrow> free_list bd ! j = []"
  | (found) p bd' where "allocate bd (2 ^ order * 4096) = Inr (p, bd')" "p \<noteq> minus1_64" "buddy_inv bd'"
      "m_max_order bd' = m_max_order bd"
      "free_pages (free_list bd') + mset [p..<p + 2 ^ order] = free_pages (free_list bd)"
proof (cases "\<exists>j \<ge> order. j \<le> m_max_order bd \<and> free_list bd ! j \<noteq> []")
  case True
  then obtain j where j: "order \<le> j" "j \<le> m_max_order bd" "free_list bd ! j \<noteq> []" by blast
  have n: "4096 \<le> 2 ^ order * (4096::nat)" "2 ^ order * 4096 div 4096 = (2::nat) ^ order" by simp_all
  from allocate_found [OF inv n(1), unfolded n(2) ceil_log2_power, OF j] obtain p bd' where
    a: "allocate bd (2 ^ order * 4096) = Inr (p, bd')" "p + 2 ^ order < 2 ^ 64" "buddy_inv bd'"
    "m_max_order bd' = m_max_order bd"
    "free_pages (free_list bd') + mset [p..<p + 2 ^ order] = free_pages (free_list bd)" by blast
  have "0 < (2::nat) ^ order" by simp
  then have "p \<noteq> minus1_64" using a(2) unfolding minus1_64_def by linarith
  then show ?thesis by (rule found [OF a(1) _ a(3-5)])
next
  case False
  have n: "4096 \<le> 2 ^ order * (4096::nat)" "2 ^ order * 4096 div 4096 = (2::nat) ^ order" by simp_all
  from False allocate_out_of_memory [OF n(1), of bd] o show ?thesis
    using fail by (simp add: n(2))
qed

lemma no_free_pages:
  assumes inv: "buddy_inv bd" and none: "\<forall>j. j \<le> m_max_order bd \<longrightarrow> free_list bd ! j = []"
  shows "free_pages (free_list bd) = {#}"
proof -
  have "free_list bd ! i = []" if "i < length (free_list bd)" for i
    using that none buddy_invD(3) [OF inv _ that] by (cases "i \<le> m_max_order bd") auto
  then have "\<forall>xs \<in> set (free_list bd). xs = []" by (metis in_set_conv_nth)
  then have "concat (free_list bd) = []" by (simp only: concat_eq_Nil_conv)
  then show ?thesis by (simp only: free_pages_def pages_of_simps)
qed

lemma try_orders_ok:
  assumes "buddy_inv bd" "n \<le> Suc (m_max_order bd)" "0 < n"
  shows "\<exists>k p bd'. try_orders n bd = Inr (k, p, bd') \<and> buddy_inv bd' \<and> m_max_order bd' = m_max_order bd \<and>
    (if p = minus1_64 then bd' = bd \<and> free_pages (free_list bd) = {#}
     else (\<exists>i < n. k = 2 ^ i) \<and> free_pages (free_list bd') + mset [p..<p + k] = free_pages (free_list bd))"
  using assms
proof (induction n)
  case (Suc order)
  have o: "order \<le> m_max_order bd" using Suc.prems(2) by simp
  show ?case
  proof (cases rule: allocate_block [OF Suc.prems(1) o])
    case 1
    show ?thesis
    proof (cases order)
      case 0
      with 1 no_free_pages [OF Suc.prems(1)] Suc.prems(1) show ?thesis by simp
    next
      case (Suc m)
      then have "0 < order" by simp
      from Suc.IH [OF Suc.prems(1) _ this] 1 o obtain k p bd' where
        IH: "try_orders order bd = Inr (k, p, bd')" "buddy_inv bd'" "m_max_order bd' = m_max_order bd"
        "if p = minus1_64 then bd' = bd \<and> free_pages (free_list bd) = {#}
         else (\<exists>i < order. k = 2 ^ i) \<and> free_pages (free_list bd') + mset [p..<p + k] = free_pages (free_list bd)"
        by auto
      moreover have "try_orders (Suc order) bd = try_orders order bd" using 1(1) by simp
      moreover have "\<exists>i < Suc order. k = 2 ^ i" if "\<exists>i < order. k = 2 ^ i"
        using that less_SucI by blast
      ultimately show ?thesis by (intro exI [of _ k] exI [of _ p] exI [of _ bd']) metis
    qed
  next
    case (2 p bd')
    then show ?thesis by (auto simp del: mset_upt)
  qed
qed simp

text \<open>One iteration of the outer loop.\<close>

lemma try_largest:
  assumes inv: "buddy_inv bd" and n: "0 < n"
  obtains (out) k where "try_orders (Suc (min (floor_log2 n) (m_max_order bd))) bd = Inr (k, minus1_64, bd)"
      "free_pages (free_list bd) = {#}"
  | (found) k p bd' where "try_orders (Suc (min (floor_log2 n) (m_max_order bd))) bd = Inr (k, p, bd')"
      "p \<noteq> minus1_64" "buddy_inv bd'" "0 < k" "k \<le> n"
      "free_pages (free_list bd') + mset [p..<p + k] = free_pages (free_list bd)"
proof -
  let ?o = "Suc (min (floor_log2 n) (m_max_order bd))"
  have "?o \<le> Suc (m_max_order bd)" "0 < ?o" by simp_all
  from try_orders_ok [OF inv this] obtain k p bd' where
    t: "try_orders ?o bd = Inr (k, p, bd')" "buddy_inv bd'"
    "if p = minus1_64 then bd' = bd \<and> free_pages (free_list bd) = {#}
     else (\<exists>i < ?o. k = 2 ^ i) \<and> free_pages (free_list bd') + mset [p..<p + k] = free_pages (free_list bd)"
    by blast
  show ?thesis
  proof (cases "p = minus1_64")
    case True
    then show ?thesis using out t by auto
  next
    case False
    then obtain i where i: "i < ?o" "k = 2 ^ i" using t(3) by auto
    then have "k \<le> n" using floor_log2_mono_bound [OF n, of i] by simp
    with False i t show ?thesis by (intro found [OF t(1) False t(2)]) (simp_all del: mset_upt)
  qed
qed

lemma range_loop_ok:
  "buddy_inv bd \<Longrightarrow> vpn + n < 2 ^ 64 \<Longrightarrow>
   \<exists>rs bd' m. range_loop n vpn bd = Inr (rs, bd') \<and> buddy_inv bd' \<and> m \<le> n \<and>
     concat (map range_vpns rs) = [vpn..<vpn + m] \<and>
     free_pages (free_list bd') + mset (concat (map range_frames rs)) = free_pages (free_list bd) \<and>
     (m < n \<longrightarrow> free_pages (free_list bd') = {#})"
proof (induction n arbitrary: vpn bd rule: less_induct)
  case (less n)
  show ?case
  proof (cases "n = 0")
    case True
    then have "range_loop n vpn bd = Inr ([], bd)" by (simp add: range_loop.simps [of 0])
    with True less.prems(1) show ?thesis by (intro exI [of _ "[]"] exI [of _ bd] exI [of _ 0]) simp
  next
    case False
    then have n: "0 < n" by simp
    from less.prems(1) n show ?thesis
    proof (cases rule: try_largest)
      case (out k)
      then have "range_loop n vpn bd = Inr ([], bd)"
        using n by (simp add: range_loop.simps [of n] del: try_orders.simps)
      with less.prems(1) out(2) show ?thesis by (intro exI [of _ "[]"] exI [of _ bd] exI [of _ 0]) simp
    next
      case (found k p bd')
      have v: "add64 vpn k = vpn + k" using less.prems(2) found(5) by (intro add64_exact) linarith
      have "n - k < n" "vpn + k + (n - k) < 2 ^ 64" using found(4,5) less.prems(2) by linarith+
      from less.IH [OF this(1) found(3) this(2)] obtain rs bd'' m where
        r: "range_loop (n - k) (vpn + k) bd' = Inr (rs, bd'')" "buddy_inv bd''" "m \<le> n - k"
        "concat (map range_vpns rs) = [vpn + k..<vpn + k + m]"
        "free_pages (free_list bd'') + mset (concat (map range_frames rs)) = free_pages (free_list bd')"
        "m < n - k \<longrightarrow> free_pages (free_list bd'') = {#}" by blast
      let ?r = "\<lparr>rng_vpn = vpn, rng_bounds = k, rng_offset = p\<rparr>"
      have "range_loop n vpn bd = Inr (?r # rs, bd'')"
        using n found(1,2) r(1) v by (simp add: range_loop.simps [of n] del: try_orders.simps)
      moreover have "concat (map range_vpns (?r # rs)) = [vpn..<vpn + (k + m)]"
        using r(4) upt_add_eq_append [of vpn "vpn + k" m] by (simp add: range_vpns_def add.assoc)
      moreover have "free_pages (free_list bd'') + mset (concat (map range_frames (?r # rs))) =
          free_pages (free_list bd)"
        unfolding found(6) [symmetric] r(5) [symmetric] by (simp add: range_frames_def ac_simps)
      ultimately show ?thesis using r(2,3,6) found(5)
        by (intro exI [of _ "?r # rs"] exI [of _ bd''] exI [of _ "k + m"]) simp
    qed
  qed
qed

section \<open>Properties\<close>

text \<open>
  C29: for a page-aligned area \<open>allocate_ranges\<close> always returns. Its ranges follow
  each other in the virtual address space from the start of the area; their frames
  are distinct and were free before; and the whole area is covered exactly when the
  allocator has that many free pages, otherwise every free page has been used.
\<close>

theorem allocate_ranges_correct:
  assumes "buddy_inv (ep_buddy ep)" "start_va + n * 4096 < 2 ^ 64" "n < 2 ^ 31"
  shows "\<exists>rs ep' m. allocate_ranges ep start_va (start_va + n * 4096) = Inr (rs, ep') \<and>
    buddy_inv (ep_buddy ep') \<and>
    concat (map range_vpns rs) = [start_va div 4096..<start_va div 4096 + m] \<and>
    distinct (concat (map range_frames rs)) \<and>
    free_pages (free_list (ep_buddy ep')) + mset (concat (map range_frames rs)) =
      free_pages (free_list (ep_buddy ep)) \<and>
    m = min n (size (free_pages (free_list (ep_buddy ep))))"
proof -
  let ?F = "free_pages (free_list (ep_buddy ep))"
  have "sub64 (start_va + n * 4096) start_va = n * 4096" using assms(2) by (simp add: sub64_exact)
  then have r: "nat (to_int32 (sub64 (start_va + n * 4096) start_va div 4096)) = n"
    using assms(3) by (simp add: to_int32_exact)
  have v: "start_va div 4096 + n < 2 ^ 64" using assms(2) by linarith
  from range_loop_ok [OF assms(1) v] obtain rs bd m where
    l: "range_loop n (start_va div 4096) (ep_buddy ep) = Inr (rs, bd)" "buddy_inv bd" "m \<le> n"
    "concat (map range_vpns rs) = [start_va div 4096..<start_va div 4096 + m]"
    "free_pages (free_list bd) + mset (concat (map range_frames rs)) = ?F"
    "m < n \<longrightarrow> free_pages (free_list bd) = {#}" by blast
  have "length (concat (map range_frames rs)) = length (concat (map range_vpns rs))"
    by (induction rs) (simp_all add: range_frames_def range_vpns_def)
  then have "length (concat (map range_frames rs)) = m" using l(4) by simp
  then have "size ?F = size (free_pages (free_list bd)) + m"
    unfolding l(5) [symmetric] by (simp only: size_union size_mset)
  then have m: "m = min n (size ?F)" using l(3,6) by (cases "m < n") auto
  have "count (mset (concat (map range_frames rs))) f \<le> 1" for f
    using buddy_invD(4) [OF assms(1), of f] unfolding l(5) [symmetric] by (simp only: count_union)
  then have "distinct (concat (map range_frames rs))" by (rule distinct_if_count_le1)
  then show ?thesis using l m r by (simp add: allocate_ranges_def Let_def)
qed

theorem allocate_ranges_correct_witness:
  "\<exists>rs ep' m. allocate_ranges (eager_paging_new 2 4 1) 8192 (8192 + 5 * 4096) = Inr (rs, ep') \<and>
    buddy_inv (ep_buddy ep') \<and>
    concat (map range_vpns rs) = [8192 div 4096..<8192 div 4096 + m] \<and>
    distinct (concat (map range_frames rs)) \<and>
    free_pages (free_list (ep_buddy ep')) + mset (concat (map range_frames rs)) =
      free_pages (free_list (ep_buddy (eager_paging_new 2 4 1))) \<and>
    m = min 5 (size (free_pages (free_list (ep_buddy (eager_paging_new 2 4 1)))))"
proof (rule allocate_ranges_correct)
  show "buddy_inv (ep_buddy (eager_paging_new 2 4 1))"
    unfolding eager_paging_new_def by (simp add: buddy_new_ok(1))
qed simp_all

end
