(* ===== verification/Cache_Set.thy ===== *)
theory Cache_Set
  imports Prelude
begin

text \<open>
  One set of a cache or TLB (\<open>cache_set.cc\<close>, \<open>cache_block_info.cc\<close>): an array of
  blocks, searched from the highest way down, filled through a replacement policy.
  The policy is a virtual method of the class, so \<open>insert\<close> takes it as an argument;
  the locales \<open>replacement\<close> and \<open>invalid_first\<close> state what a policy promises and
  what an insertion achieves under that promise.
\<close>

section \<open>Blocks\<close>

datatype cstate = INVALID | SHARED | SHARED_UPGRADING | EXCLUSIVE | OWNED | MODIFIED

datatype block_type = PAGE_TABLE_DATA | PAGE_TABLE_INSTRUCTION | UTOPIA_FP | UTOPIA_TAR
  | UTOPIA_RADIX_INTERNAL | UTOPIA_RADIX_LEAF | INSTRUCTION | DATA

definition isMetadataBlockType :: "block_type \<Rightarrow> bool" where
  "isMetadataBlockType t \<longleftrightarrow> t = PAGE_TABLE_DATA \<or> t = PAGE_TABLE_INSTRUCTION \<or> t = UTOPIA_FP \<or>
     t = UTOPIA_TAR \<or> t = UTOPIA_RADIX_INTERNAL \<or> t = UTOPIA_RADIX_LEAF"

record cache_block =
  cb_ppn :: u64
  cb_tlb_entry :: bool
  cb_page_size :: int
  cb_tag :: u64
  cb_cstate :: cstate
  cb_owner :: u64
  cb_used :: nat
  cb_options :: nat
  cb_block_type :: block_type
  cb_reuse :: int
  cb_utilization :: int

definition cache_block_new :: "u64 \<Rightarrow> cstate \<Rightarrow> nat \<Rightarrow> cache_block" where
  "cache_block_new tag st options =
     \<lparr> cb_ppn = 0, cb_tlb_entry = False, cb_page_size = 0, cb_tag = tag, cb_cstate = st, cb_owner = 0,
       cb_used = 0, cb_options = options, cb_block_type = DATA, cb_reuse = 0, cb_utilization = 0 \<rparr>"

definition isValid :: "cache_block \<Rightarrow> bool" where
  "isValid b \<longleftrightarrow> cb_tag b \<noteq> minus1_64"

definition block_invalidate :: "cache_block \<Rightarrow> cache_block" where
  "block_invalidate b = b\<lparr>cb_tag := minus1_64, cb_cstate := INVALID\<rparr>"

text \<open>\<open>clone\<close> copies everything but the TLB flag and the utilisation.\<close>

definition clone :: "cache_block \<Rightarrow> cache_block \<Rightarrow> cache_block" where
  "clone dst src = dst\<lparr>cb_tag := cb_tag src, cb_cstate := cb_cstate src, cb_owner := cb_owner src,
     cb_used := cb_used src, cb_options := cb_options src, cb_block_type := cb_block_type src,
     cb_reuse := cb_reuse src, cb_page_size := cb_page_size src, cb_ppn := cb_ppn src\<rparr>"

definition isPageTableBlock :: "cache_block \<Rightarrow> bool" where
  "isPageTableBlock b \<longleftrightarrow> isMetadataBlockType (cb_block_type b)"

section \<open>Sets\<close>

record cache_set =
  cs_blocks :: "cache_block list"
  cs_inserts :: nat
  cs_evictions :: nat
  cs_invalidations :: nat

definition add32 :: "nat \<Rightarrow> nat \<Rightarrow> nat" where
  "add32 a b = (a + b) mod 2 ^ 32"

definition cache_set_new :: "nat \<Rightarrow> cache_set" where
  "cache_set_new associativity =
     \<lparr> cs_blocks = replicate associativity (cache_block_new minus1_64 INVALID 0),
       cs_inserts = 0, cs_evictions = 0, cs_invalidations = 0 \<rparr>"

text \<open>The highest index with a property: a loop from \<open>m_associativity - 1\<close> down to 0.\<close>

fun find_down :: "('a \<Rightarrow> bool) \<Rightarrow> 'a list \<Rightarrow> nat \<Rightarrow> nat option" where
  "find_down P xs 0 = None"
| "find_down P xs (Suc i) = (if P (xs ! i) then Some i else find_down P xs i)"

definition find_tag :: "cache_set \<Rightarrow> u64 \<Rightarrow> nat option" where
  "find_tag cs tag = find_down (\<lambda>b. cb_tag b = tag) (cs_blocks cs) (length (cs_blocks cs))"

definition findTLB :: "cache_set \<Rightarrow> u64 \<Rightarrow> int \<Rightarrow> nat option" where
  "findTLB cs tag page_size =
     find_down (\<lambda>b. cb_tag b = tag \<and> cb_page_size b = page_size) (cs_blocks cs) (length (cs_blocks cs))"

text \<open>\<open>invalidate\<close>: the first match only; the counter is incremented after the return statement, that is, never.\<close>

definition set_invalidate :: "cache_set \<Rightarrow> u64 \<Rightarrow> bool \<times> cache_set" where
  "set_invalidate cs tag =
     (case find_tag cs tag of
        Some i \<Rightarrow> (True, cs\<lparr>cs_blocks := (cs_blocks cs)[i := block_invalidate (cs_blocks cs ! i)]\<rparr>)
      | None \<Rightarrow> (False, cs))"

text \<open>\<open>invalidateTLB\<close>: every match.\<close>

definition invalidateTLB :: "cache_set \<Rightarrow> u64 \<Rightarrow> int \<Rightarrow> bool \<times> cache_set" where
  "invalidateTLB cs tag page_size =
     (let hit = (\<lambda>b. cb_tag b = tag \<and> cb_page_size b = page_size);
          n = length (filter hit (cs_blocks cs))
      in (0 < n, cs\<lparr>cs_blocks := map (\<lambda>b. if hit b then block_invalidate b else b) (cs_blocks cs),
                    cs_invalidations := add32 (cs_invalidations cs) n\<rparr>))"

text \<open>
  \<open>insert\<close>: the policy chooses the way; a valid block there is copied out and
  reported as evicted. The result is the evicted block, if any, the policy's state
  and the set.
\<close>

definition set_insert ::
  "('p \<Rightarrow> cache_block list \<Rightarrow> (nat \<times> 'p) outcome) \<Rightarrow> 'p \<Rightarrow> cache_set \<Rightarrow> cache_block \<Rightarrow> cache_block \<Rightarrow>
   (cache_block option \<times> 'p \<times> cache_set) outcome" where
  "set_insert getReplacementIndex p cs blk evict_info =
     (case getReplacementIndex p (cs_blocks cs) of
        Inl e \<Rightarrow> Inl e
      | Inr (index, p') \<Rightarrow>
          if length (cs_blocks cs) \<le> index then Inl Assertion_Failed
          else let old = cs_blocks cs ! index;
                   cs1 = (if isValid old then cs\<lparr>cs_evictions := add32 (cs_evictions cs) 1\<rparr> else cs)
               in Inr (if isValid old then Some (clone evict_info old) else None, p',
                       cs1\<lparr>cs_blocks := (cs_blocks cs)[index := clone old blk],
                           cs_inserts := add32 (cs_inserts cs) 1\<rparr>))"

definition isValidReplacement :: "cache_block list \<Rightarrow> nat \<Rightarrow> bool" where
  "isValidReplacement bs i \<longleftrightarrow> cb_cstate (bs ! i) \<noteq> SHARED_UPGRADING"

definition countPageWalkCacheBlocks :: "cache_set \<Rightarrow> nat" where
  "countPageWalkCacheBlocks cs = length (filter isPageTableBlock (cs_blocks cs))"

text \<open>The first invalid way: the loop every policy but round robin starts with.\<close>

definition first_invalid :: "cache_block list \<Rightarrow> nat option" where
  "first_invalid bs = find_index (\<lambda>b. \<not> isValid b) bs"

section \<open>Searching\<close>

lemma find_down_SomeD:
  "find_down P xs n = Some i \<Longrightarrow> i < n \<and> P (xs ! i) \<and> (\<forall>j. i < j \<longrightarrow> j < n \<longrightarrow> \<not> P (xs ! j))"
proof (induction n)
  case (Suc n)
  then show ?case by (auto split: if_splits simp: less_Suc_eq)
qed simp

lemma find_down_None_iff: "find_down P xs n = None \<longleftrightarrow> (\<forall>i < n. \<not> P (xs ! i))"
  by (induction n) (auto simp: less_Suc_eq)

lemma clone_sel [simp]:
  "cb_tag (clone d s) = cb_tag s" "cb_page_size (clone d s) = cb_page_size s" "cb_ppn (clone d s) = cb_ppn s"
  "isValid (clone d s) = isValid s"
  by (simp_all add: clone_def isValid_def)

lemma block_invalidate_sel [simp]: "cb_tag (block_invalidate b) = minus1_64" "\<not> isValid (block_invalidate b)"
  by (simp_all add: block_invalidate_def isValid_def)

lemma first_invalid_None: "first_invalid bs = None \<longleftrightarrow> (\<forall>b \<in> set bs. isValid b)"
  by (simp add: first_invalid_def find_index_None_iff)

lemma first_invalid_SomeD: "first_invalid bs = Some i \<Longrightarrow> i < length bs \<and> \<not> isValid (bs ! i)"
  using find_index_SomeD [of "\<lambda>b. \<not> isValid b" bs i] by (simp add: first_invalid_def)

section \<open>What a replacement policy promises\<close>

text \<open>
  \<open>inv n p\<close> is the policy's invariant for a set of \<open>n\<close> ways; \<open>victim\<close> is
  \<open>getReplacementIndex\<close>, \<open>touch\<close> is \<open>updateReplacementIndex\<close>.
\<close>

locale replacement =
  fixes inv :: "nat \<Rightarrow> 'p \<Rightarrow> bool"
    and victim :: "'p \<Rightarrow> cache_block list \<Rightarrow> (nat \<times> 'p) outcome"
    and touch :: "'p \<Rightarrow> cache_block list \<Rightarrow> nat \<Rightarrow> 'p outcome"
  assumes victim_range: "inv (length bs) p \<Longrightarrow> victim p bs = Inr (i, p') \<Longrightarrow> i < length bs"
    and victim_inv: "inv (length bs) p \<Longrightarrow> victim p bs = Inr (i, p') \<Longrightarrow> inv (length bs) p'"
    and touch_inv: "inv (length bs) p \<Longrightarrow> i < length bs \<Longrightarrow> touch p bs i = Inr p' \<Longrightarrow> inv (length bs) p'"
begin

text \<open>An insertion never fails the range assertion; afterwards the block is found and only one way has changed.\<close>

lemma insert_ok:
  assumes inv: "inv (length (cs_blocks cs)) p" and v: "victim p (cs_blocks cs) = Inr (i, p')"
  shows "\<exists>ev cs'. set_insert victim p cs blk info = Inr (ev, p', cs') \<and> inv (length (cs_blocks cs')) p' \<and>
    i < length (cs_blocks cs) \<and> cs_blocks cs' = (cs_blocks cs)[i := clone (cs_blocks cs ! i) blk] \<and>
    (\<exists>j. findTLB cs' (cb_tag blk) (cb_page_size blk) = Some j \<and> i \<le> j) \<and>
    map_option cb_tag ev = (if isValid (cs_blocks cs ! i) then Some (cb_tag (cs_blocks cs ! i)) else None)"
proof -
  have i: "i < length (cs_blocks cs)" by (rule victim_range [OF inv v])
  have inv': "inv (length (cs_blocks cs)) p'" by (rule victim_inv [OF inv v])
  define r where "r = set_insert victim p cs blk info"
  from v i obtain ev cs' where r: "r = Inr (ev, p', cs')"
    "cs_blocks cs' = (cs_blocks cs)[i := clone (cs_blocks cs ! i) blk]"
    "ev = (if isValid (cs_blocks cs ! i) then Some (clone info (cs_blocks cs ! i)) else None)"
    by (simp add: r_def set_insert_def Let_def)
  let ?P = "\<lambda>b. cb_tag b = cb_tag blk \<and> cb_page_size b = cb_page_size blk"
  have P: "?P (cs_blocks cs' ! i)" using i r(2) by simp
  have len: "length (cs_blocks cs') = length (cs_blocks cs)" using r(2) by simp
  obtain j where j: "findTLB cs' (cb_tag blk) (cb_page_size blk) = Some j"
    using P i len find_down_None_iff [of ?P "cs_blocks cs'" "length (cs_blocks cs')"]
    by (cases "findTLB cs' (cb_tag blk) (cb_page_size blk)") (auto simp: findTLB_def)
  from find_down_SomeD [OF j [unfolded findTLB_def]] P i len have "\<not> j < i" by auto
  then have "i \<le> j" by simp
  with j r inv' i len show ?thesis by (auto simp: r_def [symmetric])
qed

end

text \<open>A policy that prefers invalid ways evicts only from a full set.\<close>

locale invalid_first = replacement +
  assumes invalid_first: "inv (length bs) p \<Longrightarrow> first_invalid bs = Some i \<Longrightarrow>
    \<exists>p'. victim p bs = Inr (i, p')"
begin

lemma evicts_only_when_full:
  assumes inv: "inv (length (cs_blocks cs)) p" and ins: "set_insert victim p cs blk info = Inr (Some ev, p', cs')"
  shows "\<forall>b \<in> set (cs_blocks cs). isValid b"
proof (rule ccontr)
  assume "\<not> ?thesis"
  then obtain i where i: "first_invalid (cs_blocks cs) = Some i"
    using first_invalid_None [of "cs_blocks cs"] by (cases "first_invalid (cs_blocks cs)") auto
  with invalid_first [OF inv] obtain q where v: "victim p (cs_blocks cs) = Inr (i, q)" by blast
  from insert_ok [OF inv v, of blk info] ins first_invalid_SomeD [OF i] show False by auto
qed

lemma insert_fills:
  assumes inv: "inv (length (cs_blocks cs)) p" and i: "first_invalid (cs_blocks cs) = Some i"
  shows "\<exists>p' cs'. set_insert victim p cs blk info = Inr (None, p', cs') \<and>
    cs_blocks cs' = (cs_blocks cs)[i := clone (cs_blocks cs ! i) blk]"
proof -
  from invalid_first [OF inv i] obtain q where v: "victim p (cs_blocks cs) = Inr (i, q)" by blast
  from insert_ok [OF inv v, of blk info] first_invalid_SomeD [OF i] show ?thesis by auto
qed

end

end
