(* ===== verification/Replacement.thy ===== *)
theory Replacement
  imports Cache_Set
begin

text \<open>
  The replacement policies that keep an exact order of use: LRU with query-based
  selection (\<open>cache_set_lru.cc\<close>), MRU (\<open>cache_set_mru.cc\<close>) and NMRU
  (\<open>cache_set_nmru.cc\<close>). Each is interpreted as an \<open>invalid_first\<close> policy. Their
  recency bits are shown to represent the list of the ways in order of their last
  use, and LRU to evict the last of that list.
\<close>

section \<open>Recency bits\<close>

text \<open>\<open>moveToMRU\<close>: shared by LRU, MRU and NMRU. The loop compares with the unchanged bits of the accessed way.\<close>

definition moveToMRU :: "nat list \<Rightarrow> nat \<Rightarrow> nat list" where
  "moveToMRU bits i = (map (\<lambda>b. if b < bits ! i then b + 1 else b) bits)[i := 0]"

text \<open>The ways ordered from the most to the least recently used.\<close>

definition is_recency :: "nat list \<Rightarrow> nat list \<Rightarrow> bool" where
  "is_recency bits L \<longleftrightarrow> length L = length bits \<and> distinct L \<and> set L = {..<length bits} \<and>
     (\<forall>k < length L. bits ! (L ! k) = k)"

definition use :: "nat \<Rightarrow> nat list \<Rightarrow> nat list" where
  "use i L = i # remove1 i L"

lemma is_recency_init: "is_recency [0..<n] [0..<n]"
  by (auto simp: is_recency_def)

lemma is_recency_less: "is_recency bits L \<Longrightarrow> k < length L \<Longrightarrow> L ! k < length bits"
  using nth_mem [of k L] by (auto simp: is_recency_def)

lemma is_recency_split:
  assumes r: "is_recency bits L" and i: "i < length bits"
  obtains A B where "L = A @ i # B" "length A = bits ! i" "remove1 i L = A @ B"
proof -
  from r i have "i \<in> set L" by (simp add: is_recency_def)
  then obtain A B where L: "L = A @ i # B" by (meson split_list)
  with r have "i \<notin> set A" by (auto simp: is_recency_def)
  then have "remove1 i L = A @ B" using L by (simp add: remove1_append)
  moreover have "length A < length L" using L by simp
  with r have "bits ! (L ! length A) = length A" unfolding is_recency_def by blast
  then have "length A = bits ! i" using L by simp
  ultimately show ?thesis using that L by blast
qed

lemma is_recency_use:
  assumes r: "is_recency bits L" and i: "i < length bits"
  shows "is_recency (moveToMRU bits i) (use i L)"
proof -
  obtain A B where L: "L = A @ i # B" "length A = bits ! i" "remove1 i L = A @ B"
    by (rule is_recency_split [OF r i])
  from r have d: "distinct L" "set L = {..<length bits}" and pos: "\<And>k. k < length L \<Longrightarrow> bits ! (L ! k) = k"
    by (simp_all add: is_recency_def)
  have ne: "x \<noteq> i" if "x \<in> set A \<union> set B" for x using d(1) L(1) that by auto
  have lt: "x < length bits" if "x \<in> set L" for x using d(2) that by auto
  have "moveToMRU bits i ! (use i L ! k) = k" if k: "k < length (use i L)" for k
  proof (cases k)
    case 0
    then show ?thesis using i by (simp add: use_def moveToMRU_def)
  next
    case (Suc m)
    let ?x = "(A @ B) ! m"
    have m: "m < length (A @ B)" using k Suc L(1,3) by (simp add: use_def)
    then have x: "?x \<in> set A \<union> set B" using nth_mem [OF m] by simp
    have xl: "?x < length bits" using lt x L(1) by auto
    have "bits ! ?x = (if m < length A then m else Suc m)"
    proof (cases "m < length A")
      case True
      then show ?thesis using pos [of m] L(1) by (simp add: nth_append)
    next
      case False
      then show ?thesis using pos [of "Suc m"] m L(1) by (simp add: nth_append Suc_diff_le)
    qed
    then have "moveToMRU bits i ! ?x = Suc m"
      using xl ne [OF x] L(2) by (simp add: moveToMRU_def)
    with Suc L(3) show ?thesis by (simp add: use_def)
  qed
  moreover have "distinct (use i L)" "set (use i L) = {..<length bits}" "length (use i L) = length bits"
    using d L r by (auto simp: use_def is_recency_def)
  ultimately show ?thesis by (simp add: is_recency_def moveToMRU_def)
qed

lemma moveToMRU_length [simp]: "length (moveToMRU bits i) = length bits"
  by (simp add: moveToMRU_def)

text \<open>The constructors number the ways; the bits are of type \<open>UInt8\<close>.\<close>

definition recency_init :: "nat \<Rightarrow> nat list" where
  "recency_init associativity = map (\<lambda>i. i mod 256) [0..<associativity]"

lemma recency_init_eq: "n \<le> 256 \<Longrightarrow> recency_init n = [0..<n]"
  unfolding recency_init_def by (rule map_idI) simp

text \<open>The bits of a well-formed set, without the list.\<close>

definition recency_ok :: "nat \<Rightarrow> nat list \<Rightarrow> bool" where
  "recency_ok n bits \<longleftrightarrow> length bits = n \<and> (\<exists>L. is_recency bits L)"

lemma recency_ok_init: "n \<le> 256 \<Longrightarrow> recency_ok n (recency_init n)"
  using is_recency_init [of n] by (auto simp: recency_ok_def recency_init_eq)

lemma recency_ok_move: "recency_ok n bits \<Longrightarrow> i < n \<Longrightarrow> recency_ok n (moveToMRU bits i)"
  using is_recency_use by (auto simp: recency_ok_def)

section \<open>LRU\<close>

text \<open>
  The policy with query-based selection: \<open>in_lower\<close> stands for the answer of the
  cache controller to \<open>isInLowerLevelCache\<close>. The counters of \<open>CacheSetInfoLRU\<close> are
  statistics that the sets of a cache share; here the state of a policy carries
  them, because their assertions can stop the program. \<open>info_attempts\<close> is empty
  when no histogram of attempts is kept.
\<close>

record set_info_lru =
  info_access :: "u64 list"
  info_attempts :: "u64 list"

definition set_info_new :: "nat \<Rightarrow> nat \<Rightarrow> set_info_lru" where
  "set_info_new associativity attempts =
     \<lparr> info_access = replicate associativity 0, info_attempts = (if 1 < attempts then replicate attempts 0 else []) \<rparr>"

definition increment :: "set_info_lru \<Rightarrow> nat \<Rightarrow> set_info_lru outcome" where
  "increment info index =
     (if length (info_access info) \<le> index then Inl Assertion_Failed
      else Inr (info\<lparr>info_access := (info_access info)[index := add64 (info_access info ! index) 1]\<rparr>))"

definition incrementAttempt :: "set_info_lru \<Rightarrow> nat \<Rightarrow> set_info_lru outcome" where
  "incrementAttempt info a =
     (if info_attempts info = [] then (if a = 0 then Inr info else Inl Assertion_Failed)
      else if length (info_attempts info) \<le> a then Inl Undefined_Behaviour
      else Inr (info\<lparr>info_attempts := (info_attempts info)[a := add64 (info_attempts info ! a) 1]\<rparr>))"

text \<open>What the counters need: one slot per way, and one per attempt when there may be several.\<close>

definition info_inv :: "nat \<Rightarrow> nat \<Rightarrow> set_info_lru \<Rightarrow> bool" where
  "info_inv n attempts info \<longleftrightarrow> length (info_access info) = n \<and> 1 \<le> attempts \<and>
     length (info_attempts info) = (if attempts = 1 then 0 else attempts)"

lemma info_new_inv: "1 \<le> a \<Longrightarrow> info_inv n a (set_info_new n a)"
  by (simp add: info_inv_def set_info_new_def)

lemma increment_ok: "info_inv n a info \<Longrightarrow> i < n \<Longrightarrow> \<exists>info'. increment info i = Inr info' \<and> info_inv n a info'"
  by (simp add: info_inv_def increment_def)

lemma incrementAttempt_ok:
  "info_inv n a info \<Longrightarrow> k < a \<Longrightarrow> \<exists>info'. incrementAttempt info k = Inr info' \<and> info_inv n a info'"
  by (auto simp: info_inv_def incrementAttempt_def split: if_splits)

record lru =
  lru_bits :: "nat list"
  num_attempts :: nat
  lru_info :: set_info_lru

definition lru_new :: "nat \<Rightarrow> nat \<Rightarrow> lru" where
  "lru_new associativity attempts =
     \<lparr> lru_bits = recency_init associativity, num_attempts = attempts, lru_info = set_info_new associativity attempts \<rparr>"

fun lru_scan :: "(nat \<Rightarrow> bool) \<Rightarrow> nat list \<Rightarrow> nat \<Rightarrow> nat \<times> nat" where
  "lru_scan ok bits 0 = (0, 0)"
| "lru_scan ok bits (Suc i) =
     (case lru_scan ok bits i of (index, max_bits) \<Rightarrow>
        if max_bits < bits ! i \<and> ok i then (i, bits ! i) else (index, max_bits))"

fun lru_attempt_loop ::
  "(cache_block \<Rightarrow> bool) \<Rightarrow> cache_block list \<Rightarrow> nat \<Rightarrow> nat \<Rightarrow> lru \<Rightarrow> (nat \<times> lru) outcome" where
  "lru_attempt_loop in_lower bs attempt 0 s = Inl Assertion_Failed"
| "lru_attempt_loop in_lower bs attempt (Suc rest) s =
     (let index = fst (lru_scan (isValidReplacement bs) (lru_bits s) (length bs));
          s1 = s\<lparr>lru_bits := moveToMRU (lru_bits s) index\<rparr> in
      if length bs \<le> index then Inl Assertion_Failed
      else if attempt < num_attempts s - 1 \<and> in_lower (bs ! index)
      then lru_attempt_loop in_lower bs (attempt + 1) rest s1
      else map_sum id (\<lambda>info. (index, s1\<lparr>lru_info := info\<rparr>)) (incrementAttempt (lru_info s1) attempt))"

definition lru_victim :: "(cache_block \<Rightarrow> bool) \<Rightarrow> lru \<Rightarrow> cache_block list \<Rightarrow> (nat \<times> lru) outcome" where
  "lru_victim in_lower s bs =
     (case first_invalid bs of
        Some i \<Rightarrow> Inr (i, s\<lparr>lru_bits := moveToMRU (lru_bits s) i\<rparr>)
      | None \<Rightarrow> lru_attempt_loop in_lower bs 0 (num_attempts s) s)"

definition lru_touch :: "lru \<Rightarrow> cache_block list \<Rightarrow> nat \<Rightarrow> lru outcome" where
  "lru_touch s bs i =
     map_sum id (\<lambda>info. s\<lparr>lru_info := info, lru_bits := moveToMRU (lru_bits s) i\<rparr>) (increment (lru_info s) (lru_bits s ! i))"

definition lru_inv :: "nat \<Rightarrow> lru \<Rightarrow> bool" where
  "lru_inv n s \<longleftrightarrow> recency_ok n (lru_bits s) \<and> info_inv n (num_attempts s) (lru_info s)"

lemma lru_scan_less: "0 < n \<Longrightarrow> fst (lru_scan ok bits n) < n"
proof (induction n)
  case (Suc n)
  then show ?case by (cases "n = 0") (auto split: prod.splits)
qed simp

lemma lru_attempt_loop_ok:
  "lru_inv (length bs) s \<Longrightarrow> 0 < length bs \<Longrightarrow> 0 < rest \<Longrightarrow> attempt + rest = num_attempts s \<Longrightarrow>
   \<exists>i s'. lru_attempt_loop in_lower bs attempt rest s = Inr (i, s') \<and> i < length bs \<and> lru_inv (length bs) s'"
proof (induction rest arbitrary: attempt s)
  case (Suc rest)
  let ?i = "fst (lru_scan (isValidReplacement bs) (lru_bits s) (length bs))"
  let ?s = "s\<lparr>lru_bits := moveToMRU (lru_bits s) ?i\<rparr>"
  have i: "?i < length bs" by (rule lru_scan_less [OF Suc.prems(2)])
  have inv: "lru_inv (length bs) ?s"
    using Suc.prems(1) recency_ok_move [OF _ i] by (simp add: lru_inv_def)
  show ?case
  proof (cases "attempt < num_attempts s - 1 \<and> in_lower (bs ! ?i)")
    case True
    then have "0 < rest" using Suc.prems(4) by linarith
    from Suc.IH [OF inv Suc.prems(2) this, of "attempt + 1"] Suc.prems(4) True i show ?thesis
      by (simp add: Let_def)
  next
    case False
    have "\<exists>info. incrementAttempt (lru_info ?s) attempt = Inr info \<and> info_inv (length bs) (num_attempts s) info"
      using incrementAttempt_ok [of "length bs" "num_attempts s" "lru_info s" attempt] inv Suc.prems(4)
      by (simp add: lru_inv_def)
    with False i inv show ?thesis by (auto simp: Let_def lru_inv_def)
  qed
qed simp

lemma lru_victim_ok:
  assumes "lru_inv (length bs) s" "0 < length bs"
  shows "\<exists>i s'. lru_victim in_lower s bs = Inr (i, s') \<and> i < length bs \<and> lru_inv (length bs) s'"
proof (cases "first_invalid bs")
  case None
  with lru_attempt_loop_ok [OF assms, of "num_attempts s" 0] assms(1) show ?thesis
    by (simp add: lru_victim_def lru_inv_def info_inv_def)
next
  case (Some i)
  with first_invalid_SomeD [OF Some] assms(1) recency_ok_move show ?thesis
    by (auto simp: lru_victim_def lru_inv_def)
qed

interpretation lru: invalid_first lru_inv "lru_victim in_lower" lru_touch for in_lower
proof unfold_locales
  fix bs :: "cache_block list" and p p' :: lru and i :: nat
  assume inv: "lru_inv (length bs) p"
  have pos: "0 < length bs" if "lru_victim in_lower p bs = Inr (i, p')"
  proof (cases bs)
    case Nil
    then show ?thesis using that inv
      by (cases "num_attempts p") (auto simp: lru_victim_def first_invalid_def lru_inv_def info_inv_def Let_def)
  qed simp
  show "i < length bs" "lru_inv (length bs) p'" if "lru_victim in_lower p bs = Inr (i, p')"
    using lru_victim_ok [OF inv pos [OF that], of in_lower] that by auto
  show "lru_inv (length bs) p'" if "i < length bs" "lru_touch p bs i = Inr p'"
    using that inv recency_ok_move
    by (auto simp: lru_touch_def lru_inv_def increment_def info_inv_def split: if_splits)
  show "\<exists>p'. lru_victim in_lower p bs = Inr (i, p')" if "first_invalid bs = Some i"
    using that by (simp add: lru_victim_def)
qed

section \<open>The LRU victim\<close>

lemma lru_scan_max:
  "case lru_scan ok bits n of (ix, mx) \<Rightarrow>
     (mx = 0 \<longrightarrow> ix = 0 \<and> (\<forall>j < n. ok j \<longrightarrow> bits ! j = 0)) \<and>
     (0 < mx \<longrightarrow> ix < n \<and> ok ix \<and> bits ! ix = mx \<and> (\<forall>j < n. ok j \<longrightarrow> bits ! j \<le> mx))"
proof (induction n)
  case (Suc n)
  obtain ix mx where s: "lru_scan ok bits n = (ix, mx)" by fastforce
  with Suc show ?case by (cases "mx < bits ! n \<and> ok n") (auto simp: less_Suc_eq)
qed simp

lemma lru_scan_last:
  assumes r: "is_recency bits L" and ne: "bits \<noteq> []" and ok: "\<forall>i < length bits. ok i"
  shows "fst (lru_scan ok bits (length bits)) = last L"
proof -
  from r have len: "length L = length bits" and d: "distinct L" and s: "set L = {..<length bits}"
    and pos: "\<And>k. k < length L \<Longrightarrow> bits ! (L ! k) = k" by (simp_all add: is_recency_def)
  have L: "L \<noteq> []" using len ne by auto
  have l: "bits ! last L = length bits - 1" "last L < length bits"
    using pos [of "length L - 1"] L len s last_in_set [OF L] by (auto simp: last_conv_nth)
  obtain ix mx where sc: "lru_scan ok bits (length bits) = (ix, mx)" by fastforce
  note m = lru_scan_max [where ok = ok and bits = bits and n = "length bits", unfolded sc]
  have ixL: "ix < length bits" using lru_scan_less [of "length bits" ok bits] sc ne by simp
  then obtain k where k: "k < length L" "L ! k = ix" using s by (metis in_set_conv_nth lessThan_iff)
  have "k = length L - 1"
  proof (cases "mx = 0")
    case True
    then have "bits ! last L = 0" "ix = 0" using m l ok by auto
    then have "length bits = 1" using l ne by (cases bits) auto
    with k len show ?thesis by simp
  next
    case False
    then have "bits ! ix = mx" "length bits - 1 \<le> mx" using m l ok by auto
    with pos [OF k(1)] k len show ?thesis by simp
  qed
  with k L sc show ?thesis by (simp add: last_conv_nth)
qed

lemma lru_victim_last:
  assumes inv: "lru_inv (length bs) s" and one: "num_attempts s = 1" and r: "is_recency (lru_bits s) L"
    and bs: "bs \<noteq> []" "\<forall>b \<in> set bs. isValid b \<and> cb_cstate b \<noteq> SHARED_UPGRADING"
  shows "\<exists>s'. lru_victim in_lower s bs = Inr (last L, s') \<and> is_recency (lru_bits s') (use (last L) L)"
proof -
  have len: "length (lru_bits s) = length bs" using inv by (simp add: lru_inv_def recency_ok_def)
  have ok: "\<forall>i < length (lru_bits s). isValidReplacement bs i" using bs(2) len by (auto simp: isValidReplacement_def)
  have ne: "lru_bits s \<noteq> []" using len bs(1) by auto
  have ix: "fst (lru_scan (isValidReplacement bs) (lru_bits s) (length bs)) = last L"
    using lru_scan_last [OF r ne ok] len by simp
  have lt: "last L < length bs" using lru_scan_less [of "length bs" "isValidReplacement bs" "lru_bits s"] ix bs(1) by simp
  have none: "first_invalid bs = None" using bs(2) by (simp add: first_invalid_None)
  have "info_attempts (lru_info s) = []" using inv one by (simp add: lru_inv_def info_inv_def)
  then have "lru_victim in_lower s bs = Inr (last L, s\<lparr>lru_bits := moveToMRU (lru_bits s) (last L)\<rparr>)"
    using none one ix lt by (simp add: lru_victim_def Let_def incrementAttempt_def)
  with is_recency_use [OF r, of "last L"] lt len show ?thesis by simp
qed

text \<open>A run of hits on the given ways.\<close>

fun lru_touches :: "lru \<Rightarrow> cache_block list \<Rightarrow> nat list \<Rightarrow> lru outcome" where
  "lru_touches s bs [] = Inr s"
| "lru_touches s bs (i # is) =
     (case lru_touch s bs i of Inl e \<Rightarrow> Inl e | Inr s' \<Rightarrow> lru_touches s' bs is)"

lemma lru_touches_ok:
  "lru_inv n s \<Longrightarrow> is_recency (lru_bits s) L \<Longrightarrow> \<forall>i \<in> set is. i < n \<Longrightarrow>
   \<exists>s'. lru_touches s bs is = Inr s' \<and> lru_inv n s' \<and> num_attempts s' = num_attempts s \<and>
     is_recency (lru_bits s') (fold use is L)"
proof (induction "is" arbitrary: s L)
  case (Cons i "is")
  have len: "length (lru_bits s) = n" and info: "info_inv n (num_attempts s) (lru_info s)"
    using Cons.prems(1) by (simp_all add: lru_inv_def recency_ok_def)
  have i: "i < n" using Cons.prems(3) by simp
  have b: "lru_bits s ! i < n"
  proof -
    from Cons.prems(2) i len have "i \<in> set L" by (simp add: is_recency_def)
    then obtain k where "k < length L" "L ! k = i" by (metis in_set_conv_nth)
    with Cons.prems(2) len show ?thesis by (auto simp: is_recency_def)
  qed
  from increment_ok [OF info b] obtain info' where info': "increment (lru_info s) (lru_bits s ! i) = Inr info'"
    "info_inv n (num_attempts s) info'" by blast
  let ?s = "s\<lparr>lru_info := info', lru_bits := moveToMRU (lru_bits s) i\<rparr>"
  have t: "lru_touch s bs i = Inr ?s" using info' by (simp add: lru_touch_def)
  have "lru_inv n ?s" using Cons.prems(1) info' recency_ok_move [OF _ i] by (simp add: lru_inv_def)
  moreover have "is_recency (lru_bits ?s) (use i L)" using is_recency_use [OF Cons.prems(2), of i] i len by simp
  ultimately obtain s' where "lru_touches ?s bs is = Inr s'" "lru_inv n s'" "num_attempts s' = num_attempts ?s"
    "is_recency (lru_bits s') (fold use is (use i L))"
    using Cons.IH [of ?s "use i L"] Cons.prems(3) by auto
  with t show ?case by simp
qed simp

lemma lru_new_inv: "n \<le> 256 \<Longrightarrow> lru_inv n (lru_new n 1)" "n \<le> 256 \<Longrightarrow> is_recency (lru_bits (lru_new n 1)) [0..<n]"
  using recency_ok_init [of n] is_recency_init [of n]
  by (simp_all add: lru_inv_def lru_new_def recency_init_eq recency_ok_def info_inv_def set_info_new_def)

section \<open>MRU and NMRU\<close>

text \<open>MRU: the loop over \<open>target\<close> looks for the most recent way that may be replaced.\<close>

function mru_search :: "(nat \<Rightarrow> bool) \<Rightarrow> nat list \<Rightarrow> nat \<Rightarrow> nat option" where
  "mru_search ok bits target =
     (if target < length bits
      then (case find_index (\<lambda>i. bits ! i = target \<and> ok i) [0..<length bits] of
              Some i \<Rightarrow> Some i
            | None \<Rightarrow> mru_search ok bits (target + 1))
      else None)"
  by pat_completeness auto
termination
  by (relation "measure (\<lambda>(ok, bits, target). length bits - target)") auto

declare mru_search.simps [simp del]

definition mru_victim :: "nat list \<Rightarrow> cache_block list \<Rightarrow> (nat \<times> nat list) outcome" where
  "mru_victim bits bs =
     (case first_invalid bs of
        Some i \<Rightarrow> Inr (i, moveToMRU bits i)
      | None \<Rightarrow> (case mru_search (isValidReplacement bs) bits 0 of
                  Some i \<Rightarrow> Inr (i, moveToMRU bits i)
                | None \<Rightarrow> Inl Assertion_Failed))"

definition mru_touch :: "nat list \<Rightarrow> cache_block list \<Rightarrow> nat \<Rightarrow> nat list outcome" where
  "mru_touch bits bs i = Inr (moveToMRU bits i)"

lemma mru_search_SomeD: "mru_search ok bits t = Some i \<Longrightarrow> i < length bits \<and> ok i"
proof (induction ok bits t rule: mru_search.induct)
  case (1 ok bits t)
  then show ?case
    by (auto simp: mru_search.simps [of ok bits t] split: if_splits option.splits dest: find_index_SomeD)
qed

interpretation mru: invalid_first recency_ok mru_victim mru_touch
proof unfold_locales
  fix bs :: "cache_block list" and p p' :: "nat list" and i :: nat
  assume inv: "recency_ok (length bs) p"
  show "i < length bs" if "mru_victim p bs = Inr (i, p')"
    using that inv
    by (auto simp: mru_victim_def recency_ok_def split: option.splits dest!: first_invalid_SomeD mru_search_SomeD)
  then show "recency_ok (length bs) p'" if "mru_victim p bs = Inr (i, p')"
    using that recency_ok_move [OF inv, of i] by (auto simp: mru_victim_def split: option.splits)
  show "recency_ok (length bs) p'" if "i < length bs" "mru_touch p bs i = Inr p'"
    using that recency_ok_move [OF inv] by (auto simp: mru_touch_def)
  show "\<exists>p'. mru_victim p bs = Inr (i, p')" if "first_invalid bs = Some i"
    using that by (simp add: mru_victim_def)
qed

text \<open>
  A search that starts at the replacement pointer and goes round once: the way
  found, if any, and the pointer afterwards.
\<close>

fun rot_search :: "(nat \<Rightarrow> bool) \<Rightarrow> nat \<Rightarrow> nat \<Rightarrow> nat \<Rightarrow> nat option \<times> nat" where
  "rot_search P n ptr 0 = (None, ptr)"
| "rot_search P n ptr (Suc k) =
     (let next = ((ptr + 1) mod n) mod 256 in
      if P ptr then (Some ptr, next) else rot_search P n next k)"

lemma rot_search_props:
  "0 < n \<Longrightarrow> n \<le> 256 \<Longrightarrow> ptr < n \<Longrightarrow> rot_search P n ptr k = (r, ptr') \<Longrightarrow>
   ptr' < n \<and> (\<forall>i. r = Some i \<longrightarrow> i < n \<and> P i) \<and>
   (r = None \<longrightarrow> (\<forall>j < k. \<not> P ((ptr + j) mod n)))"
proof (induction k arbitrary: ptr)
  case (Suc k)
  have lt: "(ptr + 1) mod n < n" by (rule mod_less_divisor [OF Suc.prems(1)])
  with Suc.prems(2) have nx: "(ptr + 1) mod n mod 256 = (ptr + 1) mod n" "(ptr + 1) mod n < n"
    by (simp_all del: One_nat_def)
  show ?case
  proof (cases "P ptr")
    case True
    with Suc.prems nx show ?thesis by (auto simp: Let_def)
  next
    case False
    with Suc.prems(4) nx have r: "rot_search P n ((ptr + 1) mod n) k = (r, ptr')" by (simp add: Let_def)
    note IH = Suc.IH [OF Suc.prems(1,2) nx(2) r]
    have "\<not> P ((ptr + j) mod n)" if "j < Suc k" "r = None" for j
    proof (cases j)
      case 0
      then show ?thesis using False Suc.prems(3) by simp
    next
      case (Suc m)
      then have "\<not> P (((ptr + 1) mod n + m) mod n)" using IH that by auto
      with Suc show ?thesis by (simp add: mod_add_left_eq)
    qed
    with IH show ?thesis by blast
  qed
qed simp

lemma rot_search_total:
  assumes "0 < n" "n \<le> 256" "ptr < n" "i < n" "P i"
  shows "\<exists>j ptr'. rot_search P n ptr n = (Some j, ptr')"
proof -
  obtain r ptr' where r: "rot_search P n ptr n = (r, ptr')" by fastforce
  have "r \<noteq> None"
  proof
    assume "r = None"
    with rot_search_props [OF assms(1-3) r] have none: "\<forall>j < n. \<not> P ((ptr + j) mod n)" by blast
    let ?j = "(i + n - ptr) mod n"
    have "(ptr + ?j) mod n = (ptr + (i + n - ptr)) mod n" by (simp add: mod_add_right_eq)
    also have "\<dots> = i" using assms(3,4) by simp
    finally show False using none assms(1,5) mod_less_divisor [of n] by metis
  qed
  with r show ?thesis by auto
qed

record nmru =
  nmru_bits :: "nat list"
  nmru_pointer :: nat

definition nmru_new :: "nat \<Rightarrow> nmru" where
  "nmru_new associativity = \<lparr>nmru_bits = recency_init associativity, nmru_pointer = 0\<rparr>"

definition nmru_victim :: "nmru \<Rightarrow> cache_block list \<Rightarrow> (nat \<times> nmru) outcome" where
  "nmru_victim s bs =
     (case first_invalid bs of
        Some i \<Rightarrow> Inr (i, s\<lparr>nmru_bits := moveToMRU (nmru_bits s) i\<rparr>)
      | None \<Rightarrow>
          (case rot_search (\<lambda>i. nmru_bits s ! i \<noteq> 0 \<and> isValidReplacement bs i) (length bs) (nmru_pointer s) (length bs) of
             (Some i, ptr) \<Rightarrow> Inr (i, \<lparr>nmru_bits = moveToMRU (nmru_bits s) i, nmru_pointer = ptr\<rparr>)
           | (None, ptr) \<Rightarrow> Inl Assertion_Failed))"

definition nmru_touch :: "nmru \<Rightarrow> cache_block list \<Rightarrow> nat \<Rightarrow> nmru outcome" where
  "nmru_touch s bs i = Inr (s\<lparr>nmru_bits := moveToMRU (nmru_bits s) i\<rparr>)"

definition nmru_inv :: "nat \<Rightarrow> nmru \<Rightarrow> bool" where
  "nmru_inv n s \<longleftrightarrow> recency_ok n (nmru_bits s) \<and> nmru_pointer s < n \<and> n \<le> 256"

interpretation nmru: invalid_first nmru_inv nmru_victim nmru_touch
proof unfold_locales
  fix bs :: "cache_block list" and p p' :: nmru and i :: nat
  assume inv: "nmru_inv (length bs) p"
  let ?P = "\<lambda>i. nmru_bits p ! i \<noteq> 0 \<and> isValidReplacement bs i"
  have v: "i < length bs \<and> nmru_inv (length bs) p'" if "nmru_victim p bs = Inr (i, p')"
  proof (cases "first_invalid bs")
    case None
    obtain r ptr where r: "rot_search ?P (length bs) (nmru_pointer p) (length bs) = (r, ptr)" by fastforce
    with None that have ri: "r = Some i" "p' = \<lparr>nmru_bits = moveToMRU (nmru_bits p) i, nmru_pointer = ptr\<rparr>"
      by (auto simp: nmru_victim_def split: option.splits)
    have pos: "0 < length bs" "length bs \<le> 256" "nmru_pointer p < length bs" using inv by (auto simp: nmru_inv_def)
    from rot_search_props [OF pos r] ri inv recency_ok_move show ?thesis by (auto simp: nmru_inv_def)
  next
    case (Some j)
    with that first_invalid_SomeD [OF Some] inv recency_ok_move show ?thesis
      by (auto simp: nmru_victim_def nmru_inv_def)
  qed
  show "i < length bs" "nmru_inv (length bs) p'" if "nmru_victim p bs = Inr (i, p')" using v that by blast+
  show "nmru_inv (length bs) p'" if "i < length bs" "nmru_touch p bs i = Inr p'"
    using that inv recency_ok_move by (auto simp: nmru_touch_def nmru_inv_def)
  show "\<exists>p'. nmru_victim p bs = Inr (i, p')" if "first_invalid bs = Some i"
    using that by (simp add: nmru_victim_def)
qed

section \<open>What the LRU policy achieves\<close>

lemma lru_scan_none: "\<forall>i < n. \<not> ok i \<Longrightarrow> lru_scan ok bits n = (0, 0)"
  by (induction n) auto

lemma lru_set_ready: "n \<le> 256 \<Longrightarrow> lru_inv (length (cs_blocks (cache_set_new n))) (lru_new n 1)"
  using lru_new_inv(1) [of n] by (simp add: cache_set_new_def)

text \<open>
  C34: LRU evicts the way whose last use is furthest in the past. After any run of
  hits on a full set, none of whose blocks is being upgraded, the victim is the last
  element of the list obtained by moving each used way to the front of the list of
  all ways. No assertion fails on the way.
\<close>

theorem lru_evicts_least_recent:
  assumes n: "0 < n" "n \<le> 256" and bs: "length bs = n"
    "\<forall>b \<in> set bs. isValid b \<and> cb_cstate b \<noteq> SHARED_UPGRADING" and "is": "\<forall>i \<in> set is. i < n"
  shows "\<exists>s s'. lru_touches (lru_new n 1) bs is = Inr s \<and>
    lru_victim in_lower s bs = Inr (last (fold use is [0..<n]), s')"
proof -
  obtain s where s: "lru_touches (lru_new n 1) bs is = Inr s" "lru_inv n s" "num_attempts s = num_attempts (lru_new n 1)"
    "is_recency (lru_bits s) (fold use is [0..<n])"
    using lru_touches_ok [OF lru_new_inv(1) [OF n(2)] lru_new_inv(2) [OF n(2)] "is", of bs] by blast
  have "bs \<noteq> []" using n(1) bs(1) by auto
  with lru_victim_last [of bs s "fold use is [0..<n]" in_lower] s bs show ?thesis
    by (auto simp: lru_new_def)
qed

theorem lru_evicts_least_recent_witness:
  "\<exists>s s'. lru_touches (lru_new 4 1) (replicate 4 (cache_block_new 7 SHARED 0)) [3, 0, 3, 1] = Inr s \<and>
     lru_victim (\<lambda>_. False) s (replicate 4 (cache_block_new 7 SHARED 0)) = Inr (2, s')"
proof -
  have l: "last (fold use [3, 0, 3, 1] [0..<4]) = 2" by (simp add: use_def upt_rec)
  show ?thesis
    using lru_evicts_least_recent [of 4 "replicate 4 (cache_block_new 7 SHARED 0)" "[3, 0, 3, 1]" "\<lambda>_. False"]
    unfolding l by (simp add: isValid_def cache_block_new_def minus1_64_def)
qed

text \<open>
  Filling a set under LRU. On every set whose policy state is well formed the
  insertion succeeds whatever the lower-level caches answer to a query, changes one
  way only, makes the block findable, keeps the policy state well formed, and evicts
  a valid block only when no way is invalid.
\<close>

lemma lru_insert_correct:
  assumes inv: "lru_inv (length (cs_blocks cs)) p" and ne: "cs_blocks cs \<noteq> []"
  shows "\<exists>ev p' cs' i. set_insert (lru_victim in_lower) p cs blk info = Inr (ev, p', cs') \<and>
    i < length (cs_blocks cs) \<and> cs_blocks cs' = (cs_blocks cs)[i := clone (cs_blocks cs ! i) blk] \<and>
    findTLB cs' (cb_tag blk) (cb_page_size blk) \<noteq> None \<and> lru_inv (length (cs_blocks cs')) p' \<and>
    (ev \<noteq> None \<longrightarrow> (\<forall>b \<in> set (cs_blocks cs). isValid b))"
proof -
  obtain i p' where v: "lru_victim in_lower p (cs_blocks cs) = Inr (i, p')"
    using lru_victim_ok [OF inv] ne by blast
  from lru.insert_ok [OF inv v, of blk info] obtain ev cs' where r:
    "set_insert (lru_victim in_lower) p cs blk info = Inr (ev, p', cs')" "lru_inv (length (cs_blocks cs')) p'"
    "i < length (cs_blocks cs)" "cs_blocks cs' = (cs_blocks cs)[i := clone (cs_blocks cs ! i) blk]"
    "findTLB cs' (cb_tag blk) (cb_page_size blk) \<noteq> None" by auto
  have "\<forall>b \<in> set (cs_blocks cs). isValid b" if "ev \<noteq> None"
    using that lru.evicts_only_when_full [OF inv, of in_lower blk info _ p' cs'] r(1) by fastforce
  with r show ?thesis by blast
qed

text \<open>
  The LRU scan starts from way 0 and takes another way only if it may be
  replaced, so that on a full set all of whose blocks are being upgraded it returns
  way 0, a block that \<open>isValidReplacement\<close> forbids to evict, without any error.
\<close>

lemma lru_evicts_upgrading_block:
  assumes inv: "lru_inv (length bs) s" and one: "num_attempts s = 1" and ne: "bs \<noteq> []"
    and bs: "\<forall>b \<in> set bs. isValid b \<and> cb_cstate b = SHARED_UPGRADING"
  shows "\<exists>s'. lru_victim in_lower s bs = Inr (0, s') \<and> \<not> isValidReplacement bs 0"
proof -
  have bad: "\<forall>i < length bs. \<not> isValidReplacement bs i" using bs by (auto simp: isValidReplacement_def)
  have none: "first_invalid bs = None" using bs by (simp add: first_invalid_None)
  have "info_attempts (lru_info s) = []" using inv one by (simp add: lru_inv_def info_inv_def)
  then show ?thesis using none one ne bad lru_scan_none [OF bad, of "lru_bits s"]
    by (simp add: lru_victim_def Let_def incrementAttempt_def)
qed

end
