(* ===== verification/Replacement_Approx.thy ===== *)
theory Replacement_Approx
  imports Replacement
begin

text \<open>
  The replacement policies that approximate the order of use: NRU
  (\<open>cache_set_nru.cc\<close>), tree PLRU (\<open>cache_set_plru.cc\<close>), SRRIP
  (\<open>cache_set_srrip.cc\<close>) and round robin (\<open>cache_set_round_robin.cc\<close>), each
  interpreted as a \<open>replacement\<close> policy, all but round robin as \<open>invalid_first\<close>. The
  per-way state and the replacement pointers are of type \<open>UInt8\<close>.
\<close>

section \<open>NRU\<close>

record nru =
  nru_bits :: "nat list"
  nru_num_set :: nat
  nru_pointer :: nat

definition nru_new :: "nat \<Rightarrow> nru" where
  "nru_new associativity = \<lparr>nru_bits = replicate associativity 0, nru_num_set = 0, nru_pointer = 0\<rparr>"

definition nru_update :: "nru \<Rightarrow> nat \<Rightarrow> nru" where
  "nru_update s i =
     (let bits = (nru_bits s)[i := 1]; n = (nru_num_set s + 1) mod 256 in
      if n = length bits then s\<lparr>nru_bits := replicate (length bits) 0, nru_num_set := 0\<rparr>
      else s\<lparr>nru_bits := bits, nru_num_set := n\<rparr>)"

definition nru_touch :: "nru \<Rightarrow> cache_block list \<Rightarrow> nat \<Rightarrow> nru outcome" where
  "nru_touch s bs i = Inr (nru_update s i)"

definition nru_candidate :: "nru \<Rightarrow> cache_block list \<Rightarrow> nat \<Rightarrow> bool" where
  "nru_candidate s bs i \<longleftrightarrow>
     (nru_bits s ! i = 0 \<or> \<not> (\<exists>j \<in> set [0..<length bs]. nru_bits s ! j = 0 \<and> isValidReplacement bs j)) \<and>
     isValidReplacement bs i"

definition nru_victim :: "nru \<Rightarrow> cache_block list \<Rightarrow> (nat \<times> nru) outcome" where
  "nru_victim s bs =
     (case first_invalid bs of
        Some i \<Rightarrow> Inr (i, nru_update s i)
      | None \<Rightarrow>
          (case rot_search (nru_candidate s bs) (length bs) (nru_pointer s) (length bs) of
             (Some i, ptr) \<Rightarrow> Inr (i, nru_update (s\<lparr>nru_pointer := ptr\<rparr>) i)
           | (None, ptr) \<Rightarrow> Inl Assertion_Failed))"

definition nru_inv :: "nat \<Rightarrow> nru \<Rightarrow> bool" where
  "nru_inv n s \<longleftrightarrow> length (nru_bits s) = n \<and> nru_pointer s < n \<and> n \<le> 256"

lemma nru_update_inv: "nru_inv n s \<Longrightarrow> nru_inv n (nru_update s i)"
  by (simp add: nru_inv_def nru_update_def Let_def)

lemma nru_update_pointer [simp]: "nru_pointer (nru_update s i) = nru_pointer s"
  by (simp add: nru_update_def Let_def)

lemma nru_victim_found:
  assumes inv: "nru_inv (length bs) s" and full: "first_invalid bs = None"
    and r: "rot_search (nru_candidate s bs) (length bs) (nru_pointer s) (length bs) = (r, ptr)"
  shows "ptr < length bs" "r = Some i \<Longrightarrow> i < length bs \<and> nru_candidate s bs i"
    "nru_victim s bs = (case r of Some i \<Rightarrow> Inr (i, nru_update (s\<lparr>nru_pointer := ptr\<rparr>) i) | None \<Rightarrow> Inl Assertion_Failed)"
proof -
  have pos: "0 < length bs" "length bs \<le> 256" "nru_pointer s < length bs" using inv by (auto simp: nru_inv_def)
  from rot_search_props [OF pos r] show "ptr < length bs" "r = Some i \<Longrightarrow> i < length bs \<and> nru_candidate s bs i"
    by auto
  show "nru_victim s bs = (case r of Some i \<Rightarrow> Inr (i, nru_update (s\<lparr>nru_pointer := ptr\<rparr>) i) | None \<Rightarrow> Inl Assertion_Failed)"
    using full r by (simp add: nru_victim_def split: option.split)
qed

interpretation nru: invalid_first nru_inv nru_victim nru_touch
proof unfold_locales
  fix bs :: "cache_block list" and p p' :: nru and i :: nat
  assume inv: "nru_inv (length bs) p"
  have v: "i < length bs \<and> nru_inv (length bs) p'" if v: "nru_victim p bs = Inr (i, p')"
  proof (cases "first_invalid bs")
    case None
    obtain r ptr where r: "rot_search (nru_candidate p bs) (length bs) (nru_pointer p) (length bs) = (r, ptr)" by fastforce
    note f = nru_victim_found [OF inv None r]
    from f(3) v have ri: "r = Some i" "p' = nru_update (p\<lparr>nru_pointer := ptr\<rparr>) i" by (auto split: option.splits)
    have "nru_inv (length bs) (p\<lparr>nru_pointer := ptr\<rparr>)" using inv f(1) by (simp add: nru_inv_def)
    with ri f(2) [OF ri(1)] nru_update_inv show ?thesis by simp
  next
    case (Some j)
    with v first_invalid_SomeD [OF Some] nru_update_inv [OF inv] show ?thesis by (auto simp: nru_victim_def)
  qed
  show "i < length bs" "nru_inv (length bs) p'" if "nru_victim p bs = Inr (i, p')" using v that by blast+
  show "nru_inv (length bs) p'" if "i < length bs" "nru_touch p bs i = Inr p'"
    using that nru_update_inv [OF inv] by (auto simp: nru_touch_def)
  show "\<exists>p'. nru_victim p bs = Inr (i, p')" if "first_invalid bs = Some i"
    using that by (simp add: nru_victim_def)
qed

text \<open>
  The counter counts accesses, not bits that are set: as many hits on one way as the
  set has ways clear all the bits.
\<close>

fun nru_touches :: "nru \<Rightarrow> nat list \<Rightarrow> nru" where
  "nru_touches s [] = s"
| "nru_touches s (i # is) = nru_touches (nru_update s i) is"

lemma nru_counts_accesses:
  assumes "k \<le> n" "n \<le> 255" "i < n" "length (nru_bits s) = n" "nru_num_set s = n - k" "0 < k"
  shows "nru_touches s (replicate k i) = s\<lparr>nru_bits := replicate n 0, nru_num_set := 0\<rparr>"
  using assms
proof (induction k arbitrary: s)
  case (Suc k)
  show ?case
  proof (cases "k = 0")
    case True
    with Suc.prems show ?thesis by (simp add: nru_update_def Let_def)
  next
    case False
    then have n: "(nru_num_set s + 1) mod 256 = n - k" "n - k \<noteq> n" using Suc.prems by simp_all
    then have u: "nru_update s i = s\<lparr>nru_bits := (nru_bits s)[i := 1], nru_num_set := n - k\<rparr>"
      using Suc.prems(4) by (simp add: nru_update_def Let_def del: One_nat_def)
    show ?thesis using Suc.IH [of "nru_update s i"] Suc.prems False by (simp add: u)
  qed
qed simp

lemma nru_evicts_last_used:
  assumes n: "0 < n" "n \<le> 255" and bs: "length bs = n" "\<forall>b \<in> set bs. isValid b" "isValidReplacement bs 0"
  shows "\<exists>s'. nru_victim (nru_touches (nru_new n) (replicate n 0)) bs = Inr (0, s')"
proof -
  let ?s = "nru_touches (nru_new n) (replicate n 0)"
  have s: "?s = \<lparr>nru_bits = replicate n 0, nru_num_set = 0, nru_pointer = 0\<rparr>"
    using nru_counts_accesses [of n n 0 "nru_new n"] n by (simp add: nru_new_def)
  have c: "nru_candidate ?s bs 0" using s n bs(3) by (simp add: nru_candidate_def)
  obtain m where m: "n = Suc m" using n(1) by (cases n) auto
  have "rot_search (nru_candidate ?s bs) n 0 n = (Some 0, 1 mod n mod 256)"
    using c by (simp add: m Let_def)
  then show ?thesis using bs(1,2) s by (simp add: nru_victim_def first_invalid_None [THEN iffD2])
qed

section \<open>Tree PLRU\<close>

text \<open>The state is the array \<open>b\<close> of eight bits of which a 4-way set uses three and an 8-way set seven.\<close>

definition plru_new :: "nat \<Rightarrow> nat list outcome" where
  "plru_new associativity =
     (if associativity = 4 \<or> associativity = 8 then Inr (replicate 8 0) else Inl Assertion_Failed)"

definition plru_select :: "nat \<Rightarrow> nat list \<Rightarrow> nat outcome" where
  "plru_select associativity b =
     (if associativity = 4
      then (if b ! 0 = 0 then (if b ! 1 = 0 then Inr 0 else Inr 1)
            else (if b ! 2 = 0 then Inr 2 else Inr 3))
      else if associativity = 8
      then (if b ! 0 = 0
            then (if b ! 1 = 0 then (if b ! 2 = 0 then Inr 0 else Inr 1)
                  else (if b ! 3 = 0 then Inr 2 else Inr 3))
            else (if b ! 4 = 0 then (if b ! 5 = 0 then Inr 4 else Inr 5)
                  else (if b ! 6 = 0 then Inr 6 else Inr 7)))
      else Inl Assertion_Failed)"

definition plru_update :: "nat \<Rightarrow> nat list \<Rightarrow> nat \<Rightarrow> nat list outcome" where
  "plru_update associativity b i =
     (if associativity = 4
      then Inr (if i = 0 then b[0 := 1, 1 := 1]
                else if i = 1 then b[0 := 1, 1 := 0]
                else if i = 2 then b[0 := 0, 2 := 1]
                else if i = 3 then b[0 := 0, 2 := 0]
                else b)
      else if associativity = 8
      then Inr (if i = 0 then b[0 := 1, 1 := 1, 2 := 1]
                else if i = 1 then b[0 := 1, 1 := 1, 2 := 0]
                else if i = 2 then b[0 := 1, 1 := 0, 3 := 1]
                else if i = 3 then b[0 := 1, 1 := 0, 3 := 0]
                else if i = 4 then b[0 := 0, 4 := 1, 5 := 1]
                else if i = 5 then b[0 := 0, 4 := 1, 5 := 0]
                else if i = 6 then b[0 := 0, 4 := 0, 6 := 1]
                else if i = 7 then b[0 := 0, 4 := 0, 6 := 0]
                else b)
      else Inl Assertion_Failed)"

definition plru_touch :: "nat list \<Rightarrow> cache_block list \<Rightarrow> nat \<Rightarrow> nat list outcome" where
  "plru_touch b bs i = plru_update (length bs) b i"

definition plru_victim :: "nat list \<Rightarrow> cache_block list \<Rightarrow> (nat \<times> nat list) outcome" where
  "plru_victim b bs =
     (case first_invalid bs of
        Some i \<Rightarrow> map_sum id (\<lambda>b'. (i, b')) (plru_touch b bs i)
      | None \<Rightarrow>
          (case plru_select (length bs) b of
             Inl e \<Rightarrow> Inl e
           | Inr i \<Rightarrow> if isValidReplacement bs i then map_sum id (\<lambda>b'. (i, b')) (plru_touch b bs i)
                     else Inl Assertion_Failed))"

definition plru_inv :: "nat \<Rightarrow> nat list \<Rightarrow> bool" where
  "plru_inv n b \<longleftrightarrow> length b = 8 \<and> (n = 4 \<or> n = 8)"

lemma plru_update_ok: "plru_inv n b \<Longrightarrow> \<exists>b'. plru_update n b i = Inr b' \<and> plru_inv n b'"
  by (auto simp: plru_inv_def plru_update_def)

lemma plru_select_ok: "plru_inv n b \<Longrightarrow> \<exists>i < n. plru_select n b = Inr i"
  by (auto simp: plru_inv_def plru_select_def)

lemma plru_victim_ok:
  assumes inv: "plru_inv (length bs) b" and ok: "\<forall>i < length bs. isValidReplacement bs i"
  shows "\<exists>i b'. plru_victim b bs = Inr (i, b') \<and> i < length bs \<and> plru_inv (length bs) b'"
proof (cases "first_invalid bs")
  case None
  obtain i where i: "i < length bs" "plru_select (length bs) b = Inr i" using plru_select_ok [OF inv] by blast
  with plru_update_ok [OF inv, of i] None ok show ?thesis by (auto simp: plru_victim_def plru_touch_def)
next
  case (Some i)
  with plru_update_ok [OF inv, of i] first_invalid_SomeD [OF Some] show ?thesis
    by (auto simp: plru_victim_def plru_touch_def)
qed

interpretation plru: invalid_first plru_inv plru_victim plru_touch
proof unfold_locales
  fix bs :: "cache_block list" and p p' :: "nat list" and i :: nat
  assume inv: "plru_inv (length bs) p"
  have u: "plru_inv (length bs) q" if "plru_update (length bs) p j = Inr q" for j q
    using plru_update_ok [OF inv, of j] that by auto
  show "i < length bs" if "plru_victim p bs = Inr (i, p')"
    using that plru_select_ok [OF inv]
    by (auto simp: plru_victim_def plru_touch_def map_sum.simps split: option.splits sum.splits if_splits
        elim!: map_sum_InrE dest: first_invalid_SomeD)
  show "plru_inv (length bs) p'" if "plru_victim p bs = Inr (i, p')"
    using that u by (auto simp: plru_victim_def plru_touch_def split: option.splits sum.splits if_splits elim!: map_sum_InrE)
  show "plru_inv (length bs) p'" if "i < length bs" "plru_touch p bs i = Inr p'"
    using that u by (simp add: plru_touch_def)
  show "\<exists>p'. plru_victim p bs = Inr (i, p')" if "first_invalid bs = Some i"
    using that plru_update_ok [OF inv, of i] by (auto simp: plru_victim_def plru_touch_def)
qed

lemma plru_select_avoids:
  assumes inv: "plru_inv n b" and i: "i < n" and u: "plru_update n b i = Inr b'"
  shows "plru_select n b' \<noteq> Inr i"
proof -
  have len: "length b = 8" using inv by (simp add: plru_inv_def)
  from inv i consider "n = 4" "i = 0 \<or> i = 1 \<or> i = 2 \<or> i = 3"
    | "n = 8" "i = 0 \<or> i = 1 \<or> i = 2 \<or> i = 3 \<or> i = 4 \<or> i = 5 \<or> i = 6 \<or> i = 7"
    unfolding plru_inv_def by fastforce
  then show ?thesis
  proof cases
    case 1
    from 1(2) u len show ?thesis unfolding 1(1)
      by (elim disjE) (simp_all add: plru_update_def plru_select_def, auto)
  next
    case 2
    from 2(2) u len show ?thesis unfolding 2(1)
      by (elim disjE) (simp_all add: plru_update_def plru_select_def, auto)
  qed
qed

section \<open>Round robin\<close>

text \<open>
  \<open>getReplacementIndex\<close> calls itself until the decremented index may be replaced.
  The fuel counts the calls; after as many as there are ways the index is back
  where it was, so running out of it means that the recursion never ends.
\<close>

definition rr_next :: "nat \<Rightarrow> nat \<Rightarrow> nat" where
  "rr_next n i = (if i = 0 then n - 1 else i - 1)"

fun rr_search :: "(nat \<Rightarrow> bool) \<Rightarrow> nat \<Rightarrow> nat \<Rightarrow> nat \<Rightarrow> (nat \<times> nat) option" where
  "rr_search ok n i 0 = None"
| "rr_search ok n i (Suc fuel) =
     (if ok (rr_next n i) then Some (i, rr_next n i) else rr_search ok n (rr_next n i) fuel)"

definition rr_victim :: "nat \<Rightarrow> cache_block list \<Rightarrow> (nat \<times> nat) outcome" where
  "rr_victim i bs =
     (case rr_search (isValidReplacement bs) (length bs) i (length bs) of
        Some r \<Rightarrow> Inr r
      | None \<Rightarrow> Inl Undefined_Behaviour)"

definition rr_touch :: "nat \<Rightarrow> cache_block list \<Rightarrow> nat \<Rightarrow> nat outcome" where
  "rr_touch p bs i = Inr p"

definition rr_new :: "nat \<Rightarrow> nat" where
  "rr_new associativity = associativity - 1"

definition rr_inv :: "nat \<Rightarrow> nat \<Rightarrow> bool" where
  "rr_inv n i \<longleftrightarrow> i < n"

lemma rr_next_less [simp]: "i < n \<Longrightarrow> rr_next n i < n"
  by (auto simp: rr_next_def)

lemma rr_search_SomeD:
  "rr_search ok n i fuel = Some (j, j') \<Longrightarrow> i < n \<Longrightarrow> j < n \<and> j' < n \<and> j' = rr_next n j \<and> ok j'"
  by (induction fuel arbitrary: i) (auto split: if_splits)

interpretation rr: replacement rr_inv rr_victim rr_touch
  by unfold_locales
    (auto simp: rr_inv_def rr_victim_def rr_touch_def split: option.splits dest: rr_search_SomeD)

text \<open>The recursion ends exactly when some way may be replaced, and then within the fuel.\<close>

lemma rr_search_reaches:
  "i < n \<Longrightarrow> k < i \<Longrightarrow> ok k \<Longrightarrow> i - k \<le> fuel \<Longrightarrow> rr_search ok n i fuel \<noteq> None"
proof (induction fuel arbitrary: i)
  case (Suc fuel)
  then show ?case by (cases "k = i - 1") (auto simp: rr_next_def)
qed simp

lemma rr_search_wraps:
  "i < n \<Longrightarrow> i \<le> k \<Longrightarrow> k < n \<Longrightarrow> ok k \<Longrightarrow> i + n - k \<le> fuel \<Longrightarrow> rr_search ok n i fuel \<noteq> None"
proof (induction i arbitrary: fuel)
  case 0
  then obtain m where "fuel = Suc m" by (cases fuel) auto
  with 0 rr_search_reaches [of "n - 1" n k ok m] show ?case
    by (cases "k = n - 1") (auto simp: rr_next_def)
next
  case (Suc i)
  then obtain m where "fuel = Suc m" by (cases fuel) auto
  with Suc show ?case by (auto simp: rr_next_def)
qed

lemma rr_victim_returns:
  assumes "rr_inv (length bs) i"
  shows "(\<exists>r. rr_victim i bs = Inr r) \<longleftrightarrow> (\<exists>k < length bs. isValidReplacement bs k)"
proof
  assume "\<exists>r. rr_victim i bs = Inr r"
  then show "\<exists>k < length bs. isValidReplacement bs k"
    using rr_search_SomeD assms unfolding rr_victim_def rr_inv_def by (fastforce split: option.splits)
next
  assume "\<exists>k < length bs. isValidReplacement bs k"
  then obtain k where k: "k < length bs" "isValidReplacement bs k" by blast
  have "rr_search (isValidReplacement bs) (length bs) i (length bs) \<noteq> None"
    using rr_search_reaches [of i "length bs" k] rr_search_wraps [of i "length bs" k] k assms
    by (cases "k < i") (auto simp: rr_inv_def)
  then show "\<exists>r. rr_victim i bs = Inr r" by (auto simp: rr_victim_def)
qed

text \<open>
  The way that is returned is not the one that was tested: with one way of two being
  upgraded, that way is evicted.
\<close>

lemma rr_evicts_upgrading_block:
  assumes "length bs = 2" "isValidReplacement bs 0" "\<not> isValidReplacement bs 1"
  shows "rr_victim (rr_new 2) bs = Inr (1, 0)"
  using assms by (simp add: rr_victim_def rr_new_def rr_next_def numeral_2_eq_2)

section \<open>SRRIP\<close>

record srrip =
  rrip_bits :: "nat list"
  rrip_max :: nat
  rrip_insert :: nat
  rrip_attempts :: nat
  rrip_pointer :: nat
  rrip_tlb_enabled :: bool
  rrip_info :: set_info_lru

definition srrip_new :: "nat \<Rightarrow> nat \<Rightarrow> nat \<Rightarrow> bool \<Rightarrow> srrip" where
  "srrip_new associativity numbits attempts tlb_enabled =
     (let mx = (2 ^ numbits - 1) mod 256; ins = (if mx = 0 then 255 else mx - 1) in
      \<lparr> rrip_bits = replicate associativity ins, rrip_max = mx, rrip_insert = ins, rrip_attempts = attempts,
        rrip_pointer = 0, rrip_tlb_enabled = tlb_enabled, rrip_info = set_info_new associativity attempts \<rparr>)"

text \<open>
  The inner loop over the ways: a victim with the new state, or the attempts made and
  the state with which the next round starts. A rejected way uses up an iteration
  without moving the replacement pointer.
\<close>

datatype srrip_scan_result = Found nat srrip | Not_Found nat srrip

definition srrip_evict :: "cache_block list \<Rightarrow> nat \<Rightarrow> srrip \<Rightarrow> srrip_scan_result outcome" where
  "srrip_evict bs attempt s =
     (let index = rrip_pointer s in
      case incrementAttempt (rrip_info s) attempt of
        Inl e \<Rightarrow> Inl e
      | Inr info \<Rightarrow>
          if isValidReplacement bs index
          then Inr (Found index (s\<lparr>rrip_pointer := ((rrip_pointer s + 1) mod length bs) mod 256,
                 rrip_bits := (rrip_bits s)[index := rrip_insert s], rrip_info := info\<rparr>))
          else Inl Assertion_Failed)"

fun srrip_scan :: "(cache_block \<Rightarrow> bool) \<Rightarrow> cache_block list \<Rightarrow> nat \<Rightarrow> nat \<Rightarrow> srrip \<Rightarrow> srrip_scan_result outcome" where
  "srrip_scan in_lower bs 0 attempt s = Inr (Not_Found attempt s)"
| "srrip_scan in_lower bs (Suc k) attempt s =
     (let index = rrip_pointer s; more = attempt < rrip_attempts s - 1 in
      if rrip_max s \<le> rrip_bits s ! index
      then if more \<and> in_lower (bs ! index)
           then srrip_scan in_lower bs k (attempt + 1) (s\<lparr>rrip_bits := (rrip_bits s)[index := 0]\<rparr>)
           else if isPageTableBlock (bs ! index) \<and> rrip_tlb_enabled s \<and> more
           then srrip_scan in_lower bs k (attempt + 1) (s\<lparr>rrip_bits := (rrip_bits s)[index := 0]\<rparr>)
           else srrip_evict bs attempt s
      else srrip_scan in_lower bs k attempt (s\<lparr>rrip_pointer := ((rrip_pointer s + 1) mod length bs) mod 256\<rparr>))"

definition srrip_age :: "srrip \<Rightarrow> srrip" where
  "srrip_age s = s\<lparr>rrip_bits := map (\<lambda>b. if b < rrip_max s then b + 1 else b) (rrip_bits s)\<rparr>"

fun srrip_rounds :: "(cache_block \<Rightarrow> bool) \<Rightarrow> cache_block list \<Rightarrow> nat \<Rightarrow> nat \<Rightarrow> srrip \<Rightarrow> (nat \<times> srrip) outcome" where
  "srrip_rounds in_lower bs 0 attempt s = Inl Assertion_Failed"
| "srrip_rounds in_lower bs (Suc j) attempt s =
     (case srrip_scan in_lower bs (length bs) attempt s of
        Inl e \<Rightarrow> Inl e
      | Inr (Found i s') \<Rightarrow> Inr (i, s')
      | Inr (Not_Found attempt' s') \<Rightarrow> srrip_rounds in_lower bs j attempt' (srrip_age s'))"

definition srrip_victim :: "(cache_block \<Rightarrow> bool) \<Rightarrow> srrip \<Rightarrow> cache_block list \<Rightarrow> (nat \<times> srrip) outcome" where
  "srrip_victim in_lower s bs =
     (case first_invalid bs of
        Some i \<Rightarrow> Inr (i, s\<lparr>rrip_bits := (rrip_bits s)[i := if isPageTableBlock (bs ! i) \<and> rrip_tlb_enabled s then 0
                                                     else rrip_insert s]\<rparr>)
      | None \<Rightarrow> srrip_rounds in_lower bs (rrip_max s + 1) 0 s)"

definition srrip_touch :: "srrip \<Rightarrow> cache_block list \<Rightarrow> nat \<Rightarrow> srrip outcome" where
  "srrip_touch s bs i =
     map_sum id (\<lambda>info. s\<lparr>rrip_info := info, rrip_bits := (rrip_bits s)[i :=
         if isPageTableBlock (bs ! i) \<and> rrip_tlb_enabled s then 0 else rrip_bits s ! i - 1]\<rparr>)
       (increment (rrip_info s) (rrip_bits s ! i))"

definition srrip_inv :: "nat \<Rightarrow> srrip \<Rightarrow> bool" where
  "srrip_inv n s \<longleftrightarrow> length (rrip_bits s) = n \<and> (\<forall>b \<in> set (rrip_bits s). b \<le> rrip_max s) \<and>
     rrip_insert s \<le> rrip_max s \<and> rrip_pointer s < n \<and> n \<le> 256 \<and> info_inv n (rrip_attempts s) (rrip_info s)"

lemma srrip_new_inv:
  "0 < n \<Longrightarrow> n \<le> 256 \<Longrightarrow> 0 < numbits \<Longrightarrow> numbits \<le> 8 \<Longrightarrow> 1 \<le> a \<Longrightarrow> srrip_inv n (srrip_new n numbits a t)"
proof -
  assume a: "0 < n" "n \<le> 256" "0 < numbits" "numbits \<le> 8" "1 \<le> a"
  have "numbits \<in> {1, 2, 3, 4, 5, 6, 7, 8}" using a(3,4) by auto
  then have "(2 ^ numbits - 1) mod 256 \<noteq> (0::nat)" by auto
  with a info_new_inv [of a n] show ?thesis by (auto simp: srrip_inv_def srrip_new_def Let_def)
qed

lemma rot_next_less: "0 < n \<Longrightarrow> k mod n mod 256 < (n::nat)"
  by (meson mod_less_divisor mod_less_eq_dividend order.strict_trans1)

lemma rot_next_pointer: "srrip_inv n s \<Longrightarrow> (rrip_pointer s + 1) mod n mod 256 < n"
  by (intro rot_next_less) (auto simp: srrip_inv_def)

lemma srrip_evict_inv:
  assumes "srrip_inv (length bs) s" "srrip_evict bs attempt s = Inr r"
  shows "\<exists>i s'. r = Found i s' \<and> i < length bs \<and> srrip_inv (length bs) s'"
proof -
  from assms(2) obtain info where i: "incrementAttempt (rrip_info s) attempt = Inr info"
    and r: "r = Found (rrip_pointer s) (s\<lparr>rrip_pointer := ((rrip_pointer s + 1) mod length bs) mod 256,
                 rrip_bits := (rrip_bits s)[rrip_pointer s := rrip_insert s], rrip_info := info\<rparr>)"
    by (auto simp: srrip_evict_def Let_def split: sum.splits if_splits)
  have "info_inv (length bs) (rrip_attempts s) info"
    using i assms(1) by (auto simp: srrip_inv_def info_inv_def incrementAttempt_def split: if_splits)
  with assms(1) r rot_next_pointer [OF assms(1)] show ?thesis
    by (auto simp: srrip_inv_def dest!: in_set_updateD)
qed

lemma srrip_scan_inv:
  assumes "srrip_inv (length bs) s" "srrip_scan in_lower bs k attempt s = Inr r"
  shows "(\<exists>i s'. r = Found i s' \<and> i < length bs \<and> srrip_inv (length bs) s') \<or>
    (\<exists>a s'. r = Not_Found a s' \<and> srrip_inv (length bs) s')"
  using assms
proof (induction k arbitrary: attempt s)
  case (Suc k)
  have z: "srrip_inv (length bs) (s\<lparr>rrip_bits := (rrip_bits s)[rrip_pointer s := 0]\<rparr>)"
    using Suc.prems(1) by (auto simp: srrip_inv_def dest!: in_set_updateD)
  have p: "srrip_inv (length bs) (s\<lparr>rrip_pointer := ((rrip_pointer s + 1) mod length bs) mod 256\<rparr>)"
    using Suc.prems(1) rot_next_pointer [OF Suc.prems(1)] by (auto simp: srrip_inv_def)
  from Suc.prems(2) Suc.IH [OF z] Suc.IH [OF p] srrip_evict_inv [OF Suc.prems(1), of attempt r] show ?case
    by (auto simp: Let_def split: if_splits)
qed auto

lemma srrip_age_inv: "srrip_inv n s \<Longrightarrow> srrip_inv n (srrip_age s)"
  by (auto simp: srrip_inv_def srrip_age_def)

lemma srrip_rounds_inv:
  "srrip_inv (length bs) s \<Longrightarrow> srrip_rounds in_lower bs j attempt s = Inr (i, s') \<Longrightarrow>
   i < length bs \<and> srrip_inv (length bs) s'"
proof (induction j arbitrary: attempt s)
  case (Suc j)
  from Suc.prems(2) obtain r where r: "srrip_scan in_lower bs (length bs) attempt s = Inr r"
    by (auto split: sum.splits)
  from srrip_scan_inv [OF Suc.prems(1) r] show ?case
  proof (elim disjE exE conjE)
    fix a t assume nf: "r = Not_Found a t" "srrip_inv (length bs) t"
    with Suc.IH [OF srrip_age_inv [OF nf(2)], of a] Suc.prems(2) r show ?thesis by simp
  qed (use Suc.prems(2) r in auto)
qed simp

interpretation srrip: invalid_first srrip_inv "srrip_victim in_lower" srrip_touch for in_lower
proof unfold_locales
  fix bs :: "cache_block list" and p p' :: srrip and i :: nat
  assume inv: "srrip_inv (length bs) p"
  show "i < length bs" if "srrip_victim in_lower p bs = Inr (i, p')"
    using that srrip_rounds_inv [OF inv]
    by (auto simp: srrip_victim_def simp del: srrip_rounds.simps split: option.splits dest: first_invalid_SomeD)
  show "srrip_inv (length bs) p'" if "srrip_victim in_lower p bs = Inr (i, p')"
    using that srrip_rounds_inv [OF inv] inv
    by (auto simp: srrip_victim_def srrip_inv_def simp del: srrip_rounds.simps
        split: option.splits dest!: in_set_updateD)
  show "srrip_inv (length bs) p'" if "i < length bs" "srrip_touch p bs i = Inr p'"
  proof -
    from that(2) obtain info where inf: "increment (rrip_info p) (rrip_bits p ! i) = Inr info"
      and p': "p' = p\<lparr>rrip_info := info, rrip_bits := (rrip_bits p)[i :=
         if isPageTableBlock (bs ! i) \<and> rrip_tlb_enabled p then 0 else rrip_bits p ! i - 1]\<rparr>"
      unfolding srrip_touch_def by (elim map_sum_InrE)
    have "rrip_bits p ! i \<le> rrip_max p" using inv that(1) by (simp add: srrip_inv_def)
    moreover have "info_inv (length bs) (rrip_attempts p) info"
      using inf inv by (auto simp: srrip_inv_def info_inv_def increment_def split: if_splits)
    ultimately show ?thesis using inv p' by (auto simp: srrip_inv_def dest!: in_set_updateD)
  qed
  show "\<exists>p'. srrip_victim in_lower p bs = Inr (i, p')" if "first_invalid bs = Some i"
    using that by (simp add: srrip_victim_def)
qed

section \<open>The SRRIP victim\<close>

text \<open>Without query-based selection the scan is a search that goes round once.\<close>

lemma srrip_scan_rot:
  "rrip_attempts s = 1 \<Longrightarrow>
   srrip_scan in_lower bs k attempt s =
     (case rot_search (\<lambda>i. rrip_max s \<le> rrip_bits s ! i) (length bs) (rrip_pointer s) k of
        (Some i, p) \<Rightarrow> srrip_evict bs attempt (s\<lparr>rrip_pointer := i\<rparr>)
      | (None, p) \<Rightarrow> Inr (Not_Found attempt (s\<lparr>rrip_pointer := p\<rparr>)))"
proof (induction k arbitrary: s)
  case (Suc k)
  have "s\<lparr>rrip_pointer := rrip_pointer s\<rparr> = s" by simp
  with Suc show ?case by (auto simp: Let_def split: prod.split option.split)
qed simp

lemma srrip_evict_ok:
  assumes "srrip_inv n s" "rrip_attempts s = 1" "isValidReplacement bs i"
  shows "\<exists>s'. srrip_evict bs 0 (s\<lparr>rrip_pointer := i\<rparr>) = Inr (Found i s')"
  using assms by (simp add: srrip_evict_def srrip_inv_def info_inv_def incrementAttempt_def)

lemma srrip_rounds_oldest:
  assumes "srrip_inv (length bs) s" "rrip_attempts s = 1" "\<forall>i < length bs. isValidReplacement bs i"
    "\<exists>i < length bs. rrip_max s < rrip_bits s ! i + j"
  shows "\<exists>i s'. srrip_rounds in_lower bs j 0 s = Inr (i, s') \<and> i < length bs \<and>
    (\<forall>k < length bs. rrip_bits s ! k \<le> rrip_bits s ! i)"
  using assms
proof (induction j arbitrary: s)
  case 0
  then show ?case by (auto simp: srrip_inv_def all_set_conv_all_nth)
next
  case (Suc j)
  let ?P = "\<lambda>i. rrip_max s \<le> rrip_bits s ! i"
  have bd: "rrip_bits s ! k \<le> rrip_max s" if "k < length bs" for k
    using Suc.prems(1) that by (simp add: srrip_inv_def all_set_conv_all_nth)
  have pos: "0 < length bs" "length bs \<le> 256" "rrip_pointer s < length bs" "length (rrip_bits s) = length bs"
    using Suc.prems(1) by (auto simp: srrip_inv_def)
  obtain r p where r: "rot_search ?P (length bs) (rrip_pointer s) (length bs) = (r, p)" by fastforce
  note rp = rot_search_props [OF pos(1-3) r]
  show ?case
  proof (cases r)
    case (Some i)
    then have i: "i < length bs" "rrip_max s \<le> rrip_bits s ! i" using rp by auto
    have "\<forall>k < length bs. rrip_bits s ! k \<le> rrip_bits s ! i" using bd i(2) le_trans by blast
    moreover obtain s' where "srrip_evict bs 0 (s\<lparr>rrip_pointer := i\<rparr>) = Inr (Found i s')"
      using srrip_evict_ok [OF Suc.prems(1,2)] Suc.prems(3) i(1) by blast
    moreover from this have "srrip_rounds in_lower bs (Suc j) 0 s = Inr (i, s')"
      using r Some Suc.prems(2) by (simp only: srrip_rounds.simps srrip_scan_rot prod.case option.case sum.case srrip_scan_result.case)
    ultimately show ?thesis using i(1) by blast
  next
    case None
    let ?t = "srrip_age (s\<lparr>rrip_pointer := p\<rparr>)"
    have young: "rrip_bits s ! k < rrip_max s" if k: "k < length bs" for k
    proof (rule ccontr)
      assume "\<not> ?thesis"
      then have "?P k" by simp
      from rot_search_total [where P = ?P, OF pos(1-3) k this] r None show False by simp
    qed
    then have t: "rrip_bits ?t ! k = rrip_bits s ! k + 1" if "k < length bs" for k
      using that pos(4) by (simp add: srrip_age_def)
    have inv: "srrip_inv (length bs) ?t"
      using srrip_age_inv [of "length bs" "s\<lparr>rrip_pointer := p\<rparr>"] Suc.prems(1) rp by (simp add: srrip_inv_def)
    have mx: "rrip_max ?t = rrip_max s" "rrip_attempts ?t = 1" using Suc.prems(2) by (simp_all add: srrip_age_def)
    have "\<exists>i < length bs. rrip_max ?t < rrip_bits ?t ! i + j" using Suc.prems(4) t mx by fastforce
    from Suc.IH [OF inv mx(2) Suc.prems(3) this] obtain i s' where
      i: "srrip_rounds in_lower bs j 0 ?t = Inr (i, s')" "i < length bs"
      "\<forall>k < length bs. rrip_bits ?t ! k \<le> rrip_bits ?t ! i" by blast
    have "srrip_rounds in_lower bs (Suc j) 0 s = Inr (i, s')"
      using r None Suc.prems(2) i(1)
      by (simp only: srrip_rounds.simps srrip_scan_rot prod.case option.case sum.case srrip_scan_result.case)
    with i t show ?thesis by auto
  qed
qed

text \<open>
  With query-based selection the rounds can run out: the last round of four
  iterations is spent on two rejections.
\<close>

lemma srrip_qbs_no_victim:
  assumes "length bs = 4" "\<forall>b \<in> set bs. isValid b"
  shows "srrip_victim (\<lambda>_. True) ((srrip_new 4 2 3 False)\<lparr>rrip_bits := [0, 0, 0, 0]\<rparr>) bs = Inl Assertion_Failed"
proof -
  define S where "S = (\<lambda>k. (srrip_new 4 2 3 False)\<lparr>rrip_bits := [k, k, k, k]\<rparr>)"
  have S: "S k = \<lparr>rrip_bits = [k, k, k, k], rrip_max = 3, rrip_insert = 2, rrip_attempts = 3, rrip_pointer = 0,
      rrip_tlb_enabled = False, rrip_info = set_info_new 4 3\<rparr>" for k by (simp add: S_def srrip_new_def Let_def)
  have four: "4 = Suc (Suc (Suc (Suc 0)))" by simp
  let ?scan = "srrip_scan (\<lambda>_. True) bs (Suc (Suc (Suc (Suc 0)))) 0"
  have young: "?scan (S k) = Inr (Not_Found 0 (S k))" if "k < 3" for k
    using that assms(1) by (simp add: S Let_def)
  have age: "srrip_age (S k) = S (Suc k)" if "k < 3" for k
    using that by (simp add: S srrip_age_def)
  have old: "\<exists>t. ?scan (S 3) = Inr (Not_Found 2 t)"
    using assms(1) by (simp add: S Let_def)
  have none: "first_invalid bs = None" using assms(2) by (simp add: first_invalid_None)
  have "srrip_rounds (\<lambda>_. True) bs (Suc (Suc (Suc (Suc 0)))) 0 (S 0) = Inl Assertion_Failed"
    using young [of 0] young [of 1] young [of 2] old age [of 0] age [of 1] age [of 2] assms(1)
    by (auto simp del: srrip_scan.simps simp: four numeral_3_eq_3 numeral_2_eq_2)
  then have "srrip_victim (\<lambda>_. True) (S 0) bs = Inl Assertion_Failed"
    using none by (simp add: srrip_victim_def S numeral_3_eq_3 del: srrip_rounds.simps)
  then show ?thesis by (simp only: S_def)
qed

text \<open>The counter that a hit increments is indexed by the prediction, which a 2-way set has no room for.\<close>

lemma srrip_hit_asserts:
  "length bs = 2 \<Longrightarrow> i < 2 \<Longrightarrow> srrip_touch (srrip_new 2 2 1 False) bs i = Inl Assertion_Failed"
  by (simp add: srrip_touch_def srrip_new_def Let_def increment_def set_info_new_def)

section \<open>What the approximate policies achieve\<close>

text \<open>
  C35: SRRIP without query-based selection evicts a block whose re-reference
  prediction is the most distant: on a full set whose blocks may all be replaced the
  rounds of ageing always end with a victim, no way has a larger prediction than it,
  and the state stays well formed.
\<close>

theorem srrip_evicts_most_distant:
  assumes inv: "srrip_inv (length bs) s" and one: "rrip_attempts s = 1"
    and bs: "\<forall>b \<in> set bs. isValid b \<and> cb_cstate b \<noteq> SHARED_UPGRADING"
  shows "\<exists>i s'. srrip_victim in_lower s bs = Inr (i, s') \<and> i < length bs \<and> srrip_inv (length bs) s' \<and>
    (\<forall>k < length bs. rrip_bits s ! k \<le> rrip_bits s ! i)"
proof -
  have none: "first_invalid bs = None" using bs by (simp add: first_invalid_None)
  have ok: "\<forall>i < length bs. isValidReplacement bs i" using bs by (simp add: isValidReplacement_def)
  have "\<exists>i < length bs. rrip_max s < rrip_bits s ! i + (rrip_max s + 1)"
    using inv by (intro exI [of _ "rrip_pointer s"]) (simp add: srrip_inv_def)
  from srrip_rounds_oldest [OF inv one ok this, of in_lower] obtain i s' where
    v: "srrip_victim in_lower s bs = Inr (i, s')" and i: "i < length bs"
    "\<forall>k < length bs. rrip_bits s ! k \<le> rrip_bits s ! i"
    using none by (auto simp: srrip_victim_def simp del: srrip_rounds.simps)
  with srrip.victim_inv [OF inv v] show ?thesis by blast
qed

theorem srrip_evicts_most_distant_witness:
  "\<exists>i s'. srrip_victim (\<lambda>_. False) (srrip_new 4 2 1 True) (replicate 4 (cache_block_new 7 SHARED 0)) = Inr (i, s') \<and> i < 4"
proof -
  let ?bs = "replicate 4 (cache_block_new 7 SHARED 0)"
  have inv: "srrip_inv (length ?bs) (srrip_new 4 2 1 True)" using srrip_new_inv [of 4 2 1] by simp
  have one: "rrip_attempts (srrip_new 4 2 1 True) = 1" by (simp add: srrip_new_def Let_def)
  show ?thesis using srrip_evicts_most_distant [OF inv one, of "\<lambda>_. False"]
    by (auto simp: isValid_def cache_block_new_def minus1_64_def)
qed

text \<open>
  Tree PLRU never evicts the way used last: after a hit on any way of a 4-way or
  8-way set the way that is selected next is another one.
\<close>

lemma plru_spares_last_used:
  assumes inv: "plru_inv (length bs) b" and i: "i < length bs" and full: "\<forall>b \<in> set bs. isValid b"
    and t: "plru_touch b bs i = Inr b'" and v: "plru_victim b' bs = Inr (j, b'')"
  shows "j \<noteq> i \<and> j < length bs"
proof -
  have none: "first_invalid bs = None" using full by (simp add: first_invalid_None)
  have inv': "plru_inv (length bs) b'" by (rule plru.touch_inv [OF inv i t])
  have "plru_select (length bs) b' = Inr j"
    using v none by (auto simp: plru_victim_def split: sum.splits if_splits elim!: map_sum_InrE)
  with plru_select_avoids [OF inv i, of b'] t plru.victim_range [OF inv' v] show ?thesis
    by (auto simp: plru_touch_def)
qed

end
