(* ===== verification/Range_Table.thy ===== *)
theory Range_Table
  imports Eager_Paging
begin

text \<open>
  The range table (\<open>rangetable_btree.cc\<close>): a B-tree of degree \<open>t\<close> whose keys are
  address ranges with an exclusive end and whose values are physical offsets. A node
  is modelled with its whole key and value arrays, because \<open>search\<close> reads the slot
  behind the last key; of the child array only the pointers that are set and in use
  are kept. The frames of new nodes come from \<open>alloc\<close>, the allocator's
  \<open>handle_page_table_allocations\<close>. The theory shows that insertion keeps the tree a
  balanced search tree over the inserted ranges and never leaves the arrays, and
  characterises what a lookup finds.
\<close>

section \<open>Nodes\<close>

type_synonym range_key = "u64 \<times> u64"

text \<open>\<open>operator<\<close> of \<open>std::pair\<close>.\<close>

definition key_less :: "range_key \<Rightarrow> range_key \<Rightarrow> bool" where
  "key_less a b \<longleftrightarrow> fst a < fst b \<or> fst a = fst b \<and> snd a < snd b"

datatype tree_node = Tree_Node (nd_keys: "range_key list") (nd_vals: "u64 list") (nd_kids: "tree_node list")
  (nd_n: nat) (nd_leaf: bool) (nd_ppn: u64)

definition node_new :: "nat \<Rightarrow> bool \<Rightarrow> u64 \<Rightarrow> tree_node" where
  "node_new t leaf ppn = Tree_Node (replicate (2 * t - 1) (0, 0)) (replicate (2 * t - 1) 0) [] 0 leaf ppn"

text \<open>Move the entries \<open>i..<n\<close> of an array one slot up and write the new entry at \<open>i\<close>.\<close>

definition shift_in :: "nat \<Rightarrow> nat \<Rightarrow> 'a \<Rightarrow> 'a list \<Rightarrow> 'a list" where
  "shift_in n i x xs = take i xs @ x # take (n - i) (drop i xs) @ drop (Suc n) xs"

text \<open>
  The node \<open>z\<close> that takes the upper half of \<open>y\<close>, and \<open>y\<close> afterwards: its upper keys
  stay in the array behind the new end.
\<close>

definition upper_half :: "nat \<Rightarrow> tree_node \<Rightarrow> u64 \<Rightarrow> tree_node" where
  "upper_half t y ppn =
     Tree_Node (take (t - 1) (drop t (nd_keys y)) @ replicate t (0, 0))
       (take (t - 1) (drop t (nd_vals y)) @ replicate t 0)
       (if nd_leaf y then [] else drop t (nd_kids y)) (t - 1) (nd_leaf y) ppn"

definition lower_half :: "nat \<Rightarrow> tree_node \<Rightarrow> tree_node" where
  "lower_half t y = Tree_Node (nd_keys y) (nd_vals y) (take t (nd_kids y)) (t - 1) (nd_leaf y) (nd_ppn y)"

definition splitChild :: "nat \<Rightarrow> ('a \<Rightarrow> u64 \<times> 'a) \<Rightarrow> tree_node \<Rightarrow> nat \<Rightarrow> 'a \<Rightarrow> (tree_node \<times> 'a) outcome" where
  "splitChild t alloc x i a =
     (if 2 * t - 1 \<le> nd_n x \<or> length (nd_kids x) \<le> i then Inl Undefined_Behaviour
      else let (ppn, a') = alloc a; y = nd_kids x ! i in
        Inr (Tree_Node (shift_in (nd_n x) i (nd_keys y ! (t - 1)) (nd_keys x))
               (shift_in (nd_n x) i (nd_vals y ! (t - 1)) (nd_vals x))
               (take i (nd_kids x) @ [lower_half t y, upper_half t y ppn] @ drop (Suc i) (nd_kids x))
               (nd_n x + 1) (nd_leaf x) (nd_ppn x), a'))"

text \<open>The loop from the last key down: one more than the index of the last key that is not greater.\<close>

fun insert_pos :: "range_key \<Rightarrow> range_key list \<Rightarrow> nat \<Rightarrow> nat" where
  "insert_pos k ks 0 = 0"
| "insert_pos k ks (Suc i) = (if key_less k (ks ! i) then insert_pos k ks i else Suc i)"

fun node_depth :: "tree_node \<Rightarrow> nat" where
  "node_depth (Tree_Node ks vs cs n l p) = Suc (foldr max (map node_depth cs) 0)"

lemma foldr_max_le: "x \<in> set xs \<Longrightarrow> x \<le> foldr max xs (0::nat)"
  by (induction xs) auto

lemma foldr_max_mono: "set xs \<subseteq> set ys \<Longrightarrow> foldr max xs 0 \<le> foldr max ys (0::nat)"
  by (induction xs) (auto intro: foldr_max_le)

lemma node_depth_eq: "node_depth x = Suc (foldr max (map node_depth (nd_kids x)) 0)"
  by (cases x) simp

lemma node_depth_kid: "i < length (nd_kids x) \<Longrightarrow> node_depth (nd_kids x ! i) < node_depth x"
  using foldr_max_le [of "node_depth (nd_kids x ! i)" "map node_depth (nd_kids x)"]
  by (simp add: node_depth_eq [of x])

lemma node_depth_halves: "node_depth (lower_half t y) \<le> node_depth y" "node_depth (upper_half t y ppn) \<le> node_depth y"
  using foldr_max_mono [of "map node_depth (take t (nd_kids y))" "map node_depth (nd_kids y)"]
    foldr_max_mono [of "map node_depth (drop t (nd_kids y))" "map node_depth (nd_kids y)"]
  by (auto simp: lower_half_def upper_half_def node_depth_eq [of y] dest: in_set_takeD in_set_dropD)

lemma node_depth_split:
  assumes "splitChild t alloc x i a = Inr (x', a')" "i' = i \<or> i' = Suc i"
  shows "i' < length (nd_kids x') \<and> node_depth (nd_kids x' ! i') < node_depth x"
proof -
  from assms(1) obtain ppn where i: "i < length (nd_kids x)"
    and x': "nd_kids x' = take i (nd_kids x) @ [lower_half t (nd_kids x ! i), upper_half t (nd_kids x ! i) ppn] @ drop (Suc i) (nd_kids x)"
    by (auto simp: splitChild_def Let_def split: if_splits prod.splits)
  have "nd_kids x' ! i' = lower_half t (nd_kids x ! i) \<or> nd_kids x' ! i' = upper_half t (nd_kids x ! i) ppn"
    using assms(2) i x' by (auto simp: nth_append)
  moreover have "node_depth (lower_half t (nd_kids x ! i)) < node_depth x" "node_depth (upper_half t (nd_kids x ! i) ppn) < node_depth x"
    by (rule le_less_trans [OF node_depth_halves(1) node_depth_kid [OF i]])
      (rule le_less_trans [OF node_depth_halves(2) node_depth_kid [OF i]])
  moreover have "i' < length (nd_kids x')" using assms(2) i x' by auto
  ultimately show ?thesis by auto
qed

function insertNonFull ::
  "nat \<Rightarrow> ('a \<Rightarrow> u64 \<times> 'a) \<Rightarrow> range_key \<Rightarrow> u64 \<Rightarrow> tree_node \<Rightarrow> 'a \<Rightarrow> (tree_node \<times> 'a) outcome" where
  "insertNonFull t alloc k v x a =
     (let i = insert_pos k (nd_keys x) (nd_n x) in
      if nd_leaf x
      then if 2 * t - 1 \<le> nd_n x then Inl Undefined_Behaviour
           else Inr (Tree_Node (shift_in (nd_n x) i k (nd_keys x)) (shift_in (nd_n x) i v (nd_vals x)) (nd_kids x)
                       (nd_n x + 1) True (nd_ppn x), a)
      else if length (nd_kids x) \<le> i then Inl Undefined_Behaviour
      else if nd_n (nd_kids x ! i) = 2 * t - 1
      then (case splitChild t alloc x i a of
              Inl e \<Rightarrow> Inl e
            | Inr (x', a') \<Rightarrow>
                let i' = (if key_less (nd_keys x' ! i) k then Suc i else i) in
                (case insertNonFull t alloc k v (nd_kids x' ! i') a' of
                   Inl e \<Rightarrow> Inl e
                 | Inr (c, a'') \<Rightarrow>
                     Inr (Tree_Node (nd_keys x') (nd_vals x') ((nd_kids x')[i' := c]) (nd_n x') False (nd_ppn x'), a'')))
      else (case insertNonFull t alloc k v (nd_kids x ! i) a of
              Inl e \<Rightarrow> Inl e
            | Inr (c, a') \<Rightarrow>
                Inr (Tree_Node (nd_keys x) (nd_vals x) ((nd_kids x)[i := c]) (nd_n x) False (nd_ppn x), a')))"
  by pat_completeness auto
termination
  by (relation "measure (\<lambda>(t, alloc, k, v, x, a). node_depth x)")
    (auto simp: node_depth_kid dest: node_depth_split)

declare insertNonFull.simps [simp del]

section \<open>The table\<close>

record range_table =
  rt_root :: "tree_node option"
  rt_t :: nat

definition rt_new :: "nat \<Rightarrow> range_table" where
  "rt_new t = \<lparr>rt_root = None, rt_t = t\<rparr>"

definition rt_insert ::
  "('a \<Rightarrow> u64 \<times> 'a) \<Rightarrow> range_table \<Rightarrow> range_key \<Rightarrow> u64 \<Rightarrow> 'a \<Rightarrow> (range_table \<times> 'a) outcome" where
  "rt_insert alloc rt k v a =
     (let t = rt_t rt in
      case rt_root rt of
        None \<Rightarrow>
          if t = 0 then Inl Undefined_Behaviour
          else let (ppn, a') = alloc a; r = node_new t True ppn in
            Inr (rt\<lparr>rt_root := Some (Tree_Node ((nd_keys r)[0 := k]) ((nd_vals r)[0 := v]) [] 1 True ppn)\<rparr>, a')
      | Some r \<Rightarrow>
          if nd_n r = 2 * t - 1
          then let (ppn, a') = alloc a; s0 = node_new t False ppn in
            (case splitChild t alloc (Tree_Node (nd_keys s0) (nd_vals s0) [r] 0 False ppn) 0 a' of
               Inl e \<Rightarrow> Inl e
             | Inr (s, a'') \<Rightarrow>
                 let i = (if key_less (nd_keys s ! 0) k then 1 else 0) in
                 (case insertNonFull t alloc k v (nd_kids s ! i) a'' of
                    Inl e \<Rightarrow> Inl e
                  | Inr (c, a''') \<Rightarrow>
                      Inr (rt\<lparr>rt_root := Some (Tree_Node (nd_keys s) (nd_vals s) ((nd_kids s)[i := c]) (nd_n s) False
                             (nd_ppn s))\<rparr>, a''')))
          else map_sum id (\<lambda>(r', a'). (rt\<lparr>rt_root := Some r'\<rparr>, a')) (insertNonFull t alloc k v r a))"

text \<open>
  \<open>search\<close>: the result stands for the key and the value in the slot of the node
  that is returned; the list for \<open>accessedAddresses\<close>.
\<close>

function search :: "tree_node \<Rightarrow> u64 \<Rightarrow> u64 list \<Rightarrow> ((range_key \<times> u64) option \<times> u64 list) outcome" where
  "search x k accessed =
     (let i = length (takeWhile (\<lambda>r. snd r < k) (take (nd_n x) (nd_keys x)));
          accessed' = accessed @ map (\<lambda>j. add64 (mul64 (nd_ppn x) 4096) (j * 24)) [0..<i] in
      if length (nd_keys x) \<le> i then Inl Undefined_Behaviour
      else if fst (nd_keys x ! i) \<le> k \<and> k < snd (nd_keys x ! i)
      then Inr (Some (nd_keys x ! i, nd_vals x ! i), accessed')
      else if nd_leaf x then Inr (None, accessed')
      else if length (nd_kids x) \<le> i then Inl Undefined_Behaviour
      else search (nd_kids x ! i) k accessed')"
  by pat_completeness auto
termination
  by (relation "measure (\<lambda>(x, k, accessed). node_depth x)") (auto simp: node_depth_kid)

declare search.simps [simp del]

definition rt_lookup :: "range_table \<Rightarrow> u64 \<Rightarrow> ((range_key \<times> u64) option \<times> u64 list) outcome" where
  "rt_lookup rt address =
     (case rt_root rt of None \<Rightarrow> Inr (None, []) | Some r \<Rightarrow> search r address [])"

section \<open>The contents of a tree\<close>

type_synonym range_entry = "range_key \<times> u64"

fun interleave :: "'a list list \<Rightarrow> 'a list \<Rightarrow> 'a list" where
  "interleave [] ks = ks"
| "interleave (x # xs) [] = x @ concat xs"
| "interleave (x # xs) (k # ks) = x @ k # interleave xs ks"

abbreviation nd_entries :: "tree_node \<Rightarrow> range_entry list" where
  "nd_entries x \<equiv> take (nd_n x) (zip (nd_keys x) (nd_vals x))"

fun inorder :: "tree_node \<Rightarrow> range_entry list" where
  "inorder (Tree_Node ks vs cs n l p) = interleave (map inorder cs) (take n (zip ks vs))"

lemma inorder_eq: "inorder x = interleave (map inorder (nd_kids x)) (nd_entries x)"
  by (cases x) simp

text \<open>What lies before and behind a child.\<close>

definition left_of :: "'a list list \<Rightarrow> 'a list \<Rightarrow> nat \<Rightarrow> 'a list" where
  "left_of xs ks i = concat (map2 (\<lambda>x k. x @ [k]) (take i xs) (take i ks))"

definition right_of :: "'a list list \<Rightarrow> 'a list \<Rightarrow> nat \<Rightarrow> 'a list" where
  "right_of xs ks i = concat (map2 (#) (drop i ks) (drop (Suc i) xs))"

lemma interleave_all: "length xs = length ks \<Longrightarrow> concat (map2 (#) ks xs) = interleave ([] # xs) ks"
proof (induction xs ks rule: list_induct2)
  case (Cons x xs k ks)
  then show ?case by (cases ks; cases xs) auto
qed simp

lemma interleave_split:
  "length xs = Suc (length ks) \<Longrightarrow> i \<le> length ks \<Longrightarrow>
   interleave xs ks = left_of xs ks i @ xs ! i @ right_of xs ks i"
proof (induction i arbitrary: xs ks)
  case 0
  then obtain x xs' where x: "xs = x # xs'" "length xs' = length ks" by (cases xs) auto
  have "interleave (x # xs') ks = x @ interleave ([] # xs') ks" by (cases ks) auto
  with x show ?case by (simp add: left_of_def right_of_def interleave_all)
next
  case (Suc i)
  then obtain x xs' k ks' where x: "xs = x # xs'" "ks = k # ks'" "length xs' = Suc (length ks')" "i \<le> length ks'"
    by (cases xs; cases ks) auto
  from Suc.IH [OF x(3,4)] x show ?case by (simp add: left_of_def right_of_def)
qed

lemma left_of_Suc: "i < length xs \<Longrightarrow> i < length ks \<Longrightarrow> left_of xs ks (Suc i) = left_of xs ks i @ xs ! i @ [ks ! i]"
  by (simp add: left_of_def take_Suc_conv_app_nth)

lemma right_of_step: "i < length ks \<Longrightarrow> Suc i < length xs \<Longrightarrow>
   right_of xs ks i = ks ! i # xs ! Suc i @ right_of xs ks (Suc i)"
  by (simp add: right_of_def Cons_nth_drop_Suc [symmetric])

lemma left_of_cong: "take i xs = take i xs' \<Longrightarrow> take i ks = take i ks' \<Longrightarrow> left_of xs ks i = left_of xs' ks' i"
  by (simp add: left_of_def)

text \<open>Replacing a child.\<close>

lemma interleave_update:
  assumes "length xs = Suc (length ks)" "i \<le> length ks"
  shows "interleave (xs[i := y]) ks = left_of xs ks i @ y @ right_of xs ks i"
  using interleave_split [of "xs[i := y]" ks i] assms by (simp add: left_of_def right_of_def)

text \<open>Splitting a child around its median does not change the contents.\<close>

lemma interleave_insert:
  assumes len: "length xs = Suc (length ks)" "i \<le> length ks" and m: "xs ! i = a @ m # b"
  shows "interleave (take i xs @ [a, b] @ drop (Suc i) xs) (take i ks @ m # drop i ks) = interleave xs ks"
proof -
  let ?xs = "take i xs @ [a, b] @ drop (Suc i) xs" and ?ks = "take i ks @ m # drop i ks"
  have "interleave ?xs ?ks = left_of ?xs ?ks i @ ?xs ! i @ right_of ?xs ?ks i"
    by (rule interleave_split) (use len in auto)
  also have "left_of ?xs ?ks i = left_of xs ks i" by (rule left_of_cong) (use len in auto)
  also have "?xs ! i = a" using len by (simp add: nth_append)
  also have "right_of ?xs ?ks i = m # b @ right_of xs ks i" using len by (simp add: right_of_def)
  also have "left_of xs ks i @ a @ m # b @ right_of xs ks i = left_of xs ks i @ xs ! i @ right_of xs ks i"
    using m by simp
  also have "\<dots> = interleave xs ks" using interleave_split [OF len] by simp
  finally show ?thesis .
qed

lemma shift_in_length: "i \<le> n \<Longrightarrow> n < length xs \<Longrightarrow> length (shift_in n i x xs) = length xs"
  by (simp add: shift_in_def)

lemma shift_in_take: "i \<le> n \<Longrightarrow> n < length xs \<Longrightarrow> take (Suc n) (shift_in n i x xs) = take i xs @ x # drop i (take n xs)"
  by (simp add: shift_in_def drop_take Suc_diff_le)

lemma shift_in_set: "set (shift_in n i x xs) \<subseteq> insert x (set xs)"
  by (auto simp: shift_in_def dest: in_set_takeD in_set_dropD)

lemma shift_in_zip:
  "i \<le> n \<Longrightarrow> n < length xs \<Longrightarrow> length ys = length xs \<Longrightarrow>
   zip (shift_in n i x xs) (shift_in n i y ys) = shift_in n i (x, y) (zip xs ys)"
  by (simp add: shift_in_def take_zip drop_zip)

lemma interleave_halves:
  "length xs = Suc (length ks) \<Longrightarrow> i < length ks \<Longrightarrow>
   interleave xs ks = interleave (take (Suc i) xs) (take i ks) @ ks ! i # interleave (drop (Suc i) xs) (drop (Suc i) ks)"
proof (induction i arbitrary: xs ks)
  case 0
  then show ?case by (cases xs; cases ks) auto
next
  case (Suc i)
  then obtain x xs' k ks' where x: "xs = x # xs'" "ks = k # ks'" "length xs' = Suc (length ks')" "i < length ks'"
    by (cases xs; cases ks) auto
  from Suc.IH [OF x(3,4)] x show ?case by simp
qed

section \<open>Well-formed trees\<close>

text \<open>
  \<open>S\<close> is the set of the entries ever inserted; the arrays of a node hold only such
  entries and, where nothing was written, empty ranges. All leaves have the depth \<open>h\<close>.
\<close>

definition node_ok :: "nat \<Rightarrow> range_entry set \<Rightarrow> tree_node \<Rightarrow> bool" where
  "node_ok t S x \<longleftrightarrow> length (nd_keys x) = 2 * t - 1 \<and> length (nd_vals x) = 2 * t - 1 \<and> nd_n x \<le> 2 * t - 1 \<and>
     (\<forall>e \<in> set (zip (nd_keys x) (nd_vals x)). fst e = (0, 0) \<or> e \<in> S)"

fun wf_tree :: "nat \<Rightarrow> range_entry set \<Rightarrow> nat \<Rightarrow> tree_node \<Rightarrow> bool" where
  "wf_tree t S 0 x \<longleftrightarrow> node_ok t S x \<and> nd_leaf x \<and> nd_kids x = []"
| "wf_tree t S (Suc h) x \<longleftrightarrow> node_ok t S x \<and> \<not> nd_leaf x \<and> length (nd_kids x) = Suc (nd_n x) \<and>
     (\<forall>c \<in> set (nd_kids x). wf_tree t S h c \<and> t - 1 \<le> nd_n c)"

lemma wf_tree_node: "wf_tree t S h x \<Longrightarrow> node_ok t S x"
  by (cases h) auto

lemma wf_tree_mono: "wf_tree t S h x \<Longrightarrow> S \<subseteq> S' \<Longrightarrow> wf_tree t S' h x"
  by (induction h arbitrary: x) (auto simp: node_ok_def)

lemma nd_entries_length: "node_ok t S x \<Longrightarrow> length (nd_entries x) = nd_n x"
  by (simp add: node_ok_def)

lemma halves_entries:
  assumes "node_ok t S y" "nd_n y = 2 * t - 1" "2 \<le> t"
  shows "nd_entries (lower_half t y) = take (t - 1) (nd_entries y)"
    "nd_entries (upper_half t y ppn) = drop t (nd_entries y)"
    "nd_entries y ! (t - 1) = (nd_keys y ! (t - 1), nd_vals y ! (t - 1))"
    "node_ok t S (lower_half t y)" "node_ok t S (upper_half t y ppn)"
proof -
  let ?z = "zip (nd_keys y) (nd_vals y)"
  from assms have len: "length (nd_keys y) = 2 * t - 1" "length (nd_vals y) = 2 * t - 1" "length ?z = 2 * t - 1"
    by (simp_all add: node_ok_def)
  show "nd_entries (lower_half t y) = take (t - 1) (nd_entries y)" using assms(2,3) by (simp add: lower_half_def)
  have u: "zip (nd_keys (upper_half t y ppn)) (nd_vals (upper_half t y ppn)) = take (t - 1) (drop t ?z) @ replicate t ((0, 0), 0)"
    using len by (simp add: upper_half_def take_zip drop_zip zip_replicate)
  then show "nd_entries (upper_half t y ppn) = drop t (nd_entries y)"
    using len assms(2) by (simp add: upper_half_def)
  show "nd_entries y ! (t - 1) = (nd_keys y ! (t - 1), nd_vals y ! (t - 1))" using len assms(2,3) by simp
  show "node_ok t S (lower_half t y)" using assms by (simp add: node_ok_def lower_half_def)
  have "\<forall>e \<in> set (take (t - 1) (drop t ?z) @ replicate t ((0, 0), 0)). fst e = (0, 0) \<or> e \<in> S"
    using assms(1) by (auto simp: node_ok_def dest!: in_set_takeD in_set_dropD)
  moreover have "length (nd_keys (upper_half t y ppn)) = 2 * t - 1" "length (nd_vals (upper_half t y ppn)) = 2 * t - 1"
    "nd_n (upper_half t y ppn) \<le> 2 * t - 1" using len assms(3) by (simp_all add: upper_half_def)
  ultimately show "node_ok t S (upper_half t y ppn)" unfolding node_ok_def u by blast
qed

lemma node_halves_ok:
  assumes wf: "wf_tree t S h y" and full: "nd_n y = 2 * t - 1" and t: "2 \<le> t"
  shows "wf_tree t S h (lower_half t y)" "wf_tree t S h (upper_half t y ppn)"
    "inorder y = inorder (lower_half t y) @ (nd_keys y ! (t - 1), nd_vals y ! (t - 1)) # inorder (upper_half t y ppn)"
proof -
  note e = halves_entries [OF wf_tree_node [OF wf] full t]
  have len: "length (nd_entries y) = 2 * t - 1" using nd_entries_length [OF wf_tree_node [OF wf]] full by simp
  have kids: "nd_kids (lower_half t y) = take t (nd_kids y)"
    "nd_kids (upper_half t y ppn) = (if nd_leaf y then [] else drop t (nd_kids y))"
    by (simp_all add: lower_half_def upper_half_def)
  have tt: "t - 1 < 2 * t - 1" "Suc (t - 1) = t" using t by simp_all
  show "wf_tree t S h (lower_half t y)" "wf_tree t S h (upper_half t y ppn)"
    using wf full t e(4,5)
    by (cases h; auto simp: lower_half_def upper_half_def dest: in_set_takeD in_set_dropD)+
  show "inorder y = inorder (lower_half t y) @ (nd_keys y ! (t - 1), nd_vals y ! (t - 1)) # inorder (upper_half t y ppn)"
  proof (cases h)
    case 0
    then have "nd_kids y = []" "nd_leaf y" using wf by simp_all
    then show ?thesis using id_take_nth_drop [of "t - 1" "nd_entries y"] len tt
      by (simp only: inorder_eq e(1-3) [symmetric] kids) (simp add: e(1-3))
  next
    case (Suc h')
    then have k: "length (map inorder (nd_kids y)) = Suc (length (nd_entries y))" "\<not> nd_leaf y"
      using wf len full by simp_all
    show ?thesis using interleave_halves [OF k(1), of "t - 1"] k(2) len tt
      by (simp only: inorder_eq e kids) (simp add: take_map drop_map)
  qed
qed

lemma splitChild_ok:
  assumes wf: "wf_tree t S (Suc h) x" and t: "2 \<le> t" and i: "i \<le> nd_n x" "nd_n x < 2 * t - 1"
    and full: "nd_n (nd_kids x ! i) = 2 * t - 1"
  obtains x' a' m where "splitChild t alloc x i a = Inr (x', a')" "wf_tree t S (Suc h) x'" "inorder x' = inorder x"
    "nd_n x' = Suc (nd_n x)" "nd_entries x' = take i (nd_entries x) @ m # drop i (nd_entries x)"
    "nd_n (nd_kids x' ! i) = t - 1" "nd_n (nd_kids x' ! Suc i) = t - 1"
proof -
  let ?y = "nd_kids x ! i"
  obtain ppn a' where a: "alloc a = (ppn, a')" by fastforce
  let ?k = "nd_keys ?y ! (t - 1)" and ?v = "nd_vals ?y ! (t - 1)"
  define x' where "x' = Tree_Node (shift_in (nd_n x) i ?k (nd_keys x)) (shift_in (nd_n x) i ?v (nd_vals x))
     (take i (nd_kids x) @ [lower_half t ?y, upper_half t ?y ppn] @ drop (Suc i) (nd_kids x)) (nd_n x + 1) (nd_leaf x) (nd_ppn x)"
  from wf have ok: "node_ok t S x" and kids: "length (nd_kids x) = Suc (nd_n x)" "\<not> nd_leaf x"
    and sub: "\<forall>c \<in> set (nd_kids x). wf_tree t S h c \<and> t - 1 \<le> nd_n c" by simp_all
  have il: "i < length (nd_kids x)" using i kids by simp
  have wfy: "wf_tree t S h ?y" using sub il by simp
  note hv = node_halves_ok(1) [OF wfy full t] node_halves_ok(2) [OF wfy full t, of ppn] node_halves_ok(3) [OF wfy full t, of ppn]
  from ok have len: "length (nd_keys x) = 2 * t - 1" "length (nd_vals x) = 2 * t - 1" by (simp_all add: node_ok_def)
  have z: "zip (nd_keys x') (nd_vals x') = shift_in (nd_n x) i (?k, ?v) (zip (nd_keys x) (nd_vals x))"
    using len i by (simp add: x'_def shift_in_zip)
  have e: "nd_entries x' = take i (nd_entries x) @ (?k, ?v) # drop i (nd_entries x)"
    using len i by (simp only: z) (simp add: x'_def shift_in_take)
  have "(?k, ?v) \<in> set (zip (nd_keys ?y) (nd_vals ?y))"
    using wf_tree_node [OF wfy] t by (auto simp: node_ok_def set_zip intro!: exI [of _ "t - 1"])
  then have kv: "?k = (0, 0) \<or> (?k, ?v) \<in> S" using wf_tree_node [OF wfy] by (fastforce simp: node_ok_def)
  have "node_ok t S x'"
  proof -
    have "set (zip (nd_keys x') (nd_vals x')) \<subseteq> insert (?k, ?v) (set (zip (nd_keys x) (nd_vals x)))"
      unfolding z by (rule shift_in_set)
    then have "\<forall>e \<in> set (zip (nd_keys x') (nd_vals x')). fst e = (0, 0) \<or> e \<in> S" using ok kv by (fastforce simp: node_ok_def)
    moreover have "length (nd_keys x') = 2 * t - 1" "length (nd_vals x') = 2 * t - 1" "nd_n x' \<le> 2 * t - 1"
      using len i by (simp_all add: x'_def shift_in_length)
    ultimately show ?thesis by (simp add: node_ok_def)
  qed
  moreover have "\<forall>c \<in> set (nd_kids x'). wf_tree t S h c \<and> t - 1 \<le> nd_n c"
    using sub hv by (auto simp: x'_def lower_half_def upper_half_def dest: in_set_takeD in_set_dropD)
  ultimately have "wf_tree t S (Suc h) x'" using kids i by (simp add: x'_def)
  moreover have "inorder x' = inorder x"
  proof -
    have l: "length (map inorder (nd_kids x)) = Suc (length (nd_entries x))" "i \<le> length (nd_entries x)"
      using kids i nd_entries_length [OF ok] by simp_all
    have m: "map inorder (nd_kids x) ! i = inorder (lower_half t ?y) @ (?k, ?v) # inorder (upper_half t ?y ppn)"
      using hv(3) il by simp
    have k: "map inorder (nd_kids x') = take i (map inorder (nd_kids x)) @
        [inorder (lower_half t ?y), inorder (upper_half t ?y ppn)] @ drop (Suc i) (map inorder (nd_kids x))"
      by (simp add: x'_def take_map drop_map)
    show ?thesis unfolding inorder_eq [of x'] inorder_eq [of x] e k by (rule interleave_insert [OF l m])
  qed
  moreover have "splitChild t alloc x i a = Inr (x', a')"
    using a i il by (simp add: splitChild_def x'_def Let_def)
  moreover have "nd_n (nd_kids x' ! i) = t - 1" "nd_n (nd_kids x' ! Suc i) = t - 1" "nd_n x' = Suc (nd_n x)"
    using il by (simp_all add: x'_def nth_append lower_half_def upper_half_def)
  ultimately show ?thesis using that e by blast
qed

section \<open>Order\<close>

definition before :: "range_entry \<Rightarrow> range_entry \<Rightarrow> bool" where
  "before a b \<longleftrightarrow> snd (fst a) \<le> fst (fst b)"

definition proper :: "range_entry \<Rightarrow> bool" where
  "proper a \<longleftrightarrow> fst (fst a) < snd (fst a)"

definition ordered :: "range_entry list \<Rightarrow> bool" where
  "ordered xs \<longleftrightarrow> sorted_wrt before xs \<and> (\<forall>e \<in> set xs. proper e)"

text \<open>The range of one entry does not overlap that of another.\<close>

definition apart :: "range_entry \<Rightarrow> range_entry \<Rightarrow> bool" where
  "apart a b \<longleftrightarrow> before a b \<or> before b a"

lemma before_trans: "before a b \<Longrightarrow> proper b \<Longrightarrow> before b c \<Longrightarrow> before a c"
  by (simp add: before_def proper_def)

lemma key_less_before: "proper e \<Longrightarrow> proper q \<Longrightarrow> apart e q \<Longrightarrow> key_less (fst e) (fst q) \<longleftrightarrow> before e q"
  by (auto simp: key_less_def before_def proper_def apart_def)

lemma ordered_append: "ordered (xs @ ys) \<longleftrightarrow> ordered xs \<and> ordered ys \<and> (\<forall>a \<in> set xs. \<forall>b \<in> set ys. before a b)"
  by (auto simp: ordered_def sorted_wrt_append)

lemma ordered_Cons: "ordered (x # xs) \<longleftrightarrow> proper x \<and> ordered xs \<and> (\<forall>b \<in> set xs. before x b)"
  by (auto simp: ordered_def)

lemma ordered_replace:
  assumes "ordered (L @ C @ R)" "ordered C'" "set C' = insert e (set C)"
    "\<forall>a \<in> set L. before a e" "\<forall>b \<in> set R. before e b"
  shows "ordered (L @ C' @ R)"
  using assms by (auto simp: ordered_append)

lemma ordered_snocD:
  assumes "ordered ((A @ [k]) @ B)" "before k e"
  shows "\<forall>a \<in> set (A @ [k]). before a e"
proof -
  have p: "proper k" "\<forall>a \<in> set A. before a k" using assms(1) unfolding ordered_append by (simp_all add: ordered_Cons)
  show ?thesis using before_trans [OF _ p(1) assms(2)] p(2) assms(2) by simp
qed

lemma ordered_ConsD:
  assumes "ordered (A @ k # B)" "before e k"
  shows "\<forall>b \<in> set (k # B). before e b"
proof -
  have p: "proper k" "\<forall>b \<in> set B. before k b" using assms(1) by (simp_all add: ordered_append ordered_Cons)
  show ?thesis using before_trans [OF assms(2) p(1)] p(2) assms(2) by simp
qed

lemma slot_sides:
  assumes ord: "ordered (interleave xs ks)" and len: "length xs = Suc (length ks)" "i \<le> length ks"
    and lo: "0 < i \<Longrightarrow> before (ks ! (i - 1)) e" and hi: "i < length ks \<Longrightarrow> before e (ks ! i)"
  shows "\<forall>a \<in> set (left_of xs ks i). before a e" "\<forall>b \<in> set (right_of xs ks i). before e b"
proof -
  have o: "ordered (left_of xs ks i @ xs ! i @ right_of xs ks i)" using ord interleave_split [OF len] by simp
  show "\<forall>a \<in> set (left_of xs ks i). before a e"
  proof (cases i)
    case (Suc j)
    then have l: "left_of xs ks i = (left_of xs ks j @ xs ! j) @ [ks ! j]" using left_of_Suc [of j xs ks] len by simp
    show ?thesis unfolding l by (rule ordered_snocD [OF o [unfolded l]]) (use lo Suc in simp)
  qed (simp add: left_of_def)
  show "\<forall>b \<in> set (right_of xs ks i). before e b"
  proof (cases "i < length ks")
    case True
    then have r: "right_of xs ks i = ks ! i # xs ! Suc i @ right_of xs ks (Suc i)"
      using right_of_step [of i ks xs] len by simp
    have "ordered ((left_of xs ks i @ xs ! i) @ ks ! i # xs ! Suc i @ right_of xs ks (Suc i))" using o r by simp
    from ordered_ConsD [OF this hi [OF True]] r show ?thesis by simp
  qed (simp add: right_of_def)
qed

lemma insert_pos_spec:
  "insert_pos k ks n \<le> n" "0 < insert_pos k ks n \<Longrightarrow> \<not> key_less k (ks ! (insert_pos k ks n - 1))"
  "insert_pos k ks n < n \<Longrightarrow> key_less k (ks ! insert_pos k ks n)"
  by (induction n) (auto split: if_splits simp: less_Suc_eq le_Suc_eq)

lemma list_sides:
  assumes ord: "ordered ks" and i: "i \<le> length ks"
    and lo: "0 < i \<Longrightarrow> before (ks ! (i - 1)) e" and hi: "i < length ks \<Longrightarrow> before e (ks ! i)"
  shows "\<forall>a \<in> set (take i ks). before a e" "\<forall>b \<in> set (drop i ks). before e b"
proof -
  show "\<forall>a \<in> set (take i ks). before a e"
  proof (cases i)
    case (Suc j)
    then have tk: "take i ks = take j ks @ [ks ! j]" using i by (simp add: take_Suc_conv_app_nth)
    have "ordered ((take j ks @ [ks ! j]) @ drop i ks)" using ord tk append_take_drop_id [of i ks] by metis
    from ordered_snocD [OF this] lo Suc tk show ?thesis by simp
  qed simp
  show "\<forall>b \<in> set (drop i ks). before e b"
  proof (cases "i < length ks")
    case True
    then have d: "drop i ks = ks ! i # drop (Suc i) ks" by (simp add: Cons_nth_drop_Suc)
    have "ordered (take i ks @ ks ! i # drop (Suc i) ks)" using ord d append_take_drop_id [of i ks] by metis
    from ordered_ConsD [OF this hi [OF True]] d show ?thesis by simp
  qed simp
qed

lemma ordered_insert_at:
  assumes "ordered ks" "proper e" "\<forall>a \<in> set (take i ks). before a e" "\<forall>b \<in> set (drop i ks). before e b"
  shows "ordered (take i ks @ e # drop i ks)"
proof -
  have "ordered (take i ks @ drop i ks)" using assms(1) by simp
  with assms(2-4) show ?thesis unfolding ordered_append ordered_Cons by auto
qed

text \<open>The slot found by \<open>insertNonFull\<close> separates the keys below the new entry from those above.\<close>

lemma insert_pos_sides:
  assumes ok: "node_ok t S x" and e: "proper e" and q: "\<forall>q \<in> set (nd_entries x). proper q \<and> apart e q"
    and i: "i = insert_pos (fst e) (nd_keys x) (nd_n x)"
  shows "i \<le> length (nd_entries x)" "0 < i \<Longrightarrow> before (nd_entries x ! (i - 1)) e"
    "i < length (nd_entries x) \<Longrightarrow> before e (nd_entries x ! i)"
proof -
  note len = nd_entries_length [OF ok]
  have nth: "fst (nd_entries x ! j) = nd_keys x ! j" if "j < nd_n x" for j using ok that by (simp add: node_ok_def)
  note sp = insert_pos_spec [where k = "fst e" and ks = "nd_keys x" and n = "nd_n x", folded i]
  show "i \<le> length (nd_entries x)" using sp(1) len by simp
  show "before (nd_entries x ! (i - 1)) e" if "0 < i"
  proof -
    have "i - 1 < nd_n x" using that sp(1) by simp
    then have "nd_entries x ! (i - 1) \<in> set (nd_entries x)" "\<not> key_less (fst e) (fst (nd_entries x ! (i - 1)))"
      using nth sp(2) [OF that] len by (metis nth_mem, simp)
    with q key_less_before [OF e, of "nd_entries x ! (i - 1)"] show ?thesis unfolding apart_def by metis
  qed
  show "before e (nd_entries x ! i)" if "i < length (nd_entries x)"
  proof -
    have "nd_entries x ! i \<in> set (nd_entries x)" "key_less (fst e) (fst (nd_entries x ! i))"
      using nth sp(3) that len by (metis nth_mem, simp)
    with q key_less_before [OF e, of "nd_entries x ! i"] show ?thesis by metis
  qed
qed

lemma interleave_keys: "length xs = Suc (length ks) \<Longrightarrow> set ks \<subseteq> set (interleave xs ks)"
  by (induction xs ks rule: interleave.induct) auto

lemma nd_entries_inorder: "wf_tree t S h x \<Longrightarrow> set (nd_entries x) \<subseteq> set (inorder x)"
proof (cases h)
  case 0
  assume "wf_tree t S h x"
  with 0 have "nd_kids x = []" by simp
  then show ?thesis by (simp add: inorder_eq [of x])
next
  case (Suc h')
  assume wf: "wf_tree t S h x"
  have "length (map inorder (nd_kids x)) = Suc (length (nd_entries x))"
    unfolding length_map nd_entries_length [OF wf_tree_node [OF wf]] using wf Suc by simp
  from interleave_keys [OF this] show ?thesis by (simp only: inorder_eq [of x])
qed

section \<open>Insertion\<close>

text \<open>What an insertion below a node achieves.\<close>

definition inserted :: "nat \<Rightarrow> range_entry set \<Rightarrow> nat \<Rightarrow> range_entry \<Rightarrow> tree_node \<Rightarrow> tree_node \<Rightarrow> bool" where
  "inserted t S h e x x' \<longleftrightarrow> wf_tree t S h x' \<and> ordered (inorder x') \<and>
     set (inorder x') = insert e (set (inorder x)) \<and> nd_n x \<le> nd_n x'"

lemma leaf_insert_ok:
  assumes wf: "wf_tree t S 0 x" and n: "nd_n x < 2 * t - 1" and e: "e \<in> S" "proper e"
    and ord: "ordered (inorder x)" and q: "\<forall>q \<in> set (inorder x). apart e q"
  shows "\<exists>x' a'. insertNonFull t alloc (fst e) (snd e) x a = Inr (x', a') \<and> inserted t S 0 e x x'"
proof -
  define i where "i = insert_pos (fst e) (nd_keys x) (nd_n x)"
  define x' where "x' = Tree_Node (shift_in (nd_n x) i (fst e) (nd_keys x)) (shift_in (nd_n x) i (snd e) (nd_vals x))
    (nd_kids x) (nd_n x + 1) True (nd_ppn x)"
  from wf have ok: "node_ok t S x" and k: "nd_leaf x" "nd_kids x = []" by simp_all
  have io: "inorder x = nd_entries x" "inorder x' = nd_entries x'" using k by (simp_all add: inorder_eq x'_def)
  have qs: "\<forall>q \<in> set (nd_entries x). proper q \<and> apart e q" using ord q io(1) by (simp add: ordered_def)
  note sd = insert_pos_sides [OF ok e(2) qs i_def]
  from ok have len: "length (nd_keys x) = 2 * t - 1" "length (nd_vals x) = 2 * t - 1" "i \<le> nd_n x"
    using insert_pos_spec(1) by (simp_all add: node_ok_def i_def)
  have z: "zip (nd_keys x') (nd_vals x') = shift_in (nd_n x) i e (zip (nd_keys x) (nd_vals x))"
    using len n by (simp add: x'_def shift_in_zip)
  have es: "nd_entries x' = take i (nd_entries x) @ e # drop i (nd_entries x)"
    using len n by (simp only: z) (simp add: x'_def shift_in_take)
  have "ordered (nd_entries x')" unfolding es
    by (rule ordered_insert_at [OF _ e(2) list_sides [OF _ sd]]) (use ord io in simp_all)
  moreover have "set (nd_entries x') = insert e (set (nd_entries x))"
    unfolding es using append_take_drop_id [of i "nd_entries x"] by (metis Un_insert_right list.simps(15) set_append)
  moreover have "node_ok t S x'"
  proof -
    have "set (zip (nd_keys x') (nd_vals x')) \<subseteq> insert e (set (zip (nd_keys x) (nd_vals x)))"
      unfolding z by (rule shift_in_set)
    then have "\<forall>q \<in> set (zip (nd_keys x') (nd_vals x')). fst q = (0, 0) \<or> q \<in> S" using ok e(1) by (fastforce simp: node_ok_def)
    then show ?thesis using len n by (simp add: node_ok_def x'_def shift_in_length)
  qed
  ultimately have "inserted t S 0 e x x'" using k io by (simp add: inserted_def x'_def)
  moreover have "insertNonFull t alloc (fst e) (snd e) x a = Inr (x', a)"
    using k n by (simp add: insertNonFull.simps [of t alloc _ _ x] i_def x'_def Let_def)
  ultimately show ?thesis by blast
qed

text \<open>Replacing the child in the right slot by one that holds the new entry.\<close>

lemma descend_ok:
  assumes wf: "wf_tree t S (Suc h) x" and ord: "ordered (inorder x)" and i: "i \<le> length (nd_entries x)"
    and lo: "0 < i \<Longrightarrow> before (nd_entries x ! (i - 1)) e" and hi: "i < length (nd_entries x) \<Longrightarrow> before e (nd_entries x ! i)"
    and c: "inserted t S h e (nd_kids x ! i) c"
  shows "inserted t S (Suc h) e x (Tree_Node (nd_keys x) (nd_vals x) ((nd_kids x)[i := c]) (nd_n x) False (nd_ppn x))"
    (is "inserted t S (Suc h) e x ?x'")
proof -
  let ?xs = "map inorder (nd_kids x)" and ?ks = "nd_entries x"
  have len: "length ?xs = Suc (length ?ks)" using wf nd_entries_length [of t S x] by simp
  have il: "i < length (nd_kids x)" using le_imp_less_Suc [OF i] len unfolding length_map by (simp only:)
  have xi: "?xs ! i = inorder (nd_kids x ! i)" using il by simp
  have x: "inorder x = left_of ?xs ?ks i @ ?xs ! i @ right_of ?xs ?ks i"
    unfolding inorder_eq [of x] by (rule interleave_split [OF len i])
  have "map inorder (nd_kids ?x') = ?xs[i := inorder c]" by (simp add: map_update)
  then have x': "inorder ?x' = left_of ?xs ?ks i @ inorder c @ right_of ?xs ?ks i"
    unfolding inorder_eq [of ?x'] using interleave_update [OF len i, of "inorder c"] by simp
  note sd = slot_sides [OF ord [unfolded inorder_eq [of x]] len i lo hi]
  have cs: "ordered (inorder c)" "set (inorder c) = insert e (set (?xs ! i))" "wf_tree t S h c" "nd_n (nd_kids x ! i) \<le> nd_n c"
    using c xi by (simp_all add: inserted_def)
  have "ordered (inorder ?x')" unfolding x' by (rule ordered_replace [OF ord [unfolded x] cs(1,2) sd])
  moreover have "set (inorder ?x') = insert e (set (inorder x))" unfolding x x' using cs(2) by auto
  moreover have "wf_tree t S (Suc h) ?x'"
  proof -
    have "t - 1 \<le> nd_n c" using wf il cs(4) by (metis le_trans nth_mem wf_tree.simps(2))
    then show ?thesis using wf cs(3) by (auto simp: node_ok_def dest!: in_set_updateD)
  qed
  ultimately show ?thesis by (simp add: inserted_def)
qed

text \<open>After a split the comparison with the median chooses the half.\<close>

lemma split_slot:
  assumes i: "i \<le> length es" and lo: "0 < i \<Longrightarrow> before (es ! (i - 1)) e" and hi: "i < length es \<Longrightarrow> before e (es ! i)"
    and es': "es' = take i es @ m # drop i es" and m: "apart e m" "proper m" "proper e"
    and i': "i' = (if key_less (fst m) (fst e) then Suc i else i)"
  shows "i' \<le> length es'" "0 < i' \<Longrightarrow> before (es' ! (i' - 1)) e" "i' < length es' \<Longrightarrow> before e (es' ! i')"
proof -
  have c: "key_less (fst m) (fst e) \<longleftrightarrow> before m e"
    by (rule key_less_before) (use m in \<open>auto simp: apart_def\<close>)
  show "i' \<le> length es'" using i es' i' by auto
  show "before (es' ! (i' - 1)) e" if "0 < i'"
    using that i es' i' c lo by (cases "before m e") (auto simp: nth_append)
  show "before e (es' ! i')" if "i' < length es'"
    using that i es' i' c hi m(1) by (cases "before m e") (auto simp: nth_append apart_def)
qed

lemma child_inorder:
  assumes "wf_tree t S (Suc h) y" "j < length (nd_kids y)"
  obtains L R where "inorder y = L @ inorder (nd_kids y ! j) @ R"
proof -
  have "length (map inorder (nd_kids y)) = Suc (length (nd_entries y))" "j \<le> length (nd_entries y)"
    using assms nd_entries_length [OF wf_tree_node [OF assms(1)]] by simp_all
  from interleave_split [OF this] assms(2) that show ?thesis by (simp add: inorder_eq [of y])
qed

text \<open>
  The two ways down, given that an insertion below the children (of height \<open>h\<close>)
  works: into a child with room, and into a half of a full child that is split.
\<close>

definition inserts_below :: "nat \<Rightarrow> range_entry set \<Rightarrow> ('a \<Rightarrow> u64 \<times> 'a) \<Rightarrow> nat \<Rightarrow> range_entry \<Rightarrow> bool" where
  "inserts_below t S alloc h e \<longleftrightarrow> (\<forall>x a. wf_tree t S h x \<longrightarrow> nd_n x < 2 * t - 1 \<longrightarrow> ordered (inorder x) \<longrightarrow>
     (\<forall>q \<in> set (inorder x). apart e q) \<longrightarrow>
     (\<exists>x' a'. insertNonFull t alloc (fst e) (snd e) x a = Inr (x', a') \<and> inserted t S h e x x'))"

lemma insert_into_child:
  assumes IH: "inserts_below t S alloc h e" and wf: "wf_tree t S (Suc h) y" and j: "j < length (nd_kids y)"
    and room: "nd_n (nd_kids y ! j) < 2 * t - 1" and ord: "ordered (inorder y)" and q: "\<forall>q \<in> set (inorder y). apart e q"
  obtains c a' where "insertNonFull t alloc (fst e) (snd e) (nd_kids y ! j) a = Inr (c, a')" "inserted t S h e (nd_kids y ! j) c"
proof -
  obtain L R where io: "inorder y = L @ inorder (nd_kids y ! j) @ R" using child_inorder [OF wf j] by metis
  have "wf_tree t S h (nd_kids y ! j)" using wf j by simp
  moreover have "ordered (inorder (nd_kids y ! j))" "\<forall>q \<in> set (inorder (nd_kids y ! j)). apart e q"
    using ord q io by (auto simp: ordered_append)
  ultimately show ?thesis using IH room that unfolding inserts_below_def by blast
qed

lemma insert_into_half:
  assumes IH: "inserts_below t S alloc h e" and wf: "wf_tree t S (Suc h) x" and t: "2 \<le> t" and e: "proper e"
    and i: "i \<le> nd_n x" "nd_n x < 2 * t - 1" and full: "nd_n (nd_kids x ! i) = 2 * t - 1"
    and ord: "ordered (inorder x)" and q: "\<forall>q \<in> set (inorder x). apart e q"
    and sd: "i \<le> length (nd_entries x)" "0 < i \<Longrightarrow> before (nd_entries x ! (i - 1)) e" "i < length (nd_entries x) \<Longrightarrow> before e (nd_entries x ! i)"
  obtains s a' i' c a'' where "splitChild t alloc x i a = Inr (s, a')" "i' = (if key_less (nd_keys s ! i) (fst e) then Suc i else i)"
    "insertNonFull t alloc (fst e) (snd e) (nd_kids s ! i') a' = Inr (c, a'')"
    "inserted t S (Suc h) e x (Tree_Node (nd_keys s) (nd_vals s) ((nd_kids s)[i' := c]) (nd_n s) False (nd_ppn s))"
proof -
  obtain s a' m where sp: "splitChild t alloc x i a = Inr (s, a')" "wf_tree t S (Suc h) s" "inorder s = inorder x"
    "nd_n s = Suc (nd_n x)" "nd_entries s = take i (nd_entries x) @ m # drop i (nd_entries x)"
    "nd_n (nd_kids s ! i) = t - 1" "nd_n (nd_kids s ! Suc i) = t - 1"
    by (rule splitChild_ok [OF wf t i full])
  have ok: "node_ok t S s" and kids: "length (nd_kids s) = Suc (nd_n s)" using sp(2) by simp_all
  have m: "m = nd_entries s ! i" using sp(5) sd(1) by (simp add: nth_append)
  have mk: "nd_keys s ! i = fst m" using m ok i sp(4) by (simp add: node_ok_def)
  have "m \<in> set (inorder x)" using nd_entries_inorder [OF sp(2)] sp(3,5) by auto
  then have mp: "apart e m" "proper m" using q ord by (auto simp: ordered_def)
  define i' where "i' = (if key_less (fst m) (fst e) then Suc i else i)"
  have il: "i' < length (nd_kids s)" "nd_n (nd_kids s ! i') = t - 1" using sp(4,6,7) kids i by (auto simp: i'_def)
  then have room: "nd_n (nd_kids s ! i') < 2 * t - 1" using t by linarith
  obtain c a'' where c: "insertNonFull t alloc (fst e) (snd e) (nd_kids s ! i') a' = Inr (c, a'')" "inserted t S h e (nd_kids s ! i') c"
    by (rule insert_into_child [OF IH sp(2) il(1) room ord [folded sp(3)] q [folded sp(3)]])
  from descend_ok [OF sp(2) ord [folded sp(3)] split_slot [OF sd sp(5) mp e i'_def] c(2)] sp(3,4)
  have "inserted t S (Suc h) e x (Tree_Node (nd_keys s) (nd_vals s) ((nd_kids s)[i' := c]) (nd_n s) False (nd_ppn s))"
    by (simp add: inserted_def)
  with that [OF sp(1) _ c(1)] i'_def mk show ?thesis by simp
qed

lemma insertNonFull_ok: "2 \<le> t \<Longrightarrow> e \<in> S \<Longrightarrow> proper e \<Longrightarrow> inserts_below t S alloc h e"
proof (induction h)
  case 0
  then show ?case unfolding inserts_below_def by (intro allI impI leaf_insert_ok)
next
  case (Suc h)
  then have IH: "inserts_below t S alloc h e" by blast
  show ?case unfolding inserts_below_def
  proof (intro allI impI)
    fix x :: tree_node and a :: 'a
    assume wf: "wf_tree t S (Suc h) x" and n: "nd_n x < 2 * t - 1" and ord: "ordered (inorder x)"
      and q: "\<forall>q \<in> set (inorder x). apart e q"
    define i where "i = insert_pos (fst e) (nd_keys x) (nd_n x)"
    have ok: "node_ok t S x" and kids: "length (nd_kids x) = Suc (nd_n x)" "\<not> nd_leaf x" using wf by simp_all
    have qs: "\<forall>q \<in> set (nd_entries x). proper q \<and> apart e q"
      using nd_entries_inorder [OF wf] ord q by (auto simp only: ordered_def)
    note sd = insert_pos_sides [OF ok Suc.prems(3) qs i_def]
    have i: "i \<le> nd_n x" "i < length (nd_kids x)" using sd(1) nd_entries_length [OF ok] kids by simp_all
    show "\<exists>x' a'. insertNonFull t alloc (fst e) (snd e) x a = Inr (x', a') \<and> inserted t S (Suc h) e x x'"
    proof (cases "nd_n (nd_kids x ! i) = 2 * t - 1")
      case False
      have "wf_tree t S h (nd_kids x ! i)" using wf i(2) by simp
      with False have room: "nd_n (nd_kids x ! i) < 2 * t - 1"
        using wf_tree_node [of t S h "nd_kids x ! i"] by (simp add: node_ok_def)
      obtain c a' where c: "insertNonFull t alloc (fst e) (snd e) (nd_kids x ! i) a = Inr (c, a')" "inserted t S h e (nd_kids x ! i) c"
        by (rule insert_into_child [OF IH wf i(2) room ord q])
      from descend_ok [OF wf ord sd c(2)] c(1) False kids i show ?thesis
        by (simp add: insertNonFull.simps [of t alloc _ _ x] Let_def i_def [symmetric])
    next
      case True
      show ?thesis
      proof (rule insert_into_half [OF IH wf Suc.prems(1,3) i(1) n True ord q sd, of a])
        fix s a' i' c a''
        assume "splitChild t alloc x i a = Inr (s, a')" "i' = (if key_less (nd_keys s ! i) (fst e) then Suc i else i)"
          "insertNonFull t alloc (fst e) (snd e) (nd_kids s ! i') a' = Inr (c, a'')"
          "inserted t S (Suc h) e x (Tree_Node (nd_keys s) (nd_vals s) ((nd_kids s)[i' := c]) (nd_n s) False (nd_ppn s))"
        with True kids i show ?thesis
          by (simp add: insertNonFull.simps [of t alloc _ _ x] Let_def i_def [symmetric])
      qed
    qed
  qed
qed

section \<open>The table as a set of ranges\<close>

definition rt_inv :: "range_table \<Rightarrow> range_entry set \<Rightarrow> bool" where
  "rt_inv rt S \<longleftrightarrow> 2 \<le> rt_t rt \<and>
     (case rt_root rt of
        None \<Rightarrow> S = {}
      | Some x \<Rightarrow> (\<exists>h. wf_tree (rt_t rt) S h x) \<and> ordered (inorder x) \<and> set (inorder x) = S)"

lemma rt_new_inv: "2 \<le> t \<Longrightarrow> rt_inv (rt_new t) {}"
  by (simp add: rt_inv_def rt_new_def)

lemma rt_insert_first:
  assumes inv: "rt_inv rt S" and root: "rt_root rt = None" and e: "proper e"
  shows "\<exists>rt' a'. rt_insert alloc rt (fst e) (snd e) a = Inr (rt', a') \<and> rt_inv rt' (insert e S)"
proof -
  obtain ppn a' where a: "alloc a = (ppn, a')" by fastforce
  let ?t = "rt_t rt"
  define x where "x = Tree_Node ((replicate (2 * ?t - 1) (0, 0))[0 := fst e]) ((replicate (2 * ?t - 1) 0)[0 := snd e]) [] 1 True ppn"
  have t: "2 \<le> ?t" "S = {}" using inv root by (simp_all add: rt_inv_def)
  then obtain m where "2 * ?t - 1 = Suc m" by (cases "2 * ?t - 1") auto
  then have m: "2 * ?t - Suc 0 = Suc m" by simp
  have z: "zip (nd_keys x) (nd_vals x) = e # zip (replicate m (0, 0)) (replicate m 0)" by (simp add: x_def m)
  have "set (zip (replicate m (0 :: nat, 0 :: nat)) (replicate m (0 :: nat))) \<subseteq> {((0, 0), 0)}" by (auto simp: zip_replicate)
  then have "\<forall>q \<in> set (zip (nd_keys x) (nd_vals x)). fst q = (0, 0) \<or> q \<in> insert e S" unfolding z by auto
  then have "wf_tree ?t (insert e S) 0 x" by (simp add: node_ok_def) (simp add: x_def m)
  moreover have "inorder x = [e]" using z by (simp add: inorder_eq [of x]) (simp add: x_def)
  ultimately have "rt_inv (rt\<lparr>rt_root := Some x\<rparr>) (insert e S)"
    using t e by (auto simp: rt_inv_def ordered_def simp del: wf_tree.simps)
  moreover have "rt_insert alloc rt (fst e) (snd e) a = Inr (rt\<lparr>rt_root := Some x\<rparr>, a')"
    using root a t(1) by (simp add: rt_insert_def node_new_def Let_def x_def)
  ultimately show ?thesis by blast
qed

lemma rt_insert_ok:
  assumes inv: "rt_inv rt S" and e: "proper e" and q: "\<forall>q \<in> S. apart e q"
  shows "\<exists>rt' a'. rt_insert alloc rt (fst e) (snd e) a = Inr (rt', a') \<and> rt_inv rt' (insert e S) \<and> rt_t rt' = rt_t rt"
proof (cases "rt_root rt")
  case None
  obtain rt' a' where r: "rt_insert alloc rt (fst e) (snd e) a = Inr (rt', a')" "rt_inv rt' (insert e S)"
    using rt_insert_first [OF inv None e, of alloc a] by blast
  moreover have "rt_t rt' = rt_t rt" using r(1) None by (auto simp: rt_insert_def Let_def split: if_splits prod.splits)
  ultimately show ?thesis by blast
next
  case (Some r)
  let ?t = "rt_t rt" and ?S = "insert e S"
  from inv Some obtain h where t: "2 \<le> ?t" and wf0: "wf_tree ?t S h r" and ord: "ordered (inorder r)" and S: "set (inorder r) = S"
    by (auto simp: rt_inv_def)
  have wf: "wf_tree ?t ?S h r" by (rule wf_tree_mono [OF wf0]) auto
  have q': "\<forall>q \<in> set (inorder r). apart e q" using q S by simp
  have fin: "rt_inv (rt\<lparr>rt_root := Some x\<rparr>) ?S" if "inserted ?t ?S h' e r' x" "set (inorder r') = S" for h' r' x
    using that t S by (auto simp: rt_inv_def inserted_def)
  note IH = insertNonFull_ok [OF t insertI1 e, of S alloc h]
  show ?thesis
  proof (cases "nd_n r = 2 * ?t - 1")
    case False
    then have "nd_n r < 2 * ?t - 1" using wf_tree_node [OF wf] by (simp add: node_ok_def)
    then obtain x a' where "insertNonFull ?t alloc (fst e) (snd e) r a = Inr (x, a')" "inserted ?t ?S h e r x"
      using IH wf ord q' unfolding inserts_below_def by blast
    with False Some fin S show ?thesis by (simp add: rt_insert_def Let_def)
  next
    case True
    obtain ppn b where a: "alloc a = (ppn, b)" by fastforce
    let ?s = "Tree_Node (replicate (2 * ?t - 1) (0, 0)) (replicate (2 * ?t - 1) 0) [r] 0 False ppn"
    have ws: "wf_tree ?t ?S (Suc h) ?s" using wf True by (auto simp: node_ok_def zip_replicate)
    have io: "inorder ?s = inorder r" by simp
    have ns: "nd_n ?s < 2 * ?t - 1" "nd_n (nd_kids ?s ! 0) = 2 * ?t - 1" "0 \<le> nd_n ?s" "nd_entries ?s = []" using t True by simp_all
    show ?thesis
    proof (rule insert_into_half [OF IH ws t e ns(3,1,2) ord [folded io] q' [folded io], of b])
      fix s a' i' c a''
      assume sp: "splitChild ?t alloc ?s 0 b = Inr (s, a')" "i' = (if key_less (nd_keys s ! 0) (fst e) then Suc 0 else 0)"
        "insertNonFull ?t alloc (fst e) (snd e) (nd_kids s ! i') a' = Inr (c, a'')"
        and ins: "inserted ?t ?S (Suc h) e ?s (Tree_Node (nd_keys s) (nd_vals s) ((nd_kids s)[i' := c]) (nd_n s) False (nd_ppn s))"
      have "rt_insert alloc rt (fst e) (snd e) a =
          Inr (rt\<lparr>rt_root := Some (Tree_Node (nd_keys s) (nd_vals s) ((nd_kids s)[i' := c]) (nd_n s) False (nd_ppn s))\<rparr>, a'')"
        using Some True a sp
        by (cases "key_less (nd_keys s ! 0) (fst e)") (simp_all add: rt_insert_def node_new_def Let_def)
      with fin [OF ins] S io show ?thesis by simp
    qed (use ns in simp_all)
  qed
qed

section \<open>Lookup\<close>

definition covers :: "range_entry \<Rightarrow> u64 \<Rightarrow> bool" where
  "covers e k \<longleftrightarrow> fst (fst e) \<le> k \<and> k < snd (fst e)"

text \<open>No node of the tree is full, so that the slot behind the last key exists.\<close>

fun roomy :: "nat \<Rightarrow> tree_node \<Rightarrow> bool" where
  "roomy t (Tree_Node ks vs cs n l p) \<longleftrightarrow> n < 2 * t - 1 \<and> (\<forall>c \<in> set cs. roomy t c)"

lemma roomy_eq: "roomy t x \<longleftrightarrow> nd_n x < 2 * t - 1 \<and> (\<forall>c \<in> set (nd_kids x). roomy t c)"
  by (cases x) simp

lemma covers_unique: "apart p q \<or> p = q \<Longrightarrow> covers p k \<Longrightarrow> covers q k \<Longrightarrow> p = q"
  by (auto simp: covers_def apart_def before_def)

lemma not_covers_side: "before e ((k, Suc k), v) \<Longrightarrow> \<not> covers e k" "before ((k, Suc k), v) e \<Longrightarrow> \<not> covers e k"
  by (auto simp: covers_def before_def)

definition scan_pos :: "tree_node \<Rightarrow> u64 \<Rightarrow> nat" where
  "scan_pos x k = length (takeWhile (\<lambda>r. snd r < k) (take (nd_n x) (nd_keys x)))"

text \<open>The scan separates the keys that end below the address from those that start above it.\<close>

lemma scan_pos_sides:
  assumes ok: "node_ok t S x" and ne: "\<forall>q \<in> set (nd_entries x). snd (fst q) \<noteq> k"
    and miss: "\<not> (fst (nd_keys x ! scan_pos x k) \<le> k \<and> k < snd (nd_keys x ! scan_pos x k))"
  shows "scan_pos x k \<le> length (nd_entries x)"
    "0 < scan_pos x k \<Longrightarrow> before (nd_entries x ! (scan_pos x k - 1)) ((k, Suc k), 0)"
    "scan_pos x k < length (nd_entries x) \<Longrightarrow> before ((k, Suc k), 0) (nd_entries x ! scan_pos x k)"
proof -
  let ?i = "scan_pos x k" and ?ks = "take (nd_n x) (nd_keys x)"
  have n: "length ?ks = nd_n x" "length (nd_entries x) = nd_n x" using ok by (simp_all add: node_ok_def)
  have nth: "fst (nd_entries x ! j) = nd_keys x ! j" if "j < nd_n x" for j using ok that by (simp add: node_ok_def)
  have le: "?i \<le> nd_n x" using length_takeWhile_le [of "\<lambda>r. snd r < k" ?ks] n by (simp add: scan_pos_def)
  show "?i \<le> length (nd_entries x)" using le n by simp
  show "before (nd_entries x ! (?i - 1)) ((k, Suc k), 0)" if "0 < ?i"
  proof -
    have "?i - 1 < ?i" "?i - 1 < nd_n x" using that le by simp_all
    then have "snd (nd_keys x ! (?i - 1)) < k"
      using nth_mem [of "?i - 1" "takeWhile (\<lambda>r. snd r < k) ?ks"] set_takeWhileD [of _ "\<lambda>r. snd r < k" ?ks]
        takeWhile_nth [of "?i - 1" "\<lambda>r. snd r < k" ?ks] n by (fastforce simp: scan_pos_def)
    with nth [of "?i - 1"] that le show ?thesis by (simp add: before_def)
  qed
  show "before ((k, Suc k), 0) (nd_entries x ! ?i)" if "?i < length (nd_entries x)"
  proof -
    have i: "?i < nd_n x" using that n by simp
    have "\<not> snd (nd_keys x ! ?i) < k"
      using nth_length_takeWhile [of "\<lambda>r. snd r < k" ?ks] i n by (simp add: scan_pos_def)
    moreover have "snd (nd_keys x ! ?i) \<noteq> k" using ne nth_mem [OF that] nth [OF i] by metis
    ultimately show ?thesis using miss nth [OF i] by (auto simp: before_def)
  qed
qed

lemma search_hit:
  assumes ok: "node_ok t S x" and S: "\<forall>p \<in> S. \<forall>q \<in> S. p = q \<or> apart p q" and i: "scan_pos x k < length (nd_keys x)"
    and hit: "fst (nd_keys x ! scan_pos x k) \<le> k \<and> k < snd (nd_keys x ! scan_pos x k)"
  shows "\<exists>p acc'. search x k acc = Inr (Some p, acc') \<and> p \<in> S \<and> covers p k \<and> (\<forall>e \<in> S. covers e k \<longrightarrow> e = p)"
proof -
  let ?i = "scan_pos x k" and ?p = "(nd_keys x ! scan_pos x k, nd_vals x ! scan_pos x k)"
  have "?p \<in> set (zip (nd_keys x) (nd_vals x))" using ok i by (auto simp: node_ok_def set_zip)
  then have p: "?p \<in> S" using ok hit by (fastforce simp: node_ok_def)
  have c: "covers ?p k" using hit by (simp add: covers_def)
  have "e = ?p" if "e \<in> S" "covers e k" for e using covers_unique [OF _ that(2) c] S that(1) p by blast
  moreover have "\<exists>acc'. search x k acc = Inr (Some ?p, acc')"
    using hit i by (simp add: search.simps [of x] Let_def scan_pos_def [symmetric])
  ultimately show ?thesis using p c by blast
qed

lemma scan_pos_room: "node_ok t S x \<Longrightarrow> roomy t x \<Longrightarrow> scan_pos x k < length (nd_keys x) \<and> scan_pos x k \<le> nd_n x"
  using length_takeWhile_le [of "\<lambda>r. snd r < k" "take (nd_n x) (nd_keys x)"]
  by (simp add: scan_pos_def node_ok_def roomy_eq [of t x])

lemma search_ok:
  assumes "wf_tree t S h x" "roomy t x" "ordered (inorder x)" "set (inorder x) \<subseteq> S" "\<forall>q \<in> set (inorder x). snd (fst q) \<noteq> k"
    and S: "\<forall>p \<in> S. \<forall>q \<in> S. p = q \<or> apart p q"
  shows "\<exists>res acc'. search x k acc = Inr (res, acc') \<and> (\<forall>e. res = Some e \<longrightarrow> e \<in> S \<and> covers e k) \<and>
    (\<forall>e \<in> set (inorder x). covers e k \<longrightarrow> res = Some e)"
  using assms(1-5)
proof (induction h arbitrary: x acc)
  case (0 x acc)
  let ?i = "scan_pos x k"
  have ok: "node_ok t S x" and lf: "nd_leaf x" "inorder x = nd_entries x" using 0(1) by (simp_all add: inorder_eq [of x])
  have i: "?i < length (nd_keys x)" using scan_pos_room [OF ok 0(2)] by blast
  show ?case
  proof (cases "fst (nd_keys x ! ?i) \<le> k \<and> k < snd (nd_keys x ! ?i)")
    case True
    show ?thesis using search_hit [OF ok S i True, of acc] 0(4) by blast
  next
    case False
    have "\<forall>e \<in> set (nd_entries x). \<not> covers e k"
      using list_sides [OF 0(3) [unfolded lf(2)] scan_pos_sides [OF ok 0(5) [unfolded lf(2)] False]] not_covers_side
        append_take_drop_id [of ?i "nd_entries x"] by (metis Un_iff set_append)
    moreover have "\<exists>acc'. search x k acc = Inr (None, acc')"
      using False i lf(1) by (auto simp: search.simps [of x] Let_def scan_pos_def [symmetric])
    ultimately show ?thesis using lf(2) by auto
  qed
next
  case (Suc h x acc)
  let ?i = "scan_pos x k" and ?xs = "map inorder (nd_kids x)" and ?ks = "nd_entries x"
  have ok: "node_ok t S x" and kids: "\<not> nd_leaf x" "length (nd_kids x) = Suc (nd_n x)" using Suc.prems(1) by simp_all
  have i: "?i < length (nd_keys x)" "?i < length (nd_kids x)" using scan_pos_room [OF ok Suc.prems(2), of k] kids by simp_all
  have len: "length ?xs = Suc (length ?ks)" using kids nd_entries_length [OF ok] by simp
  show ?case
  proof (cases "fst (nd_keys x ! ?i) \<le> k \<and> k < snd (nd_keys x ! ?i)")
    case True
    show ?thesis using search_hit [OF ok S i(1) True, of acc] Suc.prems(4) by blast
  next
    case False
    have "\<forall>q \<in> set ?ks. snd (fst q) \<noteq> k" using nd_entries_inorder [OF Suc.prems(1)] Suc.prems(5) by blast
    note sp = scan_pos_sides [OF ok this False]
    have x: "inorder x = left_of ?xs ?ks ?i @ inorder (nd_kids x ! ?i) @ right_of ?xs ?ks ?i"
      using interleave_split [OF len sp(1)] i(2) by (simp add: inorder_eq [of x])
    have only: "\<forall>e \<in> set (inorder x). covers e k \<longrightarrow> e \<in> set (inorder (nd_kids x ! ?i))"
      using slot_sides [OF Suc.prems(3) [unfolded inorder_eq [of x]] len sp] not_covers_side unfolding x by (metis Un_iff set_append)
    have "wf_tree t S h (nd_kids x ! ?i)" "roomy t (nd_kids x ! ?i)"
      using Suc.prems(1,2) i(2) by (simp_all add: roomy_eq [of t x])
    moreover have "ordered (inorder (nd_kids x ! ?i))" "set (inorder (nd_kids x ! ?i)) \<subseteq> S"
      "\<forall>q \<in> set (inorder (nd_kids x ! ?i)). snd (fst q) \<noteq> k" using Suc.prems(3-5) unfolding x by (auto simp: ordered_append)
    moreover obtain acc' where "search x k acc = search (nd_kids x ! ?i) k acc'"
      using False i kids(1) by (auto simp: search.simps [of x] Let_def scan_pos_def [symmetric])
    ultimately show ?thesis using Suc.IH [of "nd_kids x ! ?i" acc'] only by fastforce
  qed
qed

lemma ordered_apart: "ordered xs \<Longrightarrow> p \<in> set xs \<Longrightarrow> q \<in> set xs \<Longrightarrow> p = q \<or> apart p q"
  by (induction xs) (auto simp: ordered_Cons apart_def)

lemma rt_lookup_ok:
  assumes inv: "rt_inv rt S" and room: "\<forall>x. rt_root rt = Some x \<longrightarrow> roomy (rt_t rt) x" and k: "\<forall>q \<in> S. snd (fst q) \<noteq> k"
  shows "\<exists>res acc. rt_lookup rt k = Inr (res, acc) \<and> (\<forall>e. res = Some e \<longleftrightarrow> e \<in> S \<and> covers e k)"
proof (cases "rt_root rt")
  case None
  with inv show ?thesis by (simp add: rt_inv_def rt_lookup_def)
next
  case (Some x)
  with inv obtain h where wf: "wf_tree (rt_t rt) S h x" and ord: "ordered (inorder x)" and S: "set (inorder x) = S"
    by (auto simp: rt_inv_def)
  have ap: "\<forall>p \<in> S. \<forall>q \<in> S. p = q \<or> apart p q" using ordered_apart [OF ord] S by blast
  have rm: "roomy (rt_t rt) x" and sub: "set (inorder x) \<subseteq> S" and kk: "\<forall>q \<in> set (inorder x). snd (fst q) \<noteq> k"
    using room Some k S by simp_all
  obtain res acc where r: "search x k [] = Inr (res, acc)" "\<forall>e. res = Some e \<longrightarrow> e \<in> S \<and> covers e k"
      "\<forall>e \<in> S. covers e k \<longrightarrow> res = Some e"
    using search_ok [OF wf rm ord sub kk ap, of "[]"] unfolding S by blast
  from r(1) Some have "rt_lookup rt k = Inr (res, acc)" by (simp add: rt_lookup_def)
  moreover from r(2,3) have "\<forall>e. res = Some e \<longleftrightarrow> e \<in> S \<and> covers e k" by blast
  ultimately show ?thesis by blast
qed

section \<open>Runs of insertions\<close>

fun rt_inserts :: "('a \<Rightarrow> u64 \<times> 'a) \<Rightarrow> range_table \<Rightarrow> range_entry list \<Rightarrow> 'a \<Rightarrow> (range_table \<times> 'a) outcome" where
  "rt_inserts alloc rt [] a = Inr (rt, a)"
| "rt_inserts alloc rt (e # es) a =
     (case rt_insert alloc rt (fst e) (snd e) a of Inl err \<Rightarrow> Inl err | Inr (rt', a') \<Rightarrow> rt_inserts alloc rt' es a')"

lemma rt_inserts_ok:
  "rt_inv rt S \<Longrightarrow> \<forall>e \<in> set es. proper e \<Longrightarrow> sorted_wrt apart es \<Longrightarrow> \<forall>e \<in> set es. \<forall>q \<in> S. apart e q \<Longrightarrow>
   \<exists>rt' a'. rt_inserts alloc rt es a = Inr (rt', a') \<and> rt_inv rt' (S \<union> set es)"
proof (induction es arbitrary: rt S a)
  case (Cons e es)
  obtain rt1 a1 where r: "rt_insert alloc rt (fst e) (snd e) a = Inr (rt1, a1)" "rt_inv rt1 (insert e S)"
    using rt_insert_ok [OF Cons.prems(1), of e alloc a] Cons.prems(2,4) by auto
  have "\<forall>q \<in> set es. \<forall>p \<in> insert e S. apart q p" using Cons.prems(3,4) by (auto simp: apart_def)
  from Cons.IH [OF r(2) _ _ this, of a1] Cons.prems(2,3) r(1) show ?case by auto
qed auto

text \<open>
  C36: The range table holds exactly the ranges that were inserted. From the empty
  table, inserting pairwise disjoint non-empty ranges in any order neither leaves
  the arrays of a node nor fails, and the result is a B-tree of minimal degree \<open>t\<close>,
  all leaves at one depth, whose ordered contents are those ranges with their
  offsets; the frames of its nodes are taken from any allocator.
\<close>

theorem range_table_inserts:
  assumes "2 \<le> t" and "\<forall>e \<in> set es. proper e" and "sorted_wrt apart es"
  shows "\<exists>rt a'. rt_inserts alloc (rt_new t) es a = Inr (rt, a') \<and> rt_inv rt (set es)"
  using rt_inserts_ok [OF rt_new_inv [OF assms(1)] assms(2,3), of alloc a] by auto

theorem range_table_inserts_witness:
  "\<exists>rt a'. rt_inserts (\<lambda>n. (n, n + 1)) (rt_new 2) [((0, 4096), 7), ((12288, 16384), 9), ((4096, 8192), 3)] 100 = Inr (rt, a') \<and>
     rt_inv rt {((0, 4096), 7), ((12288, 16384), 9), ((4096, 8192), 3)}"
  using range_table_inserts [of 2 "[((0, 4096), 7), ((12288, 16384), 9), ((4096, 8192), 3)]" "\<lambda>n. (n, n + 1)" 100]
  by (simp add: proper_def apart_def before_def)

text \<open>
  A lookup in a table none of whose nodes is full finds the entry whose range
  covers the address, and nothing when there is none, provided that the address is
  not the end of an inserted range. The slots behind the last key of a node, which the
  search reads too, never give a wrong answer.
\<close>

lemma range_table_lookup:
  assumes "rt_inv rt S" and "\<forall>x. rt_root rt = Some x \<longrightarrow> roomy (rt_t rt) x" and "\<forall>q \<in> S. snd (fst q) \<noteq> k"
  shows "\<exists>res acc. rt_lookup rt k = Inr (res, acc) \<and> (\<forall>e. res = Some e \<longleftrightarrow> e \<in> S \<and> covers e k)"
  using assms by (rule rt_lookup_ok)

text \<open>
  The first address of a range is not found when another range ends there: the
  scan stops at the key whose exclusive end equals the address.
\<close>

lemma range_table_misses_adjacent:
  assumes "2 \<le> t" "b < c" "a < b"
  shows "\<exists>rt s. rt_inserts alloc (rt_new t) [((a, b), v), ((b, c), w)] s0 = Inr (rt, s) \<and>
    rt_lookup rt b = Inr (None, []) \<and> rt_inv rt {((a, b), v), ((b, c), w)}"
proof -
  obtain rt s where r: "rt_inserts alloc (rt_new t) [((a, b), v), ((b, c), w)] s0 = Inr (rt, s)"
    "rt_inv rt {((a, b), v), ((b, c), w)}"
    using rt_inserts_ok [OF rt_new_inv [OF assms(1)], of "[((a, b), v), ((b, c), w)]" alloc s0] assms
    by (auto simp: proper_def apart_def before_def)
  obtain ppn s1 where a: "alloc s0 = (ppn, s1)" by fastforce
  have "2 * t - Suc 0 = Suc (Suc (2 * t - 3))" using assms(1) by arith
  then obtain m where m: "2 * t - Suc 0 = Suc (Suc m)" by blast
  have n: "Suc 0 \<noteq> 2 * t - Suc 0" "t \<noteq> 0" using assms(1) by auto
  have pos: "insert_pos (b, c) ((a, b) # ks) (Suc 0) = Suc 0" for ks using assms by (simp add: key_less_def)
  have "rt_root rt = Some (Tree_Node ((a, b) # (b, c) # replicate m (0, 0)) (v # w # replicate m 0) [] 2 True ppn)"
    using r(1) a n m assms
    by (auto simp: rt_new_def rt_insert_def node_new_def Let_def insertNonFull.simps [of t] pos shift_in_def
        simp del: insert_pos.simps)
  then have "rt_lookup rt b = Inr (None, [])"
    using assms by (simp add: rt_lookup_def search.simps Let_def)
  with r show ?thesis by blast
qed

text \<open>An address above every key of a full node sends the search out of the array.\<close>

lemma search_overruns_full_node:
  assumes "node_ok t S x" "nd_n x = 2 * t - 1" "\<forall>r \<in> set (nd_keys x). snd r < k"
  shows "search x k acc = Inl Undefined_Behaviour"
proof -
  have "takeWhile (\<lambda>r. snd r < k) (take (nd_n x) (nd_keys x)) = nd_keys x"
    using assms by (simp add: takeWhile_eq_all_conv node_ok_def)
  then show ?thesis by (subst search.simps) (simp only: Let_def order_refl if_True)
qed

end
