(* ===== verification/Range_Walk.thy ===== *)
theory Range_Walk
  imports Range_Table
begin

text \<open>
  The range lookaside buffer (\<open>rangelb.cc\<close>) and the range walk of the range MMU
  (\<open>mmu_range.cc\<close>), which asks the buffer first, then the range table, and on a hit
  computes the physical page. Entries of the buffer are \<open>Range\<close> records that hold
  the first and the end address of a range in their \<open>vpn\<close> and \<open>bounds\<close> fields.
\<close>

section \<open>The range lookaside buffer\<close>

text \<open>\<open>mru\<close> is not initialised by the constructor: its first value is an argument.\<close>

record rlb =
  rlb_ranges :: "Range list"
  rlb_num_sets :: nat
  rlb_mru :: int
  rlb_accesses :: u64
  rlb_misses :: u64
  rlb_hits :: u64

definition rlb_new :: "nat \<Rightarrow> int \<Rightarrow> rlb" where
  "rlb_new entries mru0 = \<lparr>rlb_ranges = [], rlb_num_sets = entries, rlb_mru = mru0,
     rlb_accesses = 0, rlb_misses = 0, rlb_hits = 0\<rparr>"

text \<open>The loop that draws random ways until one is not the most recently used; \<open>None\<close> if it has not ended after the given draws.\<close>

fun rlb_candidate :: "nat \<Rightarrow> int \<Rightarrow> nat list \<Rightarrow> nat option" where
  "rlb_candidate n mru [] = None"
| "rlb_candidate n mru (r # rs) = (if int (r mod n) = mru then rlb_candidate n mru rs else Some (r mod n))"

definition insert_entry :: "nat list \<Rightarrow> rlb \<Rightarrow> Range \<Rightarrow> rlb outcome option" where
  "insert_entry draws b rng =
     (if rlb_num_sets b = 0 then Some (Inl Undefined_Behaviour)
      else map_option (\<lambda>candidate.
        Inr (b\<lparr>rlb_ranges := (if length (rlb_ranges b) = rlb_num_sets b then remove_nth candidate (rlb_ranges b)
                              else rlb_ranges b) @ [rng]\<rparr>))
        (rlb_candidate (rlb_num_sets b) (rlb_mru b) draws))"

definition range_hit :: "u64 \<Rightarrow> Range \<Rightarrow> bool" where
  "range_hit address r \<longleftrightarrow> rng_vpn r \<le> address \<and> address < rng_bounds r"

text \<open>\<open>access\<close>: on a miss the range that is returned is not initialised, hence the option.\<close>

definition rlb_access :: "rlb \<Rightarrow> u64 \<Rightarrow> bool \<Rightarrow> Range option \<times> rlb" where
  "rlb_access b address cnt =
     (let b1 = (if cnt then b\<lparr>rlb_accesses := add64 (rlb_accesses b) 1\<rparr> else b) in
      case find_index (range_hit address) (rlb_ranges b) of
        Some i \<Rightarrow> (Some (rlb_ranges b ! i),
                   (if cnt then b1\<lparr>rlb_hits := add64 (rlb_hits b1) 1\<rparr> else b1)\<lparr>rlb_mru := int i\<rparr>)
      | None \<Rightarrow> (None, if cnt then b1\<lparr>rlb_misses := add64 (rlb_misses b1) 1\<rparr> else b1))"

section \<open>The range walk\<close>

text \<open>
  What \<open>performRangeWalk\<close> returns besides the latency: -1 on a miss, the start and the
  offset (an \<open>int\<close>) of the range on a hit in the buffer, and the fields of the
  uninitialised range after a hit in the table.
\<close>

datatype range_walk = Walk_Miss | Walk_Hit u64 int | Walk_Uninitialised

definition performRangeWalk :: "nat list \<Rightarrow> rlb \<Rightarrow> range_table \<Rightarrow> u64 \<Rightarrow> bool \<Rightarrow> (range_walk \<times> rlb) outcome option" where
  "performRangeWalk draws b rt address cnt =
     (case rlb_access b address cnt of
        (Some r, b') \<Rightarrow> Some (Inr (Walk_Hit (rng_vpn r) (to_int32 (rng_offset r)), b'))
      | (None, b') \<Rightarrow>
          (case rt_lookup rt address of
             Inl e \<Rightarrow> Some (Inl e)
           | Inr (None, accessed) \<Rightarrow> Some (Inr (Walk_Miss, b'))
           | Inr (Some (key, offset), accessed) \<Rightarrow>
               map_option (map_sum id (\<lambda>b''. (Walk_Uninitialised, b'')))
                 (insert_entry draws b' \<lparr>rng_vpn = fst key, rng_bounds = snd key, rng_offset = offset\<rparr>)))"

text \<open>The physical page that the MMU computes from a hit.\<close>

definition range_ppn :: "u64 \<Rightarrow> u64 \<Rightarrow> int \<Rightarrow> u64" where
  "range_ppn address start offset =
     add64 (sub64 (address div 4096) (start div 4096)) (nat (offset mod 2 ^ 64))"

section \<open>The buffer caches the table\<close>

definition range_entry_of :: "Range \<Rightarrow> range_entry" where
  "range_entry_of r = ((rng_vpn r, rng_bounds r), rng_offset r)"

definition rlb_inv :: "rlb \<Rightarrow> range_entry set \<Rightarrow> bool" where
  "rlb_inv b S \<longleftrightarrow> range_entry_of ` set (rlb_ranges b) \<subseteq> S \<and> length (rlb_ranges b) \<le> rlb_num_sets b \<and> 0 < rlb_num_sets b"

lemma rlb_new_inv: "0 < n \<Longrightarrow> rlb_inv (rlb_new n m) S"
  by (simp add: rlb_inv_def rlb_new_def)

lemma rlb_candidate_SomeD: "rlb_candidate n mru rs = Some c \<Longrightarrow> 0 < n \<Longrightarrow> c < n \<and> int c \<noteq> mru"
  by (induction rs) (auto split: if_splits)

text \<open>With a single entry that was used last the loop never ends, whatever is drawn.\<close>

lemma rlb_single_entry_hangs: "rlb_candidate 1 0 rs = None"
  by (induction rs) auto

lemma rlb_access_keeps [simp]:
  "rlb_ranges (snd (rlb_access b a c)) = rlb_ranges b" "rlb_num_sets (snd (rlb_access b a c)) = rlb_num_sets b"
  by (simp_all add: rlb_access_def Let_def split: option.split)

lemma rlb_access_inv: "rlb_inv b S \<Longrightarrow> rlb_inv (snd (rlb_access b a c)) S"
  by (simp add: rlb_inv_def)

lemma rlb_access_hit:
  assumes "rlb_inv b S" "rlb_access b a c = (Some r, b')"
  shows "range_entry_of r \<in> S \<and> covers (range_entry_of r) a"
proof -
  from assms(2) obtain i where i: "find_index (range_hit a) (rlb_ranges b) = Some i" "r = rlb_ranges b ! i"
    by (auto simp: rlb_access_def Let_def split: option.splits)
  from find_index_SomeD [OF i(1)] i(2) assms(1) show ?thesis
    by (auto simp: rlb_inv_def range_hit_def range_entry_of_def covers_def image_subset_iff)
qed

lemma rlb_access_miss: "rlb_access b a c = (None, b') \<longleftrightarrow>
   (\<forall>r \<in> set (rlb_ranges b). \<not> range_hit a r) \<and> b' = snd (rlb_access b a c)"
  by (auto simp: rlb_access_def Let_def find_index_None_iff split: option.splits dest: find_index_SomeD)

lemma insert_entry_ok:
  assumes inv: "rlb_inv b S" and r: "range_entry_of r \<in> S" and ins: "insert_entry draws b r = Some res"
  shows "\<exists>b'. res = Inr b' \<and> rlb_inv b' S \<and> r \<in> set (rlb_ranges b')"
proof -
  have n: "0 < rlb_num_sets b" using inv by (simp add: rlb_inv_def)
  with ins obtain c where c: "rlb_candidate (rlb_num_sets b) (rlb_mru b) draws = Some c"
    and res: "res = Inr (b\<lparr>rlb_ranges := (if length (rlb_ranges b) = rlb_num_sets b then remove_nth c (rlb_ranges b)
                              else rlb_ranges b) @ [r]\<rparr>)"
    by (auto simp: insert_entry_def)
  have "c < rlb_num_sets b" using rlb_candidate_SomeD [OF c n] by blast
  with inv r res show ?thesis
    by (auto simp: rlb_inv_def remove_nth_def dest: in_set_takeD in_set_dropD)
qed

lemma rt_inv_unique:
  assumes "rt_inv rt S" "p \<in> S" "q \<in> S" "covers p k" "covers q k"
  shows "p = q"
proof -
  obtain x where "ordered (inorder x)" "set (inorder x) = S"
    using assms(1,2) by (auto simp: rt_inv_def split: option.splits)
  with ordered_apart [of "inorder x" p q] covers_unique [of p q k] assms(2-5) show ?thesis by blast
qed

text \<open>The table can be searched for the address without leaving an array or stopping at an adjacent range.\<close>

definition searchable :: "range_table \<Rightarrow> range_entry set \<Rightarrow> u64 \<Rightarrow> bool" where
  "searchable rt S k \<longleftrightarrow> (\<forall>x. rt_root rt = Some x \<longrightarrow> roomy (rt_t rt) x) \<and> (\<forall>q \<in> S. snd (fst q) \<noteq> k)"

lemma performRangeWalk_cases:
  assumes rt: "rt_inv rt S" "searchable rt S a" and b: "rlb_inv b S" and w: "performRangeWalk draws b rt a cnt = Some res"
  shows "\<exists>w b'. res = Inr (w, b') \<and> rlb_inv b' S \<and>
    (case w of
       Walk_Hit s off \<Rightarrow> \<exists>e \<in> S. covers e a \<and> s = fst (fst e) \<and> off = to_int32 (snd e)
     | Walk_Uninitialised \<Rightarrow> \<exists>r \<in> set (rlb_ranges b'). range_entry_of r \<in> S \<and> range_hit a r
     | Walk_Miss \<Rightarrow> \<forall>e \<in> S. \<not> covers e a)"
proof (cases "rlb_access b a cnt")
  case (Pair hit b1)
  have b1: "rlb_inv b1 S" using rlb_access_inv [OF b, of a cnt] Pair by simp
  show ?thesis
  proof (cases hit)
    case (Some r)
    with w Pair rlb_access_hit [OF b, of a cnt r b1] b1 show ?thesis
      by (fastforce simp: performRangeWalk_def range_entry_of_def)
  next
    case None
    obtain f acc where l: "rt_lookup rt a = Inr (f, acc)" "\<forall>e. f = Some e \<longleftrightarrow> e \<in> S \<and> covers e a"
      using rt_lookup_ok [OF rt(1)] rt(2) unfolding searchable_def by blast
    show ?thesis
    proof (cases f)
      case None
      with l w Pair \<open>hit = None\<close> b1 show ?thesis by (auto simp: performRangeWalk_def)
    next
      case (Some e)
      let ?r = "\<lparr>rng_vpn = fst (fst e), rng_bounds = snd (fst e), rng_offset = snd e\<rparr>"
      have "e \<in> S \<and> covers e a" using l(2) Some by blast
      then have e: "range_entry_of ?r \<in> S" "range_hit a ?r" by (simp_all add: range_entry_of_def range_hit_def covers_def)
      from w Pair \<open>hit = None\<close> l(1) Some obtain res' where i: "insert_entry draws b1 ?r = Some res'"
        "res = map_sum id (\<lambda>b''. (Walk_Uninitialised, b'')) res'"
        by (auto simp: performRangeWalk_def split: prod.splits)
      from insert_entry_ok [OF b1 e(1) i(1)] i(2) e show ?thesis by auto
    qed
  qed
qed

lemma performRangeWalk_hit:
  assumes rt: "rt_inv rt S" and b: "rlb_inv b S" and r: "r \<in> set (rlb_ranges b)" "range_hit a r"
  shows "\<exists>b'. performRangeWalk draws b rt a cnt =
    Some (Inr (Walk_Hit (rng_vpn r) (to_int32 (rng_offset r)), b'))"
proof (cases "rlb_access b a cnt")
  case (Pair hit b1)
  have "hit \<noteq> None" using r rlb_access_miss [of b a cnt b1] Pair by auto
  then obtain q where q: "hit = Some q" by blast
  have qS: "range_entry_of q \<in> S" "covers (range_entry_of q) a" using rlb_access_hit [OF b Pair [unfolded q]] by blast+
  have rS: "range_entry_of r \<in> S" "covers (range_entry_of r) a"
    using b r by (auto simp: rlb_inv_def range_entry_of_def covers_def range_hit_def)
  have "range_entry_of q = range_entry_of r" by (rule rt_inv_unique [OF rt qS(1) rS(1) qS(2) rS(2)])
  with Pair q show ?thesis by (simp add: performRangeWalk_def range_entry_of_def)
qed

lemma range_ppn_exact:
  assumes "4096 dvd start" "start \<le> a" "a < 2 ^ 64" "off < 2 ^ 31"
  shows "range_ppn a start (int off) = off + (a - start) div 4096"
proof -
  obtain q where q: "start = 4096 * q" using assms(1) by blast
  have d: "(a - start) div 4096 = a div 4096 - q" using assms(2) q by (simp add: minus_mult_div_eq_mod [symmetric] div_mult_self2)
  have "a div 4096 < 2 ^ 52" "q \<le> a div 4096" using assms(2,3) q by (simp_all add: div_less_iff_less_mult less_eq_div_iff_mult_less_eq)
  then have "sub64 (a div 4096) q = a div 4096 - q" by (intro sub64_exact) simp_all
  moreover have "add64 (a div 4096 - q) off = off + (a div 4096 - q)"
    using add64_exact [of "a div 4096 - q" off] \<open>a div 4096 < 2 ^ 52\<close> assms(4) by simp
  ultimately show ?thesis using assms(4) q d by (simp add: range_ppn_def nat_mod_distrib)
qed



text \<open>
  A walk that misses the buffer and finds the range in the table inserts it into
  the buffer, but returns the fields of the buffer's uninitialised result instead of
  the range it found. Only the next walk to the address returns the range, and the
  page computed from it is the offset plus the distance from the start in pages.
\<close>

lemma range_walk_second_try:
  assumes rt: "rt_inv rt S" "searchable rt S a" and b: "rlb_inv b S" "\<forall>r \<in> set (rlb_ranges b). \<not> range_hit a r"
    and e: "e \<in> S" "covers e a" "4096 dvd fst (fst e)" "snd e < 2 ^ 31" "a < 2 ^ 64"
    and w: "performRangeWalk draws b rt a cnt = Some res"
  shows "\<exists>b'. res = Inr (Walk_Uninitialised, b') \<and>
    (\<exists>b''. performRangeWalk draws' b' rt a cnt' = Some (Inr (Walk_Hit (fst (fst e)) (int (snd e)), b''))) \<and>
    range_ppn a (fst (fst e)) (int (snd e)) = snd e + (a - fst (fst e)) div 4096"
proof -
  obtain v b' where r: "res = Inr (v, b')" "rlb_inv b' S" and c: "v = Walk_Uninitialised"
    "\<exists>r \<in> set (rlb_ranges b'). range_entry_of r \<in> S \<and> range_hit a r"
  proof -
    from rlb_access_miss [of b a cnt] b(2) have miss: "fst (rlb_access b a cnt) = None" by (metis fst_conv)
    obtain v b' where v: "res = Inr (v, b')" "rlb_inv b' S" and cs: "case v of
       Walk_Hit s off \<Rightarrow> \<exists>e \<in> S. covers e a \<and> s = fst (fst e) \<and> off = to_int32 (snd e)
     | Walk_Uninitialised \<Rightarrow> \<exists>r \<in> set (rlb_ranges b'). range_entry_of r \<in> S \<and> range_hit a r
     | Walk_Miss \<Rightarrow> \<forall>e \<in> S. \<not> covers e a" using performRangeWalk_cases [OF rt b(1) w] by blast
    have "v \<noteq> Walk_Miss" using cs e(1,2) by auto
    moreover have "v \<noteq> Walk_Hit s off" for s off
      using w v(1) miss by (auto simp: performRangeWalk_def split: prod.splits sum.splits option.splits elim!: map_sum_InrE)
    ultimately show ?thesis using that [OF v] cs by (cases v) auto
  qed
  then obtain r where rr: "r \<in> set (rlb_ranges b')" "range_entry_of r \<in> S" "range_hit a r" by blast
  have "covers (range_entry_of r) a" using rr(3) by (simp add: covers_def range_entry_of_def range_hit_def)
  then have "range_entry_of r = e" by (rule rt_inv_unique [OF rt(1) rr(2) e(1) _ e(2)])
  then have "rng_vpn r = fst (fst e)" "to_int32 (rng_offset r) = int (snd e)"
    using to_int32_exact e(4) by (auto simp: range_entry_of_def)
  with performRangeWalk_hit [OF rt(1) r(2) rr(1,3), of draws' cnt'] r(1) c(1) range_ppn_exact [OF e(3) _ e(5,4)] e(2)
  show ?thesis by (auto simp: covers_def)
qed

end
