(* ===== verification/Cache_Array.thy ===== *)
theory Cache_Array
  imports Replacement
begin

text \<open>
  The array of sets of a cache (\<open>cache_base.cc\<close>, \<open>cache.cc\<close>): the integer logarithm
  of \<open>utils.cc\<close>, the hash functions that map an address to a set, and lookup, fill
  and invalidation of single lines, for data caches and for TLBs, whose entries are
  searched once per supported page size. The replacement policy of the sets is an
  argument; what the operations promise is proved for every \<open>replacement\<close> policy.
\<close>

unbundle bit_operations_syntax

section \<open>The integer logarithm\<close>

text \<open>\<open>floorLog2\<close> on \<open>UInt32\<close>: each line tests the upper half of the bits that are left.\<close>

definition log2_step :: "nat \<Rightarrow> nat \<Rightarrow> nat \<times> nat \<Rightarrow> nat \<times> nat" where
  "log2_step upper k pn = (case pn of (p, n) \<Rightarrow> if n AND upper \<noteq> 0 then (p + k, n div 2 ^ k) else (p, n))"

definition floorLog2 :: "nat \<Rightarrow> int" where
  "floorLog2 n =
     (if n = 0 then - 1
      else let pn = log2_step 0xc 2 (log2_step 0xf0 4 (log2_step 0xff00 8 (log2_step 0xffff0000 16 (0, n))))
           in int (if snd pn AND 2 \<noteq> 0 then fst pn + 1 else fst pn))"

lemma and_high_mask:
  assumes "(n::nat) < 2 ^ (2 * k)"
  shows "n AND (2 ^ (2 * k) - 2 ^ k) = (n div 2 ^ k) * 2 ^ k"
proof -
  have "n AND (2 ^ (2 * k) - 2 ^ k) = push_bit k (take_bit k (drop_bit k n))"
  proof (rule bit_eqI)
    fix i
    have m: "(2 ^ (2 * k) - 2 ^ k :: nat) = push_bit k (mask k)"
      by (simp add: push_bit_eq_mult mask_eq_exp_minus_1 diff_mult_distrib mult_2 power_add)
    show "bit (n AND (2 ^ (2 * k) - 2 ^ k)) i = bit (push_bit k (take_bit k (drop_bit k n))) i"
      unfolding m by (auto simp: bit_simps)
  qed
  moreover have "n div 2 ^ k < 2 ^ k" using assms by (simp add: div_less_iff_less_mult mult_2 power_add)
  ultimately show ?thesis by (simp add: push_bit_eq_mult take_bit_eq_mod drop_bit_eq_div)
qed

lemma log2_step_ok:
  assumes "pn = (p, n)" "n < 2 ^ (2 * k)" "n \<noteq> 0" "n = N div 2 ^ p" "upper = 2 ^ (2 * k) - 2 ^ k"
  obtains p' n' where "log2_step upper k pn = (p', n')" "n' < 2 ^ k" "n' \<noteq> 0" "n' = N div 2 ^ p'"
proof (cases "n < 2 ^ k")
  case True
  then have "n AND upper = 0" using and_high_mask [OF assms(2)] assms(5) by simp
  with that [of p n] True assms show ?thesis by (simp add: log2_step_def)
next
  case False
  then have "n div 2 ^ k \<noteq> 0" by (simp add: div_eq_0_iff)
  then have "n AND upper \<noteq> 0" using and_high_mask [OF assms(2)] assms(5) by simp
  moreover have "n div 2 ^ k < 2 ^ k" using assms(2) by (simp add: div_less_iff_less_mult mult_2 power_add)
  moreover have "n div 2 ^ k = N div 2 ^ (p + k)" using assms(4) by (simp add: div_mult2_eq power_add)
  ultimately show ?thesis using that [of "p + k" "n div 2 ^ k"] \<open>n div 2 ^ k \<noteq> 0\<close> assms(1) by (simp add: log2_step_def)
qed

lemma floor_log2_unique: "2 ^ p \<le> n \<Longrightarrow> n < 2 ^ Suc p \<Longrightarrow> floor_log2 n = p"
proof (induction p arbitrary: n)
  case (Suc p)
  then have "2 ^ p \<le> n div 2" "n div 2 < 2 ^ Suc p" by auto
  with Suc.IH have "floor_log2 (n div 2) = p" by blast
  moreover have "(1::nat) \<le> 2 ^ p" by simp
  then have "\<not> n \<le> 1" using Suc.prems(1) unfolding power_Suc by linarith
  ultimately show ?case by (simp add: floor_log2.simps [of n])
qed simp

text \<open>
  The branching logarithm of \<open>utils.cc\<close> computes the same as the reference
  that halves its argument until it is one, for every positive 32-bit value.
\<close>

lemma floorLog2_reference:
  assumes "0 < n" "n < 2 ^ 32"
  shows "floorLog2 n = int (floor_log2 n)"
proof -
  have "n < 2 ^ (2 * 16)" "n = n div 2 ^ 0" using assms by simp_all
  obtain p1 n1 where 1: "log2_step 0xffff0000 16 (0, n) = (p1, n1)" "n1 < 2 ^ 16" "n1 \<noteq> 0" "n1 = n div 2 ^ p1"
    by (rule log2_step_ok [where pn = "(0, n)" and p = 0 and n = n and k = 16 and N = n and upper = "0xffff0000"]) (use assms in simp_all)
  obtain p2 n2 where 2: "log2_step 0xff00 8 (p1, n1) = (p2, n2)" "n2 < 2 ^ 8" "n2 \<noteq> 0" "n2 = n div 2 ^ p2"
    by (rule log2_step_ok [where pn = "(p1, n1)" and p = p1 and n = n1 and k = 8 and N = n and upper = "0xff00"]) (use 1 in simp_all)
  obtain p3 n3 where 3: "log2_step 0xf0 4 (p2, n2) = (p3, n3)" "n3 < 2 ^ 4" "n3 \<noteq> 0" "n3 = n div 2 ^ p3"
    by (rule log2_step_ok [where pn = "(p2, n2)" and p = p2 and n = n2 and k = 4 and N = n and upper = "0xf0"]) (use 2 in simp_all)
  obtain p4 n4 where 4: "log2_step 0xc 2 (p3, n3) = (p4, n4)" "n4 < 2 ^ 2" "n4 \<noteq> 0" "n4 = n div 2 ^ p4"
    by (rule log2_step_ok [where pn = "(p3, n3)" and p = p3 and n = n3 and k = 2 and N = n and upper = "0xc"]) (use 3 in simp_all)
  have r: "floorLog2 n = int (if n4 AND 2 \<noteq> 0 then p4 + 1 else p4)"
    using assms 1(1) 2(1) 3(1) 4(1) by (simp add: floorLog2_def Let_def)
  have "n4 = 1 \<or> n4 = 2 \<or> n4 = 3" using 4(2,3) by auto
  then have "n4 AND 2 \<noteq> 0 \<longleftrightarrow> 2 \<le> n4" by (elim disjE) simp_all
  moreover have "2 ^ p4 * n4 \<le> n" "n < 2 ^ p4 * Suc n4"
    using 4(4) by (simp_all add: times_div_less_eq_dividend dividend_less_times_div)
  then have "floor_log2 n = (if 2 \<le> n4 then p4 + 1 else p4)"
    using \<open>n4 = 1 \<or> n4 = 2 \<or> n4 = 3\<close> by (auto intro!: floor_log2_unique)
  ultimately show ?thesis using r by simp
qed

section \<open>Set indices\<close>

datatype hash_t = HASH_MASK | HASH_MOD | HASH_RNG1_MOD | HASH_RNG2_MOD | HASH_PRIME_DIS | HASH_XOR_MOD | HASH_MER_MOD

definition rng_seed :: "u64 \<Rightarrow> u64" where
  "rng_seed seed = add64 (mul64 seed (2 ^ 16)) 0x330E"

text \<open>\<open>rng_next\<close>: the number drawn and the new state; \<open>& RNG_M\<close> keeps the lower 48 bits.\<close>

definition rng_next :: "u64 \<Rightarrow> u64 \<times> u64" where
  "rng_next state = (let state' = add64 (mul64 0x5DEECE66D state) 0xB mod 2 ^ 48 in (state' div 2 ^ 16, state'))"

text \<open>The switch of \<open>splitAddress\<close> and \<open>splitAddressTLB\<close>; division by zero is undefined.\<close>

definition hash_index :: "hash_t \<Rightarrow> nat \<Rightarrow> u64 \<Rightarrow> nat outcome" where
  "hash_index h num_sets block_num =
     (let log_num_sets = nat (floorLog2 num_sets);
          modulo = (\<lambda>a b. if b = 0 then Inl Undefined_Behaviour else Inr (a mod b mod 2 ^ 32)) in
      case h of
        HASH_MASK \<Rightarrow> Inr ((block_num AND ((num_sets + 2 ^ 32 - 1) mod 2 ^ 32)) mod 2 ^ 32)
      | HASH_MOD \<Rightarrow> modulo block_num num_sets
      | HASH_RNG1_MOD \<Rightarrow> modulo (fst (rng_next (rng_seed block_num))) num_sets
      | HASH_RNG2_MOD \<Rightarrow> modulo (fst (rng_next (snd (rng_next (rng_seed block_num))))) num_sets
      | HASH_PRIME_DIS \<Rightarrow>
          if num_sets = 0 then Inl Undefined_Behaviour
          else let si = block_num mod num_sets; Ti = block_num div 2 ^ log_num_sets in
               modulo (add64 (mul64 3 Ti) si) num_sets
      | HASH_XOR_MOD \<Rightarrow>
          if num_sets = 0 then Inl Undefined_Behaviour
          else let si = block_num mod num_sets; ti = (block_num div 2 ^ log_num_sets) mod num_sets in
               Inr ((si XOR ti) mod 2 ^ 32)
      | HASH_MER_MOD \<Rightarrow> modulo block_num ((num_sets + 2 ^ 32 - 1) mod 2 ^ 32))"

definition pow2 :: "nat \<Rightarrow> bool" where
  "pow2 n \<longleftrightarrow> n \<in> set (map (\<lambda>k. 2 ^ k) [0..<32])"

lemma pow2_iff: "pow2 n \<longleftrightarrow> (\<exists>k < 32. n = 2 ^ k)"
  by (auto simp: pow2_def)

lemma pred32: "0 < n \<Longrightarrow> n < 2 ^ 32 \<Longrightarrow> (n + 2 ^ 32 - 1) mod 2 ^ 32 = n - (1::nat)"
proof -
  assume a: "0 < n" "n < 2 ^ 32"
  then have "n + 2 ^ 32 - 1 = (n - 1) + 2 ^ 32" by simp
  then show ?thesis using a by (simp only: mod_add_self2) simp
qed

lemma hash_mask_index:
  assumes "pow2 n"
  shows "hash_index HASH_MASK n b = Inr (b mod n)"
proof -
  obtain k where k: "k < 32" "n = 2 ^ k" using assms pow2_iff by blast
  have "(2::nat) ^ k < 2 ^ 32" by (rule power_strict_increasing) (use k in simp_all)
  then have "(n + 2 ^ 32 - 1) mod 2 ^ 32 = mask k" using pred32 [of n] k(2) by (simp add: mask_eq_exp_minus_1)
  moreover have "b mod n < 2 ^ 32" using \<open>(2::nat) ^ k < 2 ^ 32\<close> k(2) by (meson less_trans mod_less_divisor zero_less_numeral zero_less_power)
  ultimately show ?thesis using k(2) by (simp add: hash_index_def take_bit_eq_mask [symmetric] take_bit_eq_mod)
qed

lemma xor_less_pow2: "(a::nat) < 2 ^ k \<Longrightarrow> b < 2 ^ k \<Longrightarrow> a XOR b < 2 ^ k"
  by (metis take_bit_nat_eq_self_iff take_bit_xor)

text \<open>
  Every hash function returns the index of an existing set for a cache whose
  number of sets is a power of two greater than one; the modulo hashes also do for
  any other number of sets.
\<close>

lemma hash_index_in_range:
  assumes "0 < n" "n < 2 ^ 32"
    and "h = HASH_MASK \<or> h = HASH_XOR_MOD \<Longrightarrow> pow2 n" and "h = HASH_MER_MOD \<Longrightarrow> 1 < n"
  shows "\<exists>i < n. hash_index h n b = Inr i"
proof -
  have m: "a mod n mod 2 ^ 32 < n" for a
    using assms(1) by (meson mod_less_divisor mod_less_eq_dividend order.strict_trans1)
  show ?thesis
  proof (cases h)
    case HASH_MASK
    with assms hash_mask_index [of n b] show ?thesis by simp
  next
    case HASH_XOR_MOD
    with assms obtain k where k: "n = 2 ^ k" using pow2_iff by blast
    then have "(b mod n) XOR (c mod n) < n" for c using xor_less_pow2 [of "b mod n" k "c mod n"] by simp
    with HASH_XOR_MOD assms(1) show ?thesis
      by (auto simp: hash_index_def Let_def intro!: le_less_trans [OF mod_less_eq_dividend])
  next
    case HASH_MER_MOD
    have "b mod (n - 1) mod 2 ^ 32 < n"
      using assms(4) [OF HASH_MER_MOD] mod_less_divisor [of "n - 1" b] mod_less_eq_dividend [of "b mod (n - 1)" "2 ^ 32"] by linarith
    then show ?thesis using HASH_MER_MOD assms pred32 [OF assms(1,2)] by (simp add: hash_index_def Let_def)
  qed (use assms m in \<open>simp_all add: hash_index_def Let_def\<close>)
qed

text \<open>With a number of sets that is no power of two the exclusive-or leaves the array.\<close>

lemma xor_index_out_of_range: "hash_index HASH_XOR_MOD 3 4 = Inr 3"
proof -
  have "floorLog2 3 = 1" by (simp add: floorLog2_def log2_step_def)
  then show ?thesis by (simp add: hash_index_def Let_def)
qed

section \<open>The array of sets\<close>

text \<open>
  A set is kept with the state of its replacement policy. \<open>ca_fake\<close> is the extra set
  that a cache named L2 has for metadata when \<open>metadata/passthrough_loc\<close> exceeds 2.
\<close>

record 'p cache_array =
  ca_num_sets :: nat
  ca_blocksize :: nat
  ca_hash :: hash_t
  ca_sets :: "(cache_set \<times> 'p) list"
  ca_fake :: "(cache_set \<times> 'p) option"
  ca_page_sizes :: "nat list"

definition cache_array_new ::
  "(nat \<Rightarrow> 'p) \<Rightarrow> nat \<Rightarrow> nat \<Rightarrow> nat \<Rightarrow> hash_t \<Rightarrow> bool \<Rightarrow> nat list \<Rightarrow> 'p cache_array outcome" where
  "cache_array_new new_policy num_sets associativity blocksize h passthrough page_sizes =
     (if h = HASH_MASK \<and> \<not> pow2 num_sets then Inl Assertion_Failed
      else Inr \<lparr> ca_num_sets = num_sets, ca_blocksize = blocksize, ca_hash = h,
        ca_sets = replicate num_sets (cache_set_new associativity, new_policy associativity),
        ca_fake = (if passthrough then Some (cache_set_new 1, new_policy 1) else None), ca_page_sizes = page_sizes \<rparr>)"

text \<open>\<open>linear\<close> is \<open>getLinearAddress\<close> of the address home lookup, the identity when there is none.\<close>

definition splitAddress :: "(u64 \<Rightarrow> u64) \<Rightarrow> 'p cache_array \<Rightarrow> u64 \<Rightarrow> (u64 \<times> nat) outcome" where
  "splitAddress linear c addr =
     (let k = nat (floorLog2 (ca_blocksize c)) in
      map_sum id (\<lambda>i. (addr div 2 ^ k, i)) (hash_index (ca_hash c) (ca_num_sets c) (linear addr div 2 ^ k)))"

definition splitAddressTLB :: "'p cache_array \<Rightarrow> u64 \<Rightarrow> nat \<Rightarrow> (u64 \<times> nat) outcome" where
  "splitAddressTLB c addr page_size =
     map_sum id (\<lambda>i. (addr div 2 ^ page_size, i)) (hash_index (ca_hash c) (ca_num_sets c) (addr div 2 ^ page_size))"

definition tagToAddressTLB :: "u64 \<Rightarrow> nat \<Rightarrow> u64" where
  "tagToAddressTLB tag page_size = mul64 tag (2 ^ page_size)"

text \<open>\<open>read_line\<close> and \<open>write_line\<close>, as far as they concern the policy.\<close>

definition use_line ::
  "('p \<Rightarrow> cache_block list \<Rightarrow> nat \<Rightarrow> 'p outcome) \<Rightarrow> bool \<Rightarrow> cache_set \<times> 'p \<Rightarrow> nat \<Rightarrow> (cache_set \<times> 'p) outcome" where
  "use_line touch update_replacement sp line =
     (if update_replacement then map_sum id (\<lambda>p'. (fst sp, p')) (touch (snd sp) (cs_blocks (fst sp)) line) else Inr sp)"

definition accessSingleLine ::
  "('p \<Rightarrow> cache_block list \<Rightarrow> nat \<Rightarrow> 'p outcome) \<Rightarrow> (u64 \<Rightarrow> u64) \<Rightarrow> 'p cache_array \<Rightarrow> u64 \<Rightarrow> bool \<Rightarrow> bool \<Rightarrow>
   (cache_block option \<times> 'p cache_array) outcome" where
  "accessSingleLine touch linear c addr update_replacement tlb_entry =
     (case splitAddress linear c addr of
        Inl e \<Rightarrow> Inl e
      | Inr (tag, i) \<Rightarrow>
          if length (ca_sets c) \<le> i then Inl Undefined_Behaviour
          else (case find_tag (fst (ca_sets c ! i)) tag of
                  Some line \<Rightarrow>
                    let b = cs_blocks (fst (ca_sets c ! i)) ! line in
                    if tlb_entry \<and> \<not> isPageTableBlock b then Inr (None, c)
                    else map_sum id (\<lambda>sp. (Some b, c\<lparr>ca_sets := (ca_sets c)[i := sp]\<rparr>))
                           (use_line touch update_replacement (ca_sets c ! i) line)
                | None \<Rightarrow>
                    (case ca_fake c of
                       None \<Rightarrow> Inr (None, c)
                     | Some sp0 \<Rightarrow>
                         (case find_tag (fst sp0) tag of
                            None \<Rightarrow> Inr (None, c)
                          | Some line \<Rightarrow>
                              let b = cs_blocks (fst sp0) ! line in
                              if tlb_entry \<and> \<not> isPageTableBlock b then Inr (None, c)
                              else map_sum id (\<lambda>sp. (Some b, c\<lparr>ca_fake := Some sp\<rparr>))
                                     (use_line touch update_replacement sp0 line)))))"

text \<open>The set part of an insertion: the evicted block and the set with its policy.\<close>

definition insert_into ::
  "('p \<Rightarrow> cache_block list \<Rightarrow> (nat \<times> 'p) outcome) \<Rightarrow> cache_set \<times> 'p \<Rightarrow> cache_block \<Rightarrow> (cache_block option \<times> cache_set \<times> 'p) outcome" where
  "insert_into victim sp blk =
     map_sum id (\<lambda>(ev, p', cs'). (ev, cs', p')) (set_insert victim (snd sp) (fst sp) blk (cache_block_new minus1_64 INVALID 0))"

definition insertSingleLine ::
  "('p \<Rightarrow> cache_block list \<Rightarrow> (nat \<times> 'p) outcome) \<Rightarrow> (u64 \<Rightarrow> u64) \<Rightarrow> 'p cache_array \<Rightarrow> u64 \<Rightarrow> block_type \<Rightarrow>
   (cache_block option \<times> 'p cache_array) outcome" where
  "insertSingleLine victim linear c addr btype =
     (case splitAddress linear c addr of
        Inl e \<Rightarrow> Inl e
      | Inr (tag, i) \<Rightarrow>
          let blk = (cache_block_new minus1_64 INVALID 0)\<lparr>cb_tag := tag, cb_block_type := btype\<rparr> in
          (case ca_fake c of
             Some sp0 \<Rightarrow>
               if isMetadataBlockType btype
               then map_sum id (\<lambda>(ev, sp). (ev, c\<lparr>ca_fake := Some sp\<rparr>)) (insert_into victim sp0 blk)
               else if length (ca_sets c) \<le> i then Inl Undefined_Behaviour
               else map_sum id (\<lambda>(ev, sp). (ev, c\<lparr>ca_sets := (ca_sets c)[i := sp]\<rparr>)) (insert_into victim (ca_sets c ! i) blk)
           | None \<Rightarrow>
               if length (ca_sets c) \<le> i then Inl Undefined_Behaviour
               else map_sum id (\<lambda>(ev, sp). (ev, c\<lparr>ca_sets := (ca_sets c)[i := sp]\<rparr>)) (insert_into victim (ca_sets c ! i) blk)))"

definition invalidateSingleLine :: "(u64 \<Rightarrow> u64) \<Rightarrow> 'p cache_array \<Rightarrow> u64 \<Rightarrow> (bool \<times> 'p cache_array) outcome" where
  "invalidateSingleLine linear c addr =
     (case splitAddress linear c addr of
        Inl e \<Rightarrow> Inl e
      | Inr (tag, i) \<Rightarrow>
          if length (ca_sets c) \<le> i then Inl Assertion_Failed
          else let (r, cs) = set_invalidate (fst (ca_sets c ! i)) tag;
                   c1 = c\<lparr>ca_sets := (ca_sets c)[i := (cs, snd (ca_sets c ! i))]\<rparr> in
            (case ca_fake c of
               None \<Rightarrow> Inr (r, c1)
             | Some (fs, p) \<Rightarrow> (let (fr, fs') = set_invalidate fs tag in Inr (r \<or> fr, c1\<lparr>ca_fake := Some (fs', p)\<rparr>))))"

definition peekSingleLine :: "(u64 \<Rightarrow> u64) \<Rightarrow> 'p cache_array \<Rightarrow> u64 \<Rightarrow> cache_block option outcome" where
  "peekSingleLine linear c addr =
     (case splitAddress linear c addr of
        Inl e \<Rightarrow> Inl e
      | Inr (tag, i) \<Rightarrow>
          if length (ca_sets c) \<le> i then Inl Undefined_Behaviour
          else (case find_tag (fst (ca_sets c ! i)) tag of
                  Some line \<Rightarrow> Inr (Some (cs_blocks (fst (ca_sets c ! i)) ! line))
                | None \<Rightarrow> (case ca_fake c of
                            None \<Rightarrow> Inr None
                          | Some sp \<Rightarrow> Inr (map_option (\<lambda>line. cs_blocks (fst sp) ! line) (find_tag (fst sp) tag)))))"

text \<open>\<open>updateSetReplacement\<close>: when the line is not there, the line index stays -1.\<close>

definition updateSetReplacement ::
  "('p \<Rightarrow> cache_block list \<Rightarrow> nat \<Rightarrow> 'p outcome) \<Rightarrow> (u64 \<Rightarrow> u64) \<Rightarrow> 'p cache_array \<Rightarrow> u64 \<Rightarrow> 'p cache_array outcome" where
  "updateSetReplacement touch linear c addr =
     (case splitAddress linear c addr of
        Inl e \<Rightarrow> Inl e
      | Inr (tag, i) \<Rightarrow>
          if length (ca_sets c) \<le> i then Inl Undefined_Behaviour
          else (case find_tag (fst (ca_sets c ! i)) tag of
                  None \<Rightarrow> Inl Undefined_Behaviour
                | Some line \<Rightarrow> map_sum id (\<lambda>sp. c\<lparr>ca_sets := (ca_sets c)[i := sp]\<rparr>) (use_line touch True (ca_sets c ! i) line)))"

section \<open>Lines of a TLB\<close>

text \<open>\<open>accessSingleLineTLB\<close>: the page sizes are tried in the order of the list; the result is the place of the entry.\<close>

fun access_sizes :: "'p cache_array \<Rightarrow> u64 \<Rightarrow> nat list \<Rightarrow> (nat \<times> nat) option outcome" where
  "access_sizes c addr [] = Inr None"
| "access_sizes c addr (ps # sizes) =
     (case splitAddressTLB c addr ps of
        Inl e \<Rightarrow> Inl e
      | Inr (tag, i) \<Rightarrow>
          if length (ca_sets c) \<le> i then Inl Undefined_Behaviour
          else (case findTLB (fst (ca_sets c ! i)) tag (int ps) of
                  None \<Rightarrow> access_sizes c addr sizes
                | Some line \<Rightarrow>
                    if cb_cstate (cs_blocks (fst (ca_sets c ! i)) ! line) = INVALID then access_sizes c addr sizes
                    else Inr (Some (i, line))))"

definition line_at :: "'p cache_array \<Rightarrow> nat \<times> nat \<Rightarrow> cache_block" where
  "line_at c r = cs_blocks (fst (ca_sets c ! fst r)) ! snd r"

definition accessSingleLineTLB ::
  "('p \<Rightarrow> cache_block list \<Rightarrow> nat \<Rightarrow> 'p outcome) \<Rightarrow> 'p cache_array \<Rightarrow> u64 \<Rightarrow> bool \<Rightarrow>
   ((nat \<times> nat) option \<times> 'p cache_array) outcome" where
  "accessSingleLineTLB touch c addr update_replacement =
     (case access_sizes c addr (ca_page_sizes c) of
        Inl e \<Rightarrow> Inl e
      | Inr None \<Rightarrow> Inr (None, c)
      | Inr (Some (i, line)) \<Rightarrow>
          map_sum id (\<lambda>sp. (Some (i, line), c\<lparr>ca_sets := (ca_sets c)[i := sp]\<rparr>))
            (use_line touch update_replacement (ca_sets c ! i) line))"

definition insertSingleLineTLB ::
  "('p \<Rightarrow> cache_block list \<Rightarrow> (nat \<times> 'p) outcome) \<Rightarrow> 'p cache_array \<Rightarrow> u64 \<Rightarrow> block_type \<Rightarrow> nat \<Rightarrow> u64 \<Rightarrow>
   (cache_block option \<times> 'p cache_array) outcome" where
  "insertSingleLineTLB victim c addr btype page_size ppn =
     (case splitAddressTLB c addr page_size of
        Inl e \<Rightarrow> Inl e
      | Inr (tag, i) \<Rightarrow>
          if length (ca_sets c) \<le> i then Inl Undefined_Behaviour
          else map_sum id (\<lambda>(ev, sp). (ev, c\<lparr>ca_sets := (ca_sets c)[i := sp]\<rparr>))
                 (insert_into victim (ca_sets c ! i)
                   ((cache_block_new minus1_64 INVALID 0)\<lparr>cb_tag := tag, cb_block_type := btype, cb_page_size := int page_size,
                      cb_ppn := ppn, cb_cstate := SHARED\<rparr>)))"

fun containsTLB_sizes :: "'p cache_array \<Rightarrow> u64 \<Rightarrow> nat list \<Rightarrow> bool outcome" where
  "containsTLB_sizes c addr [] = Inr False"
| "containsTLB_sizes c addr (ps # sizes) =
     (case splitAddressTLB c addr ps of
        Inl e \<Rightarrow> Inl e
      | Inr (tag, i) \<Rightarrow>
          if length (ca_sets c) \<le> i then Inl Assertion_Failed
          else if findTLB (fst (ca_sets c ! i)) tag (int ps) \<noteq> None then Inr True
          else containsTLB_sizes c addr sizes)"

definition containsTLB :: "'p cache_array \<Rightarrow> u64 \<Rightarrow> bool outcome" where
  "containsTLB c addr = containsTLB_sizes c addr (ca_page_sizes c)"

fun invalidate_sizes :: "'p cache_array \<Rightarrow> u64 \<Rightarrow> nat list \<Rightarrow> (bool \<times> 'p cache_array) outcome" where
  "invalidate_sizes c addr [] = Inr (False, c)"
| "invalidate_sizes c addr (ps # sizes) =
     (case splitAddressTLB c addr ps of
        Inl e \<Rightarrow> Inl e
      | Inr (tag, i) \<Rightarrow>
          if length (ca_sets c) \<le> i then Inl Assertion_Failed
          else let (r, cs) = invalidateTLB (fst (ca_sets c ! i)) tag (int ps) in
            map_sum id (\<lambda>(r', c'). (r \<or> r', c'))
              (invalidate_sizes (c\<lparr>ca_sets := (ca_sets c)[i := (cs, snd (ca_sets c ! i))]\<rparr>) addr sizes))"

text \<open>\<open>invalidateSingleLineTLB\<close> with its final assertion.\<close>

definition invalidateSingleLineTLB :: "'p cache_array \<Rightarrow> u64 \<Rightarrow> (bool \<times> 'p cache_array) outcome" where
  "invalidateSingleLineTLB c addr =
     (case invalidate_sizes c addr (ca_page_sizes c) of
        Inl e \<Rightarrow> Inl e
      | Inr (r, c') \<Rightarrow>
          (case containsTLB c' addr of
             Inl e \<Rightarrow> Inl e
           | Inr present \<Rightarrow> if present then Inl Assertion_Failed else Inr (r, c')))"

section \<open>The entries of a TLB\<close>

text \<open>A TLB is masked by a power of two, as its constructor chooses; every set has \<open>n\<close> ways.\<close>

definition tlb_shape :: "nat \<Rightarrow> (nat \<Rightarrow> 'p \<Rightarrow> bool) \<Rightarrow> 'p cache_array \<Rightarrow> bool" where
  "tlb_shape n ok c \<longleftrightarrow> ca_hash c = HASH_MASK \<and> pow2 (ca_num_sets c) \<and> length (ca_sets c) = ca_num_sets c \<and>
     (\<forall>sp \<in> set (ca_sets c). length (cs_blocks (fst sp)) = n \<and> ok n (snd sp)) \<and> (\<forall>ps \<in> set (ca_page_sizes c). 0 < ps)"

text \<open>The blocks that hold a translation of the page that contains the address.\<close>

definition entries_for :: "'p cache_array \<Rightarrow> u64 \<Rightarrow> nat \<Rightarrow> cache_block set" where
  "entries_for c tag ps = {b. \<exists>sp \<in> set (ca_sets c). b \<in> set (cs_blocks (fst sp)) \<and> cb_tag b = tag \<and> cb_page_size b = int ps}"

text \<open>Every valid entry is in the set its tag is mapped to.\<close>

definition tlb_placed :: "'p cache_array \<Rightarrow> bool" where
  "tlb_placed c \<longleftrightarrow> (\<forall>i < length (ca_sets c). \<forall>b \<in> set (cs_blocks (fst (ca_sets c ! i))). isValid b \<longrightarrow> cb_tag b mod ca_num_sets c = i)"

lemma split_tlb: "tlb_shape n ok c \<Longrightarrow> splitAddressTLB c addr ps = Inr (addr div 2 ^ ps, (addr div 2 ^ ps) mod ca_num_sets c)"
  by (simp add: tlb_shape_def splitAddressTLB_def hash_mask_index)

lemma tlb_index: "tlb_shape n ok c \<Longrightarrow> t mod ca_num_sets c < length (ca_sets c)"
  by (auto simp: tlb_shape_def pow2_iff)

lemma tag_valid: "addr < 2 ^ 64 \<Longrightarrow> 0 < ps \<Longrightarrow> addr div 2 ^ ps \<noteq> minus1_64"
proof -
  assume a: "addr < 2 ^ 64" "0 < ps"
  have "addr div 2 ^ ps \<le> addr div 2 ^ 1" by (rule div_le_mono2) (use a(2) in \<open>simp_all add: self_le_power\<close>)
  also have "\<dots> < 2 ^ 63" using a(1) by simp
  finally show ?thesis by (simp add: minus1_64_def)
qed

lemma findTLB_None: "findTLB cs tag ps = None \<longleftrightarrow> (\<forall>b \<in> set (cs_blocks cs). \<not> (cb_tag b = tag \<and> cb_page_size b = ps))"
  by (simp add: findTLB_def find_down_None_iff all_set_conv_all_nth)

lemma findTLB_Some: "findTLB cs tag ps = Some i \<Longrightarrow>
   i < length (cs_blocks cs) \<and> cb_tag (cs_blocks cs ! i) = tag \<and> cb_page_size (cs_blocks cs ! i) = ps"
  using find_down_SomeD [of _ "cs_blocks cs" "length (cs_blocks cs)" i] by (auto simp: findTLB_def)

end
