(* ===== verification/TLB.thy ===== *)
theory TLB
  imports Cache_Array
begin

text \<open>
  A translation lookaside buffer (\<open>tlb.cc\<close>): lookup with its prefetch queue and
  statistics, allocation and invalidation, on top of the array of sets. The theory
  shows that an invalidation leaves no translation of the address and touches no
  other, and that a TLB that is filled from a page table and invalidated before every
  change of a mapping never returns an outdated translation.
\<close>

section \<open>State\<close>

record query_entry =
  qe_address :: u64
  qe_timestamp :: u64
  qe_page_size :: nat
  qe_ppn :: u64

text \<open>A statistic with its instruction and data parts, which are kept for unified TLBs.\<close>

type_synonym counter = "u64 \<times> u64 \<times> u64"

definition bump :: "bool \<Rightarrow> bool \<Rightarrow> counter \<Rightarrow> counter" where
  "bump unified instruction k = (case k of (t, i, d) \<Rightarrow>
     (add64 t 1, if unified \<and> instruction then add64 i 1 else i, if unified \<and> \<not> instruction then add64 d 1 else d))"

record tlb_stats =
  m_access :: counter
  m_hit :: counter
  m_miss :: counter
  m_insertions :: counter
  m_eviction :: counter
  m_pq_dedup_skipped :: u64

record 'p tlb =
  m_cache :: "'p cache_array"
  m_unified :: bool
  m_prefetch :: bool
  max_prefetch_count :: nat
  entry_priority_queue :: "query_entry list"
  m_pq_region_refcount :: "u64 \<Rightarrow> nat option"
  tlb_stats :: tlb_stats

definition tlb_new ::
  "(nat \<Rightarrow> 'p) \<Rightarrow> nat \<Rightarrow> nat \<Rightarrow> nat list \<Rightarrow> bool \<Rightarrow> bool \<Rightarrow> nat \<Rightarrow> 'p tlb outcome" where
  "tlb_new new_policy num_entries associativity page_sizes unified prefetch max_prefetch =
     (if associativity = 0 then Inl Undefined_Behaviour
      else case cache_array_new new_policy (num_entries div associativity) associativity 8 HASH_MASK False page_sizes of
             Inl e \<Rightarrow> Inl e
           | Inr c \<Rightarrow>
               if num_entries div associativity * associativity \<noteq> num_entries then Inl Assertion_Failed
               else Inr \<lparr> m_cache = c, m_unified = unified, m_prefetch = prefetch, max_prefetch_count = max_prefetch,
                  entry_priority_queue = [], m_pq_region_refcount = (\<lambda>_. None),
                  tlb_stats = \<lparr> m_access = (0, 0, 0), m_hit = (0, 0, 0), m_miss = (0, 0, 0), m_insertions = (0, 0, 0),
                    m_eviction = (0, 0, 0), m_pq_dedup_skipped = 0 \<rparr> \<rparr>)"

section \<open>Options of a line\<close>

definition hasPrefetch :: "cache_block \<Rightarrow> bool" where
  "hasPrefetch b \<longleftrightarrow> cb_options b AND 1 \<noteq> 0"

definition setPrefetch :: "cache_block \<Rightarrow> cache_block" where
  "setPrefetch b = b\<lparr>cb_options := cb_options b OR 1\<rparr>"

definition clearPrefetch :: "cache_block \<Rightarrow> cache_block" where
  "clearPrefetch b = b\<lparr>cb_options := cb_options b AND 254\<rparr>"

text \<open>A change of a line through the pointer that a lookup returned.\<close>

definition map_line :: "(cache_block \<Rightarrow> cache_block) \<Rightarrow> nat \<times> nat \<Rightarrow> 'p cache_array \<Rightarrow> 'p cache_array" where
  "map_line f r c =
     (let cs = fst (ca_sets c ! fst r) in
      c\<lparr>ca_sets := (ca_sets c)[fst r := (cs\<lparr>cs_blocks := (cs_blocks cs)[snd r := f (cs_blocks cs ! snd r)]\<rparr>, snd (ca_sets c ! fst r))]\<rparr>)"

section \<open>Operations\<close>

text \<open>
  \<open>allocate\<close>; the result is whether an entry was evicted, its address, page size and
  page. The notification of the prefetchers about the victim is theirs.
\<close>

definition tlb_allocate ::
  "('p \<Rightarrow> cache_block list \<Rightarrow> (nat \<times> 'p) outcome) \<Rightarrow> ('p \<Rightarrow> cache_block list \<Rightarrow> nat \<Rightarrow> 'p outcome) \<Rightarrow>
   'p tlb \<Rightarrow> u64 \<Rightarrow> bool \<Rightarrow> nat \<Rightarrow> u64 \<Rightarrow> bool \<Rightarrow> bool \<Rightarrow> ((bool \<times> u64 \<times> int \<times> u64) \<times> 'p tlb) outcome" where
  "tlb_allocate victim touch t address cnt page_size ppn self_alloc instruction =
     (if m_prefetch t \<and> \<not> self_alloc then Inr ((False, 0, 0, 0), t)
      else case insertSingleLineTLB victim (m_cache t) address DATA page_size ppn of
             Inl e \<Rightarrow> Inl e
           | Inr (ev, c1) \<Rightarrow>
               (case (if self_alloc then accessSingleLineTLB touch c1 address False else Inr (None, c1)) of
                  Inl e \<Rightarrow> Inl e
                | Inr (inserted, c2) \<Rightarrow>
                    let c3 = (case inserted of Some r \<Rightarrow> map_line setPrefetch r c2 | None \<Rightarrow> c2);
                        st1 = (if cnt \<or> self_alloc
                               then (tlb_stats t)\<lparr>m_insertions := bump (m_unified t) instruction (m_insertions (tlb_stats t))\<rparr>
                               else tlb_stats t);
                        st2 = (if ev \<noteq> None \<and> (cnt \<or> self_alloc)
                               then st1\<lparr>m_eviction := bump (m_unified t) instruction (m_eviction st1)\<rparr> else st1)
                    in Inr (case ev of
                              Some b \<Rightarrow> (True, tagToAddressTLB (cb_tag b) (nat (cb_page_size b)), cb_page_size b, cb_ppn b)
                            | None \<Rightarrow> (False, tagToAddressTLB minus1_64 page_size, 0, 0),
                            t\<lparr>m_cache := c3, tlb_stats := st2\<rparr>)))"

definition region_of :: "query_entry \<Rightarrow> u64" where
  "region_of q = qe_address q div 2 ^ 15"

text \<open>Materialising the prefetches whose walks have completed, in the order of their time stamps.\<close>

definition drop_region :: "u64 \<Rightarrow> (u64 \<Rightarrow> nat option) \<Rightarrow> u64 \<Rightarrow> nat option" where
  "drop_region r f = (case f r of None \<Rightarrow> f | Some k \<Rightarrow> f(r := if k = 1 then None else Some (k - 1)))"

fun materialise ::
  "('p \<Rightarrow> cache_block list \<Rightarrow> (nat \<times> 'p) outcome) \<Rightarrow> ('p \<Rightarrow> cache_block list \<Rightarrow> nat \<Rightarrow> 'p outcome) \<Rightarrow>
   query_entry list \<Rightarrow> 'p tlb \<Rightarrow> 'p tlb outcome" where
  "materialise victim touch [] t = Inr t"
| "materialise victim touch (q # qs) t =
     (case tlb_allocate victim touch
             (t\<lparr>entry_priority_queue := remove1 q (entry_priority_queue t),
                m_pq_region_refcount := drop_region (region_of q) (m_pq_region_refcount t)\<rparr>)
             (qe_address q) False (qe_page_size q) (qe_ppn q) True False of
        Inl e \<Rightarrow> Inl e
      | Inr (r, t') \<Rightarrow> materialise victim touch qs t')"

definition due :: "u64 \<Rightarrow> query_entry list \<Rightarrow> query_entry list" where
  "due now pq = sort_key qe_timestamp (filter (\<lambda>q. qe_timestamp q \<le> now) pq)"

text \<open>Queueing what one prefetcher generated: entries without a page are skipped, and the rest after the limit is reached.\<close>

fun enqueue :: "query_entry list \<Rightarrow> 'p tlb \<Rightarrow> 'p tlb" where
  "enqueue [] t = t"
| "enqueue (q # qs) t =
     (if qe_ppn q = 0 then enqueue qs t
      else if max_prefetch_count t \<le> length (entry_priority_queue t) then t
      else enqueue qs (t\<lparr>entry_priority_queue := entry_priority_queue t @ [q],
             m_pq_region_refcount := (m_pq_region_refcount t)(region_of q \<mapsto>
               Suc (case m_pq_region_refcount t (region_of q) of None \<Rightarrow> 0 | Some k \<Rightarrow> k))\<rparr>))"

fun prefetch_all :: "query_entry list list \<Rightarrow> 'p tlb \<Rightarrow> 'p tlb" where
  "prefetch_all [] t = t"
| "prefetch_all (gen # gens) t =
     (if max_prefetch_count t \<le> length (entry_priority_queue t) then t
      else case filter (\<lambda>q. qe_ppn q \<noteq> 0) gen of
             [] \<Rightarrow> prefetch_all gens t
           | q # _ \<Rightarrow>
               if m_pq_region_refcount t (region_of q) \<noteq> None
               then prefetch_all gens (t\<lparr>tlb_stats := (tlb_stats t)\<lparr>m_pq_dedup_skipped := add64 (m_pq_dedup_skipped (tlb_stats t)) 1\<rparr>\<rparr>)
               else prefetch_all gens (enqueue gen t))"

text \<open>
  \<open>lookup\<close>: \<open>generated\<close> is what the prefetchers return, and empty when there are none
  or no page table is given. The result is the block that was hit.
\<close>

definition tlb_lookup ::
  "('p \<Rightarrow> cache_block list \<Rightarrow> (nat \<times> 'p) outcome) \<Rightarrow> ('p \<Rightarrow> cache_block list \<Rightarrow> nat \<Rightarrow> 'p outcome) \<Rightarrow>
   query_entry list list \<Rightarrow> 'p tlb \<Rightarrow> u64 \<Rightarrow> u64 \<Rightarrow> bool \<Rightarrow> bool \<Rightarrow> (cache_block option \<times> 'p tlb) outcome" where
  "tlb_lookup victim touch generated t address now model_count instruction =
     (case (if m_prefetch t then materialise victim touch (due now (entry_priority_queue t)) t else Inr t) of
        Inl e \<Rightarrow> Inl e
      | Inr t1 \<Rightarrow>
          let st1 = (if model_count then (tlb_stats t1)\<lparr>m_access := bump (m_unified t1) instruction (m_access (tlb_stats t1))\<rparr>
                     else tlb_stats t1) in
          (case accessSingleLineTLB touch (m_cache t1) address True of
             Inl e \<Rightarrow> Inl e
           | Inr (hit, c) \<Rightarrow>
               let c' = (case hit of Some r \<Rightarrow> (if hasPrefetch (line_at c r) then map_line clearPrefetch r c else c) | None \<Rightarrow> c);
                   t2 = t1\<lparr>m_cache := c', tlb_stats := st1\<rparr>;
                   t3 = (if m_prefetch t then prefetch_all generated t2 else t2);
                   st = tlb_stats t3
               in Inr (case hit of
                         Some r \<Rightarrow> (Some (line_at c' r), t3\<lparr>tlb_stats := st\<lparr>m_hit := bump (m_unified t) instruction (m_hit st)\<rparr>\<rparr>)
                       | None \<Rightarrow> (None, if model_count
                                        then t3\<lparr>tlb_stats := st\<lparr>m_miss := bump (m_unified t) instruction (m_miss st)\<rparr>\<rparr> else t3))))"

definition tlb_invalidate :: "'p tlb \<Rightarrow> u64 \<Rightarrow> (bool \<times> 'p tlb) outcome" where
  "tlb_invalidate t address =
     map_sum id (\<lambda>(r, c). (r, t\<lparr>m_cache := c\<rparr>)) (invalidateSingleLineTLB (m_cache t) address)"

section \<open>Lookups in the array\<close>

lemma access_sizes_ok:
  assumes sh: "tlb_shape n ok c"
  shows "\<exists>r. access_sizes c addr sizes = Inr r \<and>
    (\<forall>i line. r = Some (i, line) \<longrightarrow> i < length (ca_sets c) \<and> line < n \<and> i = cb_tag (line_at c (i, line)) mod ca_num_sets c \<and>
       (\<exists>ps \<in> set sizes. cb_tag (line_at c (i, line)) = addr div 2 ^ ps \<and> cb_page_size (line_at c (i, line)) = int ps))"
proof (induction sizes)
  case (Cons ps sizes)
  let ?tag = "addr div 2 ^ ps" let ?i = "?tag mod ca_num_sets c"
  have sp: "splitAddressTLB c addr ps = Inr (?tag, ?i)" "?i < length (ca_sets c)" using split_tlb [OF sh] tlb_index [OF sh] by simp_all
  have n: "length (cs_blocks (fst (ca_sets c ! ?i))) = n" using sh sp(2) nth_mem by (fastforce simp: tlb_shape_def)
  show ?case
  proof (cases "findTLB (fst (ca_sets c ! ?i)) ?tag (int ps)")
    case None
    with Cons sp show ?thesis by auto
  next
    case (Some line)
    from findTLB_Some [OF Some] n have l: "line < n" "cb_tag (line_at c (?i, line)) = ?tag" "cb_page_size (line_at c (?i, line)) = int ps"
      by (simp_all add: line_at_def)
    show ?thesis
    proof (cases "cb_cstate (cs_blocks (fst (ca_sets c ! ?i)) ! line) = INVALID")
      case True
      with Cons sp Some show ?thesis by auto
    next
      case False
      with sp Some l show ?thesis by auto
    qed
  qed
qed simp

lemma access_sizes_absent:
  assumes sh: "tlb_shape n ok c" and "\<forall>ps \<in> set sizes. findTLB (fst (ca_sets c ! (addr div 2 ^ ps mod ca_num_sets c))) (addr div 2 ^ ps) (int ps) = None"
  shows "access_sizes c addr sizes = Inr None"
  using assms(2)
proof (induction sizes)
  case (Cons ps sizes)
  then show ?case using split_tlb [OF sh, of addr ps] tlb_index [OF sh, of "addr div 2 ^ ps"] by simp
qed simp

lemma contains_sizes_absent:
  assumes sh: "tlb_shape n ok c"
  shows "containsTLB_sizes c addr sizes =
    Inr (\<exists>ps \<in> set sizes. findTLB (fst (ca_sets c ! (addr div 2 ^ ps mod ca_num_sets c))) (addr div 2 ^ ps) (int ps) \<noteq> None)"
proof (induction sizes)
  case (Cons ps sizes)
  then show ?case using split_tlb [OF sh, of addr ps] tlb_index [OF sh, of "addr div 2 ^ ps"] by auto
qed simp

section \<open>Invalidation\<close>

text \<open>What an invalidation does to a block in set \<open>i\<close>.\<close>

definition shoot :: "nat \<Rightarrow> u64 \<Rightarrow> nat list \<Rightarrow> nat \<Rightarrow> cache_block \<Rightarrow> cache_block" where
  "shoot m addr sizes i b =
     (if \<exists>ps \<in> set sizes. addr div 2 ^ ps mod m = i \<and> cb_tag b = addr div 2 ^ ps \<and> cb_page_size b = int ps
      then block_invalidate b else b)"

lemma block_invalidate_idem [simp]: "block_invalidate (block_invalidate b) = block_invalidate b"
  by (simp add: block_invalidate_def)

lemma invalidate_sizes_ok:
  assumes "tlb_shape n ok c" "addr < 2 ^ 64" "\<forall>ps \<in> set sizes. 0 < ps"
  shows "\<exists>r c'. invalidate_sizes c addr sizes = Inr (r, c') \<and> tlb_shape n ok c' \<and>
    ca_num_sets c' = ca_num_sets c \<and> ca_page_sizes c' = ca_page_sizes c \<and>
    (\<forall>i < length (ca_sets c). cs_blocks (fst (ca_sets c' ! i)) = map (shoot (ca_num_sets c) addr sizes i) (cs_blocks (fst (ca_sets c ! i))))"
  using assms
proof (induction sizes arbitrary: c)
  case Nil
  have "map (shoot (ca_num_sets c) addr [] i) bs = bs" for i bs by (rule map_idI) (simp add: shoot_def)
  with Nil show ?case by (intro exI [of _ False] exI [of _ c]) simp
next
  case (Cons ps sizes)
  note sh = Cons.prems(1)
  let ?tag = "addr div 2 ^ ps" let ?i = "?tag mod ca_num_sets c"
  have sp: "splitAddressTLB c addr ps = Inr (?tag, ?i)" "?i < length (ca_sets c)" using split_tlb [OF sh] tlb_index [OF sh] by simp_all
  define cs where "cs = snd (invalidateTLB (fst (ca_sets c ! ?i)) ?tag (int ps))"
  define c1 where "c1 = c\<lparr>ca_sets := (ca_sets c)[?i := (cs, snd (ca_sets c ! ?i))]\<rparr>"
  have cs: "cs_blocks cs = map (\<lambda>b. if cb_tag b = ?tag \<and> cb_page_size b = int ps then block_invalidate b else b) (cs_blocks (fst (ca_sets c ! ?i)))"
    by (simp add: cs_def invalidateTLB_def Let_def)
  have sh1: "tlb_shape n ok c1"
    using sh sp(2) cs nth_mem [OF sp(2)] by (auto simp: tlb_shape_def c1_def dest!: in_set_updateD)
  have ne: "\<forall>q \<in> set sizes. addr div 2 ^ q \<noteq> minus1_64" using tag_valid [OF Cons.prems(2)] Cons.prems(3) by auto
  obtain r c' where IH: "invalidate_sizes c1 addr sizes = Inr (r, c')" "tlb_shape n ok c'" "ca_num_sets c' = ca_num_sets c1"
    "ca_page_sizes c' = ca_page_sizes c1"
    "\<forall>i < length (ca_sets c1). cs_blocks (fst (ca_sets c' ! i)) = map (shoot (ca_num_sets c1) addr sizes i) (cs_blocks (fst (ca_sets c1 ! i)))"
    using Cons.IH [OF sh1 Cons.prems(2)] Cons.prems(3) by auto
  have "cs_blocks (fst (ca_sets c' ! i)) = map (shoot (ca_num_sets c) addr (ps # sizes) i) (cs_blocks (fst (ca_sets c ! i)))"
    if i: "i < length (ca_sets c)" for i
  proof -
    have "cs_blocks (fst (ca_sets c' ! i)) = map (shoot (ca_num_sets c) addr sizes i) (cs_blocks (fst (ca_sets c1 ! i)))"
      using IH(5) i by (simp add: c1_def)
    also have "\<dots> = map (shoot (ca_num_sets c) addr (ps # sizes) i) (cs_blocks (fst (ca_sets c ! i)))"
    proof (cases "i = ?i")
      case True
      have "shoot (ca_num_sets c) addr sizes ?i (if cb_tag b = ?tag \<and> cb_page_size b = int ps then block_invalidate b else b) =
        shoot (ca_num_sets c) addr (ps # sizes) ?i b" for b
        using ne by (auto simp: shoot_def)
      with True i cs show ?thesis by (simp add: c1_def o_def)
    next
      case False
      then show ?thesis by (auto simp: c1_def shoot_def)
    qed
    finally show ?thesis .
  qed
  with IH(1-4) sp show ?case by (auto simp: c1_def cs_def split: prod.splits)
qed

lemma invalidateSingleLineTLB_ok:
  assumes sh: "tlb_shape n ok c" and a: "addr < 2 ^ 64"
  shows "\<exists>r c'. invalidateSingleLineTLB c addr = Inr (r, c') \<and> tlb_shape n ok c' \<and>
    ca_num_sets c' = ca_num_sets c \<and> ca_page_sizes c' = ca_page_sizes c \<and>
    (\<forall>i < length (ca_sets c). cs_blocks (fst (ca_sets c' ! i)) = map (shoot (ca_num_sets c) addr (ca_page_sizes c) i) (cs_blocks (fst (ca_sets c ! i)))) \<and>
    (\<forall>ps \<in> set (ca_page_sizes c). findTLB (fst (ca_sets c' ! (addr div 2 ^ ps mod ca_num_sets c))) (addr div 2 ^ ps) (int ps) = None)"
proof -
  have pos: "\<forall>ps \<in> set (ca_page_sizes c). 0 < ps" using sh by (simp add: tlb_shape_def)
  obtain r c' where r: "invalidate_sizes c addr (ca_page_sizes c) = Inr (r, c')" "tlb_shape n ok c'"
    "ca_num_sets c' = ca_num_sets c" "ca_page_sizes c' = ca_page_sizes c"
    "\<forall>i < length (ca_sets c). cs_blocks (fst (ca_sets c' ! i)) = map (shoot (ca_num_sets c) addr (ca_page_sizes c) i) (cs_blocks (fst (ca_sets c ! i)))"
    using invalidate_sizes_ok [OF sh a pos] by blast
  have none: "\<forall>ps \<in> set (ca_page_sizes c). findTLB (fst (ca_sets c' ! (addr div 2 ^ ps mod ca_num_sets c))) (addr div 2 ^ ps) (int ps) = None"
  proof
    fix ps assume ps: "ps \<in> set (ca_page_sizes c)"
    let ?i = "addr div 2 ^ ps mod ca_num_sets c"
    have "\<not> (cb_tag b = addr div 2 ^ ps \<and> cb_page_size b = int ps)"
      if "b \<in> shoot (ca_num_sets c) addr (ca_page_sizes c) ?i ` X" for b X
      using that tag_valid [OF a, of ps] pos ps by (auto simp: shoot_def split: if_splits)
    then show "findTLB (fst (ca_sets c' ! ?i)) (addr div 2 ^ ps) (int ps) = None"
      using r(5) tlb_index [OF sh, of "addr div 2 ^ ps"] by (simp add: findTLB_None)
  qed
  have "containsTLB c' addr = Inr False"
    using contains_sizes_absent [OF r(2), of addr "ca_page_sizes c'"] none r(3,4) by (simp add: containsTLB_def)
  with r none show ?thesis by (simp add: invalidateSingleLineTLB_def)
qed

section \<open>The translations an array holds\<close>

text \<open>Tag, page size and page of every valid block that a lookup can find: in the set of its tag.\<close>

definition tlb_entries :: "'p cache_array \<Rightarrow> (u64 \<times> int \<times> u64) set" where
  "tlb_entries c = (\<lambda>b. (cb_tag b, cb_page_size b, cb_ppn b)) `
     {b. isValid b \<and> b \<in> set (cs_blocks (fst (ca_sets c ! (cb_tag b mod ca_num_sets c))))}"

lemma tlb_entriesI: "isValid b \<Longrightarrow> b \<in> set (cs_blocks (fst (ca_sets c ! (cb_tag b mod ca_num_sets c)))) \<Longrightarrow>
   (cb_tag b, cb_page_size b, cb_ppn b) \<in> tlb_entries c"
  by (auto simp: tlb_entries_def)

text \<open>Replacing one set: what a new set holds is old or is in the given set of translations.\<close>

lemma tlb_entries_update:
  assumes "\<And>b. b \<in> set (cs_blocks (fst sp)) \<Longrightarrow> isValid b \<Longrightarrow>
      (cb_tag b, cb_page_size b, cb_ppn b) \<in> X \<or> (\<exists>b' \<in> set (cs_blocks (fst (ca_sets c ! i))).
        (cb_tag b, cb_page_size b, cb_ppn b) = (cb_tag b', cb_page_size b', cb_ppn b'))"
  shows "tlb_entries (c\<lparr>ca_sets := (ca_sets c)[i := sp]\<rparr>) \<subseteq> X \<union> tlb_entries c"
proof
  fix e assume "e \<in> tlb_entries (c\<lparr>ca_sets := (ca_sets c)[i := sp]\<rparr>)"
  then obtain b where b: "e = (cb_tag b, cb_page_size b, cb_ppn b)" "isValid b"
    "b \<in> set (cs_blocks (fst ((ca_sets c)[i := sp] ! (cb_tag b mod ca_num_sets c))))" by (auto simp: tlb_entries_def)
  show "e \<in> X \<union> tlb_entries c"
  proof (cases "cb_tag b mod ca_num_sets c = i \<and> i < length (ca_sets c)")
    case True
    with b(3) have "b \<in> set (cs_blocks (fst sp))" by simp
    from assms [OF this b(2)] show ?thesis
    proof
      assume "\<exists>b' \<in> set (cs_blocks (fst (ca_sets c ! i))). (cb_tag b, cb_page_size b, cb_ppn b) = (cb_tag b', cb_page_size b', cb_ppn b')"
      then obtain b' where "b' \<in> set (cs_blocks (fst (ca_sets c ! i)))" "e = (cb_tag b', cb_page_size b', cb_ppn b')" "cb_tag b' = cb_tag b"
        using b(1) by auto
      with True b(2) tlb_entriesI [of b' c] show ?thesis by (simp add: isValid_def)
    qed (simp add: b(1))
  next
    case False
    then have "(ca_sets c)[i := sp] ! (cb_tag b mod ca_num_sets c) = ca_sets c ! (cb_tag b mod ca_num_sets c)"
      by (cases "i < length (ca_sets c)") (simp_all add: list_update_beyond)
    with b tlb_entriesI [of b c] show ?thesis by simp
  qed
qed

lemma tlb_shape_update:
  "tlb_shape n ok c \<Longrightarrow> length (cs_blocks (fst sp)) = n \<Longrightarrow> ok n (snd sp) \<Longrightarrow> tlb_shape n ok (c\<lparr>ca_sets := (ca_sets c)[i := sp]\<rparr>)"
  by (auto simp: tlb_shape_def dest!: in_set_updateD)

lemma tlb_shape_set: "tlb_shape n ok c \<Longrightarrow> i < length (ca_sets c) \<Longrightarrow> length (cs_blocks (fst (ca_sets c ! i))) = n \<and> ok n (snd (ca_sets c ! i))"
  by (simp add: tlb_shape_def)

lemma map_line_ok:
  assumes f: "\<And>b. cb_tag (f b) = cb_tag b \<and> cb_page_size (f b) = cb_page_size b \<and> cb_ppn (f b) = cb_ppn b"
    and sh: "tlb_shape n ok c" and r: "fst r < length (ca_sets c)" "snd r < n"
  shows "tlb_shape n ok (map_line f r c)" "tlb_entries (map_line f r c) \<subseteq> tlb_entries c"
    "line_at (map_line f r c) r = f (line_at c r)"
proof -
  note s = tlb_shape_set [OF sh r(1)]
  show "tlb_shape n ok (map_line f r c)" unfolding map_line_def Let_def by (rule tlb_shape_update [OF sh]) (use s in auto)
  have "tlb_entries (map_line f r c) \<subseteq> {} \<union> tlb_entries c"
    unfolding map_line_def Let_def
  proof (rule tlb_entries_update, rule disjI2)
    fix b assume "b \<in> set (cs_blocks (fst ((fst (ca_sets c ! fst r))\<lparr>cs_blocks := (cs_blocks (fst (ca_sets c ! fst r)))[snd r := f (cs_blocks (fst (ca_sets c ! fst r)) ! snd r)]\<rparr>, snd (ca_sets c ! fst r))))"
    then consider "b \<in> set (cs_blocks (fst (ca_sets c ! fst r)))" | "b = f (cs_blocks (fst (ca_sets c ! fst r)) ! snd r)"
      by (auto dest!: in_set_updateD)
    then show "\<exists>b' \<in> set (cs_blocks (fst (ca_sets c ! fst r))). (cb_tag b, cb_page_size b, cb_ppn b) = (cb_tag b', cb_page_size b', cb_ppn b')"
      using f r(2) s nth_mem [of "snd r" "cs_blocks (fst (ca_sets c ! fst r))"] by cases auto
  qed
  then show "tlb_entries (map_line f r c) \<subseteq> tlb_entries c" by simp
  show "line_at (map_line f r c) r = f (line_at c r)" using r s by (simp add: map_line_def line_at_def Let_def)
qed

lemma map_line_sel [simp]: "ca_page_sizes (map_line f r c) = ca_page_sizes c" "ca_num_sets (map_line f r c) = ca_num_sets c"
  "length (ca_sets (map_line f r c)) = length (ca_sets c)"
  by (simp_all add: map_line_def Let_def)

lemma prefetch_bits [simp]:
  "cb_tag (setPrefetch b) = cb_tag b" "cb_page_size (setPrefetch b) = cb_page_size b" "cb_ppn (setPrefetch b) = cb_ppn b"
  "cb_tag (clearPrefetch b) = cb_tag b" "cb_page_size (clearPrefetch b) = cb_page_size b" "cb_ppn (clearPrefetch b) = cb_ppn b"
  by (simp_all add: setPrefetch_def clearPrefetch_def)

text \<open>An invalidation removes exactly the translations of the pages that contain the address.\<close>

lemma tlb_entries_shoot:
  assumes sh: "tlb_shape n ok c" and ne: "\<forall>ps \<in> set sizes. addr div 2 ^ ps \<noteq> minus1_64" and num: "ca_num_sets c' = ca_num_sets c"
    and bl: "\<forall>i < length (ca_sets c). cs_blocks (fst (ca_sets c' ! i)) = map (shoot (ca_num_sets c) addr sizes i) (cs_blocks (fst (ca_sets c ! i)))"
  shows "tlb_entries c' = {e \<in> tlb_entries c. \<not> (\<exists>ps \<in> set sizes. fst e = addr div 2 ^ ps \<and> fst (snd e) = int ps)}"
proof -
  let ?m = "ca_num_sets c"
  let ?gone = "\<lambda>b. \<exists>ps \<in> set sizes. cb_tag b = addr div 2 ^ ps \<and> cb_page_size b = int ps"
  have "{b. isValid b \<and> b \<in> set (cs_blocks (fst (ca_sets c' ! (cb_tag b mod ?m))))} =
        {b. isValid b \<and> b \<in> set (cs_blocks (fst (ca_sets c ! (cb_tag b mod ?m)))) \<and> \<not> ?gone b}" (is "?L = ?R")
  proof (intro equalityI subsetI)
    fix b assume "b \<in> ?L"
    then obtain x where x: "isValid b" "x \<in> set (cs_blocks (fst (ca_sets c ! (cb_tag b mod ?m))))" "b = shoot ?m addr sizes (cb_tag b mod ?m) x"
      using bl tlb_index [OF sh, of "cb_tag b"] by auto
    have "shoot ?m addr sizes (cb_tag b mod ?m) x = block_invalidate x \<or> shoot ?m addr sizes (cb_tag b mod ?m) x = x" by (simp add: shoot_def)
    with x have bx: "b = x" by auto
    have "\<not> ?gone b"
    proof
      assume "?gone b"
      then have "shoot ?m addr sizes (cb_tag b mod ?m) b = block_invalidate b" by (auto simp: shoot_def)
      with x bx show False by (metis block_invalidate_sel(2))
    qed
    with x bx show "b \<in> ?R" by simp
  next
    fix b assume b: "b \<in> ?R"
    then have "shoot ?m addr sizes (cb_tag b mod ?m) b = b" by (auto simp: shoot_def)
    then have "b \<in> shoot ?m addr sizes (cb_tag b mod ?m) ` set (cs_blocks (fst (ca_sets c ! (cb_tag b mod ?m))))" using b by (metis (no_types, lifting) image_eqI mem_Collect_eq)
    with b bl tlb_index [OF sh, of "cb_tag b"] show "b \<in> ?L" by simp
  qed
  then show ?thesis unfolding tlb_entries_def num by auto
qed

lemma tlb_invalidate_ok:
  assumes sh: "tlb_shape n ok (m_cache t)" and a: "addr < 2 ^ 64"
  shows "\<exists>r c'. tlb_invalidate t addr = Inr (r, t\<lparr>m_cache := c'\<rparr>) \<and> tlb_shape n ok c' \<and> ca_page_sizes c' = ca_page_sizes (m_cache t) \<and>
    tlb_entries c' = {e \<in> tlb_entries (m_cache t). \<not> (\<exists>ps \<in> set (ca_page_sizes (m_cache t)). fst e = addr div 2 ^ ps \<and> fst (snd e) = int ps)} \<and>
    containsTLB c' addr = Inr False"
proof -
  let ?c = "m_cache t"
  obtain r c' where r: "invalidateSingleLineTLB ?c addr = Inr (r, c')" "tlb_shape n ok c'" "ca_num_sets c' = ca_num_sets ?c"
    "ca_page_sizes c' = ca_page_sizes ?c"
    "\<forall>i < length (ca_sets ?c). cs_blocks (fst (ca_sets c' ! i)) = map (shoot (ca_num_sets ?c) addr (ca_page_sizes ?c) i) (cs_blocks (fst (ca_sets ?c ! i)))"
    using invalidateSingleLineTLB_ok [OF sh a] by blast
  have "\<forall>ps \<in> set (ca_page_sizes ?c). addr div 2 ^ ps \<noteq> minus1_64" using sh a tag_valid by (auto simp: tlb_shape_def)
  note e = tlb_entries_shoot [OF sh this r(3,5)]
  from r(1) have "containsTLB c' addr = Inr False" by (auto simp: invalidateSingleLineTLB_def split: sum.splits prod.splits if_splits)
  with r e show ?thesis by (intro exI [of _ r] exI [of _ c']) (simp add: tlb_invalidate_def)
qed

section \<open>The TLB and the page table\<close>

text \<open>The translations that wait in the prefetch queue.\<close>

definition query_translation :: "query_entry \<Rightarrow> u64 \<times> int \<times> u64" where
  "query_translation q = (qe_address q div 2 ^ qe_page_size q, int (qe_page_size q), qe_ppn q)"

definition pending :: "'p tlb \<Rightarrow> (u64 \<times> int \<times> u64) set" where
  "pending t = query_translation ` set (entry_priority_queue t)"

lemma pending_update [simp]: "pending (t\<lparr>tlb_stats := st\<rparr>) = pending t" "pending (t\<lparr>m_cache := c\<rparr>) = pending t"
  by (simp_all add: pending_def)

lemma enqueue_pending:
  "pending (enqueue gen t) \<subseteq> pending t \<union> query_translation ` {q \<in> set gen. qe_ppn q \<noteq> 0} \<and> m_cache (enqueue gen t) = m_cache t"
proof (induction gen t rule: enqueue.induct)
  case (2 q qs t)
  consider "qe_ppn q = 0" | "qe_ppn q \<noteq> 0" "max_prefetch_count t \<le> length (entry_priority_queue t)"
    | "qe_ppn q \<noteq> 0" "\<not> max_prefetch_count t \<le> length (entry_priority_queue t)" by blast
  then show ?case
  proof cases
    case 1
    with 2(1) [OF 1] show ?thesis by (simp, blast)
  next
    case 3
    with 2(2) [OF 3] show ?thesis by (simp add: pending_def, blast)
  qed simp
qed simp

lemma prefetch_all_pending:
  "pending (prefetch_all gens t) \<subseteq> pending t \<union> query_translation ` (\<Union>gen \<in> set gens. {q \<in> set gen. qe_ppn q \<noteq> 0}) \<and> m_cache (prefetch_all gens t) = m_cache t"
proof (induction gens t rule: prefetch_all.induct)
  case (2 gen gens t)
  let ?q = "filter (\<lambda>q. qe_ppn q \<noteq> 0) gen"
  consider "max_prefetch_count t \<le> length (entry_priority_queue t)" | "\<not> max_prefetch_count t \<le> length (entry_priority_queue t)" "?q = []"
    | q qs where "\<not> max_prefetch_count t \<le> length (entry_priority_queue t)" "?q = q # qs" by (meson neq_Nil_conv)
  then show ?case
  proof cases
    case (3 q qs)
    note IH = "2.IH"(2,3) [OF 3(1) 3(2)]
    from 3 IH enqueue_pending [of gen t] show ?thesis
      by (cases "m_pq_region_refcount t (region_of q) \<noteq> None") (simp, blast)+
  next
    case none: 2
    with "2.IH"(1) [OF none] show ?thesis by (simp, blast)
  qed simp
qed simp

lemma set_due: "set (due now pq) \<subseteq> set pq"
  by (auto simp: due_def)

section \<open>Operations under any replacement policy\<close>

context replacement
begin

lemma tlb_insert_entries:
  assumes sh: "tlb_shape n inv c" and ins: "insertSingleLineTLB victim c addr bt ps ppn = Inr (ev, c')"
  shows "tlb_shape n inv c' \<and> ca_page_sizes c' = ca_page_sizes c \<and> tlb_entries c' \<subseteq> {(addr div 2 ^ ps, int ps, ppn)} \<union> tlb_entries c"
proof -
  let ?i = "addr div 2 ^ ps mod ca_num_sets c" let ?sp = "ca_sets c ! ?i"
  define blk where "blk = (cache_block_new minus1_64 INVALID 0)\<lparr>cb_tag := addr div 2 ^ ps, cb_block_type := bt, cb_page_size := int ps, cb_ppn := ppn, cb_cstate := SHARED\<rparr>"
  note i = tlb_index [OF sh, of "addr div 2 ^ ps"] and s = tlb_shape_set [OF sh tlb_index [OF sh, of "addr div 2 ^ ps"]]
  from ins i obtain cs' p' where r: "set_insert victim (snd ?sp) (fst ?sp) blk (cache_block_new minus1_64 INVALID 0) = Inr (ev, p', cs')"
    "c' = c\<lparr>ca_sets := (ca_sets c)[?i := (cs', p')]\<rparr>"
    unfolding insertSingleLineTLB_def split_tlb [OF sh]
    by (auto simp: insert_into_def map_sum_def blk_def split: sum.splits prod.splits)
  from r(1) obtain l where v: "victim (snd ?sp) (cs_blocks (fst ?sp)) = Inr (l, p')"
    by (auto simp: set_insert_def Let_def split: sum.splits prod.splits if_splits)
  have I: "inv (length (cs_blocks (fst ?sp))) (snd ?sp)" using s by simp
  from insert_ok [OF I v, of blk "cache_block_new minus1_64 INVALID 0"] r(1)
  have o: "inv (length (cs_blocks cs')) p'" "cs_blocks cs' = (cs_blocks (fst ?sp))[l := clone (cs_blocks (fst ?sp) ! l) blk]" by auto
  have "tlb_shape n inv c'" unfolding r(2) by (rule tlb_shape_update [OF sh]) (use o s in simp_all)
  moreover have "tlb_entries c' \<subseteq> {(addr div 2 ^ ps, int ps, ppn)} \<union> tlb_entries c"
    unfolding r(2) by (rule tlb_entries_update) (use o(2) in \<open>auto simp: blk_def dest!: in_set_updateD\<close>)
  ultimately show ?thesis by (simp add: r(2))
qed

lemma tlb_access_entries:
  assumes sh: "tlb_shape n inv c" and acc: "accessSingleLineTLB touch c addr upd = Inr (hit, c')"
  shows "tlb_shape n inv c' \<and> ca_page_sizes c' = ca_page_sizes c \<and> tlb_entries c' \<subseteq> tlb_entries c \<and>
    (\<forall>r. hit = Some r \<longrightarrow> fst r < length (ca_sets c') \<and> snd r < n \<and> fst r = cb_tag (line_at c' r) mod ca_num_sets c' \<and>
       (\<exists>ps \<in> set (ca_page_sizes c). cb_tag (line_at c' r) = addr div 2 ^ ps \<and> cb_page_size (line_at c' r) = int ps))"
proof -
  obtain h where h: "access_sizes c addr (ca_page_sizes c) = Inr h"
    "\<And>i l. h = Some (i, l) \<Longrightarrow> i < length (ca_sets c) \<and> l < n \<and> i = cb_tag (line_at c (i, l)) mod ca_num_sets c \<and>
       (\<exists>ps \<in> set (ca_page_sizes c). cb_tag (line_at c (i, l)) = addr div 2 ^ ps \<and> cb_page_size (line_at c (i, l)) = int ps)"
    using access_sizes_ok [OF sh, of addr "ca_page_sizes c"] by blast
  show ?thesis
  proof (cases h)
    case None
    with acc h(1) sh show ?thesis by (simp add: accessSingleLineTLB_def)
  next
    case (Some r)
    obtain i l where il: "r = (i, l)" by fastforce
    note b = h(2) [OF Some [unfolded il]]
    from acc h(1) Some il obtain sp where u: "use_line touch upd (ca_sets c ! i) l = Inr sp" "hit = Some (i, l)"
      "c' = c\<lparr>ca_sets := (ca_sets c)[i := sp]\<rparr>"
      by (auto simp: accessSingleLineTLB_def map_sum_def split: sum.splits)
    note s = tlb_shape_set [OF sh conjunct1 [OF b]]
    have sp: "fst sp = fst (ca_sets c ! i)" "inv n (snd sp)"
      using u(1) s b touch_inv [of "cs_blocks (fst (ca_sets c ! i))" "snd (ca_sets c ! i)" l]
      by (auto simp: use_line_def split: if_splits elim!: map_sum_InrE)
    have "tlb_shape n inv c'" unfolding u(3) by (rule tlb_shape_update [OF sh]) (use sp s in simp_all)
    moreover have "tlb_entries c' \<subseteq> {} \<union> tlb_entries c"
      unfolding u(3) by (rule tlb_entries_update) (use sp in auto)
    moreover have "line_at c' (i, l) = line_at c (i, l)" using u(3) sp(1) b by (simp add: line_at_def)
    ultimately show ?thesis using u(2,3) b by simp
  qed
qed

lemma tlb_allocate_entries:
  assumes sh: "tlb_shape n inv (m_cache t)" and al: "tlb_allocate victim touch t addr cnt ps ppn self instr = Inr (r, t')"
  shows "tlb_shape n inv (m_cache t') \<and> ca_page_sizes (m_cache t') = ca_page_sizes (m_cache t) \<and> pending t' = pending t \<and>
    entry_priority_queue t' = entry_priority_queue t \<and>
    tlb_entries (m_cache t') \<subseteq> {(addr div 2 ^ ps, int ps, ppn)} \<union> tlb_entries (m_cache t)"
proof (cases "m_prefetch t \<and> \<not> self")
  case True
  with al sh show ?thesis by (auto simp: tlb_allocate_def)
next
  case False
  obtain ev c1 where i: "insertSingleLineTLB victim (m_cache t) addr DATA ps ppn = Inr (ev, c1)"
    using al False by (auto simp: tlb_allocate_def split: sum.splits)
  note i' = tlb_insert_entries [OF sh i]
  obtain hit c2 where a: "(if self then accessSingleLineTLB touch c1 addr False else Inr (None, c1)) = Inr (hit, c2)"
    using al False i by (cases "if self then accessSingleLineTLB touch c1 addr False else Inr (None, c1)") (auto simp: tlb_allocate_def)
  have a': "tlb_shape n inv c2 \<and> ca_page_sizes c2 = ca_page_sizes c1 \<and> tlb_entries c2 \<subseteq> tlb_entries c1 \<and>
      (\<forall>r. hit = Some r \<longrightarrow> fst r < length (ca_sets c2) \<and> snd r < n)"
  proof (cases self)
    case True
    with a tlb_access_entries [OF conjunct1 [OF i'], of addr False hit c2] show ?thesis by simp
  next
    case False
    with a i' show ?thesis by auto
  qed
  define c3 where "c3 = (case hit of Some r \<Rightarrow> map_line setPrefetch r c2 | None \<Rightarrow> c2)"
  have c3: "tlb_shape n inv c3 \<and> tlb_entries c3 \<subseteq> tlb_entries c2 \<and> ca_page_sizes c3 = ca_page_sizes c2"
    using a' map_line_ok [of setPrefetch n inv c2] by (cases hit) (auto simp: c3_def)
  from al False i a obtain st where "t' = t\<lparr>m_cache := c3, tlb_stats := st\<rparr>"
    by (auto simp: tlb_allocate_def Let_def c3_def)
  with i' a' c3 show ?thesis by auto
qed

lemma materialise_entries:
  "tlb_shape n inv (m_cache t) \<Longrightarrow> materialise victim touch qs t = Inr t' \<Longrightarrow>
   tlb_shape n inv (m_cache t') \<and> ca_page_sizes (m_cache t') = ca_page_sizes (m_cache t) \<and> pending t' \<subseteq> pending t \<and>
   tlb_entries (m_cache t') \<subseteq> query_translation ` set qs \<union> tlb_entries (m_cache t)"
proof (induction qs arbitrary: t)
  case (Cons q qs)
  let ?t = "t\<lparr>entry_priority_queue := remove1 q (entry_priority_queue t),
                m_pq_region_refcount := drop_region (region_of q) (m_pq_region_refcount t)\<rparr>"
  from Cons.prems(2) obtain r t1 where al: "tlb_allocate victim touch ?t (qe_address q) False (qe_page_size q) (qe_ppn q) True False = Inr (r, t1)"
    and m: "materialise victim touch qs t1 = Inr t'" by (auto split: sum.splits)
  have sh: "tlb_shape n inv (m_cache ?t)" using Cons.prems(1) by simp
  note a = tlb_allocate_entries [OF sh al]
  have "pending ?t \<subseteq> pending t" using notin_set_remove1 by (fastforce simp: pending_def)
  moreover note Cons.IH [OF conjunct1 [OF a] m]
  ultimately show ?case using a by (auto simp: query_translation_def)
qed auto

lemma tlb_lookup_entries:
  assumes sh: "tlb_shape n inv (m_cache t)" and lk: "tlb_lookup victim touch gens t addr now mc instr = Inr (hit, t')"
  shows "tlb_shape n inv (m_cache t') \<and> ca_page_sizes (m_cache t') = ca_page_sizes (m_cache t) \<and>
    tlb_entries (m_cache t') \<subseteq> pending t \<union> tlb_entries (m_cache t) \<and>
    pending t' \<subseteq> pending t \<union> query_translation ` (\<Union>gen \<in> set gens. {q \<in> set gen. qe_ppn q \<noteq> 0}) \<and>
    (\<forall>b. hit = Some b \<longrightarrow> b \<in> set (cs_blocks (fst (ca_sets (m_cache t') ! (cb_tag b mod ca_num_sets (m_cache t'))))) \<and>
       (\<exists>ps \<in> set (ca_page_sizes (m_cache t)). cb_tag b = addr div 2 ^ ps \<and> cb_page_size b = int ps))"
proof -
  obtain t1 where t1: "(if m_prefetch t then materialise victim touch (due now (entry_priority_queue t)) t else Inr t) = Inr t1"
    using lk by (cases "if m_prefetch t then materialise victim touch (due now (entry_priority_queue t)) t else Inr t") (auto simp: tlb_lookup_def)
  have m: "tlb_shape n inv (m_cache t1) \<and> ca_page_sizes (m_cache t1) = ca_page_sizes (m_cache t) \<and> pending t1 \<subseteq> pending t \<and>
      tlb_entries (m_cache t1) \<subseteq> pending t \<union> tlb_entries (m_cache t)"
  proof (cases "m_prefetch t")
    case True
    with t1 materialise_entries [OF sh, of "due now (entry_priority_queue t)" t1] set_due [of now "entry_priority_queue t"]
    show ?thesis unfolding pending_def by (simp, blast)
  qed (use t1 sh in auto)
  obtain h c where a: "accessSingleLineTLB touch (m_cache t1) addr True = Inr (h, c)"
    using lk t1 by (auto simp: tlb_lookup_def Let_def split: sum.splits)
  note a' = tlb_access_entries [OF conjunct1 [OF m] a]
  define c' where "c' = (case h of Some r \<Rightarrow> (if hasPrefetch (line_at c r) then map_line clearPrefetch r c else c) | None \<Rightarrow> c)"
  have c': "tlb_shape n inv c' \<and> tlb_entries c' \<subseteq> tlb_entries c \<and> ca_page_sizes c' = ca_page_sizes c \<and> ca_num_sets c' = ca_num_sets c \<and>
      length (ca_sets c') = length (ca_sets c) \<and>
      (\<forall>r. h = Some r \<longrightarrow> cb_tag (line_at c' r) = cb_tag (line_at c r) \<and> cb_page_size (line_at c' r) = cb_page_size (line_at c r))"
    using a' map_line_ok [of clearPrefetch n inv c] by (cases h) (auto simp: c'_def)
  define t2 where "t2 = t1\<lparr>m_cache := c', tlb_stats := (if mc then (tlb_stats t1)\<lparr>m_access := bump (m_unified t1) instr (m_access (tlb_stats t1))\<rparr> else tlb_stats t1)\<rparr>"
  define t3 where "t3 = (if m_prefetch t then prefetch_all gens t2 else t2)"
  have t3: "pending t3 \<subseteq> pending t \<union> query_translation ` (\<Union>gen \<in> set gens. {q \<in> set gen. qe_ppn q \<noteq> 0})" "m_cache t3 = c'"
    using prefetch_all_pending [of gens t2] m by (auto simp: t3_def t2_def)
  have "tlb_lookup victim touch gens t addr now mc instr =
      Inr (case h of Some r \<Rightarrow> (Some (line_at c' r), t3\<lparr>tlb_stats := (tlb_stats t3)\<lparr>m_hit := bump (m_unified t) instr (m_hit (tlb_stats t3))\<rparr>\<rparr>)
           | None \<Rightarrow> (None, if mc then t3\<lparr>tlb_stats := (tlb_stats t3)\<lparr>m_miss := bump (m_unified t) instr (m_miss (tlb_stats t3))\<rparr>\<rparr> else t3))"
    unfolding tlb_lookup_def t1 sum.case Let_def a prod.case c'_def t2_def t3_def by (rule refl)
  with lk have "pending t' = pending t3" "m_cache t' = m_cache t3" "hit = map_option (line_at c') h"
    by (auto split: option.splits if_splits)
  moreover have "line_at c' r \<in> set (cs_blocks (fst (ca_sets c' ! fst r)))" if "h = Some r" for r
    using a' c' that tlb_shape_set [of n inv c' "fst r"] by (auto simp: line_at_def)
  ultimately show ?thesis using m a' c' t3 by auto
qed

end

section \<open>Runs of a TLB\<close>

text \<open>
  The runs of a TLB next to a page table: \<open>M tag ps\<close> is the physical page that the
  table has for the virtual page \<open>tag\<close> of size \<open>2 ^ ps\<close>. The TLB starts empty; a
  lookup queues what the prefetchers found in the table; a walk fills it; a change of
  the table at an address is followed by the invalidation of that address. The queue
  of prefetches is not part of the invalidation, so a change requires that no
  prefetch of a changed page is pending.
\<close>

definition table_has :: "(u64 \<Rightarrow> int \<Rightarrow> u64 option) \<Rightarrow> u64 \<times> int \<times> u64 \<Rightarrow> bool" where
  "table_has M e = (case e of (tag, ps, ppn) \<Rightarrow> M tag ps = Some ppn)"

inductive tlb_run ::
  "('p \<Rightarrow> cache_block list \<Rightarrow> (nat \<times> 'p) outcome) \<Rightarrow> ('p \<Rightarrow> cache_block list \<Rightarrow> nat \<Rightarrow> 'p outcome) \<Rightarrow> (nat \<Rightarrow> 'p) \<Rightarrow> nat \<Rightarrow>
   (u64 \<Rightarrow> int \<Rightarrow> u64 option) \<Rightarrow> 'p tlb \<Rightarrow> bool"
  for victim :: "'p \<Rightarrow> cache_block list \<Rightarrow> (nat \<times> 'p) outcome" and touch :: "'p \<Rightarrow> cache_block list \<Rightarrow> nat \<Rightarrow> 'p outcome"
    and new_policy :: "nat \<Rightarrow> 'p" and n :: nat where
  boot: "tlb_new new_policy num n sizes unified prefetch mx = Inr t \<Longrightarrow> \<forall>ps \<in> set sizes. 0 < ps \<Longrightarrow>
     tlb_run victim touch new_policy n M t"
| look: "tlb_run victim touch new_policy n M t \<Longrightarrow>
     \<forall>gen \<in> set gens. \<forall>q \<in> set gen. qe_ppn q \<noteq> 0 \<longrightarrow> table_has M (query_translation q) \<Longrightarrow>
     tlb_lookup victim touch gens t addr now mc instr = Inr (hit, t') \<Longrightarrow> tlb_run victim touch new_policy n M t'"
| fill: "tlb_run victim touch new_policy n M t \<Longrightarrow> M (addr div 2 ^ ps) (int ps) = Some ppn \<Longrightarrow>
     tlb_allocate victim touch t addr cnt ps ppn False instr = Inr (r, t') \<Longrightarrow> tlb_run victim touch new_policy n M t'"
| remap: "tlb_run victim touch new_policy n M t \<Longrightarrow> addr < 2 ^ 64 \<Longrightarrow> tlb_invalidate t addr = Inr (r, t') \<Longrightarrow>
     \<forall>tag ps. M' tag ps \<noteq> M tag ps \<longrightarrow> (\<exists>k \<in> set (ca_page_sizes (m_cache t)). tag = addr div 2 ^ k \<and> ps = int k) \<Longrightarrow>
     \<forall>e \<in> pending t. table_has M' e \<Longrightarrow> tlb_run victim touch new_policy n M' t'"

text \<open>The invariant: every translation that the TLB holds or has queued is in the table.\<close>

definition tlb_agrees :: "(u64 \<Rightarrow> int \<Rightarrow> u64 option) \<Rightarrow> 'p tlb \<Rightarrow> bool" where
  "tlb_agrees M t \<longleftrightarrow> (\<forall>e \<in> tlb_entries (m_cache t) \<union> pending t. table_has M e)"

lemma tlb_new_ok:
  assumes new: "tlb_new new_policy num n sizes unified prefetch mx = Inr t" and ok: "ok n (new_policy n)" and sizes: "\<forall>ps \<in> set sizes. 0 < ps"
  shows "tlb_shape n ok (m_cache t) \<and> tlb_agrees M t \<and> ca_page_sizes (m_cache t) = sizes"
proof -
  define c where "c = \<lparr> ca_num_sets = num div n, ca_blocksize = 8, ca_hash = HASH_MASK,
        ca_sets = replicate (num div n) (cache_set_new n, new_policy n), ca_fake = None, ca_page_sizes = sizes \<rparr>"
  from new have p: "pow2 (num div n)" and t: "m_cache t = c" "entry_priority_queue t = []"
    by (auto simp: tlb_new_def cache_array_new_def c_def split: if_splits sum.splits)
  have sh: "tlb_shape n ok c" using p ok sizes by (simp add: tlb_shape_def c_def cache_set_new_def)
  have "tlb_entries c = {}"
  proof -
    have "\<not> isValid b" if "b \<in> set (cs_blocks (fst (ca_sets c ! (cb_tag b mod ca_num_sets c))))" for b
      using that tlb_index [OF sh, of "cb_tag b"] by (auto simp: c_def cache_set_new_def isValid_def cache_block_new_def)
    then show ?thesis by (auto simp: tlb_entries_def)
  qed
  with sh t show ?thesis by (simp add: tlb_agrees_def pending_def c_def)
qed

context replacement
begin

lemma tlb_run_agrees:
  "tlb_run victim touch new_policy n M t \<Longrightarrow> inv n (new_policy n) \<Longrightarrow> tlb_shape n inv (m_cache t) \<and> tlb_agrees M t"
proof (induction rule: tlb_run.induct)
  case (boot num sizes unified prefetch mx t M)
  with tlb_new_ok [OF boot(1), of inv M] show ?case by blast
next
  case (look M t gens addr now mc instr hit t')
  then have IH: "tlb_shape n inv (m_cache t)" "tlb_agrees M t" by blast+
  from tlb_lookup_entries [OF IH(1) look(3)] look(2) IH(2) show ?case unfolding tlb_agrees_def by blast
next
  case (fill M t addr ps ppn cnt instr r t')
  then have IH: "tlb_shape n inv (m_cache t)" "tlb_agrees M t" by blast+
  have "table_has M (addr div 2 ^ ps, int ps, ppn)" using fill(2) by (simp add: table_has_def)
  with tlb_allocate_entries [OF IH(1) fill(3)] IH(2) show ?case unfolding tlb_agrees_def by blast
next
  case (remap M t addr r t' M')
  then have IH: "tlb_shape n inv (m_cache t)" "tlb_agrees M t" by blast+
  let ?gone = "\<lambda>e. \<exists>ps \<in> set (ca_page_sizes (m_cache t)). fst e = addr div 2 ^ ps \<and> fst (snd e) = int ps"
  obtain c' where c': "t' = t\<lparr>m_cache := c'\<rparr>" "tlb_shape n inv c'" "tlb_entries c' = {e \<in> tlb_entries (m_cache t). \<not> ?gone e}"
    using tlb_invalidate_ok [OF IH(1) remap(2)] remap(3) by auto
  have "table_has M' e" if "e \<in> tlb_entries c'" for e
  proof -
    obtain tag ps ppn where e: "e = (tag, ps, ppn)" by (rule prod_cases3)
    with that c'(3) have "e \<in> tlb_entries (m_cache t)" "\<not> ?gone e" by auto
    then have "table_has M (tag, ps, ppn)" "\<not> ?gone (tag, ps, ppn)" using IH(2) unfolding tlb_agrees_def e by blast+
    moreover from this(2) have "M' tag ps = M tag ps" using remap(4) by (metis fst_conv snd_conv)
    ultimately show ?thesis unfolding e by (simp add: table_has_def)
  qed
  with c' remap(5) show ?case by (auto simp: tlb_agrees_def)
qed

lemma tlb_run_hit:
  assumes run: "tlb_run victim touch new_policy n M t" and new: "inv n (new_policy n)" and a: "addr < 2 ^ 64"
    and hit: "tlb_lookup victim touch gens t addr now mc instr = Inr (Some b, t')"
  shows "M (cb_tag b) (cb_page_size b) = Some (cb_ppn b) \<and>
    (\<exists>ps \<in> set (ca_page_sizes (m_cache t)). cb_tag b = addr div 2 ^ ps \<and> cb_page_size b = int ps)"
proof -
  from tlb_run_agrees [OF run new] have sh: "tlb_shape n inv (m_cache t)" and ag: "tlb_agrees M t" by blast+
  note l = tlb_lookup_entries [OF sh hit]
  then obtain ps where ps: "ps \<in> set (ca_page_sizes (m_cache t))" "cb_tag b = addr div 2 ^ ps" "cb_page_size b = int ps" by blast
  then have "isValid b" using sh a tag_valid [OF a, of ps] by (auto simp: tlb_shape_def isValid_def)
  with l have "(cb_tag b, cb_page_size b, cb_ppn b) \<in> tlb_entries (m_cache t')" by (blast intro: tlb_entriesI)
  with l ag have "table_has M (cb_tag b, cb_page_size b, cb_ppn b)" unfolding tlb_agrees_def by blast
  with ps show ?thesis by (auto simp: table_has_def)
qed

end

section \<open>A filled translation is found\<close>

text \<open>The blocks that a lookup of an address may return for one page size.\<close>

definition candidates :: "'p cache_array \<Rightarrow> u64 \<Rightarrow> nat \<Rightarrow> cache_block set" where
  "candidates c addr ps =
     {b \<in> set (cs_blocks (fst (ca_sets c ! (addr div 2 ^ ps mod ca_num_sets c)))). cb_tag b = addr div 2 ^ ps \<and> cb_page_size b = int ps}"

definition only_entry :: "'p cache_array \<Rightarrow> u64 \<Rightarrow> nat \<Rightarrow> u64 \<Rightarrow> bool" where
  "only_entry c addr ps ppn \<longleftrightarrow> candidates c addr ps \<noteq> {} \<and>
     (\<forall>p \<in> set (ca_page_sizes c). \<forall>b \<in> candidates c addr p. cb_ppn b = ppn \<and> cb_cstate b \<noteq> INVALID)"

lemma candidates_empty: "candidates c addr ps = {} \<longleftrightarrow> findTLB (fst (ca_sets c ! (addr div 2 ^ ps mod ca_num_sets c))) (addr div 2 ^ ps) (int ps) = None"
  by (auto simp: candidates_def findTLB_None)

lemma access_sizes_only:
  assumes sh: "tlb_shape n ok c" and only: "only_entry c addr ps ppn"
  shows "set sizes \<subseteq> set (ca_page_sizes c) \<Longrightarrow> ps \<in> set sizes \<Longrightarrow>
    \<exists>r. access_sizes c addr sizes = Inr (Some r) \<and> fst r < length (ca_sets c) \<and> snd r < n \<and> cb_ppn (line_at c r) = ppn"
proof (induction sizes)
  case (Cons p sizes)
  let ?tag = "addr div 2 ^ p" let ?i = "?tag mod ca_num_sets c"
  note sp = split_tlb [OF sh, of addr p] and i = tlb_index [OF sh, of ?tag]
  show ?case
  proof (cases "findTLB (fst (ca_sets c ! ?i)) ?tag (int p)")
    case None
    then have "p \<noteq> ps" using only candidates_empty [of c addr p] by (auto simp: only_entry_def)
    with Cons None sp i show ?thesis by simp
  next
    case (Some l)
    note f = findTLB_Some [OF Some]
    then have "line_at c (?i, l) \<in> candidates c addr p" by (auto simp: candidates_def line_at_def)
    with only Cons.prems have "cb_ppn (line_at c (?i, l)) = ppn" "cb_cstate (line_at c (?i, l)) \<noteq> INVALID" by (auto simp: only_entry_def)
    with Some sp i f tlb_shape_set [OF sh i] show ?thesis by (simp add: line_at_def)
  qed
qed simp

lemma only_entry_map_line:
  assumes f: "\<And>b. cb_tag (f b) = cb_tag b \<and> cb_page_size (f b) = cb_page_size b \<and> cb_ppn (f b) = cb_ppn b \<and> cb_cstate (f b) = cb_cstate b"
    and sh: "tlb_shape n ok c" and only: "only_entry c addr ps ppn" and r: "fst r < length (ca_sets c)" "snd r < n"
  shows "only_entry (map_line f r c) addr ps ppn"
proof -
  let ?bs = "\<lambda>c p. cs_blocks (fst (ca_sets c ! (addr div 2 ^ p mod ca_num_sets c)))"
  have l: "snd r < length (cs_blocks (fst (ca_sets c ! fst r)))" using tlb_shape_set [OF sh r(1)] r(2) by simp
  have bs: "?bs (map_line f r c) p = (if addr div 2 ^ p mod ca_num_sets c = fst r then (?bs c p)[snd r := f (?bs c p ! snd r)] else ?bs c p)" for p
    using r(1) by (simp add: map_line_def Let_def)
  have sub: "\<exists>b' \<in> candidates c addr p. b = b' \<or> b = f b'" if "b \<in> candidates (map_line f r c) addr p" for b p
  proof -
    from that have b: "b \<in> set (?bs (map_line f r c) p)" "cb_tag b = addr div 2 ^ p" "cb_page_size b = int p"
      by (simp_all add: candidates_def)
    have "b \<in> set (?bs c p) \<or> addr div 2 ^ p mod ca_num_sets c = fst r \<and> b = f (?bs c p ! snd r)"
      using b(1) unfolding bs by (auto split: if_splits dest!: in_set_updateD)
    with b(2,3) f nth_mem [OF l] show ?thesis by (auto simp: candidates_def)
  qed
  have "candidates (map_line f r c) addr ps \<noteq> {}"
  proof -
    obtain k where k: "k < length (?bs c ps)" "?bs c ps ! k \<in> candidates c addr ps"
      using only by (auto simp: only_entry_def candidates_def in_set_conv_nth)
    then have len: "k < length (?bs (map_line f r c) ps)" unfolding bs by auto
    have "cb_tag (?bs (map_line f r c) ps ! k) = addr div 2 ^ ps \<and> cb_page_size (?bs (map_line f r c) ps ! k) = int ps"
      using k f unfolding bs by (cases "k = snd r") (auto simp: candidates_def)
    with nth_mem [OF len] show ?thesis by (auto simp: candidates_def)
  qed
  moreover have "cb_ppn b = ppn \<and> cb_cstate b \<noteq> INVALID" if "p \<in> set (ca_page_sizes c)" "b \<in> candidates (map_line f r c) addr p" for b p
    using sub [OF that(2)] that(1) only f by (auto simp: only_entry_def)
  ultimately show ?thesis by (simp add: only_entry_def)
qed

text \<open>A policy whose two operations never stop the program on a set with at least one way.\<close>

locale total_replacement = replacement +
  assumes victim_total: "inv (length bs) p \<Longrightarrow> 0 < length bs \<Longrightarrow> \<exists>i p'. victim p bs = Inr (i, p')"
    and touch_total: "inv (length bs) p \<Longrightarrow> i < length bs \<Longrightarrow> \<exists>p'. touch p bs i = Inr p'"
begin

lemma tlb_insert_absent:
  assumes sh: "tlb_shape n inv c" "0 < n" and absent: "\<forall>p \<in> set (ca_page_sizes c). candidates c addr p = {}"
  shows "\<exists>ev c'. insertSingleLineTLB victim c addr bt ps ppn = Inr (ev, c') \<and> tlb_shape n inv c' \<and>
    ca_page_sizes c' = ca_page_sizes c \<and> only_entry c' addr ps ppn"
proof -
  let ?i = "addr div 2 ^ ps mod ca_num_sets c" let ?sp = "ca_sets c ! ?i"
  define blk where "blk = (cache_block_new minus1_64 INVALID 0)\<lparr>cb_tag := addr div 2 ^ ps, cb_block_type := bt, cb_page_size := int ps, cb_ppn := ppn, cb_cstate := SHARED\<rparr>"
  note i = tlb_index [OF sh(1), of "addr div 2 ^ ps"] and s = tlb_shape_set [OF sh(1) tlb_index [OF sh(1), of "addr div 2 ^ ps"]]
  have I: "inv (length (cs_blocks (fst ?sp))) (snd ?sp)" using s by simp
  obtain l p' where v: "victim (snd ?sp) (cs_blocks (fst ?sp)) = Inr (l, p')" using victim_total [OF I] s sh(2) by auto
  obtain ev cs' where o: "set_insert victim (snd ?sp) (fst ?sp) blk (cache_block_new minus1_64 INVALID 0) = Inr (ev, p', cs')"
    "l < length (cs_blocks (fst ?sp))" "cs_blocks cs' = (cs_blocks (fst ?sp))[l := clone (cs_blocks (fst ?sp) ! l) blk]"
    using insert_ok [OF I v, of blk "cache_block_new minus1_64 INVALID 0"] by blast
  define c' where "c' = c\<lparr>ca_sets := (ca_sets c)[?i := (cs', p')]\<rparr>"
  have ins: "insertSingleLineTLB victim c addr bt ps ppn = Inr (ev, c')"
    unfolding insertSingleLineTLB_def split_tlb [OF sh(1)] using o(1) i by (simp add: insert_into_def blk_def c'_def)
  let ?b = "clone (cs_blocks (fst ?sp) ! l) blk"
  have b: "cb_tag ?b = addr div 2 ^ ps" "cb_page_size ?b = int ps" "cb_ppn ?b = ppn" "cb_cstate ?b \<noteq> INVALID"
    by (simp_all add: clone_def blk_def)
  have mem: "?b \<in> candidates c' addr ps" using o i b by (auto simp: candidates_def c'_def set_update_memI)
  have uniq: "x = ?b" if "p \<in> set (ca_page_sizes c)" "x \<in> candidates c' addr p" for x p
  proof -
    have "x \<in> set (cs_blocks (fst (ca_sets c' ! (addr div 2 ^ p mod ca_num_sets c))))" "x \<notin> candidates c addr p"
      using that absent by (auto simp: candidates_def c'_def)
    then show ?thesis using that(2) o(3) i
      by (cases "addr div 2 ^ p mod ca_num_sets c = ?i") (auto simp: candidates_def c'_def dest!: in_set_updateD)
  qed
  have pg: "ca_page_sizes c' = ca_page_sizes c" by (simp add: c'_def)
  have "only_entry c' addr ps ppn" unfolding only_entry_def pg
  proof (intro conjI ballI)
    show "candidates c' addr ps \<noteq> {}" using mem by blast
    fix p x assume "p \<in> set (ca_page_sizes c)" "x \<in> candidates c' addr p"
    then have x: "x = ?b" by (rule uniq)
    show "cb_ppn x = ppn" "cb_cstate x \<noteq> INVALID" unfolding x by (rule b)+
  qed
  with ins tlb_insert_entries [OF sh(1) ins] show ?thesis by simp
qed

lemma tlb_access_only:
  assumes sh: "tlb_shape n inv c" and only: "only_entry c addr ps ppn" and ps: "ps \<in> set (ca_page_sizes c)"
  shows "\<exists>r c'. accessSingleLineTLB touch c addr upd = Inr (Some r, c') \<and> tlb_shape n inv c' \<and> only_entry c' addr ps ppn \<and>
    ca_page_sizes c' = ca_page_sizes c \<and> fst r < length (ca_sets c') \<and> snd r < n \<and> cb_ppn (line_at c' r) = ppn"
proof -
  obtain i l where r: "access_sizes c addr (ca_page_sizes c) = Inr (Some (i, l))" "i < length (ca_sets c)" "l < n" "cb_ppn (line_at c (i, l)) = ppn"
    using access_sizes_only [OF sh only subset_refl ps] by auto
  note s = tlb_shape_set [OF sh r(2)]
  obtain sp where u: "use_line touch upd (ca_sets c ! i) l = Inr sp" "fst sp = fst (ca_sets c ! i)"
    using touch_total [of "cs_blocks (fst (ca_sets c ! i))" "snd (ca_sets c ! i)" l] s r(3) by (cases upd) (auto simp: use_line_def)
  define c' where "c' = c\<lparr>ca_sets := (ca_sets c)[i := sp]\<rparr>"
  have acc: "accessSingleLineTLB touch c addr upd = Inr (Some (i, l), c')" using r(1) u(1) by (simp add: accessSingleLineTLB_def c'_def)
  have same: "fst (ca_sets c' ! j) = fst (ca_sets c ! j)" for j
    using u(2) by (cases "j = i \<and> i < length (ca_sets c)") (auto simp: c'_def nth_list_update list_update_beyond)
  then have "candidates c' addr p = candidates c addr p" for p by (simp add: candidates_def c'_def)
  then have "only_entry c' addr ps ppn" using only by (simp add: only_entry_def c'_def)
  moreover have "line_at c' (i, l) = line_at c (i, l)" using same by (simp add: line_at_def)
  ultimately show ?thesis using acc tlb_access_entries [OF sh acc] r by (auto simp: c'_def)
qed

lemma tlb_allocate_only:
  assumes sh: "tlb_shape n inv (m_cache t)" "0 < n" and absent: "\<forall>p \<in> set (ca_page_sizes (m_cache t)). candidates (m_cache t) addr p = {}"
    and ps: "ps \<in> set (ca_page_sizes (m_cache t))" and go: "m_prefetch t \<longrightarrow> self"
  shows "\<exists>r t'. tlb_allocate victim touch t addr cnt ps ppn self instr = Inr (r, t') \<and> tlb_shape n inv (m_cache t') \<and>
    ca_page_sizes (m_cache t') = ca_page_sizes (m_cache t) \<and> only_entry (m_cache t') addr ps ppn \<and> m_prefetch t' = m_prefetch t"
proof -
  obtain ev c1 where i: "insertSingleLineTLB victim (m_cache t) addr DATA ps ppn = Inr (ev, c1)" "tlb_shape n inv c1"
    "ca_page_sizes c1 = ca_page_sizes (m_cache t)" "only_entry c1 addr ps ppn"
    using tlb_insert_absent [OF sh absent, of DATA ps ppn] by blast
  show ?thesis
  proof (cases self)
    case True
    obtain r c2 where a: "accessSingleLineTLB touch c1 addr False = Inr (Some r, c2)" "tlb_shape n inv c2" "only_entry c2 addr ps ppn"
      "ca_page_sizes c2 = ca_page_sizes c1" "fst r < length (ca_sets c2)" "snd r < n"
      using tlb_access_only [OF i(2,4), of False] ps i(3) by auto
    have "tlb_shape n inv (map_line setPrefetch r c2)" by (rule map_line_ok(1) [OF _ a(2,5,6)]) simp
    moreover have "only_entry (map_line setPrefetch r c2) addr ps ppn"
      by (rule only_entry_map_line [OF _ a(2,3,5,6)]) (simp add: setPrefetch_def)
    ultimately show ?thesis using True i a by (cases ev) (auto simp: tlb_allocate_def Let_def)
  next
    case False
    with i go show ?thesis by (cases ev) (auto simp: tlb_allocate_def Let_def)
  qed
qed

lemma tlb_lookup_only:
  assumes t1: "(if m_prefetch t then materialise victim touch (due now (entry_priority_queue t)) t else Inr t) = Inr t1"
    and sh: "tlb_shape n inv (m_cache t1)" and only: "only_entry (m_cache t1) addr ps ppn" and ps: "ps \<in> set (ca_page_sizes (m_cache t1))"
  shows "\<exists>b t'. tlb_lookup victim touch gens t addr now mc instr = Inr (Some b, t') \<and> cb_ppn b = ppn"
proof -
  obtain r c where a: "accessSingleLineTLB touch (m_cache t1) addr True = Inr (Some r, c)" "tlb_shape n inv c"
    "fst r < length (ca_sets c)" "snd r < n" "cb_ppn (line_at c r) = ppn"
    using tlb_access_only [OF sh only ps, of True] by auto
  have "cb_ppn (line_at (map_line clearPrefetch r c) r) = ppn"
    using map_line_ok(3) [of clearPrefetch n inv c r] a by simp
  with a t1 show ?thesis by (auto simp: tlb_lookup_def Let_def)
qed

lemma tlb_fill_then_lookup:
  assumes sh: "tlb_shape n inv (m_cache t)" "0 < n" and absent: "\<forall>p \<in> set (ca_page_sizes (m_cache t)). candidates (m_cache t) addr p = {}"
    and ps: "ps \<in> set (ca_page_sizes (m_cache t))" and off: "\<not> m_prefetch t"
  shows "\<exists>r t1 b t2. tlb_allocate victim touch t addr cnt ps ppn False instr = Inr (r, t1) \<and>
    tlb_lookup victim touch gens t1 addr now mc instr' = Inr (Some b, t2) \<and> cb_ppn b = ppn"
proof -
  obtain r t1 where a: "tlb_allocate victim touch t addr cnt ps ppn False instr = Inr (r, t1)" "tlb_shape n inv (m_cache t1)"
    "ca_page_sizes (m_cache t1) = ca_page_sizes (m_cache t)" "only_entry (m_cache t1) addr ps ppn" "m_prefetch t1 = m_prefetch t"
    using tlb_allocate_only [OF sh absent ps, of False cnt ppn instr] off by blast
  have "(if m_prefetch t1 then materialise victim touch (due now (entry_priority_queue t1)) t1 else Inr t1) = Inr t1"
    using a(5) off by simp
  moreover have "ps \<in> set (ca_page_sizes (m_cache t1))" using a(3) ps by simp
  ultimately obtain b t2 where "tlb_lookup victim touch gens t1 addr now mc instr' = Inr (Some b, t2)" "cb_ppn b = ppn"
    using tlb_lookup_only [OF _ a(2,4)] by blast
  with a(1) show ?thesis by blast
qed

lemma tlb_prefetched_lookup:
  assumes sh: "tlb_shape n inv (m_cache t)" "0 < n" and q: "entry_priority_queue t = [q]" "qe_timestamp q \<le> now" and on: "m_prefetch t"
    and absent: "\<forall>p \<in> set (ca_page_sizes (m_cache t)). candidates (m_cache t) (qe_address q) p = {}"
    and ps: "qe_page_size q \<in> set (ca_page_sizes (m_cache t))"
  shows "\<exists>b t'. tlb_lookup victim touch gens t (qe_address q) now mc instr = Inr (Some b, t') \<and> cb_ppn b = qe_ppn q"
proof -
  let ?t = "t\<lparr>entry_priority_queue := [], m_pq_region_refcount := drop_region (region_of q) (m_pq_region_refcount t)\<rparr>"
  obtain r t1 where a: "tlb_allocate victim touch ?t (qe_address q) False (qe_page_size q) (qe_ppn q) True False = Inr (r, t1)"
    "tlb_shape n inv (m_cache t1)" "ca_page_sizes (m_cache t1) = ca_page_sizes (m_cache t)" "only_entry (m_cache t1) (qe_address q) (qe_page_size q) (qe_ppn q)"
    using tlb_allocate_only [of n ?t "qe_address q" "qe_page_size q" True False "qe_ppn q" False] sh absent ps by auto
  have "(if m_prefetch t then materialise victim touch (due now (entry_priority_queue t)) t else Inr t) = Inr t1"
    using q on a(1) by (simp add: due_def)
  from tlb_lookup_only [OF this a(2,4)] a(3) ps show ?thesis by simp
qed

end

section \<open>TLBs with LRU replacement\<close>

lemma recency_bound: "recency_ok n bits \<Longrightarrow> i < n \<Longrightarrow> bits ! i < n"
  using is_recency_split [of bits _ i] by (fastforce simp: recency_ok_def is_recency_def)

interpretation lru_total: total_replacement lru_inv "lru_victim in_lower" lru_touch for in_lower
proof unfold_locales
  fix bs :: "cache_block list" and p :: lru and i :: nat
  assume inv: "lru_inv (length bs) p"
  show "\<exists>i p'. lru_victim in_lower p bs = Inr (i, p')" if "0 < length bs" using lru_victim_ok [OF inv that] by blast
  show "\<exists>p'. lru_touch p bs i = Inr p'" if "i < length bs"
    using inv recency_bound [of "length bs" "lru_bits p" i] increment_ok [of "length bs" "num_attempts p" "lru_info p" "lru_bits p ! i"] that
    by (auto simp: lru_touch_def lru_inv_def)
qed

lemma lru_new_ok: "n \<le> 256 \<Longrightarrow> 1 \<le> a \<Longrightarrow> lru_inv n (lru_new n a)"
  by (simp add: lru_inv_def lru_new_def recency_ok_init info_new_inv)

text \<open>
  Invalidating an address in a TLB never fails an assertion, whatever the
  entries: it removes every translation of a page that contains the address, of any
  page size, and no other, and afterwards the TLB does not contain the address.
\<close>

lemma tlb_shootdown:
  assumes sh: "tlb_shape n ok (m_cache t)" and a: "addr < 2 ^ 64"
  shows "\<exists>r t'. tlb_invalidate t addr = Inr (r, t') \<and> tlb_shape n ok (m_cache t') \<and> containsTLB (m_cache t') addr = Inr False \<and>
    tlb_entries (m_cache t') = tlb_entries (m_cache t) -
      {(tag, ps, ppn). \<exists>k \<in> set (ca_page_sizes (m_cache t)). tag = addr div 2 ^ k \<and> ps = int k}"
proof -
  obtain r c' where c': "tlb_invalidate t addr = Inr (r, t\<lparr>m_cache := c'\<rparr>)" "tlb_shape n ok c'" "containsTLB c' addr = Inr False"
    "tlb_entries c' = {e \<in> tlb_entries (m_cache t). \<not> (\<exists>ps \<in> set (ca_page_sizes (m_cache t)). fst e = addr div 2 ^ ps \<and> fst (snd e) = int ps)}"
    using tlb_invalidate_ok [OF sh a] by blast
  then have "tlb_entries c' = tlb_entries (m_cache t) - {(tag, ps, ppn). \<exists>k \<in> set (ca_page_sizes (m_cache t)). tag = addr div 2 ^ k \<and> ps = int k}"
    by auto
  with c' show ?thesis by (intro exI [of _ r] exI [of _ "t\<lparr>m_cache := c'\<rparr>"]) simp
qed

text \<open>A TLB of four entries in two sets.\<close>

definition tlb_example :: "bool \<Rightarrow> query_entry list \<Rightarrow> lru tlb" where
  "tlb_example prefetch pq =
     \<lparr> m_cache = \<lparr> ca_num_sets = 2, ca_blocksize = 8, ca_hash = HASH_MASK, ca_sets = replicate 2 (cache_set_new 2, lru_new 2 1),
         ca_fake = None, ca_page_sizes = [12, 21] \<rparr>,
       m_unified = False, m_prefetch = prefetch, max_prefetch_count = 8, entry_priority_queue = pq, m_pq_region_refcount = (\<lambda>_. None),
       tlb_stats = \<lparr> m_access = (0, 0, 0), m_hit = (0, 0, 0), m_miss = (0, 0, 0), m_insertions = (0, 0, 0),
         m_eviction = (0, 0, 0), m_pq_dedup_skipped = 0 \<rparr> \<rparr>"

lemma pow2_2: "pow2 2"
  unfolding pow2_iff by (rule exI [of _ 1]) simp

lemma tlb_example_new: "tlb_new (\<lambda>n. lru_new n 1) 4 2 [12, 21] False prefetch 8 = Inr (tlb_example prefetch [])"
  using pow2_2 by (simp add: tlb_new_def cache_array_new_def tlb_example_def)

lemma tlb_example_shape: "tlb_shape 2 lru_inv (m_cache (tlb_example prefetch pq))"
  using pow2_2 lru_new_ok [of 2 1] by (simp add: tlb_shape_def tlb_example_def cache_set_new_def)

lemma tlb_example_absent: "a < 2 ^ 64 \<Longrightarrow> p \<in> {12, 21} \<Longrightarrow> candidates (m_cache (tlb_example prefetch pq)) a p = {}"
  using tag_valid [of a p] tlb_index [OF tlb_example_shape, of "a div 2 ^ p" prefetch pq]
  by (auto simp: candidates_def tlb_example_def cache_set_new_def cache_block_new_def)



text \<open>
  A translation that is filled into an LRU TLB, which does not hold the address
  yet, is what the next lookup of the address returns: both operations succeed, the
  lookup hits, and the page is the one filled in, for every supported page size.
\<close>

lemma tlb_fill_lookup:
  assumes "tlb_shape n lru_inv (m_cache t)" "0 < n" "\<not> m_prefetch t" "ps \<in> set (ca_page_sizes (m_cache t))"
    and "containsTLB (m_cache t) addr = Inr False"
  shows "\<exists>r t1 b t2. tlb_allocate (lru_victim in_lower) lru_touch t addr cnt ps ppn False instr = Inr (r, t1) \<and>
    tlb_lookup (lru_victim in_lower) lru_touch gens t1 addr now mc instr' = Inr (Some b, t2) \<and> cb_ppn b = ppn"
proof (rule lru_total.tlb_fill_then_lookup [OF assms(1,2) _ assms(4,3)])
  show "\<forall>p \<in> set (ca_page_sizes (m_cache t)). candidates (m_cache t) addr p = {}"
    using assms(5) contains_sizes_absent [OF assms(1), of addr "ca_page_sizes (m_cache t)"] by (simp add: containsTLB_def candidates_empty)
qed

text \<open>
  The invalidation of an address leaves a queued prefetch of that address in
  place: when its time has come, the next lookup of the address puts the old
  translation back into the TLB and returns it.
\<close>

lemma tlb_shootdown_misses_queue:
  assumes sh: "tlb_shape n lru_inv (m_cache t)" "0 < n" and on: "m_prefetch t" and q: "entry_priority_queue t = [q]" "qe_timestamp q \<le> now"
    and a: "qe_address q < 2 ^ 64" and ps: "qe_page_size q \<in> set (ca_page_sizes (m_cache t))"
  shows "\<exists>r t' b t''. tlb_invalidate t (qe_address q) = Inr (r, t') \<and>
    tlb_lookup (lru_victim in_lower) lru_touch gens t' (qe_address q) now mc instr = Inr (Some b, t'') \<and> cb_ppn b = qe_ppn q"
proof -
  obtain r c' where c': "tlb_invalidate t (qe_address q) = Inr (r, t\<lparr>m_cache := c'\<rparr>)" "tlb_shape n lru_inv c'"
    "containsTLB c' (qe_address q) = Inr False" "ca_page_sizes c' = ca_page_sizes (m_cache t)"
    using tlb_invalidate_ok [OF sh(1) a] by blast
  have "\<forall>p \<in> set (ca_page_sizes c'). candidates c' (qe_address q) p = {}"
    using c'(3) contains_sizes_absent [OF c'(2), of "qe_address q" "ca_page_sizes c'"] by (simp add: containsTLB_def candidates_empty)
  then obtain b t'' where "tlb_lookup (lru_victim in_lower) lru_touch gens (t\<lparr>m_cache := c'\<rparr>) (qe_address q) now mc instr = Inr (Some b, t'')"
    "cb_ppn b = qe_ppn q"
    using lru_total.tlb_prefetched_lookup [of n "t\<lparr>m_cache := c'\<rparr>" q now in_lower gens mc instr] c' sh q on ps by auto
  with c'(1) show ?thesis by blast
qed

end
