(* ===== verification/Directory.thy ===== *)
theory Directory
  imports Cache_Array
begin

text \<open>
  The tag directory: the home of an address (\<open>address_home_lookup.cc\<close>), directory
  entries with their sharers (\<open>directory_entry.h\<close> and its two subclasses), the
  entries of a directory (\<open>directory.cc\<close>) and the set-associative directory cache
  with the entries that are being evicted (\<open>dram_directory_cache.cc\<close>). Cores are
  natural numbers; \<open>INVALID_CORE_ID\<close> is \<open>None\<close>.
\<close>

section \<open>The home of an address\<close>

record home_lookup =
  ahl_param :: nat
  ahl_core_list :: "nat list"

definition home_lookup_new :: "nat \<Rightarrow> nat list \<Rightarrow> nat \<Rightarrow> home_lookup outcome" where
  "home_lookup_new param core_list cache_block_size =
     (if 2 ^ param < cache_block_size then Inl Assertion_Failed
      else Inr \<lparr> ahl_param = param, ahl_core_list = core_list \<rparr>)"

definition getHome :: "home_lookup \<Rightarrow> u64 \<Rightarrow> nat outcome" where
  "getHome h address =
     (let total_modules = length (ahl_core_list h) in
      if total_modules = 0 then Inl Undefined_Behaviour
      else Inr (ahl_core_list h ! (address div 2 ^ ahl_param h mod total_modules)))"

definition getLinearBlock :: "home_lookup \<Rightarrow> u64 \<Rightarrow> u64 outcome" where
  "getLinearBlock h address =
     (if ahl_core_list h = [] then Inl Undefined_Behaviour
      else Inr (address div 2 ^ ahl_param h div length (ahl_core_list h)))"

definition getLinearAddress :: "home_lookup \<Rightarrow> u64 \<Rightarrow> u64 outcome" where
  "getLinearAddress h address =
     map_sum id (\<lambda>b. mul64 b (2 ^ ahl_param h) OR (address AND (2 ^ ahl_param h - 1))) (getLinearBlock h address)"

lemma or_disjoint: "(b::nat) < 2 ^ k \<Longrightarrow> (a * 2 ^ k) OR b = a * 2 ^ k + b"
proof -
  assume b: "b < 2 ^ k"
  have "(a * 2 ^ k) AND b = 0"
  proof (rule bit_eqI)
    fix i
    have "take_bit k b = b" using b by (simp add: take_bit_nat_eq_self_iff)
    then have "bit b i \<Longrightarrow> i < k" by (metis bit_take_bit_iff)
    then show "bit ((a * 2 ^ k) AND b) i = bit (0::nat) i"
      by (auto simp: bit_simps push_bit_eq_mult [symmetric])
  qed
  then show ?thesis using disjunctive_add_eq_or [of "a * 2 ^ k" b] by simp
qed

lemma getLinearAddress_eq:
  assumes "ahl_core_list h \<noteq> []" "address < 2 ^ 64"
  shows "getLinearAddress h address =
    Inr (address div 2 ^ ahl_param h div length (ahl_core_list h) * 2 ^ ahl_param h + address mod 2 ^ ahl_param h)"
proof -
  let ?k = "ahl_param h" let ?b = "address div 2 ^ ?k div length (ahl_core_list h)"
  have "?b * 2 ^ ?k \<le> address div 2 ^ ?k * 2 ^ ?k" by (intro mult_right_mono div_le_dividend) simp
  also have "\<dots> \<le> address" by (rule div_times_less_eq_dividend)
  finally have "mul64 ?b (2 ^ ?k) = ?b * 2 ^ ?k" using assms(2) by (simp add: mul64_def)
  moreover have "address AND (2 ^ ?k - 1) = address mod 2 ^ ?k"
    by (metis mask_eq_exp_minus_1 take_bit_eq_mask take_bit_eq_mod)
  ultimately show ?thesis using assms(1) by (simp add: getLinearAddress_def getLinearBlock_def or_disjoint)
qed

text \<open>
  The home of an address and its linear address determine the address: two
  addresses with the same home have different linear addresses, so that the caches
  and directories that are indexed by linear addresses do not confuse them.
\<close>

lemma home_split_injective:
  assumes "distinct (ahl_core_list h)" "ahl_core_list h \<noteq> []" "a < 2 ^ 64" "b < 2 ^ 64"
    and "getHome h a = getHome h b" "a \<noteq> b"
  shows "getLinearAddress h a \<noteq> getLinearAddress h b"
proof
  let ?k = "ahl_param h" let ?n = "length (ahl_core_list h)"
  assume lin: "getLinearAddress h a = getLinearAddress h b"
  have n: "0 < ?n" using assms(2) by simp
  have "a div 2 ^ ?k mod ?n = b div 2 ^ ?k mod ?n"
    using assms(1,5) n nth_eq_iff_index_eq [OF assms(1)] by (simp add: getHome_def Let_def)
  moreover have eq: "a div 2 ^ ?k div ?n * 2 ^ ?k + a mod 2 ^ ?k = b div 2 ^ ?k div ?n * 2 ^ ?k + b mod 2 ^ ?k"
    using lin getLinearAddress_eq [OF assms(2)] assms(3,4) by simp
  have "a div 2 ^ ?k div ?n = b div 2 ^ ?k div ?n" "a mod 2 ^ ?k = b mod 2 ^ ?k"
    using arg_cong [OF eq, of "\<lambda>x. x div 2 ^ ?k"] arg_cong [OF eq, of "\<lambda>x. x mod 2 ^ ?k"] by simp_all
  ultimately have "a = b" by (metis div_mult_mod_eq)
  with assms(6) show False by simp
qed

section \<open>Directory entries\<close>

datatype dstate = D_UNCACHED | D_SHARED | D_OWNED | D_MODIFIED | D_EXCLUSIVE

datatype directory_type = FULL_MAP | LIMITED_NO_BROADCAST | LIMITLESS

datatype coherency_protocol = MSI | MESI | MESIF

text \<open>
  The configuration of a directory controller. \<open>cfg_forwarder0\<close> is what memory holds
  where the constructor of an entry leaves the forwarder uninitialised.
\<close>

record dir_config =
  cfg_type :: directory_type
  cfg_total_entries :: nat
  cfg_associativity :: nat
  cfg_block_size :: nat
  cfg_max_hw_sharers :: nat
  cfg_max_num_sharers :: nat
  cfg_protocol :: coherency_protocol
  cfg_forwarder0 :: "nat option"
  cfg_home :: home_lookup

record dir_entry =
  de_address :: u64
  de_dstate :: dstate
  de_owner :: "nat option"
  de_forwarder :: "nat option"
  de_sharers :: "bool list"
  de_trap :: bool
  de_seed :: nat

text \<open>\<open>createDirectoryEntry\<close> chooses the smallest bit set that holds the sharers.\<close>

definition sharers_size :: "nat \<Rightarrow> nat" where
  "sharers_size max_num =
     (if max_num \<le> 64 then 64 else if max_num \<le> 128 then 128 else if max_num \<le> 256 then 256
      else if max_num \<le> 1024 then 1024 else max_num)"

definition createDirectoryEntry :: "dir_config \<Rightarrow> dir_entry" where
  "createDirectoryEntry cfg =
     \<lparr> de_address = minus1_64, de_dstate = D_UNCACHED, de_owner = None, de_forwarder = cfg_forwarder0 cfg,
       de_sharers = replicate (sharers_size (cfg_max_num_sharers cfg)) False, de_trap = False, de_seed = 1 \<rparr>"

definition getMaxHwSharers :: "dir_config \<Rightarrow> nat" where
  "getMaxHwSharers cfg = (if cfg_type cfg = FULL_MAP then cfg_max_num_sharers cfg else cfg_max_hw_sharers cfg)"

definition hasSharer :: "dir_entry \<Rightarrow> nat \<Rightarrow> bool outcome" where
  "hasSharer e c = (if c < length (de_sharers e) then Inr (de_sharers e ! c) else Inl Undefined_Behaviour)"

definition getSharersList :: "dir_entry \<Rightarrow> nat list" where
  "getSharersList e = filter (\<lambda>c. de_sharers e ! c) [0..<length (de_sharers e)]"

definition getNumSharers :: "dir_entry \<Rightarrow> nat" where
  "getNumSharers e = length (filter id (de_sharers e))"

text \<open>
  \<open>addSharer\<close>: a limited entry refuses when it is full; a limitless entry compares
  the size of the bit set, which never changes, with the number of hardware pointers.
\<close>

definition addSharer_limitless :: "dir_config \<Rightarrow> dir_entry \<Rightarrow> nat \<Rightarrow> dir_entry" where
  "addSharer_limitless cfg e c =
     e\<lparr>de_trap := de_trap e \<or> length (de_sharers e) = getMaxHwSharers cfg, de_sharers := (de_sharers e)[c := True]\<rparr>"

definition addSharer :: "dir_config \<Rightarrow> dir_entry \<Rightarrow> nat \<Rightarrow> (bool \<times> dir_entry) outcome" where
  "addSharer cfg e c =
     (case hasSharer e c of
        Inl err \<Rightarrow> Inl err
      | Inr present \<Rightarrow>
          if present then Inl Assertion_Failed
          else if cfg_type cfg = LIMITLESS
          then Inr (True, addSharer_limitless cfg e c)
          else if getMaxHwSharers cfg \<le> getNumSharers e then Inr (False, e)
          else Inr (True, e\<lparr>de_sharers := (de_sharers e)[c := True]\<rparr>))"

definition removeSharer :: "dir_entry \<Rightarrow> nat \<Rightarrow> dir_entry outcome" where
  "removeSharer e c =
     (case hasSharer e c of
        Inl err \<Rightarrow> Inl err
      | Inr present \<Rightarrow> if present then Inr (e\<lparr>de_sharers := (de_sharers e)[c := False]\<rparr>) else Inl Assertion_Failed)"

definition setOwner :: "dir_entry \<Rightarrow> nat option \<Rightarrow> dir_entry outcome" where
  "setOwner e owner =
     (case owner of
        None \<Rightarrow> Inr (e\<lparr>de_owner := None\<rparr>)
      | Some c \<Rightarrow> (case hasSharer e c of
                    Inl err \<Rightarrow> Inl err
                  | Inr present \<Rightarrow> if present then Inr (e\<lparr>de_owner := Some c\<rparr>) else Inl Assertion_Failed))"

text \<open>\<open>getOneSharer\<close>: the first sharer, or one chosen by the generator of the entry.\<close>

definition random_next :: "nat \<Rightarrow> nat \<Rightarrow> nat \<times> nat" where
  "random_next seed limit = (let seed' = (seed * 1103515245 + 12345) mod 2 ^ 32 in (seed' div 65536 mod limit, seed'))"

definition getOneSharer :: "dir_config \<Rightarrow> dir_entry \<Rightarrow> (nat \<times> dir_entry) outcome" where
  "getOneSharer cfg e =
     (case getSharersList e of
        [] \<Rightarrow> Inl Assertion_Failed
      | c # cs \<Rightarrow>
          if cfg_type cfg = LIMITLESS then Inr (c, e)
          else let (i, seed') = random_next (de_seed e) (length (c # cs)) in Inr ((c # cs) ! i, e\<lparr>de_seed := seed'\<rparr>))"

section \<open>Sharers as a set\<close>

definition sharers :: "dir_entry \<Rightarrow> nat set" where
  "sharers e = {c. c < length (de_sharers e) \<and> de_sharers e ! c}"

lemma hasSharer_iff: "hasSharer e c = Inr r \<longleftrightarrow> c < length (de_sharers e) \<and> (r \<longleftrightarrow> c \<in> sharers e)"
  by (auto simp: hasSharer_def sharers_def)

lemma set_getSharersList [simp]: "set (getSharersList e) = sharers e"
  by (auto simp: getSharersList_def sharers_def)

lemma distinct_getSharersList [simp]: "distinct (getSharersList e)"
  by (simp add: getSharersList_def)

lemma finite_sharers [simp]: "finite (sharers e)"
  by (simp add: sharers_def)

lemma getNumSharers_length: "getNumSharers e = length (getSharersList e)"
proof -
  have "map (\<lambda>c. de_sharers e ! c) [0..<length (de_sharers e)] = de_sharers e" by (rule map_nth)
  then have "getNumSharers e = length (filter id (map (\<lambda>c. de_sharers e ! c) [0..<length (de_sharers e)]))"
    by (simp add: getNumSharers_def)
  then show ?thesis by (simp add: getSharersList_def filter_map o_def)
qed

lemma getNumSharers_card: "getNumSharers e = card (sharers e)"
  by (metis distinct_card distinct_getSharersList getNumSharers_length set_getSharersList)

lemma getNumSharers_0 [simp]: "getNumSharers e = 0 \<longleftrightarrow> sharers e = {}"
  by (simp add: getNumSharers_card)

lemma sharers_update:
  "c < length (de_sharers e) \<Longrightarrow> sharers (e\<lparr>de_sharers := (de_sharers e)[c := b]\<rparr>) = (if b then insert c (sharers e) else sharers e - {c})"
  by (auto simp: sharers_def nth_list_update)

lemma sharers_sel [simp]: "sharers (e\<lparr>de_dstate := s\<rparr>) = sharers e" "sharers (e\<lparr>de_owner := w\<rparr>) = sharers e"
  "sharers (e\<lparr>de_forwarder := f\<rparr>) = sharers e" "sharers (e\<lparr>de_seed := r\<rparr>) = sharers e" "sharers (e\<lparr>de_address := a\<rparr>) = sharers e"
  by (simp_all add: sharers_def)

lemma sharers_new [simp]: "sharers (createDirectoryEntry cfg) = {}"
  by (simp add: sharers_def createDirectoryEntry_def)

lemma addSharer_Inr:
  assumes "addSharer cfg e c = Inr (r, e')"
  shows "c \<notin> sharers e \<and> c < length (de_sharers e) \<and> (r \<longrightarrow> sharers e' = insert c (sharers e)) \<and> (\<not> r \<longrightarrow> e' = e) \<and>
    de_dstate e' = de_dstate e \<and> de_owner e' = de_owner e \<and> de_forwarder e' = de_forwarder e \<and> de_address e' = de_address e \<and>
    length (de_sharers e') = length (de_sharers e)"
  using assms by (auto simp: addSharer_def addSharer_limitless_def hasSharer_iff sharers_update sharers_def nth_list_update split: sum.splits if_splits)

lemma removeSharer_Inr:
  "removeSharer e c = Inr e' \<longleftrightarrow> c \<in> sharers e \<and> e' = e\<lparr>de_sharers := (de_sharers e)[c := False]\<rparr>"
  by (auto simp: removeSharer_def hasSharer_def sharers_def)

lemma sharers_remove [simp]: "c \<in> sharers e \<Longrightarrow> sharers (e\<lparr>de_sharers := (de_sharers e)[c := False]\<rparr>) = sharers e - {c}"
  by (auto simp: sharers_def nth_list_update)

lemma setOwner_None [simp]: "setOwner e None = Inr (e\<lparr>de_owner := None\<rparr>)"
  by (simp add: setOwner_def)

lemma setOwner_Some: "setOwner e (Some c) = Inr e' \<longleftrightarrow> c \<in> sharers e \<and> e' = e\<lparr>de_owner := Some c\<rparr>"
  by (auto simp: setOwner_def hasSharer_def sharers_def)

lemma getOneSharer_Inr: "getOneSharer cfg e = Inr (c, e') \<Longrightarrow> c \<in> sharers e \<and> e' = e\<lparr>de_seed := de_seed e'\<rparr>"
proof -
  assume r: "getOneSharer cfg e = Inr (c, e')"
  then obtain x xs where l: "getSharersList e = x # xs" by (auto simp: getOneSharer_def split: list.splits)
  then have s: "sharers e = set (x # xs)" by (metis set_getSharersList)
  have "fst (random_next s n) < n" if "0 < n" for s n using that by (simp add: random_next_def Let_def)
  then have "(x # xs) ! fst (random_next (de_seed e) (length (x # xs))) \<in> set (x # xs)" by (intro nth_mem) simp
  then show ?thesis using r l s by (auto simp: getOneSharer_def Let_def split: if_splits prod.splits)
qed

section \<open>The directory cache\<close>

text \<open>
  Entries that have not been created yet are \<open>None\<close>; reading one creates it. An entry
  that is being evicted lives in \<open>dc_replaced\<close> until its line is nullified.
\<close>

record dir_cache =
  dc_slots :: "dir_entry option list"
  dc_replacement_ptrs :: "nat list"
  dc_replaced :: "u64 \<Rightarrow> dir_entry option"

datatype place = In_Slot nat | In_Replaced

definition dir_num_sets :: "dir_config \<Rightarrow> nat" where
  "dir_num_sets cfg = cfg_total_entries cfg div cfg_associativity cfg"

text \<open>The replacement pointers are allocated without a value.\<close>

definition dir_cache_new :: "dir_config \<Rightarrow> nat list \<Rightarrow> dir_cache outcome" where
  "dir_cache_new cfg ptrs0 =
     (if cfg_associativity cfg = 0 then Inl Undefined_Behaviour
      else Inr \<lparr> dc_slots = replicate (cfg_total_entries cfg) None, dc_replacement_ptrs = ptrs0, dc_replaced = (\<lambda>_. None) \<rparr>)"

definition slot_entry :: "dir_config \<Rightarrow> dir_cache \<Rightarrow> nat \<Rightarrow> dir_entry" where
  "slot_entry cfg dc k = (case dc_slots dc ! k of None \<Rightarrow> createDirectoryEntry cfg | Some e \<Rightarrow> e)"

definition dir_set_index :: "dir_config \<Rightarrow> u64 \<Rightarrow> nat" where
  "dir_set_index cfg address =
     (let block = address div 2 ^ nat (floorLog2 (cfg_block_size cfg));
          xor_hash = block XOR (block div 2 ^ nat (floorLog2 (dir_num_sets cfg)))
      in (xor_hash mod 2 ^ 32) AND ((dir_num_sets cfg + 2 ^ 32 - 1) mod 2 ^ 32))"

definition set_slots :: "dir_config \<Rightarrow> u64 \<Rightarrow> nat list" where
  "set_slots cfg address = map (\<lambda>i. dir_set_index cfg address * cfg_associativity cfg + i) [0..<cfg_associativity cfg]"

text \<open>\<open>getDirectoryEntry\<close>: the place of the entry; a free slot is taken for the address.\<close>

definition getDirectoryEntry :: "dir_config \<Rightarrow> dir_cache \<Rightarrow> u64 \<Rightarrow> (place option \<times> dir_cache) outcome" where
  "getDirectoryEntry cfg dc address =
     (if \<exists>k \<in> set (set_slots cfg address). length (dc_slots dc) \<le> k then Inl Assertion_Failed
      else case find (\<lambda>k. de_address (slot_entry cfg dc k) = address) (set_slots cfg address) of
        Some k \<Rightarrow> Inr (Some (In_Slot k), dc\<lparr>dc_slots := (dc_slots dc)[k := Some (slot_entry cfg dc k)]\<rparr>)
      | None \<Rightarrow>
          (case find (\<lambda>k. de_address (slot_entry cfg dc k) = minus1_64) (set_slots cfg address) of
             Some k \<Rightarrow> Inr (Some (In_Slot k), dc\<lparr>dc_slots := (dc_slots dc)[k := Some ((slot_entry cfg dc k)\<lparr>de_address := address\<rparr>)]\<rparr>)
           | None \<Rightarrow> Inr (if dc_replaced dc address = None then None else Some In_Replaced, dc)))"

definition entry_at :: "dir_config \<Rightarrow> dir_cache \<Rightarrow> u64 \<Rightarrow> place \<Rightarrow> dir_entry" where
  "entry_at cfg dc address p = (case p of In_Slot k \<Rightarrow> slot_entry cfg dc k | In_Replaced \<Rightarrow> the (dc_replaced dc address))"

definition put_entry :: "dir_cache \<Rightarrow> u64 \<Rightarrow> place \<Rightarrow> dir_entry \<Rightarrow> dir_cache" where
  "put_entry dc address p e =
     (case p of In_Slot k \<Rightarrow> dc\<lparr>dc_slots := (dc_slots dc)[k := Some e]\<rparr> | In_Replaced \<Rightarrow> dc\<lparr>dc_replaced := (dc_replaced dc)(address \<mapsto> e)\<rparr>)"

text \<open>\<open>getReplacementCandidates\<close>: the slots of the set, starting at the replacement pointer.\<close>

definition getReplacementCandidates :: "dir_config \<Rightarrow> dir_cache \<Rightarrow> u64 \<Rightarrow> (nat list \<times> dir_cache) outcome" where
  "getReplacementCandidates cfg dc address =
     (case getDirectoryEntry cfg dc address of
        Inl err \<Rightarrow> Inl err
      | Inr (p, dc1) \<Rightarrow>
          if p \<noteq> None then Inl Assertion_Failed
          else let s = dir_set_index cfg address; ptr = dc_replacement_ptrs dc ! s in
               if length (dc_replacement_ptrs dc) \<le> s then Inl Undefined_Behaviour
               else Inr (map (\<lambda>i. s * cfg_associativity cfg + (i + ptr) mod 2 ^ 32 mod cfg_associativity cfg) [0..<cfg_associativity cfg],
                         dc1\<lparr>dc_replacement_ptrs := (dc_replacement_ptrs dc1)[s := add32 ptr 1]\<rparr>))"

definition replaceDirectoryEntry :: "dir_config \<Rightarrow> dir_cache \<Rightarrow> u64 \<Rightarrow> u64 \<Rightarrow> (nat \<times> dir_cache) outcome" where
  "replaceDirectoryEntry cfg dc replaced_address address =
     (if \<exists>k \<in> set (set_slots cfg replaced_address). length (dc_slots dc) \<le> k then Inl Assertion_Failed
      else case find (\<lambda>k. de_address (slot_entry cfg dc k) = replaced_address) (set_slots cfg replaced_address) of
        None \<Rightarrow> Inl Assertion_Failed
      | Some k \<Rightarrow> Inr (k, dc\<lparr>dc_replaced := (dc_replaced dc)(replaced_address \<mapsto> slot_entry cfg dc k),
                            dc_slots := (dc_slots dc)[k := Some ((createDirectoryEntry cfg)\<lparr>de_address := address\<rparr>)]\<rparr>))"

definition invalidateDirectoryEntry :: "dir_cache \<Rightarrow> u64 \<Rightarrow> dir_cache outcome" where
  "invalidateDirectoryEntry dc address =
     (if dc_replaced dc address = None then Inl Assertion_Failed
      else Inr (dc\<lparr>dc_replaced := (dc_replaced dc)(address := None)\<rparr>))"

end
