(* ===== verification/Directory_Cntlr.thy ===== *)
theory Directory_Cntlr
  imports Directory
begin

text \<open>
  The directory controller of the MSI, MESI and MESIF protocols
  (\<open>dram_directory_cntlr.cc\<close>) without a NUCA cache: requests of the last-level caches
  are queued per address and served one at a time; replies of the caches and of the
  memory let the request at the front of a queue go on. Messages are collected in the
  order in which they are sent. Latencies, statistics and block types are left out.
\<close>

section \<open>Messages and requests\<close>

datatype msg_t = EX_REQ | SH_REQ | UPGRADE_REQ | INV_REQ | FLUSH_REQ | WB_REQ | EX_REP | SH_REP | UPGRADE_REP
  | INV_REP | FLUSH_REP | WB_REP | NULLIFY_REQ | DRAM_READ_REQ | DRAM_WRITE_REQ | DRAM_READ_REP

record 'd shmem_msg =
  sm_type :: msg_t
  sm_requester :: nat
  sm_receiver :: nat
  sm_address :: u64
  sm_data :: "'d option"

record 'd shmem_req =
  rq_type :: msg_t
  rq_requester :: nat
  rq_data :: "'d option"
  rq_wait :: bool
  rq_forwarding_from :: "nat option"

definition mk_msg :: "msg_t \<Rightarrow> nat \<Rightarrow> nat \<Rightarrow> u64 \<Rightarrow> 'd option \<Rightarrow> 'd shmem_msg" where
  "mk_msg t requester receiver a d = \<lparr> sm_type = t, sm_requester = requester, sm_receiver = receiver, sm_address = a, sm_data = d \<rparr>"

definition shmem_req_new :: "msg_t \<Rightarrow> nat \<Rightarrow> 'd shmem_req" where
  "shmem_req_new t requester = \<lparr> rq_type = t, rq_requester = requester, rq_data = None, rq_wait = False, rq_forwarding_from = None \<rparr>"

section \<open>Serving the front request of one line\<close>

text \<open>
  The result of serving a request: the directory entry, the request, the messages in
  the order of sending, and whether the request is complete, so that
  \<open>processNextReqFromL2Cache\<close> is called. All calls of that function are in tail position.
\<close>

type_synonym 'd line_result = "(dir_entry \<times> 'd shmem_req \<times> 'd shmem_msg list \<times> bool) outcome"

definition retrieveDataAndSendToL2Cache ::
  "dir_config \<Rightarrow> msg_t \<Rightarrow> u64 \<Rightarrow> dir_entry \<Rightarrow> 'd shmem_req \<Rightarrow> 'd option \<Rightarrow> 'd line_result" where
  "retrieveDataAndSendToL2Cache cfg reply a e rq cached =
     (let receiver = rq_requester rq in
      case cached of
        Some d \<Rightarrow> Inr (e\<lparr>de_forwarder := Some receiver\<rparr>, rq, [mk_msg reply receiver receiver a (Some d)], True)
      | None \<Rightarrow>
          if cfg_protocol cfg = MESIF \<and> rq_forwarding_from rq = None \<and> de_dstate e = D_SHARED \<and> de_forwarder e \<noteq> None
          then Inr (e, rq\<lparr>rq_forwarding_from := de_forwarder e\<rparr>, [mk_msg WB_REQ receiver (the (de_forwarder e)) a None], False)
          else map_sum id (\<lambda>node. (e, rq\<lparr>rq_wait := True\<rparr>, [mk_msg DRAM_READ_REQ receiver node a None], False))
                 (getHome (cfg_home cfg) a))"

text \<open>A message to the owner; a message to \<open>INVALID_CORE_ID\<close> has no receiver.\<close>

definition ask_owner :: "msg_t \<Rightarrow> u64 \<Rightarrow> dir_entry \<Rightarrow> 'd shmem_req \<Rightarrow> 'd line_result" where
  "ask_owner t a e rq =
     (case de_owner e of
        None \<Rightarrow> Inl Undefined_Behaviour
      | Some w \<Rightarrow> Inr (e, rq, [mk_msg t (rq_requester rq) w a None], False))"

definition invalidate_sharers :: "u64 \<Rightarrow> dir_entry \<Rightarrow> 'd shmem_req \<Rightarrow> 'd line_result" where
  "invalidate_sharers a e rq = Inr (e, rq, map (\<lambda>c. mk_msg INV_REQ (rq_requester rq) c a None) (getSharersList e), False)"

text \<open>The requester becomes the only sharer and the owner.\<close>

definition take_line :: "dir_config \<Rightarrow> dir_entry \<Rightarrow> nat \<Rightarrow> dstate \<Rightarrow> dir_entry outcome" where
  "take_line cfg e c s =
     (case addSharer cfg e c of
        Inl err \<Rightarrow> Inl err
      | Inr (added, e1) \<Rightarrow>
          if \<not> added then Inl Assertion_Failed
          else map_sum id (\<lambda>e2. e2\<lparr>de_dstate := s\<rparr>) (setOwner e1 (Some c)))"

definition processExReqFromL2Cache :: "dir_config \<Rightarrow> u64 \<Rightarrow> dir_entry \<Rightarrow> 'd shmem_req \<Rightarrow> 'd option \<Rightarrow> 'd line_result" where
  "processExReqFromL2Cache cfg a e rq cached =
     (case de_dstate e of
        D_EXCLUSIVE \<Rightarrow> if cached \<noteq> None then Inl Assertion_Failed else ask_owner FLUSH_REQ a e rq
      | D_MODIFIED \<Rightarrow> if cached \<noteq> None then Inl Assertion_Failed else ask_owner FLUSH_REQ a e rq
      | D_SHARED \<Rightarrow> if cached \<noteq> None then Inl Assertion_Failed else invalidate_sharers a e rq
      | D_UNCACHED \<Rightarrow>
          (case take_line cfg e (rq_requester rq) D_MODIFIED of
             Inl err \<Rightarrow> Inl err
           | Inr e1 \<Rightarrow> retrieveDataAndSendToL2Cache cfg EX_REP a e1 rq cached)
      | D_OWNED \<Rightarrow> Inl Assertion_Failed)"

definition processShReqFromL2Cache :: "dir_config \<Rightarrow> u64 \<Rightarrow> dir_entry \<Rightarrow> 'd shmem_req \<Rightarrow> 'd option \<Rightarrow> 'd line_result" where
  "processShReqFromL2Cache cfg a e rq cached =
     (case de_dstate e of
        D_EXCLUSIVE \<Rightarrow>
          if de_owner e = Some (rq_requester rq) \<or> cached \<noteq> None then Inl Assertion_Failed else ask_owner WB_REQ a e rq
      | D_MODIFIED \<Rightarrow> if cached \<noteq> None then Inl Assertion_Failed else ask_owner WB_REQ a e rq
      | D_SHARED \<Rightarrow>
          (case hasSharer e (rq_requester rq) of
             Inl err \<Rightarrow> Inl err
           | Inr True \<Rightarrow> retrieveDataAndSendToL2Cache cfg SH_REP a e rq cached
           | Inr False \<Rightarrow>
               (case addSharer cfg e (rq_requester rq) of
                  Inl err \<Rightarrow> Inl err
                | Inr (True, e1) \<Rightarrow> retrieveDataAndSendToL2Cache cfg SH_REP a e1 rq cached
                | Inr (False, e1) \<Rightarrow>
                    map_sum id (\<lambda>(c, e2). (e2, rq, [mk_msg INV_REQ (rq_requester rq) c a None], False)) (getOneSharer cfg e1)))
      | D_UNCACHED \<Rightarrow>
          (case take_line cfg e (rq_requester rq) (if cfg_protocol cfg = MSI then D_SHARED else D_EXCLUSIVE) of
             Inl err \<Rightarrow> Inl err
           | Inr e1 \<Rightarrow> retrieveDataAndSendToL2Cache cfg (if cfg_protocol cfg = MSI then SH_REP else EX_REP) a e1 rq cached)
      | D_OWNED \<Rightarrow> Inl Assertion_Failed)"

definition upgrade_reply :: "u64 \<Rightarrow> dir_entry \<Rightarrow> 'd shmem_req \<Rightarrow> 'd line_result" where
  "upgrade_reply a e rq =
     Inr (e\<lparr>de_dstate := D_MODIFIED\<rparr>, rq, [mk_msg UPGRADE_REP (rq_requester rq) (rq_requester rq) a None], True)"

text \<open>
  The invalidations of an upgrade: every sharer but the requester; when the requester
  has lost its copy the first sharer of the list is asked for the data.
\<close>

definition upgrade_invalidations :: "u64 \<Rightarrow> nat \<Rightarrow> bool \<Rightarrow> nat list \<Rightarrow> 'd shmem_msg list" where
  "upgrade_invalidations a requester has_copy cs =
     map (\<lambda>(i, c). mk_msg (if \<not> has_copy \<and> i = 0 then FLUSH_REQ else INV_REQ) requester c a None)
       (filter (\<lambda>(i, c). c \<noteq> requester) (enumerate 0 cs))"

definition processUpgradeReqFromL2Cache :: "dir_config \<Rightarrow> u64 \<Rightarrow> dir_entry \<Rightarrow> 'd shmem_req \<Rightarrow> 'd option \<Rightarrow> 'd line_result" where
  "processUpgradeReqFromL2Cache cfg a e rq cached =
     (let requester = rq_requester rq; cs = getSharersList e;
          owned = (if cs = [] then Inl Undefined_Behaviour
                   else if hd cs = requester then (if de_owner e = Some requester then upgrade_reply a e rq else Inl Assertion_Failed)
                   else ask_owner FLUSH_REQ a e rq) in
      case de_dstate e of
        D_EXCLUSIVE \<Rightarrow> owned
      | D_MODIFIED \<Rightarrow> owned
      | D_SHARED \<Rightarrow>
          if cs = [requester]
          then (case setOwner e (Some requester) of Inl err \<Rightarrow> Inl err | Inr e1 \<Rightarrow> upgrade_reply a e1 rq)
          else map_sum id (\<lambda>has_copy. (e, rq, upgrade_invalidations a requester has_copy cs, False)) (hasSharer e requester)
      | D_UNCACHED \<Rightarrow>
          if cs \<noteq> [] then Inl Assertion_Failed
          else (case take_line cfg e requester D_MODIFIED of
                  Inl err \<Rightarrow> Inl err
                | Inr e1 \<Rightarrow> retrieveDataAndSendToL2Cache cfg EX_REP a e1 rq (if cached = None then rq_data rq else cached))
      | D_OWNED \<Rightarrow> Inl Assertion_Failed)"

definition processNullifyReq :: "u64 \<Rightarrow> dir_entry \<Rightarrow> 'd shmem_req \<Rightarrow> 'd line_result" where
  "processNullifyReq a e rq =
     (case de_dstate e of
        D_EXCLUSIVE \<Rightarrow> ask_owner FLUSH_REQ a e rq
      | D_MODIFIED \<Rightarrow> ask_owner FLUSH_REQ a e rq
      | D_SHARED \<Rightarrow> invalidate_sharers a e rq
      | D_UNCACHED \<Rightarrow> Inr (e, rq, [], True)
      | D_OWNED \<Rightarrow> Inl Assertion_Failed)"

definition process_line :: "dir_config \<Rightarrow> u64 \<Rightarrow> dir_entry \<Rightarrow> 'd shmem_req \<Rightarrow> 'd option \<Rightarrow> 'd line_result" where
  "process_line cfg a e rq cached =
     (case rq_type rq of
        EX_REQ \<Rightarrow> processExReqFromL2Cache cfg a e rq cached
      | SH_REQ \<Rightarrow> processShReqFromL2Cache cfg a e rq cached
      | UPGRADE_REQ \<Rightarrow> processUpgradeReqFromL2Cache cfg a e rq cached
      | NULLIFY_REQ \<Rightarrow> processNullifyReq a e rq
      | _ \<Rightarrow> Inl Assertion_Failed)"

section \<open>The controller\<close>

record 'd dir_cntlr =
  dn_cache :: dir_cache
  dn_queue :: "u64 \<Rightarrow> 'd shmem_req list"
  dn_sent :: "'d shmem_msg list"

text \<open>Serving the front request of an address whose entry is at a known place.\<close>

definition serve_at :: "dir_config \<Rightarrow> 'd dir_cntlr \<Rightarrow> u64 \<Rightarrow> place \<Rightarrow> 'd option \<Rightarrow> (bool \<times> 'd dir_cntlr) outcome" where
  "serve_at cfg st a p cached =
     (case dn_queue st a of
        [] \<Rightarrow> Inl Assertion_Failed
      | rq # rqs \<Rightarrow>
          (case process_line cfg a (entry_at cfg (dn_cache st) a p) rq cached of
             Inl err \<Rightarrow> Inl err
           | Inr (e, rq', ms, fin) \<Rightarrow>
               let dc = put_entry (dn_cache st) a p e;
                   st1 = st\<lparr>dn_cache := dc, dn_queue := (dn_queue st)(a := rq' # rqs), dn_sent := dn_sent st @ ms\<rparr> in
               if rq_type rq = NULLIFY_REQ \<and> fin
               then map_sum id (\<lambda>dc'. (True, st1\<lparr>dn_cache := dc'\<rparr>)) (invalidateDirectoryEntry dc a)
               else Inr (fin, st1)))"

text \<open>
  The replacement candidate with the fewest sharers among those without requests; the
  first of them in the order of the list.
\<close>

fun choose_candidate :: "(nat \<Rightarrow> nat) \<Rightarrow> (nat \<Rightarrow> bool) \<Rightarrow> nat option \<Rightarrow> nat list \<Rightarrow> nat option" where
  "choose_candidate num idle best [] = best"
| "choose_candidate num idle best (k # ks) =
     choose_candidate num idle
       (if (case best of None \<Rightarrow> True | Some b \<Rightarrow> num k < num b) \<and> idle k then Some k else best) ks"

text \<open>
  \<open>processDirectoryEntryAllocationReq\<close>: the queue of the replaced address holds
  only the nullify request, so when that completes at once it is dequeued and no
  further request is served.
\<close>

definition processDirectoryEntryAllocationReq ::
  "dir_config \<Rightarrow> 'd dir_cntlr \<Rightarrow> u64 \<Rightarrow> nat \<Rightarrow> (place \<times> 'd dir_cntlr) outcome" where
  "processDirectoryEntryAllocationReq cfg st a requester =
     (case getReplacementCandidates cfg (dn_cache st) a of
        Inl err \<Rightarrow> Inl err
      | Inr (ks, dc1) \<Rightarrow>
          (case choose_candidate (\<lambda>k. getNumSharers (slot_entry cfg dc1 k)) (\<lambda>k. dn_queue st (de_address (slot_entry cfg dc1 k)) = []) None ks of
             None \<Rightarrow> Inl Assertion_Failed
           | Some k \<Rightarrow>
               let b = de_address (slot_entry cfg dc1 k) in
               (case replaceDirectoryEntry cfg dc1 b a of
                  Inl err \<Rightarrow> Inl err
                | Inr (k', dc2) \<Rightarrow>
                    let q = dn_queue st b @ [shmem_req_new NULLIFY_REQ requester] in
                    if length q \<noteq> 1 then Inl Assertion_Failed
                    else (case getDirectoryEntry cfg dc2 b of
                            Inl err \<Rightarrow> Inl err
                          | Inr (None, _) \<Rightarrow> Inl Assertion_Failed
                          | Inr (Some p, dc3) \<Rightarrow>
                              map_sum id (\<lambda>(fin, st1). (In_Slot k', if fin then st1\<lparr>dn_queue := (dn_queue st1)(b := [])\<rparr> else st1))
                                (serve_at cfg (st\<lparr>dn_cache := dc3, dn_queue := (dn_queue st)(b := q)\<rparr>) b p None)))))"

text \<open>Serving the front request of an address, with the entry looked up or allocated.\<close>

definition process_front :: "dir_config \<Rightarrow> 'd dir_cntlr \<Rightarrow> u64 \<Rightarrow> 'd option \<Rightarrow> (bool \<times> 'd dir_cntlr) outcome" where
  "process_front cfg st a cached =
     (case dn_queue st a of
        [] \<Rightarrow> Inl Assertion_Failed
      | rq # _ \<Rightarrow>
          (case getDirectoryEntry cfg (dn_cache st) a of
             Inl err \<Rightarrow> Inl err
           | Inr (Some p, dc) \<Rightarrow> serve_at cfg (st\<lparr>dn_cache := dc\<rparr>) a p cached
           | Inr (None, dc) \<Rightarrow>
               if rq_type rq = NULLIFY_REQ then Inl Assertion_Failed
               else (case processDirectoryEntryAllocationReq cfg (st\<lparr>dn_cache := dc\<rparr>) a (rq_requester rq) of
                       Inl err \<Rightarrow> Inl err
                     | Inr (p, st1) \<Rightarrow> serve_at cfg st1 a p cached)))"

lemma serve_at_queue:
  assumes "serve_at cfg st a p cached = Inr (fin, st')"
  shows "length (dn_queue st' a) = length (dn_queue st a) \<and> (\<forall>b. b \<noteq> a \<longrightarrow> dn_queue st' b = dn_queue st b)"
  using assms by (auto simp: serve_at_def Let_def split: list.splits sum.splits prod.splits if_splits elim!: map_sum_InrE)

lemma choose_candidate_idle: "choose_candidate num idle best ks = Some k \<Longrightarrow> best = Some k \<or> idle k"
  by (induction ks arbitrary: best) (fastforce split: if_splits)+

lemma allocation_queue:
  assumes al: "processDirectoryEntryAllocationReq cfg st a requester = Inr (p, st')" and ne: "dn_queue st a \<noteq> []"
  shows "dn_queue st' a = dn_queue st a"
proof -
  from al obtain k ks dc1 q dc3 p' fin st1 where c:
    "choose_candidate (\<lambda>k. getNumSharers (slot_entry cfg dc1 k)) (\<lambda>k. dn_queue st (de_address (slot_entry cfg dc1 k)) = []) None ks = Some k"
    "serve_at cfg (st\<lparr>dn_cache := dc3, dn_queue := (dn_queue st)(de_address (slot_entry cfg dc1 k) := q)\<rparr>) (de_address (slot_entry cfg dc1 k)) p' None = Inr (fin, st1)"
    "dn_queue st' = dn_queue st1 \<or> dn_queue st' = (dn_queue st1)(de_address (slot_entry cfg dc1 k) := [])"
    by (auto simp: processDirectoryEntryAllocationReq_def Let_def split: sum.splits prod.splits option.splits if_splits elim!: map_sum_InrE)
  have "dn_queue st (de_address (slot_entry cfg dc1 k)) = []" using choose_candidate_idle [OF c(1)] by simp
  then have "de_address (slot_entry cfg dc1 k) \<noteq> a" using ne by auto
  with c(3) serve_at_queue [OF c(2)] show ?thesis by auto
qed

lemma process_front_queue:
  assumes "process_front cfg st a cached = Inr (fin, st')"
  shows "length (dn_queue st' a) = length (dn_queue st a)"
proof -
  obtain rq rqs where q: "dn_queue st a = rq # rqs" using assms by (cases "dn_queue st a") (auto simp: process_front_def)
  then have ne: "dn_queue st a \<noteq> []" by simp
  show ?thesis using assms q ne allocation_queue [of cfg "st\<lparr>dn_cache := dc\<rparr>" a "rq_requester rq" for dc]
    by (auto simp: process_front_def split: sum.splits prod.splits option.splits if_splits dest!: serve_at_queue)
qed

text \<open>
  \<open>processNextReqFromL2Cache\<close>: the request that is complete leaves the queue and the
  next one is served; that may complete at once and call the function again.
\<close>

function processNextReqFromL2Cache :: "dir_config \<Rightarrow> 'd dir_cntlr \<Rightarrow> u64 \<Rightarrow> 'd dir_cntlr outcome" where
  "processNextReqFromL2Cache cfg st a =
     (case dn_queue st a of
        [] \<Rightarrow> Inl Assertion_Failed
      | rq # rqs \<Rightarrow>
          let st1 = st\<lparr>dn_queue := (dn_queue st)(a := rqs)\<rparr> in
          if rqs = [] then Inr st1
          else (case process_front cfg st1 a None of
                  Inl err \<Rightarrow> Inl err
                | Inr (fin, st2) \<Rightarrow> if fin then processNextReqFromL2Cache cfg st2 a else Inr st2))"
  by pat_completeness auto
termination
proof (relation "measure (\<lambda>(cfg, st, a). length (dn_queue st a))")
  fix cfg st a rq rqs st1 r fin st2
  assume "dn_queue st a = rq # rqs" "st1 = st\<lparr>dn_queue := (dn_queue st)(a := rqs)\<rparr>" "process_front cfg st1 a None = Inr r" "(fin, st2) = r"
  then show "((cfg, st2, a), (cfg, st, a)) \<in> measure (\<lambda>(cfg, st, a). length (dn_queue st a))"
    using process_front_queue [of cfg st1 a None fin st2] by simp
qed simp

declare processNextReqFromL2Cache.simps [simp del]

text \<open>Serving the front request and, when it is complete, the ones behind it.\<close>

definition serve :: "dir_config \<Rightarrow> 'd dir_cntlr \<Rightarrow> u64 \<Rightarrow> 'd option \<Rightarrow> 'd dir_cntlr outcome" where
  "serve cfg st a cached =
     (case process_front cfg st a cached of
        Inl err \<Rightarrow> Inl err
      | Inr (fin, st1) \<Rightarrow> if fin then processNextReqFromL2Cache cfg st1 a else Inr st1)"

section \<open>Replies of the caches\<close>

definition send_msgs :: "'d dir_cntlr \<Rightarrow> 'd shmem_msg list \<Rightarrow> 'd dir_cntlr" where
  "send_msgs st ms = st\<lparr>dn_sent := dn_sent st @ ms\<rparr>"

definition sendDataToDram :: "dir_config \<Rightarrow> 'd dir_cntlr \<Rightarrow> u64 \<Rightarrow> nat \<Rightarrow> 'd option \<Rightarrow> 'd dir_cntlr outcome" where
  "sendDataToDram cfg st a requester d =
     map_sum id (\<lambda>node. send_msgs st [mk_msg DRAM_WRITE_REQ requester node a d]) (getHome (cfg_home cfg) a)"

text \<open>What an \<open>INV_REP\<close> and a \<open>FLUSH_REP\<close> do to the entry.\<close>

definition inv_entry :: "dir_entry \<Rightarrow> nat \<Rightarrow> dir_entry outcome" where
  "inv_entry e sender =
     (if de_dstate e \<noteq> D_SHARED \<and> de_dstate e \<noteq> D_EXCLUSIVE then Inl Assertion_Failed
      else map_sum id (\<lambda>e1.
             let e2 = (if de_forwarder e1 = Some sender then e1\<lparr>de_forwarder := None\<rparr> else e1)
             in if getNumSharers e2 = 0 then e2\<lparr>de_dstate := D_UNCACHED\<rparr> else e2)
           (removeSharer e sender))"

definition flush_entry :: "dir_entry \<Rightarrow> nat \<Rightarrow> dir_entry outcome" where
  "flush_entry e sender =
     (case removeSharer e sender of
        Inl err \<Rightarrow> Inl err
      | Inr e1 \<Rightarrow>
          let e2 = e1\<lparr>de_forwarder := None, de_owner := None\<rparr> in
          if getNumSharers e2 = 0 then Inr (e2\<lparr>de_dstate := D_UNCACHED\<rparr>)
          else if de_dstate e2 = D_SHARED then Inr e2 else Inl Assertion_Failed)"

definition wb_entry :: "dir_entry \<Rightarrow> nat \<Rightarrow> dir_entry outcome" where
  "wb_entry e sender =
     (case hasSharer e sender of
        Inl err \<Rightarrow> Inl err
      | Inr present \<Rightarrow> if present then Inr (e\<lparr>de_owner := None, de_dstate := D_SHARED\<rparr>) else Inl Assertion_Failed)"

text \<open>Whether an \<open>INV_REP\<close> lets the front request go on.\<close>

definition inv_wakes :: "dir_entry \<Rightarrow> 'd shmem_req \<Rightarrow> nat \<Rightarrow> bool outcome" where
  "inv_wakes e rq sender =
     (case rq_type rq of
        EX_REQ \<Rightarrow> Inr (de_dstate e = D_UNCACHED)
      | UPGRADE_REQ \<Rightarrow>
          if getNumSharers e = 1 then hasSharer e (rq_requester rq) else Inr (getNumSharers e = 0)
      | SH_REQ \<Rightarrow>
          Inr (\<not> rq_wait rq \<and> \<not> (rq_forwarding_from rq \<noteq> None \<and> rq_forwarding_from rq \<noteq> Some sender))
      | _ \<Rightarrow> Inr (de_dstate e = D_UNCACHED))"

text \<open>The entry of an address for a reply: looked up, changed and stored.\<close>

definition change_entry ::
  "dir_config \<Rightarrow> 'd dir_cntlr \<Rightarrow> u64 \<Rightarrow> (dir_entry \<Rightarrow> dir_entry outcome) \<Rightarrow> (dir_entry \<times> 'd dir_cntlr) outcome" where
  "change_entry cfg st a f =
     (case getDirectoryEntry cfg (dn_cache st) a of
        Inl err \<Rightarrow> Inl err
      | Inr (None, _) \<Rightarrow> Inl Assertion_Failed
      | Inr (Some p, dc) \<Rightarrow> map_sum id (\<lambda>e. (e, st\<lparr>dn_cache := put_entry dc a p e\<rparr>)) (f (entry_at cfg dc a p)))"

definition processInvRepFromL2Cache :: "dir_config \<Rightarrow> 'd dir_cntlr \<Rightarrow> nat \<Rightarrow> u64 \<Rightarrow> 'd dir_cntlr outcome" where
  "processInvRepFromL2Cache cfg st sender a =
     (case change_entry cfg st a (\<lambda>e. inv_entry e sender) of
        Inl err \<Rightarrow> Inl err
      | Inr (e, st1) \<Rightarrow>
          (case dn_queue st1 a of
             [] \<Rightarrow> Inr st1
           | rq # _ \<Rightarrow>
               (case inv_wakes e rq sender of
                  Inl err \<Rightarrow> Inl err
                | Inr wake \<Rightarrow> if wake then serve cfg st1 a None else Inr st1)))"

definition processFlushRepFromL2Cache :: "dir_config \<Rightarrow> 'd dir_cntlr \<Rightarrow> nat \<Rightarrow> nat \<Rightarrow> u64 \<Rightarrow> 'd option \<Rightarrow> 'd dir_cntlr outcome" where
  "processFlushRepFromL2Cache cfg st sender requester a d =
     (case change_entry cfg st a (\<lambda>e. flush_entry e sender) of
        Inl err \<Rightarrow> Inl err
      | Inr (e, st1) \<Rightarrow>
          (case dn_queue st1 a of
             [] \<Rightarrow> sendDataToDram cfg st1 a requester d
           | rq # rqs \<Rightarrow>
               (case rq_type rq of
                  EX_REQ \<Rightarrow> serve cfg st1 a d
                | SH_REQ \<Rightarrow> (case sendDataToDram cfg st1 a requester d of Inl err \<Rightarrow> Inl err | Inr st2 \<Rightarrow> serve cfg st2 a d)
                | UPGRADE_REQ \<Rightarrow>
                    if getNumSharers e = 0 then serve cfg st1 a d
                    else Inr (st1\<lparr>dn_queue := (dn_queue st1)(a := rq\<lparr>rq_data := d\<rparr> # rqs)\<rparr>)
                | _ \<Rightarrow> (case sendDataToDram cfg st1 a requester d of Inl err \<Rightarrow> Inl err | Inr st2 \<Rightarrow> serve cfg st2 a None))))"

definition processWbRepFromL2Cache :: "dir_config \<Rightarrow> 'd dir_cntlr \<Rightarrow> nat \<Rightarrow> u64 \<Rightarrow> 'd option \<Rightarrow> 'd dir_cntlr outcome" where
  "processWbRepFromL2Cache cfg st sender a d =
     (case change_entry cfg st a (\<lambda>e. wb_entry e sender) of
        Inl err \<Rightarrow> Inl err
      | Inr (e, st1) \<Rightarrow>
          (case dn_queue st1 a of
             [] \<Rightarrow> Inl Assertion_Failed
           | rq # _ \<Rightarrow> if rq_type rq = SH_REQ then serve cfg st1 a d else Inl Assertion_Failed))"

text \<open>The reply to a request whose data comes from memory.\<close>

definition dram_reply_type :: "dstate \<Rightarrow> msg_t \<Rightarrow> msg_t outcome" where
  "dram_reply_type s t =
     (case t of
        SH_REQ \<Rightarrow> if s = D_EXCLUSIVE then Inr EX_REP else if s = D_SHARED then Inr SH_REP else Inl Assertion_Failed
      | EX_REQ \<Rightarrow> if s = D_MODIFIED then Inr EX_REP else Inl Assertion_Failed
      | UPGRADE_REQ \<Rightarrow> Inr EX_REP
      | _ \<Rightarrow> Inl Assertion_Failed)"

definition processDRAMReply :: "dir_config \<Rightarrow> 'd dir_cntlr \<Rightarrow> u64 \<Rightarrow> 'd option \<Rightarrow> 'd dir_cntlr outcome" where
  "processDRAMReply cfg st a d =
     (case dn_queue st a of
        [] \<Rightarrow> Inl Assertion_Failed
      | rq # _ \<Rightarrow>
          (case change_entry cfg st a Inr of
             Inl err \<Rightarrow> Inl err
           | Inr (e, st1) \<Rightarrow>
               (case dram_reply_type (de_dstate e) (rq_type rq) of
                  Inl err \<Rightarrow> Inl err
                | Inr t \<Rightarrow> processNextReqFromL2Cache cfg
                             (send_msgs st1 [mk_msg t (rq_requester rq) (rq_requester rq) a d]) a)))"

section \<open>Dispatch\<close>

text \<open>
  \<open>handleMsgFromL2Cache\<close>; the lookup at its start, made for its latency, may take a
  free slot for the address. A request with data fails an assertion of \<open>ShmemReq\<close>.
\<close>

definition handleMsgFromL2Cache :: "dir_config \<Rightarrow> 'd dir_cntlr \<Rightarrow> nat \<Rightarrow> 'd shmem_msg \<Rightarrow> 'd dir_cntlr outcome" where
  "handleMsgFromL2Cache cfg st sender m =
     (let a = sm_address m in
      case getDirectoryEntry cfg (dn_cache st) a of
        Inl err \<Rightarrow> Inl err
      | Inr (_, dc) \<Rightarrow>
          let st1 = st\<lparr>dn_cache := dc\<rparr> in
          if sm_type m = INV_REP then processInvRepFromL2Cache cfg st1 sender a
          else if sm_type m = FLUSH_REP then processFlushRepFromL2Cache cfg st1 sender (sm_requester m) a (sm_data m)
          else if sm_type m = WB_REP then processWbRepFromL2Cache cfg st1 sender a (sm_data m)
          else if sm_type m \<in> {EX_REQ, SH_REQ, UPGRADE_REQ}
          then (if sm_data m \<noteq> None then Inl Assertion_Failed
                else let q = dn_queue st1 a @ [shmem_req_new (sm_type m) (sm_requester m)];
                         st2 = st1\<lparr>dn_queue := (dn_queue st1)(a := q)\<rparr> in
                     if length q = 1 then serve cfg st2 a None else Inr st2)
          else Inl Assertion_Failed)"

definition handleMsgFromDRAM :: "dir_config \<Rightarrow> 'd dir_cntlr \<Rightarrow> 'd shmem_msg \<Rightarrow> 'd dir_cntlr outcome" where
  "handleMsgFromDRAM cfg st m =
     (if sm_type m = DRAM_READ_REP then processDRAMReply cfg st (sm_address m) (sm_data m) else Inl Assertion_Failed)"

section \<open>Well-formed entries\<close>

text \<open>
  An uncached line has no sharer, a shared line has one, and a line that is modified
  or exclusive has its owner as the only sharer.
\<close>

definition entry_ok :: "dir_entry \<Rightarrow> bool" where
  "entry_ok e \<longleftrightarrow>
     (case de_dstate e of
        D_UNCACHED \<Rightarrow> sharers e = {}
      | D_SHARED \<Rightarrow> sharers e \<noteq> {}
      | D_OWNED \<Rightarrow> False
      | _ \<Rightarrow> (\<exists>c. de_owner e = Some c \<and> sharers e = {c}))"

lemma entry_ok_simps:
  "de_dstate e = D_UNCACHED \<Longrightarrow> entry_ok e \<longleftrightarrow> sharers e = {}"
  "de_dstate e = D_SHARED \<Longrightarrow> entry_ok e \<longleftrightarrow> sharers e \<noteq> {}"
  "de_dstate e = D_OWNED \<Longrightarrow> \<not> entry_ok e"
  "de_dstate e = D_MODIFIED \<Longrightarrow> entry_ok e \<longleftrightarrow> (\<exists>c. de_owner e = Some c \<and> sharers e = {c})"
  "de_dstate e = D_EXCLUSIVE \<Longrightarrow> entry_ok e \<longleftrightarrow> (\<exists>c. de_owner e = Some c \<and> sharers e = {c})"
  by (simp_all add: entry_ok_def)

lemma entry_ok_sel [simp]: "entry_ok (e\<lparr>de_address := a\<rparr>) = entry_ok e" "entry_ok (e\<lparr>de_seed := r\<rparr>) = entry_ok e"
  "entry_ok (e\<lparr>de_forwarder := f\<rparr>) = entry_ok e"
  by (cases "de_dstate e"; simp add: entry_ok_simps)+

lemma entry_ok_new [simp]: "entry_ok (createDirectoryEntry cfg)"
  using sharers_new [of cfg] entry_ok_simps(1) [of "createDirectoryEntry cfg"] by (simp add: createDirectoryEntry_def)

lemma take_line_Inr:
  assumes "take_line cfg e c s = Inr e'"
  shows "sharers e' = insert c (sharers e) \<and> de_owner e' = Some c \<and> de_dstate e' = s \<and> c \<notin> sharers e"
proof -
  from assms obtain e1 e2 where 1: "addSharer cfg e c = Inr (True, e1)" "setOwner e1 (Some c) = Inr e2" "e' = e2\<lparr>de_dstate := s\<rparr>"
    by (auto simp: take_line_def split: sum.splits if_splits elim!: map_sum_InrE)
  with addSharer_Inr [OF 1(1)] show ?thesis by (auto simp: setOwner_Some)
qed

lemma take_line_ok:
  assumes "take_line cfg e c s = Inr e'" "entry_ok e" "de_dstate e = D_UNCACHED" "s \<in> {D_MODIFIED, D_EXCLUSIVE, D_SHARED}"
  shows "entry_ok e' \<and> sharers e' = {c} \<and> de_owner e' = Some c \<and> de_dstate e' = s"
  using take_line_Inr [OF assms(1)] assms(2-4) by (auto simp: entry_ok_simps)

text \<open>The three ways in which the data of a line is obtained.\<close>

lemma retrieve_cases:
  assumes "retrieveDataAndSendToL2Cache cfg reply a e rq cached = Inr (e', rq', ms, fin)"
  obtains
    (cached) d where "cached = Some d" "e' = e\<lparr>de_forwarder := Some (rq_requester rq)\<rparr>" "rq' = rq" "fin"
      "ms = [mk_msg reply (rq_requester rq) (rq_requester rq) a (Some d)]"
  | (forward) f where "cached = None" "cfg_protocol cfg = MESIF" "e' = e" "rq' = rq\<lparr>rq_forwarding_from := Some f\<rparr>" "\<not> fin"
      "ms = [mk_msg WB_REQ (rq_requester rq) f a None]"
  | (dram) n where "cached = None" "e' = e" "rq' = rq\<lparr>rq_wait := True\<rparr>" "\<not> fin" "ms = [mk_msg DRAM_READ_REQ (rq_requester rq) n a None]"
proof (cases cached)
  case (Some d)
  show ?thesis by (rule cached [of d]) (use assms Some in \<open>auto simp: retrieveDataAndSendToL2Cache_def Let_def\<close>)
next
  case None
  show ?thesis
  proof (cases "cfg_protocol cfg = MESIF \<and> rq_forwarding_from rq = None \<and> de_dstate e = D_SHARED \<and> de_forwarder e \<noteq> None")
    case True
    then obtain f where "de_forwarder e = Some f" by blast
    show ?thesis by (rule forward [of f]) (use None assms True \<open>de_forwarder e = Some f\<close> in \<open>auto simp: retrieveDataAndSendToL2Cache_def Let_def\<close>)
  next
    case False
    with None assms have "map_sum id (\<lambda>node. (e, rq\<lparr>rq_wait := True\<rparr>, [mk_msg DRAM_READ_REQ (rq_requester rq) node a None], False))
       (getHome (cfg_home cfg) a) = Inr (e', rq', ms, fin)"
      unfolding retrieveDataAndSendToL2Cache_def Let_def by (simp only: option.case if_False)
    then obtain n where "(e', rq', ms, fin) = (e, rq\<lparr>rq_wait := True\<rparr>, [mk_msg DRAM_READ_REQ (rq_requester rq) n a None], False)"
      by (rule map_sum_InrE) auto
    with None show ?thesis by (intro dram [of n]) simp_all
  qed
qed

text \<open>What serving a request does to the entry and what it may grant.\<close>

definition line_post :: "dir_entry \<Rightarrow> 'd shmem_msg list \<Rightarrow> bool" where
  "line_post e ms \<longleftrightarrow> entry_ok e \<and>
     (\<forall>m \<in> set ms. sm_type m = EX_REP \<or> sm_type m = UPGRADE_REP \<longrightarrow>
        sharers e = {sm_receiver m} \<and> de_dstate e \<in> {D_MODIFIED, D_EXCLUSIVE}) \<and>
     (\<forall>m \<in> set ms. sm_type m = SH_REP \<longrightarrow> sm_receiver m \<in> sharers e \<and> de_dstate e = D_SHARED)"

lemma retrieve_post:
  assumes r: "retrieveDataAndSendToL2Cache cfg reply a e rq cached = Inr (e', rq', ms, fin)" and "entry_ok e"
    and "reply = EX_REP \<and> sharers e = {rq_requester rq} \<and> de_dstate e \<in> {D_MODIFIED, D_EXCLUSIVE} \<or>
         reply = SH_REP \<and> rq_requester rq \<in> sharers e \<and> de_dstate e = D_SHARED"
  shows "line_post e' ms"
  using r by (cases rule: retrieve_cases) (use assms(2,3) in \<open>auto simp: line_post_def mk_msg_def\<close>)

lemma ask_owner_post: "ask_owner t a e rq = Inr (e', rq', ms, fin) \<Longrightarrow> entry_ok e \<Longrightarrow> t \<in> {FLUSH_REQ, WB_REQ} \<Longrightarrow> line_post e' ms"
  by (auto simp: ask_owner_def line_post_def mk_msg_def split: option.splits)

lemma invalidate_sharers_post: "invalidate_sharers a e rq = Inr (e', rq', ms, fin) \<Longrightarrow> entry_ok e \<Longrightarrow> line_post e' ms"
  by (auto simp: invalidate_sharers_def line_post_def mk_msg_def)

lemma processEx_post:
  assumes "processExReqFromL2Cache cfg a e rq cached = Inr (e', rq', ms, fin)" "entry_ok e"
  shows "line_post e' ms"
proof (cases "de_dstate e")
  case D_UNCACHED
  then obtain e1 where "take_line cfg e (rq_requester rq) D_MODIFIED = Inr e1"
    "retrieveDataAndSendToL2Cache cfg EX_REP a e1 rq cached = Inr (e', rq', ms, fin)"
    using assms(1) by (auto simp: processExReqFromL2Cache_def split: sum.splits)
  with take_line_ok [OF this(1) assms(2) D_UNCACHED] show ?thesis by (auto intro: retrieve_post)
qed (use assms in \<open>auto simp: processExReqFromL2Cache_def split: if_splits intro: ask_owner_post invalidate_sharers_post\<close>)

lemma processSh_post:
  assumes "processShReqFromL2Cache cfg a e rq cached = Inr (e', rq', ms, fin)" "entry_ok e"
  shows "line_post e' ms"
proof (cases "de_dstate e")
  case D_UNCACHED
  then obtain e1 where e1: "take_line cfg e (rq_requester rq) (if cfg_protocol cfg = MSI then D_SHARED else D_EXCLUSIVE) = Inr e1"
    "retrieveDataAndSendToL2Cache cfg (if cfg_protocol cfg = MSI then SH_REP else EX_REP) a e1 rq cached = Inr (e', rq', ms, fin)"
    using assms(1) by (auto simp: processShReqFromL2Cache_def split: sum.splits)
  from take_line_ok [OF e1(1) assms(2) D_UNCACHED] have ok: "entry_ok e1" "sharers e1 = {rq_requester rq}"
    "de_dstate e1 = (if cfg_protocol cfg = MSI then D_SHARED else D_EXCLUSIVE)" by auto
  show ?thesis by (rule retrieve_post [OF e1(2) ok(1)]) (use ok in simp)
next
  case D_SHARED
  consider "hasSharer e (rq_requester rq) = Inr True" "retrieveDataAndSendToL2Cache cfg SH_REP a e rq cached = Inr (e', rq', ms, fin)"
    | e1 where "hasSharer e (rq_requester rq) = Inr False" "addSharer cfg e (rq_requester rq) = Inr (True, e1)"
        "retrieveDataAndSendToL2Cache cfg SH_REP a e1 rq cached = Inr (e', rq', ms, fin)"
    | e1 c where "addSharer cfg e (rq_requester rq) = Inr (False, e1)" "getOneSharer cfg e1 = Inr (c, e')"
        "ms = [mk_msg INV_REQ (rq_requester rq) c a None]"
    using assms(1) D_SHARED by (auto simp: processShReqFromL2Cache_def split: sum.splits bool.splits elim!: map_sum_InrE)
  then show ?thesis
  proof cases
    case 1
    then show ?thesis using D_SHARED assms(2) by (intro retrieve_post [OF 1(2)]) (simp_all add: hasSharer_iff)
  next
    case 2
    with addSharer_Inr [OF 2(2)] D_SHARED assms(2) show ?thesis by (intro retrieve_post [OF 2(3)]) (simp_all add: entry_ok_simps)
  next
    case 3
    from addSharer_Inr [OF 3(1)] have "e1 = e" by simp
    then have "entry_ok e'" using getOneSharer_Inr [OF 3(2)] assms(2) by (metis entry_ok_sel(2))
    with 3 show ?thesis by (simp add: line_post_def mk_msg_def)
  qed
qed (use assms in \<open>auto simp: processShReqFromL2Cache_def split: if_splits intro: ask_owner_post\<close>)

lemma upgrade_reply_post:
  "upgrade_reply a e rq = Inr (e', rq', ms, fin) \<Longrightarrow> de_owner e = Some (rq_requester rq) \<Longrightarrow> sharers e = {rq_requester rq} \<Longrightarrow> line_post e' ms"
  by (auto simp: upgrade_reply_def line_post_def mk_msg_def entry_ok_def)

lemma hd_sharers: "getSharersList e \<noteq> [] \<Longrightarrow> sharers e = {c} \<Longrightarrow> hd (getSharersList e) = c"
  using hd_in_set [of "getSharersList e"] by simp

lemma processUpgrade_post:
  assumes p: "processUpgradeReqFromL2Cache cfg a e rq cached = Inr (e', rq', ms, fin)" and ok: "entry_ok e"
  shows "line_post e' ms"
proof -
  let ?r = "rq_requester rq"
  have owned: "line_post e' ms" if "de_owner e = Some c" "sharers e = {c}"
    "(if getSharersList e = [] then Inl Undefined_Behaviour
      else if hd (getSharersList e) = ?r then (if de_owner e = Some ?r then upgrade_reply a e rq else Inl Assertion_Failed)
      else ask_owner FLUSH_REQ a e rq) = Inr (e', rq', ms, fin)" for c
    using that ok by (auto split: if_splits intro: upgrade_reply_post ask_owner_post dest: hd_sharers)
  show ?thesis
  proof (cases "de_dstate e")
    case D_UNCACHED
    then obtain e1 d where "take_line cfg e ?r D_MODIFIED = Inr e1" "retrieveDataAndSendToL2Cache cfg EX_REP a e1 rq d = Inr (e', rq', ms, fin)"
      using p by (auto simp: processUpgradeReqFromL2Cache_def Let_def split: sum.splits if_splits)
    with take_line_ok [OF this(1) ok D_UNCACHED] show ?thesis by (auto intro: retrieve_post)
  next
    case D_SHARED
    show ?thesis
    proof (cases "getSharersList e = [?r]")
      case True
      then have "sharers e = {?r}" using set_getSharersList [of e] by simp
      with True p D_SHARED show ?thesis
        by (auto simp: processUpgradeReqFromL2Cache_def Let_def setOwner_Some split: sum.splits intro: upgrade_reply_post)
    next
      case False
      with p D_SHARED ok show ?thesis
        by (auto simp: processUpgradeReqFromL2Cache_def Let_def upgrade_invalidations_def line_post_def mk_msg_def split: if_splits elim!: map_sum_InrE)
    qed
  next
    case D_MODIFIED
    then obtain c where "de_owner e = Some c" "sharers e = {c}" using ok by (auto simp: entry_ok_simps)
    from owned [OF this] p D_MODIFIED show ?thesis by (simp add: processUpgradeReqFromL2Cache_def Let_def)
  next
    case D_EXCLUSIVE
    then obtain c where "de_owner e = Some c" "sharers e = {c}" using ok by (auto simp: entry_ok_simps)
    from owned [OF this] p D_EXCLUSIVE show ?thesis by (simp add: processUpgradeReqFromL2Cache_def Let_def)
  qed (use p in \<open>simp add: processUpgradeReqFromL2Cache_def Let_def\<close>)
qed

lemma processNullify_post: "processNullifyReq a e rq = Inr (e', rq', ms, fin) \<Longrightarrow> entry_ok e \<Longrightarrow> line_post e' ms"
  by (auto simp: processNullifyReq_def line_post_def [of _ "[]"] split: dstate.splits intro: ask_owner_post invalidate_sharers_post)

lemma process_line_post: "process_line cfg a e rq cached = Inr (e', rq', ms, fin) \<Longrightarrow> entry_ok e \<Longrightarrow> line_post e' ms"
  by (auto simp: process_line_def split: msg_t.splits intro: processEx_post processSh_post processUpgrade_post processNullify_post)

section \<open>Every entry of a running controller is well formed\<close>

definition entries_ok :: "dir_cache \<Rightarrow> bool" where
  "entries_ok dc \<longleftrightarrow> (\<forall>e. Some e \<in> set (dc_slots dc) \<longrightarrow> entry_ok e) \<and> (\<forall>a e. dc_replaced dc a = Some e \<longrightarrow> entry_ok e)"

lemma slot_entry_ok: "entries_ok dc \<Longrightarrow> k < length (dc_slots dc) \<Longrightarrow> entry_ok (slot_entry cfg dc k)"
  by (cases "dc_slots dc ! k") (auto simp: entries_ok_def slot_entry_def dest: nth_mem [of k "dc_slots dc"])

lemma entries_ok_slot: "entries_ok dc \<Longrightarrow> entry_ok e \<Longrightarrow> entries_ok (dc\<lparr>dc_slots := (dc_slots dc)[k := Some e]\<rparr>)"
  by (auto simp: entries_ok_def dest!: in_set_updateD)

lemma find_slot: "find P (set_slots cfg a) = Some k \<Longrightarrow> k \<in> set (set_slots cfg a) \<and> P k"
  by (auto simp: find_Some_iff)

lemma getDirectoryEntry_cases:
  assumes g: "getDirectoryEntry cfg dc a = Inr (p, dc')"
  obtains
    (found) k where "k \<in> set (set_slots cfg a)" "k < length (dc_slots dc)" "de_address (slot_entry cfg dc k) = a"
      "p = Some (In_Slot k)" "dc' = dc\<lparr>dc_slots := (dc_slots dc)[k := Some (slot_entry cfg dc k)]\<rparr>"
  | (free) k where "k \<in> set (set_slots cfg a)" "k < length (dc_slots dc)" "de_address (slot_entry cfg dc k) = minus1_64"
      "\<forall>j \<in> set (set_slots cfg a). de_address (slot_entry cfg dc j) \<noteq> a"
      "p = Some (In_Slot k)" "dc' = dc\<lparr>dc_slots := (dc_slots dc)[k := Some ((slot_entry cfg dc k)\<lparr>de_address := a\<rparr>)]\<rparr>"
  | (replaced) e where "\<forall>j \<in> set (set_slots cfg a). de_address (slot_entry cfg dc j) \<notin> {a, minus1_64}"
      "dc_replaced dc a = Some e" "p = Some In_Replaced" "dc' = dc"
  | (absent) "\<forall>j \<in> set (set_slots cfg a). de_address (slot_entry cfg dc j) \<notin> {a, minus1_64}" "dc_replaced dc a = None" "p = None" "dc' = dc"
proof -
  have lt: "\<not> (\<exists>k \<in> set (set_slots cfg a). length (dc_slots dc) \<le> k)" using g by (auto simp: getDirectoryEntry_def split: if_splits)
  note g' = g [unfolded getDirectoryEntry_def if_not_P [OF lt]]
  show ?thesis
  proof (cases "find (\<lambda>k. de_address (slot_entry cfg dc k) = a) (set_slots cfg a)")
    case (Some k)
    with g' find_slot [OF Some] lt show ?thesis by (intro found [of k]) auto
  next
    case none: None
    then have na: "\<forall>j \<in> set (set_slots cfg a). de_address (slot_entry cfg dc j) \<noteq> a" by (auto simp: find_None_iff)
    show ?thesis
    proof (cases "find (\<lambda>k. de_address (slot_entry cfg dc k) = minus1_64) (set_slots cfg a)")
      case (Some k)
      with g' none na find_slot [OF Some] lt show ?thesis by (intro free [of k]) auto
    next
      case None
      then have n1: "\<forall>j \<in> set (set_slots cfg a). de_address (slot_entry cfg dc j) \<notin> {a, minus1_64}" using na by (auto simp: find_None_iff)
      show ?thesis
      proof (cases "dc_replaced dc a")
        case None': None
        with g' none None n1 show ?thesis by (intro absent) auto
      next
        case (Some e)
        with g' none None n1 show ?thesis by (intro replaced [of e]) auto
      qed
    qed
  qed
qed

lemma slot_entry_update [simp]: "k < length (dc_slots dc) \<Longrightarrow> slot_entry cfg (dc\<lparr>dc_slots := (dc_slots dc)[k := Some e]\<rparr>) k = e"
  by (simp add: slot_entry_def)

lemma getDirectoryEntry_ok:
  assumes g: "getDirectoryEntry cfg dc a = Inr (p, dc')" and ok: "entries_ok dc"
  shows "entries_ok dc' \<and> (\<forall>q. p = Some q \<longrightarrow> entry_ok (entry_at cfg dc' a q))"
  using g
proof (cases rule: getDirectoryEntry_cases)
  case (found k)
  from entries_ok_slot [OF ok slot_entry_ok [OF ok found(2)], of k] slot_entry_ok [OF ok found(2)] found show ?thesis
    by (simp add: entry_at_def)
next
  case (free k)
  from slot_entry_ok [OF ok free(2)] have e: "entry_ok ((slot_entry cfg dc k)\<lparr>de_address := a\<rparr>)" by simp
  from entries_ok_slot [OF ok e, of k] e free show ?thesis by (simp add: entry_at_def)
next
  case (replaced e)
  with ok show ?thesis by (auto simp: entries_ok_def entry_at_def)
qed (use ok in auto)

lemma put_entry_ok: "entries_ok dc \<Longrightarrow> entry_ok e \<Longrightarrow> entries_ok (put_entry dc a p e)"
  using entries_ok_slot [of dc e] by (cases p) (auto simp: put_entry_def entries_ok_def)

lemma serve_at_ok:
  assumes s: "serve_at cfg st a p cached = Inr (fin, st')" and ok: "entries_ok (dn_cache st)" "entry_ok (entry_at cfg (dn_cache st) a p)"
  shows "entries_ok (dn_cache st')"
proof -
  obtain rq rqs where q: "dn_queue st a = rq # rqs" using s by (cases "dn_queue st a") (auto simp: serve_at_def)
  obtain e rq' ms b where l: "process_line cfg a (entry_at cfg (dn_cache st) a p) rq cached = Inr (e, rq', ms, b)"
    using s q by (cases "process_line cfg a (entry_at cfg (dn_cache st) a p) rq cached") (auto simp: serve_at_def)
  have "entries_ok (put_entry (dn_cache st) a p e)"
    using put_entry_ok [OF ok(1)] process_line_post [OF l ok(2)] by (simp add: line_post_def)
  with s q l show ?thesis
    by (auto simp: serve_at_def Let_def invalidateDirectoryEntry_def entries_ok_def split: if_splits elim!: map_sum_InrE)
qed

lemma replaceDirectoryEntry_ok:
  assumes r: "replaceDirectoryEntry cfg dc b a = Inr (k, dc')" and ok: "entries_ok dc"
  shows "entries_ok dc' \<and> entry_ok (slot_entry cfg dc' k) \<and> k < length (dc_slots dc')"
proof -
  have lt: "k \<in> set (set_slots cfg b) \<Longrightarrow> k < length (dc_slots dc)" for k
    using r by (auto simp: replaceDirectoryEntry_def split: if_splits)
  from r have f: "find (\<lambda>k. de_address (slot_entry cfg dc k) = b) (set_slots cfg b) = Some k"
    and dc': "dc' = dc\<lparr>dc_replaced := (dc_replaced dc)(b \<mapsto> slot_entry cfg dc k), dc_slots := (dc_slots dc)[k := Some ((createDirectoryEntry cfg)\<lparr>de_address := a\<rparr>)]\<rparr>"
    by (auto simp: replaceDirectoryEntry_def split: if_splits option.splits)
  have k: "k < length (dc_slots dc)" using lt find_slot [OF f] by blast
  have "entries_ok (dc\<lparr>dc_replaced := (dc_replaced dc)(b \<mapsto> slot_entry cfg dc k)\<rparr>)"
    using ok slot_entry_ok [OF ok k] by (auto simp: entries_ok_def)
  from entries_ok_slot [OF this, of "(createDirectoryEntry cfg)\<lparr>de_address := a\<rparr>" k] k show ?thesis
    by (simp add: dc' slot_entry_def)
qed

lemma put_entry_slot: "length (dc_slots (put_entry dc a p e)) = length (dc_slots dc)"
  by (cases p) (simp_all add: put_entry_def)

lemma serve_at_slots: "serve_at cfg st a p cached = Inr (fin, st') \<Longrightarrow> length (dc_slots (dn_cache st')) = length (dc_slots (dn_cache st))"
  by (auto simp: serve_at_def Let_def put_entry_slot invalidateDirectoryEntry_def split: list.splits sum.splits if_splits elim!: map_sum_InrE)

lemma getDirectoryEntry_slots: "getDirectoryEntry cfg dc a = Inr (p, dc') \<Longrightarrow> length (dc_slots dc') = length (dc_slots dc)"
  by (auto simp: getDirectoryEntry_def split: if_splits option.splits)

lemma allocation_ok:
  assumes al: "processDirectoryEntryAllocationReq cfg st a requester = Inr (p, st')" and ok: "entries_ok (dn_cache st)"
  shows "entries_ok (dn_cache st') \<and> entry_ok (entry_at cfg (dn_cache st') a p)"
proof -
  from al obtain ks dc1 b k' dc2 q dc3 p' fin st1 where c:
    "getReplacementCandidates cfg (dn_cache st) a = Inr (ks, dc1)" "replaceDirectoryEntry cfg dc1 b a = Inr (k', dc2)"
    "getDirectoryEntry cfg dc2 b = Inr (Some p', dc3)"
    "serve_at cfg (st\<lparr>dn_cache := dc3, dn_queue := q\<rparr>) b p' None = Inr (fin, st1)"
    "p = In_Slot k'" "dn_cache st' = dn_cache st1"
    by (auto simp: processDirectoryEntryAllocationReq_def Let_def split: sum.splits prod.splits option.splits if_splits elim!: map_sum_InrE)
  obtain p0 dc0 where g: "getDirectoryEntry cfg (dn_cache st) a = Inr (p0, dc0)" "dc_slots dc1 = dc_slots dc0" "dc_replaced dc1 = dc_replaced dc0"
    using c(1) by (auto simp: getReplacementCandidates_def Let_def split: sum.splits if_splits)
  have ok1: "entries_ok dc1" using getDirectoryEntry_ok [OF g(1) ok] g by (simp add: entries_ok_def)
  note ok2 = replaceDirectoryEntry_ok [OF c(2) ok1]
  note ok3 = getDirectoryEntry_ok [OF c(3) conjunct1 [OF ok2]]
  have ok': "entries_ok (dn_cache st1)" using serve_at_ok [OF c(4)] ok3 by simp
  have "k' < length (dc_slots (dn_cache st1))"
    using ok2 serve_at_slots [OF c(4)] getDirectoryEntry_slots [OF c(3)] by simp
  with ok' slot_entry_ok [of "dn_cache st1" k' cfg] c(5,6) show ?thesis by (simp add: entry_at_def)
qed

lemma process_front_ok:
  assumes p: "process_front cfg st a cached = Inr (fin, st')" and ok: "entries_ok (dn_cache st)"
  shows "entries_ok (dn_cache st')"
proof -
  obtain rq rqs where q: "dn_queue st a = rq # rqs" using p by (cases "dn_queue st a") (auto simp: process_front_def)
  obtain pl dc where g: "getDirectoryEntry cfg (dn_cache st) a = Inr (pl, dc)"
    using p q by (cases "getDirectoryEntry cfg (dn_cache st) a") (auto simp: process_front_def)
  note ok1 = getDirectoryEntry_ok [OF g ok]
  show ?thesis
  proof (cases pl)
    case None
    with p q g obtain p1 st1 where "processDirectoryEntryAllocationReq cfg (st\<lparr>dn_cache := dc\<rparr>) a (rq_requester rq) = Inr (p1, st1)"
      "serve_at cfg st1 a p1 cached = Inr (fin, st')" by (auto simp: process_front_def split: if_splits sum.splits)
    with allocation_ok [OF this(1)] ok1 serve_at_ok [OF this(2)] show ?thesis by simp
  next
    case (Some x)
    with p q g have "serve_at cfg (st\<lparr>dn_cache := dc\<rparr>) a x cached = Inr (fin, st')" by (simp add: process_front_def)
    from serve_at_ok [OF this] ok1 Some show ?thesis by simp
  qed
qed

lemma processNext_ok:
  "processNextReqFromL2Cache cfg st a = Inr st' \<Longrightarrow> entries_ok (dn_cache st) \<Longrightarrow>
   entries_ok (dn_cache st') \<and> length (dn_queue st' a) < length (dn_queue st a)"
proof (induction cfg st a rule: processNextReqFromL2Cache.induct)
  case (1 cfg st a)
  obtain rq rqs where q: "dn_queue st a = rq # rqs"
    using "1.prems"(1) by (cases "dn_queue st a") (auto simp: processNextReqFromL2Cache.simps [of cfg st a])
  let ?st = "st\<lparr>dn_queue := (dn_queue st)(a := rqs)\<rparr>"
  show ?case
  proof (cases "rqs = []")
    case True
    with q "1.prems" show ?thesis by (auto simp: processNextReqFromL2Cache.simps [of cfg st a])
  next
    case False
    with q "1.prems"(1) obtain fin st2 where f: "process_front cfg ?st a None = Inr (fin, st2)"
      "(if fin then processNextReqFromL2Cache cfg st2 a else Inr st2) = Inr st'"
      by (auto simp: processNextReqFromL2Cache.simps [of cfg st a] Let_def split: sum.splits)
    have ok2: "entries_ok (dn_cache st2)" using process_front_ok [OF f(1)] "1.prems"(2) by simp
    have len: "length (dn_queue st2 a) = length rqs" using process_front_queue [OF f(1)] by simp
    show ?thesis
    proof (cases fin)
      case True
      with f(2) have "processNextReqFromL2Cache cfg st2 a = Inr st'" by simp
      from "1.IH" [OF q refl False f(1) refl True this ok2] len q show ?thesis by simp
    next
      case False
      with f(2) ok2 len q show ?thesis by simp
    qed
  qed
qed

lemma serve_ok: "serve cfg st a cached = Inr st' \<Longrightarrow> entries_ok (dn_cache st) \<Longrightarrow> entries_ok (dn_cache st')"
  using process_front_ok processNext_ok by (fastforce simp: serve_def split: sum.splits if_splits)

lemma inv_entry_ok: "inv_entry e c = Inr e' \<Longrightarrow> entry_ok e \<Longrightarrow> entry_ok e' \<and> sharers e' = sharers e - {c} \<and> c \<in> sharers e"
proof -
  assume i: "inv_entry e c = Inr e'" and ok: "entry_ok e"
  then have s: "de_dstate e = D_SHARED \<or> de_dstate e = D_EXCLUSIVE" by (auto simp: inv_entry_def split: if_splits)
  from i obtain e1 where r: "removeSharer e c = Inr e1" by (auto simp: inv_entry_def split: if_splits elim!: map_sum_InrE)
  then have c: "c \<in> sharers e" "sharers e1 = sharers e - {c}" "de_dstate e1 = de_dstate e" "de_owner e1 = de_owner e"
    by (auto simp: removeSharer_Inr)
  define e2 where "e2 = (if de_forwarder e1 = Some c then e1\<lparr>de_forwarder := None\<rparr> else e1)"
  have e2: "sharers e2 = sharers e - {c}" "de_dstate e2 = de_dstate e" using c by (auto simp: e2_def)
  have "inv_entry e c = Inr (if getNumSharers e2 = 0 then e2\<lparr>de_dstate := D_UNCACHED\<rparr> else e2)"
  proof -
    have ns: "\<not> (de_dstate e \<noteq> D_SHARED \<and> de_dstate e \<noteq> D_EXCLUSIVE)" using s by blast
    show ?thesis unfolding inv_entry_def if_not_P [OF ns] r map_sum.simps Let_def e2_def ..
  qed
  then have e': "e' = (if sharers e2 = {} then e2\<lparr>de_dstate := D_UNCACHED\<rparr> else e2)" using i by simp
  have "entry_ok e'"
  proof (cases "sharers e2 = {}")
    case True
    then show ?thesis by (simp add: e' entry_ok_simps)
  next
    case False
    have "de_dstate e \<noteq> D_EXCLUSIVE"
    proof
      assume "de_dstate e = D_EXCLUSIVE"
      then obtain w where "sharers e = {w}" using ok entry_ok_simps(5) by blast
      with c(1) e2(1) False show False by simp
    qed
    with s e2(2) have "de_dstate e2 = D_SHARED" by simp
    with False show ?thesis by (simp add: e' entry_ok_simps)
  qed
  with e' e2 c(1) show ?thesis by simp
qed

lemma flush_entry_ok: "flush_entry e c = Inr e' \<Longrightarrow> entry_ok e' \<and> sharers e' = sharers e - {c} \<and> c \<in> sharers e"
  by (auto simp: flush_entry_def Let_def removeSharer_Inr entry_ok_simps split: sum.splits if_splits)

lemma wb_entry_ok: "wb_entry e c = Inr e' \<Longrightarrow> entry_ok e' \<and> sharers e' = sharers e \<and> c \<in> sharers e"
  by (auto simp: wb_entry_def hasSharer_iff entry_ok_simps split: sum.splits if_splits)

lemma change_entry_ok:
  assumes "change_entry cfg st a f = Inr (e, st')" "entries_ok (dn_cache st)" "\<And>e e'. entry_ok e \<Longrightarrow> f e = Inr e' \<Longrightarrow> entry_ok e'"
  shows "entries_ok (dn_cache st') \<and> dn_queue st' = dn_queue st"
proof -
  obtain p dc where g: "getDirectoryEntry cfg (dn_cache st) a = Inr (Some p, dc)" "f (entry_at cfg dc a p) = Inr e" "st' = st\<lparr>dn_cache := put_entry dc a p e\<rparr>"
    using assms(1) by (auto simp: change_entry_def split: sum.splits option.splits elim!: map_sum_InrE)
  from getDirectoryEntry_ok [OF g(1) assms(2)] assms(3) [OF _ g(2)] put_entry_ok [of dc e a p] g(3) show ?thesis by simp
qed

lemma sendDataToDram_ok: "sendDataToDram cfg st a r d = Inr st' \<Longrightarrow> dn_cache st' = dn_cache st"
  by (auto simp: sendDataToDram_def send_msgs_def elim!: map_sum_InrE)

lemma processInvRep_ok:
  assumes p: "processInvRepFromL2Cache cfg st c a = Inr st'" and ok: "entries_ok (dn_cache st)"
  shows "entries_ok (dn_cache st')"
proof -
  obtain e st1 where c: "change_entry cfg st a (\<lambda>e. inv_entry e c) = Inr (e, st1)"
    using p by (cases "change_entry cfg st a (\<lambda>e. inv_entry e c)") (auto simp: processInvRepFromL2Cache_def)
  have ok1: "entries_ok (dn_cache st1)" using change_entry_ok [OF c ok] inv_entry_ok by blast
  show ?thesis
  proof (cases "dn_queue st1 a")
    case (Cons rq rqs)
    with p c obtain w where "(if w then serve cfg st1 a None else Inr st1) = Inr st'"
      by (auto simp: processInvRepFromL2Cache_def split: sum.splits)
    with ok1 serve_ok [of cfg st1 a None st'] show ?thesis by (cases w) simp_all
  qed (use p c ok1 in \<open>simp add: processInvRepFromL2Cache_def\<close>)
qed

lemma processFlushRep_ok:
  assumes p: "processFlushRepFromL2Cache cfg st c r a d = Inr st'" and ok: "entries_ok (dn_cache st)"
  shows "entries_ok (dn_cache st')"
proof -
  obtain e st1 where c: "change_entry cfg st a (\<lambda>e. flush_entry e c) = Inr (e, st1)"
    using p by (cases "change_entry cfg st a (\<lambda>e. flush_entry e c)") (auto simp: processFlushRepFromL2Cache_def)
  have ok1: "entries_ok (dn_cache st1)" using change_entry_ok [OF c ok] flush_entry_ok by blast
  have srv: "entries_ok (dn_cache st')" if "serve cfg s a x = Inr st'" "dn_cache s = dn_cache st1" for s x
    using serve_ok [OF that(1)] ok1 that(2) by simp
  show ?thesis
  proof (cases "dn_queue st1 a")
    case Nil
    with p c ok1 sendDataToDram_ok [of cfg st1 a r d st'] show ?thesis by (simp add: processFlushRepFromL2Cache_def)
  next
    case (Cons rq rqs)
    with p c have t: "(case rq_type rq of
                  EX_REQ \<Rightarrow> serve cfg st1 a d
                | SH_REQ \<Rightarrow> (case sendDataToDram cfg st1 a r d of Inl err \<Rightarrow> Inl err | Inr st2 \<Rightarrow> serve cfg st2 a d)
                | UPGRADE_REQ \<Rightarrow>
                    if getNumSharers e = 0 then serve cfg st1 a d
                    else Inr (st1\<lparr>dn_queue := (dn_queue st1)(a := rq\<lparr>rq_data := d\<rparr> # rqs)\<rparr>)
                | _ \<Rightarrow> (case sendDataToDram cfg st1 a r d of Inl err \<Rightarrow> Inl err | Inr st2 \<Rightarrow> serve cfg st2 a None)) = Inr st'"
      by (simp add: processFlushRepFromL2Cache_def)
    then consider s x where "serve cfg s a x = Inr st'" "dn_cache s = dn_cache st1" | "dn_cache st' = dn_cache st1"
    proof (cases "rq_type rq = UPGRADE_REQ \<or> rq_type rq = EX_REQ")
      case True
      with t that(1) [of st1 d] that(2) show ?thesis by (auto split: if_splits)
    next
      case False
      then obtain st2 x where "sendDataToDram cfg st1 a r d = Inr st2" "serve cfg st2 a x = Inr st'"
        using t by (cases "sendDataToDram cfg st1 a r d"; cases "rq_type rq") auto
      with sendDataToDram_ok that(1) show ?thesis by blast
    qed
    then show ?thesis using srv ok1 by cases auto
  qed
qed

lemma processWbRep_ok:
  assumes p: "processWbRepFromL2Cache cfg st c a d = Inr st'" and ok: "entries_ok (dn_cache st)"
  shows "entries_ok (dn_cache st')"
proof -
  obtain e st1 where c: "change_entry cfg st a (\<lambda>e. wb_entry e c) = Inr (e, st1)" "serve cfg st1 a d = Inr st'"
    using p by (auto simp: processWbRepFromL2Cache_def split: sum.splits list.splits if_splits)
  have "entries_ok (dn_cache st1)" using change_entry_ok [OF c(1) ok] wb_entry_ok by blast
  with c(2) show ?thesis by (rule serve_ok)
qed

lemma processDRAMReply_ok:
  assumes p: "processDRAMReply cfg st a d = Inr st'" and ok: "entries_ok (dn_cache st)"
  shows "entries_ok (dn_cache st')"
proof -
  obtain e st1 m where c: "change_entry cfg st a Inr = Inr (e, st1)" "processNextReqFromL2Cache cfg (send_msgs st1 m) a = Inr st'"
    using p by (auto simp: processDRAMReply_def split: sum.splits list.splits)
  have "entries_ok (dn_cache (send_msgs st1 m))" using change_entry_ok [OF c(1) ok] by (simp add: send_msgs_def)
  with processNext_ok [OF c(2)] show ?thesis by blast
qed

lemma handleMsgFromL2Cache_ok:
  assumes h: "handleMsgFromL2Cache cfg st c m = Inr st'" and ok: "entries_ok (dn_cache st)"
  shows "entries_ok (dn_cache st')"
proof -
  obtain p dc where g: "getDirectoryEntry cfg (dn_cache st) (sm_address m) = Inr (p, dc)"
    using h by (cases "getDirectoryEntry cfg (dn_cache st) (sm_address m)") (auto simp: handleMsgFromL2Cache_def Let_def)
  then have ok1: "entries_ok (dn_cache (st\<lparr>dn_cache := dc\<rparr>))" using getDirectoryEntry_ok [OF g ok] by simp
  have srv: "entries_ok (dn_cache st')" if "serve cfg s a x = Inr st'" "dn_cache s = dc" for s a x
    using serve_ok [OF that(1)] ok1 that(2) by simp
  show ?thesis
  proof (cases "sm_type m \<in> {EX_REQ, SH_REQ, UPGRADE_REQ}")
    case True
    with h g consider s where "serve cfg s (sm_address m) None = Inr st'" "dn_cache s = dc" | "dn_cache st' = dc"
      by (fastforce simp: handleMsgFromL2Cache_def Let_def split: if_splits)
    then show ?thesis using srv ok1 by cases auto
  next
    case False
    with h g consider "processInvRepFromL2Cache cfg (st\<lparr>dn_cache := dc\<rparr>) c (sm_address m) = Inr st'"
      | "processFlushRepFromL2Cache cfg (st\<lparr>dn_cache := dc\<rparr>) c (sm_requester m) (sm_address m) (sm_data m) = Inr st'"
      | "processWbRepFromL2Cache cfg (st\<lparr>dn_cache := dc\<rparr>) c (sm_address m) (sm_data m) = Inr st'"
      by (auto simp: handleMsgFromL2Cache_def Let_def split: if_splits)
    then show ?thesis using ok1 processInvRep_ok processFlushRep_ok processWbRep_ok by cases blast+
  qed
qed

text \<open>All runs of a controller: any message may arrive at any time.\<close>

inductive dir_run :: "dir_config \<Rightarrow> 'd dir_cntlr \<Rightarrow> bool" for cfg :: dir_config where
  start: "dir_cache_new cfg ptrs = Inr dc \<Longrightarrow> dir_run cfg \<lparr> dn_cache = dc, dn_queue = (\<lambda>_. []), dn_sent = [] \<rparr>"
| l2: "dir_run cfg st \<Longrightarrow> handleMsgFromL2Cache cfg st c m = Inr st' \<Longrightarrow> dir_run cfg st'"
| dram: "dir_run cfg st \<Longrightarrow> handleMsgFromDRAM cfg st m = Inr st' \<Longrightarrow> dir_run cfg st'"

lemma dir_run_entries: "dir_run cfg st \<Longrightarrow> entries_ok (dn_cache st)"
proof (induction rule: dir_run.induct)
  case (start ptrs dc)
  then show ?case by (auto simp: dir_cache_new_def entries_ok_def split: if_splits)
next
  case (l2 st c m st')
  then show ?case using handleMsgFromL2Cache_ok by blast
next
  case (dram st m st')
  then show ?case using processDRAMReply_ok by (auto simp: handleMsgFromDRAM_def split: if_splits)
qed

text \<open>An example: a directory with one entry, and the first request of core 1.\<close>

definition dir_example :: dir_config where
  "dir_example = \<lparr> cfg_type = FULL_MAP, cfg_total_entries = 1, cfg_associativity = 1, cfg_block_size = 64, cfg_max_hw_sharers = 4,
     cfg_max_num_sharers = 4, cfg_protocol = MESI, cfg_forwarder0 = None, cfg_home = \<lparr> ahl_param = 6, ahl_core_list = [0] \<rparr> \<rparr>"

lemma dir_example_slots: "set_slots dir_example a = [0]"
  by (simp add: set_slots_def dir_set_index_def Let_def dir_example_def dir_num_sets_def)

definition dir_example_start :: "nat dir_cntlr" where
  "dir_example_start = \<lparr> dn_cache = \<lparr> dc_slots = [None], dc_replacement_ptrs = [0], dc_replaced = (\<lambda>_. None) \<rparr>, dn_queue = (\<lambda>_. []), dn_sent = [] \<rparr>"

lemma dir_example_run: "dir_run dir_example dir_example_start"
  using dir_run.start [of dir_example "[0]" "\<lparr> dc_slots = [None], dc_replacement_ptrs = [0], dc_replaced = (\<lambda>_. None) \<rparr>"]
  by (simp add: dir_cache_new_def dir_example_start_def dir_example_def)

definition dir_example_entry :: "dir_entry" where
  "dir_example_entry = \<lparr> de_address = 64, de_dstate = D_MODIFIED, de_owner = Some 1, de_forwarder = None,
     de_sharers = (replicate 64 False)[1 := True], de_trap = False, de_seed = 1 \<rparr>"

lemma take_example: "take_line dir_example ((createDirectoryEntry dir_example)\<lparr>de_address := 64\<rparr>) 1 D_MODIFIED = Inr dir_example_entry"
  by (simp add: take_line_def addSharer_def hasSharer_def createDirectoryEntry_def dir_example_def sharers_size_def getMaxHwSharers_def getNumSharers_def
     setOwner_def dir_example_entry_def)

lemma dir_example_step:
  "\<exists>st. handleMsgFromL2Cache dir_example dir_example_start 1 (mk_msg EX_REQ 1 0 64 None) = Inr st \<and> dc_slots (dn_cache st) = [Some dir_example_entry]"
proof -
  have g: "getDirectoryEntry dir_example (dn_cache dir_example_start) 64 = Inr (Some (In_Slot 0), \<lparr> dc_slots = [Some ((createDirectoryEntry dir_example)\<lparr>de_address := 64\<rparr>)], dc_replacement_ptrs = [0], dc_replaced = (\<lambda>_. None) \<rparr>)"
    by (simp add: getDirectoryEntry_def dir_example_slots dir_example_start_def slot_entry_def createDirectoryEntry_def minus1_64_def)
  have ne: "minus1_64 \<noteq> 64" "64 \<noteq> minus1_64" by (simp_all add: minus1_64_def)
  show ?thesis
    using take_example ne
    by (simp add: handleMsgFromL2Cache_def mk_msg_def g Let_def dir_example_start_def serve_def process_front_def serve_at_def
       getDirectoryEntry_def dir_example_slots slot_entry_def shmem_req_new_def process_line_def processExReqFromL2Cache_def entry_at_def put_entry_def
       createDirectoryEntry_def retrieveDataAndSendToL2Cache_def getHome_def) (simp add: dir_example_def)
qed

text \<open>
  C39: Whatever messages the caches and the memory send, in any order, every entry of
  the directory is well formed after each of them: an uncached line has no sharer, a
  shared line at least one, and a modified or exclusive line has exactly one sharer,
  its owner.
\<close>

theorem directory_entries_consistent:
  assumes "dir_run cfg st" "getDirectoryEntry cfg (dn_cache st) a = Inr (Some p, dc)"
  shows "case de_dstate (entry_at cfg dc a p) of
      D_UNCACHED \<Rightarrow> sharers (entry_at cfg dc a p) = {}
    | D_SHARED \<Rightarrow> sharers (entry_at cfg dc a p) \<noteq> {}
    | D_OWNED \<Rightarrow> False
    | _ \<Rightarrow> (\<exists>c. de_owner (entry_at cfg dc a p) = Some c \<and> sharers (entry_at cfg dc a p) = {c})"
  using getDirectoryEntry_ok [OF assms(2) dir_run_entries [OF assms(1)]] by (simp add: entry_ok_def)

theorem directory_entries_consistent_witness:
  "\<exists>c. de_owner dir_example_entry = Some c \<and> sharers dir_example_entry = {c}"
proof -
  obtain st where st: "handleMsgFromL2Cache dir_example dir_example_start 1 (mk_msg EX_REQ 1 0 64 None) = Inr st"
    "dc_slots (dn_cache st) = [Some dir_example_entry]" using dir_example_step by blast
  have run: "dir_run dir_example st" by (rule dir_run.l2 [OF dir_example_run st(1)])
  have g: "getDirectoryEntry dir_example (dn_cache st) 64 = Inr (Some (In_Slot 0), dn_cache st)"
    using st(2) by (simp add: getDirectoryEntry_def dir_example_slots slot_entry_def dir_example_entry_def)
  from directory_entries_consistent [OF run g] st(2) show ?thesis
    by (simp add: entry_at_def slot_entry_def dir_example_entry_def)
qed

text \<open>
  Serving a request grants exclusive access to a cache only when that cache is
  the single sharer of the line, which then is modified or exclusive, and shared
  access only to a registered sharer of a shared line.
\<close>

lemma directory_grants_exclusively:
  assumes "entry_ok e" "process_line cfg a e rq cached = Inr (e', rq', ms, fin)" "m \<in> set ms"
  shows "(sm_type m \<in> {EX_REP, UPGRADE_REP} \<longrightarrow> sharers e' = {sm_receiver m} \<and> de_dstate e' \<in> {D_MODIFIED, D_EXCLUSIVE}) \<and>
    (sm_type m = SH_REP \<longrightarrow> sm_receiver m \<in> sharers e' \<and> de_dstate e' = D_SHARED)"
  using process_line_post [OF assms(2,1)] assms(3) by (auto simp: line_post_def)

end
