(* ===== verification/Coherence_Line.thy ===== *)
theory Coherence_Line
  imports Directory_Cntlr
begin

text \<open>
  The invariant of the coherence protocol for one line: what a directory entry, the
  request that is being served, the state of the line in a last-level cache and the
  messages under way between the two have to do with each other. The protocol is MSI
  or MESI with a full-map directory; messages between the directory and a cache arrive
  in the order in which they were sent.
\<close>

section \<open>The invariant\<close>

text \<open>
  The request at the front of the queue of the line: its type, its requester and
  whether it waits for data from memory. \<open>None\<close> stands for no request, or for one that
  is about to be served.
\<close>

type_synonym front = "(msg_t \<times> nat \<times> bool) option"

abbreviation excl :: "dstate \<Rightarrow> bool" where
  "excl D \<equiv> D = D_MODIFIED \<or> D = D_EXCLUSIVE"

text \<open>The front request waits for cache \<open>c\<close> to give up the line, its data, or its write permission.\<close>

definition waits_inv :: "front \<Rightarrow> nat \<Rightarrow> bool" where
  "waits_inv F c \<longleftrightarrow> (\<exists>t r. F = Some (t, r, False) \<and> t \<in> {EX_REQ, UPGRADE_REQ, NULLIFY_REQ} \<and> (t = UPGRADE_REQ \<longrightarrow> r \<noteq> c))"

definition waits_data :: "front \<Rightarrow> nat \<Rightarrow> bool" where
  "waits_data F c \<longleftrightarrow> (\<exists>r. F = Some (UPGRADE_REQ, r, False) \<and> r \<noteq> c)"

definition waits_wb :: "front \<Rightarrow> nat \<Rightarrow> bool" where
  "waits_wb F c \<longleftrightarrow> (\<exists>r. F = Some (SH_REQ, r, False) \<and> r \<noteq> c)"

definition pend :: "front \<Rightarrow> nat \<Rightarrow> bool" where
  "pend F c \<longleftrightarrow> (\<exists>t. F = Some (t, c, True))"

text \<open>Requests of the directory to a cache that has no copy are ignored.\<close>

definition stale :: "msg_t list \<Rightarrow> bool" where
  "stale A \<longleftrightarrow> set A \<subseteq> {INV_REQ, FLUSH_REQ, WB_REQ}"

text \<open>To a cache with a copy there is at most one request, and it belongs to the front request.\<close>

definition live :: "dstate \<Rightarrow> front \<Rightarrow> nat \<Rightarrow> msg_t list \<Rightarrow> bool" where
  "live D F c A \<longleftrightarrow> A = [] \<or> A = [WB_REQ] \<and> excl D \<and> waits_wb F c \<or>
     A = [FLUSH_REQ] \<and> (excl D \<and> waits_inv F c \<or> D = D_SHARED \<and> waits_data F c) \<or>
     A = [INV_REQ] \<and> D = D_SHARED \<and> waits_inv F c"

definition rel_ok :: "dstate \<Rightarrow> front \<Rightarrow> nat \<Rightarrow> msg_t \<Rightarrow> bool" where
  "rel_ok D F c m \<longleftrightarrow> m = INV_REP \<or> m = FLUSH_REP \<and> (excl D \<or> D = D_SHARED \<and> waits_data F c)"

definition new_req :: "msg_t list \<Rightarrow> bool" where
  "new_req B \<longleftrightarrow> B = [] \<or> B = [SH_REQ] \<or> B = [EX_REQ]"

text \<open>
  The situations of a cache \<open>c\<close> with respect to the line. \<open>D\<close> and \<open>H\<close> are the state
  and the sharers in the directory, \<open>F\<close> is the front request; the other arguments are
  the state in the cache, the messages to the cache, the messages from the cache and
  the request of the cache that is in the queue of the directory.
\<close>

inductive cinv :: "dstate \<Rightarrow> nat set \<Rightarrow> front \<Rightarrow> nat \<Rightarrow> cstate \<Rightarrow> msg_t list \<Rightarrow> msg_t list \<Rightarrow> msg_t option \<Rightarrow> bool"
  for D :: dstate and H :: "nat set" and F :: front and c :: nat where
  out: "c \<notin> H \<Longrightarrow> \<not> pend F c \<Longrightarrow> stale A \<Longrightarrow> new_req B \<Longrightarrow> B = [] \<or> w = None \<Longrightarrow> cinv D H F c INVALID A B w"
| memory: "c \<in> H \<Longrightarrow> pend F c \<Longrightarrow> stale A \<Longrightarrow> w \<noteq> None \<Longrightarrow> cinv D H F c INVALID A [] w"
| grant: "c \<in> H \<Longrightarrow> \<not> pend F c \<Longrightarrow> stale A1 \<Longrightarrow> live D F c A2 \<Longrightarrow> g = EX_REP \<and> excl D \<or> g = SH_REP \<and> D = D_SHARED \<Longrightarrow>
    cinv D H F c INVALID (A1 @ g # A2) [] None"
| owner: "c \<in> H \<Longrightarrow> \<not> pend F c \<Longrightarrow> s = EXCLUSIVE \<or> s = MODIFIED \<Longrightarrow> excl D \<Longrightarrow> live D F c A \<Longrightarrow> cinv D H F c s A [] None"
| shared: "c \<in> H \<Longrightarrow> \<not> pend F c \<Longrightarrow> D = D_SHARED \<Longrightarrow> live D F c A \<Longrightarrow> cinv D H F c SHARED A [] None"
| shared_wb: "c \<in> H \<Longrightarrow> \<not> pend F c \<Longrightarrow> excl D \<Longrightarrow> waits_wb F c \<Longrightarrow> cinv D H F c SHARED [] [WB_REP] None"
| upg: "c \<in> H \<Longrightarrow> \<not> pend F c \<Longrightarrow> D = D_SHARED \<Longrightarrow> live D F c A \<Longrightarrow> cinv D H F c SHARED_UPGRADING A [UPGRADE_REQ] None"
| upg_wb: "c \<in> H \<Longrightarrow> \<not> pend F c \<Longrightarrow> excl D \<Longrightarrow> waits_wb F c \<Longrightarrow> cinv D H F c SHARED_UPGRADING [] [WB_REP, UPGRADE_REQ] None"
| queued: "c \<in> H \<Longrightarrow> \<not> pend F c \<Longrightarrow> D = D_SHARED \<Longrightarrow> live D F c A \<Longrightarrow> cinv D H F c SHARED_UPGRADING A [] (Some UPGRADE_REQ)"
| upgraded: "c \<in> H \<Longrightarrow> \<not> pend F c \<Longrightarrow> excl D \<Longrightarrow> live D F c A \<Longrightarrow> cinv D H F c SHARED_UPGRADING (UPGRADE_REP # A) [] None"
| rel: "c \<in> H \<Longrightarrow> \<not> pend F c \<Longrightarrow> stale A \<Longrightarrow> new_req x \<Longrightarrow> rel_ok D F c m \<Longrightarrow> cinv D H F c INVALID A (m # x) None"
| rel_wb: "c \<in> H \<Longrightarrow> \<not> pend F c \<Longrightarrow> stale A \<Longrightarrow> new_req x \<Longrightarrow> excl D \<Longrightarrow> waits_wb F c \<Longrightarrow> cinv D H F c INVALID A (WB_REP # INV_REP # x) None"
| rel_upg: "c \<in> H \<Longrightarrow> \<not> pend F c \<Longrightarrow> stale A \<Longrightarrow> rel_ok D F c m \<Longrightarrow> D = D_SHARED \<Longrightarrow> waits_inv F c \<Longrightarrow>
    cinv D H F c INVALID A [UPGRADE_REQ, m] None"
| rel_queued: "c \<in> H \<Longrightarrow> \<not> pend F c \<Longrightarrow> stale A \<Longrightarrow> rel_ok D F c m \<Longrightarrow> D = D_SHARED \<Longrightarrow> waits_inv F c \<Longrightarrow>
    cinv D H F c INVALID A [m] (Some UPGRADE_REQ)"

text \<open>What the front request of a line waits for.\<close>

definition front_ok :: "dstate \<Rightarrow> nat set \<Rightarrow> front \<Rightarrow> bool" where
  "front_ok D H F \<longleftrightarrow>
     (case F of
        None \<Rightarrow> True
      | Some (t, r, wait) \<Rightarrow>
          if wait then r \<in> H \<and> (t = SH_REQ \<and> (D = D_SHARED \<or> D = D_EXCLUSIVE) \<or> (t = EX_REQ \<or> t = UPGRADE_REQ) \<and> D = D_MODIFIED)
          else t = SH_REQ \<longrightarrow> excl D)"

lemmas waits_simps = waits_inv_def waits_data_def waits_wb_def pend_def

lemma waits_None [simp]: "\<not> waits_inv None c" "\<not> waits_data None c" "\<not> waits_wb None c" "\<not> pend None c"
  by (simp_all add: waits_simps)

lemma waits_data_inv: "waits_data F c \<Longrightarrow> waits_inv F c"
  by (auto simp: waits_simps)

lemma waits_pend: "waits_inv F c \<or> waits_wb F c \<Longrightarrow> \<not> pend F d"
  by (auto simp: waits_simps)

lemma live_None [simp]: "live D None c A \<longleftrightarrow> A = []"
  by (auto simp: live_def)

lemma live_Nil [simp]: "live D F c []"
  by (simp add: live_def)

lemma live_stale: "live D F c A \<Longrightarrow> stale A"
  by (auto simp: live_def stale_def)

lemma stale_app [simp]: "stale (A @ B) \<longleftrightarrow> stale A \<and> stale B" "stale []" "stale (m # A) \<longleftrightarrow> m \<in> {INV_REQ, FLUSH_REQ, WB_REQ} \<and> stale A"
  by (auto simp: stale_def)

lemma new_req_simps [simp, intro]: "new_req []" "new_req [SH_REQ]" "new_req [EX_REQ]"
  by (simp_all add: new_req_def)

text \<open>A cache that is not registered, and the states of a cache by what it has.\<close>

lemma cinv_out: "c \<notin> H \<Longrightarrow> cinv D H F c s A B w \<longleftrightarrow>
    \<not> pend F c \<and> s = INVALID \<and> stale A \<and> new_req B \<and> (B = [] \<or> w = None)"
  by (auto elim: cinv.cases intro: cinv.out)

inductive_cases cinv_invalidE: "cinv D H F c INVALID A B w"
inductive_cases cinv_sharedE: "cinv D H F c SHARED A B w"
inductive_cases cinv_upgradingE: "cinv D H F c SHARED_UPGRADING A B w"
inductive_cases cinv_exclusiveE: "cinv D H F c EXCLUSIVE A B w"
inductive_cases cinv_modifiedE: "cinv D H F c MODIFIED A B w"
inductive_cases cinv_ownedE: "cinv D H F c OWNED A B w"

lemma cinv_holder: "cinv D H F c s A B w \<Longrightarrow> s \<noteq> INVALID \<Longrightarrow> c \<in> H"
  by (auto elim: cinv.cases)

lemma cinv_writable: "cinv D H F c s A B w \<Longrightarrow> s = EXCLUSIVE \<or> s = MODIFIED \<Longrightarrow> excl D"
  by (auto elim: cinv.cases)

section \<open>Messages to a cache\<close>

definition to_cache :: "'d shmem_msg list \<Rightarrow> nat \<Rightarrow> msg_t list" where
  "to_cache ms c = map sm_type (filter (\<lambda>m. sm_receiver m = c \<and> sm_type m \<notin> {DRAM_READ_REQ, DRAM_WRITE_REQ}) ms)"

lemma to_cache_simps [simp]: "to_cache [] c = []" "to_cache (ms @ ms') c = to_cache ms c @ to_cache ms' c"
  "to_cache (mk_msg t r x a d # ms) c = (if x = c \<and> t \<notin> {DRAM_READ_REQ, DRAM_WRITE_REQ} then t # to_cache ms c else to_cache ms c)"
  by (auto simp: to_cache_def mk_msg_def)

lemma to_cache_map:
  "distinct cs \<Longrightarrow> t \<notin> {DRAM_READ_REQ, DRAM_WRITE_REQ} \<Longrightarrow> to_cache (map (\<lambda>x. mk_msg t r x a d) cs) c = (if c \<in> set cs then [t] else [])"
  by (induction cs) (auto simp: to_cache_def mk_msg_def filter_empty_conv)

section \<open>Changes of the directory\<close>

text \<open>
  When a request starts to wait, the messages it sends are live; a cache to which
  nothing is sent keeps its situation.
\<close>

lemma cinv_add:
  assumes "cinv D H None c s A B w" "c \<in> H" "live D F c Q" "\<not> pend F c"
  shows "cinv D H F c s (A @ Q) B w"
  using assms(1)
proof cases
  case (grant A1 A2 g)
  then show ?thesis using cinv.grant [of c H F A1 D Q g] assms by simp
next
  case (rel x m)
  moreover have "rel_ok D F c m" using rel by (auto simp: rel_ok_def)
  ultimately show ?thesis using assms live_stale [OF assms(3)] by (auto intro: cinv.rel)
qed (use assms in \<open>auto intro: cinv.intros\<close>)

lemma cinv_keep: "cinv D H None c s A B w \<Longrightarrow> \<not> pend F c \<Longrightarrow> cinv D H F c s A B w"
  using cinv_add [of D H c s A B w F "[]"] by (cases "c \<in> H") (auto simp: cinv_out)

text \<open>Only membership of the cache in the set of sharers counts.\<close>

lemma cinv_sharers: "cinv D H F c s A B w \<Longrightarrow> c \<in> H \<Longrightarrow> c \<in> H' \<Longrightarrow> cinv D H' F c s A B w"
  by (cases rule: cinv.cases) (auto intro: cinv.intros)

lemma cinv_stays_out: "cinv D H F c s A B w \<Longrightarrow> c \<notin> H \<Longrightarrow> c \<notin> H' \<Longrightarrow> \<not> pend F' c \<Longrightarrow> cinv D' H' F' c s A B w"
  by (simp add: cinv_out)

text \<open>Nothing is expected from a cache that the front request does not concern.\<close>

lemma cinv_idle:
  assumes "cinv D H F c s A B w" "\<not> waits_inv F c" "\<not> waits_wb F c" "\<not> pend F c" "\<not> pend F' c"
  shows "cinv D H F' c s A B w"
proof -
  have no: "\<not> waits_data F c" using assms(2) waits_data_inv by blast
  then have l: "live D F c A \<Longrightarrow> A = []" for A using assms(2,3) by (auto simp: live_def)
  then have l': "live D F c A \<Longrightarrow> live D F' c A" for A by fastforce
  have r: "rel_ok D F c m \<Longrightarrow> rel_ok D F' c m" for m using no by (auto simp: rel_ok_def)
  show ?thesis using assms(1)
  proof cases
    case (grant A1 A2 g)
    then show ?thesis using cinv.grant [of c H F' A1 D "[]" g] l [of A2] assms(5) by simp
  qed (use assms(2-) l' r in \<open>auto intro: cinv.intros\<close>)
qed

text \<open>A reply that gives up the line is received.\<close>

lemma cinv_released:
  assumes "cinv D H F c s A (m # x) w" "m = INV_REP \<or> m = FLUSH_REP" "c \<notin> H'" "\<not> pend F' c"
  shows "cinv D' H' F' c s A x w"
  using assms(1) by cases (use assms(2-) in \<open>auto simp: cinv_out new_req_def\<close>)

lemma cinv_released_in: "cinv D H F c s A (m # x) w \<Longrightarrow> m = INV_REP \<or> m = FLUSH_REP \<Longrightarrow> c \<in> H \<and> \<not> pend F c \<and> s = INVALID"
  by (auto elim!: cinv.cases simp: new_req_def)

lemma cinv_flush: "cinv D H F c s A (FLUSH_REP # x) w \<Longrightarrow> excl D \<or> D = D_SHARED \<and> waits_data F c"
  by (auto elim!: cinv.cases simp: new_req_def rel_ok_def)

text \<open>The reply of an owner that keeps a shared copy is received.\<close>

lemma cinv_written_back:
  assumes "cinv D H F c s A (WB_REP # x) w" "\<not> pend F' c"
  shows "c \<in> H \<and> waits_wb F c \<and> excl D \<and> cinv D_SHARED H F' c s A x w"
  using assms(1) by cases (use assms(2) in \<open>auto simp: new_req_def rel_ok_def intro!: cinv.intros\<close>)

text \<open>A request is received and queued.\<close>

lemma cinv_requested:
  assumes "cinv D H F c s A (t # x) w" "t \<in> {EX_REQ, SH_REQ, UPGRADE_REQ}"
  shows "w = None \<and> \<not> pend F c \<and> cinv D H F c s A x (Some t)"
  using assms(1) by cases (use assms(2) in \<open>auto simp: new_req_def rel_ok_def intro: cinv.intros\<close>)

text \<open>The data of a line that has been fetched from memory is sent.\<close>

lemma cinv_from_memory:
  assumes "cinv D H F c s A B w" "pend F c" "g = EX_REP \<and> excl D \<or> g = SH_REP \<and> D = D_SHARED"
  shows "cinv D H None c s (A @ [g]) B None"
  using assms(1) by cases (use assms(2,3) cinv.grant [of c H None A D "[]" g] in auto)

text \<open>A cache without a copy and with a queued request obtains the line.\<close>

lemma cinv_granted:
  assumes "cinv D H F c s A B w" "c \<notin> H" "c \<in> H'" "w \<noteq> None" "\<not> pend F' c" "g = EX_REP \<and> excl D' \<or> g = SH_REP \<and> D' = D_SHARED"
  shows "cinv D' H' F' c s (A @ [g]) B None"
  using assms cinv.grant [of c H' F' A D' "[]" g] by (auto simp: cinv_out)

lemma cinv_fetching:
  assumes "cinv D H F c s A B w" "c \<notin> H" "c \<in> H'" "w \<noteq> None" "pend F' c"
  shows "cinv D' H' F' c s A B w"
  using assms by (auto simp: cinv_out intro: cinv.memory)

text \<open>The only sharer is upgraded.\<close>

lemma cinv_waiting_request:
  "cinv D H None c s A B (Some t) \<Longrightarrow> c \<in> H \<Longrightarrow> t = UPGRADE_REQ \<and> s = SHARED_UPGRADING \<and> A = [] \<and> B = [] \<and> D = D_SHARED"
  by (auto elim: cinv.cases)

lemma cinv_upgrade:
  "cinv D H None c s A B (Some UPGRADE_REQ) \<Longrightarrow> c \<in> H \<Longrightarrow> excl D' \<Longrightarrow> cinv D' H None c s (A @ [UPGRADE_REP]) B None"
  using cinv_waiting_request [of D H c s A B UPGRADE_REQ] cinv.upgraded [of c H None D' "[]"] by auto

section \<open>Changes of the cache\<close>

text \<open>Requests of the directory to a cache without the line are dropped.\<close>

lemma cache_drops:
  assumes "cinv D H F c INVALID (m # A) B w" "m \<in> {INV_REQ, FLUSH_REQ, WB_REQ}"
  shows "cinv D H F c INVALID A B w"
  using assms(1)
proof cases
  case (grant A1 A2 g)
  then obtain A1' where "A1 = m # A1'" using assms(2) by (cases A1) auto
  with grant show ?thesis by (auto intro: cinv.grant)
qed (use assms(2) in \<open>auto intro: cinv.intros\<close>)

lemma cinv_live_head:
  assumes "cinv D H F c s (m # A) B w" "s \<noteq> INVALID" "m \<in> {INV_REQ, FLUSH_REQ, WB_REQ}"
  shows "A = [] \<and> live D F c [m]"
  using assms(1) by cases (use assms(2-) in \<open>auto simp: live_def\<close>)

text \<open>An invalidated or flushed line is released.\<close>

lemma cache_gives_up:
  assumes inv: "cinv D H F c s (m # A) B w" and s: "s \<noteq> INVALID" and m: "m = INV_REQ \<and> m' = INV_REP \<or> m = FLUSH_REQ \<and> m' = FLUSH_REP"
  shows "cinv D H F c INVALID A (B @ [m']) w"
proof -
  have l: "A = []" "live D F c [m]" using cinv_live_head [OF inv s] m by auto
  then have r: "rel_ok D F c m'" "D = D_SHARED \<Longrightarrow> waits_inv F c" "\<not> waits_wb F c" using m waits_data_inv [of F c]
    by (auto simp: live_def rel_ok_def waits_simps)
  show ?thesis using inv by cases (use s r l m in \<open>auto simp: live_def intro: cinv.intros\<close>)
qed

lemma cache_writes_back:
  assumes inv: "cinv D H F c s (WB_REQ # A) B w" and s: "s \<noteq> INVALID"
  shows "s \<in> {EXCLUSIVE, MODIFIED} \<and> cinv D H F c SHARED A (B @ [WB_REP]) w"
proof -
  have l: "A = []" "excl D" "waits_wb F c" using cinv_live_head [OF inv s] by (auto simp: live_def)
  show ?thesis using inv by cases (use s l in \<open>auto simp: live_def intro: cinv.intros\<close>)
qed

lemma cache_filled:
  assumes "cinv D H F c INVALID (g # A) B w" "g = EX_REP \<or> g = SH_REP"
  shows "cinv D H F c (if g = EX_REP then EXCLUSIVE else SHARED) A B w \<and> B = [] \<and> w = None"
  using assms(1)
proof cases
  case (grant A1 A2 g')
  then have "A1 = []" "g' = g" "A2 = A" using assms(2) by (cases A1; auto)+
  with grant assms(2) show ?thesis by (auto intro: cinv.intros)
qed (use assms(2) in auto)

lemma cache_upgraded:
  assumes "cinv D H F c s (UPGRADE_REP # A) B w"
  shows "s = SHARED_UPGRADING \<and> cinv D H F c MODIFIED A B w \<and> B = [] \<and> w = None"
  using assms
proof cases
  case (grant A1 A2 g)
  then show ?thesis by (cases A1) auto
qed (auto simp: live_def intro: cinv.intros)

lemma cache_evicts:
  assumes "cinv D H F c s A B w" "s = MODIFIED \<and> m = FLUSH_REP \<or> (s = SHARED \<or> s = EXCLUSIVE) \<and> m = INV_REP"
  shows "cinv D H F c INVALID A (B @ [m]) w"
  using assms(1) by cases (use assms(2) in \<open>auto simp: rel_ok_def dest: live_stale intro: cinv.intros\<close>)

lemma cache_dirties: "cinv D H F c EXCLUSIVE A B w \<Longrightarrow> cinv D H F c MODIFIED A B w"
  by (auto elim!: cinv_exclusiveE intro: cinv.owner)

lemma cache_starts_upgrade: "cinv D H F c SHARED A B w \<Longrightarrow> cinv D H F c SHARED_UPGRADING A (B @ [UPGRADE_REQ]) w"
  by (auto elim!: cinv_sharedE intro: cinv.upg cinv.upg_wb)

text \<open>A request of the cache is outstanding.\<close>

definition busy :: "msg_t list \<Rightarrow> msg_t list \<Rightarrow> msg_t option \<Rightarrow> bool" where
  "busy A B w \<longleftrightarrow> w \<noteq> None \<or> set A \<inter> {EX_REP, SH_REP, UPGRADE_REP} \<noteq> {} \<or> set B \<inter> {EX_REQ, SH_REQ, UPGRADE_REQ} \<noteq> {}"

lemma cache_requests:
  assumes "cinv D H F c INVALID A B w" "\<not> busy A B w" "t = SH_REQ \<or> t = EX_REQ"
  shows "cinv D H F c INVALID A (B @ [t]) w"
proof -
  have t: "new_req [t]" using assms(3) by auto
  have x: "x = []" if "new_req x" "set x \<inter> {EX_REQ, SH_REQ, UPGRADE_REQ} = {}" for x using that by (auto simp: new_req_def)
  show ?thesis using assms(1)
  proof cases
    case (rel x m)
    with x [of x] assms(2) t show ?thesis by (auto simp: busy_def intro: cinv.rel)
  next
    case (rel_wb x)
    with x [of x] assms(2) t show ?thesis by (auto simp: busy_def intro: cinv.rel_wb)
  next
    case (out )
    with x [of B] assms(2) t show ?thesis by (auto simp: busy_def intro: cinv.out)
  qed (use assms(2) in \<open>auto simp: busy_def\<close>)
qed

lemma cache_upgrading_busy: "cinv D H F c SHARED_UPGRADING A B w \<Longrightarrow> busy A B w"
  by (auto elim!: cinv_upgradingE simp: busy_def)

section \<open>Serving a request\<close>

definition reads :: "'d shmem_msg list \<Rightarrow> nat" where
  "reads ms = length (filter (\<lambda>m. sm_type m = DRAM_READ_REQ) ms)"

lemma reads_simps [simp]: "reads [] = 0" "reads (ms @ ms') = reads ms + reads ms'"
  "reads [mk_msg t r x a d] = (if t = DRAM_READ_REQ then 1 else 0)"
  by (auto simp: reads_def mk_msg_def)

text \<open>
  What serving the front request of a line comes to: it waits for caches, it waits for
  memory, it is granted the line, it is upgraded, or the line has been given up.
\<close>

inductive served :: "dir_entry \<Rightarrow> 'd shmem_req \<Rightarrow> dir_entry \<Rightarrow> 'd shmem_req \<Rightarrow> 'd shmem_msg list \<Rightarrow> bool \<Rightarrow> bool"
  for e :: dir_entry and rq :: "'d shmem_req" where
  asks: "de_dstate e' = de_dstate e \<Longrightarrow> sharers e' = sharers e \<Longrightarrow> (rq_type rq = SH_REQ \<longrightarrow> excl (de_dstate e)) \<Longrightarrow> reads ms = 0 \<Longrightarrow>
    (\<And>c. c \<in> sharers e \<Longrightarrow> live (de_dstate e) (Some (rq_type rq, rq_requester rq, False)) c (to_cache ms c)) \<Longrightarrow>
    (\<And>c. c \<notin> sharers e \<Longrightarrow> to_cache ms c = []) \<Longrightarrow> served e rq e' rq ms False"
| fetches: "sharers e' = insert (rq_requester rq) (sharers e) \<Longrightarrow> rq_requester rq \<notin> sharers e \<Longrightarrow>
    de_dstate e = D_UNCACHED \<or> de_dstate e = D_SHARED \<and> de_dstate e' = D_SHARED \<Longrightarrow>
    rq_type rq = SH_REQ \<and> (de_dstate e' = D_SHARED \<or> de_dstate e' = D_EXCLUSIVE) \<or>
      (rq_type rq = EX_REQ \<or> rq_type rq = UPGRADE_REQ) \<and> de_dstate e' = D_MODIFIED \<Longrightarrow>
    served e rq e' (rq\<lparr>rq_wait := True\<rparr>) [mk_msg DRAM_READ_REQ (rq_requester rq) h a None] False"
| grants: "sharers e' = insert (rq_requester rq) (sharers e) \<Longrightarrow> rq_requester rq \<notin> sharers e \<Longrightarrow>
    de_dstate e = D_UNCACHED \<or> de_dstate e = D_SHARED \<and> de_dstate e' = D_SHARED \<Longrightarrow>
    g = EX_REP \<and> excl (de_dstate e') \<or> g = SH_REP \<and> de_dstate e' = D_SHARED \<Longrightarrow> rq_type rq \<noteq> NULLIFY_REQ \<Longrightarrow>
    served e rq e' rq [mk_msg g (rq_requester rq) (rq_requester rq) a d] True"
| upgrades: "rq_type rq = UPGRADE_REQ \<Longrightarrow> sharers e = {rq_requester rq} \<Longrightarrow> sharers e' = sharers e \<Longrightarrow> de_dstate e' = D_MODIFIED \<Longrightarrow>
    served e rq e' rq [mk_msg UPGRADE_REP (rq_requester rq) (rq_requester rq) a None] True"
| nullified: "rq_type rq = NULLIFY_REQ \<Longrightarrow> de_dstate e = D_UNCACHED \<Longrightarrow> served e rq e rq [] True"

text \<open>The directories and protocols of the following lemmas: no limit on the sharers, no forwarding.\<close>

definition plain :: "dir_config \<Rightarrow> bool" where
  "plain cfg \<longleftrightarrow> cfg_protocol cfg \<noteq> MESIF \<and> cfg_type cfg \<noteq> LIMITED_NO_BROADCAST"

definition ent_ok :: "dir_config \<Rightarrow> dir_entry \<Rightarrow> bool" where
  "ent_ok cfg e \<longleftrightarrow> entry_ok e \<and> length (de_sharers e) = sharers_size (cfg_max_num_sharers cfg) \<and> sharers e \<subseteq> {..<cfg_max_num_sharers cfg}"

lemma addSharer_plain:
  assumes "addSharer cfg e c = Inr (r, e')" "plain cfg" "ent_ok cfg e" "c < cfg_max_num_sharers cfg"
  shows r
proof -
  have c: "c \<notin> sharers e" using addSharer_Inr [OF assms(1)] by simp
  have "card (insert c (sharers e)) \<le> card {..<cfg_max_num_sharers cfg}"
    using assms(3,4) by (intro card_mono) (auto simp: ent_ok_def)
  then have "getNumSharers e < cfg_max_num_sharers cfg" using c by (simp add: getNumSharers_card)
  with assms(1,2) show ?thesis
    by (cases "cfg_type cfg") (auto simp: addSharer_def plain_def getMaxHwSharers_def split: sum.splits if_splits)
qed

lemma served_retrieve:
  assumes r: "retrieveDataAndSendToL2Cache cfg g a e1 rq cached = Inr (e', rq', ms, fin)" and "plain cfg"
    and e1: "sharers e1 = insert (rq_requester rq) (sharers e)" "rq_requester rq \<notin> sharers e"
      "de_dstate e = D_UNCACHED \<or> de_dstate e = D_SHARED \<and> de_dstate e1 = D_SHARED"
    and g: "g = EX_REP \<and> excl (de_dstate e1) \<or> g = SH_REP \<and> de_dstate e1 = D_SHARED"
    and t: "rq_type rq = SH_REQ \<and> (de_dstate e1 = D_SHARED \<or> de_dstate e1 = D_EXCLUSIVE) \<or>
      (rq_type rq = EX_REQ \<or> rq_type rq = UPGRADE_REQ) \<and> de_dstate e1 = D_MODIFIED"
  shows "served e rq e' rq' ms fin"
  using r
proof (cases rule: retrieve_cases)
  case (cached d)
  have "served e rq e' rq [mk_msg g (rq_requester rq) (rq_requester rq) a (Some d)] True"
    by (rule served.grants) (use cached(2) e1 g t in auto)
  with cached show ?thesis by simp
next
  case (forward f)
  with assms(2) show ?thesis by (simp add: plain_def)
next
  case (dram n)
  have "served e rq e' (rq\<lparr>rq_wait := True\<rparr>) [mk_msg DRAM_READ_REQ (rq_requester rq) n a None] False"
    by (rule served.fetches) (use dram(2) e1 g t in auto)
  with dram show ?thesis by simp
qed

lemma served_take:
  assumes k: "take_line cfg e (rq_requester rq) s = Inr e1" and r: "retrieveDataAndSendToL2Cache cfg g a e1 rq cached = Inr (e', rq', ms, fin)"
    and p: "plain cfg" and u: "de_dstate e = D_UNCACHED"
    and t: "rq_type rq = SH_REQ \<and> (s = D_SHARED \<and> g = SH_REP \<or> s = D_EXCLUSIVE \<and> g = EX_REP) \<or>
      (rq_type rq = EX_REQ \<or> rq_type rq = UPGRADE_REQ) \<and> s = D_MODIFIED \<and> g = EX_REP"
  shows "served e rq e' rq' ms fin"
  using take_line_Inr [OF k] t u by (intro served_retrieve [OF r p]) auto

lemma served_owner:
  assumes a: "ask_owner m a e rq = Inr (e', rq', ms, fin)" and ok: "entry_ok e" "excl (de_dstate e)"
    and l: "\<And>c. c \<in> sharers e \<Longrightarrow> live (de_dstate e) (Some (rq_type rq, rq_requester rq, False)) c [m]" and m: "m \<in> {FLUSH_REQ, WB_REQ}"
  shows "served e rq e' rq' ms fin"
proof -
  obtain w where w: "de_owner e = Some w" "sharers e = {w}" using ok by (auto simp: entry_ok_simps)
  with a have r: "e' = e" "rq' = rq" "ms = [mk_msg m (rq_requester rq) w a None]" "\<not> fin" by (auto simp: ask_owner_def)
  have "served e rq e rq [mk_msg m (rq_requester rq) w a None] False"
    by (rule served.asks) (use w l m ok(2) in auto)
  with r show ?thesis by simp
qed

lemma served_invalidate:
  assumes "invalidate_sharers a e rq = Inr (e', rq', ms, fin)" "de_dstate e = D_SHARED" "rq_type rq \<in> {EX_REQ, NULLIFY_REQ}"
  shows "served e rq e' rq' ms fin"
proof -
  have r: "e' = e" "rq' = rq" "ms = map (\<lambda>c. mk_msg INV_REQ (rq_requester rq) c a None) (getSharersList e)" "\<not> fin"
    using assms(1) by (auto simp: invalidate_sharers_def)
  have "reads ms = 0" unfolding r(3) by (simp add: reads_def mk_msg_def)
  moreover have "to_cache ms c = (if c \<in> sharers e then [INV_REQ] else [])" for c
    unfolding r(3) by (subst to_cache_map) simp_all
  ultimately have "served e rq e rq ms False"
    using assms(2,3) by (intro served.asks) (auto simp: live_def waits_inv_def)
  with r show ?thesis by simp
qed

text \<open>The requester of a line has no copy, unless it wants to upgrade a shared one.\<close>

definition rq_ok :: "dir_config \<Rightarrow> dir_entry \<Rightarrow> 'd shmem_req \<Rightarrow> bool" where
  "rq_ok cfg e rq \<longleftrightarrow> rq_requester rq < cfg_max_num_sharers cfg \<and>
     (rq_requester rq \<in> sharers e \<longrightarrow> rq_type rq = UPGRADE_REQ \<and> de_dstate e = D_SHARED)"

lemma served_Ex:
  assumes p: "processExReqFromL2Cache cfg a e rq cached = Inr (e', rq', ms, fin)" and "plain cfg" "ent_ok cfg e" "rq_type rq = EX_REQ"
  shows "served e rq e' rq' ms fin"
proof -
  have ok: "entry_ok e" using assms(3) by (simp add: ent_ok_def)
  have o: "served e rq e' rq' ms fin" if "ask_owner FLUSH_REQ a e rq = Inr (e', rq', ms, fin)" "excl (de_dstate e)"
    by (rule served_owner [OF that(1) ok that(2)]) (use assms(4) that(2) in \<open>auto simp: live_def waits_inv_def\<close>)
  show ?thesis
  proof (cases "de_dstate e")
    case D_UNCACHED
    then obtain e1 where "take_line cfg e (rq_requester rq) D_MODIFIED = Inr e1"
      "retrieveDataAndSendToL2Cache cfg EX_REP a e1 rq cached = Inr (e', rq', ms, fin)"
      using p by (auto simp: processExReqFromL2Cache_def split: sum.splits)
    with served_take [OF this assms(2) D_UNCACHED] assms(4) show ?thesis by simp
  next
    case D_SHARED
    with p assms(4) show ?thesis by (auto simp: processExReqFromL2Cache_def split: if_splits intro: served_invalidate)
  qed (use p o in \<open>auto simp: processExReqFromL2Cache_def split: if_splits\<close>)
qed

lemma served_Sh:
  assumes p: "processShReqFromL2Cache cfg a e rq cached = Inr (e', rq', ms, fin)" and "plain cfg" "ent_ok cfg e" "rq_type rq = SH_REQ" "rq_ok cfg e rq"
  shows "served e rq e' rq' ms fin"
proof -
  have ok: "entry_ok e" and r: "rq_requester rq \<notin> sharers e" using assms(3-5) by (auto simp: ent_ok_def rq_ok_def)
  have o: "served e rq e' rq' ms fin" if "ask_owner WB_REQ a e rq = Inr (e', rq', ms, fin)" "excl (de_dstate e)"
    by (rule served_owner [OF that(1) ok that(2)]) (use assms(4) r that(2) in \<open>auto simp: live_def waits_wb_def\<close>)
  show ?thesis
  proof (cases "de_dstate e")
    case D_UNCACHED
    let ?s = "if cfg_protocol cfg = MSI then D_SHARED else D_EXCLUSIVE" and ?g = "if cfg_protocol cfg = MSI then SH_REP else EX_REP"
    obtain e1 where e1: "take_line cfg e (rq_requester rq) ?s = Inr e1"
      "retrieveDataAndSendToL2Cache cfg ?g a e1 rq cached = Inr (e', rq', ms, fin)"
      using p D_UNCACHED by (auto simp: processShReqFromL2Cache_def split: sum.splits)
    show ?thesis by (rule served_take [OF e1 assms(2) D_UNCACHED]) (use assms(4) in simp)
  next
    case D_SHARED
    from r obtain b e1 where a: "addSharer cfg e (rq_requester rq) = Inr (b, e1)"
      using p D_SHARED by (auto simp: processShReqFromL2Cache_def hasSharer_iff split: sum.splits bool.splits)
    moreover have b using addSharer_plain [OF a assms(2,3)] assms(5) by (simp add: rq_ok_def)
    ultimately have "retrieveDataAndSendToL2Cache cfg SH_REP a e1 rq cached = Inr (e', rq', ms, fin)"
      using p D_SHARED r by (auto simp: processShReqFromL2Cache_def hasSharer_iff split: sum.splits bool.splits)
    then show ?thesis by (rule served_retrieve [OF _ assms(2)]) (use addSharer_Inr [OF a] D_SHARED assms(4) \<open>b\<close> in auto)
  qed (use p o in \<open>auto simp: processShReqFromL2Cache_def split: if_splits\<close>)
qed

lemma upgrade_invalidations_to_cache:
  assumes "distinct cs"
  shows "to_cache (upgrade_invalidations a r b cs) c \<in> (if c \<in> set cs \<and> c \<noteq> r then {[INV_REQ], [FLUSH_REQ]} else {[]})"
proof -
  let ?f = "\<lambda>(i, c). mk_msg (if \<not> b \<and> i = (0 :: nat) then FLUSH_REQ else INV_REQ) r c a (None :: 'd option)" and ?P = "\<lambda>(i, c). c \<noteq> r"
  have "to_cache (map ?f (filter ?P (enumerate n cs))) c \<in> (if c \<in> set cs \<and> c \<noteq> r then {[INV_REQ], [FLUSH_REQ]} else {[]})" for n
    using assms
  proof (induction cs arbitrary: n)
    case (Cons x cs)
    from Cons.IH [of "Suc n"] Cons.prems show ?case by (cases "c = x") (auto split: if_splits)
  qed simp
  from this [of 0] show ?thesis by (simp add: upgrade_invalidations_def)
qed

lemma served_Upgrade:
  assumes p: "processUpgradeReqFromL2Cache cfg a e rq cached = Inr (e', rq', ms, fin)" and "plain cfg" "ent_ok cfg e" "rq_type rq = UPGRADE_REQ" "rq_ok cfg e rq"
  shows "served e rq e' rq' ms fin"
proof -
  let ?r = "rq_requester rq"
  have ok: "entry_ok e" using assms(3) by (simp add: ent_ok_def)
  have o: "served e rq e' rq' ms fin" if x: "excl (de_dstate e)"
  proof -
    obtain c where c: "de_owner e = Some c" "sharers e = {c}" using ok x by (auto simp: entry_ok_simps)
    have r: "?r \<notin> sharers e" using assms(5) x by (auto simp: rq_ok_def)
    then have "getSharersList e \<noteq> [] \<Longrightarrow> hd (getSharersList e) \<noteq> ?r" using hd_sharers [OF _ c(2)] c(2) by auto
    with p x have "ask_owner FLUSH_REQ a e rq = Inr (e', rq', ms, fin)"
      by (cases "de_dstate e") (auto simp: processUpgradeReqFromL2Cache_def Let_def split: if_splits)
    then show ?thesis by (rule served_owner [OF _ ok x]) (use assms(4) r x in \<open>auto simp: live_def waits_inv_def\<close>)
  qed
  show ?thesis
  proof (cases "de_dstate e")
    case D_UNCACHED
    then obtain e1 d where "take_line cfg e ?r D_MODIFIED = Inr e1" "retrieveDataAndSendToL2Cache cfg EX_REP a e1 rq d = Inr (e', rq', ms, fin)"
      using p by (auto simp: processUpgradeReqFromL2Cache_def Let_def split: sum.splits if_splits)
    with served_take [OF this assms(2) D_UNCACHED] assms(4) show ?thesis by simp
  next
    case D_SHARED
    show ?thesis
    proof (cases "getSharersList e = [?r]")
      case True
      then have s: "sharers e = {?r}" using set_getSharersList [of e] by simp
      with True p D_SHARED have "e' = e\<lparr>de_owner := Some ?r, de_dstate := D_MODIFIED\<rparr>" "rq' = rq" "ms = [mk_msg UPGRADE_REP ?r ?r a None]" "fin"
        by (auto simp: processUpgradeReqFromL2Cache_def Let_def setOwner_Some upgrade_reply_def split: sum.splits)
      with served.upgrades [OF assms(4) s, of e' a] show ?thesis by simp
    next
      case False
      then obtain b where r: "e' = e" "rq' = rq" "ms = upgrade_invalidations a ?r b (getSharersList e)" "\<not> fin"
        using p D_SHARED by (auto simp: processUpgradeReqFromL2Cache_def Let_def elim!: map_sum_InrE)
      have "reads ms = 0" by (auto simp: r(3) upgrade_invalidations_def reads_def mk_msg_def filter_empty_conv)
      moreover have c: "to_cache ms c \<in> (if c \<in> sharers e \<and> c \<noteq> ?r then {[INV_REQ], [FLUSH_REQ]} else {[]})" for c
        using upgrade_invalidations_to_cache [of "getSharersList e" a ?r b c] r(3) by simp
      moreover have "live D_SHARED (Some (UPGRADE_REQ, ?r, False)) c (to_cache ms c)" for c
        using c [of c] by (auto simp: live_def waits_inv_def waits_data_def split: if_splits)
      moreover have "c \<notin> sharers e \<Longrightarrow> to_cache ms c = []" for c using c [of c] by simp
      ultimately have "served e rq e rq ms False" using D_SHARED assms(4) by (intro served.asks) auto
      with r show ?thesis by simp
    qed
  qed (use p o in \<open>auto simp: processUpgradeReqFromL2Cache_def Let_def\<close>)
qed

lemma served_Nullify:
  assumes p: "processNullifyReq a e rq = Inr (e', rq', ms, fin)" and "ent_ok cfg e" "rq_type rq = NULLIFY_REQ"
  shows "served e rq e' rq' ms fin"
proof -
  have ok: "entry_ok e" using assms(2) by (simp add: ent_ok_def)
  have o: "served e rq e' rq' ms fin" if "ask_owner FLUSH_REQ a e rq = Inr (e', rq', ms, fin)" "excl (de_dstate e)"
    by (rule served_owner [OF that(1) ok that(2)]) (use assms(3) that(2) in \<open>auto simp: live_def waits_inv_def\<close>)
  show ?thesis
    by (cases "de_dstate e") (use p o assms(3) in \<open>auto simp: processNullifyReq_def intro: served_invalidate served.nullified\<close>)
qed

lemma process_line_served:
  assumes "process_line cfg a e rq cached = Inr (e', rq', ms, fin)" "plain cfg" "ent_ok cfg e" "rq_type rq \<noteq> NULLIFY_REQ \<Longrightarrow> rq_ok cfg e rq"
  shows "served e rq e' rq' ms fin"
  using assms by (cases "rq_type rq") (auto simp: process_line_def intro: served_Ex served_Sh served_Upgrade served_Nullify)

text \<open>What serving a request leaves as it is.\<close>

lemma take_line_frame: "take_line cfg e c s = Inr e' \<Longrightarrow> de_address e' = de_address e \<and> length (de_sharers e') = length (de_sharers e)"
  by (auto simp: take_line_def setOwner_Some split: sum.splits if_splits elim!: map_sum_InrE dest!: addSharer_Inr)

definition frame :: "u64 \<Rightarrow> dir_entry \<Rightarrow> 'd shmem_req \<Rightarrow> dir_entry \<Rightarrow> 'd shmem_req \<Rightarrow> 'd shmem_msg list \<Rightarrow> bool" where
  "frame a e rq e' rq' ms \<longleftrightarrow> de_address e' = de_address e \<and> length (de_sharers e') = length (de_sharers e) \<and>
     rq_type rq' = rq_type rq \<and> rq_requester rq' = rq_requester rq \<and> (\<forall>m \<in> set ms. sm_address m = a)"

lemma frame_retrieve:
  assumes "retrieveDataAndSendToL2Cache cfg g a e1 rq cached = Inr (e', rq', ms, fin)"
    "de_address e1 = de_address e" "length (de_sharers e1) = length (de_sharers e)"
  shows "frame a e rq e' rq' ms"
  using assms(1) by (cases rule: retrieve_cases) (use assms(2,3) in \<open>auto simp: frame_def mk_msg_def\<close>)

lemma frame_owner: "ask_owner t a e rq = Inr (e', rq', ms, fin) \<Longrightarrow> frame a e rq e' rq' ms"
  by (auto simp: ask_owner_def frame_def mk_msg_def split: option.splits)

lemma frame_invalidate: "invalidate_sharers a e rq = Inr (e', rq', ms, fin) \<Longrightarrow> frame a e rq e' rq' ms"
  by (auto simp: invalidate_sharers_def frame_def mk_msg_def)

lemma frame_Ex: "processExReqFromL2Cache cfg a e rq cached = Inr (e', rq', ms, fin) \<Longrightarrow> frame a e rq e' rq' ms"
  by (cases "de_dstate e") (auto simp: processExReqFromL2Cache_def split: if_splits sum.splits
     intro: frame_owner frame_invalidate dest: take_line_frame elim!: frame_retrieve)

lemma frame_Sh: "processShReqFromL2Cache cfg a e rq cached = Inr (e', rq', ms, fin) \<Longrightarrow> frame a e rq e' rq' ms"
proof (cases "de_dstate e = D_SHARED")
  case False
  then show "processShReqFromL2Cache cfg a e rq cached = Inr (e', rq', ms, fin) \<Longrightarrow> ?thesis"
    by (cases "de_dstate e") (auto simp: processShReqFromL2Cache_def split: if_splits sum.splits
       intro: frame_owner dest: take_line_frame elim!: frame_retrieve)
next
  case True
  assume p: "processShReqFromL2Cache cfg a e rq cached = Inr (e', rq', ms, fin)"
  consider "retrieveDataAndSendToL2Cache cfg SH_REP a e rq cached = Inr (e', rq', ms, fin)"
    | e1 where "addSharer cfg e (rq_requester rq) = Inr (True, e1)" "retrieveDataAndSendToL2Cache cfg SH_REP a e1 rq cached = Inr (e', rq', ms, fin)"
    | e1 c where "addSharer cfg e (rq_requester rq) = Inr (False, e1)" "getOneSharer cfg e1 = Inr (c, e')"
        "ms = [mk_msg INV_REQ (rq_requester rq) c a None]" "rq' = rq"
    using p True by (auto simp: processShReqFromL2Cache_def split: sum.splits bool.splits elim!: map_sum_InrE)
  then show ?thesis
  proof cases
    case 3
    from addSharer_Inr [OF 3(1)] have "e1 = e" by simp
    then obtain x where "e' = e\<lparr>de_seed := x\<rparr>" using getOneSharer_Inr [OF 3(2)] by blast
    with 3 show ?thesis by (simp add: frame_def mk_msg_def)
  qed (auto intro: frame_retrieve dest: addSharer_Inr)
qed

lemma frame_Upgrade: "processUpgradeReqFromL2Cache cfg a e rq cached = Inr (e', rq', ms, fin) \<Longrightarrow> frame a e rq e' rq' ms"
proof -
  have u: "upgrade_reply a e1 rq = Inr (e', rq', ms, fin) \<Longrightarrow> de_address e1 = de_address e \<Longrightarrow>
      length (de_sharers e1) = length (de_sharers e) \<Longrightarrow> frame a e rq e' rq' ms" for e1
    by (auto simp: upgrade_reply_def frame_def mk_msg_def)
  have i: "frame a e rq e rq (upgrade_invalidations a r b cs)" for r b cs by (auto simp: frame_def upgrade_invalidations_def mk_msg_def)
  show "processUpgradeReqFromL2Cache cfg a e rq cached = Inr (e', rq', ms, fin) \<Longrightarrow> ?thesis"
    by (cases "de_dstate e") (auto simp: processUpgradeReqFromL2Cache_def Let_def setOwner_Some split: if_splits sum.splits
       intro: frame_owner i u dest: take_line_frame elim!: frame_retrieve map_sum_InrE)
qed

lemma process_line_frame:
  assumes "process_line cfg a e rq cached = Inr (e', rq', ms, fin)"
  shows "frame a e rq e' rq' ms"
proof -
  have n: "processNullifyReq a e rq = Inr (e', rq', ms, fin) \<Longrightarrow> frame a e rq e' rq' ms"
    by (cases "de_dstate e") (auto simp: processNullifyReq_def frame_def [of _ _ _ _ _ "[]"] intro: frame_owner frame_invalidate)
  show ?thesis using assms by (cases "rq_type rq") (auto simp: process_line_def intro: frame_Ex frame_Sh frame_Upgrade n)
qed

end
