(* ===== verification/Coherence_Queue.thy ===== *)
theory Coherence_Queue
  imports Coherence_Line
begin

text \<open>
  The invariant of a line with its queue of requests, and what serving the front
  request and receiving a reply do to it.
\<close>

section \<open>Queues\<close>

definition front_of :: "'d shmem_req list \<Rightarrow> front" where
  "front_of q = (case q of [] \<Rightarrow> None | rq # _ \<Rightarrow> Some (rq_type rq, rq_requester rq, rq_wait rq))"

text \<open>The request of a cache in a queue.\<close>

definition own :: "'d shmem_req list \<Rightarrow> nat \<Rightarrow> msg_t option" where
  "own q c = map_option rq_type (find (\<lambda>rq. rq_requester rq = c \<and> rq_type rq \<noteq> NULLIFY_REQ) q)"

text \<open>
  Every cache has at most one request in the queue; only the front request may wait
  for memory, and only the front request may be one of the directory itself.
\<close>

definition queue_ok :: "nat \<Rightarrow> 'd shmem_req list \<Rightarrow> bool" where
  "queue_ok n q \<longleftrightarrow> distinct (map rq_requester (filter (\<lambda>rq. rq_type rq \<noteq> NULLIFY_REQ) q)) \<and>
     (\<forall>rq \<in> set q. rq_type rq = NULLIFY_REQ \<or> rq_type rq \<in> {EX_REQ, SH_REQ, UPGRADE_REQ} \<and> rq_requester rq < n) \<and>
     (\<forall>rq \<in> set q. rq_forwarding_from rq = None) \<and>
     (\<forall>rq \<in> set (tl q). \<not> rq_wait rq \<and> rq_type rq \<noteq> NULLIFY_REQ)"

lemma front_of_simps [simp]: "front_of [] = None" "front_of (rq # q) = Some (rq_type rq, rq_requester rq, rq_wait rq)"
  by (simp_all add: front_of_def)

lemma own_simps [simp]: "own [] c = None"
  "own (rq # q) c = (if rq_requester rq = c \<and> rq_type rq \<noteq> NULLIFY_REQ then Some (rq_type rq) else own q c)"
  by (simp_all add: own_def)

lemma own_append: "own (q @ [rq]) c = (if own q c = None \<and> rq_requester rq = c \<and> rq_type rq \<noteq> NULLIFY_REQ then Some (rq_type rq) else own q c)"
  by (induction q) auto

lemma own_None: "own q c = None \<longleftrightarrow> c \<notin> set (map rq_requester (filter (\<lambda>rq. rq_type rq \<noteq> NULLIFY_REQ) q))"
  by (induction q) auto

lemma queue_ok_Nil [simp]: "queue_ok n []"
  by (simp add: queue_ok_def)

lemma queue_ok_tl: "queue_ok n (rq # q) \<Longrightarrow> queue_ok n q \<and> (\<forall>rq \<in> set q. \<not> rq_wait rq) \<and>
    (rq_type rq \<noteq> NULLIFY_REQ \<longrightarrow> own q (rq_requester rq) = None)"
  by (cases q) (auto simp: queue_ok_def own_None)

lemma queue_ok_hd: "queue_ok n (rq # q) \<Longrightarrow> rq_type rq' = rq_type rq \<Longrightarrow> rq_requester rq' = rq_requester rq \<Longrightarrow>
    rq_forwarding_from rq' = rq_forwarding_from rq \<Longrightarrow> queue_ok n (rq' # q)"
  by (auto simp: queue_ok_def)

lemma queue_ok_append:
  "queue_ok n q \<Longrightarrow> rq_type rq \<in> {EX_REQ, SH_REQ, UPGRADE_REQ} \<Longrightarrow> rq_requester rq < n \<Longrightarrow> \<not> rq_wait rq \<Longrightarrow> rq_forwarding_from rq = None \<Longrightarrow>
   own q (rq_requester rq) = None \<Longrightarrow> queue_ok n (q @ [rq])"
proof -
  assume a: "queue_ok n q" "rq_type rq \<in> {EX_REQ, SH_REQ, UPGRADE_REQ}" "rq_requester rq < n" "\<not> rq_wait rq"
    "rq_forwarding_from rq = None" "own q (rq_requester rq) = None"
  then have n: "rq_type rq \<noteq> NULLIFY_REQ" by auto
  have "rq_requester rq \<notin> set (map rq_requester (filter (\<lambda>rq. rq_type rq \<noteq> NULLIFY_REQ) q))" using a(6) by (simp only: own_None not_False_eq_True)
  then have "distinct (map rq_requester (filter (\<lambda>rq. rq_type rq \<noteq> NULLIFY_REQ) (q @ [rq])))" using a(1) n by (simp add: queue_ok_def)
  moreover have "\<forall>r \<in> set (tl (q @ [rq])). \<not> rq_wait r \<and> rq_type r \<noteq> NULLIFY_REQ" using a(1,4) n by (cases q) (auto simp: queue_ok_def)
  ultimately show ?thesis using a(1,2,3,5) by (simp add: queue_ok_def)
qed

section \<open>The invariant of a line\<close>

text \<open>
  \<open>ready\<close>: the front request, if there is one, is to be served now. \<open>good\<close>: the front
  request waits; \<open>nd\<close> is the number of reads of the line that memory has not answered.
\<close>

definition ready ::
  "dir_config \<Rightarrow> dir_entry \<Rightarrow> 'd shmem_req list \<Rightarrow> (nat \<Rightarrow> cstate) \<Rightarrow> (nat \<Rightarrow> msg_t list) \<Rightarrow> (nat \<Rightarrow> msg_t list) \<Rightarrow> bool" where
  "ready cfg e q s A B \<longleftrightarrow> ent_ok cfg e \<and> queue_ok (cfg_max_num_sharers cfg) q \<and> (\<forall>rq \<in> set q. \<not> rq_wait rq) \<and>
     (\<forall>c. cinv (de_dstate e) (sharers e) None c (s c) (A c) (B c) (own q c))"

definition good ::
  "dir_config \<Rightarrow> dir_entry \<Rightarrow> 'd shmem_req list \<Rightarrow> (nat \<Rightarrow> cstate) \<Rightarrow> (nat \<Rightarrow> msg_t list) \<Rightarrow> (nat \<Rightarrow> msg_t list) \<Rightarrow> nat \<Rightarrow> bool" where
  "good cfg e q s A B nd \<longleftrightarrow> ent_ok cfg e \<and> queue_ok (cfg_max_num_sharers cfg) q \<and> front_ok (de_dstate e) (sharers e) (front_of q) \<and>
     nd = (case q of [] \<Rightarrow> 0 | rq # _ \<Rightarrow> if rq_wait rq then 1 else 0) \<and>
     (\<forall>c. cinv (de_dstate e) (sharers e) (front_of q) c (s c) (A c) (B c) (own q c))"

lemma good_idle: "q = [] \<Longrightarrow> good cfg e q s A B nd \<longleftrightarrow> ready cfg e q s A B \<and> nd = 0"
  by (auto simp: good_def ready_def front_ok_def)

lemma ready_rq_ok:
  assumes "ready cfg e (rq # q) s A B" "rq_type rq \<noteq> NULLIFY_REQ"
  shows "rq_ok cfg e rq"
proof -
  have c: "cinv (de_dstate e) (sharers e) None (rq_requester rq) (s (rq_requester rq)) (A (rq_requester rq)) (B (rq_requester rq)) (Some (rq_type rq))"
    using assms by (auto simp: ready_def dest!: spec [of _ "rq_requester rq"])
  show ?thesis using cinv_waiting_request [OF c] assms by (auto simp: rq_ok_def ready_def queue_ok_def)
qed

lemma served_waits:
  assumes r: "ready cfg e (rq # q) s A B" and sv: "served e rq e' rq' ms False"
    and f: "ent_ok cfg e'" "rq_type rq' = rq_type rq" "rq_requester rq' = rq_requester rq"
  shows "good cfg e' (rq' # q) s (\<lambda>c. A c @ to_cache ms c) B (reads ms)"
proof -
  have "rq_forwarding_from rq' = rq_forwarding_from rq" using sv by cases simp_all
  then have q: "queue_ok (cfg_max_num_sharers cfg) (rq' # q)" using r f queue_ok_hd by (auto simp: ready_def)
  have o: "own (rq' # q) c = own (rq # q) c" for c using f(2,3) by simp
  have c: "cinv (de_dstate e) (sharers e) None c (s c) (A c) (B c) (own (rq' # q) c)" for c unfolding o using r by (simp only: ready_def)
  from sv show ?thesis
  proof cases
    case asks
    then have w: "\<not> rq_wait rq'" using r by (simp add: ready_def)
    have "cinv (de_dstate e) (sharers e) (front_of (rq' # q)) x (s x) (A x @ to_cache ms x) (B x) (own (rq' # q) x)" for x
      using cinv_add [OF c [of x], of "front_of (rq' # q)" "to_cache ms x"] cinv_keep [OF c [of x], of "front_of (rq' # q)"] asks w
      by (cases "x \<in> sharers e") (auto simp: pend_def)
    with asks w q f(1) show ?thesis by (simp add: good_def front_ok_def)
  next
    case (fetches h a)
    have "rq_type rq \<noteq> NULLIFY_REQ" using fetches by auto
    then have m: "cinv (de_dstate e') (sharers e') (front_of (rq' # q)) x (s x) (A x) (B x) (own (rq' # q) x)" for x
      using c [of x] fetches cinv_fetching [OF c [of x]] cinv_stays_out [OF c [of x], of "sharers e'"]
        cinv_sharers [OF cinv_keep [OF c [of x], of "front_of (rq' # q)"], of "sharers e'"] entry_ok_simps(1) [of e] r
      by (cases "x = rq_requester rq"; cases "x \<in> sharers e") (auto simp: pend_def ready_def ent_ok_def)
    with fetches q f(1) show ?thesis by (auto simp: good_def front_ok_def)
  qed simp_all
qed

lemma served_completes:
  assumes r: "ready cfg e (rq # q) s A B" and sv: "served e rq e' rq' ms True" and f: "ent_ok cfg e'"
  shows "ready cfg e' q s (\<lambda>c. A c @ to_cache ms c) B \<and> reads ms = 0"
proof -
  have q: "queue_ok (cfg_max_num_sharers cfg) q" "\<forall>rq \<in> set q. \<not> rq_wait rq" "rq_type rq \<noteq> NULLIFY_REQ \<Longrightarrow> own q (rq_requester rq) = None"
    using r queue_ok_tl [of _ rq q] by (auto simp: ready_def)
  have c: "cinv (de_dstate e) (sharers e) None c (s c) (A c) (B c) (own (rq # q) c)" for c using r by (simp add: ready_def)
  from sv show ?thesis
  proof cases
    case (grants g a d)
    have "cinv (de_dstate e') (sharers e') None x (s x) (A x @ to_cache ms x) (B x) (own q x)" for x
      using c [of x] grants q(3) cinv_granted [OF c [of x], of "sharers e'" None g "de_dstate e'"] cinv_stays_out [OF c [of x], of "sharers e'" None]
        cinv_sharers [OF c [of x], of "sharers e'"] entry_ok_simps(1) [of e] r
      by (cases "x = rq_requester rq"; cases "x \<in> sharers e") (auto simp: ready_def ent_ok_def)
    with grants q(1,2) f show ?thesis by (auto simp: ready_def)
  next
    case (upgrades a)
    have "cinv (de_dstate e') (sharers e') None x (s x) (A x @ to_cache ms x) (B x) (own q x)" for x
      using c [of x] upgrades q(3) cinv_upgrade [of "de_dstate e" "sharers e" x "s x" "A x" "B x" "de_dstate e'"]
        cinv_stays_out [OF c [of x], of "sharers e'" None]
      by (cases "x = rq_requester rq") auto
    with upgrades q(1,2) f show ?thesis by (simp add: ready_def)
  next
    case nullified
    with c q(1,2) f show ?thesis by (simp add: ready_def)
  qed simp_all
qed

text \<open>Serving the front request of a line that is ready.\<close>

lemma serve_line:
  assumes r: "ready cfg e (rq # q) s A B" and p: "plain cfg" and l: "process_line cfg a e rq cached = Inr (e', rq', ms, fin)"
  shows "if fin then ready cfg e' q s (\<lambda>c. A c @ to_cache ms c) B \<and> reads ms = 0
    else good cfg e' (rq' # q) s (\<lambda>c. A c @ to_cache ms c) B (reads ms)"
proof -
  have ok: "ent_ok cfg e" using r by (simp add: ready_def)
  have sv: "served e rq e' rq' ms fin" by (rule process_line_served [OF l p ok ready_rq_ok [OF r]])
  note fr = process_line_frame [OF l, unfolded frame_def]
  have "sharers e' \<subseteq> {..<cfg_max_num_sharers cfg}" using sv
  proof cases
    case (fetches h a)
    moreover have "rq_type rq \<noteq> NULLIFY_REQ" using fetches by auto
    ultimately show ?thesis using ready_rq_ok [OF r] ok by (auto simp: rq_ok_def ent_ok_def)
  next
    case (grants g a d)
    then show ?thesis using ready_rq_ok [OF r] ok by (auto simp: rq_ok_def ent_ok_def)
  qed (use ok in \<open>auto simp: ent_ok_def\<close>)
  then have ok': "ent_ok cfg e'" using process_line_post [OF l] ok fr by (auto simp: ent_ok_def line_post_def)
  show ?thesis using served_completes [OF r _ ok'] served_waits [OF r _ ok'] sv fr by (cases fin) auto
qed

section \<open>Replies and requests\<close>

text \<open>
  A cache gives up the line. The front request goes on when nothing else holds it up;
  a line whose last sharer is gone is ready in any case.
\<close>

lemma released_cinv:
  assumes g: "good cfg e q s A B nd" and b: "B c = m # x" "m = INV_REP \<or> m = FLUSH_REP"
    and e': "sharers e' = sharers e - {c}" "sharers e' \<noteq> {} \<Longrightarrow> de_dstate e' = de_dstate e"
  shows "cinv (de_dstate e') (sharers e') (front_of q) d (s d) (A d) ((B(c := x)) d) (own q d)"
proof -
  have cd: "cinv (de_dstate e) (sharers e) (front_of q) d (s d) (A d) (B d) (own q d)" for d using g by (simp add: good_def)
  have cc: "\<not> pend (front_of q) c" using cinv_released_in [of _ _ _ c] cd [of c] b by fastforce
  show ?thesis
  proof (cases "d = c")
    case True
    then show ?thesis using cinv_released [OF cd [of c, unfolded b(1)] b(2) _ cc] e'(1) by simp
  next
    case False
    show ?thesis
    proof (cases "d \<in> sharers e")
      case True
      then have "d \<in> sharers e'" using False e'(1) by simp
      moreover then have "de_dstate e' = de_dstate e" using e'(2) by blast
      ultimately show ?thesis using cinv_sharers [OF cd [of d] True] False by simp
    next
      case out: False
      then have "\<not> pend (front_of q) d" using cd [of d] by (simp add: cinv_out)
      with out False e'(1) show ?thesis using cinv_stays_out [OF cd [of d] out] by simp
    qed
  qed
qed

lemma released_ready:
  assumes g: "good cfg e q s A B nd" and b: "B c = m # x" "m = INV_REP \<or> m = FLUSH_REP"
    and e': "sharers e' = sharers e - {c}" "sharers e' \<noteq> {} \<Longrightarrow> de_dstate e' = de_dstate e" "ent_ok cfg e'"
    and r: "sharers e' = {} \<or> (\<exists>rq q'. q = rq # q' \<and> rq_type rq = UPGRADE_REQ \<and> sharers e' = {rq_requester rq} \<and> \<not> rq_wait rq)"
  shows "ready cfg e' q s A (B(c := x)) \<and> nd = 0"
proof -
  have cd: "cinv (de_dstate e') (sharers e') (front_of q) d (s d) (A d) ((B(c := x)) d) (own q d)" for d
    by (rule released_cinv [OF g b e'(1,2)])
  have w: "\<forall>rq \<in> set q. \<not> rq_wait rq" using r
  proof
    assume n: "sharers e' = {}"
    have "\<not> pend (front_of q) d" for d using cd [of d] n by (simp add: cinv_out)
    then show ?thesis using g by (cases q) (auto simp: pend_def good_def queue_ok_def)
  qed (use g in \<open>auto simp: good_def queue_ok_def\<close>)
  then have "nd = 0" "\<not> pend (front_of q) d" for d using g by (cases q; auto simp: good_def pend_def)+
  have "cinv (de_dstate e') (sharers e') None d (s d) (A d) ((B(c := x)) d) (own q d)" for d
  proof (cases "d \<in> sharers e'")
    case True
    with r obtain rq q' where q: "q = rq # q'" "rq_type rq = UPGRADE_REQ" "rq_requester rq = d" by auto
    show ?thesis by (rule cinv_idle [OF cd]) (use q \<open>\<not> pend (front_of q) d\<close> in \<open>auto simp: waits_simps\<close>)
  next
    case False
    then show ?thesis using cinv_stays_out [OF cd [of d] False False, of None] by simp
  qed
  with w \<open>nd = 0\<close> g e'(3) show ?thesis by (auto simp: ready_def good_def)
qed

lemma released_good:
  assumes g: "good cfg e q s A B nd" and b: "B c = m # x" "m = INV_REP \<or> m = FLUSH_REP"
    and e': "sharers e' = sharers e - {c}" "sharers e' \<noteq> {} \<Longrightarrow> de_dstate e' = de_dstate e" "ent_ok cfg e'" "sharers e' \<noteq> {}"
  shows "good cfg e' q s A (B(c := x)) nd"
proof -
  have cd: "cinv (de_dstate e') (sharers e') (front_of q) d (s d) (A d) ((B(c := x)) d) (own q d)" for d
    by (rule released_cinv [OF g b e'(1,2)])
  have "\<not> pend (front_of q) c" using cd [of c] e'(1) by (simp add: cinv_out)
  then have "front_ok (de_dstate e') (sharers e') (front_of q)" using g e'(1,2,4)
    by (cases q) (auto simp: good_def front_ok_def pend_def split: if_splits)
  with cd g e'(3) show ?thesis by (simp add: good_def)
qed

lemma inv_entry_frame:
  assumes i: "inv_entry e c = Inr e'"
  shows "de_address e' = de_address e \<and> length (de_sharers e') = length (de_sharers e) \<and> (de_dstate e = D_SHARED \<or> de_dstate e = D_EXCLUSIVE) \<and>
    (sharers e' \<noteq> {} \<longrightarrow> de_dstate e' = de_dstate e)"
proof -
  have s: "de_dstate e = D_SHARED \<or> de_dstate e = D_EXCLUSIVE" using i by (auto simp: inv_entry_def split: if_splits)
  obtain e1 where r: "removeSharer e c = Inr e1" using i by (auto simp: inv_entry_def split: if_splits elim!: map_sum_InrE)
  define e2 where "e2 = (if de_forwarder e1 = Some c then e1\<lparr>de_forwarder := None\<rparr> else e1)"
  have e1: "de_address e1 = de_address e \<and> length (de_sharers e1) = length (de_sharers e) \<and> de_dstate e1 = de_dstate e"
    using r by (auto simp: removeSharer_Inr)
  have e2: "de_address e2 = de_address e" "length (de_sharers e2) = length (de_sharers e)" "de_dstate e2 = de_dstate e"
    using e1 by (simp_all add: e2_def)
  have ns: "\<not> (de_dstate e \<noteq> D_SHARED \<and> de_dstate e \<noteq> D_EXCLUSIVE)" using s by blast
  have "inv_entry e c = Inr (if getNumSharers e2 = 0 then e2\<lparr>de_dstate := D_UNCACHED\<rparr> else e2)"
    unfolding inv_entry_def if_not_P [OF ns] r map_sum.simps Let_def e2_def ..
  then have e': "e' = (if sharers e2 = {} then e2\<lparr>de_dstate := D_UNCACHED\<rparr> else e2)" using i by simp
  show ?thesis using e2 s unfolding e' by (cases "sharers e2 = {}") simp_all
qed

lemma flush_entry_frame:
  assumes "flush_entry e c = Inr e'"
  shows "de_address e' = de_address e \<and> length (de_sharers e') = length (de_sharers e) \<and> (sharers e' \<noteq> {} \<longrightarrow> de_dstate e' = de_dstate e)"
proof -
  obtain e1 where r: "removeSharer e c = Inr e1" using assms by (auto simp: flush_entry_def split: sum.splits)
  have e1: "de_address e1 = de_address e \<and> length (de_sharers e1) = length (de_sharers e) \<and> de_dstate e1 = de_dstate e"
    using r by (auto simp: removeSharer_Inr)
  show ?thesis using assms r e1 by (auto simp: flush_entry_def Let_def split: if_splits)
qed

lemma wb_entry_frame: "wb_entry e c = Inr e' \<Longrightarrow>
    de_address e' = de_address e \<and> length (de_sharers e') = length (de_sharers e) \<and> sharers e' = sharers e \<and> de_dstate e' = D_SHARED"
  by (auto simp: wb_entry_def split: sum.splits if_splits)

lemma excl_sharer: "entry_ok e \<Longrightarrow> excl (de_dstate e) \<Longrightarrow> c \<in> sharers e \<Longrightarrow> sharers e = {c}"
  by (auto simp: entry_ok_simps)

lemma uncached_sharers: "entry_ok e \<Longrightarrow> de_dstate e = D_UNCACHED \<longleftrightarrow> sharers e = {}"
  by (cases "de_dstate e") (auto simp: entry_ok_simps)

lemma inv_released:
  assumes g: "good cfg e q s A B nd" and b: "B c = INV_REP # x" and i: "inv_entry e c = Inr e'"
  shows "sharers e' = {} \<or> (\<exists>rq q'. q = rq # q' \<and> rq_type rq = UPGRADE_REQ \<and> sharers e' = {rq_requester rq} \<and> \<not> rq_wait rq) \<Longrightarrow>
      ready cfg e' q s A (B(c := x)) \<and> nd = 0"
    "sharers e' \<noteq> {} \<Longrightarrow> good cfg e' q s A (B(c := x)) nd"
proof -
  have eok: "entry_ok e" "ent_ok cfg e" using g by (auto simp: good_def ent_ok_def)
  note i1 = inv_entry_ok [OF i eok(1)] and i2 = inv_entry_frame [OF i]
  have ok: "ent_ok cfg e'" using i1 i2 eok by (auto simp: ent_ok_def)
  show "sharers e' = {} \<or> (\<exists>rq q'. q = rq # q' \<and> rq_type rq = UPGRADE_REQ \<and> sharers e' = {rq_requester rq} \<and> \<not> rq_wait rq) \<Longrightarrow>
      ready cfg e' q s A (B(c := x)) \<and> nd = 0"
    by (rule released_ready [OF g b _ _ _ ok]) (use i1 i2 in auto)
  show "sharers e' \<noteq> {} \<Longrightarrow> good cfg e' q s A (B(c := x)) nd"
    by (rule released_good [OF g b _ _ _ ok]) (use i1 i2 in auto)
qed

lemma line_INV_REP_idle:
  assumes "good cfg e q s A B nd" "B c = INV_REP # x" "inv_entry e c = Inr e'" "q = []"
  shows "good cfg e' q s A (B(c := x)) nd"
  using inv_released [OF assms(1-3)] by (cases "sharers e' = {}") (simp_all add: good_idle [OF assms(4)])

lemma line_INV_REP:
  assumes g: "good cfg e (rq # q) s A B nd" and b: "B c = INV_REP # x" and i: "inv_entry e c = Inr e'" and w: "inv_wakes e' rq c = Inr w"
  shows "if w then ready cfg e' (rq # q) s A (B(c := x)) \<and> nd = 0 else good cfg e' (rq # q) s A (B(c := x)) nd"
proof -
  have eok: "entry_ok e" using g by (simp add: good_def ent_ok_def)
  note i1 = inv_entry_ok [OF i eok] and i2 = inv_entry_frame [OF i] and rel = inv_released [OF g b i]
  have fr: "front_ok (de_dstate e) (sharers e) (Some (rq_type rq, rq_requester rq, rq_wait rq))" "rq_forwarding_from rq = None"
    "rq_type rq \<in> {EX_REQ, SH_REQ, UPGRADE_REQ, NULLIFY_REQ}" using g by (auto simp: good_def queue_ok_def)
  have "cinv (de_dstate e) (sharers e) (front_of (rq # q)) c (s c) (A c) (B c) (own (rq # q) c)"
    using g by (simp only: good_def)
  then have "\<not> pend (front_of (rq # q)) c" using cinv_released_in [OF _ disjI1 [OF refl]] unfolding b by blast
  then have cr: "rq_wait rq \<Longrightarrow> rq_requester rq \<noteq> c" by (auto simp: pend_def)
  have fin: ?thesis if "w \<Longrightarrow> sharers e' = {} \<or> rq_type rq = UPGRADE_REQ \<and> sharers e' = {rq_requester rq} \<and> \<not> rq_wait rq" "\<not> w \<Longrightarrow> sharers e' \<noteq> {}"
    using rel that by (cases w) auto
  from fr(3) consider "rq_type rq = UPGRADE_REQ" | "rq_type rq = SH_REQ" "rq_wait rq" | "rq_type rq = SH_REQ" "\<not> rq_wait rq"
    | "rq_type rq = EX_REQ \<or> rq_type rq = NULLIFY_REQ" by blast
  then show ?thesis
  proof cases
    case 1
    with fr(1) i2 have nw: "\<not> rq_wait rq" by (auto simp: front_ok_def)
    have n1: "getNumSharers e' = 1 \<Longrightarrow> rq_requester rq \<in> sharers e' \<Longrightarrow> sharers e' = {rq_requester rq}"
      by (auto simp: getNumSharers_card card_1_singleton_iff)
    show ?thesis
    proof (rule fin)
      show "w \<Longrightarrow> sharers e' = {} \<or> rq_type rq = UPGRADE_REQ \<and> sharers e' = {rq_requester rq} \<and> \<not> rq_wait rq"
        using w 1 n1 nw by (auto simp: inv_wakes_def hasSharer_iff split: if_splits)
      show "\<not> w \<Longrightarrow> sharers e' \<noteq> {}"
        using w 1 getNumSharers_0 [of e'] by (auto simp: inv_wakes_def split: if_splits simp del: getNumSharers_0)
    qed
  next
    case 2
    then have "rq_requester rq \<in> sharers e'" "\<not> w" using cr fr(1) i1 w by (auto simp: front_ok_def inv_wakes_def)
    then show ?thesis by (intro fin) auto
  next
    case 3
    then have "w" "excl (de_dstate e)" using fr w by (auto simp: front_ok_def inv_wakes_def)
    have "sharers e = {c}" by (rule excl_sharer [OF eok \<open>excl (de_dstate e)\<close>]) (use i1 in simp)
    with i1 \<open>w\<close> show ?thesis by (intro fin) simp_all
  next
    case 4
    then have "w \<longleftrightarrow> de_dstate e' = D_UNCACHED" using w by (auto simp: inv_wakes_def)
    also have "\<dots> \<longleftrightarrow> sharers e' = {}" by (rule uncached_sharers) (use i1 in simp)
    finally have "w \<longleftrightarrow> sharers e' = {}" .
    then show ?thesis by (intro fin) simp_all
  qed
qed

text \<open>The line is given up with its data; only an upgrade may still wait for other caches.\<close>

lemma line_FLUSH_REP:
  assumes g: "good cfg e q s A B nd" and b: "B c = FLUSH_REP # x" and i: "flush_entry e c = Inr e'"
  shows "q = [] \<or> rq_type (hd q) \<noteq> UPGRADE_REQ \<or> getNumSharers e' = 0 \<Longrightarrow> ready cfg e' q s A (B(c := x)) \<and> nd = 0"
    "getNumSharers e' \<noteq> 0 \<Longrightarrow> good cfg e' q s A (B(c := x)) nd"
proof -
  have eok: "entry_ok e" "ent_ok cfg e" using g by (auto simp: good_def ent_ok_def)
  note i1 = flush_entry_ok [OF i] and i2 = flush_entry_frame [OF i]
  have ok: "ent_ok cfg e'" using i1 i2 eok by (auto simp: ent_ok_def)
  have "excl (de_dstate e) \<or> de_dstate e = D_SHARED \<and> waits_data (front_of q) c"
    using g b cinv_flush [of "de_dstate e" "sharers e" "front_of q" c "s c" "A c" x "own q c"] by (auto simp: good_def dest!: spec [of _ c])
  then have "q = [] \<or> rq_type (hd q) \<noteq> UPGRADE_REQ \<Longrightarrow> sharers e' = {}"
    using i1 excl_sharer [OF eok(1), of c] by (cases q) (auto simp: waits_data_def)
  then show "q = [] \<or> rq_type (hd q) \<noteq> UPGRADE_REQ \<or> getNumSharers e' = 0 \<Longrightarrow> ready cfg e' q s A (B(c := x)) \<and> nd = 0"
    using released_ready [OF g b _ _ _ ok] i1 i2 by auto
  show "getNumSharers e' \<noteq> 0 \<Longrightarrow> good cfg e' q s A (B(c := x)) nd"
    using released_good [OF g b _ _ _ ok] i1 i2 by auto
qed

lemma line_WB_REP:
  assumes g: "good cfg e q s A B nd" and b: "B c = WB_REP # x" and i: "wb_entry e c = Inr e'"
  shows "ready cfg e' q s A (B(c := x)) \<and> nd = 0 \<and> (\<exists>rq q'. q = rq # q' \<and> rq_type rq = SH_REQ)"
proof -
  have eok: "entry_ok e" "ent_ok cfg e" using g by (auto simp: good_def ent_ok_def)
  note i1 = wb_entry_ok [OF i] and i2 = wb_entry_frame [OF i]
  have cd: "cinv (de_dstate e) (sharers e) (front_of q) d (s d) (A d) (B d) (own q d)" for d using g by (simp add: good_def)
  have c: "c \<in> sharers e" "waits_wb (front_of q) c" "excl (de_dstate e)" "cinv D_SHARED (sharers e) None c (s c) (A c) x (own q c)"
    using cinv_written_back [OF cd [of c, unfolded b], of None] by auto
  obtain rq q' where q: "q = rq # q'" "rq_type rq = SH_REQ" "\<not> rq_wait rq" using c(2) by (cases q) (auto simp: waits_wb_def)
  have "cinv (de_dstate e') (sharers e') None d (s d) (A d) ((B(c := x)) d) (own q d)" for d
    using c(4) i2 cinv_stays_out [OF cd [of d], of "sharers e'" None "de_dstate e'"] excl_sharer [OF eok(1) c(3,1)] by (cases "d = c") auto
  then show ?thesis using g q i1 i2 eok(2) by (auto simp: ready_def good_def ent_ok_def queue_ok_def)
qed

lemma line_request:
  assumes g: "good cfg e q s A B nd" and b: "B c = t # x" "t \<in> {EX_REQ, SH_REQ, UPGRADE_REQ}" and c: "c < cfg_max_num_sharers cfg"
    and rq: "rq = shmem_req_new t c"
  shows "if q = [] then ready cfg e [rq] s A (B(c := x)) \<and> nd = 0 else good cfg e (q @ [rq]) s A (B(c := x)) nd"
proof -
  have cd: "cinv (de_dstate e) (sharers e) (front_of q) d (s d) (A d) (B d) (own q d)" for d using g by (simp add: good_def)
  have o: "own q c = None" "cinv (de_dstate e) (sharers e) (front_of q) c (s c) (A c) x (Some t)"
    using cinv_requested [OF cd [of c, unfolded b(1)] b(2)] by auto
  have r: "rq_type rq = t" "rq_requester rq = c" "\<not> rq_wait rq" "rq_forwarding_from rq = None" by (simp_all add: rq shmem_req_new_def)
  have n: "t \<noteq> NULLIFY_REQ" using b(2) by auto
  have qo: "queue_ok (cfg_max_num_sharers cfg) (q @ [rq])"
    by (rule queue_ok_append) (use g r b(2) c o(1) in \<open>auto simp: good_def\<close>)
  have ci: "cinv (de_dstate e) (sharers e) (front_of q) d (s d) (A d) ((B(c := x)) d) (own (q @ [rq]) d)" for d
    using cd [of d] o r n by (cases "d = c") (auto simp: own_append)
  show ?thesis
  proof (cases q)
    case Nil
    with ci qo g r show ?thesis by (simp add: ready_def good_def)
  next
    case (Cons y ys)
    with ci qo g show ?thesis by (simp add: good_def)
  qed
qed

lemma line_memory:
  assumes g: "good cfg e (rq # q) s A B nd" and n: "nd \<noteq> 0" and d: "dram_reply_type (de_dstate e) (rq_type rq) = Inr t"
  shows "ready cfg e q s (A(rq_requester rq := A (rq_requester rq) @ [t])) B"
proof -
  let ?r = "rq_requester rq"
  have w: "rq_wait rq" using g n by (auto simp: good_def split: if_splits)
  have ci: "cinv (de_dstate e) (sharers e) (front_of (rq # q)) x (s x) (A x) (B x) (own (rq # q) x)" for x using g by (simp only: good_def)
  have fr: "front_ok (de_dstate e) (sharers e) (Some (rq_type rq, ?r, True))" using g w by (simp add: good_def)
  then have t: "rq_type rq \<noteq> NULLIFY_REQ" "t = EX_REP \<and> excl (de_dstate e) \<or> t = SH_REP \<and> de_dstate e = D_SHARED"
    using d by (auto simp: front_ok_def dram_reply_type_def split: if_splits)
  have q: "queue_ok (cfg_max_num_sharers cfg) q" "\<forall>rq \<in> set q. \<not> rq_wait rq" "own q ?r = None"
    using g queue_ok_tl [of _ rq q] t(1) by (auto simp: good_def)
  have "cinv (de_dstate e) (sharers e) None x (s x) ((A(?r := A ?r @ [t])) x) (B x) (own q x)" for x
  proof (cases "x = ?r")
    case True
    then show ?thesis using cinv_from_memory [OF ci [of ?r] _ t(2)] w q(3) by (simp add: pend_def)
  next
    case False
    have "cinv (de_dstate e) (sharers e) None x (s x) (A x) (B x) (own (rq # q) x)"
      by (rule cinv_idle [OF ci]) (use w False in \<open>auto simp: waits_simps\<close>)
    with False show ?thesis by simp
  qed
  with g q show ?thesis by (simp add: ready_def good_def)
qed

section \<open>Outstanding requests\<close>

text \<open>
  A cache for which a request is outstanding has an access that waits: \<open>W\<close> says for
  each cache whether it has one.
\<close>

definition asked :: "'d shmem_req list \<Rightarrow> (nat \<Rightarrow> msg_t list) \<Rightarrow> (nat \<Rightarrow> msg_t list) \<Rightarrow> (nat \<Rightarrow> bool) \<Rightarrow> bool" where
  "asked q A B W \<longleftrightarrow> (\<forall>c. busy (A c) (B c) (own q c) \<longrightarrow> W c)"

lemma busy_app: "busy (A @ A') B w \<longleftrightarrow> busy A B w \<or> set A' \<inter> {EX_REP, SH_REP, UPGRADE_REP} \<noteq> {}"
  by (auto simp: busy_def)

lemma live_no_reply: "live D F c A \<Longrightarrow> set A \<inter> {EX_REP, SH_REP, UPGRADE_REP} = {}"
  by (auto simp: live_def)

lemma asked_mono: "asked q A B W \<Longrightarrow> own q' = own q \<Longrightarrow> (\<And>c. set (B' c) \<subseteq> set (B c)) \<Longrightarrow> asked q' A B' W"
  unfolding asked_def busy_def by (metis (no_types, lifting) inf_mono order_refl subset_empty)

lemma own_busy: "asked q A B W \<Longrightarrow> own q c \<noteq> None \<Longrightarrow> W c"
  by (auto simp: asked_def busy_def)

lemma asked_waits:
  assumes sv: "served e rq e' rq' ms False" and a: "asked (rq # q) A B W" and f: "rq_type rq' = rq_type rq" "rq_requester rq' = rq_requester rq"
  shows "asked (rq' # q) (\<lambda>c. A c @ to_cache ms c) B W"
proof -
  have o: "own (rq' # q) = own (rq # q)" using f by (auto simp: fun_eq_iff)
  from sv have "set (to_cache ms c) \<inter> {EX_REP, SH_REP, UPGRADE_REP} = {}" for c
  proof cases
    case asks
    show ?thesis
    proof (cases "c \<in> sharers e")
      case True
      with asks have "live (de_dstate e) (Some (rq_type rq, rq_requester rq, False)) c (to_cache ms c)" by blast
      then show ?thesis by (rule live_no_reply)
    qed (use asks in simp)
  qed auto
  with a show ?thesis by (simp add: asked_def o busy_app del: own_simps)
qed

lemma asked_completes:
  assumes sv: "served e rq e' rq' ms True" and a: "asked (rq # q) A B W"
    and n: "rq_type rq \<noteq> NULLIFY_REQ \<Longrightarrow> own q (rq_requester rq) = None"
  shows "asked q (\<lambda>c. A c @ to_cache ms c) B W"
proof -
  let ?r = "rq_requester rq"
  have "W c" if b: "busy (A c @ to_cache ms c) (B c) (own q c)" for c
  proof (cases "to_cache ms c = []")
    case True
    have "busy (A c) (B c) (own (rq # q) c)" using b True n by (cases "c = ?r") (auto simp: busy_def)
    with a show ?thesis by (simp add: asked_def del: own_simps)
  next
    case False
    with sv have "c = ?r" "rq_type rq \<noteq> NULLIFY_REQ" by (auto elim!: served.cases split: if_splits)
    with own_busy [OF a] show ?thesis by simp
  qed
  then show ?thesis by (simp add: asked_def)
qed

lemma serve_asked:
  assumes r: "ready cfg e (rq # q) s A B" and p: "plain cfg" and l: "process_line cfg a e rq cached = Inr (e', rq', ms, fin)"
    and a: "asked (rq # q) A B W"
  shows "asked (if fin then q else rq' # q) (\<lambda>c. A c @ to_cache ms c) B W"
proof -
  have ok: "ent_ok cfg e" using r by (simp add: ready_def)
  have sv: "served e rq e' rq' ms fin" by (rule process_line_served [OF l p ok ready_rq_ok [OF r]])
  note fr = process_line_frame [OF l, unfolded frame_def]
  have n: "rq_type rq \<noteq> NULLIFY_REQ \<Longrightarrow> own q (rq_requester rq) = None" using r queue_ok_tl [of _ rq q] by (auto simp: ready_def)
  show ?thesis using asked_waits [OF _ a] asked_completes [OF _ a n] sv fr by (cases fin) auto
qed

lemma line_memory_asked:
  assumes g: "good cfg e (rq # q) s A B nd" and n: "nd \<noteq> 0" and d: "dram_reply_type (de_dstate e) (rq_type rq) = Inr t"
    and a: "asked (rq # q) A B W"
  shows "asked q (A(rq_requester rq := A (rq_requester rq) @ [t])) B W"
proof -
  have t: "rq_type rq \<noteq> NULLIFY_REQ" using d by (auto simp: dram_reply_type_def)
  have "W c" if "busy ((A(rq_requester rq := A (rq_requester rq) @ [t])) c) (B c) (own q c)" for c
    using that a own_busy [OF a, of c] t by (cases "c = rq_requester rq") (auto simp: asked_def)
  then show ?thesis by (simp add: asked_def)
qed

lemma line_request_asked:
  assumes a: "asked q A B W" and b: "B c = t # x" "t \<in> {EX_REQ, SH_REQ, UPGRADE_REQ}"
  shows "asked (q @ [shmem_req_new t c]) A (B(c := x)) W"
proof -
  have w: "W c" using a b by (auto simp: asked_def busy_def dest!: spec [of _ c])
  have "W d" if "busy (A d) ((B(c := x)) d) (own (q @ [shmem_req_new t c]) d)" for d
    using that a w by (cases "d = c") (auto simp: asked_def own_append shmem_req_new_def)
  then show ?thesis by (simp add: asked_def)
qed

end
