(* ===== verification/Directory_View.thy ===== *)
theory Directory_View
  imports Directory_Cntlr
begin

text \<open>
  The directory cache as a map from addresses to entries: where the entry of an
  address is, that lookups do not change the entry of any address, and that storing an
  entry changes the entry of its address alone.
\<close>

section \<open>Places of entries\<close>

definition has_slot :: "dir_config \<Rightarrow> dir_cache \<Rightarrow> u64 \<Rightarrow> nat \<Rightarrow> bool" where
  "has_slot cfg dc a k \<longleftrightarrow> k < length (dc_slots dc) \<and> de_address (slot_entry cfg dc k) = a"

definition lookup :: "dir_config \<Rightarrow> dir_cache \<Rightarrow> u64 \<Rightarrow> place option" where
  "lookup cfg dc a =
     (case find (has_slot cfg dc a) (set_slots cfg a) of
        Some k \<Rightarrow> Some (In_Slot k)
      | None \<Rightarrow> if dc_replaced dc a = None then None else Some In_Replaced)"

definition new_entry :: "dir_config \<Rightarrow> u64 \<Rightarrow> dir_entry" where
  "new_entry cfg a = (createDirectoryEntry cfg)\<lparr>de_address := a\<rparr>"

text \<open>The entry of an address; an address that has none has a new one.\<close>

definition view :: "dir_config \<Rightarrow> dir_cache \<Rightarrow> u64 \<Rightarrow> dir_entry" where
  "view cfg dc a = (case lookup cfg dc a of None \<Rightarrow> new_entry cfg a | Some p \<Rightarrow> entry_at cfg dc a p)"

text \<open>
  A well-formed cache: used slots are in the set of their address, no address has two,
  free slots hold new entries, and an entry is moved aside only when its set is full.
\<close>

definition dir_wf :: "dir_config \<Rightarrow> dir_cache \<Rightarrow> bool" where
  "dir_wf cfg dc \<longleftrightarrow> 0 < cfg_associativity cfg \<and>
     (\<forall>k < length (dc_slots dc). de_address (slot_entry cfg dc k) = minus1_64 \<longrightarrow> slot_entry cfg dc k = createDirectoryEntry cfg) \<and>
     (\<forall>k < length (dc_slots dc). de_address (slot_entry cfg dc k) \<noteq> minus1_64 \<longrightarrow> k \<in> set (set_slots cfg (de_address (slot_entry cfg dc k)))) \<and>
     (\<forall>j < length (dc_slots dc). \<forall>k < length (dc_slots dc).
        de_address (slot_entry cfg dc j) = de_address (slot_entry cfg dc k) \<and> de_address (slot_entry cfg dc k) \<noteq> minus1_64 \<longrightarrow> j = k) \<and>
     (\<forall>a. dc_replaced dc a \<noteq> None \<longrightarrow> a \<noteq> minus1_64 \<and>
        (\<forall>k \<in> set (set_slots cfg a). k < length (dc_slots dc) \<and> de_address (slot_entry cfg dc k) \<notin> {a, minus1_64}))"

lemma lookup_slot: "lookup cfg dc a = Some (In_Slot k) \<Longrightarrow> k \<in> set (set_slots cfg a) \<and> k < length (dc_slots dc) \<and> de_address (slot_entry cfg dc k) = a"
  by (auto simp: lookup_def has_slot_def dest!: find_slot split: option.splits if_splits)

lemma find_slot_None: "find P (set_slots cfg a) = None \<longleftrightarrow> (\<forall>k \<in> set (set_slots cfg a). \<not> P k)"
  by (auto simp: find_None_iff)

lemma lookup_cases:
  obtains (slot) k where "lookup cfg dc a = Some (In_Slot k)" "k \<in> set (set_slots cfg a)" "has_slot cfg dc a k"
  | (replaced) "lookup cfg dc a = Some In_Replaced" "dc_replaced dc a \<noteq> None" "\<forall>k \<in> set (set_slots cfg a). \<not> has_slot cfg dc a k"
  | (absent) "lookup cfg dc a = None" "dc_replaced dc a = None" "\<forall>k \<in> set (set_slots cfg a). \<not> has_slot cfg dc a k"
proof (cases "find (has_slot cfg dc a) (set_slots cfg a)")
  case None
  then have l: "lookup cfg dc a = (if dc_replaced dc a = None then None else Some In_Replaced)" by (simp add: lookup_def)
  from None have "\<forall>k \<in> set (set_slots cfg a). \<not> has_slot cfg dc a k" by (simp add: find_slot_None)
  with that(2,3) l show ?thesis by (cases "dc_replaced dc a") auto
next
  case (Some k)
  then show ?thesis using that find_slot [OF Some] by (auto simp: lookup_def)
qed

lemma lookup_replaced: "lookup cfg dc a = Some In_Replaced \<longleftrightarrow> dc_replaced dc a \<noteq> None \<and> (\<forall>k \<in> set (set_slots cfg a). \<not> has_slot cfg dc a k)"
  by (cases rule: lookup_cases [of cfg dc a]) auto

lemma lookup_None: "lookup cfg dc a = None \<longleftrightarrow> dc_replaced dc a = None \<and> (\<forall>k \<in> set (set_slots cfg a). \<not> has_slot cfg dc a k)"
  by (cases rule: lookup_cases [of cfg dc a]) auto

text \<open>In a well-formed cache the slot of an address is the only one that has the address.\<close>

lemma lookup_slotI:
  assumes wf: "dir_wf cfg dc" and k: "k < length (dc_slots dc)" "de_address (slot_entry cfg dc k) = a" "a \<noteq> minus1_64"
  shows "lookup cfg dc a = Some (In_Slot k)"
proof -
  have s: "k \<in> set (set_slots cfg a)" using wf k unfolding dir_wf_def by blast
  obtain j where j: "find (has_slot cfg dc a) (set_slots cfg a) = Some j"
    using s k(1,2) by (cases "find (has_slot cfg dc a) (set_slots cfg a)") (auto simp: find_slot_None has_slot_def)
  then have "j < length (dc_slots dc)" "de_address (slot_entry cfg dc j) = a" using find_slot [OF j] by (auto simp: has_slot_def)
  then have "j = k" using wf k unfolding dir_wf_def by metis
  with j show ?thesis by (simp add: lookup_def)
qed

lemma slot_entry_update_other [simp]: "j \<noteq> k \<Longrightarrow> slot_entry cfg (dc\<lparr>dc_slots := (dc_slots dc)[k := x]\<rparr>) j = slot_entry cfg dc j"
  by (simp add: slot_entry_def)

lemma set_slots_div: "k \<in> set (set_slots cfg a) \<Longrightarrow> dir_set_index cfg a = k div cfg_associativity cfg"
  unfolding set_slots_def set_map by (elim imageE) simp

lemma set_slots_same:
  assumes "k \<in> set (set_slots cfg a)" "k \<in> set (set_slots cfg b)"
  shows "set_slots cfg a = set_slots cfg b"
proof -
  have "dir_set_index cfg a = dir_set_index cfg b" using assms [THEN set_slots_div] by metis
  then show ?thesis by (simp add: set_slots_def)
qed

text \<open>Only the entries of the slots count, not whether a slot has been created.\<close>

lemma view_same:
  assumes "\<And>k. slot_entry cfg dc' k = slot_entry cfg dc k" "dc_replaced dc' = dc_replaced dc" "length (dc_slots dc') = length (dc_slots dc)"
  shows "lookup cfg dc' a = lookup cfg dc a \<and> view cfg dc' a = view cfg dc a \<and> (dir_wf cfg dc' \<longleftrightarrow> dir_wf cfg dc)"
proof -
  have l: "lookup cfg dc' a = lookup cfg dc a" 
  proof -
    have "has_slot cfg dc' a = has_slot cfg dc a" by (simp add: fun_eq_iff has_slot_def assms)
    then show ?thesis by (simp only: lookup_def assms(2))
  qed
  have "entry_at cfg dc' a p = entry_at cfg dc a p" for p by (simp add: entry_at_def assms split: place.splits)
  then have "view cfg dc' a = view cfg dc a" unfolding view_def l by (cases "lookup cfg dc a") simp_all
  with l show ?thesis by (simp add: dir_wf_def assms)
qed

section \<open>Changing a slot\<close>

text \<open>
  A slot of the set of an address is filled with an entry for the address; the entry
  that was there may have been moved aside.
\<close>

definition fills :: "dir_config \<Rightarrow> dir_cache \<Rightarrow> dir_cache \<Rightarrow> u64 \<Rightarrow> nat \<Rightarrow> dir_entry \<Rightarrow> bool" where
  "fills cfg dc dc' a k e \<longleftrightarrow> k < length (dc_slots dc) \<and> k \<in> set (set_slots cfg a) \<and> de_address e = a \<and> a \<noteq> minus1_64 \<and>
     (\<forall>j \<in> set (set_slots cfg a). j \<noteq> k \<longrightarrow> de_address (slot_entry cfg dc j) \<noteq> a) \<and> dc_slots dc' = (dc_slots dc)[k := Some e]"

lemma fills_slot_entry: "fills cfg dc dc' a k e \<Longrightarrow> slot_entry cfg dc' j = (if j = k then e else slot_entry cfg dc j)"
  by (simp add: fills_def slot_entry_def)

lemma fills_view: "fills cfg dc dc' a k e \<Longrightarrow> lookup cfg dc' a = Some (In_Slot k) \<and> view cfg dc' a = e"
proof -
  assume f: "fills cfg dc dc' a k e"
  note s = fills_slot_entry [OF f]
  have "lookup cfg dc' a = Some (In_Slot k)"
  proof (cases rule: lookup_cases [of cfg dc' a])
    case (slot j)
    have "j = k" using f slot(2,3) s [of j] by (cases "j = k") (auto simp: fills_def has_slot_def)
    with slot(1) show ?thesis by simp
  qed (use f s [of k] in \<open>auto simp: fills_def has_slot_def\<close>)
  then show ?thesis by (simp add: view_def entry_at_def s)
qed

lemma fills_view_other:
  assumes f: "fills cfg dc dc' a k e" and c: "c \<noteq> a" "c \<noteq> de_address (slot_entry cfg dc k)" "dc_replaced dc' c = dc_replaced dc c"
  shows "lookup cfg dc' c = lookup cfg dc c \<and> view cfg dc' c = view cfg dc c"
proof -
  note s = fills_slot_entry [OF f]
  have "de_address e = a" "length (dc_slots dc') = length (dc_slots dc)" using f by (simp_all add: fills_def)
  then have "has_slot cfg dc' c = has_slot cfg dc c" using c by (auto simp: fun_eq_iff has_slot_def s)
  then have l: "lookup cfg dc' c = lookup cfg dc c" by (simp only: lookup_def c(3))
  have "entry_at cfg dc' c p = entry_at cfg dc c p" if "lookup cfg dc c = Some p" for p
    using that c lookup_slot [of cfg dc c] by (cases p) (auto simp: entry_at_def s)
  with l show ?thesis by (auto simp: view_def split: option.splits)
qed

lemma fills_wf:
  assumes wf: "dir_wf cfg dc" and f: "fills cfg dc dc' a k e" and lt: "\<forall>j \<in> set (set_slots cfg a). j < length (dc_slots dc)"
    and r: "dc_replaced dc' a = None" "\<And>c. dc_replaced dc' c \<noteq> None \<Longrightarrow> dc_replaced dc c \<noteq> None \<or>
      c \<noteq> minus1_64 \<and> c = de_address (slot_entry cfg dc k) \<and> (\<forall>j \<in> set (set_slots cfg c). j < length (dc_slots dc) \<and> de_address (slot_entry cfg dc j) \<noteq> minus1_64)"
  shows "dir_wf cfg dc'"
proof -
  note s = fills_slot_entry [OF f]
  have k: "k < length (dc_slots dc)" "k \<in> set (set_slots cfg a)" "de_address e = a" "a \<noteq> minus1_64" "length (dc_slots dc') = length (dc_slots dc)"
    "\<And>j. j \<in> set (set_slots cfg a) \<Longrightarrow> j \<noteq> k \<Longrightarrow> de_address (slot_entry cfg dc j) \<noteq> a" using f by (auto simp: fills_def)
  have w: "\<And>j. j < length (dc_slots dc) \<Longrightarrow> de_address (slot_entry cfg dc j) \<noteq> minus1_64 \<Longrightarrow> j \<in> set (set_slots cfg (de_address (slot_entry cfg dc j)))"
    and d: "\<And>i j. i < length (dc_slots dc) \<Longrightarrow> j < length (dc_slots dc) \<Longrightarrow> de_address (slot_entry cfg dc i) = de_address (slot_entry cfg dc j) \<Longrightarrow>
      de_address (slot_entry cfg dc j) \<noteq> minus1_64 \<Longrightarrow> i = j"
    and rp: "\<And>c. dc_replaced dc c \<noteq> None \<Longrightarrow> c \<noteq> minus1_64 \<and> (\<forall>j \<in> set (set_slots cfg c). j < length (dc_slots dc) \<and> de_address (slot_entry cfg dc j) \<notin> {c, minus1_64})"
    using wf unfolding dir_wf_def by blast+
  have na: "de_address (slot_entry cfg dc j) \<noteq> a" if "j < length (dc_slots dc)" "j \<noteq> k" for j using w [of j] k that by metis
  have "c \<noteq> minus1_64 \<and> (\<forall>j \<in> set (set_slots cfg c). j < length (dc_slots dc) \<and> de_address (slot_entry cfg dc' j) \<notin> {c, minus1_64})"
    if c: "dc_replaced dc' c \<noteq> None" for c
    using r(2) [OF c] rp [of c] d [of _ k] r(1) c k(1,3,4) by (auto simp: s)
  moreover have "i = j" if "i < length (dc_slots dc)" "j < length (dc_slots dc)" "de_address (slot_entry cfg dc' i) = de_address (slot_entry cfg dc' j)"
    "de_address (slot_entry cfg dc' j) \<noteq> minus1_64" for i j
    using that na [of i] na [of j] d [of i j] k(3) by (auto simp: s split: if_splits)
  moreover have "j \<in> set (set_slots cfg (de_address (slot_entry cfg dc' j)))" if "j < length (dc_slots dc)" "de_address (slot_entry cfg dc' j) \<noteq> minus1_64" for j
    using that w [of j] k(2,3) by (cases "j = k") (simp_all add: s)
  moreover have "slot_entry cfg dc' j = createDirectoryEntry cfg" if "j < length (dc_slots dc)" "de_address (slot_entry cfg dc' j) = minus1_64" for j
    using that wf k(3,4) unfolding dir_wf_def s by (cases "j = k") auto
  moreover have "0 < cfg_associativity cfg" using wf by (simp add: dir_wf_def)
  ultimately show ?thesis unfolding dir_wf_def k(5) by blast
qed

section \<open>The operations\<close>

lemma getDirectoryEntry_range: "getDirectoryEntry cfg dc a = Inr r \<Longrightarrow> \<forall>k \<in> set (set_slots cfg a). k < length (dc_slots dc)"
  by (auto simp: getDirectoryEntry_def split: if_splits)

lemma getDirectoryEntry_view:
  assumes g: "getDirectoryEntry cfg dc a = Inr (p, dc')" and wf: "dir_wf cfg dc" and a: "a \<noteq> minus1_64"
  shows "dir_wf cfg dc' \<and> (\<forall>b. b \<noteq> minus1_64 \<longrightarrow> view cfg dc' b = view cfg dc b) \<and> p = lookup cfg dc' a \<and>
    (p = None \<longrightarrow> dc' = dc \<and> (\<forall>k \<in> set (set_slots cfg a). de_address (slot_entry cfg dc k) \<notin> {a, minus1_64}))"
  using g
proof (cases rule: getDirectoryEntry_cases)
  case (found k)
  have s: "slot_entry cfg dc' j = slot_entry cfg dc j" for j using found by (cases "j = k") (simp_all add: slot_entry_def)
  note same = view_same [of cfg dc' dc, OF s]
  have "lookup cfg dc a = Some (In_Slot k)" by (rule lookup_slotI [OF wf found(2,3) a])
  with found same [of a] same wf show ?thesis by simp
next
  case (free k)
  have e: "slot_entry cfg dc k = createDirectoryEntry cfg" using wf free(2,3) unfolding dir_wf_def by blast
  have f: "fills cfg dc dc' a k (new_entry cfg a)" using free a e by (auto simp: fills_def new_entry_def)
  have rn: "dc_replaced dc a = None"
  proof (rule ccontr)
    assume "dc_replaced dc a \<noteq> None"
    then have "de_address (slot_entry cfg dc k) \<noteq> minus1_64" using wf free(1) unfolding dir_wf_def by blast
    with free(3) show False by simp
  qed
  then have "dir_wf cfg dc'" by (intro fills_wf [OF wf f getDirectoryEntry_range [OF g]]) (use free(6) in auto)
  moreover have "view cfg dc a = new_entry cfg a" using free(4) rn lookup_None [of cfg dc a] by (simp add: view_def has_slot_def)
  moreover have "view cfg dc' b = view cfg dc b" if "b \<noteq> a" "b \<noteq> minus1_64" for b
    using fills_view_other [OF f that(1)] that(2) free(3,6) by simp
  ultimately show ?thesis using fills_view [OF f] free(5) by (metis option.distinct(1))
next
  case (replaced e)
  with wf lookup_replaced [of cfg dc a] show ?thesis by (auto simp: has_slot_def)
next
  case absent
  with wf lookup_None [of cfg dc a] show ?thesis by (auto simp: has_slot_def)
qed

text \<open>Storing the entry of an address where it is.\<close>

lemma put_entry_view:
  assumes wf: "dir_wf cfg dc" and l: "lookup cfg dc a = Some p" and a: "a \<noteq> minus1_64" "de_address e = a"
    and lt: "\<forall>k \<in> set (set_slots cfg a). k < length (dc_slots dc)"
  shows "dir_wf cfg (put_entry dc a p e)" (is ?wf) and "view cfg (put_entry dc a p e) b = (if b = a then e else view cfg dc b)" (is ?view)
    and "lookup cfg (put_entry dc a p e) b = lookup cfg dc b" (is ?lookup)
proof -
  have "?wf \<and> ?view \<and> ?lookup"
  proof (cases p)
    case (In_Slot k)
    have k: "k \<in> set (set_slots cfg a)" "de_address (slot_entry cfg dc k) = a" using l lookup_slot In_Slot by auto
    have u: "de_address (slot_entry cfg dc j) \<noteq> a" if "j \<in> set (set_slots cfg a)" "j \<noteq> k" for j
      using wf that k a lt unfolding dir_wf_def by metis
    have f: "fills cfg dc (put_entry dc a p e) a k e" using k u a lt by (auto simp: fills_def put_entry_def In_Slot)
    have rn: "dc_replaced dc a = None" using wf k unfolding dir_wf_def by blast
    have ?wf by (rule fills_wf [OF wf f lt]) (auto simp: put_entry_def In_Slot rn)
    with fills_view [OF f] fills_view_other [OF f, of b] k l show ?thesis by (cases "b = a") (auto simp: In_Slot put_entry_def)
  next
    case In_Replaced
    let ?dc = "put_entry dc a p e"
    have s: "slot_entry cfg ?dc j = slot_entry cfg dc j" for j by (simp add: put_entry_def In_Replaced slot_entry_def)
    have r: "dc_replaced dc a \<noteq> None" "dc_replaced ?dc = (dc_replaced dc)(a \<mapsto> e)" "dc_slots ?dc = dc_slots dc"
      using l lookup_replaced [of cfg dc a] by (auto simp: put_entry_def In_Replaced)
    then have "dc_replaced ?dc c = None \<longleftrightarrow> dc_replaced dc c = None" for c by simp
    moreover have "has_slot cfg ?dc b = has_slot cfg dc b" for b by (simp add: fun_eq_iff has_slot_def s r)
    ultimately have lk: "lookup cfg ?dc b = lookup cfg dc b" for b by (simp only: lookup_def)
    have "entry_at cfg ?dc b q = entry_at cfg dc b q" if "b \<noteq> a" for q using that by (cases q) (simp_all add: entry_at_def s r)
    then have ?view using lk [of b] l r(2) by (cases "b = a"; cases "lookup cfg dc b") (simp_all add: view_def In_Replaced entry_at_def)
    moreover have ?wf using wf r(1,3) unfolding dir_wf_def s r(2) by simp
    ultimately show ?thesis using lk by blast
  qed
  then show ?wf ?view ?lookup by blast+
qed

text \<open>Moving an entry aside to make room for another address of the same set.\<close>

lemma replaceDirectoryEntry_view:
  assumes r: "replaceDirectoryEntry cfg dc b a = Inr (k, dc')" and wf: "dir_wf cfg dc" and ab: "b \<noteq> minus1_64" "a \<noteq> minus1_64"
    and full: "\<forall>j \<in> set (set_slots cfg a). de_address (slot_entry cfg dc j) \<notin> {a, minus1_64}" and n: "dc_replaced dc a = None"
    and k0: "k0 \<in> set (set_slots cfg a)" "de_address (slot_entry cfg dc k0) = b"
    and lt: "\<forall>j \<in> set (set_slots cfg a). j < length (dc_slots dc)"
  shows "dir_wf cfg dc' \<and> (\<forall>c. c \<noteq> minus1_64 \<longrightarrow> view cfg dc' c = view cfg dc c) \<and> lookup cfg dc' a = Some (In_Slot k) \<and>
    lookup cfg dc' b = Some In_Replaced"
proof -
  from r have f: "find (\<lambda>k. de_address (slot_entry cfg dc k) = b) (set_slots cfg b) = Some k"
    and dc': "dc' = dc\<lparr>dc_replaced := (dc_replaced dc)(b \<mapsto> slot_entry cfg dc k), dc_slots := (dc_slots dc)[k := Some (new_entry cfg a)]\<rparr>"
    by (auto simp: replaceDirectoryEntry_def new_entry_def split: if_splits option.splits)
  have ltb: "\<forall>j \<in> set (set_slots cfg b). j < length (dc_slots dc)" using r by (auto simp: replaceDirectoryEntry_def split: if_splits)
  have k: "k \<in> set (set_slots cfg b)" "de_address (slot_entry cfg dc k) = b" using find_slot [OF f] by auto
  then have "k = k0" using wf k0 lt ltb ab unfolding dir_wf_def by metis
  then have ss: "set_slots cfg a = set_slots cfg b" using k k0 set_slots_same by metis
  have ne: "b \<noteq> a" using full k0 by auto
  have fl: "fills cfg dc dc' a k (new_entry cfg a)" using k ss lt ab(2) full by (auto simp: fills_def dc' new_entry_def)
  have w: "dir_wf cfg dc'" by (rule fills_wf [OF wf fl lt]) (use n ne k ss ab full lt in \<open>auto simp: dc' split: if_splits\<close>)
  have other: "view cfg dc' c = view cfg dc c" if "c \<noteq> a" "c \<noteq> b" for c
    using fills_view_other [OF fl that(1)] that k(2) by (simp add: dc')
  have va: "view cfg dc a = new_entry cfg a" using full n lookup_None [of cfg dc a] by (simp add: view_def has_slot_def)
  have lb: "lookup cfg dc b = Some (In_Slot k)" by (rule lookup_slotI [OF wf _ k(2) ab(1)]) (use k ltb in blast)
  have "\<forall>j \<in> set (set_slots cfg b). de_address (slot_entry cfg dc' j) \<noteq> b"
    using fills_slot_entry [OF fl] wf k ltb ab ne unfolding dir_wf_def by (metis fl fills_def)
  then have lb': "lookup cfg dc' b = Some In_Replaced" unfolding lookup_replaced by (auto simp: dc' has_slot_def)
  have "view cfg dc' b = view cfg dc b" unfolding view_def lb lb' by (simp add: entry_at_def dc')
  with w other va fills_view [OF fl] lb' show ?thesis by metis
qed

lemma invalidateDirectoryEntry_view:
  assumes i: "invalidateDirectoryEntry dc a = Inr dc'" and wf: "dir_wf cfg dc"
  shows "dir_wf cfg dc' \<and> view cfg dc' b = (if b = a then new_entry cfg a else view cfg dc b) \<and> (b \<noteq> a \<longrightarrow> lookup cfg dc' b = lookup cfg dc b)"
proof -
  have dc': "dc_replaced dc a \<noteq> None" "dc_slots dc' = dc_slots dc" "dc_replaced dc' = (dc_replaced dc)(a := None)"
    using i by (auto simp: invalidateDirectoryEntry_def split: if_splits)
  have s: "slot_entry cfg dc' j = slot_entry cfg dc j" for j by (simp add: slot_entry_def dc'(2))
  have "dir_wf cfg dc'" using wf unfolding dir_wf_def s dc' by simp
  moreover have la: "lookup cfg dc' a = None" unfolding lookup_None has_slot_def s using wf dc' unfolding dir_wf_def by simp
  moreover have "lookup cfg dc' b = lookup cfg dc b \<and> view cfg dc' b = view cfg dc b" if "b \<noteq> a"
  proof -
    have "dc_replaced dc' b = dc_replaced dc b" using that by (simp add: dc'(3))
    moreover have "has_slot cfg dc' b = has_slot cfg dc b" by (simp add: fun_eq_iff has_slot_def s dc'(2))
    ultimately have l: "lookup cfg dc' b = lookup cfg dc b" by (simp only: lookup_def)
    have "entry_at cfg dc' b p = entry_at cfg dc b p" for p using that by (cases p) (simp_all add: entry_at_def s dc'(3))
    with l show ?thesis unfolding view_def l by (cases "lookup cfg dc b") simp_all
  qed
  moreover have "view cfg dc' a = new_entry cfg a" by (simp add: view_def la)
  ultimately show ?thesis by (cases "b = a") simp_all
qed

lemma dir_cache_new_view:
  assumes "dir_cache_new cfg ptrs = Inr dc"
  shows "dir_wf cfg dc \<and> (a \<noteq> minus1_64 \<longrightarrow> view cfg dc a = new_entry cfg a)"
proof -
  have dc: "dc_slots dc = replicate (cfg_total_entries cfg) None" "dc_replaced dc = (\<lambda>_. None)" "0 < cfg_associativity cfg"
    using assms by (auto simp: dir_cache_new_def split: if_splits)
  have s: "slot_entry cfg dc k = createDirectoryEntry cfg" if "k < cfg_total_entries cfg" for k using that by (simp add: slot_entry_def dc)
  then have wf: "dir_wf cfg dc" using dc by (simp add: dir_wf_def createDirectoryEntry_def)
  have "lookup cfg dc a = None" if "a \<noteq> minus1_64" unfolding lookup_None has_slot_def
    using that s dc by (auto simp: createDirectoryEntry_def)
  with wf show ?thesis by (simp add: view_def)
qed

end
