(* ===== verification/Coherence_Dir.thy ===== *)
theory Coherence_Dir
  imports Coherence_Queue Directory_View
begin

text \<open>
  The coherence invariant of all lines of a directory controller, and that the
  functions of the controller preserve it: each of them changes the line of one
  address, and an allocation in addition the line whose entry it moves aside.
\<close>

section \<open>The invariant of a controller\<close>

text \<open>
  The surroundings of the controller: the state of every line in every cache, the
  messages under way in both directions, the reads memory has not answered and the
  caches with accesses that wait. The messages that the controller has sent but that are not under way yet are in \<open>dn_sent\<close>.
\<close>

record coh_env =
  ev_state :: "u64 \<Rightarrow> nat \<Rightarrow> cstate"
  ev_to :: "u64 \<Rightarrow> nat \<Rightarrow> msg_t list"
  ev_from :: "u64 \<Rightarrow> nat \<Rightarrow> msg_t list"
  ev_reads :: "u64 \<Rightarrow> nat"
  ev_wait :: "u64 \<Rightarrow> nat \<Rightarrow> bool"

definition on_line :: "u64 \<Rightarrow> 'd shmem_msg list \<Rightarrow> 'd shmem_msg list" where
  "on_line a ms = filter (\<lambda>m. sm_address m = a) ms"

lemma on_line_append [simp]: "on_line a (ms @ ms') = on_line a ms @ on_line a ms'"
  by (simp add: on_line_def)

lemma on_line_all: "\<forall>m \<in> set ms. sm_address m = a \<Longrightarrow> on_line b ms = (if b = a then ms else [])"
  by (auto simp: on_line_def filter_id_conv filter_empty_conv)

text \<open>
  A line whose front request is about to be served is given with its queue; the other
  lines have the queue of the controller.
\<close>

definition line :: "dir_config \<Rightarrow> coh_env \<Rightarrow> 'd dir_cntlr \<Rightarrow> u64 \<Rightarrow> 'd shmem_req list option \<Rightarrow> bool" where
  "line cfg E st a X \<longleftrightarrow>
     (let e = view cfg (dn_cache st) a; A = (\<lambda>c. ev_to E a c @ to_cache (on_line a (dn_sent st)) c); nd = ev_reads E a + reads (on_line a (dn_sent st)) in
      de_address e = a \<and> asked (case X of None \<Rightarrow> dn_queue st a | Some q \<Rightarrow> q) A (ev_from E a) (ev_wait E a) \<and>
      (case X of None \<Rightarrow> good cfg e (dn_queue st a) (ev_state E a) A (ev_from E a) nd
       | Some q \<Rightarrow> ready cfg e q (ev_state E a) A (ev_from E a) \<and> nd = 0))"

definition dinv :: "dir_config \<Rightarrow> coh_env \<Rightarrow> 'd dir_cntlr \<Rightarrow> (u64 \<Rightarrow> 'd shmem_req list option) \<Rightarrow> bool" where
  "dinv cfg E st R \<longleftrightarrow> dir_wf cfg (dn_cache st) \<and> on_line minus1_64 (dn_sent st) = [] \<and> (\<forall>a. a \<noteq> minus1_64 \<longrightarrow> line cfg E st a (R a))"

lemma line_cong:
  assumes "view cfg (dn_cache st') a = view cfg (dn_cache st) a" "X = None \<Longrightarrow> dn_queue st' a = dn_queue st a"
    "on_line a (dn_sent st') = on_line a (dn_sent st)"
    "ev_state E' a = ev_state E a" "ev_to E' a = ev_to E a" "ev_from E' a = ev_from E a" "ev_reads E' a = ev_reads E a"
    "ev_wait E' a = ev_wait E a"
  shows "line cfg E' st' a X = line cfg E st a X"
  using assms by (cases X) (simp_all add: line_def)

lemma dinvD: "dinv cfg E st R \<Longrightarrow> a \<noteq> minus1_64 \<Longrightarrow> line cfg E st a (R a)"
  by (simp add: dinv_def)

lemma dinv_change:
  assumes i: "dinv cfg E st R" and wf: "dir_wf cfg (dn_cache st')" and a: "line cfg E' st' a X"
    and st: "\<And>b. b \<noteq> a \<Longrightarrow> b \<noteq> minus1_64 \<Longrightarrow> view cfg (dn_cache st') b = view cfg (dn_cache st) b"
      "\<And>b. b \<noteq> a \<Longrightarrow> dn_queue st' b = dn_queue st b" "\<And>b. b \<noteq> a \<Longrightarrow> on_line b (dn_sent st') = on_line b (dn_sent st)"
    and E: "\<And>b. b \<noteq> a \<Longrightarrow> ev_state E' b = ev_state E b \<and> ev_to E' b = ev_to E b \<and> ev_from E' b = ev_from E b \<and> ev_reads E' b = ev_reads E b \<and>
      ev_wait E' b = ev_wait E b" and n: "a \<noteq> minus1_64"
  shows "dinv cfg E' st' (R(a := X))"
proof -
  have "line cfg E' st' b (R b)" if "b \<noteq> a" "b \<noteq> minus1_64" for b
    using dinvD [OF i that(2)] line_cong [of cfg st' b st "R b" E' E] st [OF that(1)] E [OF that(1)] that by simp
  moreover have "on_line minus1_64 (dn_sent st') = []" using st(3) [OF n [symmetric]] i by (simp add: dinv_def)
  ultimately show ?thesis using a wf by (simp add: dinv_def)
qed

lemma line_idle: "dn_queue st a = [] \<Longrightarrow> line cfg E st a None = line cfg E st a (Some [])"
  by (auto simp: line_def Let_def good_idle)

lemma dinv_idle:
  assumes "dinv cfg E st [a \<mapsto> []]" "dn_queue st a = []"
  shows "dinv cfg E st Map.empty"
proof -
  have "line cfg E st b None" if "b \<noteq> minus1_64" for b
    using dinvD [OF assms(1) that] line_idle [OF assms(2), of cfg E] by (cases "b = a") simp_all
  with assms(1) show ?thesis by (simp add: dinv_def)
qed

lemma dinv_same:
  assumes "dinv cfg E st R" "dir_wf cfg (dn_cache st')" "\<And>b. b \<noteq> minus1_64 \<Longrightarrow> view cfg (dn_cache st') b = view cfg (dn_cache st) b"
    "dn_queue st' = dn_queue st" "dn_sent st' = dn_sent st"
  shows "dinv cfg E st' R"
proof -
  have "line cfg E st' b (R b)" if "b \<noteq> minus1_64" for b
    using dinvD [OF assms(1) that] line_cong [of cfg st' b st "R b" E E] assms(3) [OF that] assms(4,5) by simp
  with assms(1,2,5) show ?thesis by (simp add: dinv_def)
qed

lemma dinv_lookup:
  assumes "dinv cfg E st R" "getDirectoryEntry cfg (dn_cache st) a = Inr (p, dc)" "a \<noteq> minus1_64"
  shows "dinv cfg E (st\<lparr>dn_cache := dc\<rparr>) R" "p = lookup cfg dc a"
proof -
  have wf: "dir_wf cfg (dn_cache st)" using assms(1) by (simp add: dinv_def)
  note v = getDirectoryEntry_view [OF assms(2) wf assms(3)]
  then show "p = lookup cfg dc a" by simp
  show "dinv cfg E (st\<lparr>dn_cache := dc\<rparr>) R" by (rule dinv_same [OF assms(1)]) (use v in simp_all)
qed

section \<open>Serving requests\<close>

lemma ready_cong:
  "ready cfg e q s A B \<Longrightarrow> de_dstate e' = de_dstate e \<Longrightarrow> sharers e' = sharers e \<Longrightarrow> ent_ok cfg e' \<Longrightarrow> ready cfg e' q s A B"
  by (simp add: ready_def)

lemma new_entry_simps [simp]: "de_dstate (new_entry cfg a) = D_UNCACHED" "sharers (new_entry cfg a) = {}" "ent_ok cfg (new_entry cfg a)"
  "de_address (new_entry cfg a) = a"
proof -
  show s: "sharers (new_entry cfg a) = {}" by (simp add: new_entry_def)
  show d: "de_dstate (new_entry cfg a) = D_UNCACHED" "de_address (new_entry cfg a) = a" by (simp_all add: new_entry_def createDirectoryEntry_def)
  show "ent_ok cfg (new_entry cfg a)" using s d entry_ok_simps(1) by (simp add: ent_ok_def) (simp add: new_entry_def createDirectoryEntry_def)
qed

lemma nullify_complete:
  assumes "process_line cfg a e rq cached = Inr (e', rq', ms, True)" "rq_type rq = NULLIFY_REQ" "entry_ok e"
  shows "de_dstate e' = D_UNCACHED \<and> sharers e' = {}"
proof -
  have "processNullifyReq a e rq = Inr (e', rq', ms, True)" using assms by (simp add: process_line_def)
  then have "e' = e" "de_dstate e = D_UNCACHED"
    by (cases "de_dstate e"; auto simp: processNullifyReq_def ask_owner_def invalidate_sharers_def split: option.splits)+
  with assms(3) show ?thesis by (simp add: entry_ok_simps)
qed

lemma serve_at_inv:
  assumes s: "serve_at cfg st a p cached = Inr (fin, st')" and i: "dinv cfg E st R" and r: "R a = Some (dn_queue st a)" and pl: "plain cfg"
    and a: "a \<noteq> minus1_64" and lk: "lookup cfg (dn_cache st) a = Some p" and lt: "\<forall>k \<in> set (set_slots cfg a). k < length (dc_slots (dn_cache st))"
  shows "dinv cfg E st' (R(a := if fin then Some (tl (dn_queue st' a)) else None))"
    "b \<noteq> a \<Longrightarrow> lookup cfg (dn_cache st') b = lookup cfg (dn_cache st) b"
proof -
  let ?dc = "dn_cache st" let ?e = "view cfg ?dc a"
  obtain rq rqs where q: "dn_queue st a = rq # rqs" using s by (cases "dn_queue st a") (auto simp: serve_at_def)
  have e: "entry_at cfg ?dc a p = ?e" by (simp add: view_def lk)
  obtain e' rq' ms where l: "process_line cfg a ?e rq cached = Inr (e', rq', ms, fin)"
    using s q e by (cases "process_line cfg a ?e rq cached") (auto simp: serve_at_def Let_def split: if_splits elim!: map_sum_InrE)
  define dc where "dc = put_entry ?dc a p e'"
  define st1 where "st1 = st\<lparr>dn_cache := dc, dn_queue := (dn_queue st)(a := rq' # rqs), dn_sent := dn_sent st @ ms\<rparr>"
  have s': "(if rq_type rq = NULLIFY_REQ \<and> fin then map_sum id (\<lambda>dc'. (True, st1\<lparr>dn_cache := dc'\<rparr>)) (invalidateDirectoryEntry dc a) else Inr (fin, st1)) = Inr (fin, st')"
    using s unfolding serve_at_def q list.case e l sum.case prod.case dc_def st1_def Let_def .
  have wf: "dir_wf cfg ?dc" using i by (simp add: dinv_def)
  have li: "de_address ?e = a" "ready cfg ?e (rq # rqs) (ev_state E a) (\<lambda>c. ev_to E a c @ to_cache (on_line a (dn_sent st)) c) (ev_from E a)"
    "ev_reads E a + reads (on_line a (dn_sent st)) = 0"
    "asked (rq # rqs) (\<lambda>c. ev_to E a c @ to_cache (on_line a (dn_sent st)) c) (ev_from E a) (ev_wait E a)"
    using dinvD [OF i a] r q by (auto simp: line_def Let_def)
  note fr = process_line_frame [OF l, unfolded frame_def]
  have ae: "de_address e' = a" using fr li(1) by simp
  note pv = put_entry_view [OF wf lk a ae lt, folded dc_def]
  have sent: "on_line b (dn_sent st1) = on_line b (dn_sent st) @ (if b = a then ms else [])" for b
    using on_line_all [of ms a b] fr by (simp add: st1_def)
  note sl = serve_line [OF li(2) pl l] and sa = serve_asked [OF li(2) pl l li(4)]
  have "\<exists>dc'. st' = st1\<lparr>dn_cache := dc'\<rparr> \<and> dir_wf cfg dc' \<and> (\<forall>b. b \<noteq> a \<longrightarrow> view cfg dc' b = view cfg ?dc b \<and> lookup cfg dc' b = lookup cfg ?dc b) \<and>
      (view cfg dc' a = e' \<or> fin \<and> view cfg dc' a = new_entry cfg a \<and> de_dstate e' = D_UNCACHED \<and> sharers e' = {})"
  proof (cases "rq_type rq = NULLIFY_REQ \<and> fin")
    case True
    with s' obtain dc' where d: "invalidateDirectoryEntry dc a = Inr dc'" "st' = st1\<lparr>dn_cache := dc'\<rparr>" by (auto elim!: map_sum_InrE)
    have "entry_ok ?e" using li(2) by (simp add: ready_def ent_ok_def)
    then have "de_dstate e' = D_UNCACHED \<and> sharers e' = {}" using nullify_complete [of cfg a ?e rq cached e' rq' ms] l True by simp
    with d True invalidateDirectoryEntry_view [OF d(1) pv(1)] pv(2,3) show ?thesis by (intro exI [of _ dc']) auto
  next
    case False
    with s' have "st' = st1" by auto
    with pv show ?thesis by (intro exI [of _ dc]) (auto simp: st1_def)
  qed
  then obtain dc' where st': "st' = st1\<lparr>dn_cache := dc'\<rparr>" "dir_wf cfg dc'"
      "\<And>b. b \<noteq> a \<Longrightarrow> view cfg dc' b = view cfg ?dc b \<and> lookup cfg dc' b = lookup cfg ?dc b"
      "view cfg dc' a = e' \<or> fin \<and> view cfg dc' a = new_entry cfg a \<and> de_dstate e' = D_UNCACHED \<and> sharers e' = {}" by blast
  show "b \<noteq> a \<Longrightarrow> lookup cfg (dn_cache st') b = lookup cfg ?dc b" using st'(1,3) by simp
  have la: "line cfg E st' a (if fin then Some (tl (dn_queue st' a)) else None)"
    using sl sa li(3) st'(4) ae sent [of a] ready_cong [of cfg e' rqs _ _ _ "new_entry cfg a"]
    by (cases fin) (auto simp: line_def Let_def st'(1) st1_def)
  show "dinv cfg E st' (R(a := if fin then Some (tl (dn_queue st' a)) else None))"
    by (rule dinv_change [OF i _ la]) (use st'(1-3) sent a in \<open>simp_all add: st1_def\<close>)
qed

text \<open>The line of an entry that is moved aside has no requests; the request to give it up is the first.\<close>

lemma line_nullify:
  fixes st :: "'d dir_cntlr"
  assumes "line cfg E st a None" "dn_queue st a = []"
  shows "line cfg E st a (Some [shmem_req_new NULLIFY_REQ r])"
proof -
  have "ready cfg e [shmem_req_new NULLIFY_REQ r :: 'd shmem_req] s A B" if "ready cfg e ([] :: 'd shmem_req list) s A B" for e s A B
    using that by (simp add: ready_def queue_ok_def shmem_req_new_def)
  moreover have "line cfg E st a (Some [])" using assms line_idle by blast
  moreover have "own [shmem_req_new NULLIFY_REQ r :: 'd shmem_req] = own ([] :: 'd shmem_req list)" by (simp add: fun_eq_iff shmem_req_new_def)
  ultimately show ?thesis by (simp add: line_def Let_def asked_def)
qed

lemma getDirectoryEntry_replaced:
  assumes g: "getDirectoryEntry cfg dc b = Inr (p, dc')" and wf: "dir_wf cfg dc" and l: "lookup cfg dc b = Some In_Replaced"
  shows "p = Some In_Replaced \<and> dc' = dc"
  using g
proof (cases rule: getDirectoryEntry_cases)
  case (free k)
  then show ?thesis using wf l unfolding lookup_replaced dir_wf_def by blast
qed (use l in \<open>auto simp: lookup_replaced has_slot_def\<close>)

lemma choose_candidate_in: "choose_candidate num idle best ks = Some k \<Longrightarrow> best = Some k \<or> k \<in> set ks"
  by (induction ks arbitrary: best) (fastforce split: if_splits)+

lemma candidates_in_set:
  assumes "getReplacementCandidates cfg dc a = Inr (ks, dc1)" "0 < cfg_associativity cfg"
  shows "set ks \<subseteq> set (set_slots cfg a)"
  using assms by (auto simp: getReplacementCandidates_def set_slots_def Let_def split: sum.splits if_splits)

text \<open>
  What an allocation does: the entry of an idle address \<open>b\<close> of the set is moved aside,
  its slot is given to the new address, and the line of \<open>b\<close> is to be given up.
\<close>

lemma allocation_steps:
  assumes al: "processDirectoryEntryAllocationReq cfg st a requester = Inr (p, st')" and wf: "dir_wf cfg (dn_cache st)" and a: "a \<noteq> minus1_64"
  obtains b dc k fin st1 where "b \<noteq> a" "b \<noteq> minus1_64" "dn_queue st b = []" "dir_wf cfg dc"
    "\<forall>c. c \<noteq> minus1_64 \<longrightarrow> view cfg dc c = view cfg (dn_cache st) c" "lookup cfg dc a = Some (In_Slot k)" "lookup cfg dc b = Some In_Replaced"
    "\<forall>j \<in> set (set_slots cfg b). j < length (dc_slots dc)" "p = In_Slot k"
    "serve_at cfg (st\<lparr>dn_cache := dc, dn_queue := (dn_queue st)(b := [shmem_req_new NULLIFY_REQ requester])\<rparr>) b In_Replaced None = Inr (fin, st1)"
    "st' = (if fin then st1\<lparr>dn_queue := (dn_queue st1)(b := [])\<rparr> else st1)"
proof -
  obtain ks dc1 k where c: "getReplacementCandidates cfg (dn_cache st) a = Inr (ks, dc1)"
    "choose_candidate (\<lambda>k. getNumSharers (slot_entry cfg dc1 k)) (\<lambda>k. dn_queue st (de_address (slot_entry cfg dc1 k)) = []) None ks = Some k"
    using al by (auto simp: processDirectoryEntryAllocationReq_def split: sum.splits option.splits)
  define b where "b = de_address (slot_entry cfg dc1 k)"
  have qb: "dn_queue st b = []" using choose_candidate_idle [OF c(2)] by (simp add: b_def)
  obtain k' dc2 p' dc3 fin st1 where d: "replaceDirectoryEntry cfg dc1 b a = Inr (k', dc2)" "getDirectoryEntry cfg dc2 b = Inr (Some p', dc3)"
    "serve_at cfg (st\<lparr>dn_cache := dc3, dn_queue := (dn_queue st)(b := [shmem_req_new NULLIFY_REQ requester])\<rparr>) b p' None = Inr (fin, st1)"
    "p = In_Slot k'" "st' = (if fin then st1\<lparr>dn_queue := (dn_queue st1)(b := [])\<rparr> else st1)"
    using al c qb by (auto simp: processDirectoryEntryAllocationReq_def Let_def b_def [symmetric] split: sum.splits prod.splits option.splits if_splits elim!: map_sum_InrE)
  obtain dc0 where g: "getDirectoryEntry cfg (dn_cache st) a = Inr (None, dc0)" "dc_slots dc1 = dc_slots dc0" "dc_replaced dc1 = dc_replaced dc0"
    using c(1) by (auto simp: getReplacementCandidates_def Let_def split: sum.splits if_splits)
  have dc0: "dc0 = dn_cache st" "lookup cfg dc0 a = None" "\<forall>k \<in> set (set_slots cfg a). de_address (slot_entry cfg dc0 k) \<notin> {a, minus1_64}"
    using getDirectoryEntry_view [OF g(1) wf a] by auto
  have s: "slot_entry cfg dc1 j = slot_entry cfg (dn_cache st) j" for j using g(2) dc0(1) by (simp add: slot_entry_def)
  have same: "view cfg dc1 x = view cfg (dn_cache st) x" "dir_wf cfg dc1" for x using view_same [of cfg dc1 "dn_cache st", OF s] g(2,3) dc0(1) wf by auto
  have k: "k \<in> set (set_slots cfg a)" using candidates_in_set [OF c(1)] choose_candidate_in [OF c(2)] wf by (auto simp: dir_wf_def)
  have lt: "\<forall>j \<in> set (set_slots cfg a). j < length (dc_slots dc1)" using getDirectoryEntry_range [OF g(1)] g(2) dc0(1) by simp
  have b: "b \<noteq> a" "b \<noteq> minus1_64" using dc0 k by (auto simp: b_def s)
  have full: "\<forall>j \<in> set (set_slots cfg a). de_address (slot_entry cfg dc1 j) \<notin> {a, minus1_64}" "dc_replaced dc1 a = None"
    using dc0 g(3) lookup_None [of cfg "dn_cache st" a] by (auto simp: s)
  note rv = replaceDirectoryEntry_view [OF d(1) same(2) b(2) a full k b_def [symmetric] lt]
  have d3: "p' = In_Replaced" "dc3 = dc2" using getDirectoryEntry_replaced [OF d(2)] rv by auto
  show ?thesis
    by (rule that [of b dc2 k' fin st1]) (use b qb rv same(1) getDirectoryEntry_range [OF d(2)] d(3-5) d3 in simp_all)
qed

lemma allocation_inv:
  assumes al: "processDirectoryEntryAllocationReq cfg st a requester = Inr (p, st')" and i: "dinv cfg E st [a \<mapsto> q]" and pl: "plain cfg"
    and a: "a \<noteq> minus1_64"
  shows "dinv cfg E st' [a \<mapsto> q] \<and> lookup cfg (dn_cache st') a = Some p"
proof -
  have "dir_wf cfg (dn_cache st)" using i by (simp add: dinv_def)
  from allocation_steps [OF al this a] obtain b dc k fin st1 where b: "b \<noteq> a" "b \<noteq> minus1_64" "dn_queue st b = []" and wf: "dir_wf cfg dc"
    and v: "\<forall>c. c \<noteq> minus1_64 \<longrightarrow> view cfg dc c = view cfg (dn_cache st) c" and lk: "lookup cfg dc a = Some (In_Slot k)" "lookup cfg dc b = Some In_Replaced"
    and lt: "\<forall>j \<in> set (set_slots cfg b). j < length (dc_slots dc)" and p: "p = In_Slot k"
    and sv: "serve_at cfg (st\<lparr>dn_cache := dc, dn_queue := (dn_queue st)(b := [shmem_req_new NULLIFY_REQ requester])\<rparr>) b In_Replaced None = Inr (fin, st1)"
    and st': "st' = (if fin then st1\<lparr>dn_queue := (dn_queue st1)(b := [])\<rparr> else st1)" by metis
  let ?n = "[shmem_req_new NULLIFY_REQ requester]"
  define st0 where "st0 = st\<lparr>dn_cache := dc, dn_queue := (dn_queue st)(b := ?n)\<rparr>"
  have i0: "dinv cfg E (st\<lparr>dn_cache := dc\<rparr>) [a \<mapsto> q]" by (rule dinv_same [OF i]) (use wf v in simp_all)
  have "line cfg E (st\<lparr>dn_cache := dc\<rparr>) b (Some ?n)" by (rule line_nullify) (use dinvD [OF i0 b(2)] b in simp_all)
  then have lb: "line cfg E st0 b (Some ?n)" by (subst line_cong [of cfg st0 b "st\<lparr>dn_cache := dc\<rparr>" _ E E]) (simp_all add: st0_def)
  have i1: "dinv cfg E st0 ([a \<mapsto> q](b \<mapsto> ?n))" by (rule dinv_change [OF i0 _ lb]) (use wf b(2) in \<open>simp_all add: st0_def\<close>)
  have s0: "([a \<mapsto> q](b \<mapsto> ?n)) b = Some (dn_queue st0 b)" "lookup cfg (dn_cache st0) b = Some In_Replaced"
    "\<forall>j \<in> set (set_slots cfg b). j < length (dc_slots (dn_cache st0))" using lk lt by (simp_all add: st0_def)
  note r = serve_at_inv [OF sv [folded st0_def] i1 s0(1) pl b(2) s0(2,3)]
  have la: "lookup cfg (dn_cache st1) a = Some (In_Slot k)" using r(2) [of a] b(1) lk by (simp add: st0_def)
  have "length (dn_queue st1 b) = 1" using serve_at_queue [OF sv] by simp
  then have tl: "tl (dn_queue st1 b) = []" by (cases "dn_queue st1 b") auto
  have ab: "[a \<mapsto> q](b := None) = [a \<mapsto> q]" by (rule fun_upd_idem) (use b(1) in simp)
  show ?thesis
  proof (cases fin)
    case False
    with r(1) la p st' ab show ?thesis by (simp del: fun_upd_apply)
  next
    case True
    let ?st = "st1\<lparr>dn_queue := (dn_queue st1)(b := [])\<rparr>"
    have "line cfg E ?st b (Some [])" using dinvD [OF r(1) b(2)] True tl line_cong [of cfg ?st b st1 "Some []" E E] by simp
    then have lb': "line cfg E ?st b None" by (subst line_idle) simp_all
    have w1: "dir_wf cfg (dn_cache ?st)" using r(1) by (simp add: dinv_def)
    from dinv_change [OF r(1) w1 lb'] True la p st' ab b(2) show ?thesis by (simp del: fun_upd_apply add: fun_upd_other)
  qed
qed

lemma allocation_slots:
  assumes "processDirectoryEntryAllocationReq cfg st a requester = Inr (p, st')"
  shows "length (dc_slots (dn_cache st')) = length (dc_slots (dn_cache st))"
proof -
  from assms obtain ks dc1 b k' dc2 q dc3 p' fin st1 where c:
    "getReplacementCandidates cfg (dn_cache st) a = Inr (ks, dc1)" "replaceDirectoryEntry cfg dc1 b a = Inr (k', dc2)"
    "getDirectoryEntry cfg dc2 b = Inr (Some p', dc3)"
    "serve_at cfg (st\<lparr>dn_cache := dc3, dn_queue := q\<rparr>) b p' None = Inr (fin, st1)" "dn_cache st' = dn_cache st1"
    by (auto simp: processDirectoryEntryAllocationReq_def Let_def split: sum.splits prod.splits option.splits if_splits elim!: map_sum_InrE)
  have "length (dc_slots dc1) = length (dc_slots (dn_cache st))" using c(1) getDirectoryEntry_slots [of cfg "dn_cache st" a]
    by (auto simp: getReplacementCandidates_def Let_def split: sum.splits if_splits)
  moreover have "length (dc_slots dc2) = length (dc_slots dc1)" using c(2) by (auto simp: replaceDirectoryEntry_def split: if_splits option.splits)
  ultimately show ?thesis using getDirectoryEntry_slots [OF c(3)] serve_at_slots [OF c(4)] c(5) by simp
qed

lemma process_front_inv:
  assumes f: "process_front cfg st a cached = Inr (fin, st')" and i: "dinv cfg E st [a \<mapsto> dn_queue st a]" and pl: "plain cfg" and a: "a \<noteq> minus1_64"
  shows "dinv cfg E st' (if fin then [a \<mapsto> tl (dn_queue st' a)] else Map.empty)"
proof -
  obtain rq rqs where q: "dn_queue st a = rq # rqs" using f by (cases "dn_queue st a") (auto simp: process_front_def)
  obtain p dc where g: "getDirectoryEntry cfg (dn_cache st) a = Inr (p, dc)"
    using f q by (cases "getDirectoryEntry cfg (dn_cache st) a") (auto simp: process_front_def)
  note i1 = dinv_lookup [OF i g a]
  have lt: "\<forall>k \<in> set (set_slots cfg a). k < length (dc_slots dc)" using getDirectoryEntry_range [OF g] getDirectoryEntry_slots [OF g] by simp
  have sv: "dinv cfg E st' (if fin then [a \<mapsto> tl (dn_queue st' a)] else Map.empty)"
    if "serve_at cfg s a x cached = Inr (fin, st')" "dinv cfg E s [a \<mapsto> dn_queue s a]" "lookup cfg (dn_cache s) a = Some x"
      "length (dc_slots (dn_cache s)) = length (dc_slots dc)" for s x
    using serve_at_inv(1) [OF that(1,2) _ pl a that(3)] lt that(4) by (cases fin) simp_all
  show ?thesis
  proof (cases p)
    case (Some x)
    with f q g have "serve_at cfg (st\<lparr>dn_cache := dc\<rparr>) a x cached = Inr (fin, st')" by (simp add: process_front_def)
    from sv [OF this] i1 Some show ?thesis by simp
  next
    case None
    with f q g obtain x st1 where al: "processDirectoryEntryAllocationReq cfg (st\<lparr>dn_cache := dc\<rparr>) a (rq_requester rq) = Inr (x, st1)"
      "serve_at cfg st1 a x cached = Inr (fin, st')" by (auto simp: process_front_def split: if_splits sum.splits)
    have "dn_queue st1 a = dn_queue st a" using allocation_queue [OF al(1)] q by simp
    with sv [OF al(2)] allocation_inv [OF al(1) i1(1) pl a] allocation_slots [OF al(1)] show ?thesis by simp
  qed
qed

lemma processNext_inv:
  assumes "processNextReqFromL2Cache cfg st a = Inr st'" "dinv cfg E st [a \<mapsto> tl (dn_queue st a)]" "plain cfg" "a \<noteq> minus1_64"
  shows "dinv cfg E st' Map.empty"
  using assms
proof (induction cfg st a rule: processNextReqFromL2Cache.induct)
  case (1 cfg st a)
  obtain rq rqs where q: "dn_queue st a = rq # rqs"
    using "1.prems"(1) by (cases "dn_queue st a") (auto simp: processNextReqFromL2Cache.simps [of cfg st a])
  let ?st = "st\<lparr>dn_queue := (dn_queue st)(a := rqs)\<rparr>"
  have wf: "dir_wf cfg (dn_cache ?st)" using "1.prems"(2) by (simp add: dinv_def)
  have la: "line cfg E ?st a (Some rqs)" using dinvD [OF "1.prems"(2,4)] q line_cong [of cfg ?st a st "Some rqs" E E] by simp
  show ?case
  proof (cases "rqs = []")
    case True
    then have "line cfg E ?st a None" using la line_idle [of ?st a cfg E] by simp
    then have "dinv cfg E ?st ([a \<mapsto> tl (dn_queue st a)](a := None))" by (rule dinv_change [OF "1.prems"(2) wf]) (use "1.prems"(4) in simp_all)
    then have "dinv cfg E ?st Map.empty" by (simp only: fun_upd_upd empty_upd_none)
    with True q "1.prems"(1) show ?thesis by (simp add: processNextReqFromL2Cache.simps [of cfg st a])
  next
    case False
    with q "1.prems"(1) obtain fin st2 where f: "process_front cfg ?st a None = Inr (fin, st2)"
      "(if fin then processNextReqFromL2Cache cfg st2 a else Inr st2) = Inr st'"
      by (auto simp: processNextReqFromL2Cache.simps [of cfg st a] Let_def split: sum.splits)
    have "dinv cfg E ?st ([a \<mapsto> tl (dn_queue st a)](a \<mapsto> rqs))" by (rule dinv_change [OF "1.prems"(2) wf la]) (use "1.prems"(4) in simp_all)
    then have "dinv cfg E ?st [a \<mapsto> rqs]" by (simp only: fun_upd_upd)
    then have "dinv cfg E ?st [a \<mapsto> dn_queue ?st a]" by simp
    note r = process_front_inv [OF f(1) this "1.prems"(3,4)]
    show ?thesis
    proof (cases fin)
      case True
      with f(2) have "processNextReqFromL2Cache cfg st2 a = Inr st'" by simp
      moreover have "dinv cfg E st2 [a \<mapsto> tl (dn_queue st2 a)]" using r True by simp
      ultimately show ?thesis by (rule "1.IH" [OF q refl False f(1) refl True _ _ "1.prems"(3,4)])
    qed (use f(2) r in simp)
  qed
qed

lemma front_served_inv:
  assumes "serve cfg st a cached = Inr st'" "dinv cfg E st [a \<mapsto> dn_queue st a]" "plain cfg" "a \<noteq> minus1_64"
  shows "dinv cfg E st' Map.empty"
proof -
  obtain fin st1 where f: "process_front cfg st a cached = Inr (fin, st1)" "(if fin then processNextReqFromL2Cache cfg st1 a else Inr st1) = Inr st'"
    using assms(1) by (auto simp: serve_def split: sum.splits)
  note i1 = process_front_inv [OF f(1) assms(2-4)]
  show ?thesis using f(2) i1 processNext_inv [of cfg st1 a st' E] assms(3,4) by (cases fin) simp_all
qed

section \<open>Messages of the caches and of memory\<close>

text \<open>The message at the head of the channel from a cache has been received.\<close>

definition received :: "coh_env \<Rightarrow> u64 \<Rightarrow> nat \<Rightarrow> coh_env" where
  "received E a c = E\<lparr>ev_from := (ev_from E)(a := (ev_from E a)(c := tl (ev_from E a c)))\<rparr>"

text \<open>Replacing the entry of a line.\<close>

lemma change_entry_steps:
  assumes c: "change_entry cfg st a f = Inr (e, st')" and i: "dinv cfg E st Map.empty" and a: "a \<noteq> minus1_64"
    and f: "\<forall>e'. f (view cfg (dn_cache st) a) = Inr e' \<longrightarrow> de_address e' = de_address (view cfg (dn_cache st) a)"
  shows "f (view cfg (dn_cache st) a) = Inr e" "dn_queue st' = dn_queue st" "dn_sent st' = dn_sent st"
    "dir_wf cfg (dn_cache st')" "view cfg (dn_cache st') a = e" "b \<noteq> a \<Longrightarrow> b \<noteq> minus1_64 \<Longrightarrow> view cfg (dn_cache st') b = view cfg (dn_cache st) b"
    "de_address e = a"
proof -
  obtain p dc where g: "getDirectoryEntry cfg (dn_cache st) a = Inr (Some p, dc)" "f (entry_at cfg dc a p) = Inr e"
      "st' = st\<lparr>dn_cache := put_entry dc a p e\<rparr>"
    using c by (auto simp: change_entry_def split: sum.splits option.splits elim!: map_sum_InrE)
  have wf: "dir_wf cfg (dn_cache st)" using i by (simp add: dinv_def)
  note v = getDirectoryEntry_view [OF g(1) wf a]
  have lk: "lookup cfg dc a = Some p" using v by simp
  then have "entry_at cfg dc a p = view cfg dc a" by (simp add: view_def)
  then have e: "entry_at cfg dc a p = view cfg (dn_cache st) a" using v a by simp
  with g(2) show r: "f (view cfg (dn_cache st) a) = Inr e" by simp
  show ae: "de_address e = a" using f r dinvD [OF i a] by (simp add: line_def Let_def)
  have lt: "\<forall>k \<in> set (set_slots cfg a). k < length (dc_slots dc)" using getDirectoryEntry_range [OF g(1)] getDirectoryEntry_slots [OF g(1)] by simp
  note pv = put_entry_view [OF conjunct1 [OF v] lk a ae lt]
  show "dn_queue st' = dn_queue st" "dn_sent st' = dn_sent st" "dir_wf cfg (dn_cache st')" "view cfg (dn_cache st') a = e"
    using pv by (simp_all add: g(3))
  show "b \<noteq> a \<Longrightarrow> b \<noteq> minus1_64 \<Longrightarrow> view cfg (dn_cache st') b = view cfg (dn_cache st) b" using pv(2) [of b] v by (simp add: g(3))
qed

lemma tl_in_set: "x \<in> set (tl xs) \<Longrightarrow> x \<in> set xs"
  by (cases xs) auto

text \<open>A reply changes the entry of a line and takes the line to the situation \<open>X\<close>.\<close>

lemma reply_inv:
  assumes c: "change_entry cfg st a f = Inr (e, st1)" and i: "dinv cfg E st Map.empty" and a: "a \<noteq> minus1_64"
    and f: "\<forall>e'. f (view cfg (dn_cache st) a) = Inr e' \<longrightarrow> de_address e' = de_address (view cfg (dn_cache st) a)"
    and st2: "dn_cache st2 = dn_cache st1" "\<And>b. b \<noteq> a \<Longrightarrow> dn_queue st2 b = dn_queue st1 b" "\<And>b. to_cache (on_line b (dn_sent st2)) = to_cache (on_line b (dn_sent st1))"
      "\<And>b. b \<noteq> a \<Longrightarrow> on_line b (dn_sent st2) = on_line b (dn_sent st1)" "\<And>b. reads (on_line b (dn_sent st2)) = reads (on_line b (dn_sent st1))"
    and o: "own (case X of None \<Rightarrow> dn_queue st2 a | Some q \<Rightarrow> q) = own (dn_queue st a)"
    and X: "\<And>A nd. good cfg (view cfg (dn_cache st) a) (dn_queue st a) (ev_state E a) A (ev_from E a) nd \<Longrightarrow>
      (case X of None \<Rightarrow> good cfg e (dn_queue st2 a) (ev_state E a) A ((ev_from E a)(c := tl (ev_from E a c))) nd
       | Some q \<Rightarrow> ready cfg e q (ev_state E a) A ((ev_from E a)(c := tl (ev_from E a c))) \<and> nd = 0)"
  shows "dinv cfg (received E a c) st2 (Map.empty(a := X))"
proof -
  note s = change_entry_steps [OF c i a f]
  have "line cfg E st a None" using dinvD [OF i a] by simp
  then have g: "good cfg (view cfg (dn_cache st) a) (dn_queue st a) (ev_state E a) (\<lambda>c. ev_to E a c @ to_cache (on_line a (dn_sent st)) c)
      (ev_from E a) (ev_reads E a + reads (on_line a (dn_sent st)))"
    and ak: "asked (dn_queue st a) (\<lambda>c. ev_to E a c @ to_cache (on_line a (dn_sent st)) c) (ev_from E a) (ev_wait E a)" by (simp_all add: line_def Let_def)
  have "asked (case X of None \<Rightarrow> dn_queue st2 a | Some q \<Rightarrow> q) (\<lambda>c. ev_to E a c @ to_cache (on_line a (dn_sent st)) c)
      ((ev_from E a)(c := tl (ev_from E a c))) (ev_wait E a)"
    by (rule asked_mono [OF ak o]) (auto dest: tl_in_set)
  with X [OF g] have la: "line cfg (received E a c) st2 a X"
    using s(3,5,7) st2(1,3,5) by (cases X) (simp_all add: line_def Let_def received_def)
  show ?thesis by (rule dinv_change [OF i _ la]) (use s st2 a in \<open>auto simp: received_def\<close>)
qed

lemma processInvRep_inv:
  assumes p: "processInvRepFromL2Cache cfg st c a = Inr st'" and i: "dinv cfg E st Map.empty" and b: "ev_from E a c = INV_REP # x"
    and pl: "plain cfg" and a: "a \<noteq> minus1_64"
  shows "dinv cfg (received E a c) st' Map.empty"
proof -
  let ?e = "view cfg (dn_cache st) a"
  obtain e st1 where ce: "change_entry cfg st a (\<lambda>e. inv_entry e c) = Inr (e, st1)"
    using p by (cases "change_entry cfg st a (\<lambda>e. inv_entry e c)") (auto simp: processInvRepFromL2Cache_def)
  have f: "\<forall>e'. inv_entry ?e c = Inr e' \<longrightarrow> de_address e' = de_address ?e" using inv_entry_frame by blast
  note s = change_entry_steps [OF ce i a f] and r = reply_inv [OF ce i a f, where c = c]
  show ?thesis
  proof (cases "dn_queue st a")
    case Nil
    then have "st' = st1" using p ce s(2) by (simp add: processInvRepFromL2Cache_def)
    moreover have "dinv cfg (received E a c) st1 (Map.empty(a := None))"
      by (rule r) (use line_INV_REP_idle [where B = "ev_from E a" and c = c, OF _ b s(1) Nil] b s(2) in simp_all)
    ultimately show ?thesis by simp
  next
    case (Cons rq rqs)
    with p ce s(2) obtain w where w: "inv_wakes e rq c = Inr w" "(if w then serve cfg st1 a None else Inr st1) = Inr st'"
      by (auto simp: processInvRepFromL2Cache_def split: sum.splits)
    have g: "if w then ready cfg e (rq # rqs) (ev_state E a) A ((ev_from E a)(c := x)) \<and> nd = 0 else good cfg e (rq # rqs) (ev_state E a) A ((ev_from E a)(c := x)) nd"
      if "good cfg ?e (dn_queue st a) (ev_state E a) A (ev_from E a) nd" for A nd
      using line_INV_REP [where B = "ev_from E a" and c = c, OF _ b s(1) w(1)] that Cons by simp
    have "dinv cfg (received E a c) st1 (Map.empty(a := if w then Some (dn_queue st1 a) else None))"
      by (rule r) (use g b s(2) Cons in \<open>auto split: if_splits\<close>)
    with w(2) front_served_inv [of cfg st1 a None st', OF _ _ pl a] show ?thesis by (cases w) simp_all
  qed
qed

lemma sendDataToDram_sent:
  assumes "sendDataToDram cfg st a r d = Inr st'"
  shows "dn_cache st' = dn_cache st" "dn_queue st' = dn_queue st" "to_cache (on_line b (dn_sent st')) = to_cache (on_line b (dn_sent st))"
    "b \<noteq> a \<Longrightarrow> on_line b (dn_sent st') = on_line b (dn_sent st)" "reads (on_line b (dn_sent st')) = reads (on_line b (dn_sent st))"
proof -
  obtain n where n: "st' = send_msgs st [mk_msg DRAM_WRITE_REQ r n a d]" using assms by (auto simp: sendDataToDram_def elim!: map_sum_InrE)
  then show "dn_cache st' = dn_cache st" "dn_queue st' = dn_queue st" by (simp_all add: send_msgs_def)
  have o: "on_line b (dn_sent st') = on_line b (dn_sent st) @ (if b = a then [mk_msg DRAM_WRITE_REQ r n a d] else [])"
    by (simp add: n send_msgs_def on_line_def mk_msg_def)
  then show "b \<noteq> a \<Longrightarrow> on_line b (dn_sent st') = on_line b (dn_sent st)" by simp
  show "to_cache (on_line b (dn_sent st')) = to_cache (on_line b (dn_sent st))" by (rule ext) (simp add: o)
  show "reads (on_line b (dn_sent st')) = reads (on_line b (dn_sent st))" by (simp add: o)
qed

lemma processFlushRep_cases:
  assumes p: "processFlushRepFromL2Cache cfg st c r a d = Inr st'" and ce: "change_entry cfg st a (\<lambda>e. flush_entry e c) = Inr (e, st1)"
  obtains (idle) "dn_queue st1 a = []" "sendDataToDram cfg st1 a r d = Inr st'"
  | (serve) rq rqs x where "dn_queue st1 a = rq # rqs" "rq_type rq \<noteq> UPGRADE_REQ \<or> getNumSharers e = 0" "serve cfg st1 a x = Inr st'"
  | (memory) rq rqs st2 x where "dn_queue st1 a = rq # rqs" "rq_type rq \<noteq> UPGRADE_REQ" "sendDataToDram cfg st1 a r d = Inr st2" "serve cfg st2 a x = Inr st'"
  | (waits) rq rqs where "dn_queue st1 a = rq # rqs" "getNumSharers e \<noteq> 0" "st' = st1\<lparr>dn_queue := (dn_queue st1)(a := rq\<lparr>rq_data := d\<rparr> # rqs)\<rparr>"
proof (cases "dn_queue st1 a")
  case Nil
  with p ce show ?thesis by (intro idle) (simp_all add: processFlushRepFromL2Cache_def)
next
  case (Cons rq rqs)
  show ?thesis
  proof (cases "rq_type rq = UPGRADE_REQ \<or> rq_type rq = EX_REQ")
    case True
    show ?thesis
    proof (cases "rq_type rq = UPGRADE_REQ \<and> getNumSharers e \<noteq> 0")
      case True
      with p ce Cons show ?thesis by (intro waits [OF Cons]) (simp_all add: processFlushRepFromL2Cache_def)
    next
      case False
      with True p ce Cons show ?thesis by (intro serve [OF Cons, of d]) (auto simp: processFlushRepFromL2Cache_def)
    qed
  next
    case False
    then obtain st2 x where "sendDataToDram cfg st1 a r d = Inr st2" "serve cfg st2 a x = Inr st'"
      using p ce Cons by (cases "sendDataToDram cfg st1 a r d"; cases "rq_type rq") (auto simp: processFlushRepFromL2Cache_def)
    with False memory [OF Cons] show ?thesis by blast
  qed
qed

lemma processFlushRep_inv:
  assumes p: "processFlushRepFromL2Cache cfg st c r a d = Inr st'" and i: "dinv cfg E st Map.empty" and b: "ev_from E a c = FLUSH_REP # x"
    and pl: "plain cfg" and a: "a \<noteq> minus1_64"
  shows "dinv cfg (received E a c) st' Map.empty"
proof -
  let ?e = "view cfg (dn_cache st) a"
  obtain e st1 where ce: "change_entry cfg st a (\<lambda>e. flush_entry e c) = Inr (e, st1)"
    using p by (cases "change_entry cfg st a (\<lambda>e. flush_entry e c)") (auto simp: processFlushRepFromL2Cache_def)
  have f: "\<forall>e'. flush_entry ?e c = Inr e' \<longrightarrow> de_address e' = de_address ?e" using flush_entry_frame by blast
  note s = change_entry_steps [OF ce i a f] and rp = reply_inv [OF ce i a f, where c = c]
  note l = line_FLUSH_REP [where B = "ev_from E a" and c = c, OF _ b s(1)]
  have rd: "dinv cfg (received E a c) st2 (Map.empty(a := Some (dn_queue st2 a)))"
    if "dn_cache st2 = dn_cache st1" "dn_queue st2 = dn_queue st1" "\<And>b. to_cache (on_line b (dn_sent st2)) = to_cache (on_line b (dn_sent st1))"
      "\<And>b. b \<noteq> a \<Longrightarrow> on_line b (dn_sent st2) = on_line b (dn_sent st1)" "\<And>b. reads (on_line b (dn_sent st2)) = reads (on_line b (dn_sent st1))"
      "dn_queue st1 a = [] \<or> rq_type (hd (dn_queue st1 a)) \<noteq> UPGRADE_REQ \<or> getNumSharers e = 0" for st2
    by (rule rp) (use that l(1) b s(2) in simp_all)
  from p ce show ?thesis
  proof (cases rule: processFlushRep_cases)
    case idle
    note sd = sendDataToDram_sent [OF idle(2)]
    have "dinv cfg (received E a c) st' (Map.empty(a := Some (dn_queue st' a)))" by (rule rd) (use sd idle(1) in auto)
    with idle(1) sd(2) show ?thesis by (intro dinv_idle [of cfg _ st' a]) simp_all
  next
    case (serve rq rqs y)
    show ?thesis by (rule front_served_inv [OF serve(3) _ pl a], rule rd) (use serve(1,2) in auto)
  next
    case (memory rq rqs st2 y)
    show ?thesis by (rule front_served_inv [OF memory(4) _ pl a], rule rd) (use memory(1,2) sendDataToDram_sent [OF memory(3)] in auto)
  next
    case (waits rq rqs)
    have od: "own (rq\<lparr>rq_data := d\<rparr> # rqs) = own (rq # rqs)" by (rule ext) simp
    have g: "good cfg e (rq\<lparr>rq_data := d\<rparr> # rqs) s' A B nd" if "good cfg e (rq # rqs) s' A B nd" for s' A B nd
    proof -
      from od that queue_ok_hd [of _ rq rqs "rq\<lparr>rq_data := d\<rparr>"] show ?thesis by (simp add: good_def del: own_simps)
    qed
    have "dinv cfg (received E a c) st' (Map.empty(a := None))"
      by (rule rp) (use waits s(2) l(2) [where q = "rq # rqs"] b g od in \<open>simp_all del: own_simps\<close>)
    then show ?thesis by simp
  qed
qed

lemma processWbRep_inv:
  assumes p: "processWbRepFromL2Cache cfg st c a d = Inr st'" and i: "dinv cfg E st Map.empty" and b: "ev_from E a c = WB_REP # x"
    and pl: "plain cfg" and a: "a \<noteq> minus1_64"
  shows "dinv cfg (received E a c) st' Map.empty"
proof -
  let ?e = "view cfg (dn_cache st) a"
  obtain e st1 where ce: "change_entry cfg st a (\<lambda>e. wb_entry e c) = Inr (e, st1)" "serve cfg st1 a d = Inr st'"
    using p by (auto simp: processWbRepFromL2Cache_def split: sum.splits list.splits if_splits)
  have f: "\<forall>e'. wb_entry ?e c = Inr e' \<longrightarrow> de_address e' = de_address ?e" using wb_entry_frame by blast
  note s = change_entry_steps [OF ce(1) i a f]
  have g: "ready cfg e (dn_queue st a) (ev_state E a) A ((ev_from E a)(c := x)) \<and> nd = 0"
    if "good cfg ?e (dn_queue st a) (ev_state E a) A (ev_from E a) nd" for A nd
    using line_WB_REP [where B = "ev_from E a" and c = c, OF that b s(1)] by simp
  have "dinv cfg (received E a c) st1 (Map.empty(a := Some (dn_queue st1 a)))"
    by (rule reply_inv [OF ce(1) i a f]) (use g b s(2) in simp_all)
  then show ?thesis by (intro front_served_inv [OF ce(2) _ pl a]) simp
qed

lemma processDRAMReply_inv:
  assumes p: "processDRAMReply cfg st a d = Inr st'" and i: "dinv cfg E st Map.empty" and n: "ev_reads E a = Suc n"
    and pl: "plain cfg" and a: "a \<noteq> minus1_64" and s0: "dn_sent st = []"
  shows "dinv cfg (E\<lparr>ev_reads := (ev_reads E)(a := n)\<rparr>) st' Map.empty"
proof -
  let ?E = "E\<lparr>ev_reads := (ev_reads E)(a := n)\<rparr>"
  obtain rq rqs e st1 t where q: "dn_queue st a = rq # rqs" and ce: "change_entry cfg st a Inr = Inr (e, st1)"
    and t: "dram_reply_type (de_dstate e) (rq_type rq) = Inr t"
    and nx: "processNextReqFromL2Cache cfg (send_msgs st1 [mk_msg t (rq_requester rq) (rq_requester rq) a d]) a = Inr st'"
    using p by (auto simp: processDRAMReply_def split: sum.splits list.splits)
  let ?st = "send_msgs st1 [mk_msg t (rq_requester rq) (rq_requester rq) a d]"
  have f: "\<forall>e'. Inr (view cfg (dn_cache st) a) = Inr e' \<longrightarrow> de_address e' = de_address (view cfg (dn_cache st) a)" by simp
  note s = change_entry_steps [OF ce i a f]
  have e: "e = view cfg (dn_cache st) a" using s(1) by simp
  have g: "good cfg e (rq # rqs) (ev_state E a) (ev_to E a) (ev_from E a) (Suc n)"
    and ak: "asked (rq # rqs) (ev_to E a) (ev_from E a) (ev_wait E a)"
    using dinvD [OF i a] q n s0 e by (simp_all add: line_def Let_def on_line_def)
  then have "n = 0" by (auto simp: good_def split: if_splits)
  have tt: "t = EX_REP \<or> t = SH_REP" using t by (auto simp: dram_reply_type_def split: msg_t.splits if_splits)
  have o: "on_line b (dn_sent ?st) = (if b = a then [mk_msg t (rq_requester rq) (rq_requester rq) a d] else [])" for b
    using s(3) s0 by (simp add: send_msgs_def on_line_def mk_msg_def)
  have tc: "(\<lambda>c. ev_to E a c @ to_cache (on_line a (dn_sent ?st)) c) = (ev_to E a)(rq_requester rq := ev_to E a (rq_requester rq) @ [t])"
    using tt by (auto simp: o fun_eq_iff)
  have "reads (on_line a (dn_sent ?st)) = 0" using tt by (auto simp: o)
  moreover have "asked rqs (\<lambda>c. ev_to E a c @ to_cache (on_line a (dn_sent ?st)) c) (ev_from E a) (ev_wait E a)"
    unfolding tc by (rule line_memory_asked [OF g _ t ak]) simp
  ultimately have la: "line cfg ?E ?st a (Some rqs)"
    using line_memory [OF g _ t] tc s(5,7) \<open>n = 0\<close>  by (simp add: line_def Let_def send_msgs_def)
  have "dinv cfg ?E ?st (Map.empty(a := Some rqs))"
    by (rule dinv_change [OF i _ la]) (use s o s0 a in \<open>auto simp: send_msgs_def on_line_def\<close>)
  then show ?thesis by (intro processNext_inv [OF nx _ pl a]) (use s(2) q in \<open>simp add: send_msgs_def\<close>)
qed

lemma handle_request_inv:
  assumes h: "(let q = dn_queue st a @ [shmem_req_new t c]; st2 = st\<lparr>dn_queue := (dn_queue st)(a := q)\<rparr> in
      if length q = 1 then serve cfg st2 a None else Inr st2) = Inr st'"
    and i: "dinv cfg E st Map.empty" and b: "ev_from E a c = t # x" "t \<in> {EX_REQ, SH_REQ, UPGRADE_REQ}"
    and pl: "plain cfg" and a: "a \<noteq> minus1_64" and c: "c < cfg_max_num_sharers cfg"
  shows "dinv cfg (received E a c) st' Map.empty"
proof -
  let ?q = "dn_queue st a" and ?rq = "shmem_req_new t c"
  let ?st = "st\<lparr>dn_queue := (dn_queue st)(a := ?q @ [?rq])\<rparr>"
  have "line cfg E st a None" using dinvD [OF i a] by simp
  then have g: "good cfg (view cfg (dn_cache st) a) ?q (ev_state E a) (\<lambda>c. ev_to E a c @ to_cache (on_line a (dn_sent st)) c) (ev_from E a)
      (ev_reads E a + reads (on_line a (dn_sent st)))" and ad: "de_address (view cfg (dn_cache st) a) = a"
    and ak: "asked ?q (\<lambda>c. ev_to E a c @ to_cache (on_line a (dn_sent st)) c) (ev_from E a) (ev_wait E a)" by (simp_all add: line_def Let_def)
  note r = line_request [where B = "ev_from E a" and c = c, OF g b c refl]
  have la: "line cfg (received E a c) ?st a (if ?q = [] then Some [?rq] else None)"
    using r ad b(1) line_request_asked [where B = "ev_from E a" and c = c, OF ak b] by (cases "?q = []") (simp_all add: line_def Let_def received_def)
  have "dinv cfg (received E a c) ?st (Map.empty(a := if ?q = [] then Some [?rq] else None))"
    by (rule dinv_change [OF i _ la]) (use i a in \<open>auto simp: dinv_def received_def\<close>)
  with h front_served_inv [of cfg ?st a None st', OF _ _ pl a] show ?thesis by (cases "?q = []") (simp_all add: Let_def)
qed

text \<open>A message of a cache is handled.\<close>

lemma handleMsgFromL2Cache_inv:
  assumes h: "handleMsgFromL2Cache cfg st c m = Inr st'" and i: "dinv cfg E st Map.empty" and m: "ev_from E (sm_address m) c = sm_type m # x"
    and r: "sm_type m \<in> {EX_REQ, SH_REQ, UPGRADE_REQ} \<Longrightarrow> sm_requester m = c"
    and pl: "plain cfg" and a: "sm_address m \<noteq> minus1_64" and c: "c < cfg_max_num_sharers cfg"
  shows "dinv cfg (received E (sm_address m) c) st' Map.empty"
proof -
  obtain p dc where g: "getDirectoryEntry cfg (dn_cache st) (sm_address m) = Inr (p, dc)"
    using h by (cases "getDirectoryEntry cfg (dn_cache st) (sm_address m)") (auto simp: handleMsgFromL2Cache_def Let_def)
  note i1 = dinv_lookup(1) [OF i g a]
  consider "sm_type m = INV_REP" | "sm_type m = FLUSH_REP" | "sm_type m = WB_REP" | "sm_type m \<in> {EX_REQ, SH_REQ, UPGRADE_REQ}" "sm_data m = None"
    using h g by (auto simp: handleMsgFromL2Cache_def Let_def split: if_splits)
  then show ?thesis
  proof cases
    case 1
    then have f: "ev_from E (sm_address m) c = INV_REP # x" using m by simp
    show ?thesis by (rule processInvRep_inv [OF _ i1 f pl a]) (use h g 1 in \<open>simp add: handleMsgFromL2Cache_def\<close>)
  next
    case 2
    then have f: "ev_from E (sm_address m) c = FLUSH_REP # x" using m by simp
    show ?thesis by (rule processFlushRep_inv [OF _ i1 f pl a]) (use h g 2 in \<open>simp add: handleMsgFromL2Cache_def\<close>)
  next
    case 3
    then have f: "ev_from E (sm_address m) c = WB_REP # x" using m by simp
    show ?thesis by (rule processWbRep_inv [OF _ i1 f pl a]) (use h g 3 in \<open>simp add: handleMsgFromL2Cache_def\<close>)
  next
    case 4
    with r have "sm_requester m = c" by simp
    with 4 h g have "(let q = dn_queue (st\<lparr>dn_cache := dc\<rparr>) (sm_address m) @ [shmem_req_new (sm_type m) c];
        st2 = (st\<lparr>dn_cache := dc\<rparr>)\<lparr>dn_queue := (dn_queue (st\<lparr>dn_cache := dc\<rparr>))(sm_address m := q)\<rparr> in
        if length q = 1 then serve cfg st2 (sm_address m) None else Inr st2) = Inr st'"
      by (auto simp: handleMsgFromL2Cache_def Let_def)
    then show ?thesis by (rule handle_request_inv [OF _ i1 m 4(1) pl a c])
  qed
qed

end
