(* ===== verification/Cache_Cntlr.thy ===== *)
theory Cache_Cntlr
  imports Coherence_Dir
begin

text \<open>
  The controller of a last-level cache (\<open>cache_cntlr.cc\<close>) that is kept coherent by a
  directory: accesses of the cores, requests to the directory, replies and requests of
  the directory, and evictions. The caches above it, prefetching, passthrough, the
  access straight to DRAM, latencies and statistics are left out, and every access
  is one for data. A controller handles an access or a message with the lock of
  its stack held, so that each of them is one step.
\<close>

section \<open>State\<close>

datatype mem_op_t = READ | READ_EX | WRITE

text \<open>
  A line is in the cache when its state is not \<open>INVALID\<close>; \<open>lc_waiters\<close> holds for each
  address the accesses that wait for the directory, with whether they need the line for
  writing.
\<close>

record 'd llc =
  lc_state :: "u64 \<Rightarrow> cstate"
  lc_data :: "u64 \<Rightarrow> 'd option"
  lc_waiters :: "u64 \<Rightarrow> bool list"

type_synonym 'd llc_result = "('d llc \<times> 'd shmem_msg list) outcome"

definition llc_new :: "'d llc" where
  "llc_new = \<lparr> lc_state = (\<lambda>_. INVALID), lc_data = (\<lambda>_. None), lc_waiters = (\<lambda>_. []) \<rparr>"

definition readable :: "cstate \<Rightarrow> bool" where
  "readable s \<longleftrightarrow> s = MODIFIED \<or> s = OWNED \<or> s = SHARED \<or> s = EXCLUSIVE"

definition writable :: "cstate \<Rightarrow> bool" where
  "writable s \<longleftrightarrow> s = MODIFIED"

definition setCacheState :: "'d llc \<Rightarrow> u64 \<Rightarrow> cstate \<Rightarrow> 'd llc" where
  "setCacheState lc a s = lc\<lparr>lc_state := (lc_state lc)(a := s)\<rparr>"

definition operationPermissibleinCache :: "'d llc \<Rightarrow> u64 \<Rightarrow> mem_op_t \<Rightarrow> bool" where
  "operationPermissibleinCache lc a op =
     (case op of READ \<Rightarrow> readable (lc_state lc a) | READ_EX \<Rightarrow> writable (lc_state lc a) | WRITE \<Rightarrow> writable (lc_state lc a))"

section \<open>Requests to the directory\<close>

text \<open>\<open>me\<close> is the core of the master cache and \<open>home\<close> the node of the directory.\<close>

definition processExReqToDirectory :: "nat \<Rightarrow> nat \<Rightarrow> 'd llc \<Rightarrow> u64 \<Rightarrow> 'd llc_result" where
  "processExReqToDirectory me home lc a =
     (if lc_state lc a \<noteq> INVALID then Inl Assertion_Failed else Inr (lc, [mk_msg EX_REQ me home a None]))"

definition processUpgradeReqToDirectory :: "nat \<Rightarrow> nat \<Rightarrow> 'd llc \<Rightarrow> u64 \<Rightarrow> 'd llc_result" where
  "processUpgradeReqToDirectory me home lc a =
     (if lc_state lc a \<noteq> SHARED then Inl Assertion_Failed
      else Inr (setCacheState lc a SHARED_UPGRADING, [mk_msg UPGRADE_REQ me home a None]))"

definition processShReqToDirectory :: "nat \<Rightarrow> nat \<Rightarrow> 'd llc \<Rightarrow> u64 \<Rightarrow> 'd llc_result" where
  "processShReqToDirectory me home lc a = Inr (lc, [mk_msg SH_REQ me home a None])"

text \<open>Only the first waiter of an address sends a request.\<close>

definition initiateDirectoryAccess :: "nat \<Rightarrow> nat \<Rightarrow> 'd llc \<Rightarrow> mem_op_t \<Rightarrow> u64 \<Rightarrow> 'd llc_result" where
  "initiateDirectoryAccess me home lc op a =
     (let exclusive = (op \<noteq> READ);
          lc1 = lc\<lparr>lc_waiters := (lc_waiters lc)(a := lc_waiters lc a @ [exclusive])\<rparr> in
      if length (lc_waiters lc1 a) \<noteq> 1 then Inr (lc1, [])
      else if exclusive
      then (if lc_state lc a = SHARED then processUpgradeReqToDirectory me home lc1 a else processExReqToDirectory me home lc1 a)
      else processShReqToDirectory me home lc1 a)"

text \<open>
  \<open>processShmemReqFromPrevCache\<close> at the last level: whether the access is a hit. A
  write to an exclusive line is one and changes its state silently.
\<close>

definition processShmemReqFromPrevCache :: "nat \<Rightarrow> nat \<Rightarrow> 'd llc \<Rightarrow> mem_op_t \<Rightarrow> u64 \<Rightarrow> (bool \<times> 'd llc \<times> 'd shmem_msg list) outcome" where
  "processShmemReqFromPrevCache me home lc op a =
     (if operationPermissibleinCache lc a op then Inr (True, lc, [])
      else if lc_state lc a = EXCLUSIVE then Inr (True, setCacheState lc a MODIFIED, [])
      else map_sum id (\<lambda>(lc1, ms). (False, lc1, ms)) (initiateDirectoryAccess me home lc op a))"

text \<open>The data of a write arrives from the cache above.\<close>

definition writeCacheBlock :: "'d llc \<Rightarrow> u64 \<Rightarrow> 'd \<Rightarrow> 'd llc outcome" where
  "writeCacheBlock lc a d =
     (if lc_state lc a \<noteq> MODIFIED then Inl Assertion_Failed else Inr (lc\<lparr>lc_data := (lc_data lc)(a := Some d)\<rparr>))"

section \<open>Changes of a line\<close>

definition invalidateCacheBlock :: "'d llc \<Rightarrow> u64 \<Rightarrow> 'd llc outcome" where
  "invalidateCacheBlock lc a =
     (if lc_state lc a = MODIFIED \<or> lc_state lc a = INVALID then Inl Assertion_Failed else Inr (setCacheState lc a INVALID))"

text \<open>
  \<open>updateCacheBlock\<close>: \<open>out\<close> says whether there is a buffer for the data; the data is
  returned in it. A modified line is written back first, which leaves it shared.
\<close>

definition updateCacheBlock :: "'d llc \<Rightarrow> u64 \<Rightarrow> cstate \<Rightarrow> bool \<Rightarrow> ('d llc \<times> 'd option) outcome" where
  "updateCacheBlock lc a new_cstate out =
     (let buf = (if out then lc_data lc a else None) in
      if lc_state lc a = INVALID then (if out then Inl Assertion_Failed else Inr (lc, None))
      else if new_cstate = lc_state lc a \<and> out then Inr (lc, buf)
      else if lc_state lc a = MODIFIED \<and> \<not> out then Inl Assertion_Failed
      else let lc1 = (if lc_state lc a = MODIFIED then setCacheState lc a SHARED else lc) in
           if new_cstate = INVALID then map_sum id (\<lambda>lc2. (lc2, buf)) (invalidateCacheBlock lc1 a)
           else if new_cstate = SHARED \<or> new_cstate = MODIFIED
           then (if new_cstate = MODIFIED \<and> out \<and> lc_state lc a \<noteq> MODIFIED then Inl Assertion_Failed else Inr (setCacheState lc1 a new_cstate, buf))
           else Inl Assertion_Failed)"

text \<open>
  \<open>insertCacheBlock\<close>: \<open>victim\<close> is the line that the replacement policy gives up, if the
  set is full. Its eviction tells the directory; only a modified line is sent back.
\<close>

definition evict :: "nat \<Rightarrow> nat \<Rightarrow> 'd llc \<Rightarrow> u64 \<Rightarrow> 'd llc_result" where
  "evict me home lc v =
     (case lc_state lc v of
        MODIFIED \<Rightarrow> Inr (setCacheState lc v INVALID, [mk_msg FLUSH_REP me home v (lc_data lc v)])
      | SHARED \<Rightarrow> Inr (setCacheState lc v INVALID, [mk_msg INV_REP me home v None])
      | EXCLUSIVE \<Rightarrow> Inr (setCacheState lc v INVALID, [mk_msg INV_REP me home v None])
      | _ \<Rightarrow> Inl Assertion_Failed)"

definition insertCacheBlock :: "nat \<Rightarrow> nat \<Rightarrow> 'd llc \<Rightarrow> u64 \<Rightarrow> cstate \<Rightarrow> 'd option \<Rightarrow> u64 option \<Rightarrow> 'd llc_result" where
  "insertCacheBlock me home lc a s d victim =
     (if lc_state lc a \<noteq> INVALID then Inl Assertion_Failed
      else map_sum id (\<lambda>(lc1, ms). (setCacheState (lc1\<lparr>lc_data := (lc_data lc1)(a := d)\<rparr>) a s, ms))
             (case victim of None \<Rightarrow> Inr (lc, []) | Some v \<Rightarrow> evict me home lc v))"

section \<open>Messages of the directory\<close>

definition processExRepFromDramDirectory :: "nat \<Rightarrow> nat \<Rightarrow> 'd llc \<Rightarrow> 'd shmem_msg \<Rightarrow> u64 option \<Rightarrow> 'd llc_result" where
  "processExRepFromDramDirectory me home lc m victim = insertCacheBlock me home lc (sm_address m) EXCLUSIVE (sm_data m) victim"

definition processShRepFromDramDirectory :: "nat \<Rightarrow> nat \<Rightarrow> 'd llc \<Rightarrow> 'd shmem_msg \<Rightarrow> u64 option \<Rightarrow> 'd llc_result" where
  "processShRepFromDramDirectory me home lc m victim = insertCacheBlock me home lc (sm_address m) SHARED (sm_data m) victim"

text \<open>
  An upgrade reply to a line that has been lost has to carry data; the update that
  follows does not find the line and fails for want of its data.
\<close>

definition processUpgradeRepFromDramDirectory :: "'d llc \<Rightarrow> 'd shmem_msg \<Rightarrow> 'd llc_result" where
  "processUpgradeRepFromDramDirectory lc m =
     (case lc_state lc (sm_address m) of
        INVALID \<Rightarrow> if sm_data m = None then Inl Assertion_Failed
                   else map_sum id (\<lambda>(lc1, _). (lc1, [])) (updateCacheBlock lc (sm_address m) MODIFIED True)
      | SHARED_UPGRADING \<Rightarrow> map_sum id (\<lambda>(lc1, _). (lc1, [])) (updateCacheBlock lc (sm_address m) MODIFIED False)
      | _ \<Rightarrow> Inl Assertion_Failed)"

definition processInvReqFromDramDirectory :: "nat \<Rightarrow> 'd llc \<Rightarrow> 'd shmem_msg \<Rightarrow> 'd llc_result" where
  "processInvReqFromDramDirectory home lc m =
     (let a = sm_address m in
      if lc_state lc a = INVALID then Inr (lc, [])
      else map_sum id (\<lambda>(lc1, _). (lc1, [mk_msg INV_REP (sm_requester m) home a None])) (updateCacheBlock lc a INVALID False))"

definition processFlushReqFromDramDirectory :: "nat \<Rightarrow> 'd llc \<Rightarrow> 'd shmem_msg \<Rightarrow> 'd llc_result" where
  "processFlushReqFromDramDirectory home lc m =
     (let a = sm_address m in
      if lc_state lc a = INVALID then Inr (lc, [])
      else map_sum id (\<lambda>(lc1, d). (lc1, [mk_msg FLUSH_REP (sm_requester m) home a d])) (updateCacheBlock lc a INVALID True))"

text \<open>The buffer of the reply is left as it is when the line waits for an upgrade.\<close>

definition processWbReqFromDramDirectory :: "nat \<Rightarrow> 'd llc \<Rightarrow> 'd shmem_msg \<Rightarrow> 'd llc_result" where
  "processWbReqFromDramDirectory home lc m =
     (let a = sm_address m in
      if lc_state lc a = INVALID then Inr (lc, [])
      else if lc_state lc a = SHARED_UPGRADING then Inr (lc, [mk_msg WB_REP (sm_requester m) home a None])
      else map_sum id (\<lambda>(lc1, d). (lc1, [mk_msg WB_REP (sm_requester m) home a d])) (updateCacheBlock lc a SHARED True))"

text \<open>
  After a reply the waiters of the address are woken one after the other; each repeats
  its access, which has to be a hit now. A waiter that needs to write a shared line
  upgrades it first and stays in the queue with those behind it.
\<close>

fun wake_waiters :: "nat \<Rightarrow> nat \<Rightarrow> 'd llc \<Rightarrow> u64 \<Rightarrow> bool list \<Rightarrow> 'd llc_result" where
  "wake_waiters me home lc a [] = Inr (lc\<lparr>lc_waiters := (lc_waiters lc)(a := [])\<rparr>, [])"
| "wake_waiters me home lc a (exclusive # ws) =
     (if exclusive \<and> lc_state lc a = SHARED
      then processUpgradeReqToDirectory me home (lc\<lparr>lc_waiters := (lc_waiters lc)(a := exclusive # ws)\<rparr>) a
      else (case processShmemReqFromPrevCache me home lc (if exclusive then WRITE else READ) a of
              Inr (True, lc1, _) \<Rightarrow> wake_waiters me home lc1 a ws
            | _ \<Rightarrow> Inl Assertion_Failed))"

definition is_reply :: "msg_t \<Rightarrow> bool" where
  "is_reply t \<longleftrightarrow> t = EX_REP \<or> t = SH_REP \<or> t = UPGRADE_REP"

definition handleMsgFromDramDirectory :: "nat \<Rightarrow> nat \<Rightarrow> 'd llc \<Rightarrow> 'd shmem_msg \<Rightarrow> u64 option \<Rightarrow> 'd llc_result" where
  "handleMsgFromDramDirectory me home lc m victim =
     (if is_reply (sm_type m) \<and> lc_waiters lc (sm_address m) = [] then Inl Undefined_Behaviour
      else case (case sm_type m of
                   EX_REP \<Rightarrow> processExRepFromDramDirectory me home lc m victim
                 | SH_REP \<Rightarrow> processShRepFromDramDirectory me home lc m victim
                 | UPGRADE_REP \<Rightarrow> processUpgradeRepFromDramDirectory lc m
                 | INV_REQ \<Rightarrow> processInvReqFromDramDirectory home lc m
                 | FLUSH_REQ \<Rightarrow> processFlushReqFromDramDirectory home lc m
                 | WB_REQ \<Rightarrow> processWbReqFromDramDirectory home lc m
                 | _ \<Rightarrow> Inl Assertion_Failed) of
             Inl err \<Rightarrow> Inl err
           | Inr (lc1, ms) \<Rightarrow>
               if is_reply (sm_type m)
               then map_sum id (\<lambda>(lc2, ms2). (lc2, ms @ ms2)) (wake_waiters me home lc1 (sm_address m) (lc_waiters lc1 (sm_address m)))
               else Inr (lc1, ms))"

section \<open>Steps of a cache and the coherence invariant\<close>

definition kinds :: "u64 \<Rightarrow> 'd shmem_msg list \<Rightarrow> msg_t list" where
  "kinds a ms = map sm_type (on_line a ms)"

lemma kinds_simps [simp]: "kinds a [] = []" "kinds a (ms @ ms') = kinds a ms @ kinds a ms'"
  "kinds a (mk_msg t r x b d # ms) = (if b = a then t # kinds a ms else kinds a ms)"
  by (auto simp: kinds_def on_line_def mk_msg_def)

text \<open>
  A change of the line in cache \<open>c\<close>, of the messages to and from it and of whether
  accesses wait that keeps the invariant, whatever the directory is doing.
\<close>

definition cstep :: "nat \<Rightarrow> cstate \<Rightarrow> msg_t list \<Rightarrow> msg_t list \<Rightarrow> bool \<Rightarrow> cstate \<Rightarrow> msg_t list \<Rightarrow> msg_t list \<Rightarrow> bool \<Rightarrow> bool" where
  "cstep c s A B W s' A' B' W' \<longleftrightarrow>
     (\<forall>D H F w. cinv D H F c s A B w \<longrightarrow> (busy A B w \<longrightarrow> W) \<longrightarrow> cinv D H F c s' A' B' w \<and> (busy A' B' w \<longrightarrow> W'))"

lemma cstep_refl [simp]: "cstep c s A B W s A B W"
  by (simp add: cstep_def)

lemma cstep_waits: "cstep c s A B W s A B True"
  by (simp add: cstep_def)

lemma busy_simps: "busy (m # A) B w \<longleftrightarrow> m \<in> {EX_REP, SH_REP, UPGRADE_REP} \<or> busy A B w"
  "busy A (B @ [m]) w \<longleftrightarrow> m \<in> {EX_REQ, SH_REQ, UPGRADE_REQ} \<or> busy A B w"
  by (auto simp: busy_def)

lemma cstep_dirty: "cstep c EXCLUSIVE A B W MODIFIED A B W"
  by (simp add: cstep_def cache_dirties)

lemma cstep_upgrade: "cstep c SHARED A B W SHARED_UPGRADING A (B @ [UPGRADE_REQ]) True"
  by (simp add: cstep_def cache_starts_upgrade)

lemma cstep_request: "s = INVALID \<or> s = SHARED_UPGRADING \<and> t = SH_REQ \<Longrightarrow> t = SH_REQ \<or> t = EX_REQ \<Longrightarrow> cstep c s A B False s A (B @ [t]) True"
  unfolding cstep_def using cache_requests cache_upgrading_busy by blast

lemma cstep_evict:
  "s = MODIFIED \<and> m = FLUSH_REP \<or> (s = SHARED \<or> s = EXCLUSIVE) \<and> m = INV_REP \<Longrightarrow> cstep c s A B W INVALID A (B @ [m]) W"
  unfolding cstep_def by (auto simp: busy_simps intro: cache_evicts)

text \<open>After the reply to its request nothing is outstanding for a cache with the line.\<close>

lemma not_busy: "cinv D H F c s A [] None \<Longrightarrow> s \<in> {EXCLUSIVE, MODIFIED, SHARED} \<Longrightarrow> \<not> busy A [] None"
  by (auto elim!: cinv.cases dest!: live_no_reply simp: busy_def)

text \<open>What changes the line of one address only, and sends messages about it only.\<close>

definition local :: "nat \<Rightarrow> u64 \<Rightarrow> 'd llc \<Rightarrow> 'd llc \<Rightarrow> 'd shmem_msg list \<Rightarrow> bool" where
  "local c a lc lc' ms \<longleftrightarrow> (\<forall>b. b \<noteq> a \<longrightarrow> lc_state lc' b = lc_state lc b \<and> lc_waiters lc' b = lc_waiters lc b) \<and>
     (\<forall>m \<in> set ms. sm_address m = a \<and> (sm_type m \<in> {EX_REQ, SH_REQ, UPGRADE_REQ} \<longrightarrow> sm_requester m = c))"

lemma localD: "local c a lc lc' ms \<Longrightarrow> b \<noteq> a \<Longrightarrow> lc_state lc' b = lc_state lc b \<and> lc_waiters lc' b = lc_waiters lc b \<and> kinds b ms = []"
  by (auto simp: local_def kinds_def on_line_def filter_empty_conv)

lemma local_refl [simp]: "local c a lc lc []"
  by (simp add: local_def)

lemma setCacheState_simps [simp]: "lc_state (setCacheState lc a s) = (lc_state lc)(a := s)" "lc_waiters (setCacheState lc a s) = lc_waiters lc"
  "lc_data (setCacheState lc a s) = lc_data lc"
  by (simp_all add: setCacheState_def)

subsection \<open>Accesses\<close>

lemma upgrade_req_step:
  "processUpgradeReqToDirectory c home lc a = Inr (lc', ms) \<Longrightarrow> local c a lc lc' ms \<and> lc_waiters lc' a = lc_waiters lc a \<and>
     cstep c (lc_state lc a) A B W (lc_state lc' a) A (B @ kinds a ms) True"
  by (auto simp: processUpgradeReqToDirectory_def local_def mk_msg_def [of UPGRADE_REQ] cstep_upgrade kinds_def on_line_def split: if_splits)

lemma initiate_step:
  assumes p: "initiateDirectoryAccess c home lc op a = Inr (lc', ms)" and n: "\<not> operationPermissibleinCache lc a op"
  shows "local c a lc lc' ms \<and> cstep c (lc_state lc a) A B (lc_waiters lc a \<noteq> []) (lc_state lc' a) A (B @ kinds a ms) (lc_waiters lc' a \<noteq> [])"
proof -
  define lc1 where "lc1 = lc\<lparr>lc_waiters := (lc_waiters lc)(a := lc_waiters lc a @ [op \<noteq> READ])\<rparr>"
  have l1: "lc_state lc1 = lc_state lc" "lc_waiters lc1 a \<noteq> []" "\<And>b. b \<noteq> a \<Longrightarrow> lc_waiters lc1 b = lc_waiters lc b" by (simp_all add: lc1_def)
  have len: "length (lc_waiters lc1 a) \<noteq> 1 \<longleftrightarrow> lc_waiters lc a \<noteq> []" by (simp add: lc1_def)
  have p': "(if lc_waiters lc a \<noteq> [] then Inr (lc1, [])
      else if op \<noteq> READ then (if lc_state lc a = SHARED then processUpgradeReqToDirectory c home lc1 a else processExReqToDirectory c home lc1 a)
      else processShReqToDirectory c home lc1 a) = Inr (lc', ms)"
    using p unfolding initiateDirectoryAccess_def Let_def lc1_def [symmetric] len .
  have send: ?thesis if "lc_waiters lc a = []" "(lc', ms) = (lc1, [mk_msg t c home a None])" "t = SH_REQ \<or> t = EX_REQ"
    "lc_state lc a = INVALID \<or> lc_state lc a = SHARED_UPGRADING \<and> t = SH_REQ" for t
    using that l1 cstep_request [of "lc_state lc a" t c A B] by (auto simp: local_def mk_msg_def kinds_def on_line_def)
  show ?thesis
  proof (cases "lc_waiters lc a = []")
    case False
    with p' have "lc' = lc1" "ms = []" by simp_all
    with l1 show ?thesis by (simp add: local_def cstep_waits)
  next
    case w: True
    show ?thesis
    proof (cases "op = READ")
      case True
      with n have "lc_state lc a = INVALID \<or> lc_state lc a = SHARED_UPGRADING"
        by (cases "lc_state lc a") (auto simp: operationPermissibleinCache_def readable_def)
      moreover have "(lc', ms) = (lc1, [mk_msg SH_REQ c home a None])" using p' w True by (simp add: processShReqToDirectory_def)
      ultimately show ?thesis using send w by blast
    next
      case op: False
      show ?thesis
      proof (cases "lc_state lc a = SHARED")
        case True
        with p' w op have u: "processUpgradeReqToDirectory c home lc1 a = Inr (lc', ms)" by simp
        from upgrade_req_step [OF u, of A B] l1 show ?thesis by (auto simp: local_def)
      next
        case False
        with p' w op have u: "processExReqToDirectory c home lc1 a = Inr (lc', ms)" by simp
        then have "lc_state lc a = INVALID" "(lc', ms) = (lc1, [mk_msg EX_REQ c home a None])"
          using l1(1) by (simp_all add: processExReqToDirectory_def split: if_splits)
        with send w show ?thesis by blast
      qed
    qed
  qed
qed

lemma access_cases:
  assumes p: "processShmemReqFromPrevCache c home lc op a = Inr (hit, lc', ms)"
  obtains (hit) "hit" "lc' = lc" "ms = []"
  | (dirty) "hit" "lc_state lc a = EXCLUSIVE" "lc' = setCacheState lc a MODIFIED" "ms = []"
  | (miss) "\<not> hit" "initiateDirectoryAccess c home lc op a = Inr (lc', ms)" "\<not> operationPermissibleinCache lc a op"
proof (cases "operationPermissibleinCache lc a op")
  case True
  with p show ?thesis by (intro hit) (simp_all add: processShmemReqFromPrevCache_def)
next
  case miss': False
  show ?thesis
  proof (cases "lc_state lc a = EXCLUSIVE")
    case True
    with miss' p show ?thesis by (intro dirty) (simp_all add: processShmemReqFromPrevCache_def)
  next
    case False
    with miss' p have "map_sum id (\<lambda>(lc1, ms). (False, lc1, ms)) (initiateDirectoryAccess c home lc op a) = Inr (hit, lc', ms)"
      by (simp add: processShmemReqFromPrevCache_def)
    then obtain r where "initiateDirectoryAccess c home lc op a = Inr r" "(hit, lc', ms) = (False, fst r, snd r)"
      by (rule map_sum_InrE) (auto simp: case_prod_beta)
    with miss' show ?thesis by (intro miss) (simp_all add: prod_eq_iff)
  qed
qed

lemma access_step:
  assumes p: "processShmemReqFromPrevCache c home lc op a = Inr (hit, lc', ms)"
  shows "local c a lc lc' ms \<and> cstep c (lc_state lc a) A B (lc_waiters lc a \<noteq> []) (lc_state lc' a) A (B @ kinds a ms) (lc_waiters lc' a \<noteq> [])"
  using p
proof (cases rule: access_cases)
  case miss
  then show ?thesis by (intro initiate_step)
qed (simp_all add: local_def cstep_dirty)

lemma access_hit:
  assumes "processShmemReqFromPrevCache c home lc op a = Inr (True, lc', ms)"
  shows "lc' = lc \<or> lc_state lc a = EXCLUSIVE \<and> lc' = setCacheState lc a MODIFIED"
  using assms by (cases rule: access_cases) simp_all

subsection \<open>Waiters\<close>

text \<open>Waking the waiters of a line with no request outstanding.\<close>

lemma wake_step:
  assumes "wake_waiters c home lc a ws = Inr (lc', ms)" "cinv D H F c (lc_state lc a) A B w" "\<not> busy A B w"
  shows "local c a lc lc' ms \<and> cinv D H F c (lc_state lc' a) A (B @ kinds a ms) w \<and> (busy A (B @ kinds a ms) w \<longrightarrow> lc_waiters lc' a \<noteq> [])"
  using assms
proof (induction ws arbitrary: lc)
  case Nil
  then show ?case by (auto simp: local_def)
next
  case (Cons x ws)
  show ?case
  proof (cases "x \<and> lc_state lc a = SHARED")
    case True
    let ?lc = "lc\<lparr>lc_waiters := (lc_waiters lc)(a := x # ws)\<rparr>"
    have "processUpgradeReqToDirectory c home ?lc a = Inr (lc', ms)" using Cons.prems(1) True by simp
    from upgrade_req_step [OF this, of A B True] Cons.prems(2,3) show ?thesis by (auto simp: local_def cstep_def)
  next
    case False
    then obtain lc1 ms1 where h: "processShmemReqFromPrevCache c home lc (if x then WRITE else READ) a = Inr (True, lc1, ms1)"
      "wake_waiters c home lc1 a ws = Inr (lc', ms)" using Cons.prems(1) by (auto split: sum.splits bool.splits)
    have "lc1 = lc \<or> lc_state lc a = EXCLUSIVE \<and> lc1 = setCacheState lc a MODIFIED" by (rule access_hit [OF h(1)])
    then have "cinv D H F c (lc_state lc1 a) A B w" "\<And>b. b \<noteq> a \<Longrightarrow> lc_state lc1 b = lc_state lc b" "lc_waiters lc1 = lc_waiters lc"
      using Cons.prems(2) cache_dirties by auto
    with Cons.IH [OF h(2) _ Cons.prems(3)] show ?thesis by (auto simp: local_def)
  qed
qed

subsection \<open>Messages\<close>

lemma evict_step:
  assumes "evict c home lc v = Inr (lc', ms)"
  shows "local c v lc lc' ms \<and> lc_waiters lc' = lc_waiters lc \<and> lc_state lc v \<noteq> INVALID \<and>
    cstep c (lc_state lc v) A B W (lc_state lc' v) A (B @ kinds v ms) W"
  using assms cstep_evict [of "lc_state lc v" _ c A B W]
  by (cases "lc_state lc v") (auto simp: evict_def local_def mk_msg_def kinds_def on_line_def)

lemma insert_step:
  assumes i: "insertCacheBlock c home lc a s d victim = Inr (lc', ms)"
  shows "lc_state lc a = INVALID" "lc_state lc' a = s" "lc_waiters lc' = lc_waiters lc" "kinds a ms = []"
    "b \<noteq> a \<Longrightarrow> cstep c (lc_state lc b) A B W (lc_state lc' b) A (B @ kinds b ms) W"
    "m \<in> set ms \<Longrightarrow> lc_state lc (sm_address m) \<noteq> INVALID \<and> sm_type m \<notin> {EX_REQ, SH_REQ, UPGRADE_REQ}"
    "b \<noteq> a \<Longrightarrow> lc_state lc' b = lc_state lc b \<or> lc_state lc' b = INVALID"
proof -
  show a: "lc_state lc a = INVALID" using i by (auto simp: insertCacheBlock_def split: if_splits)
  then obtain lc1 where e: "(case victim of None \<Rightarrow> Inr (lc, []) | Some v \<Rightarrow> evict c home lc v) = Inr (lc1, ms)"
    and lc': "lc' = setCacheState (lc1\<lparr>lc_data := (lc_data lc1)(a := d)\<rparr>) a s"
    using i by (auto simp: insertCacheBlock_def elim!: map_sum_InrE split: prod.splits)
  have s': "lc_state lc' = (lc_state lc1)(a := s)" "lc_waiters lc' = lc_waiters lc1" by (simp_all add: lc')
  then show "lc_state lc' a = s" by simp
  have "lc_waiters lc1 = lc_waiters lc \<and> kinds a ms = [] \<and> (b \<noteq> a \<longrightarrow> cstep c (lc_state lc b) A B W (lc_state lc1 b) A (B @ kinds b ms) W) \<and>
      (m \<in> set ms \<longrightarrow> lc_state lc (sm_address m) \<noteq> INVALID \<and> sm_type m \<notin> {EX_REQ, SH_REQ, UPGRADE_REQ}) \<and>
      (lc_state lc1 b = lc_state lc b \<or> lc_state lc1 b = INVALID)"
  proof (cases victim)
    case None
    with e show ?thesis by auto
  next
    case (Some v)
    with e have ev: "evict c home lc v = Inr (lc1, ms)" by simp
    note es = evict_step [OF ev]
    then have v: "v \<noteq> a" using a by auto
    have "sm_type m \<notin> {EX_REQ, SH_REQ, UPGRADE_REQ}" if "m \<in> set ms"
      using ev that by (cases "lc_state lc v") (auto simp: evict_def mk_msg_def)
    moreover have "sm_address m = v" if "m \<in> set ms" using es that by (auto simp: local_def)
    moreover have "cstep c (lc_state lc b) A B W (lc_state lc1 b) A (B @ kinds b ms) W"
      using es localD [of c v lc lc1 ms b] by (cases "b = v") auto
    moreover have "lc_state lc1 v = INVALID" using ev by (cases "lc_state lc v") (auto simp: evict_def)
    ultimately show ?thesis using es localD [of c v lc lc1 ms a] localD [of c v lc lc1 ms b] v by auto
  qed
  with s' show "b \<noteq> a \<Longrightarrow> lc_state lc' b = lc_state lc b \<or> lc_state lc' b = INVALID" "lc_waiters lc' = lc_waiters lc" "kinds a ms = []" "b \<noteq> a \<Longrightarrow> cstep c (lc_state lc b) A B W (lc_state lc' b) A (B @ kinds b ms) W"
    "m \<in> set ms \<Longrightarrow> lc_state lc (sm_address m) \<noteq> INVALID \<and> sm_type m \<notin> {EX_REQ, SH_REQ, UPGRADE_REQ}" by auto
qed

lemma updateCacheBlock_Inr:
  assumes u: "updateCacheBlock lc a new out = Inr (lc', d)" and n: "lc_state lc a \<noteq> INVALID"
  shows "lc' = setCacheState lc a new"
proof (cases "new = lc_state lc a \<and> out")
  case True
  then have "lc' = lc" using u n by (simp add: updateCacheBlock_def Let_def)
  with True show ?thesis by (simp add: setCacheState_def)
next
  case False
  define lc1 where "lc1 = (if lc_state lc a = MODIFIED then setCacheState lc a SHARED else lc)"
  have s: "setCacheState lc1 a x = setCacheState lc a x" for x by (simp add: lc1_def setCacheState_def)
  have nm: "\<not> (lc_state lc a = MODIFIED \<and> \<not> out)" using u n False by (auto simp: updateCacheBlock_def Let_def split: if_splits)
  let ?buf = "if out then lc_data lc a else None"
  have u': "(if new = INVALID then map_sum id (\<lambda>lc2. (lc2, ?buf)) (invalidateCacheBlock lc1 a)
     else if new = SHARED \<or> new = MODIFIED
     then (if new = MODIFIED \<and> out \<and> lc_state lc a \<noteq> MODIFIED then Inl Assertion_Failed else Inr (setCacheState lc1 a new, ?buf))
     else Inl Assertion_Failed) = Inr (lc', d)"
    using u unfolding updateCacheBlock_def Let_def if_not_P [OF n] if_not_P [OF False] if_not_P [OF nm] lc1_def .
  show ?thesis
  proof (cases "new = INVALID")
    case True
    with u' obtain lc2 where "invalidateCacheBlock lc1 a = Inr lc2" "lc' = lc2" by (auto elim!: map_sum_InrE)
    with True s show ?thesis by (simp add: invalidateCacheBlock_def split: if_splits)
  next
    case False
    with u' show ?thesis unfolding s by (simp split: if_splits)
  qed
qed

text \<open>The requests of the directory.\<close>

lemma give_up_step:
  assumes "m = INV_REQ \<and> m' = INV_REP \<or> m = FLUSH_REQ \<and> m' = FLUSH_REP" "s \<noteq> INVALID"
  shows "cstep c s (m # A) B W INVALID A (B @ [m']) W"
  unfolding cstep_def
proof (intro allI impI)
  fix D H F w
  assume i: "cinv D H F c s (m # A) B w" and b: "busy (m # A) B w \<longrightarrow> W"
  have "cinv D H F c INVALID A (B @ [m']) w" by (rule cache_gives_up [OF i assms(2,1)])
  moreover have "busy A (B @ [m']) w \<Longrightarrow> busy (m # A) B w" using assms(1) by (auto simp: busy_simps)
  ultimately show "cinv D H F c INVALID A (B @ [m']) w \<and> (busy A (B @ [m']) w \<longrightarrow> W)" using b by blast
qed

lemma drop_step: "m \<in> {INV_REQ, FLUSH_REQ, WB_REQ} \<Longrightarrow> cstep c INVALID (m # A) B W INVALID A B W"
  unfolding cstep_def using cache_drops by (auto simp: busy_simps)

lemma write_back_step:
  assumes "s \<noteq> INVALID"
  shows "cstep c s (WB_REQ # A) B W (if s = SHARED_UPGRADING then s else SHARED) A (B @ [WB_REP]) W"
  unfolding cstep_def using cache_writes_back [OF _ assms] by (fastforce simp: busy_simps)

lemma answer_step:
  assumes "lc' = setCacheState lc a s'" "ms = [mk_msg r q home a d]" "r \<notin> {EX_REQ, SH_REQ, UPGRADE_REQ}" "cstep c (lc_state lc a) A B W s' A' (B @ [r]) W"
  shows "local c a lc lc' ms \<and> lc_waiters lc' = lc_waiters lc \<and> cstep c (lc_state lc a) A B W (lc_state lc' a) A' (B @ kinds a ms) W"
  using assms by (simp add: local_def mk_msg_def kinds_def on_line_def)

lemma inv_req_step:
  assumes p: "processInvReqFromDramDirectory home lc m = Inr (lc', ms)" and a: "a = sm_address m"
  shows "local c a lc lc' ms \<and> lc_waiters lc' = lc_waiters lc \<and> cstep c (lc_state lc a) (INV_REQ # A) B W (lc_state lc' a) A (B @ kinds a ms) W"
proof (cases "lc_state lc a = INVALID")
  case True
  with p have "lc' = lc" "ms = []" by (simp_all add: processInvReqFromDramDirectory_def a)
  with True drop_step [of INV_REQ c A B W] show ?thesis by simp
next
  case False
  from p have "map_sum id (\<lambda>(lc1, _). (lc1, [mk_msg INV_REP (sm_requester m) home a None])) (updateCacheBlock lc a INVALID False) = Inr (lc', ms)"
    unfolding processInvReqFromDramDirectory_def Let_def a [symmetric] if_not_P [OF False] .
  then obtain x where "updateCacheBlock lc a INVALID False = Inr (lc', x)" "ms = [mk_msg INV_REP (sm_requester m) home a None]"
    by (auto elim!: map_sum_InrE)
  then show ?thesis by (intro answer_step [OF updateCacheBlock_Inr [OF _ False]]) (use give_up_step [OF _ False] in auto)
qed

lemma flush_req_step:
  assumes p: "processFlushReqFromDramDirectory home lc m = Inr (lc', ms)" and a: "a = sm_address m"
  shows "local c a lc lc' ms \<and> lc_waiters lc' = lc_waiters lc \<and> cstep c (lc_state lc a) (FLUSH_REQ # A) B W (lc_state lc' a) A (B @ kinds a ms) W"
proof (cases "lc_state lc a = INVALID")
  case True
  with p have "lc' = lc" "ms = []" by (simp_all add: processFlushReqFromDramDirectory_def a)
  with True drop_step [of FLUSH_REQ c A B W] show ?thesis by simp
next
  case False
  from p have "map_sum id (\<lambda>(lc1, d). (lc1, [mk_msg FLUSH_REP (sm_requester m) home a d])) (updateCacheBlock lc a INVALID True) = Inr (lc', ms)"
    unfolding processFlushReqFromDramDirectory_def Let_def a [symmetric] if_not_P [OF False] .
  then obtain x where "updateCacheBlock lc a INVALID True = Inr (lc', x)" "ms = [mk_msg FLUSH_REP (sm_requester m) home a x]"
    by (auto elim!: map_sum_InrE)
  then show ?thesis by (intro answer_step [OF updateCacheBlock_Inr [OF _ False]]) (use give_up_step [OF _ False] in auto)
qed

lemma wb_req_step:
  assumes p: "processWbReqFromDramDirectory home lc m = Inr (lc', ms)" and a: "a = sm_address m"
  shows "local c a lc lc' ms \<and> lc_waiters lc' = lc_waiters lc \<and> cstep c (lc_state lc a) (WB_REQ # A) B W (lc_state lc' a) A (B @ kinds a ms) W"
proof (cases "lc_state lc a = INVALID")
  case True
  with p have "lc' = lc" "ms = []" by (simp_all add: processWbReqFromDramDirectory_def a)
  with True drop_step [of WB_REQ c A B W] show ?thesis by simp
next
  case ni: False
  show ?thesis
  proof (cases "lc_state lc a = SHARED_UPGRADING")
    case True
    with p have "lc' = lc" "ms = [mk_msg WB_REP (sm_requester m) home a None]" by (simp_all add: processWbReqFromDramDirectory_def a)
    moreover have "setCacheState lc a SHARED_UPGRADING = lc" unfolding True [symmetric] by (simp add: setCacheState_def)
    ultimately show ?thesis by (intro answer_step [of _ _ _ SHARED_UPGRADING]) (use write_back_step [OF ni] True in auto)
  next
    case False
    from p have "map_sum id (\<lambda>(lc1, d). (lc1, [mk_msg WB_REP (sm_requester m) home a d])) (updateCacheBlock lc a SHARED True) = Inr (lc', ms)"
      unfolding processWbReqFromDramDirectory_def Let_def a [symmetric] if_not_P [OF ni] if_not_P [OF False] .
    then obtain x where "updateCacheBlock lc a SHARED True = Inr (lc', x)" "ms = [mk_msg WB_REP (sm_requester m) home a x]"
      by (auto elim!: map_sum_InrE)
    then show ?thesis by (intro answer_step [OF updateCacheBlock_Inr [OF _ ni]]) (use write_back_step [OF ni, of c A B W] False in auto)
  qed
qed

text \<open>The replies of the directory: the line is filled or upgraded, and the waiters are woken.\<close>

lemma fill_cinv:
  assumes "cinv D H F c INVALID (g # A) B w" "g = EX_REP \<and> s = EXCLUSIVE \<or> g = SH_REP \<and> s = SHARED"
  shows "cinv D H F c s A B w \<and> \<not> busy A B w"
proof -
  have f: "cinv D H F c (if g = EX_REP then EXCLUSIVE else SHARED) A B w" "B = []" "w = None" using cache_filled [OF assms(1)] assms(2) by auto
  then have i: "cinv D H F c s A B w" using assms(2) by auto
  then show ?thesis using not_busy [of D H F c s A] f(2,3) assms(2) by auto
qed

lemma upgrade_cinv:
  assumes "cinv D H F c s (UPGRADE_REP # A) B w"
  shows "s = SHARED_UPGRADING \<and> cinv D H F c MODIFIED A B w \<and> \<not> busy A B w"
  using cache_upgraded [OF assms] not_busy [of D H F c MODIFIED A] by auto

text \<open>Together with waking the waiters.\<close>

lemma reply_step:
  assumes w: "wake_waiters c home lc1 a (lc_waiters lc1 a) = Inr (lc2, ms2)"
    and f: "\<And>D H F w. cinv D H F c s (g # A) B w \<Longrightarrow> cinv D H F c (lc_state lc1 a) A B w \<and> \<not> busy A B w"
  shows "cstep c s (g # A) B W (lc_state lc2 a) A (B @ kinds a ms2) (lc_waiters lc2 a \<noteq> [])"
  unfolding cstep_def
proof (intro allI impI)
  fix D H F w
  assume "cinv D H F c s (g # A) B w"
  from f [OF this] have i: "cinv D H F c (lc_state lc1 a) A B w" "\<not> busy A B w" by auto
  from wake_step [OF w i] show "cinv D H F c (lc_state lc2 a) A (B @ kinds a ms2) w \<and> (busy A (B @ kinds a ms2) w \<longrightarrow> lc_waiters lc2 a \<noteq> [])" by blast
qed

lemma wake_local: "wake_waiters c home lc a ws = Inr (lc', ms) \<Longrightarrow> local c a lc lc' ms"
proof (induction ws arbitrary: lc)
  case (Cons x ws)
  show ?case
  proof (cases "x \<and> lc_state lc a = SHARED")
    case True
    let ?lc = "lc\<lparr>lc_waiters := (lc_waiters lc)(a := x # ws)\<rparr>"
    have "processUpgradeReqToDirectory c home ?lc a = Inr (lc', ms)" using Cons.prems True by simp
    from upgrade_req_step [OF this] show ?thesis by (auto simp: local_def)
  next
    case False
    then obtain lc1 ms1 where h: "processShmemReqFromPrevCache c home lc (if x then WRITE else READ) a = Inr (True, lc1, ms1)"
      "wake_waiters c home lc1 a ws = Inr (lc', ms)" using Cons.prems by (auto split: sum.splits bool.splits)
    have "lc1 = lc \<or> lc_state lc a = EXCLUSIVE \<and> lc1 = setCacheState lc a MODIFIED" by (rule access_hit [OF h(1)])
    then have "\<And>b. b \<noteq> a \<Longrightarrow> lc_state lc1 b = lc_state lc b" "lc_waiters lc1 = lc_waiters lc" by auto
    with Cons.IH [OF h(2)] show ?thesis by (simp add: local_def)
  qed
qed (auto simp: local_def)

text \<open>
  What handling a message about \<open>a\<close> does to the line \<open>b\<close> of cache \<open>c\<close>; the message
  is at the head of the channel to the cache.
\<close>

definition msg_step :: "nat \<Rightarrow> 'd llc \<Rightarrow> 'd shmem_msg \<Rightarrow> 'd llc \<Rightarrow> 'd shmem_msg list \<Rightarrow> bool" where
  "msg_step c lc m lc' ms \<longleftrightarrow>
     (\<forall>b A B. cstep c (lc_state lc b) (if b = sm_address m then sm_type m # A else A) B (lc_waiters lc b \<noteq> [])
                (lc_state lc' b) A (B @ kinds b ms) (lc_waiters lc' b \<noteq> [])) \<and>
     (\<forall>b. b \<noteq> sm_address m \<longrightarrow> lc_state lc' b = lc_state lc b \<or> lc_state lc' b = INVALID) \<and>
     (\<forall>x \<in> set ms. (sm_address x = sm_address m \<or> lc_state lc (sm_address x) \<noteq> INVALID) \<and>
        (sm_type x \<in> {EX_REQ, SH_REQ, UPGRADE_REQ} \<longrightarrow> sm_requester x = c))"

lemma msg_step_local:
  assumes "local c (sm_address m) lc lc' ms" "lc_waiters lc' = lc_waiters lc"
    "\<And>A B W. cstep c (lc_state lc (sm_address m)) (sm_type m # A) B W (lc_state lc' (sm_address m)) A (B @ kinds (sm_address m) ms) W"
  shows "msg_step c lc m lc' ms"
proof -
  have "cstep c (lc_state lc b) (if b = sm_address m then sm_type m # A else A) B (lc_waiters lc b \<noteq> [])
      (lc_state lc' b) A (B @ kinds b ms) (lc_waiters lc' b \<noteq> [])" for b A B
    using localD [OF assms(1), of b] assms(2,3) by (cases "b = sm_address m") auto
  with assms(1) show ?thesis by (auto simp: msg_step_def local_def)
qed

lemma fill_msg_step:
  assumes i: "insertCacheBlock c home lc (sm_address m) s (sm_data m) victim = Inr (lc1, ms1)"
    and w: "wake_waiters c home lc1 (sm_address m) (lc_waiters lc1 (sm_address m)) = Inr (lc2, ms2)"
    and t: "sm_type m = EX_REP \<and> s = EXCLUSIVE \<or> sm_type m = SH_REP \<and> s = SHARED"
  shows "msg_step c lc m lc2 (ms1 @ ms2)"
proof -
  let ?a = "sm_address m"
  note ins = insert_step [OF i]
  have l: "local c ?a lc1 lc2 ms2" by (rule wake_local [OF w])
  have "cstep c (lc_state lc ?a) (sm_type m # A) B W (lc_state lc2 ?a) A (B @ kinds ?a (ms1 @ ms2)) (lc_waiters lc2 ?a \<noteq> [])" for A B W
    using reply_step [OF w, of "lc_state lc ?a" "sm_type m" A B W] fill_cinv [OF _ t] ins(1,2,4) by simp
  moreover have "cstep c (lc_state lc b) A B (lc_waiters lc b \<noteq> []) (lc_state lc2 b) A (B @ kinds b (ms1 @ ms2)) (lc_waiters lc2 b \<noteq> [])"
    if "b \<noteq> ?a" for b A B
    using ins(5) [OF that, of A B "lc_waiters lc b \<noteq> []"] localD [OF l that] ins(3) by simp
  moreover have "lc_state lc2 b = lc_state lc b \<or> lc_state lc2 b = INVALID" if "b \<noteq> ?a" for b using ins(7) [OF that] localD [OF l that] by auto
  ultimately show ?thesis using ins(6) l unfolding msg_step_def by (auto simp: local_def simp del: kinds_simps)
qed

lemma upgrade_msg_step:
  assumes u: "processUpgradeRepFromDramDirectory lc m = Inr (lc1, ms1)"
    and w: "wake_waiters c home lc1 (sm_address m) (lc_waiters lc1 (sm_address m)) = Inr (lc2, ms2)"
    and t: "sm_type m = UPGRADE_REP"
  shows "msg_step c lc m lc2 (ms1 @ ms2)"
proof -
  let ?a = "sm_address m"
  have l: "local c ?a lc1 lc2 ms2" by (rule wake_local [OF w])
  have "lc_state lc ?a = SHARED_UPGRADING \<and> (\<exists>d. updateCacheBlock lc ?a MODIFIED False = Inr (lc1, d)) \<and> ms1 = []"
    using u by (cases "lc_state lc ?a") (auto simp: processUpgradeRepFromDramDirectory_def updateCacheBlock_def [of _ _ _ True] split: if_splits elim!: map_sum_InrE)
  then have s: "lc_state lc ?a = SHARED_UPGRADING" "lc1 = setCacheState lc ?a MODIFIED" "ms1 = []" using updateCacheBlock_Inr [of lc ?a MODIFIED False lc1] by auto
  have "cstep c (lc_state lc ?a) (sm_type m # A) B W (lc_state lc2 ?a) A (B @ kinds ?a ms2) (lc_waiters lc2 ?a \<noteq> [])" for A B W
    using reply_step [OF w, of "lc_state lc ?a" "sm_type m" A B W] upgrade_cinv s(2) t by simp
  moreover have "cstep c (lc_state lc b) A B (lc_waiters lc b \<noteq> []) (lc_state lc2 b) A (B @ kinds b ms2) (lc_waiters lc2 b \<noteq> [])"
    if "b \<noteq> ?a" for b A B
    using localD [OF l that] s(2) that by simp
  moreover have "lc_state lc2 b = lc_state lc b" if "b \<noteq> ?a" for b using localD [OF l that] s(2) that by simp
  ultimately show ?thesis using l s(3) unfolding msg_step_def by (auto simp: local_def simp del: kinds_simps)
qed

lemma handle_step:
  assumes h: "handleMsgFromDramDirectory c home lc m victim = Inr (lc', ms)"
  shows "msg_step c lc m lc' ms"
proof (cases "is_reply (sm_type m)")
  case True
  then have w: "lc_waiters lc (sm_address m) \<noteq> []" using h by (auto simp: handleMsgFromDramDirectory_def)
  obtain lc1 ms1 lc2 ms2 where s: "wake_waiters c home lc1 (sm_address m) (lc_waiters lc1 (sm_address m)) = Inr (lc2, ms2)" "lc' = lc2" "ms = ms1 @ ms2"
    "sm_type m = EX_REP \<and> processExRepFromDramDirectory c home lc m victim = Inr (lc1, ms1) \<or>
     sm_type m = SH_REP \<and> processShRepFromDramDirectory c home lc m victim = Inr (lc1, ms1) \<or>
     sm_type m = UPGRADE_REP \<and> processUpgradeRepFromDramDirectory lc m = Inr (lc1, ms1)"
    using h True w unfolding handleMsgFromDramDirectory_def by (auto simp: is_reply_def split: sum.splits elim!: map_sum_InrE)
  from s(4) show ?thesis
    using fill_msg_step [OF _ s(1)] upgrade_msg_step [OF _ s(1)] s(2,3)
    by (auto simp: processExRepFromDramDirectory_def processShRepFromDramDirectory_def)
next
  case False
  then have "sm_type m = INV_REQ \<and> processInvReqFromDramDirectory home lc m = Inr (lc', ms) \<or>
     sm_type m = FLUSH_REQ \<and> processFlushReqFromDramDirectory home lc m = Inr (lc', ms) \<or>
     sm_type m = WB_REQ \<and> processWbReqFromDramDirectory home lc m = Inr (lc', ms)"
    using h by (cases "sm_type m") (auto simp: handleMsgFromDramDirectory_def is_reply_def split: sum.splits)
  then show ?thesis
    using inv_req_step [of home lc m lc' ms] flush_req_step [of home lc m lc' ms] wb_req_step [of home lc m lc' ms]
    by (auto intro!: msg_step_local)
qed

end
