(* ===== verification/Coherence.thy ===== *)
theory Coherence
  imports Cache_Cntlr
begin

text \<open>
  The last-level caches of a machine, the directory of their lines and memory, joined
  by channels that keep the order of messages. Any core may access any line at any time,
  any message may be handled at any time and any line may be evicted to make room for
  another. The theorems are the safety properties of the protocol: at most one cache may
  write a line, and then no other cache has it; and no assertion of a cache fails.
\<close>

section \<open>The system\<close>

record 'd sys =
  sy_dir :: "'d dir_cntlr"
  sy_llc :: "nat \<Rightarrow> 'd llc"
  sy_to :: "nat \<Rightarrow> 'd shmem_msg list"
  sy_from :: "nat \<Rightarrow> 'd shmem_msg list"
  sy_reads :: "u64 \<Rightarrow> nat"

text \<open>What the directory has sent is put into the channels; a read of memory stays outstanding until it is answered.\<close>

definition route :: "'d sys \<Rightarrow> 'd dir_cntlr \<Rightarrow> 'd sys" where
  "route y st = y\<lparr>sy_dir := st\<lparr>dn_sent := []\<rparr>,
     sy_to := (\<lambda>c. sy_to y c @ filter (\<lambda>m. sm_receiver m = c \<and> sm_type m \<notin> {DRAM_READ_REQ, DRAM_WRITE_REQ}) (dn_sent st)),
     sy_reads := (\<lambda>a. sy_reads y a + reads (on_line a (dn_sent st)))\<rparr>"

definition sys_new :: "dir_cache \<Rightarrow> 'd sys" where
  "sys_new dc = \<lparr> sy_dir = \<lparr> dn_cache = dc, dn_queue = (\<lambda>_. []), dn_sent = [] \<rparr>, sy_llc = (\<lambda>_. llc_new), sy_to = (\<lambda>_. []), sy_from = (\<lambda>_. []),
     sy_reads = (\<lambda>_. 0) \<rparr>"

text \<open>
  The runs of a system. The number of caches is the number of sharers an entry can
  hold; \<open>home\<close> is the node of the directory. An access to the address that marks free
  directory entries does not occur: lines start at multiples of the block size.
\<close>

inductive sys_run :: "dir_config \<Rightarrow> nat \<Rightarrow> 'd sys \<Rightarrow> bool" for cfg :: dir_config and home :: nat where
  start: "dir_cache_new cfg ptrs = Inr dc \<Longrightarrow> sys_run cfg home (sys_new dc)"
| access: "sys_run cfg home y \<Longrightarrow> c < cfg_max_num_sharers cfg \<Longrightarrow> a \<noteq> minus1_64 \<Longrightarrow>
    processShmemReqFromPrevCache c home (sy_llc y c) op a = Inr (hit, lc, ms) \<Longrightarrow>
    sys_run cfg home (y\<lparr>sy_llc := (sy_llc y)(c := lc), sy_from := (sy_from y)(c := sy_from y c @ ms)\<rparr>)"
| store: "sys_run cfg home y \<Longrightarrow> writeCacheBlock (sy_llc y c) a d = Inr lc \<Longrightarrow> sys_run cfg home (y\<lparr>sy_llc := (sy_llc y)(c := lc)\<rparr>)"
| to_cache: "sys_run cfg home y \<Longrightarrow> c < cfg_max_num_sharers cfg \<Longrightarrow> sy_to y c = m # x \<Longrightarrow>
    handleMsgFromDramDirectory c home (sy_llc y c) m victim = Inr (lc, ms) \<Longrightarrow>
    sys_run cfg home (y\<lparr>sy_llc := (sy_llc y)(c := lc), sy_to := (sy_to y)(c := x), sy_from := (sy_from y)(c := sy_from y c @ ms)\<rparr>)"
| to_directory: "sys_run cfg home y \<Longrightarrow> c < cfg_max_num_sharers cfg \<Longrightarrow> sy_from y c = m # x \<Longrightarrow>
    handleMsgFromL2Cache cfg (sy_dir y) c m = Inr st \<Longrightarrow> sys_run cfg home (route (y\<lparr>sy_from := (sy_from y)(c := x)\<rparr>) st)"
| from_memory: "sys_run cfg home y \<Longrightarrow> sy_reads y a = Suc n \<Longrightarrow> handleMsgFromDRAM cfg (sy_dir y) (mk_msg DRAM_READ_REP r home a (Some d)) = Inr st \<Longrightarrow>
    sys_run cfg home (route (y\<lparr>sy_reads := (sy_reads y)(a := n)\<rparr>) st)"

section \<open>The invariant\<close>

definition env :: "'d sys \<Rightarrow> coh_env" where
  "env y = \<lparr> ev_state = (\<lambda>a c. lc_state (sy_llc y c) a), ev_to = (\<lambda>a c. kinds a (sy_to y c)), ev_from = (\<lambda>a c. kinds a (sy_from y c)),
     ev_reads = sy_reads y, ev_wait = (\<lambda>a c. lc_waiters (sy_llc y c) a \<noteq> []) \<rparr>"

definition cache_ok :: "nat \<Rightarrow> 'd llc \<Rightarrow> 'd shmem_msg list \<Rightarrow> 'd shmem_msg list \<Rightarrow> bool" where
  "cache_ok c lc to from \<longleftrightarrow> lc_state lc minus1_64 = INVALID \<and> (\<forall>m \<in> set to. sm_address m \<noteq> minus1_64) \<and>
     (\<forall>m \<in> set from. sm_address m \<noteq> minus1_64 \<and> (sm_type m \<in> {EX_REQ, SH_REQ, UPGRADE_REQ} \<longrightarrow> sm_requester m = c))"

definition sinv :: "dir_config \<Rightarrow> 'd sys \<Rightarrow> bool" where
  "sinv cfg y \<longleftrightarrow> dinv cfg (env y) (sy_dir y) Map.empty \<and> dn_sent (sy_dir y) = [] \<and> sy_reads y minus1_64 = 0 \<and>
     (\<forall>c. cache_ok c (sy_llc y c) (sy_to y c) (sy_from y c))"

lemma sinvD:
  assumes "sinv cfg y"
  shows "dinv cfg (env y) (sy_dir y) Map.empty" "dn_sent (sy_dir y) = []" "sy_reads y minus1_64 = 0" "cache_ok c (sy_llc y c) (sy_to y c) (sy_from y c)"
  using assms by (simp_all add: sinv_def)

text \<open>A step of cache \<open>c\<close> that keeps the invariant of each of its lines.\<close>

lemma dinv_cache:
  assumes i: "dinv cfg E st Map.empty" and s: "dn_sent st = []"
    and c: "\<And>b. b \<noteq> minus1_64 \<Longrightarrow> cstep c (ev_state E b c) (ev_to E b c) (ev_from E b c) (ev_wait E b c) (ev_state E' b c) (ev_to E' b c) (ev_from E' b c) (ev_wait E' b c)"
    and o: "\<And>b d. d \<noteq> c \<Longrightarrow> ev_state E' b d = ev_state E b d \<and> ev_to E' b d = ev_to E b d \<and> ev_from E' b d = ev_from E b d \<and> ev_wait E' b d = ev_wait E b d"
    and r: "ev_reads E' = ev_reads E"
  shows "dinv cfg E' st Map.empty"
proof -
  have "line cfg E' st b None" if b: "b \<noteq> minus1_64" for b
  proof -
    let ?e = "view cfg (dn_cache st) b" and ?q = "dn_queue st b"
    have l: "de_address ?e = b" "asked ?q (ev_to E b) (ev_from E b) (ev_wait E b)"
      "good cfg ?e ?q (ev_state E b) (ev_to E b) (ev_from E b) (ev_reads E b)"
      using dinvD [OF i b] s by (auto simp: line_def Let_def on_line_def)
    have "cinv (de_dstate ?e) (sharers ?e) (front_of ?q) d (ev_state E' b d) (ev_to E' b d) (ev_from E' b d) (own ?q d) \<and>
        (busy (ev_to E' b d) (ev_from E' b d) (own ?q d) \<longrightarrow> ev_wait E' b d)" for d
    proof -
      have "cinv (de_dstate ?e) (sharers ?e) (front_of ?q) d (ev_state E b d) (ev_to E b d) (ev_from E b d) (own ?q d)"
        "busy (ev_to E b d) (ev_from E b d) (own ?q d) \<longrightarrow> ev_wait E b d" using l by (simp_all add: good_def asked_def)
      then show ?thesis using c [OF b] o [of d b] unfolding cstep_def by (cases "d = c") simp_all
    qed
    with l r show ?thesis using s by (simp add: line_def Let_def on_line_def good_def asked_def)
  qed
  with i show ?thesis by (simp add: dinv_def)
qed

text \<open>Messages that the directory has sent are put into the channels.\<close>

lemma to_cache_kinds: "to_cache (on_line a ms) c = kinds a (filter (\<lambda>m. sm_receiver m = c \<and> sm_type m \<notin> {DRAM_READ_REQ, DRAM_WRITE_REQ}) ms)"
  by (simp add: to_cache_def kinds_def on_line_def conj_ac)

lemma route_dinv:
  assumes i: "dinv cfg (env y) st Map.empty"
  shows "dinv cfg (env (route y st)) (sy_dir (route y st)) Map.empty"
proof -
  have r: "sy_dir (route y st) = st\<lparr>dn_sent := []\<rparr>" by (simp add: route_def)
  have e: "ev_state (env (route y st)) = ev_state (env y)" "ev_from (env (route y st)) = ev_from (env y)" "ev_wait (env (route y st)) = ev_wait (env y)"
    "\<And>a. ev_to (env (route y st)) a = (\<lambda>c. ev_to (env y) a c @ to_cache (on_line a (dn_sent st)) c)"
    "\<And>a. ev_reads (env (route y st)) a = ev_reads (env y) a + reads (on_line a (dn_sent st))"
    by (simp_all add: env_def route_def to_cache_kinds)
  have "line cfg (env (route y st)) (st\<lparr>dn_sent := []\<rparr>) a None" if "a \<noteq> minus1_64" for a
    using dinvD [OF i that] e(1-3) e(4,5) [of a] by (simp add: line_def Let_def on_line_def [of _ "[]"])
  with i show ?thesis by (simp add: dinv_def r on_line_def [of _ "[]"])
qed

lemma route_sinv:
  assumes i: "dinv cfg (env y) st Map.empty" and r: "sy_reads y minus1_64 = 0"
    and c: "\<And>c. cache_ok c (sy_llc y c) (sy_to y c) (sy_from y c)"
  shows "sinv cfg (route y st)"
proof -
  have "on_line minus1_64 (dn_sent st) = []" using i by (simp add: dinv_def)
  then have "reads (on_line minus1_64 (dn_sent st)) = 0" "\<forall>m \<in> set (dn_sent st). sm_address m \<noteq> minus1_64"
    by (simp_all add: on_line_def filter_empty_conv reads_def)
  moreover from this have "cache_ok c (sy_llc y c) (sy_to (route y st) c) (sy_from y c)" for c using c [of c] by (auto simp: cache_ok_def route_def)
  ultimately show ?thesis using route_dinv [OF i] r by (simp add: sinv_def) (simp add: route_def)
qed

lemma env_received:
  assumes "sy_from y c = m # x"
  shows "env (y\<lparr>sy_from := (sy_from y)(c := x)\<rparr>) = received (env y) (sm_address m) c"
proof -
  have "(\<lambda>a d. kinds a (((sy_from y)(c := x)) d)) = (\<lambda>a d. kinds a (sy_from y d))
      (sm_address m := (\<lambda>d. kinds (sm_address m) (sy_from y d))(c := tl (kinds (sm_address m) (sy_from y c))))"
    using assms by (auto simp: fun_eq_iff kinds_def on_line_def)
  then show ?thesis by (simp add: env_def received_def)
qed

section \<open>Every step keeps the invariant\<close>

text \<open>A step of one cache.\<close>

lemma sinv_cache:
  assumes i: "sinv cfg y" and ok: "cache_ok c lc to from"
    and s: "\<And>b. cstep c (lc_state (sy_llc y c) b) (kinds b (sy_to y c)) (kinds b (sy_from y c)) (lc_waiters (sy_llc y c) b \<noteq> [])
      (lc_state lc b) (kinds b to) (kinds b from) (lc_waiters lc b \<noteq> [])"
  shows "sinv cfg (y\<lparr>sy_llc := (sy_llc y)(c := lc), sy_to := (sy_to y)(c := to), sy_from := (sy_from y)(c := from)\<rparr>)"
proof -
  let ?y = "y\<lparr>sy_llc := (sy_llc y)(c := lc), sy_to := (sy_to y)(c := to), sy_from := (sy_from y)(c := from)\<rparr>"
  have "dinv cfg (env ?y) (sy_dir y) Map.empty"
    by (rule dinv_cache [OF sinvD(1,2) [OF i], of c]) (use s in \<open>simp_all add: env_def\<close>)
  moreover have "cache_ok d (sy_llc ?y d) (sy_to ?y d) (sy_from ?y d)" for d using ok sinvD(4) [OF i, of d] by simp
  ultimately show ?thesis using sinvD(2,3) [OF i] by (simp add: sinv_def)
qed

lemma sinv_access:
  assumes i: "sinv cfg y" and a: "a \<noteq> minus1_64" and p: "processShmemReqFromPrevCache c home (sy_llc y c) op a = Inr (hit, lc, ms)"
  shows "sinv cfg (y\<lparr>sy_llc := (sy_llc y)(c := lc), sy_from := (sy_from y)(c := sy_from y c @ ms)\<rparr>)"
proof -
  have l: "local c a (sy_llc y c) lc ms" using access_step [OF p] by blast
  have s: "cstep c (lc_state (sy_llc y c) b) A B (lc_waiters (sy_llc y c) b \<noteq> []) (lc_state lc b) A (B @ kinds b ms) (lc_waiters lc b \<noteq> [])" for b A B
    using access_step [OF p, of A B] localD [OF l, of b] by (cases "b = a") simp_all
  have ok: "cache_ok c lc (sy_to y c) (sy_from y c @ ms)"
    using sinvD(4) [OF i, of c] localD [OF l a [symmetric]] l a by (auto simp: cache_ok_def local_def)
  have "sinv cfg (y\<lparr>sy_llc := (sy_llc y)(c := lc), sy_to := (sy_to y)(c := sy_to y c), sy_from := (sy_from y)(c := sy_from y c @ ms)\<rparr>)"
    by (rule sinv_cache [OF i ok]) (use s in simp)
  then show ?thesis by simp
qed

lemma sinv_store:
  assumes i: "sinv cfg y" and w: "writeCacheBlock (sy_llc y c) a d = Inr lc"
  shows "sinv cfg (y\<lparr>sy_llc := (sy_llc y)(c := lc)\<rparr>)"
proof -
  have l: "lc_state lc = lc_state (sy_llc y c)" "lc_waiters lc = lc_waiters (sy_llc y c)" using w by (auto simp: writeCacheBlock_def split: if_splits)
  have "sinv cfg (y\<lparr>sy_llc := (sy_llc y)(c := lc), sy_to := (sy_to y)(c := sy_to y c), sy_from := (sy_from y)(c := sy_from y c)\<rparr>)"
    by (rule sinv_cache [OF i]) (use l sinvD(4) [OF i, of c] in \<open>simp_all add: cache_ok_def\<close>)
  then show ?thesis by simp
qed

lemma sinv_to_cache:
  assumes i: "sinv cfg y" and t: "sy_to y c = m # x" and h: "handleMsgFromDramDirectory c home (sy_llc y c) m victim = Inr (lc, ms)"
  shows "sinv cfg (y\<lparr>sy_llc := (sy_llc y)(c := lc), sy_to := (sy_to y)(c := x), sy_from := (sy_from y)(c := sy_from y c @ ms)\<rparr>)"
proof -
  have s: "msg_step c (sy_llc y c) m lc ms" by (rule handle_step [OF h])
  have k: "kinds b (sy_to y c) = (if b = sm_address m then sm_type m # kinds b x else kinds b x)" for b by (simp add: t kinds_def on_line_def)
  have st: "cstep c (lc_state (sy_llc y c) b) (if b = sm_address m then sm_type m # A else A) B (lc_waiters (sy_llc y c) b \<noteq> [])
                (lc_state lc b) A (B @ kinds b ms) (lc_waiters lc b \<noteq> [])" for b A B using s by (simp add: msg_step_def)
  have ok0: "cache_ok c (sy_llc y c) (m # x) (sy_from y c)" using sinvD(4) [OF i, of c] t by simp
  have m: "lc_state lc minus1_64 = INVALID"
  proof -
    have "minus1_64 \<noteq> sm_address m" using ok0 by (auto simp: cache_ok_def)
    then have "lc_state lc minus1_64 = lc_state (sy_llc y c) minus1_64 \<or> lc_state lc minus1_64 = INVALID" using s unfolding msg_step_def by blast
    with ok0 show ?thesis by (simp add: cache_ok_def)
  qed
  have ok: "cache_ok c lc x (sy_from y c @ ms)"
  proof -
    have "sm_address z \<noteq> minus1_64 \<and> (sm_type z \<in> {EX_REQ, SH_REQ, UPGRADE_REQ} \<longrightarrow> sm_requester z = c)" if "z \<in> set ms" for z
    proof -
      have "sm_address z = sm_address m \<or> lc_state (sy_llc y c) (sm_address z) \<noteq> INVALID" "sm_type z \<in> {EX_REQ, SH_REQ, UPGRADE_REQ} \<longrightarrow> sm_requester z = c"
        using s that unfolding msg_step_def by blast+
      with ok0 show ?thesis unfolding cache_ok_def by (metis list.set_intros(1))
    qed
    with m ok0 show ?thesis by (auto simp: cache_ok_def)
  qed
  show ?thesis by (rule sinv_cache [OF i ok]) (use st in \<open>simp add: k\<close>)
qed

lemma sinv_to_directory:
  assumes i: "sinv cfg y" and pl: "plain cfg" and c: "c < cfg_max_num_sharers cfg" and f: "sy_from y c = m # x"
    and h: "handleMsgFromL2Cache cfg (sy_dir y) c m = Inr st"
  shows "sinv cfg (route (y\<lparr>sy_from := (sy_from y)(c := x)\<rparr>) st)"
proof -
  let ?y = "y\<lparr>sy_from := (sy_from y)(c := x)\<rparr>"
  have ok: "cache_ok c (sy_llc y c) (sy_to y c) (m # x)" using sinvD(4) [OF i, of c] f by simp
  have k: "ev_from (env y) (sm_address m) c = sm_type m # kinds (sm_address m) x" by (simp add: env_def f kinds_def on_line_def)
  have "dinv cfg (received (env y) (sm_address m) c) st Map.empty"
    by (rule handleMsgFromL2Cache_inv [OF h sinvD(1) [OF i] k _ pl _ c]) (use ok in \<open>auto simp: cache_ok_def\<close>)
  then have "dinv cfg (env ?y) st Map.empty" by (simp only: env_received [OF f])
  then show ?thesis
  proof (rule route_sinv)
    show "sy_reads ?y minus1_64 = 0" using sinvD(3) [OF i] by simp
    show "cache_ok d (sy_llc ?y d) (sy_to ?y d) (sy_from ?y d)" for d using sinvD(4) [OF i, of d] ok by (simp add: cache_ok_def)
  qed
qed

lemma sinv_from_memory:
  assumes i: "sinv cfg y" and pl: "plain cfg" and n: "sy_reads y a = Suc n" and h: "handleMsgFromDRAM cfg (sy_dir y) (mk_msg DRAM_READ_REP r home a (Some d)) = Inr st"
  shows "sinv cfg (route (y\<lparr>sy_reads := (sy_reads y)(a := n)\<rparr>) st)"
proof -
  let ?y = "y\<lparr>sy_reads := (sy_reads y)(a := n)\<rparr>"
  have a: "a \<noteq> minus1_64" using n sinvD(3) [OF i] by auto
  have p: "processDRAMReply cfg (sy_dir y) a (Some d) = Inr st" using h by (simp add: handleMsgFromDRAM_def mk_msg_def)
  have e: "ev_reads (env y) a = Suc n" "env ?y = env y\<lparr>ev_reads := (ev_reads (env y))(a := n)\<rparr>" using n by (simp_all add: env_def)
  have "dinv cfg (env ?y) st Map.empty" unfolding e(2) by (rule processDRAMReply_inv [OF p sinvD(1) [OF i] e(1) pl a sinvD(2) [OF i]])
  then show ?thesis
  proof (rule route_sinv)
    show "sy_reads ?y minus1_64 = 0" using sinvD(3) [OF i] a by simp
    show "cache_ok d (sy_llc ?y d) (sy_to ?y d) (sy_from ?y d)" for d using sinvD(4) [OF i, of d] by simp
  qed
qed

section \<open>Runs\<close>

lemma sinv_new:
  assumes "dir_cache_new cfg ptrs = Inr dc"
  shows "sinv cfg (sys_new dc :: 'd sys)"
proof -
  let ?y = "sys_new dc :: 'd sys"
  have v: "dir_wf cfg dc" "\<And>a. a \<noteq> minus1_64 \<Longrightarrow> view cfg dc a = new_entry cfg a" using dir_cache_new_view [OF assms] by simp_all
  have i: "cinv D {} None c INVALID [] [] None" for D c by (rule cinv.out) (simp_all add: pend_def stale_def new_req_def)
  have "line cfg (env ?y) (sy_dir ?y) a None" if "a \<noteq> minus1_64" for a
    using v(2) [OF that] i
    by (simp add: line_def Let_def env_def sys_new_def llc_new_def on_line_def asked_def busy_def good_def queue_ok_def front_ok_def reads_def)
  moreover have "dir_wf cfg (dn_cache (sy_dir ?y))" "on_line minus1_64 (dn_sent (sy_dir ?y)) = []"
    using v(1) by (simp_all add: sys_new_def on_line_def)
  ultimately have "dinv cfg (env ?y) (sy_dir ?y) Map.empty" by (simp add: dinv_def)
  then show ?thesis by (simp add: sinv_def) (simp add: sys_new_def cache_ok_def llc_new_def)
qed

lemma sys_run_sinv: "sys_run cfg home y \<Longrightarrow> plain cfg \<Longrightarrow> sinv cfg y"
proof (induction rule: sys_run.induct)
  case (start ptrs dc)
  then show ?case by (intro sinv_new)
next
  case (access y c a op hit lc ms)
  then show ?case by (intro sinv_access)
next
  case (store y c a d lc)
  then show ?case by (intro sinv_store)
next
  case (to_cache y c m x victim lc ms)
  then show ?case by (intro sinv_to_cache)
next
  case (to_directory y c m x st)
  then show ?case by (intro sinv_to_directory)
next
  case (from_memory y a n r d st)
  then show ?case by (intro sinv_from_memory)
qed

text \<open>What the directory knows of a line is true of every cache.\<close>

lemma sinv_line:
  assumes "sinv cfg y" "a \<noteq> minus1_64"
  shows "entry_ok (view cfg (dn_cache (sy_dir y)) a)"
    "lc_state (sy_llc y c) a \<noteq> INVALID \<Longrightarrow> c \<in> sharers (view cfg (dn_cache (sy_dir y)) a)"
    "lc_state (sy_llc y c) a \<in> {EXCLUSIVE, MODIFIED} \<Longrightarrow> excl (de_dstate (view cfg (dn_cache (sy_dir y)) a))"
proof -
  let ?e = "view cfg (dn_cache (sy_dir y)) a"
  have g: "good cfg ?e (dn_queue (sy_dir y) a) (ev_state (env y) a) (ev_to (env y) a) (ev_from (env y) a) (ev_reads (env y) a)"
    using dinvD [OF sinvD(1) [OF assms(1)] assms(2)] sinvD(2) [OF assms(1)] by (simp add: line_def Let_def on_line_def reads_def)
  then show "entry_ok ?e" by (simp add: good_def ent_ok_def)
  from g have i: "cinv (de_dstate ?e) (sharers ?e) (front_of (dn_queue (sy_dir y) a)) c (lc_state (sy_llc y c) a)
      (ev_to (env y) a c) (ev_from (env y) a c) (own (dn_queue (sy_dir y) a) c)" by (simp add: good_def env_def)
  then show "lc_state (sy_llc y c) a \<noteq> INVALID \<Longrightarrow> c \<in> sharers ?e" by (rule cinv_holder)
  show "excl (de_dstate ?e)" if "lc_state (sy_llc y c) a \<in> {EXCLUSIVE, MODIFIED}" by (rule cinv_writable [OF i]) (use that in auto)
qed

lemma sinv_cinv:
  assumes "sinv cfg y" "a \<noteq> minus1_64"
  shows "\<exists>D H F w. cinv D H F c (lc_state (sy_llc y c) a) (kinds a (sy_to y c)) (kinds a (sy_from y c)) w \<and>
    (busy (kinds a (sy_to y c)) (kinds a (sy_from y c)) w \<longrightarrow> lc_waiters (sy_llc y c) a \<noteq> [])"
proof -
  let ?q = "dn_queue (sy_dir y) a"
  have "line cfg (env y) (sy_dir y) a None" using dinvD [OF sinvD(1) [OF assms(1)] assms(2)] by simp
  then have "good cfg (view cfg (dn_cache (sy_dir y)) a) ?q (ev_state (env y) a) (ev_to (env y) a) (ev_from (env y) a) (ev_reads (env y) a)"
    "asked ?q (ev_to (env y) a) (ev_from (env y) a) (ev_wait (env y) a)"
    using sinvD(2) [OF assms(1)] by (simp_all add: line_def Let_def on_line_def reads_def)
  then show ?thesis unfolding good_def asked_def env_def by simp blast
qed

text \<open>
  C1: In every state that the caches, the directory and memory can reach, whatever the
  order of the accesses of the cores and of the messages, evictions included: when a
  cache has a line with permission to write it, no other cache has the line at all.
\<close>

theorem single_writer:
  assumes "plain cfg" "sys_run cfg home y" "lc_state (sy_llc y c) a \<in> {EXCLUSIVE, MODIFIED}" "d \<noteq> c"
  shows "lc_state (sy_llc y d) a = INVALID"
proof (rule ccontr)
  assume d: "lc_state (sy_llc y d) a \<noteq> INVALID"
  note i = sys_run_sinv [OF assms(2,1)]
  have a: "a \<noteq> minus1_64" using d sinvD(4) [OF i, of d] by (auto simp: cache_ok_def)
  note l = sinv_line [OF i a]
  have "sharers (view cfg (dn_cache (sy_dir y)) a) = {c}" by (rule excl_sharer [OF l(1) l(3) [OF assms(3)] l(2)]) (use assms(3) in auto)
  with l(2) [OF d] assms(4) show False by simp
qed

section \<open>No assertion of a cache fails\<close>

text \<open>What a cache can find when it looks at the next message to it.\<close>

lemma cinv_states: "cinv D H F c s A B w \<Longrightarrow> s \<in> {INVALID, SHARED, EXCLUSIVE, MODIFIED, SHARED_UPGRADING}"
  by (erule cinv.cases) auto

lemma cinv_next:
  assumes "cinv D H F c s (m # A) B w"
  shows "m \<in> {EX_REP, SH_REP} \<and> s = INVALID \<or> m = UPGRADE_REP \<and> s = SHARED_UPGRADING \<or> m = INV_REQ \<and> s \<noteq> MODIFIED \<or> m \<in> {FLUSH_REQ, WB_REQ}"
  using assms
proof (cases rule: cinv.cases)
  case (grant A1 A2 g)
  then show ?thesis by (cases A1) (auto simp: stale_def)
qed (auto simp: stale_def live_def)

lemma wake_ok: "lc_state lc a \<in> {SHARED, EXCLUSIVE, MODIFIED} \<Longrightarrow> \<exists>r. wake_waiters c home lc a ws = Inr r"
proof (induction ws arbitrary: lc)
  case (Cons x ws)
  show ?case
  proof (cases "x \<and> lc_state lc a = SHARED")
    case True
    then show ?thesis by (simp add: processUpgradeReqToDirectory_def)
  next
    case False
    let ?lc = "if x \<and> lc_state lc a = EXCLUSIVE then setCacheState lc a MODIFIED else lc"
    have "processShmemReqFromPrevCache c home lc (if x then WRITE else READ) a = Inr (True, ?lc, [])"
      using Cons.prems False by (auto simp: processShmemReqFromPrevCache_def operationPermissibleinCache_def readable_def writable_def)
    moreover have "\<exists>r. wake_waiters c home ?lc a ws = Inr r" using Cons.prems by (intro Cons.IH) auto
    ultimately show ?thesis using False by auto
  qed
qed simp

text \<open>A victim of the replacement policy is a line that is in the cache and not being upgraded.\<close>

definition victim_ok :: "'d llc \<Rightarrow> u64 option \<Rightarrow> bool" where
  "victim_ok lc victim = (case victim of None \<Rightarrow> True | Some v \<Rightarrow> lc_state lc v = SHARED \<or> lc_state lc v = EXCLUSIVE \<or> lc_state lc v = MODIFIED)"

lemma llc_insert_ok:
  assumes "victim_ok lc victim" "lc_state lc a = INVALID"
  shows "\<exists>lc1 ms. insertCacheBlock c home lc a s d victim = Inr (lc1, ms) \<and> lc_state lc1 a = s"
  using assms by (cases victim) (auto simp: victim_ok_def insertCacheBlock_def evict_def)

lemma handle_ok:
  assumes i: "cinv D H F c (lc_state lc (sm_address m)) (sm_type m # A) B w" and w: "busy (sm_type m # A) B w \<longrightarrow> lc_waiters lc (sm_address m) \<noteq> []"
    and v: "victim_ok lc victim"
  shows "\<exists>r. handleMsgFromDramDirectory c home lc m victim = Inr r"
proof -
  let ?a = "sm_address m"
  have woken: ?thesis if r: "is_reply (sm_type m)" and l: "lc_state lc1 ?a \<in> {SHARED, EXCLUSIVE, MODIFIED}"
    and p: "(case sm_type m of EX_REP \<Rightarrow> processExRepFromDramDirectory c home lc m victim | SH_REP \<Rightarrow> processShRepFromDramDirectory c home lc m victim
       | _ \<Rightarrow> processUpgradeRepFromDramDirectory lc m) = Inr (lc1, ms)" for lc1 ms
  proof -
    have "lc_waiters lc ?a \<noteq> []" using r w by (auto simp: is_reply_def busy_def)
    moreover obtain lc2 ms2 where "wake_waiters c home lc1 ?a (lc_waiters lc1 ?a) = Inr (lc2, ms2)" using wake_ok [OF l] by (metis surj_pair)
    ultimately show ?thesis using r p by (auto simp: handleMsgFromDramDirectory_def is_reply_def)
  qed
  have s: "lc_state lc ?a \<in> {INVALID, SHARED, EXCLUSIVE, MODIFIED, SHARED_UPGRADING}" by (rule cinv_states [OF i])
  from cinv_next [OF i] consider (fill) "sm_type m \<in> {EX_REP, SH_REP}" "lc_state lc ?a = INVALID"
    | (upgrade) "sm_type m = UPGRADE_REP" "lc_state lc ?a = SHARED_UPGRADING" | (invalidate) "sm_type m = INV_REQ" "lc_state lc ?a \<noteq> MODIFIED"
    | (other) "sm_type m \<in> {FLUSH_REQ, WB_REQ}" by blast
  then show ?thesis
  proof cases
    case fill
    obtain lc1 ms where "insertCacheBlock c home lc ?a (if sm_type m = EX_REP then EXCLUSIVE else SHARED) (sm_data m) victim = Inr (lc1, ms)"
      "lc_state lc1 ?a = (if sm_type m = EX_REP then EXCLUSIVE else SHARED)" using llc_insert_ok [OF v fill(2)] by blast
    then show ?thesis
      using fill(1) by (intro woken [of lc1 ms]) (auto simp: is_reply_def processExRepFromDramDirectory_def processShRepFromDramDirectory_def)
  next
    case upgrade
    then show ?thesis
      by (intro woken [of "setCacheState lc ?a MODIFIED" "[]"]) (simp_all add: is_reply_def processUpgradeRepFromDramDirectory_def updateCacheBlock_def Let_def)
  next
    case invalidate
    then show ?thesis using s
      by (auto simp: handleMsgFromDramDirectory_def is_reply_def processInvReqFromDramDirectory_def updateCacheBlock_def invalidateCacheBlock_def Let_def)
  next
    case other
    then show ?thesis using s
      by (auto simp: handleMsgFromDramDirectory_def is_reply_def processFlushReqFromDramDirectory_def processWbReqFromDramDirectory_def updateCacheBlock_def
         invalidateCacheBlock_def Let_def)
  qed
qed

lemma access_ok:
  assumes i: "cinv D H F c (lc_state lc a) A B w" and w: "busy A B w \<longrightarrow> lc_waiters lc a \<noteq> []"
  shows "\<exists>r. processShmemReqFromPrevCache c home lc op a = Inr r"
proof -
  have "lc_state lc a \<in> {INVALID, SHARED, EXCLUSIVE, MODIFIED, SHARED_UPGRADING}" by (rule cinv_states [OF i])
  moreover have "lc_state lc a = SHARED_UPGRADING \<Longrightarrow> lc_waiters lc a \<noteq> []" using w i cache_upgrading_busy by auto
  ultimately show ?thesis
    by (cases op) (auto simp: processShmemReqFromPrevCache_def operationPermissibleinCache_def readable_def writable_def initiateDirectoryAccess_def
       processExReqToDirectory_def processUpgradeReqToDirectory_def processShReqToDirectory_def Let_def)
qed

text \<open>A run: core 1 writes line 64, which the directory fetches from memory.\<close>

lemma example_request:
  "\<exists>st. handleMsgFromL2Cache dir_example dir_example_start 1 (mk_msg EX_REQ 1 0 64 None) = Inr st \<and> dc_slots (dn_cache st) = [Some dir_example_entry] \<and>
     dn_sent st = [mk_msg DRAM_READ_REQ 1 0 64 None] \<and> dn_queue st 64 = [(shmem_req_new EX_REQ 1)\<lparr>rq_wait := True\<rparr>]"
proof -
  have g: "getDirectoryEntry dir_example (dn_cache dir_example_start) 64 = Inr (Some (In_Slot 0), \<lparr> dc_slots = [Some ((createDirectoryEntry dir_example)\<lparr>de_address := 64\<rparr>)], dc_replacement_ptrs = [0], dc_replaced = (\<lambda>_. None) \<rparr>)"
    by (simp add: getDirectoryEntry_def dir_example_slots dir_example_start_def slot_entry_def createDirectoryEntry_def minus1_64_def)
  have ne: "minus1_64 \<noteq> 64" "64 \<noteq> minus1_64" by (simp_all add: minus1_64_def)
  show ?thesis
    using take_example ne
    by (simp add: handleMsgFromL2Cache_def mk_msg_def g Let_def dir_example_start_def serve_def process_front_def serve_at_def
       getDirectoryEntry_def dir_example_slots slot_entry_def shmem_req_new_def process_line_def processExReqFromL2Cache_def entry_at_def put_entry_def
       createDirectoryEntry_def retrieveDataAndSendToL2Cache_def getHome_def) (simp add: dir_example_def)
qed

lemma example_reply:
  assumes "dc_slots (dn_cache st) = [Some dir_example_entry]" "dn_queue st 64 = [(shmem_req_new EX_REQ 1)\<lparr>rq_wait := True\<rparr>]" "dn_sent st = []"
  shows "\<exists>st'. handleMsgFromDRAM dir_example st (mk_msg DRAM_READ_REP 1 0 64 (Some 7)) = Inr st' \<and> dn_sent st' = [mk_msg EX_REP 1 1 64 (Some 7)]"
proof -
  have g: "getDirectoryEntry dir_example (dn_cache st) 64 = Inr (Some (In_Slot 0), dn_cache st)"
    using assms(1) by (simp add: getDirectoryEntry_def dir_example_slots slot_entry_def dir_example_entry_def)
  have e: "entry_at dir_example (dn_cache st) 64 (In_Slot 0) = dir_example_entry" using assms(1) by (simp add: entry_at_def slot_entry_def)
  show ?thesis using assms
    by (simp add: handleMsgFromDRAM_def processDRAMReply_def change_entry_def g e mk_msg_def shmem_req_new_def dram_reply_type_def send_msgs_def
      processNextReqFromL2Cache.simps dir_example_entry_def)
qed

lemma example_fill:
  "\<exists>lc ms. handleMsgFromDramDirectory 1 0 (llc_new\<lparr>lc_waiters := (\<lambda>_. [])(64 := [True])\<rparr>) (mk_msg EX_REP 1 1 64 (Some (7 :: nat))) None = Inr (lc, ms) \<and>
     lc_state lc 64 = MODIFIED"
  by (simp add: handleMsgFromDramDirectory_def is_reply_def mk_msg_def processExRepFromDramDirectory_def insertCacheBlock_def llc_new_def
      setCacheState_def processShmemReqFromPrevCache_def operationPermissibleinCache_def writable_def)

lemma example_run:
  "\<exists>y :: nat sys. sys_run dir_example 0 y \<and> lc_state (sy_llc y 1) 64 = MODIFIED"
proof -
  let ?m = "mk_msg EX_REQ 1 0 64 None :: nat shmem_msg" and ?dc = "dn_cache dir_example_start"
  define y0 :: "nat sys" where "y0 = sys_new ?dc"
  have d0: "sy_dir y0 = dir_example_start" by (simp add: y0_def sys_new_def dir_example_start_def)
  have ne: "64 \<noteq> minus1_64" "(1 :: nat) < cfg_max_num_sharers dir_example" by (simp_all add: minus1_64_def dir_example_def)
  have r0: "sys_run dir_example 0 y0" unfolding y0_def
    by (rule sys_run.start [of _ "[0]"]) (simp add: dir_cache_new_def dir_example_start_def dir_example_def)
  define lc where "lc = (llc_new :: nat llc)\<lparr>lc_waiters := (\<lambda>_. [])(64 := [True])\<rparr>"
  have p: "processShmemReqFromPrevCache 1 0 (sy_llc y0 1) WRITE 64 = Inr (False, lc, [?m])"
    by (simp add: processShmemReqFromPrevCache_def operationPermissibleinCache_def writable_def y0_def sys_new_def llc_new_def lc_def
      initiateDirectoryAccess_def processExReqToDirectory_def)
  define y1 where "y1 = y0\<lparr>sy_llc := (sy_llc y0)(1 := lc), sy_from := (sy_from y0)(1 := sy_from y0 1 @ [?m])\<rparr>"
  have r1: "sys_run dir_example 0 y1" unfolding y1_def by (rule sys_run.access [OF r0 ne(2,1) p])
  obtain st where st: "handleMsgFromL2Cache dir_example dir_example_start 1 ?m = Inr st" "dc_slots (dn_cache st) = [Some dir_example_entry]"
    "dn_sent st = [mk_msg DRAM_READ_REQ 1 0 64 None]" "dn_queue st 64 = [(shmem_req_new EX_REQ 1)\<lparr>rq_wait := True\<rparr>]" using example_request by blast
  define y2 where "y2 = route (y1\<lparr>sy_from := (sy_from y1)(1 := [])\<rparr>) st"
  have r2: "sys_run dir_example 0 y2" unfolding y2_def
    by (rule sys_run.to_directory [OF r1 ne(2), of ?m]) (use st(1) d0 in \<open>simp_all add: y1_def y0_def sys_new_def\<close>)
  have y2: "sy_reads y2 64 = Suc 0" "sy_dir y2 = st\<lparr>dn_sent := []\<rparr>" "sy_to y2 1 = []" "sy_llc y2 1 = lc"
    by (simp_all add: y2_def route_def y1_def y0_def sys_new_def st(3) reads_def on_line_def mk_msg_def)
  obtain st' where st': "handleMsgFromDRAM dir_example (sy_dir y2) (mk_msg DRAM_READ_REP 1 0 64 (Some 7)) = Inr st'" "dn_sent st' = [mk_msg EX_REP 1 1 64 (Some 7)]"
    using example_reply [of "sy_dir y2"] y2(2) st(2,4) by auto
  define y3 where "y3 = route (y2\<lparr>sy_reads := (sy_reads y2)(64 := 0)\<rparr>) st'"
  have r3: "sys_run dir_example 0 y3" unfolding y3_def by (rule sys_run.from_memory [OF r2 y2(1) st'(1)])
  have y3: "sy_to y3 1 = [mk_msg EX_REP 1 1 64 (Some 7)]" "sy_llc y3 1 = lc" by (simp_all add: y3_def route_def st'(2) y2 [unfolded One_nat_def] mk_msg_def)
  obtain lc' ms where h: "handleMsgFromDramDirectory 1 0 (sy_llc y3 1) (mk_msg EX_REP 1 1 64 (Some 7)) None = Inr (lc', ms)" "lc_state lc' 64 = MODIFIED"
    using example_fill unfolding y3(2) lc_def by blast
  show ?thesis using sys_run.to_cache [OF r3 ne(2) y3(1) h(1)] h(2) by force
qed

text \<open>
  C2: No assertion of a last-level cache fails in a run. Whatever state the system has
  reached, every access of a core is a hit or becomes a request to the directory, and
  the next message of the directory is handled, provided that the replacement policy
  gives up a line that is in the cache and not being upgraded.
\<close>

theorem cache_never_asserts:
  assumes "plain cfg" "sys_run cfg home y" "a \<noteq> minus1_64"
  shows "(\<exists>r. processShmemReqFromPrevCache c home (sy_llc y c) op a = Inr r) \<and>
    (sy_to y c = m # x \<and> victim_ok (sy_llc y c) victim \<longrightarrow> (\<exists>r. handleMsgFromDramDirectory c home (sy_llc y c) m victim = Inr r))"
proof -
  note i = sys_run_sinv [OF assms(2,1)]
  have "\<exists>r. processShmemReqFromPrevCache c home (sy_llc y c) op a = Inr r" using sinv_cinv [OF i assms(3), of c] access_ok by blast
  moreover have "\<exists>r. handleMsgFromDramDirectory c home (sy_llc y c) m victim = Inr r" if t: "sy_to y c = m # x" "victim_ok (sy_llc y c) victim"
  proof -
    have "sm_address m \<noteq> minus1_64" "kinds (sm_address m) (sy_to y c) = sm_type m # kinds (sm_address m) x"
      using sinvD(4) [OF i, of c] t(1) by (auto simp: cache_ok_def kinds_def on_line_def)
    with sinv_cinv [OF i, of "sm_address m" c] show ?thesis using handle_ok [OF _ _ t(2)] by fastforce
  qed
  ultimately show ?thesis by blast
qed

theorem cache_never_asserts_witness:
  "\<exists>y :: nat sys. sys_run dir_example 0 y \<and> lc_state (sy_llc y 1) 64 = MODIFIED \<and> (\<exists>r. processShmemReqFromPrevCache 2 0 (sy_llc y 2) READ 64 = Inr r)"
proof -
  obtain y :: "nat sys" where y: "sys_run dir_example 0 y" "lc_state (sy_llc y 1) 64 = MODIFIED" using example_run by blast
  have "plain dir_example" "(64 :: u64) \<noteq> minus1_64" by (simp_all add: plain_def dir_example_def minus1_64_def)
  from cache_never_asserts [OF this(1) y(1) this(2), of 2 READ] y show ?thesis by auto
qed

theorem single_writer_witness:
  "\<exists>y :: nat sys. sys_run dir_example 0 y \<and> lc_state (sy_llc y 1) 64 = MODIFIED \<and> lc_state (sy_llc y 2) 64 = INVALID"
proof -
  obtain y :: "nat sys" where y: "sys_run dir_example 0 y" "lc_state (sy_llc y 1) 64 = MODIFIED" using example_run by blast
  have "plain dir_example" by (simp add: plain_def dir_example_def)
  from single_writer [OF this y(1), of 1 64 2] y show ?thesis by auto
qed

end
