(* ===== verification/Map_Store.thy ===== *)
theory Map_Store
  imports Prelude
begin

text \<open>
  The contract of a component that keeps a partial map behind its own representation:
  an update succeeds and changes the value of its key only, a removal forgets its key
  only. The resource of an update (the allocator that supplies nodes) is threaded
  through. A run of operations then yields the map of the abstract run
  (\<open>run_map_refines\<close>).
\<close>

section \<open>Operations on a map\<close>

datatype ('k, 'v) map_op = Put 'k 'v | Del 'k

fun run_map :: "('s \<Rightarrow> 'r \<Rightarrow> 'k \<Rightarrow> 'v \<Rightarrow> ('s \<times> 'r) outcome) \<Rightarrow> ('s \<Rightarrow> 'k \<Rightarrow> 's) \<Rightarrow> 's \<Rightarrow> 'r \<Rightarrow> ('k, 'v) map_op list \<Rightarrow> ('s \<times> 'r) outcome" where
  "run_map put del s r [] = Inr (s, r)"
| "run_map put del s r (Put k v # ops) = (case put s r k v of Inl err \<Rightarrow> Inl err | Inr (s', r') \<Rightarrow> run_map put del s' r' ops)"
| "run_map put del s r (Del k # ops) = run_map put del (del s k) r ops"

fun abstract_map :: "('k \<Rightarrow> 'v option) \<Rightarrow> ('k, 'v) map_op list \<Rightarrow> 'k \<Rightarrow> 'v option" where
  "abstract_map m [] = m"
| "abstract_map m (Put k v # ops) = abstract_map (m(k \<mapsto> v)) ops"
| "abstract_map m (Del k # ops) = abstract_map (m(k := None)) ops"

lemma abstract_map_cong: "(\<And>k. P k \<Longrightarrow> m k = m' k) \<Longrightarrow> P k \<Longrightarrow> abstract_map m ops k = abstract_map m' ops k"
proof (induction ops arbitrary: m m')
  case (Cons op ops)
  show ?case
  proof (cases op)
    case (Put k' v)
    have "abstract_map (m(k' \<mapsto> v)) ops k = abstract_map (m'(k' \<mapsto> v)) ops k" by (rule Cons.IH) (use Cons.prems in auto)
    with Put show ?thesis by simp
  next
    case (Del k')
    have "abstract_map (m(k' := None)) ops k = abstract_map (m'(k' := None)) ops k" by (rule Cons.IH) (use Cons.prems in auto)
    with Del show ?thesis by simp
  qed
qed simp

fun map_op_ok :: "('k \<Rightarrow> bool) \<Rightarrow> ('v \<Rightarrow> bool) \<Rightarrow> ('k, 'v) map_op \<Rightarrow> bool" where
  "map_op_ok K V (Put k v) \<longleftrightarrow> K k \<and> V v"
| "map_op_ok K V (Del k) \<longleftrightarrow> K k"

locale map_store =
  fixes good :: "'s \<Rightarrow> bool" and key_ok :: "'s \<Rightarrow> 'k \<Rightarrow> bool" and val_ok :: "'s \<Rightarrow> 'v \<Rightarrow> bool"
    and view :: "'s \<Rightarrow> 'k \<Rightarrow> 'v option"
    and put :: "'s \<Rightarrow> 'r \<Rightarrow> 'k \<Rightarrow> 'v \<Rightarrow> ('s \<times> 'r) outcome" and del :: "'s \<Rightarrow> 'k \<Rightarrow> 's"
  assumes put_succeeds: "good s \<Longrightarrow> key_ok s k \<Longrightarrow> val_ok s v \<Longrightarrow> \<exists>s' r'. put s r k v = Inr (s', r')"
    and put_good: "good s \<Longrightarrow> key_ok s k \<Longrightarrow> val_ok s v \<Longrightarrow> put s r k v = Inr (s', r') \<Longrightarrow> good s' \<and> key_ok s' = key_ok s \<and> val_ok s' = val_ok s"
    and put_view: "good s \<Longrightarrow> key_ok s k \<Longrightarrow> val_ok s v \<Longrightarrow> put s r k v = Inr (s', r') \<Longrightarrow> key_ok s x \<Longrightarrow> view s' x = ((view s)(k \<mapsto> v)) x"
    and del_good: "good s \<Longrightarrow> key_ok s k \<Longrightarrow> good (del s k) \<and> key_ok (del s k) = key_ok s \<and> val_ok (del s k) = val_ok s"
    and del_view: "good s \<Longrightarrow> key_ok s k \<Longrightarrow> key_ok s x \<Longrightarrow> view (del s k) x = ((view s)(k := None)) x"
begin

lemma run_map_refines:
  "good s \<Longrightarrow> list_all (map_op_ok (key_ok s) (val_ok s)) ops \<Longrightarrow>
   \<exists>s' r'. run_map put del s r ops = Inr (s', r') \<and> good s' \<and> (\<forall>x. key_ok s x \<longrightarrow> view s' x = abstract_map (view s) ops x)"
proof (induction ops arbitrary: s r)
  case (Cons op ops)
  show ?case
  proof (cases op)
    case (Put k v)
    then have kv: "key_ok s k" "val_ok s v" using Cons.prems(2) by simp_all
    obtain s1 r1 where p: "put s r k v = Inr (s1, r1)" using put_succeeds [OF Cons.prems(1) kv] by blast
    note g = put_good [OF Cons.prems(1) kv p]
    from Cons.IH [of s1 r1] g Cons.prems(2) obtain s' r' where
      "run_map put del s1 r1 ops = Inr (s', r')" "good s'" "\<And>x. key_ok s x \<Longrightarrow> view s' x = abstract_map (view s1) ops x" by auto
    moreover have "abstract_map (view s1) ops x = abstract_map ((view s)(k \<mapsto> v)) ops x" if "key_ok s x" for x
      by (rule abstract_map_cong [where P = "key_ok s", OF _ that]) (rule put_view [OF Cons.prems(1) kv p])
    ultimately show ?thesis using p Put by simp
  next
    case (Del k)
    then have k: "key_ok s k" using Cons.prems(2) by simp
    note g = del_good [OF Cons.prems(1) k]
    from Cons.IH [of "del s k" r] g Cons.prems(2) obtain s' r' where
      "run_map put del (del s k) r ops = Inr (s', r')" "good s'" "\<And>x. key_ok s x \<Longrightarrow> view s' x = abstract_map (view (del s k)) ops x" by auto
    moreover have "abstract_map (view (del s k)) ops x = abstract_map ((view s)(k := None)) ops x" if "key_ok s x" for x
      by (rule abstract_map_cong [where P = "key_ok s", OF _ that]) (rule del_view [OF Cons.prems(1) k])
    ultimately show ?thesis using Del by simp
  qed
qed simp

end

end
