(* ===== verification/Way_Table.thy ===== *)
theory Way_Table
  imports Phys_Alloc Map_Store "HOL-Library.Word"
begin

text \<open>
  The way tables of Utopia (\<open>utopia.h\<close>): the fingerprint of a tag, and for each
  application a radix tree from virtual page numbers to ways, whose leaves are pages
  of packed entries. The theory shows that the fingerprint is a CRC-8, that entries of
  a leaf do not disturb each other and that a way table is a finite map.
\<close>

unbundle bit_operations_syntax

section \<open>Fingerprints\<close>

definition crc8_table :: "8 word list" where
  "crc8_table = [
     0x00, 0x07, 0x0E, 0x09, 0x1C, 0x1B, 0x12, 0x15, 0x38, 0x3F, 0x36, 0x31, 0x24, 0x23, 0x2A, 0x2D,
     0x70, 0x77, 0x7E, 0x79, 0x6C, 0x6B, 0x62, 0x65, 0x48, 0x4F, 0x46, 0x41, 0x54, 0x53, 0x5A, 0x5D,
     0xE0, 0xE7, 0xEE, 0xE9, 0xFC, 0xFB, 0xF2, 0xF5, 0xD8, 0xDF, 0xD6, 0xD1, 0xC4, 0xC3, 0xCA, 0xCD,
     0x90, 0x97, 0x9E, 0x99, 0x8C, 0x8B, 0x82, 0x85, 0xA8, 0xAF, 0xA6, 0xA1, 0xB4, 0xB3, 0xBA, 0xBD,
     0xC7, 0xC0, 0xC9, 0xCE, 0xDB, 0xDC, 0xD5, 0xD2, 0xFF, 0xF8, 0xF1, 0xF6, 0xE3, 0xE4, 0xED, 0xEA,
     0xB7, 0xB0, 0xB9, 0xBE, 0xAB, 0xAC, 0xA5, 0xA2, 0x8F, 0x88, 0x81, 0x86, 0x93, 0x94, 0x9D, 0x9A,
     0x27, 0x20, 0x29, 0x2E, 0x3B, 0x3C, 0x35, 0x32, 0x1F, 0x18, 0x11, 0x16, 0x03, 0x04, 0x0D, 0x0A,
     0x57, 0x50, 0x59, 0x5E, 0x4B, 0x4C, 0x45, 0x42, 0x6F, 0x68, 0x61, 0x66, 0x73, 0x74, 0x7D, 0x7A,
     0x89, 0x8E, 0x87, 0x80, 0x95, 0x92, 0x9B, 0x9C, 0xB1, 0xB6, 0xBF, 0xB8, 0xAD, 0xAA, 0xA3, 0xA4,
     0xF9, 0xFE, 0xF7, 0xF0, 0xE5, 0xE2, 0xEB, 0xEC, 0xC1, 0xC6, 0xCF, 0xC8, 0xDD, 0xDA, 0xD3, 0xD4,
     0x69, 0x6E, 0x67, 0x60, 0x75, 0x72, 0x7B, 0x7C, 0x51, 0x56, 0x5F, 0x58, 0x4D, 0x4A, 0x43, 0x44,
     0x19, 0x1E, 0x17, 0x10, 0x05, 0x02, 0x0B, 0x0C, 0x21, 0x26, 0x2F, 0x28, 0x3D, 0x3A, 0x33, 0x34,
     0x4E, 0x49, 0x40, 0x47, 0x52, 0x55, 0x5C, 0x5B, 0x76, 0x71, 0x78, 0x7F, 0x6A, 0x6D, 0x64, 0x63,
     0x3E, 0x39, 0x30, 0x37, 0x22, 0x25, 0x2C, 0x2B, 0x06, 0x01, 0x08, 0x0F, 0x1A, 0x1D, 0x14, 0x13,
     0xAE, 0xA9, 0xA0, 0xA7, 0xB2, 0xB5, 0xBC, 0xBB, 0x96, 0x91, 0x98, 0x9F, 0x8A, 0x8D, 0x84, 0x83,
     0xDE, 0xD9, 0xD0, 0xD7, 0xC2, 0xC5, 0xCC, 0xCB, 0xE6, 0xE1, 0xE8, 0xEF, 0xFA, 0xFD, 0xF4, 0xF3]"

text \<open>The loop over the bytes of the tag, which stops when no significant byte is left.\<close>

fun crc_loop :: "nat \<Rightarrow> u64 \<Rightarrow> 8 word \<Rightarrow> 8 word" where
  "crc_loop 0 rest crc = crc"
| "crc_loop (Suc n) rest crc =
     (if rest mod 256 = 0 \<and> rest = 0 then crc
      else crc_loop n (rest div 256) (crc8_table ! unat (crc XOR word_of_nat (rest mod 256))))"

definition computeFingerprint :: "u64 \<Rightarrow> nat \<Rightarrow> 8 word" where
  "computeFingerprint tag num_bits = crc_loop 8 tag 0 AND mask num_bits"

text \<open>The reference: division by the polynomial \<open>x ^ 8 + x ^ 2 + x + 1\<close>, bit by bit.\<close>

definition crc_shift :: "8 word \<Rightarrow> 8 word" where
  "crc_shift c = (if bit c 7 then push_bit 1 c XOR 7 else push_bit 1 c)"

fun crc_bytes :: "8 word \<Rightarrow> nat list \<Rightarrow> 8 word" where
  "crc_bytes c [] = c"
| "crc_bytes c (b # bs) = crc_bytes ((crc_shift ^^ 8) (c XOR word_of_nat b)) bs"

fun significant_bytes :: "nat \<Rightarrow> nat list" where
  "significant_bytes n = (if n = 0 then [] else n mod 256 # significant_bytes (n div 256))"

declare significant_bytes.simps [simp del]

lemma crc_shift8: "(crc_shift ^^ 8) w = crc_shift (crc_shift (crc_shift (crc_shift (crc_shift (crc_shift (crc_shift (crc_shift w)))))))"
  by (simp add: eval_nat_numeral)

lemma crc_shift_simps: "crc_shift 0 = 0" "crc_shift 1 = 2"
  "crc_shift (numeral n) = (if bit (numeral n :: 8 word) 7 then push_bit 1 (numeral n) XOR 7 else push_bit 1 (numeral n))"
  by (simp_all add: crc_shift_def)

lemma crc8_table_def': "crc8_table = map (\<lambda>b. (crc_shift ^^ 8) (word_of_nat b)) [0..<256]"
  unfolding crc_shift8 by (simp add: upt_conv_Cons crc8_table_def crc_shift_simps)

lemma crc8_table_nth: "crc8_table ! unat w = (crc_shift ^^ 8) w"
proof -
  have "unat w < 256" using unsigned_less [of w] by simp
  then show ?thesis by (simp add: crc8_table_def')
qed

lemma crc_loop_bytes: "rest < 256 ^ n \<Longrightarrow> crc_loop n rest crc = crc_bytes crc (significant_bytes rest)"
proof (induction n rest crc rule: crc_loop.induct)
  case (2 n rest crc)
  have "significant_bytes 0 = []" by (simp add: significant_bytes.simps)
  with 2 show ?case
    by (cases "rest = 0") (simp_all add: significant_bytes.simps [of rest] crc8_table_nth less_mult_imp_div_less ac_simps)
qed (simp add: significant_bytes.simps [of 0])

text \<open>
  C40: the fingerprint that the loop over the table of constants computes is the CRC-8
  with polynomial 7, computed bit by bit, of the significant bytes of the tag, low
  byte first, cut to the configured number of bits.
\<close>

theorem fingerprint_is_crc8:
  assumes "tag < 2 ^ 64"
  shows "computeFingerprint tag n = crc_bytes 0 (significant_bytes tag) AND mask n"
  using crc_loop_bytes [of tag 8 0] assms by (simp add: computeFingerprint_def)

theorem fingerprint_is_crc8_witness: "computeFingerprint 0x1234 4 = crc_bytes 0 (significant_bytes 0x1234) AND mask 4 \<and> significant_bytes 0x1234 = [0x34, 0x12]"
  using fingerprint_is_crc8 [of "0x1234" 4] by (simp add: significant_bytes.simps)

section \<open>Leaves\<close>

text \<open>A leaf has 4096 bytes of entries; an entry is a valid bit above the bits of a way.\<close>

definition leaf_entries :: "nat \<Rightarrow> nat" where
  "leaf_entries way_bits = 32768 div (1 + way_bits)"

definition leaf_new :: "8 word list" where
  "leaf_new = replicate 4096 0"

definition getEntry :: "nat \<Rightarrow> 8 word list \<Rightarrow> int \<Rightarrow> bool \<times> int" where
  "getEntry way_bits data index =
     (if index < 0 \<or> int (leaf_entries way_bits) \<le> index then (False, -1)
      else let bits_per_entry = 1 + way_bits;
               bit_pos = nat index * bits_per_entry;
               byte_pos = bit_pos div 8;
               bit_offset = bit_pos mod 8;
               raw0 = ucast (data ! byte_pos) :: 32 word;
               raw1 = (if byte_pos + 1 < 4096 then raw0 OR push_bit 8 (ucast (data ! (byte_pos + 1))) else raw0);
               raw2 = (if byte_pos + 2 < 4096 \<and> 16 < bit_offset + bits_per_entry
                       then raw1 OR push_bit 16 (ucast (data ! (byte_pos + 2))) else raw1);
               entry = drop_bit bit_offset raw2 AND mask bits_per_entry
           in (bit entry way_bits, uint (entry AND mask way_bits)))"

text \<open>The change of one byte, of which the masks hold the bits from \<open>k\<close> on.\<close>

definition merge_byte :: "32 word \<Rightarrow> 32 word \<Rightarrow> nat \<Rightarrow> 8 word \<Rightarrow> 8 word" where
  "merge_byte clear_mask set_mask k b = (b AND ucast (drop_bit k clear_mask AND 0xFF)) OR ucast (drop_bit k set_mask AND 0xFF)"

definition setEntry :: "nat \<Rightarrow> 8 word list \<Rightarrow> int \<Rightarrow> bool \<Rightarrow> int \<Rightarrow> 8 word list" where
  "setEntry way_bits data index valid way =
     (if index < 0 \<or> int (leaf_entries way_bits) \<le> index then data
      else let bits_per_entry = 1 + way_bits;
               entry = (word_of_int way AND mask way_bits) OR (if valid then push_bit way_bits 1 else 0) :: 32 word;
               bit_pos = nat index * bits_per_entry;
               byte_pos = bit_pos div 8;
               bit_offset = bit_pos mod 8;
               clear_mask = NOT (push_bit bit_offset (mask bits_per_entry));
               set_mask = push_bit bit_offset (entry AND mask bits_per_entry);
               d0 = data[byte_pos := merge_byte clear_mask set_mask 0 (data ! byte_pos)];
               d1 = (if byte_pos + 1 < 4096 then d0[byte_pos + 1 := merge_byte clear_mask set_mask 8 (d0 ! (byte_pos + 1))] else d0)
           in if byte_pos + 2 < 4096 \<and> 16 < bit_offset + bits_per_entry
              then d1[byte_pos + 2 := merge_byte clear_mask set_mask 16 (d1 ! (byte_pos + 2))] else d1)"

definition clearEntry :: "nat \<Rightarrow> 8 word list \<Rightarrow> int \<Rightarrow> 8 word list" where
  "clearEntry way_bits data index = setEntry way_bits data index False 0"

definition getCacheLineOffset :: "nat \<Rightarrow> nat \<Rightarrow> nat" where
  "getCacheLineOffset way_bits index = (index * (1 + way_bits) div 8) div 64 * 64"

subsection \<open>The bits of a leaf\<close>

definition leaf_bit :: "8 word list \<Rightarrow> nat \<Rightarrow> bool" where
  "leaf_bit data n = bit (data ! (n div 8)) (n mod 8)"

lemma bit_merge_byte:
  assumes "j < 8" "k + j < 32"
  shows "bit (merge_byte c s k b) j \<longleftrightarrow> bit b j \<and> bit c (k + j) \<or> bit s (k + j)"
proof -
  have "bit (0xFF :: 32 word) j" using assms(1) bit_mask_iff [of 8 j, where 'a = "32 word"] by (simp add: mask_eq_exp_minus_1)
  with assms show ?thesis by (simp add: merge_byte_def bit_simps)
qed

lemma entry_in_leaf:
  assumes "0 \<le> index" "index < int (leaf_entries wb)"
  shows "nat index * (1 + wb) + (1 + wb) \<le> 32768"
proof -
  have "nat index + 1 \<le> 32768 div (1 + wb)" using assms by (simp add: leaf_entries_def)
  then have "(nat index + 1) * (1 + wb) \<le> 32768 div (1 + wb) * (1 + wb)" by (rule mult_le_mono1)
  also have "\<dots> \<le> 32768" by (rule div_times_less_eq_dividend)
  finally show ?thesis by (simp add: algebra_simps)
qed

lemma leaf_bit_at: "j < 8 \<Longrightarrow> leaf_bit data (8 * i + j) = bit (data ! i) j"
  by (simp add: leaf_bit_def)

definition packed :: "nat \<Rightarrow> bool \<Rightarrow> int \<Rightarrow> 32 word" where
  "packed way_bits valid way = (word_of_int way AND mask way_bits) OR (if valid then push_bit way_bits 1 else 0)"

lemma bit_packed: "way_bits < 32 \<Longrightarrow> j < 1 + way_bits \<Longrightarrow> bit (packed way_bits valid way) j \<longleftrightarrow> (if j = way_bits then valid else bit way j)"
  by (auto simp: packed_def bit_simps)

lemma leaf_bit_setEntry:
  assumes wb: "wb \<le> 16" and len: "length data = 4096" and i: "0 \<le> index" "index < int (leaf_entries wb)" and n: "n < 32768"
  defines "p \<equiv> nat index * (1 + wb)"
  shows "leaf_bit (setEntry wb data index valid way) n = (if p \<le> n \<and> n < p + (1 + wb) then bit (packed wb valid way) (n - p) else leaf_bit data n)"
proof -
  define q r m j where qr: "q = p div 8" "r = p mod 8" "m = n div 8" "j = n mod 8"
  have e: "p = 8 * q + r" "n = 8 * m + j" "r < 8" "j < 8" "m < 4096" using n by (auto simp: qr)
  define c s :: "32 word" where cs: "c = NOT (push_bit r (mask (1 + wb)))" "s = push_bit r (packed wb valid way AND mask (1 + wb))"
  have p: "p + (1 + wb) \<le> 32768" unfolding p_def by (rule entry_in_leaf [OF i])
  define d0 d1 where d: "d0 = data[q := merge_byte c s 0 (data ! q)]" "d1 = (if q + 1 < 4096 then d0[q + 1 := merge_byte c s 8 (d0 ! (q + 1))] else d0)"
  have nr: "\<not> (index < 0 \<or> int (leaf_entries wb) \<le> index)" using i by simp
  have se: "setEntry wb data index valid way =
      (if q + 2 < 4096 \<and> 16 < r + (1 + wb) then d1[q + 2 := merge_byte c s 16 (d1 ! (q + 2))] else d1)"
    unfolding setEntry_def if_not_P [OF nr] Let_def packed_def [symmetric] p_def [symmetric] qr(1,2) [symmetric] cs [symmetric] d [symmetric] by (rule refl)
  have "d0 ! m = (if m = q then merge_byte c s 0 (data ! m) else data ! m)" "length d0 = 4096" using e(5) len by (simp_all add: d nth_list_update)
  then have "d1 ! m = (if m = q then merge_byte c s 0 (data ! m) else if m = q + 1 then merge_byte c s 8 (data ! m) else data ! m)" "length d1 = 4096"
    using e(5) by (auto simp: d(2) nth_list_update)
  then have set: "setEntry wb data index valid way ! m =
      (if m = q then merge_byte c s 0 (data ! m) else if m = q + 1 then merge_byte c s 8 (data ! m)
       else if m = q + 2 \<and> 16 < r + (1 + wb) then merge_byte c s 16 (data ! m) else data ! m)"
    using e(5) by (auto simp: se nth_list_update)
  have b: "bit (merge_byte c s k d) j = (if r \<le> k + j \<and> k + j < r + (1 + wb) then bit (packed wb valid way) (k + j - r) else bit d j)" if "k \<le> 16" for k d
    using that e wb by (auto simp: bit_merge_byte cs bit_simps)
  have "leaf_bit (setEntry wb data index valid way) n = bit (setEntry wb data index valid way ! m) j" by (simp add: leaf_bit_def qr)
  also have "\<dots> = (if p \<le> n \<and> n < p + (1 + wb) then bit (packed wb valid way) (n - p) else bit (data ! m) j)"
  proof -
    consider "m = q" | "m = q + 1" | "m = q + 2" | "m < q" | "q + 2 < m" by linarith
    then show ?thesis unfolding set using e wb by cases (simp_all add: b)
  qed
  finally show ?thesis by (simp add: leaf_bit_def qr)
qed

lemma getEntry_bits:
  assumes wb: "wb \<le> 16" and i: "0 \<le> index" "index < int (leaf_entries wb)"
  defines "p \<equiv> nat index * (1 + wb)"
  shows "\<exists>e :: 32 word. getEntry wb data index = (leaf_bit data (p + wb), uint e) \<and> (\<forall>j. bit e j \<longleftrightarrow> j < wb \<and> leaf_bit data (p + j))"
proof -
  define q r where qr: "q = p div 8" "r = p mod 8"
  have e: "p = 8 * q + r" "r < 8" by (auto simp: qr)
  have p: "p + (1 + wb) \<le> 32768" unfolding p_def by (rule entry_in_leaf [OF i])
  have nr: "\<not> (index < 0 \<or> int (leaf_entries wb) \<le> index)" using i by simp
  define w0 w1 w2 :: "32 word" where w: "w0 = ucast (data ! q)" "w1 = (if q + 1 < 4096 then w0 OR push_bit 8 (ucast (data ! (q + 1))) else w0)"
    "w2 = (if q + 2 < 4096 \<and> 16 < r + (1 + wb) then w1 OR push_bit 16 (ucast (data ! (q + 2))) else w1)"
  define f where "f = drop_bit r w2 AND mask (1 + wb)"
  have g: "getEntry wb data index = (bit f wb, uint (f AND mask wb))"
    unfolding getEntry_def if_not_P [OF nr] Let_def p_def [symmetric] qr [symmetric] w [symmetric] f_def [symmetric] by (rule refl)
  have f: "bit f j = leaf_bit data (p + j)" if jb: "j < 1 + wb" for j
  proof -
    have w0: "bit w0 k = (k < 8 \<and> bit (data ! q) k)" for k by (auto simp: w(1) bit_simps dest: bit_imp_le_length)
    have w1: "bit w1 k = (if k < 8 then bit (data ! q) k else k < 16 \<and> q + 1 < 4096 \<and> bit (data ! (q + 1)) (k - 8))" for k
      by (auto simp: w(2) w0 bit_simps dest: bit_imp_le_length)
    have w2: "bit w2 k = (if k < 16 then bit w1 k else q + 2 < 4096 \<and> 16 < r + (1 + wb) \<and> bit (data ! (q + 2)) (k - 16))" if "k < 24" for k
      using that by (auto simp: w(3) w1 bit_simps)
    define k where "k = r + j"
    have fk: "bit f j = bit w2 k" using jb wb by (simp add: f_def k_def bit_simps)
    have pk: "p + j = 8 * q + k" "8 * q + k < 32768" "k < r + (1 + wb)" using p jb by (simp_all add: e(1) k_def)
    consider "k < 8" | "8 \<le> k" "k < 16" | "16 \<le> k" "k < 24" using jb wb e(2) unfolding k_def by linarith
    then show ?thesis
    proof cases
      case 1
      then show ?thesis using leaf_bit_at [of k data q] by (simp add: fk pk(1) w2 w1)
    next
      case 2
      then have "8 * q + k = 8 * (q + 1) + (k - 8)" "q + 1 < 4096" "k - 8 < 8" using pk(2) by auto
      then show ?thesis using 2 leaf_bit_at [of "k - 8" data "q + 1"] by (simp add: fk pk(1) w2 w1)
    next
      case 3
      then have "8 * q + k = 8 * (q + 2) + (k - 16)" "q + 2 < 4096" "16 < r + (1 + wb)" "k - 16 < 8" using pk(2,3) by auto
      then show ?thesis using 3 leaf_bit_at [of "k - 16" data "q + 2"] by (simp add: fk pk(1) w2)
    qed
  qed
  have "bit (f AND mask wb) j \<longleftrightarrow> j < wb \<and> leaf_bit data (p + j)" for j using f [of j] wb by (auto simp: bit_simps)
  with g f [of wb] show ?thesis by auto
qed

text \<open>What is read depends on the bits of the entry only.\<close>

lemma getEntry_cong:
  assumes "wb \<le> 16" "0 \<le> index" "index < int (leaf_entries wb)"
    and "\<And>j. j < 1 + wb \<Longrightarrow> leaf_bit data (nat index * (1 + wb) + j) = leaf_bit data' (nat index * (1 + wb) + j)"
  shows "getEntry wb data index = getEntry wb data' index"
proof -
  obtain e e' :: "32 word" where "getEntry wb data index = (leaf_bit data (nat index * (1 + wb) + wb), uint e)"
    "\<forall>j. bit e j \<longleftrightarrow> j < wb \<and> leaf_bit data (nat index * (1 + wb) + j)"
    "getEntry wb data' index = (leaf_bit data' (nat index * (1 + wb) + wb), uint e')" "\<forall>j. bit e' j \<longleftrightarrow> j < wb \<and> leaf_bit data' (nat index * (1 + wb) + j)"
    using getEntry_bits [OF assms(1-3)] by metis
  moreover from this have "e = e'" using assms(4) by (intro bit_word_eqI) (auto simp: less_Suc_eq)
  ultimately show ?thesis using assms(4) [of wb] by simp
qed

lemma getEntry_packed:
  assumes "wb \<le> 16" "0 \<le> index" "index < int (leaf_entries wb)"
    and "\<And>j. j < 1 + wb \<Longrightarrow> leaf_bit data (nat index * (1 + wb) + j) = bit (packed wb valid way) j"
  shows "getEntry wb data index = (valid, take_bit wb way)"
proof -
  obtain e :: "32 word" where e: "getEntry wb data index = (leaf_bit data (nat index * (1 + wb) + wb), uint e)"
    "\<forall>j. bit e j \<longleftrightarrow> j < wb \<and> leaf_bit data (nat index * (1 + wb) + j)" using getEntry_bits [OF assms(1-3)] by metis
  have "uint e = take_bit wb way"
    by (rule bit_eqI) (use e(2) assms(1,4) in \<open>auto simp: bit_simps bit_packed\<close>)
  with e(1) assms(1,4) show ?thesis by (simp add: bit_packed)
qed

text \<open>Entries of a leaf do not disturb each other.\<close>

lemma getEntry_setEntry:
  assumes wb: "wb \<le> 16" and len: "length data = 4096" and i: "0 \<le> index" "index < int (leaf_entries wb)"
  shows "getEntry wb (setEntry wb data index valid way) index' = (if index' = index then (valid, take_bit wb way) else getEntry wb data index')"
proof (cases "0 \<le> index' \<and> index' < int (leaf_entries wb)")
  case False
  then show ?thesis using i by (auto simp: getEntry_def)
next
  case True
  then have i': "0 \<le> index'" "index' < int (leaf_entries wb)" by auto
  let ?p = "nat index * (1 + wb)" and ?p' = "nat index' * (1 + wb)"
  have n: "?p' + j < 32768" if "j < 1 + wb" for j using entry_in_leaf [OF i'] that by linarith
  show ?thesis
  proof (cases "index' = index")
    case True
    have "getEntry wb (setEntry wb data index valid way) index = (valid, take_bit wb way)"
      by (rule getEntry_packed [OF wb i]) (use n True in \<open>simp add: leaf_bit_setEntry [OF wb len i]\<close>)
    with True show ?thesis by simp
  next
    case False
    then have "nat index' + 1 \<le> nat index \<or> nat index + 1 \<le> nat index'" using i i' by linarith
    then have "?p' + (1 + wb) \<le> ?p \<or> ?p + (1 + wb) \<le> ?p'"
      using mult_le_mono1 [of "nat index' + 1" "nat index" "1 + wb"] mult_le_mono1 [of "nat index + 1" "nat index'" "1 + wb"] by (auto simp: algebra_simps)
    then have "getEntry wb (setEntry wb data index valid way) index' = getEntry wb data index'"
      by (intro getEntry_cong [OF wb i']) (use n in \<open>auto simp: leaf_bit_setEntry [OF wb len i]\<close>)
    with False show ?thesis by simp
  qed
qed

lemma length_setEntry [simp]: "length (setEntry wb data index valid way) = length data"
  by (simp add: setEntry_def Let_def)

lemma getEntry_new: "wb \<le> 16 \<Longrightarrow> getEntry wb leaf_new index = (False, if 0 \<le> index \<and> index < int (leaf_entries wb) then 0 else -1)"
proof (cases "0 \<le> index \<and> index < int (leaf_entries wb)")
  case True
  then have i: "0 \<le> index" "index < int (leaf_entries wb)" by auto
  assume wb: "wb \<le> 16"
  have "leaf_bit leaf_new (nat index * (1 + wb) + j) = bit (packed wb False 0) j" if "j < 1 + wb" for j
    using entry_in_leaf [OF i] that wb by (simp add: leaf_bit_def leaf_new_def bit_packed)
  then have "getEntry wb leaf_new index = (False, take_bit wb 0)" by (rule getEntry_packed [OF wb i])
  with True show ?thesis by simp
next
  case False
  then show ?thesis by (auto simp: getEntry_def)
qed

section \<open>Radix trees\<close>

text \<open>
  An internal node has 512 children; every node has the simulated physical address of
  its page, which it takes from the area for page tables.
\<close>

datatype rnode = RNode "rnode option list" u64 | RLeaf "8 word list" u64

definition radix_alloc :: "phys_alloc \<Rightarrow> u64 \<times> phys_alloc" where
  "radix_alloc pa = (case handle_page_table_allocations pa 4096 of (ppn, pa1) \<Rightarrow> (mul64 ppn 4096, pa1))"

record way_table =
  wt_root :: "rnode option"
  wt_levels :: nat
  wt_way_bits :: nat

fun bit_length :: "nat \<Rightarrow> nat" where
  "bit_length n = (if n = 0 then 0 else Suc (bit_length (n div 2)))"

declare bit_length.simps [simp del]

definition way_bits_of :: "nat \<Rightarrow> nat" where
  "way_bits_of associativity = (let way_bits = floor_log2 associativity in if way_bits = 0 then 1 else way_bits)"

definition internal_levels :: "nat \<Rightarrow> nat \<Rightarrow> nat" where
  "internal_levels page_size_bits way_bits =
     (let max_vpn = 2 ^ (48 - page_size_bits);
          max_vpn_above_leaf = (max_vpn + leaf_entries way_bits - 1) div leaf_entries way_bits;
          levels = (bit_length max_vpn_above_leaf + 9 - 1) div 9
      in if 4 < levels then 4 else if levels < 1 then 1 else levels)"

definition way_table_new :: "nat \<Rightarrow> nat \<Rightarrow> way_table" where
  "way_table_new page_size_bits associativity =
     (let way_bits = way_bits_of associativity in
      \<lparr> wt_root = None, wt_levels = internal_levels page_size_bits way_bits, wt_way_bits = way_bits \<rparr>)"

definition computeIndices :: "way_table \<Rightarrow> u64 \<Rightarrow> nat \<times> u64" where
  "computeIndices wt vpn = (vpn mod leaf_entries (wt_way_bits wt), vpn div leaf_entries (wt_way_bits wt))"

definition getLevelIndex :: "nat \<Rightarrow> u64 \<Rightarrow> nat \<Rightarrow> nat" where
  "getLevelIndex levels vpn_above_leaf level = drop_bit ((levels - 1 - level) * 9) vpn_above_leaf AND mask 9"

text \<open>The indices of the internal levels, from the root on.\<close>

definition level_path :: "nat \<Rightarrow> u64 \<Rightarrow> nat list" where
  "level_path levels vpn_above_leaf = map (getLevelIndex levels vpn_above_leaf) [0..<levels]"

text \<open>A leaf inherits an array of children that stays empty.\<close>

fun descend :: "rnode \<Rightarrow> nat list \<Rightarrow> rnode option" where
  "descend node [] = Some node"
| "descend (RNode children a) (i # is) = (case children ! i of None \<Rightarrow> None | Some c \<Rightarrow> descend c is)"
| "descend (RLeaf data a) (i # is) = None"

definition wt_lookup_way :: "way_table \<Rightarrow> u64 \<Rightarrow> bool \<times> int" where
  "wt_lookup_way wt vpn =
     (case wt_root wt of
        None \<Rightarrow> (False, -1)
      | Some root \<Rightarrow>
          (case computeIndices wt vpn of (leaf_index, high) \<Rightarrow>
             (case descend root (level_path (wt_levels wt) high) of
                Some (RLeaf data a) \<Rightarrow> getEntry (wt_way_bits wt) data (int leaf_index)
              | _ \<Rightarrow> (False, -1))))"

text \<open>
  \<open>set_mapping\<close> creates the nodes that are missing on the path. A node of the wrong kind
  at the end of the path would be cast to a leaf.
\<close>

fun put_way :: "nat \<Rightarrow> int \<Rightarrow> int \<Rightarrow> nat list \<Rightarrow> rnode \<Rightarrow> phys_alloc \<Rightarrow> (rnode \<times> phys_alloc) outcome" where
  "put_way wb li way [] (RLeaf data a) pa = Inr (RLeaf (setEntry wb data li True way) a, pa)"
| "put_way wb li way [] (RNode children a) pa = Inl Undefined_Behaviour"
| "put_way wb li way (i # is) (RLeaf data a) pa = Inl Undefined_Behaviour"
| "put_way wb li way (i # is) (RNode children a) pa =
     (case (case children ! i of
              Some c \<Rightarrow> put_way wb li way is c pa
            | None \<Rightarrow> (case radix_alloc pa of (addr, pa1) \<Rightarrow>
                put_way wb li way is (if is = [] then RLeaf leaf_new addr else RNode (replicate 512 None) addr) pa1)) of
        Inl err \<Rightarrow> Inl err
      | Inr (c', pa2) \<Rightarrow> Inr (RNode (children[i := Some c']) a, pa2))"

definition wt_set_mapping :: "way_table \<Rightarrow> phys_alloc \<Rightarrow> u64 \<Rightarrow> int \<Rightarrow> (way_table \<times> phys_alloc) outcome" where
  "wt_set_mapping wt pa vpn way =
     (case computeIndices wt vpn of (leaf_index, high) \<Rightarrow>
        (case (case wt_root wt of
                 Some root \<Rightarrow> (root, pa)
               | None \<Rightarrow> (case radix_alloc pa of (addr, pa1) \<Rightarrow> (RNode (replicate 512 None) addr, pa1))) of
           (root, pa1) \<Rightarrow>
             map_sum id (\<lambda>(root', pa2). (wt\<lparr>wt_root := Some root'\<rparr>, pa2))
               (put_way (wt_way_bits wt) (int leaf_index) way (level_path (wt_levels wt) high) root pa1)))"

fun clear_way :: "nat \<Rightarrow> int \<Rightarrow> nat list \<Rightarrow> rnode \<Rightarrow> rnode" where
  "clear_way wb li [] (RLeaf data a) = RLeaf (clearEntry wb data li) a"
| "clear_way wb li [] (RNode children a) = RNode children a"
| "clear_way wb li (i # is) (RLeaf data a) = RLeaf data a"
| "clear_way wb li (i # is) (RNode children a) =
     (case children ! i of
        None \<Rightarrow> RNode children a
      | Some c \<Rightarrow> RNode (children[i := Some (clear_way wb li is c)]) a)"

definition wt_clear_mapping :: "way_table \<Rightarrow> u64 \<Rightarrow> way_table" where
  "wt_clear_mapping wt vpn =
     (case wt_root wt of
        None \<Rightarrow> wt
      | Some root \<Rightarrow>
          (case computeIndices wt vpn of (leaf_index, high) \<Rightarrow>
             wt\<lparr>wt_root := Some (clear_way (wt_way_bits wt) (int leaf_index) (level_path (wt_levels wt) high) root)\<rparr>))"

text \<open>The cache lines that a walk touches: one per internal level, and the line of the entry in the leaf.\<close>

fun walk_lines :: "nat \<Rightarrow> nat \<Rightarrow> nat \<Rightarrow> nat list \<Rightarrow> rnode \<Rightarrow> (nat \<times> u64 \<times> bool) list" where
  "walk_lines wb li level [] (RLeaf data a) = [(level, add64 a (getCacheLineOffset wb li), True)]"
| "walk_lines wb li level [] (RNode children a) = []"
| "walk_lines wb li level (i # is) (RLeaf data a) = [(level, add64 a (i * 8) div 64 * 64, False)]"
| "walk_lines wb li level (i # is) (RNode children a) =
     (level, add64 a (i * 8) div 64 * 64, False) #
     (case children ! i of None \<Rightarrow> [] | Some c \<Rightarrow> walk_lines wb li (Suc level) is c)"

definition getTraversalAddresses :: "way_table \<Rightarrow> u64 \<Rightarrow> (nat \<times> u64 \<times> bool) list" where
  "getTraversalAddresses wt vpn =
     (case wt_root wt of
        None \<Rightarrow> []
      | Some root \<Rightarrow> (case computeIndices wt vpn of (leaf_index, high) \<Rightarrow>
          walk_lines (wt_way_bits wt) leaf_index 0 (level_path (wt_levels wt) high) root))"

section \<open>Tables of applications\<close>

record way_mgr =
  wm_tables :: "nat \<Rightarrow> way_table option"
  wm_page_size_bits :: nat
  wm_associativity :: nat

definition way_mgr_new :: "nat \<Rightarrow> nat \<Rightarrow> way_mgr" where
  "way_mgr_new page_size_bits associativity = \<lparr> wm_tables = (\<lambda>_. None), wm_page_size_bits = page_size_bits, wm_associativity = associativity \<rparr>"

definition getTable :: "way_mgr \<Rightarrow> nat \<Rightarrow> way_table \<times> way_mgr" where
  "getTable wm app =
     (case wm_tables wm app of
        Some wt \<Rightarrow> (wt, wm)
      | None \<Rightarrow> (let wt = way_table_new (wm_page_size_bits wm) (wm_associativity wm) in (wt, wm\<lparr>wm_tables := (wm_tables wm)(app \<mapsto> wt)\<rparr>)))"

definition hasTable :: "way_mgr \<Rightarrow> nat \<Rightarrow> bool" where
  "hasTable wm app \<longleftrightarrow> wm_tables wm app \<noteq> None"

definition lookup_way :: "way_mgr \<Rightarrow> u64 \<Rightarrow> nat \<Rightarrow> (bool \<times> int) \<times> way_mgr" where
  "lookup_way wm vpn app = (case getTable wm app of (wt, wm1) \<Rightarrow> (wt_lookup_way wt vpn, wm1))"

definition set_mapping :: "way_mgr \<Rightarrow> phys_alloc \<Rightarrow> u64 \<Rightarrow> nat \<Rightarrow> int \<Rightarrow> (way_mgr \<times> phys_alloc) outcome" where
  "set_mapping wm pa vpn app way =
     (case getTable wm app of (wt, wm1) \<Rightarrow>
        map_sum id (\<lambda>(wt1, pa1). (wm1\<lparr>wm_tables := (wm_tables wm1)(app \<mapsto> wt1)\<rparr>, pa1)) (wt_set_mapping wt pa vpn way))"

definition clear_mapping :: "way_mgr \<Rightarrow> u64 \<Rightarrow> nat \<Rightarrow> way_mgr" where
  "clear_mapping wm vpn app =
     (if \<not> hasTable wm app then wm
      else (case getTable wm app of (wt, wm1) \<Rightarrow> wm1\<lparr>wm_tables := (wm_tables wm1)(app \<mapsto> wt_clear_mapping wt vpn)\<rparr>))"

section \<open>A way table is a map\<close>

text \<open>Trees of a uniform depth.\<close>

fun node_wf :: "nat \<Rightarrow> rnode \<Rightarrow> bool" where
  "node_wf 0 (RLeaf data a) \<longleftrightarrow> length data = 4096"
| "node_wf (Suc n) (RNode children a) \<longleftrightarrow> length children = 512 \<and> (\<forall>c. Some c \<in> set children \<longrightarrow> node_wf n c)"
| "node_wf _ _ \<longleftrightarrow> False"

definition entry_way :: "bool \<times> int \<Rightarrow> int option" where
  "entry_way e = (if fst e then Some (snd e) else None)"

definition node_way :: "nat \<Rightarrow> int \<Rightarrow> nat list \<Rightarrow> rnode \<Rightarrow> int option" where
  "node_way wb li is node = (case descend node is of Some (RLeaf data a) \<Rightarrow> entry_way (getEntry wb data li) | _ \<Rightarrow> None)"

lemma node_way_simps:
  "node_way wb li [] (RLeaf data a) = entry_way (getEntry wb data li)"
  "node_way wb li (i # is) (RNode children a) = (case children ! i of None \<Rightarrow> None | Some c \<Rightarrow> node_way wb li is c)"
  by (simp_all add: node_way_def split: option.splits)

lemma node_wf_children: "node_wf (Suc n) node \<Longrightarrow> \<exists>children a. node = RNode children a \<and> length children = 512 \<and> (\<forall>c. Some c \<in> set children \<longrightarrow> node_wf n c)"
  by (cases node) auto

lemma node_wf_update:
  assumes "node_wf (Suc n) (RNode children a)" "node_wf n c"
  shows "node_wf (Suc n) (RNode (children[i := Some c]) a)"
  using assms by (auto dest!: in_set_updateD)

lemma node_wf_empty: "node_wf (Suc n) (RNode (replicate 512 None) a)" "node_wf 0 (RLeaf leaf_new a)"
  by (auto simp: leaf_new_def)

lemma node_way_new:
  assumes "wb \<le> 16"
  shows "node_way wb li is (if js = [] then RLeaf leaf_new addr else RNode (replicate 512 None) addr) = None \<or> length is \<noteq> length js \<or> (\<exists>i \<in> set is. 512 \<le> i)"
proof (cases js)
  case Nil
  then show ?thesis using getEntry_new [OF assms, of li] by (cases "is") (auto simp: node_way_simps entry_way_def)
next
  case (Cons j js')
  then show ?thesis by (cases "is") (auto simp: node_way_simps not_le)
qed

text \<open>Setting an entry changes what is found at its path and index only; it always succeeds.\<close>

definition put_ok :: "nat \<Rightarrow> int \<Rightarrow> int \<Rightarrow> nat list \<Rightarrow> rnode \<Rightarrow> rnode \<Rightarrow> bool" where
  "put_ok wb li way is node node' \<longleftrightarrow> node_wf (length is) node' \<and>
     (\<forall>is' li'. length is' = length is \<and> (\<forall>i \<in> set is'. i < 512) \<longrightarrow>
        node_way wb li' is' node' = (if is' = is \<and> li' = li then Some (take_bit wb way) else node_way wb li' is' node))"

lemma put_ok_child:
  assumes p: "put_ok wb li way is c c'" and wf: "node_wf (Suc (length is)) (RNode children a)" and i: "i < 512"
    and c: "\<And>is' li'. length is' = length is \<Longrightarrow> \<forall>i \<in> set is'. i < 512 \<Longrightarrow>
      node_way wb li' is' c = (case children ! i of None \<Rightarrow> None | Some d \<Rightarrow> node_way wb li' is' d)"
  shows "put_ok wb li way (i # is) (RNode children a) (RNode (children[i := Some c']) a)"
proof -
  have "node_way wb li' is' (RNode (children[i := Some c']) a) = (if is' = i # is \<and> li' = li then Some (take_bit wb way) else node_way wb li' is' (RNode children a))"
    if h: "length is' = Suc (length is)" "\<forall>i \<in> set is'. i < 512" for is' li'
  proof -
    obtain k ks where ks: "is' = k # ks" "length ks = length is" using h(1) by (cases is') auto
    have n: "node_way wb li' ks c' = (if ks = is \<and> li' = li then Some (take_bit wb way) else node_way wb li' ks c)"
      using p ks h(2) by (simp add: put_ok_def)
    show ?thesis using n c [of ks li'] ks h(2) wf i by (cases "k = i") (simp_all add: node_way_simps)
  qed
  moreover have "node_wf (length (i # is)) (RNode (children[i := Some c']) a)" using node_wf_update [OF wf] p by (simp add: put_ok_def del: node_wf.simps)
  ultimately show ?thesis by (simp add: put_ok_def del: node_wf.simps)
qed

lemma put_way_ok:
  assumes "wb \<le> 16" "0 \<le> li" "li < int (leaf_entries wb)" "node_wf (length is) node" "\<forall>i \<in> set is. i < 512"
  shows "\<exists>node' pa'. put_way wb li way is node pa = Inr (node', pa') \<and> put_ok wb li way is node node'"
  using assms
proof (induction wb li way "is" node pa rule: put_way.induct)
  case (1 wb li way data a pa)
  then show ?case using getEntry_setEntry [of wb data li True way] by (auto simp: put_ok_def node_way_simps entry_way_def)
next
  case (4 wb li way i "is" children a pa)
  have wf: "node_wf (Suc (length is)) (RNode children a)" and i: "i < 512" and l: "length children = 512" using "4.prems" by auto
  show ?case
  proof (cases "children ! i")
    case (Some c)
    have "node_wf (length is) c" using wf i Some by (metis l node_wf.simps(2) nth_mem)
    then obtain c' pa' where c': "put_way wb li way is c pa = Inr (c', pa')" "put_ok wb li way is c c'" using "4.IH"(2) [OF Some] "4.prems" by auto
    then show ?thesis using put_ok_child [OF c'(2) wf i] Some by simp
  next
    case None
    obtain addr pa1 where r: "radix_alloc pa = (addr, pa1)" by fastforce
    let ?c = "if is = [] then RLeaf leaf_new addr else RNode (replicate 512 None) addr"
    have "node_wf (length is) ?c" using node_wf_empty by (cases "is") auto
    then obtain c' pa' where c': "put_way wb li way is ?c pa1 = Inr (c', pa')" "put_ok wb li way is ?c c'"
      using "4.IH"(1) [OF None r [symmetric]] "4.prems" by auto
    have "put_ok wb li way (i # is) (RNode children a) (RNode (children[i := Some c']) a)"
      by (rule put_ok_child [OF c'(2) wf i]) (use node_way_new [OF "4.prems"(1)] None in fastforce)
    then show ?thesis using c'(1) None r by simp
  qed
qed auto

lemma clear_way_ok:
  assumes "wb \<le> 16" "0 \<le> li" "li < int (leaf_entries wb)" "node_wf (length is) node" "\<forall>i \<in> set is. i < 512"
  shows "node_wf (length is) (clear_way wb li is node) \<and>
     (\<forall>is' li'. length is' = length is \<and> (\<forall>i \<in> set is'. i < 512) \<longrightarrow>
        node_way wb li' is' (clear_way wb li is node) = (if is' = is \<and> li' = li then None else node_way wb li' is' node))"
  using assms
proof (induction wb li "is" node rule: clear_way.induct)
  case (1 wb li data a)
  then show ?case using getEntry_setEntry [of wb data li False 0] by (auto simp: clearEntry_def node_way_simps entry_way_def)
next
  case (4 wb li i "is" children a)
  have wf: "node_wf (Suc (length is)) (RNode children a)" and i: "i < 512" and l: "length children = 512" using "4.prems" by auto
  show ?case
  proof (cases "children ! i")
    case (Some c)
    have "node_wf (length is) c" using wf i Some by (metis l node_wf.simps(2) nth_mem)
    then have IH: "node_wf (length is) (clear_way wb li is c)" "\<And>is' li'. length is' = length is \<Longrightarrow> \<forall>i \<in> set is'. i < 512 \<Longrightarrow>
        node_way wb li' is' (clear_way wb li is c) = (if is' = is \<and> li' = li then None else node_way wb li' is' c)"
      using "4.IH" [OF Some] "4.prems" by auto
    have "node_way wb li' is' (RNode (children[i := Some (clear_way wb li is c)]) a) = (if is' = i # is \<and> li' = li then None else node_way wb li' is' (RNode children a))"
      if h: "length is' = Suc (length is)" "\<forall>i \<in> set is'. i < 512" for is' li'
    proof -
      obtain k ks where ks: "is' = k # ks" "length ks = length is" using h(1) by (cases is') auto
      show ?thesis using IH(2) [of ks li'] ks h(2) l i Some by (cases "k = i") (simp_all add: node_way_simps)
    qed
    then show ?thesis using node_wf_update [OF wf IH(1)] Some by (simp del: node_wf.simps)
  next
    case None
    then show ?thesis using "4.prems" by (auto simp: node_way_simps)
  qed
qed auto

subsection \<open>Paths\<close>

lemma level_path_Suc: "level_path (Suc n) x = take_bit 9 (drop_bit (n * 9) x) # level_path n x"
proof -
  have "level_path (Suc n) x = getLevelIndex (Suc n) x 0 # map (\<lambda>k. getLevelIndex (Suc n) x (Suc k)) [0..<n]"
    by (simp add: level_path_def upt_conv_Cons map_Suc_upt [symmetric] del: upt_Suc)
  moreover have "getLevelIndex (Suc n) x (Suc k) = getLevelIndex n x k" for k by (simp add: getLevelIndex_def)
  ultimately show ?thesis by (simp add: level_path_def getLevelIndex_def take_bit_eq_mask)
qed

lemma level_path_bounds: "length (level_path n x) = n" "i \<in> set (level_path n x) \<Longrightarrow> i < 512"
  by (auto simp: level_path_def getLevelIndex_def take_bit_eq_mask [symmetric] take_bit_nat_less_exp [where n = 9, simplified])

lemma level_path_take: "level_path n (take_bit (m * 9) x) = level_path n x" if "n \<le> m"
  using that
proof (induction n)
  case (Suc n)
  then have "9 \<le> m * 9 - n * 9" by linarith
  then have "take_bit 9 (drop_bit (n * 9) (take_bit (m * 9) x)) = take_bit 9 (drop_bit (n * 9) x)" by (simp add: drop_bit_take_bit min_def)
  with Suc show ?case by (simp add: level_path_Suc)
qed (simp add: level_path_def)

lemma level_path_inj: "level_path n x = level_path n y \<Longrightarrow> x < 2 ^ (n * 9) \<Longrightarrow> y < 2 ^ (n * 9) \<Longrightarrow> x = y"
proof (induction n arbitrary: x y)
  case (Suc n)
  have small: "take_bit 9 (drop_bit (n * 9) z) = drop_bit (n * 9) z" if "z < 2 ^ (Suc n * 9)" for z :: nat
    using that by (simp add: take_bit_nat_eq_self drop_bit_eq_div less_mult_imp_div_less power_add)
  have "drop_bit (n * 9) x = drop_bit (n * 9) y" using Suc.prems small by (simp add: level_path_Suc)
  moreover have "take_bit (n * 9) x = take_bit (n * 9) y"
    by (rule Suc.IH) (use Suc.prems level_path_take [of n n] in \<open>simp_all add: level_path_Suc\<close>)
  ultimately show ?case by (metis bits_ident)
qed simp

lemma bit_length_bound: "n < 2 ^ bit_length n"
proof (induction n rule: bit_length.induct)
  case (1 n)
  then show ?case by (cases "n = 0") (auto simp: bit_length.simps [of n])
qed

lemma bit_length_least: "n < 2 ^ k \<Longrightarrow> bit_length n \<le> k"
proof (induction n arbitrary: k rule: bit_length.induct)
  case (1 n)
  show ?case
  proof (cases "n = 0")
    case False
    with "1.prems" obtain k' where k: "k = Suc k'" by (cases k) auto
    with "1.prems" "1.IH" [OF False, of k'] False show ?thesis by (simp add: bit_length.simps [of n])
  qed (simp add: bit_length.simps)
qed

subsection \<open>The map of a table\<close>

definition wt_map :: "way_table \<Rightarrow> u64 \<Rightarrow> int option" where
  "wt_map wt vpn = entry_way (wt_lookup_way wt vpn)"

definition wt_wf :: "nat \<Rightarrow> way_table \<Rightarrow> bool" where
  "wt_wf page_size_bits wt \<longleftrightarrow> wt_way_bits wt \<le> 16 \<and> wt_levels wt = internal_levels page_size_bits (wt_way_bits wt) \<and>
     (case wt_root wt of None \<Rightarrow> True | Some root \<Rightarrow> node_wf (wt_levels wt) root)"

lemma leaf_entries_bounds: "wb \<le> 16 \<Longrightarrow> 1927 \<le> leaf_entries wb \<and> leaf_entries wb \<le> 32768"
proof -
  assume "wb \<le> 16"
  then have "32768 div 17 \<le> 32768 div (1 + wb)" by (intro div_le_mono2) simp_all
  moreover have "32768 div (1 + wb) \<le> 32768" by (rule div_le_dividend)
  ultimately show ?thesis by (simp add: leaf_entries_def)
qed

text \<open>The levels suffice for every page of 48-bit addresses.\<close>

lemma levels_suffice:
  assumes "wb \<le> 16" "12 \<le> pb" "vpn < 2 ^ (48 - pb)"
  shows "vpn div leaf_entries wb < 2 ^ (internal_levels pb wb * 9)" "0 < internal_levels pb wb"
proof -
  define le where "le = leaf_entries wb"
  define M where "M = (2 ^ (48 - pb) + le - 1) div le"
  have le: "1927 \<le> le" "le \<le> 32768" using leaf_entries_bounds [OF assms(1)] by (simp_all add: le_def)
  have "(2 :: nat) ^ (48 - pb) \<le> 2 ^ 36" using assms(2) by (intro power_increasing) simp_all
  then have "M \<le> (2 ^ 36 + le - 1) div le" unfolding M_def by (intro div_le_mono) simp
  also have "\<dots> \<le> (2 ^ 36 + le - 1) div 1927" using le by (intro div_le_mono2) simp_all
  also have "\<dots> < 2 ^ 36" using le by simp
  finally have "bit_length M \<le> 36" by (rule bit_length_least)
  then have lv: "bit_length M \<le> internal_levels pb wb * 9" "0 < internal_levels pb wb"
    unfolding internal_levels_def Let_def le_def [symmetric] M_def [symmetric] by (auto split: if_splits)
  have "vpn div le < M"
  proof -
    have "le \<noteq> 0" using le(1) by linarith
    then have "vpn div le + 1 = (vpn + le) div le" by (rule div_add_self2 [symmetric])
    also have "\<dots> \<le> M" unfolding M_def using assms(3) by (intro div_le_mono) simp
    finally show ?thesis by simp
  qed
  also have "\<dots> < 2 ^ bit_length M" by (rule bit_length_bound)
  also have "\<dots> \<le> 2 ^ (internal_levels pb wb * 9)" using lv(1) by simp
  finally show "vpn div leaf_entries wb < 2 ^ (internal_levels pb wb * 9)" by (simp add: le_def)
  show "0 < internal_levels pb wb" by (rule lv(2))
qed

lemma wt_map_node:
  "wt_map wt vpn = (case wt_root wt of None \<Rightarrow> None | Some root \<Rightarrow>
     node_way (wt_way_bits wt) (int (vpn mod leaf_entries (wt_way_bits wt))) (level_path (wt_levels wt) (vpn div leaf_entries (wt_way_bits wt))) root)"
  by (auto simp: wt_map_def wt_lookup_way_def computeIndices_def node_way_def entry_way_def split: option.splits rnode.splits)

text \<open>Different pages have different places.\<close>

lemma page_place_inj:
  assumes "wt_wf pb wt" "12 \<le> pb" "vpn < 2 ^ (48 - pb)" "vpn' < 2 ^ (48 - pb)"
    "level_path (wt_levels wt) (vpn div leaf_entries (wt_way_bits wt)) = level_path (wt_levels wt) (vpn' div leaf_entries (wt_way_bits wt))"
    "vpn mod leaf_entries (wt_way_bits wt) = vpn' mod leaf_entries (wt_way_bits wt)"
  shows "vpn = vpn'"
proof -
  have wb: "wt_way_bits wt \<le> 16" "wt_levels wt = internal_levels pb (wt_way_bits wt)" using assms(1) by (simp_all add: wt_wf_def)
  have "vpn div leaf_entries (wt_way_bits wt) = vpn' div leaf_entries (wt_way_bits wt)"
    by (rule level_path_inj [OF assms(5)]) (use levels_suffice(1) [OF wb(1) assms(2)] assms(3,4) wb(2) in simp_all)
  with assms(6) show ?thesis by (metis div_mult_mod_eq)
qed

lemma wt_set_mapping_ok:
  assumes wf: "wt_wf pb wt" and pb: "12 \<le> pb" and v: "vpn < 2 ^ (48 - pb)"
  shows "\<exists>wt' pa'. wt_set_mapping wt pa vpn way = Inr (wt', pa') \<and> wt_wf pb wt' \<and> wt_way_bits wt' = wt_way_bits wt \<and>
    (\<forall>vpn' < 2 ^ (48 - pb). wt_map wt' vpn' = (if vpn' = vpn then Some (take_bit (wt_way_bits wt) way) else wt_map wt vpn'))"
proof -
  define wb le lv li high where d: "wb = wt_way_bits wt" "le = leaf_entries wb" "lv = wt_levels wt" "li = int (vpn mod le)" "high = vpn div le"
  have wb: "wb \<le> 16" "lv = internal_levels pb wb" using wf by (simp_all add: wt_wf_def d)
  have le: "0 < le" using leaf_entries_bounds [OF wb(1)] by (simp add: d)
  obtain root pa1 where r: "(case wt_root wt of Some root \<Rightarrow> (root, pa)
      | None \<Rightarrow> (case radix_alloc pa of (addr, pa1) \<Rightarrow> (RNode (replicate 512 None) addr, pa1))) = (root, pa1)" by fastforce
  have lv0: "0 < lv" using levels_suffice(2) [OF wb(1) pb v] wb(2) by simp
  have root: "node_wf lv root" "\<And>is li'. length is = lv \<Longrightarrow> \<forall>i \<in> set is. i < 512 \<Longrightarrow>
      node_way wb li' is root = (case wt_root wt of None \<Rightarrow> None | Some root \<Rightarrow> node_way wb li' is root)"
  proof -
    show "node_wf lv root"
      using r wf lv0 node_wf_empty(1) [of "lv - 1"] by (cases "wt_root wt") (auto simp: wt_wf_def d(3) split: prod.splits simp del: node_wf.simps)
    show "node_way wb li' is root = (case wt_root wt of None \<Rightarrow> None | Some root \<Rightarrow> node_way wb li' is root)"
      if "length is = lv" "\<forall>i \<in> set is. i < 512" for "is" li'
      using r that lv0 by (cases "is"; cases "wt_root wt") (auto simp: node_way_simps split: prod.splits)
  qed
  obtain root' pa' where p: "put_way wb li way (level_path lv high) root pa1 = Inr (root', pa')" "put_ok wb li way (level_path lv high) root root'"
    using put_way_ok [OF wb(1), of li "level_path lv high" root way pa1] root(1) level_path_bounds le by (auto simp: d(4) d(2) [symmetric])
  let ?wt = "wt\<lparr>wt_root := Some root'\<rparr>"
  have s: "wt_set_mapping wt pa vpn way = Inr (?wt, pa')"
    unfolding wt_set_mapping_def computeIndices_def d(1,2) [symmetric] prod.case r d(3-5) [symmetric] p(1) by simp
  have "wt_map ?wt vpn' = (if vpn' = vpn then Some (take_bit wb way) else wt_map wt vpn')" if v': "vpn' < 2 ^ (48 - pb)" for vpn'
  proof -
    have "wt_map ?wt vpn' = node_way wb (int (vpn' mod le)) (level_path lv (vpn' div le)) root'" by (simp add: wt_map_node d)
    also have "\<dots> = (if level_path lv (vpn' div le) = level_path lv high \<and> int (vpn' mod le) = li then Some (take_bit wb way)
        else node_way wb (int (vpn' mod le)) (level_path lv (vpn' div le)) root)"
      using p(2) level_path_bounds by (simp add: put_ok_def)
    also have "level_path lv (vpn' div le) = level_path lv high \<and> int (vpn' mod le) = li \<longleftrightarrow> vpn' = vpn"
      using page_place_inj [OF wf pb v' v] by (auto simp: d)
    also have "node_way wb (int (vpn' mod le)) (level_path lv (vpn' div le)) root = wt_map wt vpn'"
      using root(2) [of "level_path lv (vpn' div le)"] level_path_bounds unfolding wt_map_node d(1-3) [symmetric] by simp
    finally show ?thesis .
  qed
  moreover have "wt_wf pb ?wt" using wf p(2) level_path_bounds(1) by (simp add: wt_wf_def put_ok_def d)
  ultimately show ?thesis using s by (auto simp: d(1))
qed

lemma wt_clear_mapping_ok:
  assumes wf: "wt_wf pb wt" and pb: "12 \<le> pb" and v: "vpn < 2 ^ (48 - pb)"
  shows "wt_wf pb (wt_clear_mapping wt vpn) \<and> wt_way_bits (wt_clear_mapping wt vpn) = wt_way_bits wt \<and>
    (\<forall>vpn' < 2 ^ (48 - pb). wt_map (wt_clear_mapping wt vpn) vpn' = (if vpn' = vpn then None else wt_map wt vpn'))"
proof (cases "wt_root wt")
  case None
  then show ?thesis using wf by (simp add: wt_clear_mapping_def wt_map_node)
next
  case (Some root)
  define wb le lv li high where d: "wb = wt_way_bits wt" "le = leaf_entries wb" "lv = wt_levels wt" "li = int (vpn mod le)" "high = vpn div le"
  have wb: "wb \<le> 16" "node_wf lv root" using wf Some by (auto simp: wt_wf_def d)
  have le: "0 < le" using leaf_entries_bounds [OF wb(1)] by (simp add: d)
  let ?r = "clear_way wb li (level_path lv high) root"
  have c: "wt_clear_mapping wt vpn = wt\<lparr>wt_root := Some ?r\<rparr>" by (simp add: wt_clear_mapping_def Some computeIndices_def d)
  have r: "node_wf lv ?r" "\<And>is' li'. length is' = lv \<Longrightarrow> \<forall>i \<in> set is'. i < 512 \<Longrightarrow>
      node_way wb li' is' ?r = (if is' = level_path lv high \<and> li' = li then None else node_way wb li' is' root)"
    using clear_way_ok [OF wb(1), of li "level_path lv high" root] wb(2) level_path_bounds le by (auto simp: d(4) d(2) [symmetric])
  have "wt_map (wt\<lparr>wt_root := Some ?r\<rparr>) vpn' = (if vpn' = vpn then None else wt_map wt vpn')" if v': "vpn' < 2 ^ (48 - pb)" for vpn'
  proof -
    have "wt_map (wt\<lparr>wt_root := Some ?r\<rparr>) vpn' = node_way wb (int (vpn' mod le)) (level_path lv (vpn' div le)) ?r" by (simp add: wt_map_node d)
    also have "\<dots> = (if level_path lv (vpn' div le) = level_path lv high \<and> int (vpn' mod le) = li then None
        else node_way wb (int (vpn' mod le)) (level_path lv (vpn' div le)) root)"
      using r(2) level_path_bounds by simp
    also have "level_path lv (vpn' div le) = level_path lv high \<and> int (vpn' mod le) = li \<longleftrightarrow> vpn' = vpn"
      using page_place_inj [OF wf pb v' v] by (auto simp: d)
    also have "node_way wb (int (vpn' mod le)) (level_path lv (vpn' div le)) root = wt_map wt vpn'" by (simp add: wt_map_node Some d)
    finally show ?thesis .
  qed
  then show ?thesis unfolding c using wf r(1) by (simp add: wt_wf_def d)
qed

lemma wt_new_ok: "way_bits_of assoc \<le> 16 \<Longrightarrow> wt_wf pb (way_table_new pb assoc) \<and> wt_way_bits (way_table_new pb assoc) = way_bits_of assoc \<and> wt_map (way_table_new pb assoc) vpn = None"
  by (simp add: way_table_new_def wt_wf_def Let_def wt_map_node)

subsection \<open>The maps of the applications\<close>

definition wm_map :: "way_mgr \<Rightarrow> nat \<Rightarrow> u64 \<Rightarrow> int option" where
  "wm_map wm app vpn = (case wm_tables wm app of None \<Rightarrow> None | Some wt \<Rightarrow> wt_map wt vpn)"

definition wm_wf :: "way_mgr \<Rightarrow> bool" where
  "wm_wf wm \<longleftrightarrow> 12 \<le> wm_page_size_bits wm \<and> way_bits_of (wm_associativity wm) \<le> 16 \<and>
     (\<forall>app wt. wm_tables wm app = Some wt \<longrightarrow> wt_wf (wm_page_size_bits wm) wt \<and> wt_way_bits wt = way_bits_of (wm_associativity wm))"

definition same_shape :: "way_mgr \<Rightarrow> way_mgr \<Rightarrow> bool" where
  "same_shape wm wm' \<longleftrightarrow> wm_page_size_bits wm' = wm_page_size_bits wm \<and> wm_associativity wm' = wm_associativity wm"

lemma getTable_ok:
  assumes "wm_wf wm" "getTable wm app = (wt, wm1)"
  shows "wt_wf (wm_page_size_bits wm) wt" "wt_way_bits wt = way_bits_of (wm_associativity wm)" "wm_wf wm1" "wm_map wm1 = wm_map wm"
    "\<And>vpn. wt_map wt vpn = wm_map wm app vpn" "same_shape wm wm1"
  using assms wt_new_ok [of "wm_associativity wm" "wm_page_size_bits wm"]
  by (auto simp: getTable_def wm_wf_def wm_map_def same_shape_def Let_def fun_eq_iff split: option.splits if_splits)

lemma lookup_way_ok:
  assumes "wm_wf wm" "lookup_way wm vpn app = (e, wm1)"
  shows "entry_way e = wm_map wm app vpn" "wm_wf wm1" "wm_map wm1 = wm_map wm" "same_shape wm wm1"
proof -
  obtain wt where g: "getTable wm app = (wt, wm1)" "e = wt_lookup_way wt vpn" using assms(2) by (auto simp: lookup_way_def split: prod.splits)
  show "entry_way e = wm_map wm app vpn" using getTable_ok(5) [OF assms(1) g(1)] g(2) by (simp add: wt_map_def)
  show "wm_wf wm1" "wm_map wm1 = wm_map wm" "same_shape wm wm1" using getTable_ok [OF assms(1) g(1)] by simp_all
qed

lemma set_mapping_ok:
  assumes wf: "wm_wf wm" and v: "vpn < 2 ^ (48 - wm_page_size_bits wm)" and w: "0 \<le> way" "way < 2 ^ way_bits_of (wm_associativity wm)"
  shows "\<exists>wm' pa'. set_mapping wm pa vpn app way = Inr (wm', pa') \<and> wm_wf wm' \<and> same_shape wm wm' \<and>
    (\<forall>app' vpn'. vpn' < 2 ^ (48 - wm_page_size_bits wm) \<longrightarrow> wm_map wm' app' vpn' = (if app' = app \<and> vpn' = vpn then Some way else wm_map wm app' vpn'))"
proof -
  obtain wt wm1 where g: "getTable wm app = (wt, wm1)" by fastforce
  note t = getTable_ok [OF wf g]
  have pb: "12 \<le> wm_page_size_bits wm" using wf by (simp add: wm_wf_def)
  obtain wt' pa' where s: "wt_set_mapping wt pa vpn way = Inr (wt', pa')" "wt_wf (wm_page_size_bits wm) wt'" "wt_way_bits wt' = wt_way_bits wt"
    "\<forall>vpn' < 2 ^ (48 - wm_page_size_bits wm). wt_map wt' vpn' = (if vpn' = vpn then Some (take_bit (wt_way_bits wt) way) else wt_map wt vpn')"
    using wt_set_mapping_ok [OF t(1) pb v] by blast
  have tb: "take_bit (wt_way_bits wt) way = way" using w t(2) by (simp add: take_bit_int_eq_self)
  let ?wm = "wm1\<lparr>wm_tables := (wm_tables wm1)(app \<mapsto> wt')\<rparr>"
  have "set_mapping wm pa vpn app way = Inr (?wm, pa')" by (simp add: set_mapping_def g s(1))
  moreover have "wm_wf ?wm" "same_shape wm ?wm" using t(2,3,6) s(2,3) by (auto simp: wm_wf_def same_shape_def)
  moreover have "wm_map ?wm app' vpn' = (if app' = app \<and> vpn' = vpn then Some way else wm_map wm app' vpn')"
    if "vpn' < 2 ^ (48 - wm_page_size_bits wm)" for app' vpn'
    using s(4) that tb t(5) [of vpn'] t(4) by (auto simp: wm_map_def fun_eq_iff)
  ultimately show ?thesis by blast
qed

lemma clear_mapping_ok:
  assumes wf: "wm_wf wm" and v: "vpn < 2 ^ (48 - wm_page_size_bits wm)"
  shows "wm_wf (clear_mapping wm vpn app)" "same_shape wm (clear_mapping wm vpn app)"
    "vpn' < 2 ^ (48 - wm_page_size_bits wm) \<Longrightarrow> wm_map (clear_mapping wm vpn app) app' vpn' = (if app' = app \<and> vpn' = vpn then None else wm_map wm app' vpn')"
proof -
  have pb: "12 \<le> wm_page_size_bits wm" using wf by (simp add: wm_wf_def)
  have "wm_wf (clear_mapping wm vpn app) \<and> same_shape wm (clear_mapping wm vpn app) \<and>
    (vpn' < 2 ^ (48 - wm_page_size_bits wm) \<longrightarrow> wm_map (clear_mapping wm vpn app) app' vpn' = (if app' = app \<and> vpn' = vpn then None else wm_map wm app' vpn'))"
  proof (cases "wm_tables wm app")
    case None
    then show ?thesis using wf by (simp add: clear_mapping_def hasTable_def same_shape_def wm_map_def)
  next
    case (Some wt)
    then have c: "clear_mapping wm vpn app = wm\<lparr>wm_tables := (wm_tables wm)(app \<mapsto> wt_clear_mapping wt vpn)\<rparr>"
      by (simp add: clear_mapping_def hasTable_def getTable_def)
    have t: "wt_wf (wm_page_size_bits wm) wt" "wt_way_bits wt = way_bits_of (wm_associativity wm)" using wf Some by (simp_all add: wm_wf_def)
    show ?thesis unfolding c using wt_clear_mapping_ok [OF t(1) pb v] wf t(2) Some by (auto simp: wm_wf_def same_shape_def wm_map_def)
  qed
  then show "wm_wf (clear_mapping wm vpn app)" "same_shape wm (clear_mapping wm vpn app)"
    "vpn' < 2 ^ (48 - wm_page_size_bits wm) \<Longrightarrow> wm_map (clear_mapping wm vpn app) app' vpn' = (if app' = app \<and> vpn' = vpn then None else wm_map wm app' vpn')"
    by blast+
qed

subsection \<open>Runs of updates\<close>

text \<open>A key is an application and a page; a table holds the ways below the power of two that its entries can hold.\<close>

definition way_key_ok :: "way_mgr \<Rightarrow> nat \<times> u64 \<Rightarrow> bool" where
  "way_key_ok wm k \<longleftrightarrow> snd k < 2 ^ (48 - wm_page_size_bits wm)"

definition way_val_ok :: "way_mgr \<Rightarrow> int \<Rightarrow> bool" where
  "way_val_ok wm way \<longleftrightarrow> 0 \<le> way \<and> way < 2 ^ way_bits_of (wm_associativity wm)"

definition wm_put :: "way_mgr \<Rightarrow> phys_alloc \<Rightarrow> nat \<times> u64 \<Rightarrow> int \<Rightarrow> (way_mgr \<times> phys_alloc) outcome" where
  "wm_put wm pa k way = set_mapping wm pa (snd k) (fst k) way"

definition wm_del :: "way_mgr \<Rightarrow> nat \<times> u64 \<Rightarrow> way_mgr" where
  "wm_del wm k = clear_mapping wm (snd k) (fst k)"

lemma way_ok_shape: "same_shape wm wm' \<Longrightarrow> way_key_ok wm' = way_key_ok wm \<and> way_val_ok wm' = way_val_ok wm"
  by (simp add: same_shape_def way_key_ok_def way_val_ok_def fun_eq_iff)

interpretation ways: map_store wm_wf way_key_ok way_val_ok "\<lambda>wm k. wm_map wm (fst k) (snd k)" wm_put wm_del
proof
  fix wm k way pa assume h: "wm_wf wm" "way_key_ok wm k" "way_val_ok wm way"
  then have h': "snd k < 2 ^ (48 - wm_page_size_bits wm)" "0 \<le> way" "way < 2 ^ way_bits_of (wm_associativity wm)" by (simp_all add: way_key_ok_def way_val_ok_def)
  note s = set_mapping_ok [OF h(1) h', of pa "fst k"]
  show "\<exists>wm' pa'. wm_put wm pa k way = Inr (wm', pa')" using s by (auto simp: wm_put_def)
  fix wm' pa' x assume p: "wm_put wm pa k way = Inr (wm', pa')"
  show "wm_wf wm' \<and> way_key_ok wm' = way_key_ok wm \<and> way_val_ok wm' = way_val_ok wm" using s p way_ok_shape by (auto simp: wm_put_def)
  assume "way_key_ok wm x"
  then show "wm_map wm' (fst x) (snd x) = ((\<lambda>k. wm_map wm (fst k) (snd k))(k \<mapsto> way)) x"
    using s p by (auto simp: wm_put_def way_key_ok_def prod_eq_iff)
next
  fix wm k x assume h: "wm_wf wm" "way_key_ok wm k"
  then have v: "snd k < 2 ^ (48 - wm_page_size_bits wm)" by (simp add: way_key_ok_def)
  note c = clear_mapping_ok [OF h(1) v]
  show "wm_wf (wm_del wm k) \<and> way_key_ok (wm_del wm k) = way_key_ok wm \<and> way_val_ok (wm_del wm k) = way_val_ok wm"
    using c(1,2) way_ok_shape by (simp add: wm_del_def)
  assume "way_key_ok wm x"
  then show "wm_map (wm_del wm k) (fst x) (snd x) = ((\<lambda>k. wm_map wm (fst k) (snd k))(k := None)) x"
    using c(3) by (auto simp: wm_del_def way_key_ok_def prod_eq_iff)
qed

text \<open>
  C14: the way tables of a segment, packed leaves under radix nodes that are created on
  demand, are a map from an application and a page to a way: after any run of
  \<open>set_mapping\<close> and \<open>clear_mapping\<close> on new tables the run has succeeded and
  \<open>lookup_way\<close> returns for every 48-bit page what the same run gives on an empty map.
\<close>

theorem way_tables_refine_map:
  assumes "12 \<le> page_size_bits" "way_bits_of assoc \<le> 16"
    and "list_all (map_op_ok (\<lambda>(app, vpn). vpn < 2 ^ (48 - page_size_bits)) (\<lambda>way. 0 \<le> way \<and> way < 2 ^ way_bits_of assoc)) ops"
  shows "\<exists>wm pa'. run_map wm_put wm_del (way_mgr_new page_size_bits assoc) pa ops = Inr (wm, pa') \<and>
    (\<forall>app vpn. vpn < 2 ^ (48 - page_size_bits) \<longrightarrow> entry_way (fst (lookup_way wm vpn app)) = abstract_map (\<lambda>_. None) ops (app, vpn))"
proof -
  let ?wm = "way_mgr_new page_size_bits assoc"
  have g: "wm_wf ?wm" using assms(1,2) by (simp add: wm_wf_def way_mgr_new_def)
  have k: "way_key_ok ?wm = (\<lambda>(app, vpn). vpn < 2 ^ (48 - page_size_bits))" "way_val_ok ?wm = (\<lambda>way. 0 \<le> way \<and> way < 2 ^ way_bits_of assoc)"
    by (auto simp: way_key_ok_def way_val_ok_def way_mgr_new_def fun_eq_iff)
  have e: "(\<lambda>k. wm_map ?wm (fst k) (snd k)) = (\<lambda>_. None)" by (simp add: wm_map_def way_mgr_new_def)
  from ways.run_map_refines [OF g, of ops pa] assms(3) obtain wm pa' where
    r: "run_map wm_put wm_del ?wm pa ops = Inr (wm, pa')" "wm_wf wm"
      "\<And>x. way_key_ok ?wm x \<Longrightarrow> wm_map wm (fst x) (snd x) = abstract_map (\<lambda>_. None) ops x" unfolding k e by blast
  have "entry_way (fst (lookup_way wm vpn app)) = abstract_map (\<lambda>_. None) ops (app, vpn)" if "vpn < 2 ^ (48 - page_size_bits)" for app vpn
    using lookup_way_ok(1) [OF r(2), of vpn app "fst (lookup_way wm vpn app)" "snd (lookup_way wm vpn app)"] r(3) [of "(app, vpn)"] that by (simp add: k)
  with r(1) show ?thesis by blast
qed

text \<open>Two applications with the same page, one of which is cleared.\<close>

theorem way_tables_refine_map_witness:
  "\<forall>pa. \<exists>wm pa'. run_map wm_put wm_del (way_mgr_new 12 16) pa [Put (1, 5000) 9, Put (2, 5000) 15, Del (1, 5000)] = Inr (wm, pa') \<and>
    entry_way (fst (lookup_way wm 5000 1)) = None \<and> entry_way (fst (lookup_way wm 5000 2)) = Some 15"
proof
  fix pa
  have w: "way_bits_of 16 = 4" by (simp add: way_bits_of_def floor_log2.simps Let_def)
  have "list_all (map_op_ok (\<lambda>(app, vpn). vpn < 2 ^ (48 - 12)) (\<lambda>way. 0 \<le> way \<and> way < 2 ^ way_bits_of 16))
      [Put (1 :: nat, 5000 :: nat) (9 :: int), Put (2, 5000) 15, Del (1, 5000)]" by (simp add: w)
  from way_tables_refine_map [OF _ _ this, of pa] w obtain wm pa' where
    r: "run_map wm_put wm_del (way_mgr_new 12 16) pa [Put (1, 5000) 9, Put (2, 5000) 15, Del (1, 5000)] = Inr (wm, pa')"
      "\<And>app vpn. vpn < 2 ^ (48 - 12) \<Longrightarrow> entry_way (fst (lookup_way wm vpn app)) = abstract_map (\<lambda>_. None) [Put (1, 5000) 9, Put (2, 5000) 15, Del (1, 5000)] (app, vpn)"
    by auto
  have "entry_way (fst (lookup_way wm 5000 1)) = None" "entry_way (fst (lookup_way wm 5000 2)) = Some 15" by (subst r(2), simp, simp)+
  with r(1) show "\<exists>wm pa'. run_map wm_put wm_del (way_mgr_new 12 16) pa [Put (1, 5000) 9, Put (2, 5000) 15, Del (1, 5000)] = Inr (wm, pa') \<and>
    entry_way (fst (lookup_way wm 5000 1)) = None \<and> entry_way (fst (lookup_way wm 5000 2)) = Some 15" by blast
qed

end
