(* ===== verification/Rest_Seg.thy ===== *)
theory Rest_Seg
  imports Way_Table Complex_Main
begin

text \<open>
  The restrictive segments of Utopia (\<open>utopia.h\<close>): a region of frames that is managed
  like a cache of pages. A page of an application may be in one set only; its
  frame follows from the set and the way. The way is found by the tags of the set or,
  faster, in the way table of the application. The theory shows that both agree
  in every reachable state, that different pages have different frames and that the
  counters of free ways are exact.
\<close>

section \<open>Sets\<close>

record rs_entry =
  re_valid :: bool
  re_tag :: u64
  re_fingerprint :: "8 word"
  re_owner :: u64
  re_reuse_count :: u64
  re_lru_counter :: u64

definition rs_entry_new :: rs_entry where
  "rs_entry_new = \<lparr> re_valid = False, re_tag = 0, re_fingerprint = 0, re_owner = 0, re_reuse_count = 0, re_lru_counter = 0 \<rparr>"

record rs_set =
  st_entries :: "rs_entry list"
  st_global_lru_counter :: u64

definition rs_set_new :: "nat \<Rightarrow> rs_set" where
  "rs_set_new assoc = \<lparr> st_entries = replicate assoc rs_entry_new, st_global_lru_counter = 0 \<rparr>"

text \<open>The searches return the first way, and \<open>None\<close> for -1.\<close>

definition findEntry :: "rs_set \<Rightarrow> u64 \<Rightarrow> u64 \<Rightarrow> nat option" where
  "findEntry s tag owner = find_index (\<lambda>e. re_valid e \<and> re_tag e = tag \<and> re_owner e = owner) (st_entries s)"

definition findEntryByTag :: "rs_set \<Rightarrow> u64 \<Rightarrow> nat option" where
  "findEntryByTag s tag = find_index (\<lambda>e. re_valid e \<and> re_tag e = tag) (st_entries s)"

definition findFreeWay :: "rs_set \<Rightarrow> nat option" where
  "findFreeWay s = find_index (\<lambda>e. \<not> re_valid e) (st_entries s)"

text \<open>
  The lookup that also counts comparisons of fingerprints: the number of comparisons,
  of matches, of matches with the wrong entry and with the right one. It returns the
  last way that matches.
\<close>

fun fingerprint_shadow :: "u64 \<Rightarrow> u64 \<Rightarrow> 8 word \<Rightarrow> nat \<Rightarrow> rs_entry list \<Rightarrow> nat option \<times> u64 \<times> u64 \<times> u64 \<times> u64 \<Rightarrow> nat option \<times> u64 \<times> u64 \<times> u64 \<times> u64" where
  "fingerprint_shadow tag owner fp i [] acc = acc"
| "fingerprint_shadow tag owner fp i (e # es) (result, checks, matches, false_pos, true_pos) =
     (if \<not> re_valid e then fingerprint_shadow tag owner fp (Suc i) es (result, checks, matches, false_pos, true_pos)
      else let hit = (re_tag e = tag \<and> re_owner e = owner);
               fp_match = (re_fingerprint e = fp)
           in fingerprint_shadow tag owner fp (Suc i) es
                (if hit then Some i else result, add64 checks 1, if fp_match then add64 matches 1 else matches,
                 if fp_match \<and> \<not> hit then add64 false_pos 1 else false_pos, if fp_match \<and> hit then add64 true_pos 1 else true_pos))"

definition findEntryWithFingerprintShadow :: "rs_set \<Rightarrow> u64 \<Rightarrow> u64 \<Rightarrow> 8 word \<Rightarrow> nat option \<times> u64 \<times> u64 \<times> u64 \<times> u64" where
  "findEntryWithFingerprintShadow s tag owner fp = fingerprint_shadow tag owner fp 0 (st_entries s) (None, 0, 0, 0, 0)"

text \<open>The valid way with the smallest counter, the first one among equals.\<close>

fun rs_lru_scan :: "nat \<Rightarrow> rs_entry list \<Rightarrow> nat option \<Rightarrow> u64 \<Rightarrow> nat option" where
  "rs_lru_scan i [] victim min_lru = victim"
| "rs_lru_scan i (e # es) victim min_lru =
     (if re_valid e \<and> re_lru_counter e < min_lru then rs_lru_scan (Suc i) es (Some i) (re_lru_counter e) else rs_lru_scan (Suc i) es victim min_lru)"

definition findLRUVictim :: "rs_set \<Rightarrow> nat option" where
  "findLRUVictim s = rs_lru_scan 0 (st_entries s) None (2 ^ 64 - 1)"

definition touch_way :: "rs_set \<Rightarrow> nat \<Rightarrow> rs_set" where
  "touch_way s w =
     (let c = add64 (st_global_lru_counter s) 1; e = st_entries s ! w in
      s\<lparr>st_global_lru_counter := c,
        st_entries := (st_entries s)[w := e\<lparr>re_lru_counter := c, re_reuse_count := add64 (re_reuse_count e) 1\<rparr>]\<rparr>)"

definition fill_way :: "rs_set \<Rightarrow> nat \<Rightarrow> u64 \<Rightarrow> u64 \<Rightarrow> 8 word \<Rightarrow> rs_set" where
  "fill_way s w tag owner fp =
     (let c = add64 (st_global_lru_counter s) 1 in
      s\<lparr>st_global_lru_counter := c,
        st_entries := (st_entries s)[w := \<lparr> re_valid = True, re_tag = tag, re_fingerprint = fp, re_owner = owner,
                                            re_reuse_count = 0, re_lru_counter = c \<rparr>]\<rparr>)"

text \<open>
  The result of an insertion: success, eviction with the tag and the owner of the
  victim, whether the preferred way was used, whether the page was there already,
  whether a free way was used; then the way.
\<close>

record ins_result =
  ir_success :: bool
  ir_evicted :: bool
  ir_evicted_tag :: u64
  ir_evicted_owner :: u64
  ir_used_preferred :: bool
  ir_was_hit :: bool
  ir_used_free_way :: bool
  ir_used_way :: "nat option"

definition ins_failed :: ins_result where
  "ins_failed = \<lparr> ir_success = False, ir_evicted = False, ir_evicted_tag = 0, ir_evicted_owner = 0,
     ir_used_preferred = False, ir_was_hit = False, ir_used_free_way = False, ir_used_way = None \<rparr>"

definition rs_insert :: "rs_set \<Rightarrow> u64 \<Rightarrow> u64 \<Rightarrow> 8 word \<Rightarrow> bool \<Rightarrow> int \<Rightarrow> ins_result \<times> rs_set" where
  "rs_insert s tag owner fp force_evict preferred_way =
     (case findEntry s tag owner of
        Some w \<Rightarrow> (ins_failed\<lparr>ir_success := True, ir_was_hit := True, ir_used_way := Some w\<rparr>, touch_way s w)
      | None \<Rightarrow>
          if 0 \<le> preferred_way \<and> preferred_way < int (length (st_entries s)) \<and> \<not> re_valid (st_entries s ! nat preferred_way)
          then (ins_failed\<lparr>ir_success := True, ir_used_preferred := True, ir_used_free_way := True, ir_used_way := Some (nat preferred_way)\<rparr>,
                fill_way s (nat preferred_way) tag owner fp)
          else (case findFreeWay s of
                  Some w \<Rightarrow> (ins_failed\<lparr>ir_success := True, ir_used_free_way := True, ir_used_way := Some w\<rparr>, fill_way s w tag owner fp)
                | None \<Rightarrow>
                    if \<not> force_evict then (ins_failed, s)
                    else (case findLRUVictim s of
                            None \<Rightarrow> (ins_failed, s)
                          | Some w \<Rightarrow>
                              (ins_failed\<lparr>ir_success := True, ir_evicted := True, ir_evicted_tag := re_tag (st_entries s ! w),
                                          ir_evicted_owner := re_owner (st_entries s ! w), ir_used_way := Some w\<rparr>,
                               fill_way s w tag owner fp))))"

text \<open>\<open>tryInsertAtWay\<close>: success, whether it was a hit, and the way.\<close>

definition tryInsertAtWay :: "rs_set \<Rightarrow> u64 \<Rightarrow> u64 \<Rightarrow> 8 word \<Rightarrow> int \<Rightarrow> (bool \<times> bool \<times> nat option) \<times> rs_set" where
  "tryInsertAtWay s tag owner fp way =
     (case findEntry s tag owner of
        Some w \<Rightarrow> ((True, True, Some w), touch_way s w)
      | None \<Rightarrow>
          if way < 0 \<or> int (length (st_entries s)) \<le> way then ((False, False, None), s)
          else if re_valid (st_entries s ! nat way) then ((False, False, None), s)
          else ((True, False, Some (nat way)), fill_way s (nat way) tag owner fp))"

definition touchEntry :: "rs_set \<Rightarrow> int \<Rightarrow> rs_set" where
  "touchEntry s way = (if 0 \<le> way \<and> way < int (length (st_entries s)) \<and> re_valid (st_entries s ! nat way) then touch_way s (nat way) else s)"

definition countValid :: "rs_set \<Rightarrow> nat" where
  "countValid s = length (filter re_valid (st_entries s))"

section \<open>Segments\<close>

record region_pref =
  rp_way :: int
  rp_failures :: nat
  rp_successes :: nat
  rp_total_allocations :: u64
  rp_rle_misses :: u64

definition region_pref_new :: region_pref where
  "region_pref_new = \<lparr> rp_way = -1, rp_failures = 0, rp_successes = 0, rp_total_allocations = 0, rp_rle_misses = 0 \<rparr>"

record rest_seg =
  rs_page_size_bits :: nat
  rs_associativity :: nat
  rs_num_sets :: nat
  rs_sets :: "rs_set list"
  rs_base_physical_address :: u64
  rs_fingerprint_bits :: nat
  rs_region_way_pref :: "u64 \<Rightarrow> region_pref option"
  rs_free_sets_per_way :: "nat list"
  rs_global_way :: nat
  rs_congestion_free_frac :: rat
  rs_rotate_cooldown :: nat
  rs_rotate_cooldown_max :: nat
  rs_way_tables :: way_mgr

text \<open>The division by the number of bytes of a set is the only one that can fail; the cast to 32 bits keeps the low bits.\<close>

definition rs_splitAddress :: "rest_seg \<Rightarrow> u64 \<Rightarrow> u64 \<times> nat" where
  "rs_splitAddress rs address =
     (let page_num = drop_bit (rs_page_size_bits rs) address;
          tag = page_num div rs_num_sets rs;
          raw_index = page_num mod rs_num_sets rs
      in (tag, (raw_index XOR (tag mod 2 ^ 32 mod rs_num_sets rs)) mod rs_num_sets rs))"

definition reconstructAddress :: "rest_seg \<Rightarrow> u64 \<Rightarrow> nat \<Rightarrow> u64" where
  "reconstructAddress rs tag set_index =
     (let raw_index = (set_index XOR (tag mod 2 ^ 32 mod rs_num_sets rs)) mod rs_num_sets rs;
          page_num = add64 (mul64 tag (rs_num_sets rs)) raw_index
      in push_bit (rs_page_size_bits rs) page_num mod 2 ^ 64)"

text \<open>The addresses with which the constructor tests that the split can be undone; it throws when one fails.\<close>

definition verifyIndexingLogic :: "rest_seg \<Rightarrow> bool" where
  "verifyIndexingLogic rs =
     list_all (\<lambda>va. case rs_splitAddress rs va of (tag, s) \<Rightarrow>
         reconstructAddress rs tag s = push_bit (rs_page_size_bits rs) (drop_bit (rs_page_size_bits rs) va))
       [0x12345678000, 0xABCDE000, 0, 0x7FFFFFFFFFFF000,
        mul64 (2 ^ rs_page_size_bits rs) (rs_num_sets rs), mul64 (2 ^ rs_page_size_bits rs) ((rs_num_sets rs + 1) mod 2 ^ 32)]"

definition rest_seg_new :: "u64 \<Rightarrow> nat \<Rightarrow> nat \<Rightarrow> nat \<Rightarrow> rest_seg outcome" where
  "rest_seg_new size_mb page_size_bits assoc fingerprint_bits =
     (let size_bytes = mul64 (mul64 size_mb 1024) 1024;
          per_set = mul64 assoc (2 ^ page_size_bits) in
      if per_set = 0 then Inl Undefined_Behaviour
      else let num_sets = size_bytes div per_set mod 2 ^ 32;
               rs = \<lparr> rs_page_size_bits = page_size_bits, rs_associativity = assoc, rs_num_sets = num_sets,
                      rs_sets = replicate num_sets (rs_set_new assoc), rs_base_physical_address = 0, rs_fingerprint_bits = fingerprint_bits,
                      rs_region_way_pref = (\<lambda>_. None), rs_free_sets_per_way = replicate assoc num_sets, rs_global_way = 0,
                      rs_congestion_free_frac = 1 / 10, rs_rotate_cooldown = 0, rs_rotate_cooldown_max = 1024,
                      rs_way_tables = way_mgr_new page_size_bits assoc \<rparr>
           in if num_sets = 0 then Inl Undefined_Behaviour
              else if verifyIndexingLogic rs then Inr rs else Inl Assertion_Failed)"

section \<open>Operations of a segment\<close>

definition set_of :: "rest_seg \<Rightarrow> nat \<Rightarrow> rs_set" where
  "set_of rs i = rs_sets rs ! i"

definition put_set :: "rest_seg \<Rightarrow> nat \<Rightarrow> rs_set \<Rightarrow> rest_seg" where
  "put_set rs i s = rs\<lparr>rs_sets := (rs_sets rs)[i := s]\<rparr>"

text \<open>The owner of a page is the number of the application plus one.\<close>

definition lookupWay :: "rest_seg \<Rightarrow> u64 \<Rightarrow> nat \<Rightarrow> nat option" where
  "lookupWay rs address app = (case rs_splitAddress rs address of (tag, i) \<Rightarrow> findEntry (set_of rs i) tag (app + 1))"

definition inRestSeg :: "rest_seg \<Rightarrow> u64 \<Rightarrow> nat \<Rightarrow> bool \<times> rest_seg" where
  "inRestSeg rs address app =
     (case rs_splitAddress rs address of (tag, i) \<Rightarrow>
        (case findEntryWithFingerprintShadow (set_of rs i) tag (app + 1) (computeFingerprint tag (rs_fingerprint_bits rs)) of
           (Some w, _) \<Rightarrow> (True, put_set rs i (touchEntry (set_of rs i) (int w)))
         | (None, _) \<Rightarrow> (False, rs)))"

definition lookupWayRadix :: "rest_seg \<Rightarrow> u64 \<Rightarrow> nat \<Rightarrow> (bool \<times> int) \<times> rest_seg" where
  "lookupWayRadix rs address app =
     (case lookup_way (rs_way_tables rs) (drop_bit (rs_page_size_bits rs) address) app of (r, wm) \<Rightarrow> (r, rs\<lparr>rs_way_tables := wm\<rparr>))"

definition touchWayLRU :: "rest_seg \<Rightarrow> u64 \<Rightarrow> int \<Rightarrow> rest_seg" where
  "touchWayLRU rs address way = (case rs_splitAddress rs address of (tag, i) \<Rightarrow> put_set rs i (touchEntry (set_of rs i) way))"

text \<open>Sets and ways are multiplied in 32 bits; the frame number is in units of 4 KB.\<close>

definition calculatePPNFromWay :: "rest_seg \<Rightarrow> u64 \<Rightarrow> nat \<Rightarrow> u64" where
  "calculatePPNFromWay rs address way =
     (case rs_splitAddress rs address of (tag, i) \<Rightarrow>
        add64 (rs_base_physical_address rs) ((i * rs_associativity rs + way) * 2 ^ (rs_page_size_bits rs - 12) mod 2 ^ 32))"

definition calculatePhysicalAddress :: "rest_seg \<Rightarrow> u64 \<Rightarrow> nat \<Rightarrow> u64" where
  "calculatePhysicalAddress rs address app =
     (case rs_splitAddress rs address of (tag, i) \<Rightarrow>
        (case findEntry (set_of rs i) tag (app + 1) of
           None \<Rightarrow> minus1_64
         | Some way \<Rightarrow> add64 (rs_base_physical_address rs) ((i * rs_associativity rs + way) * 2 ^ (rs_page_size_bits rs - 12) mod 2 ^ 32)))"

definition calculatePhysicalAddressForWay :: "rest_seg \<Rightarrow> u64 \<Rightarrow> nat \<Rightarrow> u64" where
  "calculatePhysicalAddressForWay rs address way =
     (push_bit 12 (calculatePPNFromWay rs address way) mod 2 ^ 64) OR take_bit (rs_page_size_bits rs) address"

definition findMatchingFingerprints :: "rest_seg \<Rightarrow> u64 \<Rightarrow> 8 word \<Rightarrow> nat list" where
  "findMatchingFingerprints rs address fp =
     (case rs_splitAddress rs address of (tag, i) \<Rightarrow>
        filter (\<lambda>w. re_valid (st_entries (set_of rs i) ! w) \<and> re_fingerprint (st_entries (set_of rs i) ! w) = fp) [0..<rs_associativity rs])"

definition computeLookupFingerprint :: "rest_seg \<Rightarrow> u64 \<Rightarrow> 8 word" where
  "computeLookupFingerprint rs address = (case rs_splitAddress rs address of (tag, i) \<Rightarrow> computeFingerprint tag (rs_fingerprint_bits rs))"

text \<open>The counts of the constructor kept up to date, compared with a scan of all sets.\<close>

definition free_sets :: "rest_seg \<Rightarrow> nat \<Rightarrow> nat" where
  "free_sets rs w = length (filter (\<lambda>s. \<not> re_valid (st_entries s ! w)) (rs_sets rs))"

definition verifyFreeSetsPerWay :: "rest_seg \<Rightarrow> bool" where
  "verifyFreeSetsPerWay rs = list_all (\<lambda>w. rs_free_sets_per_way rs ! w = free_sets rs w) [0..<rs_associativity rs]"

definition countValidEntries :: "rest_seg \<Rightarrow> nat" where
  "countValidEntries rs = sum_list (map countValid (rs_sets rs))"

subsection \<open>Allocation\<close>

text \<open>
  The way with the most free sets, where the next way after the current one wins a tie.
  The fractions are doubles in the code; fractions with denominators below
  \<open>2 ^ 32\<close> compare with one tenth as their roundings do.
\<close>

fun rotate_scan :: "nat list \<Rightarrow> nat \<Rightarrow> nat \<Rightarrow> nat list \<Rightarrow> nat \<Rightarrow> nat \<Rightarrow> nat" where
  "rotate_scan fs gw assoc [] best best_free = best"
| "rotate_scan fs gw assoc (w # ws) best best_free =
     (if best_free < fs ! w then rotate_scan fs gw assoc ws w (fs ! w)
      else if fs ! w = best_free \<and> w \<noteq> gw \<and> w = (gw + 1) mod assoc then rotate_scan fs gw assoc ws w best_free
      else rotate_scan fs gw assoc ws best best_free)"

definition maybeRotateGlobalWay :: "rest_seg \<Rightarrow> rest_seg" where
  "maybeRotateGlobalWay rs =
     (if 0 < rs_rotate_cooldown rs then rs\<lparr>rs_rotate_cooldown := rs_rotate_cooldown rs - 1\<rparr>
      else let gw = rs_global_way rs; fs = rs_free_sets_per_way rs in
           if rs_congestion_free_frac rs \<le> of_nat (fs ! gw) / of_nat (rs_num_sets rs) then rs
           else let best = rotate_scan fs gw (rs_associativity rs) [0..<rs_associativity rs] gw (fs ! gw) in
                if best \<noteq> gw then rs\<lparr>rs_global_way := best, rs_rotate_cooldown := rs_rotate_cooldown_max rs\<rparr> else rs)"

text \<open>
  The choice of the way: the preferred way of the region, the global way, then any
  free way or the victim. The flag says whether the preferred way of the region served.
\<close>

definition try_result :: "bool \<Rightarrow> nat option \<Rightarrow> ins_result" where
  "try_result was_hit way = ins_failed\<lparr>ir_success := True, ir_was_hit := was_hit, ir_used_free_way := \<not> was_hit, ir_used_way := way\<rparr>"

definition place_page :: "nat \<Rightarrow> rs_set \<Rightarrow> u64 \<Rightarrow> u64 \<Rightarrow> 8 word \<Rightarrow> bool \<Rightarrow> int \<Rightarrow> (ins_result \<times> bool) \<times> rs_set" where
  "place_page global_way s tag owner fp force_evict region_pref_way =
     (case (if 0 \<le> region_pref_way then tryInsertAtWay s tag owner fp region_pref_way else ((False, False, None), s)) of
        ((True, was_hit, way), s1) \<Rightarrow> ((try_result was_hit way, True), s1)
      | ((False, _, _), s1) \<Rightarrow>
          (case (if region_pref_way \<noteq> int global_way then tryInsertAtWay s1 tag owner fp (int global_way) else ((False, False, None), s1)) of
             ((True, was_hit, way), s2) \<Rightarrow> ((try_result was_hit way, False), s2)
           | ((False, _, _), s2) \<Rightarrow> (case rs_insert s2 tag owner fp force_evict (-1) of (r, s3) \<Rightarrow> ((r, False), s3))))"

definition pref_failed :: "rest_seg \<Rightarrow> u64 \<Rightarrow> rest_seg" where
  "pref_failed rs region_id =
     (let pref = (case rs_region_way_pref rs region_id of None \<Rightarrow> region_pref_new | Some p \<Rightarrow> p);
          failures = (rp_failures pref + 1) mod 2 ^ 32;
          pref1 = (if 32 \<le> failures then pref\<lparr>rp_way := -1, rp_failures := 0\<rparr> else pref\<lparr>rp_failures := failures\<rparr>)
      in rs\<lparr>rs_region_way_pref := (rs_region_way_pref rs)(region_id \<mapsto> pref1)\<rparr>)"

definition pref_learned :: "rest_seg \<Rightarrow> u64 \<Rightarrow> bool \<Rightarrow> int \<Rightarrow> rest_seg" where
  "pref_learned rs region_id from_pref way =
     (let pref = (case rs_region_way_pref rs region_id of None \<Rightarrow> region_pref_new | Some p \<Rightarrow> p)
      in rs\<lparr>rs_region_way_pref := (rs_region_way_pref rs)(region_id \<mapsto>
           pref\<lparr>rp_total_allocations := add64 (rp_total_allocations pref) 1,
                rp_rle_misses := (if from_pref then rp_rle_misses pref else add64 (rp_rle_misses pref) 1),
                rp_way := way, rp_successes := (rp_successes pref + 1) mod 2 ^ 32, rp_failures := 0\<rparr>)\<rparr>)"

definition take_free_way :: "rest_seg \<Rightarrow> nat \<Rightarrow> rest_seg" where
  "take_free_way rs w =
     (if w < rs_associativity rs \<and> 0 < rs_free_sets_per_way rs ! w
      then rs\<lparr>rs_free_sets_per_way := (rs_free_sets_per_way rs)[w := rs_free_sets_per_way rs ! w - 1]\<rparr> else rs)"

text \<open>Steps C to E of a new allocation.\<close>

definition account_new :: "rest_seg \<Rightarrow> u64 \<Rightarrow> ins_result \<Rightarrow> bool \<Rightarrow> nat \<Rightarrow> rest_seg" where
  "account_new rs region_id r from_pref way =
     (let rs1 = (if ir_used_free_way r then take_free_way rs way else rs);
          rs2 = (if rs_page_size_bits rs = 12 then pref_learned rs1 region_id from_pref (int way) else rs1)
      in maybeRotateGlobalWay rs2)"

text \<open>\<open>allocate\<close> returns success, whether a page was evicted, and its virtual address.\<close>

definition rs_allocate :: "rest_seg \<Rightarrow> phys_alloc \<Rightarrow> u64 \<Rightarrow> nat \<Rightarrow> bool \<Rightarrow> ((bool \<times> bool \<times> u64) \<times> rest_seg \<times> phys_alloc) outcome" where
  "rs_allocate rs pa address app force_evict =
     (case rs_splitAddress rs address of (tag, i) \<Rightarrow>
        let vpn = drop_bit (rs_page_size_bits rs) address;
            region_id = drop_bit 18 vpn;
            use_pref = (rs_page_size_bits rs = 12);
            pref_way = (if use_pref then (case rs_region_way_pref rs region_id of None \<Rightarrow> -1 | Some p \<Rightarrow> rp_way p) else -1)
        in case place_page (rs_global_way rs) (set_of rs i) tag (app + 1) (computeFingerprint tag (rs_fingerprint_bits rs)) force_evict pref_way of
             ((r, from_pref), s) \<Rightarrow>
               let rs1 = put_set rs i s;
                   rs2 = (if use_pref \<and> \<not> from_pref \<and> 0 \<le> pref_way then pref_failed rs1 region_id else rs1)
               in if \<not> ir_success r then Inr ((False, False, 0), rs2, pa)
                  else let way = the (ir_used_way r);
                           rs3 = (if ir_was_hit r then rs2 else account_new rs2 region_id r from_pref way)
                       in if ir_evicted r
                          then let evicted_addr = reconstructAddress rs3 (ir_evicted_tag r) i;
                                   wm = clear_mapping (rs_way_tables rs3) (drop_bit (rs_page_size_bits rs) evicted_addr) (ir_evicted_owner r - 1)
                               in map_sum id (\<lambda>(wm1, pa1). ((True, True, evicted_addr), rs3\<lparr>rs_way_tables := wm1\<rparr>, pa1))
                                    (set_mapping wm pa vpn app (int way))
                          else if \<not> ir_was_hit r
                          then map_sum id (\<lambda>(wm1, pa1). ((True, False, 0), rs3\<lparr>rs_way_tables := wm1\<rparr>, pa1))
                                 (set_mapping (rs_way_tables rs3) pa vpn app (int way))
                          else Inr ((True, False, 0), rs3, pa))"

section \<open>What a set holds\<close>

text \<open>The tag and the owner of each way, \<open>None\<close> for a free way.\<close>

definition way_key :: "rs_entry \<Rightarrow> (u64 \<times> u64) option" where
  "way_key e = (if re_valid e then Some (re_tag e, re_owner e) else None)"

definition keys :: "rs_set \<Rightarrow> (u64 \<times> u64) option list" where
  "keys s = map way_key (st_entries s)"

lemma find_index_cong: "(\<And>x. x \<in> set xs \<Longrightarrow> P x = Q (f x)) \<Longrightarrow> find_index P xs = find_index Q (map f xs)"
  by (induction xs) auto

lemma keys_simps [simp]: "length (keys s) = length (st_entries s)" "w < length (st_entries s) \<Longrightarrow> keys s ! w = way_key (st_entries s ! w)"
  by (simp_all add: keys_def)

lemma findEntry_keys: "findEntry s tag owner = find_index ((=) (Some (tag, owner))) (keys s)"
  unfolding findEntry_def keys_def by (rule find_index_cong) (auto simp: way_key_def)

lemma findFreeWay_keys: "findFreeWay s = find_index ((=) None) (keys s)"
  unfolding findFreeWay_def keys_def by (rule find_index_cong) (auto simp: way_key_def)

lemma keys_touch [simp]: "keys (touch_way s w) = keys s"
proof (cases "w < length (st_entries s)")
  case True
  let ?e = "st_entries s ! w"
  have "way_key (?e\<lparr>re_lru_counter := c, re_reuse_count := n\<rparr>) = map way_key (st_entries s) ! w" for c n using True by (simp add: way_key_def)
  then show ?thesis by (simp add: keys_def touch_way_def Let_def map_update)
qed (simp add: keys_def touch_way_def Let_def list_update_beyond)

lemma keys_fill [simp]: "keys (fill_way s w tag owner fp) = (keys s)[w := Some (tag, owner)]"
  by (simp add: keys_def fill_way_def Let_def map_update way_key_def)

lemma keys_touchEntry [simp]: "keys (touchEntry s w) = keys s"
  by (simp add: touchEntry_def)

lemma length_entries_keys: "keys s' = ks \<Longrightarrow> length (st_entries s') = length ks"
  using keys_simps(1) [of s'] by simp

lemma find_index_eq: "find_index ((=) x) xs = None \<longleftrightarrow> x \<notin> set xs"
  by (auto simp: find_index_None_iff)

lemma find_index_eqD: "find_index ((=) x) xs = Some w \<Longrightarrow> w < length xs \<and> xs ! w = x"
  by (auto dest: find_index_SomeD)

text \<open>The first and the last occurrence are the same when no page is in two ways.\<close>

definition keys_distinct :: "(u64 \<times> u64) option list \<Rightarrow> bool" where
  "keys_distinct ks \<longleftrightarrow> distinct (filter (\<lambda>k. k \<noteq> None) ks)"

lemma keys_distinctD: "keys_distinct ks \<Longrightarrow> w < length ks \<Longrightarrow> w' < length ks \<Longrightarrow> ks ! w = Some k \<Longrightarrow> ks ! w' = Some k \<Longrightarrow> w = w'"
proof (induction ks arbitrary: w w')
  case (Cons x ks)
  have "Some k \<notin> set ks" if "x = Some k" using Cons.prems(1) that by (auto simp: keys_distinct_def)
  moreover have "keys_distinct ks" using Cons.prems(1) by (auto simp: keys_distinct_def split: if_splits)
  ultimately show ?case using Cons.prems Cons.IH by (cases w; cases w') (auto simp: in_set_conv_nth)
qed simp

lemma find_key:
  assumes "keys_distinct ks"
  shows "find_index ((=) (Some k)) ks = Some w \<longleftrightarrow> w < length ks \<and> ks ! w = Some k"
proof
  assume "w < length ks \<and> ks ! w = Some k"
  moreover from this obtain w' where "find_index ((=) (Some k)) ks = Some w'"
    by (metis find_index_eq nth_mem option.exhaust)
  ultimately show "find_index ((=) (Some k)) ks = Some w" using keys_distinctD [OF assms] find_index_eqD by metis
qed (rule find_index_eqD)

lemma keys_distinct_iff: "keys_distinct ks \<longleftrightarrow> (\<forall>w w' k. w < length ks \<longrightarrow> w' < length ks \<longrightarrow> ks ! w = Some k \<longrightarrow> ks ! w' = Some k \<longrightarrow> w = w')"
proof
  assume r: "\<forall>w w' k. w < length ks \<longrightarrow> w' < length ks \<longrightarrow> ks ! w = Some k \<longrightarrow> ks ! w' = Some k \<longrightarrow> w = w'"
  then show "keys_distinct ks"
  proof (induction ks)
    case (Cons x ks)
    have "keys_distinct ks" by (rule Cons.IH) (use Cons.prems in \<open>metis Suc_inject Suc_mono length_Cons nth_Cons_Suc\<close>)
    moreover have "x \<noteq> None \<Longrightarrow> x \<notin> set ks"
      using Cons.prems by (force simp: in_set_conv_nth dest: spec [of _ 0])
    ultimately show ?case by (auto simp: keys_distinct_def)
  qed (simp add: keys_distinct_def)
qed (use keys_distinctD in blast)

lemma keys_distinct_update: "keys_distinct ks \<Longrightarrow> Some k \<notin> set ks \<Longrightarrow> keys_distinct (ks[w := Some k])"
  unfolding keys_distinct_iff
proof (intro allI impI)
  fix v v' k'
  assume d: "\<forall>w w' k. w < length ks \<longrightarrow> w' < length ks \<longrightarrow> ks ! w = Some k \<longrightarrow> ks ! w' = Some k \<longrightarrow> w = w'" and n: "Some k \<notin> set ks"
    and v: "v < length (ks[w := Some k])" "v' < length (ks[w := Some k])" "ks[w := Some k] ! v = Some k'" "ks[w := Some k] ! v' = Some k'"
  have "u < length ks \<Longrightarrow> ks ! u \<noteq> Some k" for u using n nth_mem by metis
  then show "v = v'" using d [THEN spec, of v, THEN spec, of v', THEN spec, of k'] v by (cases "v = w"; cases "v' = w") (auto simp: nth_list_update)
qed

text \<open>The lookup after a way has been filled.\<close>

lemma find_key_update:
  assumes "keys_distinct ks" "Some k \<notin> set ks" "w < length ks"
  shows "find_index ((=) (Some k')) (ks[w := Some k]) =
    (if k' = k then Some w else if ks ! w = Some k' then None else find_index ((=) (Some k')) ks)"
proof -
  have d: "keys_distinct (ks[w := Some k])" by (rule keys_distinct_update [OF assms(1,2)])
  have n: "find_index ((=) (Some k')) (ks[w := Some k]) = None \<longleftrightarrow> (\<forall>v < length ks. (ks[w := Some k]) ! v \<noteq> Some k')"
    by (auto simp: find_index_eq in_set_conv_nth)
  have nk: "v < length ks \<Longrightarrow> ks ! v \<noteq> Some k" for v using assms(2) nth_mem by metis
  consider "k' = k" | "k' \<noteq> k" "ks ! w = Some k'" | "k' \<noteq> k" "ks ! w \<noteq> Some k'" by blast
  then show ?thesis
  proof cases
    case 1
    then show ?thesis using find_key [OF d, of k' w] assms(3) by simp
  next
    case 2
    have "(ks[w := Some k]) ! v \<noteq> Some k'" if "v < length ks" for v
      using keys_distinctD [OF assms(1) assms(3) that 2(2)] 2(1) by (cases "v = w") (auto simp: assms(3))
    with n 2 show ?thesis by simp
  next
    case 3
    show ?thesis
    proof (cases "find_index ((=) (Some k')) ks")
      case None
      then have "ks ! v \<noteq> Some k'" if "v < length ks" for v using nth_mem [OF that] unfolding find_index_eq by metis
      then have "(ks[w := Some k]) ! v \<noteq> Some k'" if "v < length ks" for v using that 3(1) by (cases "v = w") simp_all
      with n None 3 show ?thesis by simp
    next
      case (Some u)
      then have "u < length ks" "ks ! u = Some k'" "u \<noteq> w" using find_index_eqD [OF Some] 3 by auto
      then have "find_index ((=) (Some k')) (ks[w := Some k]) = Some u" by (simp add: find_key [OF d])
      with Some 3 show ?thesis by simp
    qed
  qed
qed

lemma shadow_step: "\<exists>acc'. fingerprint_shadow tag owner fp i (e # es) acc = fingerprint_shadow tag owner fp (Suc i) es acc' \<and>
    fst acc' = (if way_key e = Some (tag, owner) then Some i else fst acc)"
proof -
  obtain a b c d f where acc: "acc = (a, b, c, d, f)" by (cases acc)
  show ?thesis unfolding acc fingerprint_shadow.simps Let_def
    by (cases "re_valid e") (auto simp: way_key_def intro!: exI)
qed

lemma shadow_result:
  "keys_distinct (map way_key es) \<Longrightarrow>
   fst (fingerprint_shadow tag owner fp i es acc) = (case find_index ((=) (Some (tag, owner))) (map way_key es) of None \<Rightarrow> fst acc | Some w \<Rightarrow> Some (i + w))"
proof (induction es arbitrary: i acc)
  case (Cons e es)
  have d: "keys_distinct (map way_key es)" "way_key e = Some (tag, owner) \<Longrightarrow> find_index ((=) (Some (tag, owner))) (map way_key es) = None"
    using Cons.prems by (auto simp: keys_distinct_def find_index_eq split: if_splits)
  obtain acc' where s: "fingerprint_shadow tag owner fp i (e # es) acc = fingerprint_shadow tag owner fp (Suc i) es acc'"
    "fst acc' = (if way_key e = Some (tag, owner) then Some i else fst acc)" using shadow_step by blast
  show ?case unfolding s(1) Cons.IH [OF d(1)]
    using s(2) d(2) by (cases "find_index ((=) (Some (tag, owner))) (map way_key es)") auto
qed simp

lemma shadow_is_findEntry: "keys_distinct (keys s) \<Longrightarrow> fst (findEntryWithFingerprintShadow s tag owner fp) = findEntry s tag owner"
  by (simp add: findEntryWithFingerprintShadow_def findEntry_keys shadow_result keys_def split: option.splits)

section \<open>Insertion into a set\<close>

text \<open>A page is found, put into a free way, or put into the way of a victim of a full set.\<close>

definition placed :: "u64 \<times> u64 \<Rightarrow> (u64 \<times> u64) option list \<Rightarrow> bool \<Rightarrow> ins_result \<Rightarrow> (u64 \<times> u64) option list \<Rightarrow> bool" where
  "placed k ks force r ks' \<longleftrightarrow>
     (\<exists>w. ir_success r \<and> ir_used_way r = Some w \<and> w < length ks \<and>
        (ks ! w = Some k \<and> ir_was_hit r \<and> \<not> ir_evicted r \<and> ks' = ks \<or>
         Some k \<notin> set ks \<and> \<not> ir_was_hit r \<and> ks' = ks[w := Some k] \<and>
           (ks ! w = None \<and> \<not> ir_evicted r \<and> ir_used_free_way r \<or>
            None \<notin> set ks \<and> force \<and> ks ! w = Some (ir_evicted_tag r, ir_evicted_owner r) \<and> ir_evicted r \<and> \<not> ir_used_free_way r))) \<or>
     \<not> ir_success r \<and> \<not> ir_was_hit r \<and> ks' = ks \<and> Some k \<notin> set ks \<and> None \<notin> set ks"

lemma findEntry_SomeD: "findEntry s tag owner = Some u \<Longrightarrow> u < length (keys s) \<and> keys s ! u = Some (tag, owner)"
  unfolding findEntry_keys by (rule find_index_eqD)

lemma findFreeWay_SomeD: "findFreeWay s = Some u \<Longrightarrow> u < length (keys s) \<and> keys s ! u = None"
  unfolding findFreeWay_keys by (rule find_index_eqD)

lemma try_insert_placed:
  assumes "tryInsertAtWay s tag owner fp way = ((ok, hit, w), s')"
  shows "(ok \<longrightarrow> placed (tag, owner) (keys s) force (try_result hit w) (keys s')) \<and> (\<not> ok \<longrightarrow> s' = s)"
proof (cases "findEntry s tag owner")
  case (Some u)
  then have "u < length (keys s)" "keys s ! u = Some (tag, owner)" using findEntry_SomeD by blast+
  moreover have "ok" "hit" "w = Some u" "s' = touch_way s u" using assms Some by (simp_all add: tryInsertAtWay_def)
  ultimately show ?thesis by (simp add: placed_def try_result_def ins_failed_def del: keys_simps)
next
  case None
  then have "Some (tag, owner) \<notin> set (keys s)" by (simp add: findEntry_keys find_index_eq)
  with None assms show ?thesis
    by (auto simp: tryInsertAtWay_def placed_def try_result_def ins_failed_def way_key_def split: if_splits)
qed

lemma rs_lru_scan_Some: "rs_lru_scan i es v m = Some w \<Longrightarrow> v = Some w \<or> i \<le> w \<and> w < i + length es \<and> re_valid (es ! (w - i))"
proof (induction i es v m rule: rs_lru_scan.induct)
  case (2 i e es v m)
  show ?case
  proof (cases "re_valid e \<and> re_lru_counter e < m")
    case True
    then have "Some i = Some w \<or> Suc i \<le> w \<and> w < Suc i + length es \<and> re_valid (es ! (w - Suc i))" using "2.IH"(1) "2.prems" by simp
    moreover have "w - i = Suc (w - Suc i)" if "Suc i \<le> w" using that by simp
    ultimately show ?thesis using True by auto
  next
    case False
    then have "v = Some w \<or> Suc i \<le> w \<and> w < Suc i + length es \<and> re_valid (es ! (w - Suc i))" using "2.IH"(2) "2.prems" by (simp split: if_splits)
    moreover have "w - i = Suc (w - Suc i)" if "Suc i \<le> w" using that by simp
    ultimately show ?thesis by auto
  qed
qed simp

lemma rs_insert_placed:
  assumes "rs_insert s tag owner fp force pref = (r, s')"
  shows "placed (tag, owner) (keys s) force r (keys s')"
proof (cases "findEntry s tag owner")
  case (Some u)
  then have "u < length (keys s)" "keys s ! u = Some (tag, owner)" using findEntry_SomeD by blast+
  moreover have "r = ins_failed\<lparr>ir_success := True, ir_was_hit := True, ir_used_way := Some u\<rparr>" "s' = touch_way s u" using assms Some by (simp_all add: rs_insert_def)
  ultimately show ?thesis by (simp add: placed_def ins_failed_def del: keys_simps)
next
  case None
  then have n: "Some (tag, owner) \<notin> set (keys s)" by (simp add: findEntry_keys find_index_eq)
  show ?thesis
  proof (cases "0 \<le> pref \<and> pref < int (length (st_entries s)) \<and> \<not> re_valid (st_entries s ! nat pref)")
    case True
    with None assms n show ?thesis by (auto simp: rs_insert_def placed_def ins_failed_def way_key_def)
  next
    case nopref: False
    have a: "(case findFreeWay s of Some w \<Rightarrow> (ins_failed\<lparr>ir_success := True, ir_used_free_way := True, ir_used_way := Some w\<rparr>, fill_way s w tag owner fp)
        | None \<Rightarrow> if \<not> force then (ins_failed, s) else (case findLRUVictim s of None \<Rightarrow> (ins_failed, s)
            | Some w \<Rightarrow> (ins_failed\<lparr>ir_success := True, ir_evicted := True, ir_evicted_tag := re_tag (st_entries s ! w),
                  ir_evicted_owner := re_owner (st_entries s ! w), ir_used_way := Some w\<rparr>, fill_way s w tag owner fp))) = (r, s')"
      using assms unfolding rs_insert_def None option.case if_not_P [OF nopref] .
    show ?thesis
    proof (cases "findFreeWay s")
      case (Some w)
      then have "w < length (keys s)" "keys s ! w = None" using findFreeWay_SomeD by blast+
      with a Some n show ?thesis by (auto simp: placed_def ins_failed_def simp del: keys_simps)
    next
      case full: None
      then have f: "None \<notin> set (keys s)" by (simp add: findFreeWay_keys find_index_eq)
      show ?thesis
      proof (cases "force \<and> findLRUVictim s \<noteq> None")
        case True
        then obtain w where w: "findLRUVictim s = Some w" by auto
        then have "w < length (st_entries s)" "re_valid (st_entries s ! w)" using rs_lru_scan_Some [of 0 "st_entries s" None _ w] by (auto simp: findLRUVictim_def)
        with a full True w n f show ?thesis by (auto simp: placed_def ins_failed_def way_key_def)
      next
        case False
        with a full have "r = ins_failed" "s' = s" by (auto split: if_splits option.splits)
        with n f show ?thesis by (simp add: placed_def ins_failed_def)
      qed
    qed
  qed
qed

lemma place_page_placed:
  assumes "place_page gw s tag owner fp force pref = ((r, from_pref), s')"
  shows "placed (tag, owner) (keys s) force r (keys s')"
proof -
  obtain ok1 hit1 w1 s1 where 1: "(if 0 \<le> pref then tryInsertAtWay s tag owner fp pref else ((False, False, None), s)) = ((ok1, hit1, w1), s1)"
    by (metis prod.collapse)
  have p1: "ok1 \<Longrightarrow> placed (tag, owner) (keys s) force (try_result hit1 w1) (keys s1)" "\<not> ok1 \<Longrightarrow> s1 = s"
    using 1 try_insert_placed [of s tag owner fp pref ok1 hit1 w1 s1 force] by (auto split: if_splits)
  obtain ok2 hit2 w2 s2 where 2: "(if pref \<noteq> int gw then tryInsertAtWay s1 tag owner fp (int gw) else ((False, False, None), s1)) = ((ok2, hit2, w2), s2)"
    by (metis prod.collapse)
  have p2: "ok2 \<Longrightarrow> placed (tag, owner) (keys s1) force (try_result hit2 w2) (keys s2)" "\<not> ok2 \<Longrightarrow> s2 = s1"
    using 2 try_insert_placed [of s1 tag owner fp "int gw" ok2 hit2 w2 s2 force] by (auto split: if_splits)
  show ?thesis
  proof (cases ok1)
    case True
    with assms 1 p1(1) show ?thesis by (simp add: place_page_def)
  next
    case False
    then have s1: "s1 = s" by (rule p1(2))
    show ?thesis
    proof (cases ok2)
      case True
      with assms 1 2 [unfolded s1] p2(1) [unfolded s1] False s1 show ?thesis by (simp add: place_page_def)
    next
      case False2: False
      with assms 1 2 [unfolded s1] False s1 have "rs_insert s2 tag owner fp force (-1) = (r, s')" by (auto simp: place_page_def split: prod.splits)
      with rs_insert_placed p2(2) [OF False2] s1 show ?thesis by blast
    qed
  qed
qed

section \<open>Sets of pages\<close>

definition slot :: "nat \<Rightarrow> u64 \<Rightarrow> u64 \<times> nat" where
  "slot n vpn = (vpn div n, (vpn mod n XOR (vpn div n mod 2 ^ 32 mod n)) mod n)"

lemma rs_splitAddress_slot: "rs_splitAddress rs address = slot (rs_num_sets rs) (drop_bit (rs_page_size_bits rs) address)"
  by (simp add: rs_splitAddress_def slot_def Let_def)

lemma slot_pow2:
  assumes "k \<le> 32"
  shows "slot (2 ^ k) vpn = (drop_bit k vpn, take_bit k vpn XOR take_bit k (drop_bit k vpn))"
proof -
  have "drop_bit k vpn mod 2 ^ 32 mod 2 ^ k = take_bit k (drop_bit k vpn)"
    using assms by (simp only: take_bit_eq_mod [symmetric] take_bit_take_bit min_absorb1)
  then have "slot (2 ^ k) vpn = (drop_bit k vpn, take_bit k (take_bit k vpn XOR take_bit k (drop_bit k vpn)))"
    by (simp add: slot_def drop_bit_eq_div [symmetric] take_bit_eq_mod [symmetric])
  also have "take_bit k (take_bit k vpn XOR take_bit k (drop_bit k vpn)) = take_bit k vpn XOR take_bit k (drop_bit k vpn)" by (simp add: take_bit_xor)
  finally show ?thesis .
qed

lemma xor_cancel: "(a XOR b) XOR b = (a :: nat)"
  by (simp add: xor.assoc)

text \<open>Two pages with the same tag and the same set are the same page.\<close>

lemma slot_inj:
  assumes "k \<le> 32" "slot (2 ^ k) vpn = slot (2 ^ k) vpn'"
  shows "vpn = vpn'"
proof -
  have d: "drop_bit k vpn = drop_bit k vpn'" "take_bit k vpn XOR take_bit k (drop_bit k vpn) = take_bit k vpn' XOR take_bit k (drop_bit k vpn)"
    using assms(2) by (auto simp: slot_pow2 [OF assms(1)])
  from d(2) have "take_bit k vpn = take_bit k vpn'" by (metis xor_cancel)
  with d(1) show ?thesis by (metis bits_ident)
qed

lemma slot_less: "k \<le> 32 \<Longrightarrow> snd (slot (2 ^ k) vpn) < 2 ^ k"
  by (simp add: slot_def)

lemma reconstruct_slot:
  assumes n: "rs_num_sets rs = 2 ^ k" "k \<le> 32" and s: "slot (2 ^ k) vpn = (tag, i)" and v: "vpn < 2 ^ (48 - rs_page_size_bits rs)" "rs_page_size_bits rs \<le> 48"
  shows "reconstructAddress rs tag i = push_bit (rs_page_size_bits rs) vpn"
proof -
  have ti: "tag = drop_bit k vpn" "i = take_bit k vpn XOR take_bit k tag" using s by (auto simp: slot_pow2 [OF n(2)])
  have t32: "tag mod 2 ^ 32 mod 2 ^ k = take_bit k tag" using n(2) by (simp only: take_bit_eq_mod [symmetric] take_bit_take_bit min_absorb1)
  have "(i XOR (tag mod 2 ^ 32 mod 2 ^ k)) mod 2 ^ k = take_bit k (take_bit k vpn)" unfolding t32 ti(2) xor_cancel by (simp add: take_bit_eq_mod)
  then have raw: "(i XOR (tag mod 2 ^ 32 mod 2 ^ k)) mod 2 ^ k = take_bit k vpn" by simp
  have "(2 :: nat) ^ (48 - rs_page_size_bits rs) * 2 ^ rs_page_size_bits rs = 2 ^ 48" using v(2) by (simp add: power_add [symmetric])
  then have pv: "vpn * 2 ^ rs_page_size_bits rs < 2 ^ 48" using v(1) by (metis mult_less_mono1 zero_less_numeral zero_less_power)
  moreover have "vpn \<le> vpn * 2 ^ rs_page_size_bits rs" by simp
  ultimately have small: "vpn < 2 ^ 48" by (rule le_less_trans [rotated])
  have e: "tag * 2 ^ k + take_bit k vpn = vpn" using bits_ident [of k vpn] by (simp add: ti(1) push_bit_eq_mult)
  have "vpn < 2 ^ 64" by (rule less_trans [OF small]) simp
  moreover have "tag * 2 ^ k \<le> vpn" using e by linarith
  ultimately have "tag * 2 ^ k < 2 ^ 64" "tag * 2 ^ k + take_bit k vpn < 2 ^ 64" using e by (auto intro: le_less_trans)
  with e have "add64 (mul64 tag (2 ^ k)) (take_bit k vpn) = vpn" by (simp add: mul64_exact add64_exact)
  then show ?thesis using pv unfolding reconstructAddress_def Let_def n(1) raw by (simp add: push_bit_eq_mult)
qed

section \<open>The invariant\<close>

text \<open>The configurations for which the segment works: powers of two.\<close>

definition rs_shape :: "rest_seg \<Rightarrow> bool" where
  "rs_shape rs \<longleftrightarrow> (\<exists>k \<le> 32. rs_num_sets rs = 2 ^ k) \<and> (\<exists>a \<le> 16. rs_associativity rs = 2 ^ a) \<and>
     12 \<le> rs_page_size_bits rs \<and> rs_page_size_bits rs \<le> 48 \<and> length (rs_sets rs) = rs_num_sets rs \<and>
     (\<forall>s \<in> set (rs_sets rs). length (st_entries s) = rs_associativity rs) \<and> length (rs_free_sets_per_way rs) = rs_associativity rs \<and>
     wm_page_size_bits (rs_way_tables rs) = rs_page_size_bits rs \<and> wm_associativity (rs_way_tables rs) = rs_associativity rs"

definition page_ok :: "rest_seg \<Rightarrow> u64 \<Rightarrow> bool" where
  "page_ok rs vpn \<longleftrightarrow> vpn < 2 ^ (48 - rs_page_size_bits rs)"

text \<open>The way of a page according to the tags.\<close>

definition resident :: "rest_seg \<Rightarrow> nat \<Rightarrow> u64 \<Rightarrow> nat option" where
  "resident rs app vpn = (case slot (rs_num_sets rs) vpn of (tag, i) \<Rightarrow> find_index ((=) (Some (tag, app + 1))) (keys (set_of rs i)))"

definition rs_inv :: "rest_seg \<Rightarrow> bool" where
  "rs_inv rs \<longleftrightarrow> rs_shape rs \<and> wm_wf (rs_way_tables rs) \<and>
     (\<forall>i < rs_num_sets rs. keys_distinct (keys (set_of rs i))) \<and>
     (\<forall>i < rs_num_sets rs. \<forall>tag owner. Some (tag, owner) \<in> set (keys (set_of rs i)) \<longrightarrow>
        0 < owner \<and> (\<exists>vpn. page_ok rs vpn \<and> slot (rs_num_sets rs) vpn = (tag, i))) \<and>
     (\<forall>app vpn. page_ok rs vpn \<longrightarrow> wm_map (rs_way_tables rs) app vpn = map_option int (resident rs app vpn)) \<and>
     (\<forall>w < rs_associativity rs. rs_free_sets_per_way rs ! w = free_sets rs w)"

lemma lookupWay_resident: "lookupWay rs address app = resident rs app (drop_bit (rs_page_size_bits rs) address)"
  by (simp add: lookupWay_def resident_def rs_splitAddress_slot findEntry_keys split: prod.splits)

lemma floor_log2_power [simp]: "floor_log2 (2 ^ a) = a"
proof (induction a)
  case (Suc a)
  have "\<not> 2 * (2 :: nat) ^ a \<le> 1" using one_le_power [of "2 :: nat" a] by linarith
  with Suc show ?case by (simp add: floor_log2.simps [of "2 * 2 ^ a"])
qed simp

lemma way_fits: "w < 2 ^ a \<Longrightarrow> (w :: nat) < 2 ^ way_bits_of (2 ^ a)"
  by (auto simp: way_bits_of_def Let_def)

text \<open>What a change of one set does to the pages and to the counts.\<close>

lemma free_sets_keys:
  assumes "rs_shape rs" "w < rs_associativity rs"
  shows "free_sets rs w = length (filter (\<lambda>s. keys s ! w = None) (rs_sets rs))"
proof -
  have "filter (\<lambda>s. \<not> re_valid (st_entries s ! w)) (rs_sets rs) = filter (\<lambda>s. keys s ! w = None) (rs_sets rs)"
    by (rule filter_cong) (use assms in \<open>auto simp: rs_shape_def way_key_def\<close>)
  then show ?thesis by (simp add: free_sets_def)
qed

text \<open>A change that keeps the keys of all sets and the counts.\<close>

definition same_config :: "rest_seg \<Rightarrow> rest_seg \<Rightarrow> bool" where
  "same_config rs rs' \<longleftrightarrow> rs_page_size_bits rs' = rs_page_size_bits rs \<and> rs_associativity rs' = rs_associativity rs \<and> rs_num_sets rs' = rs_num_sets rs \<and>
     rs_base_physical_address rs' = rs_base_physical_address rs"

lemma rs_inv_cong:
  assumes i: "rs_inv rs" and c: "same_config rs rs'" and k: "map keys (rs_sets rs') = map keys (rs_sets rs)"
    and f: "rs_free_sets_per_way rs' = rs_free_sets_per_way rs"
    and m: "wm_wf (rs_way_tables rs')" "wm_map (rs_way_tables rs') = wm_map (rs_way_tables rs)" "same_shape (rs_way_tables rs) (rs_way_tables rs')"
  shows "rs_inv rs'" "resident rs' = resident rs"
proof -
  have l: "length (rs_sets rs') = length (rs_sets rs)" using k map_eq_imp_length_eq by blast
  have sh: "rs_shape rs" using i by (simp add: rs_inv_def)
  have ks: "keys (set_of rs' j) = keys (set_of rs j)" if "j < rs_num_sets rs" for j
    using k that sh l by (metis nth_map rs_shape_def set_of_def)
  have "length (st_entries s) = rs_associativity rs" if "s \<in> set (rs_sets rs')" for s
  proof -
    obtain j where j: "j < length (rs_sets rs')" "s = rs_sets rs' ! j" using \<open>s \<in> set (rs_sets rs')\<close> by (auto simp: in_set_conv_nth)
    then have "keys s = keys (rs_sets rs ! j)" using k l by (metis nth_map)
    then have "length (st_entries s) = length (st_entries (rs_sets rs ! j))" using keys_simps(1) by metis
    then show ?thesis using sh j l by (simp add: rs_shape_def)
  qed
  then have sh': "rs_shape rs'" using sh c f m(3) l by (auto simp: rs_shape_def same_config_def same_shape_def)
  have r: "resident rs' app vpn = resident rs app vpn" for app vpn
  proof -
    have "snd (slot (rs_num_sets rs) vpn) < rs_num_sets rs" using sh slot_less by (auto simp: rs_shape_def)
    then show ?thesis using c ks by (auto simp: resident_def same_config_def split: prod.splits)
  qed
  then show "resident rs' = resident rs" by (simp add: fun_eq_iff)
  have fs: "free_sets rs' w = free_sets rs w" if "w < rs_associativity rs" for w
  proof -
    have n: "length (filter (\<lambda>s. keys s ! w = None) xs) = length (filter (\<lambda>q. q ! w = None) (map keys xs))" for xs by (simp add: filter_map o_def)
    have "free_sets rs' w = length (filter (\<lambda>s. keys s ! w = None) (rs_sets rs'))" by (rule free_sets_keys [OF sh']) (use that c in \<open>simp add: same_config_def\<close>)
    then show ?thesis unfolding free_sets_keys [OF sh that] n k .
  qed
  show "rs_inv rs'" using i sh' m(1,2) ks r fs c f by (simp add: rs_inv_def same_config_def page_ok_def)
qed

text \<open>The lookups and the updates of recency.\<close>

lemma put_set_same_keys:
  assumes "rs_inv rs" "keys s = keys (set_of rs i)"
  shows "rs_inv (put_set rs i s)" "resident (put_set rs i s) = resident rs" "same_config rs (put_set rs i s)"
proof -
  show c: "same_config rs (put_set rs i s)" by (simp add: same_config_def put_set_def)
  have "map keys (rs_sets (put_set rs i s)) = map keys (rs_sets rs)"
    using assms(2) by (cases "i < length (rs_sets rs)") (simp_all add: put_set_def map_update set_of_def list_update_same_conv list_update_beyond)
  then show "rs_inv (put_set rs i s)" "resident (put_set rs i s) = resident rs"
    using rs_inv_cong [OF assms(1) c] assms(1) by (simp_all add: put_set_def same_shape_def rs_inv_def)
qed

lemma inRestSeg_ok:
  assumes "rs_inv rs" "inRestSeg rs address app = (found, rs')"
  shows "rs_inv rs'" "resident rs' = resident rs" "same_config rs rs'" "found \<longleftrightarrow> resident rs app (drop_bit (rs_page_size_bits rs) address) \<noteq> None"
proof -
  obtain tag i where s: "rs_splitAddress rs address = (tag, i)" by fastforce
  have "snd (slot (rs_num_sets rs) vpn) < rs_num_sets rs" for vpn using assms(1) slot_less by (auto simp: rs_inv_def rs_shape_def)
  then have "i < rs_num_sets rs" using s by (metis rs_splitAddress_slot snd_conv)
  then have "keys_distinct (keys (set_of rs i))" using assms(1) by (simp add: rs_inv_def)
  then have f: "fst (findEntryWithFingerprintShadow (set_of rs i) tag (app + 1) (computeFingerprint tag (rs_fingerprint_bits rs))) =
      resident rs app (drop_bit (rs_page_size_bits rs) address)"
    using s by (simp add: shadow_is_findEntry resident_def findEntry_keys rs_splitAddress_slot)
  have "found = (resident rs app (drop_bit (rs_page_size_bits rs) address) \<noteq> None) \<and> (rs' = rs \<or> (\<exists>w. rs' = put_set rs i (touchEntry (set_of rs i) w)))"
    using assms(2) f by (auto simp: inRestSeg_def s split: prod.splits option.splits)
  then show "rs_inv rs'" "resident rs' = resident rs" "same_config rs rs'" "found \<longleftrightarrow> resident rs app (drop_bit (rs_page_size_bits rs) address) \<noteq> None"
    using assms(1) put_set_same_keys [OF assms(1), of _ i] by (auto simp: same_config_def)
qed

lemma touchWayLRU_ok:
  assumes "rs_inv rs"
  shows "rs_inv (touchWayLRU rs address way)" "resident (touchWayLRU rs address way) = resident rs" "same_config rs (touchWayLRU rs address way)"
  using put_set_same_keys [OF assms] by (auto simp: touchWayLRU_def split: prod.splits)

lemma lookupWayRadix_ok:
  assumes "rs_inv rs" "lookupWayRadix rs address app = (e, rs')"
  shows "rs_inv rs'" "resident rs' = resident rs" "same_config rs rs'"
    "entry_way e = wm_map (rs_way_tables rs) app (drop_bit (rs_page_size_bits rs) address)"
proof -
  obtain wm where l: "lookup_way (rs_way_tables rs) (drop_bit (rs_page_size_bits rs) address) app = (e, wm)" "rs' = rs\<lparr>rs_way_tables := wm\<rparr>"
    using assms(2) by (auto simp: lookupWayRadix_def split: prod.splits)
  have wf: "wm_wf (rs_way_tables rs)" using assms(1) by (simp add: rs_inv_def)
  note w = lookup_way_ok [OF wf l(1)]
  show c: "same_config rs rs'" by (simp add: same_config_def l(2))
  show "rs_inv rs'" "resident rs' = resident rs" using rs_inv_cong [OF assms(1) c] w l(2) by simp_all
  show "entry_way e = wm_map (rs_way_tables rs) app (drop_bit (rs_page_size_bits rs) address)" by (rule w(1))
qed

section \<open>Allocation keeps the invariant\<close>

text \<open>A page is put into a way of its set; the page that was there before, if any, is evicted.\<close>

definition moved_in :: "rest_seg \<Rightarrow> nat \<Rightarrow> u64 \<Rightarrow> nat \<Rightarrow> rest_seg \<Rightarrow> bool" where
  "moved_in rs app vpn w rs' \<longleftrightarrow>
     (\<forall>app' vpn'. page_ok rs vpn' \<longrightarrow> resident rs' app' vpn' =
        (if app' = app \<and> vpn' = vpn then Some w
         else if snd (slot (rs_num_sets rs) vpn') = snd (slot (rs_num_sets rs) vpn) \<and> resident rs app' vpn' = Some w then None
         else resident rs app' vpn'))"

lemma resident_put:
  assumes inv: "rs_inv rs" and v: "page_ok rs vpn" and s: "slot (rs_num_sets rs) vpn = (tag, i)" and w: "w < rs_associativity rs"
    and n: "Some (tag, app + 1) \<notin> set (keys (set_of rs i))" and k: "keys t = (keys (set_of rs i))[w := Some (tag, app + 1)]"
  shows "moved_in rs app vpn w (put_set rs i t)"
  unfolding moved_in_def
proof (intro allI impI)
  fix app' vpn'
  assume v': "page_ok rs vpn'"
  have sh: "rs_shape rs" using inv by (simp add: rs_inv_def)
  then obtain k where k32: "rs_num_sets rs = 2 ^ k" "k \<le> 32" by (auto simp: rs_shape_def)
  obtain tag' j where s': "slot (rs_num_sets rs) vpn' = (tag', j)" by fastforce
  have ij: "i < rs_num_sets rs" "j < rs_num_sets rs" using slot_less [OF k32(2)] s s' k32(1) by (metis snd_conv)+
  have len: "i < length (rs_sets rs)" "length (keys (set_of rs i)) = rs_associativity rs" using sh ij by (auto simp: rs_shape_def set_of_def)
  have d: "keys_distinct (keys (set_of rs i))" using inv ij by (simp add: rs_inv_def)
  have same: "(tag', app' + 1) = (tag, app + 1) \<and> j = i \<longleftrightarrow> app' = app \<and> vpn' = vpn" using slot_inj [OF k32(2), of vpn' vpn] s s' k32(1) by auto
  have set': "set_of (put_set rs i t) j = (if j = i then t else set_of rs j)" using len by (simp add: put_set_def set_of_def)
  have ns: "rs_num_sets (put_set rs i t) = rs_num_sets rs" by (simp add: put_set_def)
  have r: "resident (put_set rs i t) app' vpn' = find_index ((=) (Some (tag', app' + 1))) (keys (if j = i then t else set_of rs j))"
    "resident rs app' vpn' = find_index ((=) (Some (tag', app' + 1))) (keys (set_of rs j))"
    using s' set' ns by (auto simp: resident_def)
  show "resident (put_set rs i t) app' vpn' = (if app' = app \<and> vpn' = vpn then Some w
      else if snd (slot (rs_num_sets rs) vpn') = snd (slot (rs_num_sets rs) vpn) \<and> resident rs app' vpn' = Some w then None else resident rs app' vpn')"
  proof (cases "j = i")
    case True
    have "resident (put_set rs i t) app' vpn' = (if (tag', app' + 1) = (tag, app + 1) then Some w
        else if keys (set_of rs i) ! w = Some (tag', app' + 1) then None else resident rs app' vpn')"
      unfolding r using True find_key_update [OF d n, of w "(tag', app' + 1)"] w len(2) k by simp
    moreover have "keys (set_of rs i) ! w = Some (tag', app' + 1) \<longleftrightarrow> resident rs app' vpn' = Some w"
      unfolding r(2) using True find_key [OF d, of "(tag', app' + 1)" w] w len(2) by simp
    ultimately show ?thesis using same True s s' by auto
  next
    case False
    then show ?thesis using r same s s' by auto
  qed
qed

lemma filled_inv:
  assumes inv: "rs_inv rs" and v: "page_ok rs vpn" and s: "slot (rs_num_sets rs) vpn = (tag, i)" and w: "w < rs_associativity rs"
    and n: "Some (tag, app + 1) \<notin> set (keys (set_of rs i))" and k: "keys t = (keys (set_of rs i))[w := Some (tag, app + 1)]"
    and c: "same_config rs rs'" and st: "rs_sets rs' = (rs_sets rs)[i := t]"
    and f: "rs_free_sets_per_way rs' = (if keys (set_of rs i) ! w = None then (rs_free_sets_per_way rs)[w := rs_free_sets_per_way rs ! w - 1] else rs_free_sets_per_way rs)"
    and m: "wm_wf (rs_way_tables rs')" "same_shape (rs_way_tables rs) (rs_way_tables rs')"
    and mm: "\<And>app' vpn'. page_ok rs vpn' \<Longrightarrow> wm_map (rs_way_tables rs') app' vpn' = (if app' = app \<and> vpn' = vpn then Some (int w)
       else if snd (slot (rs_num_sets rs) vpn') = i \<and> resident rs app' vpn' = Some w then None else wm_map (rs_way_tables rs) app' vpn')"
  shows "rs_inv rs'" "moved_in rs app vpn w rs'"
proof -
  have sh: "rs_shape rs" using inv by (simp add: rs_inv_def)
  have i: "i < rs_num_sets rs" using slot_less s sh by (metis rs_shape_def snd_conv)
  have len: "i < length (rs_sets rs)" "length (keys (set_of rs i)) = rs_associativity rs" "length (st_entries t) = rs_associativity rs"
    using sh i length_entries_keys [OF k] by (auto simp: rs_shape_def set_of_def)
  have res: "resident rs' = resident (put_set rs i t)"
    using c st by (auto simp: fun_eq_iff resident_def same_config_def put_set_def set_of_def split: prod.splits)
  show mv: "moved_in rs app vpn w rs'" using resident_put [OF inv v s w n k] by (simp add: moved_in_def res)
  have sh': "rs_shape rs'" using sh c st f m(2) len by (auto simp: rs_shape_def same_config_def same_shape_def dest!: in_set_updateD)
  have ks: "keys (set_of rs' j) = (if j = i then (keys (set_of rs i))[w := Some (tag, app + 1)] else keys (set_of rs j))" for j
    using st len(1) k by (simp add: set_of_def)
  have "keys_distinct (keys (set_of rs' j))" if "j < rs_num_sets rs" for j
    using inv that keys_distinct_update [OF _ n] i by (auto simp: ks rs_inv_def)
  moreover have "0 < owner \<and> (\<exists>vpn. page_ok rs vpn \<and> slot (rs_num_sets rs) vpn = (tag', j))" if "j < rs_num_sets rs" "Some (tag', owner) \<in> set (keys (set_of rs' j))" for j tag' owner
  proof (cases "tag' = tag \<and> owner = app + 1 \<and> j = i")
    case True
    with v s show ?thesis by auto
  next
    case False
    then have "Some (tag', owner) \<in> set (keys (set_of rs j))" using that(2) by (auto simp: ks split: if_splits dest!: in_set_updateD)
    with inv that(1) show ?thesis by (auto simp: rs_inv_def)
  qed
  moreover have "wm_map (rs_way_tables rs') app' vpn' = map_option int (resident rs' app' vpn')" if "page_ok rs vpn'" for app' vpn'
    using mm [OF that, of app'] mv that inv s by (auto simp: moved_in_def rs_inv_def)
  moreover have "rs_free_sets_per_way rs' ! u = free_sets rs' u" if u: "u < rs_associativity rs" for u
  proof -
    have "keys (rs_sets rs ! i) ! w = None \<Longrightarrow> 0 < free_sets rs w"
      using len(1) free_sets_keys [OF sh w] by (auto simp: length_greater_0_conv filter_empty_conv intro!: bexI [OF _ nth_mem [OF len(1)]])
    moreover have "free_sets rs' u + (if keys (rs_sets rs ! i) ! u = None then 1 else 0) = free_sets rs u + (if keys t ! u = None then 1 else 0)"
      using length_filter_update [OF len(1), of "\<lambda>s. keys s ! u = None" t] free_sets_keys [OF sh u] free_sets_keys [OF sh', of u] u c
      by (simp add: st same_config_def)
    moreover have "rs_free_sets_per_way rs ! u = free_sets rs u" "length (rs_free_sets_per_way rs) = rs_associativity rs" using inv sh u by (simp_all add: rs_inv_def rs_shape_def)
    ultimately show ?thesis using len(2) w u f k inv by (cases "u = w") (auto simp: set_of_def rs_inv_def split: if_splits)
  qed
  ultimately show "rs_inv rs'" using sh' m(1) c by (simp add: rs_inv_def same_config_def page_ok_def)
qed

text \<open>The bookkeeping of preferences and of the global way does not touch sets and tables.\<close>

definition tuned :: "rest_seg \<Rightarrow> rest_seg \<Rightarrow> bool" where
  "tuned rs rs' \<longleftrightarrow> same_config rs rs' \<and> rs_sets rs' = rs_sets rs \<and> rs_way_tables rs' = rs_way_tables rs"

lemma tuned_trans: "tuned a b \<Longrightarrow> tuned b c \<Longrightarrow> tuned a c"
  by (simp add: tuned_def same_config_def)

lemma pref_failed_tuned: "tuned rs (pref_failed rs x)" "rs_free_sets_per_way (pref_failed rs x) = rs_free_sets_per_way rs"
  by (simp_all add: pref_failed_def tuned_def same_config_def Let_def)

lemma account_new_tuned:
  "tuned rs (account_new rs x r fp w)"
  "rs_free_sets_per_way (account_new rs x r fp w) =
     (if ir_used_free_way r \<and> w < rs_associativity rs \<and> 0 < rs_free_sets_per_way rs ! w then (rs_free_sets_per_way rs)[w := rs_free_sets_per_way rs ! w - 1]
      else rs_free_sets_per_way rs)"
proof -
  have rot: "tuned rs (maybeRotateGlobalWay rs)" "rs_free_sets_per_way (maybeRotateGlobalWay rs) = rs_free_sets_per_way rs" for rs
    by (simp_all add: maybeRotateGlobalWay_def tuned_def same_config_def Let_def)
  have learn: "tuned rs (pref_learned rs x fp v)" "rs_free_sets_per_way (pref_learned rs x fp v) = rs_free_sets_per_way rs" for rs v
    by (simp_all add: pref_learned_def tuned_def same_config_def Let_def)
  have free: "tuned rs (if ir_used_free_way r then take_free_way rs w else rs)" by (simp add: take_free_way_def tuned_def same_config_def)
  have refl: "tuned rs rs" for rs by (simp add: tuned_def same_config_def)
  show "tuned rs (account_new rs x r fp w)"
  proof -
    let ?r1 = "if ir_used_free_way r then take_free_way rs w else rs"
    have "tuned ?r1 (if rs_page_size_bits rs = 12 then pref_learned ?r1 x fp (int w) else ?r1)" using learn(1) [of ?r1] refl by simp
    from tuned_trans [OF tuned_trans [OF free this] rot(1)] show ?thesis by (simp add: account_new_def Let_def)
  qed
  show "rs_free_sets_per_way (account_new rs x r fp w) =
     (if ir_used_free_way r \<and> w < rs_associativity rs \<and> 0 < rs_free_sets_per_way rs ! w then (rs_free_sets_per_way rs)[w := rs_free_sets_per_way rs ! w - 1]
      else rs_free_sets_per_way rs)"
    by (simp add: account_new_def Let_def rot(2) learn(2) take_free_way_def)
qed

text \<open>What an allocation does to the pages of the segment, in terms of the tags.\<close>

definition same_set :: "rest_seg \<Rightarrow> u64 \<Rightarrow> u64 \<Rightarrow> bool" where
  "same_set rs vpn vpn' \<longleftrightarrow> snd (slot (rs_num_sets rs) vpn) = snd (slot (rs_num_sets rs) vpn')"

definition alloc_post :: "rest_seg \<Rightarrow> nat \<Rightarrow> u64 \<Rightarrow> bool \<Rightarrow> bool \<times> bool \<times> u64 \<Rightarrow> rest_seg \<Rightarrow> bool" where
  "alloc_post rs app vpn force res rs' \<longleftrightarrow>
     (case resident rs app vpn of
        Some w \<Rightarrow> res = (True, False, 0) \<and> resident rs' = resident rs
      | None \<Rightarrow>
          res = (False, False, 0) \<and> resident rs' = resident rs \<and> None \<notin> set (keys (set_of rs (snd (slot (rs_num_sets rs) vpn)))) \<or>
          (\<exists>w < rs_associativity rs. moved_in rs app vpn w rs' \<and>
             (res = (True, False, 0) \<and> (\<forall>app' vpn'. page_ok rs vpn' \<and> same_set rs vpn' vpn \<longrightarrow> resident rs app' vpn' \<noteq> Some w) \<or>
              force \<and> (\<exists>app' vpn'. page_ok rs vpn' \<and> same_set rs vpn' vpn \<and> resident rs app' vpn' = Some w \<and>
                 res = (True, True, push_bit (rs_page_size_bits rs) vpn')))))"

lemma rs_allocate_eq:
  assumes s: "rs_splitAddress rs address = (tag, i)" and vpn: "vpn = drop_bit (rs_page_size_bits rs) address"
  shows "\<exists>pw r from_pref s' rs2 x. place_page (rs_global_way rs) (set_of rs i) tag (app + 1) (computeFingerprint tag (rs_fingerprint_bits rs)) force pw = ((r, from_pref), s') \<and>
    tuned (put_set rs i s') rs2 \<and> rs_free_sets_per_way rs2 = rs_free_sets_per_way rs \<and>
    rs_allocate rs pa address app force =
      (if \<not> ir_success r then Inr ((False, False, 0), rs2, pa)
       else let way = the (ir_used_way r); rs3 = (if ir_was_hit r then rs2 else account_new rs2 x r from_pref way)
            in if ir_evicted r
               then let evicted_addr = reconstructAddress rs3 (ir_evicted_tag r) i;
                        wm = clear_mapping (rs_way_tables rs3) (drop_bit (rs_page_size_bits rs) evicted_addr) (ir_evicted_owner r - 1)
                    in map_sum id (\<lambda>(wm1, pa1). ((True, True, evicted_addr), rs3\<lparr>rs_way_tables := wm1\<rparr>, pa1)) (set_mapping wm pa vpn app (int way))
               else if \<not> ir_was_hit r
               then map_sum id (\<lambda>(wm1, pa1). ((True, False, 0), rs3\<lparr>rs_way_tables := wm1\<rparr>, pa1)) (set_mapping (rs_way_tables rs3) pa vpn app (int way))
               else Inr ((True, False, 0), rs3, pa))"
proof -
  define pw where "pw = (if rs_page_size_bits rs = 12 then (case rs_region_way_pref rs (drop_bit 18 vpn) of None \<Rightarrow> -1 | Some p \<Rightarrow> rp_way p) else -1)"
  obtain r from_pref s' where p: "place_page (rs_global_way rs) (set_of rs i) tag (app + 1) (computeFingerprint tag (rs_fingerprint_bits rs)) force pw = ((r, from_pref), s')"
    by (metis prod.collapse)
  define rs2 where "rs2 = (if rs_page_size_bits rs = 12 \<and> \<not> from_pref \<and> 0 \<le> pw then pref_failed (put_set rs i s') (drop_bit 18 vpn) else put_set rs i s')"
  have "tuned (put_set rs i s') rs2" "rs_free_sets_per_way rs2 = rs_free_sets_per_way rs"
    using pref_failed_tuned by (auto simp: rs2_def tuned_def same_config_def put_set_def)
  moreover note e = rs_allocate_def [of rs pa address app force, unfolded s prod.case Let_def, folded vpn, folded pw_def, unfolded p prod.case, folded rs2_def]
  ultimately show ?thesis using p unfolding e Let_def by blast
qed

lemma tuned_unchanged:
  assumes "rs_inv rs" "keys s' = keys (set_of rs i)" "tuned (put_set rs i s') rs2" "rs_free_sets_per_way rs2 = rs_free_sets_per_way rs"
  shows "rs_inv rs2" "resident rs2 = resident rs" "same_config rs rs2"
proof -
  note p = put_set_same_keys [OF assms(1,2)]
  have c: "same_config (put_set rs i s') rs2" using assms(3) by (simp add: tuned_def)
  show "same_config rs rs2" using p(3) c by (simp add: same_config_def)
  have "wm_wf (rs_way_tables (put_set rs i s'))" using p(1) by (simp add: rs_inv_def)
  then show "rs_inv rs2" "resident rs2 = resident rs"
    using rs_inv_cong [OF p(1) c] p(2) assms(3,4) by (simp_all add: tuned_def same_shape_def put_set_def)
qed

text \<open>The three ways in which an allocation ends.\<close>

lemma alloc_unplaced:
  assumes inv: "rs_inv rs" and s: "slot (rs_num_sets rs) vpn = (tag, i)" and k: "keys s' = keys (set_of rs i)" and t: "tuned (put_set rs i s') rs2"
    "rs_free_sets_per_way rs2 = rs_free_sets_per_way rs"
    and e: "Some (tag, app + 1) \<in> set (keys (set_of rs i)) \<and> res = (True, False, 0) \<or>
      Some (tag, app + 1) \<notin> set (keys (set_of rs i)) \<and> None \<notin> set (keys (set_of rs i)) \<and> res = (False, False, 0)"
  shows "rs_inv rs2 \<and> same_config rs rs2 \<and> alloc_post rs app vpn force res rs2"
proof -
  note u = tuned_unchanged [OF inv k t]
  have "resident rs app vpn = None \<longleftrightarrow> Some (tag, app + 1) \<notin> set (keys (set_of rs i))" by (simp add: resident_def s find_index_eq)
  with e u show ?thesis by (auto simp: alloc_post_def s split: option.splits)
qed

lemma alloc_placed:
  assumes inv: "rs_inv rs" and v: "page_ok rs vpn" and s: "slot (rs_num_sets rs) vpn = (tag, i)" and w: "w < rs_associativity rs"
    and n: "Some (tag, app + 1) \<notin> set (keys (set_of rs i))" and k: "keys s' = (keys (set_of rs i))[w := Some (tag, app + 1)]"
    and t: "tuned (put_set rs i s') rs3" and f: "rs_free_sets_per_way rs3 =
      (if keys (set_of rs i) ! w = None then (rs_free_sets_per_way rs)[w := rs_free_sets_per_way rs ! w - 1] else rs_free_sets_per_way rs)"
    and m: "wm_wf wm" "same_shape (rs_way_tables rs) wm"
    and mm: "\<And>app' vpn'. page_ok rs vpn' \<Longrightarrow>
       wm_map wm app' vpn' = (if snd (slot (rs_num_sets rs) vpn') = i \<and> resident rs app' vpn' = Some w then None else wm_map (rs_way_tables rs) app' vpn')"
  shows "\<exists>wm1 pa1. set_mapping wm pa vpn app (int w) = Inr (wm1, pa1) \<and> rs_inv (rs3\<lparr>rs_way_tables := wm1\<rparr>) \<and>
     same_config rs (rs3\<lparr>rs_way_tables := wm1\<rparr>) \<and> moved_in rs app vpn w (rs3\<lparr>rs_way_tables := wm1\<rparr>)"
proof -
  have sh: "rs_shape rs" using inv by (simp add: rs_inv_def)
  then obtain a where a: "rs_associativity rs = 2 ^ a" by (auto simp: rs_shape_def)
  have mw: "wm_page_size_bits wm = rs_page_size_bits rs" "wm_associativity wm = rs_associativity rs" using sh m(2) by (simp_all add: rs_shape_def same_shape_def)
  have "int w < 2 ^ way_bits_of (wm_associativity wm)"
  proof -
    have "w < 2 ^ way_bits_of (wm_associativity wm)" using way_fits [of w a] w a mw(2) by simp
    then show ?thesis by (metis of_nat_less_iff of_nat_numeral of_nat_power)
  qed
  then obtain wm1 pa1 where sm: "set_mapping wm pa vpn app (int w) = Inr (wm1, pa1)" "wm_wf wm1" "same_shape wm wm1"
    "\<And>app' vpn'. vpn' < 2 ^ (48 - wm_page_size_bits wm) \<Longrightarrow> wm_map wm1 app' vpn' = (if app' = app \<and> vpn' = vpn then Some (int w) else wm_map wm app' vpn')"
    using set_mapping_ok [OF m(1), of vpn "int w" pa app] v mw(1) by (auto simp: page_ok_def)
  let ?rs = "rs3\<lparr>rs_way_tables := wm1\<rparr>"
  have c: "same_config rs ?rs" "rs_sets ?rs = (rs_sets rs)[i := s']" using t by (simp_all add: tuned_def same_config_def put_set_def)
  have g: "rs_free_sets_per_way ?rs = (if keys (set_of rs i) ! w = None then (rs_free_sets_per_way rs)[w := rs_free_sets_per_way rs ! w - 1] else rs_free_sets_per_way rs)"
    "wm_wf (rs_way_tables ?rs)" "same_shape (rs_way_tables rs) (rs_way_tables ?rs)" using f sm(2,3) m(2) by (simp_all add: same_shape_def)
  have "wm_map (rs_way_tables ?rs) app' vpn' = (if app' = app \<and> vpn' = vpn then Some (int w)
       else if snd (slot (rs_num_sets rs) vpn') = i \<and> resident rs app' vpn' = Some w then None else wm_map (rs_way_tables rs) app' vpn')"
    if "page_ok rs vpn'" for app' vpn' using sm(4) [of vpn' app'] mm [OF that, of app'] that mw(1) by (simp add: page_ok_def)
  note filled_inv [OF inv v s w n k c g this]
  then show ?thesis using sm(1) c(1) by blast
qed

text \<open>The entry of a way belongs to one page.\<close>

lemma entry_page:
  assumes inv: "rs_inv rs" and s: "snd (slot (rs_num_sets rs) vpn) = i" and k: "keys (set_of rs i) ! w = Some (tag, owner)" and w: "w < rs_associativity rs"
  shows "\<exists>vpn'. page_ok rs vpn' \<and> slot (rs_num_sets rs) vpn' = (tag, i) \<and> resident rs (owner - 1) vpn' = Some w \<and> 0 < owner \<and>
    (\<forall>app'' vpn''. snd (slot (rs_num_sets rs) vpn'') = i \<and> resident rs app'' vpn'' = Some w \<longleftrightarrow> app'' = owner - 1 \<and> vpn'' = vpn')"
proof -
  have sh: "rs_shape rs" using inv by (simp add: rs_inv_def)
  then obtain n where n: "rs_num_sets rs = 2 ^ n" "n \<le> 32" by (auto simp: rs_shape_def)
  have i: "i < rs_num_sets rs" using slot_less [OF n(2)] n(1) s by metis
  have len: "length (keys (set_of rs i)) = rs_associativity rs" using sh i by (auto simp: rs_shape_def set_of_def)
  have d: "keys_distinct (keys (set_of rs i))" using inv i by (simp add: rs_inv_def)
  have "Some (tag, owner) \<in> set (keys (set_of rs i))" using k w len by (metis nth_mem)
  then obtain vpn' where v: "0 < owner" "page_ok rs vpn'" "slot (rs_num_sets rs) vpn' = (tag, i)" using inv i unfolding rs_inv_def by blast
  have "resident rs app'' vpn'' = Some w \<longleftrightarrow> app'' = owner - 1 \<and> vpn'' = vpn'" if s'': "snd (slot (rs_num_sets rs) vpn'') = i" for app'' vpn''
  proof -
    obtain tag'' where t: "slot (rs_num_sets rs) vpn'' = (tag'', i)" using s'' by (metis prod.collapse)
    have "resident rs app'' vpn'' = Some w \<longleftrightarrow> (tag'', app'' + 1) = (tag, owner)"
      using find_key [OF d, of "(tag'', app'' + 1)" w] w len k t by (auto simp: resident_def)
    also have "\<dots> \<longleftrightarrow> app'' = owner - 1 \<and> vpn'' = vpn'" using v(1,3) t slot_inj [OF n(2), of vpn'' vpn'] n(1) by auto
    finally show ?thesis .
  qed
  with v show ?thesis by (metis snd_conv)
qed

lemma free_way_page:
  assumes "rs_inv rs" "snd (slot (rs_num_sets rs) vpn) = i" "keys (set_of rs i) ! w = None"
  shows "snd (slot (rs_num_sets rs) vpn') = i \<Longrightarrow> resident rs app' vpn' \<noteq> Some w"
  using assms find_index_eqD by (fastforce simp: resident_def split: prod.splits)

lemma account_tuned:
  assumes "rs_inv rs" "tuned (put_set rs i s') rs2" "rs_free_sets_per_way rs2 = rs_free_sets_per_way rs" "w < rs_associativity rs"
  shows "tuned (put_set rs i s') (account_new rs2 x r fp w)" "rs_way_tables (account_new rs2 x r fp w) = rs_way_tables rs"
    "rs_free_sets_per_way (account_new rs2 x r fp w) =
       (if ir_used_free_way r then (rs_free_sets_per_way rs)[w := rs_free_sets_per_way rs ! w - 1] else rs_free_sets_per_way rs)"
proof -
  note a = account_new_tuned [of rs2 x r fp w]
  show "tuned (put_set rs i s') (account_new rs2 x r fp w)" by (rule tuned_trans [OF assms(2) a(1)])
  then show "rs_way_tables (account_new rs2 x r fp w) = rs_way_tables rs" by (simp add: tuned_def put_set_def)
  have "rs_associativity rs2 = rs_associativity rs" using assms(2) by (simp add: tuned_def same_config_def put_set_def)
  moreover have "xs[w := xs ! w - 1] = xs" if "\<not> 0 < xs ! w" for xs :: "nat list" using that by (metis diff_0_eq_0 gr_zeroI list_update_id)
  ultimately show "rs_free_sets_per_way (account_new rs2 x r fp w) =
       (if ir_used_free_way r then (rs_free_sets_per_way rs)[w := rs_free_sets_per_way rs ! w - 1] else rs_free_sets_per_way rs)"
    unfolding a(2) using assms(3,4) by auto
qed

lemma alloc_new:
  assumes inv: "rs_inv rs" and v: "page_ok rs vpn" and s: "slot (rs_num_sets rs) vpn = (tag, i)" and w: "w < rs_associativity rs"
    and n: "Some (tag, app + 1) \<notin> set (keys (set_of rs i))" and k: "keys s' = (keys (set_of rs i))[w := Some (tag, app + 1)]"
    and t: "tuned (put_set rs i s') rs2" "rs_free_sets_per_way rs2 = rs_free_sets_per_way rs" and u: "ir_used_free_way r" and f: "keys (set_of rs i) ! w = None"
  shows "\<exists>wm1 pa1. set_mapping (rs_way_tables (account_new rs2 x r fp w)) pa vpn app (int w) = Inr (wm1, pa1) \<and>
    rs_inv ((account_new rs2 x r fp w)\<lparr>rs_way_tables := wm1\<rparr>) \<and> same_config rs ((account_new rs2 x r fp w)\<lparr>rs_way_tables := wm1\<rparr>) \<and>
    alloc_post rs app vpn force (True, False, 0) ((account_new rs2 x r fp w)\<lparr>rs_way_tables := wm1\<rparr>)"
proof -
  note a = account_tuned [OF inv t w, of x r fp]
  have i: "snd (slot (rs_num_sets rs) vpn) = i" using s by simp
  note fw = free_way_page [OF inv i f]
  have m: "wm_wf (rs_way_tables rs)" "same_shape (rs_way_tables rs) (rs_way_tables rs)" using inv by (simp_all add: rs_inv_def same_shape_def)
  have "\<exists>wm1 pa1. set_mapping (rs_way_tables rs) pa vpn app (int w) = Inr (wm1, pa1) \<and> rs_inv ((account_new rs2 x r fp w)\<lparr>rs_way_tables := wm1\<rparr>) \<and>
     same_config rs ((account_new rs2 x r fp w)\<lparr>rs_way_tables := wm1\<rparr>) \<and> moved_in rs app vpn w ((account_new rs2 x r fp w)\<lparr>rs_way_tables := wm1\<rparr>)"
    by (rule alloc_placed [OF inv v s w n k a(1) _ m]) (use a(3) u f fw in auto)
  moreover have "resident rs app vpn = None" using n by (simp add: resident_def s find_index_eq)
  ultimately show ?thesis unfolding a(2) using fw w s by (fastforce simp: alloc_post_def same_set_def)
qed

lemma alloc_evict:
  assumes inv: "rs_inv rs" and v: "page_ok rs vpn" and s: "slot (rs_num_sets rs) vpn = (tag, i)" and w: "w < rs_associativity rs"
    and n: "Some (tag, app + 1) \<notin> set (keys (set_of rs i))" and k: "keys s' = (keys (set_of rs i))[w := Some (tag, app + 1)]"
    and t: "tuned (put_set rs i s') rs2" "rs_free_sets_per_way rs2 = rs_free_sets_per_way rs" and u: "\<not> ir_used_free_way r"
    and f: "keys (set_of rs i) ! w = Some (ir_evicted_tag r, ir_evicted_owner r)" and fo: "force"
  shows "\<exists>ea wm1 pa1. reconstructAddress (account_new rs2 x r fp w) (ir_evicted_tag r) i = ea \<and>
    set_mapping (clear_mapping (rs_way_tables (account_new rs2 x r fp w)) (drop_bit (rs_page_size_bits rs) ea) (ir_evicted_owner r - 1)) pa vpn app (int w) = Inr (wm1, pa1) \<and>
    rs_inv ((account_new rs2 x r fp w)\<lparr>rs_way_tables := wm1\<rparr>) \<and> same_config rs ((account_new rs2 x r fp w)\<lparr>rs_way_tables := wm1\<rparr>) \<and>
    alloc_post rs app vpn force (True, True, ea) ((account_new rs2 x r fp w)\<lparr>rs_way_tables := wm1\<rparr>)"
proof -
  note a = account_tuned [OF inv t w, of x r fp]
  have i: "snd (slot (rs_num_sets rs) vpn) = i" using s by simp
  obtain vpn' where v': "page_ok rs vpn'" "slot (rs_num_sets rs) vpn' = (ir_evicted_tag r, i)" "resident rs (ir_evicted_owner r - 1) vpn' = Some w" "0 < ir_evicted_owner r"
    and uq: "\<And>app'' vpn''. snd (slot (rs_num_sets rs) vpn'') = i \<and> resident rs app'' vpn'' = Some w \<longleftrightarrow> app'' = ir_evicted_owner r - 1 \<and> vpn'' = vpn'"
    using entry_page [OF inv i f w] by blast
  have sh: "rs_shape rs" using inv by (simp add: rs_inv_def)
  then obtain b where b: "rs_num_sets rs = 2 ^ b" "b \<le> 32" by (auto simp: rs_shape_def)
  have c: "same_config rs (account_new rs2 x r fp w)" using a(1) by (simp add: tuned_def same_config_def put_set_def)
  have ea: "reconstructAddress (account_new rs2 x r fp w) (ir_evicted_tag r) i = push_bit (rs_page_size_bits rs) vpn'"
    using reconstruct_slot [of "account_new rs2 x r fp w" b vpn' "ir_evicted_tag r" i] b c v'(1,2) sh by (simp add: same_config_def page_ok_def rs_shape_def)
  have wm: "wm_wf (rs_way_tables rs)" "wm_page_size_bits (rs_way_tables rs) = rs_page_size_bits rs" using inv sh by (simp_all add: rs_inv_def rs_shape_def)
  have vb: "vpn' < 2 ^ (48 - wm_page_size_bits (rs_way_tables rs))" using v'(1) wm(2) by (simp add: page_ok_def)
  note cl = clear_mapping_ok [OF wm(1) vb, where app = "ir_evicted_owner r - 1"]
  have "\<exists>wm1 pa1. set_mapping (clear_mapping (rs_way_tables rs) vpn' (ir_evicted_owner r - 1)) pa vpn app (int w) = Inr (wm1, pa1) \<and>
     rs_inv ((account_new rs2 x r fp w)\<lparr>rs_way_tables := wm1\<rparr>) \<and> same_config rs ((account_new rs2 x r fp w)\<lparr>rs_way_tables := wm1\<rparr>) \<and>
     moved_in rs app vpn w ((account_new rs2 x r fp w)\<lparr>rs_way_tables := wm1\<rparr>)"
  proof (rule alloc_placed [OF inv v s w n k a(1) _ cl(1,2)])
    show "rs_free_sets_per_way (account_new rs2 x r fp w) =
      (if keys (set_of rs i) ! w = None then (rs_free_sets_per_way rs)[w := rs_free_sets_per_way rs ! w - 1] else rs_free_sets_per_way rs)" using a(3) u f by simp
    show "wm_map (clear_mapping (rs_way_tables rs) vpn' (ir_evicted_owner r - 1)) app'' vpn'' =
      (if snd (slot (rs_num_sets rs) vpn'') = i \<and> resident rs app'' vpn'' = Some w then None else wm_map (rs_way_tables rs) app'' vpn'')"
      if "page_ok rs vpn''" for app'' vpn'' unfolding uq by (rule cl(3)) (use that wm(2) in \<open>simp add: page_ok_def\<close>)
  qed
  moreover have "drop_bit (rs_page_size_bits rs) (push_bit (rs_page_size_bits rs) vpn') = vpn'" by (simp add: drop_bit_eq_div push_bit_eq_mult)
  moreover have "resident rs app vpn = None" using n by (simp add: resident_def s find_index_eq)
  ultimately show ?thesis unfolding a(2) ea using v' w s fo by (fastforce simp: alloc_post_def same_set_def)
qed

lemma rs_allocate_cases:
  assumes inv: "rs_inv rs" and v: "page_ok rs vpn" and vpn: "vpn = drop_bit (rs_page_size_bits rs) address"
  shows "\<exists>res rs' pa'. rs_allocate rs pa address app force = Inr (res, rs', pa') \<and> rs_inv rs' \<and> same_config rs rs' \<and> alloc_post rs app vpn force res rs'"
proof -
  obtain tag i where sp: "rs_splitAddress rs address = (tag, i)" by fastforce
  then have s: "slot (rs_num_sets rs) vpn = (tag, i)" by (simp add: rs_splitAddress_slot vpn)
  have sh: "rs_shape rs" using inv by (simp add: rs_inv_def)
  have i: "i < rs_num_sets rs" using slot_less s sh by (metis rs_shape_def snd_conv)
  have len: "length (keys (set_of rs i)) = rs_associativity rs" using sh i by (auto simp: rs_shape_def set_of_def)
  obtain pw r fp s' rs2 x where p: "place_page (rs_global_way rs) (set_of rs i) tag (app + 1) (computeFingerprint tag (rs_fingerprint_bits rs)) force pw = ((r, fp), s')"
    and t: "tuned (put_set rs i s') rs2" "rs_free_sets_per_way rs2 = rs_free_sets_per_way rs" and e: "rs_allocate rs pa address app force =
      (if \<not> ir_success r then Inr ((False, False, 0), rs2, pa)
       else let way = the (ir_used_way r); rs3 = (if ir_was_hit r then rs2 else account_new rs2 x r fp way)
            in if ir_evicted r
               then let evicted_addr = reconstructAddress rs3 (ir_evicted_tag r) i;
                        wm = clear_mapping (rs_way_tables rs3) (drop_bit (rs_page_size_bits rs) evicted_addr) (ir_evicted_owner r - 1)
                    in map_sum id (\<lambda>(wm1, pa1). ((True, True, evicted_addr), rs3\<lparr>rs_way_tables := wm1\<rparr>, pa1)) (set_mapping wm pa vpn app (int way))
               else if \<not> ir_was_hit r
               then map_sum id (\<lambda>(wm1, pa1). ((True, False, 0), rs3\<lparr>rs_way_tables := wm1\<rparr>, pa1)) (set_mapping (rs_way_tables rs3) pa vpn app (int way))
               else Inr ((True, False, 0), rs3, pa))"
    using rs_allocate_eq [OF sp vpn, of app force pa] by blast
  have pl: "placed (tag, app + 1) (keys (set_of rs i)) force r (keys s')" by (rule place_page_placed [OF p])
  then consider (hit) w where "ir_success r" "ir_used_way r = Some w" "w < length (keys (set_of rs i))" "keys (set_of rs i) ! w = Some (tag, app + 1)"
      "ir_was_hit r" "\<not> ir_evicted r" "keys s' = keys (set_of rs i)"
    | (new) w where "ir_success r" "ir_used_way r = Some w" "w < rs_associativity rs" "Some (tag, app + 1) \<notin> set (keys (set_of rs i))" "\<not> ir_was_hit r"
      "keys s' = (keys (set_of rs i))[w := Some (tag, app + 1)]" "keys (set_of rs i) ! w = None" "\<not> ir_evicted r" "ir_used_free_way r"
    | (evict) w where "ir_success r" "ir_used_way r = Some w" "w < rs_associativity rs" "Some (tag, app + 1) \<notin> set (keys (set_of rs i))" "\<not> ir_was_hit r"
      "keys s' = (keys (set_of rs i))[w := Some (tag, app + 1)]" "force" "keys (set_of rs i) ! w = Some (ir_evicted_tag r, ir_evicted_owner r)" "ir_evicted r" "\<not> ir_used_free_way r"
    | (fail) "\<not> ir_success r" "keys s' = keys (set_of rs i)" "Some (tag, app + 1) \<notin> set (keys (set_of rs i))" "None \<notin> set (keys (set_of rs i))"
    unfolding placed_def len by blast
  then show ?thesis
  proof cases
    case hit
    then have "Some (tag, app + 1) \<in> set (keys (set_of rs i))" by (metis nth_mem)
    then have "rs_inv rs2 \<and> same_config rs rs2 \<and> alloc_post rs app vpn force (True, False, 0) rs2" by (intro alloc_unplaced [OF inv s hit(7) t]) simp
    then show ?thesis using e hit by (simp add: Let_def)
  next
    case fail
    then have "rs_inv rs2 \<and> same_config rs rs2 \<and> alloc_post rs app vpn force (False, False, 0) rs2" by (intro alloc_unplaced [OF inv s fail(2) t]) simp
    then show ?thesis using e fail by simp
  next
    case new
    from alloc_new [OF inv v s new(3,4,6) t new(9,7), of x fp pa] obtain wm1 pa1 where
      m: "set_mapping (rs_way_tables (account_new rs2 x r fp w)) pa vpn app (int w) = Inr (wm1, pa1)"
      "rs_inv ((account_new rs2 x r fp w)\<lparr>rs_way_tables := wm1\<rparr>)" "same_config rs ((account_new rs2 x r fp w)\<lparr>rs_way_tables := wm1\<rparr>)"
      "alloc_post rs app vpn force (True, False, 0) ((account_new rs2 x r fp w)\<lparr>rs_way_tables := wm1\<rparr>)" by blast
    then show ?thesis using e new by (simp add: Let_def)
  next
    case evict
    from alloc_evict [OF inv v s evict(3,4,6) t evict(10,8,7), of x fp pa] obtain ea wm1 pa1 where
      m: "reconstructAddress (account_new rs2 x r fp w) (ir_evicted_tag r) i = ea"
      "set_mapping (clear_mapping (rs_way_tables (account_new rs2 x r fp w)) (drop_bit (rs_page_size_bits rs) ea) (ir_evicted_owner r - 1)) pa vpn app (int w) = Inr (wm1, pa1)"
      "rs_inv ((account_new rs2 x r fp w)\<lparr>rs_way_tables := wm1\<rparr>)" "same_config rs ((account_new rs2 x r fp w)\<lparr>rs_way_tables := wm1\<rparr>)"
      "alloc_post rs app vpn force (True, True, ea) ((account_new rs2 x r fp w)\<lparr>rs_way_tables := wm1\<rparr>)" by blast
    then show ?thesis using e evict by (simp add: Let_def)
  qed
qed

section \<open>Runs of a segment\<close>

inductive rs_run :: "u64 \<Rightarrow> nat \<Rightarrow> nat \<Rightarrow> nat \<Rightarrow> rest_seg \<Rightarrow> bool" for size_mb :: u64 and page_size_bits :: nat and assoc :: nat and fingerprint_bits :: nat where
  start: "rest_seg_new size_mb page_size_bits assoc fingerprint_bits = Inr rs \<Longrightarrow> rs_run size_mb page_size_bits assoc fingerprint_bits (rs\<lparr>rs_base_physical_address := base\<rparr>)"
| allocate: "rs_run size_mb page_size_bits assoc fingerprint_bits rs \<Longrightarrow> address < 2 ^ 48 \<Longrightarrow> rs_allocate rs pa address app force = Inr (res, rs', pa') \<Longrightarrow>
    rs_run size_mb page_size_bits assoc fingerprint_bits rs'"
| in_seg: "rs_run size_mb page_size_bits assoc fingerprint_bits rs \<Longrightarrow> inRestSeg rs address app = (found, rs') \<Longrightarrow> rs_run size_mb page_size_bits assoc fingerprint_bits rs'"
| radix: "rs_run size_mb page_size_bits assoc fingerprint_bits rs \<Longrightarrow> lookupWayRadix rs address app = (e, rs') \<Longrightarrow> rs_run size_mb page_size_bits assoc fingerprint_bits rs'"
| touch: "rs_run size_mb page_size_bits assoc fingerprint_bits rs \<Longrightarrow> rs_run size_mb page_size_bits assoc fingerprint_bits (touchWayLRU rs address way)"

text \<open>A segment of \<open>2 ^ m\<close> MB with \<open>2 ^ a\<close> ways and pages of \<open>2 ^ page_size_bits\<close> bytes.\<close>

definition rs_params :: "nat \<Rightarrow> nat \<Rightarrow> nat \<Rightarrow> bool" where
  "rs_params m a page_size_bits \<longleftrightarrow> 12 \<le> page_size_bits \<and> page_size_bits \<le> 48 \<and> a \<le> 16 \<and> a + page_size_bits \<le> m + 20 \<and> m \<le> 24 \<and> m + 20 < a + page_size_bits + 32"

lemma rest_seg_new_sets:
  assumes p: "rs_params m a pb" and n: "rest_seg_new (2 ^ m) pb (2 ^ a) fpb = Inr rs"
  shows "rs_num_sets rs = 2 ^ (m + 20 - (a + pb))" "rs_associativity rs = 2 ^ a" "rs_page_size_bits rs = pb"
    "rs_sets rs = replicate (rs_num_sets rs) (rs_set_new (2 ^ a))" "rs_free_sets_per_way rs = replicate (2 ^ a) (rs_num_sets rs)" "rs_way_tables rs = way_mgr_new pb (2 ^ a)"
proof -
  have lt: "(2 :: nat) ^ k < 2 ^ 64" if "k < 64" for k :: nat using that by (rule power_strict_increasing) simp
  have m: "m + 20 < 64" "m + 10 < 64" "a + pb < 64" using p unfolding rs_params_def by linarith+
  have k: "2 ^ i * 1024 = (2 :: nat) ^ (i + 10)" for i by (simp add: power_add)
  have "mul64 (2 ^ m) 1024 = 2 ^ (m + 10)" unfolding mul64_def k by (rule mod_less [OF lt [OF m(2)]])
  moreover have "mul64 (2 ^ (m + 10)) 1024 = 2 ^ (m + 10 + 10)" unfolding mul64_def k by (rule mod_less [OF lt]) (use m(1) in simp)
  moreover have "m + 10 + 10 = m + 20" by simp
  ultimately have sz: "mul64 (mul64 (2 ^ m) 1024) 1024 = 2 ^ (m + 20)" by metis
  have per: "mul64 (2 ^ a) (2 ^ pb) = 2 ^ (a + pb)" unfolding mul64_def power_add [symmetric] by (rule mod_less [OF lt [OF m(3)]])
  have q: "(2 :: nat) ^ (m + 20) div 2 ^ (a + pb) = 2 ^ (m + 20 - (a + pb))" using p by (intro power_diff [symmetric]) (simp_all add: rs_params_def)
  have "m + 20 - (a + pb) < 32" using p unfolding rs_params_def by linarith
  then have "(2 :: nat) ^ (m + 20 - (a + pb)) < 2 ^ 32" by (rule power_strict_increasing) simp
  then have ns: "mul64 (mul64 (2 ^ m) 1024) 1024 div mul64 (2 ^ a) (2 ^ pb) mod 2 ^ 32 = 2 ^ (m + 20 - (a + pb))" unfolding sz per q by simp
  have nz: "mul64 (2 ^ a) (2 ^ pb) \<noteq> 0" unfolding per by simp
  show "rs_num_sets rs = 2 ^ (m + 20 - (a + pb))" "rs_associativity rs = 2 ^ a" "rs_page_size_bits rs = pb"
    "rs_sets rs = replicate (rs_num_sets rs) (rs_set_new (2 ^ a))" "rs_free_sets_per_way rs = replicate (2 ^ a) (rs_num_sets rs)" "rs_way_tables rs = way_mgr_new pb (2 ^ a)"
    using n unfolding rest_seg_new_def Let_def ns if_not_P [OF nz] by (auto split: if_splits)
qed

lemma rs_new_keys: "rs_params m a pb \<Longrightarrow> rest_seg_new (2 ^ m) pb (2 ^ a) fpb = Inr rs \<Longrightarrow> i < rs_num_sets rs \<Longrightarrow>
    keys (set_of (rs\<lparr>rs_base_physical_address := base\<rparr>) i) = replicate (2 ^ a) None"
  using rest_seg_new_sets(4) by (simp add: set_of_def rs_set_new_def keys_def way_key_def rs_entry_new_def)

lemma rs_new_empty:
  assumes p: "rs_params m a pb" and n: "rest_seg_new (2 ^ m) pb (2 ^ a) fpb = Inr rs"
  shows "resident (rs\<lparr>rs_base_physical_address := base\<rparr>) app vpn = None"
proof -
  have b: "m + 20 - (a + pb) \<le> 32" using p unfolding rs_params_def by linarith
  have "snd (slot (rs_num_sets rs) vpn) < rs_num_sets rs" unfolding rest_seg_new_sets(1) [OF p n] by (rule slot_less [OF b])
  then show ?thesis using rs_new_keys [OF p n] by (auto simp: resident_def find_index_eq split: prod.splits)
qed

lemma rs_inv_new:
  assumes p: "rs_params m a pb" and n: "rest_seg_new (2 ^ m) pb (2 ^ a) fpb = Inr rs"
  shows "rs_inv (rs\<lparr>rs_base_physical_address := base\<rparr>)"
proof -
  note s = rest_seg_new_sets [OF p n]
  let ?rs = "rs\<lparr>rs_base_physical_address := base\<rparr>"
  have k: "keys (set_of ?rs i) = replicate (2 ^ a) None" if "i < rs_num_sets rs" for i by (rule rs_new_keys [OF p n that])
  have b: "m + 20 - (a + pb) \<le> 32" using p unfolding rs_params_def by linarith
  have sh: "rs_shape ?rs" using p b s by (auto simp: rs_shape_def rs_params_def rs_set_new_def way_mgr_new_def)
  have "way_bits_of (2 ^ a) \<le> 16" using p by (simp add: way_bits_of_def Let_def rs_params_def)
  then have wm: "wm_wf (rs_way_tables ?rs)" using p by (simp add: s(6) wm_wf_def way_mgr_new_def rs_params_def)
  have "resident ?rs app vpn = None" for app vpn by (rule rs_new_empty [OF p n])
  moreover have "free_sets ?rs w = rs_num_sets rs" if "w < 2 ^ a" for w using that by (simp add: free_sets_def s(4) rs_set_new_def rs_entry_new_def)
  ultimately show ?thesis using sh wm k s(2,5)
    by (simp add: rs_inv_def keys_distinct_def) (simp add: s(6) wm_map_def way_mgr_new_def)
qed

lemma page_ok_address: "address < 2 ^ 48 \<Longrightarrow> rs_page_size_bits rs \<le> 48 \<Longrightarrow> page_ok rs (drop_bit (rs_page_size_bits rs) address)"
  by (simp add: page_ok_def drop_bit_eq_div less_mult_imp_div_less power_add [symmetric])

lemma rs_run_inv:
  assumes "rs_run (2 ^ m) pb (2 ^ a) fpb rs" "rs_params m a pb"
  shows "rs_inv rs \<and> rs_page_size_bits rs = pb \<and> rs_associativity rs = 2 ^ a \<and> rs_num_sets rs = 2 ^ (m + 20 - (a + pb))"
  using assms
proof (induction rule: rs_run.induct)
  case (start rs base)
  then show ?case using rs_inv_new rest_seg_new_sets by simp
next
  case (allocate rs address pa app force res rs' pa')
  then have i: "rs_inv rs" "rs_page_size_bits rs \<le> 48" by (simp_all add: rs_params_def)
  from rs_allocate_cases [OF i(1) page_ok_address [OF allocate.hyps(2) i(2)] refl, of pa app force] allocate show ?case by (auto simp: same_config_def)
next
  case (in_seg rs address app found rs')
  with inRestSeg_ok(1,3) [of rs address app found rs'] show ?case by (simp add: same_config_def)
next
  case (radix rs address app e rs')
  with lookupWayRadix_ok(1,3) [of rs address app e rs'] show ?case by (simp add: same_config_def)
next
  case (touch rs address way)
  with touchWayLRU_ok(1,3) [of rs address way] show ?case by (simp add: same_config_def)
qed

text \<open>A way of a set holds one page only.\<close>

lemma residentD: "resident rs app vpn = Some w \<Longrightarrow> slot (rs_num_sets rs) vpn = (tag, i) \<Longrightarrow> w < length (keys (set_of rs i)) \<and> keys (set_of rs i) ! w = Some (tag, app + 1)"
  using find_index_eqD by (fastforce simp: resident_def)

lemma same_way_same_page:
  assumes inv: "rs_inv rs" and s: "same_set rs u v" and r: "resident rs app u = Some w" "resident rs app' v = Some w"
  shows "(app, u) = (app', v)"
proof -
  obtain k where k: "rs_num_sets rs = 2 ^ k" "k \<le> 32" using inv by (auto simp: rs_inv_def rs_shape_def)
  obtain t i t' where t: "slot (rs_num_sets rs) u = (t, i)" "slot (rs_num_sets rs) v = (t', i)" using s unfolding same_set_def by (metis prod.collapse)
  have "t = t'" "app = app'" using residentD [OF r(1) t(1)] residentD [OF r(2) t(2)] by auto
  with t k slot_inj [OF k(2), of u v] show ?thesis by simp
qed

lemma alloc_post_cases:
  assumes inv: "rs_inv rs" and v: "page_ok rs vpn" and p: "alloc_post rs app vpn force (success, evicted, ev) rs'"
  obtains (kept) "\<not> evicted" "success \<longleftrightarrow> resident rs' app vpn \<noteq> None" "resident rs app vpn \<noteq> None \<longrightarrow> success \<and> resident rs' app vpn = resident rs app vpn"
      "\<And>app' v. page_ok rs v \<Longrightarrow> (app', v) \<noteq> (app, vpn) \<Longrightarrow> resident rs' app' v = resident rs app' v"
    | (victim) app2 v2 where "evicted" "success" "force" "resident rs app vpn = None" "resident rs' app vpn \<noteq> None"
      "page_ok rs v2" "ev = push_bit (rs_page_size_bits rs) v2" "resident rs app2 v2 \<noteq> None" "resident rs' app2 v2 = None"
      "\<And>app' v. page_ok rs v \<Longrightarrow> (app', v) \<noteq> (app, vpn) \<Longrightarrow> (app', v) \<noteq> (app2, v2) \<Longrightarrow> resident rs' app' v = resident rs app' v"
proof (cases "resident rs app vpn")
  case (Some w)
  then have "success" "\<not> evicted" "resident rs' = resident rs" using p by (simp_all add: alloc_post_def)
  then show ?thesis using Some by (intro kept) simp_all
next
  case None
  note n = None
  have "(success, evicted, ev) = (False, False, 0) \<and> resident rs' = resident rs \<or>
      (\<exists>w. moved_in rs app vpn w rs' \<and>
        ((success, evicted, ev) = (True, False, 0) \<and> (\<forall>app' vpn'. page_ok rs vpn' \<and> same_set rs vpn' vpn \<longrightarrow> resident rs app' vpn' \<noteq> Some w) \<or>
         force \<and> (\<exists>app' vpn'. page_ok rs vpn' \<and> same_set rs vpn' vpn \<and> resident rs app' vpn' = Some w \<and>
           (success, evicted, ev) = (True, True, push_bit (rs_page_size_bits rs) vpn'))))"
    using p unfolding alloc_post_def n option.case by blast
  then consider (fail) "\<not> success" "\<not> evicted" "resident rs' = resident rs"
    | (new) w where "moved_in rs app vpn w rs'" "success" "\<not> evicted" "\<forall>app' vpn'. page_ok rs vpn' \<and> same_set rs vpn' vpn \<longrightarrow> resident rs app' vpn' \<noteq> Some w"
    | (evict) w app2 v2 where "moved_in rs app vpn w rs'" "success" "evicted" "force" "page_ok rs v2" "same_set rs v2 vpn" "resident rs app2 v2 = Some w"
        "ev = push_bit (rs_page_size_bits rs) v2"
    unfolding prod.inject by blast
  then show ?thesis
  proof cases
    case fail
    then show ?thesis using n by (intro kept) simp_all
  next
    case new
    have o: "resident rs' app' u = resident rs app' u" if "page_ok rs u" "(app', u) \<noteq> (app, vpn)" for app' u
      using new(1,4) that by (auto simp: moved_in_def same_set_def)
    have "resident rs' app vpn = Some w" using new(1) v by (simp add: moved_in_def)
    then show ?thesis using new(2,3) n o by (intro kept) simp_all
  next
    case evict
    have o: "resident rs' app' u = resident rs app' u" if "page_ok rs u" "(app', u) \<noteq> (app, vpn)" "(app', u) \<noteq> (app2, v2)" for app' u
      using evict(1,5-7) that same_way_same_page [OF inv, of u v2 app' w app2] by (auto simp: moved_in_def same_set_def)
    have "resident rs' app vpn = Some w" "resident rs' app2 v2 = None" using evict(1,5-7) v n by (auto simp: moved_in_def same_set_def)
    then show ?thesis using evict(2-5,7,8) n o by (intro victim [of v2 app2]) simp_all
  qed
qed

section \<open>A segment with two pages\<close>

text \<open>A page whose set is empty is always placed.\<close>

lemma allocate_into_empty_set:
  assumes inv: "rs_inv rs" and ok: "page_ok rs (drop_bit (rs_page_size_bits rs) address)"
    and e: "\<And>app' v. page_ok rs v \<Longrightarrow> same_set rs v (drop_bit (rs_page_size_bits rs) address) \<Longrightarrow> resident rs app' v = None"
  shows "\<exists>rs' pa'. rs_allocate rs pa address app force = Inr ((True, False, 0), rs', pa') \<and> rs_inv rs' \<and> same_config rs rs' \<and>
    resident rs' app (drop_bit (rs_page_size_bits rs) address) \<noteq> None \<and>
    (\<forall>app' v. page_ok rs v \<and> (app', v) \<noteq> (app, drop_bit (rs_page_size_bits rs) address) \<longrightarrow> resident rs' app' v = resident rs app' v)"
proof -
  define vpn where "vpn = drop_bit (rs_page_size_bits rs) address"
  obtain k where k: "rs_num_sets rs = 2 ^ k" "k \<le> 32" using inv by (auto simp: rs_inv_def rs_shape_def)
  obtain tag i where s: "slot (rs_num_sets rs) vpn = (tag, i)" by fastforce
  have i: "i < rs_num_sets rs" using slot_less [OF k(2), of vpn] s k(1) by simp
  have len: "length (keys (set_of rs i)) = rs_associativity rs" "0 < rs_associativity rs" using inv i by (auto simp: rs_inv_def rs_shape_def set_of_def)
  have "keys (set_of rs i) ! 0 = None"
  proof (cases "keys (set_of rs i) ! 0")
    case (Some to)
    then obtain v where "page_ok rs v" "slot (rs_num_sets rs) v = (fst to, i)" "resident rs (snd to - 1) v = Some 0"
      using entry_page [OF inv, of vpn i 0 "fst to" "snd to"] s len(2) by auto
    with e [of v "snd to - 1"] s show ?thesis by (simp add: same_set_def vpn_def)
  qed
  then have free: "None \<in> set (keys (set_of rs i))" using len by (metis nth_mem)
  obtain res rs' pa' where r: "rs_allocate rs pa address app force = Inr (res, rs', pa')" "rs_inv rs'" "same_config rs rs'" "alloc_post rs app vpn force res rs'"
    using rs_allocate_cases [OF inv ok refl, of pa app force] by (auto simp: vpn_def)
  have n: "resident rs app vpn = None" using e ok by (simp add: vpn_def same_set_def)
  obtain w where w: "moved_in rs app vpn w rs'" "res = (True, False, 0)"
    using r(4) free s e unfolding alloc_post_def n option.case vpn_def [symmetric] by auto
  have "resident rs' app' v = resident rs app' v" if "page_ok rs v" "(app', v) \<noteq> (app, vpn)" for app' v
    using w(1) e [of v app'] that by (auto simp: moved_in_def same_set_def vpn_def)
  moreover have "resident rs' app vpn = Some w" using w(1) ok by (simp add: moved_in_def vpn_def)
  ultimately show ?thesis using r w(2) unfolding vpn_def by auto
qed

lemma rest_seg_1mb: "\<exists>rs. rest_seg_new (2 ^ 0) 12 (2 ^ 4) 4 = Inr rs"
  by (simp add: rest_seg_new_def mul64_def add64_def Let_def verifyIndexingLogic_def rs_splitAddress_def reconstructAddress_def drop_bit_eq_div push_bit_eq_mult)

lemma params_1mb: "rs_params 0 4 12"
  by (simp add: rs_params_def)

text \<open>A new segment of 1 MB, and the same after the allocation of two pages.\<close>

lemma rest_seg_two_pages:
  "\<exists>rs. rs_run (2 ^ 0) 12 (2 ^ 4) 4 rs \<and> rs_base_physical_address rs = 1024 \<and> lookupWay rs 0x1000 1 \<noteq> None \<and> lookupWay rs 0x2000 2 \<noteq> None"
proof -
  fix pa :: phys_alloc
  obtain rs0 where n: "rest_seg_new (2 ^ 0) 12 (2 ^ 4) 4 = Inr rs0" using rest_seg_1mb by blast
  let ?rs = "rs0\<lparr>rs_base_physical_address := 1024\<rparr>"
  note c = rest_seg_new_sets [OF params_1mb n]
  have i0: "rs_inv ?rs" and e0: "resident ?rs app v = None" for app v using rs_inv_new [OF params_1mb n] rs_new_empty [OF params_1mb n] by simp_all
  have r0: "rs_run (2 ^ 0) 12 (2 ^ 4) 4 ?rs" by (rule rs_run.start [OF n])
  have pb: "rs_page_size_bits ?rs = 12" "rs_num_sets ?rs = 16" using c by simp_all
  have p: "page_ok ?rs (drop_bit 12 0x1000)" "page_ok ?rs (drop_bit 12 0x2000)" using pb by (simp_all add: page_ok_def drop_bit_eq_div)
  obtain rs1 pa1 where a1: "rs_allocate ?rs pa 0x1000 1 False = Inr ((True, False, 0), rs1, pa1)" "rs_inv rs1" "same_config ?rs rs1"
    "resident rs1 1 (drop_bit 12 0x1000) \<noteq> None" "\<And>app' v. page_ok ?rs v \<Longrightarrow> (app', v) \<noteq> (1, drop_bit 12 0x1000) \<Longrightarrow> resident rs1 app' v = resident ?rs app' v"
    using allocate_into_empty_set [OF i0, of "0x1000" pa 1 False] p e0 unfolding pb by blast
  have r1: "rs_run (2 ^ 0) 12 (2 ^ 4) 4 rs1" by (rule rs_run.allocate [OF r0 _ a1(1)]) simp
  have pb1: "rs_page_size_bits rs1 = 12" "rs_num_sets rs1 = 16" "page_ok rs1 = page_ok ?rs" using a1(3) pb by (auto simp: same_config_def page_ok_def fun_eq_iff)
  have ss: "\<not> same_set rs1 (drop_bit 12 0x1000) (drop_bit 12 0x2000)" using pb1 by (simp add: same_set_def slot_def drop_bit_eq_div)
  have e1: "resident rs1 app' v = None" if "page_ok rs1 v" "same_set rs1 v (drop_bit 12 0x2000)" for app' v
    using a1(5) [of v app'] e0 that ss pb1(3) by auto
  obtain rs2 pa2 where a2: "rs_allocate rs1 pa 0x2000 2 False = Inr ((True, False, 0), rs2, pa2)" "rs_inv rs2" "same_config rs1 rs2"
    "resident rs2 2 (drop_bit 12 0x2000) \<noteq> None" "\<And>app' v. page_ok rs1 v \<Longrightarrow> (app', v) \<noteq> (2, drop_bit 12 0x2000) \<Longrightarrow> resident rs2 app' v = resident rs1 app' v"
    using allocate_into_empty_set [OF a1(2), of "0x2000" pa 2 False] p e1 unfolding pb1 by blast
  have r2: "rs_run (2 ^ 0) 12 (2 ^ 4) 4 rs2" by (rule rs_run.allocate [OF r1 _ a2(1)]) simp
  have "resident rs2 1 (drop_bit 12 0x1000) \<noteq> None" using a2(5) [of "drop_bit 12 0x1000" 1] a1(4) p(1) pb1(3) by (simp add: drop_bit_eq_div)
  then have "lookupWay rs2 0x1000 1 \<noteq> None" "lookupWay rs2 0x2000 2 \<noteq> None" using a2(3,4) pb1(1) by (simp_all add: lookupWay_resident same_config_def)
  moreover have "rs_base_physical_address rs2 = 1024" using a1(3) a2(3) by (simp add: same_config_def)
  ultimately show ?thesis using r2 by blast
qed

section \<open>Properties of a segment\<close>

text \<open>
  C6: the two ways to find a page of a restrictive segment agree. After any run of
  allocations, lookups and updates of recency the way that the radix way table of
  the application gives for an address is the way whose tag and owner match
  in the set of the address, and the test for residence answers accordingly.
\<close>

theorem rest_seg_tables_agree:
  assumes "rs_params m a pb" "rs_run (2 ^ m) pb (2 ^ a) fpb rs" "address < 2 ^ 48"
  shows "entry_way (fst (lookupWayRadix rs address app)) = map_option int (lookupWay rs address app) \<and>
    (fst (inRestSeg rs address app) \<longleftrightarrow> lookupWay rs address app \<noteq> None)"
proof -
  have i: "rs_inv rs" "rs_page_size_bits rs \<le> 48" using rs_run_inv [OF assms(2,1)] assms(1) by (simp_all add: rs_params_def)
  have p: "page_ok rs (drop_bit (rs_page_size_bits rs) address)" by (rule page_ok_address [OF assms(3) i(2)])
  have "entry_way (fst (lookupWayRadix rs address app)) = wm_map (rs_way_tables rs) app (drop_bit (rs_page_size_bits rs) address)"
    by (rule lookupWayRadix_ok(4) [OF i(1) surjective_pairing])
  then have "entry_way (fst (lookupWayRadix rs address app)) = map_option int (lookupWay rs address app)"
    using i(1) p by (simp add: lookupWay_resident rs_inv_def)
  moreover have "fst (inRestSeg rs address app) \<longleftrightarrow> lookupWay rs address app \<noteq> None"
    using inRestSeg_ok(4) [OF i(1) surjective_pairing] by (simp add: lookupWay_resident)
  ultimately show ?thesis by blast
qed

theorem rest_seg_tables_agree_witness:
  "\<exists>rs. rs_run (2 ^ 0) 12 (2 ^ 4) 4 rs \<and> lookupWay rs 0x1000 1 \<noteq> None \<and> fst (inRestSeg rs 0x1000 1) \<and>
    entry_way (fst (lookupWayRadix rs 0x1000 1)) = map_option int (lookupWay rs 0x1000 1)"
  using rest_seg_two_pages rest_seg_tables_agree [OF params_1mb, of 4 _ "0x1000" 1] by auto

text \<open>
  C13: \<open>allocate\<close> of a segment does what its comment says. It always returns; on success the
  page is in the segment, and it keeps its way when it was there before; on failure nothing
  is in another place. Every other page keeps its way but one: when an eviction is
  reported, it was forced, and the page at the reported address has lost its way.
\<close>

theorem rest_seg_allocate_correct:
  assumes "rs_params m a pb" "rs_run (2 ^ m) pb (2 ^ a) fpb rs" "address < 2 ^ 48"
  shows "\<exists>success evicted ev rs' pa'. rs_allocate rs pa address app force = Inr ((success, evicted, ev), rs', pa') \<and>
    (success \<longleftrightarrow> lookupWay rs' address app \<noteq> None) \<and>
    (lookupWay rs address app \<noteq> None \<longrightarrow> success \<and> lookupWay rs' address app = lookupWay rs address app) \<and>
    (\<not> success \<longrightarrow> \<not> evicted) \<and>
    (evicted \<longrightarrow> force) \<and>
    (\<exists>app2. (evicted \<longrightarrow> ev < 2 ^ 48 \<and> lookupWay rs ev app2 \<noteq> None \<and> lookupWay rs' ev app2 = None) \<and>
      (\<forall>app' address'. address' < 2 ^ 48 \<and> (app', drop_bit pb address') \<noteq> (app, drop_bit pb address) \<and>
         \<not> (evicted \<and> (app', drop_bit pb address') = (app2, drop_bit pb ev)) \<longrightarrow> lookupWay rs' address' app' = lookupWay rs address' app'))"
proof -
  have i: "rs_inv rs" "rs_page_size_bits rs = pb" "pb \<le> 48" using rs_run_inv [OF assms(2,1)] assms(1) by (simp_all add: rs_params_def)
  define vpn where "vpn = drop_bit pb address"
  have ok: "page_ok rs (drop_bit pb x)" if "x < 2 ^ 48" for x using page_ok_address [OF that] i by metis
  obtain success evicted ev rs' pa' where r: "rs_allocate rs pa address app force = Inr ((success, evicted, ev), rs', pa')" "same_config rs rs'"
    "alloc_post rs app vpn force (success, evicted, ev) rs'"
    using rs_allocate_cases [OF i(1), of vpn address pa app force] ok [OF assms(3)] i(2) by (auto simp: vpn_def)
  have l: "lookupWay rs x y = resident rs y (drop_bit pb x)" "lookupWay rs' x y = resident rs' y (drop_bit pb x)" for x y
    using i(2) r(2) by (simp_all add: lookupWay_resident same_config_def)
  have base: "push_bit pb v < 2 ^ 48" "drop_bit pb (push_bit pb v) = v" if "page_ok rs v" for v
    using that i(2,3) power_add [of "2 :: nat" "48 - pb" pb] mult_strict_right_mono [of v "2 ^ (48 - pb)" "2 ^ pb"]
    by (simp_all add: page_ok_def push_bit_eq_mult drop_bit_eq_div)
  show ?thesis
  proof (rule alloc_post_cases [OF i(1) _ r(3)])
    show "page_ok rs vpn" using ok [OF assms(3)] by (simp add: vpn_def)
  next
    assume n: "\<not> evicted" "success \<longleftrightarrow> resident rs' app vpn \<noteq> None" "resident rs app vpn \<noteq> None \<longrightarrow> success \<and> resident rs' app vpn = resident rs app vpn"
      "\<And>app' v. page_ok rs v \<Longrightarrow> (app', v) \<noteq> (app, vpn) \<Longrightarrow> resident rs' app' v = resident rs app' v"
    have q: "success \<longleftrightarrow> lookupWay rs' address app \<noteq> None" "lookupWay rs address app \<noteq> None \<longrightarrow> success \<and> lookupWay rs' address app = lookupWay rs address app"
      "\<not> success \<longrightarrow> \<not> evicted" "evicted \<longrightarrow> force" using n(1-3) by (simp_all add: l vpn_def)
    have x: "evicted \<longrightarrow> ev < 2 ^ 48 \<and> lookupWay rs ev app \<noteq> None \<and> lookupWay rs' ev app = None" using n(1) by simp
    have y: "lookupWay rs' address' app' = lookupWay rs address' app'"
      if "address' < 2 ^ 48" "(app', drop_bit pb address') \<noteq> (app, drop_bit pb address)" for app' address'
      using n(4) [OF ok [OF that(1)]] that(2) by (simp add: l vpn_def)
    show ?thesis
      by (rule exI [of _ success], rule exI [of _ evicted], rule exI [of _ ev], rule exI [of _ rs'], rule exI [of _ pa'],
          rule conjI [OF r(1)], rule conjI [OF q(1)], rule conjI [OF q(2)], rule conjI [OF q(3)], rule conjI [OF q(4)],
          rule exI [of _ app], rule conjI [OF x], intro allI impI, elim conjE, rule y)
  next
    fix app2 v2
    assume e: "evicted" "success" "force" "resident rs app vpn = None" "resident rs' app vpn \<noteq> None" "page_ok rs v2" "ev = push_bit (rs_page_size_bits rs) v2"
      "resident rs app2 v2 \<noteq> None" "resident rs' app2 v2 = None"
      "\<And>app' v. page_ok rs v \<Longrightarrow> (app', v) \<noteq> (app, vpn) \<Longrightarrow> (app', v) \<noteq> (app2, v2) \<Longrightarrow> resident rs' app' v = resident rs app' v"
    have ev: "ev < 2 ^ 48" "drop_bit pb ev = v2" using base [OF e(6)] e(7) i(2) by simp_all
    have q: "success \<longleftrightarrow> lookupWay rs' address app \<noteq> None" "lookupWay rs address app \<noteq> None \<longrightarrow> success \<and> lookupWay rs' address app = lookupWay rs address app"
      "\<not> success \<longrightarrow> \<not> evicted" "evicted \<longrightarrow> force" using e(1-5) by (simp_all add: l vpn_def)
    have x: "evicted \<longrightarrow> ev < 2 ^ 48 \<and> lookupWay rs ev app2 \<noteq> None \<and> lookupWay rs' ev app2 = None" using e(8,9) ev unfolding l by simp
    have y: "lookupWay rs' address' app' = lookupWay rs address' app'"
      if "address' < 2 ^ 48" "(app', drop_bit pb address') \<noteq> (app, drop_bit pb address)" "\<not> (evicted \<and> (app', drop_bit pb address') = (app2, drop_bit pb ev))" for app' address'
      using e(10) [OF ok [OF that(1)]] that(2,3) e(1) by (simp add: l vpn_def ev(2))
    show ?thesis
      by (rule exI [of _ success], rule exI [of _ evicted], rule exI [of _ ev], rule exI [of _ rs'], rule exI [of _ pa'],
          rule conjI [OF r(1)], rule conjI [OF q(1)], rule conjI [OF q(2)], rule conjI [OF q(3)], rule conjI [OF q(4)],
          rule exI [of _ app2], rule conjI [OF x], intro allI impI, elim conjE, rule y)
  qed
qed

theorem rest_seg_allocate_correct_witness:
  "\<forall>pa. \<exists>rs success ev rs' pa'. rs_run (2 ^ 0) 12 (2 ^ 4) 4 rs \<and> rs_allocate rs pa 0x3000 1 False = Inr ((success, False, ev), rs', pa') \<and>
     (success \<longleftrightarrow> lookupWay rs' 0x3000 1 \<noteq> None) \<and> lookupWay rs' 0x1000 1 \<noteq> None"
proof
  fix pa
  obtain rs where r: "rs_run (2 ^ 0) 12 (2 ^ 4) 4 rs" "lookupWay rs 0x1000 1 \<noteq> None" using rest_seg_two_pages by blast
  obtain success ev rs' pa' where a: "rs_allocate rs pa 0x3000 1 False = Inr ((success, False, ev), rs', pa')" "success \<longleftrightarrow> lookupWay rs' 0x3000 1 \<noteq> None"
    "\<forall>app' address'. address' < 2 ^ 48 \<and> (app', drop_bit 12 address') \<noteq> (1, drop_bit 12 0x3000) \<longrightarrow> lookupWay rs' address' app' = lookupWay rs address' app'"
    using rest_seg_allocate_correct [OF params_1mb r(1), of "0x3000" pa 1 False] by auto
  from a(3) have "lookupWay rs' 0x1000 1 = lookupWay rs 0x1000 1" by (simp add: drop_bit_eq_div)
  with r(2) have "lookupWay rs' 0x1000 1 \<noteq> None" by simp
  with r(1) a(1,2) show "\<exists>rs success ev rs' pa'. rs_run (2 ^ 0) 12 (2 ^ 4) 4 rs \<and> rs_allocate rs pa 0x3000 1 False = Inr ((success, False, ev), rs', pa') \<and>
     (success \<longleftrightarrow> lookupWay rs' 0x3000 1 \<noteq> None) \<and> lookupWay rs' 0x1000 1 \<noteq> None" by blast
qed

lemma mlex_bound: "i < n \<Longrightarrow> w < m \<Longrightarrow> i * m + w < n * (m :: nat)"
  using mult_le_mono1 [of "Suc i" n m] by simp

text \<open>The segment occupies the frames from its base on.\<close>

lemma frame_in_segment:
  assumes p: "rs_params m a pb" and r: "rs_run (2 ^ m) pb (2 ^ a) fpb rs" and b: "rs_base_physical_address rs + 2 ^ (m + 8) \<le> 2 ^ 64"
    and w: "lookupWay rs address app = Some w" and s: "rs_splitAddress rs address = (tag, i)"
  shows "calculatePhysicalAddress rs address app = rs_base_physical_address rs + (i * 2 ^ a + w) * 2 ^ (pb - 12)"
    and "(i * 2 ^ a + w) * 2 ^ (pb - 12) + 2 ^ (pb - 12) \<le> 2 ^ (m + 8)" and "w < 2 ^ a"
proof -
  note c = rs_run_inv [OF r p]
  define k where "k = m + 20 - (a + pb)"
  have k: "k \<le> 32" "a + k + (pb - 12) = m + 8" "m + 8 \<le> 32" using p unfolding rs_params_def k_def by linarith+
  have sl: "slot (2 ^ k) (drop_bit pb address) = (tag, i)" using s c by (simp add: rs_splitAddress_slot k_def)
  have i: "i < 2 ^ k" using slot_less [OF k(1), of "drop_bit pb address"] sl by simp
  have rd: "resident rs app (drop_bit pb address) = Some w" using w c by (simp add: lookupWay_resident)
  have "rs_shape rs" using c by (simp add: rs_inv_def)
  then have "length (keys (set_of rs i)) = 2 ^ a" using c i by (auto simp: rs_shape_def set_of_def k_def)
  then show w': "w < 2 ^ a" using residentD [OF rd, of tag i] sl c by (simp add: k_def)
  have "i * 2 ^ a + w < 2 ^ (a + k)" using mlex_bound [OF i w'] by (simp add: power_add mult.commute)
  then have "(i * 2 ^ a + w + 1) * 2 ^ (pb - 12) \<le> 2 ^ (a + k) * 2 ^ (pb - 12)" by (intro mult_le_mono1) simp
  then show fits: "(i * 2 ^ a + w) * 2 ^ (pb - 12) + 2 ^ (pb - 12) \<le> 2 ^ (m + 8)" unfolding power_add [symmetric] k(2) by (simp add: algebra_simps)
  have "(0 :: nat) < 2 ^ (pb - 12)" by simp
  with fits have lt: "(i * 2 ^ a + w) * 2 ^ (pb - 12) < 2 ^ (m + 8)" by linarith
  have "(2 :: nat) ^ (m + 8) \<le> 2 ^ 32" using k(3) by (intro power_increasing) simp_all
  then have "(i * 2 ^ a + w) * 2 ^ (pb - 12) mod 2 ^ 32 = (i * 2 ^ a + w) * 2 ^ (pb - 12)" using lt by (intro mod_less) linarith
  moreover have "add64 (rs_base_physical_address rs) ((i * 2 ^ a + w) * 2 ^ (pb - 12)) = rs_base_physical_address rs + (i * 2 ^ a + w) * 2 ^ (pb - 12)"
    using lt b unfolding add64_def by (intro mod_less) linarith
  ultimately show "calculatePhysicalAddress rs address app = rs_base_physical_address rs + (i * 2 ^ a + w) * 2 ^ (pb - 12)"
    using w s c by (simp add: calculatePhysicalAddress_def lookupWay_def)
qed

text \<open>
  C12: two different pages that are in a segment, of the same application or not,
  have disjoint frames, and the frames are inside the segment: the frame numbers that
  \<open>calculatePhysicalAddress\<close> gives are in units of 4 KB and neither product wraps.
\<close>

theorem rest_seg_frames_exclusive:
  assumes p: "rs_params m a pb" and r: "rs_run (2 ^ m) pb (2 ^ a) fpb rs" and b: "rs_base_physical_address rs + 2 ^ (m + 8) \<le> 2 ^ 64"
    and l: "lookupWay rs address app \<noteq> None" "lookupWay rs address' app' \<noteq> None" and ne: "(app, drop_bit pb address) \<noteq> (app', drop_bit pb address')"
  shows "(calculatePhysicalAddress rs address app + 2 ^ (pb - 12) \<le> calculatePhysicalAddress rs address' app' \<or>
      calculatePhysicalAddress rs address' app' + 2 ^ (pb - 12) \<le> calculatePhysicalAddress rs address app) \<and>
    rs_base_physical_address rs \<le> calculatePhysicalAddress rs address app \<and>
      calculatePhysicalAddress rs address app + 2 ^ (pb - 12) \<le> rs_base_physical_address rs + 2 ^ (m + 8)"
proof -
  obtain w w' where w: "lookupWay rs address app = Some w" "lookupWay rs address' app' = Some w'" using l by auto
  obtain t i t' i' where s: "rs_splitAddress rs address = (t, i)" "rs_splitAddress rs address' = (t', i')" by fastforce
  note f = frame_in_segment [OF p r b w(1) s(1)] and f' = frame_in_segment [OF p r b w(2) s(2)]
  note c = rs_run_inv [OF r p]
  have bounds: "rs_base_physical_address rs \<le> calculatePhysicalAddress rs address app \<and>
      calculatePhysicalAddress rs address app + 2 ^ (pb - 12) \<le> rs_base_physical_address rs + 2 ^ (m + 8)" using f(1,2) by simp
  have "i * 2 ^ a + w \<noteq> i' * 2 ^ a + w'"
  proof
    assume e: "i * 2 ^ a + w = i' * 2 ^ a + w'"
    have "(i * 2 ^ a + w) div 2 ^ a = i" "(i' * 2 ^ a + w') div 2 ^ a = i'" using f(3) f'(3) by simp_all
    with e have "i = i'" by simp
    moreover from this e have "w = w'" by simp
    ultimately have "(app, drop_bit pb address) = (app', drop_bit pb address')"
      using same_way_same_page [of rs "drop_bit pb address" "drop_bit pb address'" app w app'] c w s by (simp add: lookupWay_resident rs_splitAddress_slot same_set_def)
    with ne show False by simp
  qed
  then have "(i * 2 ^ a + w + 1) * 2 ^ (pb - 12) \<le> (i' * 2 ^ a + w') * 2 ^ (pb - 12) \<or> (i' * 2 ^ a + w' + 1) * 2 ^ (pb - 12) \<le> (i * 2 ^ a + w) * 2 ^ (pb - 12)"
    by (cases "i * 2 ^ a + w < i' * 2 ^ a + w'") (simp_all only: mult_le_cancel2, auto)
  then have "calculatePhysicalAddress rs address app + 2 ^ (pb - 12) \<le> calculatePhysicalAddress rs address' app' \<or>
      calculatePhysicalAddress rs address' app' + 2 ^ (pb - 12) \<le> calculatePhysicalAddress rs address app"
    unfolding f(1) f'(1) by (simp add: algebra_simps)
  with bounds show ?thesis by blast
qed

theorem rest_seg_frames_exclusive_witness:
  "\<exists>rs. rs_run (2 ^ 0) 12 (2 ^ 4) 4 rs \<and> calculatePhysicalAddress rs 0x1000 1 \<noteq> calculatePhysicalAddress rs 0x2000 2 \<and> 1024 \<le> calculatePhysicalAddress rs 0x1000 1"
proof -
  obtain rs where r: "rs_run (2 ^ 0) 12 (2 ^ 4) 4 rs" "rs_base_physical_address rs = 1024" "lookupWay rs 0x1000 1 \<noteq> None" "lookupWay rs 0x2000 2 \<noteq> None"
    using rest_seg_two_pages by blast
  have b: "rs_base_physical_address rs + 2 ^ (0 + 8) \<le> 2 ^ 64" and ne: "(1 :: nat, drop_bit 12 (0x1000 :: nat)) \<noteq> (2, drop_bit 12 0x2000)" using r(2) by simp_all
  from rest_seg_frames_exclusive [OF params_1mb r(1) b r(3,4) ne] r(1,2) show ?thesis by auto
qed

text \<open>
  the counters of free sets per way, which allocations keep up to date and the
  choice of the global way reads, are exact after every run: the check
  \<open>verifyFreeSetsPerWay\<close> of the code never fails.
\<close>

lemma rest_seg_counts_exact:
  assumes "rs_params m a pb" "rs_run (2 ^ m) pb (2 ^ a) fpb rs"
  shows "verifyFreeSetsPerWay rs"
  using rs_run_inv [OF assms(2,1)] by (auto simp: rs_inv_def verifyFreeSetsPerWay_def list_all_iff)

section \<open>Segments whose number of sets is not a power of two\<close>

text \<open>
  A segment of 3 GB with 16 ways has 49152 sets. The constructor's own test of the index function
  passes, but the index is not injective: the pages \<open>0x30004000\<close> and
  \<open>0x30008000\<close> have the same tag and the same set. Whatever the sets hold, one is found
  where the other was put, and both have the same frame.
\<close>

lemma rest_seg_pages_collide:
  "\<exists>rs. rest_seg_new 3072 12 16 4 = Inr rs \<and> rs_splitAddress rs 0x30004000000 = rs_splitAddress rs 0x30008000000 \<and>
    (\<forall>sets app. lookupWay (rs\<lparr>rs_sets := sets\<rparr>) 0x30004000000 app = lookupWay (rs\<lparr>rs_sets := sets\<rparr>) 0x30008000000 app \<and>
       calculatePhysicalAddress (rs\<lparr>rs_sets := sets\<rparr>) 0x30004000000 app = calculatePhysicalAddress (rs\<lparr>rs_sets := sets\<rparr>) 0x30008000000 app)"
proof -
  have "\<exists>rs. rest_seg_new 3072 12 16 4 = Inr rs \<and> rs_page_size_bits rs = 12 \<and> rs_num_sets rs = 49152"
    by (simp add: rest_seg_new_def mul64_def add64_def Let_def verifyIndexingLogic_def rs_splitAddress_def reconstructAddress_def drop_bit_eq_div push_bit_eq_mult)
  then obtain rs where rs: "rest_seg_new 3072 12 16 4 = Inr rs" "rs_page_size_bits rs = 12" "rs_num_sets rs = 49152" by blast
  have s: "rs_splitAddress (rs\<lparr>rs_sets := sets\<rparr>) 0x30004000000 = rs_splitAddress (rs\<lparr>rs_sets := sets\<rparr>) 0x30008000000" for sets
    using rs(2,3) by (simp add: rs_splitAddress_def Let_def drop_bit_eq_div)
  have "rs_splitAddress rs 0x30004000000 = rs_splitAddress rs 0x30008000000" using s [of "rs_sets rs"] by simp
  with rs(1) s show ?thesis unfolding lookupWay_def calculatePhysicalAddress_def by auto
qed

text \<open>An associativity of 12 leaves three bits for a way: way 8 is read back as way 0.\<close>

lemma ways_truncated: "\<exists>wm pa'. set_mapping (way_mgr_new 12 12) pa 5 app 8 = Inr (wm, pa') \<and> entry_way (fst (lookup_way wm 5 app)) = Some 0"
proof -
  have b: "way_bits_of 12 = 3" by (simp add: way_bits_of_def floor_log2.simps Let_def)
  obtain wt wm1 where g: "getTable (way_mgr_new 12 12) app = (wt, wm1)" by fastforce
  then have wt: "wt = way_table_new 12 12" by (simp add: getTable_def way_mgr_new_def Let_def)
  have "wt_wf 12 wt" "wt_way_bits wt = 3" using wt_new_ok [of 12 12] b wt by simp_all
  then obtain wt' pa' where s: "wt_set_mapping wt pa 5 8 = Inr (wt', pa')" "wt_map wt' 5 = Some 0"
    using wt_set_mapping_ok [of 12 wt 5 pa 8] by (force simp: take_bit_eq_mod)
  let ?wm = "wm1\<lparr>wm_tables := (wm_tables wm1)(app \<mapsto> wt')\<rparr>"
  have "set_mapping (way_mgr_new 12 12) pa 5 app 8 = Inr (?wm, pa')" by (simp add: set_mapping_def g s(1))
  moreover have "entry_way (fst (lookup_way ?wm 5 app)) = Some 0" using s(2) by (simp add: lookup_way_def getTable_def wt_map_def)
  ultimately show ?thesis by blast
qed

end
