(* ===== verification/Cost_TopK.thy ===== *)
theory Cost_TopK
  imports Prelude
begin

text \<open>
  The policy of Utopia that decides which pages move to a restrictive segment
  (\<open>utopia.h\<close>, \<open>CostTopKConfig\<close> and \<open>CostTopKState\<close>): every walk raises the score of its
  page, a table keeps the pages with the highest scores, and a page of the table may
  move when its score, its stability and the credits allow it. Credits come back
  once per epoch. The theory shows that the table replaces a page of minimal score and
  bounds the number of migrations by the credits of the elapsed epochs.
\<close>

section \<open>State\<close>

text \<open>Scores have 16 bits, the counters of stability and of cooldown have 8.\<close>

record topk_entry =
  te_valid :: bool
  te_vpn :: u64
  te_score :: nat
  te_sticky :: nat
  te_cooldown :: nat

definition topk_entry_new :: topk_entry where
  "topk_entry_new = \<lparr> te_valid = False, te_vpn = 0, te_score = 0, te_sticky = 0, te_cooldown = 0 \<rparr>"

record topk_config =
  tk_enabled :: bool
  tk_page_size_bits :: nat
  tk_score_bits :: nat
  tk_entries :: nat
  tk_sticky_threshold :: int
  tk_cooldown_epochs :: int
  tk_rank_epoch :: u64
  tk_credit_epoch :: u64
  tk_credits_max :: int
  tk_credits_refill :: int
  tk_migrate_threshold :: int
  tk_score_shift :: nat

record topk_state =
  ts_scores :: "u64 \<Rightarrow> nat option"
  ts_table :: "topk_entry list"
  ts_min_score :: nat
  ts_min_idx :: "nat option"
  ts_translations :: u64
  ts_rank_counter :: u64
  ts_credit_counter :: u64
  ts_credits :: int
  ts_score_updates :: u64
  ts_inserts :: u64
  ts_replacements :: u64
  ts_attempts :: u64
  ts_issued :: u64
  ts_gated_credits :: u64
  ts_gated_threshold :: u64
  ts_gated_sticky :: u64
  ts_gated_cooldown :: u64
  ts_last_ppn :: u64

definition topk_new :: "topk_config \<Rightarrow> topk_state" where
  "topk_new cfg =
     \<lparr> ts_scores = (\<lambda>_. None), ts_table = (if tk_enabled cfg then replicate (tk_entries cfg) topk_entry_new else []),
       ts_min_score = 0, ts_min_idx = None, ts_translations = 0, ts_rank_counter = 0, ts_credit_counter = 0,
       ts_credits = (if tk_enabled cfg then tk_credits_max cfg else 0),
       ts_score_updates = 0, ts_inserts = 0, ts_replacements = 0, ts_attempts = 0, ts_issued = 0,
       ts_gated_credits = 0, ts_gated_threshold = 0, ts_gated_sticky = 0, ts_gated_cooldown = 0, ts_last_ppn = 0 \<rparr>"

section \<open>Operations\<close>

definition count_if :: "bool \<Rightarrow> u64 \<Rightarrow> u64" where
  "count_if c n = (if c then add64 n 1 else n)"

definition max_score :: "topk_config \<Rightarrow> nat" where
  "max_score cfg = (2 ^ tk_score_bits cfg - 1) mod 2 ^ 16"

definition getCostScore :: "topk_state \<Rightarrow> u64 \<Rightarrow> nat" where
  "getCostScore st vpn = (case ts_scores st vpn of None \<Rightarrow> 0 | Some s \<Rightarrow> s)"

definition setCostScore :: "topk_config \<Rightarrow> topk_state \<Rightarrow> u64 \<Rightarrow> nat \<Rightarrow> topk_state" where
  "setCostScore cfg st vpn score = st\<lparr>ts_scores := (ts_scores st)(vpn \<mapsto> min score (max_score cfg))\<rparr>"

text \<open>The sum is cut to 16 bits before it is compared with the maximum.\<close>

definition bumpCostScore :: "topk_config \<Rightarrow> topk_state \<Rightarrow> u64 \<Rightarrow> nat \<Rightarrow> nat \<times> topk_state" where
  "bumpCostScore cfg st vpn inc =
     (let new_score = min ((getCostScore st vpn + inc) mod 2 ^ 16) (max_score cfg) in
      (new_score, st\<lparr>ts_scores := (ts_scores st)(vpn \<mapsto> new_score), ts_score_updates := add64 (ts_score_updates st) 1\<rparr>))"

fun min_scan :: "nat \<Rightarrow> topk_entry list \<Rightarrow> nat \<Rightarrow> nat option \<Rightarrow> nat \<times> nat option" where
  "min_scan i [] best idx = (best, idx)"
| "min_scan i (e # es) best idx =
     (if te_valid e \<and> te_score e < best then min_scan (Suc i) es (te_score e) (Some i) else min_scan (Suc i) es best idx)"

definition recomputeTopKMin :: "topk_state \<Rightarrow> topk_state" where
  "recomputeTopKMin st =
     (case min_scan 0 (ts_table st) (2 ^ 16 - 1) None of
        (best, idx) \<Rightarrow> st\<lparr>ts_min_score := (if idx = None then 0 else best), ts_min_idx := idx\<rparr>)"

definition tracked_at :: "topk_state \<Rightarrow> u64 \<Rightarrow> nat option" where
  "tracked_at st vpn = find_index (\<lambda>e. te_valid e \<and> te_vpn e = vpn) (ts_table st)"

definition fresh_entry :: "u64 \<Rightarrow> nat \<Rightarrow> topk_entry" where
  "fresh_entry vpn score = \<lparr> te_valid = True, te_vpn = vpn, te_score = score, te_sticky = 1, te_cooldown = 0 \<rparr>"

definition updateCostTopK :: "topk_config \<Rightarrow> topk_state \<Rightarrow> u64 \<Rightarrow> nat \<Rightarrow> bool \<Rightarrow> topk_state" where
  "updateCostTopK cfg st vpn score count_stats =
     (if \<not> tk_enabled cfg then st
      else case tracked_at st vpn of
        Some i \<Rightarrow>
          let e = ts_table st ! i in
          recomputeTopKMin (st\<lparr>ts_table := (ts_table st)[i := e\<lparr>te_score := score, te_sticky := (if te_sticky e < 3 then te_sticky e + 1 else te_sticky e)\<rparr>]\<rparr>)
      | None \<Rightarrow>
          (case find_index (\<lambda>e. \<not> te_valid e) (ts_table st) of
             Some i \<Rightarrow> recomputeTopKMin (st\<lparr>ts_table := (ts_table st)[i := fresh_entry vpn score], ts_inserts := count_if count_stats (ts_inserts st)\<rparr>)
           | None \<Rightarrow>
               (case ts_min_idx st of
                  Some i \<Rightarrow>
                    if ts_min_score st < score
                    then recomputeTopKMin (st\<lparr>ts_table := (ts_table st)[i := fresh_entry vpn score], ts_replacements := count_if count_stats (ts_replacements st)\<rparr>)
                    else st
                | None \<Rightarrow> st)))"

definition decay :: "topk_entry \<Rightarrow> topk_entry" where
  "decay e = (if te_valid e then e\<lparr>te_score := te_score e div 2, te_sticky := te_sticky e - 1, te_cooldown := te_cooldown e - 1\<rparr> else e)"

definition processEpochs :: "topk_config \<Rightarrow> topk_state \<Rightarrow> topk_state" where
  "processEpochs cfg st =
     (if \<not> tk_enabled cfg then st
      else let st1 = st\<lparr>ts_translations := add64 (ts_translations st) 1, ts_rank_counter := add64 (ts_rank_counter st) 1,
                        ts_credit_counter := add64 (ts_credit_counter st) 1\<rparr>;
               st2 = (if tk_rank_epoch cfg \<le> ts_rank_counter st1
                      then recomputeTopKMin (st1\<lparr>ts_rank_counter := 0, ts_table := map decay (ts_table st1)\<rparr>) else st1)
           in if tk_credit_epoch cfg \<le> ts_credit_counter st2
              then st2\<lparr>ts_credit_counter := 0, ts_credits := min (ts_credits st2 + tk_credits_refill cfg) (tk_credits_max cfg)\<rparr>
              else st2)"

text \<open>
  \<open>considerCostBasedMigration\<close> up to the call of \<open>migratePage\<close>, with the index of the
  entry when all conditions hold; then what follows a migration that succeeds.
\<close>

definition migration_gate :: "topk_config \<Rightarrow> topk_state \<Rightarrow> nat \<Rightarrow> u64 \<Rightarrow> bool \<Rightarrow> nat option \<times> topk_state" where
  "migration_gate cfg st page_size_bits vpn count_stats =
     (if \<not> tk_enabled cfg \<or> page_size_bits \<noteq> tk_page_size_bits cfg then (None, st)
      else let st1 = st\<lparr>ts_attempts := count_if count_stats (ts_attempts st)\<rparr> in
           case tracked_at st1 vpn of
             None \<Rightarrow> (None, st1)
           | Some i \<Rightarrow>
               let e = ts_table st1 ! i in
               if int (te_score e) < tk_migrate_threshold cfg mod 2 ^ 16 then (None, st1\<lparr>ts_gated_threshold := count_if count_stats (ts_gated_threshold st1)\<rparr>)
               else if int (te_sticky e) < tk_sticky_threshold cfg mod 2 ^ 8 then (None, st1\<lparr>ts_gated_sticky := count_if count_stats (ts_gated_sticky st1)\<rparr>)
               else if 0 < te_cooldown e then (None, st1\<lparr>ts_gated_cooldown := count_if count_stats (ts_gated_cooldown st1)\<rparr>)
               else if ts_credits st1 \<le> 0 then (None, st1\<lparr>ts_gated_credits := count_if count_stats (ts_gated_credits st1)\<rparr>)
               else (Some i, st1))"

definition migration_done :: "topk_config \<Rightarrow> topk_state \<Rightarrow> nat \<Rightarrow> u64 \<Rightarrow> u64 \<Rightarrow> bool \<Rightarrow> topk_state" where
  "migration_done cfg st i vpn new_ppn count_stats =
     (let new_score = getCostScore st vpn div 2 ^ tk_score_shift cfg;
          st1 = setCostScore cfg st vpn new_score;
          e = ts_table st1 ! i
      in st1\<lparr>ts_credits := ts_credits st1 - 1,
             ts_table := (ts_table st1)[i := e\<lparr>te_cooldown := nat (tk_cooldown_epochs cfg mod 2 ^ 8), te_score := new_score\<rparr>],
             ts_last_ppn := new_ppn, ts_issued := count_if count_stats (ts_issued st1)\<rparr>)"

section \<open>The table\<close>

text \<open>A page has at most one entry; the remembered minimum is an entry in use.\<close>

definition topk_inv :: "topk_config \<Rightarrow> topk_state \<Rightarrow> bool" where
  "topk_inv cfg st \<longleftrightarrow> length (ts_table st) = tk_entries cfg \<and>
     (\<forall>i < length (ts_table st). \<forall>j < length (ts_table st). te_valid (ts_table st ! i) \<and> te_valid (ts_table st ! j) \<and>
        te_vpn (ts_table st ! i) = te_vpn (ts_table st ! j) \<longrightarrow> i = j) \<and>
     (\<forall>e \<in> set (ts_table st). te_sticky e \<le> 3) \<and>
     (\<forall>i. ts_min_idx st = Some i \<longrightarrow> i < length (ts_table st) \<and> te_valid (ts_table st ! i))"

text \<open>The remembered minimum is up to date. A score of 65535 is never a minimum.\<close>

definition min_fresh :: "topk_state \<Rightarrow> bool" where
  "min_fresh st \<longleftrightarrow>
     (case ts_min_idx st of
        None \<Rightarrow> ts_min_score st = 0 \<and> (\<forall>e \<in> set (ts_table st). te_valid e \<longrightarrow> 2 ^ 16 - 1 \<le> te_score e)
      | Some i \<Rightarrow> i < length (ts_table st) \<and> te_valid (ts_table st ! i) \<and> ts_min_score st = te_score (ts_table st ! i) \<and>
          (\<forall>e \<in> set (ts_table st). te_valid e \<longrightarrow> ts_min_score st \<le> te_score e))"

lemma min_scan_spec:
  "min_scan i es b idx = (best, r) \<Longrightarrow> (\<forall>e \<in> set es. te_valid e \<longrightarrow> best \<le> te_score e) \<and> best \<le> b \<and>
     (r = idx \<and> best = b \<or> (\<exists>j < length es. r = Some (i + j) \<and> te_valid (es ! j) \<and> best = te_score (es ! j)))"
proof (induction es arbitrary: i b idx)
  case (Cons e es)
  show ?case
  proof (cases "te_valid e \<and> te_score e < b")
    case True
    then have m: "min_scan (Suc i) es (te_score e) (Some i) = (best, r)" using Cons.prems by simp
    have IH: "(\<forall>e \<in> set es. te_valid e \<longrightarrow> best \<le> te_score e) \<and> best \<le> te_score e \<and>
        (r = Some i \<and> best = te_score e \<or> (\<exists>j < length es. r = Some (Suc i + j) \<and> te_valid (es ! j) \<and> best = te_score (es ! j)))" by (rule Cons.IH [OF m])
    have "\<exists>j < length (e # es). r = Some (i + j) \<and> te_valid ((e # es) ! j) \<and> best = te_score ((e # es) ! j)"
    proof (cases "r = Some i \<and> best = te_score e")
      case True': True
      with True show ?thesis by (intro exI [of _ 0]) simp
    next
      case False
      with IH obtain j where "j < length es" "r = Some (Suc i + j)" "te_valid (es ! j)" "best = te_score (es ! j)" by blast
      then show ?thesis by (intro exI [of _ "Suc j"]) simp
    qed
    with IH True show ?thesis by auto
  next
    case False
    then have m: "min_scan (Suc i) es b idx = (best, r)" using Cons.prems by auto
    note IH = Cons.IH [OF m]
    have "te_valid e \<longrightarrow> best \<le> te_score e" using False IH by linarith
    moreover have "r = idx \<and> best = b \<or> (\<exists>j < length (e # es). r = Some (i + j) \<and> te_valid ((e # es) ! j) \<and> best = te_score ((e # es) ! j))"
    proof (cases "r = idx \<and> best = b")
      case False': False
      with IH obtain j where "j < length es" "r = Some (Suc i + j)" "te_valid (es ! j)" "best = te_score (es ! j)" by blast
      then show ?thesis by (intro disjI2 exI [of _ "Suc j"]) simp
    qed simp
    ultimately show ?thesis using IH by auto
  qed
qed simp

lemma recompute_simps [simp]:
  "ts_table (recomputeTopKMin st) = ts_table st" "ts_scores (recomputeTopKMin st) = ts_scores st" "ts_credits (recomputeTopKMin st) = ts_credits st"
  "ts_credit_counter (recomputeTopKMin st) = ts_credit_counter st" "ts_issued (recomputeTopKMin st) = ts_issued st"
  by (simp_all add: recomputeTopKMin_def split: prod.splits)

lemma recompute_fresh: "min_fresh (recomputeTopKMin st)"
proof -
  obtain best r where m: "min_scan 0 (ts_table st) (2 ^ 16 - 1) None = (best, r)" by fastforce
  from min_scan_spec [OF m] m show ?thesis
    by (auto simp: min_fresh_def recomputeTopKMin_def)
qed

lemma recompute_inv:
  "topk_inv cfg (recomputeTopKMin st) \<longleftrightarrow> topk_inv cfg (st\<lparr>ts_min_idx := None\<rparr>)"
  using recompute_fresh [of st] by (auto simp: topk_inv_def min_fresh_def split: option.splits)

lemma inv_forget: "topk_inv cfg st \<Longrightarrow> topk_inv cfg (st\<lparr>ts_min_idx := None\<rparr>)"
  by (simp add: topk_inv_def)

lemma nth_update_cases: "i < length xs \<Longrightarrow> xs[i := x] ! j = (if j = i then x else xs ! j)"
  by simp

lemma topk_invD:
  assumes "topk_inv cfg st"
  shows "length (ts_table st) = tk_entries cfg" "e \<in> set (ts_table st) \<Longrightarrow> te_sticky e \<le> 3"
    "i < length (ts_table st) \<Longrightarrow> j < length (ts_table st) \<Longrightarrow> te_valid (ts_table st ! i) \<Longrightarrow> te_valid (ts_table st ! j) \<Longrightarrow>
      te_vpn (ts_table st ! i) = te_vpn (ts_table st ! j) \<Longrightarrow> i = j"
    "ts_min_idx st = Some i \<Longrightarrow> i < length (ts_table st)"
  using assms unfolding topk_inv_def by blast+

lemma topk_inv_cong:
  assumes "topk_inv cfg st" "ts_table st' = ts_table st" "ts_min_idx st' = ts_min_idx st"
  shows "topk_inv cfg st'"
  using assms(1) unfolding topk_inv_def assms(2,3) .

text \<open>An entry for a page that has no other may be written.\<close>

lemma topk_inv_write:
  assumes inv: "topk_inv cfg st" and i: "i < length (ts_table st)" and s: "te_sticky e \<le> 3"
    and u: "\<And>j. j < length (ts_table st) \<Longrightarrow> j \<noteq> i \<Longrightarrow> te_valid (ts_table st ! j) \<Longrightarrow> te_vpn (ts_table st ! j) \<noteq> te_vpn e"
  shows "topk_inv cfg (st\<lparr>ts_table := (ts_table st)[i := e], ts_min_idx := None\<rparr>)"
proof -
  have "x = y" if "x < length (ts_table st)" "y < length (ts_table st)" "te_valid ((ts_table st)[i := e] ! x)" "te_valid ((ts_table st)[i := e] ! y)"
      "te_vpn ((ts_table st)[i := e] ! x) = te_vpn ((ts_table st)[i := e] ! y)" for x y
    using inv that u [of x] u [of y] i unfolding topk_inv_def by (auto simp: nth_update_cases split: if_splits)
  moreover have "te_sticky x \<le> 3" if "x \<in> set ((ts_table st)[i := e])" for x
    using that inv s set_update_subset_insert [of "ts_table st" i e] by (auto simp: topk_inv_def)
  ultimately show ?thesis using inv by (auto simp: topk_inv_def)
qed

lemma tracked_at_SomeD: "tracked_at st vpn = Some i \<Longrightarrow> i < length (ts_table st) \<and> te_valid (ts_table st ! i) \<and> te_vpn (ts_table st ! i) = vpn"
  unfolding tracked_at_def by (drule find_index_SomeD) simp

lemma tracked_at_NoneD: "tracked_at st vpn = None \<Longrightarrow> j < length (ts_table st) \<Longrightarrow> te_valid (ts_table st ! j) \<Longrightarrow> te_vpn (ts_table st ! j) \<noteq> vpn"
  unfolding tracked_at_def find_index_None_iff by auto

text \<open>The three ways in which an update changes the table.\<close>

definition update_post :: "topk_state \<Rightarrow> u64 \<Rightarrow> nat \<Rightarrow> topk_state \<Rightarrow> bool" where
  "update_post st vpn score st' \<longleftrightarrow>
     (case tracked_at st vpn of
        Some i \<Rightarrow> ts_table st' = (ts_table st)[i := (ts_table st ! i)\<lparr>te_score := score, te_sticky := min 3 (te_sticky (ts_table st ! i) + 1)\<rparr>]
      | None \<Rightarrow>
          (\<exists>i < length (ts_table st). ts_table st' = (ts_table st)[i := fresh_entry vpn score] \<and>
             (\<not> te_valid (ts_table st ! i) \<or>
              (\<forall>e \<in> set (ts_table st). te_valid e) \<and> te_score (ts_table st ! i) < score \<and>
              (\<forall>e \<in> set (ts_table st). te_score (ts_table st ! i) \<le> te_score e))) \<or>
          ts_table st' = ts_table st \<and> (\<forall>e \<in> set (ts_table st). te_valid e \<and> score \<le> te_score e))"

lemma update_inv:
  assumes en: "tk_enabled cfg" and inv: "topk_inv cfg st"
  shows "topk_inv cfg (updateCostTopK cfg st vpn score c)"
proof (cases "tracked_at st vpn")
  case (Some i)
  let ?e = "(ts_table st ! i)\<lparr>te_score := score, te_sticky := (if te_sticky (ts_table st ! i) < 3 then te_sticky (ts_table st ! i) + 1 else te_sticky (ts_table st ! i))\<rparr>"
  note t = tracked_at_SomeD [OF Some]
  have "topk_inv cfg (st\<lparr>ts_table := (ts_table st)[i := ?e], ts_min_idx := None\<rparr>)"
  proof (rule topk_inv_write [OF inv])
    show "te_sticky ?e \<le> 3" using topk_invD(2) [OF inv, of "ts_table st ! i"] t by simp
    show "te_vpn (ts_table st ! j) \<noteq> te_vpn ?e" if "j < length (ts_table st)" "j \<noteq> i" "te_valid (ts_table st ! j)" for j
      using topk_invD(3) [OF inv, of j i] t that by auto
  qed (use t in simp)
  then show ?thesis using en Some by (simp add: updateCostTopK_def Let_def recompute_inv)
next
  case None
  note n = this
  have w: "topk_inv cfg (st\<lparr>ts_table := (ts_table st)[i := fresh_entry vpn score], ts_min_idx := None\<rparr>)" if "i < length (ts_table st)" for i
    by (rule topk_inv_write [OF inv that]) (use tracked_at_NoneD [OF n] in \<open>simp_all add: fresh_entry_def\<close>)
  show ?thesis
  proof (cases "find_index (\<lambda>e. \<not> te_valid e) (ts_table st)")
    case (Some i)
    then have "i < length (ts_table st)" by (auto dest: find_index_SomeD)
    from w [OF this] have "topk_inv cfg ((st\<lparr>ts_table := (ts_table st)[i := fresh_entry vpn score], ts_inserts := count_if c (ts_inserts st)\<rparr>)\<lparr>ts_min_idx := None\<rparr>)"
      by (rule topk_inv_cong) simp_all
    then show ?thesis using en n Some by (simp add: updateCostTopK_def recompute_inv)
  next
    case None
    have "topk_inv cfg ((st\<lparr>ts_table := (ts_table st)[i := fresh_entry vpn score], ts_replacements := count_if c (ts_replacements st)\<rparr>)\<lparr>ts_min_idx := None\<rparr>)"
      if "ts_min_idx st = Some i" for i
      by (rule topk_inv_cong [OF w [OF topk_invD(4) [OF inv that]]]) simp_all
    then show ?thesis using en n None inv by (cases "ts_min_idx st") (simp_all add: updateCostTopK_def recompute_inv)
  qed
qed

lemma update_fresh: "min_fresh st \<Longrightarrow> min_fresh (updateCostTopK cfg st vpn score c)"
  by (auto simp: updateCostTopK_def Let_def recompute_fresh split: option.splits)

lemma update_table:
  assumes en: "tk_enabled cfg" and k: "ts_table st \<noteq> []" and sc: "score < 2 ^ 16" and f: "min_fresh st" and sb: "\<forall>e \<in> set (ts_table st). te_sticky e \<le> 3"
  shows "update_post st vpn score (updateCostTopK cfg st vpn score c)"
proof (cases "tracked_at st vpn")
  case (Some i)
  have "te_sticky (ts_table st ! i) \<le> 3" using tracked_at_SomeD [OF Some] sb by auto
  then have "(if te_sticky (ts_table st ! i) < 3 then te_sticky (ts_table st ! i) + 1 else te_sticky (ts_table st ! i)) = min 3 (te_sticky (ts_table st ! i) + 1)" by simp
  then show ?thesis using en Some unfolding update_post_def updateCostTopK_def Let_def by simp
next
  case None
  note n = this
  show ?thesis
  proof (cases "find_index (\<lambda>e. \<not> te_valid e) (ts_table st)")
    case (Some i)
    then have "i < length (ts_table st)" "\<not> te_valid (ts_table st ! i)" by (auto dest: find_index_SomeD)
    moreover have "ts_table (updateCostTopK cfg st vpn score c) = (ts_table st)[i := fresh_entry vpn score]" using en n Some by (simp add: updateCostTopK_def)
    ultimately show ?thesis unfolding update_post_def n option.case by (intro disjI1 exI [of _ i]) simp
  next
    case None
    then have v: "\<forall>e \<in> set (ts_table st). te_valid e" by (simp add: find_index_None_iff)
    show ?thesis
    proof (cases "ts_min_idx st")
      case (Some i)
      then have i: "i < length (ts_table st)" "ts_min_score st = te_score (ts_table st ! i)" "\<forall>e \<in> set (ts_table st). ts_min_score st \<le> te_score e"
        using f v by (auto simp: min_fresh_def)
      show ?thesis
      proof (cases "ts_min_score st < score")
        case True
        then have "ts_table (updateCostTopK cfg st vpn score c) = (ts_table st)[i := fresh_entry vpn score]" using en n None Some by (simp add: updateCostTopK_def)
        then show ?thesis unfolding update_post_def n option.case using i v True by (intro disjI1 exI [of _ i]) auto
      next
        case False
        then have t: "updateCostTopK cfg st vpn score c = st" using en n None Some by (simp add: updateCostTopK_def)
        have "score \<le> te_score e" if "e \<in> set (ts_table st)" for e using i(3) that False by fastforce
        then show ?thesis unfolding update_post_def n option.case t using v by simp
      qed
    next
      case None': None
      have "\<forall>e \<in> set (ts_table st). score \<le> te_score e" using f v None' sc by (fastforce simp: min_fresh_def)
      then show ?thesis using en n None None' v by (simp add: updateCostTopK_def update_post_def)
    qed
  qed
qed

section \<open>Runs of the policy\<close>

text \<open>
  The calls that the MMU makes, in any order, with the number of processed walks and
  the number of migrations that succeeded. A migration that is refused or fails
  leaves the state of the gate.
\<close>

inductive topk_run :: "topk_config \<Rightarrow> nat \<Rightarrow> nat \<Rightarrow> topk_state \<Rightarrow> bool" for cfg :: topk_config where
  start: "topk_run cfg 0 0 (topk_new cfg)"
| bump: "topk_run cfg n m st \<Longrightarrow> topk_run cfg n m (snd (bumpCostScore cfg st vpn inc))"
| update: "topk_run cfg n m st \<Longrightarrow> topk_run cfg n m (updateCostTopK cfg st vpn score c)"
| epoch: "topk_run cfg n m st \<Longrightarrow> topk_run cfg (Suc n) m (processEpochs cfg st)"
| refused: "topk_run cfg n m st \<Longrightarrow> topk_run cfg n m (snd (migration_gate cfg st bits vpn c))"
| migrated: "topk_run cfg n m st \<Longrightarrow> migration_gate cfg st bits vpn c = (Some i, st1) \<Longrightarrow> topk_run cfg n (Suc m) (migration_done cfg st1 i vpn ppn c)"

lemma gate_state:
  assumes "migration_gate cfg st bits vpn c = (r, st1)"
  shows "ts_table st1 = ts_table st" "ts_min_idx st1 = ts_min_idx st" "ts_credits st1 = ts_credits st" "ts_credit_counter st1 = ts_credit_counter st"
    "r = Some i \<Longrightarrow> tracked_at st vpn = Some i \<and> 0 < ts_credits st \<and> te_cooldown (ts_table st ! i) = 0"
  using assms by (auto simp: migration_gate_def Let_def tracked_at_def split: if_splits option.splits)

lemma decay_sel [simp]: "te_valid (decay e) = te_valid e" "te_vpn (decay e) = te_vpn e" "te_sticky (decay e) \<le> te_sticky e"
  by (simp_all add: decay_def)

lemma epoch_table:
  assumes inv: "topk_inv cfg st"
  shows "topk_inv cfg (st\<lparr>ts_table := map decay (ts_table st), ts_min_idx := None\<rparr>)"
proof -
  have "i = j" if "i < length (ts_table st)" "j < length (ts_table st)" "te_valid (ts_table st ! i)" "te_valid (ts_table st ! j)"
      "te_vpn (ts_table st ! i) = te_vpn (ts_table st ! j)" for i j using topk_invD(3) [OF inv that] .
  moreover have "te_sticky (decay e) \<le> 3" if "e \<in> set (ts_table st)" for e using topk_invD(2) [OF inv that] decay_sel(3) [of e] by linarith
  ultimately show ?thesis using topk_invD(1) [OF inv] unfolding topk_inv_def by auto
qed

lemma epochs_inv:
  assumes inv: "topk_inv cfg st"
  shows "topk_inv cfg (processEpochs cfg st)"
proof -
  define st1 where "st1 = st\<lparr>ts_translations := add64 (ts_translations st) 1, ts_rank_counter := add64 (ts_rank_counter st) 1, ts_credit_counter := add64 (ts_credit_counter st) 1\<rparr>"
  define st2 where "st2 = (if tk_rank_epoch cfg \<le> ts_rank_counter st1 then recomputeTopKMin (st1\<lparr>ts_rank_counter := 0, ts_table := map decay (ts_table st1)\<rparr>) else st1)"
  have 1: "topk_inv cfg st1" by (rule topk_inv_cong [OF inv]) (simp_all add: st1_def)
  have "topk_inv cfg (recomputeTopKMin (st1\<lparr>ts_rank_counter := 0, ts_table := map decay (ts_table st1)\<rparr>))"
    unfolding recompute_inv by (rule topk_inv_cong [OF epoch_table [OF 1]]) simp_all
  with 1 have 2: "topk_inv cfg st2" by (simp add: st2_def)
  have "processEpochs cfg st = (if \<not> tk_enabled cfg then st else if tk_credit_epoch cfg \<le> ts_credit_counter st2
      then st2\<lparr>ts_credit_counter := 0, ts_credits := min (ts_credits st2 + tk_credits_refill cfg) (tk_credits_max cfg)\<rparr> else st2)"
    unfolding processEpochs_def Let_def st1_def [symmetric] st2_def [symmetric] ..
  moreover have "topk_inv cfg (st2\<lparr>ts_credit_counter := 0, ts_credits := x\<rparr>)" for x by (rule topk_inv_cong [OF 2]) simp_all
  ultimately show ?thesis using inv 2 by simp
qed

lemma done_inv:
  assumes inv: "topk_inv cfg st" and t: "tracked_at st vpn = Some i"
  shows "topk_inv cfg (migration_done cfg st i vpn ppn c)"
proof -
  let ?e = "(ts_table st ! i)\<lparr>te_cooldown := nat (tk_cooldown_epochs cfg mod 2 ^ 8), te_score := getCostScore st vpn div 2 ^ tk_score_shift cfg\<rparr>"
  note i = tracked_at_SomeD [OF t]
  have tb: "ts_table (migration_done cfg st i vpn ppn c) = (ts_table st)[i := ?e]" "ts_min_idx (migration_done cfg st i vpn ppn c) = ts_min_idx st"
    by (simp_all add: migration_done_def Let_def setCostScore_def)
  have w: "topk_inv cfg (st\<lparr>ts_table := (ts_table st)[i := ?e], ts_min_idx := None\<rparr>)"
  proof (rule topk_inv_write [OF inv])
    show "te_sticky ?e \<le> 3" using topk_invD(2) [OF inv, of "ts_table st ! i"] i by simp
    show "te_vpn (ts_table st ! j) \<noteq> te_vpn ?e" if "j < length (ts_table st)" "j \<noteq> i" "te_valid (ts_table st ! j)" for j
      using topk_invD(3) [OF inv, of j i] i that by auto
  qed (use i in simp)
  have "k < length (ts_table st) \<and> te_valid ((ts_table st)[i := ?e] ! k)" if "ts_min_idx st = Some k" for k
    using inv i that unfolding topk_inv_def by (cases "k = i") auto
  with w show ?thesis unfolding topk_inv_def tb by (simp add: topk_inv_def)
qed

lemma run_inv:
  assumes "topk_run cfg n m st" "tk_enabled cfg"
  shows "topk_inv cfg st"
  using assms
proof (induction rule: topk_run.induct)
  case start
  then show ?case by (simp add: topk_inv_def topk_new_def topk_entry_new_def)
next
  case (bump n m st vpn inc)
  show ?case by (rule topk_inv_cong [OF bump.IH [OF bump.prems]]) (simp_all add: bumpCostScore_def Let_def)
next
  case (update n m st vpn score c)
  then show ?case using update_inv by blast
next
  case (epoch n m st)
  then show ?case using epochs_inv by blast
next
  case (refused n m st bits vpn c)
  show ?case by (rule topk_inv_cong [OF refused.IH [OF refused.prems]]) (use gate_state(1,2) [of cfg st bits vpn c] in \<open>simp_all add: prod_eq_iff\<close>)
next
  case (migrated n m st bits vpn c i st1 ppn)
  note g = gate_state [OF migrated.hyps(2)]
  have "topk_inv cfg st1" by (rule topk_inv_cong [OF migrated.IH [OF migrated.prems] g(1,2)])
  moreover have "tracked_at st1 vpn = Some i" using g(1,5) by (simp add: tracked_at_def)
  ultimately show ?case by (rule done_inv)
qed

subsection \<open>Credits\<close>

definition credit_inv :: "topk_config \<Rightarrow> nat \<Rightarrow> nat \<Rightarrow> topk_state \<Rightarrow> bool" where
  "credit_inv cfg n m st \<longleftrightarrow> 0 \<le> ts_credits st \<and> ts_credits st \<le> tk_credits_max cfg \<and> ts_credit_counter st = n mod tk_credit_epoch cfg \<and>
     int m + ts_credits st \<le> tk_credits_max cfg + tk_credits_refill cfg * int (n div tk_credit_epoch cfg)"

lemma update_credits: "ts_credits (updateCostTopK cfg st vpn score c) = ts_credits st" "ts_credit_counter (updateCostTopK cfg st vpn score c) = ts_credit_counter st"
  by (simp_all add: updateCostTopK_def Let_def split: option.splits)

lemma epochs_credits:
  assumes "tk_enabled cfg"
  shows "ts_credits (processEpochs cfg st) = (if tk_credit_epoch cfg \<le> add64 (ts_credit_counter st) 1 then min (ts_credits st + tk_credits_refill cfg) (tk_credits_max cfg) else ts_credits st)"
    "ts_credit_counter (processEpochs cfg st) = (if tk_credit_epoch cfg \<le> add64 (ts_credit_counter st) 1 then 0 else add64 (ts_credit_counter st) 1)"
  using assms by (simp_all add: processEpochs_def Let_def)

lemma run_credits:
  assumes "topk_run cfg n m st" "tk_enabled cfg" "0 \<le> tk_credits_max cfg" "0 \<le> tk_credits_refill cfg" "0 < tk_credit_epoch cfg" "tk_credit_epoch cfg < 2 ^ 64"
  shows "credit_inv cfg n m st"
  using assms
proof (induction rule: topk_run.induct)
  case (epoch n m st)
  let ?E = "tk_credit_epoch cfg"
  have i: "credit_inv cfg n m st" using epoch by blast
  have c: "ts_credit_counter st = n mod ?E" "n mod ?E < ?E" using i epoch.prems by (simp_all add: credit_inv_def)
  then have a: "add64 (ts_credit_counter st) 1 = n mod ?E + 1" using epoch.prems(5) add64_exact [of "n mod ?E" 1] by simp
  have s: "Suc n mod ?E = (if ?E \<le> n mod ?E + 1 then 0 else n mod ?E + 1)" "Suc n div ?E = (if ?E \<le> n mod ?E + 1 then Suc (n div ?E) else n div ?E)"
    using c(2) by (auto simp: mod_Suc div_Suc)
  show ?case using i epoch.prems(3) unfolding credit_inv_def epochs_credits [OF epoch.prems(1)] a s by (auto simp: algebra_simps)
next
  case (refused n m st bits vpn c)
  then show ?case using gate_state(3,4) [of cfg st bits vpn c] by (simp add: credit_inv_def prod_eq_iff)
next
  case (migrated n m st bits vpn c i st1 ppn)
  then have "credit_inv cfg n m st" "0 < ts_credits st" using gate_state(5) [OF migrated.hyps(2)] by blast+
  then show ?case using gate_state(3,4) [OF migrated.hyps(2)] by (simp add: credit_inv_def migration_done_def Let_def setCostScore_def)
qed (simp_all add: credit_inv_def topk_new_def bumpCostScore_def Let_def update_credits)

section \<open>Properties\<close>

text \<open>The defaults of the configuration with a table of the given size, without a threshold for stability.\<close>

definition small_config :: "nat \<Rightarrow> topk_config" where
  "small_config k = \<lparr> tk_enabled = True, tk_page_size_bits = 12, tk_score_bits = 10, tk_entries = k, tk_sticky_threshold = 1, tk_cooldown_epochs = 2,
     tk_rank_epoch = 1024, tk_credit_epoch = 8192, tk_credits_max = 4, tk_credits_refill = 1, tk_migrate_threshold = 32, tk_score_shift = 2 \<rparr>"

lemmas topk_eval = small_config_def topk_new_def topk_entry_new_def updateCostTopK_def tracked_at_def fresh_entry_def recomputeTopKMin_def count_if_def
  migration_gate_def migration_done_def setCostScore_def getCostScore_def max_score_def bumpCostScore_def Let_def

text \<open>
  C15: migrations are throttled. However the calls of the policy are interleaved, after
  \<open>n\<close> processed walks at most the initial credits and one refill per complete
  credit epoch have been spent on migrations.
\<close>

theorem topk_migrations_bounded:
  assumes "topk_run cfg n m st" "tk_enabled cfg" "0 \<le> tk_credits_max cfg" "0 \<le> tk_credits_refill cfg" "0 < tk_credit_epoch cfg" "tk_credit_epoch cfg < 2 ^ 64"
  shows "int m \<le> tk_credits_max cfg + tk_credits_refill cfg * int (n div tk_credit_epoch cfg)"
  using run_credits [OF assms] by (simp add: credit_inv_def)

definition one_page_tracked :: topk_state where
  "one_page_tracked = updateCostTopK (small_config 1) (snd (bumpCostScore (small_config 1) (topk_new (small_config 1)) 5 40)) 5 40 True"

lemma one_page_run: "topk_run (small_config 1) 0 0 one_page_tracked"
  unfolding one_page_tracked_def by (rule topk_run.update [OF topk_run.bump [OF topk_run.start]])

lemma one_page_gate: "\<exists>st1. migration_gate (small_config 1) one_page_tracked 12 5 True = (Some 0, st1)"
  by (simp add: one_page_tracked_def topk_eval)

theorem topk_migrations_bounded_witness:
  "\<exists>st. topk_run (small_config 1) 0 1 st \<and> int 1 \<le> tk_credits_max (small_config 1) + tk_credits_refill (small_config 1) * int (0 div tk_credit_epoch (small_config 1))"
proof -
  obtain st1 where g: "migration_gate (small_config 1) one_page_tracked 12 5 True = (Some 0, st1)" using one_page_gate by blast
  have r: "topk_run (small_config 1) 0 (Suc 0) (migration_done (small_config 1) st1 0 5 77 True)" by (rule topk_run.migrated [OF one_page_run g])
  have "int (Suc 0) \<le> tk_credits_max (small_config 1) + tk_credits_refill (small_config 1) * int (0 div tk_credit_epoch (small_config 1))"
    by (rule topk_migrations_bounded [OF r]) (simp_all add: small_config_def)
  with r show ?thesis by auto
qed

text \<open>
  an update of the table is right whenever the remembered minimum is: a page of the table
  gets its new score and more stability; another page takes a free slot, or the slot of a
  page with the least score when its own is higher; otherwise nothing changes.
  The minimum is then right again, and no page has two entries.
\<close>

lemma topk_update_correct:
  assumes r: "topk_run cfg n m st" and c: "tk_enabled cfg" "0 < tk_entries cfg" "score < 2 ^ 16" and f: "min_fresh st"
  shows "update_post st vpn score (updateCostTopK cfg st vpn score counted) \<and> min_fresh (updateCostTopK cfg st vpn score counted) \<and>
    topk_inv cfg (updateCostTopK cfg st vpn score counted)"
proof -
  have i: "topk_inv cfg st" by (rule run_inv [OF r c(1)])
  have "ts_table st \<noteq> []" using topk_invD(1) [OF i] c(2) by auto
  moreover have "\<forall>e \<in> set (ts_table st). te_sticky e \<le> 3" using topk_invD(2) [OF i] by blast
  ultimately show ?thesis using update_table [OF c(1) _ c(3) f] update_fresh [OF f] update_inv [OF c(1) i] by blast
qed

text \<open>
  After a migration the score of the entry is lowered, but the minimum is not computed
  again. In a table with the scores 40 and 50 the second page is migrated and has the score 12;
  a page with the score 30 is then refused, although 12 is the least score.
\<close>

definition first_page_tracked :: topk_state where
  "first_page_tracked = updateCostTopK (small_config 2) (snd (bumpCostScore (small_config 2) (topk_new (small_config 2)) 5 40)) 5 40 True"

definition two_pages_tracked :: topk_state where
  "two_pages_tracked = updateCostTopK (small_config 2) (snd (bumpCostScore (small_config 2) first_page_tracked 6 50)) 6 50 True"

lemma replicate_two: "replicate 2 x = [x, x]"
  by (simp add: numeral_2_eq_2)

lemma first_page_fields:
  "ts_table first_page_tracked = [fresh_entry 5 40, topk_entry_new]" "ts_scores first_page_tracked = [5 \<mapsto> 40]" "ts_credits first_page_tracked = 4"
  by (simp_all add: first_page_tracked_def topk_eval replicate_two)

lemma two_pages_fields:
  "ts_table two_pages_tracked = [fresh_entry 5 40, fresh_entry 6 50]" "ts_min_idx two_pages_tracked = Some 0" "ts_min_score two_pages_tracked = 40"
  "ts_scores two_pages_tracked 6 = Some 50" "ts_credits two_pages_tracked = 4"
  by (simp_all add: two_pages_tracked_def updateCostTopK_def tracked_at_def bumpCostScore_def Let_def first_page_fields small_config_def fresh_entry_def topk_entry_new_def
    recomputeTopKMin_def count_if_def getCostScore_def max_score_def)

lemma topk_minimum_stale:
  "\<exists>st1 st2. migration_gate (small_config 2) two_pages_tracked 12 6 True = (Some 1, st1) \<and> st2 = migration_done (small_config 2) st1 1 6 77 True \<and>
    map te_score (ts_table st2) = [40, 12] \<and> ts_min_score st2 = 40 \<and> updateCostTopK (small_config 2) st2 7 30 True = st2"
proof -
  let ?st1 = "two_pages_tracked\<lparr>ts_attempts := add64 (ts_attempts two_pages_tracked) 1\<rparr>"
  have g: "migration_gate (small_config 2) two_pages_tracked 12 6 True = (Some 1, ?st1)"
    by (simp add: migration_gate_def small_config_def count_if_def Let_def tracked_at_def two_pages_fields fresh_entry_def)
  define st2 where "st2 = migration_done (small_config 2) ?st1 1 6 77 True"
  have t: "ts_table st2 = [fresh_entry 5 40, (fresh_entry 6 50)\<lparr>te_cooldown := 2, te_score := 12\<rparr>]" "ts_min_idx st2 = Some 0" "ts_min_score st2 = 40"
    by (simp_all add: st2_def migration_done_def Let_def setCostScore_def getCostScore_def two_pages_fields small_config_def)
  have "updateCostTopK (small_config 2) st2 7 30 True = st2"
    unfolding updateCostTopK_def tracked_at_def t by (simp add: fresh_entry_def)
  moreover have "map te_score (ts_table st2) = [40, 12]" by (simp add: t fresh_entry_def)
  ultimately show ?thesis using t(3) by (intro exI [of _ ?st1] exI [of _ st2] conjI g st2_def)
qed

text \<open>With 16 bits for scores the sum wraps: the page with the highest score gets the lowest.\<close>

lemma bump_not_saturating:
  "fst (bumpCostScore ((small_config 1)\<lparr>tk_score_bits := 16\<rparr>) ((topk_new (small_config 1))\<lparr>ts_scores := [5 \<mapsto> 65535]\<rparr>) 5 1) = 0"
  by (simp add: topk_eval)

text \<open>Below that, the score saturates at the largest value of its bits.\<close>

lemma bump_saturates:
  assumes "tk_score_bits cfg < 16" "getCostScore st vpn + inc < 2 ^ 16"
  shows "fst (bumpCostScore cfg st vpn inc) = min (getCostScore st vpn + inc) (2 ^ tk_score_bits cfg - 1)"
proof -
  have "(2 :: nat) ^ tk_score_bits cfg \<le> 2 ^ 16" using assms(1) by (intro power_increasing) simp_all
  then have "max_score cfg = 2 ^ tk_score_bits cfg - 1" unfolding max_score_def by (intro mod_less) simp
  then show ?thesis using assms(2) by (simp add: bumpCostScore_def Let_def)
qed

end
