(* ===== verification/Utopia.thy ===== *)
theory Utopia
  imports Rest_Seg Reserve_THP Cost_TopK
begin

text \<open>
  The Utopia allocator (\<open>utopia.h\<close>, class \<open>UtopiaAllocator\<close>): restrictive segments in the kernel
  region, the flexible segment served by a buddy allocator with reserved 2MB regions, and
  the migration of pages from the latter to the former. An allocation tries the segment of
  2MB pages, a reserved region, the segment of 4KB pages and the buddy allocator, in this
  order. The theory composes the segments, the regions and the policy of migration, shows what
  an allocation and a migration do to all pages, and where the frames of the
  segments lie.
\<close>

section \<open>State\<close>

record ut_stats =
  us_restseg_2mb :: u64
  us_restseg_4kb :: u64
  us_restseg_evictions :: u64
  us_flex_thp :: u64
  us_flex_4kb :: u64
  us_thp_reserved :: u64
  us_thp_promoted :: u64
  us_thp_demoted :: u64
  us_total :: u64
  us_migrations :: u64
  us_restseg :: u64
  us_flex :: u64

definition ut_stats_new :: ut_stats where
  "ut_stats_new = \<lparr> us_restseg_2mb = 0, us_restseg_4kb = 0, us_restseg_evictions = 0, us_flex_thp = 0, us_flex_4kb = 0, us_thp_reserved = 0,
     us_thp_promoted = 0, us_thp_demoted = 0, us_total = 0, us_migrations = 0, us_restseg = 0, us_flex = 0 \<rparr>"

text \<open>The addresses of the tag and the fingerprint arrays of a core are kept per segment.\<close>

record utopia =
  ut_phys :: phys_alloc
  ut_buddy :: buddy
  ut_restsegs :: "rest_seg list"
  ut_meta_bases :: "(u64 \<times> u64) list list"
  ut_2mb_index :: "nat option"
  ut_4kb_index :: "nat option"
  ut_threshold :: rat
  ut_thp_regions :: "(u64 \<times> thp_region) list"
  ut_last_in_restseg :: bool
  ut_last_caused_eviction :: bool
  ut_last_evicted_address :: u64
  ut_last_evicted_page_size_bits :: nat
  ut_stats :: ut_stats
  ut_topk_config :: topk_config
  ut_topk :: topk_state

section \<open>Construction\<close>

text \<open>The products are taken in 32 bits.\<close>

definition tag_entry_bytes :: "rest_seg \<Rightarrow> nat" where
  "tag_entry_bytes rs = max 1 ((48 - rs_page_size_bits rs - ceil_log2 (rs_num_sets rs)) div 8)"

definition getTagArraySize :: "rest_seg \<Rightarrow> u64" where
  "getTagArraySize rs = rs_num_sets rs * rs_associativity rs * tag_entry_bytes rs mod 2 ^ 32"

definition getFingerprintArraySize :: "rest_seg \<Rightarrow> u64" where
  "getFingerprintArraySize rs = rs_num_sets rs * rs_associativity rs mod 2 ^ 32"

fun alloc_metadata :: "u64 \<Rightarrow> u64 \<Rightarrow> nat \<Rightarrow> phys_alloc \<Rightarrow> (u64 \<times> u64) list \<times> phys_alloc" where
  "alloc_metadata tag_size fp_size 0 pa = ([], pa)"
| "alloc_metadata tag_size fp_size (Suc c) pa =
     (case handle_page_table_allocations pa tag_size of (tag_ppn, pa1) \<Rightarrow>
      case handle_page_table_allocations pa1 fp_size of (fp_ppn, pa2) \<Rightarrow>
      case alloc_metadata tag_size fp_size c pa2 of (bases, pa3) \<Rightarrow>
        ((mul64 tag_ppn 4096, mul64 fp_ppn 4096) # bases, pa3))"

text \<open>
  One iteration of the loop over the configured segments. The base is aligned up to the page
  size after the bytes of the segment have been taken from the kernel region.
\<close>

definition add_restseg :: "nat \<Rightarrow> nat \<Rightarrow> utopia \<Rightarrow> nat \<times> nat \<times> nat \<Rightarrow> utopia outcome" where
  "add_restseg num_cores fingerprint_bits ut seg =
     (case seg of (rs_size, rs_page_size, rs_assoc) \<Rightarrow>
        (case rest_seg_new rs_size rs_page_size rs_assoc fingerprint_bits of
           Inl err \<Rightarrow> Inl err
         | Inr rs \<Rightarrow>
             let rs_bytes = mul64 (mul64 (mul64 (mul64 rs_size 1024) 1024 div (1024 * 1024)) 1024) 1024 in
             case handle_page_table_allocations (ut_phys ut) rs_bytes of (base_ppn, pa1) \<Rightarrow>
               let pages = 2 ^ (rs_page_size - 12);
                   aligned = mul64 (sub64 (add64 base_ppn pages) 1 div pages) pages
               in case alloc_metadata (getTagArraySize rs) (getFingerprintArraySize rs) num_cores pa1 of (bases, pa2) \<Rightarrow>
                    Inr (ut\<lparr>ut_phys := pa2, ut_restsegs := ut_restsegs ut @ [rs\<lparr>rs_base_physical_address := aligned\<rparr>],
                            ut_meta_bases := ut_meta_bases ut @ [bases],
                            ut_2mb_index := (if rs_page_size = 21 then Some (length (ut_restsegs ut)) else ut_2mb_index ut),
                            ut_4kb_index := (if rs_page_size = 12 then Some (length (ut_restsegs ut)) else ut_4kb_index ut)\<rparr>)))"

fun add_restsegs :: "nat \<Rightarrow> nat \<Rightarrow> (nat \<times> nat \<times> nat) list \<Rightarrow> utopia \<Rightarrow> utopia outcome" where
  "add_restsegs num_cores fingerprint_bits [] ut = Inr ut"
| "add_restsegs num_cores fingerprint_bits (seg # segs) ut =
     (case add_restseg num_cores fingerprint_bits ut seg of
        Inl err \<Rightarrow> Inl err
      | Inr ut1 \<Rightarrow> add_restsegs num_cores fingerprint_bits segs ut1)"

text \<open>
  The threshold is a percentage; a fraction of 512 compares with it in the rationals as it
  does in double precision. Values out of range are replaced by the defaults.
\<close>

definition promotion_threshold :: "int \<Rightarrow> rat" where
  "promotion_threshold percent = (if percent < 0 \<or> 100 < percent then 3 / 4 else of_int percent / 100)"

definition valid_fingerprint_bits :: "int \<Rightarrow> nat" where
  "valid_fingerprint_bits b = (if b < 1 \<or> 8 < b then 4 else nat b)"

definition utopia_empty :: "nat \<Rightarrow> nat \<Rightarrow> nat \<Rightarrow> int \<Rightarrow> topk_config \<Rightarrow> utopia" where
  "utopia_empty memory_size max_order kernel_size percent cfg =
     \<lparr> ut_phys = phys_alloc_new memory_size kernel_size, ut_buddy = buddy_new memory_size max_order kernel_size,
       ut_restsegs = [], ut_meta_bases = [], ut_2mb_index = None, ut_4kb_index = None,
       ut_threshold = promotion_threshold percent, ut_thp_regions = [], ut_last_in_restseg = False, ut_last_caused_eviction = False,
       ut_last_evicted_address = 0, ut_last_evicted_page_size_bits = 12, ut_stats = ut_stats_new, ut_topk_config = cfg, ut_topk = topk_new cfg \<rparr>"

definition utopia_new :: "nat \<Rightarrow> nat \<Rightarrow> nat \<Rightarrow> int \<Rightarrow> topk_config \<Rightarrow> nat \<Rightarrow> int \<Rightarrow> (nat \<times> nat \<times> nat) list \<Rightarrow> utopia outcome" where
  "utopia_new memory_size max_order kernel_size percent cfg num_cores fp_bits segs =
     add_restsegs num_cores (valid_fingerprint_bits fp_bits) segs (utopia_empty memory_size max_order kernel_size percent cfg)"

section \<open>Reserved regions\<close>

definition ut_count :: "(ut_stats \<Rightarrow> ut_stats) \<Rightarrow> utopia \<Rightarrow> utopia" where
  "ut_count f ut = ut\<lparr>ut_stats := f (ut_stats ut)\<rparr>"

definition ut_track :: "utopia \<Rightarrow> u64 \<Rightarrow> (bool \<times> utopia) outcome" where
  "ut_track ut region_2mb =
     (if map_of (ut_thp_regions ut) region_2mb \<noteq> None then Inr (True, ut)
      else (case reserve_2mb_page (ut_buddy ut) of
              Inl err \<Rightarrow> Inl err
            | Inr (b, bd) \<Rightarrow>
                if blk_start b = minus1_64 then Inr (False, ut\<lparr>ut_buddy := bd\<rparr>)
                else Inr (True, ut_count (\<lambda>s. s\<lparr>us_thp_reserved := add64 (us_thp_reserved s) 1\<rparr>)
                       (ut\<lparr>ut_buddy := bd, ut_thp_regions := map_put region_2mb
                          \<lparr>region_begin = blk_start b, region_bits = {}, region_promoted = False\<rparr> (ut_thp_regions ut)\<rparr>))))"

definition tryAllocateTHP :: "utopia \<Rightarrow> u64 \<Rightarrow> ((u64 \<times> bool) \<times> utopia) outcome" where
  "tryAllocateTHP ut address =
     (let region_2mb = drop_bit 21 address; offset_4kb = drop_bit 12 address mod 512 in
      case ut_track ut region_2mb of
        Inl err \<Rightarrow> Inl err
      | Inr (False, ut1) \<Rightarrow> Inr ((minus1_64, False), ut1)
      | Inr (True, ut1) \<Rightarrow>
          (case map_of (ut_thp_regions ut1) region_2mb of
             None \<Rightarrow> Inl Undefined_Behaviour
           | Some r \<Rightarrow>
               if region_promoted r then Inr ((region_begin r, True), ut1)
               else if offset_4kb \<in> region_bits r then Inr ((add64 (region_begin r) offset_4kb, False), ut1)
               else let r1 = r\<lparr>region_bits := insert offset_4kb (region_bits r)\<rparr> in
                    if ut_threshold ut1 \<le> utilization r1
                    then Inr ((region_begin r1, True),
                           ut_count (\<lambda>s. s\<lparr>us_thp_promoted := add64 (us_thp_promoted s) 1\<rparr>)
                             (ut1\<lparr>ut_thp_regions := map_put region_2mb (r1\<lparr>region_promoted := True\<rparr>) (ut_thp_regions ut1)\<rparr>))
                    else Inr ((add64 (region_begin r1) offset_4kb, False), ut1\<lparr>ut_thp_regions := map_put region_2mb r1 (ut_thp_regions ut1)\<rparr>)))"

text \<open>As in \<open>demote_page\<close>, the parameter chooses among the regions of least utilisation.\<close>

definition ut_demotable :: "utopia \<Rightarrow> (u64 \<times> nat) list" where
  "ut_demotable ut = map (\<lambda>(k, r). (k, card (region_bits r))) (filter (\<lambda>(k, r). \<not> region_promoted r) (ut_thp_regions ut))"

definition demoteTHPRegion :: "((u64 \<times> nat) list \<Rightarrow> u64 \<times> nat) \<Rightarrow> utopia \<Rightarrow> (bool \<times> utopia) outcome" where
  "demoteTHPRegion pick ut =
     (if ut_demotable ut = [] then Inr (False, ut)
      else let victim = fst (pick (ut_demotable ut)) in
           case map_of (ut_thp_regions ut) victim of
             None \<Rightarrow> Inl Undefined_Behaviour
           | Some r \<Rightarrow>
               (case free_unused (region_begin r) (region_bits r) [0..<512] (ut_buddy ut) of
                  Inl err \<Rightarrow> Inl err
                | Inr bd \<Rightarrow> Inr (True, ut_count (\<lambda>s. s\<lparr>us_thp_demoted := add64 (us_thp_demoted s) 1\<rparr>)
                    (ut\<lparr>ut_buddy := bd, ut_thp_regions := map_erase victim (ut_thp_regions ut)\<rparr>))))"

definition ut_isLargePageReserved :: "utopia \<Rightarrow> u64 \<Rightarrow> u64" where
  "ut_isLargePageReserved ut address = (case map_of (ut_thp_regions ut) (drop_bit 21 address) of Some r \<Rightarrow> region_begin r | None \<Rightarrow> minus1_64)"

definition clearTHPBit :: "utopia \<Rightarrow> u64 \<Rightarrow> utopia" where
  "clearTHPBit ut address =
     (case map_of (ut_thp_regions ut) (drop_bit 21 address) of
        None \<Rightarrow> ut
      | Some r \<Rightarrow> ut\<lparr>ut_thp_regions := map_put (drop_bit 21 address)
          (r\<lparr>region_bits := region_bits r - {drop_bit 12 address mod 512}\<rparr>) (ut_thp_regions ut)\<rparr>)"

section \<open>Allocation\<close>

definition put_seg :: "utopia \<Rightarrow> nat \<Rightarrow> rest_seg \<Rightarrow> utopia" where
  "put_seg ut i rs = ut\<lparr>ut_restsegs := (ut_restsegs ut)[i := rs]\<rparr>"

text \<open>The loop stops at the first segment that has the page; the lookup updates its recency.\<close>

fun in_segs :: "nat list \<Rightarrow> utopia \<Rightarrow> u64 \<Rightarrow> nat \<Rightarrow> bool \<times> utopia" where
  "in_segs [] ut address app = (False, ut)"
| "in_segs (i # is) ut address app =
     (case inRestSeg (ut_restsegs ut ! i) address app of
        (True, rs) \<Rightarrow> (True, put_seg ut i rs)
      | (False, rs) \<Rightarrow> in_segs is (put_seg ut i rs) address app)"

definition isInRestSeg :: "utopia \<Rightarrow> u64 \<Rightarrow> nat \<Rightarrow> bool \<times> utopia" where
  "isInRestSeg ut address app = in_segs [0..<length (ut_restsegs ut)] ut address app"

definition seg_allocate :: "utopia \<Rightarrow> nat \<Rightarrow> u64 \<Rightarrow> nat \<Rightarrow> bool \<Rightarrow> ((bool \<times> bool \<times> u64) \<times> utopia) outcome" where
  "seg_allocate ut i address app force =
     map_sum id (\<lambda>(res, rs, pa). (res, (put_seg ut i rs)\<lparr>ut_phys := pa\<rparr>)) (rs_allocate (ut_restsegs ut ! i) (ut_phys ut) address app force)"

definition set_last :: "bool \<Rightarrow> utopia \<Rightarrow> utopia" where
  "set_last in_restseg ut = ut\<lparr>ut_last_in_restseg := in_restseg, ut_last_caused_eviction := False, ut_last_evicted_address := 0\<rparr>"

text \<open>A level that allocates in a segment: \<open>None\<close> in the result lets the next level try.\<close>

definition try_segment :: "nat option \<Rightarrow> u64 \<Rightarrow> (ut_stats \<Rightarrow> ut_stats) \<Rightarrow> utopia \<Rightarrow> u64 \<Rightarrow> nat \<Rightarrow> ((u64 \<times> u64) option \<times> utopia) outcome" where
  "try_segment index bits counted ut address app =
     (case index of
        None \<Rightarrow> Inr (None, ut)
      | Some i \<Rightarrow>
          (case seg_allocate ut i address app False of
             Inl err \<Rightarrow> Inl err
           | Inr ((success, _), ut1) \<Rightarrow>
               if success
               then let ut2 = set_last True (ut_count (\<lambda>s. (counted s)\<lparr>us_restseg := add64 (us_restseg s) 1\<rparr>) ut1)
                    in Inr (Some (calculatePhysicalAddress (ut_restsegs ut2 ! i) address app, bits), ut2)
               else Inr (None, ut1)))"

definition try_thp :: "utopia \<Rightarrow> u64 \<Rightarrow> ((u64 \<times> u64) option \<times> utopia) outcome" where
  "try_thp ut address =
     (case tryAllocateTHP ut address of
        Inl err \<Rightarrow> Inl err
      | Inr ((phys, promoted), ut1) \<Rightarrow>
          if phys = minus1_64 then Inr (None, ut1)
          else if promoted
          then Inr (Some (phys, 21), ut_count (\<lambda>s. s\<lparr>us_flex_thp := add64 (us_flex_thp s) 1, us_flex := add64 (us_flex s) 1\<rparr>) (set_last False ut1))
          else Inr (Some (phys, 12), ut_count (\<lambda>s. s\<lparr>us_flex_4kb := add64 (us_flex_4kb s) 1, us_flex := add64 (us_flex s) 1\<rparr>) (set_last False ut1)))"

definition ut_buddy_allocate :: "utopia \<Rightarrow> u64 \<Rightarrow> (u64 \<times> utopia) outcome" where
  "ut_buddy_allocate ut sz = map_sum id (\<lambda>(page, bd). (page, ut\<lparr>ut_buddy := bd\<rparr>)) (allocate (ut_buddy ut) sz)"

definition flex_4kb :: "utopia \<Rightarrow> utopia" where
  "flex_4kb = ut_count (\<lambda>s. s\<lparr>us_flex_4kb := add64 (us_flex_4kb s) 1, us_flex := add64 (us_flex s) 1\<rparr>)"

definition ut_allocate :: "utopia \<Rightarrow> u64 \<Rightarrow> u64 \<Rightarrow> nat \<Rightarrow> bool \<Rightarrow> bool \<Rightarrow> ((u64 \<times> u64) \<times> utopia) outcome" where
  "ut_allocate ut0 sz address app is_pagetable is_instruction =
     (let ut = ut_count (\<lambda>s. s\<lparr>us_total := add64 (us_total s) 1\<rparr>) ut0 in
      if is_pagetable then map_sum id (\<lambda>(page, ut1). ((page, 12), flex_4kb ut1)) (ut_buddy_allocate ut sz)
      else if is_instruction then (case allocateInstruction (ut_phys ut) sz of (r, pa) \<Rightarrow> Inr (r, ut\<lparr>ut_phys := pa\<rparr>))
      else (case try_segment (ut_2mb_index ut) 21 (\<lambda>s. s\<lparr>us_restseg_2mb := add64 (us_restseg_2mb s) 1\<rparr>) ut address app of
        Inl err \<Rightarrow> Inl err
      | Inr (Some r, ut1) \<Rightarrow> Inr (r, ut1)
      | Inr (None, ut1) \<Rightarrow>
          (case try_thp ut1 address of
             Inl err \<Rightarrow> Inl err
           | Inr (Some r, ut2) \<Rightarrow> Inr (r, ut2)
           | Inr (None, ut2) \<Rightarrow>
               (case try_segment (ut_4kb_index ut2) 12 (\<lambda>s. s\<lparr>us_restseg_4kb := add64 (us_restseg_4kb s) 1\<rparr>) ut2 address app of
                  Inl err \<Rightarrow> Inl err
                | Inr (Some r, ut3) \<Rightarrow> Inr (r, ut3)
                | Inr (None, ut3) \<Rightarrow>
                    (case ut_buddy_allocate (set_last False ut3) sz of
                       Inl err \<Rightarrow> Inl err
                     | Inr (page, ut4) \<Rightarrow> if page \<noteq> minus1_64 then Inr ((page, 12), flex_4kb ut4) else Inr ((minus1_64, 12), ut4))))))"

definition ut_givePageFast :: "utopia \<Rightarrow> u64 \<Rightarrow> (u64 \<times> utopia) outcome" where
  "ut_givePageFast ut bytes = ut_buddy_allocate ut bytes"

definition ut_deallocate :: "utopia \<Rightarrow> u64 \<Rightarrow> utopia" where
  "ut_deallocate ut address = ut"

section \<open>Migration\<close>

text \<open>
  The loop over the segments with the target page size. The result is the new page number, 0 when the
  page does not move; the entry of the page table that the caller's policy deletes belongs
  to the page whose migration succeeds.
\<close>

definition migrated :: "utopia \<Rightarrow> nat \<Rightarrow> bool \<Rightarrow> u64 \<Rightarrow> utopia" where
  "migrated ut i evicted evicted_addr =
     (let ut1 = ut_count (\<lambda>s. s\<lparr>us_migrations := add64 (us_migrations s) 1\<rparr>) ut in
      if evicted
      then ut_count (\<lambda>s. s\<lparr>us_restseg_evictions := add64 (us_restseg_evictions s) 1\<rparr>)
             (ut1\<lparr>ut_last_caused_eviction := True, ut_last_evicted_address := evicted_addr,
                  ut_last_evicted_page_size_bits := rs_page_size_bits (ut_restsegs ut1 ! i)\<rparr>)
      else ut1)"

fun migrate_to :: "nat list \<Rightarrow> utopia \<Rightarrow> u64 \<Rightarrow> u64 \<Rightarrow> nat \<Rightarrow> nat \<Rightarrow> (u64 \<times> utopia) outcome" where
  "migrate_to [] ut address old_ppn bits app = Inr (0, ut)"
| "migrate_to (i # is) ut address old_ppn bits app =
     (if rs_page_size_bits (ut_restsegs ut ! i) \<noteq> bits then migrate_to is ut address old_ppn bits app
      else (case seg_allocate ut i address app True of
              Inl err \<Rightarrow> Inl err
            | Inr ((success, evicted, evicted_addr), ut1) \<Rightarrow>
                if \<not> success then migrate_to is ut1 address old_ppn bits app
                else let ut2 = migrated ut1 i evicted evicted_addr in
                     (case free (ut_buddy ut2) old_ppn old_ppn of
                        Inl err \<Rightarrow> Inl err
                      | Inr bd \<Rightarrow> let ut3 = ut2\<lparr>ut_buddy := bd\<rparr> in Inr (calculatePhysicalAddress (ut_restsegs ut3 ! i) address app, ut3))))"

definition migratePage :: "utopia \<Rightarrow> u64 \<Rightarrow> u64 \<Rightarrow> nat \<Rightarrow> nat \<Rightarrow> (u64 \<times> utopia) outcome" where
  "migratePage ut address old_ppn target_page_size_bits app =
     (case isInRestSeg ut address app of
        (True, ut1) \<Rightarrow> Inr (0, ut1)
      | (False, ut1) \<Rightarrow>
          if map_of (ut_thp_regions ut1) (drop_bit 21 address) \<noteq> None then Inr (0, ut1)
          else migrate_to [0..<length (ut_restsegs ut1)]
                 (ut1\<lparr>ut_last_caused_eviction := False, ut_last_evicted_address := 0, ut_last_evicted_page_size_bits := 12\<rparr>)
                 address old_ppn target_page_size_bits app)"

definition migration_target :: "utopia \<Rightarrow> nat option" where
  "migration_target ut =
     (case ut_4kb_index ut of
        Some i \<Rightarrow> Some (rs_page_size_bits (ut_restsegs ut ! i))
      | None \<Rightarrow> (case ut_2mb_index ut of Some i \<Rightarrow> Some 21 | None \<Rightarrow> None))"

definition considerCostBasedMigration :: "utopia \<Rightarrow> u64 \<Rightarrow> u64 \<Rightarrow> nat \<Rightarrow> nat \<Rightarrow> u64 \<Rightarrow> bool \<Rightarrow> ((bool \<times> u64) \<times> utopia) outcome" where
  "considerCostBasedMigration ut va current_ppn page_size_bits app vpn count_stats =
     (case migration_gate (ut_topk_config ut) (ut_topk ut) page_size_bits vpn count_stats of (r, st) \<Rightarrow>
        let ut1 = ut\<lparr>ut_topk := st\<rparr> in
        case r of
          None \<Rightarrow> Inr ((False, 0), ut1)
        | Some i \<Rightarrow>
            (case migration_target ut1 of
               None \<Rightarrow> Inr ((False, 0), ut1)
             | Some target \<Rightarrow>
                 (case migratePage ut1 va current_ppn target app of
                    Inl err \<Rightarrow> Inl err
                  | Inr (new_ppn, ut2) \<Rightarrow>
                      if new_ppn \<noteq> 0
                      then Inr ((True, new_ppn), ut2\<lparr>ut_topk := migration_done (ut_topk_config ut2) (ut_topk ut2) i vpn new_ppn count_stats\<rparr>)
                      else Inr ((False, 0), ut2))))"

text \<open>What the MMU does after a walk of a page of 4KB: \<open>mmu_utopia.cc\<close>, with the increments of the configuration.\<close>

definition cost_hook :: "utopia \<Rightarrow> u64 \<Rightarrow> u64 \<Rightarrow> nat \<Rightarrow> nat \<Rightarrow> nat \<Rightarrow> nat \<Rightarrow> bool \<Rightarrow> ((bool \<times> u64) \<times> utopia) outcome" where
  "cost_hook ut address ppn app dram_accesses ptw_base_inc dram_inc_cap count_stats =
     (let vpn = drop_bit 12 address;
          inc = (ptw_base_inc + min dram_accesses dram_inc_cap) mod 2 ^ 16;
          cfg = ut_topk_config ut;
          (score, st1) = bumpCostScore cfg (ut_topk ut) vpn inc;
          st2 = processEpochs cfg (updateCostTopK cfg st1 vpn score count_stats)
      in considerCostBasedMigration (ut\<lparr>ut_topk := st2\<rparr>) address ppn 12 app vpn count_stats)"

section \<open>The flexible segment\<close>

text \<open>The reserved regions and the buddy allocator, seen as the reservation-based allocator.\<close>

definition flex :: "utopia \<Rightarrow> reserve_thp" where
  "flex ut = \<lparr> rt_buddy = ut_buddy ut, two_mb_map = ut_thp_regions ut, threshold_for_promotion = ut_threshold ut, rt_frag_mode = RATIO_BASED,
     rt_target_free_2mb_count = 0, four_kb_allocated = 0, two_mb_reserved = 0, two_mb_promoted = 0, two_mb_demoted = 0, total_allocations = 0 \<rparr>"

definition flex_frame :: "utopia \<Rightarrow> u64 \<Rightarrow> u64 option" where
  "flex_frame ut a =
     (case map_of (ut_thp_regions ut) (va_region a) of
        None \<Rightarrow> None
      | Some r \<Rightarrow> if region_promoted r \<or> va_offset a \<in> region_bits r then Some (region_begin r + va_offset a) else None)"

lemma flex_sel [simp]: "rt_buddy (flex ut) = ut_buddy ut" "two_mb_map (flex ut) = ut_thp_regions ut"
  by (simp_all add: flex_def)

lemma flex_cong:
  assumes "ut_buddy ut' = ut_buddy ut" "ut_thp_regions ut' = ut_thp_regions ut"
  shows "thp_base (flex ut') = thp_base (flex ut)" "thp_pages (flex ut') = thp_pages (flex ut)" "flex_frame ut' = flex_frame ut"
  using assms by (simp_all add: thp_base_def thp_pages_def flex_frame_def fun_eq_iff)

lemma ut_count_sel [simp]:
  "ut_buddy (ut_count f ut) = ut_buddy ut" "ut_thp_regions (ut_count f ut) = ut_thp_regions ut" "ut_restsegs (ut_count f ut) = ut_restsegs ut"
  "ut_2mb_index (ut_count f ut) = ut_2mb_index ut" "ut_4kb_index (ut_count f ut) = ut_4kb_index ut" "ut_phys (ut_count f ut) = ut_phys ut"
  "ut_threshold (ut_count f ut) = ut_threshold ut"
  "ut_buddy (set_last b ut) = ut_buddy ut" "ut_thp_regions (set_last b ut) = ut_thp_regions ut" "ut_restsegs (set_last b ut) = ut_restsegs ut"
  "ut_2mb_index (set_last b ut) = ut_2mb_index ut" "ut_4kb_index (set_last b ut) = ut_4kb_index ut" "ut_phys (set_last b ut) = ut_phys ut"
  "ut_buddy (flex_4kb ut) = ut_buddy ut" "ut_thp_regions (flex_4kb ut) = ut_thp_regions ut" "ut_restsegs (flex_4kb ut) = ut_restsegs ut"
  "ut_2mb_index (flex_4kb ut) = ut_2mb_index ut" "ut_4kb_index (flex_4kb ut) = ut_4kb_index ut" "ut_phys (flex_4kb ut) = ut_phys ut"
  by (simp_all add: ut_count_def set_last_def flex_4kb_def)

text \<open>Two pages with a frame in the regions have different frames, and those are not free.\<close>

lemma flex_frame_region:
  assumes "flex_frame ut a = Some f"
  shows "\<exists>r. map_of (ut_thp_regions ut) (va_region a) = Some r \<and> f = region_begin r + va_offset a \<and> f \<in># region_pages r"
proof -
  obtain r where "map_of (ut_thp_regions ut) (va_region a) = Some r" "f = region_begin r + va_offset a"
    using assms by (auto simp: flex_frame_def split: option.splits if_splits)
  then show ?thesis by (simp add: region_pages_def)
qed

lemma flex_frame_inj:
  assumes b: "thp_base (flex ut)" and f: "flex_frame ut a = Some f" "flex_frame ut a' = Some f"
  shows "a div 4096 = a' div 4096"
proof -
  obtain r r' where r: "map_of (ut_thp_regions ut) (va_region a) = Some r" "f = region_begin r + va_offset a" "f \<in># region_pages r"
    and r': "map_of (ut_thp_regions ut) (va_region a') = Some r'" "f = region_begin r' + va_offset a'" "f \<in># region_pages r'"
    using flex_frame_region [OF f(1)] flex_frame_region [OF f(2)] by blast
  have "va_region a = va_region a'" by (rule regions_disjoint [OF b _ _ r(3) r'(3)]) (use r(1) r'(1) in simp_all)
  with r r' show ?thesis by (simp add: va_page_eq_iff)
qed

lemma flex_frame_page: "flex_frame ut a = Some f \<Longrightarrow> f \<in># thp_pages (flex ut)"
  using flex_frame_region [of ut a f] by (auto simp: thp_pages_def in_Union_mset_iff dest!: map_of_SomeD intro!: bexI)

text \<open>Growth of the regions: bits are added, regions may be promoted.\<close>

definition regions_grow :: "utopia \<Rightarrow> utopia \<Rightarrow> bool" where
  "regions_grow ut ut' \<longleftrightarrow> (\<forall>a f. flex_frame ut a = Some f \<longrightarrow> flex_frame ut' a = Some f)"

lemma regions_grow_put:
  assumes "map_of (ut_thp_regions ut) k = None \<or> (\<exists>r. map_of (ut_thp_regions ut) k = Some r \<and> region_begin r' = region_begin r \<and>
      region_bits r \<subseteq> region_bits r' \<and> (region_promoted r \<longrightarrow> region_promoted r'))"
    and "ut_thp_regions ut' = map_put k r' (ut_thp_regions ut)"
  shows "regions_grow ut ut'"
  using assms by (auto simp: regions_grow_def flex_frame_def split: option.splits if_splits)

definition same_segs :: "utopia \<Rightarrow> utopia \<Rightarrow> bool" where
  "same_segs ut ut' \<longleftrightarrow> ut_restsegs ut' = ut_restsegs ut \<and> ut_2mb_index ut' = ut_2mb_index ut \<and> ut_4kb_index ut' = ut_4kb_index ut"

lemma ut_track_ok:
  assumes b: "thp_base (flex ut)" and t: "ut_track ut k = Inr (ok, ut1)"
  shows "thp_base (flex ut1)" "thp_pages (flex ut1) = thp_pages (flex ut)" "same_segs ut ut1" "regions_grow ut ut1"
    "ok \<Longrightarrow> \<exists>r. map_of (ut_thp_regions ut1) k = Some r" "\<not> ok \<Longrightarrow> flex ut1 = flex ut \<and> map_of (ut_thp_regions ut) k = None"
proof -
  have "thp_base (flex ut1) \<and> thp_pages (flex ut1) = thp_pages (flex ut) \<and> same_segs ut ut1 \<and> regions_grow ut ut1 \<and>
    (ok \<longrightarrow> (\<exists>r. map_of (ut_thp_regions ut1) k = Some r)) \<and> (\<not> ok \<longrightarrow> flex ut1 = flex ut \<and> map_of (ut_thp_regions ut) k = None)"
  proof (cases "map_of (ut_thp_regions ut) k")
    case (Some r)
    then have "ok" "ut1 = ut" using t by (simp_all add: ut_track_def)
    then show ?thesis using b Some by (simp add: same_segs_def regions_grow_def)
  next
    case None
    obtain bl bd where r: "reserve_2mb_page (ut_buddy ut) = Inr (bl, bd)" using t None by (auto simp: ut_track_def split: sum.splits)
    show ?thesis
    proof (cases "blk_start bl = minus1_64")
      case True
      then have u: "\<not> ok" "ut1 = ut\<lparr>ut_buddy := bd\<rparr>" using t None r by (simp_all add: ut_track_def)
      have "bd = ut_buddy ut" by (rule reserve_fail_same [OF _ r True]) (use thp_baseD(1) [OF b] in simp)
      then have "flex ut1 = flex ut" using u(2) by (simp add: flex_def)
      then show ?thesis using u b None by (simp add: same_segs_def regions_grow_def flex_frame_def)
    next
      case False
      let ?r = "\<lparr>region_begin = blk_start bl, region_bits = {}, region_promoted = False\<rparr>"
      have u: "ok" "ut1 = ut_count (\<lambda>s. s\<lparr>us_thp_reserved := add64 (us_thp_reserved s) 1\<rparr>) (ut\<lparr>ut_buddy := bd, ut_thp_regions := map_put k ?r (ut_thp_regions ut)\<rparr>)"
        using t None r False by (simp_all add: ut_track_def)
      have rr: "reserve_region (flex ut) k = Inr (True, (flex ut)\<lparr>rt_buddy := bd, two_mb_map := map_put k ?r (ut_thp_regions ut), two_mb_reserved := add64 (two_mb_reserved (flex ut)) 1\<rparr>)"
        using r False by (simp add: reserve_region_def)
      have f: "thp_base (flex ut1) = thp_base ((flex ut)\<lparr>rt_buddy := bd, two_mb_map := map_put k ?r (ut_thp_regions ut), two_mb_reserved := add64 (two_mb_reserved (flex ut)) 1\<rparr>)"
        "thp_pages (flex ut1) = thp_pages ((flex ut)\<lparr>rt_buddy := bd, two_mb_map := map_put k ?r (ut_thp_regions ut), two_mb_reserved := add64 (two_mb_reserved (flex ut)) 1\<rparr>)"
        by (simp_all add: u(2) thp_base_def thp_pages_def)
      have "regions_grow ut ut1" by (rule regions_grow_put [of _ k ?r]) (use None in \<open>simp_all add: u(2)\<close>)
      moreover have "thp_base (flex ut1) \<and> thp_pages (flex ut1) = thp_pages (flex ut)" unfolding f using reserve_region_ok [OF b _ rr] None by simp
      moreover have "same_segs ut ut1" "map_of (ut_thp_regions ut1) k = Some ?r" by (simp_all add: u(2) same_segs_def)
      ultimately show ?thesis using u(1) by blast
    qed
  qed
  then show "thp_base (flex ut1)" "thp_pages (flex ut1) = thp_pages (flex ut)" "same_segs ut ut1" "regions_grow ut ut1"
    "ok \<Longrightarrow> \<exists>r. map_of (ut_thp_regions ut1) k = Some r" "\<not> ok \<Longrightarrow> flex ut1 = flex ut \<and> map_of (ut_thp_regions ut) k = None" by blast+
qed

lemma va_bits: "drop_bit 21 a = va_region a" "drop_bit 12 a mod 512 = va_offset a"
  by (simp_all add: va_region_def va_offset_def drop_bit_eq_div)

lemma regions_grow_trans: "regions_grow a b \<Longrightarrow> regions_grow b c \<Longrightarrow> regions_grow a c"
  by (simp add: regions_grow_def)

lemma same_segs_trans: "same_segs a b \<Longrightarrow> same_segs b c \<Longrightarrow> same_segs a c"
  by (simp add: same_segs_def)

lemma put_region_ok:
  assumes b: "thp_base (flex ut)" and r: "map_of (ut_thp_regions ut) (va_region a) = Some r"
    and r': "region_begin r' = region_begin r" "region_bits r' = insert (va_offset a) (region_bits r)" "region_promoted r \<longrightarrow> region_promoted r'"
    and u: "ut_thp_regions ut' = map_put (va_region a) r' (ut_thp_regions ut)" "ut_buddy ut' = ut_buddy ut"
  shows "thp_base (flex ut')" "thp_pages (flex ut') = thp_pages (flex ut)" "regions_grow ut ut'" "flex_frame ut' a = Some (region_begin r + va_offset a)"
proof -
  have m: "map_of (two_mb_map (flex ut)) (va_region a) = Some r" using r by simp
  have "region_ok r" by (rule thp_baseD(4) [OF b m])
  then have ok: "region_ok r'" using r'(1,2) va_offset_less [of a] by (auto simp: region_ok_def simp del: va_offset_less)
  have e: "thp_base (flex ut') = thp_base ((flex ut)\<lparr>two_mb_map := map_put (va_region a) r' (two_mb_map (flex ut))\<rparr>)"
    "thp_pages (flex ut') = thp_pages ((flex ut)\<lparr>two_mb_map := map_put (va_region a) r' (two_mb_map (flex ut))\<rparr>)"
    using u by (simp_all add: thp_base_def thp_pages_def)
  show "thp_base (flex ut')" "thp_pages (flex ut') = thp_pages (flex ut)" unfolding e using thp_base_put [OF b m r'(1) ok] by simp_all
  show "regions_grow ut ut'" by (rule regions_grow_put [OF _ u(1)]) (use r r' in auto)
  show "flex_frame ut' a = Some (region_begin r + va_offset a)" using r'(1,2) by (simp add: flex_frame_def u(1))
qed

lemma tryAllocateTHP_ok:
  assumes b: "thp_base (flex ut)" and t: "tryAllocateTHP ut a = Inr ((page, pr), ut')"
  shows "thp_base (flex ut') \<and> thp_pages (flex ut') = thp_pages (flex ut) \<and> same_segs ut ut' \<and> regions_grow ut ut' \<and>
    (if page = minus1_64 then flex ut' = flex ut else flex_frame ut' a = Some (if pr then page + va_offset a else page))"
proof -
  obtain ok ut1 where k: "ut_track ut (va_region a) = Inr (ok, ut1)" using t by (auto simp: tryAllocateTHP_def Let_def va_bits split: sum.splits)
  note K = ut_track_ok [OF b k]
  show ?thesis
  proof (cases ok)
    case False
    then have "page = minus1_64" "ut' = ut1" using t k by (simp_all add: tryAllocateTHP_def Let_def va_bits)
    then show ?thesis using K(1-4) K(6) [OF False] by simp
  next
    case True
    then obtain r where r: "map_of (ut_thp_regions ut1) (va_region a) = Some r" using K(5) by blast
    have rb: "region_begin r + 512 < 2 ^ 64" using thp_baseD(4) [OF K(1), of "va_region a" r] r by (simp add: region_ok_def)
    have off: "va_offset a < 512" by simp
    have ad: "add64 (region_begin r) (va_offset a) = region_begin r + va_offset a" using rb off by (intro add64_exact) linarith
    have ne: "region_begin r + va_offset a \<noteq> minus1_64" "region_begin r \<noteq> minus1_64" using rb off unfolding minus1_64_def by linarith+
    let ?r1 = "r\<lparr>region_bits := insert (va_offset a) (region_bits r)\<rparr>"
    consider (promoted) "region_promoted r" "page = region_begin r" "pr" "ut' = ut1"
      | (again) "va_offset a \<in> region_bits r" "page = region_begin r + va_offset a" "\<not> pr" "ut' = ut1"
      | (promote) "page = region_begin r" "pr" "ut_thp_regions ut' = map_put (va_region a) (?r1\<lparr>region_promoted := True\<rparr>) (ut_thp_regions ut1)" "ut_buddy ut' = ut_buddy ut1" "same_segs ut1 ut'"
      | (mark) "page = region_begin r + va_offset a" "\<not> pr" "ut_thp_regions ut' = map_put (va_region a) ?r1 (ut_thp_regions ut1)" "ut_buddy ut' = ut_buddy ut1" "same_segs ut1 ut'" "\<not> region_promoted r"
      using t k True r by (auto simp: tryAllocateTHP_def Let_def va_bits ad same_segs_def split: if_splits)
    then show ?thesis
    proof cases
      case promoted
      then show ?thesis using K(1-4) r ne by (simp add: flex_frame_def)
    next
      case again
      then show ?thesis using K(1-4) r ne by (simp add: flex_frame_def)
    next
      case promote
      have P: "thp_base (flex ut')" "thp_pages (flex ut') = thp_pages (flex ut1)" "regions_grow ut1 ut'" "flex_frame ut' a = Some (region_begin r + va_offset a)"
        by (rule put_region_ok [OF K(1) r _ _ _ promote(3,4)]; simp)+
      then show ?thesis using K(2-4) promote(1,2,5) ne regions_grow_trans same_segs_trans by auto
    next
      case mark
      have P: "thp_base (flex ut')" "thp_pages (flex ut') = thp_pages (flex ut1)" "regions_grow ut1 ut'" "flex_frame ut' a = Some (region_begin r + va_offset a)"
        by (rule put_region_ok [OF K(1) r _ _ _ mark(3,4)]; simp)+
      then show ?thesis using K(2-4) mark(1,2,5) ne regions_grow_trans same_segs_trans by auto
    qed
  qed
qed

section \<open>The segments\<close>

definition ut_inv :: "utopia \<Rightarrow> bool" where
  "ut_inv ut \<longleftrightarrow> thp_base (flex ut) \<and> (\<forall>rs \<in> set (ut_restsegs ut). rs_inv rs) \<and>
     (\<forall>i. ut_2mb_index ut = Some i \<longrightarrow> i < length (ut_restsegs ut) \<and> rs_page_size_bits (ut_restsegs ut ! i) = 21) \<and>
     (\<forall>i. ut_4kb_index ut = Some i \<longrightarrow> i < length (ut_restsegs ut) \<and> rs_page_size_bits (ut_restsegs ut ! i) = 12)"

text \<open>A segment keeps the places of its pages; it may get more.\<close>

definition keeps_pages :: "rest_seg \<Rightarrow> rest_seg \<Rightarrow> bool" where
  "keeps_pages rs rs' \<longleftrightarrow> same_config rs rs' \<and> (\<forall>app v w. page_ok rs v \<and> resident rs app v = Some w \<longrightarrow> resident rs' app v = Some w)"

definition segs_kept :: "utopia \<Rightarrow> utopia \<Rightarrow> bool" where
  "segs_kept ut ut' \<longleftrightarrow> length (ut_restsegs ut') = length (ut_restsegs ut) \<and>
     (\<forall>i < length (ut_restsegs ut). keeps_pages (ut_restsegs ut ! i) (ut_restsegs ut' ! i))"

lemma keeps_pages_refl: "keeps_pages rs rs"
  by (simp add: keeps_pages_def same_config_def)

lemma page_ok_config: "same_config rs rs' \<Longrightarrow> page_ok rs' v = page_ok rs v"
  by (simp add: same_config_def page_ok_def)

lemma keeps_pages_trans: "keeps_pages a b \<Longrightarrow> keeps_pages b c \<Longrightarrow> keeps_pages a c"
  using page_ok_config [of a b] by (auto simp: keeps_pages_def same_config_def)

lemma segs_kept_trans: "segs_kept a b \<Longrightarrow> segs_kept b c \<Longrightarrow> segs_kept a c"
  using keeps_pages_trans by (auto simp: segs_kept_def)

lemma segs_kept_same: "ut_restsegs ut' = ut_restsegs ut \<Longrightarrow> segs_kept ut ut'"
  by (simp add: segs_kept_def keeps_pages_refl)

lemma segs_kept_update:
  assumes "ut_restsegs ut' = (ut_restsegs ut)[i := rs]" "keeps_pages (ut_restsegs ut ! i) rs" "i < length (ut_restsegs ut)"
  shows "segs_kept ut ut'"
  using assms by (auto simp: segs_kept_def nth_list_update keeps_pages_refl)

lemma keeps_pages_lookup:
  assumes "keeps_pages rs rs'" "rs_page_size_bits rs \<le> 48" "a < 2 ^ 48" "lookupWay rs a app = Some w"
  shows "lookupWay rs' a app = Some w" "calculatePhysicalAddress rs' a app = calculatePhysicalAddress rs a app"
proof -
  have c: "same_config rs rs'" using assms(1) by (simp add: keeps_pages_def)
  then have pb: "rs_page_size_bits rs' = rs_page_size_bits rs" "rs_num_sets rs' = rs_num_sets rs" "rs_associativity rs' = rs_associativity rs"
    "rs_base_physical_address rs' = rs_base_physical_address rs" by (simp_all add: same_config_def)
  show l: "lookupWay rs' a app = Some w"
    using assms(1,4) page_ok_address [OF assms(3,2)] by (simp add: keeps_pages_def lookupWay_resident pb)
  have "rs_splitAddress rs' a = rs_splitAddress rs a" by (simp add: rs_splitAddress_slot pb)
  with l assms(4) show "calculatePhysicalAddress rs' a app = calculatePhysicalAddress rs a app"
    by (simp add: calculatePhysicalAddress_def lookupWay_def pb split: prod.splits)
qed

lemma rs_inv_bits: "rs_inv rs \<Longrightarrow> rs_page_size_bits rs \<le> 48"
  by (simp add: rs_inv_def rs_shape_def)

lemma ut_inv_segs:
  assumes "ut_inv ut" "thp_base (flex ut')" "ut_2mb_index ut' = ut_2mb_index ut" "ut_4kb_index ut' = ut_4kb_index ut"
    and "length (ut_restsegs ut') = length (ut_restsegs ut)" "\<And>j. j < length (ut_restsegs ut) \<Longrightarrow> rs_inv (ut_restsegs ut' ! j) \<and> same_config (ut_restsegs ut ! j) (ut_restsegs ut' ! j)"
  shows "ut_inv ut'"
  using assms unfolding ut_inv_def same_config_def by (auto simp: in_set_conv_nth)

lemma ut_inv_seg: "ut_inv ut \<Longrightarrow> i < length (ut_restsegs ut) \<Longrightarrow> rs_inv (ut_restsegs ut ! i)"
  by (simp add: ut_inv_def)

lemma ut_inv_put:
  assumes inv: "ut_inv ut" and i: "i < length (ut_restsegs ut)" and rs: "rs_inv rs" "same_config (ut_restsegs ut ! i) rs"
    and u: "ut_restsegs u = (ut_restsegs ut)[i := rs]" "thp_base (flex u)" "ut_2mb_index u = ut_2mb_index ut" "ut_4kb_index u = ut_4kb_index ut"
  shows "ut_inv u"
proof (rule ut_inv_segs [OF inv u(2-4)])
  show "rs_inv (ut_restsegs u ! j) \<and> same_config (ut_restsegs ut ! j) (ut_restsegs u ! j)" if "j < length (ut_restsegs ut)" for j
    using ut_inv_seg [OF inv that] rs i that by (cases "j = i") (simp_all add: u(1) same_config_def)
qed (simp add: u(1))

text \<open>A forced allocation may evict a page, one that is not forced keeps all pages.\<close>

lemma seg_allocate_ok:
  assumes inv: "ut_inv ut" and i: "i < length (ut_restsegs ut)" and a: "a < 2 ^ 48"
  shows "\<exists>success evicted ev rs pa. seg_allocate ut i a app force = Inr ((success, evicted, ev), (put_seg ut i rs)\<lparr>ut_phys := pa\<rparr>) \<and>
    rs_inv rs \<and> same_config (ut_restsegs ut ! i) rs \<and> (success \<longleftrightarrow> lookupWay rs a app \<noteq> None) \<and>
    alloc_post (ut_restsegs ut ! i) app (drop_bit (rs_page_size_bits (ut_restsegs ut ! i)) a) force (success, evicted, ev) rs \<and>
    (\<not> evicted \<longrightarrow> keeps_pages (ut_restsegs ut ! i) rs) \<and> (evicted \<longrightarrow> force \<and> success)"
proof -
  let ?rs = "ut_restsegs ut ! i" and ?v = "drop_bit (rs_page_size_bits (ut_restsegs ut ! i)) a"
  have I: "rs_inv ?rs" by (rule ut_inv_seg [OF inv i])
  have ok: "page_ok ?rs ?v" by (rule page_ok_address [OF a rs_inv_bits [OF I]])
  obtain success evicted ev rs pa where r: "rs_allocate ?rs (ut_phys ut) a app force = Inr ((success, evicted, ev), rs, pa)" "rs_inv rs" "same_config ?rs rs"
    "alloc_post ?rs app ?v force (success, evicted, ev) rs"
    using rs_allocate_cases [OF I ok refl, of "ut_phys ut" app force] by auto
  have s: "seg_allocate ut i a app force = Inr ((success, evicted, ev), (put_seg ut i rs)\<lparr>ut_phys := pa\<rparr>)" by (simp add: seg_allocate_def r(1))
  have l: "lookupWay rs a app = resident rs app ?v" using r(3) by (simp add: lookupWay_resident same_config_def)
  have "(success \<longleftrightarrow> resident rs app ?v \<noteq> None) \<and> (\<not> evicted \<longrightarrow> keeps_pages ?rs rs) \<and> (evicted \<longrightarrow> force \<and> success)"
  proof (rule alloc_post_cases [OF I ok r(4)])
    assume n: "\<not> evicted" "success \<longleftrightarrow> resident rs app ?v \<noteq> None" "resident ?rs app ?v \<noteq> None \<longrightarrow> success \<and> resident rs app ?v = resident ?rs app ?v"
      "\<And>app' v. page_ok ?rs v \<Longrightarrow> (app', v) \<noteq> (app, ?v) \<Longrightarrow> resident rs app' v = resident ?rs app' v"
    have "resident rs app' v = Some w" if h: "page_ok ?rs v" "resident ?rs app' v = Some w" for app' v w
    proof (cases "(app', v) = (app, ?v)")
      case True
      then show ?thesis using n(3) h(2) by auto
    next
      case False
      then show ?thesis using n(4) [OF h(1) False] h(2) by simp
    qed
    then show ?thesis using n(1,2) r(3) by (simp add: keeps_pages_def)
  qed simp
  then have "success \<longleftrightarrow> lookupWay rs a app \<noteq> None" "\<not> evicted \<longrightarrow> keeps_pages ?rs rs" "evicted \<longrightarrow> force \<and> success" unfolding l by blast+
  with s r(2-4) show ?thesis by blast
qed

lemma try_segment_ok:
  assumes inv: "ut_inv ut" and idx: "\<And>i. index = Some i \<Longrightarrow> i < length (ut_restsegs ut)" and a: "a < 2 ^ 48"
  shows "\<exists>r ut'. try_segment index bits counted ut a app = Inr (r, ut') \<and> ut_inv ut' \<and> segs_kept ut ut' \<and> flex_frame ut' = flex_frame ut \<and>
    ut_buddy ut' = ut_buddy ut \<and> ut_thp_regions ut' = ut_thp_regions ut \<and> ut_2mb_index ut' = ut_2mb_index ut \<and> ut_4kb_index ut' = ut_4kb_index ut \<and>
    (\<forall>p b. r = Some (p, b) \<longrightarrow> b = bits \<and> (\<exists>i. index = Some i \<and> lookupWay (ut_restsegs ut' ! i) a app \<noteq> None \<and> p = calculatePhysicalAddress (ut_restsegs ut' ! i) a app))"
proof (cases index)
  case None
  then show ?thesis using inv by (simp add: try_segment_def segs_kept_same)
next
  case (Some i)
  note i = idx [OF Some]
  obtain success evicted ev rs pa where s: "seg_allocate ut i a app False = Inr ((success, evicted, ev), (put_seg ut i rs)\<lparr>ut_phys := pa\<rparr>)"
    "rs_inv rs" "same_config (ut_restsegs ut ! i) rs" "success \<longleftrightarrow> lookupWay rs a app \<noteq> None" "keeps_pages (ut_restsegs ut ! i) rs"
    using seg_allocate_ok [OF inv i a, of app False] by auto
  let ?u1 = "(put_seg ut i rs)\<lparr>ut_phys := pa\<rparr>"
  let ?u2 = "set_last True (ut_count (\<lambda>s. (counted s)\<lparr>us_restseg := add64 (us_restseg s) 1\<rparr>) ?u1)"
  have t: "try_segment index bits counted ut a app = (if success then Inr (Some (calculatePhysicalAddress (ut_restsegs ?u2 ! i) a app, bits), ?u2) else Inr (None, ?u1))"
    by (simp add: try_segment_def Some s(1) Let_def)
  have keep: "ut_inv u \<and> segs_kept ut u \<and> flex_frame u = flex_frame ut" if u: "ut_restsegs u = (ut_restsegs ut)[i := rs]" "ut_buddy u = ut_buddy ut" "ut_thp_regions u = ut_thp_regions ut"
      "ut_2mb_index u = ut_2mb_index ut" "ut_4kb_index u = ut_4kb_index ut" for u
  proof -
    have "thp_base (flex u)" using flex_cong(1) [OF u(2,3)] inv by (simp add: ut_inv_def)
    then have "ut_inv u" by (rule ut_inv_put [OF inv i s(2,3) u(1) _ u(4,5)])
    then show ?thesis using segs_kept_update [OF u(1) s(5) i] flex_cong(3) [OF u(2,3)] by blast
  qed
  have k1: "ut_inv ?u1 \<and> segs_kept ut ?u1 \<and> flex_frame ?u1 = flex_frame ut" by (rule keep) (simp_all add: put_seg_def)
  have k2: "ut_inv ?u2 \<and> segs_kept ut ?u2 \<and> flex_frame ?u2 = flex_frame ut" by (rule keep) (simp_all add: put_seg_def)
  show ?thesis
  proof (cases success)
    case True
    have "ut_restsegs ?u2 ! i = rs" using i by (simp add: put_seg_def)
    with True t k2 s(4) Some show ?thesis by (simp add: put_seg_def)
  next
    case False
    with t k1 show ?thesis by (simp add: put_seg_def)
  qed
qed

section \<open>Allocation reaches one of the four levels\<close>

lemma ut_track_total:
  assumes "thp_base (flex ut)" "4 \<le> m_max_order (ut_buddy ut)"
  shows "\<exists>ok ut1. ut_track ut k = Inr (ok, ut1) \<and> m_max_order (ut_buddy ut1) = m_max_order (ut_buddy ut) \<and> m_free_pages (ut_buddy ut1) = m_free_pages (ut_buddy ut)"
proof (cases "map_of (ut_thp_regions ut) k")
  case None
  have "buddy_inv (ut_buddy ut)" using thp_baseD(1) [OF assms(1)] by simp
  from reserve_total [OF this assms(2)] None show ?thesis by (auto simp: ut_track_def)
qed (auto simp: ut_track_def)

lemma tryAllocateTHP_total:
  assumes b: "thp_base (flex ut)" and m: "4 \<le> m_max_order (ut_buddy ut)"
  shows "\<exists>page pr ut'. tryAllocateTHP ut a = Inr ((page, pr), ut') \<and> m_max_order (ut_buddy ut') = m_max_order (ut_buddy ut) \<and> m_free_pages (ut_buddy ut') = m_free_pages (ut_buddy ut)"
proof -
  obtain ok ut1 where k: "ut_track ut (va_region a) = Inr (ok, ut1)" "m_max_order (ut_buddy ut1) = m_max_order (ut_buddy ut)" "m_free_pages (ut_buddy ut1) = m_free_pages (ut_buddy ut)" using ut_track_total [OF b m] by blast
  show ?thesis
  proof (cases ok)
    case False
    then show ?thesis using k by (auto simp: tryAllocateTHP_def Let_def va_bits)
  next
    case True
    then obtain r where "map_of (ut_thp_regions ut1) (va_region a) = Some r" using ut_track_ok(5) [OF b k(1)] by blast
    with True k show ?thesis by (auto simp: tryAllocateTHP_def Let_def va_bits)
  qed
qed

lemma ut_buddy_allocate_ok:
  assumes b: "thp_base (flex ut)" and n: "4096 \<le> sz" "ceil_log2 (sz div 4096) \<le> m_max_order (ut_buddy ut) + 1"
  shows "\<exists>p bd. ut_buddy_allocate ut sz = Inr (p, ut\<lparr>ut_buddy := bd\<rparr>) \<and> thp_base (flex (ut\<lparr>ut_buddy := bd\<rparr>)) \<and> m_max_order bd = m_max_order (ut_buddy ut) \<and>
    m_free_pages bd + size (thp_pages (flex ut)) = m_free_pages (ut_buddy ut) + size (thp_pages (flex (ut\<lparr>ut_buddy := bd\<rparr>))) \<and>
    (if p = minus1_64 then bd = ut_buddy ut
     else thp_pages (flex (ut\<lparr>ut_buddy := bd\<rparr>)) + mset [p..<p + 2 ^ ceil_log2 (sz div 4096)] = thp_pages (flex ut))"
proof -
  have i: "buddy_inv (ut_buddy ut)" using thp_baseD(1) [OF b] by simp
  obtain p bd where a: "allocate (ut_buddy ut) sz = Inr (p, bd)" "m_max_order bd = m_max_order (ut_buddy ut)" using allocate_total [OF i n] by blast
  let ?u = "ut\<lparr>ut_buddy := bd\<rparr>" and ?G = "mset [p..<p + 2 ^ ceil_log2 (sz div 4096)]"
  have u: "ut_buddy_allocate ut sz = Inr (p, ?u)" by (simp add: ut_buddy_allocate_def a(1))
  show ?thesis
  proof (cases "p = minus1_64")
    case True
    then have "bd = ut_buddy ut" using allocate_fail_same [OF i] a(1) by simp
    then show ?thesis using u a(2) b True by simp
  next
    case False
    note A = allocate_outcomes [OF i a(1) False]
    then have pg: "free_pages (free_list bd) + ?G = free_pages (free_list (ut_buddy ut))" by blast
    have q: "thp_pages (flex ?u) + ?G = thp_pages (flex ut)" unfolding thp_pages_def by (simp add: pg [symmetric] ac_simps)
    have "count (thp_pages (flex ?u)) x \<le> 1" for x using thp_baseD(3) [OF b, of x] unfolding q [symmetric] by simp
    then have "thp_base (flex ?u)" using b A by (simp add: thp_base_def)
    moreover have "size (thp_pages (flex ut)) = size (thp_pages (flex ?u)) + 2 ^ ceil_log2 (sz div 4096)" unfolding q [symmetric] by simp
    then have "m_free_pages bd + size (thp_pages (flex ut)) = m_free_pages (ut_buddy ut) + size (thp_pages (flex ?u))" using A by linarith
    ultimately show ?thesis using u a(2) q False by auto
  qed
qed

text \<open>
  Where an allocation put its page: in a segment, in a reserved region, in pages taken from the
  buddy allocator, or nowhere when the memory is exhausted.
\<close>

definition placed_at :: "utopia \<Rightarrow> utopia \<Rightarrow> u64 \<Rightarrow> u64 \<Rightarrow> nat \<Rightarrow> u64 \<Rightarrow> u64 \<Rightarrow> bool" where
  "placed_at ut ut' sz a app p b \<longleftrightarrow>
     (\<exists>i < length (ut_restsegs ut'). b = rs_page_size_bits (ut_restsegs ut' ! i) \<and> lookupWay (ut_restsegs ut' ! i) a app \<noteq> None \<and>
        p = calculatePhysicalAddress (ut_restsegs ut' ! i) a app \<and> thp_pages (flex ut') = thp_pages (flex ut)) \<or>
     flex_frame ut' a = Some (if b = 21 then p + va_offset a else p) \<and> (b = 12 \<or> b = 21) \<and> thp_pages (flex ut') = thp_pages (flex ut) \<or>
     b = 12 \<and> p \<noteq> minus1_64 \<and> thp_pages (flex ut') + mset [p..<p + 2 ^ ceil_log2 (sz div 4096)] = thp_pages (flex ut) \<or>
     b = 12 \<and> p = minus1_64 \<and> thp_pages (flex ut') = thp_pages (flex ut)"

lemma try_thp_ok:
  assumes inv: "ut_inv ut" and m: "4 \<le> m_max_order (ut_buddy ut)"
  shows "\<exists>r ut'. try_thp ut a = Inr (r, ut') \<and> ut_inv ut' \<and> same_segs ut ut' \<and> regions_grow ut ut' \<and> m_max_order (ut_buddy ut') = m_max_order (ut_buddy ut) \<and>
    m_free_pages (ut_buddy ut') = m_free_pages (ut_buddy ut) \<and> thp_pages (flex ut') = thp_pages (flex ut) \<and>
    (\<forall>p b. r = Some (p, b) \<longrightarrow> (b = 12 \<or> b = 21) \<and> flex_frame ut' a = Some (if b = 21 then p + va_offset a else p))"
proof -
  have b: "thp_base (flex ut)" using inv by (simp add: ut_inv_def)
  obtain page pr ut1 where t: "tryAllocateTHP ut a = Inr ((page, pr), ut1)" "m_max_order (ut_buddy ut1) = m_max_order (ut_buddy ut)" "m_free_pages (ut_buddy ut1) = m_free_pages (ut_buddy ut)"
    using tryAllocateTHP_total [OF b m] by blast
  note T = tryAllocateTHP_ok [OF b t(1)]
  have keep: "ut_inv u \<and> same_segs ut u \<and> regions_grow ut u \<and> m_max_order (ut_buddy u) = m_max_order (ut_buddy ut) \<and> m_free_pages (ut_buddy u) = m_free_pages (ut_buddy ut) \<and> thp_pages (flex u) = thp_pages (flex ut) \<and> flex_frame u = flex_frame ut1"
    if u: "ut_buddy u = ut_buddy ut1" "ut_thp_regions u = ut_thp_regions ut1" "same_segs ut1 u" for u
  proof -
    have s: "same_segs ut u" using same_segs_trans T u(3) by blast
    have "thp_base (flex u)" using flex_cong(1) [OF u(1,2)] T by simp
    then have "ut_inv u" using inv s by (simp add: ut_inv_def same_segs_def)
    moreover have "regions_grow ut u" using T flex_cong(3) [OF u(1,2)] by (simp add: regions_grow_def)
    ultimately show ?thesis using s t(2,3) u(1) flex_cong(2,3) [OF u(1,2)] T by simp
  qed
  show ?thesis
  proof (cases "page = minus1_64")
    case True
    then have "try_thp ut a = Inr (None, ut1)" by (simp add: try_thp_def t(1))
    with keep [of ut1] show ?thesis by (simp add: same_segs_def)
  next
    case False
    let ?u = "(if pr then ut_count (\<lambda>s. s\<lparr>us_flex_thp := add64 (us_flex_thp s) 1, us_flex := add64 (us_flex s) 1\<rparr>) (set_last False ut1)
        else ut_count (\<lambda>s. s\<lparr>us_flex_4kb := add64 (us_flex_4kb s) 1, us_flex := add64 (us_flex s) 1\<rparr>) (set_last False ut1))"
    have "try_thp ut a = Inr (Some (page, if pr then 21 else 12), ?u)" using False by (simp add: try_thp_def t(1))
    moreover have "flex_frame ut1 a = Some (if pr then page + va_offset a else page)" using T False by simp
    moreover note keep [of ?u]
    ultimately show ?thesis by (auto simp: same_segs_def)
  qed
qed

lemma placed_at_seg:
  assumes "i < length (ut_restsegs ut')" "rs_page_size_bits (ut_restsegs ut' ! i) = b" "lookupWay (ut_restsegs ut' ! i) a app \<noteq> None"
    "p = calculatePhysicalAddress (ut_restsegs ut' ! i) a app" "thp_pages (flex ut') = thp_pages (flex ut)"
  shows "placed_at ut ut' sz a app p b"
  using assms unfolding placed_at_def by blast

text \<open>The last level of an allocation: the buddy allocator.\<close>

lemma buddy_level_ok:
  assumes inv: "ut_inv u3" and k3: "segs_kept ut u3" and g3: "regions_grow ut u3" "thp_pages (flex u3) = thp_pages (flex ut)"
    and o3: "m_max_order (ut_buddy u3) = m_max_order (ut_buddy ut)" "m_free_pages (ut_buddy u3) = m_free_pages (ut_buddy ut)"
    and n: "4096 \<le> sz" "ceil_log2 (sz div 4096) \<le> m_max_order (ut_buddy ut) + 1"
  shows "\<exists>p u4 v. ut_buddy_allocate (set_last False u3) sz = Inr (p, u4) \<and> v = (if p \<noteq> minus1_64 then flex_4kb u4 else u4) \<and> ut_inv v \<and> segs_kept ut v \<and> regions_grow ut v \<and>
    m_max_order (ut_buddy v) = m_max_order (ut_buddy ut) \<and>
    m_free_pages (ut_buddy v) + size (thp_pages (flex ut)) = m_free_pages (ut_buddy ut) + size (thp_pages (flex v)) \<and> placed_at ut v sz a app p 12"
proof -
  let ?u = "set_last False u3"
  have f: "flex ?u = flex u3" by (simp add: flex_def set_last_def)
  have b: "thp_base (flex ?u)" using inv by (simp add: ut_inv_def f)
  obtain p bd where d: "ut_buddy_allocate ?u sz = Inr (p, ?u\<lparr>ut_buddy := bd\<rparr>)" "thp_base (flex (?u\<lparr>ut_buddy := bd\<rparr>))" "m_max_order bd = m_max_order (ut_buddy ?u)"
    "m_free_pages bd + size (thp_pages (flex ?u)) = m_free_pages (ut_buddy ?u) + size (thp_pages (flex (?u\<lparr>ut_buddy := bd\<rparr>)))"
    "if p = minus1_64 then bd = ut_buddy ?u else thp_pages (flex (?u\<lparr>ut_buddy := bd\<rparr>)) + mset [p..<p + 2 ^ ceil_log2 (sz div 4096)] = thp_pages (flex ?u)"
    using ut_buddy_allocate_ok [OF b n(1)] n(2) o3 by auto
  let ?u4 = "?u\<lparr>ut_buddy := bd\<rparr>"
  let ?v = "if p \<noteq> minus1_64 then flex_4kb ?u4 else ?u4"
  have v: "ut_restsegs ?v = ut_restsegs u3" "ut_thp_regions ?v = ut_thp_regions u3" "ut_buddy ?v = bd" "ut_2mb_index ?v = ut_2mb_index u3" "ut_4kb_index ?v = ut_4kb_index u3"
    by simp_all
  have fv: "thp_base (flex ?v)" "thp_pages (flex ?v) = thp_pages (flex ?u4)" using d(2) by (simp_all add: thp_base_def thp_pages_def)
  have "ut_inv ?v" using inv fv(1) unfolding ut_inv_def v by simp
  moreover have "segs_kept ut ?v" by (rule segs_kept_trans [OF k3 segs_kept_same [OF v(1)]])
  moreover have "regions_grow ut ?v" using g3(1) unfolding regions_grow_def flex_frame_def v(2) .
  moreover have "m_max_order (ut_buddy ?v) = m_max_order (ut_buddy ut)" unfolding v(3) using d(3) o3 by simp
  moreover have "m_free_pages (ut_buddy ?v) + size (thp_pages (flex ut)) = m_free_pages (ut_buddy ut) + size (thp_pages (flex ?v))"
    unfolding v(3) fv(2) g3(2) [symmetric] o3(2) [symmetric] using d(4) unfolding f by simp
  moreover have "placed_at ut ?v sz a app p 12"
  proof (cases "p = minus1_64")
    case True
    then have "bd = ut_buddy u3" using d(5) by simp
    then have "thp_pages (flex ?v) = thp_pages (flex ut)" using g3(2) unfolding fv(2) by (simp add: thp_pages_def)
    with True show ?thesis unfolding placed_at_def by blast
  next
    case False
    then have "thp_pages (flex ?v) + mset [p..<p + 2 ^ ceil_log2 (sz div 4096)] = thp_pages (flex ut)" using d(5) unfolding fv(2) f g3(2) by presburger
    with False show ?thesis unfolding placed_at_def by blast
  qed
  ultimately show ?thesis using d(1) by blast
qed

lemma ut_allocate_ok:
  assumes inv: "ut_inv ut" and a: "a < 2 ^ 48" and m: "4 \<le> m_max_order (ut_buddy ut)" and n: "4096 \<le> sz" "ceil_log2 (sz div 4096) \<le> m_max_order (ut_buddy ut) + 1"
  shows "\<exists>p b ut'. ut_allocate ut sz a app False False = Inr ((p, b), ut') \<and> ut_inv ut' \<and> segs_kept ut ut' \<and> regions_grow ut ut' \<and>
    m_max_order (ut_buddy ut') = m_max_order (ut_buddy ut) \<and>
    m_free_pages (ut_buddy ut') + size (thp_pages (flex ut)) = m_free_pages (ut_buddy ut) + size (thp_pages (flex ut')) \<and> placed_at ut ut' sz a app p b"
proof -
  let ?u0 = "ut_count (\<lambda>s. s\<lparr>us_total := add64 (us_total s) 1\<rparr>) ut"
  have f0: "flex ?u0 = flex ut" by (simp add: flex_def)
  have i0: "ut_inv ?u0" using inv unfolding ut_inv_def f0 by simp
  have ix: "j < length (ut_restsegs u) \<and> rs_page_size_bits (ut_restsegs u ! j) = 21" if "ut_inv u" "ut_2mb_index u = Some j" for u j using that by (simp add: ut_inv_def)
  have ix4: "j < length (ut_restsegs u) \<and> rs_page_size_bits (ut_restsegs u ! j) = 12" if "ut_inv u" "ut_4kb_index u = Some j" for u j using that by (simp add: ut_inv_def)
  obtain r1 u1 where s1: "try_segment (ut_2mb_index ?u0) 21 (\<lambda>s. s\<lparr>us_restseg_2mb := add64 (us_restseg_2mb s) 1\<rparr>) ?u0 a app = Inr (r1, u1)"
    "ut_inv u1" "segs_kept ?u0 u1" "flex_frame u1 = flex_frame ?u0" "ut_buddy u1 = ut_buddy ?u0" "ut_thp_regions u1 = ut_thp_regions ?u0" "ut_2mb_index u1 = ut_2mb_index ?u0"
    "\<forall>p b. r1 = Some (p, b) \<longrightarrow> b = 21 \<and> (\<exists>i. ut_2mb_index ?u0 = Some i \<and> lookupWay (ut_restsegs u1 ! i) a app \<noteq> None \<and> p = calculatePhysicalAddress (ut_restsegs u1 ! i) a app)"
    using try_segment_ok [OF i0 _ a, of "ut_2mb_index ?u0" 21 "\<lambda>s. s\<lparr>us_restseg_2mb := add64 (us_restseg_2mb s) 1\<rparr>" app] ix [OF i0] by blast
  have k1: "segs_kept ut u1" using s1(3) by (simp add: segs_kept_def)
  have g1: "regions_grow ut u1" "thp_pages (flex u1) = thp_pages (flex ut)" using s1(4-6) flex_cong(2) [of u1 ut] by (simp_all add: regions_grow_def flex_frame_def)
  have m1: "4 \<le> m_max_order (ut_buddy u1)" using m s1(5) by simp
  obtain r2 u2 where s2: "try_thp u1 a = Inr (r2, u2)" "ut_inv u2" "same_segs u1 u2" "regions_grow u1 u2" "m_max_order (ut_buddy u2) = m_max_order (ut_buddy u1)" "m_free_pages (ut_buddy u2) = m_free_pages (ut_buddy u1)"
    "thp_pages (flex u2) = thp_pages (flex u1)" "\<forall>p b. r2 = Some (p, b) \<longrightarrow> (b = 12 \<or> b = 21) \<and> flex_frame u2 a = Some (if b = 21 then p + va_offset a else p)"
    using try_thp_ok [OF s1(2) m1] by blast
  have k2: "segs_kept ut u2" using segs_kept_trans [OF k1] segs_kept_same s2(3) by (simp add: same_segs_def)
  have g2: "regions_grow ut u2" "thp_pages (flex u2) = thp_pages (flex ut)" using regions_grow_trans [OF g1(1) s2(4)] s2(7) g1(2) by simp_all
  obtain r3 u3 where s3: "try_segment (ut_4kb_index u2) 12 (\<lambda>s. s\<lparr>us_restseg_4kb := add64 (us_restseg_4kb s) 1\<rparr>) u2 a app = Inr (r3, u3)"
    "ut_inv u3" "segs_kept u2 u3" "flex_frame u3 = flex_frame u2" "ut_buddy u3 = ut_buddy u2" "ut_thp_regions u3 = ut_thp_regions u2" "ut_4kb_index u3 = ut_4kb_index u2"
    "\<forall>p b. r3 = Some (p, b) \<longrightarrow> b = 12 \<and> (\<exists>i. ut_4kb_index u2 = Some i \<and> lookupWay (ut_restsegs u3 ! i) a app \<noteq> None \<and> p = calculatePhysicalAddress (ut_restsegs u3 ! i) a app)"
    using try_segment_ok [OF s2(2) _ a, of "ut_4kb_index u2" 12 "\<lambda>s. s\<lparr>us_restseg_4kb := add64 (us_restseg_4kb s) 1\<rparr>" app] ix4 [OF s2(2)] by blast
  have k3: "segs_kept ut u3" by (rule segs_kept_trans [OF k2 s3(3)])
  have g3: "regions_grow ut u3" "thp_pages (flex u3) = thp_pages (flex ut)" using g2 s3(4) flex_cong(2) [OF s3(5,6)] by (simp_all add: regions_grow_def)
  have o3: "m_max_order (ut_buddy u3) = m_max_order (ut_buddy ut)" "m_free_pages (ut_buddy u3) = m_free_pages (ut_buddy ut)" using s3(5) s2(5,6) s1(5) by simp_all
  show ?thesis
  proof (cases r1)
    case (Some pb)
    then obtain p i where r: "r1 = Some (p, 21)" "ut_2mb_index u1 = Some i" "lookupWay (ut_restsegs u1 ! i) a app \<noteq> None" "p = calculatePhysicalAddress (ut_restsegs u1 ! i) a app"
      using s1(7,8) by (cases pb) auto
    have "ut_allocate ut sz a app False False = Inr ((p, 21), u1)" using s1(1) r(1) by (simp add: ut_allocate_def Let_def)
    moreover have "placed_at ut u1 sz a app p 21" by (rule placed_at_seg [of i]) (use ix [OF s1(2) r(2)] r(3,4) g1(2) in simp_all)
    ultimately show ?thesis using s1(2,5) k1 g1 by (intro exI conjI) simp_all
  next
    case n1: None
    show ?thesis
    proof (cases r2)
      case (Some pb)
      obtain p b where r: "r2 = Some (p, b)" using Some by (cases pb) simp
      have "ut_allocate ut sz a app False False = Inr ((p, b), u2)" using s1(1) n1 s2(1) r by (simp add: ut_allocate_def Let_def)
      moreover have "placed_at ut u2 sz a app p b" using s2(8) r g2(2) by (simp add: placed_at_def)
      ultimately show ?thesis using s2(2,5,6) s1(5) k2 g2 by (intro exI conjI) simp_all
    next
      case n2: None
      show ?thesis
      proof (cases r3)
        case (Some pb)
        then obtain p i where r: "r3 = Some (p, 12)" "ut_4kb_index u3 = Some i" "lookupWay (ut_restsegs u3 ! i) a app \<noteq> None" "p = calculatePhysicalAddress (ut_restsegs u3 ! i) a app"
          using s3(7,8) by (cases pb) auto
        have "ut_allocate ut sz a app False False = Inr ((p, 12), u3)" using s1(1) n1 s2(1) n2 s3(1) r(1) by (simp add: ut_allocate_def Let_def)
        moreover have "placed_at ut u3 sz a app p 12" by (rule placed_at_seg [of i]) (use ix4 [OF s3(2) r(2)] r(3,4) g3(2) in simp_all)
        ultimately show ?thesis using s3(2) o3 k3 g3 by (intro exI conjI) simp_all
      next
        case n3: None
        obtain p u4 v where b: "ut_buddy_allocate (set_last False u3) sz = Inr (p, u4)" "v = (if p \<noteq> minus1_64 then flex_4kb u4 else u4)"
          and v: "ut_inv v" "segs_kept ut v" "regions_grow ut v" "m_max_order (ut_buddy v) = m_max_order (ut_buddy ut)"
            "m_free_pages (ut_buddy v) + size (thp_pages (flex ut)) = m_free_pages (ut_buddy ut) + size (thp_pages (flex v))" "placed_at ut v sz a app p 12"
          using buddy_level_ok [OF s3(2) k3 g3 o3 n] by blast
        have "ut_allocate ut sz a app False False = Inr ((p, 12), v)" using s1(1) n1 s2(1) n2 s3(1) n3 b by (simp add: ut_allocate_def Let_def)
        with v show ?thesis by blast
      qed
    qed
  qed
qed

section \<open>Migration moves one page\<close>

definition same_pages :: "rest_seg \<Rightarrow> rest_seg \<Rightarrow> bool" where
  "same_pages rs rs' \<longleftrightarrow> same_config rs rs' \<and> resident rs' = resident rs"

definition segs_same :: "utopia \<Rightarrow> utopia \<Rightarrow> bool" where
  "segs_same ut ut' \<longleftrightarrow> length (ut_restsegs ut') = length (ut_restsegs ut) \<and> (\<forall>i < length (ut_restsegs ut). same_pages (ut_restsegs ut ! i) (ut_restsegs ut' ! i))"

lemma same_pages_trans: "same_pages a b \<Longrightarrow> same_pages b c \<Longrightarrow> same_pages a c"
  by (auto simp: same_pages_def same_config_def)

lemma segs_same_trans: "segs_same a b \<Longrightarrow> segs_same b c \<Longrightarrow> segs_same a c"
  using same_pages_trans by (auto simp: segs_same_def)

lemma segs_same_refl: "segs_same a a"
  by (simp add: segs_same_def same_pages_def same_config_def)

lemma segs_same_update:
  assumes "ut_restsegs ut' = (ut_restsegs ut)[i := rs]" "same_pages (ut_restsegs ut ! i) rs" "i < length (ut_restsegs ut)"
  shows "segs_same ut ut'"
  using assms by (auto simp: segs_same_def nth_list_update same_pages_def same_config_def)

lemma same_pages_lookup: "same_pages rs rs' \<Longrightarrow> lookupWay rs' a app = lookupWay rs a app"
  by (simp add: same_pages_def lookupWay_resident same_config_def)

lemma in_segs_ok:
  assumes "ut_inv ut" "\<forall>i \<in> set is. i < length (ut_restsegs ut)" "in_segs is ut a app = (found, ut')"
  shows "ut_inv ut' \<and> segs_same ut ut' \<and> (\<exists>segs. ut' = ut\<lparr>ut_restsegs := segs\<rparr>) \<and> (found \<longleftrightarrow> (\<exists>i \<in> set is. lookupWay (ut_restsegs ut ! i) a app \<noteq> None))"
  using assms
proof (induction "is" arbitrary: ut)
  case Nil
  then have "\<not> found" "ut' = ut" by simp_all
  moreover have "\<exists>segs. ut = ut\<lparr>ut_restsegs := segs\<rparr>" by (rule exI [of _ "ut_restsegs ut"]) simp
  ultimately show ?case using Nil segs_same_refl by simp
next
  case (Cons i "is")
  let ?rs = "ut_restsegs ut ! i"
  obtain f rs where r: "inRestSeg ?rs a app = (f, rs)" by fastforce
  have i: "i < length (ut_restsegs ut)" using Cons.prems(2) by simp
  note I = ut_inv_seg [OF Cons.prems(1) i]
  note R = inRestSeg_ok [OF I r]
  let ?u = "put_seg ut i rs"
  have u: "ut_restsegs ?u = (ut_restsegs ut)[i := rs]" by (simp add: put_seg_def)
  have fl: "flex ?u = flex ut" by (simp add: flex_def put_seg_def)
  have b: "thp_base (flex ?u)" unfolding fl using Cons.prems(1) by (simp add: ut_inv_def)
  have iu: "ut_inv ?u" by (rule ut_inv_put [OF Cons.prems(1) i R(1,3) u b]) (simp_all add: put_seg_def)
  have su: "segs_same ut ?u" by (rule segs_same_update [OF u _ i]) (simp add: same_pages_def R(2,3))
  have fw: "f \<longleftrightarrow> lookupWay ?rs a app \<noteq> None" using R(4) by (simp add: lookupWay_resident)
  show ?case
  proof (cases f)
    case True
    then have "found" "ut' = ?u" using Cons.prems(3) r by simp_all
    then show ?thesis using iu su fw True by (auto simp: put_seg_def)
  next
    case False
    then have n: "in_segs is ?u a app = (found, ut')" using Cons.prems(3) r by simp
    have "\<forall>i \<in> set is. i < length (ut_restsegs ?u)" using Cons.prems(2) by (simp add: u)
    from Cons.IH [OF iu this n] obtain segs where h: "ut_inv ut'" "segs_same ?u ut'" "ut' = ?u\<lparr>ut_restsegs := segs\<rparr>"
      "found \<longleftrightarrow> (\<exists>j \<in> set is. lookupWay (ut_restsegs ?u ! j) a app \<noteq> None)" by blast
    have "lookupWay (ut_restsegs ?u ! j) a app = lookupWay (ut_restsegs ut ! j) a app" if "j \<in> set is" for j
      using su Cons.prems(2) that same_pages_lookup by (simp add: segs_same_def)
    then have "found \<longleftrightarrow> (\<exists>j \<in> set (i # is). lookupWay (ut_restsegs ut ! j) a app \<noteq> None)" using h(4) fw False by auto
    moreover have "ut' = ut\<lparr>ut_restsegs := segs\<rparr>" using h(3) by (simp add: put_seg_def)
    ultimately show ?thesis using h(1) segs_same_trans [OF su h(2)] by blast
  qed
qed

text \<open>All pages but the new one and the victim, whose address is reported, stay where they are.\<close>

definition others_kept :: "rest_seg \<Rightarrow> rest_seg \<Rightarrow> nat \<Rightarrow> u64 \<Rightarrow> bool \<Rightarrow> u64 \<Rightarrow> bool" where
  "others_kept rs rs' app v evicted ev \<longleftrightarrow>
     (\<exists>app2 v2. (evicted \<longrightarrow> page_ok rs v2 \<and> ev = push_bit (rs_page_size_bits rs) v2 \<and> resident rs app2 v2 \<noteq> None \<and> resident rs' app2 v2 = None) \<and>
       (\<forall>app' u. page_ok rs u \<and> (app', u) \<noteq> (app, v) \<and> \<not> (evicted \<and> (app', u) = (app2, v2)) \<longrightarrow> resident rs' app' u = resident rs app' u))"

lemma alloc_post_others:
  assumes "rs_inv rs" "page_ok rs v" "alloc_post rs app v force (success, evicted, ev) rs'"
  shows "others_kept rs rs' app v evicted ev"
proof (rule alloc_post_cases [OF assms])
  assume n: "\<not> evicted" "\<And>app' u. page_ok rs u \<Longrightarrow> (app', u) \<noteq> (app, v) \<Longrightarrow> resident rs' app' u = resident rs app' u"
  show ?thesis unfolding others_kept_def by (intro exI [of _ app] exI [of _ v] conjI) (use n(1) in simp, intro allI impI n(2), simp_all)
next
  fix app2 v2
  assume e: "evicted" "page_ok rs v2" "ev = push_bit (rs_page_size_bits rs) v2" "resident rs app2 v2 \<noteq> None" "resident rs' app2 v2 = None"
    "\<And>app' u. page_ok rs u \<Longrightarrow> (app', u) \<noteq> (app, v) \<Longrightarrow> (app', u) \<noteq> (app2, v2) \<Longrightarrow> resident rs' app' u = resident rs app' u"
  show ?thesis unfolding others_kept_def by (intro exI [of _ app2] exI [of _ v2] conjI) (use e(1-5) in simp, intro allI impI e(6), use e(1) in simp_all)
qed

lemma alloc_post_failed: "alloc_post rs app v force (False, evicted, ev) rs' \<Longrightarrow> resident rs' = resident rs"
  by (auto simp: alloc_post_def split: option.splits)

lemma free_one_page:
  assumes b: "thp_base (flex ut)" and o: "old \<notin># thp_pages (flex ut)" "old + 1 < 2 ^ 64" and r: "m_free_pages (ut_buddy ut) + 1 < 2 ^ 64"
  shows "\<exists>bd. free (ut_buddy ut) old old = Inr bd \<and> thp_base (flex (ut\<lparr>ut_buddy := bd\<rparr>)) \<and> thp_pages (flex (ut\<lparr>ut_buddy := bd\<rparr>)) = thp_pages (flex ut) + {#old#} \<and>
    free_pages (free_list bd) = free_pages (free_list (ut_buddy ut)) + {#old#} \<and> m_max_order bd = m_max_order (ut_buddy ut) \<and> m_free_pages bd = m_free_pages (ut_buddy ut) + 1"
proof -
  have i: "buddy_inv (ut_buddy ut)" using thp_baseD(1) [OF b] by simp
  have nf: "old \<notin># free_pages (free_list (ut_buddy ut))" using o(1) by (simp add: thp_pages_def)
  have "p \<notin># free_pages (free_list (ut_buddy ut))" if "old \<le> p" "p \<le> old" for p using nf that by simp
  then obtain bd where f: "free (ut_buddy ut) old old = Inr bd" "buddy_inv bd" "free_pages (free_list bd) = free_pages (free_list (ut_buddy ut)) + mset [old..<old + 1]"
      "m_max_order bd = m_max_order (ut_buddy ut)" "m_free_pages bd = m_free_pages (ut_buddy ut) + 1"
    using free_ok [OF i, of old old 0] o(2) r by auto
  then have fp: "free_pages (free_list bd) = free_pages (free_list (ut_buddy ut)) + {#old#}" by simp
  let ?u = "ut\<lparr>ut_buddy := bd\<rparr>"
  have p: "thp_pages (flex ?u) = thp_pages (flex ut) + {#old#}" by (simp add: thp_pages_def fp)
  have "count (thp_pages (flex ?u)) x \<le> 1" for x using thp_baseD(3) [OF b, of x] o(1) unfolding p by (auto simp: count_eq_zero_iff)
  then have "thp_base (flex ?u)" using b f(2) by (simp add: thp_base_def)
  with f(1,4,5) p fp show ?thesis by blast
qed

text \<open>The page moves to segment \<open>i\<close>, its old frame becomes free, and all other segments and regions stay.\<close>

definition moved_to :: "utopia \<Rightarrow> utopia \<Rightarrow> nat \<Rightarrow> u64 \<Rightarrow> nat \<Rightarrow> u64 \<Rightarrow> bool" where
  "moved_to ut ut' i a app old \<longleftrightarrow> i < length (ut_restsegs ut) \<and> length (ut_restsegs ut') = length (ut_restsegs ut) \<and> lookupWay (ut_restsegs ut' ! i) a app \<noteq> None \<and>
     same_config (ut_restsegs ut ! i) (ut_restsegs ut' ! i) \<and>
     others_kept (ut_restsegs ut ! i) (ut_restsegs ut' ! i) app (drop_bit (rs_page_size_bits (ut_restsegs ut ! i)) a) (ut_last_caused_eviction ut') (ut_last_evicted_address ut') \<and>
     (\<forall>j < length (ut_restsegs ut). j \<noteq> i \<longrightarrow> same_pages (ut_restsegs ut ! j) (ut_restsegs ut' ! j)) \<and>
     ut_thp_regions ut' = ut_thp_regions ut \<and> free_pages (free_list (ut_buddy ut')) = free_pages (free_list (ut_buddy ut)) + {#old#} \<and>
     m_max_order (ut_buddy ut') = m_max_order (ut_buddy ut) \<and> m_free_pages (ut_buddy ut') = m_free_pages (ut_buddy ut) + 1"

definition stays :: "utopia \<Rightarrow> utopia \<Rightarrow> bool" where
  "stays ut ut' \<longleftrightarrow> segs_same ut ut' \<and> ut_thp_regions ut' = ut_thp_regions ut \<and> ut_buddy ut' = ut_buddy ut \<and>
     ut_2mb_index ut' = ut_2mb_index ut \<and> ut_4kb_index ut' = ut_4kb_index ut \<and> ut_last_caused_eviction ut' = ut_last_caused_eviction ut"

lemma stays_trans: "stays a b \<Longrightarrow> stays b c \<Longrightarrow> stays a c"
  using segs_same_trans by (auto simp: stays_def)

lemma moved_after_stay:
  assumes s: "stays a b" and m: "moved_to b c i x app old"
  shows "moved_to a c i x app old"
proof -
  have l: "length (ut_restsegs b) = length (ut_restsegs a)" "\<And>j. j < length (ut_restsegs a) \<Longrightarrow> same_pages (ut_restsegs a ! j) (ut_restsegs b ! j)"
    using s by (simp_all add: stays_def segs_same_def)
  have i: "i < length (ut_restsegs a)" using m l(1) by (simp add: moved_to_def)
  have c: "same_config (ut_restsegs a ! i) (ut_restsegs b ! i)" "resident (ut_restsegs b ! i) = resident (ut_restsegs a ! i)" using l(2) [OF i] by (simp_all add: same_pages_def)
  have "page_ok (ut_restsegs b ! i) = page_ok (ut_restsegs a ! i)" using page_ok_config [OF c(1)] by blast
  moreover have "rs_page_size_bits (ut_restsegs b ! i) = rs_page_size_bits (ut_restsegs a ! i)" using c(1) by (simp add: same_config_def)
  ultimately have "others_kept (ut_restsegs b ! i) (ut_restsegs c ! i) = others_kept (ut_restsegs a ! i) (ut_restsegs c ! i)"
    by (simp add: others_kept_def c(2) fun_eq_iff)
  moreover have "same_config (ut_restsegs a ! i) (ut_restsegs c ! i)" using c(1) m by (simp add: moved_to_def same_config_def)
  moreover have "same_pages (ut_restsegs a ! j) (ut_restsegs c ! j)" if "j < length (ut_restsegs a)" "j \<noteq> i" for j
    using same_pages_trans [OF l(2) [OF that(1)]] m that l(1) by (simp add: moved_to_def)
  ultimately show ?thesis using m i l(1) s \<open>rs_page_size_bits (ut_restsegs b ! i) = rs_page_size_bits (ut_restsegs a ! i)\<close> by (simp add: moved_to_def stays_def)
qed

lemma migrated_sel:
  "ut_restsegs (migrated ut i e ev) = ut_restsegs ut" "ut_buddy (migrated ut i e ev) = ut_buddy ut" "ut_thp_regions (migrated ut i e ev) = ut_thp_regions ut"
  "ut_2mb_index (migrated ut i e ev) = ut_2mb_index ut" "ut_4kb_index (migrated ut i e ev) = ut_4kb_index ut"
  "ut_last_caused_eviction (migrated ut i e ev) = (e \<or> ut_last_caused_eviction ut)" "e \<Longrightarrow> ut_last_evicted_address (migrated ut i e ev) = ev"
  by (simp_all add: migrated_def Let_def ut_count_def)

text \<open>
  A forced allocation fails only when each way of the set holds a page with the largest
  counter, which the search for the oldest page passes over.
\<close>

definition stuck :: "rest_seg \<Rightarrow> u64 \<Rightarrow> bool" where
  "stuck rs a \<longleftrightarrow> (\<forall>e \<in> set (st_entries (set_of rs (snd (rs_splitAddress rs a)))). re_valid e \<and> 2 ^ 64 - 1 \<le> re_lru_counter e)"

lemma rs_lru_scan_found [simp]: "(rs_lru_scan i es (Some v) m = None) = False"
  by (induction es arbitrary: i v m) auto

lemma rs_lru_scan_None: "rs_lru_scan i es None m = None \<Longrightarrow> e \<in> set es \<Longrightarrow> re_valid e \<Longrightarrow> m \<le> re_lru_counter e"
  by (induction es arbitrary: i) (auto split: if_splits simp: not_less)

lemma try_insert_failed: "tryInsertAtWay s tag owner fp w = ((False, h, v), s') \<Longrightarrow> s' = s"
  by (auto simp: tryInsertAtWay_def split: option.splits if_splits)

lemma findFreeWay_None: "findFreeWay s = None \<Longrightarrow> e \<in> set (st_entries s) \<Longrightarrow> re_valid e"
  unfolding findFreeWay_keys find_index_eq by (force simp: keys_def way_key_def)

lemma insert_forced_failed:
  assumes "rs_insert s tag owner fp True w = (r, s')" "\<not> ir_success r" "e \<in> set (st_entries s)"
  shows "re_valid e \<and> 2 ^ 64 - 1 \<le> re_lru_counter e"
proof -
  have "findFreeWay s = None" "findLRUVictim s = None" using assms(1,2) by (auto simp: rs_insert_def split: option.splits if_splits)
  then show ?thesis using findFreeWay_None [OF _ assms(3)] rs_lru_scan_None [OF _ assms(3)] by (simp add: findLRUVictim_def)
qed

lemma place_forced_failed:
  assumes p: "place_page g s tag owner fp True w = ((r, b), s')" "\<not> ir_success r" and e: "e \<in> set (st_entries s)"
  shows "re_valid e \<and> 2 ^ 64 - 1 \<le> re_lru_counter e"
proof -
  have "rs_insert s tag owner fp True (-1) = (r, s')"
    using p by (auto simp: place_page_def try_result_def split: prod.splits bool.splits if_splits dest!: try_insert_failed)
  then show ?thesis using insert_forced_failed p(2) e by blast
qed

lemma forced_allocation_failed:
  assumes "rs_allocate rs pa a app True = Inr ((False, ev), rs', pa')"
  shows "stuck rs a"
proof -
  obtain tag i where s: "rs_splitAddress rs a = (tag, i)" by fastforce
  obtain pw r b s' where p: "place_page (rs_global_way rs) (set_of rs i) tag (app + 1) (computeFingerprint tag (rs_fingerprint_bits rs)) True pw = ((r, b), s')" "\<not> ir_success r"
    using rs_allocate_eq [OF s refl, of app True pa] assms by (auto simp: Let_def map_sum_def split: if_splits sum.splits)
  then show ?thesis unfolding stuck_def using place_forced_failed [OF p] s by auto
qed

text \<open>The segment that takes the page.\<close>

lemma migrate_success:
  assumes inv: "ut_inv ut" and i: "i < length (ut_restsegs ut)" and a: "a < 2 ^ 48" and le: "\<not> ut_last_caused_eviction ut"
    and old: "old \<notin># thp_pages (flex ut)" "old + 1 < 2 ^ 64" "m_free_pages (ut_buddy ut) + 1 < 2 ^ 64" and bits: "rs_page_size_bits (ut_restsegs ut ! i) = bits"
    and s: "seg_allocate ut i a app True = Inr ((True, evicted, ev), (put_seg ut i rs)\<lparr>ut_phys := pa\<rparr>)" "rs_inv rs" "same_config (ut_restsegs ut ! i) rs" "lookupWay rs a app \<noteq> None"
      "alloc_post (ut_restsegs ut ! i) app (drop_bit (rs_page_size_bits (ut_restsegs ut ! i)) a) True (True, evicted, ev) rs"
  shows "\<exists>ut'. migrate_to (i # is) ut a old bits app = Inr (calculatePhysicalAddress (ut_restsegs ut' ! i) a app, ut') \<and> ut_inv ut' \<and> moved_to ut ut' i a app old"
proof -
  let ?rs = "ut_restsegs ut ! i" and ?u1 = "(put_seg ut i rs)\<lparr>ut_phys := pa\<rparr>"
  have I: "rs_inv ?rs" by (rule ut_inv_seg [OF inv i])
  have ok: "page_ok ?rs (drop_bit (rs_page_size_bits ?rs) a)" by (rule page_ok_address [OF a rs_inv_bits [OF I]])
  have u1: "ut_restsegs ?u1 = (ut_restsegs ut)[i := rs]" "ut_buddy ?u1 = ut_buddy ut" "ut_thp_regions ?u1 = ut_thp_regions ut" "ut_2mb_index ?u1 = ut_2mb_index ut"
    "ut_4kb_index ?u1 = ut_4kb_index ut" "ut_last_caused_eviction ?u1 = ut_last_caused_eviction ut" by (simp_all add: put_seg_def)
  have b: "thp_base (flex ut)" using inv by (simp add: ut_inv_def)
  let ?u2 = "migrated ?u1 i evicted ev"
  have f2: "thp_base (flex ?u2)" "thp_pages (flex ?u2) = thp_pages (flex ut)" using b by (simp_all add: thp_base_def thp_pages_def migrated_sel u1(2,3))
  obtain bd where fr: "free (ut_buddy ?u2) old old = Inr bd" "thp_base (flex (?u2\<lparr>ut_buddy := bd\<rparr>))"
    "free_pages (free_list bd) = free_pages (free_list (ut_buddy ?u2)) + {#old#}" "m_max_order bd = m_max_order (ut_buddy ?u2)" "m_free_pages bd = m_free_pages (ut_buddy ?u2) + 1"
    using free_one_page [OF f2(1)] old by (auto simp: f2(2) migrated_sel u1(2))
  let ?u3 = "?u2\<lparr>ut_buddy := bd\<rparr>"
  have u3: "ut_restsegs ?u3 = (ut_restsegs ut)[i := rs]" "ut_restsegs ?u3 ! i = rs" using i by (simp_all add: migrated_sel u1(1))
  have "migrate_to (i # is) ut a old bits app = Inr (calculatePhysicalAddress (ut_restsegs ?u3 ! i) a app, ?u3)"
    using bits s(1) fr(1) by (simp add: Let_def)
  moreover have "ut_inv ?u3" by (rule ut_inv_put [OF inv i s(2,3) u3(1) fr(2)]) (simp_all add: migrated_sel u1(4,5))
  moreover have "moved_to ut ?u3 i a app old"
  proof -
    have "others_kept ?rs rs app (drop_bit (rs_page_size_bits ?rs) a) evicted ev" by (rule alloc_post_others [OF I ok s(5)])
    then have "others_kept ?rs rs app (drop_bit (rs_page_size_bits ?rs) a) (ut_last_caused_eviction ?u3) (ut_last_evicted_address ?u3)"
    proof (cases evicted)
      case True
      then show ?thesis using \<open>others_kept _ _ _ _ _ _\<close> by (simp add: migrated_sel)
    next
      case False
      then have "\<not> ut_last_caused_eviction ?u3" using le by (simp add: migrated_sel u1(6))
      then show ?thesis using False \<open>others_kept _ _ _ _ _ _\<close> by (simp add: others_kept_def)
    qed
    then show ?thesis unfolding moved_to_def u3 using i s(3,4) fr(3-5) by (simp add: migrated_sel u1(2,3) same_pages_def same_config_def)
  qed
  ultimately show ?thesis by blast
qed

lemma migrate_to_ok:
  assumes "ut_inv ut" "\<forall>i \<in> set is. i < length (ut_restsegs ut)" "a < 2 ^ 48" "\<not> ut_last_caused_eviction ut"
    and "old \<notin># thp_pages (flex ut)" "old + 1 < 2 ^ 64" "m_free_pages (ut_buddy ut) + 1 < 2 ^ 64" "distinct is"
  shows "\<exists>new ut'. migrate_to is ut a old bits app = Inr (new, ut') \<and> ut_inv ut' \<and>
    (new = 0 \<and> stays ut ut' \<and> (\<forall>i \<in> set is. rs_page_size_bits (ut_restsegs ut ! i) = bits \<longrightarrow> stuck (ut_restsegs ut ! i) a) \<or>
     (\<exists>i \<in> set is. moved_to ut ut' i a app old \<and> rs_page_size_bits (ut_restsegs ut ! i) = bits \<and> new = calculatePhysicalAddress (ut_restsegs ut' ! i) a app))"
  using assms
proof (induction "is" arbitrary: ut)
  case Nil
  then show ?case using segs_same_refl by (simp add: stays_def)
next
  case (Cons i "is")
  note inv = Cons.prems(1)
  have i: "i < length (ut_restsegs ut)" using Cons.prems(2) by simp
  let ?rs = "ut_restsegs ut ! i"
  show ?case
  proof (cases "rs_page_size_bits ?rs = bits")
    case False
    then show ?thesis using Cons.IH [OF inv _ Cons.prems(3-7)] Cons.prems(2,8) by fastforce
  next
    case bits: True
    obtain success evicted ev rs pa where s: "seg_allocate ut i a app True = Inr ((success, evicted, ev), (put_seg ut i rs)\<lparr>ut_phys := pa\<rparr>)"
      "rs_inv rs" "same_config ?rs rs" "success \<longleftrightarrow> lookupWay rs a app \<noteq> None" "alloc_post ?rs app (drop_bit (rs_page_size_bits ?rs) a) True (success, evicted, ev) rs" "evicted \<longrightarrow> success"
      using seg_allocate_ok [OF inv i Cons.prems(3), of app True] by blast
    let ?u1 = "(put_seg ut i rs)\<lparr>ut_phys := pa\<rparr>"
    have u1: "ut_restsegs ?u1 = (ut_restsegs ut)[i := rs]" "ut_buddy ?u1 = ut_buddy ut" "ut_thp_regions ?u1 = ut_thp_regions ut" "ut_2mb_index ?u1 = ut_2mb_index ut"
      "ut_4kb_index ?u1 = ut_4kb_index ut" "ut_last_caused_eviction ?u1 = ut_last_caused_eviction ut" by (simp_all add: put_seg_def)
    have f1: "flex ?u1 = flex ut" by (simp add: flex_def put_seg_def)
    have b: "thp_base (flex ut)" using inv by (simp add: ut_inv_def)
    show ?thesis
    proof (cases success)
      case False
      have i1: "ut_inv ?u1" by (rule ut_inv_put [OF inv i s(2,3) u1(1) _ u1(4,5)]) (simp add: f1 b)
      have "same_pages ?rs rs" using alloc_post_failed s(3,5) False by (simp add: same_pages_def)
      then have st: "stays ut ?u1" using segs_same_update [OF u1(1) _ i] u1 by (simp add: stays_def)
      have "\<forall>j \<in> set is. j < length (ut_restsegs ?u1)" using Cons.prems(2) by (simp add: u1(1))
      then obtain new ut' where h: "migrate_to is ?u1 a old bits app = Inr (new, ut')" "ut_inv ut'"
        "new = 0 \<and> stays ?u1 ut' \<and> (\<forall>j \<in> set is. rs_page_size_bits (ut_restsegs ?u1 ! j) = bits \<longrightarrow> stuck (ut_restsegs ?u1 ! j) a) \<or>
         (\<exists>j \<in> set is. moved_to ?u1 ut' j a app old \<and> rs_page_size_bits (ut_restsegs ?u1 ! j) = bits \<and> new = calculatePhysicalAddress (ut_restsegs ut' ! j) a app)"
        using Cons.IH [OF i1 _ Cons.prems(3)] Cons.prems(4-8) u1(2,6) f1 by auto
      have pb: "rs_page_size_bits (ut_restsegs ?u1 ! j) = rs_page_size_bits (ut_restsegs ut ! j)" if "j \<in> set is" for j
        using s(3) i by (cases "j = i") (simp_all add: u1(1) same_config_def)
      have "migrate_to (i # is) ut a old bits app = Inr (new, ut')" using bits s(1) False h(1) by simp
      moreover have "new = 0 \<and> stays ut ut' \<and> (\<forall>j \<in> set (i # is). rs_page_size_bits (ut_restsegs ut ! j) = bits \<longrightarrow> stuck (ut_restsegs ut ! j) a) \<or>
        (\<exists>j \<in> set (i # is). moved_to ut ut' j a app old \<and> rs_page_size_bits (ut_restsegs ut ! j) = bits \<and> new = calculatePhysicalAddress (ut_restsegs ut' ! j) a app)"
        using h(3)
      proof
        assume n: "new = 0 \<and> stays ?u1 ut' \<and> (\<forall>j \<in> set is. rs_page_size_bits (ut_restsegs ?u1 ! j) = bits \<longrightarrow> stuck (ut_restsegs ?u1 ! j) a)"
        have "stuck ?rs a" using s(1) False by (auto simp: seg_allocate_def map_sum_def split: sum.splits intro: forced_allocation_failed)
        moreover have "ut_restsegs ?u1 ! j = ut_restsegs ut ! j" if "j \<in> set is" for j using that Cons.prems(8) by (cases "i = j") (simp_all add: u1(1))
        ultimately show ?thesis using n stays_trans [OF st] by auto
      next
        assume "\<exists>j \<in> set is. moved_to ?u1 ut' j a app old \<and> rs_page_size_bits (ut_restsegs ?u1 ! j) = bits \<and> new = calculatePhysicalAddress (ut_restsegs ut' ! j) a app"
        then obtain j where j: "j \<in> set is" "moved_to ?u1 ut' j a app old" "rs_page_size_bits (ut_restsegs ?u1 ! j) = bits" "new = calculatePhysicalAddress (ut_restsegs ut' ! j) a app" by blast
        have "rs_page_size_bits (ut_restsegs ut ! j) = bits" using pb [OF j(1)] j(3) by simp
        then show ?thesis using moved_after_stay [OF st j(2)] j(1,4) by auto
      qed
      ultimately show ?thesis using h(2) by blast
    next
      case True
      then obtain ut' where "migrate_to (i # is) ut a old bits app = Inr (calculatePhysicalAddress (ut_restsegs ut' ! i) a app, ut')" "ut_inv ut'" "moved_to ut ut' i a app old"
        using migrate_success [OF inv i Cons.prems(3-7) bits, where app = app and evicted = evicted and ev = ev and rs = rs and pa = pa] s by auto
      then show ?thesis using bits by auto
    qed
  qed
qed

lemma moved_to_pages: "moved_to ut ut' i a app old \<Longrightarrow> thp_pages (flex ut') = thp_pages (flex ut) + {#old#}"
  by (simp add: moved_to_def thp_pages_def)

text \<open>
  What a migration does. The page stays where it is when it is in a segment or in a reserved
  region, and when no segment with the target page size can take it.
\<close>

definition unmoved :: "utopia \<Rightarrow> utopia \<Rightarrow> bool" where
  "unmoved ut ut' \<longleftrightarrow> segs_same ut ut' \<and> ut_thp_regions ut' = ut_thp_regions ut \<and> ut_buddy ut' = ut_buddy ut"

definition housed :: "utopia \<Rightarrow> u64 \<Rightarrow> nat \<Rightarrow> bool" where
  "housed ut a app \<longleftrightarrow> (\<exists>rs \<in> set (ut_restsegs ut). lookupWay rs a app \<noteq> None) \<or> map_of (ut_thp_regions ut) (va_region a) \<noteq> None"

definition no_room :: "utopia \<Rightarrow> u64 \<Rightarrow> nat \<Rightarrow> bool" where
  "no_room ut a bits \<longleftrightarrow> (\<forall>rs \<in> set (ut_restsegs ut). rs_page_size_bits rs = bits \<longrightarrow> stuck rs a)"

definition migrate_post :: "utopia \<Rightarrow> u64 \<Rightarrow> u64 \<Rightarrow> nat \<Rightarrow> nat \<Rightarrow> u64 \<Rightarrow> utopia \<Rightarrow> bool" where
  "migrate_post ut a old bits app new ut' \<longleftrightarrow>
     new = 0 \<and> unmoved ut ut' \<and> (housed ut a app \<or> no_room ut a bits) \<or>
     (\<exists>i < length (ut_restsegs ut). \<not> housed ut a app \<and> moved_to ut ut' i a app old \<and> rs_page_size_bits (ut_restsegs ut ! i) = bits \<and> new = calculatePhysicalAddress (ut_restsegs ut' ! i) a app)"

lemma isInRestSeg_ok:
  assumes "ut_inv ut" "isInRestSeg ut a app = (found, ut')"
  shows "ut_inv ut'" "segs_same ut ut'" "\<exists>segs. ut' = ut\<lparr>ut_restsegs := segs\<rparr>" "found \<longleftrightarrow> (\<exists>rs \<in> set (ut_restsegs ut). lookupWay rs a app \<noteq> None)"
proof -
  have h: "ut_inv ut' \<and> segs_same ut ut' \<and> (\<exists>segs. ut' = ut\<lparr>ut_restsegs := segs\<rparr>) \<and> (found \<longleftrightarrow> (\<exists>i \<in> set [0..<length (ut_restsegs ut)]. lookupWay (ut_restsegs ut ! i) a app \<noteq> None))"
    using in_segs_ok [OF assms(1) _ assms(2) [unfolded isInRestSeg_def]] by simp
  then show "ut_inv ut'" "segs_same ut ut'" "\<exists>segs. ut' = ut\<lparr>ut_restsegs := segs\<rparr>" by blast+
  have "set (ut_restsegs ut) = (!) (ut_restsegs ut) ` set [0..<length (ut_restsegs ut)]" by (metis map_nth set_map)
  with h show "found \<longleftrightarrow> (\<exists>rs \<in> set (ut_restsegs ut). lookupWay rs a app \<noteq> None)" by (simp del: set_upt)
qed

text \<open>A test for residence may change counters of recency, but only of sets that have the page.\<close>

lemma inRestSeg_absent: "inRestSeg rs a app = (False, rs') \<Longrightarrow> rs' = rs"
  by (auto simp: inRestSeg_def Let_def split: prod.splits option.splits if_splits)

lemma put_seg_id: "put_seg ut i (ut_restsegs ut ! i) = ut"
  by (simp add: put_seg_def)

lemma in_segs_absent: "in_segs is ut a app = (False, ut') \<Longrightarrow> ut' = ut"
  by (induction "is" arbitrary: ut) (auto split: prod.splits bool.splits dest!: inRestSeg_absent simp: put_seg_id)

lemma migratePage_ok:
  assumes inv: "ut_inv ut" and a: "a < 2 ^ 48" and old: "old \<notin># thp_pages (flex ut)" "old + 1 < 2 ^ 64" and room: "m_free_pages (ut_buddy ut) + 1 < 2 ^ 64"
  shows "\<exists>new ut'. migratePage ut a old bits app = Inr (new, ut') \<and> ut_inv ut' \<and> migrate_post ut a old bits app new ut'"
proof -
  obtain found u1 where s: "isInRestSeg ut a app = (found, u1)" by fastforce
  note S = isInRestSeg_ok [OF inv s]
  show ?thesis
  proof (cases found)
    case True
    then have "migratePage ut a old bits app = Inr (0, u1)" by (simp add: migratePage_def s)
    moreover have "unmoved ut u1" using S(2,3) by (auto simp: unmoved_def)
    moreover have "housed ut a app" using S(4) True by (simp add: housed_def)
    ultimately show ?thesis using S(1) by (auto simp: migrate_post_def)
  next
    case nf: False
    then have u1: "u1 = ut" using s in_segs_absent by (simp add: isInRestSeg_def)
    show ?thesis
    proof (cases "map_of (ut_thp_regions ut) (va_region a)")
      case (Some r)
      then have "migratePage ut a old bits app = Inr (0, ut)" using nf s by (simp add: migratePage_def u1 va_bits)
      moreover have "unmoved ut ut" "housed ut a app" using Some segs_same_refl by (simp_all add: unmoved_def housed_def)
      ultimately show ?thesis using inv by (auto simp: migrate_post_def)
    next
      case None
      let ?u = "ut\<lparr>ut_last_caused_eviction := False, ut_last_evicted_address := 0, ut_last_evicted_page_size_bits := 12\<rparr>"
      have m: "migratePage ut a old bits app = migrate_to [0..<length (ut_restsegs ut)] ?u a old bits app" using nf s None by (simp add: migratePage_def u1 va_bits)
      have f: "flex ?u = flex ut" by (simp add: flex_def)
      have i: "ut_inv ?u" using inv unfolding ut_inv_def f by simp
      obtain new ut' where h: "migrate_to [0..<length (ut_restsegs ut)] ?u a old bits app = Inr (new, ut')" "ut_inv ut'"
        "new = 0 \<and> stays ?u ut' \<and> (\<forall>i \<in> set [0..<length (ut_restsegs ut)]. rs_page_size_bits (ut_restsegs ?u ! i) = bits \<longrightarrow> stuck (ut_restsegs ?u ! i) a) \<or>
         (\<exists>i \<in> set [0..<length (ut_restsegs ut)]. moved_to ?u ut' i a app old \<and> rs_page_size_bits (ut_restsegs ?u ! i) = bits \<and> new = calculatePhysicalAddress (ut_restsegs ut' ! i) a app)"
        using migrate_to_ok [OF i _ a, of "[0..<length (ut_restsegs ut)]" old bits app] old room unfolding f by auto
      have mv: "moved_to ?u ut' i a app old = moved_to ut ut' i a app old" for i by (simp add: moved_to_def)
      have "migrate_post ut a old bits app new ut'"
        using h(3)
      proof
        assume n: "new = 0 \<and> stays ?u ut' \<and> (\<forall>i \<in> set [0..<length (ut_restsegs ut)]. rs_page_size_bits (ut_restsegs ?u ! i) = bits \<longrightarrow> stuck (ut_restsegs ?u ! i) a)"
        then have "no_room ut a bits" by (auto simp: no_room_def in_set_conv_nth)
        moreover have "unmoved ut ut'" using n by (simp add: stays_def unmoved_def segs_same_def)
        ultimately show ?thesis using n by (simp add: migrate_post_def)
      next
        assume "\<exists>i \<in> set [0..<length (ut_restsegs ut)]. moved_to ?u ut' i a app old \<and> rs_page_size_bits (ut_restsegs ?u ! i) = bits \<and> new = calculatePhysicalAddress (ut_restsegs ut' ! i) a app"
        then show ?thesis using S(4) nf None unfolding mv by (auto simp: migrate_post_def housed_def)
      qed
      with m h(1,2) show ?thesis by auto
    qed
  qed
qed

section \<open>Construction gives the invariant\<close>

lemma add_restseg_ok:
  assumes inv: "ut_inv ut" and p: "rs_params m a pb" and n: "add_restseg cores fpb ut (2 ^ m, pb, 2 ^ a) = Inr ut'"
  shows "ut_inv ut' \<and> ut_buddy ut' = ut_buddy ut \<and> ut_thp_regions ut' = ut_thp_regions ut"
proof -
  obtain rs where r: "rest_seg_new (2 ^ m) pb (2 ^ a) fpb = Inr rs" using n by (auto simp: add_restseg_def split: sum.splits)
  obtain base where u: "ut_restsegs ut' = ut_restsegs ut @ [rs\<lparr>rs_base_physical_address := base\<rparr>]" "ut_buddy ut' = ut_buddy ut" "ut_thp_regions ut' = ut_thp_regions ut"
    "ut_2mb_index ut' = (if pb = 21 then Some (length (ut_restsegs ut)) else ut_2mb_index ut)" "ut_4kb_index ut' = (if pb = 12 then Some (length (ut_restsegs ut)) else ut_4kb_index ut)"
    using n r by (auto simp: add_restseg_def Let_def split: prod.splits)
  have b: "thp_base (flex ut')" using flex_cong(1) [OF u(2,3)] inv by (simp add: ut_inv_def)
  have i: "rs_inv (rs\<lparr>rs_base_physical_address := base\<rparr>)" by (rule rs_inv_new [OF p r])
  have bits: "rs_page_size_bits rs = pb" by (rule rest_seg_new_sets(3) [OF p r])
  have "ut_inv ut'" using inv b i bits unfolding ut_inv_def u(1,4,5) by (auto simp: nth_append split: if_splits)
  with u(2,3) show ?thesis by blast
qed

text \<open>The segments as the constructor gets them, from the logarithms of size and associativity.\<close>

definition seg_config :: "nat \<times> nat \<times> nat \<Rightarrow> nat \<times> nat \<times> nat" where
  "seg_config ps = (case ps of (m, a, pb) \<Rightarrow> (2 ^ m, pb, 2 ^ a))"

definition segs_ok :: "(nat \<times> nat \<times> nat) list \<Rightarrow> bool" where
  "segs_ok ps \<longleftrightarrow> (\<forall>(m, a, pb) \<in> set ps. rs_params m a pb)"

lemma add_restsegs_ok:
  assumes "ut_inv ut" "segs_ok ps" "add_restsegs cores fpb (map seg_config ps) ut = Inr ut'"
  shows "ut_inv ut' \<and> ut_buddy ut' = ut_buddy ut \<and> ut_thp_regions ut' = ut_thp_regions ut"
  using assms
proof (induction ps arbitrary: ut)
  case (Cons p ps)
  obtain m a pb where p: "p = (m, a, pb)" by (cases p) auto
  have "seg_config p = (2 ^ m, pb, 2 ^ a)" by (simp add: seg_config_def p)
  then obtain u1 where u1: "add_restseg cores fpb ut (2 ^ m, pb, 2 ^ a) = Inr u1" "add_restsegs cores fpb (map seg_config ps) u1 = Inr ut'"
    using Cons.prems(3) by (auto split: sum.splits)
  have q: "rs_params m a pb" "segs_ok ps" using Cons.prems(2) by (simp_all add: segs_ok_def p)
  note A = add_restseg_ok [OF Cons.prems(1) q(1) u1(1)]
  from A Cons.IH [OF _ q(2) u1(2)] show ?case by simp
qed simp

lemma utopia_new_inv:
  assumes m: "kernel_size \<le> memory_size" "memory_size < 2 ^ 31" and s: "segs_ok ps" and n: "utopia_new memory_size max_order kernel_size percent cfg cores fpb (map seg_config ps) = Inr ut"
  shows "ut_inv ut" "m_max_order (ut_buddy ut) = max_order" "m_free_pages (ut_buddy ut) = size (thp_pages (flex ut))" "thp_pages (flex ut) = mset [kernel_size * 256..<memory_size * 256]"
proof -
  let ?u = "utopia_empty memory_size max_order kernel_size percent cfg"
  note B = buddy_new_ok [OF m, of max_order]
  have u: "ut_buddy ?u = buddy_new memory_size max_order kernel_size" "ut_thp_regions ?u = []" "ut_restsegs ?u = []" "ut_2mb_index ?u = None" "ut_4kb_index ?u = None"
    by (simp_all add: utopia_empty_def)
  have p: "thp_pages (flex ?u) = mset [kernel_size * 256..<memory_size * 256]" by (simp add: thp_pages_def u B(2))
  have "count (thp_pages (flex ?u)) x \<le> 1" for x using B(1) by (simp add: thp_pages_def u buddy_inv_def)
  then have "thp_base (flex ?u)" using B(1) by (simp add: thp_base_def u)
  then have "ut_inv ?u" by (simp add: ut_inv_def u)
  from add_restsegs_ok [OF this s n [unfolded utopia_new_def]] have i: "ut_inv ut" "ut_buddy ut = ut_buddy ?u" "ut_thp_regions ut = ut_thp_regions ?u" by blast+
  show "ut_inv ut" "m_max_order (ut_buddy ut) = max_order" using i B(5) u(1) by simp_all
  show q: "thp_pages (flex ut) = mset [kernel_size * 256..<memory_size * 256]" using flex_cong(2) [OF i(2,3)] p by simp
  show "m_free_pages (ut_buddy ut) = size (thp_pages (flex ut))" unfolding q i(2) u(1) B(3) by (simp add: diff_mult_distrib)
qed

section \<open>Runs of the allocator\<close>

text \<open>
  The state of a run is the allocator and the pages that the buddy allocator has handed out and not got back.
  A migration gives back the page it is told, which must be one of them.
\<close>

inductive ut_step :: "utopia \<times> nat multiset \<Rightarrow> utopia \<times> nat multiset \<Rightarrow> bool" where
  data: "a < 2 ^ 48 \<Longrightarrow> 4096 \<le> sz \<Longrightarrow> ceil_log2 (sz div 4096) \<le> m_max_order (ut_buddy ut) + 1 \<Longrightarrow> ut_allocate ut sz a app False False = Inr (r, ut') \<Longrightarrow>
     ut_step (ut, own) (ut', own + (thp_pages (flex ut) - thp_pages (flex ut')))"
| pagetable: "4096 \<le> sz \<Longrightarrow> ceil_log2 (sz div 4096) \<le> m_max_order (ut_buddy ut) + 1 \<Longrightarrow> ut_allocate ut sz a app True instr = Inr (r, ut') \<Longrightarrow>
     ut_step (ut, own) (ut', own + (thp_pages (flex ut) - thp_pages (flex ut')))"
| instruction: "ut_allocate ut sz a app False True = Inr (r, ut') \<Longrightarrow> ut_step (ut, own) (ut', own)"
| residence: "isInRestSeg ut a app = (found, ut') \<Longrightarrow> ut_step (ut, own) (ut', own)"
| migrate: "a < 2 ^ 48 \<Longrightarrow> old \<in># own \<Longrightarrow> migratePage ut a old bits app = Inr (new, ut') \<Longrightarrow>
     ut_step (ut, own) (ut', own - (thp_pages (flex ut') - thp_pages (flex ut)))"
| walk: "a < 2 ^ 48 \<Longrightarrow> old \<in># own \<Longrightarrow> cost_hook ut a old app dram base_inc cap count_stats = Inr (r, ut') \<Longrightarrow>
     ut_step (ut, own) (ut', own - (thp_pages (flex ut') - thp_pages (flex ut)))"

definition machine_ok :: "nat \<Rightarrow> nat multiset \<Rightarrow> utopia \<times> nat multiset \<Rightarrow> bool" where
  "machine_ok max_order whole x \<longleftrightarrow> ut_inv (fst x) \<and> m_max_order (ut_buddy (fst x)) = max_order \<and> m_free_pages (ut_buddy (fst x)) = size (thp_pages (flex (fst x))) \<and>
     thp_pages (flex (fst x)) + snd x = whole"

lemma machine_okD:
  assumes "machine_ok max_order (mset [lo..<hi]) (ut, own)" "hi < 2 ^ 63"
  shows "ut_inv ut" "m_max_order (ut_buddy ut) = max_order" "m_free_pages (ut_buddy ut) = size (thp_pages (flex ut))" "thp_pages (flex ut) + own = mset [lo..<hi]"
    "old \<in># own \<Longrightarrow> old \<notin># thp_pages (flex ut) \<and> old + 1 < 2 ^ 64" "m_free_pages (ut_buddy ut) + 1 < 2 ^ 64"
proof -
  show g: "ut_inv ut" "m_max_order (ut_buddy ut) = max_order" "m_free_pages (ut_buddy ut) = size (thp_pages (flex ut))" "thp_pages (flex ut) + own = mset [lo..<hi]"
    using assms(1) by (simp_all add: machine_ok_def)
  have "size (thp_pages (flex ut)) + size own = hi - lo" using arg_cong [OF g(4), of size] by simp
  then show "m_free_pages (ut_buddy ut) + 1 < 2 ^ 64" using g(3) assms(2) by simp
  assume o: "old \<in># own"
  have "count (thp_pages (flex ut)) old + count own old = count (mset [lo..<hi]) old" using g(4) by (metis count_union)
  moreover have "count (mset [lo..<hi]) old \<le> 1" using distinct_count_atmost_1 [of "[lo..<hi]"] by (simp split: if_splits)
  moreover have "1 \<le> count own old" using o by simp
  ultimately have "count (thp_pages (flex ut)) old = 0" by linarith
  moreover have "old \<in># mset [lo..<hi]" using o unfolding g(4) [symmetric] by simp
  ultimately show "old \<notin># thp_pages (flex ut) \<and> old + 1 < 2 ^ 64" using assms(2) by (simp add: count_eq_zero_iff)
qed

lemma placed_at_pages: "placed_at ut ut' sz a app p b \<Longrightarrow> thp_pages (flex ut') \<subseteq># thp_pages (flex ut)"
  unfolding placed_at_def by (metis mset_subset_eq_add_left subset_mset.order_refl)

text \<open>A step that takes pages from the buddy allocator, and one that gives a page back.\<close>

lemma machine_take:
  assumes "machine_ok max_order whole (ut, own)" "ut_inv ut'" "m_max_order (ut_buddy ut') = m_max_order (ut_buddy ut)" "thp_pages (flex ut') \<subseteq># thp_pages (flex ut)"
    and "m_free_pages (ut_buddy ut') + size (thp_pages (flex ut)) = m_free_pages (ut_buddy ut) + size (thp_pages (flex ut'))"
  shows "machine_ok max_order whole (ut', own + (thp_pages (flex ut) - thp_pages (flex ut')))"
proof -
  have "thp_pages (flex ut') + (own + (thp_pages (flex ut) - thp_pages (flex ut'))) = thp_pages (flex ut) + own" using subset_mset.add_diff_inverse [OF assms(4)] by (simp add: union_assoc [symmetric] union_commute)
  then show ?thesis using assms(1-3,5) unfolding machine_ok_def fst_conv snd_conv by (metis add.commute add_left_cancel)
qed

definition gives_back :: "utopia \<Rightarrow> utopia \<Rightarrow> u64 \<Rightarrow> bool" where
  "gives_back ut ut' old \<longleftrightarrow> ut_inv ut' \<and> (unmoved ut ut' \<or> (\<exists>i a app. moved_to ut ut' i a app old))"

lemma machine_give:
  assumes "machine_ok max_order whole (ut, own)" "old \<in># own" "gives_back ut ut' old"
  shows "machine_ok max_order whole (ut', own - (thp_pages (flex ut') - thp_pages (flex ut)))"
proof -
  have i: "ut_inv ut'" using assms(3) by (simp add: gives_back_def)
  from assms(3) consider (no) "unmoved ut ut'" | (yes) i a app where "moved_to ut ut' i a app old" unfolding gives_back_def by blast
  then show ?thesis
  proof cases
    case no
    then have "thp_pages (flex ut') = thp_pages (flex ut)" "ut_buddy ut' = ut_buddy ut" by (simp_all add: unmoved_def thp_pages_def)
    then show ?thesis using assms(1) i by (simp add: machine_ok_def)
  next
    case yes
    note p = moved_to_pages [OF yes]
    have c: "m_max_order (ut_buddy ut') = m_max_order (ut_buddy ut)" "m_free_pages (ut_buddy ut') = m_free_pages (ut_buddy ut) + 1" using yes by (simp_all add: moved_to_def)
    have "thp_pages (flex ut') + (own - {#old#}) = thp_pages (flex ut) + own" unfolding p using assms(2) by (simp add: insert_DiffM)
    moreover have "thp_pages (flex ut') - thp_pages (flex ut) = {#old#}" by (simp add: p)
    ultimately show ?thesis using assms(1) i c unfolding machine_ok_def fst_conv snd_conv by (simp add: p)
  qed
qed

lemma migrate_gives_back:
  assumes "ut_inv ut'" "migrate_post ut a old bits app new ut'"
  shows "gives_back ut ut' old"
  using assms unfolding migrate_post_def gives_back_def by blast

lemma unmoved_topk [simp]: "unmoved (ut\<lparr>ut_topk := st\<rparr>) ut' = unmoved ut ut'" "unmoved ut (ut'\<lparr>ut_topk := st\<rparr>) = unmoved ut ut'"
  by (simp_all add: unmoved_def segs_same_def)

lemma moved_topk [simp]: "moved_to (ut\<lparr>ut_topk := st\<rparr>) ut' i a app old = moved_to ut ut' i a app old" "moved_to ut (ut'\<lparr>ut_topk := st\<rparr>) i a app old = moved_to ut ut' i a app old"
  by (simp_all add: moved_to_def)

lemma ut_topk_irrelevant [simp]: "flex (ut\<lparr>ut_topk := st\<rparr>) = flex ut" "ut_inv (ut\<lparr>ut_topk := st\<rparr>) = ut_inv ut"
  by (simp_all add: flex_def ut_inv_def)

lemma gives_back_topk [simp]: "gives_back (ut\<lparr>ut_topk := st\<rparr>) ut' old = gives_back ut ut' old" "gives_back ut (ut'\<lparr>ut_topk := st\<rparr>) old = gives_back ut ut' old"
  by (simp_all add: gives_back_def)

lemma gives_back_refl: "ut_inv ut \<Longrightarrow> gives_back ut ut old"
  by (simp add: gives_back_def unmoved_def segs_same_refl)

lemma consider_ok:
  assumes inv: "ut_inv ut" and a: "a < 2 ^ 48" and old: "old \<notin># thp_pages (flex ut)" "old + 1 < 2 ^ 64" and room: "m_free_pages (ut_buddy ut) + 1 < 2 ^ 64"
  shows "\<exists>r ut'. considerCostBasedMigration ut a old bits app vpn count_stats = Inr (r, ut') \<and> gives_back ut ut' old"
proof -
  obtain r st where g: "migration_gate (ut_topk_config ut) (ut_topk ut) bits vpn count_stats = (r, st)" by fastforce
  let ?u = "ut\<lparr>ut_topk := st\<rparr>"
  show ?thesis
  proof (cases "r = None \<or> migration_target ?u = None")
    case True
    then have "considerCostBasedMigration ut a old bits app vpn count_stats = Inr ((False, 0), ?u)" by (auto simp: considerCostBasedMigration_def g Let_def split: option.splits)
    then show ?thesis using gives_back_refl [OF inv] by auto
  next
    case False
    then obtain i target where t: "r = Some i" "migration_target ?u = Some target" by auto
    obtain new u2 where m: "migratePage ?u a old target app = Inr (new, u2)" "ut_inv u2" "migrate_post ?u a old target app new u2"
      using migratePage_ok [of ?u a old target app] inv a old room by auto
    have b: "gives_back ut u2 old" using migrate_gives_back [OF m(2,3)] by simp
    then show ?thesis using m(1) by (cases "new = 0") (auto simp: considerCostBasedMigration_def g Let_def t)
  qed
qed

lemma cost_hook_ok:
  assumes "ut_inv ut" "a < 2 ^ 48" "old \<notin># thp_pages (flex ut)" "old + 1 < 2 ^ 64" "m_free_pages (ut_buddy ut) + 1 < 2 ^ 64"
  shows "\<exists>r ut'. cost_hook ut a old app dram base_inc cap count_stats = Inr (r, ut') \<and> gives_back ut ut' old"
  using consider_ok [of "ut\<lparr>ut_topk := st\<rparr>" a old 12 app "drop_bit 12 a" count_stats for st] assms
  by (auto simp: cost_hook_def Let_def split: prod.splits)

lemma pagetable_ok:
  assumes inv: "ut_inv ut" and n: "4096 \<le> sz" "ceil_log2 (sz div 4096) \<le> m_max_order (ut_buddy ut) + 1" and al: "ut_allocate ut sz a app True instr = Inr (r, ut')"
  shows "ut_inv ut' \<and> m_max_order (ut_buddy ut') = m_max_order (ut_buddy ut) \<and> thp_pages (flex ut') \<subseteq># thp_pages (flex ut) \<and>
    m_free_pages (ut_buddy ut') + size (thp_pages (flex ut)) = m_free_pages (ut_buddy ut) + size (thp_pages (flex ut'))"
proof -
  let ?u = "ut_count (\<lambda>s. s\<lparr>us_total := add64 (us_total s) 1\<rparr>) ut"
  have f: "flex ?u = flex ut" by (simp add: flex_def)
  have b: "thp_base (flex ?u)" unfolding f using inv by (simp add: ut_inv_def)
  have n2: "ceil_log2 (sz div 4096) \<le> m_max_order (ut_buddy ?u) + 1" using n(2) by simp
  obtain p bd where d: "ut_buddy_allocate ?u sz = Inr (p, ?u\<lparr>ut_buddy := bd\<rparr>)" "thp_base (flex (?u\<lparr>ut_buddy := bd\<rparr>))" "m_max_order bd = m_max_order (ut_buddy ?u)"
    "m_free_pages bd + size (thp_pages (flex ?u)) = m_free_pages (ut_buddy ?u) + size (thp_pages (flex (?u\<lparr>ut_buddy := bd\<rparr>)))"
    "if p = minus1_64 then bd = ut_buddy ?u else thp_pages (flex (?u\<lparr>ut_buddy := bd\<rparr>)) + mset [p..<p + 2 ^ ceil_log2 (sz div 4096)] = thp_pages (flex ?u)"
    using ut_buddy_allocate_ok [OF b n(1) n2] by (elim exE conjE)
  let ?v = "flex_4kb (?u\<lparr>ut_buddy := bd\<rparr>)"
  have "ut_allocate ut sz a app True instr = Inr ((p, 12), ?v)" unfolding ut_allocate_def Let_def d(1) by simp
  then have u: "ut' = ?v" using al by simp
  have fv: "thp_base (flex ?v)" "thp_pages (flex ?v) = thp_pages (flex (?u\<lparr>ut_buddy := bd\<rparr>))" using d(2) by (simp_all add: thp_base_def thp_pages_def)
  have "thp_pages (flex ?v) \<subseteq># thp_pages (flex ut)"
  proof (cases "p = minus1_64")
    case True
    then have "thp_pages (flex ?v) = thp_pages (flex ut)" using d(5) by (simp add: thp_pages_def)
    then show ?thesis by simp
  next
    case False
    then have "thp_pages (flex ?v) + mset [p..<p + 2 ^ ceil_log2 (sz div 4096)] = thp_pages (flex ut)" using d(5) unfolding fv(2) f by presburger
    then show ?thesis by (simp only: mset_subset_eq_exists_conv) (rule exI, rule sym)
  qed
  moreover have "ut_inv ?v" using inv fv(1) by (simp add: ut_inv_def)
  moreover have "m_free_pages (ut_buddy ?v) + size (thp_pages (flex ut)) = m_free_pages (ut_buddy ut) + size (thp_pages (flex ?v))" unfolding fv(2) f [symmetric] using d(4) by simp
  moreover have "m_max_order (ut_buddy ?v) = m_max_order (ut_buddy ut)" using d(3) by simp
  ultimately show ?thesis unfolding u by blast
qed

lemma instruction_ok:
  assumes "ut_allocate ut sz a app False True = Inr (r, ut')"
  shows "ut_restsegs ut' = ut_restsegs ut" "ut_buddy ut' = ut_buddy ut" "ut_thp_regions ut' = ut_thp_regions ut" "ut_2mb_index ut' = ut_2mb_index ut" "ut_4kb_index ut' = ut_4kb_index ut"
  using assms by (auto simp: ut_allocate_def Let_def split: prod.splits)

lemma machine_step:
  assumes "ut_step x y" "machine_ok max_order (mset [lo..<hi]) x" "4 \<le> max_order" "hi < 2 ^ 63"
  shows "machine_ok max_order (mset [lo..<hi]) y"
  using assms
proof cases
  case (data a sz ut app r ut' own)
  note D = machine_okD [OF assms(2) [unfolded data(1)] assms(4)]
  obtain p b where al: "r = (p, b)" "ut_inv ut'" "m_max_order (ut_buddy ut') = m_max_order (ut_buddy ut)" "placed_at ut ut' sz a app p b"
    "m_free_pages (ut_buddy ut') + size (thp_pages (flex ut)) = m_free_pages (ut_buddy ut) + size (thp_pages (flex ut'))"
    using ut_allocate_ok [OF D(1) data(3) _ data(4,5), of app] data(6) D(2) assms(3) by auto
  show ?thesis unfolding data(2) by (rule machine_take [OF assms(2) [unfolded data(1)] al(2,3) placed_at_pages [OF al(4)] al(5)])
next
  case (pagetable sz ut a app instr r ut' own)
  note D = machine_okD [OF assms(2) [unfolded pagetable(1)] assms(4)]
  note P = pagetable_ok [OF D(1) pagetable(3-5)]
  show ?thesis unfolding pagetable(2) by (rule machine_take [OF assms(2) [unfolded pagetable(1)]]) (use P in blast)+
next
  case (instruction ut sz a app r ut' own)
  note i = instruction_ok [OF instruction(3)]
  show ?thesis using assms(2) flex_cong(1,2) [OF i(2,3)] unfolding instruction(1,2) machine_ok_def ut_inv_def fst_conv snd_conv i by simp
next
  case (residence ut a app found ut' own)
  note D = machine_okD [OF assms(2) [unfolded residence(1)] assms(4)]
  note R = isInRestSeg_ok [OF D(1) residence(3)]
  have e: "ut_buddy ut' = ut_buddy ut" "ut_thp_regions ut' = ut_thp_regions ut" using R(3) by auto
  show ?thesis using assms(2) R(1) flex_cong(2) [OF e] unfolding residence(1,2) machine_ok_def fst_conv snd_conv e by simp
next
  case (migrate a old own ut bits app new ut')
  note D = machine_okD [OF assms(2) [unfolded migrate(1)] assms(4)]
  have "gives_back ut ut' old" using migratePage_ok [OF D(1) migrate(3) _ _ D(6), of old bits app] D(5) [OF migrate(4)] migrate(5) migrate_gives_back by auto
  then show ?thesis unfolding migrate(2) by (rule machine_give [OF assms(2) [unfolded migrate(1)] migrate(4)])
next
  case (walk a old own ut app dram base_inc cap count_stats r ut')
  note D = machine_okD [OF assms(2) [unfolded walk(1)] assms(4)]
  have "gives_back ut ut' old" using cost_hook_ok [OF D(1) walk(3) _ _ D(6), of old app dram base_inc cap count_stats] D(5) [OF walk(4)] walk(5) by auto
  then show ?thesis unfolding walk(2) by (rule machine_give [OF assms(2) [unfolded walk(1)] walk(4)])
qed

lemma machine_run:
  assumes "ut_step\<^sup>*\<^sup>* x y" "machine_ok max_order (mset [lo..<hi]) x" "4 \<le> max_order" "hi < 2 ^ 63"
  shows "machine_ok max_order (mset [lo..<hi]) y"
  using assms by (induction rule: rtranclp_induct) (blast intro: machine_step)+

text \<open>The configurations that the properties are about.\<close>

definition ut_params :: "nat \<Rightarrow> nat \<Rightarrow> nat \<Rightarrow> (nat \<times> nat \<times> nat) list \<Rightarrow> bool" where
  "ut_params memory_size max_order kernel_size ps \<longleftrightarrow> kernel_size \<le> memory_size \<and> memory_size < 2 ^ 31 \<and> 4 \<le> max_order \<and> segs_ok ps"

definition ut_reach :: "nat \<Rightarrow> nat \<Rightarrow> nat \<Rightarrow> int \<Rightarrow> topk_config \<Rightarrow> nat \<Rightarrow> int \<Rightarrow> (nat \<times> nat \<times> nat) list \<Rightarrow> utopia \<times> nat multiset \<Rightarrow> bool" where
  "ut_reach memory_size max_order kernel_size percent cfg cores fpb ps x \<longleftrightarrow>
     (\<exists>ut. utopia_new memory_size max_order kernel_size percent cfg cores fpb (map seg_config ps) = Inr ut \<and> ut_step\<^sup>*\<^sup>* (ut, {#}) x)"

lemma ut_reach_ok:
  assumes p: "ut_params memory_size max_order kernel_size ps" and r: "ut_reach memory_size max_order kernel_size percent cfg cores fpb ps (ut, own)"
  shows "machine_ok max_order (mset [kernel_size * 256..<memory_size * 256]) (ut, own)" "memory_size * 256 < 2 ^ 63" "4 \<le> max_order"
proof -
  show h: "memory_size * 256 < 2 ^ 63" "4 \<le> max_order" using p by (simp_all add: ut_params_def)
  obtain u0 where u: "utopia_new memory_size max_order kernel_size percent cfg cores fpb (map seg_config ps) = Inr u0" "ut_step\<^sup>*\<^sup>* (u0, {#}) (ut, own)"
    using r by (auto simp: ut_reach_def)
  have "machine_ok max_order (mset [kernel_size * 256..<memory_size * 256]) (u0, {#})"
    using utopia_new_inv [OF _ _ _ u(1)] p by (simp add: machine_ok_def ut_params_def)
  then show "machine_ok max_order (mset [kernel_size * 256..<memory_size * 256]) (ut, own)" by (rule machine_run [OF u(2) _ h(2,1)])
qed

section \<open>A small instance\<close>

text \<open>Four megabytes, half of them for the kernel, with a segment of one megabyte.\<close>

lemma utopia_small: "\<exists>ut. utopia_new 4 9 2 percent cfg 1 4 (map seg_config [(0, 4, 12)]) = Inr ut"
  using rest_seg_1mb by (auto simp: utopia_new_def valid_fingerprint_bits_def seg_config_def add_restseg_def Let_def split: prod.splits sum.splits)

lemma small_params: "ut_params 4 9 2 [(0, 4, 12)]"
  by (simp add: ut_params_def segs_ok_def rs_params_def)

lemma small_start: "utopia_new 4 9 2 percent cfg 1 4 (map seg_config [(0, 4, 12)]) = Inr ut \<Longrightarrow> ut_reach 4 9 2 percent cfg 1 4 [(0, 4, 12)] (ut, {#})"
  by (auto simp: ut_reach_def)

lemma small_new:
  assumes "utopia_new 4 9 2 percent cfg 1 4 (map seg_config [(0, 4, 12)]) = Inr ut"
  shows "\<exists>rs base. rest_seg_new (2 ^ 0) 12 (2 ^ 4) 4 = Inr rs \<and> ut_restsegs ut = [rs\<lparr>rs_base_physical_address := base\<rparr>]" "ut_thp_regions ut = []" "ut_buddy ut = rt_buddy thp_fresh"
  using assms by (auto simp: utopia_new_def valid_fingerprint_bits_def seg_config_def add_restseg_def Let_def utopia_empty_def thp_fresh_def reserve_thp_new_def split: prod.splits sum.splits)

lemma small_page_table:
  assumes n: "utopia_new 4 9 2 percent cfg 1 4 (map seg_config [(0, 4, 12)]) = Inr ut"
  shows "\<exists>ut' own old. ut_reach 4 9 2 percent cfg 1 4 [(0, 4, 12)] (ut', own) \<and> old \<in># own \<and> ut_restsegs ut' = ut_restsegs ut \<and> ut_thp_regions ut' = []"
proof -
  let ?u = "ut_count (\<lambda>s. s\<lparr>us_total := add64 (us_total s) 1\<rparr>) ut"
  have bd: "ut_buddy ?u = rt_buddy thp_fresh" using small_new(3) [OF n] by simp
  have inv: "buddy_inv (rt_buddy thp_fresh)" using buddy_new_ok(1) [of 2 4 9] by (simp add: thp_fresh_def reserve_thp_new_def)
  have l: "ceil_log2 (4096 div 4096) = 0" by (simp add: ceil_log2.simps)
  have "\<exists>p bd'. allocate (rt_buddy thp_fresh) 4096 = Inr (p, bd') \<and> p + 2 ^ 0 < 2 ^ 64 \<and> free_pages (free_list bd') + mset [p..<p + 2 ^ 0] = free_pages (free_list (rt_buddy thp_fresh))"
    using allocate_found [OF inv, of 4096 9] by (auto simp: l thp_fresh_free_list)
  then obtain p bd' where a: "allocate (rt_buddy thp_fresh) 4096 = Inr (p, bd')" "free_pages (free_list bd') + {#p#} = free_pages (free_list (rt_buddy thp_fresh))" by auto
  let ?v = "flex_4kb (?u\<lparr>ut_buddy := bd'\<rparr>)"
  have al: "ut_allocate ut 4096 0 0 True False = Inr ((p, 12), ?v)" unfolding ut_allocate_def Let_def ut_buddy_allocate_def bd a(1) by simp
  have "ut_step (ut, {#}) (?v, {#} + (thp_pages (flex ut) - thp_pages (flex ?v)))" by (rule ut_step.pagetable [OF _ _ al]) (simp_all add: l)
  then have r: "ut_reach 4 9 2 percent cfg 1 4 [(0, 4, 12)] (?v, thp_pages (flex ut) - thp_pages (flex ?v))" using n by (auto simp: ut_reach_def)
  have "thp_pages (flex ut) = thp_pages (flex ?v) + {#p#}" using a(2) [symmetric] small_new(2,3) [OF n] by (simp add: thp_pages_def)
  then have "p \<in># thp_pages (flex ut) - thp_pages (flex ?v)" by simp
  moreover have "ut_restsegs ?v = ut_restsegs ut" "ut_thp_regions ?v = []" using small_new(2) [OF n] by simp_all
  ultimately show ?thesis using r by blast
qed

lemma small_movable:
  assumes n: "utopia_new 4 9 2 percent cfg 1 4 (map seg_config [(0, 4, 12)]) = Inr ut" and u: "ut_restsegs ut' = ut_restsegs ut" "ut_thp_regions ut' = []"
  shows "\<not> housed ut' 0x1000 1 \<and> \<not> no_room ut' 0x1000 12"
proof -
  obtain rs base where r: "rest_seg_new (2 ^ 0) 12 (2 ^ 4) 4 = Inr rs" "ut_restsegs ut = [rs\<lparr>rs_base_physical_address := base\<rparr>]" using small_new(1) [OF n] by blast
  let ?rs = "rs\<lparr>rs_base_physical_address := base\<rparr>"
  note c = rest_seg_new_sets [OF params_1mb r(1)]
  have "lookupWay ?rs 0x1000 1 = None" using rs_new_empty [OF params_1mb r(1)] by (simp add: lookupWay_resident)
  moreover have "\<not> stuck ?rs 0x1000"
    using c by (simp add: stuck_def rs_splitAddress_slot slot_def set_of_def rs_set_new_def rs_entry_new_def drop_bit_eq_div)
  ultimately show ?thesis using c(3) by (simp add: housed_def no_room_def u r(2))
qed

section \<open>Properties of the allocator\<close>

text \<open>
  C3: the Utopia allocator neither loses nor duplicates a page of the memory outside the kernel
  region. After any run of allocations, lookups and migrations, from construction on, the pages on the
  free lists, those of the reserved regions and those handed out are together each such page
  exactly once, and the counter of free pages is the number of those not handed out. A
  frame that a reserved region gives to a virtual page is not free, not handed out, and belongs to no other
  virtual page.
\<close>

theorem utopia_pages_conserved:
  assumes "ut_params memory_size max_order kernel_size ps" "ut_reach memory_size max_order kernel_size percent cfg cores fpb ps (ut, own)"
  shows "free_pages (free_list (ut_buddy ut)) + (\<Sum>e \<in># mset (ut_thp_regions ut). region_pages (snd e)) + own = mset [kernel_size * 256..<memory_size * 256] \<and>
    m_free_pages (ut_buddy ut) + size own = (memory_size - kernel_size) * 256 \<and>
    (\<forall>a f. flex_frame ut a = Some f \<longrightarrow>
       f \<notin># free_pages (free_list (ut_buddy ut)) \<and> f \<notin># own \<and> (\<forall>a'. flex_frame ut a' = Some f \<longrightarrow> a' div 4096 = a div 4096))"
proof -
  note R = ut_reach_ok [OF assms]
  note D = machine_okD [OF R(1,2)]
  have b: "thp_base (flex ut)" using D(1) by (simp add: ut_inv_def)
  have "size (thp_pages (flex ut)) + size own = (memory_size - kernel_size) * 256" using arg_cong [OF D(4), of size] by (simp add: diff_mult_distrib)
  moreover have "f \<notin># own" if "flex_frame ut a = Some f" for a f using flex_frame_page [OF that] D(5) [of f] by blast
  moreover have "f \<notin># free_pages (free_list (ut_buddy ut))" if f: "flex_frame ut a = Some f" for a f
  proof -
    obtain r where r: "map_of (ut_thp_regions ut) (va_region a) = Some r" "f \<in># region_pages r" using flex_frame_region [OF f] by blast
    then have "f \<in># (\<Sum>e \<in># mset (ut_thp_regions ut). region_pages (snd e))" by (force dest: map_of_SomeD)
    then have "1 \<le> count (\<Sum>e \<in># mset (ut_thp_regions ut). region_pages (snd e)) f" by (simp add: Suc_le_eq)
    moreover have "count (free_pages (free_list (ut_buddy ut))) f + count (\<Sum>e \<in># mset (ut_thp_regions ut). region_pages (snd e)) f \<le> 1"
      using thp_baseD(3) [OF b, of f] by (simp add: thp_pages_def)
    ultimately have "count (free_pages (free_list (ut_buddy ut))) f = 0" by linarith
    then show ?thesis by (simp add: count_eq_zero_iff)
  qed
  ultimately show ?thesis using D(3,4) flex_frame_inj [OF b] unfolding thp_pages_def flex_sel by (metis (no_types))
qed

theorem utopia_pages_conserved_witness:
  "\<forall>cfg. \<exists>ut own old. ut_reach 4 9 2 75 cfg 1 4 [(0, 4, 12)] (ut, own) \<and> old \<in># own \<and> m_free_pages (ut_buddy ut) + size own = 512 \<and>
     free_pages (free_list (ut_buddy ut)) + (\<Sum>e \<in># mset (ut_thp_regions ut). region_pages (snd e)) + own = mset [512..<1024]"
proof
  fix cfg
  obtain u0 where "utopia_new 4 9 2 75 cfg 1 4 (map seg_config [(0, 4, 12)]) = Inr u0" using utopia_small by blast
  then obtain ut own old where r: "ut_reach 4 9 2 75 cfg 1 4 [(0, 4, 12)] (ut, own)" "old \<in># own" using small_page_table by blast
  from utopia_pages_conserved [OF small_params r(1)] r show "\<exists>ut own old. ut_reach 4 9 2 75 cfg 1 4 [(0, 4, 12)] (ut, own) \<and> old \<in># own \<and> m_free_pages (ut_buddy ut) + size own = 512 \<and>
     free_pages (free_list (ut_buddy ut)) + (\<Sum>e \<in># mset (ut_thp_regions ut). region_pages (snd e)) + own = mset [512..<1024]"
    by (intro exI [of _ ut] exI [of _ own] exI [of _ old]) (simp del: upt_rec_numeral)
qed

text \<open>
  C4: an allocation of the Utopia allocator always returns, and its result is a place for the page:
  a way of a segment of that page size that holds it, its frame in a reserved region, as many
  pages as were asked for, rounded up to a power of two, taken from those that were free, or
  the failure value. No page that was in a segment or
  had a frame in a region is moved by it.
\<close>

theorem utopia_allocate_correct:
  assumes "ut_params memory_size max_order kernel_size ps" "ut_reach memory_size max_order kernel_size percent cfg cores fpb ps (ut, own)"
    and "a < 2 ^ 48" "4096 \<le> sz" "ceil_log2 (sz div 4096) \<le> max_order + 1"
  shows "\<exists>p b ut'. ut_allocate ut sz a app False False = Inr ((p, b), ut') \<and> placed_at ut ut' sz a app p b \<and>
    (\<forall>i a' app' w. i < length (ut_restsegs ut) \<and> a' < 2 ^ 48 \<and> lookupWay (ut_restsegs ut ! i) a' app' = Some w \<longrightarrow>
       lookupWay (ut_restsegs ut' ! i) a' app' = Some w \<and>
       calculatePhysicalAddress (ut_restsegs ut' ! i) a' app' = calculatePhysicalAddress (ut_restsegs ut ! i) a' app') \<and>
    (\<forall>a' f. flex_frame ut a' = Some f \<longrightarrow> flex_frame ut' a' = Some f)"
proof -
  note R = ut_reach_ok [OF assms(1,2)]
  note D = machine_okD [OF R(1,2)]
  obtain p b ut' where al: "ut_allocate ut sz a app False False = Inr ((p, b), ut')" "segs_kept ut ut'" "regions_grow ut ut'" "placed_at ut ut' sz a app p b"
    using ut_allocate_ok [OF D(1) assms(3) _ assms(4), of app] D(2) R(3) assms(5) by auto
  have "lookupWay (ut_restsegs ut' ! i) a' app' = Some w \<and> calculatePhysicalAddress (ut_restsegs ut' ! i) a' app' = calculatePhysicalAddress (ut_restsegs ut ! i) a' app'"
    if h: "i < length (ut_restsegs ut) \<and> a' < 2 ^ 48 \<and> lookupWay (ut_restsegs ut ! i) a' app' = Some w" for i a' app' w
    using keeps_pages_lookup [of "ut_restsegs ut ! i" "ut_restsegs ut' ! i" a' app' w] h al(2) rs_inv_bits [OF ut_inv_seg [OF D(1), of i]] by (simp add: segs_kept_def)
  with al(1,3,4) show ?thesis unfolding regions_grow_def by blast
qed

theorem utopia_allocate_correct_witness:
  "\<forall>cfg. \<exists>ut p b ut'. utopia_new 4 9 2 75 cfg 1 4 (map seg_config [(0, 4, 12)]) = Inr ut \<and> ut_allocate ut 4096 0x1000 1 False False = Inr ((p, b), ut') \<and>
     placed_at ut ut' 4096 0x1000 1 p b"
proof
  fix cfg
  obtain ut where n: "utopia_new 4 9 2 75 cfg 1 4 (map seg_config [(0, 4, 12)]) = Inr ut" using utopia_small by blast
  from utopia_allocate_correct [OF small_params small_start [OF n], of "0x1000" 4096 1] n
  show "\<exists>ut p b ut'. utopia_new 4 9 2 75 cfg 1 4 (map seg_config [(0, 4, 12)]) = Inr ut \<and> ut_allocate ut 4096 0x1000 1 False False = Inr ((p, b), ut') \<and>
     placed_at ut ut' 4096 0x1000 1 p b" by (auto simp: ceil_log2.simps)
qed

text \<open>
  C5: a migration of a page that the buddy allocator has handed out moves it to a segment of
  the target page size unless it is in a segment or a reserved region already, or no such segment
  has a way for it. When it moves, its old frame becomes free, the result is its new
  frame, and all other pages stay where they are but the victim, whose address and whose eviction
  are reported; otherwise the result is 0 and no page moves.
\<close>

theorem utopia_migrate_correct:
  assumes "ut_params memory_size max_order kernel_size ps" "ut_reach memory_size max_order kernel_size percent cfg cores fpb ps (ut, own)"
    and "a < 2 ^ 48" "old \<in># own"
  shows "\<exists>new ut'. migratePage ut a old bits app = Inr (new, ut') \<and>
    (if housed ut a app then new = 0 \<and> unmoved ut ut'
     else new = 0 \<and> unmoved ut ut' \<and> no_room ut a bits \<or>
       (\<exists>i < length (ut_restsegs ut). moved_to ut ut' i a app old \<and> rs_page_size_bits (ut_restsegs ut ! i) = bits \<and> new = calculatePhysicalAddress (ut_restsegs ut' ! i) a app))"
proof -
  note R = ut_reach_ok [OF assms(1,2)]
  note D = machine_okD [OF R(1,2)]
  obtain new ut' where m: "migratePage ut a old bits app = Inr (new, ut')" "migrate_post ut a old bits app new ut'"
    using migratePage_ok [OF D(1) assms(3) _ _ D(6), of old bits app] D(5) [OF assms(4)] by auto
  then show ?thesis unfolding migrate_post_def by auto
qed

theorem utopia_migrate_correct_witness:
  "\<forall>cfg. \<exists>ut own old new ut'. ut_reach 4 9 2 75 cfg 1 4 [(0, 4, 12)] (ut, own) \<and> old \<in># own \<and> migratePage ut 0x1000 old 12 1 = Inr (new, ut') \<and>
     (\<exists>i < length (ut_restsegs ut). moved_to ut ut' i 0x1000 1 old \<and> new = calculatePhysicalAddress (ut_restsegs ut' ! i) 0x1000 1)"
proof
  fix cfg
  obtain u0 where n: "utopia_new 4 9 2 75 cfg 1 4 (map seg_config [(0, 4, 12)]) = Inr u0" using utopia_small by blast
  then obtain ut own old where r: "ut_reach 4 9 2 75 cfg 1 4 [(0, 4, 12)] (ut, own)" "old \<in># own" "ut_restsegs ut = ut_restsegs u0" "ut_thp_regions ut = []"
    using small_page_table by blast
  have lt: "(0x1000 :: nat) < 2 ^ 48" by simp
  from utopia_migrate_correct [OF small_params r(1) lt r(2), of 12 1] small_movable [OF n r(3,4)]
  obtain new ut' i where "migratePage ut 0x1000 old 12 1 = Inr (new, ut')" "i < length (ut_restsegs ut)" "moved_to ut ut' i 0x1000 1 old" "new = calculatePhysicalAddress (ut_restsegs ut' ! i) 0x1000 1"
    by (auto simp del: One_nat_def)
  with r(1,2)
  show "\<exists>ut own old new ut'. ut_reach 4 9 2 75 cfg 1 4 [(0, 4, 12)] (ut, own) \<and> old \<in># own \<and> migratePage ut 0x1000 old 12 1 = Inr (new, ut') \<and>
     (\<exists>i < length (ut_restsegs ut). moved_to ut ut' i 0x1000 1 old \<and> new = calculatePhysicalAddress (ut_restsegs ut' ! i) 0x1000 1)" by blast
qed

section \<open>Segments that overlap\<close>

text \<open>
  The constructor aligns the base of a segment after it has taken the bytes of the segment from
  the kernel region, without taking the pages skipped. In the configuration with a segment of 2GB
  for 2MB pages and one of 8GB for 4KB pages, the first page of the second is a
  page of the last frame of the first.
\<close>

lemma segments_overlap:
  "\<exists>ut. utopia_new 131072 12 32768 0 cfg 1 4 [(2048, 21, 8), (8192, 12, 8)] = Inr ut \<and>
     (case ut_restsegs ut of [rs2, rs4] \<Rightarrow>
        rs_base_physical_address rs2 = 512 \<and> rs_num_sets rs2 * rs_associativity rs2 * 512 = 524288 \<and>
        512 + 524288 - 512 \<le> rs_base_physical_address rs4 \<and> rs_base_physical_address rs4 < 512 + 524288
      | _ \<Rightarrow> False)"
  by (simp add: utopia_new_def valid_fingerprint_bits_def add_restseg_def rest_seg_new_def mul64_def add64_def sub64_def Let_def verifyIndexingLogic_def rs_splitAddress_def reconstructAddress_def
      drop_bit_eq_div push_bit_eq_mult handle_page_table_allocations_def utopia_empty_def phys_alloc_new_def getTagArraySize_def getFingerprintArraySize_def tag_entry_bytes_def ceil_log2.simps)

end
