(* ===== verification/NUMA_Buddy.thy ===== *)
theory NUMA_Buddy
  imports Buddy_Machine
begin

text \<open>
  One buddy allocator per NUMA node (\<open>numa/numa_buddy_allocator.h\<close>). The nodes lie one after the
  other in the physical address space; a node numbers its pages from zero, and the wrapper translates
  between these numbers and global page numbers. The theory shows that the wrapper is itself a source of pages
  that never grants a page twice, that an allocation directed to a node gets pages of this node,
  and that freed pages return to their node.
\<close>

section \<open>State and construction\<close>

record node_buddy =
  nb_buddy :: buddy
  nb_base :: u64
  nb_num_pages :: u64
  nb_kernel_pages :: u64
  nb_capacity_mb :: u64
  nb_kernel_mb :: u64
  nb_id :: nat

record numa_buddy =
  nu_max_order :: nat
  nu_nodes :: "node_buddy list"

text \<open>Sizes are in MB and fit in an \<open>int\<close>.\<close>

fun build_nodes :: "nat \<Rightarrow> nat \<Rightarrow> (u64 \<times> u64) list \<Rightarrow> u64 \<Rightarrow> node_buddy list" where
  "build_nodes i max_order [] current_pfn = []"
| "build_nodes i max_order ((mem_mb, kernel_mb) # sizes) current_pfn =
     (let num_pages = mul64 mem_mb 1024 div 4 in
      \<lparr> nb_buddy = buddy_new mem_mb max_order kernel_mb, nb_base = current_pfn, nb_num_pages = num_pages, nb_kernel_pages = mul64 kernel_mb 1024 div 4,
        nb_capacity_mb = mem_mb, nb_kernel_mb = kernel_mb, nb_id = i \<rparr>
      # build_nodes (Suc i) max_order sizes (add64 current_pfn num_pages))"

definition numa_buddy_new :: "nat \<Rightarrow> u64 list \<Rightarrow> u64 list \<Rightarrow> nat \<Rightarrow> u64 \<Rightarrow> numa_buddy outcome" where
  "numa_buddy_new num_nodes mem_mb kernel_mb max_order global_kernel_mb =
     (if num_nodes = 0 \<or> length mem_mb < num_nodes \<or> length kernel_mb < num_nodes then Inl Assertion_Failed
      else Inr \<lparr> nu_max_order = max_order,
                 nu_nodes = build_nodes 0 max_order (zip (take num_nodes mem_mb) (take num_nodes kernel_mb)) (mul64 global_kernel_mb 1024 div 4) \<rparr>)"

section \<open>Operations\<close>

definition put_node :: "numa_buddy \<Rightarrow> nat \<Rightarrow> buddy \<Rightarrow> numa_buddy" where
  "put_node nu i bd = nu\<lparr>nu_nodes := (nu_nodes nu)[i := (nu_nodes nu ! i)\<lparr>nb_buddy := bd\<rparr>]\<rparr>"

definition nu_allocate :: "numa_buddy \<Rightarrow> nat \<Rightarrow> u64 \<Rightarrow> (u64 \<times> numa_buddy) outcome" where
  "nu_allocate nu node bytes =
     (if length (nu_nodes nu) \<le> node then Inr (minus1_64, nu)
      else (case allocate (nb_buddy (nu_nodes nu ! node)) bytes of
              Inl err \<Rightarrow> Inl err
            | Inr (local_pfn, bd) \<Rightarrow>
                Inr (if local_pfn = minus1_64 then minus1_64 else add64 local_pfn (nb_base (nu_nodes nu ! node)), put_node nu node bd)))"

fun try_nodes :: "nat list \<Rightarrow> numa_buddy \<Rightarrow> u64 \<Rightarrow> ((u64 \<times> nat option) \<times> numa_buddy) outcome" where
  "try_nodes [] nu bytes = Inr ((minus1_64, None), nu)"
| "try_nodes (i # is) nu bytes =
     (case nu_allocate nu i bytes of
        Inl err \<Rightarrow> Inl err
      | Inr (p, nu1) \<Rightarrow> if p \<noteq> minus1_64 then Inr ((p, Some i), nu1) else try_nodes is nu1 bytes)"

definition nu_allocateAny :: "numa_buddy \<Rightarrow> u64 \<Rightarrow> ((u64 \<times> nat option) \<times> numa_buddy) outcome" where
  "nu_allocateAny nu bytes = try_nodes [0..<length (nu_nodes nu)] nu bytes"

definition nu_reserve2MBPage :: "numa_buddy \<Rightarrow> nat \<Rightarrow> (block \<times> numa_buddy) outcome" where
  "nu_reserve2MBPage nu node =
     (if length (nu_nodes nu) \<le> node then Inr ((minus1_64, 0, False, 0), nu)
      else (case reserve_2mb_page (nb_buddy (nu_nodes nu ! node)) of
              Inl err \<Rightarrow> Inl err
            | Inr ((s, e, used, core), bd) \<Rightarrow>
                let base = nb_base (nu_nodes nu ! node)
                in Inr (if s = minus1_64 then (s, e, used, core) else (add64 s base, add64 e base, used, core), put_node nu node bd)))"

definition in_node :: "u64 \<Rightarrow> node_buddy \<Rightarrow> bool" where
  "in_node pfn n \<longleftrightarrow> nb_base n \<le> pfn \<and> pfn < add64 (nb_base n) (nb_num_pages n)"

definition nu_getNodeForPFN :: "numa_buddy \<Rightarrow> u64 \<Rightarrow> nat" where
  "nu_getNodeForPFN nu pfn = (case find_index (in_node pfn) (nu_nodes nu) of Some i \<Rightarrow> i | None \<Rightarrow> 0)"

definition nu_free :: "numa_buddy \<Rightarrow> u64 \<Rightarrow> u64 \<Rightarrow> numa_buddy outcome" where
  "nu_free nu s e =
     (let i = nu_getNodeForPFN nu s in
      if length (nu_nodes nu) \<le> i then Inr nu
      else let n = nu_nodes nu ! i in map_sum id (put_node nu i) (free (nb_buddy n) (sub64 s (nb_base n)) (sub64 e (nb_base n))))"

definition nu_fragmentToCount :: "numa_buddy \<Rightarrow> nat \<Rightarrow> u64 \<Rightarrow> numa_buddy outcome" where
  "nu_fragmentToCount nu node target =
     (if node < length (nu_nodes nu) then map_sum id (put_node nu node) (fragmentMemoryToTargetCount target (nb_buddy (nu_nodes nu ! node))) else Inr nu)"

definition nu_checkIfFree :: "numa_buddy \<Rightarrow> u64 \<Rightarrow> bool \<Rightarrow> (bool \<times> numa_buddy) outcome" where
  "nu_checkIfFree nu pfn alloc =
     (let i = nu_getNodeForPFN nu pfn in
      if length (nu_nodes nu) \<le> i then Inr (False, nu)
      else map_sum id (\<lambda>(found, bd). (found, put_node nu i bd)) (checkIfFree (nb_buddy (nu_nodes nu ! i)) (sub64 pfn (nb_base (nu_nodes nu ! i))) alloc))"

text \<open>The queries give zero for a node that does not exist.\<close>

definition node_query :: "(node_buddy \<Rightarrow> u64) \<Rightarrow> numa_buddy \<Rightarrow> nat \<Rightarrow> u64" where
  "node_query f nu node = (if length (nu_nodes nu) \<le> node then 0 else f (nu_nodes nu ! node))"

definition getNodeBasePFN :: "numa_buddy \<Rightarrow> nat \<Rightarrow> u64" where
  "getNodeBasePFN = node_query nb_base"

definition getNodeNumPages :: "numa_buddy \<Rightarrow> nat \<Rightarrow> u64" where
  "getNodeNumPages = node_query nb_num_pages"

definition getNodeKernelPages :: "numa_buddy \<Rightarrow> nat \<Rightarrow> u64" where
  "getNodeKernelPages = node_query nb_kernel_pages"

definition getNodeUsablePages :: "numa_buddy \<Rightarrow> nat \<Rightarrow> u64" where
  "getNodeUsablePages = node_query (\<lambda>n. sub64 (nb_num_pages n) (nb_kernel_pages n))"

definition getNodeFreePages :: "numa_buddy \<Rightarrow> nat \<Rightarrow> u64" where
  "getNodeFreePages = node_query (\<lambda>n. m_free_pages (nb_buddy n))"

definition getNodeFreeLargePages :: "numa_buddy \<Rightarrow> nat \<Rightarrow> u64" where
  "getNodeFreeLargePages = node_query (\<lambda>n. getFreeLargePageCount (nb_buddy n))"

definition getTotalFreePages :: "numa_buddy \<Rightarrow> u64" where
  "getTotalFreePages nu = fold (\<lambda>n acc. add64 acc (m_free_pages (nb_buddy n))) (nu_nodes nu) 0"

section \<open>The pages of the nodes\<close>

definition node_free :: "node_buddy \<Rightarrow> nat multiset" where
  "node_free n = image_mset (\<lambda>p. p + nb_base n) (free_pages (free_list (nb_buddy n)))"

definition nu_pages :: "numa_buddy \<Rightarrow> nat multiset" where
  "nu_pages nu = (\<Sum>n \<in># mset (nu_nodes nu). node_free n)"

text \<open>The free pages of a node are outside its kernel region, the nodes do not overlap, and no sum wraps.\<close>

definition node_ok :: "node_buddy \<Rightarrow> bool" where
  "node_ok n \<longleftrightarrow> buddy_inv (nb_buddy n) \<and> (\<forall>p \<in># free_pages (free_list (nb_buddy n)). nb_kernel_pages n \<le> p \<and> p < nb_num_pages n) \<and> nb_base n + nb_num_pages n < 2 ^ 63"

definition before :: "node_buddy \<Rightarrow> node_buddy \<Rightarrow> bool" where
  "before a b \<longleftrightarrow> nb_base a + nb_num_pages a \<le> nb_base b"

definition nu_inv :: "numa_buddy \<Rightarrow> bool" where
  "nu_inv nu \<longleftrightarrow> (\<forall>n \<in> set (nu_nodes nu). node_ok n \<and> m_max_order (nb_buddy n) = nu_max_order nu) \<and> sorted_wrt before (nu_nodes nu)"

lemma node_free_range: "node_ok n \<Longrightarrow> p \<in># node_free n \<Longrightarrow> nb_base n + nb_kernel_pages n \<le> p \<and> p < nb_base n + nb_num_pages n"
  by (auto simp: node_free_def node_ok_def)

lemma count_shift: "count (image_mset (\<lambda>p. p + b) M) (q + b) = count M (q::nat)"
  by (induction M) auto

lemma node_free_count:
  assumes "node_ok n"
  shows "count (node_free n) p \<le> 1"
proof (cases "nb_base n \<le> p")
  case True
  have "count (node_free n) (p - nb_base n + nb_base n) = count (free_pages (free_list (nb_buddy n))) (p - nb_base n)"
    unfolding node_free_def by (rule count_shift)
  then show ?thesis using True buddy_invD(4) [of "nb_buddy n"] assms by (simp add: node_ok_def)
next
  case False
  then have "p \<notin># node_free n" using node_free_range [OF assms, of p] by auto
  then show ?thesis by (simp add: not_in_iff)
qed

lemma nodes_count:
  assumes "\<forall>n \<in> set ns. node_ok n" "sorted_wrt before ns"
  shows "count (\<Sum>n \<in># mset ns. node_free n) p \<le> 1"
  using assms
proof (induction ns)
  case (Cons n ns)
  show ?case
  proof (cases "p \<in># node_free n")
    case True
    have "p \<notin># node_free m" if m: "m \<in> set ns" for m
      using node_free_range [of n p] node_free_range [of m p] True Cons.prems m by (auto simp: before_def)
    then have "count (\<Sum>m \<in># mset ns. node_free m) p = 0" by (simp add: not_in_iff [symmetric])
    then show ?thesis using node_free_count [of n p] Cons.prems(1) by simp
  next
    case False
    then show ?thesis using Cons by (simp add: not_in_iff)
  qed
qed simp

lemma nu_invD:
  assumes "nu_inv nu"
  shows "i < length (nu_nodes nu) \<Longrightarrow> node_ok (nu_nodes nu ! i)" "i < length (nu_nodes nu) \<Longrightarrow> m_max_order (nb_buddy (nu_nodes nu ! i)) = nu_max_order nu" "sorted_wrt before (nu_nodes nu)"
    "count (nu_pages nu) p \<le> 1"
  using assms nodes_count [of "nu_nodes nu" p] by (auto simp: nu_inv_def nu_pages_def)

text \<open>The node of a page is found by its number.\<close>

lemma node_for_page:
  assumes inv: "nu_inv nu" and i: "i < length (nu_nodes nu)" and p: "nb_base (nu_nodes nu ! i) \<le> p" "p < nb_base (nu_nodes nu ! i) + nb_num_pages (nu_nodes nu ! i)"
  shows "nu_getNodeForPFN nu p = i"
proof -
  have in_n: "in_node p (nu_nodes nu ! j) \<longleftrightarrow> nb_base (nu_nodes nu ! j) \<le> p \<and> p < nb_base (nu_nodes nu ! j) + nb_num_pages (nu_nodes nu ! j)" if "j < length (nu_nodes nu)" for j
  proof -
    have "nb_base (nu_nodes nu ! j) + nb_num_pages (nu_nodes nu ! j) < 2 ^ 64" using nu_invD(1) [OF inv that] by (simp add: node_ok_def)
    then show ?thesis unfolding in_node_def by (simp only: add64_exact)
  qed
  have no: "j = i" if j: "j < length (nu_nodes nu)" "in_node p (nu_nodes nu ! j)" for j
    using sorted_wrt_nth_less [OF nu_invD(3) [OF inv], of i j] sorted_wrt_nth_less [OF nu_invD(3) [OF inv], of j i] j i p in_n [OF j(1)]
    by (cases i j rule: linorder_cases) (auto simp: before_def)
  obtain k where k: "find_index (in_node p) (nu_nodes nu) = Some k"
    using find_index_None_iff [of "in_node p" "nu_nodes nu"] in_n [OF i] p i nth_mem [OF i] by (cases "find_index (in_node p) (nu_nodes nu)") auto
  then show ?thesis using find_index_SomeD [OF k] no [of k] by (simp add: nu_getNodeForPFN_def)
qed

section \<open>Updating one node\<close>

lemma put_node_sel [simp]:
  "length (nu_nodes (put_node nu i bd)) = length (nu_nodes nu)" "nu_max_order (put_node nu i bd) = nu_max_order nu"
  by (simp_all add: put_node_def)

lemma put_node_nth:
  "i < length (nu_nodes nu) \<Longrightarrow> nu_nodes (put_node nu i bd) ! j = (if j = i then (nu_nodes nu ! i)\<lparr>nb_buddy := bd\<rparr> else nu_nodes nu ! j)"
  by (simp add: put_node_def)

lemma put_node_same: "i < length (nu_nodes nu) \<Longrightarrow> put_node nu i (nb_buddy (nu_nodes nu ! i)) = nu"
  by (simp add: put_node_def)

lemma nu_pages_put_node:
  assumes "i < length (nu_nodes nu)"
  shows "nu_pages (put_node nu i bd) + node_free (nu_nodes nu ! i) = nu_pages nu + node_free ((nu_nodes nu ! i)\<lparr>nb_buddy := bd\<rparr>)"
proof -
  have "nu_nodes nu ! i \<in># mset (nu_nodes nu)" using assms by simp
  then have "add_mset (nu_nodes nu ! i) (mset (nu_nodes nu) - {#nu_nodes nu ! i#}) = mset (nu_nodes nu)" by simp
  then have "nu_pages nu = node_free (nu_nodes nu ! i) + (\<Sum>n \<in># mset (nu_nodes nu) - {#nu_nodes nu ! i#}. node_free n)"
    unfolding nu_pages_def by (metis image_mset_add_mset sum_mset.add_mset)
  then show ?thesis using assms by (simp add: nu_pages_def put_node_def mset_update)
qed

text \<open>Replacing the buddy of a node by one whose free pages are in the node keeps the invariant.\<close>

lemma put_node_inv:
  assumes inv: "nu_inv nu" and i: "i < length (nu_nodes nu)" and bd: "buddy_inv bd" "m_max_order bd = nu_max_order nu"
    and range: "\<And>p. p \<in># free_pages (free_list bd) \<Longrightarrow> nb_kernel_pages (nu_nodes nu ! i) \<le> p \<and> p < nb_num_pages (nu_nodes nu ! i)"
  shows "nu_inv (put_node nu i bd)"
proof -
  have ok: "node_ok ((nu_nodes nu ! i)\<lparr>nb_buddy := bd\<rparr>)"
    using nu_invD(1) [OF inv i] bd(1) range by (auto simp: node_ok_def)
  have "node_ok n \<and> m_max_order (nb_buddy n) = nu_max_order nu" if "n \<in> set (nu_nodes (put_node nu i bd))" for n
  proof -
    from that obtain j where "j < length (nu_nodes nu)" "n = nu_nodes (put_node nu i bd) ! j" by (auto simp: in_set_conv_nth)
    then show ?thesis using ok bd(2) nu_invD(1,2) [OF inv, of j] by (simp add: put_node_nth [OF i])
  qed
  moreover have "sorted_wrt before (nu_nodes (put_node nu i bd))"
    unfolding sorted_wrt_iff_nth_less put_node_sel
    using nu_invD(3) [OF inv] i by (auto simp: sorted_wrt_iff_nth_less put_node_nth before_def)
  ultimately show ?thesis by (simp add: nu_inv_def)
qed

lemma take_from_node:
  assumes inv: "nu_inv nu" and i: "i < length (nu_nodes nu)" and bd: "buddy_inv bd" "m_max_order bd = nu_max_order nu"
    and pages: "free_pages (free_list bd) + M = free_pages (free_list (nb_buddy (nu_nodes nu ! i)))"
  shows "nu_inv (put_node nu i bd) \<and> nu_pages (put_node nu i bd) + image_mset (\<lambda>p. p + nb_base (nu_nodes nu ! i)) M = nu_pages nu
    \<and> (\<forall>p \<in># M. nb_kernel_pages (nu_nodes nu ! i) \<le> p \<and> p < nb_num_pages (nu_nodes nu ! i))"
proof -
  have r: "nb_kernel_pages (nu_nodes nu ! i) \<le> p \<and> p < nb_num_pages (nu_nodes nu ! i)" if "p \<in># free_pages (free_list bd) + M" for p
    using that nu_invD(1) [OF inv i] unfolding pages by (simp add: node_ok_def)
  then have "nu_inv (put_node nu i bd)" by (intro put_node_inv [OF inv i bd]) auto
  moreover have "nu_pages (put_node nu i bd) + image_mset (\<lambda>p. p + nb_base (nu_nodes nu ! i)) M = nu_pages nu"
    using nu_pages_put_node [OF i, of bd] by (simp add: node_free_def pages [symmetric] ac_simps)
  ultimately show ?thesis using r by simp
qed

lemma give_to_node:
  assumes inv: "nu_inv nu" and i: "i < length (nu_nodes nu)" and bd: "buddy_inv bd" "m_max_order bd = nu_max_order nu"
    and pages: "free_pages (free_list bd) = free_pages (free_list (nb_buddy (nu_nodes nu ! i))) + M"
    and range: "\<And>p. p \<in># M \<Longrightarrow> nb_kernel_pages (nu_nodes nu ! i) \<le> p \<and> p < nb_num_pages (nu_nodes nu ! i)"
  shows "nu_inv (put_node nu i bd) \<and> nu_pages (put_node nu i bd) = nu_pages nu + image_mset (\<lambda>p. p + nb_base (nu_nodes nu ! i)) M"
proof -
  have "nu_inv (put_node nu i bd)"
    using range nu_invD(1) [OF inv i] by (intro put_node_inv [OF inv i bd]) (auto simp: node_ok_def pages)
  then show ?thesis using nu_pages_put_node [OF i, of bd] by (simp add: node_free_def pages ac_simps)
qed

lemma shift_run: "image_mset (\<lambda>p. p + b) (mset [s..<s + n]) = mset [s + b..<s + b + n]"
  by (induction n) (simp_all add: ac_simps del: mset_upt)

section \<open>The operations on a good state\<close>

definition data_page :: "numa_buddy \<Rightarrow> nat \<Rightarrow> nat \<Rightarrow> bool" where
  "data_page nu i p \<longleftrightarrow> i < length (nu_nodes nu) \<and> nb_base (nu_nodes nu ! i) + nb_kernel_pages (nu_nodes nu ! i) \<le> p
     \<and> p < nb_base (nu_nodes nu ! i) + nb_num_pages (nu_nodes nu ! i)"

lemma data_page_node: "nu_inv nu \<Longrightarrow> data_page nu i p \<Longrightarrow> nu_getNodeForPFN nu p = i"
  unfolding data_page_def using node_for_page [of nu i p] by linarith

text \<open>
  An outcome on node \<open>i\<close>: the granted pages leave the free pages, and they are pages of the node
  outside its kernel region.
\<close>

definition granted :: "numa_buddy \<Rightarrow> nat \<Rightarrow> nat list \<Rightarrow> numa_buddy \<Rightarrow> bool" where
  "granted nu i ps nu' \<longleftrightarrow> nu_inv nu' \<and> nu_pages nu' + mset ps = nu_pages nu \<and> i < length (nu_nodes nu) \<and>
     (\<forall>p \<in> set ps. data_page nu i p \<and> nu_getNodeForPFN nu p = i)"

lemma granted_put:
  assumes inv: "nu_inv nu" and i: "i < length (nu_nodes nu)" and bd: "buddy_inv bd" "m_max_order bd = nu_max_order nu"
    and pages: "free_pages (free_list bd) + mset [s..<s + n] = free_pages (free_list (nb_buddy (nu_nodes nu ! i)))"
  shows "granted nu i [s + nb_base (nu_nodes nu ! i)..<s + nb_base (nu_nodes nu ! i) + n] (put_node nu i bd)"
proof -
  let ?b = "nb_base (nu_nodes nu ! i)"
  note t = take_from_node [OF inv i bd pages]
  have "data_page nu i p \<and> nu_getNodeForPFN nu p = i" if p: "p \<in> set [s + ?b..<s + ?b + n]" for p
  proof -
    have "p - ?b \<in># mset [s..<s + n]" using p by (auto simp: less_diff_conv2)
    then have "nb_kernel_pages (nu_nodes nu ! i) \<le> p - ?b" "p - ?b < nb_num_pages (nu_nodes nu ! i)" using t by blast+
    moreover have "?b \<le> p" using p by simp
    ultimately have "data_page nu i p" using i unfolding data_page_def by linarith
    then show ?thesis using data_page_node [OF inv] by blast
  qed
  then show ?thesis using t i unfolding granted_def shift_run by blast
qed

lemma run_below_limit:
  assumes inv: "nu_inv nu" and i: "i < length (nu_nodes nu)" and n: "0 < (n::nat)"
    and pages: "M + mset [s..<s + n] = free_pages (free_list (nb_buddy (nu_nodes nu ! i)))"
  shows "s + n \<le> nb_num_pages (nu_nodes nu ! i)" "s + nb_base (nu_nodes nu ! i) + n < 2 ^ 63"
proof -
  have "s + n - 1 \<in># mset [s..<s + n]" using n by simp
  then have "s + n - 1 \<in># free_pages (free_list (nb_buddy (nu_nodes nu ! i)))" unfolding pages [symmetric] by (metis union_iff)
  then show "s + n \<le> nb_num_pages (nu_nodes nu ! i)" using nu_invD(1) [OF inv i] n by (auto simp: node_ok_def)
  then show "s + nb_base (nu_nodes nu ! i) + n < 2 ^ 63" using nu_invD(1) [OF inv i] by (simp add: node_ok_def)
qed

lemma nu_allocate_cases:
  assumes inv: "nu_inv nu" and a: "nu_allocate nu i bytes = Inr (p, nu')"
  shows "if p = minus1_64 then nu' = nu else granted nu i [p..<p + 2 ^ ceil_log2 (bytes div 4096)] nu'"
proof (cases "i < length (nu_nodes nu)")
  case False
  then show ?thesis using a by (simp add: nu_allocate_def)
next
  case i: True
  let ?n = "nu_nodes nu ! i" and ?k = "2 ^ ceil_log2 (bytes div 4096) :: nat"
  have b: "buddy_inv (nb_buddy ?n)" using nu_invD(1) [OF inv i] by (simp add: node_ok_def)
  obtain q bd where q: "allocate (nb_buddy ?n) bytes = Inr (q, bd)" using a i by (auto simp: nu_allocate_def split: sum.splits)
  show ?thesis
  proof (cases "q = minus1_64")
    case True
    then show ?thesis using a i q allocate_fail_same [OF b] put_node_same [OF i] by (auto simp: nu_allocate_def)
  next
    case False
    note o = allocate_outcomes [OF b q False]
    have k: "0 < ?k" by simp
    note r = run_below_limit [OF inv i k, of "free_pages (free_list bd)" q]
    have lim: "q + nb_base ?n + ?k < 2 ^ 63" using r o by blast
    then have s: "add64 q (nb_base ?n) = q + nb_base ?n" by (intro add64_exact) simp
    have "q + nb_base ?n \<noteq> minus1_64" using lim unfolding minus1_64_def by simp
    then have "p = q + nb_base ?n" "nu' = put_node nu i bd" "p \<noteq> minus1_64" using a i q False s by (auto simp: nu_allocate_def)
    then show ?thesis using granted_put [OF inv i, of bd q ?k] o nu_invD(2) [OF inv i] by simp
  qed
qed

lemma nu_reserve_cases:
  assumes inv: "nu_inv nu" and a: "nu_reserve2MBPage nu i = Inr (b, nu')"
  shows "if blk_start b = minus1_64 then nu' = nu else granted nu i [blk_start b..<blk_start b + 512] nu'"
proof (cases "i < length (nu_nodes nu)")
  case False
  then show ?thesis using a by (auto simp: nu_reserve2MBPage_def)
next
  case i: True
  let ?n = "nu_nodes nu ! i"
  have bi: "buddy_inv (nb_buddy ?n)" using nu_invD(1) [OF inv i] by (simp add: node_ok_def)
  obtain s e u c bd where q: "reserve_2mb_page (nb_buddy ?n) = Inr ((s, e, u, c), bd)"
    using a i by (auto simp: nu_reserve2MBPage_def split: sum.splits)
  show ?thesis
  proof (cases "s = minus1_64")
    case True
    then show ?thesis using a i q reserve_fail_same [OF bi q] put_node_same [OF i] by (auto simp: nu_reserve2MBPage_def Let_def)
  next
    case False
    then have o: "buddy_inv bd" "m_max_order bd = nu_max_order nu" "blk_ok 9 (s, e, u, c)"
      "free_pages (free_list bd) + mset (block_pages (s, e, u, c)) = free_pages (free_list (nb_buddy ?n))"
      using reserve_outcomes [OF bi q] nu_invD(2) [OF inv i] by auto
    have f: "free_pages (free_list bd) + mset [s..<s + 512] = free_pages (free_list (nb_buddy ?n))"
      using o(4) block_pages_ok [OF o(3)] by simp
    have lim: "s + nb_base ?n + 512 < 2 ^ 63" by (rule run_below_limit(2) [OF inv i _ f]) simp
    then have s: "add64 s (nb_base ?n) = s + nb_base ?n" by (intro add64_exact) simp
    have "s + nb_base ?n \<noteq> minus1_64" using lim unfolding minus1_64_def by simp
    then have "blk_start b = s + nb_base ?n" "nu' = put_node nu i bd" "blk_start b \<noteq> minus1_64"
      using a i q False s by (auto simp: nu_reserve2MBPage_def Let_def)
    then show ?thesis using granted_put [OF inv i o(1,2) f] by simp
  qed
qed

text \<open>Both calls return on a good state.\<close>

lemma nu_allocate_total:
  assumes "nu_inv nu" "4096 \<le> bytes" "ceil_log2 (bytes div 4096) \<le> nu_max_order nu + 1"
  shows "\<exists>r. nu_allocate nu i bytes = Inr r"
  using assms allocate_total [of "nb_buddy (nu_nodes nu ! i)" bytes] nu_invD(1,2) [of nu i]
  by (cases "i < length (nu_nodes nu)") (auto simp: nu_allocate_def node_ok_def)

lemma nu_reserve_total:
  assumes "nu_inv nu" "4 \<le> nu_max_order nu"
  shows "\<exists>b nu'. nu_reserve2MBPage nu i = Inr (b, nu')"
proof (cases "i < length (nu_nodes nu)")
  case True
  then obtain b bd where "reserve_2mb_page (nb_buddy (nu_nodes nu ! i)) = Inr (b, bd)"
    using reserve_total [of "nb_buddy (nu_nodes nu ! i)"] assms nu_invD(1,2) [of nu i] by (auto simp: node_ok_def)
  then show ?thesis using True by (cases b) (simp add: nu_reserve2MBPage_def Let_def)
qed (auto simp: nu_reserve2MBPage_def)

text \<open>No operation moves a node.\<close>

definition layout :: "numa_buddy \<Rightarrow> (u64 \<times> u64 \<times> u64) list" where
  "layout nu = map (\<lambda>n. (nb_base n, nb_num_pages n, nb_kernel_pages n)) (nu_nodes nu)"

lemma layout_put_node [simp]: "layout (put_node nu i bd) = layout nu"
  by (cases "i < length (nu_nodes nu)") (simp_all add: layout_def put_node_def map_update list_update_same_conv list_update_beyond)

lemma layout_nth:
  assumes "layout nu' = layout nu"
  shows "length (nu_nodes nu') = length (nu_nodes nu)"
    "i < length (nu_nodes nu) \<Longrightarrow> nb_base (nu_nodes nu' ! i) = nb_base (nu_nodes nu ! i) \<and> nb_num_pages (nu_nodes nu' ! i) = nb_num_pages (nu_nodes nu ! i)
       \<and> nb_kernel_pages (nu_nodes nu' ! i) = nb_kernel_pages (nu_nodes nu ! i)"
proof -
  show len: "length (nu_nodes nu') = length (nu_nodes nu)" using assms by (metis layout_def length_map)
  show "nb_base (nu_nodes nu' ! i) = nb_base (nu_nodes nu ! i) \<and> nb_num_pages (nu_nodes nu' ! i) = nb_num_pages (nu_nodes nu ! i)
       \<and> nb_kernel_pages (nu_nodes nu' ! i) = nb_kernel_pages (nu_nodes nu ! i)" if i: "i < length (nu_nodes nu)"
  proof -
    have "layout nu' ! i = layout nu ! i" using assms by simp
    then show ?thesis using i len by (simp add: layout_def)
  qed
qed

lemma data_page_layout: "layout nu' = layout nu \<Longrightarrow> data_page nu' i p = data_page nu i p"
  using layout_nth [of nu' nu] by (auto simp: data_page_def)

lemma nu_allocate_layout: "nu_allocate nu i bytes = Inr (p, nu') \<Longrightarrow> layout nu' = layout nu \<and> nu_max_order nu' = nu_max_order nu"
  by (auto simp: nu_allocate_def split: if_splits sum.splits)

lemma nu_reserve_layout: "nu_reserve2MBPage nu i = Inr (b, nu') \<Longrightarrow> layout nu' = layout nu \<and> nu_max_order nu' = nu_max_order nu"
  by (auto simp: nu_reserve2MBPage_def Let_def split: if_splits sum.splits)

lemma nu_fragment_layout: "nu_fragmentToCount nu i target = Inr nu' \<Longrightarrow> layout nu' = layout nu \<and> nu_max_order nu' = nu_max_order nu"
  by (auto simp: nu_fragmentToCount_def map_sum_def split: if_splits sum.splits)

section \<open>The wrapper as a page source\<close>

datatype numa_request = Node_Bytes nat u64 | Node_2MB nat

definition numa_grant :: "numa_buddy \<Rightarrow> numa_request \<Rightarrow> (nat list \<times> numa_buddy) option" where
  "numa_grant nu r =
     (case r of
        Node_Bytes i n \<Rightarrow> (case nu_allocate nu i n of
            Inr (p, nu') \<Rightarrow> if p = minus1_64 then None else Some ([p..<p + 2 ^ ceil_log2 (n div 4096)], nu')
          | Inl e \<Rightarrow> None)
      | Node_2MB i \<Rightarrow> (case nu_reserve2MBPage nu i of
            Inr (b, nu') \<Rightarrow> if blk_start b = minus1_64 then None else Some ([blk_start b..<blk_start b + 512], nu')
          | Inl e \<Rightarrow> None))"

fun request_node :: "numa_request \<Rightarrow> nat" where
  "request_node (Node_Bytes i n) = i"
| "request_node (Node_2MB i) = i"

lemma numa_grant_granted:
  assumes inv: "nu_inv nu" and g: "numa_grant nu r = Some (ps, nu')"
  shows "granted nu (request_node r) ps nu'"
proof (cases r)
  case (Node_Bytes i n)
  then obtain p where p: "nu_allocate nu i n = Inr (p, nu')" "p \<noteq> minus1_64" "ps = [p..<p + 2 ^ ceil_log2 (n div 4096)]"
    using g by (auto simp: numa_grant_def split: sum.splits if_splits)
  then show ?thesis using nu_allocate_cases [OF inv p(1)] Node_Bytes by simp
next
  case (Node_2MB i)
  then obtain b where b: "nu_reserve2MBPage nu i = Inr (b, nu')" "blk_start b \<noteq> minus1_64" "ps = [blk_start b..<blk_start b + 512]"
    using g by (auto simp: numa_grant_def split: sum.splits if_splits)
  then show ?thesis using nu_reserve_cases [OF inv b(1)] Node_2MB by simp
qed

interpretation ns: page_source nu_inv nu_pages numa_grant
proof
  fix nu r ps nu'
  assume "nu_inv nu" "numa_grant nu r = Some (ps, nu')"
  then have "granted nu (request_node r) ps nu'" by (rule numa_grant_granted)
  then show "nu_inv nu'" "nu_pages nu' + mset ps = nu_pages nu" by (simp_all add: granted_def del: mset_upt)
qed (rule nu_invD(4))

section \<open>Freeing and fragmenting\<close>

text \<open>Freeing a run of a node outside its kernel region that is not free yet.\<close>

lemma nu_free_ok:
  assumes inv: "nu_inv nu" and i: "i < length (nu_nodes nu)" and k: "k \<le> nu_max_order nu"
    and room: "m_free_pages (nb_buddy (nu_nodes nu ! i)) + 2 ^ k < 2 ^ 64"
    and s: "nb_base (nu_nodes nu ! i) + nb_kernel_pages (nu_nodes nu ! i) \<le> s" "s + 2 ^ k \<le> nb_base (nu_nodes nu ! i) + nb_num_pages (nu_nodes nu ! i)"
    and used: "\<And>p. s \<le> p \<Longrightarrow> p < s + 2 ^ k \<Longrightarrow> p \<notin># node_free (nu_nodes nu ! i)"
  shows "\<exists>bd. nu_free nu s (s + 2 ^ k - 1) = Inr (put_node nu i bd) \<and> nu_inv (put_node nu i bd) \<and>
    nu_pages (put_node nu i bd) = nu_pages nu + mset [s..<s + 2 ^ k] \<and> m_free_pages bd = m_free_pages (nb_buddy (nu_nodes nu ! i)) + 2 ^ k"
proof -
  let ?n = "nu_nodes nu ! i" and ?l = "s - nb_base (nu_nodes nu ! i)" and ?r = "2 ^ k :: nat"
  have pos: "0 < ?r" by simp
  have ok: "buddy_inv (nb_buddy ?n)" "m_max_order (nb_buddy ?n) = nu_max_order nu" "nb_base ?n + nb_num_pages ?n < 2 ^ 63"
    using nu_invD(1,2) [OF inv i] by (auto simp: node_ok_def)
  have loc: "sub64 s (nb_base ?n) = ?l" "sub64 (s + ?r - 1) (nb_base ?n) = ?l + ?r - 1" "?l + nb_base ?n = s"
  proof -
    have l: "nb_base ?n \<le> s" "s + ?r < 2 ^ 64" using s ok(3) by simp_all
    then show "sub64 s (nb_base ?n) = ?l" "?l + nb_base ?n = s" by (simp_all add: sub64_exact)
    have "nb_base ?n \<le> s + ?r - 1" "s + ?r - 1 < 2 ^ 64" using l pos by linarith+
    then have "sub64 (s + ?r - 1) (nb_base ?n) = s + ?r - 1 - nb_base ?n" by (rule sub64_exact)
    then show "sub64 (s + ?r - 1) (nb_base ?n) = ?l + ?r - 1" using l(1) pos by linarith
  qed
  have "nu_getNodeForPFN nu s = i" using node_for_page [OF inv i, of s] s pos by linarith
  then have fr: "nu_free nu s (s + ?r - 1) = map_sum id (put_node nu i) (free (nb_buddy ?n) ?l (?l + ?r - 1))"
    using i loc by (simp add: nu_free_def Let_def)
  have disj: "p \<notin># free_pages (free_list (nb_buddy ?n))" if p: "?l \<le> p" "p \<le> ?l + ?r - 1" for p
  proof -
    have "p + nb_base ?n \<notin># node_free ?n" using used [of "p + nb_base ?n"] p loc(3) pos by linarith
    then show ?thesis by (auto simp: node_free_def)
  qed
  have lim: "?l + ?r - 1 + 1 = ?l + ?r" using pos by linarith
  have lim': "?l + ?r - 1 + 1 < 2 ^ 64" unfolding lim using s(2) ok(3) by simp
  obtain bd where bd: "free (nb_buddy ?n) ?l (?l + ?r - 1) = Inr bd" "buddy_inv bd" "m_max_order bd = nu_max_order nu"
    "free_pages (free_list bd) = free_pages (free_list (nb_buddy ?n)) + mset [?l..<?l + ?r]" "m_free_pages bd = m_free_pages (nb_buddy ?n) + ?r"
    using free_ok [OF ok(1) lim lim' k [folded ok(2)] disj room] ok(2) by metis
  have "nb_kernel_pages ?n \<le> p \<and> p < nb_num_pages ?n" if "p \<in># mset [?l..<?l + ?r]" for p using that s by auto
  from give_to_node [OF inv i bd(2,3,4) this] show ?thesis using fr bd(1,5) loc(3) unfolding shift_run
    by (intro exI [of _ bd]) simp
qed

lemma nu_fragment_ok:
  assumes inv: "nu_inv nu"
  shows "\<exists>nu'. nu_fragmentToCount nu i target = Inr nu' \<and> nu_inv nu' \<and> nu_pages nu' = nu_pages nu \<and> length (nu_nodes nu') = length (nu_nodes nu)"
proof (cases "i < length (nu_nodes nu)")
  case i: True
  then obtain bd where bd: "fragmentMemoryToTargetCount target (nb_buddy (nu_nodes nu ! i)) = Inr bd" "buddy_inv bd" "m_max_order bd = nu_max_order nu"
    "free_pages (free_list bd) + {#} = free_pages (free_list (nb_buddy (nu_nodes nu ! i)))"
    using fragmentMemoryToTargetCount_ok [of "nb_buddy (nu_nodes nu ! i)" target] nu_invD(1,2) [OF inv i] by (auto simp: node_ok_def)
  then show ?thesis using take_from_node [OF inv i bd(2,3,4)] i by (simp add: nu_fragmentToCount_def)
qed (simp add: nu_fragmentToCount_def inv)

section \<open>The free pages of a new allocator\<close>

text \<open>The usable pages of nodes of the given sizes that lie one after the other.\<close>

fun usable_pages :: "nat \<Rightarrow> (u64 \<times> u64) list \<Rightarrow> nat multiset" where
  "usable_pages start [] = {#}"
| "usable_pages start ((mem_mb, kernel_mb) # sizes) =
     mset [start + kernel_mb * 256..<start + mem_mb * 256] + usable_pages (start + mem_mb * 256) sizes"

definition sizes_ok :: "nat \<Rightarrow> (u64 \<times> u64) list \<Rightarrow> bool" where
  "sizes_ok start sizes \<longleftrightarrow> (\<forall>(mem_mb, kernel_mb) \<in> set sizes. kernel_mb \<le> mem_mb \<and> mem_mb < 2 ^ 31) \<and> start + (\<Sum>s \<leftarrow> sizes. fst s * 256) < 2 ^ 63"

lemma build_nodes_ok:
  assumes "sizes_ok cur sizes"
  shows "(\<forall>n \<in> set (build_nodes i mo sizes cur). node_ok n \<and> m_max_order (nb_buddy n) = mo \<and> cur \<le> nb_base n
      \<and> nb_kernel_pages n \<le> nb_num_pages n \<and> m_free_pages (nb_buddy n) = nb_num_pages n - nb_kernel_pages n)
    \<and> sorted_wrt before (build_nodes i mo sizes cur) \<and> (\<Sum>n \<in># mset (build_nodes i mo sizes cur). node_free n) = usable_pages cur sizes"
  using assms
proof (induction sizes arbitrary: i cur)
  case (Cons s sizes)
  obtain m k where s: "s = (m, k)" by fastforce
  from Cons.prems have mk: "k \<le> m" "m < 2 ^ 31" "cur + m * 256 + (\<Sum>s \<leftarrow> sizes. fst s * 256) < 2 ^ 63"
    by (auto simp: sizes_ok_def s)
  have c: "mul64 m 1024 div 4 = m * 256" "mul64 k 1024 div 4 = k * 256" using mk(1,2) by (simp_all add: mul64_exact)
  have a: "add64 cur (m * 256) = cur + m * 256" using mk(3) by (intro add64_exact) simp
  note IH = Cons.IH [of "cur + m * 256" "Suc i"]
  have so: "sizes_ok (cur + m * 256) sizes" using Cons.prems mk(3) by (simp add: sizes_ok_def)
  note b = buddy_new_ok [OF mk(1,2), of mo]
  let ?n = "\<lparr> nb_buddy = buddy_new m mo k, nb_base = cur, nb_num_pages = m * 256, nb_kernel_pages = k * 256, nb_capacity_mb = m, nb_kernel_mb = k, nb_id = i \<rparr>"
  have eq: "build_nodes i mo (s # sizes) cur = ?n # build_nodes (Suc i) mo sizes (cur + m * 256)" by (simp add: s c a Let_def)
  have okn: "node_ok ?n" using b mk(3) by (auto simp: node_ok_def)
  have fr: "node_free ?n = mset [cur + k * 256..<cur + m * 256]"
    using shift_run [of cur "k * 256" "m * 256 - k * 256"] mk(1) by (simp add: node_free_def b ac_simps del: mset_upt)
  show ?case
    using IH [OF so] okn fr b(3,5) mk(1) unfolding eq by (auto simp: before_def s diff_mult_distrib simp del: mset_upt)
qed simp

lemma numa_buddy_new_ok:
  assumes new: "numa_buddy_new n mem_mb kernel_mb mo g = Inr nu" and ok: "sizes_ok (g * 256) (zip (take n mem_mb) (take n kernel_mb))" and g: "g < 2 ^ 31"
  shows "nu_inv nu \<and> nu_pages nu = usable_pages (g * 256) (zip (take n mem_mb) (take n kernel_mb)) \<and> nu_max_order nu = mo \<and> length (nu_nodes nu) = n
    \<and> (\<forall>m \<in> set (nu_nodes nu). nb_kernel_pages m \<le> nb_num_pages m)"
proof -
  have len: "length (build_nodes i mo sizes cur) = length sizes" for i sizes cur
    by (induction sizes arbitrary: i cur) (auto simp: Let_def)
  have g': "mul64 g 1024 div 4 = g * 256" using g by (simp add: mul64_exact)
  have "n \<le> length mem_mb" "n \<le> length kernel_mb" using new by (auto simp: numa_buddy_new_def split: if_splits)
  moreover have "nu = \<lparr> nu_max_order = mo, nu_nodes = build_nodes 0 mo (zip (take n mem_mb) (take n kernel_mb)) (g * 256) \<rparr>"
    using new by (auto simp: numa_buddy_new_def g' split: if_splits)
  ultimately show ?thesis using build_nodes_ok [OF ok, of 0 mo] by (simp add: nu_inv_def nu_pages_def len)
qed

section \<open>Falling back to any node\<close>

definition can_serve :: "numa_buddy \<Rightarrow> nat \<Rightarrow> u64 \<Rightarrow> bool" where
  "can_serve nu i bytes \<longleftrightarrow> (\<exists>j \<ge> ceil_log2 (bytes div 4096). j \<le> nu_max_order nu \<and> free_list (nb_buddy (nu_nodes nu ! i)) ! j \<noteq> [])"

lemma nu_allocate_serves:
  assumes inv: "nu_inv nu" and i: "i < length (nu_nodes nu)" and n: "4096 \<le> bytes" and c: "can_serve nu i bytes"
    and a: "nu_allocate nu i bytes = Inr (p, nu')"
  shows "p \<noteq> minus1_64"
proof
  assume p: "p = minus1_64"
  let ?n = "nu_nodes nu ! i"
  have ok: "buddy_inv (nb_buddy ?n)" "m_max_order (nb_buddy ?n) = nu_max_order nu" using nu_invD(1,2) [OF inv i] by (auto simp: node_ok_def)
  from c obtain j where j: "ceil_log2 (bytes div 4096) \<le> j" "j \<le> m_max_order (nb_buddy ?n)" "free_list (nb_buddy ?n) ! j \<noteq> []"
    unfolding can_serve_def ok(2) by blast
  from allocate_found [OF ok(1) n this] obtain q bd where q: "allocate (nb_buddy ?n) bytes = Inr (q, bd)"
    "free_pages (free_list bd) + mset [q..<q + 2 ^ ceil_log2 (bytes div 4096)] = free_pages (free_list (nb_buddy ?n))"
    "q + 2 ^ ceil_log2 (bytes div 4096) < 2 ^ 64" by blast
  have lim: "q + nb_base ?n + 2 ^ ceil_log2 (bytes div 4096) < 2 ^ 63" by (rule run_below_limit(2) [OF inv i _ q(2)]) simp
  then have "add64 q (nb_base ?n) = q + nb_base ?n" by (intro add64_exact) simp
  moreover have "q \<noteq> minus1_64" "q + nb_base ?n \<noteq> minus1_64" using lim unfolding minus1_64_def by simp_all
  ultimately show False using a i q(1) p by (simp add: nu_allocate_def)
qed

lemma try_nodes_ok:
  assumes inv: "nu_inv nu" and n: "4096 \<le> bytes" "ceil_log2 (bytes div 4096) \<le> nu_max_order nu + 1"
  shows "set is \<subseteq> {..<length (nu_nodes nu)} \<Longrightarrow> \<exists>p out nu'. try_nodes is nu bytes = Inr ((p, out), nu') \<and>
    (if p = minus1_64 then nu' = nu \<and> out = None \<and> (\<forall>i \<in> set is. \<not> can_serve nu i bytes)
     else \<exists>i \<in> set is. out = Some i \<and> granted nu i [p..<p + 2 ^ ceil_log2 (bytes div 4096)] nu')"
proof (induction "is")
  case (Cons i "is")
  have i: "i < length (nu_nodes nu)" using Cons.prems by simp
  obtain p nu1 where a: "nu_allocate nu i bytes = Inr (p, nu1)" using nu_allocate_total [OF inv n, of i] by auto
  note c = nu_allocate_cases [OF inv a]
  show ?case
  proof (cases "p = minus1_64")
    case False
    then show ?thesis using a c by auto
  next
    case True
    then have nu1: "nu1 = nu" using c by simp
    have "\<not> can_serve nu i bytes" using nu_allocate_serves [OF inv i n(1) _ a] True by blast
    then show ?thesis using Cons a True nu1 by fastforce
  qed
qed simp

section \<open>Properties\<close>

text \<open>
  C9: a new NUMA buddy allocator owns exactly the usable pages of its nodes, and whatever sequence of
  node-directed requests it serves, no page is granted twice, no page of a kernel region is granted, and
  what it granted together with what is still free is what it had.
\<close>

theorem numa_buddy_no_double_grant:
  assumes "numa_buddy_new n mem_mb kernel_mb max_order g = Inr nu" "sizes_ok (g * 256) (zip (take n mem_mb) (take n kernel_mb))" "g < 2 ^ 31"
    and "serve numa_grant nu rs = (ps, nu')"
  shows "distinct ps \<and> nu_inv nu' \<and> nu_pages nu' + mset ps = usable_pages (g * 256) (zip (take n mem_mb) (take n kernel_mb))
    \<and> (\<forall>p \<in> set ps. p \<notin># nu_pages nu')"
proof -
  note nw = numa_buddy_new_ok [OF assms(1,2,3)]
  then have inv: "nu_inv nu" by simp
  have "nu_inv nu'" "distinct ps" "nu_pages nu' + mset ps = nu_pages nu" "\<And>p. p \<in> set ps \<Longrightarrow> p \<notin># nu_pages nu'"
    using ns.serve_inv [OF inv assms(4)] ns.serve_distinct [OF inv assms(4)] ns.serve_pages [OF inv assms(4)] ns.serve_fresh [OF inv assms(4)] by blast+
  then show ?thesis using nw by simp
qed

definition two_buddies :: numa_buddy where
  "two_buddies = \<lparr>nu_max_order = 9, nu_nodes = build_nodes 0 9 [(8, 2), (8, 2)] 0\<rparr>"

lemma two_buddies_new: "numa_buddy_new 2 [8, 8] [2, 2] 9 0 = Inr two_buddies" "sizes_ok (0 * 256) (zip (take 2 [8, 8]) (take 2 [2, 2]))"
  by (simp_all add: numa_buddy_new_def two_buddies_def mul64_def sizes_ok_def)

lemma two_buddies_inv: "nu_inv two_buddies" "length (nu_nodes two_buddies) = 2" "nu_max_order two_buddies = 9"
proof -
  have "(0::nat) < 2 ^ 31" by simp
  note nw = numa_buddy_new_ok [OF two_buddies_new this]
  show "nu_inv two_buddies" "length (nu_nodes two_buddies) = 2" "nu_max_order two_buddies = 9" using nw by blast+
qed

theorem numa_buddy_no_double_grant_witness:
  "\<exists>ps nu'. serve numa_grant two_buddies [Node_2MB 1, Node_Bytes 0 4096] = (ps, nu') \<and> distinct ps
    \<and> nu_pages nu' + mset ps = mset [512..<2048] + mset [2560..<4096]"
proof -
  obtain ps nu' where s: "serve numa_grant two_buddies [Node_2MB 1, Node_Bytes 0 4096] = (ps, nu')" by fastforce
  have "(0::nat) < 2 ^ 31" by simp
  note g = numa_buddy_no_double_grant [OF two_buddies_new this s]
  have "usable_pages (0 * 256) (zip (take 2 [8, 8]) (take 2 [2, 2])) = mset [512..<2048] + mset [2560..<4096]"
    by (simp del: mset_upt upt_rec_numeral)
  then show ?thesis using s g by metis
qed

text \<open>
  C10: on a good state an allocation on any node returns. If it fails (as it does for a node that does not
  exist), nothing has changed and the node has no free block that is large enough; otherwise it grants a
  run of \<open>2 ^ k\<close> pages of this node, outside its kernel region, and \<open>getNodeForPFN\<close> maps each of the
  pages to the node. The fallback over all nodes fails only when no node can serve the request.
\<close>

theorem numa_allocate_on_node:
  assumes inv: "nu_inv nu" and n: "4096 \<le> bytes" "ceil_log2 (bytes div 4096) \<le> nu_max_order nu + 1"
  shows "(\<exists>p nu'. nu_allocate nu i bytes = Inr (p, nu') \<and>
      (if p = minus1_64 then nu' = nu \<and> (length (nu_nodes nu) \<le> i \<or> \<not> can_serve nu i bytes)
       else granted nu i [p..<p + 2 ^ ceil_log2 (bytes div 4096)] nu')) \<and>
    (\<exists>p out nu'. nu_allocateAny nu bytes = Inr ((p, out), nu') \<and>
      (if p = minus1_64 then nu' = nu \<and> out = None \<and> (\<forall>i < length (nu_nodes nu). \<not> can_serve nu i bytes)
       else \<exists>i < length (nu_nodes nu). out = Some i \<and> granted nu i [p..<p + 2 ^ ceil_log2 (bytes div 4096)] nu'))"
proof (rule conjI)
  obtain p nu' where a: "nu_allocate nu i bytes = Inr (p, nu')" using nu_allocate_total [OF inv n, of i] by auto
  show "\<exists>p nu'. nu_allocate nu i bytes = Inr (p, nu') \<and>
      (if p = minus1_64 then nu' = nu \<and> (length (nu_nodes nu) \<le> i \<or> \<not> can_serve nu i bytes)
       else granted nu i [p..<p + 2 ^ ceil_log2 (bytes div 4096)] nu')"
    using a nu_allocate_cases [OF inv a] nu_allocate_serves [OF inv _ n(1) _ a] by (cases "i < length (nu_nodes nu)") auto
next
  show "\<exists>p out nu'. nu_allocateAny nu bytes = Inr ((p, out), nu') \<and>
      (if p = minus1_64 then nu' = nu \<and> out = None \<and> (\<forall>i < length (nu_nodes nu). \<not> can_serve nu i bytes)
       else \<exists>i < length (nu_nodes nu). out = Some i \<and> granted nu i [p..<p + 2 ^ ceil_log2 (bytes div 4096)] nu')"
    using try_nodes_ok [OF inv n, of "[0..<length (nu_nodes nu)]"] unfolding nu_allocateAny_def atLeast0LessThan [symmetric] set_upt Ball_def Bex_def atLeastLessThan_iff
    by (metis le0 subset_refl)
qed

lemma two_buddies_node1: "nb_buddy (nu_nodes two_buddies ! 1) = buddy_new 8 9 2"
  by (simp only: two_buddies_def build_nodes.simps Let_def numa_buddy.select_convs nth_Cons_Suc nth_Cons_0 One_nat_def node_buddy.select_convs)

lemma two_buddies_can_serve: "can_serve two_buddies 1 4096"
proof -
  have inv: "buddy_inv (buddy_new 8 9 2)" by (rule buddy_new_ok) simp_all
  have mo: "m_max_order (buddy_new 8 9 2) = 9" by (rule buddy_new_ok) simp_all
  have pages: "free_pages (free_list (buddy_new 8 9 2)) = mset [2 * 256..<8 * 256]" by (rule buddy_new_ok) simp_all
  have "512 \<in># free_pages (free_list (buddy_new 8 9 2))" unfolding pages by (simp only: set_mset_mset set_upt) simp
  from some_free_block [OF inv this] show ?thesis
    unfolding can_serve_def two_buddies_node1 two_buddies_inv(3) mo by simp
qed

theorem numa_allocate_on_node_witness:
  "\<exists>p nu'. nu_allocate two_buddies 1 4096 = Inr (p, nu') \<and> p \<noteq> minus1_64 \<and> granted two_buddies 1 [p..<p + 1] nu'"
proof -
  have c: "ceil_log2 (4096 div 4096) = 0" by simp
  then have "ceil_log2 (4096 div 4096) \<le> nu_max_order two_buddies + 1" by simp
  note t = numa_allocate_on_node [OF two_buddies_inv(1) order_refl this, of 1, THEN conjunct1]
  show ?thesis using t two_buddies_can_serve two_buddies_inv(2) unfolding c by (auto split: if_splits)
qed

text \<open>Freeing the run that an allocation granted returns its pages and its count to the node.\<close>

lemma numa_alloc_free:
  assumes inv: "nu_inv nu" and a: "nu_allocate nu i bytes = Inr (p, nu1)" "p \<noteq> minus1_64"
  shows "\<exists>nu2. nu_free nu1 p (p + 2 ^ ceil_log2 (bytes div 4096) - 1) = Inr nu2 \<and> nu_inv nu2 \<and> nu_pages nu2 = nu_pages nu
    \<and> getNodeFreePages nu2 i = getNodeFreePages nu i"
proof -
  let ?n = "nu_nodes nu ! i" and ?k = "ceil_log2 (bytes div 4096)"
  have g: "granted nu i [p..<p + 2 ^ ?k] nu1" using nu_allocate_cases [OF inv a(1)] a(2) by simp
  then have i: "i < length (nu_nodes nu)" and inv1: "nu_inv nu1" and pg: "nu_pages nu1 + mset [p..<p + 2 ^ ?k] = nu_pages nu"
    by (simp_all add: granted_def)
  obtain q bd where q: "allocate (nb_buddy ?n) bytes = Inr (q, bd)" using a(1) i by (auto simp: nu_allocate_def split: sum.splits)
  then have q2: "q \<noteq> minus1_64" "nu1 = put_node nu i bd" "p = add64 q (nb_base ?n)" using a i by (auto simp: nu_allocate_def split: if_splits)
  have ok: "buddy_inv (nb_buddy ?n)" "m_max_order (nb_buddy ?n) = nu_max_order nu" using nu_invD(1,2) [OF inv i] by (auto simp: node_ok_def)
  note o = allocate_outcomes [OF ok(1) q q2(1)]
  have pos: "0 < (2::nat) ^ ?k" by simp
  note f = run_below_limit [OF inv i pos, of "free_pages (free_list bd)" q]
  have p: "p = q + nb_base ?n" unfolding q2(3) using f o by (intro add64_exact) simp
  have n1: "nu_nodes nu1 ! i = ?n\<lparr>nb_buddy := bd\<rparr>" using q2(2) put_node_nth [OF i] by simp
  have used: "r \<notin># node_free (nu_nodes nu1 ! i)" if r: "p \<le> r" "r < p + 2 ^ ?k" for r
  proof -
    have "serve numa_grant nu [Node_Bytes i bytes] = ([p..<p + 2 ^ ?k], nu1)" using a by (simp add: numa_grant_def)
    from ns.serve_fresh [OF inv this] r have "r \<notin># nu_pages nu1" by simp
    then show ?thesis using i q2(2) by (auto simp: nu_pages_def)
  qed
  have kp: "nb_base ?n + nb_kernel_pages ?n \<le> p" using g pos by (auto simp: granted_def data_page_def)
  have lim: "p + 2 ^ ?k \<le> nb_base ?n + nb_num_pages ?n" using f(1) o p by simp
  have ln: "i < length (nu_nodes nu1)" "?k \<le> nu_max_order nu1" "m_free_pages (nb_buddy (nu_nodes nu1 ! i)) + 2 ^ ?k < 2 ^ 64"
    using i q2(2) n1 o ok buddy_invD(6) [OF ok(1)] by simp_all
  obtain bd2 where "nu_free nu1 p (p + 2 ^ ?k - 1) = Inr (put_node nu1 i bd2)" "nu_inv (put_node nu1 i bd2)"
    "nu_pages (put_node nu1 i bd2) = nu_pages nu1 + mset [p..<p + 2 ^ ?k]" "m_free_pages bd2 = m_free_pages (nb_buddy (nu_nodes nu1 ! i)) + 2 ^ ?k"
    using nu_free_ok [OF inv1 ln _ _ used] kp lim n1 by auto
  then show ?thesis using pg o n1 i q2(2)
    by (intro exI [of _ "put_node nu1 i bd2"]) (simp add: getNodeFreePages_def node_query_def put_node_nth)
qed

end
