(* ===== verification/NUMA_Policy.thy ===== *)
theory NUMA_Policy
  imports Prelude Complex_Main "HOL-Library.Word" "HOL-Library.Multiset"
begin

text \<open>
  The placement of pages on NUMA nodes (\<open>numa/numa_policy.h\<close>): the nodes that a policy allows, the node of an
  allocation, and the nodes to speculate on, which counters per hash function and
  hints per page rank. Hints are packed into bytes. The theory shows that the node of
  an allocation is one that the policy allows, that speculation stays within
  the allowed nodes and its bound, and that hints are independent of each other.
\<close>

unbundle bit_operations_syntax

section \<open>Nodes\<close>

datatype numa_policy = MPOL_LOCAL | MPOL_BIND | MPOL_INTERLEAVE | MPOL_PREFERRED

record node_config =
  nc_id :: nat
  nc_capacity :: u64
  nc_kernel_reserved :: u64
  nc_start_pfn :: u64
  nc_end_pfn :: u64
  nc_used :: u64
  nc_type :: string
  nc_allocs :: u64
  nc_accesses :: u64

definition node_config_new :: node_config where
  "node_config_new = \<lparr> nc_id = 0, nc_capacity = 0, nc_kernel_reserved = 0, nc_start_pfn = 0, nc_end_pfn = 0, nc_used = 0, nc_type = ''ddr'', nc_allocs = 0, nc_accesses = 0 \<rparr>"

text \<open>Utilisations are compared in the rationals.\<close>

definition node_utilization :: "node_config \<Rightarrow> rat" where
  "node_utilization n = (if nc_capacity n = 0 then 0 else of_nat (nc_used n) / of_nat (nc_capacity n))"

definition free_bytes :: "node_config \<Rightarrow> u64" where
  "free_bytes n = (if nc_used n < nc_capacity n then nc_capacity n - nc_used n else 0)"

definition usable_capacity :: "node_config \<Rightarrow> u64" where
  "usable_capacity n = sub64 (nc_capacity n) (nc_kernel_reserved n)"

section \<open>Counters\<close>

record node_counter =
  ac_num_nodes :: nat
  ac_delta_plus :: int
  ac_delta_minus :: int
  ac_max_value :: int
  ac_threshold :: int
  ac_counters :: "int list list"

definition counter_init :: "nat \<Rightarrow> nat \<Rightarrow> int \<Rightarrow> int \<Rightarrow> int \<Rightarrow> int \<Rightarrow> node_counter" where
  "counter_init num_nodes num_hashes delta_plus delta_minus max_value threshold =
     \<lparr> ac_num_nodes = num_nodes, ac_delta_plus = delta_plus, ac_delta_minus = delta_minus, ac_max_value = max_value, ac_threshold = threshold,
       ac_counters = replicate num_hashes (replicate num_nodes 0) \<rparr>"

definition counter_update :: "node_counter \<Rightarrow> nat \<Rightarrow> nat \<Rightarrow> nat \<Rightarrow> node_counter" where
  "counter_update c hash_idx speculated actual =
     (if length (ac_counters c) \<le> hash_idx then c
      else let row = ac_counters c ! hash_idx;
               row1 = (if speculated < ac_num_nodes c
                       then if speculated = actual
                            then row[speculated := min (row ! speculated + ac_delta_plus c) (ac_max_value c)]
                            else row[speculated := max (row ! speculated - ac_delta_minus c) 0]
                       else row);
               row2 = (if actual < ac_num_nodes c \<and> actual \<noteq> speculated
                       then row1[actual := min (row1 ! actual + ac_delta_plus c) (ac_max_value c)] else row1)
           in c\<lparr>ac_counters := (ac_counters c)[hash_idx := row2]\<rparr>)"

text \<open>The parameter sorts pairs of score and node by descending score, in some order among equals.\<close>

definition getTopKNodes :: "((int \<times> nat) list \<Rightarrow> (int \<times> nat) list) \<Rightarrow> node_counter \<Rightarrow> nat \<Rightarrow> nat \<Rightarrow> nat list" where
  "getTopKNodes sort_desc c hash_idx k =
     (if length (ac_counters c) \<le> hash_idx then []
      else map snd (take k (sort_desc (map (\<lambda>n. (ac_counters c ! hash_idx ! n, n)) [0..<ac_num_nodes c]))))"

fun top_two :: "int list \<Rightarrow> int \<Rightarrow> int \<Rightarrow> int \<times> int" where
  "top_two [] top1 top2 = (top1, top2)"
| "top_two (x # xs) top1 top2 = (if top1 < x then top_two xs x top1 else if top2 < x then top_two xs top1 x else top_two xs top1 top2)"

definition isConfident :: "node_counter \<Rightarrow> nat \<Rightarrow> bool" where
  "isConfident c hash_idx =
     (if length (ac_counters c) \<le> hash_idx \<or> ac_num_nodes c < 2 then True
      else case top_two (map (\<lambda>n. ac_counters c ! hash_idx ! n) [0..<ac_num_nodes c]) 0 0 of (top1, top2) \<Rightarrow> ac_threshold c \<le> top1 - top2)"

definition getScore :: "node_counter \<Rightarrow> nat \<Rightarrow> nat \<Rightarrow> int" where
  "getScore c hash_idx node = (if length (ac_counters c) \<le> hash_idx \<or> ac_num_nodes c \<le> node then 0 else ac_counters c ! hash_idx ! node)"

section \<open>Hints\<close>

record node_hints =
  hn_bits :: nat
  hn_mask :: "32 word"
  hn_data :: "8 word list"

definition hints_init :: "nat \<Rightarrow> u64 \<Rightarrow> node_hints" where
  "hints_init bits max_pages =
     \<lparr> hn_bits = bits, hn_mask = push_bit bits 1 - 1, hn_data = replicate ((max_pages * bits + 7) div 8) 0 \<rparr>"

definition setHint :: "node_hints \<Rightarrow> u64 \<Rightarrow> 32 word \<Rightarrow> node_hints" where
  "setHint h page node =
     (let bit_offset = mul64 page (hn_bits h); byte_idx = bit_offset div 8; bit_idx = bit_offset mod 8 in
      if length (hn_data h) \<le> byte_idx then h
      else let b1 = hn_data h ! byte_idx AND ucast (NOT (push_bit bit_idx (hn_mask h)));
               b2 = b1 OR ucast (push_bit bit_idx (node AND hn_mask h))
           in h\<lparr>hn_data := (hn_data h)[byte_idx := b2]\<rparr>)"

definition getHint :: "node_hints \<Rightarrow> u64 \<Rightarrow> 32 word" where
  "getHint h page =
     (let bit_offset = mul64 page (hn_bits h); byte_idx = bit_offset div 8; bit_idx = bit_offset mod 8 in
      if length (hn_data h) \<le> byte_idx then 0 else drop_bit bit_idx (ucast (hn_data h ! byte_idx)) AND hn_mask h)"

definition clearHint :: "node_hints \<Rightarrow> u64 \<Rightarrow> node_hints" where
  "clearHint h page = setHint h page 0"

section \<open>The placement engine\<close>

record interleave_desc =
  id_base_vpn :: u64
  id_region_pages :: u64
  id_nodemask :: "nat list"
  id_offset :: nat

record numa_engine =
  ne_num_nodes :: nat
  ne_policy :: numa_policy
  ne_threshold :: rat
  ne_max_spec :: nat
  ne_nodes :: "node_config list"
  ne_bind :: "bool list"
  ne_preferred :: nat
  ne_counters :: node_counter
  ne_hints :: node_hints
  ne_descriptors :: "u64 \<Rightarrow> interleave_desc option"

definition engine_init :: "nat \<Rightarrow> numa_policy \<Rightarrow> nat \<Rightarrow> rat \<Rightarrow> nat \<Rightarrow> numa_engine" where
  "engine_init num_nodes policy num_hashes threshold max_spec =
     \<lparr> ne_num_nodes = num_nodes, ne_policy = policy, ne_threshold = threshold, ne_max_spec = max_spec,
       ne_nodes = replicate num_nodes node_config_new, ne_bind = replicate num_nodes True, ne_preferred = 0,
       ne_counters = counter_init num_nodes num_hashes 2 1 255 32,
       ne_hints = hints_init (if num_nodes \<le> 4 then 2 else 4) (64 * 1024 * 1024), ne_descriptors = (\<lambda>_. None) \<rparr>"

definition configureNode :: "numa_engine \<Rightarrow> nat \<Rightarrow> u64 \<Rightarrow> u64 \<Rightarrow> u64 \<Rightarrow> u64 \<Rightarrow> string \<Rightarrow> numa_engine" where
  "configureNode e node capacity reserved start_pfn end_pfn memory_type =
     (if ne_num_nodes e \<le> node then e
      else e\<lparr>ne_nodes := (ne_nodes e)[node := (ne_nodes e ! node)\<lparr>nc_id := node, nc_capacity := capacity, nc_kernel_reserved := reserved,
               nc_start_pfn := start_pfn, nc_end_pfn := end_pfn, nc_type := memory_type\<rparr>]\<rparr>)"

definition setPolicy :: "numa_engine \<Rightarrow> numa_policy \<Rightarrow> numa_engine" where
  "setPolicy e policy = e\<lparr>ne_policy := policy\<rparr>"

definition setBindMask :: "numa_engine \<Rightarrow> bool list \<Rightarrow> numa_engine" where
  "setBindMask e m = e\<lparr>ne_bind := m\<rparr>"

definition setPreferredNode :: "numa_engine \<Rightarrow> nat \<Rightarrow> numa_engine" where
  "setPreferredNode e node = e\<lparr>ne_preferred := node\<rparr>"

definition below_threshold :: "numa_engine \<Rightarrow> nat \<Rightarrow> bool" where
  "below_threshold e i \<longleftrightarrow> node_utilization (ne_nodes e ! i) < ne_threshold e"

definition bound_node :: "numa_engine \<Rightarrow> nat \<Rightarrow> bool" where
  "bound_node e i \<longleftrightarrow> i < length (ne_bind e) \<and> ne_bind e ! i"

text \<open>The remainder by the number of nodes is undefined without nodes.\<close>

definition getEligibleNodes :: "numa_engine \<Rightarrow> u64 \<Rightarrow> nat \<Rightarrow> nat list outcome" where
  "getEligibleNodes e vpn cpu_local =
     (let all = [0..<ne_num_nodes e] in
      case ne_policy e of
        MPOL_LOCAL \<Rightarrow>
          if cpu_local < ne_num_nodes e \<and> below_threshold e cpu_local then Inr [cpu_local]
          else let l = filter (below_threshold e) all in Inr (if l = [] then all else l)
      | MPOL_BIND \<Rightarrow> let l = filter (bound_node e) all in Inr (if l = [] then [0] else l)
      | MPOL_INTERLEAVE \<Rightarrow> if ne_num_nodes e = 0 then Inl Undefined_Behaviour else Inr [vpn mod ne_num_nodes e]
      | MPOL_PREFERRED \<Rightarrow>
          if ne_preferred e < ne_num_nodes e \<and> below_threshold e (ne_preferred e) then Inr [ne_preferred e]
          else let l = filter (below_threshold e) all in Inr (if l = [] then [ne_preferred e] else l))"

fun add_candidates :: "nat \<Rightarrow> nat list \<Rightarrow> nat list \<Rightarrow> nat list \<Rightarrow> nat list" where
  "add_candidates k eligible [] result = result"
| "add_candidates k eligible (node # nodes) result =
     (if k \<le> length result then result
      else if node \<in> set result then add_candidates k eligible nodes result
      else if node \<in> set eligible then add_candidates k eligible nodes (result @ [node])
      else add_candidates k eligible nodes result)"

text \<open>Without hints the loop tests the bound after an insertion, and a node occurs once among the best.\<close>

fun pick_ranked :: "nat \<Rightarrow> nat list \<Rightarrow> nat list \<Rightarrow> nat list \<Rightarrow> nat list" where
  "pick_ranked k eligible [] result = result"
| "pick_ranked k eligible (node # nodes) result =
     (let r = (if node \<in> set eligible then result @ [node] else result)
      in if k \<le> length r then r else pick_ranked k eligible nodes r)"

definition selectSpeculationNodes :: "((int \<times> nat) list \<Rightarrow> (int \<times> nat) list) \<Rightarrow> numa_engine \<Rightarrow> u64 \<Rightarrow> nat \<Rightarrow> nat \<Rightarrow> nat list outcome" where
  "selectSpeculationNodes sort_desc e vpn hash_idx cpu_local =
     (case getEligibleNodes e vpn cpu_local of
        Inl err \<Rightarrow> Inl err
      | Inr eligible \<Rightarrow>
          if length eligible \<le> 1 then Inr eligible
          else let top_k = getTopKNodes sort_desc (ne_counters e) hash_idx (ne_max_spec e);
                   result =
                     (if isConfident (ne_counters e) hash_idx then pick_ranked (ne_max_spec e) eligible top_k []
                      else let hinted = unat (getHint (ne_hints e) vpn)
                           in add_candidates (ne_max_spec e) eligible top_k (if hinted \<in> set eligible then [hinted] else []))
               in Inr (if result = [] then [hd eligible] else result))"

fun least_scan :: "(nat \<Rightarrow> bool) \<Rightarrow> nat \<Rightarrow> node_config list \<Rightarrow> nat \<Rightarrow> rat \<Rightarrow> nat" where
  "least_scan P i [] best best_util = best"
| "least_scan P i (n # ns) best best_util =
     (if P i \<and> node_utilization n < best_util then least_scan P (Suc i) ns i (node_utilization n) else least_scan P (Suc i) ns best best_util)"

definition getLeastUtilizedNode :: "numa_engine \<Rightarrow> nat" where
  "getLeastUtilizedNode e = least_scan (\<lambda>_. True) 0 (ne_nodes e) 0 (11 / 10)"

definition selectAllocationNode :: "numa_engine \<Rightarrow> u64 \<Rightarrow> nat \<Rightarrow> nat outcome" where
  "selectAllocationNode e vpn cpu_local =
     (case ne_policy e of
        MPOL_LOCAL \<Rightarrow> Inr (if cpu_local < ne_num_nodes e \<and> below_threshold e cpu_local then cpu_local else getLeastUtilizedNode e)
      | MPOL_BIND \<Rightarrow> Inr (least_scan (bound_node e) 0 (ne_nodes e) 0 (11 / 10))
      | MPOL_INTERLEAVE \<Rightarrow> if ne_num_nodes e = 0 then Inl Undefined_Behaviour else Inr (vpn mod ne_num_nodes e)
      | MPOL_PREFERRED \<Rightarrow> Inr (if ne_preferred e < ne_num_nodes e \<and> below_threshold e (ne_preferred e) then ne_preferred e else getLeastUtilizedNode e))"

definition recordSpeculationOutcome :: "numa_engine \<Rightarrow> nat \<Rightarrow> nat \<Rightarrow> nat \<Rightarrow> numa_engine" where
  "recordSpeculationOutcome e hash_idx speculated actual = e\<lparr>ne_counters := counter_update (ne_counters e) hash_idx speculated actual\<rparr>"

definition setNodeHint :: "numa_engine \<Rightarrow> u64 \<Rightarrow> nat \<Rightarrow> numa_engine" where
  "setNodeHint e vpn node = e\<lparr>ne_hints := setHint (ne_hints e) vpn (of_nat node)\<rparr>"

definition clearNodeHint :: "numa_engine \<Rightarrow> u64 \<Rightarrow> numa_engine" where
  "clearNodeHint e vpn = e\<lparr>ne_hints := clearHint (ne_hints e) vpn\<rparr>"

definition getNodeHint :: "numa_engine \<Rightarrow> u64 \<Rightarrow> nat" where
  "getNodeHint e vpn = unat (getHint (ne_hints e) vpn)"

definition recordAllocation :: "numa_engine \<Rightarrow> nat \<Rightarrow> u64 \<Rightarrow> numa_engine" where
  "recordAllocation e node bytes =
     (if node < ne_num_nodes e
      then let n = ne_nodes e ! node
           in e\<lparr>ne_nodes := (ne_nodes e)[node := n\<lparr>nc_used := add64 (nc_used n) bytes, nc_allocs := add64 (nc_allocs n) 1\<rparr>]\<rparr>
      else e)"

definition recordDeallocation :: "numa_engine \<Rightarrow> nat \<Rightarrow> u64 \<Rightarrow> numa_engine" where
  "recordDeallocation e node bytes =
     (if node < ne_num_nodes e \<and> bytes \<le> nc_used (ne_nodes e ! node)
      then let n = ne_nodes e ! node in e\<lparr>ne_nodes := (ne_nodes e)[node := n\<lparr>nc_used := nc_used n - bytes\<rparr>]\<rparr>
      else e)"

definition recordNodeAccess :: "numa_engine \<Rightarrow> nat \<Rightarrow> numa_engine" where
  "recordNodeAccess e node =
     (if node < ne_num_nodes e
      then let n = ne_nodes e ! node in e\<lparr>ne_nodes := (ne_nodes e)[node := n\<lparr>nc_accesses := add64 (nc_accesses n) 1\<rparr>]\<rparr>
      else e)"

definition getNodeUtilization :: "numa_engine \<Rightarrow> nat \<Rightarrow> rat" where
  "getNodeUtilization e node = (if ne_num_nodes e \<le> node then 0 else node_utilization (ne_nodes e ! node))"

definition engineNodeForPFN :: "numa_engine \<Rightarrow> u64 \<Rightarrow> nat" where
  "engineNodeForPFN e pfn = (case find_index (\<lambda>n. nc_start_pfn n \<le> pfn \<and> pfn < nc_end_pfn n) (ne_nodes e) of Some i \<Rightarrow> i | None \<Rightarrow> 0)"

definition getNodeForVPN :: "interleave_desc \<Rightarrow> u64 \<Rightarrow> nat" where
  "getNodeForVPN d vpn = (if id_nodemask d = [] then 0 else id_nodemask d ! (sub64 vpn (id_base_vpn d) mod length (id_nodemask d)))"

definition setInterleaveDescriptor :: "numa_engine \<Rightarrow> u64 \<Rightarrow> u64 \<Rightarrow> nat list \<Rightarrow> numa_engine" where
  "setInterleaveDescriptor e base_vpn region_pages nodemask =
     e\<lparr>ne_descriptors := (ne_descriptors e)(base_vpn \<mapsto> \<lparr> id_base_vpn = base_vpn, id_region_pages = region_pages, id_nodemask = nodemask, id_offset = 0 \<rparr>)\<rparr>"

section \<open>The node of an allocation\<close>

definition engine_wf :: "numa_engine \<Rightarrow> bool" where
  "engine_wf e \<longleftrightarrow> 0 < ne_num_nodes e \<and> length (ne_nodes e) = ne_num_nodes e \<and> (\<forall>n \<in> set (ne_nodes e). nc_used n \<le> nc_capacity n)"

lemma node_utilization_le_1: "nc_used n \<le> nc_capacity n \<Longrightarrow> node_utilization n \<le> 1"
  by (simp add: node_utilization_def divide_le_eq)

lemma least_scan_spec:
  "least_scan P i ns best bu = r \<Longrightarrow>
     (\<exists>j < length ns. r = i + j \<and> P r \<and> node_utilization (ns ! j) < bu \<and> (\<forall>k < length ns. P (i + k) \<longrightarrow> node_utilization (ns ! j) \<le> node_utilization (ns ! k))) \<or>
     r = best \<and> (\<forall>k < length ns. P (i + k) \<longrightarrow> bu \<le> node_utilization (ns ! k))"
proof (induction ns arbitrary: i best bu)
  case (Cons n ns)
  let ?u = "node_utilization"
  have all: "(\<forall>k < length (n # ns). P (i + k) \<longrightarrow> x \<le> ?u ((n # ns) ! k)) \<longleftrightarrow> (P i \<longrightarrow> x \<le> ?u n) \<and> (\<forall>k < length ns. P (Suc i + k) \<longrightarrow> x \<le> ?u (ns ! k))" for x
    by (auto simp: nth_Cons less_Suc_eq_0_disj)
  show ?case
  proof (cases "P i \<and> ?u n < bu")
    case True
    then have "least_scan P (Suc i) ns i (?u n) = r" using Cons.prems by simp
    from Cons.IH [OF this] show ?thesis
    proof
      assume "\<exists>j < length ns. r = Suc i + j \<and> P r \<and> ?u (ns ! j) < ?u n \<and> (\<forall>k < length ns. P (Suc i + k) \<longrightarrow> ?u (ns ! j) \<le> ?u (ns ! k))"
      then obtain j where j: "j < length ns" "r = Suc i + j" "P r" "?u (ns ! j) < ?u n" "\<forall>k < length ns. P (Suc i + k) \<longrightarrow> ?u (ns ! j) \<le> ?u (ns ! k)" by blast
      then have "\<forall>k < length (n # ns). P (i + k) \<longrightarrow> ?u ((n # ns) ! Suc j) \<le> ?u ((n # ns) ! k)" unfolding all by simp
      with j True show ?thesis by (intro disjI1 exI [of _ "Suc j"]) simp
    next
      assume h: "r = i \<and> (\<forall>k < length ns. P (Suc i + k) \<longrightarrow> ?u n \<le> ?u (ns ! k))"
      then have "\<forall>k < length (n # ns). P (i + k) \<longrightarrow> ?u ((n # ns) ! 0) \<le> ?u ((n # ns) ! k)" unfolding all by simp
      with h True show ?thesis by (intro disjI1 exI [of _ 0]) simp
    qed
  next
    case False
    then have "least_scan P (Suc i) ns best bu = r" using Cons.prems by auto
    from Cons.IH [OF this] show ?thesis
    proof
      assume "\<exists>j < length ns. r = Suc i + j \<and> P r \<and> ?u (ns ! j) < bu \<and> (\<forall>k < length ns. P (Suc i + k) \<longrightarrow> ?u (ns ! j) \<le> ?u (ns ! k))"
      then obtain j where j: "j < length ns" "r = Suc i + j" "P r" "?u (ns ! j) < bu" "\<forall>k < length ns. P (Suc i + k) \<longrightarrow> ?u (ns ! j) \<le> ?u (ns ! k)" by blast
      then have "\<forall>k < length (n # ns). P (i + k) \<longrightarrow> ?u ((n # ns) ! Suc j) \<le> ?u ((n # ns) ! k)" unfolding all using False by auto
      with j show ?thesis by (intro disjI1 exI [of _ "Suc j"]) simp
    next
      assume h: "r = best \<and> (\<forall>k < length ns. P (Suc i + k) \<longrightarrow> bu \<le> ?u (ns ! k))"
      then have "\<forall>k < length (n # ns). P (i + k) \<longrightarrow> bu \<le> ?u ((n # ns) ! k)" unfolding all using False by auto
      with h show ?thesis by blast
    qed
  qed
qed simp

lemma least_scan_best:
  assumes wf: "engine_wf e" and P: "\<exists>i < ne_num_nodes e. P i"
  defines "r \<equiv> least_scan P 0 (ne_nodes e) 0 (11 / 10)"
  shows "r < ne_num_nodes e" "P r" "\<And>k. k < ne_num_nodes e \<Longrightarrow> P k \<Longrightarrow> node_utilization (ne_nodes e ! r) \<le> node_utilization (ne_nodes e ! k)"
proof -
  have len: "length (ne_nodes e) = ne_num_nodes e" using wf by (simp add: engine_wf_def)
  obtain i where i: "i < ne_num_nodes e" "P i" using P by blast
  have "node_utilization (ne_nodes e ! i) \<le> 1" using wf i(1) len by (intro node_utilization_le_1) (simp add: engine_wf_def)
  then have "\<not> (11 / 10 :: rat) \<le> node_utilization (ne_nodes e ! i)" by simp
  then have h: "\<exists>j < length (ne_nodes e). r = 0 + j \<and> P r \<and> node_utilization (ne_nodes e ! j) < 11 / 10 \<and> (\<forall>k < length (ne_nodes e). P (0 + k) \<longrightarrow> node_utilization (ne_nodes e ! j) \<le> node_utilization (ne_nodes e ! k))"
    using least_scan_spec [of P 0 "ne_nodes e" 0 "11 / 10" r] i unfolding r_def len by auto
  then show "r < ne_num_nodes e" "P r" unfolding len by auto
  show "node_utilization (ne_nodes e ! r) \<le> node_utilization (ne_nodes e ! k)" if "k < ne_num_nodes e" "P k" for k using h that unfolding len by auto
qed

lemma least_utilized_below:
  assumes "engine_wf e" "\<exists>i < ne_num_nodes e. below_threshold e i"
  shows "below_threshold e (getLeastUtilizedNode e)"
proof -
  obtain i where i: "i < ne_num_nodes e" "below_threshold e i" using assms(2) by blast
  have "node_utilization (ne_nodes e ! getLeastUtilizedNode e) \<le> node_utilization (ne_nodes e ! i)"
    unfolding getLeastUtilizedNode_def by (rule least_scan_best(3) [OF assms(1) _ i(1)]) (use i in auto)
  with i(2) show ?thesis by (simp add: below_threshold_def)
qed

lemma least_utilized_less: "engine_wf e \<Longrightarrow> getLeastUtilizedNode e < ne_num_nodes e"
  unfolding getLeastUtilizedNode_def by (rule least_scan_best(1)) (auto simp: engine_wf_def)

lemma spill_allowed:
  assumes wf: "engine_wf e" and f: "filter (below_threshold e) [0..<ne_num_nodes e] \<noteq> [] \<or> set other = {0..<ne_num_nodes e}"
  defines "l \<equiv> filter (below_threshold e) [0..<ne_num_nodes e]"
  shows "getLeastUtilizedNode e \<in> set (if l = [] then other else l)"
proof (cases "l = []")
  case True
  then show ?thesis using f least_utilized_less [OF wf] by (simp add: l_def)
next
  case False
  then have "\<exists>i < ne_num_nodes e. below_threshold e i" by (auto simp: l_def filter_empty_conv)
  then show ?thesis using False least_utilized_below [OF wf] least_utilized_less [OF wf] by (simp add: l_def)
qed

lemma allocation_allowed:
  assumes wf: "engine_wf e" and pref: "ne_policy e = MPOL_PREFERRED \<Longrightarrow> \<exists>i < ne_num_nodes e. below_threshold e i"
  shows "\<exists>n eligible. selectAllocationNode e vpn cpu = Inr n \<and> getEligibleNodes e vpn cpu = Inr eligible \<and> n \<in> set eligible \<and> n < ne_num_nodes e"
proof -
  let ?l = "filter (below_threshold e) [0..<ne_num_nodes e]"
  have pos: "0 < ne_num_nodes e" using wf by (simp add: engine_wf_def)
  show ?thesis
  proof (cases "ne_policy e")
    case MPOL_LOCAL
    have "getLeastUtilizedNode e \<in> set (if ?l = [] then [0..<ne_num_nodes e] else ?l)" by (rule spill_allowed [OF wf]) simp
    then show ?thesis using MPOL_LOCAL least_utilized_less [OF wf] by (simp add: selectAllocationNode_def getEligibleNodes_def Let_def)
  next
    case MPOL_BIND
    let ?b = "filter (bound_node e) [0..<ne_num_nodes e]" and ?n = "least_scan (bound_node e) 0 (ne_nodes e) 0 (11 / 10)"
    have "?n \<in> set (if ?b = [] then [0] else ?b) \<and> ?n < ne_num_nodes e"
    proof (cases "?b = []")
      case True
      then have "\<not> bound_node e k" if "k < length (ne_nodes e)" for k using that wf by (auto simp: filter_empty_conv engine_wf_def)
      then have "?n = 0" using least_scan_spec [of "bound_node e" 0 "ne_nodes e" 0 "11 / 10" ?n] by auto
      then show ?thesis using True pos by simp
    next
      case False
      then have ex: "\<exists>i < ne_num_nodes e. bound_node e i" by (auto simp: filter_empty_conv)
      from least_scan_best(1,2) [OF wf ex] False show ?thesis by simp
    qed
    then show ?thesis using MPOL_BIND by (simp add: selectAllocationNode_def getEligibleNodes_def Let_def)
  next
    case MPOL_INTERLEAVE
    then show ?thesis using pos by (simp add: selectAllocationNode_def getEligibleNodes_def Let_def)
  next
    case MPOL_PREFERRED
    have "?l \<noteq> []" using pref [OF MPOL_PREFERRED] by (auto simp: filter_empty_conv)
    then have "getLeastUtilizedNode e \<in> set (if ?l = [] then [ne_preferred e] else ?l)" by (intro spill_allowed [OF wf]) simp
    then show ?thesis using MPOL_PREFERRED least_utilized_less [OF wf] by (simp add: selectAllocationNode_def getEligibleNodes_def Let_def)
  qed
qed

section \<open>Speculation\<close>

definition sorts_desc :: "((int \<times> nat) list \<Rightarrow> (int \<times> nat) list) \<Rightarrow> bool" where
  "sorts_desc f \<longleftrightarrow> (\<forall>xs. mset (f xs) = mset xs \<and> sorted_wrt (\<lambda>a b. fst b \<le> fst a) (f xs))"

lemma eligible_distinct: "getEligibleNodes e vpn cpu = Inr l \<Longrightarrow> distinct l"
  by (auto simp: getEligibleNodes_def Let_def split: numa_policy.splits if_splits)

lemma top_nodes_distinct:
  assumes "sorts_desc f"
  shows "distinct (getTopKNodes f c h k)"
proof -
  let ?xs = "map (\<lambda>n. (ac_counters c ! h ! n, n)) [0..<ac_num_nodes c]"
  have "mset (f ?xs) = mset ?xs" using assms unfolding sorts_desc_def by blast
  then have "mset (map snd (f ?xs)) = mset (map snd ?xs)" by (simp only: mset_map)
  moreover have "map snd ?xs = [0..<ac_num_nodes c]" by (simp add: comp_def)
  ultimately have "distinct (map snd (f ?xs))" using mset_eq_imp_distinct_iff by (metis distinct_upt)
  then show ?thesis by (simp add: getTopKNodes_def take_map [symmetric])
qed

lemma pick_ranked_ok:
  assumes "distinct (result @ nodes)" "set result \<subseteq> set eligible" "length result \<le> k" "nodes \<noteq> [] \<Longrightarrow> length result < k"
  shows "distinct (pick_ranked k eligible nodes result) \<and> set (pick_ranked k eligible nodes result) \<subseteq> set eligible \<and> length (pick_ranked k eligible nodes result) \<le> k"
  using assms
proof (induction nodes arbitrary: result)
  case (Cons n ns)
  let ?r = "if n \<in> set eligible then result @ [n] else result"
  show ?case
  proof (cases "k \<le> length ?r")
    case True
    then show ?thesis using Cons.prems by (auto simp: Let_def)
  next
    case False
    then have "pick_ranked k eligible (n # ns) result = pick_ranked k eligible ns ?r" by (simp add: Let_def)
    moreover have "distinct (?r @ ns)" "set ?r \<subseteq> set eligible" "length ?r \<le> k" using Cons.prems False by auto
    ultimately show ?thesis using Cons.IH [of ?r] False by auto
  qed
qed simp

lemma add_candidates_ok:
  assumes "distinct result" "set result \<subseteq> set eligible" "length result \<le> max 1 k"
  shows "distinct (add_candidates k eligible nodes result) \<and> set (add_candidates k eligible nodes result) \<subseteq> set eligible \<and> length (add_candidates k eligible nodes result) \<le> max 1 k"
  using assms by (induction nodes arbitrary: result) auto

lemma top_nodes_length: "length (getTopKNodes f c h k) \<le> k"
  by (simp add: getTopKNodes_def)

lemma speculation_ok:
  assumes f: "sorts_desc f" and l: "getEligibleNodes e vpn cpu = Inr eligible" "eligible \<noteq> []"
  shows "\<exists>ns. selectSpeculationNodes f e vpn h cpu = Inr ns \<and> ns \<noteq> [] \<and> distinct ns \<and> set ns \<subseteq> set eligible \<and> length ns \<le> max 1 (ne_max_spec e)"
proof (cases "length eligible \<le> 1")
  case True
  then show ?thesis using l eligible_distinct [OF l(1)] by (auto simp: selectSpeculationNodes_def)
next
  case False
  let ?k = "ne_max_spec e" let ?top = "getTopKNodes f (ne_counters e) h ?k" let ?hint = "unat (getHint (ne_hints e) vpn)"
  define r where "r = (if isConfident (ne_counters e) h then pick_ranked ?k eligible ?top [] else add_candidates ?k eligible ?top (if ?hint \<in> set eligible then [?hint] else []))"
  have s: "selectSpeculationNodes f e vpn h cpu = Inr (if r = [] then [hd eligible] else r)"
    using False by (simp add: selectSpeculationNodes_def l(1) r_def Let_def)
  have "distinct r \<and> set r \<subseteq> set eligible \<and> length r \<le> max 1 ?k"
  proof (cases "isConfident (ne_counters e) h")
    case True
    have z: "?top \<noteq> [] \<Longrightarrow> 0 < ?k" using top_nodes_length [of f "ne_counters e" h ?k] by (cases "?k = 0") simp_all
    have "distinct r \<and> set r \<subseteq> set eligible \<and> length r \<le> ?k"
      unfolding r_def if_P [OF True] by (rule pick_ranked_ok) (use z in \<open>auto simp: top_nodes_distinct [OF f]\<close>)
    then show ?thesis by auto
  next
    case False
    then show ?thesis unfolding r_def if_not_P [OF False] by (intro add_candidates_ok) auto
  qed
  then show ?thesis using s l(2) by auto
qed

section \<open>Hints are independent\<close>

definition hints_wf :: "node_hints \<Rightarrow> bool" where
  "hints_wf h \<longleftrightarrow> 0 < hn_bits h \<and> hn_bits h dvd 8 \<and> hn_mask h = mask (hn_bits h)"

definition covers :: "node_hints \<Rightarrow> u64 \<Rightarrow> bool" where
  "covers h page \<longleftrightarrow> page * hn_bits h < 2 ^ 64 \<and> page * hn_bits h div 8 < length (hn_data h)"

lemma hints_wf_init: "b = 2 \<or> b = 4 \<Longrightarrow> hints_wf (hints_init b n)"
  by (auto simp: hints_wf_def hints_init_def mask_eq_exp_minus_1 push_bit_eq_mult)

lemma hints_wf_set [simp]: "hints_wf (setHint h p n) = hints_wf h" "covers (setHint h p n) q = covers h q"
  by (simp_all add: hints_wf_def covers_def setHint_def Let_def)

lemma setHint_bits [simp]: "hn_bits (setHint h p n) = hn_bits h"
  by (simp add: setHint_def Let_def)

lemma hint_position:
  assumes "(b :: nat) dvd 8" "0 < b"
  shows "p * b mod 8 + b \<le> 8"
proof -
  obtain k where k: "8 = b * k" using assms(1) by blast
  have "p * b mod 8 = b * (p mod k)" unfolding k mult.commute [of p b] by (rule mult_mod_right [symmetric])
  moreover have "p mod k < k" using k by (cases k) simp_all
  then have "b * (p mod k + 1) \<le> b * k" by (intro mult_le_mono2) simp
  then have "b * (p mod k) + b \<le> b * k" by simp
  ultimately show ?thesis using k by linarith
qed

lemma hint_positions_apart:
  assumes "p * b div 8 = q * b div 8" "p \<noteq> (q :: nat)"
  shows "p * b mod 8 + b \<le> q * b mod 8 \<or> q * b mod 8 + b \<le> p * b mod 8"
proof -
  have apart: "x * b mod 8 + b \<le> y * b mod 8" if "x < y" "x * b div 8 = y * b div 8" for x y :: nat
  proof -
    have "(x + 1) * b \<le> y * b" using that(1) by (intro mult_le_mono1) simp
    then have "x * b + b \<le> y * b" by (simp add: algebra_simps)
    moreover have "x * b = 8 * (x * b div 8) + x * b mod 8" "y * b = 8 * (y * b div 8) + y * b mod 8" by presburger+
    ultimately show ?thesis using that(2) by linarith
  qed
  show ?thesis using assms apart [of p q] apart [of q p] by (cases "p < q") simp_all
qed

lemma getHint_bits:
  assumes "hints_wf h" "covers h q"
  shows "getHint h q = drop_bit (q * hn_bits h mod 8) (ucast (hn_data h ! (q * hn_bits h div 8))) AND mask (hn_bits h)"
  using assms by (simp add: getHint_def Let_def covers_def hints_wf_def mul64_exact)

lemma setHint_data:
  assumes "hints_wf h" "covers h p"
  shows "hn_data (setHint h p n) = (hn_data h)[p * hn_bits h div 8 :=
     (hn_data h ! (p * hn_bits h div 8) AND ucast (NOT (push_bit (p * hn_bits h mod 8) (mask (hn_bits h) :: 32 word)))) OR
     ucast (push_bit (p * hn_bits h mod 8) (n AND mask (hn_bits h)))]" "hn_bits (setHint h p n) = hn_bits h"
  using assms by (simp_all add: setHint_def Let_def covers_def hints_wf_def mul64_exact)

lemma bit_hint_byte:
  fixes n :: "32 word" and d :: "8 word"
  assumes "r + b \<le> 8" "j < 8"
  shows "bit ((d AND ucast (NOT (push_bit r (mask b :: 32 word)))) OR ucast (push_bit r (n AND mask b))) j = (if r \<le> j \<and> j < r + b then bit n (j - r) else bit d j)"
  using assms by (auto simp: bit_simps)

lemma hint_roundtrip_ok:
  assumes w: "hints_wf h" and p: "covers h p" and q: "covers h q"
  shows "getHint (setHint h p n) q = (if q = p then n AND mask (hn_bits h) else getHint h q)"
proof (rule bit_word_eqI)
  fix j assume j: "j < LENGTH(32)"
  let ?b = "hn_bits h"
  have b: "?b dvd 8" "0 < ?b" using w by (simp_all add: hints_wf_def)
  note rp = hint_position [OF b, of p] and rq = hint_position [OF b, of q]
  note S = setHint_data [OF w p, of n]
  have g: "getHint (setHint h p n) q = drop_bit (q * ?b mod 8) (ucast (hn_data (setHint h p n) ! (q * ?b div 8))) AND mask ?b"
    using getHint_bits [of "setHint h p n" q] w q S(2) by simp
  have lp: "p * ?b div 8 < length (hn_data h)" using p by (simp add: covers_def)
  show "bit (getHint (setHint h p n) q) j = bit (if q = p then n AND mask ?b else getHint h q) j"
  proof (cases "j < ?b")
    case False
    then show ?thesis unfolding g getHint_bits [OF w q] by (simp add: bit_simps)
  next
    case True
    have k: "q * ?b mod 8 + j < 8" using rq True by linarith
    have l: "bit (getHint (setHint h p n) q) j = bit (hn_data (setHint h p n) ! (q * ?b div 8)) (q * ?b mod 8 + j)"
      unfolding g using True j k by (simp add: bit_simps)
    have o: "bit (getHint h q) j = bit (hn_data h ! (q * ?b div 8)) (q * ?b mod 8 + j)" unfolding getHint_bits [OF w q] using True j k by (simp add: bit_simps)
    show ?thesis
    proof (cases "q * ?b div 8 = p * ?b div 8")
      case False
      then have "q \<noteq> p" by blast
      then show ?thesis unfolding l using o False S(1) by simp
    next
      case same: True
      have byte: "bit (hn_data (setHint h p n) ! (q * ?b div 8)) (q * ?b mod 8 + j) =
          (if p * ?b mod 8 \<le> q * ?b mod 8 + j \<and> q * ?b mod 8 + j < p * ?b mod 8 + ?b then bit n (q * ?b mod 8 + j - p * ?b mod 8) else bit (hn_data h ! (q * ?b div 8)) (q * ?b mod 8 + j))"
        unfolding S(1) same using bit_hint_byte [OF rp k] lp by simp
      show ?thesis
      proof (cases "q = p")
        case True
        then show ?thesis using \<open>j < ?b\<close> l j byte by (simp add: bit_simps)
      next
        case False
        then have no: "\<not> (p * ?b mod 8 \<le> q * ?b mod 8 + j \<and> q * ?b mod 8 + j < p * ?b mod 8 + ?b)" using hint_positions_apart [OF same [symmetric]] True by linarith
        then show ?thesis unfolding l byte if_not_P [OF no] using o False by simp
      qed
    qed
  qed
qed

section \<open>Counters saturate\<close>

definition counters_ok :: "node_counter \<Rightarrow> bool" where
  "counters_ok c \<longleftrightarrow> 0 \<le> ac_delta_plus c \<and> 0 \<le> ac_delta_minus c \<and> 0 \<le> ac_max_value c \<and>
     (\<forall>row \<in> set (ac_counters c). length row = ac_num_nodes c \<and> (\<forall>x \<in> set row. 0 \<le> x \<and> x \<le> ac_max_value c))"

lemma counters_ok_init: "0 \<le> dp \<Longrightarrow> 0 \<le> dm \<Longrightarrow> 0 \<le> mx \<Longrightarrow> counters_ok (counter_init n h dp dm mx t)"
  by (auto simp: counters_ok_def counter_init_def)

lemma row_update: "\<forall>x \<in> set row. 0 \<le> x \<and> x \<le> (m :: int) \<Longrightarrow> 0 \<le> v \<Longrightarrow> v \<le> m \<Longrightarrow> \<forall>x \<in> set (row[i := v]). 0 \<le> x \<and> x \<le> m"
  by (auto dest!: in_set_updateD)

lemma counters_ok_update:
  assumes c: "counters_ok c"
  shows "counters_ok (counter_update c h sp ac)"
proof (cases "length (ac_counters c) \<le> h")
  case False
  let ?m = "ac_max_value c" let ?row = "ac_counters c ! h"
  define good where "good row \<longleftrightarrow> length row = ac_num_nodes c \<and> (\<forall>x \<in> set row. 0 \<le> x \<and> x \<le> ?m)" for row
  have "?row \<in> set (ac_counters c)" using False by simp
  then have g: "good ?row" using c unfolding counters_ok_def good_def by blast
  have up: "good (row[i := min (row ! i + ac_delta_plus c) ?m])" "good (row[i := max (row ! i - ac_delta_minus c) 0])" if "good row" "i < ac_num_nodes c" for row i
  proof -
    have "row ! i \<in> set row" using that by (simp add: good_def)
    then have "0 \<le> row ! i" "row ! i \<le> ?m" using that(1) by (simp_all add: good_def)
    moreover have "0 \<le> ac_delta_plus c" "0 \<le> ac_delta_minus c" "0 \<le> ?m" using c by (simp_all add: counters_ok_def)
    ultimately have v: "0 \<le> min (row ! i + ac_delta_plus c) ?m" "0 \<le> max (row ! i - ac_delta_minus c) 0" "max (row ! i - ac_delta_minus c) 0 \<le> ?m" by linarith+
    have l: "length row = ac_num_nodes c" "\<forall>x \<in> set row. 0 \<le> x \<and> x \<le> ?m" using that(1) unfolding good_def by blast+
    show "good (row[i := min (row ! i + ac_delta_plus c) ?m])" "good (row[i := max (row ! i - ac_delta_minus c) 0])"
      unfolding good_def length_list_update using l(1) row_update [OF l(2) v(1) min.cobounded2] row_update [OF l(2) v(2,3)] by blast+
  qed
  define row1 where "row1 = (if sp < ac_num_nodes c then if sp = ac then ?row[sp := min (?row ! sp + ac_delta_plus c) ?m] else ?row[sp := max (?row ! sp - ac_delta_minus c) 0] else ?row)"
  define row2 where "row2 = (if ac < ac_num_nodes c \<and> ac \<noteq> sp then row1[ac := min (row1 ! ac + ac_delta_plus c) ?m] else row1)"
  have "good row1" using g up by (simp add: row1_def)
  then have g2: "good row2" using up by (simp add: row2_def)
  have cu: "counter_update c h sp ac = c\<lparr>ac_counters := (ac_counters c)[h := row2]\<rparr>"
    unfolding counter_update_def if_not_P [OF False] Let_def row2_def row1_def by (rule refl)
  have "good row" if "row \<in> set ((ac_counters c)[h := row2])" for row
    using in_set_updateD [OF that]
  proof
    assume "row \<in> set (ac_counters c)"
    then show ?thesis using c unfolding counters_ok_def good_def by blast
  qed (use g2 in simp)
  then show ?thesis using c unfolding cu counters_ok_def good_def by simp
qed (use c in \<open>simp add: counter_update_def\<close>)

section \<open>Properties\<close>

text \<open>
  C11: the node that \<open>selectAllocationNode\<close> gives to an allocation exists and is one of the nodes that the policy
  allows at that moment, as \<open>getEligibleNodes\<close> lists them. When the policy is to prefer one
  node, some node must be below the threshold.
\<close>

theorem allocation_node_allowed:
  assumes "engine_wf e" "ne_policy e = MPOL_PREFERRED \<Longrightarrow> \<exists>i < ne_num_nodes e. below_threshold e i"
  shows "\<exists>n eligible. selectAllocationNode e vpn cpu = Inr n \<and> getEligibleNodes e vpn cpu = Inr eligible \<and> n \<in> set eligible \<and> n < ne_num_nodes e"
  by (rule allocation_allowed [OF assms])

definition two_nodes :: "numa_policy \<Rightarrow> u64 \<Rightarrow> u64 \<Rightarrow> numa_engine" where
  "two_nodes policy used0 used1 =
     recordAllocation (recordAllocation (configureNode (configureNode (engine_init 2 policy 1 (9 / 10) 3) 0 40960 0 0 10 ''ddr'') 1 40960 0 10 20 ''cxl'') 0 used0) 1 used1"

lemma two_nodes_sel:
  assumes "used0 < 2 ^ 64" "used1 < 2 ^ 64"
  shows "ne_num_nodes (two_nodes policy used0 used1) = 2" "ne_policy (two_nodes policy used0 used1) = policy" "ne_threshold (two_nodes policy used0 used1) = 9 / 10"
    "map nc_used (ne_nodes (two_nodes policy used0 used1)) = [used0, used1]" "map nc_capacity (ne_nodes (two_nodes policy used0 used1)) = [40960, 40960]"
    "ne_preferred (two_nodes policy used0 used1) = 0"
  using assms by (simp_all add: two_nodes_def engine_init_def configureNode_def recordAllocation_def Let_def node_config_new_def numeral_2_eq_2 add64_def)

lemma two_nodes_list: "used0 < 2 ^ 64 \<Longrightarrow> used1 < 2 ^ 64 \<Longrightarrow> \<exists>n0 n1. ne_nodes (two_nodes policy used0 used1) = [n0, n1] \<and> nc_used n0 = used0 \<and> nc_used n1 = used1 \<and> nc_capacity n0 = 40960 \<and> nc_capacity n1 = 40960"
  using two_nodes_sel(4,5) [of used0 used1 policy] by (auto simp: map_eq_Cons_conv)

theorem allocation_node_allowed_witness:
  "\<exists>eligible. selectAllocationNode (two_nodes MPOL_LOCAL 40000 4096) 7 0 = Inr 1 \<and> getEligibleNodes (two_nodes MPOL_LOCAL 40000 4096) 7 0 = Inr eligible \<and> 1 \<in> set eligible"
proof -
  let ?e = "two_nodes MPOL_LOCAL 40000 4096"
  obtain n0 n1 where n: "ne_nodes ?e = [n0, n1]" "nc_used n0 = 40000" "nc_used n1 = 4096" "nc_capacity n0 = 40960" "nc_capacity n1 = 40960"
    using two_nodes_list [of 40000 4096 MPOL_LOCAL] by auto
  note s = two_nodes_sel [of 40000 4096 MPOL_LOCAL]
  have wf: "engine_wf ?e" using s n by (simp add: engine_wf_def)
  have "selectAllocationNode ?e 7 0 = Inr 1"
    using s n by (simp add: selectAllocationNode_def below_threshold_def node_utilization_def getLeastUtilizedNode_def)
  with allocation_node_allowed [OF wf, of 7 0] s show ?thesis by auto
qed

text \<open>
  the nodes chosen for speculation are among those that the policy allows, without repetition, at least one
  and at most as many as configured, whatever the counters and the hints say.
\<close>

lemma speculation_within_policy:
  assumes "sorts_desc f" "getEligibleNodes e vpn cpu = Inr eligible" "eligible \<noteq> []"
  shows "\<exists>ns. selectSpeculationNodes f e vpn h cpu = Inr ns \<and> ns \<noteq> [] \<and> distinct ns \<and> set ns \<subseteq> set eligible \<and> length ns \<le> max 1 (ne_max_spec e)"
  by (rule speculation_ok [OF assms])

definition by_score :: "(int \<times> nat) list \<Rightarrow> (int \<times> nat) list" where
  "by_score xs = sort_key (\<lambda>x. - fst x) xs"

lemma by_score_sorts: "sorts_desc by_score"
proof -
  have "sorted (map (\<lambda>x. - fst x) (by_score xs))" for xs by (simp add: by_score_def)
  then have "sorted_wrt (\<lambda>a b. fst b \<le> fst a) (by_score xs)" for xs by (simp add: sorted_map)
  then show ?thesis by (simp add: sorts_desc_def by_score_def)
qed

text \<open>
  C17: a hint that is set for a page is read back, cut to the bits of a hint, and no other page's
  hint changes, although several hints share a byte.
\<close>

theorem hint_roundtrip:
  assumes "b = 2 \<or> b = 4" "fold (\<lambda>(p, n) h. setHint h p n) ops (hints_init b max_pages) = h" "covers h p" "covers h q"
  shows "getHint (setHint h p n) q = (if q = p then n AND mask b else getHint h q)"
proof -
  have "hints_wf (fold (\<lambda>(p, n) h. setHint h p n) xs g) = hints_wf g \<and> hn_bits (fold (\<lambda>(p, n) h. setHint h p n) xs g) = hn_bits g" for xs g
    by (induction xs arbitrary: g) (simp_all add: split_beta)
  then have "hints_wf h" "hn_bits h = b" using hints_wf_init [OF assms(1), of max_pages] unfolding assms(2) [symmetric] by (simp_all add: hints_init_def)
  then show ?thesis using hint_roundtrip_ok [OF _ assms(3,4), of n] by simp
qed

theorem hint_roundtrip_witness:
  "getHint (setHint (setHint (hints_init 2 16) 5 3) 6 1) 6 = 1 AND mask 2 \<and> getHint (setHint (setHint (hints_init 2 16) 5 3) 6 1) 5 = getHint (setHint (hints_init 2 16) 5 3) 5"
proof -
  have "covers (hints_init 2 16) 6" "covers (hints_init 2 16) 5" by (simp_all add: covers_def hints_init_def)
  then have c: "covers (setHint (hints_init 2 16) 5 3) 6" "covers (setHint (hints_init 2 16) 5 3) 5" by simp_all
  show ?thesis using hint_roundtrip [of 2 "[(5, 3)]" 16 "setHint (hints_init 2 16) 5 3" 6 6 1] hint_roundtrip [of 2 "[(5, 3)]" 16 "setHint (hints_init 2 16) 5 3" 6 5 1] c by simp
qed

section \<open>A preferred node is not kept when all are full\<close>

text \<open>
  When no node is below the threshold, \<open>getEligibleNodes\<close> allows only the preferred node, but
  \<open>selectAllocationNode\<close> takes the node with the least utilisation: an allocation goes to a node
  on which its page is not looked for.
\<close>

lemma preferred_node_disagrees:
  "selectAllocationNode (two_nodes MPOL_PREFERRED 40000 39000) 7 0 = Inr 1 \<and> getEligibleNodes (two_nodes MPOL_PREFERRED 40000 39000) 7 0 = Inr [0]"
proof -
  obtain n0 n1 where n: "ne_nodes (two_nodes MPOL_PREFERRED 40000 39000) = [n0, n1]" "nc_used n0 = 40000" "nc_used n1 = 39000" "nc_capacity n0 = 40960" "nc_capacity n1 = 40960"
    using two_nodes_list [of 40000 39000 MPOL_PREFERRED] by auto
  show ?thesis using n two_nodes_sel [of 40000 39000 MPOL_PREFERRED]
    by (simp add: selectAllocationNode_def getEligibleNodes_def Let_def below_threshold_def node_utilization_def getLeastUtilizedNode_def upt_rec)
qed

end
