(* ===== verification/NUMA_THP.thy ===== *)
theory NUMA_THP
  imports Reserve_THP NUMA_Buddy NUMA_Policy
begin

text \<open>
  The NUMA-aware huge-page allocator (\<open>physical_memory_allocators/numa_reserve_thp.h\<close>), which puts the parts
  together: the placement engine chooses a node, the node's map of 2MB reservations and its buddy
  allocator serve the request, and when the node is exhausted a reservation is demoted or the request
  spills to another node. Page tables come from a bump pointer in the kernel region of a node. The
  theory shows that frames are exclusive across the nodes, that a page is on the node the policy chose
  unless that node could not serve it, and that page tables never overlap data.
\<close>

section \<open>State\<close>

record numa_thp =
  nt_engine :: numa_engine
  nt_buddy :: numa_buddy
  nt_maps :: "(u64 \<times> thp_region) list list"
  nt_kernel_next :: "u64 list"
  nt_kernel_end :: "u64 list"
  nt_threshold :: rat
  nt_cores_per_node :: nat
  nt_four_kb :: u64
  nt_reserved :: u64
  nt_promoted :: u64
  nt_demoted :: u64
  nt_total :: u64
  nt_kernel_used :: u64
  nt_node_allocs :: "u64 list"
  nt_node_reserved :: "u64 list"
  nt_node_promoted :: "u64 list"
  nt_node_spills :: "u64 list"
  nt_local_allocs :: u64
  nt_bind_allocs :: u64
  nt_interleave_allocs :: u64

definition bump_at :: "nat \<Rightarrow> u64 list \<Rightarrow> u64 list" where
  "bump_at i xs = xs[i := add64 (xs ! i) 1]"

fun configure_nodes :: "numa_buddy \<Rightarrow> nat list \<Rightarrow> u64 list \<Rightarrow> u64 list \<Rightarrow> numa_engine \<Rightarrow> numa_engine" where
  "configure_nodes nu [] capacity_mb kernel_mb e = e"
| "configure_nodes nu (i # is) capacity_mb kernel_mb e =
     configure_nodes nu is capacity_mb kernel_mb
       (configureNode e i (mul64 (mul64 (sub64 (capacity_mb ! i) (kernel_mb ! i)) 1024) 1024) (mul64 (mul64 (kernel_mb ! i) 1024) 1024)
          (getNodeBasePFN nu i) (add64 (getNodeBasePFN nu i) (getNodeNumPages nu i)) ''ddr'')"

text \<open>The constructor. The buddy allocator asserts that the vectors are long enough, so the defaults for missing sizes do not occur.\<close>

definition numa_thp_new :: "nat \<Rightarrow> numa_policy \<Rightarrow> rat \<Rightarrow> u64 list \<Rightarrow> u64 list \<Rightarrow> nat \<Rightarrow> rat \<Rightarrow> nat \<Rightarrow> numa_thp outcome" where
  "numa_thp_new n policy util_threshold capacity_mb kernel_mb max_order threshold cores_total =
     map_sum id (\<lambda>nu.
       \<lparr> nt_engine = configure_nodes nu [0..<n] capacity_mb kernel_mb (engine_init n policy 1 util_threshold 3), nt_buddy = nu,
         nt_maps = replicate n [],
         nt_kernel_next = map (\<lambda>i. if i = 0 then add64 (getNodeBasePFN nu i) 1 else getNodeBasePFN nu i) [0..<n],
         nt_kernel_end = map (\<lambda>i. add64 (getNodeBasePFN nu i) (getNodeKernelPages nu i)) [0..<n],
         nt_threshold = threshold, nt_cores_per_node = max 1 (if 0 < cores_total \<and> 0 < n then cores_total div n else 1),
         nt_four_kb = 0, nt_reserved = 0, nt_promoted = 0, nt_demoted = 0, nt_total = 0, nt_kernel_used = 0,
         nt_node_allocs = replicate n 0, nt_node_reserved = replicate n 0, nt_node_promoted = replicate n 0, nt_node_spills = replicate n 0,
         nt_local_allocs = 0, nt_bind_allocs = 0, nt_interleave_allocs = 0 \<rparr>)
     (numa_buddy_new n capacity_mb kernel_mb max_order 0)"

abbreviation nt_nodes :: "numa_thp \<Rightarrow> nat" where
  "nt_nodes s \<equiv> length (nu_nodes (nt_buddy s))"

section \<open>Reservations of a node\<close>

text \<open>The two parts of \<open>checkFor2MBAllocationOnNode\<close>: reserving a region, and using a page of it.\<close>

definition nt_reserve :: "numa_thp \<Rightarrow> u64 \<Rightarrow> nat \<Rightarrow> (bool \<times> numa_thp) outcome" where
  "nt_reserve s region_2MB node =
     (case nu_reserve2MBPage (nt_buddy s) node of
        Inl e \<Rightarrow> Inl e
      | Inr (b, nu) \<Rightarrow>
          if blk_start b = minus1_64 then Inr (False, s\<lparr>nt_buddy := nu\<rparr>)
          else Inr (True, s\<lparr>nt_buddy := nu,
                 nt_maps := (nt_maps s)[node := map_put region_2MB \<lparr>region_begin = blk_start b, region_bits = {}, region_promoted = False\<rparr> (nt_maps s ! node)],
                 nt_reserved := add64 (nt_reserved s) 1, nt_node_reserved := bump_at node (nt_node_reserved s)\<rparr>))"

definition nt_use :: "numa_thp \<Rightarrow> u64 \<Rightarrow> nat \<Rightarrow> thp_region \<Rightarrow> nat \<Rightarrow> ((u64 \<times> bool) \<times> numa_thp) outcome" where
  "nt_use s region_2MB node r offset_in_2MB =
     (if region_promoted r then Inl Assertion_Failed
      else let r1 = r\<lparr>region_bits := insert offset_in_2MB (region_bits r)\<rparr> in
           if nt_threshold s < utilization r1
           then Inr ((region_begin r1, True),
                  s\<lparr>nt_maps := (nt_maps s)[node := map_put region_2MB (r1\<lparr>region_promoted := True\<rparr>) (nt_maps s ! node)],
                    nt_promoted := add64 (nt_promoted s) 1, nt_node_promoted := bump_at node (nt_node_promoted s)\<rparr>)
           else Inr ((add64 (region_begin r1) offset_in_2MB, False),
                  s\<lparr>nt_maps := (nt_maps s)[node := map_put region_2MB r1 (nt_maps s ! node)]\<rparr>))"

definition checkFor2MBAllocationOnNode :: "numa_thp \<Rightarrow> u64 \<Rightarrow> nat \<Rightarrow> ((u64 \<times> bool) \<times> numa_thp) outcome" where
  "checkFor2MBAllocationOnNode s address node =
     (if nt_nodes s \<le> node then Inr ((minus1_64, False), s)
      else let region_2MB = address div 2 ^ 21; offset_in_2MB = (address div 2 ^ 12) mod 512 in
           case map_of (nt_maps s ! node) region_2MB of
             Some r \<Rightarrow> nt_use s region_2MB node r offset_in_2MB
           | None \<Rightarrow>
               (case nt_reserve s region_2MB node of
                  Inl e \<Rightarrow> Inl e
                | Inr (False, s1) \<Rightarrow> Inr ((minus1_64, False), s1)
                | Inr (True, s1) \<Rightarrow>
                    (case map_of (nt_maps s1 ! node) region_2MB of
                       Some r \<Rightarrow> nt_use s1 region_2MB node r offset_in_2MB
                     | None \<Rightarrow> Inl Undefined_Behaviour)))"

text \<open>As in the allocator without NUMA, \<open>pick\<close> stands for the front of the list sorted by utilisation.\<close>

definition nt_demotable :: "numa_thp \<Rightarrow> nat \<Rightarrow> (u64 \<times> nat) list" where
  "nt_demotable s node = map (\<lambda>(k, r). (k, card (region_bits r))) (filter (\<lambda>(k, r). \<not> region_promoted r) (nt_maps s ! node))"

fun nt_free_unused :: "u64 \<Rightarrow> nat set \<Rightarrow> nat list \<Rightarrow> numa_buddy \<Rightarrow> numa_buddy outcome" where
  "nt_free_unused begin bits [] nu = Inr nu"
| "nt_free_unused begin bits (j # js) nu =
     (if j \<in> bits then nt_free_unused begin bits js nu
      else (case nu_free nu (add64 begin j) (add64 begin (j + 1)) of
              Inl e \<Rightarrow> Inl e
            | Inr nu' \<Rightarrow> nt_free_unused begin bits js nu'))"

definition demote_page_on_node :: "((u64 \<times> nat) list \<Rightarrow> u64 \<times> nat) \<Rightarrow> numa_thp \<Rightarrow> nat \<Rightarrow> (bool \<times> numa_thp) outcome" where
  "demote_page_on_node pick s node =
     (if nt_nodes s \<le> node \<or> nt_demotable s node = [] then Inr (False, s)
      else let region_2MB = fst (pick (nt_demotable s node)) in
           case map_of (nt_maps s ! node) region_2MB of
             None \<Rightarrow> Inl Undefined_Behaviour
           | Some r \<Rightarrow>
               (case nt_free_unused (region_begin r) (region_bits r) [0..<512] (nt_buddy s) of
                  Inl e \<Rightarrow> Inl e
                | Inr nu \<Rightarrow>
                    Inr (True, s\<lparr>nt_buddy := nu, nt_demoted := add64 (nt_demoted s) 1,
                                 nt_maps := (nt_maps s)[node := map_erase region_2MB (nt_maps s ! node)]\<rparr>)))"

fun numa_demote_page :: "((u64 \<times> nat) list \<Rightarrow> u64 \<times> nat) \<Rightarrow> nat list \<Rightarrow> numa_thp \<Rightarrow> (bool \<times> numa_thp) outcome" where
  "numa_demote_page pick [] s = Inr (False, s)"
| "numa_demote_page pick (n # ns) s =
     (case demote_page_on_node pick s n of
        Inl e \<Rightarrow> Inl e
      | Inr (True, s') \<Rightarrow> Inr (True, s')
      | Inr (False, s') \<Rightarrow> numa_demote_page pick ns s')"

section \<open>Allocation\<close>

definition cpu_node :: "numa_thp \<Rightarrow> u64 \<Rightarrow> nat" where
  "cpu_node s core =
     (if 1 < nt_nodes s \<and> core \<noteq> minus1_64
      then let n = (core mod 2 ^ 32) div nt_cores_per_node s in if nt_nodes s \<le> n then nt_nodes s - 1 else n
      else 0)"

definition trackPolicyAlloc :: "numa_thp \<Rightarrow> numa_thp" where
  "trackPolicyAlloc s =
     (case ne_policy (nt_engine s) of
        MPOL_LOCAL \<Rightarrow> s\<lparr>nt_local_allocs := add64 (nt_local_allocs s) 1\<rparr>
      | MPOL_PREFERRED \<Rightarrow> s\<lparr>nt_local_allocs := add64 (nt_local_allocs s) 1\<rparr>
      | MPOL_BIND \<Rightarrow> s\<lparr>nt_bind_allocs := add64 (nt_bind_allocs s) 1\<rparr>
      | MPOL_INTERLEAVE \<Rightarrow> s\<lparr>nt_interleave_allocs := add64 (nt_interleave_allocs s) 1\<rparr>)"

definition nt_placed :: "numa_thp \<Rightarrow> u64 \<Rightarrow> nat \<Rightarrow> numa_thp" where
  "nt_placed s vpn node =
     s\<lparr>nt_node_allocs := bump_at node (nt_node_allocs s), nt_engine := recordAllocation (setNodeHint (nt_engine s) vpn node) node 4096\<rparr>"

definition nt_spilled :: "numa_thp \<Rightarrow> nat \<Rightarrow> numa_thp" where
  "nt_spilled s node = s\<lparr>nt_node_spills := bump_at node (nt_node_spills s)\<rparr>"

definition nt_four_kb_page :: "numa_thp \<Rightarrow> numa_thp" where
  "nt_four_kb_page s = s\<lparr>nt_four_kb := add64 (nt_four_kb s) 1\<rparr>"

definition nt_buddy_allocate :: "numa_thp \<Rightarrow> nat \<Rightarrow> u64 \<Rightarrow> (u64 \<times> numa_thp) outcome" where
  "nt_buddy_allocate s node sz = map_sum id (\<lambda>(p, nu). (p, s\<lparr>nt_buddy := nu\<rparr>)) (nu_allocate (nt_buddy s) node sz)"

fun spill :: "nat list \<Rightarrow> numa_thp \<Rightarrow> u64 \<Rightarrow> u64 \<Rightarrow> ((u64 \<times> u64) \<times> numa_thp) outcome" where
  "spill [] s sz address = Inl Assertion_Failed"
| "spill (n # ns) s sz address =
     (case checkFor2MBAllocationOnNode s address n of
        Inl e \<Rightarrow> Inl e
      | Inr ((page, promoted), s1) \<Rightarrow>
          if page \<noteq> minus1_64 then Inr ((page, if promoted then 21 else 12), nt_placed (nt_spilled s1 n) (address div 2 ^ 12) n)
          else (case nt_buddy_allocate s1 n sz of
            Inl e \<Rightarrow> Inl e
          | Inr (p, s2) \<Rightarrow>
              if p \<noteq> minus1_64 then Inr ((p, 12), nt_placed (nt_spilled (nt_four_kb_page s2) n) (address div 2 ^ 12) n)
              else spill ns s2 sz address))"

definition nt_allocate :: "((u64 \<times> nat) list \<Rightarrow> u64 \<times> nat) \<Rightarrow> numa_thp \<Rightarrow> u64 \<Rightarrow> u64 \<Rightarrow> u64 \<Rightarrow> ((u64 \<times> u64) \<times> numa_thp) outcome" where
  "nt_allocate pick s0 sz address core =
     (let s = s0\<lparr>nt_total := add64 (nt_total s0) 1\<rparr>; vpn = address div 2 ^ 12 in
      case selectAllocationNode (nt_engine s) vpn (cpu_node s core) of
        Inl e \<Rightarrow> Inl e
      | Inr target \<Rightarrow>
      (case checkFor2MBAllocationOnNode s address target of
        Inl e \<Rightarrow> Inl e
      | Inr ((page, promoted), s1) \<Rightarrow>
          if page \<noteq> minus1_64 then Inr ((page, if promoted then 21 else 12), nt_placed (trackPolicyAlloc s1) vpn target)
          else (case nt_buddy_allocate s1 target sz of
            Inl e \<Rightarrow> Inl e
          | Inr (fallback, s2) \<Rightarrow>
              if fallback \<noteq> minus1_64 then Inr ((fallback, 12), nt_placed (trackPolicyAlloc (nt_four_kb_page s2)) vpn target)
              else let others = filter (\<lambda>n. n \<noteq> target) [0..<nt_nodes s] in
                (case demote_page_on_node pick s2 target of
                  Inl e \<Rightarrow> Inl e
                | Inr (False, s3) \<Rightarrow> spill others s3 sz address
                | Inr (True, s3) \<Rightarrow>
                    (case nt_buddy_allocate s3 target sz of
                      Inl e \<Rightarrow> Inl e
                    | Inr (retried, s4) \<Rightarrow>
                        if retried \<noteq> minus1_64 then Inr ((retried, 12), nt_placed (nt_four_kb_page s4) vpn target)
                        else spill others s4 sz address)))))"

definition nt_givePageFast :: "numa_thp \<Rightarrow> u64 \<Rightarrow> (u64 \<times> numa_thp) outcome" where
  "nt_givePageFast s bytes =
     (case nt_buddy_allocate s 0 bytes of
        Inl e \<Rightarrow> Inl e
      | Inr (p, s1) \<Rightarrow>
          if p = minus1_64 then map_sum id (\<lambda>((q, n), nu). (q, s1\<lparr>nt_buddy := nu\<rparr>)) (nu_allocateAny (nt_buddy s1) bytes) else Inr (p, s1))"

definition nt_deallocate :: "numa_thp \<Rightarrow> u64 \<Rightarrow> numa_thp" where
  "nt_deallocate s pfn = s\<lparr>nt_engine := recordDeallocation (nt_engine s) (nu_getNodeForPFN (nt_buddy s) pfn) 4096\<rparr>"

fun fragment_nodes :: "nat list \<Rightarrow> u64 \<Rightarrow> numa_buddy \<Rightarrow> numa_buddy outcome" where
  "fragment_nodes [] target nu = Inr nu"
| "fragment_nodes (i # is) target nu =
     (case nu_fragmentToCount nu i target of Inl e \<Rightarrow> Inl e | Inr nu' \<Rightarrow> fragment_nodes is target nu')"

definition nt_fragment_memory_to_count :: "numa_thp \<Rightarrow> u64 \<Rightarrow> numa_thp outcome" where
  "nt_fragment_memory_to_count s target =
     map_sum id (\<lambda>nu. s\<lparr>nt_buddy := nu\<rparr>) (fragment_nodes [0..<nt_nodes s] (target div nt_nodes s) (nt_buddy s))"

definition nt_getNumaNodeForPPN :: "numa_thp \<Rightarrow> u64 \<Rightarrow> nat" where
  "nt_getNumaNodeForPPN s ppn = nu_getNodeForPFN (nt_buddy s) ppn"

definition nt_isLargePageReserved :: "numa_thp \<Rightarrow> u64 \<Rightarrow> u64" where
  "nt_isLargePageReserved s address =
     (case find_index (\<lambda>m. map_of m (address div 2 ^ 21) \<noteq> None) (nt_maps s) of
        Some n \<Rightarrow> region_begin (the (map_of (nt_maps s ! n) (address div 2 ^ 21)))
      | None \<Rightarrow> minus1_64)"

definition getCurrentFree2MBCount :: "numa_thp \<Rightarrow> u64" where
  "getCurrentFree2MBCount s = fold (\<lambda>i acc. add64 acc (getNodeFreeLargePages (nt_buddy s) i)) [0..<nt_nodes s] 0"

section \<open>Page tables\<close>

definition kernel_room :: "numa_thp \<Rightarrow> nat \<Rightarrow> nat \<Rightarrow> bool" where
  "kernel_room s pages n \<longleftrightarrow> add64 (nt_kernel_next s ! n) pages \<le> nt_kernel_end s ! n"

definition bump_kernel :: "numa_thp \<Rightarrow> nat \<Rightarrow> nat \<Rightarrow> u64 \<times> numa_thp" where
  "bump_kernel s pages n =
     (nt_kernel_next s ! n, s\<lparr>nt_kernel_next := (nt_kernel_next s)[n := add64 (nt_kernel_next s ! n) pages]\<rparr>)"

definition nt_handle_page_table_allocations :: "numa_thp \<Rightarrow> u64 \<Rightarrow> u64 \<Rightarrow> (u64 \<times> numa_thp) outcome" where
  "nt_handle_page_table_allocations s bytes core =
     (let target = cpu_node s core; pages = add64 bytes 4095 div 4096 in
      if kernel_room s pages target
      then Inr (case bump_kernel s pages target of (pfn, s') \<Rightarrow> (pfn, s'\<lparr>nt_kernel_used := add64 (nt_kernel_used s) pages\<rparr>))
      else (case find (\<lambda>n. n \<noteq> target \<and> kernel_room s pages n) [0..<nt_nodes s] of
              Some n \<Rightarrow> Inr (case bump_kernel s pages n of (pfn, s') \<Rightarrow> (pfn, nt_spilled s' n))
            | None \<Rightarrow> Inl Assertion_Failed))"

section \<open>Invariant\<close>

definition nt_pages :: "numa_thp \<Rightarrow> nat multiset" where
  "nt_pages s = nu_pages (nt_buddy s) + (\<Sum>e \<in># mset (concat (nt_maps s)). region_pages (snd e))"

text \<open>A region of a node lies in the node, outside its kernel region.\<close>

definition region_on :: "numa_buddy \<Rightarrow> nat \<Rightarrow> thp_region \<Rightarrow> bool" where
  "region_on nu i r \<longleftrightarrow> region_ok r \<and> (\<forall>p \<in># region_pages r. data_page nu i p)"

definition map_on :: "numa_buddy \<Rightarrow> nat \<Rightarrow> (u64 \<times> thp_region) list \<Rightarrow> bool" where
  "map_on nu i m \<longleftrightarrow> map_wf m \<and> (\<forall>e \<in> set m. region_on nu i (snd e))"

definition nt_base :: "numa_thp \<Rightarrow> bool" where
  "nt_base s \<longleftrightarrow> nu_inv (nt_buddy s) \<and> length (nt_maps s) = nt_nodes s \<and> (\<forall>i < nt_nodes s. map_on (nt_buddy s) i (nt_maps s ! i)) \<and> (\<forall>p. count (nt_pages s) p \<le> 1)"

definition kernel_ok :: "numa_thp \<Rightarrow> bool" where
  "kernel_ok s \<longleftrightarrow> length (nt_kernel_next s) = nt_nodes s \<and> length (nt_kernel_end s) = nt_nodes s \<and>
     (\<forall>i < nt_nodes s. let n = nu_nodes (nt_buddy s) ! i in
        nb_base n \<le> nt_kernel_next s ! i \<and> nt_kernel_next s ! i \<le> nb_base n + nb_kernel_pages n + 1 \<and>
        nt_kernel_end s ! i = nb_base n + nb_kernel_pages n \<and> nb_kernel_pages n \<le> nb_num_pages n)"

definition engine_ok :: "numa_thp \<Rightarrow> bool" where
  "engine_ok s \<longleftrightarrow> 0 < nt_nodes s \<and> ne_num_nodes (nt_engine s) = nt_nodes s \<and> length (ne_nodes (nt_engine s)) = nt_nodes s \<and> hints_wf (ne_hints (nt_engine s))"

definition nt_inv :: "numa_thp \<Rightarrow> bool" where
  "nt_inv s \<longleftrightarrow> nt_base s \<and> kernel_ok s \<and> engine_ok s"

text \<open>What the operations on reservations and buddies leave alone.\<close>

definition same_rest :: "numa_thp \<Rightarrow> numa_thp \<Rightarrow> bool" where
  "same_rest s s' \<longleftrightarrow> nt_engine s' = nt_engine s \<and> nt_kernel_next s' = nt_kernel_next s \<and> nt_kernel_end s' = nt_kernel_end s \<and>
     nt_demoted s' = nt_demoted s \<and> nt_cores_per_node s' = nt_cores_per_node s \<and> layout (nt_buddy s') = layout (nt_buddy s) \<and> nu_max_order (nt_buddy s') = nu_max_order (nt_buddy s)"

lemma same_rest_refl [simp]: "same_rest s s"
  by (simp add: same_rest_def)

lemma same_rest_trans: "same_rest s s1 \<Longrightarrow> same_rest s1 s2 \<Longrightarrow> same_rest s s2"
  by (simp add: same_rest_def)

lemma same_rest_nodes: "same_rest s s' \<Longrightarrow> nt_nodes s' = nt_nodes s"
  unfolding same_rest_def by (elim conjE) (rule layout_nth(1))

lemma same_rest_inv:
  assumes "nt_inv s" "same_rest s s'" "nt_base s'"
  shows "nt_inv s'"
proof -
  have l: "layout (nt_buddy s') = layout (nt_buddy s)" using assms(2) by (simp add: same_rest_def)
  have "kernel_ok s'" using assms(1,2) layout_nth [OF l] by (auto simp: nt_inv_def kernel_ok_def same_rest_def Let_def)
  moreover have "engine_ok s'" using assms(1,2) layout_nth(1) [OF l] by (simp add: nt_inv_def engine_ok_def same_rest_def)
  ultimately show ?thesis using assms(3) by (simp add: nt_inv_def)
qed

lemma nt_baseD:
  assumes "nt_base s"
  shows "nu_inv (nt_buddy s)" "length (nt_maps s) = nt_nodes s" "i < nt_nodes s \<Longrightarrow> map_on (nt_buddy s) i (nt_maps s ! i)" "count (nt_pages s) p \<le> 1"
  using assms by (simp_all add: nt_base_def)

lemma map_onD:
  assumes "map_on nu i m"
  shows "map_wf m" "map_of m k = Some r \<Longrightarrow> region_on nu i r"
  using assms by (fastforce simp: map_on_def dest: map_of_SomeD)+

lemma map_on_put: "map_on nu i m \<Longrightarrow> region_on nu i r \<Longrightarrow> map_on nu i (map_put k r m)"
  by (auto simp: map_on_def set_map_put)

lemma map_on_layout:
  assumes "layout nu' = layout nu"
  shows "map_on nu' i m = map_on nu i m"
  unfolding map_on_def region_on_def data_page_layout [OF assms] by (rule refl)

text \<open>Changing the map of one node changes the pages by the difference.\<close>

abbreviation map_pages :: "(u64 \<times> thp_region) list \<Rightarrow> nat multiset" where
  "map_pages m \<equiv> (\<Sum>e \<in># mset m. region_pages (snd e))"

lemma map_pages_update:
  assumes "i < length ms"
  shows "map_pages (concat (ms[i := m])) + map_pages (ms ! i) = map_pages (concat ms) + map_pages m"
  using assms
proof (induction ms arbitrary: i)
  case (Cons x xs)
  then show ?case by (cases i) (auto simp: ac_simps)
qed simp

lemma nt_base_update:
  assumes b: "nt_base s" and i: "i < nt_nodes s" and nu: "nu_inv nu" "layout nu = layout (nt_buddy s)" and m: "map_on nu i m"
    and pages: "nu_pages nu + map_pages m + G = nu_pages (nt_buddy s) + map_pages (nt_maps s ! i)"
    and s': "nt_buddy s' = nu" "nt_maps s' = (nt_maps s)[i := m]"
  shows "nt_base s'" "nt_pages s' + G = nt_pages s"
proof -
  have il: "i < length (nt_maps s)" using i nt_baseD(2) [OF b] by simp
  have "nt_pages s' + G + map_pages (nt_maps s ! i) = nt_pages s + map_pages (nt_maps s ! i)"
  proof -
    have "nt_pages s' + G + map_pages (nt_maps s ! i) = nu_pages nu + G + (map_pages (concat ((nt_maps s)[i := m])) + map_pages (nt_maps s ! i))"
      by (simp only: nt_pages_def s' ac_simps)
    also have "\<dots> = nu_pages nu + map_pages m + G + map_pages (concat (nt_maps s))" unfolding map_pages_update [OF il] by (simp only: ac_simps)
    finally show ?thesis unfolding pages by (simp only: nt_pages_def ac_simps)
  qed
  then show p: "nt_pages s' + G = nt_pages s" by (rule add_right_imp_eq)
  have c: "count (nt_pages s') q \<le> 1" for q using nt_baseD(4) [OF b, of q] unfolding p [symmetric] by simp
  have len: "length (nu_nodes nu) = nt_nodes s" by (rule layout_nth(1) [OF nu(2)])
  have "map_on nu j ((nt_maps s)[i := m] ! j)" if "j < nt_nodes s" for j
    using that m nt_baseD(3) [OF b that] map_on_layout [OF nu(2)] il by (cases "j = i") auto
  then show "nt_base s'" using nu(1) c nt_baseD(2) [OF b] len by (simp add: nt_base_def s')
qed

section \<open>Reserving and using a region\<close>

lemma nt_reserve_ok:
  assumes b: "nt_base s" and i: "i < nt_nodes s" and new: "map_of (nt_maps s ! i) k = None" and res: "nt_reserve s k i = Inr (ok, s')"
  shows "nt_base s' \<and> nt_pages s' = nt_pages s \<and> same_rest s s' \<and>
    (if ok then \<exists>p. nt_maps s' = (nt_maps s)[i := map_put k \<lparr>region_begin = p, region_bits = {}, region_promoted = False\<rparr> (nt_maps s ! i)] else s' = s)"
proof -
  note d = nt_baseD [OF b]
  obtain bl nu where r: "nu_reserve2MBPage (nt_buddy s) i = Inr (bl, nu)" using res by (auto simp: nt_reserve_def split: sum.splits)
  note c = nu_reserve_cases [OF d(1) r] and l = nu_reserve_layout [OF r]
  show ?thesis
  proof (cases "blk_start bl = minus1_64")
    case True
    then have "nu = nt_buddy s" using c by simp
    then show ?thesis using True res r b by (simp add: nt_reserve_def)
  next
    case False
    let ?r = "\<lparr>region_begin = blk_start bl, region_bits = {}, region_promoted = False\<rparr>"
    have g: "granted (nt_buddy s) i [blk_start bl..<blk_start bl + 512] nu" using c False by simp
    have s': "nt_buddy s' = nu" "nt_maps s' = (nt_maps s)[i := map_put k ?r (nt_maps s ! i)]" "same_rest s s'" "ok"
      using res r False l by (auto simp: nt_reserve_def same_rest_def)
    have pg: "nu_pages nu + region_pages ?r = nu_pages (nt_buddy s)" using g by (simp add: granted_def region_pages_def)
    have dp: "data_page (nt_buddy s) i p" if "p \<in># region_pages ?r" for p using g that by (simp add: granted_def region_pages_def)
    have top: "blk_start bl + 511 \<in># region_pages ?r" by (simp add: region_pages_def)
    have "region_ok ?r" using dp [OF top] nu_invD(1) [OF d(1) i] by (simp add: data_page_def region_ok_def node_ok_def)
    then have on: "region_on nu i ?r" using dp data_page_layout [of nu "nt_buddy s" i] l by (simp add: region_on_def)
    have kn: "k \<notin> fst ` set (nt_maps s ! i)" using new by (simp add: map_of_eq_None_iff)
    have "map_on nu i (nt_maps s ! i)" using d(3) [OF i] map_on_layout [of nu "nt_buddy s"] l by simp
    then have "map_on nu i (map_put k ?r (nt_maps s ! i))" using on by (rule map_on_put)
    moreover have "nu_pages nu + map_pages (map_put k ?r (nt_maps s ! i)) + {#} = nu_pages (nt_buddy s) + map_pages (nt_maps s ! i)"
      unfolding mset_map_put_new [OF kn] pg [symmetric] by (simp add: ac_simps)
    moreover have "nu_inv nu" using g by (simp add: granted_def)
    ultimately have "nt_base s' \<and> nt_pages s' = nt_pages s"
      using nt_base_update [OF b i _ _ _ _ s'(1,2), of "{#}"] l by simp
    then show ?thesis using s' by auto
  qed
qed

definition nt_frame :: "numa_thp \<Rightarrow> nat \<Rightarrow> u64 \<Rightarrow> u64 option" where
  "nt_frame s i address =
     (if length (nt_maps s) \<le> i then None
      else case map_of (nt_maps s ! i) (va_region address) of
             None \<Rightarrow> None
           | Some r \<Rightarrow> if va_offset address \<in> region_bits r then Some (region_begin r + va_offset address) else None)"

text \<open>
  The outcome of a call that uses a page of a reservation on node \<open>i\<close>: the page has a frame, a
  promoted region is given by its first frame, and pages that had frames keep them.
\<close>

definition keeps_frames :: "numa_thp \<Rightarrow> numa_thp \<Rightarrow> bool" where
  "keeps_frames s s' \<longleftrightarrow> (\<forall>j b f. nt_frame s j b = Some f \<longrightarrow> nt_frame s' j b = Some f)"

definition region_granted :: "numa_thp \<Rightarrow> numa_thp \<Rightarrow> nat \<Rightarrow> u64 \<Rightarrow> u64 \<Rightarrow> bool \<Rightarrow> bool" where
  "region_granted s s' i a page pr \<longleftrightarrow> keeps_frames s s' \<and> nt_pages s' = nt_pages s \<and> data_page (nt_buddy s) i page \<and>
     nt_frame s' i a = Some (if pr then page + va_offset a else page)"

lemma keeps_frames_same: "nt_maps s' = nt_maps s \<Longrightarrow> keeps_frames s s'"
  by (simp add: keeps_frames_def nt_frame_def)

lemma keeps_frames_trans: "keeps_frames s s1 \<Longrightarrow> keeps_frames s1 s2 \<Longrightarrow> keeps_frames s s2"
  by (simp add: keeps_frames_def)

lemma keeps_frames_put:
  assumes i: "i < length (nt_maps s)" and m: "nt_maps s' = (nt_maps s)[i := map_put k r' (nt_maps s ! i)]"
    and old: "\<And>r. map_of (nt_maps s ! i) k = Some r \<Longrightarrow> region_begin r' = region_begin r \<and> region_bits r \<subseteq> region_bits r'"
  shows "keeps_frames s s'"
proof -
  have "nt_frame s' j b = Some f" if f: "nt_frame s j b = Some f" for j b f
  proof (cases "j = i \<and> va_region b = k")
    case True
    then obtain r where r: "map_of (nt_maps s ! i) k = Some r" "va_offset b \<in> region_bits r" "f = region_begin r + va_offset b"
      using f by (auto simp: nt_frame_def split: if_splits option.splits)
    then show ?thesis using old [OF r(1)] True i by (auto simp: nt_frame_def m)
  next
    case False
    then show ?thesis using f i by (cases "j = i") (auto simp: nt_frame_def m)
  qed
  then show ?thesis by (simp add: keeps_frames_def)
qed

lemma nt_use_ok:
  assumes b: "nt_base s" and i: "i < nt_nodes s" and r: "map_of (nt_maps s ! i) (va_region a) = Some r"
    and u: "nt_use s (va_region a) i r (va_offset a) = Inr ((page, pr), s')"
  shows "nt_base s' \<and> same_rest s s' \<and> page \<noteq> minus1_64 \<and> region_granted s s' i a page pr"
proof -
  note d = nt_baseD [OF b]
  have on: "region_on (nt_buddy s) i r" by (rule map_onD(2) [OF d(3) [OF i] r])
  then have rok: "region_ok r" by (simp add: region_on_def)
  define r' where "r' = r\<lparr>region_bits := insert (va_offset a) (region_bits r), region_promoted := pr\<rparr>"
  have np: "\<not> region_promoted r" using u by (auto simp: nt_use_def)
  have e: "r\<lparr>region_bits := insert (va_offset a) (region_bits r), region_promoted := False\<rparr> = r\<lparr>region_bits := insert (va_offset a) (region_bits r)\<rparr>"
    using np by (intro thp_region.equality) simp_all
  have off: "va_offset a < 512" by simp
  have lt: "region_begin r + va_offset a < 2 ^ 64 - 1" using rok off unfolding region_ok_def by linarith
  then have ad: "add64 (region_begin r) (va_offset a) = region_begin r + va_offset a" by (intro add64_exact) linarith
  have s': "nt_maps s' = (nt_maps s)[i := map_put (va_region a) r' (nt_maps s ! i)]" "nt_buddy s' = nt_buddy s" "same_rest s s'"
    and page: "page = (if pr then region_begin r else region_begin r + va_offset a)"
    using u np by (auto simp: nt_use_def Let_def r'_def ad e same_rest_def split: if_splits)
  have rp: "region_pages r' = region_pages r" "region_bits r' = insert (va_offset a) (region_bits r)" "region_begin r' = region_begin r"
    by (simp_all add: region_pages_def r'_def)
  have on': "region_on (nt_buddy s) i r'" using on rok rp off by (simp add: region_on_def region_ok_def)
  have "map_pages (map_put (va_region a) r' (nt_maps s ! i)) = map_pages (nt_maps s ! i)"
    by (rule thp_pages_put_old [OF map_onD(1) [OF d(3) [OF i]] r rp(3)])
  then have base: "nt_base s' \<and> nt_pages s' = nt_pages s"
    using nt_base_update [OF b i d(1) refl map_on_put [OF d(3) [OF i] on'] _ s'(2,1), of "{#}"] by simp
  have il: "i < length (nt_maps s)" using i d(2) by simp
  have "nt_frame s' i a = Some (region_begin r + va_offset a)" using il by (simp add: nt_frame_def s'(1) rp)
  moreover have "keeps_frames s s'" by (rule keeps_frames_put [OF il s'(1)]) (use r rp in auto)
  moreover have "page \<in># region_pages r" using off by (simp add: page region_pages_def)
  moreover have "page \<noteq> minus1_64" unfolding page minus1_64_def using lt by auto
  ultimately show ?thesis using base s'(3) on page by (auto simp: region_granted_def region_on_def)
qed

lemma check2MB_ok:
  assumes b: "nt_base s" and c: "checkFor2MBAllocationOnNode s a i = Inr ((page, pr), s')"
  shows "nt_base s' \<and> same_rest s s' \<and> (if page = minus1_64 then s' = s else i < nt_nodes s \<and> region_granted s s' i a page pr)"
proof (cases "i < nt_nodes s")
  case False
  then show ?thesis using b c by (simp add: checkFor2MBAllocationOnNode_def)
next
  case i: True
  note c' = c [unfolded checkFor2MBAllocationOnNode_def Let_def va_region_def [symmetric] va_offset_def [symmetric]]
  show ?thesis
  proof (cases "map_of (nt_maps s ! i) (va_region a)")
    case (Some r)
    then have "nt_use s (va_region a) i r (va_offset a) = Inr ((page, pr), s')" using c' i by simp
    from nt_use_ok [OF b i Some this] i show ?thesis by simp
  next
    case None
    obtain ok s1 where r1: "nt_reserve s (va_region a) i = Inr (ok, s1)" using c' i None by (auto split: sum.splits)
    note R = nt_reserve_ok [OF b i None r1]
    show ?thesis
    proof (cases ok)
      case False
      then show ?thesis using c' i None r1 R b by auto
    next
      case True
      then obtain p where m1: "nt_maps s1 = (nt_maps s)[i := map_put (va_region a) \<lparr>region_begin = p, region_bits = {}, region_promoted = False\<rparr> (nt_maps s ! i)]"
        using R by auto
      let ?r = "\<lparr>region_begin = p, region_bits = {}, region_promoted = False\<rparr>"
      have b1: "nt_base s1" and sr: "same_rest s s1" and pg: "nt_pages s1 = nt_pages s" using R by auto
      have il: "i < length (nt_maps s)" using i nt_baseD(2) [OF b] by simp
      have i1: "i < nt_nodes s1" using i same_rest_nodes [OF sr] by simp
      have f1: "map_of (nt_maps s1 ! i) (va_region a) = Some ?r" using il by (simp add: m1)
      have "nt_use s1 (va_region a) i ?r (va_offset a) = Inr ((page, pr), s')" using c' i None r1 True f1 by simp
      note U = nt_use_ok [OF b1 i1 f1 this]
      have "keeps_frames s s1" by (rule keeps_frames_put [OF il m1]) (use None in simp)
      then have k: "keeps_frames s s'" using U keeps_frames_trans by (auto simp: region_granted_def)
      have "layout (nt_buddy s1) = layout (nt_buddy s)" using sr by (simp add: same_rest_def)
      then have "region_granted s s' i a page pr" using U k pg data_page_layout [of "nt_buddy s1" "nt_buddy s"] unfolding region_granted_def by auto
      then show ?thesis using U i same_rest_trans [OF sr] by auto
    qed
  qed
qed

section \<open>Frames are exclusive\<close>

lemma region_in_maps:
  assumes "i < length (nt_maps s)" "map_of (nt_maps s ! i) k = Some r" "f \<in># region_pages r"
  shows "f \<in># map_pages (nt_maps s ! i)"
proof -
  have "(k, r) \<in> set (nt_maps s ! i)" using assms(2) by (rule map_of_SomeD)
  then show ?thesis using assms(3) by (auto simp: in_Union_mset_iff intro!: bexI [of _ "(k, r)"])
qed

lemma map_pages_concat:
  assumes "i < length ms"
  shows "count (map_pages (ms ! i)) p \<le> count (map_pages (concat ms)) p"
proof -
  have "map_pages (concat (ms[i := []])) + map_pages (ms ! i) = map_pages (concat ms)" using map_pages_update [OF assms, of "[]"] by simp
  from arg_cong [OF this, of "\<lambda>M. count M p"] show ?thesis unfolding count_union by linarith
qed

lemma nt_frame_region:
  assumes "nt_base s" "nt_frame s i a = Some f"
  obtains r where "i < nt_nodes s" "map_of (nt_maps s ! i) (va_region a) = Some r" "f = region_begin r + va_offset a" "f \<in># region_pages r" "data_page (nt_buddy s) i f"
proof -
  have i: "i < nt_nodes s" using assms nt_baseD(2) by (auto simp: nt_frame_def split: if_splits)
  obtain r where r: "map_of (nt_maps s ! i) (va_region a) = Some r" "f = region_begin r + va_offset a"
    using assms(2) by (auto simp: nt_frame_def split: if_splits option.splits)
  have m: "f \<in># region_pages r" unfolding r(2) by (simp add: region_pages_def)
  then have "data_page (nt_buddy s) i f" using map_onD(2) [OF nt_baseD(3) [OF assms(1) i] r(1)] by (simp add: region_on_def)
  then show thesis using that i r m by blast
qed

lemma nt_frame_inj:
  assumes b: "nt_base s" and f: "nt_frame s i a = Some f" "nt_frame s j a' = Some f"
  shows "i = j \<and> a div 4096 = a' div 4096"
proof -
  obtain r where r: "i < nt_nodes s" "map_of (nt_maps s ! i) (va_region a) = Some r" "f = region_begin r + va_offset a" "f \<in># region_pages r" "data_page (nt_buddy s) i f"
    by (rule nt_frame_region [OF b f(1)])
  obtain r' where r': "map_of (nt_maps s ! j) (va_region a') = Some r'" "f = region_begin r' + va_offset a'" "f \<in># region_pages r'" "data_page (nt_buddy s) j f"
    by (rule nt_frame_region [OF b f(2)])
  have ij: "i = j" using data_page_node [OF nt_baseD(1) [OF b]] r(5) r'(4) by blast
  have "va_region a = va_region a'"
  proof (rule ccontr)
    assume ne: "va_region a \<noteq> va_region a'"
    let ?M = "mset (nt_maps s ! i)" and ?g = "\<lambda>e. region_pages (snd e)"
    have "(va_region a, r) \<in># ?M" "(va_region a', r') \<in># ?M" using r(2) r'(1) ij by (auto dest: map_of_SomeD)
    moreover from this ne have "(va_region a', r') \<in># ?M - {#(va_region a, r)#}" by (simp add: in_diff_count)
    ultimately have "count (?g (va_region a, r)) f + count (?g (va_region a', r')) f \<le> count (map_pages (nt_maps s ! i)) f" by (intro sum_mset_sub)
    also have "\<dots> \<le> count (nt_pages s) f" using map_pages_concat [of i "nt_maps s" f] r(1) nt_baseD(2) [OF b] by (simp add: nt_pages_def)
    finally have "count (region_pages r) f + count (region_pages r') f \<le> 1" using nt_baseD(4) [OF b, of f] by simp
    moreover have "1 \<le> count (region_pages r) f" "1 \<le> count (region_pages r') f"
      using r(4) r'(3) by (simp_all only: One_nat_def Suc_leI count_greater_zero_iff)
    ultimately show False by linarith
  qed
  with r r' ij show ?thesis by (simp add: va_page_eq_iff)
qed

lemma nt_frame_not_free:
  assumes b: "nt_base s" and f: "nt_frame s i a = Some f"
  shows "f \<notin># nu_pages (nt_buddy s)"
proof -
  obtain r where r: "i < nt_nodes s" "map_of (nt_maps s ! i) (va_region a) = Some r" "f \<in># region_pages r" by (rule nt_frame_region [OF b f])
  have i: "i < length (nt_maps s)" using r(1) nt_baseD(2) [OF b] by simp
  have "0 < count (map_pages (nt_maps s ! i)) f" using region_in_maps [OF i r(2,3)] by (simp only: count_greater_zero_iff)
  then have "0 < count (map_pages (concat (nt_maps s))) f" using map_pages_concat [OF i, of f] by linarith
  then have "count (nu_pages (nt_buddy s)) f = 0" using nt_baseD(4) [OF b, of f] unfolding nt_pages_def count_union by linarith
  then show ?thesis by (simp add: not_in_iff)
qed

section \<open>Allocation\<close>

lemma nt_buddy_allocate_ok:
  assumes b: "nt_base s" and a: "nt_buddy_allocate s i sz = Inr (p, s')"
  shows "nt_base s' \<and> same_rest s s' \<and> nt_maps s' = nt_maps s \<and>
    (if p = minus1_64 then s' = s else data_page (nt_buddy s) i p \<and> nt_pages s' + mset [p..<p + 2 ^ ceil_log2 (sz div 4096)] = nt_pages s)"
proof -
  note d = nt_baseD [OF b]
  obtain nu where nu: "nu_allocate (nt_buddy s) i sz = Inr (p, nu)" "s' = s\<lparr>nt_buddy := nu\<rparr>"
    using a by (cases "nu_allocate (nt_buddy s) i sz") (auto simp: nt_buddy_allocate_def)
  note c = nu_allocate_cases [OF d(1) nu(1)] and l = nu_allocate_layout [OF nu(1)]
  show ?thesis
  proof (cases "p = minus1_64")
    case True
    then show ?thesis using c nu(2) b by simp
  next
    case False
    let ?ps = "[p..<p + 2 ^ ceil_log2 (sz div 4096)]"
    have g: "granted (nt_buddy s) i ?ps nu" using c False by simp
    then have i: "i < nt_nodes s" and pg: "nu_pages nu + mset ?ps = nu_pages (nt_buddy s)" and inv: "nu_inv nu" by (simp_all add: granted_def)
    have "p \<in> set ?ps" by simp
    then have dp: "data_page (nt_buddy s) i p" using g by (auto simp: granted_def)
    have m: "map_on nu i (nt_maps s ! i)" using d(3) [OF i] map_on_layout [of nu "nt_buddy s"] l by simp
    have eq: "nu_pages nu + map_pages (nt_maps s ! i) + mset ?ps = nu_pages (nt_buddy s) + map_pages (nt_maps s ! i)"
      unfolding pg [symmetric] by (simp only: ac_simps)
    have "nt_base s' \<and> nt_pages s' + mset ?ps = nt_pages s"
      using nt_base_update [OF b i inv _ m eq, of s'] l nu(2) by simp
    then show ?thesis using dp False l nu(2) by (simp add: same_rest_def)
  qed
qed

lemma nt_buddy_allocate_fails:
  assumes "nt_base s" "i < nt_nodes s" "4096 \<le> sz" "nt_buddy_allocate s i sz = Inr (minus1_64, s')"
  shows "\<not> can_serve (nt_buddy s) i sz"
proof
  assume "can_serve (nt_buddy s) i sz"
  moreover obtain nu where "nu_allocate (nt_buddy s) i sz = Inr (minus1_64, nu)"
    using assms(4) by (cases "nu_allocate (nt_buddy s) i sz") (auto simp: nt_buddy_allocate_def)
  ultimately show False using nu_allocate_serves [OF nt_baseD(1) [OF assms(1)] assms(2,3)] by blast
qed

text \<open>
  The outcome of an allocation on node \<open>n\<close>: a page of a reservation, or a run of free pages of the
  node's buddy. Either way the result is a page of the node outside its kernel region.
\<close>

definition allocated_on :: "numa_thp \<Rightarrow> numa_thp \<Rightarrow> nat \<Rightarrow> u64 \<Rightarrow> u64 \<Rightarrow> u64 \<Rightarrow> u64 \<Rightarrow> bool" where
  "allocated_on s s' n sz a page bits \<longleftrightarrow> data_page (nt_buddy s) n page \<and> keeps_frames s s' \<and>
     (bits = 12 \<and> nt_pages s' + mset [page..<page + 2 ^ ceil_log2 (sz div 4096)] = nt_pages s \<or>
      nt_pages s' = nt_pages s \<and> (bits = 12 \<and> nt_frame s' n a = Some page \<or> bits = 21 \<and> nt_frame s' n a = Some (page + va_offset a)))"

lemma placed_sel [simp]:
  "nt_maps (nt_placed s v n) = nt_maps s" "nt_buddy (nt_placed s v n) = nt_buddy s" "nt_maps (trackPolicyAlloc s) = nt_maps s" "nt_buddy (trackPolicyAlloc s) = nt_buddy s"
  "nt_maps (nt_spilled s n) = nt_maps s" "nt_buddy (nt_spilled s n) = nt_buddy s" "nt_maps (nt_four_kb_page s) = nt_maps s" "nt_buddy (nt_four_kb_page s) = nt_buddy s"
  by (simp_all add: nt_placed_def trackPolicyAlloc_def nt_spilled_def nt_four_kb_page_def split: numa_policy.splits)

lemma placed_rest [simp]:
  "same_rest s (trackPolicyAlloc s') = same_rest s s'" "same_rest s (nt_spilled s' n) = same_rest s s'" "same_rest s (nt_four_kb_page s') = same_rest s s'"
  "nt_demoted (nt_placed s v n) = nt_demoted s" "nt_demoted (trackPolicyAlloc s) = nt_demoted s" "nt_demoted (nt_spilled s n) = nt_demoted s" "nt_demoted (nt_four_kb_page s) = nt_demoted s"
  by (simp_all add: same_rest_def nt_placed_def trackPolicyAlloc_def nt_spilled_def nt_four_kb_page_def split: numa_policy.splits)

lemma nt_cong:
  assumes "nt_maps s' = nt_maps s" "nt_buddy s' = nt_buddy s"
  shows "nt_base s' = nt_base s" "nt_pages s' = nt_pages s" "nt_frame s' = nt_frame s" "keeps_frames t s' = keeps_frames t s"
  using assms by (simp_all add: nt_base_def nt_pages_def nt_frame_def fun_eq_iff keeps_frames_def)

lemma allocated_on_cong:
  assumes "nt_maps t = nt_maps s'" "nt_buddy t = nt_buddy s'"
  shows "allocated_on s t n sz a page bits = allocated_on s s' n sz a page bits"
  unfolding allocated_on_def nt_cong [OF assms] by (rule refl)

lemma region_allocated: "region_granted s s' n a page pr \<Longrightarrow> allocated_on s s' n sz a page (if pr then 21 else 12)"
  by (simp add: region_granted_def allocated_on_def)

lemma buddy_allocated:
  assumes "nt_base s" "nt_buddy_allocate s n sz = Inr (p, s')" "p \<noteq> minus1_64"
  shows "allocated_on s s' n sz a p 12"
  using nt_buddy_allocate_ok [OF assms(1,2)] assms(3) keeps_frames_same [of s' s] by (simp add: allocated_on_def)

lemma spill_ok:
  assumes b: "nt_base s"
  shows "spill ns s sz a = Inr ((page, bits), s') \<Longrightarrow>
    \<exists>n \<in> set ns. \<exists>t. s' = nt_placed t (a div 2 ^ 12) n \<and> nt_base t \<and> same_rest s t \<and> allocated_on s t n sz a page bits"
proof (induction ns)
  case (Cons n ns)
  obtain pg pr s1 where c: "checkFor2MBAllocationOnNode s a n = Inr ((pg, pr), s1)"
    using Cons.prems by (cases "checkFor2MBAllocationOnNode s a n") auto
  note C = check2MB_ok [OF b c]
  show ?case
  proof (cases "pg = minus1_64")
    case False
    let ?t = "nt_spilled s1 n"
    have "page = pg" "bits = (if pr then 21 else 12)" "s' = nt_placed ?t (a div 2 ^ 12) n" using Cons.prems c False by auto
    moreover have "allocated_on s ?t n sz a pg (if pr then 21 else 12)" using C False region_allocated by (simp add: allocated_on_cong [of ?t s1])
    moreover have "nt_base ?t" "same_rest s ?t" using C nt_cong(1) [of ?t s1] by simp_all
    ultimately show ?thesis by auto
  next
    case True
    then have s1: "s1 = s" using C by simp
    obtain p s2 where p: "nt_buddy_allocate s n sz = Inr (p, s2)" using Cons.prems c True s1 by (cases "nt_buddy_allocate s n sz") auto
    note P = nt_buddy_allocate_ok [OF b p]
    show ?thesis
    proof (cases "p = minus1_64")
      case False
      let ?t = "nt_spilled (nt_four_kb_page s2) n"
      have "page = p" "bits = 12" "s' = nt_placed ?t (a div 2 ^ 12) n" using Cons.prems c True s1 p False by auto
      moreover have "allocated_on s ?t n sz a p 12" using buddy_allocated [OF b p False] by (simp add: allocated_on_cong [of ?t s2])
      moreover have "nt_base ?t" "same_rest s ?t" using P nt_cong(1) [of ?t s2] by simp_all
      ultimately show ?thesis by auto
    next
      case f: True
      then show ?thesis using Cons True c p s1 P by auto
    qed
  qed
qed simp

text \<open>Only a demotion changes the count of demotions.\<close>

lemma check2MB_demoted: "checkFor2MBAllocationOnNode s a n = Inr (x, s') \<Longrightarrow> nt_demoted s' = nt_demoted s"
  by (auto simp: checkFor2MBAllocationOnNode_def Let_def nt_use_def nt_reserve_def split: if_splits option.splits sum.splits bool.splits)

lemma buddy_demoted: "nt_buddy_allocate s n sz = Inr (x, s') \<Longrightarrow> nt_demoted s' = nt_demoted s"
  by (cases "nu_allocate (nt_buddy s) n sz") (auto simp: nt_buddy_allocate_def)

lemma spill_demoted: "spill ns s sz a = Inr (x, s') \<Longrightarrow> nt_demoted s' = nt_demoted s"
proof (induction ns arbitrary: s)
  case (Cons n ns)
  then show ?case by (auto split: sum.splits if_splits dest!: check2MB_demoted buddy_demoted)
qed simp

lemma demote_demoted:
  assumes "demote_page_on_node pick s n = Inr (ok, s')"
  shows "if ok then nt_demoted s' = add64 (nt_demoted s) 1 else s' = s"
  using assms by (auto simp: demote_page_on_node_def Let_def split: if_splits option.splits sum.splits)

lemma select_less:
  assumes "length (ne_nodes e) = ne_num_nodes e" "0 < ne_num_nodes e" "selectAllocationNode e vpn cpu = Inr n"
  shows "n < ne_num_nodes e"
proof -
  have l: "least_scan P 0 (ne_nodes e) 0 (11 / 10) < ne_num_nodes e" for P
    using least_scan_spec [of P 0 "ne_nodes e" 0 "11 / 10"] assms(1,2) by fastforce
  show ?thesis using assms(2,3) l by (auto simp: selectAllocationNode_def getLeastUtilizedNode_def split: numa_policy.splits if_splits)
qed

text \<open>The branches of the allocation. After a demotion the rest of the call leaves the count of demotions alone.\<close>

lemma nt_allocate_branches:
  assumes al: "nt_allocate pick s0 sz a core = Inr ((page, bits), s')" and s: "s = s0\<lparr>nt_total := add64 (nt_total s0) 1\<rparr>" and v: "v = a div 2 ^ 12"
  obtains target pg pr s1 where "selectAllocationNode (nt_engine s) v (cpu_node s core) = Inr target" "checkFor2MBAllocationOnNode s a target = Inr ((pg, pr), s1)"
    "pg \<noteq> minus1_64" "page = pg" "bits = (if pr then 21 else 12)" "s' = nt_placed (trackPolicyAlloc s1) v target"
  | target pr s1 p s2 where "selectAllocationNode (nt_engine s) v (cpu_node s core) = Inr target" "checkFor2MBAllocationOnNode s a target = Inr ((minus1_64, pr), s1)"
    "nt_buddy_allocate s1 target sz = Inr (p, s2)" "p \<noteq> minus1_64" "page = p" "bits = 12" "s' = nt_placed (trackPolicyAlloc (nt_four_kb_page s2)) v target"
  | target pr s1 s2 ok s3 where "selectAllocationNode (nt_engine s) v (cpu_node s core) = Inr target" "checkFor2MBAllocationOnNode s a target = Inr ((minus1_64, pr), s1)"
    "nt_buddy_allocate s1 target sz = Inr (minus1_64, s2)" "demote_page_on_node pick s2 target = Inr (ok, s3)"
    "if ok then nt_demoted s' = nt_demoted s3 else spill (filter (\<lambda>n. n \<noteq> target) [0..<nt_nodes s]) s3 sz a = Inr ((page, bits), s')"
proof -
  note al = al [unfolded nt_allocate_def Let_def, folded s v]
  obtain target where t: "selectAllocationNode (nt_engine s) v (cpu_node s core) = Inr target"
    using al by (cases "selectAllocationNode (nt_engine s) v (cpu_node s core)") auto
  obtain pg pr s1 where c: "checkFor2MBAllocationOnNode s a target = Inr ((pg, pr), s1)"
    using al t by (cases "checkFor2MBAllocationOnNode s a target") auto
  show thesis
  proof (cases "pg = minus1_64")
    case False
    have "page = pg" "bits = (if pr then 21 else 12)" "s' = nt_placed (trackPolicyAlloc s1) v target" using al t c False by auto
    then show thesis by (rule that(1) [OF t c False])
  next
    case True
    obtain p s2 where p: "nt_buddy_allocate s1 target sz = Inr (p, s2)" using al t c True by (cases "nt_buddy_allocate s1 target sz") auto
    note c' = c [unfolded True]
    show thesis
    proof (cases "p = minus1_64")
      case False
      have "page = p" "bits = 12" "s' = nt_placed (trackPolicyAlloc (nt_four_kb_page s2)) v target" using al t c' p False by auto
      then show thesis by (rule that(2) [OF t c' p False])
    next
      case f: True
      obtain ok s3 where d: "demote_page_on_node pick s2 target = Inr (ok, s3)" using al t c True p f by (cases "demote_page_on_node pick s2 target") auto
      have "if ok then nt_demoted s' = nt_demoted s3 else spill (filter (\<lambda>n. n \<noteq> target) [0..<nt_nodes s]) s3 sz a = Inr ((page, bits), s')"
      proof (cases ok)
        case False
        then show ?thesis using al t c' p f d by simp
      next
        case True
        obtain q s4 where q: "nt_buddy_allocate s3 target sz = Inr (q, s4)" using al t c' p f d True by (cases "nt_buddy_allocate s3 target sz") auto
        then show ?thesis using al t c' p f d True buddy_demoted [OF q] by (auto split: if_splits dest: spill_demoted)
      qed
      then show thesis by (rule that(3) [OF t c' p [unfolded f] d])
    qed
  qed
qed

lemma nt_allocate_ok:
  assumes inv: "nt_inv s" and sz: "4096 \<le> sz" and al: "nt_allocate pick s sz a core = Inr ((page, bits), s')" and dem: "nt_demoted s' = nt_demoted s"
  shows "\<exists>target n t. selectAllocationNode (nt_engine s) (a div 2 ^ 12) (cpu_node s core) = Inr target \<and> target < nt_nodes s \<and> n < nt_nodes s \<and>
    s' = nt_placed t (a div 2 ^ 12) n \<and> nt_base t \<and> same_rest s t \<and> allocated_on s t n sz a page bits \<and> (n = target \<or> \<not> can_serve (nt_buddy s) target sz)"
proof -
  let ?s = "s\<lparr>nt_total := add64 (nt_total s) 1\<rparr>" and ?v = "a div 2 ^ 12"
  have b: "nt_base ?s" using inv nt_cong(1) [of ?s s] by (simp add: nt_inv_def)
  have sr: "same_rest ?s t \<Longrightarrow> same_rest s t" for t by (simp add: same_rest_def)
  have ao: "allocated_on ?s t n sz a pg bs \<Longrightarrow> allocated_on s t n sz a pg bs" for t n pg bs
    using nt_cong(2,3) [of ?s s] by (simp add: allocated_on_def keeps_frames_def)
  have cn: "cpu_node ?s core = cpu_node s core" unfolding cpu_node_def by (simp add: Let_def)
  have sel: "target < nt_nodes s \<and> selectAllocationNode (nt_engine s) ?v (cpu_node s core) = Inr target"
    if "selectAllocationNode (nt_engine ?s) ?v (cpu_node ?s core) = Inr target" for target
    using that [unfolded cn] select_less [of "nt_engine s"] inv by (simp add: nt_inv_def engine_ok_def)
  show ?thesis
  proof (rule nt_allocate_branches [OF al refl refl])
    fix target pg pr s1
    assume t: "selectAllocationNode (nt_engine ?s) ?v (cpu_node ?s core) = Inr target" and c: "checkFor2MBAllocationOnNode ?s a target = Inr ((pg, pr), s1)"
      and e: "pg \<noteq> minus1_64" "page = pg" "bits = (if pr then 21 else 12)" "s' = nt_placed (trackPolicyAlloc s1) ?v target"
    let ?t = "trackPolicyAlloc s1"
    note C = check2MB_ok [OF b c]
    have "allocated_on s ?t target sz a page bits" unfolding e(2,3) using C e(1) region_allocated by (intro ao) (simp add: allocated_on_cong [of ?t s1])
    moreover have "nt_base ?t" "same_rest s ?t" using C sr nt_cong(1) [of ?t s1] by simp_all
    ultimately show ?thesis using sel [OF t] e(4) by blast
  next
    fix target pr s1 p s2
    assume t: "selectAllocationNode (nt_engine ?s) ?v (cpu_node ?s core) = Inr target" and c: "checkFor2MBAllocationOnNode ?s a target = Inr ((minus1_64, pr), s1)"
      and p: "nt_buddy_allocate s1 target sz = Inr (p, s2)" "p \<noteq> minus1_64" and e: "page = p" "bits = 12" "s' = nt_placed (trackPolicyAlloc (nt_four_kb_page s2)) ?v target"
    let ?t = "trackPolicyAlloc (nt_four_kb_page s2)"
    have s1: "s1 = ?s" using check2MB_ok [OF b c] by simp
    note P = nt_buddy_allocate_ok [OF b p(1) [unfolded s1]]
    have "allocated_on s ?t target sz a page bits" unfolding e(1,2) using buddy_allocated [OF b p(1) [unfolded s1] p(2)] by (intro ao) (simp add: allocated_on_cong [of ?t s2])
    moreover have "nt_base ?t" "same_rest s ?t" using P sr nt_cong(1) [of ?t s2] by simp_all
    ultimately show ?thesis using sel [OF t] e(3) by blast
  next
    fix target pr s1 s2 ok s3
    assume t: "selectAllocationNode (nt_engine ?s) ?v (cpu_node ?s core) = Inr target" and c: "checkFor2MBAllocationOnNode ?s a target = Inr ((minus1_64, pr), s1)"
      and p: "nt_buddy_allocate s1 target sz = Inr (minus1_64, s2)" and d: "demote_page_on_node pick s2 target = Inr (ok, s3)"
      and k: "if ok then nt_demoted s' = nt_demoted s3 else spill (filter (\<lambda>n. n \<noteq> target) [0..<nt_nodes ?s]) s3 sz a = Inr ((page, bits), s')"
    have s1: "s1 = ?s" using check2MB_ok [OF b c] by simp
    have s2: "s2 = ?s" using nt_buddy_allocate_ok [OF b p [unfolded s1]] by simp
    have no: "\<not> can_serve (nt_buddy s) target sz" using nt_buddy_allocate_fails [OF b _ sz p [unfolded s1]] sel [OF t] by simp
    have nd: "\<not> ok" using demote_demoted [OF d] k dem add64_1_neq [of "nt_demoted s", symmetric] s2 by (cases ok) auto
    then have sp: "spill (filter (\<lambda>n. n \<noteq> target) [0..<nt_nodes s]) ?s sz a = Inr ((page, bits), s')" using k demote_demoted [OF d] s2 by simp
    from spill_ok [OF b sp] obtain n u where n: "n \<in> set (filter (\<lambda>n. n \<noteq> target) [0..<nt_nodes s])" "s' = nt_placed u ?v n" "nt_base u" "same_rest ?s u" "allocated_on ?s u n sz a page bits"
      by blast
    then have "n < nt_nodes s" by simp
    then show ?thesis using sel [OF t] n sr [OF n(4)] ao [OF n(5)] no by blast
  qed
qed

lemma placed_engine:
  assumes "engine_ok s"
  shows "engine_ok (nt_placed s v n)"
  using assms by (simp add: engine_ok_def nt_placed_def recordAllocation_def setNodeHint_def Let_def)

lemma placed_inv: "nt_inv s \<Longrightarrow> nt_inv (nt_placed s v n)"
  using placed_engine [of s v n] nt_cong(1) [of "nt_placed s v n" s] by (simp add: nt_inv_def kernel_ok_def Let_def nt_placed_def)

lemma placed_hint:
  assumes "engine_ok s" "covers (ne_hints (nt_engine s)) v"
  shows "getHint (ne_hints (nt_engine (nt_placed s v n))) v = of_nat n AND mask (hn_bits (ne_hints (nt_engine s)))"
  using hint_roundtrip_ok [OF _ assms(2,2), of "of_nat n"] assms(1)
  by (simp add: engine_ok_def nt_placed_def recordAllocation_def setNodeHint_def Let_def)

section \<open>Page tables\<close>

lemma cpu_node_less: "0 < nt_nodes s \<Longrightarrow> cpu_node s core < nt_nodes s"
  by (auto simp: cpu_node_def Let_def)

lemma kernel_nextD:
  assumes "nt_inv s" "i < nt_nodes s"
  shows "nb_base (nu_nodes (nt_buddy s) ! i) \<le> nt_kernel_next s ! i" "nt_kernel_next s ! i \<le> nt_kernel_end s ! i + 1"
    "nt_kernel_end s ! i = nb_base (nu_nodes (nt_buddy s) ! i) + nb_kernel_pages (nu_nodes (nt_buddy s) ! i)" "nt_kernel_end s ! i < 2 ^ 63"
proof -
  have k: "nb_base (nu_nodes (nt_buddy s) ! i) \<le> nt_kernel_next s ! i \<and> nt_kernel_next s ! i \<le> nb_base (nu_nodes (nt_buddy s) ! i) + nb_kernel_pages (nu_nodes (nt_buddy s) ! i) + 1 \<and>
      nt_kernel_end s ! i = nb_base (nu_nodes (nt_buddy s) ! i) + nb_kernel_pages (nu_nodes (nt_buddy s) ! i) \<and> nb_kernel_pages (nu_nodes (nt_buddy s) ! i) \<le> nb_num_pages (nu_nodes (nt_buddy s) ! i)"
    using assms by (simp add: nt_inv_def kernel_ok_def Let_def)
  moreover have "nb_base (nu_nodes (nt_buddy s) ! i) + nb_num_pages (nu_nodes (nt_buddy s) ! i) < 2 ^ 63"
    using nu_invD(1) [OF nt_baseD(1), of s i] assms by (simp add: nt_inv_def node_ok_def)
  ultimately show "nb_base (nu_nodes (nt_buddy s) ! i) \<le> nt_kernel_next s ! i" "nt_kernel_next s ! i \<le> nt_kernel_end s ! i + 1"
    "nt_kernel_end s ! i = nb_base (nu_nodes (nt_buddy s) ! i) + nb_kernel_pages (nu_nodes (nt_buddy s) ! i)" "nt_kernel_end s ! i < 2 ^ 63" by linarith+
qed

text \<open>A kernel allocation on node \<open>n\<close>: the run starts at the old bump pointer and ends at the new one, within the kernel region.\<close>

definition kernel_granted :: "numa_thp \<Rightarrow> numa_thp \<Rightarrow> nat \<Rightarrow> nat \<Rightarrow> u64 \<Rightarrow> bool" where
  "kernel_granted s s' n pages pfn \<longleftrightarrow> n < nt_nodes s \<and> pfn = nt_kernel_next s ! n \<and> nt_kernel_next s' = (nt_kernel_next s)[n := pfn + pages] \<and>
     nb_base (nu_nodes (nt_buddy s) ! n) \<le> pfn \<and> pfn + pages \<le> nb_base (nu_nodes (nt_buddy s) ! n) + nb_kernel_pages (nu_nodes (nt_buddy s) ! n) \<and>
     nt_buddy s' = nt_buddy s \<and> nt_maps s' = nt_maps s \<and> nt_inv s'"

lemma bump_kernel_ok:
  assumes inv: "nt_inv s" and n: "n < nt_nodes s" and pages: "pages \<le> 2 ^ 52" and room: "kernel_room s pages n"
    and s': "nt_kernel_next s' = nt_kernel_next (snd (bump_kernel s pages n))" "nt_kernel_end s' = nt_kernel_end s" "nt_buddy s' = nt_buddy s" "nt_maps s' = nt_maps s" "nt_engine s' = nt_engine s"
  shows "kernel_granted s s' n pages (fst (bump_kernel s pages n))"
proof -
  note k = kernel_nextD [OF inv n]
  have "nt_kernel_next s ! n + pages < 2 ^ 64" using k(2,4) pages by simp
  then have ad: "add64 (nt_kernel_next s ! n) pages = nt_kernel_next s ! n + pages" by (rule add64_exact)
  have le: "nt_kernel_next s ! n + pages \<le> nt_kernel_end s ! n" using room ad by (simp add: kernel_room_def)
  have nx: "nt_kernel_next s' = (nt_kernel_next s)[n := nt_kernel_next s ! n + pages]" using s'(1) ad by (simp add: bump_kernel_def)
  have len: "length (nt_kernel_next s) = nt_nodes s" using inv by (simp add: nt_inv_def kernel_ok_def)
  have "kernel_ok s'"
    using inv n k le unfolding nt_inv_def kernel_ok_def Let_def s'(2,3) nx
    by (auto simp: nth_list_update)
  moreover have "nt_base s'" "engine_ok s'" using inv nt_cong(1) [OF s'(4,3)] by (simp_all add: nt_inv_def engine_ok_def s')
  ultimately show ?thesis using n nx k le s'(3,4) by (simp add: kernel_granted_def nt_inv_def bump_kernel_def)
qed

lemma page_table_ok:
  fixes core bytes :: u64
  assumes inv: "nt_inv s" and bytes: "bytes + 4095 < 2 ^ 64"
  defines "pages \<equiv> (bytes + 4095) div 4096" and "target \<equiv> cpu_node s core"
  shows "case nt_handle_page_table_allocations s bytes core of
      Inr (pfn, s') \<Rightarrow> \<exists>n. kernel_granted s s' n pages pfn \<and> (n = target \<or> \<not> kernel_room s pages target)
    | Inl e \<Rightarrow> e = Assertion_Failed \<and> (\<forall>n < nt_nodes s. \<not> kernel_room s pages n)"
proof -
  have pg: "add64 bytes 4095 div 4096 = pages" using bytes by (simp add: pages_def add64_exact)
  have pl: "pages \<le> 2 ^ 52" using bytes by (simp add: pages_def)
  have t: "target < nt_nodes s" using cpu_node_less inv by (simp add: target_def nt_inv_def engine_ok_def)
  note h = nt_handle_page_table_allocations_def [of s bytes core, unfolded Let_def pg target_def [symmetric]]
  show ?thesis
  proof (cases "kernel_room s pages target")
    case True
    have "kernel_granted s (snd (bump_kernel s pages target)\<lparr>nt_kernel_used := add64 (nt_kernel_used s) pages\<rparr>) target pages (fst (bump_kernel s pages target))"
      by (rule bump_kernel_ok [OF inv t pl True]) (simp_all add: bump_kernel_def)
    then show ?thesis using True by (auto simp: h split_beta)
  next
    case False
    show ?thesis
    proof (cases "find (\<lambda>n. n \<noteq> target \<and> kernel_room s pages n) [0..<nt_nodes s]")
      case None
      then have "\<not> kernel_room s pages n" if "n < nt_nodes s" for n using False that by (cases "n = target") (auto simp: find_None_iff)
      then show ?thesis using False None by (simp add: h)
    next
      case (Some n)
      then have n: "n < nt_nodes s" "kernel_room s pages n" by (auto simp: find_Some_iff)
      have "kernel_granted s (nt_spilled (snd (bump_kernel s pages n)) n) n pages (fst (bump_kernel s pages n))"
        by (rule bump_kernel_ok [OF inv n(1) pl n(2)]) (simp_all add: bump_kernel_def nt_spilled_def)
      then show ?thesis using False Some by (auto simp: h split_beta)
    qed
  qed
qed

section \<open>The other operations\<close>

lemma try_nodes_cases:
  assumes inv: "nu_inv nu" and t: "try_nodes is nu bytes = Inr ((p, out), nu')"
  shows "layout nu' = layout nu \<and> nu_max_order nu' = nu_max_order nu \<and>
    (if p = minus1_64 then nu' = nu else \<exists>i. granted nu i [p..<p + 2 ^ ceil_log2 (bytes div 4096)] nu')"
  using t
proof (induction "is")
  case (Cons i "is")
  obtain q nu1 where q: "nu_allocate nu i bytes = Inr (q, nu1)" using Cons.prems by (cases "nu_allocate nu i bytes") auto
  note c = nu_allocate_cases [OF inv q] and l = nu_allocate_layout [OF q]
  show ?case
  proof (cases "q = minus1_64")
    case True
    then show ?thesis using c Cons q by simp
  next
    case False
    then have "p = q" "nu' = nu1" using Cons.prems q by auto
    then show ?thesis using c l False by auto
  qed
qed simp

text \<open>Replacing the buddies after a grant, or after a fragmentation.\<close>

lemma nt_base_buddy:
  assumes b: "nt_base s" and nu: "nu_inv nu" "layout nu = layout (nt_buddy s)" "nu_pages nu + G = nu_pages (nt_buddy s)"
  shows "nt_base (s\<lparr>nt_buddy := nu\<rparr>)" "nt_pages (s\<lparr>nt_buddy := nu\<rparr>) + G = nt_pages s"
proof -
  show p: "nt_pages (s\<lparr>nt_buddy := nu\<rparr>) + G = nt_pages s" unfolding nt_pages_def nu(3) [symmetric] by (simp add: ac_simps)
  have "count (nt_pages (s\<lparr>nt_buddy := nu\<rparr>)) x \<le> 1" for x using nt_baseD(4) [OF b, of x] unfolding p [symmetric] by simp
  then show "nt_base (s\<lparr>nt_buddy := nu\<rparr>)"
    using nt_baseD(2,3) [OF b] nu(1) layout_nth(1) [OF nu(2)] map_on_layout [OF nu(2)] unfolding nt_base_def by simp
qed

lemma nt_givePageFast_ok:
  assumes inv: "nt_inv s" and f: "nt_givePageFast s bytes = Inr (p, s')"
  shows "nt_inv s' \<and> nt_maps s' = nt_maps s \<and> layout (nt_buddy s') = layout (nt_buddy s)
    \<and> (if p = minus1_64 then s' = s else nt_pages s' + mset [p..<p + 2 ^ ceil_log2 (bytes div 4096)] = nt_pages s)"
proof -
  have b: "nt_base s" using inv by (simp add: nt_inv_def)
  obtain q s1 where q: "nt_buddy_allocate s 0 bytes = Inr (q, s1)" using f by (cases "nt_buddy_allocate s 0 bytes") (auto simp: nt_givePageFast_def)
  note Q = nt_buddy_allocate_ok [OF b q]
  show ?thesis
  proof (cases "q = minus1_64")
    case False
    then have "p = q" "s' = s1" using f q by (simp_all add: nt_givePageFast_def)
    then show ?thesis using Q False same_rest_inv [OF inv, of s1] by (simp add: same_rest_def)
  next
    case True
    then have s1: "s1 = s" using Q by simp
    obtain out nu where t: "try_nodes [0..<nt_nodes s] (nt_buddy s) bytes = Inr ((p, out), nu)" "s' = s\<lparr>nt_buddy := nu\<rparr>"
      using f q True s1 by (cases "nu_allocateAny (nt_buddy s) bytes") (auto simp: nt_givePageFast_def nu_allocateAny_def)
    note T = try_nodes_cases [OF nt_baseD(1) [OF b] t(1)]
    show ?thesis
    proof (cases "p = minus1_64")
      case True
      then show ?thesis using T t(2) inv by simp
    next
      case False
      let ?ps = "[p..<p + 2 ^ ceil_log2 (bytes div 4096)]"
      have nu: "nu_inv nu" "layout nu = layout (nt_buddy s)" "nu_pages nu + mset ?ps = nu_pages (nt_buddy s)" using T False by (auto simp: granted_def)
      note B = nt_base_buddy [OF b nu]
      have "same_rest s s'" using T t(2) by (simp add: same_rest_def)
      then have "nt_inv s'" by (rule same_rest_inv [OF inv]) (simp add: t(2) B(1))
      then show ?thesis using B(2) False nu(2) t(2) by simp
    qed
  qed
qed

lemma fragment_nodes_ok:
  assumes "nu_inv nu"
  shows "\<exists>nu'. fragment_nodes is t nu = Inr nu' \<and> nu_inv nu' \<and> nu_pages nu' = nu_pages nu \<and> layout nu' = layout nu \<and> nu_max_order nu' = nu_max_order nu"
  using assms
proof (induction "is" arbitrary: nu)
  case (Cons i "is")
  obtain nu1 where n: "nu_fragmentToCount nu i t = Inr nu1" "nu_inv nu1" "nu_pages nu1 = nu_pages nu" using nu_fragment_ok [OF Cons.prems, of i t] by blast
  from Cons.IH [OF n(2)] n nu_fragment_layout [OF n(1)] show ?case by auto
qed simp

lemma nt_fragment_ok:
  assumes inv: "nt_inv s"
  shows "\<exists>s'. nt_fragment_memory_to_count s t = Inr s' \<and> nt_inv s' \<and> nt_pages s' = nt_pages s \<and> nt_maps s' = nt_maps s"
proof -
  have b: "nt_base s" using inv by (simp add: nt_inv_def)
  obtain nu where nu: "fragment_nodes [0..<nt_nodes s] (t div nt_nodes s) (nt_buddy s) = Inr nu" "nu_inv nu" "nu_pages nu = nu_pages (nt_buddy s)" "layout nu = layout (nt_buddy s)"
    "nu_max_order nu = nu_max_order (nt_buddy s)"
    using fragment_nodes_ok [OF nt_baseD(1) [OF b]] by blast
  have e: "nu_pages nu + {#} = nu_pages (nt_buddy s)" using nu(3) by simp
  note B = nt_base_buddy [OF b nu(2,4) e]
  have "same_rest s (s\<lparr>nt_buddy := nu\<rparr>)" using nu(4,5) by (simp add: same_rest_def)
  from same_rest_inv [OF inv this B(1)] B(2) nu(1) show ?thesis by (simp add: nt_fragment_memory_to_count_def)
qed

lemma nt_deallocate_inv: "nt_inv s \<Longrightarrow> nt_inv (nt_deallocate s pfn)"
  using nt_cong(1) [of "nt_deallocate s pfn" s] by (simp add: nt_inv_def nt_deallocate_def engine_ok_def kernel_ok_def recordDeallocation_def Let_def)

section \<open>Construction\<close>

lemma configure_nodes_keeps:
  "ne_num_nodes (configure_nodes nu is cap ker e) = ne_num_nodes e \<and> length (ne_nodes (configure_nodes nu is cap ker e)) = length (ne_nodes e) \<and> ne_hints (configure_nodes nu is cap ker e) = ne_hints e"
  by (induction "is" arbitrary: e) (simp_all add: configureNode_def)

lemma numa_thp_new_ok:
  assumes new: "numa_thp_new n policy ut cap ker mo thr cores = Inr s" and ok: "sizes_ok 0 (zip (take n cap) (take n ker))"
  shows "nt_inv s \<and> nt_pages s = usable_pages 0 (zip (take n cap) (take n ker)) \<and> nt_nodes s = n"
proof -
  obtain nu where nu: "numa_buddy_new n cap ker mo 0 = Inr nu" and s: "nt_buddy s = nu" "nt_maps s = replicate n []"
    "nt_engine s = configure_nodes nu [0..<n] cap ker (engine_init n policy 1 ut 3)"
    "nt_kernel_next s = map (\<lambda>i. if i = 0 then add64 (getNodeBasePFN nu i) 1 else getNodeBasePFN nu i) [0..<n]"
    "nt_kernel_end s = map (\<lambda>i. add64 (getNodeBasePFN nu i) (getNodeKernelPages nu i)) [0..<n]"
    using new by (cases "numa_buddy_new n cap ker mo 0") (auto simp: numa_thp_new_def)
  have ok0: "sizes_ok (0 * 256) (zip (take n cap) (take n ker))" using ok by simp
  have z: "(0::nat) < 2 ^ 31" by simp
  note N = numa_buddy_new_ok [OF nu ok0 z]
  then have len: "length (nu_nodes nu) = n" and inv: "nu_inv nu" by auto
  have pos: "0 < n" using nu by (simp add: numa_buddy_new_def split: if_splits)
  have "map_pages (concat (replicate n [])) = {#}" by (induction n) simp_all
  then have pg: "nt_pages s = nu_pages nu" by (simp add: nt_pages_def s)
  have base: "nt_base s" unfolding nt_base_def pg using inv len nu_invD(4) [OF inv] by (simp add: s map_on_def)
  have eng: "engine_ok s" using configure_nodes_keeps [of nu "[0..<n]" cap ker "engine_init n policy 1 ut 3"] pos len
    by (simp add: engine_ok_def s engine_init_def hints_wf_init)
  have "kernel_ok s"
  proof -
    have "nb_base (nu_nodes nu ! i) \<le> nt_kernel_next s ! i \<and> nt_kernel_next s ! i \<le> nb_base (nu_nodes nu ! i) + nb_kernel_pages (nu_nodes nu ! i) + 1 \<and>
        nt_kernel_end s ! i = nb_base (nu_nodes nu ! i) + nb_kernel_pages (nu_nodes nu ! i) \<and> nb_kernel_pages (nu_nodes nu ! i) \<le> nb_num_pages (nu_nodes nu ! i)" if i: "i < n" for i
    proof -
      have k: "nb_kernel_pages (nu_nodes nu ! i) \<le> nb_num_pages (nu_nodes nu ! i)" using N i by auto
      moreover have "nb_base (nu_nodes nu ! i) + nb_num_pages (nu_nodes nu ! i) < 2 ^ 63" using nu_invD(1) [OF inv, of i] i len by (simp add: node_ok_def)
      ultimately have l: "nb_base (nu_nodes nu ! i) + nb_kernel_pages (nu_nodes nu ! i) < 2 ^ 64" "nb_base (nu_nodes nu ! i) + 1 < 2 ^ 64" by simp_all
      note a = add64_exact [OF l(1)] add64_exact [OF l(2)]
      have nx: "nt_kernel_next s ! i = (if i = 0 then add64 (nb_base (nu_nodes nu ! i)) 1 else nb_base (nu_nodes nu ! i))"
        and en: "nt_kernel_end s ! i = add64 (nb_base (nu_nodes nu ! i)) (nb_kernel_pages (nu_nodes nu ! i))"
        using i len by (simp_all add: s getNodeBasePFN_def getNodeKernelPages_def node_query_def)
      show ?thesis unfolding nx en a using k by simp
    qed
    then show ?thesis unfolding kernel_ok_def Let_def s(1) len by (simp add: s(4,5))
  qed
  then show ?thesis using base eng pg N len by (simp add: nt_inv_def s)
qed

section \<open>Reachable states\<close>

text \<open>
  The states reached from a new allocator by allocations that demote nothing, page-table allocations,
  direct requests, deallocations and fragmentation, in any order.
\<close>

inductive nt_reach :: "((u64 \<times> nat) list \<Rightarrow> u64 \<times> nat) \<Rightarrow> numa_thp \<Rightarrow> numa_thp \<Rightarrow> bool" for pick s0 where
  start: "nt_reach pick s0 s0"
| data: "nt_reach pick s0 s \<Longrightarrow> 4096 \<le> sz \<Longrightarrow> nt_allocate pick s sz a core = Inr (r, s') \<Longrightarrow> nt_demoted s' = nt_demoted s \<Longrightarrow> nt_reach pick s0 s'"
| table: "nt_reach pick s0 s \<Longrightarrow> bytes + 4095 < 2 ^ 64 \<Longrightarrow> nt_handle_page_table_allocations s bytes core = Inr (p, s') \<Longrightarrow> nt_reach pick s0 s'"
| fast: "nt_reach pick s0 s \<Longrightarrow> nt_givePageFast s bytes = Inr (p, s') \<Longrightarrow> nt_reach pick s0 s'"
| dealloc: "nt_reach pick s0 s \<Longrightarrow> nt_reach pick s0 (nt_deallocate s p)"
| fragment: "nt_reach pick s0 s \<Longrightarrow> nt_fragment_memory_to_count s t = Inr s' \<Longrightarrow> nt_reach pick s0 s'"

lemma nt_reach_inv: "nt_reach pick s0 s \<Longrightarrow> nt_inv s0 \<Longrightarrow> nt_inv s"
proof (induction rule: nt_reach.induct)
  case (data s sz a core r s')
  obtain page bits where r: "r = (page, bits)" by fastforce
  obtain n t where "s' = nt_placed t (a div 2 ^ 12) n" "nt_base t" "same_rest s t"
    using nt_allocate_ok [OF data.IH [OF data.prems] data.hyps(2) data.hyps(3) [unfolded r] data.hyps(4)] by blast
  then show ?case using placed_inv [OF same_rest_inv [OF data.IH [OF data.prems]]] by simp
next
  case (table s bytes core p s')
  then show ?case using page_table_ok [OF table.IH [OF table.prems] table.hyps(2), of core] by (auto simp: kernel_granted_def)
next
  case (fast s bytes p s')
  then show ?case using nt_givePageFast_ok by blast
next
  case (fragment s t s')
  then show ?case using nt_fragment_ok [of s t] by auto
qed (auto intro: nt_deallocate_inv)

lemma data_page_not_kernel:
  assumes "nu_inv nu" "data_page nu i p" "j < length (nu_nodes nu)" "nb_kernel_pages (nu_nodes nu ! j) \<le> nb_num_pages (nu_nodes nu ! j)"
  shows "\<not> (nb_base (nu_nodes nu ! j) \<le> p \<and> p < nb_base (nu_nodes nu ! j) + nb_kernel_pages (nu_nodes nu ! j))"
proof
  assume k: "nb_base (nu_nodes nu ! j) \<le> p \<and> p < nb_base (nu_nodes nu ! j) + nb_kernel_pages (nu_nodes nu ! j)"
  then have "nu_getNodeForPFN nu p = j" using node_for_page [OF assms(1,3), of p] assms(4) by linarith
  then have "i = j" using data_page_node [OF assms(1,2)] by simp
  then show False using assms(2) k by (simp add: data_page_def)
qed

section \<open>A small instance\<close>

text \<open>Two nodes of four megabytes, half of each for the kernel. The second page of the address space goes to the second node.\<close>

lemma small_node_reserve: "\<exists>bd. reserve_2mb_page (buddy_new 4 9 2) = Inr (mk_block 512 1023, bd)"
  using thp_fresh_reserve by (simp add: thp_fresh_def reserve_thp_new_def)

lemma small_instance:
  obtains s where "numa_thp_new 2 MPOL_INTERLEAVE (9 / 10) [4, 4] [2, 2] 9 (1 / 2) 2 = Inr s" "sizes_ok 0 (zip (take 2 [4, 4]) (take 2 [2, 2]))" "nt_inv s"
    "nt_threshold s = 1 / 2" "nt_maps s = [[], []]" "nb_base (nu_nodes (nt_buddy s) ! 1) = 1024" "nb_buddy (nu_nodes (nt_buddy s) ! 1) = buddy_new 4 9 2"
    "nt_nodes s = 2" "selectAllocationNode (nt_engine s) 1 0 = Inr 1" "nt_kernel_next s ! 0 = 1" "nt_kernel_end s ! 0 = 512"
proof -
  define nu where "nu = \<lparr>nu_max_order = 9, nu_nodes = build_nodes 0 9 [(4, 2), (4, 2)] 0\<rparr>"
  have sz: "sizes_ok 0 (zip (take 2 [4, 4]) (take 2 [2, 2]))" by (simp add: sizes_ok_def)
  have b: "numa_buddy_new 2 [4, 4] [2, 2] 9 0 = Inr nu" by (simp add: numa_buddy_new_def nu_def mul64_def del: build_nodes.simps)
  obtain s where s: "numa_thp_new 2 MPOL_INTERLEAVE (9 / 10) [4, 4] [2, 2] 9 (1 / 2) 2 = Inr s" "nt_buddy s = nu" "nt_threshold s = 1 / 2" "nt_maps s = replicate 2 []"
    "nt_engine s = configure_nodes nu [0..<2] [4, 4] [2, 2] (engine_init 2 MPOL_INTERLEAVE 1 (9 / 10) 3)"
    "nt_kernel_next s ! 0 = add64 (getNodeBasePFN nu 0) 1" "nt_kernel_end s ! 0 = add64 (getNodeBasePFN nu 0) (getNodeKernelPages nu 0)"
    unfolding numa_thp_new_def b by auto
  have m: "add64 0 (mul64 4 1024 div 4) = 1024" by (simp add: mul64_def add64_def)
  have node: "nb_base (nu_nodes nu ! 1) = 1024" "nb_buddy (nu_nodes nu ! 1) = buddy_new 4 9 2"
    unfolding nu_def build_nodes.simps Let_def m numa_buddy.select_convs One_nat_def nth_Cons_Suc nth_Cons_0 node_buddy.select_convs by (rule refl)+
  have node0: "getNodeBasePFN nu 0 = 0" "getNodeKernelPages nu 0 = mul64 2 1024 div 4"
    unfolding nu_def build_nodes.simps Let_def getNodeBasePFN_def getNodeKernelPages_def node_query_def by simp_all
  have k0: "nt_kernel_next s ! 0 = 1" "nt_kernel_end s ! 0 = 512" unfolding s(6,7) node0 by (simp_all add: add64_def mul64_def)
  have pol: "ne_policy (configure_nodes nu is cap ker e) = ne_policy e \<and> ne_num_nodes (configure_nodes nu is cap ker e) = ne_num_nodes e" for "is" cap ker e
    by (induction "is" arbitrary: e) (simp_all add: configureNode_def)
  have sel: "selectAllocationNode (nt_engine s) 1 0 = Inr 1"
    using pol [of "[0..<2]" "[4, 4]" "[2, 2]" "engine_init 2 MPOL_INTERLEAVE 1 (9 / 10) 3"] unfolding s(5)
    by (simp add: selectAllocationNode_def engine_init_def del: configure_nodes.simps upt_rec_numeral)
  have "nt_inv s" "nt_nodes s = 2" using numa_thp_new_ok [OF s(1) sz] by blast+
  moreover have "nt_maps s = [[], []]" unfolding s(4) by (simp add: numeral_2_eq_2)
  ultimately show thesis using that [OF s(1) sz _ s(3)] node sel k0 unfolding s(2) by blast
qed

lemma small_step:
  assumes inv: "nt_inv s" and thr: "nt_threshold s = 1 / 2" "nt_maps s = [[], []]" and node: "nb_base (nu_nodes (nt_buddy s) ! 1) = 1024" "nb_buddy (nu_nodes (nt_buddy s) ! 1) = buddy_new 4 9 2"
    and n: "nt_nodes s = 2" and sel: "selectAllocationNode (nt_engine s) 1 0 = Inr 1"
  shows "\<exists>s'. nt_allocate pick s 4096 4096 0 = Inr ((1537, 12), s') \<and> nt_demoted s' = nt_demoted s \<and> nt_frame s' 1 4096 = Some 1537"
proof -
  define s1 where "s1 = s\<lparr>nt_total := add64 (nt_total s) 1\<rparr>"
  obtain bd where bd: "reserve_2mb_page (buddy_new 4 9 2) = Inr (mk_block 512 1023, bd)" using small_node_reserve by blast
  have nums: "512 \<noteq> minus1_64" "1536 \<noteq> minus1_64" "1537 \<noteq> minus1_64" "add64 512 1024 = 1536" "add64 1536 1 = 1537" by (simp_all add: minus1_64_def add64_def)
  obtain e u c where rv: "nu_reserve2MBPage (nt_buddy s1) 1 = Inr ((1536, e, u, c), put_node (nt_buddy s1) 1 bd)"
    using bd node n nums by (simp add: nu_reserve2MBPage_def s1_def mk_block_def)
  let ?r = "\<lparr>region_begin = 1536, region_bits = {}, region_promoted = False\<rparr>"
  have res: "\<exists>s2. nt_reserve s1 0 1 = Inr (True, s2) \<and> nt_maps s2 = [[], [(0, ?r)]] \<and> nt_threshold s2 = 1 / 2"
    unfolding nt_reserve_def rv using nums thr by (simp add: s1_def)
  then obtain s2 where s2: "nt_reserve s1 0 1 = Inr (True, s2)" "nt_maps s2 = [[], [(0, ?r)]]" "nt_threshold s2 = 1 / 2" by blast
  obtain s3 where s3: "nt_use s2 0 1 ?r 1 = Inr ((1537, False), s3)" using s2(3) nums by (simp add: nt_use_def Let_def utilization_def)
  have c: "checkFor2MBAllocationOnNode s1 4096 1 = Inr ((1537, False), s3)"
    using s2 s3 n thr(2) by (simp add: checkFor2MBAllocationOnNode_def Let_def s1_def)
  have b1: "nt_base s1" using inv nt_cong(1) [of s1 s] by (simp add: nt_inv_def s1_def)
  have f: "nt_frame s3 1 4096 = Some 1537" using check2MB_ok [OF b1 c] nums(3) by (simp add: region_granted_def)
  have cpu: "cpu_node s1 0 = 0" by (simp add: cpu_node_def Let_def s1_def)
  have eng: "nt_engine s1 = nt_engine s" by (simp add: s1_def)
  have al: "nt_allocate pick s 4096 4096 0 = Inr ((1537, 12), nt_placed (trackPolicyAlloc s3) 1 1)"
    unfolding nt_allocate_def s1_def [symmetric] Let_def using cpu eng sel c nums(3) by simp
  have "nt_demoted s3 = nt_demoted s" using check2MB_demoted [OF c] by (simp add: s1_def)
  moreover have "nt_frame (nt_placed (trackPolicyAlloc s3) 1 1) = nt_frame s3" by (rule nt_cong(3)) simp_all
  ultimately show ?thesis using al f by (intro exI [of _ "nt_placed (trackPolicyAlloc s3) 1 1"]) simp
qed

section \<open>Properties\<close>





text \<open>
  C16: a page-table allocation takes the next pages of the kernel region of the node of the core when they fit, of another node
  otherwise; it moves only this node's bump pointer, by as many pages as the request needs. It fails only when no
  kernel region has room.
\<close>

theorem numa_page_table_allocation:
  assumes "nt_inv s" "bytes + 4095 < 2 ^ 64"
  shows "case nt_handle_page_table_allocations s bytes core of
      Inr (pfn, s') \<Rightarrow> \<exists>n. kernel_granted s s' n ((bytes + 4095) div 4096) pfn \<and> (n = cpu_node s core \<or> \<not> kernel_room s ((bytes + 4095) div 4096) (cpu_node s core))
    | Inl e \<Rightarrow> e = Assertion_Failed \<and> (\<forall>n < nt_nodes s. \<not> kernel_room s ((bytes + 4095) div 4096) n)"
  by (rule page_table_ok [OF assms])

theorem numa_page_table_allocation_witness:
  "\<exists>s s' n. nt_handle_page_table_allocations s 4096 0 = Inr (1, s') \<and> kernel_granted s s' n 1 1 \<and> n = cpu_node s 0"
proof (rule small_instance)
  fix s assume inv: "nt_inv s" and k: "nt_kernel_next s ! 0 = 1" "nt_kernel_end s ! 0 = 512"
  have b: "(4096::nat) + 4095 < 2 ^ 64" and e: "((4096::nat) + 4095) div 4096 = 1" by simp_all
  have c: "cpu_node s 0 = 0" by (simp add: cpu_node_def Let_def)
  have r0: "kernel_room s 1 0" using k by (simp add: kernel_room_def add64_def)
  then have r: "kernel_room s 1 (cpu_node s 0)" unfolding c .
  have pg: "add64 4096 4095 div 4096 = 1" by (simp add: add64_def)
  obtain s' where h: "nt_handle_page_table_allocations s 4096 0 = Inr (1, s')"
    unfolding nt_handle_page_table_allocations_def pg Let_def c if_P [OF r0] bump_kernel_def k(1) by simp
  from numa_page_table_allocation [OF inv b, of 0] r show ?thesis unfolding e h by (simp only: sum.case prod.case) (use h in blast)
qed

section \<open>Interleaving splits huge pages\<close>

text \<open>
  The policy is asked with the number of the 4KB page. Under interleaving two neighbouring pages of one 2MB region are
  directed to different nodes as soon as there are two, and each of the nodes reserves 2MB for the region.
\<close>

lemma interleave_splits_region:
  assumes "ne_policy e = MPOL_INTERLEAVE" "1 < ne_num_nodes e" "selectAllocationNode e v c = Inr m" "selectAllocationNode e (v + 1) c' = Inr n"
  shows "m \<noteq> n"
  using assms by (auto simp: selectAllocationNode_def mod_Suc split: if_splits)

text \<open>As in the allocator without NUMA, a page of a promoted region that faults again runs into an assertion.\<close>

lemma numa_promoted_region_asserts:
  assumes "i < nt_nodes s" "map_of (nt_maps s ! i) (a div 2 ^ 21) = Some r" "region_promoted r"
  shows "checkFor2MBAllocationOnNode s a i = Inl Assertion_Failed"
  using assms by (simp add: checkFor2MBAllocationOnNode_def nt_use_def)

end
