(* ===== verification/CXL_Tier.thy ===== *)
theory CXL_Tier
  imports Prelude Complex_Main
begin

text \<open>
  The manager of the memory tiers (\<open>cxl_memory_tier_manager.cc\<close>): every page is either in the local
  memory or in memory attached by CXL, as one of six policies decides when the page is touched
  first; under the policy for hot and cold pages a periodic check moves pages between
  the tiers. The theory shows that the bytes accounted to a tier are those of its pages,
  that the local memory is not overcommitted, and what a check for migration achieves.
\<close>

section \<open>State\<close>

datatype tier = LOCAL_DRAM | CXL_NEAR | CXL_FAR | CXL_POOLED

datatype placement_policy = ADDRESS_RANGE | FIRST_TOUCH | HOT_COLD | INTERLEAVE_TIERS | ALL_LOCAL | ALL_CXL

record page_info =
  pi_tier :: tier
  pi_access_count :: u64
  pi_last_access :: nat
  pi_first_access :: nat
  pi_is_hot :: bool

definition page_info_new :: "tier \<Rightarrow> page_info" where
  "page_info_new t = \<lparr> pi_tier = t, pi_access_count = 0, pi_last_access = 0, pi_first_access = 0, pi_is_hot = False \<rparr>"

record tier_info =
  ti_capacity :: u64
  ti_used :: u64
  ti_accesses :: u64

record tier_mgr =
  tm_enabled :: bool
  tm_policy :: placement_policy
  tm_local_start :: u64
  tm_local_end :: u64
  tm_cxl_start :: u64
  tm_cxl_end :: u64
  tm_hot_threshold :: u64
  tm_cold_threshold :: u64
  tm_granularity :: nat
  tm_pages :: "u64 \<Rightarrow> page_info option"
  tm_tiers :: "tier \<Rightarrow> tier_info"
  tm_hot :: "u64 set"
  tm_cold :: "u64 set"
  tm_counter :: nat
  tm_current :: tier
  tm_promoted :: u64
  tm_demoted :: u64
  tm_failures :: u64

text \<open>The capacities are given in GB; two of the four tiers stay without capacity.\<close>

definition tier_mgr_new :: "bool \<Rightarrow> placement_policy \<Rightarrow> u64 \<Rightarrow> u64 \<Rightarrow> u64 \<Rightarrow> u64 \<Rightarrow> u64 \<Rightarrow> nat \<Rightarrow> tier_mgr" where
  "tier_mgr_new enabled policy local_gb cxl_gb cxl_start hot cold granularity =
     (let local_cap = mul64 local_gb (1024 * 1024 * 1024); cxl_cap = mul64 cxl_gb (1024 * 1024 * 1024);
          empty_tier = (\<lambda>c. \<lparr> ti_capacity = c, ti_used = 0, ti_accesses = 0 \<rparr>)
      in \<lparr> tm_enabled = enabled, tm_policy = policy, tm_local_start = 0, tm_local_end = cxl_start, tm_cxl_start = cxl_start, tm_cxl_end = add64 cxl_start cxl_cap,
           tm_hot_threshold = hot, tm_cold_threshold = cold, tm_granularity = granularity mod 2 ^ 32, tm_pages = (\<lambda>_. None),
           tm_tiers = (\<lambda>_. empty_tier 0)(LOCAL_DRAM := empty_tier local_cap, CXL_NEAR := empty_tier cxl_cap),
           tm_hot = {}, tm_cold = {}, tm_counter = 0, tm_current = LOCAL_DRAM, tm_promoted = 0, tm_demoted = 0, tm_failures = 0 \<rparr>)"

section \<open>The tier of an address\<close>

definition getPageNumber :: "u64 \<Rightarrow> u64" where
  "getPageNumber address = drop_bit 12 address"

definition use_bytes :: "tier \<Rightarrow> tier_mgr \<Rightarrow> tier_mgr" where
  "use_bytes t m = m\<lparr>tm_tiers := (tm_tiers m)(t := (tm_tiers m t)\<lparr>ti_used := add64 (ti_used (tm_tiers m t)) 4096\<rparr>)\<rparr>"

definition release_bytes :: "tier \<Rightarrow> tier_mgr \<Rightarrow> tier_mgr" where
  "release_bytes t m = m\<lparr>tm_tiers := (tm_tiers m)(t := (tm_tiers m t)\<lparr>ti_used := sub64 (ti_used (tm_tiers m t)) 4096\<rparr>)\<rparr>"

definition put_new_page :: "u64 \<Rightarrow> tier \<Rightarrow> tier_mgr \<Rightarrow> tier_mgr" where
  "put_new_page p t m = (let m1 = use_bytes t m in m1\<lparr>tm_pages := (tm_pages m1)(p \<mapsto> page_info_new t)\<rparr>)"

definition has_room :: "tier \<Rightarrow> tier_mgr \<Rightarrow> bool" where
  "has_room t m \<longleftrightarrow> add64 (ti_used (tm_tiers m t)) 4096 \<le> ti_capacity (tm_tiers m t)"

definition getTierAddressRange :: "tier_mgr \<Rightarrow> u64 \<Rightarrow> tier" where
  "getTierAddressRange m address = (if tm_cxl_start m \<le> address then CXL_NEAR else LOCAL_DRAM)"

definition getTierFirstTouch :: "tier_mgr \<Rightarrow> u64 \<Rightarrow> tier \<times> tier_mgr" where
  "getTierFirstTouch m p =
     (case tm_pages m p of
        Some i \<Rightarrow> (pi_tier i, m)
      | None \<Rightarrow>
          let t = (if has_room LOCAL_DRAM m then LOCAL_DRAM else if has_room CXL_NEAR m then CXL_NEAR else CXL_NEAR)
          in (t, put_new_page p t m))"

definition getTierHotCold :: "tier_mgr \<Rightarrow> u64 \<Rightarrow> tier \<times> tier_mgr" where
  "getTierHotCold m p =
     (case tm_pages m p of
        Some i \<Rightarrow> (pi_tier i, m)
      | None \<Rightarrow> let m1 = put_new_page p CXL_NEAR m in (CXL_NEAR, m1\<lparr>tm_cold := insert p (tm_cold m1)\<rparr>))"

definition getTierInterleave :: "tier_mgr \<Rightarrow> u64 \<Rightarrow> tier \<times> tier_mgr" where
  "getTierInterleave m p =
     (case tm_pages m p of
        Some i \<Rightarrow> (pi_tier i, m)
      | None \<Rightarrow>
          let t = tm_current m;
              c = (tm_counter m + 1) mod 2 ^ 32;
              m1 = (if tm_granularity m \<le> c
                    then m\<lparr>tm_counter := 0, tm_current := (if tm_current m = LOCAL_DRAM then CXL_NEAR else LOCAL_DRAM)\<rparr>
                    else m\<lparr>tm_counter := c\<rparr>)
          in (t, put_new_page p t m1))"

definition getTier :: "tier_mgr \<Rightarrow> u64 \<Rightarrow> tier \<times> tier_mgr" where
  "getTier m address =
     (if \<not> tm_enabled m then (LOCAL_DRAM, m)
      else case tm_policy m of
        ADDRESS_RANGE \<Rightarrow> (getTierAddressRange m address, m)
      | FIRST_TOUCH \<Rightarrow> getTierFirstTouch m (getPageNumber address)
      | HOT_COLD \<Rightarrow> getTierHotCold m (getPageNumber address)
      | INTERLEAVE_TIERS \<Rightarrow> getTierInterleave m (getPageNumber address)
      | ALL_LOCAL \<Rightarrow> (LOCAL_DRAM, m)
      | ALL_CXL \<Rightarrow> (CXL_NEAR, m))"

section \<open>Accesses and migration\<close>

definition recordAccess :: "tier_mgr \<Rightarrow> u64 \<Rightarrow> nat \<Rightarrow> tier_mgr" where
  "recordAccess m address time =
     (if \<not> tm_enabled m then m
      else let p = getPageNumber address in
           case tm_pages m p of
             None \<Rightarrow> m
           | Some i \<Rightarrow>
               let i1 = i\<lparr>pi_access_count := add64 (pi_access_count i) 1, pi_last_access := time,
                          pi_first_access := (if pi_first_access i = 0 then time else pi_first_access i)\<rparr>;
                   ti = tm_tiers m (pi_tier i1);
                   m1 = m\<lparr>tm_pages := (tm_pages m)(p \<mapsto> i1), tm_tiers := (tm_tiers m)(pi_tier i1 := ti\<lparr>ti_accesses := add64 (ti_accesses ti) 1\<rparr>)\<rparr>
               in if tm_policy m = HOT_COLD \<and> \<not> pi_is_hot i1 \<and> tm_hot_threshold m \<le> pi_access_count i1
                  then m1\<lparr>tm_pages := (tm_pages m1)(p \<mapsto> i1\<lparr>pi_is_hot := True\<rparr>), tm_cold := tm_cold m1 - {p}, tm_hot := insert p (tm_hot m1)\<rparr>
                  else m1)"

definition set_tier :: "u64 \<Rightarrow> page_info \<Rightarrow> tier \<Rightarrow> tier_mgr \<Rightarrow> tier_mgr" where
  "set_tier p i t m = m\<lparr>tm_pages := (tm_pages m)(p \<mapsto> i\<lparr>pi_tier := t\<rparr>)\<rparr>"

definition tryPromotePage :: "tier_mgr \<Rightarrow> u64 \<Rightarrow> bool \<times> tier_mgr" where
  "tryPromotePage m p =
     (case tm_pages m p of
        None \<Rightarrow> (False, m)
      | Some i \<Rightarrow>
          if pi_tier i = LOCAL_DRAM then (True, m)
          else if \<not> has_room LOCAL_DRAM m then (False, m\<lparr>tm_failures := add64 (tm_failures m) 1\<rparr>)
          else let m1 = set_tier p i LOCAL_DRAM (use_bytes LOCAL_DRAM (release_bytes (pi_tier i) m))
               in (True, m1\<lparr>tm_promoted := add64 (tm_promoted m1) 1\<rparr>))"

definition tryDemotePage :: "tier_mgr \<Rightarrow> u64 \<Rightarrow> bool \<times> tier_mgr" where
  "tryDemotePage m p =
     (case tm_pages m p of
        None \<Rightarrow> (False, m)
      | Some i \<Rightarrow>
          if pi_tier i \<noteq> LOCAL_DRAM then (True, m)
          else let m1 = set_tier p i CXL_NEAR (use_bytes CXL_NEAR (release_bytes LOCAL_DRAM m))
               in (True, m1\<lparr>tm_demoted := add64 (tm_demoted m1) 1\<rparr>))"

definition in_local :: "tier_mgr \<Rightarrow> u64 \<Rightarrow> bool" where
  "in_local m p \<longleftrightarrow> (case tm_pages m p of None \<Rightarrow> False | Some i \<Rightarrow> pi_tier i = LOCAL_DRAM)"

definition in_cxl :: "tier_mgr \<Rightarrow> u64 \<Rightarrow> bool" where
  "in_cxl m p \<longleftrightarrow> (case tm_pages m p of None \<Rightarrow> False | Some i \<Rightarrow> pi_tier i \<noteq> LOCAL_DRAM)"

fun promote_loop :: "u64 list \<Rightarrow> tier_mgr \<Rightarrow> tier_mgr" where
  "promote_loop [] m = m"
| "promote_loop (p # ps) m = promote_loop ps (snd (tryPromotePage m p))"

text \<open>The comparisons with fractions of the capacity are made in the rationals.\<close>

fun demote_loop :: "u64 list \<Rightarrow> tier_mgr \<Rightarrow> tier_mgr" where
  "demote_loop [] m = m"
| "demote_loop (p # ps) m =
     (if 10 * ti_used (tm_tiers m LOCAL_DRAM) \<le> 8 * ti_capacity (tm_tiers m LOCAL_DRAM) then m
      else demote_loop ps (snd (tryDemotePage m p)))"

text \<open>The parameter is the order in which the sets of pages are traversed.\<close>

definition checkMigration :: "(u64 set \<Rightarrow> u64 list) \<Rightarrow> tier_mgr \<Rightarrow> tier_mgr" where
  "checkMigration order m =
     (if \<not> tm_enabled m \<or> tm_policy m \<noteq> HOT_COLD then m
      else let m1 = promote_loop (filter (in_cxl m) (order (tm_hot m))) m in
           if 9 * ti_capacity (tm_tiers m1 LOCAL_DRAM) < 10 * ti_used (tm_tiers m1 LOCAL_DRAM)
           then demote_loop (filter (in_local m1) (order (tm_cold m1))) m1
           else m1)"

definition setAddressRanges :: "tier_mgr \<Rightarrow> u64 \<Rightarrow> u64 \<Rightarrow> u64 \<Rightarrow> u64 \<Rightarrow> tier_mgr" where
  "setAddressRanges m ls le cs ce = m\<lparr>tm_local_start := ls, tm_local_end := le, tm_cxl_start := cs, tm_cxl_end := ce\<rparr>"

definition getTierUtilization :: "tier_mgr \<Rightarrow> tier \<Rightarrow> rat" where
  "getTierUtilization m t =
     (if ti_capacity (tm_tiers m t) = 0 then 0 else of_nat (ti_used (tm_tiers m t)) / of_nat (ti_capacity (tm_tiers m t)))"

section \<open>The pages of a tier\<close>

definition pages_in :: "tier_mgr \<Rightarrow> tier \<Rightarrow> u64 set" where
  "pages_in m t = {p. \<exists>i. tm_pages m p = Some i \<and> pi_tier i = t}"

text \<open>Addresses have at most 63 bits, so that the bytes of all pages fit in 64.\<close>

definition accounted :: "tier_mgr \<Rightarrow> bool" where
  "accounted m \<longleftrightarrow> dom (tm_pages m) \<subseteq> {..<2 ^ 51} \<and> (\<forall>t. ti_used (tm_tiers m t) = 4096 * card (pages_in m t))"

lemma pages_in_dom: "pages_in m t \<subseteq> dom (tm_pages m)"
  by (auto simp: pages_in_def)

lemma accountedD:
  assumes "accounted m"
  shows "finite (pages_in m t)" "card (pages_in m t) \<le> 2 ^ 51" "ti_used (tm_tiers m t) = 4096 * card (pages_in m t)"
    "add64 (ti_used (tm_tiers m t)) 4096 = 4096 * (card (pages_in m t) + 1)"
proof -
  have s: "pages_in m t \<subseteq> {..<2 ^ 51}" using assms pages_in_dom [of m t] unfolding accounted_def by blast
  show "finite (pages_in m t)" by (rule finite_subset [OF s finite_lessThan])
  show c: "card (pages_in m t) \<le> 2 ^ 51" using card_mono [OF finite_lessThan s] unfolding card_lessThan .
  show u: "ti_used (tm_tiers m t) = 4096 * card (pages_in m t)" using assms by (simp add: accounted_def)
  show "add64 (ti_used (tm_tiers m t)) 4096 = 4096 * (card (pages_in m t) + 1)" unfolding u using c by (subst add64_exact) simp_all
qed

lemma put_new_page_pages:
  assumes "p \<notin> dom (tm_pages m)"
  shows "pages_in (put_new_page p t m) t' = (if t' = t then insert p (pages_in m t') else pages_in m t')"
  using assms by (auto simp: pages_in_def put_new_page_def use_bytes_def Let_def page_info_new_def)

lemma put_new_page_accounted:
  assumes a: "accounted m" and p: "p \<notin> dom (tm_pages m)" "p < 2 ^ 51"
  shows "accounted (put_new_page p t m)"
proof -
  have "p \<notin> pages_in m t" using p(1) pages_in_dom [of m t] by blast
  then have "card (insert p (pages_in m t)) = card (pages_in m t) + 1" using accountedD(1) [OF a] by simp
  moreover have "ti_used (tm_tiers (put_new_page p t m) t') = (if t' = t then add64 (ti_used (tm_tiers m t)) 4096 else ti_used (tm_tiers m t'))" for t'
    by (simp add: put_new_page_def use_bytes_def Let_def)
  moreover have "dom (tm_pages (put_new_page p t m)) \<subseteq> {..<2 ^ 51}" using a p(2) by (simp add: accounted_def put_new_page_def use_bytes_def Let_def)
  ultimately show ?thesis unfolding accounted_def put_new_page_pages [OF p(1)] using accountedD(3,4) [OF a] by (simp split: if_splits)
qed

lemma set_tier_pages:
  assumes "tm_pages m p = Some i" "pi_tier i \<noteq> t"
  shows "pages_in (set_tier p i t (use_bytes u (release_bytes v m))) t' =
    (if t' = t then insert p (pages_in m t') else if t' = pi_tier i then pages_in m t' - {p} else pages_in m t')"
  using assms by (auto simp: pages_in_def set_tier_def use_bytes_def release_bytes_def)

lemma move_accounted:
  assumes a: "accounted m" and p: "tm_pages m p = Some i" "pi_tier i \<noteq> t"
  shows "accounted (set_tier p i t (use_bytes t (release_bytes (pi_tier i) m)))"
proof -
  let ?m = "set_tier p i t (use_bytes t (release_bytes (pi_tier i) m))"
  have q: "p \<in> pages_in m (pi_tier i)" "p \<notin> pages_in m t" using p by (auto simp: pages_in_def)
  note f = accountedD(1) [OF a]
  have c: "card (insert p (pages_in m t)) = card (pages_in m t) + 1" "card (pages_in m (pi_tier i) - {p}) = card (pages_in m (pi_tier i)) - 1"
    using q f by simp_all
  have "0 < card (pages_in m (pi_tier i))" using q(1) f card_gt_0_iff by blast
  then have "sub64 (ti_used (tm_tiers m (pi_tier i))) 4096 = 4096 * (card (pages_in m (pi_tier i)) - 1)"
    using accountedD(2,3) [OF a, of "pi_tier i"] by (subst sub64_exact) (simp_all add: algebra_simps)
  moreover have "ti_used (tm_tiers ?m t') = (if t' = t then add64 (ti_used (tm_tiers m t)) 4096
      else if t' = pi_tier i then sub64 (ti_used (tm_tiers m (pi_tier i))) 4096 else ti_used (tm_tiers m t'))" for t'
    using p(2) by (simp add: set_tier_def use_bytes_def release_bytes_def)
  moreover have "dom (tm_pages ?m) = dom (tm_pages m)" using p(1) by (auto simp: set_tier_def use_bytes_def release_bytes_def)
  ultimately show ?thesis using a c accountedD(3,4) [OF a] unfolding accounted_def set_tier_pages [OF p] by (simp split: if_splits)
qed

section \<open>The invariant\<close>

definition bounded :: "tier_mgr \<Rightarrow> bool" where
  "bounded m \<longleftrightarrow> (tm_policy m = FIRST_TOUCH \<or> tm_policy m = HOT_COLD \<longrightarrow> ti_used (tm_tiers m LOCAL_DRAM) \<le> ti_capacity (tm_tiers m LOCAL_DRAM))"

text \<open>The sets of hot and cold pages follow the flags of the pages, and a cold page has never been moved.\<close>

definition hot_cold_ok :: "tier_mgr \<Rightarrow> bool" where
  "hot_cold_ok m \<longleftrightarrow> (tm_policy m = HOT_COLD \<longrightarrow>
     tm_hot m = {p. \<exists>i. tm_pages m p = Some i \<and> pi_is_hot i} \<and> tm_cold m = {p. \<exists>i. tm_pages m p = Some i \<and> \<not> pi_is_hot i} \<and>
     (\<forall>p i. tm_pages m p = Some i \<and> \<not> pi_is_hot i \<longrightarrow> pi_tier i \<noteq> LOCAL_DRAM))"

definition tm_inv :: "tier_mgr \<Rightarrow> bool" where
  "tm_inv m \<longleftrightarrow> accounted m \<and> bounded m \<and> hot_cold_ok m \<and> tm_demoted m = 0"

lemma tm_invD: "tm_inv m \<Longrightarrow> accounted m" "tm_inv m \<Longrightarrow> bounded m" "tm_inv m \<Longrightarrow> hot_cold_ok m" "tm_inv m \<Longrightarrow> tm_demoted m = 0"
  by (simp_all add: tm_inv_def)

lemma tm_inv_fields [simp]: "tm_inv (m\<lparr>tm_counter := a\<rparr>) = tm_inv m" "tm_inv (m\<lparr>tm_current := b\<rparr>) = tm_inv m" "tm_inv (m\<lparr>tm_counter := a, tm_current := b\<rparr>) = tm_inv m"
  "tm_inv (m\<lparr>tm_promoted := c\<rparr>) = tm_inv m" "tm_inv (m\<lparr>tm_failures := d\<rparr>) = tm_inv m"
  by (simp_all add: tm_inv_def accounted_def pages_in_def bounded_def hot_cold_ok_def)

lemma tm_inv_new: "tm_inv (tier_mgr_new enabled policy lg cg cs h c g)"
  by (simp add: tm_inv_def accounted_def bounded_def hot_cold_ok_def tier_mgr_new_def Let_def pages_in_def)

lemma put_new_page_sel [simp]:
  "tm_policy (put_new_page p t m) = tm_policy m" "tm_demoted (put_new_page p t m) = tm_demoted m" "tm_hot (put_new_page p t m) = tm_hot m" "tm_cold (put_new_page p t m) = tm_cold m"
  "tm_pages (put_new_page p t m) = (tm_pages m)(p \<mapsto> page_info_new t)" "tm_enabled (put_new_page p t m) = tm_enabled m"
  "ti_capacity (tm_tiers (put_new_page p t m) t') = ti_capacity (tm_tiers m t')"
  by (simp_all add: put_new_page_def use_bytes_def Let_def)

lemma put_new_page_bounded:
  assumes "bounded m" "t = LOCAL_DRAM \<Longrightarrow> has_room LOCAL_DRAM m \<or> tm_policy m \<noteq> FIRST_TOUCH \<and> tm_policy m \<noteq> HOT_COLD"
  shows "bounded (put_new_page p t m)"
  using assms by (auto simp: bounded_def has_room_def put_new_page_def use_bytes_def Let_def)

lemma first_touch_inv:
  assumes i: "tm_inv m" and pol: "tm_policy m = FIRST_TOUCH" and p: "p < 2 ^ 51"
  shows "tm_inv (snd (getTierFirstTouch m p))"
proof (cases "tm_pages m p")
  case None
  let ?t = "if has_room LOCAL_DRAM m then LOCAL_DRAM else if has_room CXL_NEAR m then CXL_NEAR else CXL_NEAR"
  have "accounted (put_new_page p ?t m)" by (rule put_new_page_accounted [OF tm_invD(1) [OF i] _ p]) (use None in auto)
  moreover have "bounded (put_new_page p ?t m)" by (rule put_new_page_bounded [OF tm_invD(2) [OF i]]) (auto split: if_splits)
  ultimately show ?thesis using i pol None by (simp add: getTierFirstTouch_def Let_def tm_inv_def hot_cold_ok_def)
qed (use i in \<open>simp add: getTierFirstTouch_def\<close>)

lemma hot_cold_touch_inv:
  assumes i: "tm_inv m" and pol: "tm_policy m = HOT_COLD" and p: "p < 2 ^ 51"
  shows "tm_inv (snd (getTierHotCold m p))"
proof (cases "tm_pages m p")
  case None
  let ?m1 = "put_new_page p CXL_NEAR m" let ?m = "?m1\<lparr>tm_cold := insert p (tm_cold ?m1)\<rparr>"
  have "accounted ?m1" by (rule put_new_page_accounted [OF tm_invD(1) [OF i] _ p]) (use None in auto)
  then have "accounted ?m" by (simp add: accounted_def pages_in_def)
  moreover have "bounded ?m1" by (rule put_new_page_bounded [OF tm_invD(2) [OF i]]) simp
  then have "bounded ?m" by (simp add: bounded_def)
  moreover have "hot_cold_ok ?m" using tm_invD(3) [OF i] pol None by (auto simp: hot_cold_ok_def page_info_new_def)
  ultimately show ?thesis using i None by (simp add: getTierHotCold_def Let_def tm_inv_def)
qed (use i in \<open>simp add: getTierHotCold_def\<close>)

lemma interleave_inv:
  assumes i: "tm_inv m" and pol: "tm_policy m = INTERLEAVE_TIERS" and p: "p < 2 ^ 51"
  shows "tm_inv (snd (getTierInterleave m p))"
proof (cases "tm_pages m p")
  case None
  have put: "tm_inv (put_new_page p t m1)" if "tm_inv m1" "tm_policy m1 = INTERLEAVE_TIERS" "tm_pages m1 = tm_pages m" for t m1
  proof -
    have "accounted (put_new_page p t m1)" by (rule put_new_page_accounted [OF tm_invD(1) [OF that(1)] _ p]) (use None that(3) in auto)
    moreover have "bounded (put_new_page p t m1)" using that(2) by (simp add: bounded_def)
    ultimately show ?thesis using that(1,2) by (simp add: tm_inv_def hot_cold_ok_def)
  qed
  show ?thesis using None pol i by (auto simp: getTierInterleave_def Let_def intro!: put)
qed (use i in \<open>simp add: getTierInterleave_def\<close>)

lemma page_number_less: "address < 2 ^ 63 \<Longrightarrow> getPageNumber address < 2 ^ 51"
  by (simp add: getPageNumber_def drop_bit_eq_div less_mult_imp_div_less)

lemma getTier_inv:
  assumes "tm_inv m" "address < 2 ^ 63"
  shows "tm_inv (snd (getTier m address))"
  using assms(1) first_touch_inv hot_cold_touch_inv interleave_inv page_number_less [OF assms(2)]
  by (auto simp: getTier_def split: placement_policy.splits)

lemma recordAccess_inv:
  assumes i: "tm_inv m"
  shows "tm_inv (recordAccess m address time)"
proof (cases "tm_enabled m")
  case en: True
  let ?p = "getPageNumber address"
  show ?thesis
  proof (cases "tm_pages m ?p")
    case (Some x)
    define m' where "m' = recordAccess m address time"
    define x1 where "x1 = x\<lparr>pi_access_count := add64 (pi_access_count x) 1, pi_last_access := time, pi_first_access := (if pi_first_access x = 0 then time else pi_first_access x)\<rparr>"
    define c where "c \<longleftrightarrow> tm_policy m = HOT_COLD \<and> \<not> pi_is_hot x1 \<and> tm_hot_threshold m \<le> pi_access_count x1"
    define y where "y = (if c then x1\<lparr>pi_is_hot := True\<rparr> else x1)"
    have x1: "pi_tier x1 = pi_tier x" "pi_is_hot x1 = pi_is_hot x" by (simp_all add: x1_def)
    have hc: "c \<longrightarrow> \<not> pi_is_hot x" by (simp add: c_def x1)
    have m': "m' = (let ti = tm_tiers m (pi_tier x1); m1 = m\<lparr>tm_pages := (tm_pages m)(?p \<mapsto> x1), tm_tiers := (tm_tiers m)(pi_tier x1 := ti\<lparr>ti_accesses := add64 (ti_accesses ti) 1\<rparr>)\<rparr>
        in if c then m1\<lparr>tm_pages := (tm_pages m1)(?p \<mapsto> x1\<lparr>pi_is_hot := True\<rparr>), tm_cold := tm_cold m1 - {?p}, tm_hot := insert ?p (tm_hot m1)\<rparr> else m1)"
      using en Some unfolding m'_def recordAccess_def c_def x1_def by (simp only: Let_def option.case not_True_eq_False if_False)
    have y: "tm_pages m' = (tm_pages m)(?p \<mapsto> y)" "pi_tier y = pi_tier x" "pi_is_hot y \<longleftrightarrow> c \<or> pi_is_hot x" "c \<longrightarrow> \<not> pi_is_hot x"
      "tm_cold m' = (if c then tm_cold m - {?p} else tm_cold m) \<and> tm_hot m' = (if c then insert ?p (tm_hot m) else tm_hot m)"
      "tm_policy m' = tm_policy m" "tm_demoted m' = tm_demoted m" "\<And>t. ti_used (tm_tiers m' t) = ti_used (tm_tiers m t)" "\<And>t. ti_capacity (tm_tiers m' t) = ti_capacity (tm_tiers m t)"
      unfolding m' y_def using x1 hc by (auto simp: Let_def)
    have "pages_in m' t = pages_in m t" for t using Some y(1,2) by (auto simp: pages_in_def)
    moreover have "dom (tm_pages m') = dom (tm_pages m)" using Some y(1) by auto
    ultimately have "accounted m'" using tm_invD(1) [OF i] y(8) by (simp add: accounted_def)
    moreover have "bounded m'" using tm_invD(2) [OF i] y(6,8,9) by (simp add: bounded_def)
    moreover have "hot_cold_ok m'" using tm_invD(3) [OF i] y(1-6) Some by (auto simp: hot_cold_ok_def split: if_splits)
    ultimately show ?thesis using tm_invD(4) [OF i] y(7) by (simp add: m'_def [symmetric] tm_inv_def)
  qed (use i en in \<open>simp add: recordAccess_def Let_def\<close>)
qed (use i in \<open>simp add: recordAccess_def\<close>)

lemma tryPromotePage_inv:
  assumes i: "tm_inv m" and pol: "tm_policy m = HOT_COLD" and hot: "\<And>x. tm_pages m p = Some x \<Longrightarrow> pi_is_hot x"
  shows "tm_inv (snd (tryPromotePage m p))"
proof (cases "tm_pages m p")
  case (Some x)
  show ?thesis
  proof (cases "pi_tier x = LOCAL_DRAM \<or> \<not> has_room LOCAL_DRAM m")
    case True
    then show ?thesis using i Some by (auto simp: tryPromotePage_def)
  next
    case False
    let ?m = "set_tier p x LOCAL_DRAM (use_bytes LOCAL_DRAM (release_bytes (pi_tier x) m))"
    have "accounted ?m" by (rule move_accounted [OF tm_invD(1) [OF i] Some]) (use False in simp)
    moreover have "bounded ?m" using False by (auto simp: bounded_def has_room_def set_tier_def use_bytes_def release_bytes_def)
    moreover have "hot_cold_ok ?m" using tm_invD(3) [OF i] hot [OF Some] Some pol by (auto simp: hot_cold_ok_def set_tier_def use_bytes_def release_bytes_def)
    ultimately have "tm_inv ?m" using tm_invD(4) [OF i] by (simp add: tm_inv_def set_tier_def use_bytes_def release_bytes_def)
    then show ?thesis using False Some by (simp add: tryPromotePage_def Let_def)
  qed
qed (use i in \<open>simp add: tryPromotePage_def\<close>)

text \<open>What a promotion leaves alone.\<close>

lemma tryPromotePage_sel:
  "tm_policy (snd (tryPromotePage m p)) = tm_policy m" "tm_hot (snd (tryPromotePage m p)) = tm_hot m" "tm_cold (snd (tryPromotePage m p)) = tm_cold m"
  "ti_capacity (tm_tiers (snd (tryPromotePage m p)) t) = ti_capacity (tm_tiers m t)" "q \<noteq> p \<Longrightarrow> tm_pages (snd (tryPromotePage m p)) q = tm_pages m q"
  "map_option pi_is_hot (tm_pages (snd (tryPromotePage m p)) q) = map_option pi_is_hot (tm_pages m q)"
  "in_local m q \<Longrightarrow> in_local (snd (tryPromotePage m p)) q" "in_cxl (snd (tryPromotePage m p)) q \<Longrightarrow> in_cxl m q"
  by (auto simp: tryPromotePage_def set_tier_def use_bytes_def release_bytes_def Let_def in_local_def in_cxl_def split: option.splits if_splits)

lemma tryPromotePage_used:
  assumes "tm_inv m"
  shows "ti_used (tm_tiers m LOCAL_DRAM) \<le> ti_used (tm_tiers (snd (tryPromotePage m p)) LOCAL_DRAM)"
  using accountedD(3,4) [OF tm_invD(1) [OF assms], of LOCAL_DRAM]
  by (auto simp: tryPromotePage_def set_tier_def use_bytes_def release_bytes_def Let_def split: option.splits)

text \<open>A page that is not promoted finds the local memory full.\<close>

definition local_full :: "tier_mgr \<Rightarrow> bool" where
  "local_full m \<longleftrightarrow> ti_capacity (tm_tiers m LOCAL_DRAM) < ti_used (tm_tiers m LOCAL_DRAM) + 4096"

lemma tryPromotePage_result:
  assumes i: "tm_inv m" and p: "tm_pages m p = Some x"
  shows "in_local (snd (tryPromotePage m p)) p \<or> local_full (snd (tryPromotePage m p))"
  using p accountedD(3,4) [OF tm_invD(1) [OF i], of LOCAL_DRAM]
  by (auto simp: tryPromotePage_def in_local_def local_full_def has_room_def set_tier_def use_bytes_def release_bytes_def Let_def)

lemma promote_loop_ok:
  assumes "tm_inv m" "tm_policy m = HOT_COLD" "set ps \<subseteq> tm_hot m"
  shows "tm_inv (promote_loop ps m) \<and> tm_policy (promote_loop ps m) = HOT_COLD \<and> tm_hot (promote_loop ps m) = tm_hot m \<and> tm_cold (promote_loop ps m) = tm_cold m \<and>
    (local_full m \<longrightarrow> local_full (promote_loop ps m)) \<and> (\<forall>q. in_local m q \<longrightarrow> in_local (promote_loop ps m) q) \<and>
    (\<forall>q. q \<notin> set ps \<longrightarrow> tm_pages (promote_loop ps m) q = tm_pages m q) \<and> (\<forall>q \<in> set ps. in_local (promote_loop ps m) q \<or> local_full (promote_loop ps m))"
  using assms
proof (induction ps arbitrary: m)
  case (Cons p ps)
  let ?m = "snd (tryPromotePage m p)"
  have p: "\<exists>x. tm_pages m p = Some x \<and> pi_is_hot x" using tm_invD(3) [OF Cons.prems(1)] Cons.prems(2,3) by (auto simp: hot_cold_ok_def)
  have i: "tm_inv ?m" by (rule tryPromotePage_inv [OF Cons.prems(1,2)]) (use p in auto)
  note S = tryPromotePage_sel [where m = m and p = p]
  have IH: "tm_inv (promote_loop ps ?m) \<and> tm_policy (promote_loop ps ?m) = HOT_COLD \<and> tm_hot (promote_loop ps ?m) = tm_hot ?m \<and> tm_cold (promote_loop ps ?m) = tm_cold ?m \<and>
      (local_full ?m \<longrightarrow> local_full (promote_loop ps ?m)) \<and> (\<forall>q. in_local ?m q \<longrightarrow> in_local (promote_loop ps ?m) q) \<and>
      (\<forall>q. q \<notin> set ps \<longrightarrow> tm_pages (promote_loop ps ?m) q = tm_pages ?m q) \<and> (\<forall>q \<in> set ps. in_local (promote_loop ps ?m) q \<or> local_full (promote_loop ps ?m))"
    by (rule Cons.IH [OF i]) (use Cons.prems(2,3) S(1,2) in simp_all)
  have f: "local_full m \<longrightarrow> local_full ?m" using tryPromotePage_used [OF Cons.prems(1), of p] S(4) [where t = LOCAL_DRAM] by (simp add: local_full_def)
  have "in_local ?m p \<or> local_full ?m" using tryPromotePage_result [OF Cons.prems(1)] p by blast
  then have g: "in_local (promote_loop ps ?m) p \<or> local_full (promote_loop ps ?m)" using IH by blast
  have l: "in_local (promote_loop ps ?m) q" if "in_local m q" for q using IH S(7) [OF that] by blast
  have o: "tm_pages (promote_loop ps ?m) q = tm_pages m q" if "q \<notin> set (p # ps)" for q using IH S(5) [where q = q] that by simp
  show ?case unfolding promote_loop.simps using IH S(2,3) f g l o by auto
qed simp

text \<open>No cold page is in the local memory, so that the loop of demotions finds none.\<close>

lemma checkMigration_ok:
  assumes i: "tm_inv m" and o: "\<And>S. finite S \<Longrightarrow> set (order S) = S" and en: "tm_enabled m" "tm_policy m = HOT_COLD"
  shows "tm_inv (checkMigration order m)" "checkMigration order m = promote_loop (filter (in_cxl m) (order (tm_hot m))) m"
proof -
  let ?ps = "filter (in_cxl m) (order (tm_hot m))" let ?m = "promote_loop ?ps m"
  have fin: "finite (dom (tm_pages m))" using tm_invD(1) [OF i] finite_subset [OF _ finite_lessThan] unfolding accounted_def by blast
  have hc: "tm_hot m \<subseteq> dom (tm_pages m)" "tm_cold m \<subseteq> dom (tm_pages m)" using tm_invD(3) [OF i] en(2) by (auto simp: hot_cold_ok_def)
  have "set ?ps \<subseteq> tm_hot m" using o [OF finite_subset [OF hc(1) fin]] by auto
  note P = promote_loop_ok [OF i en(2) this]
  have "finite (tm_cold ?m)" using P finite_subset [OF hc(2) fin] by simp
  then have "filter (in_local ?m) (order (tm_cold ?m)) = []" using o P tm_invD(3) [of ?m] by (auto simp: filter_empty_conv hot_cold_ok_def in_local_def split: option.splits)
  then show e: "checkMigration order m = ?m" using en by (simp add: checkMigration_def Let_def)
  show "tm_inv (checkMigration order m)" unfolding e using P by blast
qed

section \<open>Runs\<close>

inductive tm_reach :: "(u64 set \<Rightarrow> u64 list) \<Rightarrow> tier_mgr \<Rightarrow> tier_mgr \<Rightarrow> bool" for order m0 where
  start: "tm_reach order m0 m0"
| touch: "tm_reach order m0 m \<Longrightarrow> address < 2 ^ 63 \<Longrightarrow> tm_reach order m0 (snd (getTier m address))"
| accessed: "tm_reach order m0 m \<Longrightarrow> tm_reach order m0 (recordAccess m address time)"
| migrate: "tm_reach order m0 m \<Longrightarrow> tm_reach order m0 (checkMigration order m)"

lemma tm_reach_inv:
  assumes "tm_reach order m0 m" "tm_inv m0" "\<And>S. finite S \<Longrightarrow> set (order S) = S"
  shows "tm_inv m"
  using assms(1)
proof induction
  case (migrate m)
  then show ?case using checkMigration_ok(1) [OF migrate.IH assms(3)] by (cases "tm_enabled m \<and> tm_policy m = HOT_COLD") (auto simp: checkMigration_def)
qed (use assms(2) getTier_inv recordAccess_inv in auto)

section \<open>Properties\<close>

text \<open>
  C18: the accounting of the tiers is exact in every run: the bytes in use of a tier are
  those of the pages that are in it, a page is in at most one tier, and under the policies that look at the
  capacity the local memory never holds more than it can.
\<close>

theorem tier_accounting_exact:
  assumes "tm_reach order (tier_mgr_new enabled policy local_gb cxl_gb cxl_start hot cold granularity) m" "\<And>S. finite S \<Longrightarrow> set (order S) = S"
  shows "(\<forall>t. finite (pages_in m t) \<and> ti_used (tm_tiers m t) = 4096 * card (pages_in m t)) \<and> (\<forall>t t'. t \<noteq> t' \<longrightarrow> pages_in m t \<inter> pages_in m t' = {}) \<and>
    (tm_policy m = FIRST_TOUCH \<or> tm_policy m = HOT_COLD \<longrightarrow> 4096 * card (pages_in m LOCAL_DRAM) \<le> ti_capacity (tm_tiers m LOCAL_DRAM))"
proof -
  have i: "tm_inv m" by (rule tm_reach_inv [OF assms(1) tm_inv_new assms(2)])
  have u: "finite (pages_in m t) \<and> ti_used (tm_tiers m t) = 4096 * card (pages_in m t)" for t using accountedD(1,3) [OF tm_invD(1) [OF i]] by blast
  have "pages_in m t \<inter> pages_in m t' = {}" if "t \<noteq> t'" for t t' using that by (auto simp: pages_in_def)
  then show ?thesis using u tm_invD(2) [OF i] unfolding bounded_def by auto
qed

definition one_page_order :: "u64 set \<Rightarrow> u64 list" where
  "one_page_order S = sorted_list_of_set S"

theorem tier_accounting_exact_witness:
  "\<exists>m. tm_reach one_page_order (tier_mgr_new True FIRST_TOUCH 1 1 0 1 1 1) m \<and> pages_in m LOCAL_DRAM = {5} \<and> ti_used (tm_tiers m LOCAL_DRAM) = 4096"
proof -
  let ?init = "tier_mgr_new True FIRST_TOUCH 1 1 0 1 1 1"
  have r: "tm_reach one_page_order ?init (snd (getTier ?init 0x5000))" by (rule tm_reach.touch [OF tm_reach.start]) simp
  have s: "set (one_page_order S) = S" if "finite S" for S using that by (simp add: one_page_order_def)
  have p: "pages_in (snd (getTier ?init 0x5000)) LOCAL_DRAM = {5}"
    by (auto simp: getTier_def tier_mgr_new_def Let_def getTierFirstTouch_def has_room_def mul64_def add64_def getPageNumber_def drop_bit_eq_div
        put_new_page_def use_bytes_def page_info_new_def pages_in_def split: if_splits)
  with tier_accounting_exact [OF r s] r show ?thesis by auto
qed

text \<open>
  C19: a check for migration under the policy for hot and cold pages brings hot pages to the local memory.
  Afterwards every hot page is there unless the local memory has no room for a page,
  no page has left it, and pages that are not hot are where they were.
\<close>

theorem migration_promotes_hot_pages:
  assumes "tm_reach order (tier_mgr_new True HOT_COLD local_gb cxl_gb cxl_start hot cold granularity) m" "\<And>S. finite S \<Longrightarrow> set (order S) = S"
    and "tm_enabled m" "tm_policy m = HOT_COLD"
  shows "(\<forall>p \<in> tm_hot m. in_local (checkMigration order m) p \<or> local_full (checkMigration order m)) \<and>
    (\<forall>p. in_local m p \<longrightarrow> in_local (checkMigration order m) p) \<and>
    (\<forall>p. p \<notin> tm_hot m \<longrightarrow> tm_pages (checkMigration order m) p = tm_pages m p)"
proof -
  have i: "tm_inv m" by (rule tm_reach_inv [OF assms(1) tm_inv_new assms(2)])
  let ?ps = "filter (in_cxl m) (order (tm_hot m))"
  have C: "checkMigration order m = promote_loop ?ps m" by (rule checkMigration_ok(2) [OF i assms(2-4)])
  have "dom (tm_pages m) \<subseteq> {..<2 ^ 51}" using tm_invD(1) [OF i] unfolding accounted_def by blast
  then have fin: "finite (dom (tm_pages m))" by (rule finite_subset [OF _ finite_lessThan])
  have d: "tm_hot m = {p. \<exists>x. tm_pages m p = Some x \<and> pi_is_hot x}" using tm_invD(3) [OF i] assms(4) unfolding hot_cold_ok_def by blast
  have "tm_hot m \<subseteq> dom (tm_pages m)" unfolding d by auto
  then have s: "set (order (tm_hot m)) = tm_hot m" using assms(2) finite_subset [OF _ fin] by blast
  then have ps: "set ?ps \<subseteq> tm_hot m" by auto
  note P = promote_loop_ok [OF i assms(4) ps]
  have "in_local (checkMigration order m) p \<or> local_full (checkMigration order m)" if h: "p \<in> tm_hot m" for p
  proof (cases "in_cxl m p")
    case True
    then have "p \<in> set ?ps" using h s by simp
    then show ?thesis unfolding C using P by blast
  next
    case False
    then have "in_local m p" using h unfolding d by (auto simp: in_cxl_def in_local_def)
    then show ?thesis unfolding C using P by blast
  qed
  moreover have "tm_pages (checkMigration order m) p = tm_pages m p" if "p \<notin> tm_hot m" for p
  proof -
    have "p \<notin> set ?ps" using that ps by blast
    then show ?thesis unfolding C using P by blast
  qed
  ultimately show ?thesis unfolding C using P by blast
qed

theorem migration_promotes_hot_pages_witness:
  "\<exists>m. tm_reach one_page_order (tier_mgr_new True HOT_COLD 1 1 0 1 1 1) m \<and> 5 \<in> tm_hot m \<and> \<not> in_local m 5 \<and>
     (in_local (checkMigration one_page_order m) 5 \<or> local_full (checkMigration one_page_order m))"
proof -
  let ?init = "tier_mgr_new True HOT_COLD 1 1 0 1 1 1"
  let ?m = "recordAccess (snd (getTier ?init 0x5000)) 0x5000 7"
  have "tm_reach one_page_order ?init (snd (getTier ?init 0x5000))" by (rule tm_reach.touch [OF tm_reach.start]) simp
  then have r: "tm_reach one_page_order ?init ?m" by (rule tm_reach.accessed)
  have s: "set (one_page_order S) = S" if "finite S" for S using that by (simp add: one_page_order_def)
  have h: "5 \<in> tm_hot ?m \<and> \<not> in_local ?m 5 \<and> tm_enabled ?m \<and> tm_policy ?m = HOT_COLD"
    by (simp add: getTier_def tier_mgr_new_def Let_def getTierHotCold_def recordAccess_def mul64_def add64_def getPageNumber_def drop_bit_eq_div
        put_new_page_def use_bytes_def page_info_new_def in_local_def)
  from migration_promotes_hot_pages [OF r s] h have "in_local (checkMigration one_page_order ?m) 5 \<or> local_full (checkMigration one_page_order ?m)" by blast
  with r h show ?thesis by blast
qed

section \<open>Pages never become cold again\<close>

text \<open>
  A page leaves the set of cold pages when it becomes hot and never returns, and it is moved to the
  local memory only when it is hot. The loop that demotes cold pages of the local memory
  therefore never finds one: once the local memory is full, no page that becomes hot
  later is promoted.
\<close>

lemma pages_never_demoted:
  assumes "tm_reach order (tier_mgr_new enabled HOT_COLD local_gb cxl_gb cxl_start hot cold granularity) m" "\<And>S. finite S \<Longrightarrow> set (order S) = S"
  shows "tm_demoted m = 0 \<and> (tm_policy m = HOT_COLD \<longrightarrow> filter (in_local m) (order (tm_cold m)) = [])"
proof -
  have i: "tm_inv m" by (rule tm_reach_inv [OF assms(1) tm_inv_new assms(2)])
  have "filter (in_local m) (order (tm_cold m)) = []" if pol: "tm_policy m = HOT_COLD"
  proof -
    have c: "tm_cold m = {p. \<exists>x. tm_pages m p = Some x \<and> \<not> pi_is_hot x}" "\<forall>p x. tm_pages m p = Some x \<and> \<not> pi_is_hot x \<longrightarrow> pi_tier x \<noteq> LOCAL_DRAM"
      using tm_invD(3) [OF i] pol unfolding hot_cold_ok_def by blast+
    have "dom (tm_pages m) \<subseteq> {..<2 ^ 51}" using tm_invD(1) [OF i] unfolding accounted_def by blast
    then have "finite (dom (tm_pages m))" by (rule finite_subset [OF _ finite_lessThan])
    then have "finite (tm_cold m)" by (rule rev_finite_subset) (auto simp: c(1))
    then have "set (order (tm_cold m)) = tm_cold m" by (rule assms(2))
    moreover have "\<not> in_local m p" if "p \<in> tm_cold m" for p using that c(2) unfolding c(1) by (auto simp: in_local_def)
    ultimately show ?thesis by (simp add: filter_empty_conv)
  qed
  then show ?thesis using tm_invD(4) [OF i] by blast
qed

end
