(* ===== verification/Spec2Isabelle.thy ===== *)
theory Spec2Isabelle
  imports Fault_Handler HugeTLBfs Swap_Cache Eager_Paging Replacement_Approx Range_Walk TLB Coherence Utopia NUMA_THP CXL_Tier
begin

text \<open>
  \<^bold>\<open>Virtuoso: memory management, address translation and cache coherence\<close>

  Virtuoso couples a simulated operating system, MimicOS, with the Sniper simulator.
  Paths below are relative to \<open>src/simulator/sniper/\<close>. A memory access goes through a
  TLB; on a miss a page table is walked; on a fault the exception handler asks a
  physical allocator for a page, gives the page table the frames it lacks and repeats
  the walk. The translated access goes to the caches, whose last levels are kept
  coherent by a directory. The development models the code on this path and proves, for
  each part, what the next part relies on.

  \<^bold>\<open>Theories and sources\<close>

  \<^item> \<open>Prelude\<close>: 64-bit unsigned arithmetic as natural numbers with the wrap-around written
    out, outcomes (\<open>Inl\<close> an error, \<open>Inr\<close> a value) and shared lemmas. A failing assertion,
    an uncaught exception and undefined behaviour of C++ are errors of their own.

  \<^item> \<open>Buddy\<close>, \<open>Buddy_Machine\<close>: the buddy allocator
    (\<open>include/memory_management/physical_memory_allocators/buddy.h\<close>): free lists per
    order, splitting, merging, reservation of 2 MB blocks, fragmentation to a count.
    Shown: the free lists always partition the pages that no client holds, every
    operation does what its name says on every branch, and the loops end. The locale
    \<open>page_source\<close> states what a client relies on; the buddy allocator and the pool of
    huge pages are its instances.

  \<^item> \<open>Phys_Alloc\<close>: the base class of the allocators and the baseline allocator
    (\<open>physical_memory_allocator.h\<close>, \<open>baseline.h\<close>): areas for instructions and metadata.

  \<^item> \<open>Reserve_THP\<close>: transparent huge pages by reservation (\<open>reserve_thp.h\<close>). Shown:
    different virtual pages have different frames, and a frame does not change when its
    region is promoted.

  \<^item> \<open>HugeTLBfs\<close>, \<open>Swap_Cache\<close>: the pool of huge pages (\<open>hugetlbfs.h\<close>) and the swap cache
    (\<open>swap_cache.h\<close>), the latter as an instance of the locale \<open>key_store\<close> of \<open>Store\<close>.

  \<^item> \<open>Eager_Paging\<close>: virtual memory areas and eager paging (\<open>vma.h\<close>, \<open>eager_paging.h\<close>).

  \<^item> \<open>Translation\<close>, \<open>Radix\<close>: the contract \<open>page_table\<close> of a page table and the radix page
    table (\<open>common/.../pagetable_radix.cc\<close>) that satisfies it. Shown: a walk returns what
    the table maps, an update and a deletion change exactly one page, and the frames
    that a faulting walk asks for are those that the update uses.

  \<^item> \<open>Fault_Handler\<close>: the page-fault path (\<open>sniper_space_exception_handler.cc\<close>) over the
    locale \<open>fault_allocator\<close>, instantiated by the reservation-based and the baseline
    allocator: the composition of allocator, handler and page table.

  \<^item> \<open>Cache_Set\<close>, \<open>Replacement\<close>, \<open>Replacement_Approx\<close>: sets of a cache or TLB and their
    replacement policies (\<open>common/core/memory_subsystem/cache/cache_set*.cc\<close>), with the
    locales \<open>replacement\<close> and \<open>invalid_first\<close> as the contract that insertion relies on.

  \<^item> \<open>Cache_Array\<close>, \<open>TLB\<close>: the array of sets with its index hashes (\<open>cache_base.cc\<close>,
    \<open>cache.cc\<close>) and the TLB (\<open>tlb.cc\<close>). Shown: a TLB that is filled from a page table and
    invalidated when the table changes never returns an outdated translation.

  \<^item> \<open>Range_Table\<close>, \<open>Range_Walk\<close>: the B-tree of ranges (\<open>rangetable_btree.cc\<close>), the range
    lookaside buffer and the range walk (\<open>rangelb.cc\<close>, \<open>mmu_range.cc\<close>).

  \<^item> \<open>Directory\<close>, \<open>Directory_Cntlr\<close>: homes of addresses, directory entries, the directory
    cache and the directory controller (\<open>address_home_lookup.cc\<close>, \<open>directory_schemes/\<close>,
    \<open>pr_l1_pr_l2_dram_directory_msi/\<close>).

  \<^item> \<open>Cache_Cntlr\<close>: the controller of a last-level cache
    (\<open>parametric_dram_directory_msi/cache_cntlr.cc\<close>).

  \<^item> \<open>Coherence_Line\<close>, \<open>Coherence_Queue\<close>, \<open>Directory_View\<close>, \<open>Coherence_Dir\<close>, \<open>Coherence\<close>:
    the system of caches, directory and memory. \<open>Coherence_Line\<close> states the invariant of
    one line and one cache, \<open>Coherence_Queue\<close> lifts it to the queue of requests of a line,
    \<open>Directory_View\<close> reads the directory cache as a map from addresses to entries,
    \<open>Coherence_Dir\<close> shows that every handler of the directory keeps the invariant of all
    lines, and \<open>Coherence\<close> composes this with the steps of the caches. Shown: at most
    one cache may write a line and then no other cache has it, and no assertion of a
    cache fails, for every interleaving of accesses, messages and evictions.

  \<^item> \<open>Map_Store\<close>, \<open>Way_Table\<close>, \<open>Rest_Seg\<close>: the restrictive segments of Utopia (\<open>utopia.h\<close>). The
    locale \<open>map_store\<close> of \<open>Map_Store\<close> states what a table of ways promises; the radix way tables with their
    packed leaves are its instance. A segment is a set-associative store of frames.
    Shown: both ways to find a page agree, different pages have disjoint frames, an
    allocation keeps all pages but the victim it reports, and the counters are exact.

  \<^item> \<open>Cost_TopK\<close>, \<open>Utopia\<close>: the policy that chooses the pages to migrate, and the allocator that composes
    the segments, the reserved regions and the buddy allocator (\<open>utopia.h\<close>, with the hook of
    \<open>mmu_utopia.cc\<close>). Shown: no page of memory is lost or handed out twice in any run, what an
    allocation and a migration do to every page, and a bound on the number of migrations.

  \<^item> \<open>NUMA_Policy\<close>, \<open>NUMA_Buddy\<close>, \<open>NUMA_THP\<close>: memory with several nodes. The placement engine
    (\<open>numa/numa_policy.h\<close>) chooses the node of a page and the nodes to speculate on, the NUMA buddy
    allocator (\<open>numa/numa_buddy_allocator.h\<close>), another instance of \<open>page_source\<close>, has one buddy per node,
    and the huge-page allocator (\<open>numa_reserve_thp.h\<close>) composes both. Shown: the chosen node is one that
    the policy allows, no page is granted twice across the nodes, a page is on the node the policy
    selected unless that node cannot serve it, hints are independent of each other, and page tables never
    overlap data. A demotion returns pages that are in use to the free lists, so that the theorems on
    frames are about runs without demotion.

  \<^item> \<open>CXL_Tier\<close>: the manager of local and CXL-attached memory (\<open>cxl_memory_tier_manager.cc\<close>). Shown:
    the accounting of the tiers is exact, and what a check for migration achieves.

  \<^bold>\<open>Correspondence\<close>

  A class is a record of its data members, an operation a function from the record to
  an outcome with the new record; statistics that no later operation reads are left
  out except where a theorem is about them (the counters of the pool of huge pages).
  Addresses and page numbers are kept at 64 bits. Functions take as arguments what
  the code obtains elsewhere: the victim of a policy when only the protocol matters, the
  answer of the cache controller to a query of a replacement policy, the prefetches
  that a prefetcher generates, the order in which an unordered container is
  traversed. Messages between the directory and a cache arrive in the order in which
  they were sent, as on the network of the simulator; a handler runs with the lock of
  its address held, so that it is one step.

  \<^bold>\<open>Loops and bounds\<close>

  Loops are functions with termination proofs or recursion over the data; the loops
  of the buddy allocator end because an order increases or the number of large blocks
  decreases. The walk of the radix page table is bounded by its four levels. The
  coherence theorems hold for any number of caches that a directory entry can hold and
  for the MSI and MESI protocols with full-map, limited or limitless entries; with MESIF
  or with entries that drop sharers the directory sends invalidations that the
  invariant does not cover.

  \<^bold>\<open>Not modelled\<close>

  Latencies, contention and energy; logging and statistics; configuration files; the
  contents of cache lines except as opaque values in the coherence protocol; the
  ratio-driven fragmentation of the buddy allocator, which draws random numbers and
  compares doubles; the cache levels above the last one; the NUCA cache; the coalescing variant of
  Utopia and the MMU of Utopia but for its migration hook; the SpOT and
  ASAP allocators and the MMUs that use them; walk caches; hashed, nested and virtualised page
  tables; prefetchers and speculation engines, which only influence timing; the Sniper
  core models, frontends and decoders.
\<close>

end
